(* ===== verification/Prelude.thy ===== *)
theory Prelude
  imports Main "HOL-Library.Word"
begin

text \<open>
  Shared vocabulary of the development: C integer types, result codes, the outcomes of
  allocations, C strings, and the generic lemmas the components use.
\<close>

section \<open>Machine types\<close>

unbundle bit_operations_syntax

type_synonym u8 = "8 word"
type_synonym u16 = "16 word"
type_synonym u32 = "32 word"
type_synonym u64 = "64 word"

text \<open>A C pointer to bytes: the byte at each non-negative offset from it.\<close>

type_synonym bytes = "nat \<Rightarrow> u8"

text \<open>A buffer that starts with the bytes \<open>bs\<close>.\<close>

definition starts_with :: "bytes \<Rightarrow> u8 list \<Rightarrow> bool" where
  "starts_with p bs \<longleftrightarrow> (\<forall>i < length bs. p i = bs ! i)"

section \<open>Result codes\<close>

datatype rc = SQLITE_OK | SQLITE_NOMEM | SQLITE_BUSY | SQLITE_CORRUPT | SQLITE_FULL
  | SQLITE_IOERR | SQLITE_IOERR_NOMEM | SQLITE_IOERR_SHORT_READ | SQLITE_TOOBIG

section \<open>The allocator as a list of outcomes\<close>

text \<open>
  Every call of \<^verbatim>\<open>sqlite3Malloc\<close>, \<^verbatim>\<open>malloc\<close> and their kin may fail. The outcomes of the
  calls to come are a list: the head decides the next call, and the empty list means that
  every further call succeeds.
\<close>

type_synonym outcomes = "bool list"

fun alloc_next :: "outcomes \<Rightarrow> bool \<times> outcomes" where
  "alloc_next [] = (True, [])"
| "alloc_next (b # bs) = (b, bs)"

lemma alloc_next_Nil [simp]: "alloc_next [] = (True, [])"
  by simp

text \<open>Two's complement: the value of a C \<^verbatim>\<open>i64\<close> or \<^verbatim>\<open>int\<close> after wrap-around.\<close>

definition i64 :: "int \<Rightarrow> int" where
  "i64 x = (x + 2 ^ 63) mod 2 ^ 64 - 2 ^ 63"

definition i32 :: "int \<Rightarrow> int" where
  "i32 x = (x + 2 ^ 31) mod 2 ^ 32 - 2 ^ 31"

lemma i64_id: "- (2 ^ 63) \<le> x \<Longrightarrow> x < 2 ^ 63 \<Longrightarrow> i64 x = x"
  by (simp add: i64_def)

lemma i32_id: "- (2 ^ 31) \<le> x \<Longrightarrow> x < 2 ^ 31 \<Longrightarrow> i32 x = x"
  by (simp add: i32_def)

lemma i64_cong: "x mod 2 ^ 64 = y mod 2 ^ 64 \<Longrightarrow> i64 x = i64 y"
  unfolding i64_def by (metis mod_add_left_eq)

lemma i64_mod: "i64 x mod 2 ^ 64 = x mod 2 ^ 64"
  by (simp add: i64_def mod_simps)

section \<open>C strings\<close>

text \<open>
  A NUL-terminated string is the list of the characters before the terminator; \<open>hd0\<close> reads
  the character a pointer points at, which is the terminator at the end of the list.
\<close>

abbreviation NUL :: char where "NUL \<equiv> CHR 0x00"

abbreviation ordc :: "char \<Rightarrow> nat" where "ordc c \<equiv> of_char c"

definition hd0 :: "string \<Rightarrow> char" where
  "hd0 z = (case z of [] \<Rightarrow> NUL | c # _ \<Rightarrow> c)"

lemma hd0_simps [simp]: "hd0 [] = NUL" "hd0 (c # z) = c"
  by (simp_all add: hd0_def)

definition cstr :: "string \<Rightarrow> bool" where
  "cstr z \<longleftrightarrow> NUL \<notin> set z"

lemma cstr_simps [simp]: "cstr []" "cstr (c # z) \<longleftrightarrow> c \<noteq> NUL \<and> cstr z"
  by (auto simp: cstr_def)

lemma hd0_NUL: "cstr z \<Longrightarrow> hd0 z = NUL \<longleftrightarrow> z = []"
  by (cases z) auto

text \<open>
  The character classes of \<^verbatim>\<open>sqlite3CtypeMap\<close> and the case folding of
  \<^verbatim>\<open>sqlite3UpperToLower\<close> (\<^verbatim>\<open>global.c\<close>), by the ranges the tables mark.
\<close>

definition sqlite3UpperToLower :: "char \<Rightarrow> nat" where
  "sqlite3UpperToLower c = (if 65 \<le> ordc c \<and> ordc c \<le> 90 then ordc c + 32 else ordc c)"

definition sqlite3Isspace :: "char \<Rightarrow> bool" where
  "sqlite3Isspace c \<longleftrightarrow> (9 \<le> ordc c \<and> ordc c \<le> 13) \<or> ordc c = 32"

definition sqlite3Isdigit :: "char \<Rightarrow> bool" where
  "sqlite3Isdigit c \<longleftrightarrow> 48 \<le> ordc c \<and> ordc c \<le> 57"

definition sqlite3Isxdigit :: "char \<Rightarrow> bool" where
  "sqlite3Isxdigit c \<longleftrightarrow> (48 \<le> ordc c \<and> ordc c \<le> 57) \<or> (65 \<le> ordc c \<and> ordc c \<le> 70) \<or> (97 \<le> ordc c \<and> ordc c \<le> 102)"

lemma class_NUL [simp]: "\<not> sqlite3Isspace NUL" "\<not> sqlite3Isdigit NUL" "\<not> sqlite3Isxdigit NUL"
  "sqlite3UpperToLower NUL = 0"
  by (simp_all add: sqlite3Isspace_def sqlite3Isdigit_def sqlite3Isxdigit_def sqlite3UpperToLower_def)

lemma ord_eq_0 [simp]: "ordc c = 0 \<longleftrightarrow> c = NUL"
  using of_char_eq_iff [where 'a = nat, of c NUL] by (simp del: of_char_eq_iff)

lemma ord_less [simp]: "ordc c < 256"
  by simp

section \<open>Words, bit by bit\<close>

lemma all_less_numeral:
  "(\<forall>n < (numeral k :: nat). P n) \<longleftrightarrow> P (pred_numeral k) \<and> (\<forall>n < pred_numeral k. P n)"
  by (simp add: numeral_eq_Suc All_less_Suc)

lemma u64_eqI: "(\<forall>n<64. bit (a::u64) n = bit b n) \<Longrightarrow> a = b"
  by (rule bit_word_eqI) simp

lemma u32_eqI: "(\<forall>n<32. bit (a::u32) n = bit b n) \<Longrightarrow> a = b"
  by (rule bit_word_eqI) simp

lemma u8_eqI: "(\<forall>n<8. bit (a::u8) n = bit b n) \<Longrightarrow> a = b"
  by (rule bit_word_eqI) simp

lemma u8_beyond: "8 \<le> n \<Longrightarrow> \<not> bit (x::u8) n"
  using bit_imp_le_length[of x n] by auto

lemmas each_bit = all_less_numeral pred_numeral_simps BitM.simps

lemma u32_beyond: "32 \<le> n \<Longrightarrow> \<not> bit (x::u32) n"
  using bit_imp_le_length [of x n] by auto

lemma u64_beyond: "64 \<le> n \<Longrightarrow> \<not> bit (x::u64) n"
  using bit_imp_le_length [of x n] by auto

lemmas bit_rules = bit_or_iff bit_and_iff bit_not_iff bit_push_bit_iff bit_drop_bit_eq bit_ucast_iff
  u8_beyond u32_beyond u64_beyond bit_numeral_rec

lemma abs_word: "uint (if sint v < 0 then - v else v) = \<bar>sint (v::u64)\<bar>"
proof -
  have r: "- (2 ^ 63) \<le> sint v" "sint v < 2 ^ 63" "(2::int) ^ 63 < 2 ^ 64" using sint_ge [of v] sint_lt [of v] by simp_all
  have u: "uint (word_of_int k :: u64) = k" if "0 \<le> k" "k < 2 ^ 64" for k :: int
    using that by (simp add: uint_word_of_int)
  have "(if sint v < 0 then - v else v) = word_of_int \<bar>sint v\<bar>" by simp
  moreover have "uint (word_of_int \<bar>sint v\<bar> :: u64) = \<bar>sint v\<bar>" using r by (intro u) linarith+
  ultimately show ?thesis by (simp only:)
qed

end
