(* ===== verification/JsLong.thy ===== *)
theory JsLong
  imports Prelude
begin

text \<open>
  The 64-bit integers of SpiderMonkey on platforms without a 64-bit type, which the eCos port
  is (\<^verbatim>\<open>jsosdep.h\<close> does not define \<^verbatim>\<open>JS_HAVE_LONG_LONG\<close> for it): two 32-bit halves, the macros
  of \<^verbatim>\<open>jslong.h\<close> and the division of \<^verbatim>\<open>jslong.c\<close>. The specification is the arithmetic of 64-bit
  words. The conversions from and to \<^verbatim>\<open>double\<close> are not modelled.
\<close>

section \<open>The macros\<close>

record jsint64 =
  lo :: u32
  hi :: u32

abbreviation mk64 :: "u32 \<Rightarrow> u32 \<Rightarrow> jsint64" where
  "mk64 h l \<equiv> \<lparr>lo = l, hi = h\<rparr>"

definition JSLL_IS_ZERO :: "jsint64 \<Rightarrow> bool" where
  "JSLL_IS_ZERO a \<longleftrightarrow> hi a = 0 \<and> lo a = 0"

definition JSLL_EQ :: "jsint64 \<Rightarrow> jsint64 \<Rightarrow> bool" where
  "JSLL_EQ a b \<longleftrightarrow> hi a = hi b \<and> lo a = lo b"

definition JSLL_NE :: "jsint64 \<Rightarrow> jsint64 \<Rightarrow> bool" where
  "JSLL_NE a b \<longleftrightarrow> hi a \<noteq> hi b \<or> lo a \<noteq> lo b"

definition JSLL_GE_ZERO :: "jsint64 \<Rightarrow> bool" where
  "JSLL_GE_ZERO a \<longleftrightarrow> drop_bit 31 (hi a) = 0"

text \<open>\<^verbatim>\<open>JSLL_CMP(a, <, b)\<close> and \<^verbatim>\<open>JSLL_UCMP(a, <, b)\<close>; for \<^verbatim>\<open>>\<close> the arguments are exchanged.\<close>

definition JSLL_CMP_less :: "jsint64 \<Rightarrow> jsint64 \<Rightarrow> bool" where
  "JSLL_CMP_less a b \<longleftrightarrow> sint (hi a) < sint (hi b) \<or> (hi a = hi b \<and> lo a < lo b)"

definition JSLL_UCMP_less :: "jsint64 \<Rightarrow> jsint64 \<Rightarrow> bool" where
  "JSLL_UCMP_less a b \<longleftrightarrow> hi a < hi b \<or> (hi a = hi b \<and> lo a < lo b)"

definition JSLL_AND :: "jsint64 \<Rightarrow> jsint64 \<Rightarrow> jsint64" where
  "JSLL_AND a b = mk64 (hi a AND hi b) (lo a AND lo b)"

definition JSLL_OR :: "jsint64 \<Rightarrow> jsint64 \<Rightarrow> jsint64" where
  "JSLL_OR a b = mk64 (hi a OR hi b) (lo a OR lo b)"

definition JSLL_XOR :: "jsint64 \<Rightarrow> jsint64 \<Rightarrow> jsint64" where
  "JSLL_XOR a b = mk64 (hi a XOR hi b) (lo a XOR lo b)"

definition JSLL_NOT :: "jsint64 \<Rightarrow> jsint64" where
  "JSLL_NOT a = mk64 (NOT (hi a)) (NOT (lo a))"

definition JSLL_NEG :: "jsint64 \<Rightarrow> jsint64" where
  "JSLL_NEG a = (let l = - lo a in mk64 (- hi a - of_bool (l \<noteq> 0)) l)"

definition JSLL_ADD :: "jsint64 \<Rightarrow> jsint64 \<Rightarrow> jsint64" where
  "JSLL_ADD a b = (let l = lo a + lo b in mk64 (hi a + hi b + of_bool (l < lo b)) l)"

definition JSLL_SUB :: "jsint64 \<Rightarrow> jsint64 \<Rightarrow> jsint64" where
  "JSLL_SUB a b = mk64 (hi a - hi b - of_bool (lo a < lo b)) (lo a - lo b)"

definition jslo16 :: "u32 \<Rightarrow> u32" where
  "jslo16 a = a AND 0xffff"

definition jshi16 :: "u32 \<Rightarrow> u32" where
  "jshi16 a = drop_bit 16 a"

definition JSLL_MUL32 :: "u32 \<Rightarrow> u32 \<Rightarrow> jsint64" where
  "JSLL_MUL32 a b =
    (let a1 = jshi16 a; a0 = jslo16 a; b1 = jshi16 b; b0 = jslo16 b;
         y0 = a0 * b0; y1 = a0 * b1; y2 = a1 * b0; y3 = a1 * b1;
         y1 = y1 + jshi16 y0;
         y1 = y1 + y2;
         y3 = (if y1 < y2 then y3 + 0x10000 else y3)
     in mk64 (y3 + jshi16 y1) (push_bit 16 (jslo16 y1) + jslo16 y0))"

definition JSLL_MUL :: "jsint64 \<Rightarrow> jsint64 \<Rightarrow> jsint64" where
  "JSLL_MUL a b =
    (let r = JSLL_MUL32 (lo a) (lo b) in r\<lparr>hi := hi r + (hi a * lo b + lo a * hi b)\<rparr>)"

text \<open>Shifts by \<open>b\<close> with \<open>0 \<le> b < 64\<close>.\<close>

definition JSLL_SHL :: "jsint64 \<Rightarrow> nat \<Rightarrow> jsint64" where
  "JSLL_SHL a b =
    (if b \<noteq> 0 then
       if b < 32 then mk64 (push_bit (b mod 32) (hi a) OR drop_bit (32 - b) (lo a)) (push_bit (b mod 32) (lo a))
       else mk64 (push_bit (b mod 32) (lo a)) 0
     else a)"

definition JSLL_ISHL :: "u32 \<Rightarrow> nat \<Rightarrow> jsint64" where
  "JSLL_ISHL a b =
    (if b \<noteq> 0 then
       if b < 32 then mk64 (signed_drop_bit (32 - b) a) (push_bit (b mod 32) a)
       else mk64 (push_bit (b mod 32) a) 0
     else mk64 0 a)"

definition JSLL_SHR :: "jsint64 \<Rightarrow> nat \<Rightarrow> jsint64" where
  "JSLL_SHR a b =
    (if b \<noteq> 0 then
       if b < 32 then mk64 (signed_drop_bit (b mod 32) (hi a)) (push_bit (32 - b) (hi a) OR drop_bit (b mod 32) (lo a))
       else mk64 (signed_drop_bit 31 (hi a)) (signed_drop_bit (b mod 32) (hi a))
     else a)"

definition JSLL_USHR :: "jsint64 \<Rightarrow> nat \<Rightarrow> jsint64" where
  "JSLL_USHR a b =
    (if b \<noteq> 0 then
       if b < 32 then mk64 (drop_bit (b mod 32) (hi a)) (push_bit (32 - b) (hi a) OR drop_bit (b mod 32) (lo a))
       else mk64 0 (drop_bit (b mod 32) (hi a))
     else a)"

definition JSLL_L2I :: "jsint64 \<Rightarrow> u32" where "JSLL_L2I l = lo l"
definition JSLL_L2UI :: "jsint64 \<Rightarrow> u32" where "JSLL_L2UI l = lo l"

definition JSLL_I2L :: "u32 \<Rightarrow> jsint64" where
  "JSLL_I2L i = mk64 (signed_drop_bit 31 i) i"

definition JSLL_UI2L :: "u32 \<Rightarrow> jsint64" where
  "JSLL_UI2L ui = mk64 0 ui"

section \<open>Division\<close>

text \<open>
  \<^verbatim>\<open>norm_udivmod32\<close> computes the two halves of the quotient with the same steps, here
  \<open>norm_step\<close>: the estimate \<open>q\<close> from the high half of the divisor, corrected at most twice. A sum
  that wraps is recognised by being less than \<open>b\<close>.
\<close>

definition norm_step :: "u32 \<Rightarrow> u32 \<Rightarrow> u32 \<Rightarrow> u32 \<times> u32" where
  "norm_step n digit b =
    (let d1 = jshi16 b; d0 = jslo16 b;
         r = n mod d1; q = n div d1; m = q * d0;
         r = push_bit 16 r OR digit;
         (q, r) =
           (if r < m then
              let q = q - 1; r = r + b in
              if b \<le> r \<and> r < m then (q - 1, r + b) else (q, r)
            else (q, r))
     in (q, r - m))"

definition norm_udivmod32 :: "jsint64 \<Rightarrow> u32 \<Rightarrow> u32 \<times> u32" where
  "norm_udivmod32 a b =
    (let (q1, r1) = norm_step (hi a) (jshi16 (lo a)) b;
         (q0, r0) = norm_step r1 (jslo16 (lo a)) b
     in (push_bit 16 q1 OR q0, r0))"

text \<open>One line of \<^verbatim>\<open>CountLeadingZeros\<close>: \<^verbatim>\<open>if ((t = a >> k) != 0) r -= k, a = t\<close>.\<close>

definition clz_step :: "nat \<Rightarrow> nat \<times> u32 \<Rightarrow> nat \<times> u32" where
  "clz_step k = (\<lambda>(r, a). let t = drop_bit k a in if t \<noteq> 0 then (r - k, t) else (r, a))"

definition CountLeadingZeros :: "u32 \<Rightarrow> nat" where
  "CountLeadingZeros a =
    (let (r, a) = clz_step 1 (clz_step 2 (clz_step 4 (clz_step 8 (clz_step 16 (32, a)))))
     in if a AND 1 \<noteq> 0 then r - 1 else r)"

text \<open>Quotient and remainder; the deliberate division by zero is \<open>None\<close>.\<close>

definition jsll_udivmod :: "jsint64 \<Rightarrow> jsint64 \<Rightarrow> (jsint64 \<times> jsint64) option" where
  "jsll_udivmod a b =
    (let n0 = lo a; n1 = hi a in
     if hi b = 0 then
       if n1 < lo b then
         let lsh = CountLeadingZeros (lo b);
             (d, n1, n0) =
               (if lsh \<noteq> 0
                then (push_bit lsh (lo b), push_bit lsh n1 OR drop_bit (32 - lsh) n0, push_bit lsh n0)
                else (lo b, n1, n0));
             (q0, n0) = norm_udivmod32 (mk64 n1 n0) d
         in Some (mk64 0 q0, mk64 0 (drop_bit lsh n0))
       else if lo b = 0 then None
       else
         let lsh = CountLeadingZeros (lo b);
             (d, q1, n1, n0) =
               (if lsh = 0 then (lo b, 1, n1 - lo b, n0)
                else
                  let rsh = 32 - lsh; d = push_bit lsh (lo b);
                      n2 = drop_bit rsh n1; n1 = push_bit lsh n1 OR drop_bit rsh n0; n0 = push_bit lsh n0;
                      (q1, n1) = norm_udivmod32 (mk64 n2 n1) d
                  in (d, q1, n1, n0));
             (q0, n0) = norm_udivmod32 (mk64 n1 n0) d
         in Some (mk64 q1 q0, mk64 0 (drop_bit lsh n0))
     else if n1 < hi b then Some (mk64 0 0, mk64 n1 n0)
     else
       let lsh = CountLeadingZeros (hi b) in
       if lsh = 0 then
         Some (mk64 0 (if hi b < n1 \<or> lo b \<le> n0 then 1 else 0), mk64 n1 n0)
       else
         let rsh = 32 - lsh;
             d = mk64 (push_bit lsh (hi b) OR drop_bit rsh (lo b)) (push_bit lsh (lo b));
             n2 = drop_bit rsh n1; n1 = push_bit lsh n1 OR drop_bit rsh n0; n0 = push_bit lsh n0;
             (q0, n1) = norm_udivmod32 (mk64 n2 n1) (hi d);
             m = JSLL_MUL32 q0 (lo d);
             (q0, m) = (if n1 < hi m \<or> (hi m = n1 \<and> n0 < lo m) then (q0 - 1, JSLL_SUB m d) else (q0, m));
             a = JSLL_SUB (mk64 n1 n0) m
         in Some (mk64 0 q0, mk64 (drop_bit lsh (hi a)) (push_bit rsh (hi a) OR drop_bit lsh (lo a))))"

definition JSLL_DIV :: "jsint64 \<Rightarrow> jsint64 \<Rightarrow> jsint64 option" where
  "JSLL_DIV a b =
    (let neg_a = sint (hi a) < 0; neg_b = sint (hi b) < 0 in
     case jsll_udivmod (if neg_a then JSLL_NEG a else a) (if neg_b then JSLL_NEG b else b) of
       None \<Rightarrow> None
     | Some (q, r) \<Rightarrow> Some (if neg_a \<noteq> neg_b then JSLL_NEG q else q))"

definition JSLL_MOD :: "jsint64 \<Rightarrow> jsint64 \<Rightarrow> jsint64 option" where
  "JSLL_MOD a b =
    (let neg_a = sint (hi a) < 0; neg_b = sint (hi b) < 0 in
     case jsll_udivmod (if neg_a then JSLL_NEG a else a) (if neg_b then JSLL_NEG b else b) of
       None \<Rightarrow> None
     | Some (q, r) \<Rightarrow> Some (if neg_a then JSLL_NEG r else r))"


section \<open>The halves as one 64-bit word\<close>

definition w64 :: "jsint64 \<Rightarrow> u64" where
  "w64 x = push_bit 32 (ucast (hi x)) OR ucast (lo x)"

lemma mk64_id [simp]: "mk64 (hi a) (lo a) = a"
  by simp

lemma bit_w64: "bit (w64 x) n \<longleftrightarrow> (if n < 32 then bit (lo x) n else bit (hi x) (n - 32))"
  by (cases "n < 64") (auto simp: w64_def bit_simps not_less u32_beyond)

lemma w64_eq_iff: "w64 x = w64 y \<longleftrightarrow> x = y"
proof
  assume e: "w64 x = w64 y"
  have "lo x = lo y"
  proof (rule bit_word_eqI)
    fix n assume "n < LENGTH(32)"
    then show "bit (lo x) n = bit (lo y) n" using arg_cong [OF e, of "\<lambda>w. bit w n"] by (simp add: bit_w64)
  qed
  moreover have "hi x = hi y"
  proof (rule bit_word_eqI)
    fix n :: nat
    show "bit (hi x) n = bit (hi y) n" using arg_cong [OF e, of "\<lambda>w. bit w (n + 32)"] by (simp add: bit_w64)
  qed
  ultimately show "x = y" by simp
qed simp

lemma unat_w64: "unat (w64 x) = unat (hi x) * 2 ^ 32 + unat (lo x)"
proof -
  have "w64 x = push_bit 32 (ucast (hi x)) + ucast (lo x)"
    unfolding w64_def by (rule disjunctive_add [symmetric]) (use u32_beyond [of _ "lo x"] in \<open>auto simp: bit_simps\<close>)
  also have "\<dots> = word_of_nat (unat (hi x) * 2 ^ 32 + unat (lo x))"
    by (simp add: push_bit_eq_mult)
  finally have w: "w64 x = word_of_nat (unat (hi x) * 2 ^ 32 + unat (lo x))" .
  have "unat (hi x) < 2 ^ 32" "unat (lo x) < 2 ^ 32" using unsigned_less [of "hi x"] unsigned_less [of "lo x"] by simp_all
  then have "unat (hi x) * 2 ^ 32 + unat (lo x) < 2 ^ 64" by simp
  then show ?thesis by (simp only: w unat_of_nat) (simp add: take_bit_nat_eq_self)
qed

lemma w64_of_nat: "w64 x = word_of_nat (unat (hi x) * 2 ^ 32 + unat (lo x))"
  by (simp only: unat_w64 [symmetric] of_nat_unat ucast_id)

lemma w64_bits:
  "w64 (JSLL_AND a b) = w64 a AND w64 b" "w64 (JSLL_OR a b) = w64 a OR w64 b"
  "w64 (JSLL_XOR a b) = w64 a XOR w64 b" "w64 (JSLL_NOT a) = NOT (w64 a)"
  by (rule bit_word_eqI; simp add: bit_w64 bit_simps JSLL_AND_def JSLL_OR_def JSLL_XOR_def JSLL_NOT_def; linarith?)+

lemma w64_shifts:
  assumes "n < 64"
  shows "w64 (JSLL_SHL a n) = push_bit n (w64 a)" "w64 (JSLL_USHR a n) = drop_bit n (w64 a)"
    "w64 (JSLL_SHR a n) = signed_drop_bit n (w64 a)"
proof -
  show "w64 (JSLL_SHL a n) = push_bit n (w64 a)"
    by (rule bit_word_eqI) (use assms in \<open>auto simp: bit_w64 bit_simps JSLL_SHL_def not_less mod_if u32_beyond add.commute\<close>)
  show "w64 (JSLL_USHR a n) = drop_bit n (w64 a)"
    by (rule bit_word_eqI) (use assms in \<open>auto simp: bit_w64 bit_simps JSLL_USHR_def not_less mod_if u32_beyond add.commute\<close>)
  show "w64 (JSLL_SHR a n) = signed_drop_bit n (w64 a)"
  proof (rule bit_word_eqI)
    fix k assume "k < LENGTH(64)"
    then have k: "k < 64" by simp
    consider "n = 0" | "0 < n" "n < 32" "k < 32" | "0 < n" "n < 32" "32 \<le> k" | "32 \<le> n" "k < 32" | "32 \<le> n" "k = 32" | "32 \<le> n" "32 < k" by linarith
    then show "bit (w64 (JSLL_SHR a n)) k = bit (signed_drop_bit n (w64 a)) k"
      by cases (use k assms in \<open>auto simp: bit_w64 bit_simps JSLL_SHR_def u32_beyond add.commute not_less mod_if, simp_all add: eval_nat_numeral\<close>)
  qed
qed

text \<open>The two halves as 64-bit words: the high half is a homomorphism, the low half up to the carry.\<close>

lemma unat_u32: "unat (x :: u32) < 2 ^ 32"
  using unsigned_less [of x, where 'a = nat] by simp

definition high :: "u32 \<Rightarrow> u64" where "high x = word_of_nat (unat x * 2 ^ 32)"
definition low :: "u32 \<Rightarrow> u64" where "low x = word_of_nat (unat x)"

lemma w64_high_low: "w64 x = high (hi x) + low (lo x)"
  by (simp add: w64_of_nat high_def low_def)

lemma carry_less: "(x + y :: u32) < y \<longleftrightarrow> 2 ^ 32 \<le> unat x + unat y"
  using unat_u32 [of x] unat_u32 [of y] by (auto simp: word_less_nat_alt unat_plus_if')

lemma high_of_nat: "high (word_of_nat n) = word_of_nat (n * 2 ^ 32)"
proof -
  have "n mod 2 ^ 32 * 2 ^ 32 = n * 2 ^ 32 mod (2 ^ 64 :: nat)" by (simp add: mult_mod_left)
  then have "word_of_nat (n mod 2 ^ 32 * 2 ^ 32) = (word_of_nat (n * 2 ^ 32 mod 2 ^ 64) :: u64)" by (rule arg_cong)
  moreover have "word_of_nat (m mod 2 ^ 64) = (word_of_nat m :: u64)" for m :: nat
    by (simp only: word_of_nat_eq_iff take_bit_eq_mod) simp
  moreover have "unat (word_of_nat n :: u32) = n mod 2 ^ 32" by (simp only: unat_of_nat take_bit_eq_mod) simp
  ultimately show ?thesis by (simp only: high_def)
qed

lemma high_add: "high (x + y) = high x + high y"
proof -
  have "high (word_of_nat (unat x + unat y)) = high x + high y"
    unfolding high_of_nat by (simp add: high_def algebra_simps)
  then show ?thesis by simp
qed

lemma high_minus: "high (x - y) = high x - high y"
  using high_add [of "x - y" y] by simp

lemma high_one: "high (of_bool c) = of_bool c * 2 ^ 32"
  by (simp add: high_def)

lemma low_add: "low (x + y) = low x + low y - of_bool (x + y < y) * 2 ^ 32"
proof (cases "2 ^ 32 \<le> unat x + unat y")
  case True
  then have "unat x + unat y = unat (x + y) + 2 ^ 32" by (simp add: unat_plus_if')
  then have "low x + low y = word_of_nat (unat (x + y) + 2 ^ 32)"
    by (simp only: low_def of_nat_add [symmetric])
  then show ?thesis using True by (simp add: carry_less low_def)
next
  case False
  then show ?thesis by (simp add: carry_less low_def unat_plus_if')
qed

lemma w64_add: "w64 (JSLL_ADD a b) = w64 a + w64 b"
  by (simp add: w64_high_low JSLL_ADD_def Let_def high_add high_one low_add)

lemma low_minus: "low (x - y) = low x - low y + of_bool (x < y) * 2 ^ 32"
  using low_add [of "x - y" y] by simp

lemma w64_sub: "w64 (JSLL_SUB a b) = w64 a - w64 b"
  by (simp add: w64_high_low JSLL_SUB_def high_minus high_one low_minus)

lemma w64_neg: "w64 (JSLL_NEG a) = - w64 a"
proof -
  have "JSLL_NEG a = JSLL_SUB (mk64 0 0) a"
    by (simp add: JSLL_NEG_def JSLL_SUB_def word_gt_0)
  then show ?thesis by (simp add: w64_sub) (simp add: w64_def)
qed

lemma high_mult: "high (x * y) = high x * low y"
proof -
  have "high (word_of_nat (unat x * unat y)) = high x * low y"
    unfolding high_of_nat by (simp add: high_def low_def)
  then show ?thesis by simp
qed

lemma unat_halves: "unat (jshi16 a) = unat a div 2 ^ 16" "unat (jslo16 a) = unat a mod 2 ^ 16"
proof -
  have "jslo16 a = take_bit 16 a" by (simp add: jslo16_def take_bit_eq_mask mask_eq_exp_minus_1)
  then show "unat (jslo16 a) = unat a mod 2 ^ 16"
    by (simp only: unsigned_take_bit_eq) (simp only: take_bit_eq_mod)
  show "unat (jshi16 a) = unat a div 2 ^ 16"
    by (simp only: jshi16_def unsigned_drop_bit_eq) (use unat_u32 [of a] in \<open>simp add: drop_bit_eq_div take_bit_nat_eq_self\<close>)
qed

lemma unat_hi_less: "unat (jshi16 a) < 2 ^ 16" and unat_lo_less: "unat (jslo16 a) < 2 ^ 16"
  using unat_u32 [of a] by (simp_all add: unat_halves div_less_dividend less_mult_imp_div_less)

lemma unat_split: "unat a = unat (jshi16 a) * 2 ^ 16 + unat (jslo16 a)"
  by (simp add: unat_halves)

lemma unat_mult16:
  assumes "unat x < 2 ^ 16" "unat y < 2 ^ 16"
  shows "unat (x * y :: u32) = unat x * unat y" "unat x * unat y \<le> 4294836225"
proof -
  have "unat x * unat y \<le> 65535 * 65535" using assms by (intro mult_le_mono) simp_all
  then show "unat x * unat y \<le> 4294836225" by simp
  then show "unat (x * y) = unat x * unat y" by (simp add: unat_word_ariths)
qed

lemma unat_add_exact: "unat x + unat y < 2 ^ 32 \<Longrightarrow> unat (x + y :: u32) = unat x + unat y"
  by (simp add: unat_plus_if')

lemma unat_shl16: "unat x < 2 ^ 16 \<Longrightarrow> unat (push_bit 16 x :: u32) = unat x * 2 ^ 16"
  by (simp only: unsigned_push_bit_eq) (simp add: push_bit_eq_mult take_bit_nat_eq_self)

lemma shift_halves: "(p + d) * 2 ^ 32 + (m * 2 ^ 16 + r) = p * 2 ^ 32 + (d * 2 ^ 16 + m) * 2 ^ 16 + (r :: nat)"
  by simp

lemma MUL32_exact: "unat (w64 (JSLL_MUL32 a b)) = unat a * unat b"
proof -
  define p00 where "p00 = unat (jslo16 a) * unat (jslo16 b)"
  define p01 where "p01 = unat (jslo16 a) * unat (jshi16 b)"
  define p10 where "p10 = unat (jshi16 a) * unat (jslo16 b)"
  define p11 where "p11 = unat (jshi16 a) * unat (jshi16 b)"
  note less = unat_hi_less unat_lo_less
  have p: "unat (jslo16 a * jslo16 b) = p00" "unat (jslo16 a * jshi16 b) = p01" "unat (jshi16 a * jslo16 b) = p10"
    "unat (jshi16 a * jshi16 b) = p11"
    unfolding p00_def p01_def p10_def p11_def by (rule unat_mult16 [OF less(2) less(2)] unat_mult16 [OF less(2) less(1)]
      unat_mult16 [OF less(1) less(2)] unat_mult16 [OF less(1) less(1)])+
  have le: "p00 \<le> 4294836225" "p01 \<le> 4294836225" "p10 \<le> 4294836225" "p11 \<le> 4294836225"
    unfolding p00_def p01_def p10_def p11_def by (rule unat_mult16 [OF less(2) less(2)] unat_mult16 [OF less(2) less(1)]
      unat_mult16 [OF less(1) less(2)] unat_mult16 [OF less(1) less(1)])+
  have prod: "unat a * unat b = p11 * 2 ^ 32 + (p01 + p10) * 2 ^ 16 + p00"
    unfolding unat_split [of a] unat_split [of b] p00_def p01_def p10_def p11_def by (simp add: algebra_simps)
  define y1 where "y1 = jslo16 a * jshi16 b + jshi16 (jslo16 a * jslo16 b)"
  have y1: "unat y1 = p01 + p00 div 2 ^ 16"
    unfolding y1_def using le by (subst unat_add_exact) (simp_all add: p unat_halves)
  define Y where "Y = p01 + p00 div 2 ^ 16 + p10"
  have y2: "unat (y1 + jshi16 a * jslo16 b) = Y mod 2 ^ 32"
    by (simp only: unat_word_ariths(1) y1 p Y_def) simp
  have c: "y1 + jshi16 a * jslo16 b < jshi16 a * jslo16 b \<longleftrightarrow> 2 ^ 32 \<le> Y"
    unfolding carry_less y1 p Y_def ..
  have Y: "Y < 2 * 2 ^ 32" using le by (simp add: Y_def)
  have total: "unat a * unat b < 2 ^ 64"
    using mult_strict_mono' [OF unat_u32 [of a] unat_u32 [of b]] by simp
  have e: "p11 * 2 ^ 32 + Y * 2 ^ 16 + p00 mod 2 ^ 16 = unat a * unat b"
    unfolding prod Y_def by (simp add: algebra_simps)
  have hi: "p11 + Y div 2 ^ 16 < 2 ^ 32"
  proof (rule ccontr)
    assume "\<not> p11 + Y div 2 ^ 16 < 2 ^ 32"
    then have "2 ^ 32 * 2 ^ 32 \<le> (p11 + Y div 2 ^ 16) * 2 ^ 32" by (intro mult_le_mono) simp_all
    also have "\<dots> \<le> p11 * 2 ^ 32 + Y * 2 ^ 16" by (simp add: algebra_simps)
    finally show False using e total by simp
  qed
  have Yd: "Y div 2 ^ 16 = (if 2 ^ 32 \<le> Y then 2 ^ 16 else 0) + Y mod 2 ^ 32 div 2 ^ 16"
  proof (cases "2 ^ 32 \<le> Y")
    case True
    then have "Y mod 2 ^ 32 = Y - 2 ^ 32" using Y by (simp add: mod_if)
    moreover have "Y div 2 ^ 16 = (2 ^ 16 * 2 ^ 16 + (Y - 2 ^ 32)) div 2 ^ 16" using True by simp
    ultimately show ?thesis using True by (simp only: div_mult_self3) simp
  qed simp
  let ?y1 = "y1 + jshi16 a * jslo16 b"
  let ?y3 = "if ?y1 < jshi16 a * jslo16 b then jshi16 a * jshi16 b + 0x10000 else jshi16 a * jshi16 b"
  have r: "JSLL_MUL32 a b = mk64 (?y3 + jshi16 ?y1) (push_bit 16 (jslo16 ?y1) + jslo16 (jslo16 a * jslo16 b))"
    by (simp add: JSLL_MUL32_def Let_def y1_def)
  have y3: "unat ?y3 = p11 + (if 2 ^ 32 \<le> Y then 2 ^ 16 else 0)"
    using le by (simp add: c p unat_plus_if')
  have "unat (?y3 + jshi16 ?y1) = p11 + Y div 2 ^ 16"
    using hi unfolding Yd by (subst unat_add_exact) (simp_all only: y3 unat_halves y2 add.assoc)
  moreover have "unat (push_bit 16 (jslo16 ?y1) + jslo16 (jslo16 a * jslo16 b)) = Y mod 2 ^ 16 * 2 ^ 16 + p00 mod 2 ^ 16"
  proof -
    have "unat (jslo16 ?y1) = Y mod 2 ^ 16" by (simp add: unat_halves y2 mod_mod_cancel)
    moreover have "Y mod 2 ^ 16 * 2 ^ 16 + p00 mod 2 ^ 16 < 2 ^ 32"
      using mod_less_divisor [of "2 ^ 16" Y] mod_less_divisor [of "2 ^ 16" p00] by simp
    ultimately show ?thesis by (subst unat_add_exact) (simp_all only: unat_shl16 [OF less(2)] unat_halves(2) [of "jslo16 a * jslo16 b"] p)
  qed
  ultimately have "unat (w64 (JSLL_MUL32 a b)) = (p11 + Y div 2 ^ 16) * 2 ^ 32 + (Y mod 2 ^ 16 * 2 ^ 16 + p00 mod 2 ^ 16)"
    by (simp only: r unat_w64 jsint64.simps)
  also have "\<dots> = p11 * 2 ^ 32 + (Y div 2 ^ 16 * 2 ^ 16 + Y mod 2 ^ 16) * 2 ^ 16 + p00 mod 2 ^ 16"
    by (rule shift_halves)
  finally show ?thesis unfolding div_mult_mod_eq e .
qed

lemma w64_mul: "w64 (JSLL_MUL a b) = w64 a * w64 b"
proof -
  have m: "w64 (JSLL_MUL32 (lo a) (lo b)) = low (lo a) * low (lo b)"
    using MUL32_exact [of "lo a" "lo b"] by (metis low_def of_nat_mult of_nat_unat ucast_id)
  have z: "high x * high y = 0" for x y
  proof -
    have "high x * high y = low x * low y * (2 ^ 32 * 2 ^ 32)"
      by (simp only: high_def low_def of_nat_mult of_nat_power of_nat_numeral ac_simps)
    moreover have "(2 ^ 32 * 2 ^ 32 :: u64) = 0" by code_simp
    ultimately show ?thesis by (simp only: mult_zero_right)
  qed
  have "w64 (JSLL_MUL a b) = w64 (JSLL_MUL32 (lo a) (lo b)) + high (hi a * lo b + lo a * hi b)"
    by (simp add: JSLL_MUL_def Let_def w64_high_low high_add)
  also have "high (hi a * lo b + lo a * hi b) = high (hi a) * low (lo b) + low (lo a) * high (hi b)"
    using high_mult [of "hi b" "lo a"] by (simp add: high_add high_mult mult.commute)
  finally show ?thesis unfolding m by (simp add: w64_high_low z algebra_simps)
qed

lemma w64_less: "JSLL_UCMP_less a b \<longleftrightarrow> w64 a < w64 b"
proof -
  note l = unat_u32 [of "lo a"] unat_u32 [of "lo b"]
  have "hi a = hi b \<longleftrightarrow> unat (hi a) = unat (hi b)" by (simp add: word_unat_eq_iff)
  then show ?thesis using l unfolding JSLL_UCMP_less_def word_less_nat_alt unat_w64
    by (cases "unat (hi a)" "unat (hi b)" rule: linorder_cases) auto
qed

lemma sint_w64: "sint (w64 a) = sint (hi a) * 2 ^ 32 + uint (lo a)"
proof -
  have s: "sint x = uint x - 2 ^ LENGTH('k) * of_bool (bit x (LENGTH('k) - 1))" for x :: "'k::len word"
    by (simp add: sint_uint signed_take_bit_eq_take_bit_minus bit_uint_iff take_bit_int_eq_self unsigned_less)
  have "bit (w64 a) 63 = bit (hi a) 31" by (simp add: bit_w64)
  moreover have "uint (w64 a) = uint (hi a) * 2 ^ 32 + uint (lo a)"
    using arg_cong [OF unat_w64 [of a], of int] by simp
  ultimately show ?thesis unfolding s by simp
qed

section \<open>Division of a 64-bit number by a normalized 32-bit divisor\<close>

lemma unat_join16:
  assumes "unat x < 2 ^ 16" "unat d < 2 ^ 16"
  shows "unat (push_bit 16 x OR d :: u32) = unat x * 2 ^ 16 + unat d"
proof -
  have d: "n < 16" if "bit d n" for n
  proof -
    have "bit (unat d) n" using that by (simp add: bit_unsigned_iff)
    moreover have "take_bit 16 (unat d) = unat d" using assms(2) by (simp add: take_bit_nat_eq_self)
    ultimately have "bit (take_bit 16 (unat d)) n" by simp
    then show ?thesis by (simp only: bit_take_bit_iff)
  qed
  have "push_bit 16 x OR d = push_bit 16 x + d"
    by (rule disjunctive_add [symmetric]) (use d in \<open>force simp: bit_simps\<close>)
  moreover have "unat x * 2 ^ 16 + unat d < 2 ^ 32" using assms by simp
  ultimately show ?thesis by (simp only: unat_add_exact unat_shl16 [OF assms(1)])
qed

text \<open>
  The estimate from the high half of the divisor is at most two too large. The remainder is
  computed modulo \<open>2 ^ 32\<close>; \<open>k\<close> is the number of corrections.
\<close>

lemma norm_step_ok:
  assumes n: "unat n < unat b" and b: "2 ^ 31 \<le> unat b" and dg: "unat digit < 2 ^ 16"
  shows "norm_step n digit b = (word_of_nat ((unat n * 2 ^ 16 + unat digit) div unat b),
    word_of_nat ((unat n * 2 ^ 16 + unat digit) mod unat b))"
proof -
  define B where "B = unat b"
  define D1 where "D1 = unat (jshi16 b)"
  define D0 where "D0 = unat (jslo16 b)"
  define X where "X = unat n * 2 ^ 16 + unat digit"
  define Q where "Q = unat n div D1"
  define m where "m = Q * D0"
  define r where "r = unat n mod D1 * 2 ^ 16 + unat digit"
  have B: "B = D1 * 2 ^ 16 + D0" "D0 < 2 ^ 16" "2 ^ 15 \<le> D1" "D1 < 2 ^ 16" "B < 2 ^ 32" "2 ^ 31 \<le> B"
    using unat_split [of b] unat_lo_less [of b] unat_hi_less [of b] unat_u32 [of b] b by (simp_all add: B_def D1_def D0_def)
  have Q: "Q \<le> 2 ^ 16 + 1"
  proof -
    have "unat n < D1 * 2 ^ 16 + D0" using n B(1) by (simp add: B_def)
    also have "\<dots> \<le> D1 * (2 ^ 16 + 2)" using B(2,3) by simp
    finally have "unat n div D1 < 2 ^ 16 + 2" using B(3) by (simp add: less_mult_imp_div_less mult.commute)
    then show ?thesis by (simp add: Q_def)
  qed
  have m: "m < 2 ^ 32"
  proof -
    have "m \<le> (2 ^ 16 + 1) * (2 ^ 16 - 1)" unfolding m_def using Q B(2) by (intro mult_le_mono) simp_all
    then show ?thesis by simp
  qed
  have r: "r < D1 * 2 ^ 16"
  proof -
    have "unat n mod D1 < D1" using B(3) by simp
    then have "(unat n mod D1 + 1) * 2 ^ 16 \<le> D1 * 2 ^ 16" by (intro mult_le_mono) simp_all
    then show ?thesis using dg by (simp add: r_def)
  qed
  then have r32: "r < 2 ^ 32" using B(1,5) by linarith
  have X: "X + m = Q * B + r"
  proof -
    have "X = (Q * D1 + unat n mod D1) * 2 ^ 16 + unat digit" unfolding X_def Q_def by simp
    then show ?thesis unfolding B(1) r_def m_def by (simp add: algebra_simps)
  qed
  define rw :: u32 where "rw = push_bit 16 (n mod jshi16 b) OR digit"
  define mw :: u32 where "mw = n div jshi16 b * jslo16 b"
  have rw: "unat rw = r" unfolding rw_def r_def D1_def
    using dg B(3,4) by (subst unat_join16) (simp_all add: unat_mod_distrib D1_def less_trans [OF mod_less_divisor])
  have mw: "unat mw = m" using m by (simp only: mw_def unat_word_ariths(2) unat_div_distrib m_def Q_def D1_def D0_def) simp
  have rw': "rw = word_of_nat r" and mw': "mw = word_of_nat m" by (simp_all flip: rw mw)
  note rw = rw' rw and mw = mw' mw
  have qw: "n div jshi16 b = word_of_nat Q" by (simp add: Q_def D1_def unat_div_distrib [symmetric])
  have bw: "b = word_of_nat B" by (simp add: B_def)
  have res: "norm_step n digit b = (word_of_nat (X div B), word_of_nat (X mod B))"
    if "norm_step n digit b = (word_of_nat Q - word_of_nat k, word_of_nat (r + k * B) - mw)" "m \<le> r + k * B" "r + k * B < m + B" for k
  proof -
    have "X + k * B = Q * B + (r + k * B - m)" using X that(2) by linarith
    moreover have "r + k * B - m < B" using that(2,3) by linarith
    ultimately have "(X + k * B) div B = Q" "(X + k * B) mod B = r + k * B - m"
      using B(6) by (simp_all add: div_mult_self3)
    then have "X div B + k = Q" "X mod B = r + k * B - m" using B(6) by (simp_all)
    then show ?thesis using that(1,2) mw(1) by (auto simp: of_nat_diff)
  qed
  have c: "rw < mw \<longleftrightarrow> r < m" by (simp only: word_less_nat_alt rw(2) mw(2))
  have step: "norm_step n digit b = (if r < m then
      (if b \<le> rw + b \<and> rw + b < mw then (word_of_nat Q - 2, rw + b + b - mw) else (word_of_nat Q - 1, rw + b - mw))
      else (word_of_nat Q, rw - mw))"
    unfolding norm_step_def Let_def rw_def [symmetric] mw_def [symmetric] c by (simp add: qw diff_diff_eq)
  have "norm_step n digit b = (word_of_nat (X div B), word_of_nat (X mod B))"
  proof (cases "r < m")
    case False
    then show ?thesis using r B(1) by (intro res [of 0]) (simp_all add: step rw(1))
  next
    case True
    show ?thesis
    proof (cases "r + B < 2 ^ 32 \<and> r + B < m")
      case True
      then have u: "unat (rw + b) = r + B" by (simp add: unat_plus_if' rw(2) B_def)
      show ?thesis using True \<open>r < m\<close> m B(5,6) u
        by (intro res [of 2]) (simp_all add: step word_le_nat_alt word_less_nat_alt mw(2) rw(1) [symmetric] bw [symmetric], simp_all add: B_def)
    next
      case False
      then have "\<not> (b \<le> rw + b \<and> rw + b < mw)"
        using m B(5,6) r32 by (auto simp: word_le_nat_alt word_less_nat_alt unat_plus_if' rw(2) mw(2) simp flip: B_def)
      moreover have "m \<le> r + B" using False m by (cases "r + B < 2 ^ 32") simp_all
      ultimately show ?thesis using \<open>r < m\<close> B(5,6)
        by (intro res [of 1]) (simp_all add: step rw(1) [symmetric] bw [symmetric])
    qed
  qed
  then show ?thesis by (simp add: X_def B_def)
qed

lemma norm_udivmod32_ok:
  assumes "unat (hi a) < unat b" "2 ^ 31 \<le> unat b"
  shows "norm_udivmod32 a b = (word_of_nat (unat (w64 a) div unat b), word_of_nat (unat (w64 a) mod unat b))"
proof -
  define B where "B = unat b"
  define h where "h = unat (hi a)"
  define l1 where "l1 = unat (jshi16 (lo a))"
  define l0 where "l0 = unat (jslo16 (lo a))"
  have l: "l1 < 2 ^ 16" "l0 < 2 ^ 16" using unat_hi_less unat_lo_less by (simp_all add: l1_def l0_def)
  have B: "h < B" "2 ^ 31 \<le> B" "B < 2 ^ 32" using assms unat_u32 [of b] by (simp_all add: B_def h_def)
  define q1 where "q1 = (h * 2 ^ 16 + l1) div B"
  define r1 where "r1 = (h * 2 ^ 16 + l1) mod B"
  have r1: "r1 < B" using B by (simp add: r1_def)
  define q0 where "q0 = (r1 * 2 ^ 16 + l0) div B"
  define r0 where "r0 = (r1 * 2 ^ 16 + l0) mod B"
  have less: "(x * 2 ^ 16 + y) div B < 2 ^ 16" if "x < B" "y < 2 ^ 16" for x y
  proof -
    have "(x + 1) * 2 ^ 16 \<le> B * 2 ^ 16" using that(1) by (intro mult_le_mono) simp_all
    then have "x * 2 ^ 16 + y < 2 ^ 16 * B" using that(2) by simp
    then show ?thesis by (rule less_mult_imp_div_less)
  qed
  have q: "q1 < 2 ^ 16" "q0 < 2 ^ 16" using less [OF B(1) l(1)] less [OF r1 l(2)] by (simp_all only: q1_def q0_def)
  have s1: "norm_step (hi a) (jshi16 (lo a)) b = (word_of_nat q1, word_of_nat r1)"
    using norm_step_ok [of "hi a" b "jshi16 (lo a)"] assms unat_hi_less [of "lo a"]
    by (simp only: q1_def r1_def h_def l1_def B_def)
  have ur: "unat (word_of_nat r1 :: u32) = r1" using r1 B(3) by (simp add: unat_of_nat take_bit_nat_eq_self)
  have s0: "norm_step (word_of_nat r1) (jslo16 (lo a)) b = (word_of_nat q0, word_of_nat r0)"
    using norm_step_ok [of "word_of_nat r1" b "jslo16 (lo a)"] r1 assms(2) unat_lo_less [of "lo a"]
    by (simp only: ur q0_def r0_def l0_def B_def)
  have w: "unat (w64 a) = (h * 2 ^ 16 + l1) * 2 ^ 16 + l0"
    unfolding unat_w64 unat_split [of "lo a"] by (simp add: h_def l1_def l0_def)
  have "(h * 2 ^ 16 + l1) = q1 * B + r1" by (simp add: q1_def r1_def)
  then have "unat (w64 a) = q1 * 2 ^ 16 * B + (r1 * 2 ^ 16 + l0)" unfolding w by (simp add: algebra_simps)
  also have "r1 * 2 ^ 16 + l0 = q0 * B + r0" by (simp add: q0_def r0_def)
  finally have e: "unat (w64 a) = (q1 * 2 ^ 16 + q0) * B + r0" by (simp add: algebra_simps)
  have r0: "r0 < B" using B by (simp add: r0_def)
  have dm: "unat (w64 a) div B = q1 * 2 ^ 16 + q0" "unat (w64 a) mod B = r0" unfolding e using r0 by simp_all
  have "unat (word_of_nat q1 :: u32) = q1" "unat (word_of_nat q0 :: u32) = q0"
    using q by (simp_all add: unat_of_nat take_bit_nat_eq_self)
  then have "unat (push_bit 16 (word_of_nat q1) OR word_of_nat q0 :: u32) = q1 * 2 ^ 16 + q0"
    using q by (simp only: unat_join16)
  then have "push_bit 16 (word_of_nat q1) OR word_of_nat q0 = (word_of_nat (q1 * 2 ^ 16 + q0) :: u32)"
    by (metis of_nat_unat ucast_id)
  then show ?thesis unfolding B_def [symmetric] dm by (simp only: norm_udivmod32_def s1 s0 prod.case Let_def)
qed

section \<open>Leading zeros\<close>

text \<open>After the steps, \<open>a\<close> is the number shifted right by \<open>32 - r\<close> places.\<close>

lemma clz_step_ok:
  assumes "unat a = n div 2 ^ (32 - r)" "unat a < 2 ^ (2 * k)" "2 * k \<le> r" "r \<le> 32"
  shows "case clz_step k (r, a) of (r', a') \<Rightarrow>
    unat a' = n div 2 ^ (32 - r') \<and> unat a' < 2 ^ k \<and> k \<le> r' \<and> r' \<le> 32 \<and> (unat a \<noteq> 0 \<longrightarrow> unat a' \<noteq> 0)"
proof -
  have d: "unat (drop_bit k a) = unat a div 2 ^ k"
    by (simp only: unsigned_drop_bit_eq) (use unat_u32 [of a] in \<open>simp add: drop_bit_eq_div take_bit_nat_eq_self\<close>)
  show ?thesis
  proof (cases "drop_bit k a = 0")
    case True
    then have "unat a div 2 ^ k = 0" using d by simp
    then have "unat a < 2 ^ k" by (simp add: div_eq_0_iff)
    then show ?thesis using True assms by (simp add: clz_step_def Let_def)
  next
    case False
    have "32 - (r - k) = 32 - r + k" using assms(3,4) by linarith
    moreover have "unat a div 2 ^ k = n div 2 ^ (32 - r + k)" using assms(1) by (simp add: div_mult2_eq power_add)
    moreover have "unat a div 2 ^ k < 2 ^ k" using assms(2) by (intro less_mult_imp_div_less) (simp add: mult_2 power_add)
    moreover have "unat a div 2 ^ k \<noteq> 0" using False d by (metis unat_eq_zero)
    moreover have "k \<le> r - k" "r - k \<le> 32" using assms(3,4) by linarith+
    ultimately show ?thesis using False assms(3,4) by (simp add: clz_step_def Let_def d)
  qed
qed

lemma CountLeadingZeros_ok:
  assumes "a \<noteq> 0"
  shows "CountLeadingZeros a \<le> 31" "2 ^ (31 - CountLeadingZeros a) \<le> unat a" "unat a < 2 ^ (32 - CountLeadingZeros a)"
proof -
  obtain r1 a1 where 1: "clz_step 16 (32, a) = (r1, a1)" by fastforce
  obtain r2 a2 where 2: "clz_step 8 (r1, a1) = (r2, a2)" by fastforce
  obtain r3 a3 where 3: "clz_step 4 (r2, a2) = (r3, a3)" by fastforce
  obtain r4 a4 where 4: "clz_step 2 (r3, a3) = (r4, a4)" by fastforce
  obtain r5 a5 where 5: "clz_step 1 (r4, a4) = (r5, a5)" by fastforce
  have nz: "unat a \<noteq> 0" using assms by (simp add: unat_eq_zero)
  have i1: "unat a1 = unat a div 2 ^ (32 - r1) \<and> unat a1 < 2 ^ 16 \<and> 16 \<le> r1 \<and> r1 \<le> 32 \<and> unat a1 \<noteq> 0"
    using clz_step_ok [of a "unat a" 32 16] unat_u32 [of a] nz by (simp add: 1)
  then have i2: "unat a2 = unat a div 2 ^ (32 - r2) \<and> unat a2 < 2 ^ 8 \<and> 8 \<le> r2 \<and> r2 \<le> 32 \<and> unat a2 \<noteq> 0"
    using clz_step_ok [of a1 "unat a" r1 8] by (simp add: 2)
  then have i3: "unat a3 = unat a div 2 ^ (32 - r3) \<and> unat a3 < 2 ^ 4 \<and> 4 \<le> r3 \<and> r3 \<le> 32 \<and> unat a3 \<noteq> 0"
    using clz_step_ok [of a2 "unat a" r2 4] by (simp add: 3)
  then have i4: "unat a4 = unat a div 2 ^ (32 - r4) \<and> unat a4 < 2 ^ 2 \<and> 2 \<le> r4 \<and> r4 \<le> 32 \<and> unat a4 \<noteq> 0"
    using clz_step_ok [of a3 "unat a" r3 2] by (simp add: 4)
  then have i5: "unat a5 = unat a div 2 ^ (32 - r5) \<and> unat a5 < 2 ^ 1 \<and> 1 \<le> r5 \<and> r5 \<le> 32 \<and> unat a5 \<noteq> 0"
    using clz_step_ok [of a4 "unat a" r4 1] by (simp add: 5 [unfolded One_nat_def])
  then have "unat a5 < 2" "unat a5 \<noteq> 0" by simp_all
  then have "unat a5 = 1" by linarith
  then have a5: "a5 = 1" by (simp add: word_unat_eq_iff)
  have c: "CountLeadingZeros a = r5 - 1" by (simp add: CountLeadingZeros_def 1 2 3 4 5 [unfolded One_nat_def] a5)
  then have s: "31 - CountLeadingZeros a = 32 - r5" "32 - CountLeadingZeros a = Suc (32 - r5)" using i5 by linarith+
  have d: "unat a div 2 ^ (32 - r5) = 1" using i5 \<open>unat a5 = 1\<close> by simp
  show "CountLeadingZeros a \<le> 31" using c i5 by linarith
  show "2 ^ (31 - CountLeadingZeros a) \<le> unat a" unfolding s
    using d by (metis div_less not_le zero_neq_one)
  have "unat a < 2 ^ (32 - r5) * 2"
    using dividend_less_div_times [of "2 ^ (32 - r5)" "unat a"] d by simp
  then show "unat a < 2 ^ (32 - CountLeadingZeros a)" unfolding s by simp
qed

lemma clz_norm:
  assumes "a \<noteq> 0"
  shows "CountLeadingZeros a < 32" "2 ^ 31 \<le> unat a * 2 ^ CountLeadingZeros a" "unat a * 2 ^ CountLeadingZeros a < 2 ^ 32"
proof -
  let ?c = "CountLeadingZeros a"
  note c = CountLeadingZeros_ok [OF assms]
  show "?c < 32" using c(1) by simp
  have "(2::nat) ^ 31 = 2 ^ (31 - ?c) * 2 ^ ?c" using c(1) by (simp flip: power_add)
  also have "\<dots> \<le> unat a * 2 ^ ?c" using c(2) by (intro mult_le_mono1)
  finally show "2 ^ 31 \<le> unat a * 2 ^ ?c" .
  have "unat a * 2 ^ ?c < 2 ^ (32 - ?c) * 2 ^ ?c" using c(3) by (intro mult_strict_right_mono) simp_all
  also have "\<dots> = 2 ^ 32" using c(1) by (simp flip: power_add)
  finally show "unat a * 2 ^ ?c < 2 ^ 32" .
qed

section \<open>Shifting across the halves\<close>

lemma unat_shl: "unat (push_bit s x :: u32) = unat x * 2 ^ s mod 2 ^ 32"
  by (simp only: unsigned_push_bit_eq) (simp add: push_bit_eq_mult take_bit_eq_mod)

lemma unat_shr: "unat (drop_bit s x :: u32) = unat x div 2 ^ s"
  by (simp only: unsigned_drop_bit_eq) (use unat_u32 [of x] in \<open>simp add: drop_bit_eq_div take_bit_nat_eq_self\<close>)

lemma shl_top: "s \<le> 32 \<Longrightarrow> x * 2 ^ s = x div 2 ^ (32 - s) * 2 ^ 32 + x * 2 ^ s mod (2 ^ 32 :: nat)"
proof -
  assume s: "s \<le> 32"
  then have "(2::nat) ^ 32 = 2 ^ (32 - s) * 2 ^ s" by (simp flip: power_add)
  then have "x * 2 ^ s div 2 ^ 32 = x div 2 ^ (32 - s)"
    using div_mult_mult2 [of "2 ^ s" x "2 ^ (32 - s)"] by simp
  then show ?thesis using div_mult_mod_eq [of "x * 2 ^ s" "2 ^ 32"] by (simp only:)
qed

lemma unat_shl_or:
  assumes "0 < s" "s < 32"
  shows "unat (push_bit s x OR drop_bit (32 - s) y :: u32) = unat x * 2 ^ s mod 2 ^ 32 + unat y div 2 ^ (32 - s)"
proof -
  have "push_bit s x OR drop_bit (32 - s) y = push_bit s x + drop_bit (32 - s) y"
    by (rule disjunctive_add [symmetric]) (use assms u32_beyond [of _ y] in \<open>auto simp: bit_simps\<close>)
  moreover have "unat x * 2 ^ s mod 2 ^ 32 + unat y div 2 ^ (32 - s) < 2 ^ 32"
  proof -
    have "(2::nat) ^ 32 = 2 ^ s * 2 ^ (32 - s)" using assms by (simp flip: power_add)
    then have "unat x * 2 ^ s mod 2 ^ 32 = 2 ^ s * (unat x mod 2 ^ (32 - s))" by (simp only: mult.commute [of "unat x"] mult_mod_right)
    moreover have "unat y div 2 ^ (32 - s) < 2 ^ s"
      using unat_u32 [of y] \<open>(2::nat) ^ 32 = 2 ^ s * 2 ^ (32 - s)\<close> by (intro less_mult_imp_div_less) simp
    moreover have "2 ^ s * (unat x mod 2 ^ (32 - s) + 1) \<le> 2 ^ s * 2 ^ (32 - s)" by (intro mult_le_mono2) (simp add: Suc_leI)
    ultimately show ?thesis using \<open>(2::nat) ^ 32 = 2 ^ s * 2 ^ (32 - s)\<close> by simp
  qed
  ultimately show ?thesis by (simp only: unat_add_exact unat_shl unat_shr)
qed

text \<open>A 64-bit number shifted left has a third word.\<close>

lemma shl64:
  assumes "0 < s" "s < 32"
  shows "unat (w64 (mk64 h l)) * 2 ^ s = unat (drop_bit (32 - s) h) * 2 ^ 64 +
    unat (w64 (mk64 (push_bit s h OR drop_bit (32 - s) l) (push_bit s l)))"
proof -
  have "unat (w64 (mk64 h l)) * 2 ^ s = unat h * 2 ^ s * 2 ^ 32 + unat l * 2 ^ s"
    by (simp add: unat_w64 algebra_simps)
  also have "\<dots> = (unat h div 2 ^ (32 - s) * 2 ^ 32 + unat h * 2 ^ s mod 2 ^ 32) * 2 ^ 32 +
      (unat l div 2 ^ (32 - s) * 2 ^ 32 + unat l * 2 ^ s mod 2 ^ 32)"
    using assms shl_top [of s "unat h"] shl_top [of s "unat l"] by simp
  also have "\<dots> = unat h div 2 ^ (32 - s) * 2 ^ 64 +
      ((unat h * 2 ^ s mod 2 ^ 32 + unat l div 2 ^ (32 - s)) * 2 ^ 32 + unat l * 2 ^ s mod 2 ^ 32)"
    by (simp add: algebra_simps)
  finally show ?thesis by (simp only: unat_w64 jsint64.simps unat_shr unat_shl_or [OF assms] unat_shl)
qed

section \<open>The division\<close>

text \<open>Scaling both numbers by \<open>2 ^ s\<close> leaves the quotient and scales the remainder.\<close>

lemma div_scale: "(n * 2 ^ s) div (d * 2 ^ s) = n div (d :: nat)" "(n * 2 ^ s) mod (d * 2 ^ s) = n mod d * 2 ^ s"
  by (simp_all add: mult_mod_left)

lemma unat_word32: "n < 2 ^ 32 \<Longrightarrow> unat (word_of_nat n :: u32) = n"
  by (simp add: unat_of_nat take_bit_nat_eq_self)

lemma w64_nat_eqI: "unat (hi x) * 2 ^ 32 + unat (lo x) = unat w \<Longrightarrow> w64 x = w"
  by (simp add: word_unat_eq_iff unat_w64)

lemma udivmod_one_word:
  assumes "hi b = 0" "hi a < lo b"
  shows "\<exists>q r. jsll_udivmod a b = Some (q, r) \<and> w64 q = w64 a div w64 b \<and> w64 r = w64 a mod w64 b"
proof -
  define s where "s = CountLeadingZeros (lo b)"
  define d where "d = (if s \<noteq> 0 then push_bit s (lo b) else lo b)"
  define n1 where "n1 = (if s \<noteq> 0 then push_bit s (hi a) OR drop_bit (32 - s) (lo a) else hi a)"
  define n0 where "n0 = (if s \<noteq> 0 then push_bit s (lo a) else lo a)"
  let ?N = "unat (w64 a)" and ?D = "unat (lo b)"
  have nz: "lo b \<noteq> 0" using assms(2) by auto
  have h: "unat (hi a) < ?D" using assms(2) by (simp add: word_less_nat_alt)
  have c: "s < 32" "2 ^ 31 \<le> ?D * 2 ^ s" "?D * 2 ^ s < 2 ^ 32" using clz_norm [OF nz] by (simp_all add: s_def)
  have d: "unat d = ?D * 2 ^ s" using c by (simp add: d_def unat_shl)
  have N: "?N < ?D * 2 ^ 32" using h unat_u32 [of "lo a"] by (simp add: unat_w64)
  have n: "unat (w64 (mk64 n1 n0)) = ?N * 2 ^ s"
  proof (cases "s = 0")
    case False
    have "unat (hi a) * 2 ^ s < 2 ^ 32" using h c(3) by (meson le_less_trans less_imp_le mult_le_mono1)
    then have "unat (hi a) < 2 ^ (32 - s)"
      using c(1) by (metis less_imp_le less_mult_imp_div_less nonzero_mult_div_cancel_right power_not_zero power_add le_add_diff_inverse2 mult_less_cancel2 zero_neq_numeral)
    then have "unat (drop_bit (32 - s) (hi a)) = 0" by (simp add: unat_shr)
    then show ?thesis using shl64 [of s "lo a" "hi a"] False c(1) by (simp add: n1_def n0_def)
  qed (simp add: n1_def n0_def)
  have "unat (w64 (mk64 n1 n0)) < unat d * 2 ^ 32" using N unfolding n d by (simp add: mult.commute mult.left_commute)
  then have "unat (hi (mk64 n1 n0)) < unat d" by (simp add: unat_w64)
  then have nd: "norm_udivmod32 (mk64 n1 n0) d = (word_of_nat (?N div ?D), word_of_nat (?N mod ?D * 2 ^ s))"
    using norm_udivmod32_ok [of "mk64 n1 n0" d] c(2) unfolding n d div_scale by blast
  define qw :: u32 where "qw = word_of_nat (?N div ?D)"
  define rw :: u32 where "rw = word_of_nat (?N mod ?D * 2 ^ s)"
  have res: "jsll_udivmod a b = Some (mk64 0 qw, mk64 0 (drop_bit s rw))"
    unfolding qw_def rw_def using assms nd by (simp add: jsll_udivmod_def Let_def s_def [symmetric] d_def n1_def n0_def split: if_splits)
  have D: "unat (w64 b) = ?D" using assms(1) by (simp add: unat_w64)
  have q: "?N div ?D < 2 ^ 32" using N by (intro less_mult_imp_div_less) (simp add: mult.commute)
  have D0: "0 < ?D" using h by linarith
  have "?N mod ?D * 2 ^ s \<le> ?D * 2 ^ s" using D0 by (intro mult_le_mono1) simp
  then have r: "?N mod ?D * 2 ^ s < 2 ^ 32" using c(3) by linarith
  have u: "unat qw = ?N div ?D" "unat rw = ?N mod ?D * 2 ^ s"
    unfolding qw_def rw_def by (rule unat_word32 [OF q], rule unat_word32 [OF r])
  show ?thesis unfolding res
    by (intro exI conjI, rule refl; rule w64_nat_eqI) (simp_all add: unat_div_distrib unat_mod_distrib D unat_shr u)
qed

lemma udivmod_two_digits:
  assumes "hi b = 0" "lo b \<noteq> 0" "lo b \<le> hi a"
  shows "\<exists>q r. jsll_udivmod a b = Some (q, r) \<and> w64 q = w64 a div w64 b \<and> w64 r = w64 a mod w64 b"
proof -
  define s where "s = CountLeadingZeros (lo b)"
  let ?N = "unat (w64 a)" and ?D = "unat (lo b)"
  have c: "s < 32" "2 ^ 31 \<le> ?D * 2 ^ s" "?D * 2 ^ s < 2 ^ 32" using clz_norm [OF assms(2)] by (simp_all add: s_def)
  have D0: "0 < ?D" using assms(2) by (simp add: unat_gt_0)
  have D: "unat (w64 b) = ?D" using assms(1) by (simp add: unat_w64)
  have le: "?D \<le> unat (hi a)" using assms(3) by (simp add: word_le_nat_alt)
  obtain d q1 n1 n0 where dq: "(if s = 0 then (lo b, 1, hi a - lo b, lo a)
      else let rsh = 32 - s; d = push_bit s (lo b);
                      n2 = drop_bit rsh (hi a); n1 = push_bit s (hi a) OR drop_bit rsh (lo a); n0 = push_bit s (lo a);
                      (q1, n1) = norm_udivmod32 (mk64 n2 n1) d
                  in (d, q1, n1, n0)) = (d, q1, n1, n0)" by (metis prod_cases4)
  have e: "unat d = ?D * 2 ^ s \<and> unat n1 < unat d \<and> ?N * 2 ^ s = unat q1 * 2 ^ 32 * unat d + unat (w64 (mk64 n1 n0))"
  proof (cases "s = 0")
    case True
    then have v: "d = lo b" "q1 = 1" "n1 = hi a - lo b" "n0 = lo a" using dq by auto
    have "unat n1 = unat (hi a) - ?D" using assms(3) by (simp only: v unat_sub)
    then have "unat n1 < ?D \<and> unat (hi a) = ?D + unat n1" using le c(2) True unat_u32 [of "hi a"] by simp
    then show ?thesis using True by (simp add: unat_w64 v(1,2,4) algebra_simps)
  next
    case False
    let ?n2 = "drop_bit (32 - s) (hi a)" and ?n1 = "push_bit s (hi a) OR drop_bit (32 - s) (lo a)" and ?n0 = "push_bit s (lo a)"
    have d: "d = push_bit s (lo b)" and n: "norm_udivmod32 (mk64 ?n2 ?n1) d = (q1, n1)" "n0 = ?n0"
      using dq False by (auto simp: Let_def split: prod.splits)
    have ud: "unat d = ?D * 2 ^ s" using c(3) by (simp add: d unat_shl)
    have "(2::nat) ^ s \<le> 2 ^ 31" using c(1) by (intro power_increasing) simp_all
    moreover have "unat ?n2 < 2 ^ s"
      using unat_u32 [of "hi a"] c(1) by (simp add: unat_shr less_mult_imp_div_less flip: power_add)
    ultimately have lt: "unat (hi (mk64 ?n2 ?n1)) < unat d" using c(2) ud by simp
    let ?M = "unat (w64 (mk64 ?n2 ?n1))"
    have qr: "q1 = word_of_nat (?M div unat d)" "n1 = word_of_nat (?M mod unat d)"
      using norm_udivmod32_ok [OF lt] c(2) n(1) by (simp_all add: ud)
    have "?M < unat d * 2 ^ 32" using lt unat_u32 [of ?n1] by (simp add: unat_w64)
    then have "?M div unat d < 2 ^ 32" by (intro less_mult_imp_div_less) (simp add: mult.commute)
    then have uq: "unat q1 = ?M div unat d" by (simp only: qr(1) unat_word32)
    have "?M mod unat d < unat d" using lt by simp
    then have un: "unat n1 = ?M mod unat d" unfolding qr(2) using unat_u32 [of d] by (intro unat_word32) linarith
    have "?N * 2 ^ s = ?M * 2 ^ 32 + unat ?n0"
      using shl64 [of s "lo a" "hi a"] False c(1) by (simp add: unat_w64)
    also have "?M = unat q1 * unat d + unat n1" by (simp add: uq un)
    finally have e: "?N * 2 ^ s = (unat q1 * unat d + unat n1) * 2 ^ 32 + unat ?n0" .
    have "unat (w64 (mk64 n1 n0)) = unat n1 * 2 ^ 32 + unat ?n0" by (simp add: unat_w64 n(2))
    then have "?N * 2 ^ s = unat q1 * 2 ^ 32 * unat d + unat (w64 (mk64 n1 n0))"
      unfolding e by (simp only: add_mult_distrib ac_simps)
    moreover have "unat n1 < unat d" using \<open>?M mod unat d < unat d\<close> by (simp only: un)
    ultimately show ?thesis using ud by blast
  qed
  let ?R = "unat (w64 (mk64 n1 n0))"
  have nd: "norm_udivmod32 (mk64 n1 n0) d = (word_of_nat (?R div unat d), word_of_nat (?R mod unat d))"
    using norm_udivmod32_ok [of "mk64 n1 n0" d] e c(2) by simp
  define qw :: u32 where "qw = word_of_nat (?R div unat d)"
  define rw :: u32 where "rw = word_of_nat (?R mod unat d)"
  have res: "jsll_udivmod a b = Some (mk64 q1 qw, mk64 0 (drop_bit s rw))"
    unfolding qw_def rw_def using nd assms(1,2) leD [OF assms(3)] dq
    by (simp add: jsll_udivmod_def Let_def s_def [symmetric] split: prod.splits if_splits)
  have d0: "0 < unat d" using e D0 by simp
  have "?R < unat d * 2 ^ 32" using e unat_u32 [of n0] by (simp add: unat_w64)
  then have q: "?R div unat d < 2 ^ 32" by (intro less_mult_imp_div_less) (simp add: mult.commute)
  have "?R mod unat d < unat d" using d0 by simp
  then have r: "?R mod unat d < 2 ^ 32" using unat_u32 [of d] by linarith
  have u: "unat qw = ?R div unat d" "unat rw = ?R mod unat d"
    unfolding qw_def rw_def by (rule unat_word32 [OF q], rule unat_word32 [OF r])
  have "?N div ?D = ?N * 2 ^ s div unat d" using div_scale(1) [of ?N s ?D] conjunct1 [OF e] by (simp only:)
  also have "\<dots> = unat q1 * 2 ^ 32 + ?R div unat d" using e d0 by (simp add: div_mult_self3)
  finally have Q: "?N div ?D = unat q1 * 2 ^ 32 + ?R div unat d" .
  have "?N mod ?D * 2 ^ s = ?N * 2 ^ s mod unat d" using div_scale(2) [of ?N s ?D] conjunct1 [OF e] by (simp only:)
  also have "\<dots> = ?R mod unat d" using e by simp
  finally have R: "?R mod unat d div 2 ^ s = ?N mod ?D" by (metis nonzero_mult_div_cancel_right power_not_zero zero_neq_numeral)
  show ?thesis unfolding res
    by (intro exI conjI, rule refl; rule w64_nat_eqI) (simp_all add: unat_div_distrib unat_mod_distrib D unat_shr u Q R)
qed

text \<open>
  With a divisor of two words the quotient is one word. The estimate from the high word of the
  normalized divisor is at most one too large.
\<close>

lemma udivmod_small:
  assumes "hi a < hi b"
  shows "jsll_udivmod a b = Some (mk64 0 0, a)" "w64 a < w64 b"
proof -
  show "w64 a < w64 b" using assms by (simp add: w64_less [symmetric] JSLL_UCMP_less_def)
  show "jsll_udivmod a b = Some (mk64 0 0, a)" using assms by (auto simp: jsll_udivmod_def Let_def)
qed

lemma udivmod_high:
  assumes "hi b \<noteq> 0" "hi b \<le> hi a" "CountLeadingZeros (hi b) = 0"
  shows "jsll_udivmod a b = Some (mk64 0 (if w64 b \<le> w64 a then 1 else 0), a)" "w64 a div w64 b = (if w64 b \<le> w64 a then 1 else 0)"
proof -
  have le: "w64 b \<le> w64 a \<longleftrightarrow> hi b < hi a \<or> lo b \<le> lo a"
    using assms(2) w64_less [of a b] by (auto simp: JSLL_UCMP_less_def not_less [symmetric])
  show "jsll_udivmod a b = Some (mk64 0 (if w64 b \<le> w64 a then 1 else 0), a)"
    unfolding le using assms by (simp add: jsll_udivmod_def Let_def not_less [symmetric])
  have "2 ^ 31 \<le> unat (hi b)" using clz_norm(2) [OF assms(1)] assms(3) by simp
  then have "2 ^ 63 \<le> unat (w64 b)" by (simp add: unat_w64)
  moreover have "unat (w64 a) < 2 ^ 64" using unsigned_less [of "w64 a", where 'a = nat] by simp
  ultimately have "unat (w64 a) div unat (w64 b) = (if unat (w64 b) \<le> unat (w64 a) then 1 else 0)"
    by (cases "unat (w64 b) \<le> unat (w64 a)") (simp_all add: div_nat_eqI)
  then show "w64 a div w64 b = (if w64 b \<le> w64 a then 1 else 0)"
    by (simp add: word_unat_eq_iff unat_div_distrib word_le_nat_alt)
qed

text \<open>The bound that makes one correction enough, on natural numbers.\<close>

lemma estimate_once:
  fixes q d1 d0 n B :: nat
  assumes q: "q = n div B div d1" and d1: "0 < d1" "0 < B" and enough: "q * d0 \<le> d1 * B + d0"
  shows "n div (d1 * B + d0) = (if n < q * (d1 * B + d0) then q - 1 else q)"
proof -
  let ?d = "d1 * B + d0"
  have d: "0 < ?d" using d1 by simp
  have "q * d1 \<le> n div B" unfolding q by simp
  then have "q * d1 * B \<le> n div B * B" by (rule mult_le_mono1)
  also have "n div B * B \<le> n" by simp
  finally have low: "q * d1 * B \<le> n" .
  have "n div B < (q + 1) * d1" using d1 unfolding q by (metis Suc_eq_plus1 dividend_less_times_div mult.commute mult_Suc_right)
  then have "n < (q + 1) * d1 * B" using d1 by (metis div_less_iff_less_mult mult.commute)
  then have up: "n < (q + 1) * ?d" by (simp add: algebra_simps)
  show ?thesis
  proof (cases "n < q * ?d")
    case True
    then have "q \<noteq> 0" by (cases q) simp_all
    then obtain k where k: "q = Suc k" by (metis not0_implies_Suc)
    have "k * ?d \<le> n" using low enough by (simp add: k algebra_simps)
    then have "n div ?d = k" using True by (intro div_nat_eqI) (simp_all add: k mult.commute)
    then show ?thesis using True k by simp
  next
    case False
    then show ?thesis using up by (simp) (intro div_nat_eqI, simp_all add: mult.commute)
  qed
qed

lemma estimate_enough:
  fixes M d1 x s :: nat
  assumes "M < 2 ^ (32 + s)" "2 ^ 31 \<le> d1" "s < 32"
  shows "M div d1 * (x * 2 ^ s mod 2 ^ 32) \<le> d1 * 2 ^ 32"
proof (cases "s = 31")
  case True
  have "M < 2 ^ 32 * d1" using assms(1,2) by (simp add: True)
  then have "M div d1 \<le> 2 ^ 32" using assms(2) by (simp add: less_mult_imp_div_less less_imp_le)
  moreover have "x * 2 ^ s mod 2 ^ 32 \<le> 2 ^ 31"
  proof -
    have "x * 2 ^ s mod 2 ^ 32 = x mod 2 * 2 ^ 31" using div_scale(2) [of x 31 2] by (simp add: True)
    also have "\<dots> \<le> 1 * 2 ^ 31" by (intro mult_le_mono1) simp
    finally show ?thesis by simp
  qed
  ultimately have "M div d1 * (x * 2 ^ s mod 2 ^ 32) \<le> 2 ^ 32 * 2 ^ 31" by (rule mult_le_mono)
  then show ?thesis using assms(2) by simp
next
  case False
  have "(2::nat) ^ (32 + s) \<le> 2 ^ 62" using assms(3) False by (intro power_increasing) simp_all
  also have "(2::nat) ^ 62 \<le> d1 * d1" using mult_le_mono [OF assms(2) assms(2)] by simp
  finally have "M div d1 \<le> d1" using assms(1) by (intro less_imp_le less_mult_imp_div_less) linarith
  moreover have "x * 2 ^ s mod 2 ^ 32 \<le> 2 ^ 32" by (simp add: less_imp_le)
  ultimately show ?thesis by (rule mult_le_mono)
qed

lemma udivmod_two_words:
  assumes "hi b \<noteq> 0" "hi b \<le> hi a" "CountLeadingZeros (hi b) \<noteq> 0"
  shows "\<exists>q r. jsll_udivmod a b = Some (q, r) \<and> w64 q = w64 a div w64 b \<and> w64 r = w64 a mod w64 b"
proof -
  define s where "s = CountLeadingZeros (hi b)"
  have s: "0 < s" "s < 32" using clz_norm(1) [OF assms(1)] assms(3) by (simp_all add: s_def)
  define d where "d = mk64 (push_bit s (hi b) OR drop_bit (32 - s) (lo b)) (push_bit s (lo b))"
  define n2 where "n2 = drop_bit (32 - s) (hi a)"
  define n1 where "n1 = push_bit s (hi a) OR drop_bit (32 - s) (lo a)"
  define n0 where "n0 = push_bit s (lo a)"
  define N where "N = unat (w64 a) * 2 ^ s"
  define D where "D = unat (w64 b) * 2 ^ s"
  define M where "M = unat (w64 (mk64 n2 n1))"
  have hb: "2 ^ 31 \<le> unat (hi b) * 2 ^ s" "unat (hi b) * 2 ^ s < 2 ^ 32" using clz_norm [OF assms(1)] by (simp_all add: s_def)
  have two: "(2::nat) ^ 32 = 2 ^ (32 - s) * 2 ^ s" using s by (simp flip: power_add)
  have "unat (hi b) < 2 ^ (32 - s)" using hb(2) unfolding two by simp
  then have "unat (drop_bit (32 - s) (hi b)) = 0" by (simp add: unat_shr)
  then have D: "D = unat (w64 d)" using shl64 [OF s, of "lo b" "hi b"] by (simp add: D_def d_def)
  have d1: "2 ^ 31 \<le> unat (hi d)" using hb by (simp add: d_def unat_shl_or [OF s])
  have Dp: "D = unat (hi d) * 2 ^ 32 + unat (lo d)" "0 < D" "D < 2 ^ 64"
    using d1 unsigned_less [of "w64 d", where 'a = nat] unfolding D by (simp_all add: unat_w64)
  have N: "N = M * 2 ^ 32 + unat n0"
    using shl64 [OF s, of "lo a" "hi a"] by (simp add: N_def M_def unat_w64 n2_def n1_def n0_def)
  have n2: "unat n2 < 2 ^ s" using unat_u32 [of "hi a"] unfolding two n2_def unat_shr by (intro less_mult_imp_div_less) (simp add: mult.commute)
  moreover have "(2::nat) ^ s \<le> 2 ^ 31" using s by (intro power_increasing) simp_all
  ultimately have lt: "unat (hi (mk64 n2 n1)) < unat (hi d)" using d1 by simp
  have M: "M < 2 ^ (32 + s)"
  proof -
    have "(unat n2 + 1) * 2 ^ 32 \<le> 2 ^ s * 2 ^ 32" using n2 by (intro mult_le_mono1) simp
    then show ?thesis using unat_u32 [of n1] by (simp add: M_def unat_w64 power_add mult.commute)
  qed
  define q where "q = M div unat (hi d)"
  define r where "r = M mod unat (hi d)"
  have "M < unat (hi d) * 2 ^ 32" using lt unat_u32 [of n1] by (simp add: M_def unat_w64)
  then have q32: "q < 2 ^ 32" unfolding q_def by (intro less_mult_imp_div_less) (simp add: mult.commute)
  have "r < unat (hi d)" using less_le_trans [OF _ d1, of 0] unfolding r_def by (intro mod_less_divisor) simp
  then have r32: "r < 2 ^ 32" using unat_u32 [of "hi d"] by linarith
  define qw :: u32 where "qw = word_of_nat q"
  define rw :: u32 where "rw = word_of_nat r"
  have u: "unat qw = q" "unat rw = r" by (simp_all only: qw_def rw_def unat_word32 [OF q32] unat_word32 [OF r32])
  have nd: "norm_udivmod32 (mk64 n2 n1) (hi d) = (qw, rw)"
    using norm_udivmod32_ok [OF lt d1] by (simp only: qw_def rw_def q_def r_def M_def)
  define m where "m = JSLL_MUL32 qw (lo d)"
  have m: "unat (w64 m) = q * unat (lo d)" by (simp add: m_def MUL32_exact u)
  define c where "c \<longleftrightarrow> rw < hi m \<or> (hi m = rw \<and> n0 < lo m)"
  have nr: "N = q * unat (hi d) * 2 ^ 32 + unat (w64 (mk64 rw n0))"
    unfolding N by (simp add: unat_w64 u q_def r_def div_mult_mod_eq flip: add_mult_distrib)
  have c: "c \<longleftrightarrow> N < q * D"
  proof -
    have "c \<longleftrightarrow> w64 (mk64 rw n0) < w64 m" by (auto simp: c_def JSLL_UCMP_less_def simp flip: w64_less)
    then show ?thesis by (simp add: word_less_nat_alt m nr Dp(1) algebra_simps)
  qed
  have quot: "N div D = (if c then q - 1 else q)"
  proof -
    have "q * unat (lo d) \<le> unat (hi d) * 2 ^ 32"
      using estimate_enough [OF M d1 s(2), of "unat (lo b)"] by (simp add: q_def d_def unat_shl)
    moreover have "q = N div 2 ^ 32 div unat (hi d)" using unat_u32 [of n0] by (simp add: q_def N)
    ultimately show ?thesis using estimate_once [of q N "2 ^ 32" "unat (hi d)" "unat (lo d)"] d1 c by (simp add: Dp(1))
  qed
  define m' where "m' = (if c then JSLL_SUB m d else m)"
  define a' where "a' = JSLL_SUB (mk64 rw n0) m'"
  have "w64 a' = word_of_nat (N mod D)"
  proof -
    have w: "word_of_nat D = w64 d" by (simp add: D)
    have nd: "N = N div D * D + N mod D" by simp
    show ?thesis
    proof (cases c)
      case True
      then obtain k where k: "q = Suc k" using c by (cases q) auto
      have "unat (w64 (mk64 rw n0)) + D = unat (w64 m) + N mod D"
        using nd quot True nr k by (simp add: m Dp(1) algebra_simps)
      then have "word_of_nat (unat (w64 (mk64 rw n0)) + D) = (word_of_nat (unat (w64 m) + N mod D) :: u64)" by (rule arg_cong)
      then have "w64 (mk64 rw n0) + w64 d = w64 m + word_of_nat (N mod D)" by (simp only: of_nat_add of_nat_unat ucast_id w)
      then show ?thesis using True by (simp add: a'_def m'_def w64_sub algebra_simps)
    next
      case False
      have "unat (w64 (mk64 rw n0)) = unat (w64 m) + N mod D"
        using nd quot False nr by (simp add: m Dp(1) algebra_simps)
      then have "word_of_nat (unat (w64 (mk64 rw n0))) = (word_of_nat (unat (w64 m) + N mod D) :: u64)" by (rule arg_cong)
      then have "w64 (mk64 rw n0) = w64 m + word_of_nat (N mod D)" by (simp only: of_nat_add of_nat_unat ucast_id)
      then show ?thesis using False by (simp add: a'_def m'_def w64_sub algebra_simps)
    qed
  qed
  moreover have "N mod D < 2 ^ 64" using Dp(2,3) mod_less_divisor [of D N] by linarith
  ultimately have ua: "unat (w64 a') = N mod D" by (simp add: unat_of_nat take_bit_nat_eq_self)
  define q0 where "q0 = (if c then qw - 1 else qw)"
  have uq: "unat q0 = N div D" using quot c u(1) Dp(2) by (cases "q = 0") (auto simp: q0_def unat_minus_one word_unat_eq_iff)
  have res: "jsll_udivmod a b = Some (mk64 0 q0, mk64 (drop_bit s (hi a')) (push_bit (32 - s) (hi a') OR drop_bit s (lo a')))"
  proof -
    have nd': "norm_udivmod32 (mk64 n2 n1) (push_bit s (hi b) OR drop_bit (32 - s) (lo b)) = (qw, rw)"
      using nd by (simp add: d_def)
    have m': "JSLL_MUL32 qw (push_bit s (lo b)) = m" by (simp add: m_def d_def)
    have c': "(rw < hi m \<or> hi m = rw \<and> n0 < lo m) = c" by (simp add: c_def)
    show ?thesis
      using assms leD [OF assms(2)] unfolding jsll_udivmod_def Let_def s_def [symmetric] n2_def [symmetric] n1_def [symmetric] n0_def [symmetric]
      by (simp add: nd' m' c' q0_def a'_def m'_def d_def)
  qed
  have "w64 (mk64 (drop_bit s (hi a')) (push_bit (32 - s) (hi a') OR drop_bit s (lo a'))) = drop_bit s (w64 a')"
    using w64_shifts(2) [of s a'] s by (simp add: JSLL_USHR_def)
  moreover have "unat (drop_bit s (w64 a')) = unat (w64 a) mod unat (w64 b)"
  proof -
    have "unat (drop_bit s (w64 a')) = N mod D div 2 ^ s"
      by (simp only: unsigned_drop_bit_eq) (use unsigned_less [of "w64 a'", where 'a = nat] in \<open>simp add: drop_bit_eq_div take_bit_nat_eq_self ua\<close>)
    then show ?thesis by (simp add: N_def D_def div_scale)
  qed
  moreover have "N div D = unat (w64 a) div unat (w64 b)" by (simp add: N_def D_def div_scale)
  ultimately have "w64 (mk64 (drop_bit s (hi a')) (push_bit (32 - s) (hi a') OR drop_bit s (lo a'))) = w64 a mod w64 b"
    "w64 (mk64 0 q0) = w64 a div w64 b"
    using uq by (simp_all add: word_unat_eq_iff unat_div_distrib unat_mod_distrib unat_w64 [of "mk64 0 q0"])
  with res show ?thesis by blast
qed

lemma sint_split_less:
  fixes s t x y :: int
  assumes "0 \<le> x" "x < 2 ^ 32" "0 \<le> y" "y < 2 ^ 32"
  shows "s * 2 ^ 32 + x < t * 2 ^ 32 + y \<longleftrightarrow> s < t \<or> (s = t \<and> x < y)"
proof -
  have a: "0 \<le> x" "x < 4294967296" "0 \<le> y" "y < 4294967296" using assms by simp_all
  have "s * 4294967296 + x < t * 4294967296 + y \<longleftrightarrow> s < t \<or> (s = t \<and> x < y)"
  proof (cases s t rule: linorder_cases)
    case less
    then have "s + 1 \<le> t" by simp
    then show ?thesis using less a by linarith
  next
    case greater
    then have "t + 1 \<le> s" by simp
    then show ?thesis using greater a by linarith
  qed simp
  then show ?thesis by simp
qed

lemma uint_u32: "0 \<le> uint (x :: u32)" "uint (x :: u32) < 2 ^ 32"
  using unsigned_less [of x, where 'a = int] by simp_all

lemma sint_hi: "sint (w64 a) < 0 \<longleftrightarrow> sint (hi a) < 0"
  using sint_split_less [OF uint_u32 [of "lo a"], of 0 "sint (hi a)" 0] uint_u32(1) [of "lo a"] by (auto simp: sint_w64)

lemma CMP_less_ok: "JSLL_CMP_less a b \<longleftrightarrow> sint (w64 a) < sint (w64 b)"
proof -
  have e: "hi a = hi b \<longleftrightarrow> sint (hi a) = sint (hi b)" by (auto intro: signed_word_eqI)
  show ?thesis unfolding JSLL_CMP_less_def sint_w64 word_less_def e
    using sint_split_less [OF uint_u32 [of "lo a"] uint_u32 [of "lo b"]] by blast
qed

lemma GE_ZERO_ok: "JSLL_GE_ZERO a \<longleftrightarrow> 0 \<le> sint (w64 a)"
proof -
  have "drop_bit 31 (hi a) = 0 \<longleftrightarrow> \<not> bit (hi a) 31"
  proof
    assume "drop_bit 31 (hi a) = 0"
    then have "\<not> bit (drop_bit 31 (hi a)) 0" by simp
    then show "\<not> bit (hi a) 31" by (simp add: bit_drop_bit_eq)
  next
    assume n: "\<not> bit (hi a) 31"
    show "drop_bit 31 (hi a) = 0"
    proof (rule bit_word_eqI)
      fix k show "bit (drop_bit 31 (hi a)) k = bit (0 :: u32) k"
        using n u32_beyond [of "31 + k" "hi a"] by (cases k) (simp_all add: bit_drop_bit_eq)
    qed
  qed
  moreover have "bit (hi a) 31 \<longleftrightarrow> sint (hi a) < 0" using bit_last_iff [of "hi a"] by simp
  ultimately show ?thesis unfolding JSLL_GE_ZERO_def using sint_hi [of a] by auto
qed

lemma I2L_ok: "sint (w64 (JSLL_I2L x)) = sint x"
proof -
  have "w64 (JSLL_I2L x) = scast x"
  proof (rule bit_word_eqI)
    fix n assume "n < LENGTH(64)"
    then consider "n < 32" | "n = 32" | "32 < n" "n < 64" by fastforce
    then show "bit (w64 (JSLL_I2L x)) n = bit (scast x :: u64) n"
      by cases (auto simp: bit_w64 JSLL_I2L_def bit_simps)
  qed
  then show ?thesis by (simp add: sint_up_scast is_up)
qed

text \<open>All cases of the division together.\<close>

lemma udivmod_ok:
  assumes "w64 b \<noteq> 0"
  shows "\<exists>q r. jsll_udivmod a b = Some (q, r) \<and> w64 q = w64 a div w64 b \<and>
    w64 r = (if w64 b < 2 ^ 63 then w64 a mod w64 b else w64 a)"
proof -
  have big: "w64 b < 2 ^ 63 \<longleftrightarrow> hi b = 0 \<or> CountLeadingZeros (hi b) \<noteq> 0"
  proof (cases "hi b = 0")
    case True
    then show ?thesis using unat_u32 [of "lo b"] by (simp add: word_less_nat_alt unat_w64)
  next
    case False
    note c = clz_norm [OF False]
    show ?thesis
    proof (cases "CountLeadingZeros (hi b) = 0")
      case True
      then show ?thesis using False c(2) by (simp add: word_less_nat_alt unat_w64 not_less)
    next
      case nz: False
      have "(2::nat) ^ 1 \<le> 2 ^ CountLeadingZeros (hi b)" using nz by (intro power_increasing) simp_all
      then have "unat (hi b) * 2 \<le> unat (hi b) * 2 ^ CountLeadingZeros (hi b)" by (intro mult_le_mono2) simp
      then have "unat (hi b) * 2 < 2 ^ 32" using c(3) by linarith
      then show ?thesis using nz unat_u32 [of "lo b"] by (simp add: word_less_nat_alt unat_w64)
    qed
  qed
  consider "hi b = 0" "hi a < lo b" | "hi b = 0" "lo b \<le> hi a" | "hi b \<noteq> 0" "hi a < hi b"
    | "hi b \<noteq> 0" "hi b \<le> hi a" "CountLeadingZeros (hi b) = 0" | "hi b \<noteq> 0" "hi b \<le> hi a" "CountLeadingZeros (hi b) \<noteq> 0"
    by fastforce
  then show ?thesis
  proof cases
    case 1
    then show ?thesis using udivmod_one_word [OF 1] big by simp
  next
    case 2
    have "lo b \<noteq> 0" using assms 2(1) by (auto simp: word_unat_eq_iff unat_w64)
    then show ?thesis using udivmod_two_digits [OF 2(1) _ 2(2)] big 2(1) by simp
  next
    case 3
    have "w64 a div w64 b = 0" "w64 a mod w64 b = w64 a"
      using udivmod_small(2) [OF 3(2)] by (simp_all add: word_unat_eq_iff unat_div_distrib unat_mod_distrib word_less_nat_alt)
    then show ?thesis using udivmod_small(1) [OF 3(2)] by (simp add: w64_def)
  next
    case 4
    then show ?thesis using udivmod_high [OF 4] big by (simp add: w64_def)
  next
    case 5
    then show ?thesis using udivmod_two_words [OF 5] big by simp
  qed
qed

lemma ISHL_ok: "n < 64 \<Longrightarrow> w64 (JSLL_ISHL x n) = push_bit n (if n = 0 then ucast x else scast x)"
proof (rule bit_word_eqI)
  fix k assume "n < 64" "k < LENGTH(64)"
  then consider "n = 0" | "0 < n" "n < 32" "k < 32" | "0 < n" "n < 32" "32 \<le> k" "k < 64" | "32 \<le> n" "n < 64" "k < 64" by fastforce
  then show "bit (w64 (JSLL_ISHL x n)) k = bit (push_bit n (if n = 0 then ucast x else scast x) :: u64) k"
    by cases (auto simp: bit_w64 JSLL_ISHL_def bit_simps u32_beyond mod_if not_less)
qed

text \<open>Signed division: of the absolute values, with the signs of C.\<close>

lemma w64_abs: "w64 (if sint (hi a) < 0 then JSLL_NEG a else a) = word_of_int \<bar>sint (w64 a)\<bar>"
proof -
  have "w64 (if sint (hi a) < 0 then JSLL_NEG a else a) = (if sint (w64 a) < 0 then - w64 a else w64 a)"
    by (simp add: w64_neg sint_hi)
  moreover have "word_of_int (uint (if sint (w64 a) < 0 then - w64 a else w64 a)) = (word_of_int \<bar>sint (w64 a)\<bar> :: u64)"
    by (simp only: abs_word)
  ultimately show ?thesis by (simp only: of_int_uint ucast_id)
qed

lemma signed_division:
  assumes "sint (w64 b) \<noteq> 0" "- (2 ^ 63) < sint (w64 b)"
  shows "\<exists>q r. JSLL_DIV a b = Some q \<and> JSLL_MOD a b = Some r \<and>
    w64 q = word_of_int (sgn (sint (w64 a)) * sgn (sint (w64 b)) * (\<bar>sint (w64 a)\<bar> div \<bar>sint (w64 b)\<bar>)) \<and>
    w64 r = word_of_int (sgn (sint (w64 a)) * (\<bar>sint (w64 a)\<bar> mod \<bar>sint (w64 b)\<bar>))"
proof -
  let ?x = "sint (w64 a)" and ?y = "sint (w64 b)"
  have rx: "\<bar>?x\<bar> < 2 ^ 64" using sint_ge [of "w64 a"] sint_lt [of "w64 a"] by simp
  have ry: "\<bar>?y\<bar> < 2 ^ 63" using sint_lt [of "w64 b"] assms(2) by simp
  define A where "A = (if sint (hi a) < 0 then JSLL_NEG a else a)"
  define B where "B = (if sint (hi b) < 0 then JSLL_NEG b else b)"
  have A: "uint (w64 A) = \<bar>?x\<bar>" using rx unfolding A_def w64_abs by (simp add: uint_word_of_int)
  have B: "uint (w64 B) = \<bar>?y\<bar>" using ry unfolding B_def w64_abs by (simp add: uint_word_of_int)
  have "w64 B \<noteq> 0" "w64 B < 2 ^ 63" using B assms(1) ry by (auto simp: word_less_def)
  then obtain q r where qr: "jsll_udivmod A B = Some (q, r)" "w64 q = w64 A div w64 B" "w64 r = w64 A mod w64 B"
    using udivmod_ok [of B A] by auto
  have "w64 q = word_of_int (\<bar>?x\<bar> div \<bar>?y\<bar>)" "w64 r = word_of_int (\<bar>?x\<bar> mod \<bar>?y\<bar>)"
    using qr(2,3) by (simp_all add: word_div_def word_mod_def A B)
  moreover have "JSLL_DIV a b = Some (if ?x < 0 \<longleftrightarrow> ?y < 0 then q else JSLL_NEG q)" "JSLL_MOD a b = Some (if ?x < 0 then JSLL_NEG r else r)"
    using qr(1) by (simp_all add: JSLL_DIV_def JSLL_MOD_def Let_def A_def B_def sint_hi)
  moreover have "w64 (if ?x < 0 \<longleftrightarrow> ?y < 0 then q else JSLL_NEG q) = word_of_int (sgn ?x * sgn ?y * (\<bar>?x\<bar> div \<bar>?y\<bar>))"
    using assms(1) calculation(1) by (cases ?x "0 :: int" rule: linorder_cases) (simp_all add: w64_neg sgn_if)
  moreover have "w64 (if ?x < 0 then JSLL_NEG r else r) = word_of_int (sgn ?x * (\<bar>?x\<bar> mod \<bar>?y\<bar>))"
    using calculation(2) by (cases ?x "0 :: int" rule: linorder_cases) (simp_all add: w64_neg sgn_if)
  ultimately show ?thesis by blast
qed

section \<open>Properties\<close>

text \<open>
  C31: On halves, the macros are the arithmetic of 64-bit words: addition, subtraction, negation
  and multiplication with wrap-around, both comparisons, the bitwise operations, and the shifts
  (also the arithmetic one) by less than 64 places. The product of two 32-bit numbers is exact.
  \<^verbatim>\<open>JSLL_ISHL\<close> extends the sign of its 32-bit argument, except for a shift by 0 places.
\<close>

theorem jslong_arithmetic:
  assumes "n < 64"
  shows "w64 (JSLL_ADD a b) = w64 a + w64 b \<and> w64 (JSLL_SUB a b) = w64 a - w64 b \<and> w64 (JSLL_NEG a) = - w64 a \<and>
    w64 (JSLL_MUL a b) = w64 a * w64 b \<and> unat (w64 (JSLL_MUL32 x y)) = unat x * unat y \<and>
    (JSLL_UCMP_less a b \<longleftrightarrow> w64 a < w64 b) \<and> (JSLL_CMP_less a b \<longleftrightarrow> sint (w64 a) < sint (w64 b)) \<and>
    (JSLL_EQ a b \<longleftrightarrow> w64 a = w64 b) \<and> (JSLL_NE a b \<longleftrightarrow> w64 a \<noteq> w64 b) \<and> (JSLL_IS_ZERO a \<longleftrightarrow> w64 a = 0) \<and>
    (JSLL_GE_ZERO a \<longleftrightarrow> 0 \<le> sint (w64 a)) \<and>
    w64 (JSLL_AND a b) = w64 a AND w64 b \<and> w64 (JSLL_OR a b) = w64 a OR w64 b \<and>
    w64 (JSLL_XOR a b) = w64 a XOR w64 b \<and> w64 (JSLL_NOT a) = NOT (w64 a) \<and>
    w64 (JSLL_SHL a n) = push_bit n (w64 a) \<and> w64 (JSLL_USHR a n) = drop_bit n (w64 a) \<and>
    w64 (JSLL_SHR a n) = signed_drop_bit n (w64 a) \<and>
    w64 (JSLL_ISHL x n) = push_bit n (if n = 0 then ucast x else scast x) \<and>
    sint (w64 (JSLL_I2L x)) = sint x \<and> unat (w64 (JSLL_UI2L x)) = unat x \<and>
    JSLL_L2I (JSLL_I2L x) = x \<and> JSLL_L2UI (JSLL_UI2L x) = x"
proof (intro conjI)
  show "JSLL_EQ a b \<longleftrightarrow> w64 a = w64 b" "JSLL_NE a b \<longleftrightarrow> w64 a \<noteq> w64 b"
    by (auto simp: JSLL_EQ_def JSLL_NE_def w64_eq_iff)
  show "JSLL_IS_ZERO a \<longleftrightarrow> w64 a = 0"
    using w64_eq_iff [of a "mk64 0 0"] by (auto simp: JSLL_IS_ZERO_def w64_def [of "mk64 0 0"])
  show "JSLL_CMP_less a b \<longleftrightarrow> sint (w64 a) < sint (w64 b)" by (rule CMP_less_ok)
  show "JSLL_GE_ZERO a \<longleftrightarrow> 0 \<le> sint (w64 a)" by (rule GE_ZERO_ok)
  show "sint (w64 (JSLL_I2L x)) = sint x" by (rule I2L_ok)
  show "unat (w64 (JSLL_UI2L x)) = unat x" by (simp add: JSLL_UI2L_def unat_w64)
qed (simp_all add: w64_add w64_sub w64_neg w64_mul MUL32_exact w64_less w64_bits w64_shifts [OF assms] ISHL_ok [OF assms]
    JSLL_L2I_def JSLL_I2L_def JSLL_L2UI_def JSLL_UI2L_def)

lemma jslong_arithmetic_witness:
  "w64 (JSLL_SUB (mk64 1 0) (mk64 0 1)) = 0xffffffff \<and> w64 (JSLL_SHR (mk64 0x80000000 0) 36) = 0xfffffffff8000000"
proof -
  have "w64 (mk64 1 0) - w64 (mk64 0 1) = 0xffffffff" "signed_drop_bit 36 (w64 (mk64 0x80000000 0)) = 0xfffffffff8000000" by code_simp+
  moreover have n: "(36 :: nat) < 64" by simp
  moreover have "w64 (JSLL_SUB (mk64 1 0) (mk64 0 1)) = w64 (mk64 1 0) - w64 (mk64 0 1)"
    using jslong_arithmetic [OF n, of "mk64 1 0" "mk64 0 1"] by blast
  moreover have "w64 (JSLL_SHR (mk64 0x80000000 0) 36) = signed_drop_bit 36 (w64 (mk64 0x80000000 0))"
    using jslong_arithmetic [OF n, of "mk64 0x80000000 0"] by blast
  ultimately show ?thesis by (simp only: simp_thms)
qed

text \<open>
  C30: \<^verbatim>\<open>jsll_udivmod\<close> divides: for every divisor but zero the quotient is the 64-bit quotient, and
  for every divisor below \<open>2 ^ 63\<close> the remainder is the remainder. For a divisor of \<open>2 ^ 63\<close> or
  more the remainder it returns is the dividend: the difference it computes is dropped. The
  signed macros on top of it truncate as C does, for every divisor but 0 and \<open>- (2 ^ 63)\<close>.
\<close>

theorem udivmod_correct:
  assumes "w64 b \<noteq> 0"
  shows "\<exists>q r. jsll_udivmod a b = Some (q, r) \<and> w64 q = w64 a div w64 b \<and>
    (w64 b < 2 ^ 63 \<longrightarrow> w64 r = w64 a mod w64 b) \<and> (2 ^ 63 \<le> w64 b \<longrightarrow> r = a) \<and>
    (- (2 ^ 63) < sint (w64 b) \<longrightarrow>
       (\<exists>q r. JSLL_DIV a b = Some q \<and> JSLL_MOD a b = Some r \<and>
          w64 q = word_of_int (sgn (sint (w64 a)) * sgn (sint (w64 b)) * (\<bar>sint (w64 a)\<bar> div \<bar>sint (w64 b)\<bar>)) \<and>
          w64 r = word_of_int (sgn (sint (w64 a)) * (\<bar>sint (w64 a)\<bar> mod \<bar>sint (w64 b)\<bar>))))"
proof -
  have "sint (w64 b) \<noteq> 0" using assms by (simp add: signed_eq_0_iff)
  note s = signed_division [OF this, of a]
  from udivmod_ok [OF assms, of a] obtain q r where "jsll_udivmod a b = Some (q, r)" "w64 q = w64 a div w64 b"
    "w64 r = (if w64 b < 2 ^ 63 then w64 a mod w64 b else w64 a)" by blast
  then show ?thesis using s by (auto simp: w64_eq_iff not_le [symmetric])
qed

lemma udivmod_correct_witness:
  "\<exists>q r. jsll_udivmod (mk64 0x80000000 5) (mk64 0x80000000 0) = Some (q, r) \<and> w64 q = 1 \<and> r = mk64 0x80000000 5 \<and>
    w64 (mk64 0x80000000 5) mod w64 (mk64 0x80000000 0) = 5"
proof -
  have "w64 (mk64 0x80000000 0) \<noteq> 0" "w64 (mk64 0x80000000 5) div w64 (mk64 0x80000000 0) = 1"
    "w64 (mk64 0x80000000 5) mod w64 (mk64 0x80000000 0) = 5" "2 ^ 63 \<le> w64 (mk64 0x80000000 0)" by code_simp+
  then show ?thesis using udivmod_correct [of "mk64 0x80000000 0" "mk64 0x80000000 5"] by auto
qed

end
