(* ===== verification/Bigint.thy ===== *)
theory Bigint
  imports JsLong
begin

text \<open>
  The multiple-precision integers of SpiderMonkey's number conversion (\<^verbatim>\<open>jsdtoa.c\<close>). A
  number is an array of 32-bit words, least significant first; the eCos port has no 64-bit
  type (\<^verbatim>\<open>ULLong\<close> is undefined), so every product is taken in 16-bit halves. Memory comes
  from free lists and \<^verbatim>\<open>MALLOC\<close> (\<^verbatim>\<open>Omit_Private_Memory\<close> is defined, \<^verbatim>\<open>ENABLE_OOM_TESTING\<close> is not), and
  every routine that allocates can fail.

  A pointer that walks an array is a recursion over the words it walks; a walk that leaves
  its array, and an index beyond \<^verbatim>\<open>freelist\<close>, is the result \<open>Fault\<close>.
\<close>

section \<open>Numbers and memory\<close>

record bigint =
  bg_k :: nat
  bg_maxwds :: nat
  bg_sign :: int
  bg_wds :: nat
  bg_x :: "u32 list"

text \<open>
  The state: the free list of each size, the outcome of the \<^verbatim>\<open>MALLOC\<close> calls to come (\<open>None\<close> is
  a null pointer, \<open>Some\<close> gives what the words contain; after the last one calls succeed) and
  the list of the powers of five.
\<close>

record dtoa =
  freelist :: "bigint list list"
  mallocs :: "u32 list option list"
  p5s :: "bigint list"

datatype berr = NoMem | Fault

type_synonym 'a res = "(berr + 'a) \<times> dtoa"

definition Kmax :: nat where "Kmax = 15"

definition new_bigint :: "nat \<Rightarrow> u32 list \<Rightarrow> bigint" where
  "new_bigint k junk = \<lparr>bg_k = k, bg_maxwds = 2 ^ k, bg_sign = 0, bg_wds = 0,
     bg_x = take (2 ^ k) (junk @ replicate (2 ^ k) 0)\<rparr>"

definition Balloc :: "nat \<Rightarrow> dtoa \<Rightarrow> bigint res" where
  "Balloc k st =
    (if Kmax < k then (Inl Fault, st)
     else case freelist st ! k of
       rv # rest \<Rightarrow> (Inr (rv\<lparr>bg_sign := 0, bg_wds := 0\<rparr>), st\<lparr>freelist := (freelist st)[k := rest]\<rparr>)
     | [] \<Rightarrow>
         (case mallocs st of
            [] \<Rightarrow> (Inr (new_bigint k []), st)
          | None # ms \<Rightarrow> (Inl NoMem, st\<lparr>mallocs := ms\<rparr>)
          | Some junk # ms \<Rightarrow> (Inr (new_bigint k junk), st\<lparr>mallocs := ms\<rparr>)))"

definition Bfree :: "bigint \<Rightarrow> dtoa \<Rightarrow> dtoa" where
  "Bfree v st = st\<lparr>freelist := (freelist st)[bg_k v := v # freelist st ! bg_k v]\<rparr>"

definition Bcopy :: "bigint \<Rightarrow> bigint \<Rightarrow> bigint" where
  "Bcopy x y = x\<lparr>bg_sign := bg_sign y, bg_wds := bg_wds y,
     bg_x := take (bg_wds y) (bg_x y) @ drop (bg_wds y) (bg_x x)\<rparr>"

text \<open>\<^verbatim>\<open>if (!b) { cleanup; return NULL; }\<close>, and the rest of the routine otherwise.\<close>

definition on_ok :: "'a res \<Rightarrow> (dtoa \<Rightarrow> dtoa) \<Rightarrow> ('a \<Rightarrow> dtoa \<Rightarrow> 'b res) \<Rightarrow> 'b res" where
  "on_ok r cleanup f = (case r of (Inl e, st) \<Rightarrow> (Inl e, cleanup st) | (Inr v, st) \<Rightarrow> f v st)"

text \<open>Storing the words \<open>ws\<close> from the start of the array.\<close>

definition put_words :: "u32 list \<Rightarrow> bigint \<Rightarrow> berr + bigint" where
  "put_words ws b =
    (if length ws \<le> length (bg_x b) then Inr (b\<lparr>bg_x := ws @ drop (length ws) (bg_x b)\<rparr>) else Inl Fault)"

text \<open>\<^verbatim>\<open>Storeinc\<close>\<close>

definition storeinc :: "u32 \<Rightarrow> u32 \<Rightarrow> u32" where
  "storeinc b c = push_bit 16 b OR (c AND 0xffff)"

section \<open>Multiply and add\<close>

fun multadd_loop :: "u32 \<Rightarrow> u32 \<Rightarrow> u32 list \<Rightarrow> u32 list \<times> u32" where
  "multadd_loop m carry [] = ([], carry)"
| "multadd_loop m carry (xi # xs) =
    (let y = (xi AND 0xffff) * m + carry;
         z = drop_bit 16 xi * m + drop_bit 16 y;
         (ws, c) = multadd_loop m (drop_bit 16 z) xs
     in ((push_bit 16 z + (y AND 0xffff)) # ws, c))"

definition multadd :: "bigint \<Rightarrow> u32 \<Rightarrow> u32 \<Rightarrow> dtoa \<Rightarrow> bigint res" where
  "multadd b m a st =
    (let wds = bg_wds b; (ws, carry) = multadd_loop m a (take (max 1 wds) (bg_x b))
     in case put_words ws b of
       Inl e \<Rightarrow> (Inl e, st)
     | Inr b' \<Rightarrow>
         if carry \<noteq> 0 then
           if bg_maxwds b' \<le> wds then
             on_ok (Balloc (bg_k b' + 1) st) (Bfree b')
               (\<lambda>b1 st1. let b2 = Bcopy b1 b'
                  in (Inr (b2\<lparr>bg_x := (bg_x b2)[wds := carry], bg_wds := wds + 1\<rparr>), Bfree b' st1))
           else (Inr (b'\<lparr>bg_x := (bg_x b')[wds := carry], bg_wds := wds + 1\<rparr>), st)
         else (Inr b', st))"

section \<open>Numbers from text and from small integers\<close>

function s2b_k :: "nat \<Rightarrow> nat \<Rightarrow> nat" where
  "s2b_k k x = (if x > 2 ^ k then s2b_k (k + 1) x else k)"
  by auto

termination s2b_k
  by (relation "measure (\<lambda>(k, x). x - 2 ^ k)") (auto intro: diff_less_mono2)

declare s2b_k.simps [simp del]

text \<open>\<open>n\<close> rounds of \<^verbatim>\<open>b = multadd(b, 10, *s++ - '0')\<close>; a text that ends early is a \<open>Fault\<close>.\<close>

fun s2b_digits :: "nat \<Rightarrow> string \<Rightarrow> bigint \<Rightarrow> dtoa \<Rightarrow> (bigint \<times> string) res" where
  "s2b_digits 0 s b st = (Inr (b, s), st)"
| "s2b_digits (Suc n) [] b st = (Inl Fault, st)"
| "s2b_digits (Suc n) (c # s) b st =
    on_ok (multadd b 10 (of_nat (ordc c) - 48) st) (\<lambda>st. st) (\<lambda>b st. s2b_digits n s b st)"

definition s2b :: "string \<Rightarrow> nat \<Rightarrow> nat \<Rightarrow> u32 \<Rightarrow> dtoa \<Rightarrow> bigint res" where
  "s2b s nd0 nd y9 st =
    on_ok (Balloc (s2b_k 0 ((nd + 8) div 9)) st) (\<lambda>st. st)
      (\<lambda>b st. let b = b\<lparr>bg_x := (bg_x b)[0 := y9], bg_wds := 1\<rparr>
         in if 9 < nd0
            then on_ok (s2b_digits (nd0 - 9) (drop 9 s) b st) (\<lambda>st. st)
                   (\<lambda>(b, s) st. on_ok (s2b_digits (nd - nd0) (drop 1 s) b st) (\<lambda>st. st) (\<lambda>(b, s) st. (Inr b, st)))
            else on_ok (s2b_digits (nd - 9) (drop 10 s) b st) (\<lambda>st. st) (\<lambda>(b, s) st. (Inr b, st)))"

definition i2b :: "u32 \<Rightarrow> dtoa \<Rightarrow> bigint res" where
  "i2b i st = on_ok (Balloc 1 st) (\<lambda>st. st) (\<lambda>b st. (Inr (b\<lparr>bg_x := (bg_x b)[0 := i], bg_wds := 1\<rparr>), st))"

section \<open>Counting zero bits\<close>

definition hi0bits_step :: "u32 \<Rightarrow> nat \<Rightarrow> nat \<times> u32 \<Rightarrow> nat \<times> u32" where
  "hi0bits_step m n = (\<lambda>(k, x). if x AND m = 0 then (k + n, push_bit n x) else (k, x))"

definition hi0bits :: "u32 \<Rightarrow> nat" where
  "hi0bits x =
    (let (k, x) = hi0bits_step 0xc0000000 2 (hi0bits_step 0xf0000000 4
           (hi0bits_step 0xff000000 8 (hi0bits_step 0xffff0000 16 (0, x))))
     in if x AND 0x80000000 = 0 then if x AND 0x40000000 = 0 then 32 else k + 1 else k)"

definition lo0bits_step :: "u32 \<Rightarrow> nat \<Rightarrow> nat \<times> u32 \<Rightarrow> nat \<times> u32" where
  "lo0bits_step m n = (\<lambda>(k, x). if x AND m = 0 then (k + n, drop_bit n x) else (k, x))"

text \<open>The result and the new value of \<^verbatim>\<open>*y\<close>.\<close>

definition lo0bits :: "u32 \<Rightarrow> nat \<times> u32" where
  "lo0bits y =
    (if y AND 7 \<noteq> 0 then
       if y AND 1 \<noteq> 0 then (0, y)
       else if y AND 2 \<noteq> 0 then (1, drop_bit 1 y)
       else (2, drop_bit 2 y)
     else
       let (k, x) = lo0bits_step 0x3 2 (lo0bits_step 0xf 4 (lo0bits_step 0xff 8 (lo0bits_step 0xffff 16 (0, y))))
       in if x AND 1 = 0
          then let x = drop_bit 1 x
               in if (if x = 0 then 1 else 0) AND (1::u32) \<noteq> 0 then (32, y) else (k + 1, x)
          else (k, x))"

section \<open>Multiplication\<close>

text \<open>
  One pass of the inner loops: \<open>xs\<close> are the words of \<open>a\<close> still to come, \<open>cs\<close> the words of the
  product from \<^verbatim>\<open>xc\<close> on; the last assignment stores the carry behind them.
\<close>

fun mult_lo :: "u32 \<Rightarrow> u32 \<Rightarrow> u32 list \<Rightarrow> u32 list \<Rightarrow> u32 list option" where
  "mult_lo y carry xs [] = None"
| "mult_lo y carry [] (c # cs) = Some (carry # cs)"
| "mult_lo y carry (x # xs) (c # cs) =
    (let z = (x AND 0xffff) * y + (c AND 0xffff) + carry;
         carry = drop_bit 16 z;
         z2 = drop_bit 16 x * y + drop_bit 16 c + carry
     in map_option ((#) (storeinc z2 z)) (mult_lo y (drop_bit 16 z2) xs cs))"

fun mult_hi :: "u32 \<Rightarrow> u32 \<Rightarrow> u32 \<Rightarrow> u32 list \<Rightarrow> u32 list \<Rightarrow> u32 list option" where
  "mult_hi y carry z2 [] (c # cs) = Some (z2 # cs)"
| "mult_hi y carry z2 (x # xs) (c # c' # cs) =
    (let z = (x AND 0xffff) * y + drop_bit 16 c + carry;
         carry = drop_bit 16 z;
         w = storeinc z z2;
         z2 = drop_bit 16 x * y + (c' AND 0xffff) + carry
     in map_option ((#) w) (mult_hi y (drop_bit 16 z2) z2 xs (c' # cs)))"
| "mult_hi y carry z2 xs cs = None"

definition mult_row :: "u32 \<Rightarrow> u32 list \<Rightarrow> u32 list \<Rightarrow> u32 list option" where
  "mult_row yw xa cs =
    (let y = yw AND 0xffff
     in case (if y \<noteq> 0 then mult_lo y 0 xa cs else Some cs) of
       None \<Rightarrow> None
     | Some cs \<Rightarrow>
         let y = drop_bit 16 yw
         in if y \<noteq> 0 then (case cs of [] \<Rightarrow> None | z2 # _ \<Rightarrow> mult_hi y 0 z2 xa cs) else Some cs)"

text \<open>The outer loop: \<^verbatim>\<open>xc0\<close> moves one word up after every word of \<open>b\<close>.\<close>

fun mult_rows :: "u32 list \<Rightarrow> u32 list \<Rightarrow> u32 list \<Rightarrow> u32 list option" where
  "mult_rows xa [] cs = Some cs"
| "mult_rows xa (yw # ys) cs =
    (case mult_row yw xa cs of
       Some (c # cs') \<Rightarrow> map_option ((#) c) (mult_rows xa ys cs')
     | _ \<Rightarrow> None)"

text \<open>The loops that drop leading zero words.\<close>

fun trim :: "u32 list \<Rightarrow> nat \<Rightarrow> nat" where
  "trim xs 0 = 0"
| "trim xs (Suc n) = (if xs ! n = 0 then trim xs n else Suc n)"

definition mult :: "bigint \<Rightarrow> bigint \<Rightarrow> dtoa \<Rightarrow> bigint res" where
  "mult a b st =
    (let (a, b) = (if bg_wds a < bg_wds b then (b, a) else (a, b));
         k = bg_k a; wa = bg_wds a; wb = bg_wds b; wc = wa + wb;
         k = (if wc > bg_maxwds a then k + 1 else k)
     in on_ok (Balloc k st) (\<lambda>st. st)
          (\<lambda>c st. case put_words (replicate wc 0) c of
             Inl e \<Rightarrow> (Inl e, st)
           | Inr c \<Rightarrow>
               (case mult_rows (take wa (bg_x a)) (take wb (bg_x b)) (bg_x c) of
                  None \<Rightarrow> (Inl Fault, st)
                | Some xs \<Rightarrow> (Inr (c\<lparr>bg_x := xs, bg_wds := trim xs wc\<rparr>), st))))"

section \<open>Powers of five and of two\<close>

text \<open>
  Between the test of a null entry of the list and the lock, another thread may store the
  power that is missing: \<open>rival i\<close> is the number it stored as the \<open>i\<close>-th entry, if any.
\<close>

definition p5s_store :: "(nat \<Rightarrow> bigint option) \<Rightarrow> bigint \<Rightarrow> dtoa \<Rightarrow> bigint \<times> dtoa" where
  "p5s_store rival p st =
    (case rival (length (p5s st)) of
       None \<Rightarrow> (p, st\<lparr>p5s := p5s st @ [p]\<rparr>)
     | Some q \<Rightarrow> (q, Bfree p (st\<lparr>p5s := p5s st @ [q]\<rparr>)))"

text \<open>The loop at the \<open>i\<close>-th power \<open>p5\<close>, which is \<open>5 ^ (4 * 2 ^ i)\<close>.\<close>

function pow5mult_loop :: "(nat \<Rightarrow> bigint option) \<Rightarrow> nat \<Rightarrow> bigint \<Rightarrow> nat \<Rightarrow> bigint \<Rightarrow> dtoa \<Rightarrow> bigint res" where
  "pow5mult_loop rival i p5 k b st =
    on_ok (if odd k then (let (r, st) = mult b p5 st in (r, Bfree b st)) else (Inr b, st)) (\<lambda>st. st)
      (\<lambda>b st. let k = k div 2
         in if k = 0 then (Inr b, st)
            else on_ok (if i + 1 < length (p5s st) then (Inr (p5s st ! (i + 1)), st)
                        else on_ok (mult p5 p5 st) (Bfree b)
                               (\<lambda>p51 st. let (p51, st) = p5s_store rival p51 st in (Inr p51, st)))
                  (\<lambda>st. st)
                  (\<lambda>p51 st. pow5mult_loop rival (i + 1) p51 k b st))"
  by auto

termination pow5mult_loop
  by (relation "measure (\<lambda>(rival, i, p5, k, b, st). k)") auto

declare pow5mult_loop.simps [simp del]

definition pow5mult :: "(nat \<Rightarrow> bigint option) \<Rightarrow> bigint \<Rightarrow> nat \<Rightarrow> dtoa \<Rightarrow> bigint res" where
  "pow5mult rival b k st =
    on_ok (if k mod 4 \<noteq> 0 then multadd b ([5, 25, 125] ! (k mod 4 - 1)) 0 st else (Inr b, st)) (\<lambda>st. st)
      (\<lambda>b st. let k = k div 4
         in if k = 0 then (Inr b, st)
            else on_ok (if p5s st \<noteq> [] then (Inr (p5s st ! 0), st)
                        else on_ok (i2b 625 st) (Bfree b)
                               (\<lambda>p5 st. let (p5, st) = p5s_store rival p5 st in (Inr p5, st)))
                  (\<lambda>st. st)
                  (\<lambda>p5 st. pow5mult_loop rival 0 p5 k b st))"

fun lshift_loop :: "nat \<Rightarrow> u32 \<Rightarrow> u32 list \<Rightarrow> u32 list" where
  "lshift_loop k z [] = [z]"
| "lshift_loop k z (x # xs) = (push_bit k x OR z) # lshift_loop k (drop_bit (32 - k) x) xs"

text \<open>\<^verbatim>\<open>for (i = b->maxwds; n1 > i; i <<= 1) k1++;\<close>\<close>

function lshift_k :: "nat \<Rightarrow> nat \<Rightarrow> nat \<Rightarrow> nat" where
  "lshift_k n1 i k1 = (if 0 < i \<and> n1 > i then lshift_k n1 (2 * i) (k1 + 1) else k1)"
  by auto

termination lshift_k
  by (relation "measure (\<lambda>(n1, i, k1). n1 - i)") (auto intro: diff_less_mono2)

declare lshift_k.simps [simp del]

definition lshift :: "bigint \<Rightarrow> nat \<Rightarrow> dtoa \<Rightarrow> bigint res" where
  "lshift b k st =
    (let n = k div 32; n1 = n + bg_wds b + 1; k1 = lshift_k n1 (bg_maxwds b) (bg_k b);
         (r, st) = on_ok (Balloc k1 st) (\<lambda>st. st)
           (\<lambda>b1 st. let x = take (max 1 (bg_wds b)) (bg_x b); k = k mod 32
              in if k \<noteq> 0 then
                   let ws = lshift_loop k 0 x; n1 = (if last ws \<noteq> 0 then n1 + 1 else n1)
                   in case put_words (replicate n 0 @ ws) b1 of
                     Inl e \<Rightarrow> (Inl e, st)
                   | Inr b1 \<Rightarrow> (Inr (b1\<lparr>bg_wds := n1 - 1\<rparr>), st)
                 else case put_words (replicate n 0 @ x) b1 of
                     Inl e \<Rightarrow> (Inl e, st)
                   | Inr b1 \<Rightarrow> (Inr (b1\<lparr>bg_wds := n1 - 1\<rparr>), st))
     in (r, Bfree b st))"


section \<open>Comparison and difference\<close>

text \<open>The words from the most significant one down.\<close>

fun cmp_loop :: "u32 list \<Rightarrow> u32 list \<Rightarrow> int" where
  "cmp_loop (x # xs) (y # ys) = (if x \<noteq> y then (if x < y then - 1 else 1) else cmp_loop xs ys)"
| "cmp_loop xs ys = 0"

definition cmp :: "bigint \<Rightarrow> bigint \<Rightarrow> int" where
  "cmp a b =
    (let i = int (bg_wds a) - int (bg_wds b); j = bg_wds b
     in if i \<noteq> 0 then i else cmp_loop (rev (take j (bg_x a))) (rev (take j (bg_x b))))"

text \<open>\<^verbatim>\<open>borrow = (y & 0x10000) >> 16\<close>\<close>

definition borrow_of :: "u32 \<Rightarrow> u32" where
  "borrow_of y = drop_bit 16 (y AND 0x10000)"

fun diff_loop :: "u32 \<Rightarrow> u32 list \<Rightarrow> u32 list \<Rightarrow> u32 list" where
  "diff_loop borrow [] _ = []"
| "diff_loop borrow (xa # xs) (xb # ys) =
    (let y = (xa AND 0xffff) - (xb AND 0xffff) - borrow;
         z = drop_bit 16 xa - drop_bit 16 xb - borrow_of y
     in storeinc z y # diff_loop (borrow_of z) xs ys)"
| "diff_loop borrow (xa # xs) [] =
    (let y = (xa AND 0xffff) - borrow; z = drop_bit 16 xa - borrow_of y
     in storeinc z y # diff_loop (borrow_of z) xs [])"

definition diff :: "bigint \<Rightarrow> bigint \<Rightarrow> dtoa \<Rightarrow> bigint res" where
  "diff a b st =
    (let i = cmp a b
     in if i = 0 then
          on_ok (Balloc 0 st) (\<lambda>st. st) (\<lambda>c st. (Inr (c\<lparr>bg_wds := 1, bg_x := (bg_x c)[0 := 0]\<rparr>), st))
        else
          let (a, b, i) = (if i < 0 then (b, a, 1) else (a, b, 0))
          in on_ok (Balloc (bg_k a) st) (\<lambda>st. st)
               (\<lambda>c st. let wa = bg_wds a; wb = bg_wds b;
                         ws = diff_loop 0 (take wa (bg_x a)) (take wb (bg_x b))
                  in case put_words ws (c\<lparr>bg_sign := i\<rparr>) of
                    Inl e \<Rightarrow> (Inl e, st)
                  | Inr c \<Rightarrow> (Inr (c\<lparr>bg_wds := trim (bg_x c) wa\<rparr>), st)))"

section \<open>Division\<close>

text \<open>\<^verbatim>\<open>while (!*bxe && bxe != bx) { n--; bxe--; }\<close>, with \<^verbatim>\<open>bxe\<close> at the last of \<open>n\<close> words\<close>

fun quorem2_trim :: "u32 list \<Rightarrow> nat \<Rightarrow> nat" where
  "quorem2_trim xs (Suc (Suc n)) = (if xs ! Suc n = 0 then quorem2_trim xs (Suc n) else Suc (Suc n))"
| "quorem2_trim xs n = n"

text \<open>The quotient and the number, which becomes the remainder.\<close>

definition quorem2 :: "bigint \<Rightarrow> nat \<Rightarrow> u32 \<times> bigint" where
  "quorem2 b k =
    (let n = k div 32; k = k mod 32; m = push_bit k 1 - 1
     in if bg_wds b \<le> n then (0, b)
        else let w = bg_wds b - n; bx = bg_x b;
               result = drop_bit k (bx ! n);
               x' = bx[n := bx ! n AND m];
               result = (if w = 2 \<and> k \<noteq> 0 then result OR push_bit (32 - k) (bx ! (n + 1)) else result)
             in (result, b\<lparr>bg_x := x', bg_wds := quorem2_trim x' (n + 1)\<rparr>))"

text \<open>
  The subtraction of \<open>q * S\<close>. The second loop of the code is the first one without the
  multiplication, that is, with \<open>q = 1\<close>.
\<close>

fun quorem_sub :: "u32 \<Rightarrow> u32 \<Rightarrow> u32 \<Rightarrow> u32 list \<Rightarrow> u32 list \<Rightarrow> u32 list" where
  "quorem_sub q borrow carry (bx # bs) (si # ss) =
    (let ys = (si AND 0xffff) * q + carry;
         zs = drop_bit 16 si * q + drop_bit 16 ys;
         y = (bx AND 0xffff) - (ys AND 0xffff) - borrow;
         z = drop_bit 16 bx - (zs AND 0xffff) - borrow_of y
     in storeinc z y # quorem_sub q (borrow_of z) (drop_bit 16 zs) bs ss)"
| "quorem_sub q borrow carry bs ss = bs"

text \<open>\<^verbatim>\<open>while (--bxe > bx && !*bxe) --n;\<close>, with \<^verbatim>\<open>bxe\<close> at the word \<open>n\<close>\<close>

fun quorem_trim :: "u32 list \<Rightarrow> nat \<Rightarrow> nat" where
  "quorem_trim xs 0 = 0"
| "quorem_trim xs (Suc j) = (if 0 < j \<and> xs ! j = 0 then quorem_trim xs j else Suc j)"

definition quorem :: "bigint \<Rightarrow> bigint \<Rightarrow> u32 \<times> bigint" where
  "quorem b S =
    (let n = bg_wds S
     in if bg_wds b < n then (0, b)
        else
          let sx = take n (bg_x S); n = n - 1;
              q = (bg_x b ! n) div (bg_x S ! n + 1);
              (b, n) = (if q \<noteq> 0 then
                    let x = quorem_sub q 0 0 (bg_x b) sx; b = b\<lparr>bg_x := x\<rparr>
                    in if x ! n = 0 then let m = quorem_trim x n in (b\<lparr>bg_wds := m\<rparr>, m) else (b, n)
                  else (b, n))
          in if 0 \<le> cmp b S then
               let x = quorem_sub 1 0 0 (bg_x b) sx; b = b\<lparr>bg_x := x\<rparr>
               in (q + 1, if x ! n = 0 then b\<lparr>bg_wds := quorem_trim x n\<rparr> else b)
             else (q, b))"

text \<open>From the most significant word down; the result is the quotient's words and the remainder.\<close>

fun divrem_loop :: "u32 \<Rightarrow> u32 \<Rightarrow> u32 list \<Rightarrow> u32 list \<times> u32" where
  "divrem_loop divisor remainder [] = ([], remainder)"
| "divrem_loop divisor remainder (a # as) =
    (let dividend = push_bit 16 remainder OR drop_bit 16 a;
         quotientHi = dividend div divisor;
         remainder = dividend - quotientHi * divisor;
         dividend = push_bit 16 remainder OR (a AND 0xFFFF);
         quotientLo = dividend div divisor;
         remainder = dividend - quotientLo * divisor;
         (qs, r) = divrem_loop divisor remainder as
     in ((push_bit 16 quotientHi OR quotientLo) # qs, r))"

definition divrem :: "bigint \<Rightarrow> u32 \<Rightarrow> u32 \<times> bigint" where
  "divrem b divisor =
    (let n = bg_wds b
     in if n = 0 then (0, b)
        else let (qs, r) = divrem_loop divisor 0 (rev (take n (bg_x b)));
                 x = rev qs @ drop n (bg_x b)
             in (r, b\<lparr>bg_x := x, bg_wds := (if x ! (n - 1) = 0 then n - 1 else n)\<rparr>))"

section \<open>The integer and the exponent of a double\<close>

text \<open>The double is given by its two words; the result is the number, \<^verbatim>\<open>*e\<close> and \<^verbatim>\<open>*bits\<close>.\<close>

definition d2b :: "u32 \<Rightarrow> u32 \<Rightarrow> dtoa \<Rightarrow> (bigint \<times> int \<times> int) res" where
  "d2b d0 d1 st =
    on_ok (Balloc 1 st) (\<lambda>st. st)
      (\<lambda>b st. let z = d0 AND 0xfffff;
             d0 = d0 AND 0x7fffffff;
             de = unat (drop_bit 20 d0);
             z = (if de \<noteq> 0 then z OR 0x100000 else z);
             (b, i, k) =
               (if d1 \<noteq> 0 then
                  let (k, y) = lo0bits d1;
                      (x0, z) = (if k \<noteq> 0 then (y OR push_bit (32 - k) z, drop_bit k z) else (y, z));
                      i = (if z \<noteq> 0 then 2 else 1)
                  in (b\<lparr>bg_x := (bg_x b)[0 := x0, 1 := z], bg_wds := i\<rparr>, i, k)
                else
                  let (k, z) = lo0bits z
                  in (b\<lparr>bg_x := (bg_x b)[0 := z], bg_wds := 1\<rparr>, 1, k + 32))
         in (Inr (if de \<noteq> 0 then (b, int de - 1023 - (53 - 1) + int k, 53 - int k)
                  else (b, int de - 1023 - (53 - 1) + 1 + int k,
                        32 * int i - int (hi0bits (bg_x b ! (i - 1))))), st))"


section \<open>The value of a number\<close>

fun wval :: "u32 list \<Rightarrow> nat" where
  "wval [] = 0"
| "wval (w # ws) = unat w + 2 ^ 32 * wval ws"

definition bval :: "bigint \<Rightarrow> nat" where
  "bval b = wval (take (bg_wds b) (bg_x b))"

lemma wval_append: "wval (xs @ ys) = wval xs + 2 ^ (32 * length xs) * wval ys"
  by (induction xs) (simp_all add: power_add algebra_simps)

lemma wval_less: "wval xs < 2 ^ (32 * length xs)"
proof (induction xs)
  case (Cons x xs)
  have "unat x + 2 ^ 32 * wval xs < 2 ^ 32 * (wval xs + 1)" using unat_u32 [of x] by simp
  also have "\<dots> \<le> 2 ^ 32 * 2 ^ (32 * length xs)" using Cons by (intro mult_le_mono2) simp
  also have "\<dots> = 2 ^ (32 * length (x # xs))" by (simp add: power_add)
  finally show ?case by simp
qed simp

lemma wval_zeros [simp]: "wval (replicate n 0) = 0"
  by (induction n) simp_all

lemma wval_butlast_le: "xs \<noteq> [] \<Longrightarrow> unat (last xs) * 2 ^ (32 * (length xs - 1)) \<le> wval xs"
proof (induction xs)
  case (Cons x xs)
  show ?case
  proof (cases xs)
    case (Cons y ys)
    then have "unat (last xs) * 2 ^ (32 * (length xs - 1)) \<le> wval xs" using Cons.IH by simp
    then have "2 ^ 32 * (unat (last xs) * 2 ^ (32 * (length xs - 1))) \<le> 2 ^ 32 * wval xs" by (rule mult_le_mono2)
    moreover have "(2::nat) ^ (32 * (length (x # xs) - 1)) = 2 ^ 32 * 2 ^ (32 * (length xs - 1))"
      using Cons by (simp add: power_add)
    ultimately show ?thesis using Cons by (simp add: ac_simps)
  qed simp
qed simp

section \<open>Sixteen bits at a time\<close>

lemma lo16: "unat (x AND 0xffff :: u32) = unat x mod 65536"
  using unat_halves(2) [of x] by (simp add: jslo16_def)

lemma hi16: "unat (drop_bit 16 x :: u32) = unat x div 65536"
  using unat_halves(1) [of x] by (simp add: jshi16_def)

lemma lo_hi: "unat x mod 65536 + 65536 * (unat (x :: u32) div 65536) = unat x" "unat x div 65536 < 65536"
  using unat_u32 [of x] by (simp_all add: less_mult_imp_div_less)

lemma shift16_split: "65536 * n = n mod 65536 * 65536 + 2 ^ 32 * (n div 65536 :: nat)"
proof -
  have "(2::nat) ^ 32 = 65536 * 65536" by simp
  then show ?thesis using div_mult_mod_eq [of n 65536] by (simp only:)
qed

lemma push16_mod: "push_bit 16 x = push_bit 16 (x AND 0xffff :: u32)"
proof -
  have "x AND 0xffff = take_bit 16 x" by (simp add: take_bit_eq_mask mask_eq_exp_minus_1)
  then show ?thesis by (simp only:) (rule bit_word_eqI, auto simp: bit_simps)
qed

lemma unat_storeinc: "unat (storeinc b c) = unat b mod 65536 * 65536 + unat c mod 65536"
proof -
  have "storeinc b c = push_bit 16 (b AND 0xffff) OR (c AND 0xffff)"
    unfolding storeinc_def by (subst push16_mod) (rule refl)
  then show ?thesis using unat_join16 [of "b AND 0xffff" "c AND 0xffff"] by (simp add: lo16)
qed

lemma mul16_add:
  assumes "unat x < 65536" "unat y < 65536" "unat c < 65536" "unat d < 65536"
  shows "unat (x * y + c + d :: u32) = unat x * unat y + unat c + unat d"
    "unat x * unat y + unat c + unat d < 2 ^ 32"
proof -
  note xy = unat_mult16 [of x y]
  show b: "unat x * unat y + unat c + unat d < 2 ^ 32" using xy assms by simp
  have "unat (x * y) = unat x * unat y" using xy assms by simp
  then show "unat (x * y + c + d) = unat x * unat y + unat c + unat d"
    using b by (simp add: unat_add_exact)
qed

lemmas mul16_add0 = mul16_add [where d = 0, simplified]

text \<open>One word times a half word, plus two words and a carry.\<close>

lemma word_times_half:
  fixes y carry x c z2 :: u32
  assumes "unat y < 65536" "unat carry < 65536"
  defines "z \<equiv> (x AND 0xffff) * y + (c AND 0xffff) + carry"
  defines "z2 \<equiv> drop_bit 16 x * y + drop_bit 16 c + drop_bit 16 z"
  shows "unat (storeinc z2 z) + 2 ^ 32 * unat (drop_bit 16 z2) = unat x * unat y + unat c + unat carry"
    "unat (drop_bit 16 z2) < 65536"
proof -
  have z: "unat z = unat x mod 65536 * unat y + unat c mod 65536 + unat carry"
    unfolding z_def using assms by (subst mul16_add(1)) (simp_all add: lo16)
  have z2: "unat z2 = unat x div 65536 * unat y + unat c div 65536 + unat z div 65536"
    unfolding z2_def using assms lo_hi(2) by (subst mul16_add(1)) (simp_all add: hi16)
  show "unat (drop_bit 16 z2) < 65536" by (simp add: hi16 lo_hi)
  have "unat x * unat y + unat c + unat carry =
    (unat x mod 65536 + 65536 * (unat x div 65536)) * unat y + (unat c mod 65536 + 65536 * (unat c div 65536)) + unat carry"
    by (simp only: lo_hi(1) [of x] lo_hi(1) [of c])
  also have "\<dots> = unat z + 65536 * (unat x div 65536 * unat y + unat c div 65536)" by (simp only: z algebra_simps)
  also have "\<dots> = unat z mod 65536 + 65536 * unat z2"
    using lo_hi(1) [of z] by (simp add: z2)
  also have "\<dots> = unat (storeinc z2 z) + 2 ^ 32 * unat (drop_bit 16 z2)"
    unfolding unat_storeinc hi16 using shift16_split [of "unat z2"] by linarith
  finally show "unat (storeinc z2 z) + 2 ^ 32 * unat (drop_bit 16 z2) = unat x * unat y + unat c + unat carry" by simp
qed

lemma mult_lo_ok:
  assumes "unat y < 65536" "unat carry < 65536" "length xs < length cs" "cs ! length xs = 0"
  shows "\<exists>cs'. mult_lo y carry xs cs = Some cs' \<and> length cs' = length cs \<and>
    wval cs' = wval cs + unat y * wval xs + unat carry \<and>
    unat (cs' ! length xs) < 65536 \<and> drop (Suc (length xs)) cs' = drop (Suc (length xs)) cs"
  using assms
proof (induction y carry xs cs rule: mult_lo.induct)
  case (3 y carry x xs c cs)
  let ?z = "(x AND 0xffff) * y + (c AND 0xffff) + carry"
  let ?z2 = "drop_bit 16 x * y + drop_bit 16 c + drop_bit 16 ?z"
  note step = word_times_half [OF "3.prems"(1,2), of x c]
  obtain ds where ds: "mult_lo y (drop_bit 16 ?z2) xs cs = Some ds" "length ds = length cs"
    "wval ds = wval cs + unat y * wval xs + unat (drop_bit 16 ?z2)" "unat (ds ! length xs) < 65536"
    "drop (Suc (length xs)) ds = drop (Suc (length xs)) cs"
    using "3.IH" [OF refl refl refl "3.prems"(1) step(2)] "3.prems" by auto
  have "unat (storeinc ?z2 ?z) + 2 ^ 32 * wval ds =
      (unat (storeinc ?z2 ?z) + 2 ^ 32 * unat (drop_bit 16 ?z2)) + 2 ^ 32 * wval cs + 2 ^ 32 * (unat y * wval xs)"
    by (simp add: ds(3) algebra_simps)
  also have "\<dots> = unat c + 2 ^ 32 * wval cs + unat y * (unat x + 2 ^ 32 * wval xs) + unat carry"
    by (simp only: step(1)) (simp add: algebra_simps)
  finally show ?case using ds by (simp add: Let_def)
qed auto


lemma word_times_half_shifted:
  fixes y carry x c c' z2 :: u32
  assumes "unat y < 65536" "unat carry < 65536"
  defines "z \<equiv> (x AND 0xffff) * y + drop_bit 16 c + carry"
  defines "z2' \<equiv> drop_bit 16 x * y + (c' AND 0xffff) + drop_bit 16 z"
  shows "unat (storeinc z z2) + 2 ^ 32 * unat z2' =
      unat z2 mod 65536 + 65536 * unat carry + 65536 * (unat c div 65536) + 65536 * (unat y * unat x)
      + 2 ^ 32 * (unat c' mod 65536)"
    "unat (drop_bit 16 z2') < 65536"
    "unat z2' = unat z2' mod 65536 + 65536 * unat (drop_bit 16 z2')"
proof -
  have z: "unat z = unat x mod 65536 * unat y + unat c div 65536 + unat carry"
    unfolding z_def using assms lo_hi(2) by (subst mul16_add(1)) (simp_all add: lo16 hi16)
  have z2: "unat z2' = unat x div 65536 * unat y + unat c' mod 65536 + unat z div 65536"
    unfolding z2'_def using assms lo_hi(2) by (subst mul16_add(1)) (simp_all add: hi16 lo16)
  show "unat (drop_bit 16 z2') < 65536" by (simp add: hi16 lo_hi)
  show "unat z2' = unat z2' mod 65536 + 65536 * unat (drop_bit 16 z2')" by (simp only: hi16 lo_hi(1))
  have "unat (storeinc z z2) + 2 ^ 32 * unat z2' =
      (unat z mod 65536 * 65536 + 2 ^ 32 * (unat z div 65536)) + unat z2 mod 65536
      + 2 ^ 32 * (unat x div 65536 * unat y) + 2 ^ 32 * (unat c' mod 65536)"
    by (simp only: unat_storeinc z2 distrib_left ac_simps)
  also have "\<dots> = 65536 * unat z + unat z2 mod 65536 + 65536 * (65536 * (unat x div 65536 * unat y)) + 2 ^ 32 * (unat c' mod 65536)"
    by (subst shift16_split) simp
  also have "\<dots> = unat z2 mod 65536 + 65536 * unat carry + 65536 * (unat c div 65536)
      + 65536 * (unat y * (unat x mod 65536 + 65536 * (unat x div 65536))) + 2 ^ 32 * (unat c' mod 65536)"
    by (simp only: z distrib_left ac_simps)
  finally show "unat (storeinc z z2) + 2 ^ 32 * unat z2' =
      unat z2 mod 65536 + 65536 * unat carry + 65536 * (unat c div 65536) + 65536 * (unat y * unat x)
      + 2 ^ 32 * (unat c' mod 65536)" by (simp only: lo_hi(1))
qed

lemma mult_hi_ok:
  assumes "unat y < 65536" "unat carry < 65536" "length xs < length cs" "unat (cs ! length xs) < 65536"
    "xs = [] \<longrightarrow> carry = drop_bit 16 z2"
  shows "\<exists>cs'. mult_hi y carry z2 xs cs = Some cs' \<and> length cs' = length cs \<and>
    wval cs' = unat z2 mod 65536 + 65536 * unat carry + 65536 * (unat (hd cs) div 65536)
      + 65536 * (unat y * wval xs) + 2 ^ 32 * wval (tl cs) \<and>
    drop (Suc (length xs)) cs' = drop (Suc (length xs)) cs"
  using assms
proof (induction y carry z2 xs cs rule: mult_hi.induct)
  case (1 y carry z2 c cs)
  then have "unat z2 mod 65536 + 65536 * unat carry = unat z2" by (simp only: hi16 lo_hi(1))
  moreover have "unat c div 65536 = 0" using 1 by simp
  ultimately show ?case by simp
next
  case (2 y carry z2 x xs c c' cs)
  let ?z = "(x AND 0xffff) * y + drop_bit 16 c + carry"
  let ?z2 = "drop_bit 16 x * y + (c' AND 0xffff) + drop_bit 16 ?z"
  note step = word_times_half_shifted [OF "2.prems"(1,2), where x = x and c = c and c' = c']
  obtain ds where ds: "mult_hi y (drop_bit 16 ?z2) ?z2 xs (c' # cs) = Some ds" "length ds = length (c' # cs)"
    "wval ds = unat ?z2 mod 65536 + 65536 * unat (drop_bit 16 ?z2) + 65536 * (unat c' div 65536)
      + 65536 * (unat y * wval xs) + 2 ^ 32 * wval cs"
    "drop (Suc (length xs)) ds = drop (Suc (length xs)) (c' # cs)"
    using "2.IH" [OF refl refl refl refl "2.prems"(1) step(2)] "2.prems" by auto
  have "unat (storeinc ?z z2) + 2 ^ 32 * wval ds =
      (unat (storeinc ?z z2) + 2 ^ 32 * unat ?z2) + 2 ^ 32 * (65536 * (unat c' div 65536))
      + 2 ^ 32 * (65536 * (unat y * wval xs)) + 2 ^ 32 * (2 ^ 32 * wval cs)"
    by (simp only: ds(3) step(3) [symmetric]) (simp only: distrib_left ac_simps)
  also have "\<dots> = unat z2 mod 65536 + 65536 * unat carry + 65536 * (unat c div 65536) + 65536 * (unat y * unat x)
      + 2 ^ 32 * (unat c' mod 65536 + 65536 * (unat c' div 65536)) + 2 ^ 32 * (65536 * (unat y * wval xs)) + 2 ^ 32 * (2 ^ 32 * wval cs)"
    by (simp only: step(1)) (simp only: distrib_left ac_simps)
  also have "\<dots> = unat z2 mod 65536 + 65536 * unat carry + 65536 * (unat c div 65536)
      + 65536 * (unat y * wval (x # xs)) + 2 ^ 32 * wval (c' # cs)"
    by (simp only: lo_hi(1) wval.simps distrib_left ac_simps)
  finally show ?case using ds by (simp add: Let_def)
qed auto

lemma mult_row_ok:
  assumes "xs \<noteq> []" "length xs < length cs" "cs ! length xs = 0"
  shows "\<exists>cs'. mult_row yw xs cs = Some cs' \<and> length cs' = length cs \<and>
    wval cs' = wval cs + unat yw * wval xs \<and> drop (Suc (length xs)) cs' = drop (Suc (length xs)) cs"
proof -
  let ?y = "yw AND 0xffff"
  let ?h = "drop_bit 16 yw"
  have y: "unat ?y < 65536" by (simp add: lo16)
  have "\<exists>ds. (if ?y \<noteq> 0 then mult_lo ?y 0 xs cs else Some cs) = Some ds \<and> length ds = length cs \<and>
      wval ds = wval cs + unat ?y * wval xs \<and> unat (ds ! length xs) < 65536 \<and>
      drop (Suc (length xs)) ds = drop (Suc (length xs)) cs"
    using mult_lo_ok [OF y, of 0 xs cs] assms by (cases "?y = 0") simp_all
  then obtain ds where ds: "(if ?y \<noteq> 0 then mult_lo ?y 0 xs cs else Some cs) = Some ds" "length ds = length cs"
      "wval ds = wval cs + unat ?y * wval xs" "unat (ds ! length xs) < 65536"
      "drop (Suc (length xs)) ds = drop (Suc (length xs)) cs" by blast
  obtain c cs' where c: "ds = c # cs'" using ds(2) assms by (cases ds) auto
  have "\<exists>es. (if ?h \<noteq> 0 then mult_hi ?h 0 c xs ds else Some ds) = Some es \<and> length es = length cs \<and>
      wval es = wval ds + 65536 * (unat ?h * wval xs) \<and> drop (Suc (length xs)) es = drop (Suc (length xs)) cs"
  proof (cases "?h = 0")
    case False
    have "unat c mod 65536 + 65536 * unat (0::u32) + 65536 * (unat c div 65536) = unat c" by simp
    then show ?thesis using mult_hi_ok [of ?h 0 xs ds c] ds assms False
      by (auto simp: c hi16 lo_hi)
  qed (use ds in simp)
  then obtain es where es: "(if ?h \<noteq> 0 then mult_hi ?h 0 c xs ds else Some ds) = Some es" "length es = length cs"
      "wval es = wval ds + 65536 * (unat ?h * wval xs)" "drop (Suc (length xs)) es = drop (Suc (length xs)) cs" by blast
  have "mult_row yw xs cs = Some es" unfolding mult_row_def Let_def ds(1) [unfolded c]
    by (simp only: option.case list.case es(1) [unfolded c])
  moreover have "wval es = wval cs + (unat ?y + 65536 * unat ?h) * wval xs"
    by (simp only: es(3) ds(3) algebra_simps)
  then have "wval es = wval cs + unat yw * wval xs" by (simp only: lo16 hi16 lo_hi(1))
  ultimately show ?thesis using es by blast
qed

lemma mult_rows_ok:
  assumes "xs \<noteq> []" "length xs + length ys \<le> length cs" "\<forall>i < length cs. length xs \<le> i \<longrightarrow> i < length xs + length ys \<longrightarrow> cs ! i = 0"
  shows "\<exists>cs'. mult_rows xs ys cs = Some cs' \<and> length cs' = length cs \<and> wval cs' = wval cs + wval xs * wval ys \<and>
    drop (length xs + length ys) cs' = drop (length xs + length ys) cs"
  using assms
proof (induction ys arbitrary: cs)
  case (Cons y ys)
  obtain ds where ds: "mult_row y xs cs = Some ds" "length ds = length cs" "wval ds = wval cs + unat y * wval xs"
    "drop (Suc (length xs)) ds = drop (Suc (length xs)) cs"
    using mult_row_ok [of xs cs y] Cons.prems by auto
  obtain d ds' where d: "ds = d # ds'" using ds(2) Cons.prems(2) by (cases ds) auto
  have same: "ds ! i = cs ! i" if "length xs < i" "i < length cs" for i
    using arg_cong [OF ds(4), of "\<lambda>l. l ! (i - Suc (length xs))"] that ds(2) by simp
  have z: "ds' ! i = 0" if "i < length ds'" "length xs \<le> i" "i < length xs + length ys" for i
    using same [of "Suc i"] Cons.prems(3) ds(2) that by (simp add: d)
  obtain es where es: "mult_rows xs ys ds' = Some es" "length es = length ds'" "wval es = wval ds' + wval xs * wval ys"
    "drop (length xs + length ys) es = drop (length xs + length ys) ds'"
    using Cons.IH [of ds'] Cons.prems(1,2) z ds(2) by (auto simp: d)
  have "drop (length xs + length ys) ds' = drop (length xs + length (y # ys)) cs"
    using arg_cong [OF ds(4), of "drop (length ys)"] by (simp add: d ac_simps)
  moreover have "unat d + 2 ^ 32 * wval es = wval cs + wval xs * wval (y # ys)"
    using ds(3) by (simp add: d es(3) algebra_simps)
  ultimately show ?case using ds(1,2) es by (simp add: d)
qed simp


section \<open>Valid numbers, valid memory, and what a routine delivers\<close>

definition bshape :: "bigint \<Rightarrow> bool" where
  "bshape b \<longleftrightarrow> bg_k b \<le> Kmax \<and> bg_maxwds b = 2 ^ bg_k b \<and> length (bg_x b) = 2 ^ bg_k b"

definition bnum :: "bigint \<Rightarrow> bool" where
  "bnum b \<longleftrightarrow> bshape b \<and> 1 \<le> bg_wds b \<and> bg_wds b \<le> bg_maxwds b"

definition bnorm :: "bigint \<Rightarrow> bool" where
  "bnorm b \<longleftrightarrow> bnum b \<and> (1 < bg_wds b \<longrightarrow> bg_x b ! (bg_wds b - 1) \<noteq> 0)"

definition p5_ok :: "nat \<Rightarrow> bigint \<Rightarrow> bool" where
  "p5_ok i p \<longleftrightarrow> bnorm p \<and> bval p = 5 ^ (4 * 2 ^ i) \<and> bg_k p \<le> i + 1"

definition dtoa_ok :: "dtoa \<Rightarrow> bool" where
  "dtoa_ok st \<longleftrightarrow> length (freelist st) = Kmax + 1 \<and>
     (\<forall>k \<le> Kmax. \<forall>v \<in> set (freelist st ! k). bg_k v = k \<and> bshape v) \<and>
     (\<forall>i < length (p5s st). p5_ok i (p5s st ! i))"

text \<open>Valid memory, no new failures to come, and a list of powers that has only grown.\<close>

definition keeps :: "dtoa \<Rightarrow> dtoa \<Rightarrow> bool" where
  "keeps st st' \<longleftrightarrow> dtoa_ok st' \<and> set (mallocs st') \<subseteq> set (mallocs st) \<and> (\<exists>ps. p5s st' = p5s st @ ps)"

text \<open>No fault, a value with \<open>Q\<close>, and a null pointer only when an allocation fails.\<close>

definition delivers :: "dtoa \<Rightarrow> 'a res \<Rightarrow> ('a \<Rightarrow> dtoa \<Rightarrow> bool) \<Rightarrow> bool" where
  "delivers st r Q \<longleftrightarrow> keeps st (snd r) \<and>
     (case fst r of Inr v \<Rightarrow> Q v (snd r) | Inl NoMem \<Rightarrow> None \<in> set (mallocs st) | Inl Fault \<Rightarrow> False)"

lemma keeps_refl: "dtoa_ok st \<Longrightarrow> keeps st st"
  by (simp add: keeps_def)

lemma keeps_ok: "keeps st st' \<Longrightarrow> dtoa_ok st'"
  by (simp add: keeps_def)

lemma keeps_trans: "keeps st st' \<Longrightarrow> keeps st' st'' \<Longrightarrow> keeps st st''"
  by (auto simp: keeps_def)

lemma delivers_later: "delivers st' r Q \<Longrightarrow> keeps st st' \<Longrightarrow> delivers st r Q"
  unfolding delivers_def by (auto simp: keeps_def split: sum.splits berr.splits)

lemma delivers_weaken: "delivers st r Q \<Longrightarrow> (\<And>v st'. Q v st' \<Longrightarrow> keeps st st' \<Longrightarrow> R v st') \<Longrightarrow> delivers st r R"
  unfolding delivers_def by (auto split: sum.splits berr.splits)

lemma delivers_Inr: "keeps st st' \<Longrightarrow> Q v st' \<Longrightarrow> delivers st (Inr v, st') Q"
  by (simp add: delivers_def)

lemma delivers_on_ok:
  assumes "delivers st r Q" "\<And>st'. keeps st st' \<Longrightarrow> keeps st (cleanup st')"
    "\<And>v st'. Q v st' \<Longrightarrow> keeps st st' \<Longrightarrow> delivers st (f v st') R"
  shows "delivers st (on_ok r cleanup f) R"
proof (cases r)
  case (Pair x st')
  show ?thesis
  proof (cases x)
    case (Inr v)
    then have "Q v st'" "keeps st st'" using assms(1) Pair by (simp_all add: delivers_def)
    then show ?thesis using assms(3) Pair Inr by (simp add: on_ok_def)
  qed (use assms(1,2) Pair in \<open>auto simp: delivers_def on_ok_def\<close>)
qed

lemma Bfree_ok: "dtoa_ok st \<Longrightarrow> bshape v \<Longrightarrow> dtoa_ok (Bfree v st)"
  by (auto simp: dtoa_ok_def Bfree_def bshape_def nth_list_update)

lemma Bfree_keeps: "keeps st st' \<Longrightarrow> bshape v \<Longrightarrow> keeps st (Bfree v st')"
  by (simp add: keeps_def Bfree_ok) (simp add: Bfree_def)

lemma p5s_Bfree [simp]: "p5s (Bfree v st) = p5s st"
  by (simp add: Bfree_def)

lemma delivers_Bfree: "delivers st r Q \<Longrightarrow> bshape v \<Longrightarrow> (\<And>c st'. Q c st' \<Longrightarrow> R c (Bfree v st')) \<Longrightarrow>
    delivers st (case r of (x, st') \<Rightarrow> (x, Bfree v st')) R"
  unfolding delivers_def by (auto simp: Bfree_keeps split: sum.splits berr.splits prod.splits)

lemma new_bigint_shape: "k \<le> Kmax \<Longrightarrow> bshape (new_bigint k junk)"
  by (simp add: bshape_def new_bigint_def)

lemma Balloc_ok:
  assumes "dtoa_ok st" "k \<le> Kmax"
  shows "delivers st (Balloc k st) (\<lambda>b st'. bshape b \<and> bg_k b = k \<and> bg_wds b = 0 \<and> bg_sign b = 0 \<and> p5s st' = p5s st)"
proof -
  have new: "bshape (new_bigint k junk)" "bg_k (new_bigint k junk) = k" "bg_wds (new_bigint k junk) = 0"
    "bg_sign (new_bigint k junk) = 0" for junk
    using assms by (simp_all add: new_bigint_shape) (simp_all add: new_bigint_def)
  have st: "dtoa_ok (st\<lparr>mallocs := ms\<rparr>)" for ms
    using assms by (simp add: dtoa_ok_def)
  show ?thesis
  proof (cases "freelist st ! k")
    case Nil
    then show ?thesis using assms new st
      by (auto simp: Balloc_def delivers_def keeps_def Let_def split: list.splits option.splits)
  next
    case (Cons rv rest)
    then have rv: "bg_k rv = k" "bshape rv" "\<forall>v \<in> set rest. bg_k v = k \<and> bshape v" using assms by (auto simp: dtoa_ok_def)
    have "dtoa_ok (st\<lparr>freelist := (freelist st)[k := rest]\<rparr>)" using assms rv
      by (auto simp: dtoa_ok_def nth_list_update)
    then show ?thesis using assms rv Cons
      by (simp add: Balloc_def delivers_def keeps_def bshape_def)
  qed
qed

lemma trim_ok:
  assumes "n \<le> length xs"
  shows "trim xs n \<le> n" "wval (take (trim xs n) xs) = wval (take n xs)" "0 < trim xs n \<Longrightarrow> xs ! (trim xs n - 1) \<noteq> 0"
  using assms by (induction xs n rule: trim.induct) (auto simp: take_Suc_conv_app_nth wval_append)

lemma wval_low: "xs \<noteq> [] \<Longrightarrow> last xs \<noteq> 0 \<Longrightarrow> 2 ^ (32 * (length xs - 1)) \<le> wval xs"
proof -
  assume "xs \<noteq> []" "last xs \<noteq> 0"
  then have "1 \<le> unat (last xs)" by (simp add: Suc_le_eq unat_gt_0)
  then have "1 * 2 ^ (32 * (length xs - 1)) \<le> unat (last xs) * 2 ^ (32 * (length xs - 1))" by (rule mult_le_mono1)
  then show ?thesis using wval_butlast_le [OF \<open>xs \<noteq> []\<close>] by linarith
qed

lemma last_take_Suc: "n < length xs \<Longrightarrow> last (take (Suc n) xs) = xs ! n"
  by (simp add: take_Suc_conv_app_nth)

lemma bval_bounds:
  assumes "bnum b"
  shows "bval b < 2 ^ (32 * bg_wds b)" "bg_x b ! (bg_wds b - 1) \<noteq> 0 \<Longrightarrow> 2 ^ (32 * (bg_wds b - 1)) \<le> bval b"
proof -
  have l: "bg_wds b \<le> length (bg_x b)" "1 \<le> bg_wds b" using assms by (auto simp: bnum_def bshape_def)
  then show "bval b < 2 ^ (32 * bg_wds b)" using wval_less [of "take (bg_wds b) (bg_x b)"] by (simp add: bval_def min_absorb2)
  assume "bg_x b ! (bg_wds b - 1) \<noteq> 0"
  then have "last (take (bg_wds b) (bg_x b)) \<noteq> 0" using l last_take_Suc [of "bg_wds b - 1" "bg_x b"] by simp
  moreover have "take (bg_wds b) (bg_x b) \<noteq> []" using l by auto
  ultimately show "2 ^ (32 * (bg_wds b - 1)) \<le> bval b"
    using wval_low [of "take (bg_wds b) (bg_x b)"] l by (simp add: bval_def min_absorb2)
qed


section \<open>Every routine computes what it says\<close>

definition words :: "bigint \<Rightarrow> u32 list" where
  "words b = take (bg_wds b) (bg_x b)"

lemma bnum_words: "bnum b \<Longrightarrow> length (words b) = bg_wds b \<and> words b \<noteq> [] \<and> wval (words b) = bval b"
  by (auto simp: words_def bval_def bnum_def bshape_def min_absorb2)

lemma bnumD: "bnum b \<Longrightarrow> bshape b \<and> 1 \<le> bg_wds b \<and> bg_wds b \<le> 2 ^ bg_k b \<and> bg_maxwds b = 2 ^ bg_k b
    \<and> length (bg_x b) = 2 ^ bg_k b \<and> bg_k b \<le> Kmax"
  by (auto simp: bnum_def bshape_def)

lemma bnormD: "bnorm b \<Longrightarrow> bnum b"
  by (simp add: bnorm_def)

lemma trim_norm:
  assumes "bshape c" "n \<le> length (bg_x c)"
  defines "c' \<equiv> c\<lparr>bg_wds := trim (bg_x c) n\<rparr>"
  shows "bval c' = wval (take n (bg_x c))" "0 < bval c' \<Longrightarrow> bnorm c'" "bg_wds c' \<le> n"
proof -
  note t = trim_ok [OF assms(2)]
  show v: "bval c' = wval (take n (bg_x c))" using t by (simp add: c'_def bval_def)
  show "bg_wds c' \<le> n" using t by (simp add: c'_def)
  assume "0 < bval c'"
  then have "trim (bg_x c) n \<noteq> 0" by (intro notI) (simp add: c'_def bval_def)
  then show "bnorm c'" using assms(1,2) t by (auto simp: bnorm_def bnum_def bshape_def c'_def)
qed

definition mult_result :: "bigint \<Rightarrow> bigint \<Rightarrow> bigint \<Rightarrow> bool" where
  "mult_result a b c \<longleftrightarrow> bshape c \<and> bval c = bval a * bval b \<and> (0 < bval c \<longrightarrow> bnorm c) \<and>
     bg_k c \<le> max (bg_k a) (bg_k b) + 1"

lemma mult_ordered:
  assumes "dtoa_ok st" "bnum a" "bnum b" "bg_wds b \<le> bg_wds a" "bg_k a < Kmax"
  shows "delivers st (mult a b st) (\<lambda>c st'. mult_result a b c \<and> p5s st' = p5s st)"
proof -
  note d = bnumD [OF assms(2)] bnumD [OF assms(3)] bnum_words [OF assms(2)] bnum_words [OF assms(3)]
  let ?wc = "bg_wds a + bg_wds b"
  let ?k = "if ?wc > bg_maxwds a then bg_k a + 1 else bg_k a"
  have k: "?k \<le> Kmax" "?k \<le> bg_k a + 1" "?wc \<le> 2 ^ ?k" using d assms(4,5) by auto
  have m: "mult a b st = on_ok (Balloc ?k st) (\<lambda>st. st)
      (\<lambda>c st. case put_words (replicate ?wc 0) c of Inl e \<Rightarrow> (Inl e, st)
         | Inr c \<Rightarrow> (case mult_rows (words a) (words b) (bg_x c) of None \<Rightarrow> (Inl Fault, st)
             | Some xs \<Rightarrow> (Inr (c\<lparr>bg_x := xs, bg_wds := trim xs ?wc\<rparr>), st)))"
    using assms(4) unfolding mult_def words_def Let_def by simp
  show ?thesis unfolding m
  proof (rule delivers_on_ok [OF Balloc_ok [OF assms(1) k(1)]])
    fix c st' assume c: "bshape c \<and> bg_k c = ?k \<and> bg_wds c = 0 \<and> bg_sign c = 0 \<and> p5s st' = p5s st" and kp: "keeps st st'"
    let ?cs = "replicate ?wc 0 @ drop ?wc (bg_x c)"
    have len: "length (bg_x c) = 2 ^ ?k" using c by (simp add: bshape_def)
    have put: "put_words (replicate ?wc 0) c = Inr (c\<lparr>bg_x := ?cs\<rparr>)" using len k(3) by (simp add: put_words_def)
    have lcs: "length ?cs = 2 ^ ?k" using len k(3) by simp
    obtain xs where xs: "mult_rows (words a) (words b) ?cs = Some xs" "length xs = length ?cs"
      "wval xs = wval ?cs + wval (words a) * wval (words b)" "drop ?wc xs = drop ?wc ?cs"
      using mult_rows_ok [of "words a" "words b" ?cs] d k(3) lcs by (auto simp: nth_append)
    have "wval (take ?wc xs) + 2 ^ (32 * ?wc) * wval (drop ?wc xs) = wval xs"
      using wval_append [of "take ?wc xs" "drop ?wc xs"] xs(2) lcs k(3) by simp
    moreover have "wval ?cs = 2 ^ (32 * ?wc) * wval (drop ?wc xs)" using xs(4) by (simp add: wval_append)
    ultimately have val: "wval (take ?wc xs) = bval a * bval b" using xs(3) d by simp
    let ?c = "c\<lparr>bg_x := xs\<rparr>"
    have sh: "bshape ?c" "?wc \<le> length (bg_x ?c)" using c xs(2) lcs k(3) by (simp_all add: bshape_def)
    note t = trim_norm [OF sh]
    have "mult_result a b (c\<lparr>bg_x := xs, bg_wds := trim xs ?wc\<rparr>)"
      using t val c k(2) sh(1) unfolding mult_result_def by (auto simp: bshape_def)
    then show "delivers st (case put_words (replicate ?wc 0) c of Inl e \<Rightarrow> (Inl e, st')
         | Inr c \<Rightarrow> (case mult_rows (words a) (words b) (bg_x c) of None \<Rightarrow> (Inl Fault, st')
             | Some xs \<Rightarrow> (Inr (c\<lparr>bg_x := xs, bg_wds := trim xs ?wc\<rparr>), st')))
        (\<lambda>c st'. mult_result a b c \<and> p5s st' = p5s st)"
      using kp c by (simp add: put xs(1) delivers_Inr)
  qed
qed

lemma mult_ok:
  assumes "dtoa_ok st" "bnum a" "bnum b" "bg_k a < Kmax" "bg_k b < Kmax"
  shows "delivers st (mult a b st) (\<lambda>c st'. mult_result a b c \<and> p5s st' = p5s st)"
proof (cases "bg_wds b \<le> bg_wds a")
  case False
  then have "mult a b st = mult b a st" by (simp add: mult_def Let_def)
  moreover have "mult_result b a = mult_result a b" by (auto simp: mult_result_def fun_eq_iff mult.commute max.commute)
  ultimately show ?thesis using mult_ordered [of st b a] assms False by simp
qed (use mult_ordered assms in simp)


lemma bnormI:
  assumes "bnum c" "1 < bg_wds c \<Longrightarrow> 2 ^ (32 * (bg_wds c - 1)) \<le> bval c"
  shows "bnorm c"
  unfolding bnorm_def
proof (intro conjI impI notI)
  show "bnum c" by fact
  assume w: "1 < bg_wds c" and z: "bg_x c ! (bg_wds c - 1) = 0"
  note d = bnumD [OF assms(1)]
  have l: "bg_wds c - 1 < length (bg_x c)" using d w by auto
  have "take (Suc (bg_wds c - 1)) (bg_x c) = take (bg_wds c - 1) (bg_x c) @ [0]"
    using take_Suc_conv_app_nth [OF l] z by simp
  then have "bval c = wval (take (bg_wds c - 1) (bg_x c))" using w by (simp add: bval_def wval_append)
  then show False
    using assms(2) w wval_less [of "take (bg_wds c - 1) (bg_x c)"] l by (simp add: min_absorb2)
qed

lemma put_words_ok:
  assumes "bshape b" "length ws \<le> 2 ^ bg_k b"
  shows "put_words ws b = Inr (b\<lparr>bg_x := ws @ drop (length ws) (bg_x b)\<rparr>)"
    "bshape (b\<lparr>bg_x := ws @ drop (length ws) (bg_x b)\<rparr>)"
  using assms by (simp_all add: put_words_def bshape_def)

lemma storeinc_add: "push_bit 16 z + (y AND 0xffff) = storeinc z y"
proof -
  have "y AND 0xffff = take_bit 16 y" by (simp add: take_bit_eq_mask mask_eq_exp_minus_1)
  then show ?thesis unfolding storeinc_def
    by (simp only:) (rule disjunctive_add, auto simp: bit_simps)
qed

lemma multadd_loop_ok:
  assumes "unat m < 65536" "unat carry < 65536" "multadd_loop m carry xs = (ws, c)"
  shows "length ws = length xs \<and> wval ws + 2 ^ (32 * length xs) * unat c = wval xs * unat m + unat carry"
  using assms
proof (induction xs arbitrary: carry ws c)
  case (Cons x xs)
  let ?y = "(x AND 0xffff) * m + carry"
  let ?z = "drop_bit 16 x * m + drop_bit 16 ?y"
  note step = word_times_half [OF Cons.prems(1,2), of x 0, unfolded zero_and_eq drop_bit_of_0 add_0_right unsigned_0]
  obtain vs d where r: "multadd_loop m (drop_bit 16 ?z) xs = (vs, d)" by fastforce
  then have ih: "length vs = length xs" "wval vs + 2 ^ (32 * length xs) * unat d = wval xs * unat m + unat (drop_bit 16 ?z)"
    using Cons.IH [OF Cons.prems(1) step(2) r] by simp_all
  have ws: "ws = storeinc ?z ?y # vs" "c = d" using Cons.prems(3) r by (simp_all add: Let_def storeinc_add)
  have "wval ws + 2 ^ (32 * length (x # xs)) * unat c =
      unat (storeinc ?z ?y) + 2 ^ 32 * (wval vs + 2 ^ (32 * length xs) * unat d)"
    by (simp add: ws power_add algebra_simps)
  also have "\<dots> = (unat (storeinc ?z ?y) + 2 ^ 32 * unat (drop_bit 16 ?z)) + 2 ^ 32 * (wval xs * unat m)"
    by (simp only: ih(2)) (simp only: algebra_simps)
  also have "\<dots> = wval (x # xs) * unat m + unat carry" by (simp only: step(1)) (simp add: algebra_simps)
  finally show ?case using ih(1) by (simp add: ws(1))
qed simp

definition multadd_result :: "bigint \<Rightarrow> u32 \<Rightarrow> u32 \<Rightarrow> bigint \<Rightarrow> bool" where
  "multadd_result b m a c \<longleftrightarrow> bnum c \<and> bval c = bval b * unat m + unat a \<and> (bnorm b \<and> m \<noteq> 0 \<longrightarrow> bnorm c) \<and>
     bg_k c \<le> bg_k b + 1 \<and> (bg_k c = bg_k b \<or> 2 ^ (32 * 2 ^ bg_k b) \<le> bval c)"

lemma bnorm_grows:
  assumes "bnorm b" "bnum c" "bg_wds c = bg_wds b" "bval b \<le> bval c"
  shows "bnorm c"
proof (rule bnormI [OF assms(2)])
  assume "1 < bg_wds c"
  then have "2 ^ (32 * (bg_wds b - 1)) \<le> bval b"
    using bval_bounds(2) [OF bnormD [OF assms(1)]] assms(1,3) by (simp add: bnorm_def)
  then show "2 ^ (32 * (bg_wds c - 1)) \<le> bval c" using assms(3,4) by simp
qed

lemma bval_update:
  assumes "bshape b" "bg_wds b' = Suc n" "bg_x b' = (ws @ zs)[n := w]" "length ws = n" "n < length (ws @ zs)"
  shows "bval b' = wval ws + 2 ^ (32 * n) * unat w"
proof -
  obtain z zs' where z: "zs = z # zs'" using assms(4,5) by (cases zs) auto
  have "take (Suc n) (bg_x b') = ws @ [w]" using assms(3,4) by (simp add: z list_update_append)
  then show ?thesis using assms(2,4) by (simp add: bval_def wval_append)
qed

lemma multadd_ok:
  assumes "dtoa_ok st" "bnum b" "unat m < 65536" "unat a < 65536"
    "bg_k b < Kmax \<or> bval b * unat m + unat a < 2 ^ (32 * 2 ^ Kmax)"
  shows "delivers st (multadd b m a st) (\<lambda>c st'. multadd_result b m a c \<and> p5s st' = p5s st)"
proof -
  note d = bnumD [OF assms(2)] bnum_words [OF assms(2)]
  let ?n = "bg_wds b"
  obtain ws c where r: "multadd_loop m a (words b) = (ws, c)" by fastforce
  note l = multadd_loop_ok [OF assms(3,4) r]
  have len: "length ws = ?n" and val: "wval ws + 2 ^ (32 * ?n) * unat c = bval b * unat m + unat a"
    using l d by simp_all
  have mx: "max 1 ?n = ?n" using d by simp
  define b' where "b' = b\<lparr>bg_x := ws @ drop ?n (bg_x b)\<rparr>"
  have put: "put_words ws b = Inr b'" "bshape b'" using put_words_ok [of b ws] d len by (simp_all add: b'_def)
  have b': "bg_k b' = bg_k b" "bg_wds b' = ?n" "bg_maxwds b' = 2 ^ bg_k b" "bg_x b' = ws @ drop ?n (bg_x b)"
    using d by (simp_all add: b'_def)
  have grow: "bval b \<le> bval b * unat m + unat a" if "m \<noteq> 0"
    using that by (simp add: Suc_le_eq unat_gt_0 trans_le_add1)
  have M: "multadd b m a st = (if c \<noteq> 0 then if bg_maxwds b' \<le> ?n then
        on_ok (Balloc (bg_k b' + 1) st) (Bfree b')
         (\<lambda>b1 st1. (Inr ((Bcopy b1 b')\<lparr>bg_x := (bg_x (Bcopy b1 b'))[?n := c], bg_wds := ?n + 1\<rparr>), Bfree b' st1))
      else (Inr (b'\<lparr>bg_x := (bg_x b')[?n := c], bg_wds := ?n + 1\<rparr>), st) else (Inr b', st))"
    using r unfolding multadd_def Let_def mx words_def [symmetric] by (simp add: put(1))
  consider "c = 0" | "c \<noteq> 0" "?n < 2 ^ bg_k b" | "c \<noteq> 0" "?n = 2 ^ bg_k b" using d by linarith
  then show ?thesis
  proof cases
    case 1
    have v: "bval b' = bval b * unat m + unat a" using val len 1 by (simp add: bval_def b')
    have "bnum b'" using put(2) b' d by (simp add: bnum_def)
    then have "multadd_result b m a b'" using bnorm_grows [of b b'] grow b' v by (auto simp: multadd_result_def)
    then show ?thesis using 1 assms(1) by (simp add: M delivers_Inr keeps_refl)
  next
    case 2
    let ?c = "b'\<lparr>bg_x := (bg_x b')[?n := c], bg_wds := ?n + 1\<rparr>"
    have v: "bval ?c = bval b * unat m + unat a"
      using bval_update [of b' ?c ?n ws "drop ?n (bg_x b)" c] put(2) len val 2 d by (simp add: b')
    have n: "bnum ?c" using put(2) b' d 2 by (simp add: bnum_def bshape_def)
    have "2 ^ (32 * ?n) * 1 \<le> bval ?c" unfolding v val [symmetric] using 2
      by (intro trans_le_add2 mult_le_mono2) (simp add: Suc_le_eq unat_gt_0)
    then have "bnorm ?c" using bnormI [OF n] by simp
    then have "multadd_result b m a ?c" using v n b' by (simp add: multadd_result_def)
    then show ?thesis using 2 assms(1) b' by (simp add: M delivers_Inr keeps_refl)
  next
    case 3
    have big: "2 ^ (32 * 2 ^ bg_k b) \<le> bval b * unat m + unat a" unfolding val [symmetric] 3(2)
      using 3(1) by (intro trans_le_add2) (simp add: Suc_le_eq unat_gt_0)
    then have k: "bg_k b < Kmax" using assms(5) d by (metis le_neq_implies_less not_less)
    show ?thesis unfolding M if_P [OF 3(1)] using 3(2) b'
    proof (simp, intro delivers_on_ok [OF Balloc_ok [OF assms(1)]])
      show "Suc (bg_k b) \<le> Kmax" using k by simp
      show "keeps st (Bfree b' st')" if "keeps st st'" for st' using that put(2) by (rule Bfree_keeps)
      fix e st' assume e: "bshape e \<and> bg_k e = Suc (bg_k b) \<and> bg_wds e = 0 \<and> bg_sign e = 0 \<and> p5s st' = p5s st"
        and kp: "keeps st st'"
      let ?c = "(Bcopy e b')\<lparr>bg_x := (bg_x (Bcopy e b'))[2 ^ bg_k b := c], bg_wds := Suc (2 ^ bg_k b)\<rparr>"
      have x: "bg_x (Bcopy e b') = ws @ drop ?n (bg_x e)" "bg_k (Bcopy e b') = Suc (bg_k b)"
        using e b' len 3(2) by (simp_all add: Bcopy_def)
      have sh: "bshape (Bcopy e b')" using e len 3(2) d unfolding bshape_def
        by (simp add: x) (simp add: Bcopy_def)
      have l: "length (bg_x e) = 2 * 2 ^ bg_k b" using e by (simp add: bshape_def)
      have v: "bval ?c = bval b * unat m + unat a"
        using bval_update [OF sh, of ?c ?n ws "drop ?n (bg_x e)" c] len val 3(2) l by (simp add: x)
      have n: "bnum ?c" using sh by (simp add: bnum_def bshape_def x)
      have "bnorm ?c" using bnormI [OF n] v big by simp
      then have "multadd_result b m a ?c" using v n big x by (simp add: multadd_result_def)
      then show "delivers st (Inr ?c, Bfree b' st') (\<lambda>c st'. multadd_result b m a c \<and> p5s st' = p5s st)"
        using Bfree_keeps [OF kp put(2)] e by (simp add: delivers_Inr)
    qed
  qed
qed


lemma one_word_ok:
  assumes "bshape b" "bg_x b' = (bg_x b)[0 := w]" "bg_wds b' = 1" "bg_k b' = bg_k b" "bg_maxwds b' = bg_maxwds b"
  shows "bnorm b' \<and> bval b' = unat w \<and> bg_k b' = bg_k b"
proof -
  obtain x xs where "bg_x b = x # xs" using assms(1) by (cases "bg_x b") (auto simp: bshape_def)
  then show ?thesis using assms by (simp add: bnorm_def bnum_def bshape_def bval_def)
qed

lemma i2b_ok:
  assumes "dtoa_ok st"
  shows "delivers st (i2b i st) (\<lambda>b st'. bnorm b \<and> bval b = unat i \<and> bg_k b = 1 \<and> p5s st' = p5s st)"
  unfolding i2b_def
proof (rule delivers_on_ok [OF Balloc_ok [OF assms]])
  fix v st' assume v: "bshape v \<and> bg_k v = 1 \<and> bg_wds v = 0 \<and> bg_sign v = 0 \<and> p5s st' = p5s st" and k: "keeps st st'"
  show "delivers st (Inr (v\<lparr>bg_x := (bg_x v)[0 := i], bg_wds := 1\<rparr>), st')
      (\<lambda>b st'. bnorm b \<and> bval b = unat i \<and> bg_k b = 1 \<and> p5s st' = p5s st)"
    using one_word_ok [of v "v\<lparr>bg_x := (bg_x v)[0 := i], bg_wds := 1\<rparr>" i] v k by (intro delivers_Inr) simp_all
qed (simp_all add: Kmax_def)

text \<open>The list of powers, with what other threads may store in it.\<close>

definition rival_ok :: "(nat \<Rightarrow> bigint option) \<Rightarrow> bool" where
  "rival_ok rival \<longleftrightarrow> (\<forall>i p. rival i = Some p \<longrightarrow> p5_ok i p)"

lemma p5s_store_ok:
  assumes "dtoa_ok st" "rival_ok rival" "p5_ok (length (p5s st)) p" "p5s_store rival p st = (q, st')"
  shows "keeps st st' \<and> p5_ok (length (p5s st)) q \<and> length (p5s st') = Suc (length (p5s st))"
proof -
  have ok: "dtoa_ok (st\<lparr>p5s := p5s st @ [r]\<rparr>)" if "p5_ok (length (p5s st)) r" for r
    using assms(1) that by (auto simp: dtoa_ok_def nth_append less_Suc_eq)
  show ?thesis
  proof (cases "rival (length (p5s st))")
    case None
    then show ?thesis using assms(3,4) ok [of p] by (auto simp: p5s_store_def keeps_def)
  next
    case (Some r)
    then have r: "p5_ok (length (p5s st)) r" using assms(2) by (auto simp: rival_ok_def)
    have "bshape p" using assms(3) by (simp add: p5_ok_def bnorm_def bnum_def)
    moreover have "keeps st (st\<lparr>p5s := p5s st @ [r]\<rparr>)" using ok [OF r] by (simp add: keeps_def)
    ultimately show ?thesis using assms(4) r Some Bfree_keeps by (auto simp: p5s_store_def)
  qed
qed

lemma p5_square: "p5_ok i p \<Longrightarrow> mult_result p p q \<Longrightarrow> p5_ok (Suc i) q"
proof -
  assume p: "p5_ok i p" and q: "mult_result p p q"
  have "bval p * bval p = 5 ^ (4 * 2 ^ Suc i)" using p by (simp add: p5_ok_def flip: power_add)
  moreover have "0 < bval p" using p by (simp add: p5_ok_def)
  ultimately show ?thesis using p q by (auto simp: p5_ok_def mult_result_def)
qed

definition power_result :: "bigint \<Rightarrow> nat \<Rightarrow> nat \<Rightarrow> bigint \<Rightarrow> bool" where
  "power_result b x B c \<longleftrightarrow> bnorm c \<and> bval c = bval b * x \<and> bg_k c \<le> B"

lemma next_power_ok:
  assumes "dtoa_ok st" "rival_ok rival" "p5_ok i p5" "i < length (p5s st)" "i + 1 < Kmax" "bshape b"
  shows "delivers st (if i + 1 < length (p5s st) then (Inr (p5s st ! (i + 1)), st)
      else on_ok (mult p5 p5 st) (Bfree b) (\<lambda>p51 st. let (p51, st) = p5s_store rival p51 st in (Inr p51, st)))
    (\<lambda>p st'. p5_ok (i + 1) p \<and> i + 1 < length (p5s st'))"
proof (cases "i + 1 < length (p5s st)")
  case True
  then have "p5_ok (i + 1) (p5s st ! (i + 1))" using assms(1) by (simp add: dtoa_ok_def)
  then show ?thesis using True assms(1) by (simp add: delivers_Inr keeps_refl)
next
  case False
  then have l: "length (p5s st) = i + 1" using assms(4) by simp
  have p5: "bnum p5" "bg_k p5 < Kmax" using assms(3,5) by (auto simp: p5_ok_def bnorm_def)
  have "delivers st (on_ok (mult p5 p5 st) (Bfree b) (\<lambda>p51 st. let (p51, st) = p5s_store rival p51 st in (Inr p51, st)))
    (\<lambda>p st'. p5_ok (i + 1) p \<and> i + 1 < length (p5s st'))"
  proof (rule delivers_on_ok [OF mult_ok [OF assms(1) p5(1) p5(1) p5(2) p5(2)]])
    show "keeps st (Bfree b st')" if "keeps st st'" for st' using that assms(6) by (rule Bfree_keeps)
    fix q st' assume q: "mult_result p5 p5 q \<and> p5s st' = p5s st" and k: "keeps st st'"
    obtain r st'' where r: "p5s_store rival q st' = (r, st'')" by fastforce
    have "p5_ok (length (p5s st')) q" using p5_square [OF assms(3)] q l by simp
    then show "delivers st (let (p51, st) = p5s_store rival q st' in (Inr p51, st)) (\<lambda>p st'. p5_ok (i + 1) p \<and> i + 1 < length (p5s st'))"
      using p5s_store_ok [OF keeps_ok [OF k] assms(2) _ r] q l keeps_trans [OF k] by (simp add: r delivers_Inr)
  qed
  then show ?thesis using False by simp
qed

lemma mult_step_ok:
  assumes "dtoa_ok st" "bnorm b" "0 < bval b" "p5_ok i p5" "bg_k b \<le> B" "i + 1 \<le> B" "B < Kmax"
  shows "delivers st (if odd k then (let (r, st) = mult b p5 st in (r, Bfree b st)) else (Inr b, st))
    (\<lambda>c st'. power_result b ((5 ^ (4 * 2 ^ i)) ^ (k mod 2)) (B + 1) c \<and> p5s st' = p5s st)"
proof (cases "odd k")
  case True
  have p: "bnorm p5" "bg_k p5 \<le> B" "bval p5 = 5 ^ (4 * 2 ^ i)" using assms(4,6) by (auto simp: p5_ok_def)
  have m: "delivers st (mult b p5 st) (\<lambda>c st'. mult_result b p5 c \<and> p5s st' = p5s st)"
    using mult_ok [OF assms(1) bnormD [OF assms(2)] bnormD [OF p(1)]] p assms by simp
  have "delivers st (case mult b p5 st of (r, st') \<Rightarrow> (r, Bfree b st'))
      (\<lambda>c st'. power_result b ((5 ^ (4 * 2 ^ i)) ^ (k mod 2)) (B + 1) c \<and> p5s st' = p5s st)"
    using assms(2,3,5) p True
    by (intro delivers_Bfree [OF m]) (auto simp: bnorm_def bnum_def mult_result_def power_result_def odd_iff_mod_2_eq_one)
  then show ?thesis unfolding if_P [OF True] Let_def .
next
  case False
  then show ?thesis using assms by (auto simp: power_result_def intro!: delivers_Inr keeps_refl)
qed

lemma pow5mult_loop_ok:
  assumes "dtoa_ok st" "rival_ok rival" "p5_ok i p5" "i < length (p5s st)" "bnorm b" "0 < bval b"
    "k < 2 ^ n" "0 < k" "bg_k b \<le> B" "i + 1 \<le> B" "B + n \<le> Kmax"
  shows "delivers st (pow5mult_loop rival i p5 k b st) (\<lambda>c st'. power_result b (5 ^ (4 * 2 ^ i * k)) (B + n) c)"
  using assms
proof (induction n arbitrary: st i p5 k b B)
  case (Suc n)
  have B: "B < Kmax" "i + 1 < Kmax" using Suc.prems by simp_all
  let ?x = "(5::nat) ^ (4 * 2 ^ i)"
  have sq: "(5::nat) ^ (4 * 2 ^ (i + 1)) = ?x ^ 2" by (simp add: power2_eq_square flip: power_add)
  have split: "?x ^ (k mod 2) * (5 ^ (4 * 2 ^ (i + 1))) ^ (k div 2) = 5 ^ (4 * 2 ^ i * k)"
    unfolding sq by (simp only: power_mult [symmetric] power_add [symmetric] distrib_left [symmetric] mod_mult_div_eq mult.assoc)
  show ?case
    unfolding pow5mult_loop.simps [of rival i p5 k b st] Let_def [of "k div 2"]
  proof (rule delivers_on_ok [OF mult_step_ok])
    fix c st' assume c: "power_result b (?x ^ (k mod 2)) (B + 1) c \<and> p5s st' = p5s st" and kp: "keeps st st'"
    have c': "bnorm c" "0 < bval c" "bg_k c \<le> B + 1" "bshape c" "bval c = bval b * ?x ^ (k mod 2)"
      using c Suc.prems(6) by (auto simp: power_result_def bnorm_def bnum_def)
    show "delivers st (if k div 2 = 0 then (Inr c, st')
       else on_ok (if i + 1 < length (p5s st') then (Inr (p5s st' ! (i + 1)), st')
              else on_ok (mult p5 p5 st') (Bfree c)
                    (\<lambda>p51 st. let (p51, st) = p5s_store rival p51 st in (Inr p51, st)))
             (\<lambda>st. st) (\<lambda>p51 st. pow5mult_loop rival (i + 1) p51 (k div 2) c st))
       (\<lambda>c st'. power_result b (5 ^ (4 * 2 ^ i * k)) (B + Suc n) c)"
    proof (cases "k div 2 = 0")
      case True
      then show ?thesis using c c' kp split by (auto simp: power_result_def intro!: delivers_Inr)
    next
      case False
      have np: "delivers st' (if i + 1 < length (p5s st') then (Inr (p5s st' ! (i + 1)), st')
              else on_ok (mult p5 p5 st') (Bfree c)
                    (\<lambda>p51 st. let (p51, st) = p5s_store rival p51 st in (Inr p51, st)))
         (\<lambda>p st'. p5_ok (i + 1) p \<and> i + 1 < length (p5s st'))"
        using next_power_ok [OF keeps_ok [OF kp] Suc.prems(2,3) _ B(2) c'(4)] c Suc.prems(4) by simp
      show ?thesis unfolding if_not_P [OF False]
      proof (rule delivers_later [OF delivers_on_ok [OF np] kp])
        fix p st'' assume p: "p5_ok (i + 1) p \<and> i + 1 < length (p5s st'')" and kp': "keeps st' st''"
        have ih: "delivers st'' (pow5mult_loop rival (i + 1) p (k div 2) c st'')
          (\<lambda>d st'. power_result c (5 ^ (4 * 2 ^ (i + 1) * (k div 2))) (B + 1 + n) d)"
          using Suc.IH [of st'' "i + 1" p c "k div 2" "B + 1"] keeps_ok [OF kp'] Suc.prems p c' False by (simp add: less_mult_imp_div_less)
        have v: "bval c * 5 ^ (4 * 2 ^ (i + 1) * (k div 2)) = bval b * 5 ^ (4 * 2 ^ i * k)"
          unfolding c'(5) split [symmetric] power_mult [of 5 "4 * 2 ^ (i + 1)"] by (rule mult.assoc)
        have pr: "power_result b (5 ^ (4 * 2 ^ i * k)) (B + Suc n) d"
          if "power_result c (5 ^ (4 * 2 ^ (i + 1) * (k div 2))) (B + 1 + n) d" for d
          using that unfolding power_result_def v by simp
        then show "delivers st' (pow5mult_loop rival (i + 1) p (k div 2) c st'')
          (\<lambda>c st'. power_result b (5 ^ (4 * 2 ^ i * k)) (B + Suc n) c)"
          by (intro delivers_weaken [OF delivers_later [OF ih kp']] pr)
      qed simp
    qed
  qed (use Suc.prems B in simp_all)
qed simp


lemma pow5mult_ok:
  assumes "dtoa_ok st" "rival_ok rival" "bnorm b" "0 < bval b" "k < 4 * 2 ^ n" "bg_k b + 1 + n \<le> Kmax"
  shows "delivers st (pow5mult rival b k st) (\<lambda>c st'. power_result b (5 ^ k) (bg_k b + 1 + n) c)"
proof -
  let ?m = "[5, 25, 125 :: u32] ! (k mod 4 - 1)"
  have m: "unat ?m = 5 ^ (k mod 4)" "?m \<noteq> 0" if "k mod 4 \<noteq> 0"
  proof -
    have "k mod 4 = 1 \<or> k mod 4 = 2 \<or> k mod 4 = 3" using that by presburger
    then show "unat ?m = 5 ^ (k mod 4)" "?m \<noteq> 0" by (elim disjE; simp)+
  qed
  have first: "delivers st (if k mod 4 \<noteq> 0 then multadd b ?m 0 st else (Inr b, st))
      (\<lambda>c st'. power_result b (5 ^ (k mod 4)) (bg_k b + 1) c)"
  proof (cases "k mod 4 = 0")
    case False
    have "k mod 4 \<le> 3" by simp
    then have "(5::nat) ^ (k mod 4) \<le> 5 ^ 3" by (rule power_increasing) simp
    then have "delivers st (multadd b ?m 0 st) (\<lambda>c st'. multadd_result b ?m 0 c \<and> p5s st' = p5s st)"
      using multadd_ok [OF assms(1) bnormD [OF assms(3)], of ?m 0] m [OF False] assms(6) by simp
    then show ?thesis unfolding if_P [OF False]
      by (rule delivers_weaken) (use m [OF False] assms(3) in \<open>auto simp: multadd_result_def power_result_def\<close>)
  qed (use assms in \<open>auto simp: power_result_def intro!: delivers_Inr keeps_refl\<close>)
  have split: "(5::nat) ^ (k mod 4) * 5 ^ (4 * 2 ^ 0 * (k div 4)) = 5 ^ k" by (simp flip: power_add)
  show ?thesis unfolding pow5mult_def Let_def [of "k div 4"]
  proof (rule delivers_on_ok [OF first])
    fix c st' assume c: "power_result b (5 ^ (k mod 4)) (bg_k b + 1) c" and kp: "keeps st st'"
    have c': "bnorm c" "0 < bval c" "bshape c" "bg_k c \<le> bg_k b + 1"
      using c assms(4) by (auto simp: power_result_def bnorm_def bnum_def)
    show "delivers st (if k div 4 = 0 then (Inr c, st')
       else on_ok (if p5s st' \<noteq> [] then (Inr (p5s st' ! 0), st')
              else on_ok (i2b 625 st') (Bfree c) (\<lambda>p5 st. let (p5, st) = p5s_store rival p5 st in (Inr p5, st)))
             (\<lambda>st. st) (\<lambda>p5 st. pow5mult_loop rival 0 p5 (k div 4) c st))
       (\<lambda>c st'. power_result b (5 ^ k) (bg_k b + 1 + n) c)"
    proof (cases "k div 4 = 0")
      case True
      then have "k mod 4 = k" by (simp add: div_eq_0_iff)
      then show ?thesis using c kp True by (auto simp: power_result_def intro!: delivers_Inr)
    next
      case False
      have np: "delivers st' (if p5s st' \<noteq> [] then (Inr (p5s st' ! 0), st')
              else on_ok (i2b 625 st') (Bfree c) (\<lambda>p5 st. let (p5, st) = p5s_store rival p5 st in (Inr p5, st)))
          (\<lambda>p st'. p5_ok 0 p \<and> 0 < length (p5s st'))"
      proof (cases "p5s st' = []")
        case True
        have "delivers st' (on_ok (i2b 625 st') (Bfree c) (\<lambda>p5 st. let (p5, st) = p5s_store rival p5 st in (Inr p5, st)))
          (\<lambda>p st'. p5_ok 0 p \<and> 0 < length (p5s st'))"
        proof (rule delivers_on_ok [OF i2b_ok [OF keeps_ok [OF kp]]])
          show "keeps st' (Bfree c st'')" if "keeps st' st''" for st'' using that c'(3) by (rule Bfree_keeps)
          fix q st'' assume q: "bnorm q \<and> bval q = unat (625::u32) \<and> bg_k q = 1 \<and> p5s st'' = p5s st'" and k: "keeps st' st''"
          obtain r st3 where r: "p5s_store rival q st'' = (r, st3)" by fastforce
          have "p5_ok (length (p5s st'')) q" using q True by (simp add: p5_ok_def)
          then show "delivers st' (let (p5, st) = p5s_store rival q st'' in (Inr p5, st)) (\<lambda>p st'. p5_ok 0 p \<and> 0 < length (p5s st'))"
            using p5s_store_ok [OF keeps_ok [OF k] assms(2) _ r] q True keeps_trans [OF k] by (auto simp: r intro!: delivers_Inr)
        qed
        then show ?thesis using True by simp
      next
        case False
        then have "p5_ok 0 (p5s st' ! 0)" using keeps_ok [OF kp] by (simp add: dtoa_ok_def)
        then show ?thesis using False keeps_ok [OF kp] by (simp add: delivers_Inr keeps_refl)
      qed
      show ?thesis unfolding if_not_P [OF False]
      proof (rule delivers_later [OF delivers_on_ok [OF np] kp])
        fix p st'' assume p: "p5_ok 0 p \<and> 0 < length (p5s st'')" and kp': "keeps st' st''"
        have l: "delivers st'' (pow5mult_loop rival 0 p (k div 4) c st'')
            (\<lambda>d st'. power_result c (5 ^ (4 * 2 ^ 0 * (k div 4))) (bg_k b + 1 + n) d)"
          by (rule pow5mult_loop_ok) (use p keeps_ok [OF kp'] assms c' False in \<open>auto simp: less_mult_imp_div_less\<close>)
        have v: "bval c * 5 ^ (4 * 2 ^ 0 * (k div 4)) = bval b * 5 ^ k"
          using c unfolding power_result_def split [symmetric] by (simp only: mult.assoc)
        have pr: "power_result b (5 ^ k) (bg_k b + 1 + n) d"
          if "power_result c (5 ^ (4 * 2 ^ 0 * (k div 4))) (bg_k b + 1 + n) d" for d
          using that unfolding power_result_def v by simp
        show "delivers st' (pow5mult_loop rival 0 p (k div 4) c st'') (\<lambda>c st'. power_result b (5 ^ k) (bg_k b + 1 + n) c)"
          by (intro delivers_weaken [OF delivers_later [OF l kp']] pr)
      qed simp
    qed
  qed simp
qed

lemma lshift_k_ok:
  "i = 2 ^ k1 \<Longrightarrow> n1 \<le> 2 ^ lshift_k n1 i k1 \<and> k1 \<le> lshift_k n1 i k1 \<and> (lshift_k n1 i k1 = k1 \<or> 2 ^ (lshift_k n1 i k1 - 1) < n1)"
proof (induction n1 i k1 rule: lshift_k.induct)
  case (1 n1 i k1)
  show ?case
  proof (cases "n1 > i")
    case True
    then have "lshift_k n1 i k1 = lshift_k n1 (2 * i) (k1 + 1)" using 1 by (subst lshift_k.simps) simp
    then show ?thesis using 1 True by (auto simp: not_less)
  next
    case False
    then have "lshift_k n1 i k1 = k1" by (subst lshift_k.simps) simp
    then show ?thesis using 1 False by simp
  qed
qed

lemma lshift_k_bound: "k \<le> Kmax \<Longrightarrow> n1 \<le> 2 ^ Kmax \<Longrightarrow> n1 \<le> 2 ^ lshift_k n1 (2 ^ k) k \<and> lshift_k n1 (2 ^ k) k \<le> Kmax"
proof -
  assume k: "k \<le> Kmax" "n1 \<le> 2 ^ Kmax"
  let ?r = "lshift_k n1 (2 ^ k) k"
  note r = lshift_k_ok [OF refl, of n1 k]
  have "?r \<le> Kmax"
  proof (cases "?r = k")
    case False
    then have "(2::nat) ^ (?r - 1) < 2 ^ Kmax" using r k(2) by linarith
    then show ?thesis using power_less_imp_less_exp [of 2 "?r - 1" Kmax] by simp
  qed (use k in simp)
  then show ?thesis using r by simp
qed

lemma lshift_loop_ok:
  assumes "0 < k" "k < 32"
  shows "length (lshift_loop k (drop_bit (32 - k) y) xs) = Suc (length xs)"
    "wval (lshift_loop k (drop_bit (32 - k) y) xs) = wval xs * 2 ^ k + unat y div 2 ^ (32 - k)"
proof (induction xs arbitrary: y)
  case (Cons x xs)
  case 2
  have "unat x * 2 ^ k = unat x div 2 ^ (32 - k) * 2 ^ 32 + unat x * 2 ^ k mod 2 ^ 32"
    using shl_top [of k "unat x"] assms by simp
  then have "unat x * 2 ^ k mod 2 ^ 32 + 2 ^ 32 * (unat x div 2 ^ (32 - k)) = unat x * 2 ^ k" by (simp only: ac_simps)
  then have "(unat x * 2 ^ k mod 2 ^ 32 + unat y div 2 ^ (32 - k)) + 2 ^ 32 * (wval xs * 2 ^ k + unat x div 2 ^ (32 - k))
     = (unat x + 2 ^ 32 * wval xs) * 2 ^ k + unat y div 2 ^ (32 - k)"
    by (simp only: distrib_left distrib_right ac_simps)
  then show ?case using Cons.IH(2) [of x] unat_shl_or [OF assms, of x y] by (simp only: lshift_loop.simps wval.simps)
qed (simp_all add: unat_shr)


definition shift_result :: "bigint \<Rightarrow> nat \<Rightarrow> bigint \<Rightarrow> bool" where
  "shift_result b k c \<longleftrightarrow> bnum c \<and> bval c = bval b * 2 ^ k \<and> (bnorm b \<and> 0 < bval b \<longrightarrow> bnorm c)"

lemma shift_resultI:
  assumes "bnum b" "bshape c" "bg_x c = replicate n 0 @ ws @ zs" "wval ws = wval (words b) * 2 ^ s"
    "bg_wds c = n + (if bg_wds b < length ws \<and> last ws \<noteq> 0 then bg_wds b + 1 else bg_wds b)"
    "bg_wds b \<le> length ws" "length ws \<le> Suc (bg_wds b)" "n + length ws \<le> 2 ^ bg_k c"
  shows "shift_result b (32 * n + s) c"
proof -
  have w1: "1 \<le> bg_wds b" using bnumD [OF assms(1)] by simp
  have n: "bnum c" using assms(2,5-8) w1 by (auto simp: bnum_def bshape_def)
  have zw: "wval (take (bg_wds b) ws) = wval ws" if "\<not> (bg_wds b < length ws \<and> last ws \<noteq> 0)"
  proof (cases "bg_wds b < length ws")
    case True
    then have l: "length ws = Suc (bg_wds b)" using assms(7) by simp
    then obtain us u where u: "ws = us @ [u]" "length us = bg_wds b" by (metis length_Suc_conv_rev)
    then show ?thesis using that by (simp add: wval_append)
  qed (use assms(6) in simp)
  have v: "bval c = bval b * 2 ^ (32 * n + s)"
  proof -
    have "bval c = 2 ^ (32 * n) * wval ws"
    proof (cases "bg_wds b < length ws \<and> last ws \<noteq> 0")
      case True
      then have "bg_wds c = n + length ws" using assms(5,7) by simp
      then show ?thesis by (simp add: bval_def assms(3) wval_append)
    next
      case False
      then have "bg_wds c = n + bg_wds b" using assms(5) by simp
      then show ?thesis using zw [OF False] assms(6) by (simp add: bval_def assms(3) wval_append)
    qed
    then show ?thesis using bnum_words [OF assms(1)] by (simp add: assms(4) power_add)
  qed
  have "bnorm c" if b: "bnorm b" "0 < bval b"
  proof (cases "bg_wds b < length ws \<and> last ws \<noteq> 0")
    case True
    then have c: "bg_wds c = n + length ws" "ws \<noteq> []" using assms(5,7) by auto
    then have "bg_x c ! (bg_wds c - 1) = last ws" by (cases ws rule: rev_cases) (simp_all add: assms(3) nth_append)
    then show ?thesis using n True by (simp add: bnorm_def)
  next
    case False
    then have c: "bg_wds c = n + bg_wds b" using assms(5) by simp
    have "2 ^ (32 * (bg_wds b - 1)) \<le> bval b"
      using bval_bounds(2) [OF assms(1)] b w1 by (cases "bg_wds b = 1") (auto simp: bnorm_def)
    then have "2 ^ (32 * (bg_wds b - 1)) * 2 ^ (32 * n) \<le> bval b * 2 ^ (32 * n + s)"
      by (intro mult_le_mono) simp_all
    moreover have "32 * (bg_wds c - 1) = 32 * (bg_wds b - 1) + 32 * n" using c w1 by simp
    ultimately have "2 ^ (32 * (bg_wds c - 1)) \<le> bval c" unfolding v by (simp only: power_add)
    then show ?thesis by (rule bnormI [OF n])
  qed
  then show ?thesis using n v by (simp add: shift_result_def)
qed

lemma lshift_ok:
  assumes "dtoa_ok st" "bnum b" "k div 32 + bg_wds b + 1 \<le> 2 ^ Kmax"
  shows "delivers st (lshift b k st) (\<lambda>c st'. shift_result b k c \<and> p5s st' = p5s st)"
proof -
  note d = bnumD [OF assms(2)] bnum_words [OF assms(2)]
  let ?n = "k div 32"
  let ?n1 = "?n + bg_wds b + 1"
  let ?k1 = "lshift_k ?n1 (2 ^ bg_k b) (bg_k b)"
  have mx: "max 1 (bg_wds b) = bg_wds b" "bg_maxwds b = 2 ^ bg_k b" using d by auto
  have k1: "?n1 \<le> 2 ^ ?k1" "?k1 \<le> Kmax" using lshift_k_bound [of "bg_k b" ?n1] d assms(3) by simp_all
  define body where "body = (\<lambda>b1 st. let k = k mod 32 in if k \<noteq> 0 then
                   let ws = lshift_loop k 0 (words b); n1 = (if last ws \<noteq> 0 then ?n1 + 1 else ?n1)
                   in case put_words (replicate ?n 0 @ ws) b1 of Inl e \<Rightarrow> (Inl e, st)
                   | Inr b1 \<Rightarrow> (Inr (b1\<lparr>bg_wds := n1 - 1\<rparr>), st)
                 else case put_words (replicate ?n 0 @ words b) b1 of Inl e \<Rightarrow> (Inl e, st :: dtoa)
                   | Inr b1 \<Rightarrow> (Inr (b1\<lparr>bg_wds := ?n1 - 1\<rparr>), st))"
  have M: "lshift b k st = (case on_ok (Balloc ?k1 st) (\<lambda>st. st) body of (r, st) \<Rightarrow> (r, Bfree b st))"
    unfolding lshift_def body_def Let_def mx words_def [symmetric] by (rule refl)
  have "delivers st (on_ok (Balloc ?k1 st) (\<lambda>st. st) body) (\<lambda>c st'. shift_result b k c \<and> p5s st' = p5s st)"
  proof (rule delivers_on_ok [OF Balloc_ok [OF assms(1) k1(2)]])
    fix e st' assume e: "bshape e \<and> bg_k e = ?k1 \<and> bg_wds e = 0 \<and> bg_sign e = 0 \<and> p5s st' = p5s st" and kp: "keeps st st'"
    have res: "shift_result b k (e\<lparr>bg_x := (replicate ?n 0 @ ws) @ drop (length (replicate ?n 0 @ ws)) (bg_x e), bg_wds := m\<rparr>)"
      if ws: "wval ws = wval (words b) * 2 ^ (k mod 32)" "bg_wds b \<le> length ws" "length ws \<le> Suc (bg_wds b)"
        and m: "m = ?n + (if bg_wds b < length ws \<and> last ws \<noteq> 0 then bg_wds b + 1 else bg_wds b)" for ws m
    proof -
      have "shift_result b (32 * ?n + k mod 32) (e\<lparr>bg_x := (replicate ?n 0 @ ws) @ drop (length (replicate ?n 0 @ ws)) (bg_x e), bg_wds := m\<rparr>)"
        by (rule shift_resultI [OF assms(2), where ws = ws]) (use ws m e k1 in \<open>auto simp: bshape_def\<close>)
      then show ?thesis by simp
    qed
    have fits: "length (replicate ?n 0 @ ws) \<le> 2 ^ bg_k e" if "length ws \<le> Suc (bg_wds b)" for ws :: "u32 list"
      using that k1(1) e by simp
    show "delivers st (body e st') (\<lambda>c st'. shift_result b k c \<and> p5s st' = p5s st)"
    proof (cases "k mod 32 = 0")
      case True
      note p = put_words_ok(1) [OF _ fits, of "words b"]
      show ?thesis using p e d res [of "words b" "?n1 - 1"] kp True
        by (auto simp: body_def intro!: delivers_Inr)
    next
      case False
      define ws where "ws = lshift_loop (k mod 32) 0 (words b)"
      have ws: "length ws = Suc (bg_wds b)" "wval ws = wval (words b) * 2 ^ (k mod 32)"
        using lshift_loop_ok [of "k mod 32" 0 "words b"] False d by (simp_all add: ws_def)
      have p: "put_words (replicate ?n 0 @ ws) e = Inr (e\<lparr>bg_x := (replicate ?n 0 @ ws) @ drop (length (replicate ?n 0 @ ws)) (bg_x e)\<rparr>)"
        using put_words_ok(1) [OF _ fits, of ws] e ws by simp
      have "body e st' = (Inr (e\<lparr>bg_x := (replicate ?n 0 @ ws) @ drop (length (replicate ?n 0 @ ws)) (bg_x e),
          bg_wds := (if last ws \<noteq> 0 then ?n1 + 1 else ?n1) - 1\<rparr>), st')"
        using False p unfolding body_def Let_def ws_def by simp
      then show ?thesis using res [OF ws(2), of "(if last ws \<noteq> 0 then ?n1 + 1 else ?n1) - 1"] ws(1) kp e
        by (auto intro!: delivers_Inr)
    qed
  qed simp
  then show ?thesis unfolding M
    by (rule delivers_Bfree) (use d in simp_all)
qed


lemma cmp_loop_ok:
  "length xs = length ys \<Longrightarrow> cmp_loop xs ys =
    (if wval (rev xs) < wval (rev ys) then - 1 else if wval (rev xs) = wval (rev ys) then 0 else 1)"
proof (induction xs ys rule: cmp_loop.induct)
  case (1 x xs y ys)
  let ?p = "2 ^ (32 * length xs) :: nat"
  have v: "wval (rev (x # xs)) = wval (rev xs) + ?p * unat x" "wval (rev (y # ys)) = wval (rev ys) + ?p * unat y"
    using 1(2) by (simp_all add: wval_append)
  have l: "wval (rev xs) < ?p" "wval (rev ys) < ?p"
    using wval_less [of "rev xs"] wval_less [of "rev ys"] 1(2) by simp_all
  have top: "u + ?p * s < w + ?p * t" if "u < ?p" "s < t" for u w s t :: nat
  proof -
    have "u + ?p * s < ?p * Suc s" using that(1) by simp
    also have "\<dots> \<le> ?p * t" using that(2) by (intro mult_le_mono2) simp
    finally show ?thesis by simp
  qed
  show ?case
  proof (cases "x = y")
    case True
    then show ?thesis using 1 by (simp add: wval_append)
  next
    case False
    then consider "x < y" | "y < x" by (meson linorder_less_linear)
    then show ?thesis
    proof cases
      case 1
      then have "wval (rev (x # xs)) < wval (rev (y # ys))" unfolding v using top [OF l(1)] by (simp add: word_less_nat_alt)
      then show ?thesis using 1 False by (simp del: rev.simps)
    next
      case 2
      then have "wval (rev (y # ys)) < wval (rev (x # xs))" unfolding v using top [OF l(2)] by (simp add: word_less_nat_alt)
      then show ?thesis using 2 False by (auto simp del: rev.simps)
    qed
  qed
qed simp_all

lemma more_words: "bnorm a \<Longrightarrow> bnum b \<Longrightarrow> bg_wds b < bg_wds a \<Longrightarrow> bval b < bval a"
proof -
  assume a: "bnorm a" and b: "bnum b" and w: "bg_wds b < bg_wds a"
  have "bval b < 2 ^ (32 * bg_wds b)" by (rule bval_bounds(1) [OF b])
  also have "\<dots> \<le> 2 ^ (32 * (bg_wds a - 1))" using w by (intro power_increasing) simp_all
  also have "\<dots> \<le> bval a" using bval_bounds(2) [OF bnormD [OF a]] a w bnumD [OF b] by (auto simp: bnorm_def)
  finally show ?thesis .
qed

lemma cmp_ok:
  assumes "bnorm a" "bnorm b"
  shows "sgn (cmp a b) = sgn (int (bval a) - int (bval b))"
    "bg_wds a = bg_wds b \<Longrightarrow> cmp a b = sgn (int (bval a) - int (bval b))"
proof -
  show e: "cmp a b = sgn (int (bval a) - int (bval b))" if "bg_wds a = bg_wds b"
  proof -
    have "length (rev (take (bg_wds b) (bg_x a))) = length (rev (take (bg_wds b) (bg_x b)))"
      using that bnum_words [OF bnormD [OF assms(1)]] bnum_words [OF bnormD [OF assms(2)]] by (simp add: words_def)
    note c = cmp_loop_ok [OF this]
    show ?thesis using that c unfolding cmp_def Let_def bval_def by (auto simp: sgn_if)
  qed
  show "sgn (cmp a b) = sgn (int (bval a) - int (bval b))"
  proof (cases "bg_wds a = bg_wds b")
    case False
    then have "cmp a b = int (bg_wds a) - int (bg_wds b)" by (simp add: cmp_def)
    then show ?thesis using False more_words [OF assms(1) bnormD [OF assms(2)]] more_words [OF assms(2) bnormD [OF assms(1)]]
      by (auto simp: sgn_if)
  qed (simp add: e)
qed

lemma unat_borrow: "unat (borrow_of y) = unat y div 65536 mod 2"
proof -
  have "borrow_of y = drop_bit 16 y AND 1"
    unfolding borrow_of_def drop_bit_and by (simp add: drop_bit_eq_div)
  then show ?thesis by (simp add: and_one_eq unat_mod hi16)
qed

lemma borrow16:
  assumes "unat p < 65536" "unat q < 65536" "unat w \<le> 1"
  shows "unat (p - q - w :: u32) mod 65536 + unat q + unat w = unat p + 65536 * unat (borrow_of (p - q - w))"
    "unat (borrow_of (p - q - w)) \<le> 1"
proof -
  have y: "unat (p - q - w) = (if unat q + unat w \<le> unat p then unat p - unat q - unat w
      else 2 ^ 32 + unat p - unat q - unat w)"
    using assms by (auto simp: unat_sub_if')
  show "unat (borrow_of (p - q - w)) \<le> 1" by (simp add: unat_borrow)
  show "unat (p - q - w) mod 65536 + unat q + unat w = unat p + 65536 * unat (borrow_of (p - q - w))"
  proof (cases "unat q + unat w \<le> unat p")
    case True
    then show ?thesis using y assms by (simp add: unat_borrow)
  next
    case False
    define t where "t = 65536 + unat p - unat q - unat w"
    have t: "t < 65536" "t + unat q + unat w = 65536 + unat p" using False assms by (simp_all add: t_def)
    have e: "unat (p - q - w) = t + 65535 * 65536" using y False assms by (simp add: t_def)
    have "unat (p - q - w) mod 65536 = t" unfolding e mod_mult_self1 using t(1) by simp
    moreover have "unat (p - q - w) div 65536 = 65535" unfolding e using t(1) div_mult_self1 [of 65536 t 65535] by simp
    ultimately show ?thesis using t(2) by (simp add: unat_borrow)
  qed
qed

lemma sub_halves:
  fixes al ah bl bh w :: u32
  assumes "unat al < 65536" "unat ah < 65536" "unat bl < 65536" "unat bh < 65536" "unat w \<le> 1"
  defines "y \<equiv> al - bl - w"
  defines "z \<equiv> ah - bh - borrow_of y"
  shows "unat (storeinc z y) + (unat bl + 65536 * unat bh) + unat w = unat al + 65536 * unat ah + 2 ^ 32 * unat (borrow_of z)"
    "unat (borrow_of z) \<le> 1"
proof -
  note l = borrow16 [OF assms(1,3,5), folded y_def]
  note h = borrow16 [OF assms(2,4) l(2), folded z_def]
  show "unat (borrow_of z) \<le> 1" by (rule h(2))
  have "(2::nat) ^ 32 = 65536 * 65536" by simp
  then show "unat (storeinc z y) + (unat bl + 65536 * unat bh) + unat w = unat al + 65536 * unat ah + 2 ^ 32 * unat (borrow_of z)"
    using l(1) h(1) unfolding unat_storeinc by (simp only: distrib_left)
qed

lemma sub_word:
  fixes xa xb w :: u32
  assumes "unat w \<le> 1"
  defines "y \<equiv> (xa AND 0xffff) - (xb AND 0xffff) - w"
  defines "z \<equiv> drop_bit 16 xa - drop_bit 16 xb - borrow_of y"
  shows "unat (storeinc z y) + unat xb + unat w = unat xa + 2 ^ 32 * unat (borrow_of z)" "unat (borrow_of z) \<le> 1"
  using sub_halves [of "xa AND 0xffff" "drop_bit 16 xa" "xb AND 0xffff" "drop_bit 16 xb" w] assms(1)
  unfolding y_def z_def lo16 hi16 lo_hi(1) by (simp_all add: lo_hi)

lemma diff_loop_ok:
  assumes "unat w \<le> 1" "length ys \<le> length xs"
  shows "length (diff_loop w xs ys) = length xs \<and>
    (\<exists>v \<le> 1. wval (diff_loop w xs ys) + wval ys + unat w = wval xs + 2 ^ (32 * length xs) * v)"
  using assms
proof (induction w xs ys rule: diff_loop.induct)
  case (1 w ys)
  then show ?case by simp
next
  case (2 w xa xs xb ys)
  let ?y = "(xa AND 0xffff) - (xb AND 0xffff) - w"
  let ?z = "drop_bit 16 xa - drop_bit 16 xb - borrow_of ?y"
  note s = sub_word [OF "2.prems"(1), of xa xb]
  obtain v where v: "v \<le> 1" "wval (diff_loop (borrow_of ?z) xs ys) + wval ys + unat (borrow_of ?z) = wval xs + 2 ^ (32 * length xs) * v"
    and l: "length (diff_loop (borrow_of ?z) xs ys) = length xs"
    using "2.IH" [OF refl refl s(2)] "2.prems" by auto
  have "wval (diff_loop w (xa # xs) (xb # ys)) + wval (xb # ys) + unat w =
      (unat (storeinc ?z ?y) + unat xb + unat w) + 2 ^ 32 * (wval (diff_loop (borrow_of ?z) xs ys) + wval ys)"
    by (simp add: Let_def)
  also have "\<dots> = unat xa + 2 ^ 32 * (wval (diff_loop (borrow_of ?z) xs ys) + wval ys + unat (borrow_of ?z))"
    unfolding s(1) by simp
  also have "\<dots> = wval (xa # xs) + 2 ^ (32 * length (xa # xs)) * v" unfolding v(2) by (simp add: power_add)
  finally show ?case using v(1) l by (auto simp: Let_def)
next
  case (3 w xa xs)
  let ?y = "(xa AND 0xffff) - w"
  let ?z = "drop_bit 16 xa - borrow_of ?y"
  note s = sub_word [OF "3.prems"(1), of xa 0, unfolded zero_and_eq drop_bit_of_0 diff_zero unsigned_0 add_0_right]
  obtain v where v: "v \<le> 1" "wval (diff_loop (borrow_of ?z) xs []) + unat (borrow_of ?z) = wval xs + 2 ^ (32 * length xs) * v"
    and l: "length (diff_loop (borrow_of ?z) xs []) = length xs"
    using "3.IH" [OF refl refl s(2)] by auto
  have "wval (diff_loop w (xa # xs) []) + wval [] + unat w =
      (unat (storeinc ?z ?y) + unat w) + 2 ^ 32 * wval (diff_loop (borrow_of ?z) xs [])"
    by (simp add: Let_def)
  also have "\<dots> = unat xa + 2 ^ 32 * (wval (diff_loop (borrow_of ?z) xs []) + unat (borrow_of ?z))"
    unfolding s(1) by simp
  also have "\<dots> = wval (xa # xs) + 2 ^ (32 * length (xa # xs)) * v" unfolding v(2) by (simp add: power_add)
  finally show ?case using v(1) l by (auto simp: Let_def)
qed

lemma no_borrow: "a + b = c + p * v \<Longrightarrow> b \<le> c \<Longrightarrow> a < p \<Longrightarrow> a = c - (b :: nat)"
  by (cases v) auto


definition diff_result :: "bigint \<Rightarrow> bigint \<Rightarrow> bigint \<Rightarrow> bool" where
  "diff_result a b c \<longleftrightarrow> bnorm c \<and> int (bval c) = \<bar>int (bval a) - int (bval b)\<bar> \<and>
     bg_sign c = (if bval a < bval b then 1 else 0)"

lemma diff_ordered:
  assumes "bnorm a" "bnorm b" "bval b < bval a" "bshape c" "bg_k c = bg_k a"
  defines "ws \<equiv> diff_loop 0 (take (bg_wds a) (bg_x a)) (take (bg_wds b) (bg_x b))"
  shows "\<exists>c'. put_words ws (c\<lparr>bg_sign := i\<rparr>) = Inr c' \<and> bnorm (c'\<lparr>bg_wds := trim (bg_x c') (bg_wds a)\<rparr>) \<and>
    bval (c'\<lparr>bg_wds := trim (bg_x c') (bg_wds a)\<rparr>) = bval a - bval b \<and> bg_sign c' = i"
proof -
  note d = bnumD [OF bnormD [OF assms(1)]] bnum_words [OF bnormD [OF assms(1)]] bnum_words [OF bnormD [OF assms(2)]]
  have w: "bg_wds b \<le> bg_wds a" using more_words [OF assms(2) bnormD [OF assms(1)]] assms(3) by linarith
  have "length (take (bg_wds b) (bg_x b)) \<le> length (take (bg_wds a) (bg_x a))" using d w by (simp add: words_def)
  from diff_loop_ok [OF _ this, of 0] obtain v where v: "wval ws + bval b = bval a + 2 ^ (32 * bg_wds a) * v"
    and l: "length ws = bg_wds a"
    using d by (auto simp: ws_def bval_def words_def)
  have val: "wval ws = bval a - bval b" using no_borrow [OF v] assms(3) wval_less [of ws] l by simp
  let ?c = "c\<lparr>bg_sign := i, bg_x := ws @ drop (length ws) (bg_x c)\<rparr>"
  have put: "put_words ws (c\<lparr>bg_sign := i\<rparr>) = Inr ?c" "bshape ?c"
    using put_words_ok [of "c\<lparr>bg_sign := i\<rparr>" ws] assms(4,5) l d by (simp_all add: bshape_def)
  have "bg_wds a \<le> length (bg_x ?c)" using put(2) l by simp
  note t = trim_norm [OF put(2) this]
  show ?thesis using put t val l assms(3) by simp
qed

lemma diff_ok:
  assumes "dtoa_ok st" "bnorm a" "bnorm b"
  shows "delivers st (diff a b st) (\<lambda>c st'. diff_result a b c \<and> p5s st' = p5s st)"
proof -
  note c = cmp_ok(1) [OF assms(2,3)]
  have k: "bg_k a \<le> Kmax" "bg_k b \<le> Kmax" using assms(2,3) by (simp_all add: bnorm_def bnum_def bshape_def)
  let ?D = "\<lambda>a b i c st. let wa = bg_wds a; wb = bg_wds b; ws = diff_loop 0 (take wa (bg_x a)) (take wb (bg_x b))
     in case put_words ws (c\<lparr>bg_sign := i\<rparr>) of Inl e \<Rightarrow> (Inl e, st) | Inr c \<Rightarrow> (Inr (c\<lparr>bg_wds := trim (bg_x c) wa\<rparr>), st :: dtoa)"
  have ordered: "delivers st (on_ok (Balloc (bg_k a) st) (\<lambda>st. st) (?D a b i))
      (\<lambda>c st'. (bnorm c \<and> bval c = bval a - bval b \<and> bg_sign c = i) \<and> p5s st' = p5s st)"
    if ab: "bnorm a" "bnorm b" "bval b < bval a" "bg_k a \<le> Kmax" for a b i
  proof (rule delivers_on_ok [OF Balloc_ok [OF assms(1) ab(4)]])
    fix e st' assume e: "bshape e \<and> bg_k e = bg_k a \<and> bg_wds e = 0 \<and> bg_sign e = 0 \<and> p5s st' = p5s st" and kp: "keeps st st'"
    have e': "bshape e" "bg_k e = bg_k a" using e by simp_all
    show "delivers st (?D a b i e st') (\<lambda>c st'. (bnorm c \<and> bval c = bval a - bval b \<and> bg_sign c = i) \<and> p5s st' = p5s st)"
      using diff_ordered [OF ab(1-3) e', of i] kp e by (auto simp: Let_def intro!: delivers_Inr)
  qed simp
  consider "bval a = bval b" | "bval a < bval b" | "bval b < bval a" by linarith
  then show ?thesis
  proof cases
    case 1
    then have "cmp a b = 0" using c by (simp add: sgn_0_0)
    then have D: "diff a b st = on_ok (Balloc 0 st) (\<lambda>st. st) (\<lambda>c st. (Inr (c\<lparr>bg_wds := 1, bg_x := (bg_x c)[0 := 0]\<rparr>), st))"
      by (simp add: diff_def)
    show ?thesis unfolding D
    proof (rule delivers_on_ok [OF Balloc_ok [OF assms(1)]])
      fix e st' assume e: "bshape e \<and> bg_k e = 0 \<and> bg_wds e = 0 \<and> bg_sign e = 0 \<and> p5s st' = p5s st" and kp: "keeps st st'"
      show "delivers st (Inr (e\<lparr>bg_wds := 1, bg_x := (bg_x e)[0 := 0]\<rparr>), st') (\<lambda>c st'. diff_result a b c \<and> p5s st' = p5s st)"
        using one_word_ok [of e "e\<lparr>bg_wds := 1, bg_x := (bg_x e)[0 := 0]\<rparr>" 0] e kp 1
        by (intro delivers_Inr) (simp_all add: diff_result_def)
    qed simp_all
  next
    case 2
    then have "cmp a b < 0" using c by (simp add: sgn_if split: if_splits)
    then have D: "diff a b st = on_ok (Balloc (bg_k b) st) (\<lambda>st. st) (?D b a 1)" by (simp add: diff_def)
    show ?thesis unfolding D
      by (rule delivers_weaken [OF ordered]) (use assms k 2 in \<open>auto simp: diff_result_def\<close>)
  next
    case 3
    then have "cmp a b > 0" using c by (simp add: sgn_if split: if_splits)
    then have D: "diff a b st = on_ok (Balloc (bg_k a) st) (\<lambda>st. st) (?D a b 0)" by (simp add: diff_def)
    show ?thesis unfolding D
      by (rule delivers_weaken [OF ordered]) (use assms k 3 in \<open>auto simp: diff_result_def\<close>)
  qed
qed

lemma quorem_sub_ok:
  assumes "unat q < 65536" "unat w \<le> 1" "unat carry < 65536" "length ss \<le> length bs"
  shows "length (quorem_sub q w carry bs ss) = length bs \<and> drop (length ss) (quorem_sub q w carry bs ss) = drop (length ss) bs \<and>
    (\<exists>v. wval (take (length ss) (quorem_sub q w carry bs ss)) + (unat q * wval ss + unat carry + unat w) =
      wval (take (length ss) bs) + 2 ^ (32 * length ss) * v)"
  using assms
proof (induction q w carry bs ss rule: quorem_sub.induct)
  case (1 q w carry b bs s ss)
  let ?ys = "(s AND 0xffff) * q + carry"
  let ?zs = "drop_bit 16 s * q + drop_bit 16 ?ys"
  let ?y = "(b AND 0xffff) - (?ys AND 0xffff) - w"
  let ?z = "drop_bit 16 b - (?zs AND 0xffff) - borrow_of ?y"
  note m = word_times_half [OF "1.prems"(1,3), of s 0, unfolded zero_and_eq drop_bit_of_0 add_0_right unsigned_0]
  have h: "unat (b AND 0xffff) < 65536" "unat (drop_bit 16 b) < 65536" "unat (?ys AND 0xffff) < 65536" "unat (?zs AND 0xffff) < 65536"
    by (simp_all add: lo16 hi16 lo_hi)
  have prod: "unat (?ys AND 0xffff) + 65536 * unat (?zs AND 0xffff) = unat (storeinc ?zs ?ys)"
    by (simp add: unat_storeinc lo16)
  have bw: "unat (b AND 0xffff) + 65536 * unat (drop_bit 16 b) = unat b" by (simp only: lo16 hi16 lo_hi(1))
  note s = sub_halves [OF h "1.prems"(2), unfolded prod bw]
  let ?r = "quorem_sub q (borrow_of ?z) (drop_bit 16 ?zs) bs ss"
  obtain v where ih: "length ?r = length bs" "drop (length ss) ?r = drop (length ss) bs"
    "wval (take (length ss) ?r) + (unat q * wval ss + unat (drop_bit 16 ?zs) + unat (borrow_of ?z)) =
      wval (take (length ss) bs) + 2 ^ (32 * length ss) * v"
    using "1.IH" [OF refl refl refl refl "1.prems"(1) s(2) m(2)] "1.prems"(4) by auto
  let ?R = "wval (take (length ss) ?r)"
  have "unat (storeinc ?z ?y) + 2 ^ 32 * ?R + (unat q * (unat s + 2 ^ 32 * wval ss) + unat carry + unat w) =
      unat (storeinc ?z ?y) + (unat s * unat q + unat carry) + unat w + 2 ^ 32 * (?R + unat q * wval ss)"
    by (simp only: algebra_simps)
  also have "\<dots> = unat (storeinc ?z ?y) + unat (storeinc ?zs ?ys) + unat w + 2 ^ 32 * (?R + unat q * wval ss + unat (drop_bit 16 ?zs))"
    unfolding m(1) [symmetric] by (simp only: algebra_simps)
  also have "\<dots> = unat b + 2 ^ 32 * (?R + (unat q * wval ss + unat (drop_bit 16 ?zs) + unat (borrow_of ?z)))"
    unfolding s(1) by (simp only: algebra_simps)
  also have "\<dots> = unat b + 2 ^ 32 * wval (take (length ss) bs) + 2 ^ (32 * length (s # ss)) * v"
    unfolding ih(3) by (simp add: power_add algebra_simps)
  finally show ?case using ih(1,2) by (auto simp: Let_def)
qed auto


lemma quorem_trim_ok:
  assumes "n \<le> length xs"
  shows "quorem_trim xs n \<le> n" "wval (take (quorem_trim xs n) xs) = wval (take n xs)" "0 < n \<Longrightarrow> 0 < quorem_trim xs n"
    "1 < quorem_trim xs n \<Longrightarrow> xs ! (quorem_trim xs n - 1) \<noteq> 0"
  using assms by (induction xs n rule: quorem_trim.induct) (auto simp: take_Suc_conv_app_nth wval_append)

lemma quorem2_trim_eq: "quorem2_trim xs n = quorem_trim xs n"
  by (induction xs n rule: quorem2_trim.induct) simp_all

lemma trimmed_norm:
  assumes "bshape b" "n \<le> length (bg_x b)"
  defines "c \<equiv> b\<lparr>bg_wds := quorem_trim (bg_x b) n\<rparr>"
  shows "bval c = wval (take n (bg_x b))" "bg_wds c \<le> n" "0 < n \<Longrightarrow> bnorm c"
  using assms quorem_trim_ok [OF assms(2)] by (auto simp: c_def bval_def bnorm_def bnum_def bshape_def)

text \<open>One subtraction of \<open>q * S\<close> with its trimming.\<close>

definition reduced :: "bigint \<Rightarrow> nat \<Rightarrow> bigint \<Rightarrow> bool" where
  "reduced b n c \<longleftrightarrow> bshape c \<and> bg_wds c \<le> n \<and> (1 < n \<or> 0 < bval c \<longrightarrow> bnorm c) \<and> bg_k c = bg_k b"

lemma sub_trim_ok:
  assumes "bshape b" "bg_wds b = Suc n" "Suc n \<le> 2 ^ bg_k b" "length sx = Suc n" "unat q < 65536" "unat q * wval sx \<le> bval b"
  defines "x \<equiv> quorem_sub q 0 0 (bg_x b) sx"
  defines "c \<equiv> (if x ! n = 0 then b\<lparr>bg_x := x, bg_wds := quorem_trim x n\<rparr> else b\<lparr>bg_x := x\<rparr>)"
  shows "reduced b (Suc n) c \<and> bval c = bval b - unat q * wval sx \<and> (x ! n = 0 \<longleftrightarrow> bg_wds c \<noteq> Suc n)"
proof -
  have lb: "length sx \<le> length (bg_x b)" using assms(1,3,4) by (simp add: bshape_def)
  obtain v where v: "wval (take (Suc n) x) + unat q * wval sx = bval b + 2 ^ (32 * Suc n) * v" and l: "length x = length (bg_x b)"
    using quorem_sub_ok [of q 0 0 sx "bg_x b"] lb assms(2,4,5) by (auto simp: x_def bval_def)
  have "wval (take (Suc n) x) < 2 ^ (32 * Suc n)"
    using wval_less [of "take (Suc n) x"] l lb assms(4) by (simp add: min_absorb2)
  then have val: "wval (take (Suc n) x) = bval b - unat q * wval sx" by (rule no_borrow [OF v assms(6)])
  have nl: "n < length x" using l lb assms(4) by simp
  have sh: "bshape (b\<lparr>bg_x := x\<rparr>)" using assms(1) l by (simp add: bshape_def)
  show ?thesis
  proof (cases "x ! n = 0")
    case True
    have top: "wval (take n x) = wval (take (Suc n) x)" using nl True by (simp add: take_Suc_conv_app_nth wval_append)
    have "n \<le> length (bg_x (b\<lparr>bg_x := x\<rparr>))" using nl by simp
    note t = trimmed_norm [OF sh this, simplified]
    have c: "c = b\<lparr>bg_x := x, bg_wds := quorem_trim x n\<rparr>" using True by (simp add: c_def)
    have pos: "0 < n" if "0 < bval c" using that t(1) by (cases n) (simp_all add: c)
    show ?thesis using t top val True sh pos by (auto simp: reduced_def c bshape_def)
  next
    case False
    have c: "c = b\<lparr>bg_x := x\<rparr>" using False by (simp add: c_def)
    have "bnorm c" using sh False assms(1-3) by (simp add: c bnorm_def bnum_def bshape_def)
    then show ?thesis using False val assms(2) sh by (simp add: reduced_def c bval_def)
  qed
qed

lemma estimate:
  fixes b s q bt st p :: nat
  assumes "bt * p \<le> b" "b < (bt + 1) * p" "st * p \<le> s" "s < (st + 1) * p" "q = bt div (st + 1)" "b div s \<le> st" "0 < s"
  shows "q * s \<le> b" "b div s \<le> q + 1"
proof -
  have "q * s \<le> q * ((st + 1) * p)" using assms(4) by (intro mult_le_mono2) simp
  also have "\<dots> = q * (st + 1) * p" by (rule mult.assoc [symmetric])
  also have "\<dots> \<le> bt * p" using assms(5) by (intro mult_le_mono1) (metis div_times_less_eq_dividend)
  finally show "q * s \<le> b" using assms(1) by simp
  show "b div s \<le> q + 1"
  proof (rule ccontr)
    assume "\<not> b div s \<le> q + 1"
    then have q2: "q + 2 \<le> b div s" by simp
    have "(q + 2) * st * p \<le> (q + 2) * s" unfolding mult.assoc using assms(3) by (rule mult_le_mono2)
    also have "\<dots> \<le> b div s * s" using q2 by (rule mult_le_mono1)
    also have "\<dots> \<le> b" by (rule div_times_less_eq_dividend)
    finally have lo: "(q + 2) * st * p \<le> b" .
    have "bt < (q + 1) * (st + 1)" unfolding assms(5) using dividend_less_div_times [of "st + 1" bt] by (simp add: algebra_simps)
    then have "(bt + 1) * p \<le> (q + 1) * (st + 1) * p" by (intro mult_le_mono1) simp
    then have "(q + 2) * st * p < (q + 1) * (st + 1) * p" using lo assms(2) by linarith
    then have "(q + 2) * st < (q + 1) * (st + 1)" by (simp only: mult_less_cancel2)
    then have "st < q + 1" by (simp add: algebra_simps)
    then show False using q2 assms(6) by simp
  qed
qed

lemma top_word:
  assumes "bnum b" "bg_wds b = Suc n"
  shows "unat (bg_x b ! n) * 2 ^ (32 * n) \<le> bval b" "bval b < (unat (bg_x b ! n) + 1) * 2 ^ (32 * n)"
proof -
  have l: "n < length (bg_x b)" using bnumD [OF assms(1)] assms(2) by simp
  have v: "bval b = wval (take n (bg_x b)) + 2 ^ (32 * n) * unat (bg_x b ! n)"
    using l assms(2) by (simp add: bval_def take_Suc_conv_app_nth wval_append)
  show "unat (bg_x b ! n) * 2 ^ (32 * n) \<le> bval b" by (simp add: v)
  show "bval b < (unat (bg_x b ! n) + 1) * 2 ^ (32 * n)"
    using wval_less [of "take n (bg_x b)"] l by (simp add: v min_absorb2)
qed

lemma quorem_ok:
  assumes "bnorm b" "bnorm S" "bg_wds b \<le> bg_wds S" "0 < bval S" "unat (bg_x S ! (bg_wds S - 1)) < 2 ^ 31"
    "bval b div bval S \<le> unat (bg_x S ! (bg_wds S - 1))" "bval b div bval S < 65536"
  shows "case quorem b S of (q, c) \<Rightarrow> unat q = bval b div bval S \<and> bval c = bval b mod bval S \<and>
    reduced b (bg_wds S) c"
proof (cases "bg_wds b < bg_wds S")
  case True
  then have "bval b < bval S" using more_words [OF assms(2) bnormD [OF assms(1)]] by simp
  then show ?thesis using True assms(1) by (simp add: quorem_def reduced_def bnorm_def bnum_def)
next
  case False
  obtain n where n: "bg_wds S = Suc n" "bg_wds b = Suc n"
    using False assms(3) bnumD [OF bnormD [OF assms(2)]] by (cases "bg_wds S") auto
  have b: "bnum b" "bshape b" "Suc n \<le> 2 ^ bg_k b" "bg_maxwds b = 2 ^ bg_k b" using bnumD [OF bnormD [OF assms(1)]] assms(1) n by (simp_all add: bnorm_def)
  have S: "bnum S" "length (words S) = Suc n" "wval (words S) = bval S"
    using bnum_words [OF bnormD [OF assms(2)]] assms(2) n by (simp_all add: bnorm_def)
  let ?st = "bg_x S ! n"
  let ?q = "(bg_x b ! n) div (?st + 1)"
  have st: "unat (?st + 1) = unat ?st + 1" using assms(5) n by (simp add: unat_add_exact)
  have q: "unat ?q = unat (bg_x b ! n) div (unat ?st + 1)" by (simp only: unat_div_distrib st)
  note e = estimate [OF top_word [OF b(1) n(2)] top_word [OF S(1) n(1)] q _ assms(4)]
  have e: "unat ?q * bval S \<le> bval b" "bval b div bval S \<le> unat ?q + 1" using e assms(6) n by simp_all
  then have q': "unat ?q \<le> bval b div bval S" using assms(4) by (simp add: less_eq_div_iff_mult_less_eq)
  define r where "r = (if ?q \<noteq> 0 then
        let x = quorem_sub ?q 0 0 (bg_x b) (words S); b = b\<lparr>bg_x := x\<rparr>
        in if x ! n = 0 then let m = quorem_trim x n in (b\<lparr>bg_wds := m\<rparr>, m) else (b, n)
      else (b, n))"
  obtain c m where cm: "r = (c, m)" by fastforce
  have c: "reduced b (Suc n) c" "bval c = bval b - unat ?q * bval S" "m = n \<or> bg_wds c \<noteq> Suc n"
  proof -
    have "reduced b (Suc n) c \<and> bval c = bval b - unat ?q * bval S \<and> (m = n \<or> bg_wds c \<noteq> Suc n)"
    proof (cases "?q = 0")
      case True
      then show ?thesis using cm assms(1) n b by (simp add: r_def reduced_def bnorm_def)
    next
      case False
      have q64: "unat ?q < 65536" using q' assms(7) by linarith
      note t = sub_trim_ok [OF b(2) n(2) b(3) S(2) q64 e(1) [folded S(3)]]
      show ?thesis using t cm False S(3) unfolding r_def Let_def by (auto split: if_splits)
    qed
    then show "reduced b (Suc n) c" "bval c = bval b - unat ?q * bval S" "m = n \<or> bg_wds c \<noteq> Suc n" by simp_all
  qed
  have Q: "quorem b S = (if 0 \<le> cmp c S then let x = quorem_sub 1 0 0 (bg_x c) (words S); c = c\<lparr>bg_x := x\<rparr>
               in (?q + 1, if x ! m = 0 then c\<lparr>bg_wds := quorem_trim x m\<rparr> else c)
             else (?q, c))"
  proof -
    have sx: "take (bg_wds S) (bg_x S) = words S" "bg_wds S - 1 = n" using n by (simp_all add: words_def)
    show ?thesis using False cm unfolding quorem_def Let_def sx r_def [unfolded Let_def] by simp
  qed
  have cq: "bval c = bval b - unat ?q * bval S" by (rule c(2))
  consider "bg_wds c \<noteq> Suc n \<or> bval c < bval S" | "bg_wds c = Suc n" "bval S \<le> bval c" by linarith
  then show ?thesis
  proof cases
    case 1
    have small: "bval c < bval S \<and> cmp c S < 0"
    proof (cases "bg_wds c = Suc n")
      case False
      then have w: "bg_wds c < bg_wds S" using c(1) n by (simp add: reduced_def)
      have "bval c < bval S"
      proof (cases "bval c = 0")
        case False
        then have "bnum c" using c(1) by (simp add: reduced_def bnorm_def)
        then show ?thesis using more_words [OF assms(2)] w by simp
      qed (use assms(4) in simp)
      then show ?thesis using w by (simp add: cmp_def)
    next
      case True
      then have lt: "bval c < bval S" using 1 by simp
      have "bnorm c"
      proof (cases "1 < Suc n \<or> 0 < bval c")
        case False
        then show ?thesis using c(1) True by (simp add: reduced_def bnorm_def bnum_def bshape_def)
      qed (use c(1) in \<open>simp add: reduced_def\<close>)
      then show ?thesis using lt cmp_ok(1) [of c S] assms(2) by (simp add: sgn_if split: if_splits)
    qed
    have "bval S * unat ?q = unat ?q * bval S" by (rule mult.commute)
    then have "bval S * unat ?q \<le> bval b" "bval b < bval S * Suc (unat ?q)"
      using e(1) cq small unfolding mult_Suc_right by linarith+
    then have "bval b div bval S = unat ?q" by (rule div_nat_eqI)
    moreover have "bval c = bval b mod bval S" unfolding cq calculation [symmetric] by (rule minus_div_mult_eq_mod)
    ultimately show ?thesis using small c(1) n by (simp add: Q)
  next
    case 2
    have m: "m = n" using 2 c(3) by simp
    have "0 < bval c" using 2 assms(4) by simp
    then have cn: "bnorm c" using c(1) by (simp add: reduced_def)
    then have ge: "0 \<le> cmp c S" using cmp_ok(1) [of c S] assms(2) 2 by (simp add: sgn_if split: if_splits)
    have k: "bg_k c = bg_k b" "bshape c" using c(1) by (simp_all add: reduced_def)
    have one: "unat (1::u32) < 65536" "unat (1::u32) * wval (words S) \<le> bval c" using 2 S(3) by simp_all
    note t = sub_trim_ok [OF k(2) 2(1) _ S(2) one, unfolded k(1)]
    have bS: "bval b = bval c + unat ?q * bval S" using cq e(1) by simp
    have lt: "bval c - bval S < bval S"
    proof -
      have "bval b div bval S = bval c div bval S + unat ?q" unfolding bS using assms(4) by simp
      then have "bval c div bval S \<le> 1" using e(2) by simp
      then have "bval c < 2 * bval S" using assms(4) by (simp add: less_mult_imp_div_less div_less_iff_less_mult
            flip: less_Suc_eq_le)
      then show ?thesis using 2 by simp
    qed
    have quo: "bval b div bval S = unat ?q + 1"
      using bS lt 2(2) by (intro div_nat_eqI) (simp_all add: algebra_simps)
    have "unat (?q + 1) = unat ?q + 1" using quo assms(7) by (simp add: unat_add_exact)
    moreover have "bval c - bval S = bval b mod bval S"
      using bS quo 2(2) minus_div_mult_eq_mod [of "bval b" "bval S"] by (simp add: algebra_simps)
    ultimately show ?thesis using t ge quo b(3) n S(3) k(1) unfolding Q m
      by (auto simp: Let_def reduced_def split: if_splits)
  qed
qed


lemma unat_low_mask: "k < 32 \<Longrightarrow> unat (x AND (push_bit k 1 - 1) :: u32) = unat x mod 2 ^ k"
proof -
  have "x AND (push_bit k 1 - 1) = take_bit k x" by (simp add: take_bit_eq_mask mask_eq_exp_minus_1 push_bit_eq_mult)
  then show ?thesis by (simp only: unsigned_take_bit_eq) (simp only: take_bit_eq_mod)
qed

lemma quorem2_ok:
  assumes "bnorm b" "bval b < 2 ^ (32 + k)"
  shows "case quorem2 b k of (q, c) \<Rightarrow> unat q = bval b div 2 ^ k \<and> bval c = bval b mod 2 ^ k \<and> bnorm c"
proof -
  let ?n = "k div 32" and ?r = "k mod 32"
  have b: "bnum b" "1 \<le> bg_wds b" "bg_wds b \<le> length (bg_x b)" "bshape b"
    using bnumD [OF bnormD [OF assms(1)]] bnormD [OF assms(1)] by simp_all
  have k: "k = 32 * ?n + ?r" "?r < 32" by simp_all
  show ?thesis
  proof (cases "bg_wds b \<le> ?n")
    case True
    have "bval b < 2 ^ (32 * bg_wds b)" by (rule bval_bounds(1) [OF b(1)])
    also have "\<dots> \<le> 2 ^ k" using True by (intro power_increasing) simp_all
    finally show ?thesis using True assms(1) by (simp add: quorem2_def Let_def)
  next
    case False
    define L where "L = wval (take ?n (bg_x b))"
    define c where "c = unat (bg_x b ! ?n)"
    define m where "m = (bg_x b ! ?n) AND (push_bit ?r 1 - 1)"
    define d where "d = (if bg_wds b = Suc (Suc ?n) then bg_x b ! Suc ?n else 0)"
    have L: "L < 2 ^ (32 * ?n)" using wval_less [of "take ?n (bg_x b)"] False b(3) by (simp add: L_def min_absorb2)
    have w: "bg_wds b \<le> Suc (Suc ?n)"
    proof (rule ccontr)
      assume "\<not> bg_wds b \<le> Suc (Suc ?n)"
      then have "32 + k \<le> 32 * (bg_wds b - 1)" and "1 < bg_wds b" using k by simp_all
      then have "(2::nat) ^ (32 + k) \<le> 2 ^ (32 * (bg_wds b - 1))" "2 ^ (32 * (bg_wds b - 1)) \<le> bval b"
        using bval_bounds(2) [OF b(1)] assms(1) by (auto simp: bnorm_def intro!: power_increasing)
      then show False using assms(2) by linarith
    qed
    have v: "bval b = L + 2 ^ (32 * ?n) * (c + 2 ^ 32 * unat d)"
    proof (cases "bg_wds b = Suc (Suc ?n)")
      case True
      then show ?thesis using b(3) by (simp add: bval_def L_def c_def d_def take_Suc_conv_app_nth wval_append power_add algebra_simps)
    next
      case F: False
      then have "bg_wds b = Suc ?n" using w False by simp
      then show ?thesis using b(3) by (simp add: bval_def L_def c_def d_def take_Suc_conv_app_nth wval_append)
    qed
    have p: "(2::nat) ^ k = 2 ^ (32 * ?n) * 2 ^ ?r" by (subst k(1)) (simp only: power_add)
    have "2 ^ (32 * ?n) * (c + 2 ^ 32 * unat d) < 2 ^ (32 * ?n) * (2 ^ 32 * 2 ^ ?r)"
      using assms(2) unfolding v power_add [of 2 32 k] p by (simp only: ac_simps)
    then have "c + 2 ^ 32 * unat d < 2 ^ 32 * 2 ^ ?r" by (simp only: nat_mult_less_cancel_disj)
    then have "2 ^ 32 * unat d < 2 ^ 32 * 2 ^ ?r" by (rule le_less_trans [OF le_add2])
    then have d: "unat d < 2 ^ ?r" by (simp only: mult_less_cancel1)
    have div_k: "bval b div 2 ^ k = (c + 2 ^ 32 * unat d) div 2 ^ ?r"
      unfolding p div_mult2_eq v using L by simp
    have split: "(2::nat) ^ 32 * unat d = 2 ^ ?r * (2 ^ (32 - ?r) * unat d)"
      unfolding mult.assoc [symmetric] power_add [symmetric] using k(2) by simp
    have quo: "bval b div 2 ^ k = c div 2 ^ ?r + 2 ^ (32 - ?r) * unat d"
      unfolding div_k split by (simp add: div_mult_self2)
    have rem: "bval b mod 2 ^ k = L + 2 ^ (32 * ?n) * (c mod 2 ^ ?r)"
    proof -
      have "(c + 2 ^ 32 * unat d) mod 2 ^ ?r = c mod 2 ^ ?r" unfolding split by simp
      then show ?thesis unfolding p mod_mult2_eq v using L by simp
    qed
    define q where "q = (if bg_wds b - ?n = 2 \<and> ?r \<noteq> 0 then drop_bit ?r (bg_x b ! ?n) OR push_bit (32 - ?r) (bg_x b ! (?n + 1))
        else drop_bit ?r (bg_x b ! ?n))"
    have q: "unat q = c div 2 ^ ?r + 2 ^ (32 - ?r) * unat d"
    proof (cases "bg_wds b - ?n = 2 \<and> ?r \<noteq> 0")
      case True
      then have "bg_wds b = Suc (Suc ?n)" by linarith
      then have dd: "bg_x b ! (?n + 1) = d" by (simp add: d_def)
      have s: "0 < 32 - ?r" "32 - ?r < 32" "32 - (32 - ?r) = ?r" using True k(2) by simp_all
      have "unat d * 2 ^ (32 - ?r) < 2 ^ ?r * 2 ^ (32 - ?r)" using d by simp
      also have "(2::nat) ^ ?r * 2 ^ (32 - ?r) = 2 ^ 32" using k(2) by (simp flip: power_add)
      finally have "unat d * 2 ^ (32 - ?r) mod 2 ^ 32 = unat d * 2 ^ (32 - ?r)" by simp
      then show ?thesis using unat_shl_or [OF s(1,2), of d "bg_x b ! ?n"] True
        unfolding q_def dd s(3) c_def by (simp add: or.commute ac_simps)
    next
      case F: False
      have "unat d = 0"
      proof (cases "?r = 0")
        case False
        then show ?thesis using F w by (auto simp: d_def)
      qed (use d in simp)
      then show ?thesis using F by (simp add: q_def c_def unat_shr)
    qed
    define x where "x = (bg_x b)[?n := m]"
    have um: "unat m = c mod 2 ^ ?r" unfolding m_def c_def by (rule unat_low_mask) (rule k(2))
    have l: "Suc ?n \<le> length x" using False b(3) by (simp add: x_def)
    have "take (Suc ?n) x = take ?n (bg_x b) @ [m]" using l by (simp add: x_def take_Suc_conv_app_nth)
    then have xv: "wval (take (Suc ?n) x) = L + 2 ^ (32 * ?n) * (c mod 2 ^ ?r)"
      using l by (simp add: wval_append L_def um x_def min_absorb2)
    have sh: "bshape (b\<lparr>bg_x := x\<rparr>)" using b(4) by (simp add: bshape_def x_def)
    note t = trimmed_norm [OF sh, of "Suc ?n", simplified, OF l]
    have Q: "quorem2 b k = (q, b\<lparr>bg_x := x, bg_wds := quorem_trim x (Suc ?n)\<rparr>)"
      using False unfolding quorem2_def Let_def q_def x_def m_def quorem2_trim_eq by simp
    show ?thesis unfolding Q using t quo rem q xv by simp
  qed
qed

lemma divrem_loop_ok:
  assumes "0 < unat v" "unat v \<le> 65536" "unat r < unat v" "divrem_loop v r xs = (qs, r')"
  shows "length qs = length xs \<and> unat r' < unat v \<and>
    wval (rev xs) + 2 ^ (32 * length xs) * unat r = wval (rev qs) * unat v + unat r'"
  using assms(3,4)
proof (induction xs arbitrary: r qs r')
  case (Cons a xs)
  have half: "unat q < 65536 \<and> unat rm < unat v \<and> unat e = unat q * unat v + unat rm"
    if "unat r < unat v" "unat h < 65536" "e = push_bit 16 r OR h" "q = e div v" "rm = e - q * v" for r h e q rm :: u32
  proof -
    have e: "unat e = unat r * 65536 + unat h" using that(1-3) assms(2) unat_join16 [of r h] by simp
    have q: "unat q = unat e div unat v" by (simp only: that(4) unat_div_distrib)
    have "unat e < unat v * 65536" using that(1,2) e by (simp add: Suc_le_eq [symmetric] mult_le_mono)
    then have q16: "unat q < 65536" unfolding q by (simp add: less_mult_imp_div_less mult.commute)
    have le: "unat q * unat v \<le> unat e" unfolding q by (rule div_times_less_eq_dividend)
    have "unat (q * v) = unat q * unat v" using le unat_u32 [of e] by (simp add: unat_word_ariths)
    then have "unat rm = unat e - unat q * unat v" using le that(5) by (simp add: unat_sub word_le_nat_alt)
    then have "unat rm = unat e mod unat v" unfolding q by (simp add: minus_div_mult_eq_mod)
    then show ?thesis using q16 assms(1) le \<open>unat rm = unat e - unat q * unat v\<close> by simp
  qed
  define e1 where "e1 = push_bit 16 r OR drop_bit 16 a"
  define q1 where "q1 = e1 div v"
  define r1 where "r1 = e1 - q1 * v"
  define e2 where "e2 = push_bit 16 r1 OR (a AND 0xFFFF)"
  define q2 where "q2 = e2 div v"
  define r2 where "r2 = e2 - q2 * v"
  note s1 = half [OF Cons.prems(1) _ e1_def q1_def r1_def, simplified hi16, OF lo_hi(2)]
  have lo: "unat (a AND 0xFFFF) < 65536" by (simp add: lo16)
  note s2 = half [OF _ lo e2_def q2_def r2_def] 
  have e1: "unat e1 = unat r * 65536 + unat a div 65536" and e2: "unat e2 = unat r1 * 65536 + unat a mod 65536"
    using unat_join16 [of r "drop_bit 16 a"] unat_join16 [of r1 "a AND 0xFFFF"] s1 Cons.prems(1) assms(2)
    by (simp_all add: e1_def e2_def hi16 lo16 lo_hi)
  obtain ps where ps: "divrem_loop v r2 xs = (ps, r')" "qs = (push_bit 16 q1 OR q2) # ps"
    using Cons.prems(2) by (auto simp: Let_def e1_def q1_def r1_def e2_def q2_def r2_def split: prod.splits)
  have s2: "unat q2 < 65536" "unat r2 < unat v" "unat e2 = unat q2 * unat v + unat r2" using s1 s2 by simp_all
  note ih = Cons.IH [OF s2(2) ps(1)]
  have qw: "unat (push_bit 16 q1 OR q2) = unat q1 * 65536 + unat q2" using unat_join16 [of q1 q2] s1 s2 by simp
  have "unat a + 2 ^ 32 * unat r = 65536 * unat e1 + unat a mod 65536"
    using lo_hi(1) [of a] by (simp add: e1)
  also have "\<dots> = 65536 * (unat q1 * unat v) + unat e2" using s1 by (simp add: e2)
  also have "\<dots> = (unat q1 * 65536 + unat q2) * unat v + unat r2" using s2(3) by (simp add: algebra_simps)
  finally have step: "unat a + 2 ^ 32 * unat r = (unat q1 * 65536 + unat q2) * unat v + unat r2" .
  have "wval (rev (a # xs)) + 2 ^ (32 * length (a # xs)) * unat r =
      wval (rev xs) + 2 ^ (32 * length xs) * (unat a + 2 ^ 32 * unat r)"
    by (simp add: wval_append power_add algebra_simps)
  also have "\<dots> = (wval (rev xs) + 2 ^ (32 * length xs) * unat r2) + 2 ^ (32 * length xs) * (unat q1 * 65536 + unat q2) * unat v"
    unfolding step by (simp add: algebra_simps)
  also have "\<dots> = wval (rev qs) * unat v + unat r'"
    using ih by (simp add: ps(2) wval_append qw algebra_simps)
  finally show ?case using ih by (simp add: ps(2))
qed simp

lemma divrem_ok:
  assumes "bshape b" "bg_wds b \<le> bg_maxwds b" "bg_wds b = 0 \<or> bnorm b" "0 < unat v" "unat v \<le> 65536"
  shows "case divrem b v of (r, c) \<Rightarrow> bval c = bval b div unat v \<and> unat r = bval b mod unat v \<and> bshape c \<and>
    bg_wds c \<le> bg_maxwds c \<and> (bg_wds c = 0 \<or> bnorm c)"
proof (cases "bg_wds b")
  case 0
  then show ?thesis using assms by (simp add: divrem_def bval_def)
next
  case (Suc n)
  then have b: "bnorm b" "bnum b" using assms(3) by (simp_all add: bnorm_def)
  note d = bnumD [OF b(2)] bnum_words [OF b(2)]
  obtain qs r where qr: "divrem_loop v 0 (rev (words b)) = (qs, r)" by fastforce
  note l = divrem_loop_ok [OF assms(4,5) _ qr]
  have l: "length qs = Suc n" "unat r < unat v" "bval b = wval (rev qs) * unat v + unat r" using l assms(4) d Suc by simp_all
  define x where "x = rev qs @ drop (Suc n) (bg_x b)"
  define c where "c = b\<lparr>bg_x := x, bg_wds := (if x ! n = 0 then n else Suc n)\<rparr>"
  have D: "divrem b v = (r, c)"
    using qr Suc unfolding divrem_def Let_def words_def c_def x_def by simp
  have quo: "wval (rev qs) = bval b div unat v" "unat r = bval b mod unat v" using l(2,3) by simp_all
  have sh: "bshape c" using d l(1) Suc by (simp add: c_def x_def bshape_def)
  have tk: "take (Suc n) x = rev qs" "length x = 2 ^ bg_k b" using l(1) d Suc by (simp_all add: x_def)
  have cv: "bval c = wval (rev qs)"
  proof (cases "x ! n = 0")
    case True
    have "take (Suc n) x = take n x @ [0]" using True tk(2) d Suc by (simp add: take_Suc_conv_app_nth)
    then show ?thesis using True by (simp add: c_def bval_def tk(1) [symmetric] wval_append)
  qed (simp add: c_def bval_def tk(1))
  have "bg_wds c = 0 \<or> bnorm c"
  proof (cases "bg_wds c = 0")
    case False
    then have cn: "bnum c" using sh d Suc by (simp add: bnum_def bshape_def c_def)
    show ?thesis
    proof (cases "x ! n = 0")
      case False
      then show ?thesis using cn by (simp add: bnorm_def c_def)
    next
      case True
      then have w: "bg_wds c = n" "0 < n" using False by (simp_all add: c_def)
      have "bnorm c"
      proof (rule bnormI [OF cn])
        have "2 ^ (32 * n) \<le> bval b" using bval_bounds(2) [OF b(2)] b(1) w Suc by (simp add: bnorm_def)
        also have "\<dots> < (wval (rev qs) + 1) * unat v" using l(2,3) by simp
        also have "\<dots> \<le> (wval (rev qs) + 1) * 2 ^ 32" using assms(5) by (intro mult_le_mono2) simp
        also have "(2::nat) ^ (32 * n) = 2 ^ (32 * (n - 1)) * 2 ^ 32" using w(2) by (cases n) (simp_all add: power_add)
        finally have "2 ^ (32 * (n - 1)) * 2 ^ 32 < (wval (rev qs) + 1) * (2 ^ 32 :: nat)" .
        then have "2 ^ (32 * (n - 1)) < wval (rev qs) + 1" by (simp only: mult_less_cancel2)
        then show "2 ^ (32 * (bg_wds c - 1)) \<le> bval c" using cv w by simp
      qed
      then show ?thesis by simp
    qed
  qed simp
  then show ?thesis unfolding D using cv quo sh d Suc by (simp add: c_def)
qed


section \<open>Conversions\<close>

definition digit :: "char \<Rightarrow> bool" where
  "digit c \<longleftrightarrow> 48 \<le> ordc c \<and> ordc c \<le> 57"

text \<open>The number that the decimal digits \<open>cs\<close> continue from \<open>v\<close>.\<close>

definition decimal :: "nat \<Rightarrow> string \<Rightarrow> nat" where
  "decimal v cs = foldl (\<lambda>v c. 10 * v + (ordc c - 48)) v cs"

lemma decimal_simps [simp]: "decimal v [] = v" "decimal v (c # cs) = decimal (10 * v + (ordc c - 48)) cs"
  "decimal v (cs @ ds) = decimal (decimal v cs) ds"
  by (simp_all add: decimal_def)

lemma decimal_less: "\<forall>c \<in> set cs. digit c \<Longrightarrow> decimal v cs < (v + 1) * 10 ^ length cs"
proof (induction cs arbitrary: v)
  case (Cons c cs)
  have "decimal v (c # cs) < (10 * v + (ordc c - 48) + 1) * 10 ^ length cs" using Cons by simp
  also have "\<dots> \<le> (10 * v + 10) * 10 ^ length cs" using Cons.prems by (intro mult_le_mono1) (auto simp: digit_def)
  finally show ?case by (simp add: algebra_simps)
qed simp

lemma s2b_k_eq: "s2b_k k x = lshift_k x (2 ^ k) k"
proof (induction k x rule: s2b_k.induct)
  case (1 k x)
  then show ?case by (subst s2b_k.simps, subst lshift_k.simps) simp
qed

lemma unat_digit: "digit c \<Longrightarrow> unat (of_nat (ordc c) - 48 :: u32) = ordc c - 48"
proof -
  assume c: "digit c"
  have o: "unat (of_nat (ordc c) :: u32) = ordc c" by (rule unat_word32) (rule less_trans [OF ord_less], simp)
  show ?thesis using c o by (simp add: unat_sub word_le_nat_alt digit_def)
qed

lemma s2b_digits_ok:
  assumes "dtoa_ok st" "bnum b" "bg_k b = K" "n \<le> length s" "\<forall>c \<in> set (take n s). digit c"
    "(bval b + 1) * 10 ^ n \<le> 2 ^ (32 * 2 ^ K)"
  shows "delivers st (s2b_digits n s b st) (\<lambda>(c, r) st'. bnum c \<and> bg_k c = K \<and> bval c = decimal (bval b) (take n s) \<and> r = drop n s)"
  using assms
proof (induction n s b st rule: s2b_digits.induct)
  case (1 s b st)
  then show ?case by (simp add: delivers_Inr keeps_refl)
next
  case (2 n b st)
  then show ?case by simp
next
  case (3 n c s b st)
  have c: "digit c" using "3.prems"(5) by simp
  let ?a = "of_nat (ordc c) - 48 :: u32"
  have a: "unat ?a = ordc c - 48" "ordc c - 48 < 10" using unat_digit [OF c] c unfolding digit_def by linarith+
  have v: "(10 * bval b + (ordc c - 48) + 1) * 10 ^ n \<le> 2 ^ (32 * 2 ^ K)"
  proof -
    have "(10 * bval b + (ordc c - 48) + 1) * 10 ^ n \<le> (10 * bval b + 10) * 10 ^ n" using a by (intro mult_le_mono1) simp
    also have "\<dots> = (bval b + 1) * 10 ^ Suc n" by (simp add: algebra_simps)
    finally show ?thesis using "3.prems"(6) by simp
  qed
  have "(10 * bval b + (ordc c - 48) + 1) * 1 \<le> (10 * bval b + (ordc c - 48) + 1) * 10 ^ n" by (intro mult_le_mono2) simp
  then have small: "bval b * unat (10::u32) + unat ?a < 2 ^ (32 * 2 ^ K)" using v a by simp
  have "K \<le> Kmax" using bnumD [OF "3.prems"(2)] "3.prems"(3) by simp
  then have "(2::nat) ^ (32 * 2 ^ K) \<le> 2 ^ (32 * 2 ^ Kmax)" by (intro power_increasing mult_le_mono2) simp_all
  then have fits: "bval b * unat (10::u32) + unat ?a < 2 ^ (32 * 2 ^ Kmax)" using small by linarith
  have m: "delivers st (multadd b 10 ?a st) (\<lambda>c st'. multadd_result b 10 ?a c \<and> p5s st' = p5s st)"
    by (rule multadd_ok [OF "3.prems"(1,2)]) (use a fits in simp_all)
  show ?case unfolding s2b_digits.simps
  proof (rule delivers_on_ok [OF m])
    fix d st' assume d: "multadd_result b 10 ?a d \<and> p5s st' = p5s st" and kp: "keeps st st'"
    have d': "bnum d" "bval d = 10 * bval b + (ordc c - 48)" "bg_k d = K"
      using d small a "3.prems"(3) by (auto simp: multadd_result_def)
    show "delivers st (s2b_digits n s d st')
        (\<lambda>(e, r) st'. bnum e \<and> bg_k e = K \<and> bval e = decimal (bval b) (take (Suc n) (c # s)) \<and> r = drop (Suc n) (c # s))"
      using delivers_later [OF "3.IH" [OF keeps_ok [OF kp] d'(1,3)] kp] "3.prems"(4,5) v d'(2) by simp
  qed simp
qed

lemma billion: "(10::nat) ^ 9 \<le> 2 ^ 32"
  by simp

lemma s2b_ok:
  assumes "dtoa_ok st" "\<forall>c \<in> set (ip @ fp). digit c" "length (ip @ fp) \<le> 9 * 2 ^ Kmax" "fp = [] \<or> s = ip @ pt # fp" "fp = [] \<longrightarrow> s = ip @ pt'"
    "unat y9 = decimal 0 (take 9 (ip @ fp))"
  shows "delivers st (s2b s (length ip) (length (ip @ fp)) y9 st) (\<lambda>b st'. bnum b \<and> bval b = decimal 0 (ip @ fp))"
proof -
  let ?nd = "length (ip @ fp)"
  let ?k = "s2b_k 0 ((?nd + 8) div 9)"
  have x: "(?nd + 8) div 9 \<le> 2 ^ Kmax" using less_mult_imp_div_less [of "?nd + 8" "2 ^ Kmax + 1" 9] assms(3) by simp
  have k: "(?nd + 8) div 9 \<le> 2 ^ ?k" "?k \<le> Kmax" using lshift_k_bound [of 0 "(?nd + 8) div 9"] x by (simp_all add: s2b_k_eq)
  have "?nd \<le> 9 * ((?nd + 8) div 9)" by (simp add: algebra_simps)
  then have nd: "?nd \<le> 9 * 2 ^ ?k" using k(1) by simp
  have room: "(unat y9 + 1) * 10 ^ (?nd - 9) \<le> 2 ^ (32 * 2 ^ ?k)"
  proof -
    have d: "\<forall>c \<in> set (take 9 (ip @ fp)). digit c" using assms(2) by (meson in_set_takeD)
    have "unat y9 + 1 \<le> 10 ^ min ?nd 9" using decimal_less [OF d, of 0] unfolding length_take assms(6)
      by (simp only: add_0_left mult_1_left Suc_eq_plus1 [symmetric] Suc_le_eq)
    then have "(unat y9 + 1) * 10 ^ (?nd - 9) \<le> 10 ^ min ?nd 9 * 10 ^ (?nd - 9)" by (rule mult_le_mono1)
    also have "\<dots> = 10 ^ ?nd" by (simp only: power_add [symmetric]) (simp add: min_def)
    also have "\<dots> \<le> (10::nat) ^ (9 * 2 ^ ?k)" using nd by (intro power_increasing) simp_all
    also have "\<dots> = (10 ^ 9) ^ (2 ^ ?k)" by (rule power_mult)
    also have "\<dots> \<le> (2 ^ 32) ^ (2 ^ ?k)" by (intro power_mono billion) simp
    also have "\<dots> = 2 ^ (32 * 2 ^ ?k)" by (rule power_mult [symmetric])
    finally show ?thesis .
  qed
  show ?thesis unfolding s2b_def
  proof (rule delivers_on_ok [OF Balloc_ok [OF assms(1) k(2)]])
    fix e st' assume e: "bshape e \<and> bg_k e = ?k \<and> bg_wds e = 0 \<and> bg_sign e = 0 \<and> p5s st' = p5s st" and kp: "keeps st st'"
    let ?b = "e\<lparr>bg_x := (bg_x e)[0 := y9], bg_wds := 1\<rparr>"
    have b: "bnum ?b" "bval ?b = unat y9" "bg_k ?b = ?k" using one_word_ok [of e ?b y9] e by (simp_all add: bnorm_def)
    have st': "dtoa_ok st'" using kp by (rule keeps_ok)
    show "delivers st (let b = ?b in if 9 < length ip
            then on_ok (s2b_digits (length ip - 9) (drop 9 s) b st') (\<lambda>st. st)
                   (\<lambda>(b, s) st. on_ok (s2b_digits (?nd - length ip) (drop 1 s) b st) (\<lambda>st. st) (\<lambda>(b, s) st. (Inr b, st)))
            else on_ok (s2b_digits (?nd - 9) (drop 10 s) b st') (\<lambda>st. st) (\<lambda>(b, s) st. (Inr b, st)))
          (\<lambda>b st'. bnum b \<and> bval b = decimal 0 (ip @ fp))"
    proof (cases "9 < length ip")
      case True
      have s: "take (length ip - 9) (drop 9 s) = drop 9 ip" "length ip \<le> length s"
        "fp \<noteq> [] \<Longrightarrow> drop 1 (drop (length ip - 9) (drop 9 s)) = fp" using True assms(4,5) by auto
      have p10: "(unat y9 + 1) * 10 ^ (length ip - 9) * 10 ^ length fp \<le> 2 ^ (32 * 2 ^ ?k)"
      proof -
        have "(10::nat) ^ (?nd - 9) = 10 ^ (length ip - 9) * 10 ^ length fp" using True by (simp flip: power_add)
        then show ?thesis using room unfolding mult.assoc by (simp only:)
      qed
      have "(unat y9 + 1) * 10 ^ (length ip - 9) * 1 \<le> (unat y9 + 1) * 10 ^ (length ip - 9) * 10 ^ length fp"
        by (intro mult_le_mono2) simp
      then have room1: "(bval ?b + 1) * 10 ^ (length ip - 9) \<le> 2 ^ (32 * 2 ^ ?k)" using p10
        unfolding b(2) mult_1_right by (rule le_trans)
      have dg: "\<forall>c \<in> set (drop 9 ip). digit c" "\<forall>c \<in> set fp. digit c" using assms(2) by (auto dest: in_set_dropD)
      have first: "delivers st' (s2b_digits (length ip - 9) (drop 9 s) ?b st')
         (\<lambda>(c, r) st'. bnum c \<and> bg_k c = ?k \<and> bval c = decimal (bval ?b) (take (length ip - 9) (drop 9 s)) \<and> r = drop (length ip - 9) (drop 9 s))"
        by (rule s2b_digits_ok [OF st' b(1,3)]) (use s dg room1 True in auto)
      have "delivers st' (on_ok (s2b_digits (length ip - 9) (drop 9 s) ?b st') (\<lambda>st. st)
                   (\<lambda>(b, s) st. on_ok (s2b_digits (?nd - length ip) (drop 1 s) b st) (\<lambda>st. st) (\<lambda>(b, s) st. (Inr b, st))))
          (\<lambda>b st'. bnum b \<and> bval b = decimal 0 (ip @ fp))"
      proof (rule delivers_on_ok [OF first])
        fix p st'' assume "(\<lambda>(c, r) (st' :: dtoa). bnum c \<and> bg_k c = ?k \<and> bval c = decimal (bval ?b) (take (length ip - 9) (drop 9 s)) \<and>
            r = drop (length ip - 9) (drop 9 s)) p st''"
          and kp': "keeps st' st''"
        then obtain c r where p: "p = (c, r)" "bnum c" "bg_k c = ?k" "bval c = decimal (unat y9) (drop 9 ip)" "r = drop (length ip - 9) (drop 9 s)"
          using s(1) b(2) by (cases p) auto
        have l9: "length (drop 9 ip) = length ip - 9" by simp
        have "bval c + 1 \<le> (unat y9 + 1) * 10 ^ (length ip - 9)" using decimal_less [OF dg(1), of "unat y9"] unfolding p(4) l9 by simp
        then have "(bval c + 1) * 10 ^ length fp \<le> (unat y9 + 1) * 10 ^ (length ip - 9) * 10 ^ length fp" by (rule mult_le_mono1)
        then have room2: "(bval c + 1) * 10 ^ length fp \<le> 2 ^ (32 * 2 ^ ?k)" using p10 by linarith
        have fpl: "fp = take (length fp) (drop 1 r)" "length fp \<le> length (drop 1 r)" using s(3) p(5) by (cases "fp = []"; simp)+
        have snd: "delivers st'' (s2b_digits (length fp) (drop 1 r) c st'')
           (\<lambda>(d, t) st'. bnum d \<and> bg_k d = ?k \<and> bval d = decimal (bval c) (take (length fp) (drop 1 r)) \<and> t = drop (length fp) (drop 1 r))"
          by (rule s2b_digits_ok [OF keeps_ok [OF kp'] p(2,3)]) (use fpl dg(2) room2 in auto)
        have tot: "decimal (bval c) fp = decimal 0 (ip @ fp)"
        proof -
          have "ip = take 9 ip @ drop 9 ip" by simp
          then have "decimal 0 ip = decimal (decimal 0 (take 9 ip)) (drop 9 ip)" by (metis decimal_simps(3))
          then show ?thesis using True assms(6) p(4) by simp
        qed
        have "delivers st'' (on_ok (s2b_digits (length fp) (drop 1 r) c st'') (\<lambda>st. st) (\<lambda>(b, s) st. (Inr b, st)))
          (\<lambda>b st'. bnum b \<and> bval b = decimal 0 (ip @ fp))"
          by (rule delivers_on_ok [OF snd]) (use tot fpl(1) in \<open>auto intro!: delivers_Inr\<close>)
        then show "delivers st' ((\<lambda>(b, s) st. on_ok (s2b_digits (?nd - length ip) (drop 1 s) b st) (\<lambda>st. st) (\<lambda>(b, s) st. (Inr b, st))) p st'')
          (\<lambda>b st'. bnum b \<and> bval b = decimal 0 (ip @ fp))"
          unfolding p(1) using delivers_later [OF _ kp'] by simp
      qed simp
      from delivers_later [OF this kp] show ?thesis by (simp only: Let_def True if_True)
    next
      case False
      have d10: "take (?nd - 9) (drop 10 s) = drop 9 (ip @ fp)" "?nd - 9 \<le> length (drop 10 s)"
      proof -
        have "drop 10 s = drop 9 (ip @ fp)" if "fp \<noteq> []"
          using that False assms(4) by (simp add: Suc_diff_le numeral_eq_Suc)
        moreover have "length ip - 9 = 0" using False by simp
        ultimately show "take (?nd - 9) (drop 10 s) = drop 9 (ip @ fp)" "?nd - 9 \<le> length (drop 10 s)"
          using False by (cases "fp = []"; simp)+
      qed
      have dg: "\<forall>c \<in> set (drop 9 (ip @ fp)). digit c" using assms(2) by (meson in_set_dropD)
      have first: "delivers st' (s2b_digits (?nd - 9) (drop 10 s) ?b st')
         (\<lambda>(c, r) st'. bnum c \<and> bg_k c = ?k \<and> bval c = decimal (bval ?b) (take (?nd - 9) (drop 10 s)) \<and> r = drop (?nd - 9) (drop 10 s))"
        by (rule s2b_digits_ok [OF st' b(1,3) d10(2)]) (use d10 dg room b(2) in simp_all)
      have tot: "decimal (unat y9) (drop 9 (ip @ fp)) = decimal 0 (ip @ fp)"
        unfolding assms(6) decimal_simps(3) [symmetric] by (simp only: append_take_drop_id)
      have "delivers st' (on_ok (s2b_digits (?nd - 9) (drop 10 s) ?b st') (\<lambda>st. st) (\<lambda>(b, s) st. (Inr b, st)))
          (\<lambda>b st'. bnum b \<and> bval b = decimal 0 (ip @ fp))"
        by (rule delivers_on_ok [OF first]) (use tot d10(1) b(2) in \<open>auto intro!: delivers_Inr\<close>)
      from delivers_later [OF this kp] show ?thesis by (simp only: Let_def False if_False)
    qed
  qed simp
qed


lemma and_high: "x AND NOT (mask j) = 0 \<longleftrightarrow> unat (x :: u32) < 2 ^ j"
proof -
  have "x AND NOT (mask j) = push_bit j (drop_bit j x)" by (rule bit_word_eqI) (auto simp: bit_simps)
  also have "\<dots> = 0 \<longleftrightarrow> drop_bit j x = 0"
  proof
    assume "push_bit j (drop_bit j x) = 0"
    then have b: "\<not> bit x (j + n)" if "j + n < 32" for n using that by (auto simp: bit_eq_iff bit_simps dest: spec [of _ "j + n"])
    have "\<not> bit x (j + n)" for n using b [of n] u32_beyond [of "j + n" x] by linarith
    then show "drop_bit j x = 0" by (intro bit_word_eqI) (simp add: bit_drop_bit_eq)
  qed simp
  also have "\<dots> \<longleftrightarrow> unat (drop_bit j x) = 0" by (simp add: unat_eq_zero)
  also have "\<dots> \<longleftrightarrow> unat x < 2 ^ j" by (simp only: unat_shr) (simp add: div_eq_0_iff)
  finally show ?thesis .
qed

lemma and_low: "x AND mask j = 0 \<longleftrightarrow> 2 ^ j dvd unat (x :: u32)"
proof -
  have "x AND mask j = 0 \<longleftrightarrow> unat (take_bit j x) = 0" by (simp add: take_bit_eq_mask unat_eq_zero)
  also have "\<dots> \<longleftrightarrow> 2 ^ j dvd unat x" by (simp only: unsigned_take_bit_eq) (simp add: take_bit_eq_mod dvd_eq_mod_eq_0)
  finally show ?thesis .
qed

lemma high_masks: "(0xffff0000 :: u32) = NOT (mask 16)" "(0xff000000 :: u32) = NOT (mask 24)"
  "(0xf0000000 :: u32) = NOT (mask 28)" "(0xc0000000 :: u32) = NOT (mask 30)" "(0x80000000 :: u32) = NOT (mask 31)"
  by (simp_all add: mask_eq_exp_minus_1)

lemma low_masks: "(0xffff :: u32) = mask 16" "(0xff :: u32) = mask 8" "(0xf :: u32) = mask 4" "(3 :: u32) = mask 2"
  "(7 :: u32) = mask 3" "(1 :: u32) = mask 1"
  by (simp_all add: mask_eq_exp_minus_1)

lemma bit_odd: "bit x n \<longleftrightarrow> odd (unat (x :: u32) div 2 ^ n)"
  by (metis bit_iff_odd bit_unsigned_iff possible_bit_nat)

lemma and_two: "x AND 2 = 0 \<longleftrightarrow> even (unat (x :: u32) div 2)"
  using and_exp_eq_0_iff_not_bit [of x 1] bit_odd [of x 1] by simp

lemma hi0bits_step_ok:
  assumes "unat x = u * 2 ^ k" "0 < n" "2 * n \<le> 32" "x = 0 \<or> 2 ^ (32 - 2 * n) \<le> unat x"
  shows "case hi0bits_step (NOT (mask (32 - n))) n (k, x) of (k', x') \<Rightarrow>
    unat x' = u * 2 ^ k' \<and> (x' = 0 \<or> 2 ^ (32 - n) \<le> unat x') \<and> (x' = 0 \<longleftrightarrow> x = 0)"
proof (cases "unat x < 2 ^ (32 - n)")
  case True
  have "unat x * 2 ^ n < 2 ^ (32 - n) * 2 ^ n" using True by simp
  then have lt: "unat x * 2 ^ n < 2 ^ 32" using assms(3) by (simp flip: power_add)
  then have e: "unat (push_bit n x) = unat x * 2 ^ n" unfolding unat_shl by (rule mod_less)
  have "2 ^ (32 - n) \<le> unat x * 2 ^ n" if "x \<noteq> 0"
  proof -
    have "(2::nat) ^ (32 - n) = 2 ^ (32 - 2 * n) * 2 ^ n" using assms(3) by (simp flip: power_add)
    also have "\<dots> \<le> unat x * 2 ^ n" using assms(4) that by (intro mult_le_mono1) simp
    finally show ?thesis .
  qed
  moreover have "push_bit n x = 0 \<longleftrightarrow> x = 0" using e by (metis mult_eq_0_iff power_not_zero push_bit_of_0 unat_eq_zero zero_neq_numeral)
  ultimately show ?thesis using True e assms(1) by (auto simp: hi0bits_step_def and_high power_add)
next
  case False
  then show ?thesis using assms(1) by (simp add: hi0bits_step_def and_high)
qed

lemma hi0bits_ok:
  shows "hi0bits 0 = 32" "x \<noteq> 0 \<Longrightarrow> 2 ^ 31 \<le> unat x * 2 ^ hi0bits x" "x \<noteq> 0 \<Longrightarrow> unat x * 2 ^ hi0bits x < 2 ^ 32"
proof -
  show "hi0bits 0 = 32" by (simp add: hi0bits_def hi0bits_step_def)
  assume x: "x \<noteq> 0"
  obtain k1 x1 where s1: "hi0bits_step (NOT (mask 16)) 16 (0, x) = (k1, x1)" by fastforce
  obtain k2 x2 where s2: "hi0bits_step (NOT (mask 24)) 8 (k1, x1) = (k2, x2)" by fastforce
  obtain k3 x3 where s3: "hi0bits_step (NOT (mask 28)) 4 (k2, x2) = (k3, x3)" by fastforce
  obtain k4 x4 where s4: "hi0bits_step (NOT (mask 30)) 2 (k3, x3) = (k4, x4)" by fastforce
  have "1 \<le> unat x" using x by (simp add: Suc_le_eq unat_gt_0)
  then have 1: "unat x1 = unat x * 2 ^ k1" "2 ^ 16 \<le> unat x1" "x1 \<noteq> 0"
    using hi0bits_step_ok [of x "unat x" 0 16] s1 x by auto
  have 2: "unat x2 = unat x * 2 ^ k2" "2 ^ 24 \<le> unat x2" "x2 \<noteq> 0"
    using hi0bits_step_ok [of x1 "unat x" k1 8] s2 1 by auto
  have 3: "unat x3 = unat x * 2 ^ k3" "2 ^ 28 \<le> unat x3" "x3 \<noteq> 0"
    using hi0bits_step_ok [of x2 "unat x" k2 4] s3 2 by auto
  have 4: "unat x4 = unat x * 2 ^ k4" "2 ^ 30 \<le> unat x4" "x4 \<noteq> 0"
    using hi0bits_step_ok [of x3 "unat x" k3 2] s4 3 by auto
  have H: "hi0bits x = (if x4 AND NOT (mask 31) = 0 then if x4 AND 0x40000000 = 0 then 32 else k4 + 1 else k4)"
    unfolding hi0bits_def high_masks s1 s2 s3 s4 by simp
  have top: "x4 AND 0x40000000 \<noteq> 0" if "unat x4 < 2 ^ 31"
  proof
    assume z: "x4 AND 0x40000000 = 0"
    have "(0x40000000 :: u32) = 2 ^ 30" by simp
    then have "\<not> bit x4 30" using z and_exp_eq_0_iff_not_bit [of x4 30] by simp
    then have "even (unat x4 div 2 ^ 30)" by (simp only: bit_odd) simp
    moreover have "unat x4 div 2 ^ 30 = 1" using 4(2) that by (intro div_nat_eqI) simp_all
    ultimately show False by simp
  qed
  have res: "2 ^ 31 \<le> unat x * 2 ^ hi0bits x \<and> unat x * 2 ^ hi0bits x < 2 ^ 32"
  proof (cases "unat x4 < 2 ^ 31")
    case True
    then have "hi0bits x = k4 + 1" using top by (simp add: H and_high)
    then have "unat x * 2 ^ hi0bits x = 2 * unat x4" using 4(1) by simp
    then show ?thesis using True 4(2) by simp
  next
    case False
    then have "hi0bits x = k4" by (simp add: H and_high)
    then show ?thesis using False 4(1) unat_u32 [of x4] by simp
  qed
  then show "2 ^ 31 \<le> unat x * 2 ^ hi0bits x" "unat x * 2 ^ hi0bits x < 2 ^ 32" by simp_all
qed

lemma lo0bits_step_ok:
  assumes "unat y = unat x * 2 ^ k" "\<not> 2 ^ (2 * n) dvd unat x"
  shows "case lo0bits_step (mask n) n (k, x) of (k', x') \<Rightarrow> unat y = unat x' * 2 ^ k' \<and> \<not> 2 ^ n dvd unat x' \<and> k' \<le> k + n"
proof (cases "2 ^ n dvd unat x")
  case True
  then obtain v where v: "unat x = 2 ^ n * v" by (rule dvdE)
  then have d: "unat (drop_bit n x) = v" by (simp add: unat_shr)
  have "\<not> 2 ^ n dvd v"
  proof
    assume "2 ^ n dvd v"
    then have "2 ^ n * 2 ^ n dvd unat x" unfolding v by (rule mult_dvd_mono [OF dvd_refl])
    then show False using assms(2) by (simp add: mult_2 power_add)
  qed
  then show ?thesis using True assms(1) v d by (simp add: lo0bits_step_def and_low power_add)
next
  case False
  then show ?thesis using assms(1) by (simp add: lo0bits_step_def and_low)
qed

lemma lo0bits_small: "\<not> 2 ^ 3 dvd unat y \<Longrightarrow> lo0bits y = (if odd (unat y) then (0, y)
    else if odd (unat y div 2) then (1, drop_bit 1 y) else (2, drop_bit 2 y))"
  unfolding lo0bits_def low_masks and_low and_two by simp

lemma lo0bits_ok:
  shows "lo0bits 0 = (32, 0)" "y \<noteq> 0 \<Longrightarrow> case lo0bits y of (k, x) \<Rightarrow> unat y = unat x * 2 ^ k \<and> odd (unat x) \<and> k < 32"
proof -
  show "lo0bits 0 = (32, 0)" by (simp add: lo0bits_def lo0bits_step_def)
  assume y: "y \<noteq> 0"
  then have y0: "unat y \<noteq> 0" by (simp add: unat_eq_zero)
  have size: "k < 32" if "unat y = unat x * 2 ^ k" for x :: u32 and k
  proof (rule ccontr)
    assume "\<not> k < 32"
    then have "(2::nat) ^ 32 * 1 \<le> 2 ^ k * unat x" using that y0 by (intro mult_le_mono power_increasing) (auto simp: Suc_le_eq)
    then show False using that unat_u32 [of y] by (simp add: mult.commute)
  qed
  have fin: "case p of (k, x) \<Rightarrow> unat y = unat x * 2 ^ k \<and> odd (unat x) \<and> k < 32"
    if "p = (k, x)" "unat y = unat x * 2 ^ k" "odd (unat x)" for p :: "nat \<times> u32" and k x
    using that size by simp
  have shift: "unat y = unat (drop_bit k y) * 2 ^ k" if "2 ^ k dvd unat y" for k
    using that by (simp add: unat_shr)
  show "case lo0bits y of (k, x) \<Rightarrow> unat y = unat x * 2 ^ k \<and> odd (unat x) \<and> k < 32"
  proof (cases "2 ^ 3 dvd unat y")
    case False
    consider "odd (unat y)" | "2 ^ 1 dvd unat y" "\<not> 2 ^ 2 dvd unat y" | "2 ^ 2 dvd unat y" by fastforce
    then show ?thesis
    proof cases
      case 1
      have "lo0bits y = (0, y)" using 1 False by (simp add: lo0bits_small)
      then show ?thesis by (rule fin) (use 1 in simp_all)
    next
      case 2
      have "odd (unat y div 2)"
      proof
        assume "even (unat y div 2)"
        then have "2 * 2 dvd unat y" using 2(1) by (auto simp: dvd_def)
        then show False using 2(2) by (simp add: power2_eq_square)
      qed
      then have "lo0bits y = (1, drop_bit 1 y)" using 2 False by (simp add: lo0bits_small)
      moreover have "odd (unat (drop_bit 1 y))"
      proof
        assume "even (unat (drop_bit 1 y))"
        then have "2 * 2 dvd unat y" using shift [OF 2(1)] by (metis mult_dvd_mono dvd_refl power_one_right mult.commute)
        then show False using 2(2) by (simp add: power2_eq_square)
      qed
      ultimately show ?thesis using shift [OF 2(1)] fin [of "lo0bits y" 1 "drop_bit 1 y"] by simp
    next
      case 3
      have "even (unat y div 2)" using 3 by (auto simp: dvd_def)
      moreover have "2 dvd unat y" using 3 by (rule dvd_trans [rotated]) simp
      ultimately have "lo0bits y = (2, drop_bit 2 y)" using False by (simp add: lo0bits_small)
      moreover have "odd (unat (drop_bit 2 y))"
      proof
        assume "even (unat (drop_bit 2 y))"
        then have "2 * 2 ^ 2 dvd unat y" using shift [OF 3] by (metis mult_dvd_mono dvd_refl)
        then show False using False by (simp add: power3_eq_cube power2_eq_square)
      qed
      ultimately show ?thesis using shift [OF 3] fin [of "lo0bits y" 2 "drop_bit 2 y"] by simp
    qed
  next
    case True
    obtain k1 x1 where s1: "lo0bits_step (mask 16) 16 (0, y) = (k1, x1)" by fastforce
    obtain k2 x2 where s2: "lo0bits_step (mask 8) 8 (k1, x1) = (k2, x2)" by fastforce
    obtain k3 x3 where s3: "lo0bits_step (mask 4) 4 (k2, x2) = (k3, x3)" by fastforce
    obtain k4 x4 where s4: "lo0bits_step (mask 2) 2 (k3, x3) = (k4, x4)" by fastforce
    have "\<not> 2 ^ 32 dvd unat y" using y0 unat_u32 [of y] by (auto dest: dvd_imp_le)
    then have 1: "unat y = unat x1 * 2 ^ k1" "\<not> 2 ^ 16 dvd unat x1" using lo0bits_step_ok [of y y 0 16] s1 by simp_all
    have 2: "unat y = unat x2 * 2 ^ k2" "\<not> 2 ^ 8 dvd unat x2" using lo0bits_step_ok [of y x1 k1 8] s2 1 by simp_all
    have 3: "unat y = unat x3 * 2 ^ k3" "\<not> 2 ^ 4 dvd unat x3" using lo0bits_step_ok [of y x2 k2 4] s3 2 by simp_all
    have 4: "unat y = unat x4 * 2 ^ k4" "\<not> 2 ^ 2 dvd unat x4" using lo0bits_step_ok [of y x3 k3 2] s4 3 by simp_all
    have L: "lo0bits y = (if x4 AND mask 1 = 0 then
         if (if drop_bit 1 x4 = 0 then mask 1 else 0) AND mask 1 \<noteq> (0::u32) then (32, y) else (k4 + 1, drop_bit 1 x4) else (k4, x4))"
      using True unfolding lo0bits_def low_masks s1 s2 s3 s4 and_low by simp
    show ?thesis
    proof (cases "odd (unat x4)")
      case True
      then have "lo0bits y = (k4, x4)" using and_low [of x4 1] by (simp add: L)
      then show ?thesis by (rule fin) (use 4 True in simp_all)
    next
      case False
      then have e: "unat x4 = 2 * unat (drop_bit 1 x4)" by (simp add: unat_shr)
      have "drop_bit 1 x4 \<noteq> 0"
      proof
        assume "drop_bit 1 x4 = 0"
        then have "unat x4 = 0" using e by simp
        then show False using 4(2) by simp
      qed
      then have "lo0bits y = (k4 + 1, drop_bit 1 x4)" using False and_low [of x4 1] by (simp add: L)
      moreover have "odd (unat (drop_bit 1 x4))" using 4(2) e by (simp add: power2_eq_square)
      ultimately show ?thesis using 4(1) e fin [of "lo0bits y" "k4 + 1" "drop_bit 1 x4"] by simp
    qed
  qed
qed


definition d2b_exponent :: "u32 \<Rightarrow> nat" where
  "d2b_exponent d0 = unat d0 div 2 ^ 20 mod 2 ^ 11"

text \<open>The integer that the double's fraction, with the hidden bit of a normal number, stands for.\<close>

definition significand :: "u32 \<Rightarrow> u32 \<Rightarrow> nat" where
  "significand d0 d1 = (unat d0 mod 2 ^ 20 + (if d2b_exponent d0 \<noteq> 0 then 2 ^ 20 else 0)) * 2 ^ 32 + unat d1"

lemma unat_and_mask: "unat (x AND mask n :: u32) = unat x mod 2 ^ n"
  by (simp only: take_bit_eq_mask [symmetric] unsigned_take_bit_eq) (simp only: take_bit_eq_mod)

lemma d2b_fields:
  "unat (drop_bit 20 (d0 AND 0x7fffffff) :: u32) = d2b_exponent d0"
  "unat (d0 AND 0xfffff :: u32) = unat d0 mod 2 ^ 20"
  "unat ((d0 AND 0xfffff) OR 0x100000 :: u32) = unat d0 mod 2 ^ 20 + 2 ^ 20"
proof -
  have m: "(0x7fffffff :: u32) = mask 31" "(0xfffff :: u32) = mask 20" by (simp_all add: mask_eq_exp_minus_1)
  have "unat d0 mod 2 ^ 31 div 2 ^ 20 = unat d0 div 2 ^ 20 mod 2 ^ 11"
    using mod_mult2_eq [of "unat d0" "2 ^ 20" "2 ^ 11"] by (simp add: div_add1_eq)
  then show "unat (drop_bit 20 (d0 AND 0x7fffffff) :: u32) = d2b_exponent d0"
    unfolding m unat_shr unat_and_mask d2b_exponent_def .
  show f: "unat (d0 AND 0xfffff :: u32) = unat d0 mod 2 ^ 20" unfolding m by (rule unat_and_mask)
  have p: "(0x100000 :: u32) = push_bit 20 1" by (simp add: push_bit_eq_mult)
  have "(d0 AND mask 20) OR push_bit 20 1 = (d0 AND mask 20) + push_bit 20 1"
    by (rule disjunctive_add [symmetric]) (unfold bit_push_bit_iff bit_and_iff bit_mask_iff bit_1_iff, auto)
  moreover have "unat (d0 AND mask 20) + unat (push_bit 20 1 :: u32) < 2 ^ 32"
    using mod_less_divisor [of "2 ^ 20" "unat d0"] unfolding unat_and_mask by (simp add: push_bit_eq_mult)
  ultimately have "unat ((d0 AND mask 20) OR push_bit 20 1 :: u32) = unat (d0 AND mask 20) + unat (push_bit 20 1 :: u32)"
    by (simp only: unat_add_exact)
  then show "unat ((d0 AND 0xfffff) OR 0x100000 :: u32) = unat d0 mod 2 ^ 20 + 2 ^ 20"
    unfolding m p unat_and_mask by (simp add: push_bit_eq_mult)
qed

lemma two_words_ok:
  assumes "bshape b" "bg_k b = 1" "bg_x b' = (bg_x b)[0 := x0, 1 := x1]" "bg_k b' = 1" "bg_maxwds b' = bg_maxwds b"
    "bg_wds b' = (if x1 \<noteq> 0 then 2 else 1)"
  shows "bnorm b' \<and> bval b' = unat x0 + 2 ^ 32 * unat x1 \<and> bg_x b' = [x0, x1]"
proof -
  have "length (bg_x b) = Suc (Suc 0)" using assms(1,2) by (simp add: bshape_def)
  then obtain a c where "bg_x b = [a, c]" by (auto simp: length_Suc_conv)
  then show ?thesis using assms by (auto simp: bnorm_def bnum_def bshape_def bval_def)
qed

lemma shifted_words:
  fixes d1 y z :: u32
  assumes "d1 \<noteq> 0" "lo0bits d1 = (k, y)"
  defines "x0 \<equiv> (if k \<noteq> 0 then y OR push_bit (32 - k) z else y)" and "x1 \<equiv> (if k \<noteq> 0 then drop_bit k z else z)"
  shows "unat z * 2 ^ 32 + unat d1 = (unat x0 + 2 ^ 32 * unat x1) * 2 ^ k" "odd (unat x0)" "k < 32"
proof -
  have l: "unat d1 = unat y * 2 ^ k" "odd (unat y)" "k < 32" using lo0bits_ok(2) [OF assms(1)] assms(2) by simp_all
  show "k < 32" by (rule l(3))
  show "unat z * 2 ^ 32 + unat d1 = (unat x0 + 2 ^ 32 * unat x1) * 2 ^ k" and "odd (unat x0)"
  proof -
    have "unat z * 2 ^ 32 + unat d1 = (unat x0 + 2 ^ 32 * unat x1) * 2 ^ k \<and> odd (unat x0)"
    proof (cases "k = 0")
      case True
      then show ?thesis using l by (simp add: x0_def x1_def)
    next
      case False
      have y: "y = drop_bit k d1" using l(1) by (intro unsigned_word_eqI [where 'a = nat]) (simp add: unat_shr)
      have s: "0 < 32 - k" "32 - k < 32" "32 - (32 - k) = k" using False l(3) by simp_all
      have x0: "unat x0 = unat z * 2 ^ (32 - k) mod 2 ^ 32 + unat y"
        using unat_shl_or [OF s(1,2), of z d1] False unfolding s(3) x0_def y by (simp add: or.commute unat_shr)
      have x1: "unat x1 = unat z div 2 ^ k" using False by (simp add: x1_def unat_shr)
      have top: "unat z * 2 ^ (32 - k) = unat z div 2 ^ k * 2 ^ 32 + unat z * 2 ^ (32 - k) mod 2 ^ 32"
        using shl_top [of "32 - k" "unat z"] unfolding s(3) by simp
      have "unat x0 + 2 ^ 32 * unat x1 = unat z * 2 ^ (32 - k) + unat y" unfolding x0 x1 using top by (simp only: ac_simps)
      then have "(unat x0 + 2 ^ 32 * unat x1) * 2 ^ k = unat z * (2 ^ (32 - k) * 2 ^ k) + unat d1"
        by (simp only: distrib_right l(1) mult.assoc)
      also have "(2::nat) ^ (32 - k) * 2 ^ k = 2 ^ 32" using l(3) by (simp flip: power_add)
      finally have v: "unat z * 2 ^ 32 + unat d1 = (unat x0 + 2 ^ 32 * unat x1) * 2 ^ k" by (simp only:)
      have "even (unat z * 2 ^ (32 - k) mod 2 ^ 32)" using s(1) by (subst dvd_mod_iff) simp_all
      then show ?thesis using v l(2) unfolding x0 by simp
    qed
    then show "unat z * 2 ^ 32 + unat d1 = (unat x0 + 2 ^ 32 * unat x1) * 2 ^ k" "odd (unat x0)" by simp_all
  qed
qed

text \<open>
  The result of \<^verbatim>\<open>d2b\<close>: an odd integer, the exponent with which it is the double's
  magnitude \<open>significand * 2 ^ (max de 1 - 1075)\<close>, and its number of bits.
\<close>

definition d2b_result :: "u32 \<Rightarrow> u32 \<Rightarrow> bigint \<times> int \<times> int \<Rightarrow> bool" where
  "d2b_result d0 d1 r \<longleftrightarrow> (case r of (b, e, bits) \<Rightarrow> bnorm b \<and> odd (bval b) \<and>
     significand d0 d1 = bval b * 2 ^ nat (e - (int (max (d2b_exponent d0) 1) - 1075)) \<and>
     int (max (d2b_exponent d0) 1) - 1075 \<le> e \<and>
     0 < bits \<and> 2 ^ nat (bits - 1) \<le> bval b \<and> bval b < 2 ^ nat bits)"

lemma d2b_bits_normal:
  fixes s v k :: nat
  assumes "s = v * 2 ^ k" "2 ^ 52 \<le> s" "s < 2 ^ 53" "odd v"
  shows "k \<le> 52" "2 ^ (52 - k) \<le> v" "v < 2 ^ (53 - k)"
proof -
  have v: "1 \<le> v" using assms(4) by (cases v) auto
  show k: "k \<le> 52"
  proof (rule ccontr)
    assume "\<not> k \<le> 52"
    then have "1 * 2 ^ 53 \<le> v * 2 ^ k" using v by (intro mult_le_mono power_increasing) simp_all
    then show False using assms(1,3) by simp
  qed
  have "(2::nat) ^ 52 = 2 ^ (52 - k) * 2 ^ k" "(2::nat) ^ 53 = 2 ^ (53 - k) * 2 ^ k" using k by (simp_all flip: power_add)
  then have "2 ^ (52 - k) * 2 ^ k \<le> v * 2 ^ k" "v * 2 ^ k < 2 ^ (53 - k) * 2 ^ k" using assms(1-3) by simp_all
  then show "2 ^ (52 - k) \<le> v" "v < 2 ^ (53 - k)" by simp_all
qed

lemma d2b_bits_denormal:
  assumes "bnum b" "bg_x b ! (bg_wds b - 1) \<noteq> 0"
  defines "h \<equiv> hi0bits (bg_x b ! (bg_wds b - 1))"
  shows "h < 32 * bg_wds b" "2 ^ (32 * bg_wds b - h - 1) \<le> bval b" "bval b < 2 ^ (32 * bg_wds b - h)"
proof -
  obtain n where n: "bg_wds b = Suc n" using bnumD [OF assms(1)] by (cases "bg_wds b") auto
  let ?t = "unat (bg_x b ! n)"
  have t: "2 ^ 31 \<le> ?t * 2 ^ h" "?t * 2 ^ h < 2 ^ 32" using hi0bits_ok(2,3) [OF assms(2)] n by (simp_all add: h_def)
  have h: "h < 32"
  proof (rule ccontr)
    assume "\<not> h < 32"
    moreover have "1 \<le> ?t" using assms(2) n by (simp add: Suc_le_eq unat_gt_0)
    ultimately have "1 * 2 ^ 32 \<le> ?t * 2 ^ h" by (intro mult_le_mono power_increasing) simp_all
    then show False using t(2) by simp
  qed
  then show "h < 32 * bg_wds b" using n by simp
  have p: "(2::nat) ^ 31 = 2 ^ (31 - h) * 2 ^ h" "(2::nat) ^ 32 = 2 ^ (32 - h) * 2 ^ h" using h by (simp_all flip: power_add)
  have "2 ^ (31 - h) * 2 ^ h \<le> ?t * 2 ^ h" "?t * 2 ^ h < 2 ^ (32 - h) * 2 ^ h" using t unfolding p by -
  then have t2: "2 ^ (31 - h) \<le> ?t" "?t < 2 ^ (32 - h)" by simp_all
  note w = top_word [OF assms(1) n]
  have "(2::nat) ^ (32 * bg_wds b - h - 1) = 2 ^ (31 - h) * 2 ^ (32 * n)" using h n by (simp flip: power_add)
  also have "\<dots> \<le> ?t * 2 ^ (32 * n)" using t2(1) by (rule mult_le_mono1)
  finally show "2 ^ (32 * bg_wds b - h - 1) \<le> bval b" using w(1) by simp
  have "(?t + 1) * 2 ^ (32 * n) \<le> 2 ^ (32 - h) * 2 ^ (32 * n)" using t2(2) by (intro mult_le_mono1) simp
  also have "\<dots> = 2 ^ (32 * bg_wds b - h)" using h n by (simp flip: power_add)
  finally show "bval b < 2 ^ (32 * bg_wds b - h)" using w(2) by simp
qed


text \<open>The number \<open>b\<close>, the count \<open>i\<close> of its words and the shift \<open>k\<close>, as \<^verbatim>\<open>d2b\<close> finds them.\<close>

lemma d2b_number:
  assumes "bshape b" "bg_k b = 1" "significand d0 d1 \<noteq> 0"
  defines "z \<equiv> (if d2b_exponent d0 \<noteq> 0 then (d0 AND 0xfffff) OR 0x100000 else d0 AND 0xfffff)"
  assumes "(if d1 \<noteq> 0 then
                  let (k, y) = lo0bits d1;
                      (x0, z) = (if k \<noteq> 0 then (y OR push_bit (32 - k) z, drop_bit k z) else (y, z));
                      i = (if z \<noteq> 0 then 2 else 1)
                  in (b\<lparr>bg_x := (bg_x b)[0 := x0, 1 := z], bg_wds := i\<rparr>, i, k)
                else
                  let (k, z) = lo0bits z
                  in (b\<lparr>bg_x := (bg_x b)[0 := z], bg_wds := 1\<rparr>, 1, k + 32)) = (c, i, k)"
  shows "bnorm c \<and> odd (bval c) \<and> significand d0 d1 = bval c * 2 ^ k \<and> i = bg_wds c \<and> bg_x c ! (i - 1) \<noteq> 0"
proof -
  have z: "significand d0 d1 = unat z * 2 ^ 32 + unat d1"
    unfolding significand_def z_def using d2b_fields(2,3) [of d0] by simp
  show ?thesis
  proof (cases "d1 = 0")
    case False
    obtain k' y where l: "lo0bits d1 = (k', y)" by fastforce
    let ?x0 = "if k' \<noteq> 0 then y OR push_bit (32 - k') z else y"
    let ?x1 = "if k' \<noteq> 0 then drop_bit k' z else z"
    have c: "c = b\<lparr>bg_x := (bg_x b)[0 := ?x0, 1 := ?x1], bg_wds := (if ?x1 \<noteq> 0 then 2 else 1)\<rparr>"
      "i = (if ?x1 \<noteq> 0 then 2 else 1)" "k = k'"
      using assms(5) False l by (auto simp: Let_def split: if_splits)
    note s = shifted_words(1,2) [OF False l, of z]
    have "bnorm c \<and> bval c = unat ?x0 + 2 ^ 32 * unat ?x1 \<and> bg_x c = [?x0, ?x1]"
      by (rule two_words_ok [OF assms(1,2)]) (use assms(2) in \<open>simp_all add: c\<close>)
    moreover have "?x0 \<noteq> 0" using s(2) by (intro notI) simp
    ultimately show ?thesis using s z c by (auto simp: c(2))
  next
    case True
    then have nz: "z \<noteq> 0" using assms(3) z by (intro notI) simp
    obtain k' y where l: "lo0bits z = (k', y)" by fastforce
    then have y: "unat z = unat y * 2 ^ k'" "odd (unat y)" using lo0bits_ok(2) [OF nz] by simp_all
    have c: "c = b\<lparr>bg_x := (bg_x b)[0 := y], bg_wds := 1\<rparr>" "i = 1" "k = k' + 32"
      using assms(5) True l by auto
    have v: "bnorm c \<and> bval c = unat y \<and> bg_k c = bg_k b" by (rule one_word_ok [OF assms(1)]) (simp_all add: c)
    have "bg_x b \<noteq> []" using assms(1) by (auto simp: bshape_def)
    then have "bg_x c ! 0 = y" by (cases "bg_x b") (simp_all add: c)
    moreover have "y \<noteq> 0" using y(2) by (intro notI) simp
    ultimately show ?thesis using v y z True by (simp add: c(2,3) power_add) (simp add: c)
  qed
qed

lemma d2b_ok:
  assumes "dtoa_ok st" "significand d0 d1 \<noteq> 0"
  shows "delivers st (d2b d0 d1 st) (\<lambda>r st'. d2b_result d0 d1 r \<and> p5s st' = p5s st)"
  unfolding d2b_def
proof (rule delivers_on_ok [OF Balloc_ok [OF assms(1)]])
  fix b st' assume b: "bshape b \<and> bg_k b = 1 \<and> bg_wds b = 0 \<and> bg_sign b = 0 \<and> p5s st' = p5s st" and kp: "keeps st st'"
  define z where "z = (if d2b_exponent d0 \<noteq> 0 then (d0 AND 0xfffff) OR 0x100000 else d0 AND 0xfffff)"
  define t where "t = (if d1 \<noteq> 0 then
                  let (k, y) = lo0bits d1;
                      (x0, z) = (if k \<noteq> 0 then (y OR push_bit (32 - k) z, drop_bit k z) else (y, z));
                      i = (if z \<noteq> 0 then 2 else 1)
                  in (b\<lparr>bg_x := (bg_x b)[0 := x0, 1 := z], bg_wds := i\<rparr>, i, k)
                else
                  let (k, z) = lo0bits z
                  in (b\<lparr>bg_x := (bg_x b)[0 := z], bg_wds := 1\<rparr>, 1, k + 32))"
  obtain c i k where cik: "t = (c, i, k)" by (cases t) auto
  note n = d2b_number [OF conjunct1 [OF b] conjunct1 [OF conjunct2 [OF b]] assms(2), folded z_def, OF cik [unfolded t_def]]
  let ?de = "d2b_exponent d0"
  let ?r = "if ?de \<noteq> 0 then (c, int ?de - 1023 - (53 - 1) + int k, 53 - int k)
                  else (c, int ?de - 1023 - (53 - 1) + 1 + int k, 32 * int i - int (hi0bits (bg_x c ! (i - 1))))"
  have "d2b_result d0 d1 ?r"
  proof (cases "?de = 0")
    case True
    note dn = d2b_bits_denormal [of c]
    have h: "hi0bits (bg_x c ! (i - 1)) < 32 * i" "2 ^ (32 * i - hi0bits (bg_x c ! (i - 1)) - 1) \<le> bval c"
      "bval c < 2 ^ (32 * i - hi0bits (bg_x c ! (i - 1)))" using dn n by (auto simp: bnorm_def)
    have "nat (32 * int i - int (hi0bits (bg_x c ! (i - 1)))) = 32 * i - hi0bits (bg_x c ! (i - 1))"
      "nat (32 * int i - int (hi0bits (bg_x c ! (i - 1))) - 1) = 32 * i - hi0bits (bg_x c ! (i - 1)) - 1"
      using h(1) by simp_all
    then show ?thesis using True n h by (simp add: d2b_result_def)
  next
    case False
    have "unat d0 mod 2 ^ 20 < 2 ^ 20" by simp
    then have s: "2 ^ 52 \<le> significand d0 d1" "significand d0 d1 < 2 ^ 53" using False unat_u32 [of d1]
      by (simp_all add: significand_def)
    have "significand d0 d1 = bval c * 2 ^ k" "odd (bval c)" using n by simp_all
    note m = d2b_bits_normal [OF this(1) s this(2)]
    have e: "nat (53 - int k) = 53 - k" "nat (52 - int k) = 52 - k" using m(1) by simp_all
    show ?thesis using False n m by (simp add: d2b_result_def e)
  qed
  then have D: "d2b_result d0 d1 ?r \<and> p5s st' = p5s st" using b by simp
  have "delivers st (Inr ?r, st') (\<lambda>r st'. d2b_result d0 d1 r \<and> p5s st' = p5s st)"
    using kp D by (rule delivers_Inr)
  then show "delivers st (let z = d0 AND 0xfffff; d0 = d0 AND 0x7fffffff; de = unat (drop_bit 20 d0);
             z = (if de \<noteq> 0 then z OR 0x100000 else z);
             (b, i, k) =
               (if d1 \<noteq> 0 then
                  let (k, y) = lo0bits d1;
                      (x0, z) = (if k \<noteq> 0 then (y OR push_bit (32 - k) z, drop_bit k z) else (y, z));
                      i = (if z \<noteq> 0 then 2 else 1)
                  in (b\<lparr>bg_x := (bg_x b)[0 := x0, 1 := z], bg_wds := i\<rparr>, i, k)
                else
                  let (k, z) = lo0bits z
                  in (b\<lparr>bg_x := (bg_x b)[0 := z], bg_wds := 1\<rparr>, 1, k + 32))
         in (Inr (if de \<noteq> 0 then (b, int de - 1023 - (53 - 1) + int k, 53 - int k)
                  else (b, int de - 1023 - (53 - 1) + 1 + int k,
                        32 * int i - int (hi0bits (bg_x b ! (i - 1))))), st'))
      (\<lambda>r st'. d2b_result d0 d1 r \<and> p5s st' = p5s st)"
    unfolding Let_def [of "d0 AND 0xfffff"] Let_def [of "d0 AND 0x7fffffff"] d2b_fields(1)
      Let_def [of "d2b_exponent d0"] z_def [symmetric] Let_def [of z] t_def [symmetric] cik by simp
qed (simp_all add: Kmax_def)


section \<open>The properties\<close>

text \<open>Numbers of one word, and memory before the first call, for concrete runs.\<close>

definition one_word :: "u32 \<Rightarrow> bigint" where
  "one_word w = \<lparr>bg_k = 0, bg_maxwds = 1, bg_sign = 0, bg_wds = 1, bg_x = [w]\<rparr>"

definition initial :: "u32 list option list \<Rightarrow> dtoa" where
  "initial ms = \<lparr>freelist = replicate (Kmax + 1) [], mallocs = ms, p5s = []\<rparr>"

lemma one_word_norm [simp]: "bnorm (one_word w)" "bval (one_word w) = unat w" "bg_k (one_word w) = 0" "bg_wds (one_word w) = 1"
  by (simp_all add: one_word_def bnorm_def bnum_def bshape_def bval_def)

lemma initial_ok [simp]: "dtoa_ok (initial ms)"
  by (simp add: initial_def dtoa_ok_def del: replicate_Suc)

text \<open>
  C32: multadd, mult, pow5mult and lshift compute b*m+a, a*b, b*5^k and b*2^k on normal
  numbers, stay inside their arrays, leave valid numbers and valid memory, and fail only
  when an allocation fails; pow5mult does so whatever powers other threads store first.
\<close>

theorem bigint_arithmetic:
  assumes "dtoa_ok st" "bnorm a" "bnorm b" "rival_ok rival"
  shows "(unat m < 65536 \<and> unat d < 65536 \<and> bg_k b < Kmax \<longrightarrow>
      delivers st (multadd b m d st) (\<lambda>c st'. bnum c \<and> bval c = bval b * unat m + unat d)) \<and>
    (bg_k a < Kmax \<and> bg_k b < Kmax \<longrightarrow>
      delivers st (mult a b st) (\<lambda>c st'. bshape c \<and> (0 < bval c \<longrightarrow> bnorm c) \<and> bval c = bval a * bval b)) \<and>
    (0 < bval b \<and> k < 4 * 2 ^ n \<and> bg_k b + 1 + n \<le> Kmax \<longrightarrow>
      delivers st (pow5mult rival b k st) (\<lambda>c st'. bnorm c \<and> bval c = bval b * 5 ^ k)) \<and>
    (k div 32 + bg_wds b + 1 \<le> 2 ^ Kmax \<longrightarrow>
      delivers st (lshift b k st) (\<lambda>c st'. bnum c \<and> (0 < bval b \<longrightarrow> bnorm c) \<and> bval c = bval b * 2 ^ k))"
proof (intro conjI impI)
  assume "unat m < 65536 \<and> unat d < 65536 \<and> bg_k b < Kmax"
  then show "delivers st (multadd b m d st) (\<lambda>c st'. bnum c \<and> bval c = bval b * unat m + unat d)"
    by (intro delivers_weaken [OF multadd_ok [OF assms(1) bnormD [OF assms(3)]]]) (auto simp: multadd_result_def)
next
  assume "bg_k a < Kmax \<and> bg_k b < Kmax"
  then show "delivers st (mult a b st) (\<lambda>c st'. bshape c \<and> (0 < bval c \<longrightarrow> bnorm c) \<and> bval c = bval a * bval b)"
    by (intro delivers_weaken [OF mult_ok [OF assms(1) bnormD [OF assms(2)] bnormD [OF assms(3)]]]) (auto simp: mult_result_def)
next
  assume "0 < bval b \<and> k < 4 * 2 ^ n \<and> bg_k b + 1 + n \<le> Kmax"
  then show "delivers st (pow5mult rival b k st) (\<lambda>c st'. bnorm c \<and> bval c = bval b * 5 ^ k)"
    by (intro delivers_weaken [OF pow5mult_ok [OF assms(1,4,3), where n = n]]) (auto simp: power_result_def)
next
  assume "k div 32 + bg_wds b + 1 \<le> 2 ^ Kmax"
  then show "delivers st (lshift b k st) (\<lambda>c st'. bnum c \<and> (0 < bval b \<longrightarrow> bnorm c) \<and> bval c = bval b * 2 ^ k)"
    using assms(3) by (intro delivers_weaken [OF lshift_ok [OF assms(1) bnormD [OF assms(3)]]]) (auto simp: shift_result_def)
qed

lemma bigint_arithmetic_witness:
  "delivers (initial []) (multadd (one_word 0xffffffff) 10 7 (initial [])) (\<lambda>c st'. bnum c \<and> bval c = 42949672957) \<and>
   delivers (initial []) (mult (one_word 0xffffffff) (one_word 0xffffffff) (initial []))
     (\<lambda>c st'. bshape c \<and> (0 < bval c \<longrightarrow> bnorm c) \<and> bval c = 18446744065119617025) \<and>
   delivers (initial [Some [7, 7]]) (pow5mult (\<lambda>_. None) (one_word 3) 30 (initial [Some [7, 7]])) (\<lambda>c st'. bnorm c \<and> bval c = 3 * 5 ^ 30) \<and>
   delivers (initial []) (lshift (one_word 3) 70 (initial [])) (\<lambda>c st'. bnum c \<and> bnorm c \<and> bval c = 3 * 2 ^ 70)"
  using bigint_arithmetic [of "initial []" "one_word 0xffffffff" "one_word 0xffffffff" "\<lambda>_. None" 10 7 0 0]
    bigint_arithmetic [of "initial []" "one_word 3" "one_word 3" "\<lambda>_. None" 0 0 70 0]
    bigint_arithmetic [of "initial [Some [7, 7]]" "one_word 3" "one_word 3" "\<lambda>_. None" 0 0 30 3]
  by (simp add: rival_ok_def Kmax_def)

text \<open>
  cmp has the sign of the difference of two normal numbers, and diff gives its
  magnitude with the sign flag. When the numbers of words differ cmp returns their
  difference, not just -1 or 1 as its comment says.
\<close>

theorem bigint_difference:
  assumes "dtoa_ok st" "bnorm a" "bnorm b"
  shows "sgn (cmp a b) = sgn (int (bval a) - int (bval b)) \<and>
    (bg_wds a \<noteq> bg_wds b \<longrightarrow> cmp a b = int (bg_wds a) - int (bg_wds b)) \<and>
    delivers st (diff a b st) (\<lambda>c st'. bnorm c \<and> int (bval c) = \<bar>int (bval a) - int (bval b)\<bar> \<and>
      bg_sign c = (if bval a < bval b then 1 else 0))"
  using cmp_ok(1) [OF assms(2,3)] delivers_weaken [OF diff_ok [OF assms]]
  by (simp add: diff_result_def cmp_def)

lemma bigint_difference_witness:
  "sgn (cmp (one_word 3) (one_word 5)) = - 1 \<and>
   delivers (initial []) (diff (one_word 3) (one_word 5) (initial []))
     (\<lambda>c st'. bnorm c \<and> bval c = 2 \<and> bg_sign c = 1)"
proof -
  have "delivers (initial []) (diff (one_word 3) (one_word 5) (initial []))
     (\<lambda>c st'. bnorm c \<and> int (bval c) = \<bar>int (bval (one_word 3)) - int (bval (one_word 5))\<bar> \<and>
      bg_sign c = (if bval (one_word 3) < bval (one_word 5) then 1 else 0))"
    using bigint_difference [of "initial []" "one_word 3" "one_word 5"] by (simp only: initial_ok one_word_norm)
  then have "delivers (initial []) (diff (one_word 3) (one_word 5) (initial []))
     (\<lambda>c st'. bnorm c \<and> bval c = 2 \<and> bg_sign c = 1)"
    by (rule delivers_weaken) simp
  moreover have "sgn (cmp (one_word 3) (one_word 5)) = sgn (int (bval (one_word 3)) - int (bval (one_word 5)))"
    using bigint_difference [of "initial []" "one_word 3" "one_word 5"] by (simp only: initial_ok one_word_norm)
  ultimately show ?thesis by simp
qed

text \<open>
  C33: quorem, quorem2 and divrem return quotient and remainder. quorem needs more than its
  comment says: the leading word of S must be at least the quotient, for 35 divided by 1
  meets every restriction the comment lists and gives 18 with remainder 17.
\<close>

theorem bigint_division:
  assumes "bnorm b" "bnorm S" "0 < bval S"
  shows "(bg_wds b \<le> bg_wds S \<and> unat (bg_x S ! (bg_wds S - 1)) < 2 ^ 31 \<and>
      bval b div bval S < 36 \<and> bval b div bval S \<le> unat (bg_x S ! (bg_wds S - 1)) \<longrightarrow>
      (case quorem b S of (q, r) \<Rightarrow> unat q = bval b div bval S \<and> bval r = bval b mod bval S)) \<and>
    (bval b < 2 ^ (32 + k) \<longrightarrow>
      (case quorem2 b k of (q, r) \<Rightarrow> unat q = bval b div 2 ^ k \<and> bval r = bval b mod 2 ^ k \<and> bnorm r)) \<and>
    (0 < unat v \<and> unat v \<le> 65536 \<longrightarrow>
      (case divrem b v of (r, q) \<Rightarrow> bval q = bval b div unat v \<and> unat r = bval b mod unat v \<and> (bg_wds q = 0 \<or> bnorm q))) \<and>
    quorem (one_word 35) (one_word 1) = (18, one_word 17)"
proof (intro conjI impI)
  assume "bg_wds b \<le> bg_wds S \<and> unat (bg_x S ! (bg_wds S - 1)) < 2 ^ 31 \<and>
      bval b div bval S < 36 \<and> bval b div bval S \<le> unat (bg_x S ! (bg_wds S - 1))"
  then show "case quorem b S of (q, r) \<Rightarrow> unat q = bval b div bval S \<and> bval r = bval b mod bval S"
    using quorem_ok [OF assms(1,2) _ assms(3)] by auto
next
  assume "bval b < 2 ^ (32 + k)"
  then show "case quorem2 b k of (q, r) \<Rightarrow> unat q = bval b div 2 ^ k \<and> bval r = bval b mod 2 ^ k \<and> bnorm r"
    by (rule quorem2_ok [OF assms(1)])
next
  assume "0 < unat v \<and> unat v \<le> 65536"
  then show "case divrem b v of (r, q) \<Rightarrow> bval q = bval b div unat v \<and> unat r = bval b mod unat v \<and> (bg_wds q = 0 \<or> bnorm q)"
    using divrem_ok [of b v] assms(1) bnormD [OF assms(1)] by (auto simp: bnum_def)
next
  show "quorem (one_word 35) (one_word 1) = (18, one_word 17)" by code_simp
qed

lemma bigint_division_witness:
  "(case quorem (one_word 999) (one_word 100) of (q, r) \<Rightarrow> unat q = 9 \<and> bval r = 99) \<and>
   (case quorem2 (one_word 999) 3 of (q, r) \<Rightarrow> unat q = 124 \<and> bval r = 7 \<and> bnorm r) \<and>
   (case divrem (one_word 999) 10 of (r, q) \<Rightarrow> bval q = 99 \<and> unat r = 9 \<and> (bg_wds q = 0 \<or> bnorm q))"
  using bigint_division [of "one_word 999" "one_word 100" 3 10] by (simp add: one_word_def bval_def bnorm_def bnum_def bshape_def)

text \<open>
  C34: s2b gives the decimal value of digits with a point after the first of them, i2b a
  small integer, and d2b an odd integer with exponent and number of bits for every double
  that is finite and not zero.
\<close>

theorem bigint_conversions:
  assumes "dtoa_ok st"
  shows "((\<forall>c \<in> set (ip @ fp). digit c) \<and> length (ip @ fp) \<le> 9 * 2 ^ Kmax \<and> unat y9 = decimal 0 (take 9 (ip @ fp)) \<longrightarrow>
      delivers st (s2b (ip @ pt # fp) (length ip) (length (ip @ fp)) y9 st) (\<lambda>b st'. bnum b \<and> bval b = decimal 0 (ip @ fp))) \<and>
    delivers st (i2b i st) (\<lambda>b st'. bnorm b \<and> bval b = unat i) \<and>
    (significand d0 d1 \<noteq> 0 \<longrightarrow> delivers st (d2b d0 d1 st) (\<lambda>r st'. case r of (b, e, bits) \<Rightarrow> bnorm b \<and> odd (bval b) \<and>
      significand d0 d1 = bval b * 2 ^ nat (e - (int (max (d2b_exponent d0) 1) - 1075)) \<and>
      int (max (d2b_exponent d0) 1) - 1075 \<le> e \<and>
      0 < bits \<and> 2 ^ nat (bits - 1) \<le> bval b \<and> bval b < 2 ^ nat bits))"
proof (intro conjI impI)
  assume "(\<forall>c \<in> set (ip @ fp). digit c) \<and> length (ip @ fp) \<le> 9 * 2 ^ Kmax \<and> unat y9 = decimal 0 (take 9 (ip @ fp))"
  then show "delivers st (s2b (ip @ pt # fp) (length ip) (length (ip @ fp)) y9 st) (\<lambda>b st'. bnum b \<and> bval b = decimal 0 (ip @ fp))"
    by (intro s2b_ok [OF assms, where pt = pt and pt' = "[pt]"]) auto
next
  show "delivers st (i2b i st) (\<lambda>b st'. bnorm b \<and> bval b = unat i)"
    by (rule delivers_weaken [OF i2b_ok [OF assms]]) simp
next
  assume "significand d0 d1 \<noteq> 0"
  then show "delivers st (d2b d0 d1 st) (\<lambda>r st'. case r of (b, e, bits) \<Rightarrow> bnorm b \<and> odd (bval b) \<and>
      significand d0 d1 = bval b * 2 ^ nat (e - (int (max (d2b_exponent d0) 1) - 1075)) \<and>
      int (max (d2b_exponent d0) 1) - 1075 \<le> e \<and>
      0 < bits \<and> 2 ^ nat (bits - 1) \<le> bval b \<and> bval b < 2 ^ nat bits)"
    by (intro delivers_weaken [OF d2b_ok [OF assms]]) (simp_all add: d2b_result_def)
qed

lemma bigint_conversions_witness:
  "delivers (initial []) (s2b ''1234567890.25'' 10 12 123456789 (initial [])) (\<lambda>b st'. bnum b \<and> bval b = 123456789025) \<and>
   delivers (initial []) (i2b 625 (initial [])) (\<lambda>b st'. bnorm b \<and> bval b = 625) \<and>
   fst (i2b 625 (initial [None])) = Inl NoMem \<and> significand 0x3ff80000 0 = 3 * 2 ^ 51"
proof -
  have f: "fst (i2b 625 (initial [None])) = Inl NoMem"
    by (simp add: i2b_def on_ok_def Balloc_def initial_def Kmax_def del: replicate_Suc)
  have s: "significand 0x3ff80000 0 = 3 * 2 ^ 51" by (simp add: significand_def d2b_exponent_def)
  have l: "length ''1234567890'' = 10" "length (''1234567890'' @ ''25'') = 12" by simp_all
  have "delivers (initial []) (s2b (''1234567890'' @ CHR ''.'' # ''25'') (length ''1234567890'') (length (''1234567890'' @ ''25'')) 123456789 (initial []))
      (\<lambda>b st'. bnum b \<and> bval b = decimal 0 (''1234567890'' @ ''25''))"
    using bigint_conversions [of "initial []" "''1234567890''" "''25''" 123456789 "CHR ''.''" 625 "0x3ff80000" 0]
    by (simp add: digit_def Kmax_def)
  then have "delivers (initial []) (s2b ''1234567890.25'' 10 12 123456789 (initial [])) (\<lambda>b st'. bnum b \<and> bval b = 123456789025)"
    unfolding l by simp
  then show ?thesis
    using f s bigint_conversions [of "initial []" "''1234567890''" "''25''" 123456789 "CHR ''.''" 625 "0x3ff80000" 0]
    by simp
qed


end
