(* ===== verification/Varint.thy ===== *)
theory Varint
  imports Prelude
begin

text \<open>
  The variable-length integers of \<^verbatim>\<open>util.c\<close>: \<^verbatim>\<open>sqlite3PutVarint\<close>, \<^verbatim>\<open>sqlite3GetVarint\<close>,
  their 32-bit versions, \<^verbatim>\<open>sqlite3VarintLen\<close> and the big-endian 4-byte integers.
\<close>

section \<open>The code\<close>

abbreviation b32 :: "u8 \<Rightarrow> u32" where "b32 x \<equiv> ucast x"
abbreviation lo8 :: "u64 \<Rightarrow> u8" where "lo8 x \<equiv> ucast x"
abbreviation hib :: "u32 \<Rightarrow> bool" where "hib a \<equiv> (a AND 0x80 \<noteq> 0)"

abbreviation m14 :: u32 where "m14 \<equiv> push_bit 14 0x7f OR 0x7f"
abbreviation m28 :: u32 where "m28 \<equiv> push_bit 28 0x7f OR push_bit 14 0x7f OR 0x7f"

text \<open>The value of a varint from the saved high half \<open>s\<close> and the low half \<open>a\<close>.\<close>

abbreviation join64 :: "u32 \<Rightarrow> u32 \<Rightarrow> u64" where
  "join64 s a \<equiv> push_bit 32 (ucast s) OR ucast a"

definition sqlite3GetVarint :: "bytes \<Rightarrow> u64 \<times> nat" where
  "sqlite3GetVarint p =
    (let a = b32 (p 0) in
     if \<not> hib a then (ucast a, 1) else
     let b = b32 (p 1) in
     if \<not> hib b then (ucast (push_bit 7 (a AND 0x7f) OR b), 2) else
     let a = push_bit 14 a OR b32 (p 2) in
     if \<not> hib a then (ucast ((a AND m14) OR push_bit 7 (b AND 0x7f)), 3) else
     let a = a AND m14; b = push_bit 14 b OR b32 (p 3) in
     if \<not> hib b then (ucast (push_bit 7 a OR (b AND m14)), 4) else
     let b = b AND m14; s = a; a = push_bit 14 a OR b32 (p 4) in
     if \<not> hib a then (join64 (drop_bit 18 s) (a OR push_bit 7 b), 5) else
     let s = push_bit 7 s OR b; b = push_bit 14 b OR b32 (p 5) in
     if \<not> hib b then (join64 (drop_bit 18 s) (push_bit 7 (a AND m14) OR b), 6) else
     let a = push_bit 14 a OR b32 (p 6) in
     if \<not> hib a then (join64 (drop_bit 11 s) ((a AND m28) OR push_bit 7 (b AND m14)), 7) else
     let a = a AND m14; b = push_bit 14 b OR b32 (p 7) in
     if \<not> hib b then (join64 (drop_bit 4 s) (push_bit 7 a OR (b AND m28)), 8) else
     let a = push_bit 15 a OR b32 (p 8); b = push_bit 8 (b AND m14); a = a OR b;
         s = push_bit 4 s OR drop_bit 3 (b32 (p 4) AND 0x7f) in
     (join64 s a, 9))"

definition sqlite3GetVarint32 :: "bytes \<Rightarrow> u32 \<times> nat" where
  "sqlite3GetVarint32 p =
    (let a = b32 (p 0); b = b32 (p 1) in
     if \<not> hib b then (push_bit 7 (a AND 0x7f) OR b, 2) else
     let a = push_bit 14 a OR b32 (p 2) in
     if \<not> hib a then ((a AND m14) OR push_bit 7 (b AND 0x7f), 3) else
     let b = push_bit 14 b OR b32 (p 3) in
     if \<not> hib b then (push_bit 7 (a AND m14) OR (b AND m14), 4) else
     let a = push_bit 14 a OR b32 (p 4) in
     if \<not> hib a then ((a AND m28) OR push_bit 7 (b AND m28), 5) else
     (case sqlite3GetVarint p of (v64, n) \<Rightarrow> (ucast v64, n)))"

text \<open>The macro \<^verbatim>\<open>getVarint32\<close> of \<^verbatim>\<open>sqliteInt.h\<close>, which every caller uses.\<close>

definition getVarint32 :: "bytes \<Rightarrow> u32 \<times> nat" where
  "getVarint32 p = (if p 0 < 0x80 then (ucast (p 0), 1) else sqlite3GetVarint32 p)"

text \<open>
  The encoder returns the bytes it stores at \<^verbatim>\<open>p\<close>; their number is its return value.
  \<open>varint_buf\<close> is the loop that fills \<^verbatim>\<open>buf\<close> with the groups, least significant first.
\<close>

abbreviation group7 :: "u64 \<Rightarrow> u8" where
  "group7 v \<equiv> lo8 ((v AND 0x7f) OR 0x80)"

lemma unat_drop_bit_less [termination_simp]: "drop_bit 7 (v::u64) \<noteq> 0 \<Longrightarrow> unat (drop_bit 7 v) < unat v"
proof -
  assume "drop_bit 7 v \<noteq> 0"
  then have "0 < unat (drop_bit 7 v)"
    by (simp add: unat_gt_0)
  moreover have "unat (drop_bit 7 v) = unat v div 128"
    by (simp add: drop_bit_eq_div unat_div_distrib)
  ultimately show ?thesis by linarith
qed

function varint_buf :: "u64 \<Rightarrow> u8 list" where
  "varint_buf v = group7 v # (if drop_bit 7 v \<noteq> 0 then varint_buf (drop_bit 7 v) else [])"
  by pat_completeness auto
termination by (relation "measure unat") (simp_all add: unat_drop_bit_less)
declare varint_buf.simps [simp del]

text \<open>The loop \<^verbatim>\<open>for(i=7; i>=0; i--)\<close> of the nine-byte form.\<close>

fun varint_nine :: "nat \<Rightarrow> u64 \<Rightarrow> u8 list \<Rightarrow> u8 list" where
  "varint_nine 0 v p = p"
| "varint_nine (Suc i) v p = varint_nine i (drop_bit 7 v) (group7 v # p)"

definition sqlite3PutVarint :: "u64 \<Rightarrow> u8 list" where
  "sqlite3PutVarint v =
    (if v AND push_bit 32 0xff000000 \<noteq> 0
     then varint_nine 8 (drop_bit 8 v) [lo8 v]
     else let buf = varint_buf v in rev (buf[0 := buf ! 0 AND 0x7f]))"

definition sqlite3PutVarint32 :: "u32 \<Rightarrow> u8 list" where
  "sqlite3PutVarint32 v =
    (if v AND NOT 0x3fff = 0
     then [ucast (drop_bit 7 v OR 0x80), ucast (v AND 0x7f)]
     else sqlite3PutVarint (ucast v))"

definition putVarint32 :: "u32 \<Rightarrow> u8 list" where
  "putVarint32 v = (if v < 0x80 then [ucast v] else sqlite3PutVarint32 v)"

function varint_len :: "nat \<Rightarrow> u64 \<Rightarrow> nat" where
  "varint_len i v =
    (let i = Suc i; v = drop_bit 7 v in if v \<noteq> 0 \<and> i < 9 then varint_len i v else i)"
  by pat_completeness auto
termination by (relation "measure (\<lambda>(i, v). 9 - i)") auto
declare varint_len.simps [simp del]

definition sqlite3VarintLen :: "u64 \<Rightarrow> nat" where
  "sqlite3VarintLen v = varint_len 0 v"

definition sqlite3Get4byte :: "bytes \<Rightarrow> u32" where
  "sqlite3Get4byte p =
    push_bit 24 (b32 (p 0)) OR push_bit 16 (b32 (p 1)) OR push_bit 8 (b32 (p 2)) OR b32 (p 3)"

definition sqlite3Put4byte :: "u32 \<Rightarrow> u8 list" where
  "sqlite3Put4byte v = [ucast (drop_bit 24 v), ucast (drop_bit 16 v), ucast (drop_bit 8 v), ucast v]"

section \<open>The reference decoder\<close>

text \<open>One byte at a time, most significant group first; the ninth byte carries eight bits.\<close>

abbreviation vstep :: "u64 \<Rightarrow> u8 \<Rightarrow> u64" where
  "vstep v b \<equiv> push_bit 7 v OR (ucast b AND 0x7f)"

function varint_ref :: "nat \<Rightarrow> u64 \<Rightarrow> bytes \<Rightarrow> u64 \<times> nat" where
  "varint_ref k v p =
    (if 8 \<le> k then (push_bit 8 v OR ucast (p k), Suc k)
     else if bit (p k) 7 then varint_ref (Suc k) (vstep v (p k)) p
     else (vstep v (p k), Suc k))"
  by pat_completeness auto
termination by (relation "measure (\<lambda>(k, v, p). 8 - k)") auto
declare varint_ref.simps [simp del]

section \<open>Bit-level lemmas\<close>

lemma hib_bit: "hib a \<longleftrightarrow> bit a 7"
  using and_exp_eq_0_iff_not_bit[of a 7] by simp

lemma hib_simps:
  "hib (b32 x) \<longleftrightarrow> bit x 7"
  "hib (push_bit 14 a OR b32 x) \<longleftrightarrow> bit x 7"
  by (simp_all add: hib_bit bit_or_iff bit_push_bit_iff bit_ucast_iff)

text \<open>One equation per length: the unrolled arithmetic on 32-bit halves is the reference value.\<close>

lemma varint_case1:
  "\<not> bit (x0::u8) 7 \<Longrightarrow> ucast (b32 x0) =
     vstep 0 x0"
  by (rule u64_eqI, simp only: each_bit, simp add: bit_rules)

lemma varint_case2:
  "\<not> bit (x1::u8) 7 \<Longrightarrow> ucast (push_bit 7 (b32 x0 AND 0x7f) OR b32 x1) =
     vstep (vstep 0 x0) x1"
  by (rule u64_eqI, simp only: each_bit, simp add: bit_rules)

lemma varint_case3:
  "\<not> bit (x2::u8) 7 \<Longrightarrow> ucast (((push_bit 14 (b32 x0) OR b32 x2) AND m14) OR push_bit 7 (b32 x1 AND 0x7f)) =
     vstep (vstep (vstep 0 x0) x1) x2"
  by (rule u64_eqI, simp only: each_bit, simp add: bit_rules)

lemma varint_case4:
  "\<not> bit (x3::u8) 7 \<Longrightarrow> ucast (push_bit 7 ((push_bit 14 (b32 x0) OR b32 x2) AND m14) OR ((push_bit 14 (b32 x1) OR b32 x3) AND m14)) =
     vstep (vstep (vstep (vstep 0 x0) x1) x2) x3"
  by (rule u64_eqI, simp only: each_bit, simp add: bit_rules)

lemma varint_case5:
  "\<not> bit (x4::u8) 7 \<Longrightarrow> join64 (drop_bit 18 ((push_bit 14 (b32 x0) OR b32 x2) AND m14)) ((push_bit 14 ((push_bit 14 (b32 x0) OR b32 x2) AND m14) OR b32 x4) OR push_bit 7 ((push_bit 14 (b32 x1) OR b32 x3) AND m14)) =
     vstep (vstep (vstep (vstep (vstep 0 x0) x1) x2) x3) x4"
  by (rule u64_eqI, simp only: each_bit, simp add: bit_rules)

lemma varint_case6:
  "\<not> bit (x5::u8) 7 \<Longrightarrow> join64 (drop_bit 18 (push_bit 7 ((push_bit 14 (b32 x0) OR b32 x2) AND m14) OR ((push_bit 14 (b32 x1) OR b32 x3) AND m14))) (push_bit 7 ((push_bit 14 ((push_bit 14 (b32 x0) OR b32 x2) AND m14) OR b32 x4) AND m14) OR (push_bit 14 ((push_bit 14 (b32 x1) OR b32 x3) AND m14) OR b32 x5)) =
     vstep (vstep (vstep (vstep (vstep (vstep 0 x0) x1) x2) x3) x4) x5"
  by (rule u64_eqI, simp only: each_bit, simp add: bit_rules)

lemma varint_case7:
  "\<not> bit (x6::u8) 7 \<Longrightarrow> join64 (drop_bit 11 (push_bit 7 ((push_bit 14 (b32 x0) OR b32 x2) AND m14) OR ((push_bit 14 (b32 x1) OR b32 x3) AND m14))) (((push_bit 14 (push_bit 14 ((push_bit 14 (b32 x0) OR b32 x2) AND m14) OR b32 x4) OR b32 x6) AND m28) OR push_bit 7 ((push_bit 14 ((push_bit 14 (b32 x1) OR b32 x3) AND m14) OR b32 x5) AND m14)) =
     vstep (vstep (vstep (vstep (vstep (vstep (vstep 0 x0) x1) x2) x3) x4) x5) x6"
  by (rule u64_eqI, simp only: each_bit, simp add: bit_rules)

lemma varint_case8:
  "\<not> bit (x7::u8) 7 \<Longrightarrow> join64 (drop_bit 4 (push_bit 7 ((push_bit 14 (b32 x0) OR b32 x2) AND m14) OR ((push_bit 14 (b32 x1) OR b32 x3) AND m14))) (push_bit 7 ((push_bit 14 (push_bit 14 ((push_bit 14 (b32 x0) OR b32 x2) AND m14) OR b32 x4) OR b32 x6) AND m14) OR ((push_bit 14 (push_bit 14 ((push_bit 14 (b32 x1) OR b32 x3) AND m14) OR b32 x5) OR b32 x7) AND m28)) =
     vstep (vstep (vstep (vstep (vstep (vstep (vstep (vstep 0 x0) x1) x2) x3) x4) x5) x6) x7"
  by (rule u64_eqI, simp only: each_bit, simp add: bit_rules)

lemma varint_case9:
  "join64 (push_bit 4 (push_bit 7 ((push_bit 14 (b32 x0) OR b32 x2) AND m14) OR ((push_bit 14 (b32 x1) OR b32 x3) AND m14)) OR drop_bit 3 (b32 x4 AND 0x7f)) ((push_bit 15 ((push_bit 14 (push_bit 14 ((push_bit 14 (b32 x0) OR b32 x2) AND m14) OR b32 x4) OR b32 x6) AND m14) OR b32 x8) OR push_bit 8 ((push_bit 14 (push_bit 14 ((push_bit 14 (b32 x1) OR b32 x3) AND m14) OR b32 x5) OR b32 x7) AND m14)) =
     push_bit 8 (vstep (vstep (vstep (vstep (vstep (vstep (vstep (vstep 0 x0) x1) x2) x3) x4) x5) x6) x7) OR ucast (x8::u8)"
  by (rule u64_eqI, simp only: each_bit, simp add: bit_rules)

lemmas varint_cases = varint_case1 varint_case2 varint_case3 varint_case4 varint_case5
  varint_case6 varint_case7 varint_case8 varint_case9

text \<open>The reference, step by step.\<close>

lemma varint_ref_next: "k < 8 \<Longrightarrow> k' = Suc k \<Longrightarrow> bit (p k) 7 \<Longrightarrow>
    varint_ref k v p = varint_ref k' (vstep v (p k)) p"
  by (simp only: varint_ref.simps [of k] not_le [symmetric] if_True if_False simp_thms)

lemma varint_ref_stop: "k < 8 \<Longrightarrow> k' = Suc k \<Longrightarrow> \<not> bit (p k) 7 \<Longrightarrow>
    varint_ref k v p = (vstep v (p k), k')"
  by (simp only: varint_ref.simps [of k] not_le [symmetric] if_True if_False simp_thms)

lemma varint_ref_last: "varint_ref 8 v p = (push_bit 8 v OR ucast (p 8), 9)"
  by (subst varint_ref.simps) simp

lemma varint_ref_steps:
  "bit (p 0) 7 \<Longrightarrow> varint_ref 0 v p = varint_ref 1 (vstep v (p 0)) p"
  "bit (p 1) 7 \<Longrightarrow> varint_ref 1 v p = varint_ref 2 (vstep v (p 1)) p"
  "bit (p 2) 7 \<Longrightarrow> varint_ref 2 v p = varint_ref 3 (vstep v (p 2)) p"
  "bit (p 3) 7 \<Longrightarrow> varint_ref 3 v p = varint_ref 4 (vstep v (p 3)) p"
  "bit (p 4) 7 \<Longrightarrow> varint_ref 4 v p = varint_ref 5 (vstep v (p 4)) p"
  "bit (p 5) 7 \<Longrightarrow> varint_ref 5 v p = varint_ref 6 (vstep v (p 5)) p"
  "bit (p 6) 7 \<Longrightarrow> varint_ref 6 v p = varint_ref 7 (vstep v (p 6)) p"
  "bit (p 7) 7 \<Longrightarrow> varint_ref 7 v p = varint_ref 8 (vstep v (p 7)) p"
  "\<not> bit (p 0) 7 \<Longrightarrow> varint_ref 0 v p = (vstep v (p 0), 1)"
  "\<not> bit (p 1) 7 \<Longrightarrow> varint_ref 1 v p = (vstep v (p 1), 2)"
  "\<not> bit (p 2) 7 \<Longrightarrow> varint_ref 2 v p = (vstep v (p 2), 3)"
  "\<not> bit (p 3) 7 \<Longrightarrow> varint_ref 3 v p = (vstep v (p 3), 4)"
  "\<not> bit (p 4) 7 \<Longrightarrow> varint_ref 4 v p = (vstep v (p 4), 5)"
  "\<not> bit (p 5) 7 \<Longrightarrow> varint_ref 5 v p = (vstep v (p 5), 6)"
  "\<not> bit (p 6) 7 \<Longrightarrow> varint_ref 6 v p = (vstep v (p 6), 7)"
  "\<not> bit (p 7) 7 \<Longrightarrow> varint_ref 7 v p = (vstep v (p 7), 8)"
  by ((rule varint_ref_next varint_ref_stop, simp, simp, assumption)+)

lemma GetVarint_len1:
  "\<not> bit (p 0) 7 \<Longrightarrow> sqlite3GetVarint p = varint_ref 0 0 p"
  by (simp only: sqlite3GetVarint_def Let_def hib_simps varint_ref_steps varint_ref_last varint_case1 not_True_eq_False
      not_False_eq_True if_True if_False)

lemma GetVarint_len2:
  "bit (p 0) 7 \<Longrightarrow> \<not> bit (p 1) 7 \<Longrightarrow> sqlite3GetVarint p = varint_ref 0 0 p"
  by (simp only: sqlite3GetVarint_def Let_def hib_simps varint_ref_steps varint_ref_last varint_case2 not_True_eq_False
      not_False_eq_True if_True if_False)

lemma GetVarint_len3:
  "bit (p 0) 7 \<Longrightarrow> bit (p 1) 7 \<Longrightarrow> \<not> bit (p 2) 7 \<Longrightarrow> sqlite3GetVarint p = varint_ref 0 0 p"
  by (simp only: sqlite3GetVarint_def Let_def hib_simps varint_ref_steps varint_ref_last varint_case3 not_True_eq_False
      not_False_eq_True if_True if_False)

lemma GetVarint_len4:
  "bit (p 0) 7 \<Longrightarrow> bit (p 1) 7 \<Longrightarrow> bit (p 2) 7 \<Longrightarrow> \<not> bit (p 3) 7 \<Longrightarrow> sqlite3GetVarint p = varint_ref 0 0 p"
  by (simp only: sqlite3GetVarint_def Let_def hib_simps varint_ref_steps varint_ref_last varint_case4 not_True_eq_False
      not_False_eq_True if_True if_False)

lemma GetVarint_len5:
  "bit (p 0) 7 \<Longrightarrow> bit (p 1) 7 \<Longrightarrow> bit (p 2) 7 \<Longrightarrow> bit (p 3) 7 \<Longrightarrow> \<not> bit (p 4) 7 \<Longrightarrow> sqlite3GetVarint p = varint_ref 0 0 p"
  by (simp only: sqlite3GetVarint_def Let_def hib_simps varint_ref_steps varint_ref_last varint_case5 not_True_eq_False
      not_False_eq_True if_True if_False)

lemma GetVarint_len6:
  "bit (p 0) 7 \<Longrightarrow> bit (p 1) 7 \<Longrightarrow> bit (p 2) 7 \<Longrightarrow> bit (p 3) 7 \<Longrightarrow> bit (p 4) 7 \<Longrightarrow> \<not> bit (p 5) 7 \<Longrightarrow> sqlite3GetVarint p = varint_ref 0 0 p"
  by (simp only: sqlite3GetVarint_def Let_def hib_simps varint_ref_steps varint_ref_last varint_case6 not_True_eq_False
      not_False_eq_True if_True if_False)

lemma GetVarint_len7:
  "bit (p 0) 7 \<Longrightarrow> bit (p 1) 7 \<Longrightarrow> bit (p 2) 7 \<Longrightarrow> bit (p 3) 7 \<Longrightarrow> bit (p 4) 7 \<Longrightarrow> bit (p 5) 7 \<Longrightarrow> \<not> bit (p 6) 7 \<Longrightarrow> sqlite3GetVarint p = varint_ref 0 0 p"
  by (simp only: sqlite3GetVarint_def Let_def hib_simps varint_ref_steps varint_ref_last varint_case7 not_True_eq_False
      not_False_eq_True if_True if_False)

lemma GetVarint_len8:
  "bit (p 0) 7 \<Longrightarrow> bit (p 1) 7 \<Longrightarrow> bit (p 2) 7 \<Longrightarrow> bit (p 3) 7 \<Longrightarrow> bit (p 4) 7 \<Longrightarrow> bit (p 5) 7 \<Longrightarrow> bit (p 6) 7 \<Longrightarrow> \<not> bit (p 7) 7 \<Longrightarrow> sqlite3GetVarint p = varint_ref 0 0 p"
  by (simp only: sqlite3GetVarint_def Let_def hib_simps varint_ref_steps varint_ref_last varint_case8 not_True_eq_False
      not_False_eq_True if_True if_False)

lemma GetVarint_len9:
  "bit (p 0) 7 \<Longrightarrow> bit (p 1) 7 \<Longrightarrow> bit (p 2) 7 \<Longrightarrow> bit (p 3) 7 \<Longrightarrow> bit (p 4) 7 \<Longrightarrow> bit (p 5) 7 \<Longrightarrow> bit (p 6) 7 \<Longrightarrow> bit (p 7) 7 \<Longrightarrow> sqlite3GetVarint p = varint_ref 0 0 p"
  by (simp only: sqlite3GetVarint_def Let_def hib_simps varint_ref_steps varint_ref_last varint_case9 not_True_eq_False
      not_False_eq_True if_True if_False)

lemma GetVarint_ref: "sqlite3GetVarint p = varint_ref 0 0 p"
  by (meson GetVarint_len1 GetVarint_len2 GetVarint_len3 GetVarint_len4 GetVarint_len5
      GetVarint_len6 GetVarint_len7 GetVarint_len8 GetVarint_len9)

section \<open>Encoding\<close>

lemma varint_ref_conts:
  "k + length cs \<le> 8 \<Longrightarrow> (\<forall>i < length cs. p (k + i) = cs ! i \<and> bit (cs ! i) 7) \<Longrightarrow>
   varint_ref k v p = varint_ref (k + length cs) (foldl vstep v cs) p"
proof (induction cs arbitrary: k v)
  case Nil
  then show ?case by simp
next
  case (Cons c cs)
  from Cons.prems(2) have c: "p k = c" "bit c 7" by (force dest: spec [of _ 0])+
  have "\<forall>i < length cs. p (Suc k + i) = cs ! i \<and> bit (cs ! i) 7"
    using Cons.prems(2) by (auto dest: spec [of _ "Suc _"])
  with Cons.IH [of "Suc k" "vstep v c"] Cons.prems(1) c
  show ?case by (simp add: varint_ref_next [of k "Suc k"])
qed

lemma vstep_group7: "vstep w (group7 v) = push_bit 7 w OR (v AND 0x7f)"
  by (rule u64_eqI, simp only: each_bit, simp add: bit_rules)

lemma vstep_group7_clear: "vstep w (group7 v AND 0x7f) = push_bit 7 w OR (v AND 0x7f)"
  by (rule u64_eqI, simp only: each_bit, simp add: bit_rules)

lemma split_group7: "push_bit 7 (drop_bit 7 v) OR (v AND 0x7f) = (v::u64)"
  by (rule u64_eqI, simp only: each_bit, simp add: bit_rules)

lemma split_low8: "push_bit 8 (drop_bit 8 v) OR ucast (lo8 v) = (v::u64)"
  by (rule u64_eqI, simp only: each_bit, simp add: bit_rules)

lemma group7_bits: "bit (group7 v) 7" "\<not> bit (group7 v AND 0x7f) 7"
  by (simp_all add: bit_rules)

lemma varint_buf_value: "foldl vstep 0 (rev (varint_buf v)) = v"
proof (induction v rule: varint_buf.induct)
  case (1 v)
  show ?case
  proof (cases "drop_bit 7 v = 0")
    case True
    then show ?thesis
      using split_group7 [of v] vstep_group7 [of 0 v] by (simp only: varint_buf.simps [of v]) simp
  next
    case False
    then show ?thesis using 1 split_group7 [of v]
      by (simp add: varint_buf.simps [of v] vstep_group7)
  qed
qed

lemma varint_buf_top: "b \<in> set (varint_buf v) \<Longrightarrow> bit b 7"
  by (induction v rule: varint_buf.induct)
     (subst (asm) varint_buf.simps, auto simp: group7_bits split: if_splits)

lemma varint_nine_conv:
  "varint_nine n v acc = rev (map (\<lambda>i. group7 (drop_bit (7 * i) v)) [0..<n]) @ acc"
  by (induction n arbitrary: v acc) (auto simp: upt_conv_Cons map_Suc_upt [symmetric] drop_bit_drop_bit add.commute simp del: upt_Suc)


text \<open>The bytes of a short encoding: the continuation groups and the last one.\<close>

definition varint_conts :: "u64 \<Rightarrow> u8 list" where
  "varint_conts v = (if drop_bit 7 v \<noteq> 0 then rev (varint_buf (drop_bit 7 v)) else [])"

lemma varint_conts_value: "foldl vstep 0 (varint_conts v) = drop_bit 7 v"
  by (simp add: varint_conts_def varint_buf_value)

lemma varint_conts_top: "b \<in> set (varint_conts v) \<Longrightarrow> bit b 7"
  by (auto simp: varint_conts_def varint_buf_top split: if_splits)

lemma varint_buf_length: "unat v < 2 ^ (7 * n) \<Longrightarrow> 0 < n \<Longrightarrow> length (varint_buf v) \<le> n"
proof (induction v arbitrary: n rule: varint_buf.induct)
  case (1 v)
  show ?case
  proof (cases "drop_bit 7 v = 0")
    case True
    then show ?thesis using 1 by (simp add: varint_buf.simps [of v])
  next
    case False
    have q: "unat (drop_bit 7 v) = unat v div 128"
      by (simp add: drop_bit_eq_div unat_div_distrib)
    have "0 < unat (drop_bit 7 v)" using False by (simp add: unat_gt_0)
    with q have "128 \<le> unat v" by linarith
    obtain m where n: "n = Suc m" using 1 by (cases n) auto
    have m: "0 < m" using \<open>128 \<le> unat v\<close> 1(2) n by (cases m) auto
    have "unat (drop_bit 7 v) < 2 ^ (7 * m)"
      using 1(2) q n by (simp add: power_add less_mult_imp_div_less mult.commute)
    with 1(1) False m n show ?thesis by (simp add: varint_buf.simps [of v])
  qed
qed

lemma high_byte_clear: "(v::u64) AND push_bit 32 0xff000000 = 0 \<longleftrightarrow> unat v < 2 ^ 56"
proof -
  have "v AND push_bit 32 0xff000000 = push_bit 56 (drop_bit 56 v)"
    by (rule u64_eqI, simp only: each_bit, simp add: bit_rules)
  moreover have "drop_bit 56 (push_bit 56 (drop_bit 56 v)) = drop_bit 56 v"
    by (rule u64_eqI, simp only: each_bit, simp add: bit_rules)
  ultimately have "v AND push_bit 32 0xff000000 = 0 \<longleftrightarrow> drop_bit 56 v = 0"
    by (metis drop_bit_of_0 push_bit_of_0)
  moreover have "unat (drop_bit 56 v) = unat v div 2 ^ 56"
    by (simp add: drop_bit_eq_div unat_div_distrib)
  ultimately show ?thesis
    by (metis div_eq_0_iff power_not_zero unat_eq_zero zero_neq_numeral)
qed

lemma starts_withD: "starts_with p bs \<Longrightarrow> i < length bs \<Longrightarrow> p i = bs ! i"
  by (simp add: starts_with_def)

lemma PutVarint_short:
  "v AND push_bit 32 0xff000000 = 0 \<Longrightarrow>
    sqlite3PutVarint v = varint_conts v @ [group7 v AND 0x7f]"
  by (simp add: sqlite3PutVarint_def Let_def varint_conts_def varint_buf.simps [of v])

lemma varint_conts_length: "length (varint_conts v) = length (varint_buf v) - 1"
  by (simp add: varint_conts_def varint_buf.simps [of v])

lemma decode_conts:
  assumes p: "starts_with p (cs @ [c])" and cs: "\<And>b. b \<in> set cs \<Longrightarrow> bit b 7"
    and len: "length cs < 8" and c: "\<not> bit c 7"
  shows "varint_ref 0 0 p = (vstep (foldl vstep 0 cs) c, Suc (length cs))"
proof -
  have "varint_ref 0 0 p = varint_ref (0 + length cs) (foldl vstep 0 cs) p"
    using p cs len by (intro varint_ref_conts) (auto simp: starts_with_def nth_append)
  moreover have "p (length cs) = c" using p by (auto simp: starts_with_def)
  ultimately show ?thesis using c len by (simp add: varint_ref_stop)
qed

lemma decode_nine:
  assumes p: "starts_with p (cs @ [c])" and cs: "\<And>b. b \<in> set cs \<Longrightarrow> bit b 7"
    and len: "length cs = 8"
  shows "varint_ref 0 0 p = (push_bit 8 (foldl vstep 0 cs) OR ucast c, 9)"
proof -
  have "varint_ref 0 0 p = varint_ref (0 + length cs) (foldl vstep 0 cs) p"
    using p cs len by (intro varint_ref_conts) (auto simp: starts_with_def nth_append)
  moreover have "p 8 = c" using p len by (auto simp: starts_with_def nth_append)
  ultimately show ?thesis using len by (simp add: varint_ref_last)
qed

lemma varint_nine_value:
  "foldl vstep 0 (rev (map (\<lambda>i. group7 (drop_bit (7 * i) v)) [0..<8])) = (take_bit 56 v :: u64)"
proof -
  have eight: "[0..<8] = [0, 1, 2, 3, 4, 5, 6, 7 :: nat]"
    by (simp add: upt_rec)
  show ?thesis
    by (rule u64_eqI, simp only: each_bit, simp only: eight list.map rev.simps append.simps foldl.simps)
       (simp add: bit_rules bit_take_bit_iff u64_beyond)
qed


lemma varint_buf_length_ge: "2 ^ (7 * n) \<le> unat v \<Longrightarrow> n < length (varint_buf v)"
proof (induction v arbitrary: n rule: varint_buf.induct)
  case (1 v)
  show ?case
  proof (cases n)
    case 0
    then show ?thesis by (simp add: varint_buf.simps [of v])
  next
    case (Suc m)
    have q: "unat (drop_bit 7 v) = unat v div 128"
      by (simp add: drop_bit_eq_div unat_div_distrib)
    have m: "2 ^ (7 * m) \<le> unat (drop_bit 7 v)"
      using div_le_mono [OF 1(2), of 128] Suc q by (simp add: power_add)
    moreover have "drop_bit 7 v \<noteq> 0"
    proof
      assume "drop_bit 7 v = 0"
      with m show False by simp
    qed
    ultimately show ?thesis using 1(1) Suc by (simp add: varint_buf.simps [of v])
  qed
qed

lemma varint_len_buf: "i < 9 \<Longrightarrow> varint_len i v = min 9 (i + length (varint_buf v))"
proof (induction i v rule: varint_len.induct)
  case (1 i v)
  show ?case
  proof (cases "drop_bit 7 v \<noteq> 0 \<and> Suc i < 9")
    case True
    with 1(1) [OF refl refl] show ?thesis
      by (subst varint_len.simps) (simp add: varint_buf.simps [of v] Let_def)
  next
    case False
    with 1(2) show ?thesis
      by (subst varint_len.simps) (auto simp: varint_buf.simps [of v] Let_def min_def)
  qed
qed

lemma PutVarint_length_buf: "length (sqlite3PutVarint v) = min 9 (length (varint_buf v))"
proof (cases "v AND push_bit 32 0xff000000 = 0")
  case True
  then have "length (varint_buf v) \<le> 8"
    by (intro varint_buf_length) (simp_all only: high_byte_clear, simp_all)
  moreover have "varint_buf v \<noteq> []" by (simp add: varint_buf.simps [of v])
  ultimately show ?thesis
    unfolding PutVarint_short [OF True] by (cases "varint_buf v") (simp_all add: varint_conts_length)
next
  case False
  then have "2 ^ (7 * 8) \<le> unat v" unfolding high_byte_clear by simp
  then have "8 < length (varint_buf v)" by (rule varint_buf_length_ge)
  with False show ?thesis
    by (simp only: sqlite3PutVarint_def not_False_eq_True if_True varint_nine_conv) simp
qed

lemma VarintLen_put: "sqlite3VarintLen v = length (sqlite3PutVarint v)"
  by (simp add: sqlite3VarintLen_def varint_len_buf PutVarint_length_buf)

lemma PutVarint_roundtrip:
  assumes "starts_with p (sqlite3PutVarint v)"
  shows "sqlite3GetVarint p = (v, length (sqlite3PutVarint v))"
proof (cases "v AND push_bit 32 0xff000000 = 0")
  case True
  note short = PutVarint_short [OF True]
  have "length (varint_buf v) \<le> 8"
    using True [unfolded high_byte_clear] by (intro varint_buf_length) simp_all
  then have "length (varint_conts v) < 8" by (simp add: varint_conts_length)
  with assms have "varint_ref 0 0 p =
      (vstep (foldl vstep 0 (varint_conts v)) (group7 v AND 0x7f), Suc (length (varint_conts v)))"
    unfolding short by (intro decode_conts varint_conts_top group7_bits)
  then show ?thesis
    by (simp only: GetVarint_ref short varint_conts_value vstep_group7_clear split_group7) simp
next
  case False
  let ?cs = "rev (map (\<lambda>i. group7 (drop_bit (7 * i) (drop_bit 8 v))) [0..<8])"
  have nine: "sqlite3PutVarint v = ?cs @ [lo8 v]"
    by (simp only: sqlite3PutVarint_def False not_False_eq_True if_True varint_nine_conv)
  have "varint_ref 0 0 p = (push_bit 8 (foldl vstep 0 ?cs) OR ucast (lo8 v), 9)"
    using assms unfolding nine by (rule decode_nine) (auto simp: group7_bits)
  moreover have "push_bit 8 (foldl vstep 0 ?cs) OR ucast (lo8 v) = v"
    unfolding varint_nine_value by (rule u64_eqI, simp only: each_bit, simp add: bit_rules bit_take_bit_iff)
  ultimately show ?thesis by (simp add: GetVarint_ref nine)
qed

lemma varint32_case2:
  "\<not> bit (x1::u8) 7 \<Longrightarrow> push_bit 7 (b32 x0 AND 0x7f) OR b32 x1 =
     ucast (vstep (vstep 0 x0) x1)"
  by (rule u32_eqI, simp only: each_bit, simp add: bit_rules)

lemma varint32_case3:
  "\<not> bit (x2::u8) 7 \<Longrightarrow> ((push_bit 14 (b32 x0) OR b32 x2) AND m14) OR push_bit 7 (b32 x1 AND 0x7f) =
     ucast (vstep (vstep (vstep 0 x0) x1) x2)"
  by (rule u32_eqI, simp only: each_bit, simp add: bit_rules)

lemma varint32_case4:
  "\<not> bit (x3::u8) 7 \<Longrightarrow> push_bit 7 ((push_bit 14 (b32 x0) OR b32 x2) AND m14) OR ((push_bit 14 (b32 x1) OR b32 x3) AND m14) =
     ucast (vstep (vstep (vstep (vstep 0 x0) x1) x2) x3)"
  by (rule u32_eqI, simp only: each_bit, simp add: bit_rules)

lemma varint32_case5:
  "\<not> bit (x4::u8) 7 \<Longrightarrow> ((push_bit 14 (push_bit 14 (b32 x0) OR b32 x2) OR b32 x4) AND m28) OR push_bit 7 ((push_bit 14 (b32 x1) OR b32 x3) AND m28) =
     ucast (vstep (vstep (vstep (vstep (vstep 0 x0) x1) x2) x3) x4)"
  by (rule u32_eqI, simp only: each_bit, simp add: bit_rules)

lemma GetVarint32_len2:
  "bit (p 0) 7 \<Longrightarrow> \<not> bit (p 1) 7 \<Longrightarrow> sqlite3GetVarint32 p = (case sqlite3GetVarint p of (v, n) \<Rightarrow> (ucast v, n))"
  by (simp only: GetVarint_ref sqlite3GetVarint32_def Let_def hib_simps varint_ref_steps varint32_case2
      not_True_eq_False not_False_eq_True if_True if_False case_prod_conv)

lemma GetVarint32_len3:
  "bit (p 0) 7 \<Longrightarrow> bit (p 1) 7 \<Longrightarrow> \<not> bit (p 2) 7 \<Longrightarrow> sqlite3GetVarint32 p = (case sqlite3GetVarint p of (v, n) \<Rightarrow> (ucast v, n))"
  by (simp only: GetVarint_ref sqlite3GetVarint32_def Let_def hib_simps varint_ref_steps varint32_case3
      not_True_eq_False not_False_eq_True if_True if_False case_prod_conv)

lemma GetVarint32_len4:
  "bit (p 0) 7 \<Longrightarrow> bit (p 1) 7 \<Longrightarrow> bit (p 2) 7 \<Longrightarrow> \<not> bit (p 3) 7 \<Longrightarrow> sqlite3GetVarint32 p = (case sqlite3GetVarint p of (v, n) \<Rightarrow> (ucast v, n))"
  by (simp only: GetVarint_ref sqlite3GetVarint32_def Let_def hib_simps varint_ref_steps varint32_case4
      not_True_eq_False not_False_eq_True if_True if_False case_prod_conv)

lemma GetVarint32_len5:
  "bit (p 0) 7 \<Longrightarrow> bit (p 1) 7 \<Longrightarrow> bit (p 2) 7 \<Longrightarrow> bit (p 3) 7 \<Longrightarrow> \<not> bit (p 4) 7 \<Longrightarrow> sqlite3GetVarint32 p = (case sqlite3GetVarint p of (v, n) \<Rightarrow> (ucast v, n))"
  by (simp only: GetVarint_ref sqlite3GetVarint32_def Let_def hib_simps varint_ref_steps varint32_case5
      not_True_eq_False not_False_eq_True if_True if_False case_prod_conv)

lemma GetVarint32_long:
  "bit (p 0) 7 \<Longrightarrow> bit (p 1) 7 \<Longrightarrow> bit (p 2) 7 \<Longrightarrow> bit (p 3) 7 \<Longrightarrow> bit (p 4) 7 \<Longrightarrow>
    sqlite3GetVarint32 p = (case sqlite3GetVarint p of (v, n) \<Rightarrow> (ucast v, n))"
  by (simp only: sqlite3GetVarint32_def Let_def hib_simps not_True_eq_False if_False)

lemma less_0x80: "(x::u8) < 0x80 \<longleftrightarrow> \<not> bit x 7"
proof -
  have "unat x < 2 ^ LENGTH(8)" by (rule unsigned_less)
  then have "unat x div 2 ^ 7 < 2" by simp
  then have "unat x div 2 ^ 7 = 0 \<longleftrightarrow> even (unat x div 2 ^ 7)"
    by (auto simp: less_2_cases_iff)
  moreover have "bit x 7 \<longleftrightarrow> odd (unat x div 2 ^ 7)"
    using bit_unsigned_iff [of x 7, where 'a = nat] by (simp add: bit_iff_odd)
  ultimately show ?thesis
    by (simp add: word_less_nat_alt div_eq_0_iff)
qed

lemma ucast_b32: "ucast (b32 x) = (ucast x :: u64)" "ucast (ucast x :: u64) = b32 x"
  by (rule u64_eqI u32_eqI, simp only: each_bit, simp add: bit_rules)+

lemma getVarint32_eq:
  "getVarint32 p = (case sqlite3GetVarint p of (v, n) \<Rightarrow> (ucast v, n))"
proof (cases "bit (p 0) 7")
  case True
  then show ?thesis unfolding getVarint32_def less_0x80
    by (simp only: if_False not_True_eq_False)
       (metis GetVarint32_len2 GetVarint32_len3 GetVarint32_len4 GetVarint32_len5 GetVarint32_long)
next
  case False
  then have "sqlite3GetVarint p = (ucast (p 0), 1)"
    by (simp add: sqlite3GetVarint_def hib_simps Let_def ucast_b32)
  with False show ?thesis unfolding getVarint32_def less_0x80
    by (simp add: ucast_b32)
qed

lemma PutVarint_length: "1 \<le> length (sqlite3PutVarint v) \<and> length (sqlite3PutVarint v) \<le> 9"
  by (simp add: PutVarint_length_buf varint_buf.simps [of v])

lemma Put4byte_Get4byte: "starts_with p (sqlite3Put4byte v) \<Longrightarrow> sqlite3Get4byte p = v"
proof -
  assume "starts_with p (sqlite3Put4byte v)"
  then have "p 0 = ucast (drop_bit 24 v)" "p 1 = ucast (drop_bit 16 v)"
      "p 2 = ucast (drop_bit 8 v)" "p 3 = ucast v"
    by (auto simp: starts_with_def sqlite3Put4byte_def numeral_eq_Suc all_conj_distrib)
  then show ?thesis unfolding sqlite3Get4byte_def
    by (simp only:) (rule u32_eqI, simp only: each_bit, simp add: bit_rules)
qed

lemma and_not_3fff: "(v::u32) AND NOT 0x3fff = 0 \<longleftrightarrow> drop_bit 14 v = 0"
proof -
  have "v AND NOT 0x3fff = push_bit 14 (drop_bit 14 v)"
    by (rule u32_eqI, simp only: each_bit, simp add: bit_rules)
  moreover have "drop_bit 14 (push_bit 14 (drop_bit 14 v)) = drop_bit 14 v"
    by (rule u32_eqI, simp only: each_bit, simp add: bit_rules)
  ultimately show ?thesis by (metis drop_bit_of_0 push_bit_of_0)
qed

lemma drop_ucast: "drop_bit n (ucast (v::u32) :: u64) = ucast (drop_bit n v)"
  by (rule bit_word_eqI) (auto simp: bit_drop_bit_eq bit_ucast_iff dest: bit_imp_le_length)

lemma ucast64_eq_0: "(ucast (v::u32) :: u64) = 0 \<longleftrightarrow> v = 0"
proof
  assume z: "(ucast v :: u64) = 0"
  show "v = 0"
  proof (rule bit_word_eqI)
    fix n assume "n < LENGTH(32)"
    then have "bit v n = bit (ucast v :: u64) n" by (simp add: bit_ucast_iff)
    with z show "bit v n = bit 0 n" by simp
  qed
qed simp

lemma ucast_32_short: "(ucast (v::u32) :: u64) AND push_bit 32 0xff000000 = 0"
  by (rule u64_eqI, simp only: each_bit, simp add: bit_rules)


lemma less_128_32: "(v::u32) < 0x80 \<longleftrightarrow> drop_bit 7 v = 0"
proof -
  have "unat (drop_bit 7 v) = unat v div 2 ^ 7" by (simp add: drop_bit_eq_div unat_div_distrib)
  then have "drop_bit 7 v = 0 \<longleftrightarrow> unat v div 2 ^ 7 = 0"
    by (metis unat_eq_zero)
  then show ?thesis by (simp add: div_eq_0_iff word_less_nat_alt)
qed

lemma drop_64_32: "drop_bit 7 (ucast (v::u32) :: u64) = 0 \<longleftrightarrow> drop_bit 7 v = 0"
  "drop_bit 7 (drop_bit 7 (ucast (v::u32) :: u64)) = 0 \<longleftrightarrow> drop_bit 14 v = 0"
  by (simp_all add: drop_ucast ucast64_eq_0)

lemma putVarint32_eq: "putVarint32 v = sqlite3PutVarint (ucast v)"
proof -
  note short = PutVarint_short [OF ucast_32_short [of v]]
  consider (one) "drop_bit 7 v = 0" | (two) "drop_bit 7 v \<noteq> 0" "drop_bit 14 v = 0"
    | (more) "drop_bit 7 v \<noteq> 0" "drop_bit 14 v \<noteq> 0"
    by blast
  then show ?thesis
  proof cases
    case one
    have "group7 (ucast v) AND 0x7f = ucast v"
    proof (rule u8_eqI, intro allI impI)
      fix n :: nat assume "n < 8"
      have "bit (drop_bit 7 v) 0 = False" using one by simp
      then have "\<not> bit v 7" by (simp add: bit_drop_bit_eq)
      with \<open>n < 8\<close> show "bit (group7 (ucast v) AND 0x7f) n = bit (ucast v :: u8) n"
        by (simp add: numeral_eq_Suc less_Suc_eq) (auto simp: bit_rules)
    qed
    with one show ?thesis
      unfolding putVarint32_def less_128_32 short by (simp add: varint_conts_def drop_64_32)
  next
    case two
    have b: "varint_buf (drop_bit 7 (ucast v)) = [group7 (drop_bit 7 (ucast v))]"
      using two by (subst varint_buf.simps) (simp only: drop_64_32, simp)
    have "group7 (drop_bit 7 (ucast v)) = ucast (drop_bit 7 v OR 0x80)"
    proof (rule u8_eqI, intro allI impI)
      fix n :: nat assume "n < 8"
      then show "bit (group7 (drop_bit 7 (ucast v))) n = bit (ucast (drop_bit 7 v OR 0x80) :: u8) n"
        by (simp add: numeral_eq_Suc less_Suc_eq) (auto simp: bit_rules)
    qed
    moreover have "group7 (ucast v) AND 0x7f = ucast (v AND 0x7f)"
      by (rule u8_eqI, simp only: each_bit, simp add: bit_rules)
    ultimately show ?thesis using two b
      unfolding putVarint32_def less_128_32 sqlite3PutVarint32_def and_not_3fff short
      by (simp add: varint_conts_def drop_64_32)
  next
    case more
    then show ?thesis
      unfolding putVarint32_def less_128_32 sqlite3PutVarint32_def and_not_3fff by simp
  qed
qed

section \<open>Properties\<close>

text \<open>
  C1: an encoded integer decodes to itself. Whatever follows the bytes stored by
  \<^verbatim>\<open>sqlite3PutVarint\<close>, \<^verbatim>\<open>sqlite3GetVarint\<close> returns the value, and reports as consumed exactly
  the bytes stored; these are between one and nine, as many as \<^verbatim>\<open>sqlite3VarintLen\<close> announces.
\<close>

theorem varint_roundtrip:
  "starts_with p (sqlite3PutVarint v) \<Longrightarrow>
     sqlite3GetVarint p = (v, length (sqlite3PutVarint v)) \<and>
     length (sqlite3PutVarint v) = sqlite3VarintLen v \<and>
     1 \<le> sqlite3VarintLen v \<and> sqlite3VarintLen v \<le> 9"
  using PutVarint_roundtrip [of p v] PutVarint_length [of v] by (simp add: VarintLen_put)

theorem varint_roundtrip_witness:
  "sqlite3GetVarint ((!) [0x81, 0x80, 0x80, 0x00]) = (0x200000, 4)"
proof -
  have put: "sqlite3PutVarint 0x200000 = [0x81, 0x80, 0x80, 0x00]"
    by (simp add: sqlite3PutVarint_def varint_buf.simps)
  show ?thesis
    using varint_roundtrip [of "(!) [0x81, 0x80, 0x80, 0x00]" "0x200000"]
    by (simp add: put starts_with_def)
qed

text \<open>
  C16: the unrolled 32-bit arithmetic of \<^verbatim>\<open>sqlite3GetVarint\<close> computes the byte-at-a-time
  reference decoder on every input, for every length from one to nine.
\<close>

theorem GetVarint_is_reference: "sqlite3GetVarint p = varint_ref 0 0 p"
  by (rule GetVarint_ref)

text \<open>
  the 32-bit decoder, through the macro its callers use, returns the low 32 bits of what
  the 64-bit decoder returns and consumes the same bytes, also on over-long (corrupt) input;
  and the 32-bit encoder stores the bytes of the 64-bit one.
\<close>

theorem varint32_agrees:
  "getVarint32 p = (case sqlite3GetVarint p of (v, n) \<Rightarrow> (ucast v, n)) \<and>
   putVarint32 w = sqlite3PutVarint (ucast w)"
  by (simp add: getVarint32_eq putVarint32_eq)

end
