(* ===== verification/BtreePage.thy ===== *)
theory BtreePage
  imports Varint
begin

text \<open>
  The page layer of SQLite's b-tree (\<^verbatim>\<open>btree.c\<close>, \<^verbatim>\<open>btreeInt.h\<close>): a page is a header, an array
  of two-byte cell pointers, a gap, and the cell content area, in which cells, a chain of free
  blocks and at most 255 stray bytes lie. The functions here parse cells, give out and take back
  space, defragment a page, and insert and remove cells.

  A page is its bytes and the fields of \<^verbatim>\<open>MemPage\<close>; 16-bit fields are natural numbers, and
  every assignment that the C code truncates to 16 bits is written with \<open>u16n\<close>. An operation
  is \<open>None\<close> as a whole where the code follows a chain of free blocks that does not end, which
  a corrupt page can have.
\<close>

section \<open>The state\<close>

definition u16n :: "nat \<Rightarrow> nat" where "u16n x = x mod 65536"

text \<open>Subtraction in 16 bits.\<close>

definition sub16 :: "nat \<Rightarrow> nat \<Rightarrow> nat" where "sub16 x y = (x + (65536 - y mod 65536)) mod 65536"

text \<open>The part of \<^verbatim>\<open>BtShared\<close> the page layer reads.\<close>

record btshared =
  pageSize :: nat
  usableSize :: nat
  bt_maxLocal :: nat
  bt_minLocal :: nat
  bt_maxLeaf :: nat
  bt_minLeaf :: nat
  autoVacuum :: bool

record mempage =
  isInit :: bool
  intKey :: bool
  leaf :: bool
  hasData :: bool
  hdrOffset :: nat
  childPtrSize :: nat
  maxLocal :: nat
  minLocal :: nat
  cellOffset :: nat
  nFree :: nat
  nCell :: nat
  maskPage :: nat
  aOvfl :: "(bytes \<times> nat) list"
  pBt :: btshared
  aData :: bytes
  pgno :: u32

abbreviation usable :: "mempage \<Rightarrow> nat" where "usable pg \<equiv> usableSize (pBt pg)"

definition get2byte :: "bytes \<Rightarrow> nat \<Rightarrow> nat" where
  "get2byte d a = unat (d a) * 256 + unat (d (a + 1))"

definition put2byte :: "bytes \<Rightarrow> nat \<Rightarrow> nat \<Rightarrow> bytes" where
  "put2byte d a v = d(a := word_of_nat (v div 256), a + 1 := word_of_nat v)"

text \<open>\<^verbatim>\<open>memcpy\<close> of \<open>n\<close> bytes and \<^verbatim>\<open>memset\<close> with zero\<close>

definition copy_bytes :: "bytes \<Rightarrow> nat \<Rightarrow> bytes \<Rightarrow> nat \<Rightarrow> nat \<Rightarrow> bytes" where
  "copy_bytes d dst s src n = (\<lambda>a. if dst \<le> a \<and> a < dst + n then s (src + (a - dst)) else d a)"

definition zero_bytes :: "bytes \<Rightarrow> nat \<Rightarrow> nat \<Rightarrow> bytes" where
  "zero_bytes d dst n = (\<lambda>a. if dst \<le> a \<and> a < dst + n then 0 else d a)"

abbreviation at_offset :: "bytes \<Rightarrow> nat \<Rightarrow> bytes" where
  "at_offset d a \<equiv> \<lambda>i. d (a + i)"

section \<open>Cells\<close>

record cellinfo =
  nKey :: u64
  nData :: nat
  nPayload :: nat
  nHeader :: nat
  nLocal :: nat
  iOverflow :: nat
  nSize :: nat

text \<open>\<^verbatim>\<open>lockBtree\<close>: the limits of the local payload, for a usable size \<open>n\<close>.\<close>

definition local_limits :: "btshared \<Rightarrow> nat \<Rightarrow> btshared" where
  "local_limits bt n = bt\<lparr>bt_maxLocal := (n - 12) * 64 div 255 - 23, bt_minLocal := (n - 12) * 32 div 255 - 23,
     bt_maxLeaf := n - 35, bt_minLeaf := (n - 12) * 32 div 255 - 23\<rparr>"

definition parse_header :: "mempage \<Rightarrow> bytes \<Rightarrow> u64 \<times> nat \<times> nat \<times> nat" where
  "parse_header pg p =
    (let n = childPtrSize pg
     in if intKey pg then
          let (pay, n) = (if hasData pg then let (v, l) = getVarint32 (at_offset p n) in (unat v, n + l) else (0, n));
              (key, l) = sqlite3GetVarint (at_offset p n)
          in (key, pay, pay, n + l)
        else
          let (v, l) = getVarint32 (at_offset p n)
          in (ucast v, 0, unat v, n + l))"

definition sqlite3BtreeParseCellPtr :: "mempage \<Rightarrow> bytes \<Rightarrow> cellinfo" where
  "sqlite3BtreeParseCellPtr pg p =
    (let (key, dat, pay, n) = parse_header pg p
     in if pay \<le> maxLocal pg then
          let sz = pay + n;
              sz = (if sz < 4 then 4 else sz)
          in \<lparr>nKey = key, nData = dat, nPayload = pay, nHeader = n, nLocal = u16n pay, iOverflow = 0, nSize = u16n sz\<rparr>
        else
          let surplus = minLocal pg + (pay - minLocal pg) mod (usable pg - 4);
              loc = u16n (if surplus \<le> maxLocal pg then surplus else minLocal pg);
              ov = u16n (loc + n)
          in \<lparr>nKey = key, nData = dat, nPayload = pay, nHeader = n, nLocal = loc, iOverflow = ov, nSize = u16n (ov + 4)\<rparr>)"

definition cellSizePtr :: "mempage \<Rightarrow> bytes \<Rightarrow> nat" where
  "cellSizePtr pg p = nSize (sqlite3BtreeParseCellPtr pg p)"

text \<open>
  \<^verbatim>\<open>findCell\<close>: the offset of a cell. The mask is \<^verbatim>\<open>pageSize-1\<close> for a power of two, which is the
  remainder.
\<close>

definition findCell :: "mempage \<Rightarrow> nat \<Rightarrow> nat" where
  "findCell pg i = get2byte (aData pg) (cellOffset pg + 2 * i) mod (maskPage pg + 1)"

definition sqlite3BtreeParseCell :: "mempage \<Rightarrow> nat \<Rightarrow> cellinfo" where
  "sqlite3BtreeParseCell pg i = sqlite3BtreeParseCellPtr pg (at_offset (aData pg) (findCell pg i))"

definition cellSize :: "mempage \<Rightarrow> nat \<Rightarrow> nat" where
  "cellSize pg i = nSize (sqlite3BtreeParseCell pg i)"

fun findOverflow_loop :: "(bytes \<times> nat) list \<Rightarrow> nat \<Rightarrow> bytes + nat" where
  "findOverflow_loop [] iCell = Inr iCell"
| "findOverflow_loop ((c, k) # os) iCell =
    (if k \<le> iCell then if k = iCell then Inl c else findOverflow_loop os (iCell - 1)
     else findOverflow_loop os iCell)"

text \<open>The loop runs from the last overflow cell to the first.\<close>

definition findOverflowCell :: "mempage \<Rightarrow> nat \<Rightarrow> bytes" where
  "findOverflowCell pg iCell = (case findOverflow_loop (rev (aOvfl pg)) iCell of
     Inl c \<Rightarrow> c | Inr i \<Rightarrow> at_offset (aData pg) (findCell pg i))"

section \<open>Space on a page\<close>

text \<open>The loop of \<^verbatim>\<open>defragmentPage\<close> over the cells still to move.\<close>

fun defrag_loop :: "mempage \<Rightarrow> bytes \<Rightarrow> nat list \<Rightarrow> nat \<Rightarrow> bytes \<Rightarrow> (nat option \<times> bytes)" where
  "defrag_loop pg temp [] cbrk d = (Some cbrk, d)"
| "defrag_loop pg temp (i # js) cbrk d =
    (let pAddr = cellOffset pg + 2 * i; pc = get2byte d pAddr
     in if usable pg \<le> pc then (None, d)
        else let sz = cellSizePtr pg (at_offset temp pc)
             in if cbrk < sz + cellOffset pg + 2 * nCell pg \<or> usable pg < pc + sz then (None, d)
                else let cbrk = cbrk - sz
                     in defrag_loop pg temp js cbrk (put2byte (copy_bytes d cbrk temp pc sz) pAddr cbrk))"

text \<open>\<open>tmp\<close> is what the pager's scratch space held before.\<close>

definition defragmentPage :: "bytes \<Rightarrow> mempage \<Rightarrow> rc \<times> mempage" where
  "defragmentPage tmp pg =
    (let d = aData pg; hdr = hdrOffset pg;
         cbrk = get2byte d (hdr + 5);
         temp = copy_bytes tmp cbrk d cbrk (usable pg - cbrk)
     in case defrag_loop pg temp [0..<nCell pg] (usable pg) d of
          (None, d) \<Rightarrow> (SQLITE_CORRUPT, pg\<lparr>aData := d\<rparr>)
        | (Some cbrk, d) \<Rightarrow>
            let d = put2byte d (hdr + 5) cbrk;
                d = d(hdr + 1 := 0, hdr + 2 := 0, hdr + 7 := 0);
                addr = cellOffset pg + 2 * nCell pg;
                d = zero_bytes d addr (cbrk - addr)
            in (if cbrk - addr \<noteq> nFree pg then SQLITE_CORRUPT else SQLITE_OK, pg\<lparr>aData := d\<rparr>))"

partial_function (option) slot_loop :: "bytes \<Rightarrow> nat \<Rightarrow> nat \<Rightarrow> (nat \<times> nat) option option" where
  "slot_loop d addr nByte =
    (let pc = get2byte d addr
     in if 0 < pc then
          if nByte \<le> get2byte d (pc + 2) then Some (Some (addr, pc)) else slot_loop d pc nByte
        else Some None)"

definition allocateGap :: "bytes \<Rightarrow> mempage \<Rightarrow> nat \<Rightarrow> nat \<times> mempage" where
  "allocateGap tmp pg nByte =
    (let hdr = hdrOffset pg; d = aData pg;
         nFrag = unat (d (hdr + 7)); top = get2byte d (hdr + 5); n = get2byte d (hdr + 3);
         pg = (if 60 \<le> nFrag \<or> top < cellOffset pg + 2 * n + nByte then snd (defragmentPage tmp pg) else pg);
         top = get2byte (aData pg) (hdr + 5) - nByte
     in (top, pg\<lparr>aData := put2byte (aData pg) (hdr + 5) top\<rparr>))"

definition allocateSpace :: "bytes \<Rightarrow> mempage \<Rightarrow> nat \<Rightarrow> (nat \<times> mempage) option" where
  "allocateSpace tmp pg nByte =
    (let pg = pg\<lparr>nFree := sub16 (nFree pg) nByte\<rparr>;
         hdr = hdrOffset pg; d = aData pg; nFrag = unat (d (hdr + 7))
     in case (if nFrag < 60 then slot_loop d (hdr + 1) nByte else Some None) of
          None \<Rightarrow> None
        | Some (Some (addr, pc)) \<Rightarrow>
            let sz = get2byte d (pc + 2); x = sz - nByte
            in if sz < nByte + 4
               then Some (pc, pg\<lparr>aData := (copy_bytes d addr d pc 2)(hdr + 7 := word_of_nat (nFrag + x))\<rparr>)
               else Some (pc + x, pg\<lparr>aData := put2byte d (pc + 2) x\<rparr>)
        | Some None \<Rightarrow> Some (allocateGap tmp pg nByte))"

text \<open>The place of a block of the chain: \<open>Inl\<close> for a chain that does not ascend.\<close>

function place_loop :: "bytes \<Rightarrow> nat \<Rightarrow> nat \<Rightarrow> unit + nat \<times> nat" where
  "place_loop d addr start =
    (let pbegin = get2byte d addr
     in if pbegin < start \<and> 0 < pbegin then
          if pbegin \<le> addr then Inl () else place_loop d pbegin start
        else Inr (addr, pbegin))"
  by auto

termination place_loop
  by (relation "measure (\<lambda>(d, addr, start). start - addr)") auto

declare place_loop.simps [simp del]

partial_function (option) coalesce_loop :: "bytes \<Rightarrow> nat \<Rightarrow> nat \<Rightarrow> (rc \<times> bytes) option" where
  "coalesce_loop d hdr addr =
    (let pbegin = get2byte d addr
     in if 0 < pbegin then
          let pnext = get2byte d pbegin; psize = get2byte d (pbegin + 2)
          in if pnext \<le> pbegin + psize + 3 \<and> 0 < pnext then
               if pnext < pbegin + psize \<or> unat (d (hdr + 7)) < pnext - (pbegin + psize) then Some (SQLITE_CORRUPT, d)
               else
                 let d = d(hdr + 7 := d (hdr + 7) - word_of_nat (pnext - (pbegin + psize)));
                     d = put2byte d pbegin (get2byte d pnext);
                     d = put2byte d (pbegin + 2) (pnext + get2byte d (pnext + 2) - pbegin)
                 in coalesce_loop d hdr addr
             else coalesce_loop d hdr pbegin
        else Some (SQLITE_OK, d))"

definition freeSpace :: "mempage \<Rightarrow> nat \<Rightarrow> nat \<Rightarrow> (rc \<times> mempage) option" where
  "freeSpace pg start sz =
    (let d = aData pg; hdr = hdrOffset pg
     in case place_loop d (hdr + 1) start of
          Inl _ \<Rightarrow> Some (SQLITE_CORRUPT, pg)
        | Inr (addr, pbegin) \<Rightarrow>
            if usable pg - 4 < pbegin then Some (SQLITE_CORRUPT, pg)
            else
              let d = put2byte (put2byte (put2byte d addr start) start pbegin) (start + 2) sz;
                  pg = pg\<lparr>nFree := u16n (nFree pg + sz)\<rparr>
              in case coalesce_loop d hdr (hdr + 1) of
                   None \<Rightarrow> None
                 | Some (rc, d) \<Rightarrow>
                     if rc \<noteq> SQLITE_OK then Some (rc, pg\<lparr>aData := d\<rparr>)
                     else if d (hdr + 1) = d (hdr + 5) \<and> d (hdr + 2) = d (hdr + 6) then
                       let pbegin = get2byte d (hdr + 1);
                           d = copy_bytes d (hdr + 1) d pbegin 2;
                           top = get2byte d (hdr + 5) + get2byte d (pbegin + 2)
                       in Some (SQLITE_OK, pg\<lparr>aData := put2byte d (hdr + 5) top\<rparr>)
                     else Some (SQLITE_OK, pg\<lparr>aData := d\<rparr>))"

section \<open>Headers\<close>

definition PTF_INTKEY :: nat where "PTF_INTKEY = 1"
definition PTF_ZERODATA :: nat where "PTF_ZERODATA = 2"
definition PTF_LEAFDATA :: nat where "PTF_LEAFDATA = 4"
definition PTF_LEAF :: nat where "PTF_LEAF = 8"

text \<open>
  A flags byte of 16 or more leaves other values in \<open>leaf\<close> and \<open>childPtrSize\<close> than here, but
  the result is \<open>SQLITE_CORRUPT\<close> then.
\<close>

definition decodeFlags :: "mempage \<Rightarrow> nat \<Rightarrow> rc \<times> mempage" where
  "decodeFlags pg flagByte =
    (let lf = flagByte div 8 \<noteq> 0;
         pg = pg\<lparr>leaf := lf, childPtrSize := (if lf then 0 else 4)\<rparr>;
         flagByte = (if odd (flagByte div 8) then flagByte - PTF_LEAF else flagByte);
         bt = pBt pg
     in if flagByte = PTF_LEAFDATA + PTF_INTKEY then
          (SQLITE_OK, pg\<lparr>intKey := True, hasData := lf, maxLocal := bt_maxLeaf bt, minLocal := bt_minLeaf bt\<rparr>)
        else if flagByte = PTF_ZERODATA then
          (SQLITE_OK, pg\<lparr>intKey := False, hasData := False, maxLocal := bt_maxLocal bt, minLocal := bt_minLocal bt\<rparr>)
        else (SQLITE_CORRUPT, pg))"

text \<open>The free blocks of a page: their total size, or \<open>None\<close> for a corrupt chain.\<close>

function nfree_loop :: "bytes \<Rightarrow> nat \<Rightarrow> nat \<Rightarrow> nat \<Rightarrow> nat option" where
  "nfree_loop d usz pc nf =
    (if 0 < pc then
       if usz < pc + 4 then None
       else
         let nxt = get2byte d pc; sz = get2byte d (pc + 2)
         in if 0 < nxt \<and> nxt \<le> pc + sz + 3 then None else nfree_loop d usz nxt (u16n (nf + sz))
     else Some nf)"
  by auto

termination nfree_loop
  by (relation "measure (\<lambda>(d, u, pc, n). if pc = 0 then 0 else u + 1 - pc)") auto

declare nfree_loop.simps [simp del]

definition sqlite3BtreeInitPage :: "mempage \<Rightarrow> rc \<times> mempage" where
  "sqlite3BtreeInitPage pg =
    (if isInit pg then (SQLITE_OK, pg)
     else
       let hdr = hdrOffset pg; d = aData pg; bt = pBt pg
       in case decodeFlags pg (unat (d hdr)) of (rc, pg) \<Rightarrow>
          if rc \<noteq> SQLITE_OK then (SQLITE_CORRUPT, pg)
          else
            let pg = pg\<lparr>maskPage := pageSize bt - 1, aOvfl := []\<rparr>;
                pg = pg\<lparr>cellOffset := hdr + 12 - (if leaf pg then 4 else 0)\<rparr>;
                top = get2byte d (hdr + 5);
                pg = pg\<lparr>nCell := get2byte d (hdr + 3)\<rparr>
            in if (pageSize bt - 8) div 6 < nCell pg then (SQLITE_CORRUPT, pg)
               else
                 case nfree_loop d (usableSize bt) (get2byte d (hdr + 1)) (sub16 (unat (d (hdr + 7)) + top) (cellOffset pg + 2 * nCell pg)) of
                   None \<Rightarrow> (SQLITE_CORRUPT, pg)
                 | Some n \<Rightarrow>
                     let pg = pg\<lparr>nFree := n\<rparr>
                     in if usableSize bt \<le> n then (SQLITE_CORRUPT, pg) else (SQLITE_OK, pg\<lparr>isInit := True\<rparr>))"

definition zeroPage :: "mempage \<Rightarrow> nat \<Rightarrow> mempage" where
  "zeroPage pg flags =
    (let d = aData pg; hdr = hdrOffset pg; bt = pBt pg;
         d = d(hdr := word_of_nat flags);
         first = hdr + 8 + 4 * (if even (flags div 8) then 1 else 0);
         d = zero_bytes d (hdr + 1) 4;
         d = d(hdr + 7 := 0);
         d = put2byte d (hdr + 5) (usableSize bt);
         pg = pg\<lparr>aData := d, nFree := u16n (usableSize bt - first)\<rparr>;
         pg = snd (decodeFlags pg flags)
     in pg\<lparr>hdrOffset := hdr, cellOffset := first, aOvfl := [], maskPage := pageSize bt - 1, nCell := 0, isInit := True\<rparr>)"

section \<open>Cells come and go\<close>

text \<open>The loop that moves the cell pointers behind \<open>idx\<close> down, from the pointer at \<open>ptr\<close>.\<close>

fun drop_loop :: "nat \<Rightarrow> bytes \<Rightarrow> nat \<Rightarrow> bytes" where
  "drop_loop 0 d ptr = d"
| "drop_loop (Suc k) d ptr =
    (let d = d(ptr := d (ptr + 2)); d = d(ptr + 1 := d (ptr + 3)) in drop_loop k d (ptr + 2))"

definition dropCell :: "mempage \<Rightarrow> nat \<Rightarrow> nat \<Rightarrow> (rc \<times> mempage) option" where
  "dropCell pg idx sz =
    (let ptr = cellOffset pg + 2 * idx; pc = get2byte (aData pg) ptr
     in if pc < hdrOffset pg + 6 + (if leaf pg then 0 else 4) \<or> usable pg < pc + sz then Some (SQLITE_CORRUPT, pg)
        else case freeSpace pg pc sz of
          None \<Rightarrow> None
        | Some (rc, pg) \<Rightarrow>
            if rc \<noteq> SQLITE_OK then Some (rc, pg)
            else
              let d = drop_loop (nCell pg - (idx + 1)) (aData pg) ptr;
                  pg = pg\<lparr>nCell := nCell pg - 1\<rparr>
              in Some (SQLITE_OK, pg\<lparr>aData := put2byte d (hdrOffset pg + 3) (nCell pg), nFree := u16n (nFree pg + 2)\<rparr>))"

text \<open>The loop that moves the cell pointers above \<open>ins\<close> up, from the place \<open>j\<close> behind the last.\<close>

function insert_loop :: "bytes \<Rightarrow> nat \<Rightarrow> nat \<Rightarrow> bytes" where
  "insert_loop d ins j =
    (if ins < j then let d = d(j := d (j - 2)); d = d(j + 1 := d (j - 1)) in insert_loop d ins (j - 2) else d)"
  by auto

termination insert_loop
  by (relation "measure (\<lambda>(d, ins, j). j - ins)") auto

declare insert_loop.simps [simp del]

text \<open>
  \<open>pCell\<close> is the cell, \<open>pTemp\<close> the bytes of the scratch buffer, if there is one; \<open>ptrmap\<close> is
  the call \<^verbatim>\<open>ptrmapPut(pBt, key, PTRMAP_OVERFLOW1, pgno)\<close> on the pointer map \<open>m\<close>, and \<open>wr\<close>
  the result of \<^verbatim>\<open>sqlite3PagerWrite\<close>.
\<close>

definition insertCell :: "(u32 \<Rightarrow> u32 \<Rightarrow> 'm \<Rightarrow> rc \<times> 'm) \<Rightarrow> rc \<Rightarrow> bytes \<Rightarrow> mempage \<Rightarrow> 'm \<Rightarrow> nat \<Rightarrow> bytes \<Rightarrow> nat \<Rightarrow> bytes option \<Rightarrow> nat \<Rightarrow>
    (rc \<times> mempage \<times> 'm) option" where
  "insertCell ptrmap wr tmp pg m i pCell sz pTemp nSkip =
    (if aOvfl pg \<noteq> [] \<or> nFree pg < sz + 2 then
       let c = (case pTemp of None \<Rightarrow> pCell | Some t \<Rightarrow> copy_bytes t nSkip pCell nSkip (sz - nSkip))
       in Some (SQLITE_OK, pg\<lparr>aOvfl := aOvfl pg @ [(c, u16n i)], nFree := 0\<rparr>, m)
     else if wr \<noteq> SQLITE_OK then Some (wr, pg, m)
     else
       let hdr = hdrOffset pg; top = get2byte (aData pg) (hdr + 5);
           end = cellOffset pg + 2 * nCell pg + 2; ins = cellOffset pg + 2 * i;
           (rc, pg) = (if top < end + sz then defragmentPage tmp pg else (SQLITE_OK, pg))
       in if rc \<noteq> SQLITE_OK then Some (rc, pg, m)
          else case allocateSpace tmp pg sz of
            None \<Rightarrow> None
          | Some (idx, pg) \<Rightarrow>
              if usable pg < idx + sz then Some (SQLITE_CORRUPT, pg, m)
              else
                let pg = pg\<lparr>nCell := u16n (nCell pg + 1), nFree := sub16 (nFree pg) 2\<rparr>;
                    d = copy_bytes (aData pg) (idx + nSkip) pCell nSkip (sz - nSkip);
                    d = insert_loop d ins (end - 2);
                    d = put2byte d ins idx;
                    pg = pg\<lparr>aData := put2byte d (hdr + 3) (nCell pg)\<rparr>
                in if autoVacuum (pBt pg) then
                     let info = sqlite3BtreeParseCellPtr pg pCell
                     in if nLocal info < nData info + (if intKey pg then 0 else unat (nKey info)) then
                          let (rc, m) = ptrmap (sqlite3Get4byte (at_offset pCell (iOverflow info))) (pgno pg) m
                          in Some (rc, pg, m)
                        else Some (SQLITE_OK, pg, m)
                   else Some (SQLITE_OK, pg, m))"

fun assemble_loop :: "u8 list list \<Rightarrow> nat \<Rightarrow> nat \<Rightarrow> bytes \<Rightarrow> bytes" where
  "assemble_loop [] cellptr cellbody d = d"
| "assemble_loop (c # cs) cellptr cellbody d =
    (let d = put2byte d cellptr cellbody;
         d = copy_bytes d cellbody (\<lambda>i. c ! i) 0 (length c)
     in assemble_loop cs (cellptr + 2) (cellbody + length c) d)"

definition assemblePage :: "bytes \<Rightarrow> mempage \<Rightarrow> u8 list list \<Rightarrow> mempage option" where
  "assemblePage tmp pg cells =
    (let total = sum_list (map length cells); n = length cells;
         pg = pg\<lparr>aData := put2byte (aData pg) (hdrOffset pg + 3) n\<rparr>
     in if 0 < n then
          case allocateSpace tmp pg total of None \<Rightarrow> None
          | Some (cellbody, pg) \<Rightarrow>
              let pg = pg\<lparr>nFree := sub16 (nFree pg) (2 * n)\<rparr>
              in Some (pg\<lparr>aData := assemble_loop cells (cellOffset pg) cellbody (aData pg), nCell := u16n n\<rparr>)
        else Some (pg\<lparr>nCell := u16n n\<rparr>))"


section \<open>Bytes\<close>

lemma get2_less: "get2byte d a < 65536"
proof -
  have "unat (d a) < 256" "unat (d (a + 1)) < 256" using unsigned_less [of "d a"] unsigned_less [of "d (a + 1)"] by simp_all
  then show ?thesis by (simp add: get2byte_def)
qed

lemma get_put2: "v < 65536 \<Longrightarrow> get2byte (put2byte d a v) a = v"
  by (simp add: get2byte_def put2byte_def unat_of_nat take_bit_eq_mod less_mult_imp_div_less)

lemma get2_cong: "d' a = d a \<Longrightarrow> d' (a + 1) = d (a + 1) \<Longrightarrow> get2byte d' a = get2byte d a"
  by (simp add: get2byte_def)

lemma put2_other: "b \<noteq> a \<Longrightarrow> b \<noteq> a + 1 \<Longrightarrow> put2byte d a v b = d b"
  by (simp add: put2byte_def)

lemma get_put2_other: "b + 2 \<le> a \<or> a + 2 \<le> b \<Longrightarrow> get2byte (put2byte d a v) b = get2byte d b"
  by (rule get2_cong; rule put2_other) auto

section \<open>Parsing depends on the header of the cell alone\<close>

lemma varint_ref_grows: "k < snd (varint_ref k v p)"
proof (induction k v p rule: varint_ref.induct)
  case (1 k v p)
  show ?case
  proof (cases "8 \<le> k")
    case False
    then show ?thesis using 1 by (subst varint_ref.simps) (auto simp: not_le intro: Suc_lessD)
  qed (subst varint_ref.simps, simp)
qed

lemma varint_ref_cong:
  "(\<And>i. k \<le> i \<Longrightarrow> i < snd (varint_ref k v p) \<Longrightarrow> q i = p i) \<Longrightarrow> varint_ref k v q = varint_ref k v p"
proof (induction k v p rule: varint_ref.induct)
  case (1 k v p)
  have k: "q k = p k" using varint_ref_grows "1.prems" by blast
  show ?case
  proof (cases "8 \<le> k")
    case True
    then show ?thesis using k by (subst (1 2) varint_ref.simps) simp
  next
    case False
    show ?thesis
    proof (cases "bit (p k) 7")
      case True
      have e: "varint_ref k v p = varint_ref (Suc k) (vstep v (p k)) p" using False True by (subst varint_ref.simps) simp
      have "varint_ref (Suc k) (vstep v (p k)) q = varint_ref (Suc k) (vstep v (p k)) p"
        by (rule "1.IH" [OF False True]) (use "1.prems" e in simp)
      then show ?thesis using False True k by (subst (1 2) varint_ref.simps) simp
    next
      case nb: False
      then show ?thesis using False k by (subst (1 2) varint_ref.simps) simp
    qed
  qed
qed

lemma GetVarint_cong: "(\<And>i. i < snd (sqlite3GetVarint p) \<Longrightarrow> q i = p i) \<Longrightarrow> sqlite3GetVarint q = sqlite3GetVarint p"
  unfolding GetVarint_ref by (rule varint_ref_cong) simp

lemma varint_ref_len: "k \<le> 8 \<Longrightarrow> snd (varint_ref k v p) \<le> 9"
proof (induction k v p rule: varint_ref.induct)
  case (1 k v p)
  then show ?case by (subst varint_ref.simps) auto
qed

lemma GetVarint_len: "0 < snd (sqlite3GetVarint p)" "snd (sqlite3GetVarint p) \<le> 9"
  unfolding GetVarint_ref using varint_ref_grows [of 0] varint_ref_len [of 0] by simp_all

lemma getVarint32_snd: "snd (getVarint32 p) = snd (sqlite3GetVarint p)"
  by (simp add: getVarint32_eq split: prod.splits)

lemma getVarint32_cong: "(\<And>i. i < snd (getVarint32 p) \<Longrightarrow> q i = p i) \<Longrightarrow> getVarint32 q = getVarint32 p"
  unfolding getVarint32_snd using GetVarint_cong [of p q] by (simp add: getVarint32_eq)

lemma parse_header_cong:
  assumes "parse_header pg p = (key, dat, pay, n)" "\<And>i. i < n \<Longrightarrow> q i = p i"
  shows "parse_header pg q = (key, dat, pay, n)"
proof -
  let ?c = "childPtrSize pg"
  have c32: "getVarint32 (at_offset q m) = getVarint32 (at_offset p m)" if "m + snd (getVarint32 (at_offset p m)) \<le> n" for m
    by (rule getVarint32_cong) (use assms(2) that in simp)
  have c64: "sqlite3GetVarint (at_offset q m) = sqlite3GetVarint (at_offset p m)" if "m + snd (sqlite3GetVarint (at_offset p m)) \<le> n" for m
    by (rule GetVarint_cong) (use assms(2) that in simp)
  show ?thesis
  proof (cases "intKey pg \<and> hasData pg")
    case True
    obtain v l where v: "getVarint32 (at_offset p ?c) = (v, l)" by (metis prod.exhaust)
    obtain k l' where k: "sqlite3GetVarint (at_offset p (?c + l)) = (k, l')" by (metis prod.exhaust)
    have n: "n = ?c + l + l'" "(key, dat, pay) = (k, unat v, unat v)" using assms(1) True v k by (simp_all add: parse_header_def)
    show ?thesis using True c32 [of ?c] c64 [of "?c + l"] v k n by (simp add: parse_header_def)
  next
    case False
    show ?thesis
    proof (cases "intKey pg")
      case True
      obtain k l' where k: "sqlite3GetVarint (at_offset p ?c) = (k, l')" by (metis prod.exhaust)
      have n: "n = ?c + l'" "(key, dat, pay) = (k, 0, 0)" using assms(1) True False k by (simp_all add: parse_header_def)
      show ?thesis using True False c64 [of ?c] k n by (simp add: parse_header_def)
    next
      case nk: False
      obtain v l where v: "getVarint32 (at_offset p ?c) = (v, l)" by (metis prod.exhaust)
      have n: "n = ?c + l" "(key, dat, pay) = (ucast v, 0, unat v)" using assms(1) nk v by (simp_all add: parse_header_def)
      show ?thesis using nk c32 [of ?c] v n by (simp add: parse_header_def)
    qed
  qed
qed

text \<open>What \<^verbatim>\<open>lockBtree\<close> and \<^verbatim>\<open>decodeFlags\<close> guarantee of the limits of a page.\<close>

definition limits_ok :: "mempage \<Rightarrow> bool" where
  "limits_ok pg \<longleftrightarrow> 480 \<le> usable pg \<and> usable pg \<le> 32768 \<and> minLocal pg \<le> maxLocal pg \<and> maxLocal pg \<le> usable pg - 35 \<and> childPtrSize pg \<le> 4"

lemma header_len: "parse_header pg p = (key, dat, pay, n) \<Longrightarrow> childPtrSize pg \<le> 4 \<Longrightarrow> 0 < n \<and> n \<le> 22"
proof -
  assume a: "parse_header pg p = (key, dat, pay, n)" "childPtrSize pg \<le> 4"
  have l: "getVarint32 x = (v, l) \<Longrightarrow> 0 < l \<and> l \<le> 9" "sqlite3GetVarint x = (w, l) \<Longrightarrow> 0 < l \<and> l \<le> 9" for x v w l
    using GetVarint_len [of x] getVarint32_snd [of x] by auto
  show ?thesis using a by (auto simp: parse_header_def Let_def split: prod.splits if_splits dest!: l)
qed

lemma cell_size:
  assumes "limits_ok pg"
  shows "4 \<le> cellSizePtr pg p" "cellSizePtr pg p < 65536" "nHeader (sqlite3BtreeParseCellPtr pg p) \<le> cellSizePtr pg p"
proof -
  obtain key dat pay n where h: "parse_header pg p = (key, dat, pay, n)" by (metis prod_cases4)
  have n: "0 < n" "n \<le> 22" using header_len [OF h] assms by (simp_all add: limits_ok_def)
  have m: "maxLocal pg < 32768 - 35 + 1" "minLocal pg \<le> maxLocal pg" using assms by (auto simp: limits_ok_def)
  define s where "s = minLocal pg + (pay - minLocal pg) mod (usable pg - 4)"
  define loc where "loc = (if s \<le> maxLocal pg then s else minLocal pg)"
  have loc: "loc < 32768" using m by (auto simp: loc_def)
  have e: "u16n loc = loc" "u16n (loc + n) = loc + n" "u16n (loc + n + 4) = loc + n + 4" using loc n by (simp_all add: u16n_def)
  have "4 \<le> cellSizePtr pg p \<and> cellSizePtr pg p < 65536 \<and> nHeader (sqlite3BtreeParseCellPtr pg p) \<le> cellSizePtr pg p"
  proof (cases "pay \<le> maxLocal pg")
    case True
    then have "u16n (pay + n) = pay + n" using m n by (simp add: u16n_def)
    then show ?thesis using h True n m by (auto simp: cellSizePtr_def sqlite3BtreeParseCellPtr_def Let_def u16n_def)
  next
    case False
    have "cellSizePtr pg p = loc + n + 4" "nHeader (sqlite3BtreeParseCellPtr pg p) = n"
      unfolding cellSizePtr_def sqlite3BtreeParseCellPtr_def using h False e
      by (simp_all add: Let_def s_def [symmetric] loc_def [symmetric])
    then show ?thesis using loc n by simp
  qed
  then show "4 \<le> cellSizePtr pg p" "cellSizePtr pg p < 65536" "nHeader (sqlite3BtreeParseCellPtr pg p) \<le> cellSizePtr pg p" by blast+
qed

lemma parse_cong:
  assumes "limits_ok pg" "\<And>i. i < cellSizePtr pg p \<Longrightarrow> q i = p i"
  shows "sqlite3BtreeParseCellPtr pg q = sqlite3BtreeParseCellPtr pg p"
proof -
  obtain key dat pay n where h: "parse_header pg p = (key, dat, pay, n)" by (metis prod_cases4)
  have "nHeader (sqlite3BtreeParseCellPtr pg p) = n" using h by (simp add: sqlite3BtreeParseCellPtr_def Let_def)
  then have "parse_header pg q = (key, dat, pay, n)"
    using cell_size(3) [OF assms(1), of p] assms(2) by (intro parse_header_cong [OF h]) simp
  then show ?thesis using h by (simp add: sqlite3BtreeParseCellPtr_def)
qed

section \<open>The chain of free blocks\<close>

type_synonym blocks = "(nat \<times> nat) list"

fun free_chain :: "bytes \<Rightarrow> nat \<Rightarrow> blocks \<Rightarrow> bool" where
  "free_chain d a [] \<longleftrightarrow> get2byte d a = 0"
| "free_chain d a ((pc, n) # fs) \<longleftrightarrow> get2byte d a = pc \<and> get2byte d (pc + 2) = n \<and> free_chain d pc fs"

fun free_seg :: "bytes \<Rightarrow> nat \<Rightarrow> blocks \<Rightarrow> bool" where
  "free_seg d a [] \<longleftrightarrow> True"
| "free_seg d a ((pc, n) # fs) \<longleftrightarrow> get2byte d a = pc \<and> get2byte d (pc + 2) = n \<and> free_seg d pc fs"

text \<open>Blocks of at least four bytes in ascending order, more than three bytes apart.\<close>

fun spaced :: "nat \<Rightarrow> nat \<Rightarrow> blocks \<Rightarrow> bool" where
  "spaced lo hi [] \<longleftrightarrow> True"
| "spaced lo hi ((a, n) # fs) \<longleftrightarrow> lo \<le> a \<and> 4 \<le> n \<and> a + n \<le> hi \<and> spaced (a + n + 4) hi fs"

definition free_bytes :: "blocks \<Rightarrow> nat set" where
  "free_bytes fs = (\<Union>(a, n) \<in> set fs. {a..<a + n})"

definition prev_link :: "nat \<Rightarrow> blocks \<Rightarrow> nat" where
  "prev_link a xs = (if xs = [] then a else fst (last xs))"

definition next_lo :: "nat \<Rightarrow> blocks \<Rightarrow> nat" where
  "next_lo lo xs = (if xs = [] then lo else fst (last xs) + snd (last xs) + 4)"

lemma prev_link_Cons [simp]: "prev_link a ((pc, n) # xs) = prev_link pc xs" "prev_link a [] = a"
  by (simp_all add: prev_link_def)

lemma next_lo_Cons [simp]: "next_lo lo ((pc, n) # xs) = next_lo (pc + n + 4) xs" "next_lo lo [] = lo"
  by (simp_all add: next_lo_def)

lemma free_chain_append: "free_chain d a (xs @ ys) \<longleftrightarrow> free_seg d a xs \<and> free_chain d (prev_link a xs) ys"
  by (induction xs arbitrary: a) auto

lemma spaced_append: "spaced lo hi (xs @ ys) \<longleftrightarrow> spaced lo hi xs \<and> spaced (next_lo lo xs) hi ys"
  by (induction xs arbitrary: lo) auto

lemma free_bytes_simps [simp]: "free_bytes [] = {}" "free_bytes ((a, n) # fs) = {a..<a + n} \<union> free_bytes fs"
  "free_bytes (xs @ ys) = free_bytes xs \<union> free_bytes ys"
  by (auto simp: free_bytes_def)

lemma free_bytes_finite [simp]: "finite (free_bytes fs)"
  by (auto simp: free_bytes_def)

lemma spaced_mono: "spaced lo hi fs \<Longrightarrow> lo' \<le> lo \<Longrightarrow> spaced lo' hi fs"
  by (cases fs) auto

lemma spaced_bytes: "spaced lo hi fs \<Longrightarrow> b \<in> free_bytes fs \<Longrightarrow> lo \<le> b \<and> b < hi"
  by (induction fs arbitrary: lo) fastforce+

lemma spaced_mem: "spaced lo hi fs \<Longrightarrow> (a, n) \<in> set fs \<Longrightarrow> lo \<le> a \<and> 4 \<le> n \<and> a + n \<le> hi"
  by (induction fs arbitrary: lo) fastforce+

lemma next_lo_ge: "spaced lo hi xs \<Longrightarrow> lo \<le> next_lo lo xs"
  by (induction xs arbitrary: lo) fastforce+

lemma spaced_before: "spaced lo hi xs \<Longrightarrow> b \<in> free_bytes xs \<Longrightarrow> b + 4 < next_lo lo xs"
proof (induction xs arbitrary: lo)
  case (Cons x xs)
  obtain a n where x: "x = (a, n)" by (rule prod.exhaust)
  then have "spaced (a + n + 4) hi xs" using Cons.prems by simp
  then show ?case using Cons x next_lo_ge [of "a + n + 4" hi xs] by auto
qed simp

lemma prev_link_bounds: "spaced lo hi xs \<Longrightarrow> a + 2 \<le> lo \<Longrightarrow> a \<le> prev_link a xs \<and> prev_link a xs + 2 \<le> next_lo lo xs"
proof (induction xs arbitrary: lo a)
  case (Cons x xs)
  obtain pc n where x: "x = (pc, n)" by (rule prod.exhaust)
  have "spaced (pc + n + 4) hi xs" "pc + 2 \<le> pc + n + 4" using Cons.prems x by auto
  from Cons.IH [OF this] show ?case using Cons.prems x by auto
qed simp

text \<open>The bytes of the chain: the first link and the four bytes at the start of every block.\<close>

lemma free_chain_cong:
  assumes "free_chain d a fs" "d' a = d a" "d' (a + 1) = d (a + 1)"
    "\<And>pc n i. (pc, n) \<in> set fs \<Longrightarrow> i < 4 \<Longrightarrow> d' (pc + i) = d (pc + i)"
  shows "free_chain d' a fs"
  using assms
proof (induction fs arbitrary: a)
  case (Cons x fs)
  obtain pc n where x: "x = (pc, n)" by (rule prod.exhaust)
  have e: "d' (pc + i) = d (pc + i)" if "i < 4" for i using Cons.prems(4) [of pc n i] x that by simp
  have "get2byte d' a = get2byte d a" by (rule get2_cong [OF Cons.prems(2,3)])
  moreover have "get2byte d' (pc + 2) = get2byte d (pc + 2)" using e [of 2] e [of 3] by (simp add: get2byte_def numeral_3_eq_3)
  moreover have "free_chain d' pc fs"
    by (rule Cons.IH) (use Cons.prems(1) Cons.prems(4) [OF list.set_intros(2)] x e [of 0] e [of 1] in simp_all)
  ultimately show ?case using Cons.prems(1) x by simp
qed (simp add: get2byte_def)

lemma free_seg_cong:
  assumes "free_seg d a xs" "spaced lo hi xs" "a + 2 \<le> lo"
    "\<And>b. b < next_lo lo xs \<Longrightarrow> b = a \<or> b = a + 1 \<or> b \<in> free_bytes xs \<Longrightarrow> b \<noteq> prev_link a xs \<Longrightarrow> b \<noteq> prev_link a xs + 1 \<Longrightarrow> d' b = d b"
  shows "free_seg d' a xs"
  using assms
proof (induction xs arbitrary: a lo)
  case (Cons x xs)
  obtain pc n where x: "x = (pc, n)" by (rule prod.exhaust)
  have s: "lo \<le> pc" "4 \<le> n" "spaced (pc + n + 4) hi xs" "pc + 2 \<le> pc + n + 4" using Cons.prems(2) x by auto
  note pb = prev_link_bounds [OF s(3,4)]
  have lo: "lo + 4 < next_lo lo (x # xs)" using s(1,2) next_lo_ge [OF s(3)] x by simp
  have a: "a + 2 \<le> pc" using s(1) Cons.prems(3) by simp
  have "d' b = d b" if "b = a \<or> b = a + 1" for b
    using Cons.prems(4) [of b] that x pb a lo s(1) Cons.prems(3) by auto
  then have "get2byte d' a = get2byte d a" by (intro get2_cong) simp_all
  moreover have "d' b = d b" if "b = pc + 2 \<or> b = pc + 3" for b
  proof -
    have "prev_link pc xs = pc \<or> pc + n + 4 \<le> prev_link pc xs"
      using s(3) spaced_mem [OF s(3), of "fst (last xs)" "snd (last xs)"] by (cases "xs = []") (auto simp: prev_link_def)
    moreover have "b \<in> free_bytes (x # xs)" using that x s(2) by auto
    moreover have "b < next_lo lo (x # xs)" using spaced_before [OF Cons.prems(2) calculation(2)] by simp
    ultimately show ?thesis using Cons.prems(4) [of b] that x s(2) by auto
  qed
  then have "get2byte d' (pc + 2) = get2byte d (pc + 2)" by (intro get2_cong) simp_all
  moreover have "free_seg d' pc xs"
  proof (rule Cons.IH [OF _ s(3,4)])
    show "free_seg d pc xs" using Cons.prems(1) x by simp
    fix b assume b: "b < next_lo (pc + n + 4) xs" "b = pc \<or> b = pc + 1 \<or> b \<in> free_bytes xs" "b \<noteq> prev_link pc xs" "b \<noteq> prev_link pc xs + 1"
    then have "b \<in> free_bytes (x # xs)" using x s(2) by auto
    then show "d' b = d b" using Cons.prems(4) [of b] b x by simp
  qed
  ultimately show ?case using Cons.prems(1) x by simp
qed simp

lemma free_seg_put: "free_seg d a xs \<Longrightarrow> spaced lo hi xs \<Longrightarrow> a + 2 \<le> lo \<Longrightarrow> free_seg (put2byte d (prev_link a xs) v) a xs"
  by (erule (2) free_seg_cong) (rule put2_other)

lemma slot_loop_ok:
  assumes "free_chain d addr fs" "spaced lo hi fs" "0 < lo"
  shows "slot_loop d addr n = Some None \<and> (\<forall>(pc, m) \<in> set fs. m < n) \<or>
    (\<exists>xs pc m ys. fs = xs @ (pc, m) # ys \<and> n \<le> m \<and> slot_loop d addr n = Some (Some (prev_link addr xs, pc)))"
  using assms
proof (induction fs arbitrary: addr lo)
  case Nil
  then show ?case by (subst slot_loop.simps) (simp add: Let_def)
next
  case (Cons x fs)
  obtain pc m where x: "x = (pc, m)" by (rule prod.exhaust)
  have c: "get2byte d addr = pc" "get2byte d (pc + 2) = m" "free_chain d pc fs" "0 < pc" "spaced (pc + m + 4) hi fs" "0 < pc + m + 4"
    using Cons.prems x by auto
  show ?case
  proof (cases "n \<le> m")
    case True
    then have "slot_loop d addr n = Some (Some (addr, pc))" using c by (subst slot_loop.simps) (simp add: Let_def)
    then show ?thesis using True x by (intro disjI2 exI [of _ "[]"] exI [of _ pc] exI [of _ m] exI [of _ fs]) simp
  next
    case False
    then have e: "slot_loop d addr n = slot_loop d pc n" using c by (subst slot_loop.simps) (simp add: Let_def)
    from Cons.IH [OF c(3,5,6)] show ?thesis
    proof
      assume "slot_loop d pc n = Some None \<and> (\<forall>(pc, m) \<in> set fs. m < n)"
      then show ?thesis using e False x by auto
    next
      assume "\<exists>xs pc' m' ys. fs = xs @ (pc', m') # ys \<and> n \<le> m' \<and> slot_loop d pc n = Some (Some (prev_link pc xs, pc'))"
      then obtain xs pc' m' ys where "fs = xs @ (pc', m') # ys" "n \<le> m'" "slot_loop d pc n = Some (Some (prev_link pc xs, pc'))" by blast
      then show ?thesis using e x by (intro disjI2 exI [of _ "x # xs"] exI [of _ pc'] exI [of _ m'] exI [of _ ys]) simp
    qed
  qed
qed

section \<open>The space of a page\<close>

definition page_top :: "mempage \<Rightarrow> nat" where
  "page_top pg = get2byte (aData pg) (hdrOffset pg + 5)"

definition ptr_end :: "mempage \<Rightarrow> nat" where
  "ptr_end pg = cellOffset pg + 2 * nCell pg"

text \<open>
  The chain of free blocks is \<open>fs\<close>, the bytes \<open>U\<close> of the content area are in use, and the
  remaining bytes there are counted in the header.
\<close>

definition space_ok :: "mempage \<Rightarrow> blocks \<Rightarrow> nat set \<Rightarrow> bool" where
  "space_ok pg fs U \<longleftrightarrow> limits_ok pg \<and> hdrOffset pg + 8 \<le> cellOffset pg \<and> ptr_end pg \<le> page_top pg \<and> page_top pg \<le> usable pg \<and>
     get2byte (aData pg) (hdrOffset pg + 3) = nCell pg \<and>
     free_chain (aData pg) (hdrOffset pg + 1) fs \<and> spaced (page_top pg) (usable pg) fs \<and>
     U \<subseteq> {page_top pg..<usable pg} \<and> U \<inter> free_bytes fs = {} \<and>
     unat (aData pg (hdrOffset pg + 7)) = card ({page_top pg..<usable pg} - U - free_bytes fs) \<and>
     nFree pg + ptr_end pg + card U = usable pg"

lemma space_okD:
  assumes "space_ok pg fs U"
  shows "limits_ok pg" "hdrOffset pg + 8 \<le> cellOffset pg" "ptr_end pg \<le> page_top pg" "page_top pg \<le> usable pg"
    "get2byte (aData pg) (hdrOffset pg + 3) = nCell pg" "free_chain (aData pg) (hdrOffset pg + 1) fs" "spaced (page_top pg) (usable pg) fs"
    "U \<subseteq> {page_top pg..<usable pg}" "U \<inter> free_bytes fs = {}"
    "unat (aData pg (hdrOffset pg + 7)) = card ({page_top pg..<usable pg} - U - free_bytes fs)"
    "nFree pg + ptr_end pg + card U = usable pg" "hdrOffset pg + 8 \<le> page_top pg" "usable pg \<le> 32768" "finite U"
proof -
  show "limits_ok pg" "hdrOffset pg + 8 \<le> cellOffset pg" "ptr_end pg \<le> page_top pg" "page_top pg \<le> usable pg"
    "get2byte (aData pg) (hdrOffset pg + 3) = nCell pg" "free_chain (aData pg) (hdrOffset pg + 1) fs" "spaced (page_top pg) (usable pg) fs"
    "U \<subseteq> {page_top pg..<usable pg}" "U \<inter> free_bytes fs = {}"
    "unat (aData pg (hdrOffset pg + 7)) = card ({page_top pg..<usable pg} - U - free_bytes fs)"
    "nFree pg + ptr_end pg + card U = usable pg"
    using assms unfolding space_ok_def by blast+
  then show "hdrOffset pg + 8 \<le> page_top pg" by (simp add: ptr_end_def)
  show "usable pg \<le> 32768" using \<open>limits_ok pg\<close> by (simp add: limits_ok_def)
  show "finite U" using \<open>U \<subseteq> _\<close> by (rule finite_subset) simp
qed

lemma space_okI:
  assumes "limits_ok pg" "hdrOffset pg + 8 \<le> cellOffset pg" "ptr_end pg \<le> page_top pg" "page_top pg \<le> usable pg"
    "get2byte (aData pg) (hdrOffset pg + 3) = nCell pg" "free_chain (aData pg) (hdrOffset pg + 1) fs" "spaced (page_top pg) (usable pg) fs"
    "U \<subseteq> {page_top pg..<usable pg}" "U \<inter> free_bytes fs = {}"
    "unat (aData pg (hdrOffset pg + 7)) = card ({page_top pg..<usable pg} - U - free_bytes fs)"
    "nFree pg + ptr_end pg + card U = usable pg"
  shows "space_ok pg fs U"
  using assms unfolding space_ok_def by blast

definition hdr_free :: "nat \<Rightarrow> nat set" where
  "hdr_free h = {h + 1, h + 2, h + 5, h + 6, h + 7}"

text \<open>What space management leaves alone: the header's other bytes, the pointers, the bytes in use.\<close>

definition keeps :: "mempage \<Rightarrow> mempage \<Rightarrow> nat set \<Rightarrow> bool" where
  "keeps pg pg' U \<longleftrightarrow> pg' = pg\<lparr>nFree := nFree pg', aData := aData pg'\<rparr> \<and>
     (\<forall>a. a \<notin> hdr_free (hdrOffset pg) \<and> (a < page_top pg \<or> a \<in> U \<or> usable pg \<le> a) \<longrightarrow> aData pg' a = aData pg a)"

lemma keepsI: "pg' = pg\<lparr>nFree := n, aData := d\<rparr> \<Longrightarrow>
    (\<And>a. a \<notin> hdr_free (hdrOffset pg) \<Longrightarrow> a < page_top pg \<or> a \<in> U \<or> usable pg \<le> a \<Longrightarrow> d a = aData pg a) \<Longrightarrow> keeps pg pg' U"
  by (simp add: keeps_def)

lemma parse_fields:
  assumes "childPtrSize pg' = childPtrSize pg" "intKey pg' = intKey pg" "hasData pg' = hasData pg" "maxLocal pg' = maxLocal pg"
    "minLocal pg' = minLocal pg" "pBt pg' = pBt pg"
  shows "sqlite3BtreeParseCellPtr pg' = sqlite3BtreeParseCellPtr pg" "cellSizePtr pg' = cellSizePtr pg"
proof -
  have h: "parse_header pg' p = parse_header pg p" for p unfolding parse_header_def assms by (rule refl)
  have p: "sqlite3BtreeParseCellPtr pg' p = sqlite3BtreeParseCellPtr pg p" for p
    unfolding sqlite3BtreeParseCellPtr_def h assms by (rule refl)
  show "sqlite3BtreeParseCellPtr pg' = sqlite3BtreeParseCellPtr pg" "cellSizePtr pg' = cellSizePtr pg"
    by (simp_all add: fun_eq_iff p cellSizePtr_def)
qed

lemma keepsD:
  assumes "keeps pg pg' U"
  shows "pBt pg' = pBt pg" "hdrOffset pg' = hdrOffset pg" "cellOffset pg' = cellOffset pg" "nCell pg' = nCell pg"
    "limits_ok pg' = limits_ok pg" "leaf pg' = leaf pg" "aOvfl pg' = aOvfl pg" "ptr_end pg' = ptr_end pg" "cellSizePtr pg' = cellSizePtr pg"
    "maskPage pg' = maskPage pg" "pgno pg' = pgno pg" "sqlite3BtreeParseCellPtr pg' = sqlite3BtreeParseCellPtr pg" "intKey pg' = intKey pg"
proof -
  have e: "pg' = pg\<lparr>nFree := nFree pg', aData := aData pg'\<rparr>" using assms by (simp add: keeps_def)
  show "pBt pg' = pBt pg" "hdrOffset pg' = hdrOffset pg" "cellOffset pg' = cellOffset pg" "nCell pg' = nCell pg"
    "limits_ok pg' = limits_ok pg" "leaf pg' = leaf pg" "aOvfl pg' = aOvfl pg" "ptr_end pg' = ptr_end pg"
    "maskPage pg' = maskPage pg" "pgno pg' = pgno pg" "intKey pg' = intKey pg"
    by (subst e, simp add: limits_ok_def ptr_end_def)+
  show "cellSizePtr pg' = cellSizePtr pg" "sqlite3BtreeParseCellPtr pg' = sqlite3BtreeParseCellPtr pg"
    by (rule parse_fields; subst e, simp)+
qed

lemma keeps_same: "keeps pg pg' U \<Longrightarrow> a \<notin> hdr_free (hdrOffset pg) \<Longrightarrow> a < page_top pg \<or> a \<in> U \<or> usable pg \<le> a \<Longrightarrow> aData pg' a = aData pg a"
  by (simp add: keeps_def)

lemma unat_u8: "n < 256 \<Longrightarrow> unat (word_of_nat n :: u8) = n"
  by (simp add: unat_of_nat take_bit_eq_mod)

text \<open>A block of the chain that fits almost exactly is given out whole.\<close>

lemma slot_whole:
  assumes i: "space_ok pg fs U" and fs: "fs = xs @ (pc, m) # ys" and n: "n \<le> m" "m < n + 4" "n \<le> nFree pg"
    and f: "unat (aData pg (hdrOffset pg + 7)) < 60"
    and pg': "pg' = pg\<lparr>nFree := nFree pg - n,
       aData := (copy_bytes (aData pg) (prev_link (hdrOffset pg + 1) xs) (aData pg) pc 2)(hdrOffset pg + 7 := word_of_nat (unat (aData pg (hdrOffset pg + 7)) + (m - n)))\<rparr>"
  shows "space_ok pg' (xs @ ys) (U \<union> {pc..<pc + n})" "keeps pg pg' U" "{pc..<pc + n} \<inter> U = {}" "pc + n \<le> usable pg" "page_top pg' = page_top pg"
proof -
  note d = space_okD [OF i]
  let ?h = "hdrOffset pg" and ?d = "aData pg" and ?t = "page_top pg"
  let ?p = "prev_link (?h + 1) xs"
  have sx: "spaced ?t (usable pg) xs" and spc: "next_lo ?t xs \<le> pc" "4 \<le> m" "pc + m \<le> usable pg" and sy: "spaced (pc + m + 4) (usable pg) ys"
    using d(7) unfolding fs spaced_append by simp_all
  have tpc: "?t \<le> pc" using next_lo_ge [OF sx] spc(1) by linarith
  have h2: "?h + 1 + 2 \<le> ?t" using d(12) by simp
  note pb = prev_link_bounds [OF sx h2]
  have pbx: "?p = ?h + 1 \<or> ?t \<le> ?p" using sx spaced_mem [OF sx, of "fst (last xs)" "snd (last xs)"] by (cases "xs = []") (auto simp: prev_link_def)
  define d' where "d' = (copy_bytes ?d ?p ?d pc 2)(?h + 7 := word_of_nat (unat (?d (?h + 7)) + (m - n)))"
  have d': "d' a = (if a = ?h + 7 then word_of_nat (unat (?d (?h + 7)) + (m - n)) else if a = ?p then ?d pc else if a = ?p + 1 then ?d (pc + 1) else ?d a)" for a
    by (auto simp: d'_def copy_bytes_def)
  have fields: "hdrOffset pg' = ?h" "aData pg' = d'" "usable pg' = usable pg" "limits_ok pg' = limits_ok pg" "cellOffset pg' = cellOffset pg"
    "nCell pg' = nCell pg" "ptr_end pg' = ptr_end pg" "nFree pg' = nFree pg - n"
    by (simp_all add: pg' d'_def limits_ok_def ptr_end_def)
  show top: "page_top pg' = ?t" unfolding page_top_def fields by (rule get2_cong) (use pbx d(12) in \<open>auto simp: d'\<close>)
  have cells: "get2byte d' (?h + 3) = nCell pg" unfolding d(5) [symmetric] by (rule get2_cong) (use pbx d(12) in \<open>auto simp: d'\<close>)
  have segs: "free_seg ?d (?h + 1) xs" "get2byte ?d pc = get2byte ?d pc" "free_chain ?d pc ys"
    using d(6) unfolding fs free_chain_append by simp_all
  have "free_seg d' (?h + 1) xs"
  proof (rule free_seg_cong [OF segs(1) sx h2])
    fix b assume b: "b = ?h + 1 \<or> b = ?h + 1 + 1 \<or> b \<in> free_bytes xs" "b \<noteq> ?p" "b \<noteq> ?p + 1"
    have "b \<noteq> ?h + 7" using b(1) spaced_bytes [OF sx, of b] d(12) by auto
    then show "d' b = ?d b" using b by (simp add: d')
  qed
  moreover have "free_chain d' ?p ys"
  proof -
    have "free_chain d' pc ys"
    proof (rule free_chain_cong [OF segs(3)])
      show "d' pc = ?d pc" "d' (pc + 1) = ?d (pc + 1)" using pb tpc spc(1) d(12) by (auto simp: d')
      show "d' (b + j) = ?d (b + j)" if "(b, k) \<in> set ys" "j < 4" for b k j
        using spaced_mem [OF sy that(1)] that(2) pb tpc spc(1) d(12) by (auto simp: d')
    qed
    moreover have "d' ?p = d' pc" "d' (?p + 1) = d' (pc + 1)" using pb pbx tpc spc(1) d(12) by (auto simp: d')
    then have "get2byte d' ?p = get2byte d' pc" by (simp add: get2byte_def)
    ultimately show ?thesis by (cases ys) auto
  qed
  ultimately have ch: "free_chain d' (?h + 1) (xs @ ys)" by (simp add: free_chain_append)
  have sp: "spaced ?t (usable pg) (xs @ ys)"
    unfolding spaced_append using sx spaced_mono [OF sy, of "next_lo ?t xs"] spc(1) by simp
  let ?F = "free_bytes xs \<union> free_bytes ys" and ?T = "{?t..<usable pg}" and ?B = "{pc..<pc + m}"
  have ux: "U \<inter> ?F = {}" "U \<inter> ?B = {}" using d(9) unfolding fs by auto
  have bx: "?B \<inter> ?F = {}" using spaced_before [OF sx] spaced_bytes [OF sy] spc(1) by fastforce
  have A: "{pc..<pc + n} \<subseteq> ?B" "{pc + n..<pc + m} \<subseteq> ?B" "?B \<subseteq> ?T" using n tpc spc(3) by auto
  have "?T - (U \<union> {pc..<pc + n}) - ?F = (?T - U - free_bytes fs) \<union> {pc + n..<pc + m}"
  proof (rule set_eqI)
    fix x
    have "x \<in> ?B \<Longrightarrow> x \<in> ?T \<and> x \<notin> U \<and> x \<notin> ?F" using ux(2) bx A(3) by blast
    then show "x \<in> ?T - (U \<union> {pc..<pc + n}) - ?F \<longleftrightarrow> x \<in> (?T - U - free_bytes fs) \<union> {pc + n..<pc + m}"
      unfolding fs using n(1) by auto
  qed
  moreover have "card \<dots> = unat (?d (?h + 7)) + (m - n)"
    using d(10) by (subst card_Un_disjoint) (auto simp: fs)
  moreover have "unat (?d (?h + 7)) + (m - n) < 256" using f n by linarith
  ultimately have fr: "unat (d' (?h + 7)) = card (?T - (U \<union> {pc..<pc + n}) - ?F)" using unat_u8 by (simp add: d' del: of_nat_add)
  have cU: "card (U \<union> {pc..<pc + n}) = card U + n" using ux(2) A(1) d(14) by (subst card_Un_disjoint) auto
  have UF: "(U \<union> {pc..<pc + n}) \<inter> free_bytes (xs @ ys) = {}" "U \<union> {pc..<pc + n} \<subseteq> ?T"
    using ux(1) bx A d(8) by (simp_all only: free_bytes_simps) blast+
  show "space_ok pg' (xs @ ys) (U \<union> {pc..<pc + n})"
    by (rule space_okI) (use d(1-5,11) cells ch sp UF fr cU n(3) in \<open>simp_all add: top fields\<close>)
  show "keeps pg pg' U"
  proof (rule keepsI)
    show "pg' = pg\<lparr>nFree := nFree pg - n, aData := d'\<rparr>" by (simp add: pg' d'_def)
    fix a assume a: "a \<notin> hdr_free ?h" "a < ?t \<or> a \<in> U \<or> usable pg \<le> a"
    have "a \<noteq> ?h + 7" "?p = ?h + 1 \<Longrightarrow> a \<noteq> ?p \<and> a \<noteq> ?p + 1" using a(1) by (auto simp: hdr_free_def)
    moreover have "a \<noteq> ?p \<and> a \<noteq> ?p + 1" if "?t \<le> ?p"
    proof -
      have "xs \<noteq> []" using that d(12) by (cases xs) auto
      then obtain k where k: "(?p, k) \<in> set xs" by (metis last_in_set prev_link_def prod.collapse)
      then have "{?p..<?p + k} \<subseteq> free_bytes xs" by (auto simp: free_bytes_def)
      moreover have "4 \<le> k" "?p + k \<le> usable pg" using spaced_mem [OF sx k] by simp_all
      ultimately show ?thesis using a(2) that ux(1) by fastforce
    qed
    ultimately show "d' a = ?d a" using pbx by (auto simp: d')
  qed
  show "{pc..<pc + n} \<inter> U = {}" "pc + n \<le> usable pg" using ux A n spc(3) by auto
qed

lemma page_upd [simp]: "usable (pg\<lparr>nFree := n, aData := d\<rparr>) = usable pg" "limits_ok (pg\<lparr>nFree := n, aData := d\<rparr>) = limits_ok pg"
  "ptr_end (pg\<lparr>nFree := n, aData := d\<rparr>) = ptr_end pg"
  by (simp_all add: limits_ok_def ptr_end_def)

text \<open>The tail of a larger block.\<close>

lemma slot_part:
  assumes i: "space_ok pg fs U" and fs: "fs = xs @ (pc, m) # ys" and n: "n + 4 \<le> m" "n \<le> nFree pg"
    and pg': "pg' = pg\<lparr>nFree := nFree pg - n, aData := put2byte (aData pg) (pc + 2) (m - n)\<rparr>"
  shows "space_ok pg' (xs @ (pc, m - n) # ys) (U \<union> {pc + (m - n)..<pc + m})" "keeps pg pg' U" "{pc + (m - n)..<pc + m} \<inter> U = {}" "pc + m \<le> usable pg" "page_top pg' = page_top pg"
proof -
  note d = space_okD [OF i]
  let ?h = "hdrOffset pg" and ?d = "aData pg" and ?t = "page_top pg" and ?A = "{pc + (m - n)..<pc + m}"
  let ?d' = "put2byte ?d (pc + 2) (m - n)"
  have sx: "spaced ?t (usable pg) xs" and spc: "next_lo ?t xs \<le> pc" "4 \<le> m" "pc + m \<le> usable pg" and sy: "spaced (pc + m + 4) (usable pg) ys"
    using d(7) unfolding fs spaced_append by simp_all
  have tpc: "?t \<le> pc" using next_lo_ge [OF sx] spc(1) by linarith
  have h2: "?h + 1 + 2 \<le> ?t" using d(12) by simp
  note pb = prev_link_bounds [OF sx h2]
  have other: "?d' a = ?d a" if "a \<noteq> pc + 2" "a \<noteq> pc + 3" for a using that by (intro put2_other) simp_all
  have "get2byte ?d' (?h + 5) = get2byte ?d (?h + 5)" by (rule get2_cong; rule other) (use tpc d(12) in simp_all)
  then show top: "page_top pg' = ?t" by (simp add: page_top_def pg')
  have cells: "get2byte ?d' (?h + 3) = nCell pg" unfolding d(5) [symmetric] by (rule get2_cong; rule other) (use tpc d(12) in simp_all)
  have segs: "free_seg ?d (?h + 1) xs" "get2byte ?d (prev_link (?h + 1) xs) = pc" "free_chain ?d pc ys"
    using d(6) unfolding fs free_chain_append by simp_all
  have "free_seg ?d' (?h + 1) xs"
  proof (rule free_seg_cong [OF segs(1) sx h2])
    fix b assume "b = ?h + 1 \<or> b = ?h + 1 + 1 \<or> b \<in> free_bytes xs"
    then have "b < pc" using spaced_before [OF sx, of b] spc(1) tpc d(12) by auto
    then show "?d' b = ?d b" by (intro other) simp_all
  qed
  moreover have "get2byte ?d' (prev_link (?h + 1) xs) = get2byte ?d (prev_link (?h + 1) xs)"
    by (rule get_put2_other) (use pb spc(1) in simp)
  then have "get2byte ?d' (prev_link (?h + 1) xs) = pc" unfolding segs(2) .
  moreover have "get2byte ?d' (pc + 2) = m - n" using spc(3) d(13) by (intro get_put2) linarith
  moreover have "free_chain ?d' pc ys"
  proof (rule free_chain_cong [OF segs(3)])
    show "?d' (b + j) = ?d (b + j)" if "(b, k) \<in> set ys" "j < 4" for b k j
      by (rule other) (use spaced_mem [OF sy that(1)] spc(2) in linarith)+
  qed (rule other; simp)+
  ultimately have ch: "free_chain ?d' (?h + 1) (xs @ (pc, m - n) # ys)" using segs(2) by (simp add: free_chain_append)
  have sp: "spaced ?t (usable pg) (xs @ (pc, m - n) # ys)"
  proof -
    have b: "4 \<le> m - n" "pc + (m - n) \<le> usable pg" "pc + (m - n) + 4 \<le> pc + m + 4" using n(1) spc(3) by linarith+
    show ?thesis unfolding spaced_append spaced.simps using sx spc(1) b spaced_mono [OF sy b(3)] by blast
  qed
  have split: "free_bytes fs = free_bytes (xs @ (pc, m - n) # ys) \<union> ?A" unfolding fs using n(1) by auto
  have "?A \<inter> free_bytes (xs @ (pc, m - n) # ys) = {}"
    using spaced_before [OF sx] spaced_bytes [OF sy] spc(1) by fastforce
  then have UF: "(U \<union> ?A) \<inter> free_bytes (xs @ (pc, m - n) # ys) = {}" using d(9) split by blast
  have UA: "?A \<inter> U = {}" "?A \<subseteq> {?t..<usable pg}" using d(9) split spc(3) tpc by auto
  have fr: "{?t..<usable pg} - (U \<union> ?A) - free_bytes (xs @ (pc, m - n) # ys) = {?t..<usable pg} - U - free_bytes fs"
    unfolding split by blast
  have h7: "?d' (?h + 7) = ?d (?h + 7)" by (rule other) (use tpc d(12) in simp_all)
  have cU: "card (U \<union> ?A) = card U + n" using UA(1) d(14) n(1) by (subst card_Un_disjoint) auto
  show "space_ok pg' (xs @ (pc, m - n) # ys) (U \<union> ?A)"
    by (rule space_okI; (unfold top)?) (use d(1-5,8,10,11) cells ch sp UF UA(2) fr cU n(2) h7 in \<open>simp_all add: pg' top\<close>)
  show "keeps pg pg' U"
  proof (rule keepsI [OF pg'], rule other)
    fix a assume a: "a < ?t \<or> a \<in> U \<or> usable pg \<le> a"
    have "b \<in> free_bytes fs" if "b = pc + 2 \<or> b = pc + 3" for b unfolding fs using that spc(2) by auto
    then have "b \<notin> U \<and> b < usable pg \<and> ?t \<le> b" if "b = pc + 2 \<or> b = pc + 3" for b using that d(9) spaced_bytes [OF d(7)] by blast
    then show "a \<noteq> pc + 2" "a \<noteq> pc + 3" using a by fastforce+
  qed
  show "?A \<inter> U = {}" "pc + m \<le> usable pg" using UA spc(3) by blast+
qed

text \<open>The gap below the content area.\<close>

lemma gap_ok:
  assumes i: "space_ok pg fs U" and n: "ptr_end pg + n \<le> page_top pg" "n \<le> nFree pg"
    and pg': "pg' = pg\<lparr>nFree := nFree pg - n, aData := put2byte (aData pg) (hdrOffset pg + 5) (page_top pg - n)\<rparr>"
  shows "space_ok pg' fs (U \<union> {page_top pg - n..<page_top pg})" "keeps pg pg' U" "page_top pg' = page_top pg - n"
    "{page_top pg - n..<page_top pg} \<inter> U = {}"
proof -
  note d = space_okD [OF i]
  let ?h = "hdrOffset pg" and ?d = "aData pg" and ?t = "page_top pg" and ?A = "{page_top pg - n..<page_top pg}"
  let ?d' = "put2byte ?d (?h + 5) (?t - n)"
  have other: "?d' a = ?d a" if "a \<noteq> ?h + 5" "a \<noteq> ?h + 6" for a using that by (intro put2_other) simp_all
  show top: "page_top pg' = ?t - n" unfolding page_top_def pg' using d(4,13) by (simp add: get_put2 flip: page_top_def)
  have nt: "?h + 8 \<le> ?t - n" "n \<le> ?t" using n(1) d(2) by (simp_all add: ptr_end_def)
  have cells: "get2byte ?d' (?h + 3) = nCell pg" unfolding d(5) [symmetric] by (rule get2_cong; rule other) simp_all
  have ch: "free_chain ?d' (?h + 1) fs"
  proof (rule free_chain_cong [OF d(6)])
    show "?d' (b + j) = ?d (b + j)" if "(b, k) \<in> set fs" "j < 4" for b k j
      by (rule other) (use spaced_mem [OF d(7) that(1)] d(12) in linarith)+
  qed (rule other; simp)+
  have sp: "spaced (?t - n) (usable pg) fs" by (rule spaced_mono [OF d(7)]) simp
  show UA: "?A \<inter> U = {}" using d(8) by auto
  have AF: "?A \<inter> free_bytes fs = {}" using spaced_bytes [OF d(7)] by fastforce
  have Ub: "?t \<le> x \<and> x < usable pg" if "x \<in> U" for x using d(8) that by auto
  have fr: "{?t - n..<usable pg} - (U \<union> ?A) - free_bytes fs = {?t..<usable pg} - U - free_bytes fs"
    using d(4) by auto
  have cU: "card (U \<union> ?A) = card U + n" using UA d(14) nt(2) by (subst card_Un_disjoint) auto
  have sub: "U \<union> ?A \<subseteq> {?t - n..<usable pg}" "(U \<union> ?A) \<inter> free_bytes fs = {}" using d(4,9) Ub AF by fastforce+
  have h7: "?d' (?h + 7) = ?d (?h + 7)" by (rule other) simp_all
  show "space_ok pg' fs (U \<union> ?A)"
    by (rule space_okI; (unfold top)?) (use d(1,2,4,10,11) n cells ch sp sub fr cU h7 in \<open>simp_all add: pg' top\<close>)
  show "keeps pg pg' U"
    by (rule keepsI [OF pg'], rule other) (auto simp: hdr_free_def)
qed

lemma alloc_no_defrag:
  assumes i: "space_ok pg fs U" and n: "4 \<le> n" "n \<le> nFree pg" and room: "unat (aData pg (hdrOffset pg + 7)) < 60" "ptr_end pg + n \<le> page_top pg"
  shows "\<exists>idx pg' fs'. allocateSpace tmp pg n = Some (idx, pg') \<and> space_ok pg' fs' (U \<union> {idx..<idx + n}) \<and> keeps pg pg' U \<and>
    {idx..<idx + n} \<inter> U = {} \<and> pg' = pg\<lparr>nFree := nFree pg - n, aData := aData pg'\<rparr> \<and> page_top pg - n \<le> page_top pg'"
proof -
  note d = space_okD [OF i]
  let ?h = "hdrOffset pg" and ?d = "aData pg" and ?t = "page_top pg"
  have "nFree pg \<le> 32768" using d(11,13) by linarith
  then have "nFree pg + (65536 - n mod 65536) = nFree pg - n + 65536" "nFree pg - n < 65536" using n(2) by simp_all
  then have sub: "sub16 (nFree pg) n = nFree pg - n" by (simp add: sub16_def)
  have t0: "0 < ?t" using d(12) by simp
  from slot_loop_ok [OF d(6,7) t0, of n] show ?thesis
  proof
    assume "slot_loop ?d (?h + 1) n = Some None \<and> (\<forall>(pc, m) \<in> set fs. m < n)"
    then have "allocateSpace tmp pg n = Some (?t - n, pg\<lparr>nFree := nFree pg - n, aData := put2byte ?d (?h + 5) (?t - n)\<rparr>)"
      using room d(5) sub by (simp add: allocateSpace_def allocateGap_def Let_def page_top_def ptr_end_def)
    moreover have nt: "{?t - n..<?t - n + n} = {?t - n..<?t}" "?t - n + n \<le> usable pg" using room(2) d(4) by auto
    ultimately show ?thesis using gap_ok [OF i room(2) n(2) refl] unfolding nt(1) [symmetric] by (intro exI conjI) (assumption | simp)+
  next
    assume "\<exists>xs pc m ys. fs = xs @ (pc, m) # ys \<and> n \<le> m \<and> slot_loop ?d (?h + 1) n = Some (Some (prev_link (?h + 1) xs, pc))"
    then obtain xs pc m ys where s: "fs = xs @ (pc, m) # ys" "n \<le> m" "slot_loop ?d (?h + 1) n = Some (Some (prev_link (?h + 1) xs, pc))" by blast
    have m: "get2byte ?d (pc + 2) = m" using d(6) unfolding s(1) free_chain_append by simp
    show ?thesis
    proof (cases "m < n + 4")
      case True
      then have "allocateSpace tmp pg n = Some (pc, pg\<lparr>nFree := nFree pg - n,
          aData := (copy_bytes ?d (prev_link (?h + 1) xs) ?d pc 2)(?h + 7 := word_of_nat (unat (?d (?h + 7)) + (m - n)))\<rparr>)"
        using room(1) s(3) m sub by (simp add: allocateSpace_def Let_def)
      then show ?thesis using slot_whole [OF i s(1,2) True n(2) room(1) refl] by (intro exI conjI) (assumption | simp)+
    next
      case False
      then have "allocateSpace tmp pg n = Some (pc + (m - n), pg\<lparr>nFree := nFree pg - n, aData := put2byte ?d (pc + 2) (m - n)\<rparr>)"
        using room(1) s(3) m sub by (simp add: allocateSpace_def Let_def)
      moreover have e: "pc + (m - n) + n = pc + m" using s(2) by simp
      have m4: "n + 4 \<le> m" using False by simp
      ultimately show ?thesis using slot_part [OF i s(1) m4 n(2) refl] unfolding e [symmetric] by (intro exI conjI) (assumption | simp)+
    qed
  qed
qed

section \<open>Giving space back\<close>

definition chain_head :: "blocks \<Rightarrow> nat" where
  "chain_head ys = (case ys of [] \<Rightarrow> 0 | (a, _) # _ \<Rightarrow> a)"

lemma place_loop_ok:
  assumes "free_chain d addr fs" "spaced lo hi fs" "addr < lo" "s \<notin> fst ` set fs"
  shows "\<exists>xs ys. fs = xs @ ys \<and> place_loop d addr s = Inr (prev_link addr xs, chain_head ys) \<and>
    (\<forall>a m. (a, m) \<in> set xs \<longrightarrow> a < s) \<and> (\<forall>a m. (a, m) \<in> set ys \<longrightarrow> s < a)"
  using assms
proof (induction fs arbitrary: addr lo)
  case Nil
  then show ?case by (subst place_loop.simps) (simp add: Let_def chain_head_def)
next
  case (Cons x fs)
  obtain pc m where x: "x = (pc, m)" by (rule prod.exhaust)
  have c: "get2byte d addr = pc" "free_chain d pc fs" "spaced (pc + m + 4) hi fs" "addr < pc" "pc < pc + m + 4"
    using Cons.prems(1-3) x by auto
  show ?case
  proof (cases "pc < s")
    case True
    then have e: "place_loop d addr s = place_loop d pc s" using c by (subst place_loop.simps) (simp add: Let_def)
    have "s \<notin> fst ` set fs" using Cons.prems(4) by simp
    from Cons.IH [OF c(2,3,5) this] obtain xs ys where r: "fs = xs @ ys" "place_loop d pc s = Inr (prev_link pc xs, chain_head ys)"
      "\<forall>a m. (a, m) \<in> set xs \<longrightarrow> a < s" "\<forall>a m. (a, m) \<in> set ys \<longrightarrow> s < a" by blast
    then show ?thesis using e x True by (intro exI [of _ "x # xs"] exI [of _ ys]) simp
  next
    case False
    have "pc \<noteq> s" using Cons.prems(4) x by simp
    then have "s < pc" using False by simp
    moreover have "s < a" if "(a, k) \<in> set fs" for a k using spaced_mem [OF c(3) that] \<open>s < pc\<close> by linarith
    moreover have "place_loop d addr s = Inr (addr, pc)" using False c(1) by (subst place_loop.simps) (simp add: Let_def)
    ultimately show ?thesis using x by (intro exI [of _ "[]"] exI [of _ "x # fs"]) (auto simp: chain_head_def)
  qed
qed

text \<open>Blocks in ascending order that may be adjacent.\<close>

fun loose :: "nat \<Rightarrow> nat \<Rightarrow> blocks \<Rightarrow> bool" where
  "loose lo hi [] \<longleftrightarrow> True"
| "loose lo hi ((a, n) # fs) \<longleftrightarrow> lo \<le> a \<and> 4 \<le> n \<and> a + n \<le> hi \<and> loose (a + n) hi fs"

lemma loose_mono: "loose lo hi fs \<Longrightarrow> lo' \<le> lo \<Longrightarrow> loose lo' hi fs"
  by (cases fs) auto

lemma spaced_loose: "spaced lo hi fs \<Longrightarrow> loose lo hi fs"
proof (induction fs arbitrary: lo)
  case (Cons x fs)
  obtain a n where x: "x = (a, n)" by (rule prod.exhaust)
  have "loose (a + n + 4) hi fs" by (rule Cons.IH) (use Cons.prems x in simp)
  then have "loose (a + n) hi fs" by (rule loose_mono) simp
  then show ?case using Cons.prems x by simp
qed simp

lemma loose_mem: "loose lo hi fs \<Longrightarrow> (a, n) \<in> set fs \<Longrightarrow> lo \<le> a \<and> 4 \<le> n \<and> a + n \<le> hi"
  by (induction fs arbitrary: lo) fastforce+

lemma loose_bytes: "loose lo hi fs \<Longrightarrow> b \<in> free_bytes fs \<Longrightarrow> lo \<le> b \<and> b < hi"
  by (induction fs arbitrary: lo) fastforce+

text \<open>Every byte in use belongs to a run of at least four.\<close>

definition thick :: "nat set \<Rightarrow> bool" where
  "thick U \<longleftrightarrow> (\<forall>b \<in> U. \<exists>c. c \<le> b \<and> b < c + 4 \<and> {c..<c + 4} \<subseteq> U)"

lemma small_gap:
  assumes "thick U" "{a..<a + n} \<inter> U = {}" "{b..<b + m} \<inter> U = {}" "4 \<le> n" "4 \<le> m" "b \<le> a + n + 3"
  shows "{a + n..<b} \<inter> U = {}"
proof (rule ccontr)
  assume "{a + n..<b} \<inter> U \<noteq> {}"
  then obtain x where x: "a + n \<le> x" "x < b" "x \<in> U" by auto
  obtain c where c: "c \<le> x" "x < c + 4" "{c..<c + 4} \<subseteq> U" using assms(1) x(3) by (auto simp: thick_def)
  have cU: "c \<in> U" "c + 3 \<in> U" using c(3) by auto
  have "c \<notin> {a..<a + n}" "c + 3 \<notin> {b..<b + m}" using cU assms(2,3) by blast+
  then show False using x c(1,2) assms(4-6) by auto
qed

text \<open>
  The merging loop, behind the blocks \<open>P\<close> that are done: adjacent blocks and blocks that only
  stray bytes separate become one block.
\<close>

lemma coalesce_loop_ok:
  assumes "free_chain d addr fs" "loose lo hi fs" "addr + 2 \<le> lo" "h + 8 \<le> lo" "tp \<le> lo" "hi \<le> 32768" "addr = h + 1 \<or> h + 8 \<le> addr"
    "thick U" "finite U" "U \<inter> free_bytes fs = {}" "P \<subseteq> {tp..<lo}"
    "unat (d (h + 7)) = card ({tp..<hi} - U - P - free_bytes fs)"
  shows "\<exists>d' fs'. coalesce_loop d h addr = Some (SQLITE_OK, d') \<and> free_chain d' addr fs' \<and> spaced lo hi fs' \<and> U \<inter> free_bytes fs' = {} \<and>
    unat (d' (h + 7)) = card ({tp..<hi} - U - P - free_bytes fs') \<and>
    (\<forall>x. x \<noteq> h + 7 \<longrightarrow> x < lo \<or> x \<in> U \<or> hi \<le> x \<longrightarrow> d' x = d x)"
  using assms
proof (induction "length fs" arbitrary: d addr lo fs P rule: less_induct)
  case less
  note p = less.prems
  show ?case
  proof (cases fs)
    case Nil
    then have "coalesce_loop d h addr = Some (SQLITE_OK, d)" using p(1) by (subst coalesce_loop.simps) (simp add: Let_def)
    then show ?thesis using p Nil by (intro exI [of _ d] exI [of _ "[]"]) simp
  next
    case (Cons x rest)
    obtain pc n where x: "x = (pc, n)" by (rule prod.exhaust)
    note fs = Cons [unfolded x]
    have c: "get2byte d addr = pc" "get2byte d (pc + 2) = n" "free_chain d pc rest" and l: "lo \<le> pc" "4 \<le> n" "pc + n \<le> hi" "loose (pc + n) hi rest"
      using p(1,2) fs by auto
    have pc0: "0 < pc" using l(1) p(3) by linarith
    have uB: "{pc..<pc + n} \<inter> U = {}" using p(10) fs by auto
    show ?thesis
    proof (cases "\<exists>b m rest'. rest = (b, m) # rest' \<and> b \<le> pc + n + 3")
      case False
      have sp: "loose (pc + n + 4) hi rest" using False l(4) by (cases rest) auto
      have nomerge: "\<not> (get2byte d pc \<le> pc + n + 3 \<and> 0 < get2byte d pc)" using False c(3) by (cases rest) auto
      have e: "coalesce_loop d h addr = coalesce_loop d h pc"
        by (subst coalesce_loop.simps) (use c nomerge pc0 in \<open>auto simp: Let_def\<close>)
      have "P \<union> {pc..<pc + n} \<subseteq> {tp..<pc + n + 4}" using p(5,11) l(1) by fastforce
      moreover have "{tp..<hi} - U - (P \<union> {pc..<pc + n}) - free_bytes rest = {tp..<hi} - U - P - free_bytes fs" unfolding fs by auto
      moreover have "U \<inter> free_bytes rest = {}" "length rest < length fs" using p(10) fs by auto
      ultimately obtain d' fs' where r: "coalesce_loop d h pc = Some (SQLITE_OK, d')" "free_chain d' pc fs'" "spaced (pc + n + 4) hi fs'"
        "U \<inter> free_bytes fs' = {}" "unat (d' (h + 7)) = card ({tp..<hi} - U - (P \<union> {pc..<pc + n}) - free_bytes fs')"
        "\<forall>x. x \<noteq> h + 7 \<longrightarrow> x < pc + n + 4 \<or> x \<in> U \<or> hi \<le> x \<longrightarrow> d' x = d x"
        using less.hyps [of rest d pc "pc + n + 4" "P \<union> {pc..<pc + n}"] c(3) sp p(4-9,12) l(1) by auto
      have "get2byte d' addr = pc" unfolding c(1) [symmetric] by (rule get2_cong) (use r(6) p(3,4,7) l(1) in auto)
      moreover have "get2byte d' (pc + 2) = n" unfolding c(2) [symmetric] by (rule get2_cong) (use r(6) p(4) l(1,2) in auto)
      moreover have "{tp..<hi} - U - (P \<union> {pc..<pc + n}) - free_bytes fs' = {tp..<hi} - U - P - free_bytes ((pc, n) # fs')" by auto
      moreover have "U \<inter> free_bytes ((pc, n) # fs') = {}" using r(4) uB by auto
      ultimately show ?thesis
        using e r l(1-3) by (intro exI [of _ d'] exI [of _ "(pc, n) # fs'"]) auto
    next
      case True
      then obtain b m rest' where rest: "rest = (b, m) # rest'" and near: "b \<le> pc + n + 3" by blast
      have cb: "get2byte d pc = b" "get2byte d (b + 2) = m" "free_chain d b rest'" and lb: "pc + n \<le> b" "4 \<le> m" "b + m \<le> hi" "loose (b + m) hi rest'"
        using c(3) l(4) rest by auto
      let ?g = "b - (pc + n)" and ?T = "{tp..<hi} - U - P"
      have bB: "{b..<b + m} \<inter> U = {}" using p(10) fs rest by auto
      have gU: "{pc + n..<b} \<inter> U = {}" by (rule small_gap [OF p(8) uB bB l(2) lb(2) near])
      have gap: "{pc + n..<b} \<subseteq> ?T - free_bytes fs"
        using gU loose_bytes [OF lb(4)] p(5,11) l(1) lb(3) unfolding fs rest by fastforce
      have fin: "finite (?T - free_bytes fs)" by simp
      have frag: "?g \<le> unat (d (h + 7))" unfolding p(12) using card_mono [OF fin gap] by simp
      define d1 where "d1 = d(h + 7 := d (h + 7) - word_of_nat ?g)"
      define d2 where "d2 = put2byte d1 pc (get2byte d1 b)"
      define d3 where "d3 = put2byte d2 (pc + 2) (b + get2byte d2 (b + 2) - pc)"
      have far: "h + 8 \<le> pc" "pc + 4 \<le> b" using p(4) l(1,2) lb(1) by linarith+
      have o1: "d1 y = d y" if "y \<noteq> h + 7" for y using that by (simp add: d1_def)
      have o3: "d3 y = d1 y" if "y < pc \<or> pc + 4 \<le> y" for y using that by (auto simp: d3_def d2_def put2byte_def)
      have n1: "get2byte d1 b = get2byte d b" by (rule get2_cong; rule o1) (use far in simp_all)
      have n2: "get2byte d2 (b + 2) = m"
        unfolding cb(2) [symmetric] d2_def by (subst get_put2_other) (use far in \<open>auto intro!: get2_cong o1\<close>)
      let ?fs = "(pc, b + m - pc) # rest'"
      have step: "coalesce_loop d h addr = coalesce_loop d3 h addr"
        by (subst coalesce_loop.simps, unfold Let_def c(1,2) cb(1,2) d1_def [symmetric] d2_def [symmetric] d3_def [symmetric])
           (use pc0 far near frag lb(1) in \<open>simp del: of_nat_diff add: not_less\<close>)
      have ch: "free_chain d3 addr ?fs"
      proof -
        have "get2byte d3 addr = pc" unfolding c(1) [symmetric] by (rule get2_cong) (use p(3,7) l(1) far in \<open>auto simp: o3 o1\<close>)
        moreover have "get2byte d3 (pc + 2) = b + m - pc" unfolding d3_def n2 by (rule get_put2) (use lb(3) p(6) in simp)
        moreover have "free_chain d3 pc rest'"
        proof -
          have "get2byte d3 pc = get2byte d b"
            unfolding d3_def by (subst get_put2_other) (simp_all add: d2_def n1 get_put2 get2_less)
          moreover have "free_chain d3 b rest'"
          proof (rule free_chain_cong [OF cb(3)])
            show "d3 (a + j) = d (a + j)" if "(a, k) \<in> set rest'" "j < 4" for a k j
              using loose_mem [OF lb(4) that(1)] far by (subst o3) (auto simp: o1)
          qed (use far in \<open>auto simp: o3 o1\<close>)
          then have "get2byte d3 b = get2byte d b" by (intro get2_cong) (use far in \<open>auto simp: o3 o1\<close>)
          ultimately show ?thesis using \<open>free_chain d3 b rest'\<close> by (cases rest') auto
        qed
        ultimately show ?thesis by simp
      qed
      have e: "pc + (b + m - pc) = b + m" using far by simp
      have bytes: "free_bytes ?fs = free_bytes fs \<union> {pc + n..<b}" unfolding fs rest using e far lb(1) by auto
      have cd: "card (?T - free_bytes ?fs) = card (?T - free_bytes fs) - ?g"
        using card_Diff_subset [OF finite_subset [OF gap fin] gap] unfolding bytes by (simp add: Diff_Diff_Int set_diff_eq Un_def conj_ac) 
      have "unat (d3 (h + 7)) = unat (d (h + 7)) - ?g"
      proof -
        have "unat (d (h + 7)) < 256" using unsigned_less [of "d (h + 7)"] by simp
        then have "unat (word_of_nat ?g :: u8) = ?g" using frag by (intro unat_u8) linarith
        then have "unat (d (h + 7) - word_of_nat ?g) = unat (d (h + 7)) - ?g" using frag by (subst unat_sub) (simp_all add: word_le_nat_alt)
        then show ?thesis using far by (simp add: o3 d1_def)
      qed
      then have fr: "unat (d3 (h + 7)) = card (?T - free_bytes ?fs)" using cd p(12) by simp
      have "length ?fs < length fs" "loose lo hi ?fs" "U \<inter> free_bytes ?fs = {}"
        using fs rest l(1,2) lb e gU p(10) unfolding bytes by auto
      then obtain d' fs' where r: "coalesce_loop d3 h addr = Some (SQLITE_OK, d')" "free_chain d' addr fs'" "spaced lo hi fs'" "U \<inter> free_bytes fs' = {}"
        "unat (d' (h + 7)) = card (?T - free_bytes fs')" "\<forall>x. x \<noteq> h + 7 \<longrightarrow> x < lo \<or> x \<in> U \<or> hi \<le> x \<longrightarrow> d' x = d3 x"
        using less.hyps [OF _ ch _ p(3-9) _ p(11) fr] by blast
      have "d3 y = d y" if "y \<noteq> h + 7" "y < lo \<or> y \<in> U \<or> hi \<le> y" for y
      proof -
        have "y \<in> U \<Longrightarrow> \<not> (pc \<le> y \<and> y < pc + n)" using uB by auto
        then have "y < pc \<or> pc + 4 \<le> y" using that(2) l(1-3) by linarith
        then show ?thesis using that(1) by (simp add: o3 o1)
      qed
      then show ?thesis using r unfolding step by (intro exI [of _ d'] exI [of _ fs']) simp
    qed
  qed
qed

lemma free_bytesI: "(a, m) \<in> set fs \<Longrightarrow> a \<le> b \<Longrightarrow> b < a + m \<Longrightarrow> b \<in> free_bytes fs"
  unfolding free_bytes_def by (rule UN_I [of "(a, m)"]) simp_all

lemma free_bytesE: "b \<in> free_bytes fs \<Longrightarrow> (\<And>a m. (a, m) \<in> set fs \<Longrightarrow> a \<le> b \<Longrightarrow> b < a + m \<Longrightarrow> P) \<Longrightarrow> P"
  by (auto simp: free_bytes_def)

lemma prev_link_mem: "xs = [] \<and> prev_link a xs = a \<or> (prev_link a xs, snd (last xs)) \<in> set xs"
  by (cases "xs = []") (auto simp: prev_link_def)

lemma loose_insert:
  assumes "spaced lo hi xs" "spaced l hi ys" "\<And>a m. (a, m) \<in> set xs \<Longrightarrow> a + m \<le> s" "\<forall>a m. (a, m) \<in> set ys \<longrightarrow> s + n \<le> a"
    "lo \<le> s" "s + n \<le> hi" "4 \<le> n"
  shows "loose lo hi (xs @ (s, n) # ys)"
  using assms(1,3,5)
proof (induction xs arbitrary: lo)
  case Nil
  have "loose (s + n) hi ys"
  proof (cases ys)
    case (Cons y zs)
    obtain a m where y: "y = (a, m)" by (rule prod.exhaust)
    then show ?thesis using spaced_loose [OF assms(2)] assms(4) Cons by auto
  qed simp
  then show ?case using Nil assms(6,7) by simp
next
  case (Cons z zs)
  obtain a m where z: "z = (a, m)" by (rule prod.exhaust)
  have zs: "\<And>a m. (a, m) \<in> set zs \<Longrightarrow> a + m \<le> s" using Cons.prems(2) by simp
  have am: "a + m \<le> s" using Cons.prems(2) [of a m] z by simp
  have "spaced (a + m + 4) hi zs" using Cons.prems(1) z by simp
  then have "spaced (a + m) hi zs" by (rule spaced_mono) simp
  from Cons.IH [OF this zs am] show ?case using Cons.prems(1) z by simp
qed

text \<open>Linking a block between two parts of the chain.\<close>

lemma chain_insert:
  assumes ch: "free_chain d a (xs @ ys)" and sp: "spaced lo hi (xs @ ys)" and a: "a + 2 \<le> lo" and b: "lo \<le> s" "s + n \<le> hi" "hi \<le> 32768" "4 \<le> n"
    and below: "\<And>c m. (c, m) \<in> set xs \<Longrightarrow> c + m \<le> s" and above: "\<forall>c m. (c, m) \<in> set ys \<longrightarrow> s + n \<le> c"
    and d1: "d1 = put2byte (put2byte (put2byte d (prev_link a xs) s) s (chain_head ys)) (s + 2) n"
  shows "free_chain d1 a (xs @ (s, n) # ys)" "loose lo hi (xs @ (s, n) # ys)"
    "\<And>x. x \<noteq> prev_link a xs \<Longrightarrow> x \<noteq> prev_link a xs + 1 \<Longrightarrow> x < s \<or> s + 4 \<le> x \<Longrightarrow> d1 x = d x"
proof -
  let ?p = "prev_link a xs"
  have sx: "spaced lo hi xs" and sy: "spaced (next_lo lo xs) hi ys" using sp by (simp_all add: spaced_append)
  show "loose lo hi (xs @ (s, n) # ys)" by (rule loose_insert [OF sx sy below above b(1,2,4)])
  show o: "d1 x = d x" if "x \<noteq> ?p" "x \<noteq> ?p + 1" "x < s \<or> s + 4 \<le> x" for x using that by (auto simp: d1 put2byte_def)
  have ps: "?p + 2 \<le> s" "?p + 2 \<le> s + n"
  proof -
    show "?p + 2 \<le> s" using prev_link_mem [of xs a]
    proof
      assume "(?p, snd (last xs)) \<in> set xs"
      then show ?thesis using below spaced_mem [OF sx] by fastforce
    qed (use a b(1) in simp)
    then show "?p + 2 \<le> s + n" by simp
  qed
  have hd: "chain_head ys < 65536" using sy b(3) by (cases ys) (auto simp: chain_head_def)
  have lt: "s < 65536" "n < 65536" using b by linarith+
  have g: "get2byte d1 ?p = s" "get2byte d1 s = chain_head ys" "get2byte d1 (s + 2) = n"
    unfolding d1 using lt hd ps by (simp_all add: get_put2 get_put2_other)
  have "free_seg d1 a xs"
  proof (rule free_seg_cong [OF _ sx a])
    show "free_seg d a xs" using ch by (simp add: free_chain_append)
    fix x assume x: "x = a \<or> x = a + 1 \<or> x \<in> free_bytes xs" "x \<noteq> ?p" "x \<noteq> ?p + 1"
    have "x < s"
    proof (cases "x \<in> free_bytes xs")
      case True
      then show ?thesis by (rule free_bytesE) (use below in fastforce)
    qed (use x(1) a b(1) in auto)
    then show "d1 x = d x" using x by (intro o) simp_all
  qed
  moreover have "free_chain d1 s ys"
  proof (cases ys)
    case Nil
    then show ?thesis using g(2) by (simp add: chain_head_def)
  next
    case (Cons y zs)
    obtain c m where y: "y = (c, m)" by (rule prod.exhaust)
    have fc: "get2byte d (c + 2) = m" "free_chain d c zs" using ch Cons y by (simp_all add: free_chain_append)
    have c: "s + n \<le> c" using above Cons y by auto
    have out: "d1 x = d x" if "s + n \<le> x" for x by (rule o) (use that ps b(4) in auto)
    have "free_chain d1 c zs"
    proof (rule free_chain_cong [OF fc(2)])
      show "d1 (x + j) = d (x + j)" if "(x, k) \<in> set zs" for x k j
      proof (rule out)
        have "s + n \<le> x" using above that Cons by (meson list.set_intros(2))
        then show "s + n \<le> x + j" by simp
      qed
    qed (use c in \<open>auto intro: out\<close>)
    moreover have "get2byte d1 (c + 2) = get2byte d (c + 2)" by (rule get2_cong; rule out) (use c in simp_all)
    ultimately show ?thesis using g(2) fc(1) Cons y by (simp add: chain_head_def)
  qed
  ultimately show "free_chain d1 a (xs @ (s, n) # ys)" using g by (simp add: free_chain_append)
qed

text \<open>A first block at the very start of the content area joins the gap.\<close>

lemma drop_first:
  assumes i: "space_ok pg ((page_top pg, m) # fs) U"
    and d3: "d3 = copy_bytes (aData pg) (hdrOffset pg + 1) (aData pg) (page_top pg) 2"
    and pg': "pg' = pg\<lparr>aData := put2byte d3 (hdrOffset pg + 5) (page_top pg + m)\<rparr>"
  shows "space_ok pg' fs U" "keeps pg pg' U" "get2byte d3 (hdrOffset pg + 5) = page_top pg" "get2byte d3 (page_top pg + 2) = m"
proof -
  note d = space_okD [OF i]
  let ?h = "hdrOffset pg" and ?t = "page_top pg" and ?u = "usable pg" and ?d = "aData pg"
  let ?d4 = "put2byte d3 (?h + 5) (?t + m)"
  have m: "get2byte ?d (?t + 2) = m" "free_chain ?d ?t fs" "4 \<le> m" "?t + m \<le> ?u" "spaced (?t + m + 4) ?u fs" using d(6,7) by simp_all
  have o3: "d3 x = ?d x" if "x \<noteq> ?h + 1" "x \<noteq> ?h + 2" for x using that by (auto simp: d3 copy_bytes_def)
  have o4: "?d4 x = ?d x" if "x \<notin> {?h + 1, ?h + 2, ?h + 5, ?h + 6}" for x using that o3 by (auto simp: put2byte_def)
  show "get2byte d3 (?h + 5) = ?t" unfolding page_top_def by (rule get2_cong; rule o3) simp_all
  have "get2byte d3 (?t + 2) = get2byte ?d (?t + 2)" by (rule get2_cong; rule o3) (use d(12) in simp_all)
  then show "get2byte d3 (?t + 2) = m" using m(1) by simp
  have "page_top pg' = get2byte ?d4 (?h + 5)" by (simp add: page_top_def pg')
  also have "\<dots> = ?t + m" by (rule get_put2) (use m(4) d(13) in linarith)
  finally have top: "page_top pg' = ?t + m" .
  have c4: "get2byte ?d4 (?h + 3) = nCell pg" unfolding d(5) [symmetric] by (rule get2_cong; rule o4) simp_all
  have ch4: "free_chain ?d4 (?h + 1) fs"
  proof -
    have e: "get2byte ?d4 (?h + 1) = get2byte ?d ?t" by (rule get2byte_def [THEN trans]) (simp add: get2byte_def put2byte_def d3 copy_bytes_def)
    have "free_chain ?d4 ?t fs"
    proof (rule free_chain_cong [OF m(2)])
      show "?d4 (b + j) = ?d (b + j)" if "(b, k) \<in> set fs" for b k j
        by (rule o4) (use spaced_mem [OF m(5) that] d(12) in auto)
    qed (rule o4; use d(12) in auto)+
    moreover have "get2byte ?d4 ?t = get2byte ?d ?t" by (rule get2_cong; rule o4) (use d(12) in auto)
    ultimately show ?thesis using e by (cases fs) auto
  qed
  have sp4: "spaced (?t + m) ?u fs" by (rule spaced_mono [OF m(5)]) simp
  have U4: "U \<inter> free_bytes fs = {}" "U \<subseteq> {?t + m..<?u}" using d(8,9) by fastforce+
  have "{?t..<?u} - U - free_bytes ((?t, m) # fs) = {?t + m..<?u} - U - free_bytes fs" by auto
  then have fr4: "unat (?d4 (?h + 7)) = card ({?t + m..<?u} - U - free_bytes fs)" using d(10) o4 [of "?h + 7"] by simp
  have f: "usable pg' = ?u" "limits_ok pg' = limits_ok pg" "ptr_end pg' = ptr_end pg" by (simp_all add: pg' limits_ok_def ptr_end_def)
  show "space_ok pg' fs U"
    by (rule space_okI) (use d(1-3,11) m(4) c4 ch4 sp4 U4 fr4 in \<open>simp_all add: top f, simp_all add: pg'\<close>)
  show "keeps pg pg' U"
    by (rule keepsI [where n = "nFree pg" and d = ?d4]) (simp_all add: pg' hdr_free_def o4)
qed

lemma page_keeps_trans:
  assumes "keeps pg pg' U" "keeps pg' pg'' U" "page_top pg \<le> page_top pg'"
  shows "keeps pg pg'' U"
proof -
  have e: "pg' = pg\<lparr>nFree := nFree pg', aData := aData pg'\<rparr>" "pg'' = pg'\<lparr>nFree := nFree pg'', aData := aData pg''\<rparr>"
    using assms(1,2) by (simp_all add: keeps_def)
  have "pg'' = pg\<lparr>nFree := nFree pg', aData := aData pg'\<rparr>\<lparr>nFree := nFree pg'', aData := aData pg''\<rparr>"
    by (rule trans [OF e(2)]) (simp only: e(1) [symmetric])
  then have "pg'' = pg\<lparr>nFree := nFree pg'', aData := aData pg''\<rparr>" by simp
  then show ?thesis using assms(3) keepsD(1,2) [OF assms(1)] keeps_same [OF assms(1)] keeps_same [OF assms(2)] unfolding keeps_def by auto
qed

lemma used_within: "space_ok pg fs U \<Longrightarrow> {s..<s + n} \<subseteq> U \<Longrightarrow> 0 < n \<Longrightarrow> page_top pg \<le> s \<and> s + n \<le> usable pg"
proof -
  assume a: "space_ok pg fs U" "{s..<s + n} \<subseteq> U" "0 < n"
  have "s \<in> {s..<s + n}" "s + (n - 1) \<in> {s..<s + n}" using a(3) by simp_all
  then have "s \<in> {page_top pg..<usable pg}" "s + (n - 1) \<in> {page_top pg..<usable pg}"
    using subsetD [OF subset_trans [OF a(2) space_okD(8) [OF a(1)]]] by blast+
  then show ?thesis using a(3) by auto
qed

text \<open>Where the chain is cut for a used interval.\<close>

lemma place_ok:
  assumes i: "space_ok pg fs U" and R: "{s..<s + n} \<subseteq> U" "0 < n"
  shows "\<exists>xs ys. fs = xs @ ys \<and> place_loop (aData pg) (hdrOffset pg + 1) s = Inr (prev_link (hdrOffset pg + 1) xs, chain_head ys) \<and>
    (\<forall>c m. (c, m) \<in> set xs \<longrightarrow> c + m \<le> s) \<and> (\<forall>c m. (c, m) \<in> set ys \<longrightarrow> s + n \<le> c)"
proof -
  note d = space_okD [OF i]
  have away: "a + m \<le> s \<or> s + n \<le> a" if m: "(a, m) \<in> set fs" for a m
  proof (rule ccontr)
    assume "\<not> (a + m \<le> s \<or> s + n \<le> a)"
    then have "max a s \<in> free_bytes fs" "max a s \<in> {s..<s + n}" using R(2) spaced_mem [OF d(7) m] by (auto intro!: free_bytesI [OF m])
    then show False using R(1) d(9) by blast
  qed
  have ne: "s \<notin> fst ` set fs"
  proof
    assume "s \<in> fst ` set fs"
    then obtain m where "(s, m) \<in> set fs" by auto
    then show False using away [of s m] spaced_mem [OF d(7), of s m] R(2) by simp
  qed
  have "hdrOffset pg + 1 < page_top pg" using d(12) by simp
  from place_loop_ok [where s = s, OF d(6,7) this ne] obtain xs ys where xy: "fs = xs @ ys \<and>
    place_loop (aData pg) (hdrOffset pg + 1) s = Inr (prev_link (hdrOffset pg + 1) xs, chain_head ys) \<and>
    (\<forall>a m. (a, m) \<in> set xs \<longrightarrow> a < s) \<and> (\<forall>a m. (a, m) \<in> set ys \<longrightarrow> s < a)" by (elim exE)
  have "c + m \<le> s" if m: "(c, m) \<in> set xs" for c m
  proof -
    have "c < s" using xy m by blast
    then show ?thesis using away [of c m] m conjunct1 [OF xy] by simp
  qed
  moreover have "s + n \<le> c" if m: "(c, m) \<in> set ys" for c m
  proof -
    have "s < c" using xy m by blast
    then show ?thesis using away [of c m] m conjunct1 [OF xy] by simp
  qed
  ultimately show ?thesis using xy by (intro exI [of _ xs] exI [of _ ys]) simp
qed

text \<open>Freeing up to the last step: the block is in the chain and merged with its neighbours.\<close>

lemma free_merged:
  assumes i: "space_ok pg fs U" and R: "{s..<s + n} \<subseteq> U" "4 \<le> n" and thick: "thick (U - {s..<s + n})"
  shows "\<exists>p nx d1 d2 fs2. place_loop (aData pg) (hdrOffset pg + 1) s = Inr (p, nx) \<and> nx \<le> usable pg - 4 \<and>
    d1 = put2byte (put2byte (put2byte (aData pg) p s) s nx) (s + 2) n \<and> coalesce_loop d1 (hdrOffset pg) (hdrOffset pg + 1) = Some (SQLITE_OK, d2) \<and>
    u16n (nFree pg + n) = nFree pg + n \<and>
    space_ok (pg\<lparr>nFree := nFree pg + n, aData := d2\<rparr>) fs2 (U - {s..<s + n}) \<and>
    keeps pg (pg\<lparr>nFree := nFree pg + n, aData := d2\<rparr>) (U - {s..<s + n}) \<and> page_top (pg\<lparr>nFree := nFree pg + n, aData := d2\<rparr>) = page_top pg"
proof -
  note d = space_okD [OF i]
  let ?h = "hdrOffset pg" and ?d = "aData pg" and ?t = "page_top pg" and ?R = "{s..<s + n}" and ?u = "usable pg"
  let ?U = "U - ?R"
  have sR: "?t \<le> s" "s + n \<le> ?u" using used_within [OF i R(1)] R(2) by simp_all
  have n0: "0 < n" using R(2) by simp
  obtain xs ys where xy: "fs = xs @ ys" "place_loop ?d (?h + 1) s = Inr (prev_link (?h + 1) xs, chain_head ys)"
    and below: "\<And>c m. (c, m) \<in> set xs \<Longrightarrow> c + m \<le> s" and above: "\<forall>c m. (c, m) \<in> set ys \<longrightarrow> s + n \<le> c"
    using place_ok [OF i R(1) n0] by blast
  let ?p = "prev_link (?h + 1) xs" and ?nx = "chain_head ys"
  have nxu: "?nx \<le> ?u - 4" using d(7) unfolding xy(1) spaced_append by (cases ys) (auto simp: chain_head_def)
  have h2: "?h + 1 + 2 \<le> ?t" using d(12) by simp
  have fin: "finite ?U" using d(14) by simp
  define d1 where "d1 = put2byte (put2byte (put2byte ?d ?p s) s ?nx) (s + 2) n"
  note ci = chain_insert [OF d(6,7) [unfolded xy(1)] h2 sR d(13) R(2) below above d1_def]
  have p: "?p = ?h + 1 \<or> (?p, snd (last xs)) \<in> set fs" using prev_link_mem [of xs "?h + 1"] xy(1) by auto
  have pf: "?p = ?h + 1 \<or> ?p \<in> free_bytes fs \<and> ?p + 1 \<in> free_bytes fs"
    using p
  proof
    assume m: "(?p, snd (last xs)) \<in> set fs"
    then have "4 \<le> snd (last xs)" using spaced_mem [OF d(7)] by blast
    then show ?thesis by (intro disjI2 conjI free_bytesI [OF m]) simp_all
  qed simp
  have o1: "d1 x = ?d x" if "x \<notin> hdr_free ?h" "x < ?t \<or> x \<in> ?U \<or> ?u \<le> x" for x
  proof (rule ci(3))
    show "x \<noteq> ?p" "x \<noteq> ?p + 1" using pf that d(9) spaced_bytes [OF d(7)] by (fastforce simp: hdr_free_def)+
    show "x < s \<or> s + 4 \<le> x" using that(2) sR R(2) by auto
  qed
  have oh: "d1 x = ?d x" if "x = ?h + 5 \<or> x = ?h + 6 \<or> x = ?h + 7" for x
  proof (rule ci(3))
    have "x < ?t" using that d(12) by auto
    then show "x \<noteq> ?p" "x \<noteq> ?p + 1" "x < s \<or> s + 4 \<le> x" using pf that sR spaced_bytes [OF d(7)] by fastforce+
  qed
  have bytes1: "free_bytes (xs @ (s, n) # ys) = free_bytes fs \<union> ?R" unfolding xy(1) by auto
  have U1: "?U \<inter> free_bytes (xs @ (s, n) # ys) = {}" unfolding bytes1 using d(9) by auto
  have "{?t..<?u} - U - free_bytes fs = {?t..<?u} - ?U - {} - free_bytes (xs @ (s, n) # ys)" unfolding bytes1 using R(1) by blast
  then have fr1: "unat (d1 (?h + 7)) = card ({?t..<?u} - ?U - {} - free_bytes (xs @ (s, n) # ys))" using d(10) oh [of "?h + 7"] by simp
  obtain d2 fs2 where r: "coalesce_loop d1 ?h (?h + 1) = Some (SQLITE_OK, d2)" "free_chain d2 (?h + 1) fs2" "spaced ?t ?u fs2" "?U \<inter> free_bytes fs2 = {}"
    "unat (d2 (?h + 7)) = card ({?t..<?u} - ?U - {} - free_bytes fs2)" "\<And>x. x \<noteq> ?h + 7 \<Longrightarrow> x < ?t \<or> x \<in> ?U \<or> ?u \<le> x \<Longrightarrow> d2 x = d1 x"
    using coalesce_loop_ok [OF ci(1,2) h2 d(12) order_refl d(13) disjI1 [OF refl] thick fin U1 empty_subsetI fr1] by blast
  let ?pg = "pg\<lparr>nFree := nFree pg + n, aData := d2\<rparr>"
  have same2: "d2 x = ?d x" if "x \<notin> hdr_free ?h" "x < ?t \<or> x \<in> ?U \<or> ?u \<le> x" for x
    using o1 [OF that] r(6) [OF _ that(2)] that(1) by (simp add: hdr_free_def)
  have "d2 x = ?d x" if "x = ?h + 5 \<or> x = ?h + 6" for x using that oh [of x] r(6) [of x] d(12) by auto
  then have top: "page_top ?pg = ?t" unfolding page_top_def by (simp add: get2byte_def)
  have t3: "get2byte d2 (?h + 3) = nCell pg" unfolding d(5) [symmetric]
    by (rule get2_cong; rule same2) (use d(12) in \<open>auto simp: hdr_free_def\<close>)
  have "card ?R \<le> card U" by (rule card_mono [OF d(14) R(1)])
  moreover have "card ?U = card U - card ?R" by (rule card_Diff_subset) (use R(1) in simp_all)
  ultimately have nf: "nFree pg + n + ptr_end pg + card ?U = ?u" using d(11) by simp
  then have nf16: "u16n (nFree pg + n) = nFree pg + n" using d(13) by (simp add: u16n_def)
  have U2: "?U \<subseteq> {?t..<?u}" using d(8) by blast
  have "space_ok ?pg fs2 ?U" by (rule space_okI) (use d(1-4) t3 r(2-5) U2 nf in \<open>simp_all add: top\<close>)
  moreover have "keeps pg ?pg ?U" by (rule keepsI [OF refl same2])
  ultimately show ?thesis using xy(2) nxu d1_def r(1) nf16 top by blast
qed

lemma freeSpace_ok:
  assumes i: "space_ok pg fs U" and R: "{s..<s + n} \<subseteq> U" "4 \<le> n" and thick: "thick (U - {s..<s + n})"
  shows "\<exists>pg' fs'. freeSpace pg s n = Some (SQLITE_OK, pg') \<and> space_ok pg' fs' (U - {s..<s + n}) \<and> keeps pg pg' (U - {s..<s + n})"
proof -
  let ?h = "hdrOffset pg" and ?U = "U - {s..<s + n}"
  obtain p nx d1 d2 fs2 where r: "place_loop (aData pg) (?h + 1) s = Inr (p, nx)" "nx \<le> usable pg - 4"
    "d1 = put2byte (put2byte (put2byte (aData pg) p s) s nx) (s + 2) n" "coalesce_loop d1 ?h (?h + 1) = Some (SQLITE_OK, d2)"
    "u16n (nFree pg + n) = nFree pg + n" and s: "space_ok (pg\<lparr>nFree := nFree pg + n, aData := d2\<rparr>) fs2 ?U"
    and k: "keeps pg (pg\<lparr>nFree := nFree pg + n, aData := d2\<rparr>) ?U" and t: "page_top (pg\<lparr>nFree := nFree pg + n, aData := d2\<rparr>) = page_top pg"
    using free_merged [OF assms] by blast
  define pg2 where "pg2 = pg\<lparr>nFree := nFree pg + n, aData := d2\<rparr>"
  note s = s [folded pg2_def] and k = k [folded pg2_def] and t = t [folded pg2_def]
  note d = space_okD [OF s]
  have f: "hdrOffset pg2 = ?h" "aData pg2 = d2" by (simp_all add: pg2_def)
  show ?thesis
  proof (cases "d2 (?h + 1) = d2 (?h + 5) \<and> d2 (?h + 2) = d2 (?h + 6)")
    case False
    have "freeSpace pg s n = Some (SQLITE_OK, pg2)"
      using False r(2,5) unfolding freeSpace_def Let_def r(1) by (simp add: pg2_def r(4) [folded Suc_eq_plus1] flip: r(3) del: add_2_eq_Suc') auto
    then show ?thesis using s k by blast
  next
    case True
    then have first: "get2byte d2 (?h + 1) = page_top pg2" by (simp add: get2byte_def page_top_def f add.commute [of 6])
    then obtain m fs3 where fs2: "fs2 = (page_top pg2, m) # fs3" using d(6,12) f by (cases fs2) auto
    define d3 where "d3 = copy_bytes d2 (?h + 1) d2 (page_top pg2) 2"
    note df = drop_first [OF s [unfolded fs2], unfolded f, OF d3_def refl]
    have "freeSpace pg s n = Some (SQLITE_OK, pg2\<lparr>aData := put2byte d3 (?h + 5) (page_top pg2 + m)\<rparr>)"
      using True r(2,5) unfolding freeSpace_def Let_def r(1)
      by (simp add: r(4) [folded Suc_eq_plus1] first first [folded Suc_eq_plus1] df(3,4) flip: r(3) d3_def [folded Suc_eq_plus1] del: add_2_eq_Suc') (simp add: pg2_def)
    moreover have "page_top pg \<le> page_top pg2" using t by simp
    ultimately show ?thesis using df(1) page_keeps_trans [OF k df(2)] by blast
  qed
qed

section \<open>The cells of a page\<close>

definition cell_ptr :: "mempage \<Rightarrow> nat \<Rightarrow> nat" where
  "cell_ptr pg i = get2byte (aData pg) (cellOffset pg + 2 * i)"

definition cell_len :: "mempage \<Rightarrow> nat \<Rightarrow> nat" where
  "cell_len pg i = cellSizePtr pg (at_offset (aData pg) (cell_ptr pg i))"

definition cell_set :: "mempage \<Rightarrow> nat \<Rightarrow> nat set" where
  "cell_set pg i = {cell_ptr pg i..<cell_ptr pg i + cell_len pg i}"

definition used :: "mempage \<Rightarrow> nat set" where
  "used pg = (\<Union>i<nCell pg. cell_set pg i)"

text \<open>The abstract page: the bytes of its cells, in order.\<close>

definition cell_body :: "mempage \<Rightarrow> nat \<Rightarrow> u8 list" where
  "cell_body pg i = map (at_offset (aData pg) (cell_ptr pg i)) [0..<cell_len pg i]"

definition page_cells :: "mempage \<Rightarrow> u8 list list" where
  "page_cells pg = map (cell_body pg) [0..<nCell pg]"

text \<open>A well-formed page with free blocks \<open>fs\<close>, where \<open>X\<close> is given out but not yet a cell.\<close>

definition page_ok :: "mempage \<Rightarrow> blocks \<Rightarrow> nat set \<Rightarrow> bool" where
  "page_ok pg fs X \<longleftrightarrow> space_ok pg fs (used pg \<union> X) \<and> used pg \<inter> X = {} \<and>
     cellOffset pg = hdrOffset pg + 8 + (if leaf pg then 0 else 4) \<and>
     (\<forall>i < nCell pg. \<forall>j < nCell pg. i \<noteq> j \<longrightarrow> cell_set pg i \<inter> cell_set pg j = {})"

lemma page_okD:
  assumes "page_ok pg fs X"
  shows "space_ok pg fs (used pg \<union> X)" "used pg \<inter> X = {}" "cellOffset pg = hdrOffset pg + 8 + (if leaf pg then 0 else 4)"
    "i < nCell pg \<Longrightarrow> j < nCell pg \<Longrightarrow> i \<noteq> j \<Longrightarrow> cell_set pg i \<inter> cell_set pg j = {}"
  using assms unfolding page_ok_def by blast+

lemma cell_used: "i < nCell pg \<Longrightarrow> cell_set pg i \<subseteq> used pg"
  by (auto simp: used_def)

lemma cell_len4: "limits_ok pg \<Longrightarrow> 4 \<le> cell_len pg i"
  by (simp add: cell_len_def cell_size)

text \<open>Pages that agree on the pointers and the cells have the same cells.\<close>

definition same_layout :: "mempage \<Rightarrow> mempage \<Rightarrow> bool" where
  "same_layout pg pg' \<longleftrightarrow> cellOffset pg' = cellOffset pg \<and> cellSizePtr pg' = cellSizePtr pg \<and> limits_ok pg"

lemma cell_move:
  assumes l: "same_layout pg pg'" and "\<And>k. k < cell_len pg i \<Longrightarrow> aData pg' (cell_ptr pg' j + k) = aData pg (cell_ptr pg i + k)"
  shows "cell_len pg' j = cell_len pg i" "cell_body pg' j = cell_body pg i"
proof -
  have "sqlite3BtreeParseCellPtr pg (at_offset (aData pg') (cell_ptr pg' j)) = sqlite3BtreeParseCellPtr pg (at_offset (aData pg) (cell_ptr pg i))"
    by (rule parse_cong) (use assms in \<open>simp_all add: same_layout_def cell_len_def\<close>)
  then show e: "cell_len pg' j = cell_len pg i" using l by (simp add: same_layout_def cell_len_def cellSizePtr_def)
  show "cell_body pg' j = cell_body pg i" unfolding cell_body_def e using assms(2) by simp
qed

lemma cells_cong:
  assumes l: "same_layout pg pg'" and n: "nCell pg' = nCell pg"
    and ptrs: "\<And>a. cellOffset pg \<le> a \<Longrightarrow> a < ptr_end pg \<Longrightarrow> aData pg' a = aData pg a" and body: "\<And>a. a \<in> used pg \<Longrightarrow> aData pg' a = aData pg a"
  shows "\<And>i. i < nCell pg \<Longrightarrow> cell_set pg' i = cell_set pg i" "used pg' = used pg" "page_cells pg' = page_cells pg"
proof -
  have p: "cell_ptr pg' i = cell_ptr pg i" if "i < nCell pg" for i
  proof -
    have "get2byte (aData pg') (cellOffset pg + 2 * i) = get2byte (aData pg) (cellOffset pg + 2 * i)"
      by (rule get2_cong; rule ptrs) (use that in \<open>simp_all add: ptr_end_def\<close>)
    then show ?thesis using l by (simp add: cell_ptr_def same_layout_def)
  qed
  have c: "cell_len pg' i = cell_len pg i" "cell_body pg' i = cell_body pg i" if i: "i < nCell pg" for i
  proof -
    have m: "aData pg' (cell_ptr pg' i + k) = aData pg (cell_ptr pg i + k)" if "k < cell_len pg i" for k
    proof -
      have "cell_ptr pg i + k \<in> cell_set pg i" using that by (simp add: cell_set_def)
      then show ?thesis using body cell_used [OF i] p [OF i] by (simp add: subsetD)
    qed
    show "cell_len pg' i = cell_len pg i" "cell_body pg' i = cell_body pg i" using cell_move [OF l m] by blast+
  qed
  show s: "\<And>i. i < nCell pg \<Longrightarrow> cell_set pg' i = cell_set pg i" using p c by (simp add: cell_set_def)
  show "used pg' = used pg" using s n by (simp add: used_def)
  show "page_cells pg' = page_cells pg" using c n by (simp add: page_cells_def)
qed

lemma keeps_layout: "keeps pg pg' U \<Longrightarrow> limits_ok pg \<Longrightarrow> same_layout pg pg'"
  using keepsD [of pg pg' U] by (simp add: same_layout_def)

lemma keeps_cells:
  assumes "keeps pg pg' U" "page_ok pg fs X" "used pg \<subseteq> U"
  shows "\<And>i. i < nCell pg \<Longrightarrow> cell_set pg' i = cell_set pg i" "used pg' = used pg" "page_cells pg' = page_cells pg"
proof -
  note d = space_okD [OF page_okD(1) [OF assms(2)]] and k = keepsD [OF assms(1)]
  have p: "aData pg' a = aData pg a" if "cellOffset pg \<le> a" "a < ptr_end pg" for a
    by (rule keeps_same [OF assms(1)]) (use that d(2,3) in \<open>auto simp: hdr_free_def\<close>)
  have b: "aData pg' a = aData pg a" if "a \<in> used pg" for a
    by (rule keeps_same [OF assms(1)]) (use that assms(3) d(8,12) in \<open>auto simp: hdr_free_def\<close>)
  note c = cells_cong [OF keeps_layout [OF assms(1) d(1)] k(4) p b]
  show "\<And>i. i < nCell pg \<Longrightarrow> cell_set pg' i = cell_set pg i" "used pg' = used pg" "page_cells pg' = page_cells pg"
    using c by blast+
qed

lemma card_used: "page_ok pg fs X \<Longrightarrow> card (used pg) = (\<Sum>i<nCell pg. cell_len pg i)"
proof -
  assume p: "page_ok pg fs X"
  have "card (used pg) = (\<Sum>i<nCell pg. card (cell_set pg i))" unfolding used_def
  proof (rule card_UN_disjoint)
    show "\<forall>i \<in> {..<nCell pg}. \<forall>j \<in> {..<nCell pg}. i \<noteq> j \<longrightarrow> cell_set pg i \<inter> cell_set pg j = {}"
      using page_okD(4) [OF p] by blast
  qed (simp_all add: cell_set_def)
  then show ?thesis by (simp add: cell_set_def)
qed

section \<open>Defragmentation\<close>

abbreviation lens :: "mempage \<Rightarrow> nat \<Rightarrow> nat" where
  "lens pg k \<equiv> (\<Sum>i<k. cell_len pg i)"

text \<open>The data after the first \<open>k\<close> cells have moved to the end of the page.\<close>

definition moved :: "mempage \<Rightarrow> nat \<Rightarrow> bytes \<Rightarrow> bool" where
  "moved pg k d \<longleftrightarrow> (\<forall>i < k. get2byte d (cellOffset pg + 2 * i) = usable pg - lens pg (Suc i)) \<and>
     (\<forall>i < k. \<forall>j < cell_len pg i. d (usable pg - lens pg (Suc i) + j) = aData pg (cell_ptr pg i + j)) \<and>
     (\<forall>i < nCell pg. k \<le> i \<longrightarrow> get2byte d (cellOffset pg + 2 * i) = cell_ptr pg i) \<and>
     (\<forall>a < cellOffset pg. d a = aData pg a)"

lemma movedD:
  assumes "moved pg k d"
  shows "i < k \<Longrightarrow> get2byte d (cellOffset pg + 2 * i) = usable pg - lens pg (Suc i)"
    "i < k \<Longrightarrow> j < cell_len pg i \<Longrightarrow> d (usable pg - lens pg (Suc i) + j) = aData pg (cell_ptr pg i + j)"
    "i < nCell pg \<Longrightarrow> k \<le> i \<Longrightarrow> get2byte d (cellOffset pg + 2 * i) = cell_ptr pg i" "a < cellOffset pg \<Longrightarrow> d a = aData pg a"
  using assms unfolding moved_def by blast+

lemma lens_mono: "i \<le> k \<Longrightarrow> lens pg i \<le> lens pg k"
  by (rule sum_mono2) auto

lemma moved_step:
  assumes m: "moved pg k d" and k: "k < nCell pg" and room: "ptr_end pg + lens pg (nCell pg) \<le> usable pg" "usable pg \<le> 32768"
    and temp: "\<And>j. j < cell_len pg k \<Longrightarrow> temp (cell_ptr pg k + j) = aData pg (cell_ptr pg k + j)"
  shows "moved pg (Suc k) (put2byte (copy_bytes d (usable pg - lens pg (Suc k)) temp (cell_ptr pg k) (cell_len pg k))
    (cellOffset pg + 2 * k) (usable pg - lens pg (Suc k)))"
proof -
  let ?u = "usable pg" and ?co = "cellOffset pg" and ?c = "usable pg - lens pg (Suc k)"
  let ?d1 = "copy_bytes d ?c temp (cell_ptr pg k) (cell_len pg k)"
  let ?d2 = "put2byte ?d1 (?co + 2 * k) ?c"
  have S: "lens pg (Suc k) \<le> lens pg (nCell pg)" by (rule lens_mono) (use k in simp)
  then have c: "ptr_end pg \<le> ?c" "?c + cell_len pg k = ?u - lens pg k" using room by simp_all
  have low: "?d1 a = d a" if "a < ptr_end pg" for a using that c(1) by (simp add: copy_bytes_def)
  have ptrs: "get2byte ?d2 (?co + 2 * i) = get2byte d (?co + 2 * i)" if "i < nCell pg" "i \<noteq> k" for i
  proof -
    have "get2byte ?d2 (?co + 2 * i) = get2byte ?d1 (?co + 2 * i)" by (rule get_put2_other) (use that in linarith)
    also have "\<dots> = get2byte d (?co + 2 * i)" by (rule get2_cong; rule low) (use that in \<open>simp_all add: ptr_end_def\<close>)
    finally show ?thesis .
  qed
  have pk: "get2byte ?d2 (?co + 2 * k) = ?c" by (rule get_put2) (use room(2) in simp)
  have high: "?d2 a = ?d1 a" if "ptr_end pg \<le> a" for a by (rule put2_other) (use that k in \<open>simp_all add: ptr_end_def\<close>)
  show ?thesis unfolding moved_def
  proof (intro conjI allI impI)
    fix i assume "i < Suc k"
    then show "get2byte ?d2 (?co + 2 * i) = ?u - lens pg (Suc i)" using movedD(1) [OF m, of i] ptrs [of i] pk k by (cases "i = k") auto
  next
    fix i j assume i: "i < Suc k" "j < cell_len pg i"
    have "lens pg (Suc i) \<le> lens pg (nCell pg)" by (rule lens_mono) (use i k in simp)
    then have hi: "ptr_end pg \<le> ?u - lens pg (Suc i) + j" using room by linarith
    show "?d2 (?u - lens pg (Suc i) + j) = aData pg (cell_ptr pg i + j)"
    proof (cases "i = k")
      case True
      then show ?thesis using high [OF hi] i(2) temp by (simp add: copy_bytes_def)
    next
      case False
      then have "Suc i \<le> k" using i(1) by simp
      then have "lens pg (Suc i) \<le> lens pg k" by (rule lens_mono)
      then have "\<not> (?u - lens pg (Suc i) + j < ?c + cell_len pg k)" using c(2) by linarith
      then have "?d2 (?u - lens pg (Suc i) + j) = d (?u - lens pg (Suc i) + j)" using high [OF hi] by (simp add: copy_bytes_def)
      then show ?thesis using movedD(2) [OF m] i False by simp
    qed
  next
    fix i assume "i < nCell pg" "Suc k \<le> i"
    then show "get2byte ?d2 (?co + 2 * i) = cell_ptr pg i" using ptrs [of i] movedD(3) [OF m] by simp
  next
    fix a assume a: "a < ?co"
    have "?d2 a = ?d1 a" by (rule put2_other) (use a in simp_all)
    then show "?d2 a = aData pg a" using low [of a] movedD(4) [OF m] a by (simp add: ptr_end_def)
  qed
qed

lemma defrag_loop_ok:
  assumes "moved pg k d" "k \<le> nCell pg" "ptr_end pg + lens pg (nCell pg) \<le> usable pg" "usable pg \<le> 32768" "limits_ok pg"
    "\<And>i. i < nCell pg \<Longrightarrow> cell_ptr pg i + cell_len pg i \<le> usable pg"
    "\<And>i j. i < nCell pg \<Longrightarrow> j < cell_len pg i \<Longrightarrow> temp (cell_ptr pg i + j) = aData pg (cell_ptr pg i + j)"
  shows "\<exists>d'. defrag_loop pg temp [k..<nCell pg] (usable pg - lens pg k) d = (Some (usable pg - lens pg (nCell pg)), d') \<and> moved pg (nCell pg) d'"
  using assms(1,2)
proof (induction "nCell pg - k" arbitrary: k d)
  case 0
  then show ?case by simp
next
  case (Suc x)
  have k: "k < nCell pg" "x = nCell pg - Suc k" "Suc k \<le> nCell pg" using Suc.hyps(2) by simp_all
  let ?c = "usable pg - lens pg (Suc k)"
  let ?d = "put2byte (copy_bytes d ?c temp (cell_ptr pg k) (cell_len pg k)) (cellOffset pg + 2 * k) ?c"
  have pc: "get2byte d (cellOffset pg + 2 * k) = cell_ptr pg k" by (rule movedD(3) [OF Suc.prems(1) k(1)]) simp
  have "sqlite3BtreeParseCellPtr pg (at_offset temp (cell_ptr pg k)) = sqlite3BtreeParseCellPtr pg (at_offset (aData pg) (cell_ptr pg k))"
    by (rule parse_cong [OF assms(5)]) (rule assms(7) [OF k(1)], simp add: cell_len_def)
  then have sz: "cellSizePtr pg (at_offset temp (cell_ptr pg k)) = cell_len pg k" by (simp add: cellSizePtr_def cell_len_def)
  have S: "lens pg (Suc k) \<le> lens pg (nCell pg)" by (rule lens_mono [OF k(3)])
  have ok: "\<not> usable pg \<le> cell_ptr pg k"
    "\<not> (usable pg - lens pg k < cell_len pg k + cellOffset pg + 2 * nCell pg \<or> usable pg < cell_ptr pg k + cell_len pg k)"
    using assms(6) [OF k(1)] cell_len4 [OF assms(5), of k] S assms(3) by (simp_all add: ptr_end_def)
  have c: "usable pg - lens pg k - cell_len pg k = ?c" by simp
  have "defrag_loop pg temp [k..<nCell pg] (usable pg - lens pg k) d = defrag_loop pg temp [Suc k..<nCell pg] ?c ?d"
    unfolding upt_conv_Cons [OF k(1)] defrag_loop.simps Let_def pc sz c using ok by (simp only: if_False)
  moreover have "moved pg (Suc k) ?d" by (rule moved_step [OF Suc.prems(1) k(1) assms(3,4) assms(7) [OF k(1)]])
  ultimately show ?case using Suc.hyps(1) [OF k(2) _ k(3)] by simp
qed

lemma defrag_nFree: "defrag_loop (pg\<lparr>nFree := x\<rparr>) temp js c d = defrag_loop pg temp js c d"
proof -
  have "cellSizePtr (pg\<lparr>nFree := x\<rparr>) = cellSizePtr pg" by (rule parse_fields) simp_all
  then show ?thesis by (induction js arbitrary: c d) (simp_all add: Let_def)
qed

lemma intervals_down:
  assumes "\<And>i. S i \<le> S (Suc i)" "S n \<le> u"
  shows "(\<Union>i<n. {u - S (Suc i)..<u - S i}) = {u - S n..<u - S 0 :: nat}"
  using assms(2)
proof (induction n)
  case (Suc n)
  have "S n \<le> S (Suc n)" "S 0 \<le> S n" using assms(1) lift_Suc_mono_le [of S 0 n] by simp_all
  then show ?case using Suc by (simp add: lessThan_Suc) auto
qed simp

lemma intervals_down_apart:
  assumes "\<And>i. S i \<le> S (Suc i)" "i \<noteq> j"
  shows "{u - S (Suc i)..<u - S i} \<inter> {u - S (Suc j)..<u - S j} = ({} :: nat set)"
proof -
  have "{u - S (Suc a)..<u - S a} \<inter> {u - S (Suc b)..<u - S b} = {}" if "a < b" for a b
    using lift_Suc_mono_le [of S "Suc a" b] assms(1) that by auto
  note lt = this
  show ?thesis
  proof (cases "i < j")
    case False
    then have "j < i" using assms(2) by simp
    from lt [OF this] show ?thesis by (simp only: Int_commute)
  qed (rule lt)
qed

text \<open>A page without free blocks and stray bytes.\<close>

lemma packed_ok:
  assumes "limits_ok pg" "cellOffset pg = hdrOffset pg + 8 + (if leaf pg then 0 else 4)" "get2byte (aData pg) (hdrOffset pg + 3) = nCell pg"
    "get2byte (aData pg) (hdrOffset pg + 1) = 0" "aData pg (hdrOffset pg + 7) = 0" "ptr_end pg \<le> page_top pg" "page_top pg \<le> usable pg"
    "nFree pg + ptr_end pg = page_top pg" "used pg = {page_top pg..<usable pg}"
    "\<And>i j. i < nCell pg \<Longrightarrow> j < nCell pg \<Longrightarrow> i \<noteq> j \<Longrightarrow> cell_set pg i \<inter> cell_set pg j = {}"
  shows "page_ok pg [] {}"
proof -
  have "space_ok pg [] (used pg \<union> {})" by (rule space_okI) (use assms(1-9) in simp_all)
  then show ?thesis unfolding page_ok_def using assms(2,10) by blast
qed

lemma cells_within: "page_ok pg fs X \<Longrightarrow> i < nCell pg \<Longrightarrow> page_top pg \<le> cell_ptr pg i \<and> cell_ptr pg i + cell_len pg i \<le> usable pg"
proof -
  assume p: "page_ok pg fs X" "i < nCell pg"
  note d = space_okD [OF page_okD(1) [OF p(1)]]
  have "{cell_ptr pg i..<cell_ptr pg i + cell_len pg i} \<subseteq> used pg \<union> X" using cell_used [OF p(2)] by (auto simp: cell_set_def)
  then show ?thesis by (rule used_within [OF page_okD(1) [OF p(1)]]) (use cell_len4 [OF d(1), of i] in simp)
qed

text \<open>The final step of \<^verbatim>\<open>defragmentPage\<close>: the header and the cleared gap.\<close>

lemma defrag_final:
  assumes p: "page_ok pg fs {}" and m: "moved pg (nCell pg) d"
    and d4: "d4 = zero_bytes ((put2byte d (hdrOffset pg + 5) c)(hdrOffset pg + 1 := 0, hdrOffset pg + 2 := 0, hdrOffset pg + 7 := 0)) (ptr_end pg) (c - ptr_end pg)"
    and c: "c = usable pg - lens pg (nCell pg)"
  shows "page_ok (pg\<lparr>aData := d4\<rparr>) [] {}" "page_cells (pg\<lparr>aData := d4\<rparr>) = page_cells pg" "c = ptr_end pg + nFree pg" "get2byte d4 (hdrOffset pg + 5) = c"
    "d4 (hdrOffset pg + 7) = 0"
proof -
  note sd = space_okD [OF page_okD(1) [OF p]]
  let ?h = "hdrOffset pg" and ?u = "usable pg" and ?co = "cellOffset pg" and ?n = "nCell pg"
  define pg' where "pg' = pg\<lparr>aData := d4\<rparr>"
  have card: "nFree pg + ptr_end pg + lens pg ?n = ?u" using sd(11) card_used [OF p] by simp
  then show ce: "c = ptr_end pg + nFree pg" unfolding c by simp
  have cu: "c \<le> ?u" "lens pg ?n \<le> ?u" using card ce by simp_all
  have co: "?h + 8 \<le> ?co" "?co \<le> ptr_end pg" using sd(2) by (simp_all add: ptr_end_def)
  have o: "d4 a = d a" if "a \<notin> hdr_free ?h" "a < ptr_end pg \<or> c \<le> a" for a
    using that by (auto simp: d4 zero_bytes_def hdr_free_def put2byte_def)
  have h: "d4 (?h + 1) = 0" "d4 (?h + 2) = 0" "d4 (?h + 7) = 0" using co by (simp_all add: d4 zero_bytes_def)
  show "d4 (?h + 7) = 0" by (rule h)
  show t: "get2byte d4 (?h + 5) = c"
  proof -
    have "get2byte d4 (?h + 5) = get2byte (put2byte d (?h + 5) c) (?h + 5)"
      by (rule get2_cong) (use co in \<open>simp_all add: d4 zero_bytes_def\<close>)
    then show ?thesis using cu sd(13) by (simp add: get_put2)
  qed
  have f: "hdrOffset pg' = ?h" "aData pg' = d4" "usable pg' = ?u" "limits_ok pg' = limits_ok pg" "cellOffset pg' = ?co" "leaf pg' = leaf pg"
    "nCell pg' = ?n" "ptr_end pg' = ptr_end pg" "nFree pg' = nFree pg"
    by (simp_all add: pg'_def limits_ok_def ptr_end_def)
  have top: "page_top pg' = c" by (simp add: page_top_def f t)
  have "cellSizePtr pg' = cellSizePtr pg" by (rule parse_fields(2)) (simp_all add: pg'_def)
  then have sl: "same_layout pg pg'" unfolding same_layout_def using sd(1) by (simp add: f)
  have ptr: "cell_ptr pg' i = ?u - lens pg (Suc i)" if "i < ?n" for i
  proof -
    have "get2byte d4 (?co + 2 * i) = get2byte d (?co + 2 * i)"
      by (rule get2_cong; rule o) (use that co in \<open>auto simp: hdr_free_def ptr_end_def\<close>)
    then show ?thesis using movedD(1) [OF m that] by (simp add: cell_ptr_def f)
  qed
  have dat: "d4 (?u - lens pg (Suc i) + k) = aData pg (cell_ptr pg i + k)" if i: "i < ?n" and k: "k < cell_len pg i" for i k
  proof -
    have "lens pg (Suc i) \<le> lens pg ?n" by (rule lens_mono) (use i in simp)
    then have "c \<le> ?u - lens pg (Suc i) + k" unfolding c by linarith
    then have "d4 (?u - lens pg (Suc i) + k) = d (?u - lens pg (Suc i) + k)"
      by (intro o) (use co ce in \<open>auto simp: hdr_free_def\<close>)
    then show ?thesis using movedD(2) [OF m i k] by simp
  qed
  have mv: "cell_len pg' i = cell_len pg i" "cell_body pg' i = cell_body pg i" if i: "i < ?n" for i
  proof -
    have e: "aData pg' (cell_ptr pg' i + k) = aData pg (cell_ptr pg i + k)" if "k < cell_len pg i" for k
      using dat [OF i that] by (simp only: f ptr [OF i])
    show "cell_len pg' i = cell_len pg i" by (rule cell_move(1) [OF sl e])
    show "cell_body pg' i = cell_body pg i" by (rule cell_move(2) [OF sl e])
  qed
  then show "page_cells (pg\<lparr>aData := d4\<rparr>) = page_cells pg" unfolding pg'_def [symmetric] page_cells_def f by simp
  have set: "cell_set pg' i = {?u - lens pg (Suc i)..<?u - lens pg i}" if i: "i < ?n" for i
  proof -
    have "lens pg (Suc i) \<le> lens pg ?n" by (rule lens_mono) (use i in simp)
    then have "?u - lens pg (Suc i) + cell_len pg i = ?u - lens pg i" using cu(2) by simp
    then show ?thesis by (simp only: cell_set_def ptr [OF i] mv(1) [OF i])
  qed
  have mono: "lens pg i \<le> lens pg (Suc i)" for i by simp
  have "used pg' = (\<Union>i<?n. {?u - lens pg (Suc i)..<?u - lens pg i})" unfolding used_def f using set by simp
  also have "\<dots> = {c..<?u}" using intervals_down [of "lens pg" ?n ?u, OF mono cu(2)] unfolding c by simp
  finally have us: "used pg' = {c..<?u}" .
  have "get2byte d4 (?h + 3) = ?n"
  proof -
    have "get2byte d4 (?h + 3) = get2byte (aData pg) (?h + 3)"
      by (rule get2_cong; subst o) (use co in \<open>auto simp: hdr_free_def intro: movedD(4) [OF m]\<close>)
    then show ?thesis using sd(5) by simp
  qed
  then show "page_ok (pg\<lparr>aData := d4\<rparr>) [] {}" unfolding pg'_def [symmetric]
    by (intro packed_ok)
       (use sd(1) page_okD(3) [OF p] h ce cu us top set intervals_down_apart [of "lens pg", OF mono] in \<open>simp_all add: f get2byte_def add.assoc\<close>)
qed

text \<open>
  Defragmentation collects all free space in the gap and keeps the cells. The last check of the
  code compares the gap with \<open>nFree\<close>, which \<^verbatim>\<open>allocateSpace\<close> has lowered already when it calls.
\<close>

lemma defragment_any:
  assumes p: "page_ok pg fs {}"
  shows "\<exists>d. (\<forall>x. defragmentPage tmp (pg\<lparr>nFree := x\<rparr>) = (if x = nFree pg then SQLITE_OK else SQLITE_CORRUPT, pg\<lparr>nFree := x, aData := d\<rparr>)) \<and>
    page_ok (pg\<lparr>aData := d\<rparr>) [] {} \<and> page_cells (pg\<lparr>aData := d\<rparr>) = page_cells pg \<and> get2byte d (hdrOffset pg + 5) = ptr_end pg + nFree pg \<and>
    d (hdrOffset pg + 7) = 0"
proof -
  note sd = space_okD [OF page_okD(1) [OF p]]
  let ?t = "page_top pg" and ?u = "usable pg" and ?n = "nCell pg"
  define temp where "temp = copy_bytes tmp ?t (aData pg) ?t (?u - ?t)"
  have m0: "moved pg 0 (aData pg)" by (simp add: moved_def cell_ptr_def)
  have room: "ptr_end pg + lens pg ?n \<le> ?u" using sd(11) card_used [OF p] by simp
  have tmp: "temp (cell_ptr pg i + j) = aData pg (cell_ptr pg i + j)" if "i < ?n" "j < cell_len pg i" for i j
    using cells_within [OF p that(1)] that(2) sd(4) by (simp add: temp_def copy_bytes_def)
  have "cell_ptr pg i + cell_len pg i \<le> ?u" if "i < ?n" for i using cells_within [OF p that] by simp
  from defrag_loop_ok [where temp = temp, OF m0 le0 room sd(13,1) this tmp]
  obtain d1 where r: "defrag_loop pg temp [0..<?n] ?u (aData pg) = (Some (?u - lens pg ?n), d1)" "moved pg ?n d1" by auto
  let ?c = "?u - lens pg ?n" and ?h = "hdrOffset pg"
  define d4 where "d4 = zero_bytes ((put2byte d1 (?h + 5) ?c)(?h + 1 := 0, ?h + 2 := 0, ?h + 7 := 0)) (ptr_end pg) (?c - ptr_end pg)"
  note fin = defrag_final [OF p r(2) d4_def refl]
  have "defragmentPage tmp (pg\<lparr>nFree := x\<rparr>) = (if x = nFree pg then SQLITE_OK else SQLITE_CORRUPT, pg\<lparr>nFree := x, aData := d4\<rparr>)" for x
  proof -
    define pgx where "pgx = pg\<lparr>nFree := x\<rparr>"
    have fx: "aData pgx = aData pg" "hdrOffset pgx = ?h" "usable pgx = ?u" "nCell pgx = ?n" "cellOffset pgx = cellOffset pg" "nFree pgx = x"
      by (simp_all add: pgx_def)
    have t: "copy_bytes tmp (get2byte (aData pg) (?h + 5)) (aData pg) (get2byte (aData pg) (?h + 5)) (?u - get2byte (aData pg) (?h + 5)) = temp"
      by (simp add: temp_def page_top_def)
    have l: "defrag_loop pgx temp [0..<?n] ?u (aData pg) = (Some ?c, d1)" unfolding pgx_def defrag_nFree by (rule r(1))
    have "defragmentPage tmp pgx = (if ?c - ptr_end pg \<noteq> x then SQLITE_CORRUPT else SQLITE_OK, pgx\<lparr>aData := d4\<rparr>)"
      unfolding defragmentPage_def Let_def fx t l prod.case option.case ptr_end_def [symmetric] d4_def [symmetric] by (rule refl)
    moreover have "?c - ptr_end pg = nFree pg" using fin(3) by simp
    ultimately show ?thesis by (simp add: pgx_def)
  qed
  then show ?thesis using fin by (intro exI [of _ d4]) simp
qed

section \<open>Allocation on a well-formed page\<close>

lemma allocate_gap_defrag:
  assumes p: "page_ok pg fs {}" and n: "n + g \<le> nFree pg" and f: "60 \<le> unat (aData pg (hdrOffset pg + 7))"
  shows "\<exists>idx pg'. allocateSpace tmp pg n = Some (idx, pg') \<and> page_ok pg' [] {idx..<idx + n} \<and> page_cells pg' = page_cells pg \<and>
    pg' = pg\<lparr>nFree := nFree pg - n, aData := aData pg'\<rparr> \<and> ptr_end pg + g \<le> page_top pg'"
proof -
  note sd = space_okD [OF page_okD(1) [OF p]]
  obtain d where d: "\<And>x. defragmentPage tmp (pg\<lparr>nFree := x\<rparr>) = (if x = nFree pg then SQLITE_OK else SQLITE_CORRUPT, pg\<lparr>nFree := x, aData := d\<rparr>)"
    "page_ok (pg\<lparr>aData := d\<rparr>) [] {}" "page_cells (pg\<lparr>aData := d\<rparr>) = page_cells pg" "get2byte d (hdrOffset pg + 5) = ptr_end pg + nFree pg"
    using defragment_any [OF p] by blast
  define pgd where "pgd = pg\<lparr>aData := d\<rparr>"
  note pd = d(2) [folded pgd_def] and sd' = space_okD [OF page_okD(1) [OF d(2)], folded pgd_def]
  have top: "page_top pgd = ptr_end pg + nFree pg" "ptr_end pgd = ptr_end pg" "nFree pgd = nFree pg" "hdrOffset pgd = hdrOffset pg" "aData pgd = d"
    by (simp_all add: pgd_def page_top_def d(4) ptr_end_def)
  have "nFree pg \<le> 32768" using sd(11,13) by linarith
  then have "nFree pg + (65536 - n mod 65536) = nFree pg - n + 65536" "nFree pg - n < 65536" using n by simp_all
  then have sub: "sub16 (nFree pg) n = nFree pg - n" by (simp add: sub16_def)
  define pg' where "pg' = pgd\<lparr>nFree := nFree pgd - n, aData := put2byte (aData pgd) (hdrOffset pgd + 5) (page_top pgd - n)\<rparr>"
  have A: "allocateSpace tmp pg n = Some (page_top pgd - n, pg')"
    using f by (simp add: allocateSpace_def allocateGap_def Let_def sub d(1,4) top pg'_def) (simp add: pgd_def)
  have r: "ptr_end pgd + n \<le> page_top pgd" "n \<le> nFree pgd" using n top by simp_all
  note g = gap_ok [OF page_okD(1) [OF pd] r pg'_def]
  have nn: "{page_top pgd - n..<page_top pgd - n + n} = {page_top pgd - n..<page_top pgd}" using n top(1) by auto
  have "used pgd \<subseteq> used pgd \<union> {}" by simp
  note kc = keeps_cells [OF g(2) pd this] and kd = keepsD [OF g(2)]
  have "page_ok pg' [] {page_top pgd - n..<page_top pgd - n + n}"
    unfolding page_ok_def nn kc(2) kd using g(1,4) page_okD(3,4) [OF pd] kc(1) by (simp add: Int_commute)
  moreover have "page_cells pg' = page_cells pg" using kc(3) d(3) by (simp add: pgd_def)
  moreover have "pg' = pg\<lparr>nFree := nFree pg - n, aData := aData pg'\<rparr>" by (simp add: pg'_def pgd_def)
  moreover have "ptr_end pg + g \<le> page_top pg'" using g(3) top(1) n by simp
  ultimately show ?thesis using A by (intro exI conjI)
qed

lemma allocate_ok:
  assumes p: "page_ok pg fs {}" and n: "4 \<le> n" "n + g \<le> nFree pg" "ptr_end pg + g + n \<le> page_top pg"
  shows "\<exists>idx pg' fs'. allocateSpace tmp pg n = Some (idx, pg') \<and> page_ok pg' fs' {idx..<idx + n} \<and> page_cells pg' = page_cells pg \<and>
    pg' = pg\<lparr>nFree := nFree pg - n, aData := aData pg'\<rparr> \<and> ptr_end pg + g \<le> page_top pg'"
proof (cases "unat (aData pg (hdrOffset pg + 7)) < 60")
  case False
  then have "60 \<le> unat (aData pg (hdrOffset pg + 7))" by simp
  from allocate_gap_defrag [where tmp = tmp, OF p n(2) this] show ?thesis by (elim exE conjE) (intro exI conjI)
next
  case True
  have r: "n \<le> nFree pg" "ptr_end pg + n \<le> page_top pg" using n by simp_all
  from alloc_no_defrag [where tmp = tmp, OF page_okD(1) [OF p] n(1) r(1) True r(2)]
  obtain idx pg' fs' where a: "allocateSpace tmp pg n = Some (idx, pg')" "space_ok pg' fs' (used pg \<union> {} \<union> {idx..<idx + n})" "keeps pg pg' (used pg \<union> {})"
    "{idx..<idx + n} \<inter> (used pg \<union> {}) = {}" "pg' = pg\<lparr>nFree := nFree pg - n, aData := aData pg'\<rparr>" "page_top pg - n \<le> page_top pg'"
    by (elim exE conjE) (rule that; assumption)
  have "used pg \<subseteq> used pg \<union> {}" by simp
  note kc = keeps_cells [OF a(3) p this] and kd = keepsD [OF a(3)]
  have "page_ok pg' fs' {idx..<idx + n}"
    unfolding page_ok_def kc(2) kd using a(2,4) page_okD(3,4) [OF p] kc(1) by (simp add: Int_commute)
  moreover have "ptr_end pg + g \<le> page_top pg'" using a(6) n(3) by simp
  ultimately show ?thesis using a(1,5) kc(3) by (intro exI conjI)
qed

end
