(* ===== verification/BtreeCells.thy ===== *)
theory BtreeCells
  imports BtreePage
begin

text \<open>
  Cells come and go on the pages of \<^verbatim>\<open>BtreePage\<close>: what \<open>insertCell\<close>, \<open>dropCell\<close>, \<open>zeroPage\<close>,
  \<open>assemblePage\<close> and \<open>sqlite3BtreeInitPage\<close> do to the list of a page's cells. An abstract page is
  the list \<open>page_cells\<close> of the byte strings of its cells; inserting and dropping are inserting
  into and deleting from this list, defragmentation is the identity on it, and reading the header
  of a well-formed page again gives the same page.
\<close>

section \<open>Inserting and removing cells\<close>

lemma insert_loop_eq:
  "insert_loop d ins (ins + 2 * k) a = (if ins + 2 \<le> a \<and> a < ins + 2 * k + 2 then d (a - 2) else d a)"
proof (induction k arbitrary: d)
  case 0
  have "insert_loop d ins (ins + 2 * 0) = d" by (subst insert_loop.simps) simp
  moreover have "\<not> (ins + 2 \<le> a \<and> a < ins + 2 * 0 + 2)" by linarith
  ultimately show ?case by (simp only: if_False)
next
  case (Suc k)
  let ?j = "ins + 2 * Suc k"
  define d' where "d' = (d(?j := d (?j - 2)))(?j + 1 := (d(?j := d (?j - 2))) (?j - 1))"
  have d': "d' b = (if b = ?j \<or> b = ?j + 1 then d (b - 2) else d b)" for b by (auto simp: d'_def numeral_2_eq_2)
  have e: "insert_loop d ins ?j = insert_loop d' ins (ins + 2 * k)" by (subst insert_loop.simps) (simp add: Let_def d'_def)
  show ?case unfolding e Suc.IH [of d'] d' [of a] d' [of "a - 2"] by auto
qed

lemma drop_loop_eq: "drop_loop k d ptr a = (if ptr \<le> a \<and> a < ptr + 2 * k then d (a + 2) else d a)"
proof (induction k arbitrary: d ptr)
  case (Suc k)
  define d' where "d' = (d(ptr := d (ptr + 2)))(ptr + 1 := (d(ptr := d (ptr + 2))) (ptr + 3))"
  have d': "d' b = (if b = ptr \<or> b = ptr + 1 then d (b + 2) else d b)" for b by (auto simp: d'_def numeral_3_eq_3)
  have e: "drop_loop (Suc k) d ptr = drop_loop k d' (ptr + 2)" by (simp add: Let_def d'_def)
  show ?case unfolding e Suc.IH [of d' "ptr + 2"] d' [of a] d' [of "a + 2"] by auto
qed auto

text \<open>A cell that is cell \<open>i\<close> of one page and cell \<open>j\<close> of another, at the same place.\<close>

lemma cell_same_place:
  assumes l: "same_layout pg pg'" and p: "cell_ptr pg' j = cell_ptr pg i" and b: "\<And>a. a \<in> cell_set pg i \<Longrightarrow> aData pg' a = aData pg a"
  shows "cell_len pg' j = cell_len pg i" "cell_body pg' j = cell_body pg i" "cell_set pg' j = cell_set pg i"
proof -
  have e: "aData pg' (cell_ptr pg' j + k) = aData pg (cell_ptr pg i + k)" if "k < cell_len pg i" for k
    unfolding p by (rule b) (use that in \<open>simp add: cell_set_def\<close>)
  show c: "cell_len pg' j = cell_len pg i" by (rule cell_move(1) [OF l e])
  show "cell_body pg' j = cell_body pg i" by (rule cell_move(2) [OF l e])
  show "cell_set pg' j = cell_set pg i" by (simp add: cell_set_def p c)
qed

text \<open>The place of a new cell is in the page, its bytes and its pointer are written.\<close>

lemma link_cell:
  assumes p: "page_ok pg fs {x..<x + sz}" and i: "i \<le> nCell pg" and room: "ptr_end pg + 2 \<le> page_top pg" "2 \<le> nFree pg"
    and sz: "sz = cellSizePtr pg c"
    and d: "d = put2byte (put2byte (insert_loop (copy_bytes (aData pg) x c 0 sz) (cellOffset pg + 2 * i) (ptr_end pg)) (cellOffset pg + 2 * i) x)
      (hdrOffset pg + 3) (nCell pg + 1)"
    and pg': "pg' = pg\<lparr>nCell := nCell pg + 1, nFree := nFree pg - 2, aData := d\<rparr>"
  shows "page_ok pg' fs {}" "page_cells pg' = take i (page_cells pg) @ map c [0..<sz] # drop i (page_cells pg)"
proof -
  let ?A = "{x..<x + sz}" and ?h = "hdrOffset pg" and ?co = "cellOffset pg" and ?n = "nCell pg"
  note s = page_okD(1) [OF p] and sd = space_okD [OF page_okD(1) [OF p]]
  have sz4: "4 \<le> sz" unfolding sz by (rule cell_size(1) [OF sd(1)])
  have xt: "page_top pg \<le> x" "x + sz \<le> usable pg" using used_within [OF s, of x sz] sz4 by simp_all
  have co: "?h + 8 \<le> ?co" "?co + 2 * ?n = ptr_end pg" using sd(2) by (simp_all add: ptr_end_def)
  define d1 where "d1 = insert_loop (copy_bytes (aData pg) x c 0 sz) (?co + 2 * i) (ptr_end pg)"
  have "ptr_end pg = ?co + 2 * i + 2 * (?n - i)" using i co(2) by simp
  then have d1: "d1 a = (if ?co + 2 * i + 2 \<le> a \<and> a < ptr_end pg + 2 then copy_bytes (aData pg) x c 0 sz (a - 2) else copy_bytes (aData pg) x c 0 sz a)" for a
    using insert_loop_eq [of _ "?co + 2 * i" "?n - i"] by (simp add: d1_def)
  have d': "d = put2byte (put2byte d1 (?co + 2 * i) x) (?h + 3) (?n + 1)" by (simp add: d d1_def)
  have cp: "copy_bytes (aData pg) x c 0 sz a = (if a \<in> ?A then c (a - x) else aData pg a)" for a by (simp add: copy_bytes_def)
  have inA: "d a = c (a - x)" if "a \<in> ?A" for a
    using that xt(1) room(1) co i by (simp add: d' put2byte_def d1 cp)
  have far: "d a = aData pg a" if "a \<notin> ?A" "ptr_end pg + 2 \<le> a \<or> a < ?co \<and> a \<noteq> ?h + 3 \<and> a \<noteq> ?h + 4" for a
    using that co i by (auto simp: d' put2byte_def d1 cp)
  have x16: "x < 65536" "?n + 1 < 65536" using xt sd(13) sd(3,4) co sz4 by linarith+
  have h3: "get2byte d (?h + 3) = ?n + 1" unfolding d' by (rule get_put2 [OF x16(2)])
  have ptr: "get2byte d (?co + 2 * j) = (if j < i then cell_ptr pg j else if j = i then x else cell_ptr pg (j - 1))" if j: "j \<le> ?n" for j
  proof -
    have low: "a \<notin> ?A" if "a < ptr_end pg + 2" for a using that xt(1) room(1) by auto
    have e: "get2byte d (?co + 2 * j) = get2byte (put2byte d1 (?co + 2 * i) x) (?co + 2 * j)"
      unfolding d' by (rule get_put2_other) (use co in simp)
    show ?thesis
    proof (cases "j = i")
      case True
      then show ?thesis using e get_put2 [OF x16(1)] by simp
    next
      case False
      then have e2: "get2byte d (?co + 2 * j) = get2byte d1 (?co + 2 * j)" unfolding e by (intro get_put2_other) linarith
      show ?thesis
      proof (cases "j < i")
        case True
        then have "get2byte d1 (?co + 2 * j) = get2byte (aData pg) (?co + 2 * j)"
          by (intro get2_cong) (use low co j in \<open>auto simp: d1 cp\<close>)
        then show ?thesis using True e2 by (simp add: cell_ptr_def)
      next
        case ge: False
        then have r: "?co + 2 * i + 2 \<le> ?co + 2 * j" "?co + 2 * j + 1 < ptr_end pg + 2" using False j co by linarith+
        have b1: "d1 (?co + 2 * j) = aData pg (?co + 2 * j - 2)" unfolding d1 cp using r low by auto
        have "?co + 2 * j + 1 - 2 = ?co + 2 * j - 2 + 1" using r by linarith
        then have b2: "d1 (?co + 2 * j + 1) = aData pg (?co + 2 * j - 2 + 1)" unfolding d1 cp using r low by auto
        have "get2byte d1 (?co + 2 * j) = get2byte (aData pg) (?co + 2 * j - 2)"
          unfolding get2byte_def b1 b2 by (rule refl)
        moreover have "?co + 2 * j - 2 = ?co + 2 * (j - 1)" using False ge by simp
        ultimately show ?thesis using False ge e2 by (simp add: cell_ptr_def)
      qed
    qed
  qed
  have f: "hdrOffset pg' = ?h" "aData pg' = d" "usable pg' = usable pg" "limits_ok pg' = limits_ok pg" "cellOffset pg' = ?co" "leaf pg' = leaf pg"
    "nCell pg' = ?n + 1" "ptr_end pg' = ptr_end pg + 2" "nFree pg' = nFree pg - 2"
    by (simp_all add: pg' limits_ok_def ptr_end_def)
  have cs: "cellSizePtr pg' = cellSizePtr pg" by (rule parse_fields(2)) (simp_all add: pg')
  have sl: "same_layout pg pg'" using sd(1) cs by (simp add: same_layout_def f)
  have top: "page_top pg' = page_top pg" unfolding page_top_def f
    by (rule get2_cong; rule far) (use co xt(1) sd(12) in auto)
  have same: "aData pg' a = aData pg a" if "a \<in> used pg" for a
    unfolding f by (rule far) (use that page_okD(2) [OF p] sd(8) room(1) in auto)
  let ?f = "\<lambda>j. if j < i then j else j - 1"
  have old: "cell_body pg' j = cell_body pg (?f j)" "cell_set pg' j = cell_set pg (?f j)" if j: "j < ?n + 1" "j \<noteq> i" for j
  proof -
    have q: "cell_ptr pg' j = cell_ptr pg (?f j)" using ptr [of j] j by (simp add: cell_ptr_def [of pg'] f)
    have "?f j < ?n" using j i by auto
    then have "aData pg' a = aData pg a" if "a \<in> cell_set pg (?f j)" for a using same cell_used that by blast
    from cell_same_place [OF sl q this] show "cell_body pg' j = cell_body pg (?f j)" "cell_set pg' j = cell_set pg (?f j)" by blast+
  qed
  have pi: "cell_ptr pg' i = x" using ptr [OF i] by (simp add: cell_ptr_def f)
  have "sqlite3BtreeParseCellPtr pg (at_offset d x) = sqlite3BtreeParseCellPtr pg c"
    by (rule parse_cong [OF sd(1)]) (use inA in \<open>simp add: sz\<close>)
  then have li: "cell_len pg' i = sz" by (simp add: cell_len_def cs pi f sz cellSizePtr_def)
  have new: "cell_body pg' i = map c [0..<sz]" "cell_set pg' i = ?A" using inA by (simp_all add: cell_body_def cell_set_def li pi f)
  have us: "used pg' = used pg \<union> ?A"
  proof -
    have "{..<?n + 1} = insert i ({..<i} \<union> Suc ` {i..<?n})" using i by (auto simp: image_iff)
    then have "used pg' = ?A \<union> (\<Union>j \<in> {..<i} \<union> Suc ` {i..<?n}. cell_set pg' j)" unfolding used_def f by (simp add: new(2))
    also have "(\<Union>j \<in> {..<i} \<union> Suc ` {i..<?n}. cell_set pg' j) = (\<Union>j \<in> {..<i}. cell_set pg' j) \<union> (\<Union>j \<in> {i..<?n}. cell_set pg' (Suc j))"
      by (simp only: UN_Un image_image UN_extend_simps(10) [symmetric] UN_simps(10))
    also have "(\<Union>j \<in> {..<i}. cell_set pg' j) = (\<Union>j \<in> {..<i}. cell_set pg j)" by (rule SUP_cong [OF refl]) (use old(2) i in simp)
    also have "(\<Union>j \<in> {i..<?n}. cell_set pg' (Suc j)) = (\<Union>j \<in> {i..<?n}. cell_set pg j)" by (rule SUP_cong [OF refl]) (use old(2) i in simp)
    also have "(\<Union>j \<in> {..<i}. cell_set pg j) \<union> (\<Union>j \<in> {i..<?n}. cell_set pg j) = used pg" unfolding used_def UN_Un [symmetric] by (subst ivl_disj_un_one(2) [OF i]) (rule refl)
    finally show ?thesis by blast
  qed
  have "length (page_cells pg) = ?n" by (simp add: page_cells_def)
  then show "page_cells pg' = take i (page_cells pg) @ map c [0..<sz] # drop i (page_cells pg)"
    using i old(1) new(1) by (intro nth_equalityI) (auto simp: page_cells_def f nth_append nth_Cons' min_def simp del: upt_Suc)
  have ch: "free_chain d (?h + 1) fs"
  proof (rule free_chain_cong [OF sd(6)])
    show "d (b + j) = aData pg (b + j)" if "(b, k) \<in> set fs" "j < 4" for b k j
    proof (rule far)
      have "4 \<le> k" "page_top pg \<le> b" using spaced_mem [OF sd(7) that(1)] by simp_all
      then have "b + j \<in> free_bytes fs" using that by (intro free_bytesI [OF that(1)]) simp_all
      then show "b + j \<notin> ?A" using sd(9) by blast
      show "ptr_end pg + 2 \<le> b + j \<or> b + j < ?co \<and> b + j \<noteq> ?h + 3 \<and> b + j \<noteq> ?h + 4" using \<open>page_top pg \<le> b\<close> room(1) by simp
    qed
  qed (rule far; use co xt(1) sd(12) in auto)+
  have h7: "d (?h + 7) = aData pg (?h + 7)" by (rule far) (use co xt(1) sd(12) in auto)
  have "space_ok pg' fs (used pg')" unfolding us
    by (rule space_okI) (use sd ch h3 h7 room in \<open>simp_all add: top f\<close>)
  moreover have "cell_set pg' a \<inter> cell_set pg' b = {}" if ab: "a < ?n + 1" "b < ?n + 1" "a \<noteq> b" for a b
  proof -
    have AU: "cell_set pg k \<inter> ?A = {}" if "k < ?n" for k using cell_used [OF that] page_okD(2) [OF p] by blast
    have AN: "cell_set pg' k \<inter> ?A = {}" if "k < ?n + 1" "k \<noteq> i" for k
      unfolding old(2) [OF that] by (rule AU) (use that i in auto)
    consider "a = i" | "b = i" | "a \<noteq> i" "b \<noteq> i" by blast
    then show ?thesis
    proof cases
      case 3
      have "?f a < ?n" "?f b < ?n" "?f a \<noteq> ?f b" using ab 3 i by (auto split: if_splits)
      then show ?thesis using old(2) [of a] old(2) [of b] ab 3 page_okD(4) [OF p] by simp
    qed (use ab new(2) AN [of a] AN [of b] in \<open>simp_all add: Int_commute\<close>)
  qed
  ultimately show "page_ok pg' fs {}" using page_okD(3) [OF p] by (simp add: page_ok_def f)
qed

lemma used_but_one:
  assumes "page_ok pg fs X" "k < nCell pg"
  shows "used pg - cell_set pg k = (\<Union>j \<in> {..<nCell pg} - {k}. cell_set pg j)"
proof -
  have "cell_set pg j \<inter> cell_set pg k = {}" if "j < nCell pg" "j \<noteq> k" for j using page_okD(4) [OF assms(1) that(1) assms(2) that(2)] .
  then show ?thesis by (fastforce simp: used_def)
qed

lemma thick_cells:
  assumes "limits_ok pg" shows "thick (\<Union>j \<in> J. cell_set pg j)"
  unfolding thick_def
proof (intro ballI)
  fix b assume "b \<in> (\<Union>j \<in> J. cell_set pg j)"
  then obtain j where j: "j \<in> J" "b \<in> cell_set pg j" by blast
  define c where "c = min b (cell_ptr pg j + cell_len pg j - 4)"
  have "c \<le> b \<and> b < c + 4 \<and> {c..<c + 4} \<subseteq> cell_set pg j" using j(2) cell_len4 [OF assms, of j] by (auto simp: c_def cell_set_def min_def)
  then show "\<exists>c. c \<le> b \<and> b < c + 4 \<and> {c..<c + 4} \<subseteq> (\<Union>j \<in> J. cell_set pg j)" using j(1) by blast
qed

text \<open>The pointer of a cell whose space is given back goes away.\<close>

lemma unlink_cell:
  assumes p: "page_ok pg fs {}" and k: "k < nCell pg" and s1: "space_ok pg1 fs1 (used pg - cell_set pg k)" and kp: "keeps pg pg1 (used pg - cell_set pg k)"
    and d: "d = put2byte (drop_loop (nCell pg - (k + 1)) (aData pg1) (cellOffset pg + 2 * k)) (hdrOffset pg + 3) (nCell pg - 1)"
    and pg': "pg' = pg1\<lparr>nCell := nCell pg - 1, nFree := nFree pg1 + 2, aData := d\<rparr>"
  shows "page_ok pg' fs1 {}" "page_cells pg' = take k (page_cells pg) @ drop (Suc k) (page_cells pg)"
proof -
  let ?h = "hdrOffset pg" and ?co = "cellOffset pg" and ?n = "nCell pg" and ?U = "used pg - cell_set pg k"
  note sd = space_okD [OF page_okD(1) [OF p]] and sd1 = space_okD [OF s1] and kd = keepsD [OF kp]
  have co: "?h + 8 \<le> ?co" "?co + 2 * ?n = ptr_end pg" using sd(2) by (simp_all add: ptr_end_def)
  have tops: "ptr_end pg \<le> page_top pg" "ptr_end pg \<le> page_top pg1" using sd(3) sd1(3) kd by simp_all
  define d1 where "d1 = drop_loop (?n - (k + 1)) (aData pg1) (?co + 2 * k)"
  have "?co + 2 * k + 2 * (?n - (k + 1)) = ptr_end pg - 2" using k co by simp
  then have d1: "d1 a = (if ?co + 2 * k \<le> a \<and> a < ptr_end pg - 2 then aData pg1 (a + 2) else aData pg1 a)" for a
    by (simp add: d1_def drop_loop_eq)
  have d': "d = put2byte d1 (?h + 3) (?n - 1)" by (simp add: d d1_def)
  have far: "d a = aData pg1 a" if "ptr_end pg \<le> a \<or> a < ?co \<and> a \<noteq> ?h + 3 \<and> a \<noteq> ?h + 4" for a
    using that co k by (auto simp: d' put2byte_def d1)
  have low: "aData pg1 a = aData pg a" if "?co \<le> a" "a < ptr_end pg" for a
    by (rule keeps_same [OF kp]) (use that co tops in \<open>auto simp: hdr_free_def\<close>)
  have n16: "?n - 1 < 65536" using sd(4,13) co tops by linarith
  have h3: "get2byte d (?h + 3) = ?n - 1" unfolding d' by (rule get_put2 [OF n16])
  have ptr: "get2byte d (?co + 2 * j) = cell_ptr pg (if j < k then j else Suc j)" if j: "j < ?n - 1" for j
  proof -
    have e: "get2byte d (?co + 2 * j) = get2byte d1 (?co + 2 * j)" unfolding d' by (rule get_put2_other) (use co in simp)
    show ?thesis
    proof (cases "j < k")
      case True
      have "get2byte d1 (?co + 2 * j) = get2byte (aData pg) (?co + 2 * j)"
        by (rule get2_cong) (use True low co k in \<open>simp_all add: d1\<close>)
      then show ?thesis using e True by (simp add: cell_ptr_def)
    next
      case False
      have r: "?co + 2 * k \<le> ?co + 2 * j" "?co + 2 * j + 1 < ptr_end pg - 2" using False j co by linarith+
      have b1: "d1 (?co + 2 * j) = aData pg (?co + 2 * Suc j)" unfolding d1 using r low by auto
      have "?co + 2 * j + 1 + 2 = ?co + 2 * Suc j + 1" by simp
      then have b2: "d1 (?co + 2 * j + 1) = aData pg (?co + 2 * Suc j + 1)" unfolding d1 using r low by auto
      have "get2byte d1 (?co + 2 * j) = get2byte (aData pg) (?co + 2 * Suc j)" unfolding get2byte_def b1 b2 by (rule refl)
      then show ?thesis using e False by (simp add: cell_ptr_def)
    qed
  qed
  have f: "hdrOffset pg' = ?h" "aData pg' = d" "usable pg' = usable pg1" "limits_ok pg' = limits_ok pg1" "cellOffset pg' = ?co" "leaf pg' = leaf pg"
    "nCell pg' = ?n - 1" "ptr_end pg' = ptr_end pg - 2" "nFree pg' = nFree pg1 + 2" "usable pg1 = usable pg"
    using kd k by (simp_all add: pg' limits_ok_def ptr_end_def)
  have cs: "cellSizePtr pg' = cellSizePtr pg1" by (rule parse_fields(2)) (simp_all add: pg')
  have sl: "same_layout pg pg'" using sd(1) cs kd by (simp add: same_layout_def f)
  have top: "page_top pg' = page_top pg1" unfolding page_top_def f kd
    by (rule get2_cong; rule far) (use co in auto)
  let ?f = "\<lambda>j. if j < k then j else Suc j"
  have same: "aData pg' a = aData pg a" if "a \<in> ?U" for a
  proof -
    have "page_top pg \<le> a" using that sd(8) by auto
    moreover from this have "aData pg1 a = aData pg a" by (intro keeps_same [OF kp]) (use that sd(12) in \<open>auto simp: hdr_free_def\<close>)
    ultimately show ?thesis unfolding f using far [of a] tops by simp
  qed
  have old: "cell_body pg' j = cell_body pg (?f j)" "cell_set pg' j = cell_set pg (?f j)" if j: "j < ?n - 1" for j
  proof -
    have q: "cell_ptr pg' j = cell_ptr pg (?f j)" using ptr [of j] j by (simp add: cell_ptr_def [of pg'] f)
    have "?f j < ?n" "?f j \<noteq> k" using j by auto
    then have "cell_set pg (?f j) \<subseteq> ?U" unfolding used_but_one [OF p k] by blast
    then have "aData pg' a = aData pg a" if "a \<in> cell_set pg (?f j)" for a using same that by blast
    from cell_same_place [OF sl q this] show "cell_body pg' j = cell_body pg (?f j)" "cell_set pg' j = cell_set pg (?f j)" by blast+
  qed
  have us: "used pg' = ?U"
  proof -
    have "?f ` {..<?n - 1} = {..<?n} - {k}"
    proof (intro equalityI subsetI)
      fix x assume "x \<in> {..<?n} - {k}"
      then have "x = ?f (if x < k then x else x - 1)" "(if x < k then x else x - 1) < ?n - 1" using k by auto
      then show "x \<in> ?f ` {..<?n - 1}" by blast
    qed (use k in \<open>auto split: if_splits\<close>)
    then have "(\<Union>j \<in> ?f ` {..<?n - 1}. cell_set pg j) = ?U" using used_but_one [OF p k] by simp
    moreover have "used pg' = (\<Union>j<?n - 1. cell_set pg (?f j))" unfolding used_def f by (rule SUP_cong [OF refl]) (use old(2) in simp)
    ultimately show ?thesis by (simp only: image_image)
  qed
  show "page_cells pg' = take k (page_cells pg) @ drop (Suc k) (page_cells pg)"
    using k old(1) by (intro nth_equalityI) (auto simp: page_cells_def f nth_append min_def simp del: upt_Suc)
  have ch: "free_chain d (?h + 1) fs1"
  proof (rule free_chain_cong [of "aData pg1"])
    show "free_chain (aData pg1) (?h + 1) fs1" using sd1(6) kd by simp
    show "d (b + j) = aData pg1 (b + j)" if "(b, m) \<in> set fs1" "j < 4" for b m j
      by (rule far) (use spaced_mem [OF sd1(7) that(1)] tops in simp)
  qed (rule far; use co in auto)+
  have h7: "d (?h + 7) = aData pg1 (?h + 7)" by (rule far) (use co in auto)
  have "space_ok pg' fs1 ?U"
    by (rule space_okI) (use sd1 kd ch h3 h7 k co in \<open>simp_all add: top f\<close>)
  moreover have "cell_set pg' a \<inter> cell_set pg' b = {}" if ab: "a < ?n - 1" "b < ?n - 1" "a \<noteq> b" for a b
    unfolding old(2) [OF ab(1)] old(2) [OF ab(2)] by (rule page_okD(4) [OF p]) (use ab in auto)
  ultimately show "page_ok pg' fs1 {}" using page_okD(3) [OF p] by (simp add: page_ok_def us f)
qed

lemma dropCell_page:
  assumes p: "page_ok pg fs {}" and k: "k < nCell pg"
  shows "\<exists>pg' fs'. dropCell pg k (cell_len pg k) = Some (SQLITE_OK, pg') \<and> page_ok pg' fs' {} \<and>
    page_cells pg' = take k (page_cells pg) @ drop (Suc k) (page_cells pg)"
proof -
  note sd = space_okD [OF page_okD(1) [OF p]]
  have w: "page_top pg \<le> cell_ptr pg k" "cell_ptr pg k + cell_len pg k \<le> usable pg" using cells_within [OF p k] by simp_all
  have R: "{cell_ptr pg k..<cell_ptr pg k + cell_len pg k} \<subseteq> used pg" using cell_used [OF k] by (simp add: cell_set_def)
  have th: "thick (used pg - {cell_ptr pg k..<cell_ptr pg k + cell_len pg k})"
    unfolding cell_set_def [symmetric] used_but_one [OF p k] by (rule thick_cells [OF sd(1)])
  have s: "space_ok pg fs (used pg)" using page_okD(1) [OF p] by simp
  obtain pg1 fs1 where r: "freeSpace pg (cell_ptr pg k) (cell_len pg k) = Some (SQLITE_OK, pg1)" "space_ok pg1 fs1 (used pg - cell_set pg k)"
    "keeps pg pg1 (used pg - cell_set pg k)"
    using freeSpace_ok [OF s R cell_len4 [OF sd(1)] th] unfolding cell_set_def [symmetric] by (elim exE conjE) (rule that; assumption)
  note kd = keepsD [OF r(3)]
  define d where "d = put2byte (drop_loop (nCell pg - (k + 1)) (aData pg1) (cellOffset pg + 2 * k)) (hdrOffset pg + 3) (nCell pg - 1)"
  define pg' where "pg' = pg1\<lparr>nCell := nCell pg - 1, nFree := nFree pg1 + 2, aData := d\<rparr>"
  have "nFree pg1 + 2 < 65536" using space_okD(11,13) [OF r(2)] kd by simp
  then have n2: "u16n (Suc (Suc (nFree pg1))) = Suc (Suc (nFree pg1))" by (simp add: u16n_def)
  have g: "\<not> cell_ptr pg k < hdrOffset pg + 6 + (if leaf pg then 0 else 4)" "\<not> usable pg < cell_ptr pg k + cell_len pg k"
    using w sd(3) page_okD(3) [OF p] by (auto simp: ptr_end_def)
  have n1: "get2byte (aData pg) (cellOffset pg + 2 * k) = cell_ptr pg k" by (simp add: cell_ptr_def)
  have e: "dropCell pg k (cell_len pg k) = Some (SQLITE_OK, pg')"
    unfolding dropCell_def Let_def n1 using g r(1) kd by (simp add: n2 pg'_def d_def mempage.equality)
  from e unlink_cell [OF p k r(2,3) d_def pg'_def] show ?thesis by (intro exI conjI)
qed

text \<open>The result of noting the overflow page of a cell in the pointer map.\<close>

definition overflow_note :: "(u32 \<Rightarrow> u32 \<Rightarrow> 'm \<Rightarrow> rc \<times> 'm) \<Rightarrow> mempage \<Rightarrow> 'm \<Rightarrow> bytes \<Rightarrow> rc \<times> 'm" where
  "overflow_note ptrmap pg m c =
    (let info = sqlite3BtreeParseCellPtr pg c
     in if autoVacuum (pBt pg) \<and> nLocal info < nData info + (if intKey pg then 0 else unat (nKey info))
        then ptrmap (sqlite3Get4byte (at_offset c (iOverflow info))) (pgno pg) m
        else (SQLITE_OK, m))"

lemma make_room:
  assumes p: "page_ok pg fs {}" and n: "n + 2 \<le> nFree pg"
  shows "\<exists>pg1 fs1. (if page_top pg < ptr_end pg + 2 + n then defragmentPage tmp pg else (SQLITE_OK, pg)) = (SQLITE_OK, pg1) \<and>
    page_ok pg1 fs1 {} \<and> page_cells pg1 = page_cells pg \<and> pg1 = pg\<lparr>aData := aData pg1\<rparr> \<and> ptr_end pg + 2 + n \<le> page_top pg1"
proof (cases "page_top pg < ptr_end pg + 2 + n")
  case False
  then show ?thesis using p by (intro exI [of _ pg] exI [of _ fs]) simp
next
  case True
  obtain d where d: "\<And>x. defragmentPage tmp (pg\<lparr>nFree := x\<rparr>) = (if x = nFree pg then SQLITE_OK else SQLITE_CORRUPT, pg\<lparr>nFree := x, aData := d\<rparr>)"
    and d2: "page_ok (pg\<lparr>aData := d\<rparr>) [] {}" "page_cells (pg\<lparr>aData := d\<rparr>) = page_cells pg" "get2byte d (hdrOffset pg + 5) = ptr_end pg + nFree pg"
    using defragment_any [OF p, of tmp] by blast
  have "defragmentPage tmp pg = (SQLITE_OK, pg\<lparr>aData := d\<rparr>)" using d [of "nFree pg"] by simp
  moreover have "ptr_end pg + 2 + n \<le> page_top (pg\<lparr>aData := d\<rparr>)" using d2(3) n by (simp add: page_top_def)
  ultimately show ?thesis using True d2 by (intro exI [of _ "pg\<lparr>aData := d\<rparr>"] exI [of _ "[]"]) simp
qed

lemma insertCell_page:
  assumes p: "page_ok pg fs {}" and i: "i \<le> nCell pg" and o: "aOvfl pg = []" and n: "cellSizePtr pg c + 2 \<le> nFree pg"
  shows "\<exists>pg' fs'. insertCell ptrmap SQLITE_OK tmp pg m i c (cellSizePtr pg c) pT 0 =
      Some (fst (overflow_note ptrmap pg m c), pg', snd (overflow_note ptrmap pg m c)) \<and>
    page_ok pg' fs' {} \<and> page_cells pg' = take i (page_cells pg) @ map c [0..<cellSizePtr pg c] # drop i (page_cells pg)"
proof -
  let ?n = "cellSizePtr pg c"
  obtain pg1 fs1 where r1: "(if page_top pg < ptr_end pg + 2 + ?n then defragmentPage tmp pg else (SQLITE_OK, pg)) = (SQLITE_OK, pg1)"
    "page_ok pg1 fs1 {}" "page_cells pg1 = page_cells pg" "pg1 = pg\<lparr>aData := aData pg1\<rparr>" "ptr_end pg + 2 + ?n \<le> page_top pg1"
    using make_room [where tmp = tmp, OF p n] by (elim exE conjE) (rule that; assumption)
  note sd = space_okD [OF page_okD(1) [OF p]]
  have f1: "nFree pg1 = nFree pg" "ptr_end pg1 = ptr_end pg" "nCell pg1 = nCell pg" by (subst r1(4), simp add: ptr_end_def)+
  have n4: "4 \<le> ?n" by (rule cell_size(1) [OF sd(1)])
  have "?n + 2 \<le> nFree pg1" "ptr_end pg1 + 2 + ?n \<le> page_top pg1" using f1 n r1(5) by simp_all
  from allocate_ok [where tmp = tmp, OF r1(2) n4 this]
  obtain x pg2 fs2 where r2: "allocateSpace tmp pg1 ?n = Some (x, pg2)" "page_ok pg2 fs2 {x..<x + ?n}" "page_cells pg2 = page_cells pg1"
    "pg2 = pg1\<lparr>nFree := nFree pg1 - ?n, aData := aData pg2\<rparr>" "ptr_end pg1 + 2 \<le> page_top pg2"
    by (elim exE conjE) (rule that; assumption)
  have e2: "pg2 = pg\<lparr>nFree := nFree pg - ?n, aData := aData pg2\<rparr>" 
  proof -
    have "pg1\<lparr>nFree := a, aData := b\<rparr> = pg\<lparr>nFree := a, aData := b\<rparr>" for a b by (subst r1(4)) simp
    then show ?thesis using r2(4) unfolding f1 by (rule trans [rotated])
  qed
  have f: "hdrOffset pg2 = hdrOffset pg" "cellOffset pg2 = cellOffset pg" "nCell pg2 = nCell pg" "pBt pg2 = pBt pg" "nFree pg2 = nFree pg - ?n"
    "ptr_end pg2 = ptr_end pg" "intKey pg2 = intKey pg" "pgno pg2 = pgno pg" by (subst e2, simp add: ptr_end_def)+
  have cs: "cellSizePtr pg2 = cellSizePtr pg" "sqlite3BtreeParseCellPtr pg2 = sqlite3BtreeParseCellPtr pg" by (rule parse_fields; subst e2, simp)+
  note sd2 = space_okD [OF page_okD(1) [OF r2(2)]]
  define d where "d = put2byte (put2byte (insert_loop (copy_bytes (aData pg2) x c 0 ?n) (cellOffset pg2 + 2 * i) (ptr_end pg2)) (cellOffset pg2 + 2 * i) x)
      (hdrOffset pg2 + 3) (nCell pg2 + 1)"
  define pg' where "pg' = pg2\<lparr>nCell := nCell pg2 + 1, nFree := nFree pg2 - 2, aData := d\<rparr>"
  have i2: "i \<le> nCell pg2" "ptr_end pg2 + 2 \<le> page_top pg2" "2 \<le> nFree pg2" "?n = cellSizePtr pg2 c"
    using i r2(5) n by (simp_all add: f cs f1)
  note L = link_cell [OF r2(2) i2 d_def pg'_def]
  have w: "x + ?n \<le> usable pg2" using used_within [OF page_okD(1) [OF r2(2)], of x ?n] n4 by simp
  have "nCell pg2 + 1 < 65536" "nFree pg2 < 65536" using i2(2) sd2(4,11,13) by (simp_all add: ptr_end_def)
  then have u: "u16n (nCell pg + 1) = nCell pg + 1" "sub16 (nFree pg - ?n) 2 = nFree pg - ?n - 2"
    using i2(3) by (simp_all add: f u16n_def sub16_def mod_if)
  have t: "get2byte (aData pg) (hdrOffset pg + 5) = page_top pg" "cellOffset pg + 2 * nCell pg + 2 = ptr_end pg + 2" by (simp_all add: page_top_def ptr_end_def)
  have nb: "\<not> (aOvfl pg \<noteq> [] \<or> nFree pg < ?n + 2)" "\<not> SQLITE_OK \<noteq> SQLITE_OK" "\<not> usable pg2 < x + ?n" using o n w by simp_all
  have z: "x + 0 = x" "?n - 0 = ?n" "ptr_end pg + 2 - 2 = ptr_end pg" by simp_all
  have pg'2: "pg' = pg2\<lparr>nCell := nCell pg + 1, nFree := nFree pg - ?n - 2, aData := d\<rparr>" by (simp add: pg'_def f)
  have d2: "d = put2byte (put2byte (insert_loop (copy_bytes (aData pg2) x c 0 ?n) (cellOffset pg + 2 * i) (ptr_end pg)) (cellOffset pg + 2 * i) x) (hdrOffset pg + 3) (nCell pg + 1)"
    by (simp add: d_def f)
  have f': "pBt pg' = pBt pg" "intKey pg' = intKey pg" "pgno pg' = pgno pg" by (simp_all add: pg'_def f)
  have cs': "sqlite3BtreeParseCellPtr pg' = sqlite3BtreeParseCellPtr pg" unfolding cs(2) [symmetric] by (rule parse_fields) (simp_all add: pg'_def)
  have m: "insertCell ptrmap SQLITE_OK tmp pg m i c ?n pT 0 =
    (if autoVacuum (pBt pg') then
       let info = sqlite3BtreeParseCellPtr pg' c
       in if nLocal info < nData info + (if intKey pg' then 0 else unat (nKey info)) then
            let (rc, m) = ptrmap (sqlite3Get4byte (at_offset c (iOverflow info))) (pgno pg') m in Some (rc, pg', m)
          else Some (SQLITE_OK, pg', m)
     else Some (SQLITE_OK, pg', m))"
  proof -
    define q where "q = pg2\<lparr>nCell := nCell pg + 1, nFree := nFree pg - ?n - 2\<rparr>"
    have q: "pg' = q\<lparr>aData := d\<rparr>" "aData q = aData pg2" "nCell q = nCell pg + 1" by (simp_all add: q_def pg'2)
    show ?thesis
      unfolding insertCell_def if_not_P [OF nb(1)] if_not_P [OF nb(2)] t r1(1) Let_def [of "aData _"] Let_def [of "hdrOffset _"] Let_def [of "page_top _"] Let_def [of "get2byte _ _"]
        Let_def [of "_ + _"] Let_def [of "(_, _)"] prod.case if_not_P [OF nb(2)] r2(1) option.case if_not_P [OF nb(3)] f z u q_def [symmetric]
      unfolding Let_def [of q] q(2,3) z d2 [symmetric] Let_def [of "copy_bytes _ _ _ _ _"] Let_def [of "insert_loop _ _ _"] Let_def [of "put2byte _ _ _"] q(1) [symmetric]
      unfolding Let_def [of pg'] using nb(3) by (simp only: f if_False)
  qed
  have e: "insertCell ptrmap SQLITE_OK tmp pg m i c ?n pT 0 = Some (fst (overflow_note ptrmap pg m c), pg', snd (overflow_note ptrmap pg m c))"
    unfolding m f' cs' overflow_note_def by (simp add: Let_def split: prod.split)
  show ?thesis using e L unfolding r2(3) r1(3) by (intro exI conjI)
qed

text \<open>A cell that does not fit is kept beside the page.\<close>

lemma insertCell_overflow:
  "aOvfl pg \<noteq> [] \<or> nFree pg < n + 2 \<Longrightarrow>
    insertCell ptrmap wr tmp pg m i c n None k = Some (SQLITE_OK, pg\<lparr>aOvfl := aOvfl pg @ [(c, u16n i)], nFree := 0\<rparr>, m)"
  by (simp add: insertCell_def)

lemma findOverflow_latest:
  "findOverflowCell (pg\<lparr>aOvfl := os @ [(c, k)], nFree := x\<rparr>) k = c"
  by (simp add: findOverflowCell_def)

section \<open>Reading the header back\<close>

lemma free_bytes_card: "spaced lo hi fs \<Longrightarrow> card (free_bytes fs) = sum_list (map snd fs)"
proof (induction fs arbitrary: lo)
  case (Cons x fs)
  obtain a n where x: "x = (a, n)" by (rule prod.exhaust)
  have s: "spaced (a + n + 4) hi fs" using Cons.prems x by simp
  then have "{a..<a + n} \<inter> free_bytes fs = {}" using spaced_bytes [OF s] by fastforce
  then show ?case using Cons.IH [OF s] x by (simp add: card_Un_disjoint)
qed simp

lemma nfree_loop_chain:
  assumes "free_chain d a fs" "spaced lo u fs" "0 < lo" "nf + sum_list (map snd fs) < 65536"
  shows "nfree_loop d u (get2byte d a) nf = Some (nf + sum_list (map snd fs))"
  using assms
proof (induction fs arbitrary: a lo nf)
  case Nil
  then show ?case by (subst nfree_loop.simps) simp
next
  case (Cons x fs)
  obtain b n where x: "x = (b, n)" by (rule prod.exhaust)
  have c: "get2byte d a = b" "get2byte d (b + 2) = n" "free_chain d b fs" "spaced (b + n + 4) u fs" "lo \<le> b" "4 \<le> n" "b + n \<le> u"
    using Cons.prems(1,2) x by simp_all
  have nx: "\<not> (0 < get2byte d b \<and> get2byte d b \<le> b + n + 3)" using c(3,4) by (cases fs) auto
  have u: "u16n (nf + n) = nf + n" using Cons.prems(4) x by (simp add: u16n_def)
  have "nfree_loop d u b nf = nfree_loop d u (get2byte d b) (nf + n)"
    using c nx Cons.prems(3) by (subst nfree_loop.simps) (auto simp: Let_def u)
  also have "\<dots> = Some (nf + n + sum_list (map snd fs))" by (rule Cons.IH [OF c(3,4)]) (use Cons.prems(4) x in simp_all)
  finally show ?case using c(1) x by simp
qed

text \<open>The free space a page keeps in \<open>nFree\<close>, from its header.\<close>

lemma free_total:
  assumes s: "space_ok pg fs U"
  shows "nFree pg = unat (aData pg (hdrOffset pg + 7)) + page_top pg - ptr_end pg + sum_list (map snd fs)"
proof -
  note sd = space_okD [OF s]
  let ?T = "{page_top pg..<usable pg}"
  have fb: "free_bytes fs \<subseteq> ?T" using spaced_bytes [OF sd(7)] by auto
  have "card ?T = card U + card (?T - U)" using sd(8,14) card_mono [OF _ sd(8)] by (simp add: card_Diff_subset)
  moreover have "free_bytes fs \<subseteq> ?T - U" using fb sd(9) by blast
  then have "card (?T - U) = card (free_bytes fs) + card (?T - U - free_bytes fs)" by (simp add: card_Diff_subset card_mono)
  ultimately show ?thesis using sd(3,4,10,11) free_bytes_card [OF sd(7)] by simp
qed

text \<open>The fields of the page are those its flags byte stands for.\<close>

definition flags_ok :: "mempage \<Rightarrow> bool" where
  "flags_ok pg \<longleftrightarrow> decodeFlags pg (unat (aData pg (hdrOffset pg))) = (SQLITE_OK, pg) \<and> isInit pg \<and>
     maskPage pg = pageSize (pBt pg) - 1 \<and> usable pg \<le> pageSize (pBt pg)"

lemma nCell_bound:
  assumes p: "page_ok pg fs {}"
  shows "8 + 6 * nCell pg \<le> usable pg"
proof -
  note sd = space_okD [OF page_okD(1) [OF p]]
  have "(\<Sum>i<nCell pg. 4) \<le> (\<Sum>i<nCell pg. cell_len pg i)" by (rule sum_mono) (rule cell_len4 [OF sd(1)])
  then show ?thesis using sd(2,11) card_used [OF p] by (simp add: ptr_end_def)
qed

lemma decodeFlags_only:
  assumes "decodeFlags pg f = (SQLITE_OK, pg)" "hdrOffset pg0 = hdrOffset pg" "pBt pg0 = pBt pg" "aData pg0 = aData pg" "pgno pg0 = pgno pg"
    "r = snd (decodeFlags pg0 f)"
  shows "fst (decodeFlags pg0 f) = SQLITE_OK" "leaf r = leaf pg" "childPtrSize r = childPtrSize pg" "intKey r = intKey pg" "hasData r = hasData pg"
    "maxLocal r = maxLocal pg" "minLocal r = minLocal pg" "hdrOffset r = hdrOffset pg" "pBt r = pBt pg" "aData r = aData pg" "pgno r = pgno pg"
proof -
  have q: "leaf pg = leaf (snd (decodeFlags pg f))" "childPtrSize pg = childPtrSize (snd (decodeFlags pg f))" "intKey pg = intKey (snd (decodeFlags pg f))"
    "hasData pg = hasData (snd (decodeFlags pg f))" "maxLocal pg = maxLocal (snd (decodeFlags pg f))" "minLocal pg = minLocal (snd (decodeFlags pg f))"
    "fst (decodeFlags pg f) = SQLITE_OK"
    by (simp_all add: assms(1))
  have nok: "SQLITE_CORRUPT \<noteq> SQLITE_OK" by simp
  show "fst (decodeFlags pg0 f) = SQLITE_OK" using q(7) nok unfolding decodeFlags_def by (simp add: Let_def split: if_splits)
  show "leaf r = leaf pg" "childPtrSize r = childPtrSize pg" "intKey r = intKey pg" "hasData r = hasData pg"
    "maxLocal r = maxLocal pg" "minLocal r = minLocal pg"
    unfolding assms(6) q(1-6) using q(7) nok assms(3) unfolding decodeFlags_def PTF_LEAFDATA_def PTF_INTKEY_def PTF_ZERODATA_def PTF_LEAF_def by (simp_all add: Let_def split: if_splits)
  show "hdrOffset r = hdrOffset pg" "pBt r = pBt pg" "aData r = aData pg" "pgno r = pgno pg"
    unfolding assms(6) decodeFlags_def using assms by (simp_all add: Let_def)
qed

lemma initPage_reads:
  assumes p: "page_ok pg fs {}" and f: "flags_ok pg" and o: "aOvfl pg = []"
    and pg0: "isInit pg0 = False" "hdrOffset pg0 = hdrOffset pg" "pBt pg0 = pBt pg" "aData pg0 = aData pg" "pgno pg0 = pgno pg"
  shows "sqlite3BtreeInitPage pg0 = (SQLITE_OK, pg)"
proof -
  let ?h = "hdrOffset pg" and ?d = "aData pg"
  note sd = space_okD [OF page_okD(1) [OF p]]
  have fd: "decodeFlags pg (unat (?d ?h)) = (SQLITE_OK, pg)" "isInit pg" "maskPage pg = pageSize (pBt pg) - 1" "usable pg \<le> pageSize (pBt pg)"
    using f by (simp_all add: flags_ok_def)
  define r where "r = snd (decodeFlags pg0 (unat (?d ?h)))"
  note dr = decodeFlags_only [OF fd(1) pg0(2-5) r_def]
  have e1: "decodeFlags pg0 (unat (?d ?h)) = (SQLITE_OK, r)" using dr(1) by (simp add: r_def prod_eq_iff)
  have co: "cellOffset pg = ?h + 12 - (if leaf pg then 4 else 0)" using page_okD(3) [OF p] by simp
  have n: "\<not> (pageSize (pBt pg) - 8) div 6 < nCell pg"
  proof -
    have "6 * nCell pg \<le> pageSize (pBt pg) - 8" using nCell_bound [OF p] fd(4) by simp
    then show ?thesis by (simp add: not_less less_eq_div_iff_mult_less_eq)
  qed
  have tot: "nFree pg = unat (?d (?h + 7)) + page_top pg - ptr_end pg + sum_list (map snd fs)" by (rule free_total [OF page_okD(1) [OF p]])
  have small: "unat (?d (?h + 7)) < 256" by (rule order_less_le_trans [OF unsigned_less]) simp
  have le: "nFree pg < usable pg" using sd(2,11,12) by (simp add: ptr_end_def)
  have s16: "sub16 (unat (?d (?h + 7)) + page_top pg) (ptr_end pg) = unat (?d (?h + 7)) + page_top pg - ptr_end pg"
    using small sd(3,4,13) by (simp add: sub16_def mod_if)
  have lp: "nfree_loop ?d (usable pg) (get2byte ?d (?h + 1)) (unat (?d (?h + 7)) + page_top pg - ptr_end pg) = Some (nFree pg)"
    unfolding tot by (rule nfree_loop_chain [OF sd(6,7)]) (use sd(12,13) le tot in simp_all)
  have cell: "get2byte ?d (?h + 3) = nCell pg" "get2byte ?d (?h + 5) = page_top pg" using sd(5) by (simp_all add: page_top_def)
  have pe: "cellOffset pg + 2 * nCell pg = ptr_end pg" by (simp add: ptr_end_def)
  have eq: "r\<lparr>maskPage := pageSize (pBt pg) - 1, aOvfl := [], cellOffset := cellOffset pg, nCell := nCell pg, nFree := nFree pg, isInit := True\<rparr> = pg"
    by (rule mempage.equality) (use dr fd o in simp_all)
  have la: "leaf (r\<lparr>maskPage := x, aOvfl := []\<rparr>) = leaf pg" for x by (simp add: dr)
  have fl: "cellOffset (r\<lparr>maskPage := x, aOvfl := [], cellOffset := y, nCell := z\<rparr>) = y" "nCell (r\<lparr>maskPage := x, aOvfl := [], cellOffset := y, nCell := z\<rparr>) = z" for x y z
    by simp_all
  show ?thesis
    unfolding sqlite3BtreeInitPage_def pg0 Let_def e1 prod.case la co [symmetric] fl cell pe s16 lp option.case eq
    using n le by simp
qed

section \<open>Fresh pages\<close>

definition bt_ok :: "btshared \<Rightarrow> bool" where
  "bt_ok bt \<longleftrightarrow> 480 \<le> usableSize bt \<and> usableSize bt \<le> 32768 \<and> usableSize bt \<le> pageSize bt \<and>
     bt_minLocal bt \<le> bt_maxLocal bt \<and> bt_maxLocal bt \<le> usableSize bt - 35 \<and>
     bt_minLeaf bt \<le> bt_maxLeaf bt \<and> bt_maxLeaf bt \<le> usableSize bt - 35"

lemma local_limits_ok:
  assumes "480 \<le> usableSize bt" "usableSize bt \<le> 32768" "usableSize bt \<le> pageSize bt"
  shows "bt_ok (local_limits bt (usableSize bt))"
proof -
  let ?n = "usableSize bt"
  have "(?n - 12) * 32 div 255 \<le> (?n - 12) * 64 div 255" by (rule div_le_mono) simp
  moreover have "(?n - 12) * 64 div 255 \<le> ?n - 12" by (rule order_trans [OF div_le_mono [of _ "(?n - 12) * 255"]]) simp_all
  moreover have "b - 23 \<le> a - 23 \<and> a - 23 \<le> n - 35 \<and> b - 23 \<le> n - 35" if "b \<le> a" "a \<le> n - 12" for a b n :: nat using that by linarith
  ultimately show ?thesis using assms by (simp add: bt_ok_def local_limits_def)
qed

definition page_flags :: "nat set" where
  "page_flags = {PTF_ZERODATA, PTF_ZERODATA + PTF_LEAF, PTF_LEAFDATA + PTF_INTKEY, PTF_LEAFDATA + PTF_INTKEY + PTF_LEAF}"

lemma decodeFlags_good:
  assumes "f \<in> page_flags"
  shows "\<exists>pg'. decodeFlags pg f = (SQLITE_OK, pg') \<and> leaf pg' = odd (f div 8) \<and> childPtrSize pg' = (if odd (f div 8) then 0 else 4) \<and> f < 256 \<and>
    (bt_ok (pBt pg) \<longrightarrow> minLocal pg' \<le> maxLocal pg' \<and> maxLocal pg' \<le> usable pg - 35) \<and>
    pg' = pg\<lparr>leaf := leaf pg', childPtrSize := childPtrSize pg', intKey := intKey pg', hasData := hasData pg', maxLocal := maxLocal pg', minLocal := minLocal pg'\<rparr> \<and>
    (\<forall>q. pBt q = pBt pg \<and> (leaf q, childPtrSize q, intKey q, hasData q, maxLocal q, minLocal q) =
       (leaf pg', childPtrSize pg', intKey pg', hasData pg', maxLocal pg', minLocal pg') \<longrightarrow> decodeFlags q f = (SQLITE_OK, q))"
proof -
  note defs = decodeFlags_def PTF_LEAFDATA_def PTF_INTKEY_def PTF_ZERODATA_def PTF_LEAF_def
  have "f = 2 \<or> f = 10 \<or> f = 5 \<or> f = 13" using assms by (auto simp: page_flags_def defs)
  then show ?thesis by (elim disjE; intro exI [of _ "snd (decodeFlags pg f)"] conjI; simp add: defs Let_def bt_ok_def)
qed

lemma zeroPage_ok:
  assumes b: "bt_ok (pBt pg)" and h: "hdrOffset pg \<le> 100" and f: "fl \<in> page_flags"
  shows "page_ok (zeroPage pg fl) [] {}" "page_cells (zeroPage pg fl) = []" "flags_ok (zeroPage pg fl)" "page_top (zeroPage pg fl) = usable pg"
    "aOvfl (zeroPage pg fl) = []" "nCell (zeroPage pg fl) = 0"
proof -
  let ?h = "hdrOffset pg"
  define c where "c = ?h + 8 + 4 * (if even (fl div 8) then 1 else 0 :: nat)"
  define d where "d = put2byte ((zero_bytes ((aData pg)(?h := word_of_nat fl)) (?h + 1) 4)(?h + 7 := 0)) (?h + 5) (usable pg)"
  define q where "q = pg\<lparr>aData := d, nFree := u16n (usable pg - c)\<rparr>"
  obtain r where r: "decodeFlags q fl = (SQLITE_OK, r)" "leaf r = odd (fl div 8)" "childPtrSize r = (if odd (fl div 8) then 0 else 4)" "fl < 256"
    "bt_ok (pBt q) \<longrightarrow> minLocal r \<le> maxLocal r \<and> maxLocal r \<le> usable q - 35"
    "r = q\<lparr>leaf := leaf r, childPtrSize := childPtrSize r, intKey := intKey r, hasData := hasData r, maxLocal := maxLocal r, minLocal := minLocal r\<rparr>"
    "\<forall>p. pBt p = pBt q \<and> (leaf p, childPtrSize p, intKey p, hasData p, maxLocal p, minLocal p) =
       (leaf r, childPtrSize r, intKey r, hasData r, maxLocal r, minLocal r) \<longrightarrow> decodeFlags p fl = (SQLITE_OK, p)"
    using decodeFlags_good [OF f, of q] by (elim exE conjE) (rule that; assumption)
  define z where "z = r\<lparr>hdrOffset := ?h, cellOffset := c, aOvfl := [], maskPage := pageSize (pBt pg) - 1, nCell := 0, isInit := True\<rparr>"
  have z: "zeroPage pg fl = z" unfolding zeroPage_def Let_def c_def [symmetric] d_def [symmetric] q_def [symmetric] r(1) snd_conv z_def by (rule refl)
  have u: "480 \<le> usable pg" "usable pg \<le> 32768" "usable pg \<le> pageSize (pBt pg)" using b by (simp_all add: bt_ok_def)
  have c: "?h + 8 \<le> c" "c \<le> ?h + 12" by (simp_all add: c_def)
  have rf: "aData r = d" "pBt r = pBt pg" "nFree r = usable pg - c" using u by (subst r(6), simp add: q_def u16n_def)+
  have zf: "hdrOffset z = ?h" "cellOffset z = c" "nCell z = 0" "aData z = d" "pBt z = pBt pg" "nFree z = usable pg - c" "leaf z = odd (fl div 8)" "isInit z"
    "maskPage z = pageSize (pBt pg) - 1" "ptr_end z = c" "childPtrSize z = childPtrSize r" "minLocal z = minLocal r" "maxLocal z = maxLocal r" "aOvfl z = []"
    by (simp_all add: z_def rf r(2) ptr_end_def)
  have top: "page_top z = usable pg" unfolding page_top_def zf d_def by (rule get_put2) (use u in simp)
  have z0: "d (?h + 1) = 0" "d (?h + 2) = 0" "d (?h + 3) = 0" "d (?h + 4) = 0" "d (?h + 7) = 0" "d ?h = word_of_nat fl"
    by (simp_all add: d_def put2byte_def zero_bytes_def)
  have g: "get2byte d (?h + 3) = 0" "get2byte d (?h + 1) = 0" using z0 by (simp_all add: get2byte_def numeral_2_eq_2 numeral_3_eq_3 eval_nat_numeral)
  have lim: "limits_ok z" using r(3,5) u b by (simp add: limits_ok_def zf q_def)
  have us: "used z = {}" by (simp add: used_def zf)
  have "page_ok z [] {}"
    by (rule packed_ok) (use lim c u h g z0 top us in \<open>simp_all add: zf c_def\<close>)
  moreover have "flags_ok z"
  proof -
    have "unat (aData z ?h) = fl" using z0(6) r(4) by (simp add: zf unat_u8)
    moreover have "decodeFlags z fl = (SQLITE_OK, z)" by (rule r(7) [rule_format]) (simp add: z_def rf q_def)
    ultimately show ?thesis using u by (simp add: flags_ok_def zf)
  qed
  ultimately show "page_ok (zeroPage pg fl) [] {}" "flags_ok (zeroPage pg fl)" "page_top (zeroPage pg fl) = usable pg" "page_cells (zeroPage pg fl) = []"
    "aOvfl (zeroPage pg fl) = []" "nCell (zeroPage pg fl) = 0"
    unfolding z using top zf by (simp_all add: page_cells_def)
qed

section \<open>Assembling a page\<close>

abbreviation before :: "u8 list list \<Rightarrow> nat \<Rightarrow> nat" where "before cs i \<equiv> sum_list (map length (take i cs))"

lemma assemble_loop_ok:
  assumes "p + 2 * length cs \<le> b" "b + sum_list (map length cs) \<le> 32768" "d' = assemble_loop cs p b d"
  shows "(\<forall>a. a < p \<or> p + 2 * length cs \<le> a \<and> a < b \<longrightarrow> d' a = d a) \<and>
    (\<forall>i < length cs. get2byte d' (p + 2 * i) = b + before cs i \<and> (\<forall>j < length (cs ! i). d' (b + before cs i + j) = cs ! i ! j))"
  using assms
proof (induction cs arbitrary: p b d)
  case (Cons c cs)
  define d1 where "d1 = copy_bytes (put2byte d p b) b (\<lambda>i. c ! i) 0 (length c)"
  have d': "d' = assemble_loop cs (p + 2) (b + length c) d1" using Cons.prems(3) by (simp add: Let_def d1_def)
  have d1: "d1 a = (if b \<le> a \<and> a < b + length c then c ! (a - b) else put2byte d p b a)" for a by (simp add: d1_def copy_bytes_def)
  have r: "p + 2 + 2 * length cs \<le> b + length c" "b + length c + sum_list (map length cs) \<le> 32768" using Cons.prems(1,2) by simp_all
  have low: "\<And>a. a < p + 2 \<or> p + 2 + 2 * length cs \<le> a \<and> a < b + length c \<Longrightarrow> d' a = d1 a"
    and IH: "\<And>i. i < length cs \<Longrightarrow> get2byte d' (p + 2 + 2 * i) = b + length c + before cs i"
      "\<And>i j. i < length cs \<Longrightarrow> j < length (cs ! i) \<Longrightarrow> d' (b + length c + before cs i + j) = cs ! i ! j"
    using Cons.IH [OF r d'] by blast+
  show ?case
  proof (intro conjI allI impI)
    fix a assume a: "a < p \<or> p + 2 * length (c # cs) \<le> a \<and> a < b"
    then have "d' a = d1 a" by (intro low) auto
    then show "d' a = d a" using a Cons.prems(1) by (auto simp: d1 put2byte_def)
  next
    fix i assume i: "i < length (c # cs)"
    show "get2byte d' (p + 2 * i) = b + before (c # cs) i"
    proof (cases i)
      case 0
      have "get2byte d' p = get2byte (put2byte d p b) p"
        by (rule get2_cong) (use Cons.prems(1) low [of p] low [of "p + 1"] in \<open>simp_all add: d1\<close>)
      then show ?thesis using 0 Cons.prems(2) by (simp add: get_put2)
    next
      case (Suc k)
      then show ?thesis using IH(1) [of k] i by (simp add: add_ac)
    qed
    fix j assume j: "j < length ((c # cs) ! i)"
    show "d' (b + before (c # cs) i + j) = (c # cs) ! i ! j"
    proof (cases i)
      case 0
      then show ?thesis using j low [of "b + j"] Cons.prems(1) by (simp add: d1)
    next
      case (Suc k)
      then show ?thesis using IH(2) [of k j] i j by (simp add: add_ac)
    qed
  qed
qed simp

lemma before_mono: "before cs i \<le> before cs (Suc i)"
  by (cases "i < length cs") (simp_all add: take_Suc_conv_app_nth)

lemma before_Suc: "i < length cs \<Longrightarrow> before cs (Suc i) = before cs i + length (cs ! i)"
  by (simp add: take_Suc_conv_app_nth)

lemma intervals_up:
  assumes "\<And>i. S i \<le> (S (Suc i) :: nat)"
  shows "(\<Union>i<n. {b + S i..<b + S (Suc i)}) = {b + S 0..<b + S n}"
proof (induction n)
  case (Suc n)
  have "S 0 \<le> S n" using assms lift_Suc_mono_le [of S 0 n] by simp
  then show ?case using Suc.IH assms [of n] by (auto simp: lessThan_Suc)
qed simp

lemma intervals_up_apart:
  assumes "\<And>i. S i \<le> (S (Suc i) :: nat)" "i \<noteq> j"
  shows "{b + S i..<b + S (Suc i)} \<inter> {b + S j..<b + S (Suc j)} = {}"
proof -
  have lt: "{b + S x..<b + S (Suc x)} \<inter> {b + S y..<b + S (Suc y)} = {}" if "x < y" for x y
    using lift_Suc_mono_le [of S "Suc x" y] assms(1) that by auto
  show ?thesis using lt [of i j] lt [of j i] assms(2) by (cases "i < j") auto
qed

lemma put2_get: "put2byte d a (get2byte d a) = d"
proof -
  have "unat (d (a + 1)) < 256" using unsigned_less [of "d (a + 1)"] by simp
  then have "(unat (d a) * 256 + unat (d (a + 1))) div 256 = unat (d a)" by simp
  moreover have z: "(256 :: u8) = 0" by simp
  have "x * 256 = 0" for x :: u8 unfolding z by (rule mult_zero_right)
  ultimately show ?thesis by (simp add: put2byte_def get2byte_def fun_eq_iff)
qed

lemma allocate_fresh:
  assumes p: "page_ok pg [] {}" and c0: "nCell pg = 0" and t: "page_top pg = usable pg" and n: "n + 2 * k \<le> nFree pg"
  shows "allocateSpace tmp (pg\<lparr>aData := put2byte (aData pg) (hdrOffset pg + 3) k\<rparr>) n =
    Some (usable pg - n, pg\<lparr>nFree := nFree pg - n, aData := put2byte (put2byte (aData pg) (hdrOffset pg + 3) k) (hdrOffset pg + 5) (usable pg - n)\<rparr>)"
proof -
  let ?h = "hdrOffset pg"
  define d where "d = put2byte (aData pg) (?h + 3) k"
  note sd = space_okD [OF page_okD(1) [OF p]]
  have us: "used pg = {}" by (simp add: used_def c0)
  have f: "nFree pg + cellOffset pg = usable pg" using sd(11) by (simp add: us c0 ptr_end_def)
  have fr: "unat (d (?h + 7)) = 0" using sd(10) by (simp add: us t d_def put2byte_def)
  have h5: "get2byte d (?h + 5) = usable pg" unfolding d_def t [symmetric] page_top_def by (rule get_put2_other) simp
  have "k < 65536" using n f sd(13) by simp
  then have h3: "get2byte d (?h + 3) = k" unfolding d_def by (rule get_put2)
  have "get2byte d (?h + 1) = get2byte (aData pg) (?h + 1)" unfolding d_def by (rule get_put2_other) simp
  then have "free_chain d (?h + 1) []" using sd(6) by simp
  from slot_loop_ok [OF this, of 1 0 n] have sl: "slot_loop d (?h + 1) n = Some None" by simp
  have s16: "sub16 (nFree pg) n = nFree pg - n" using n f sd(13) by (simp add: sub16_def mod_if)
  have room: "\<not> (60 \<le> unat (d (?h + 7)) \<or> usable pg < cellOffset pg + 2 * k + n)" using fr n f by simp
  have gap: "allocateGap tmp (pg\<lparr>aData := d, nFree := nFree pg - n\<rparr>) n =
      (usable pg - n, pg\<lparr>nFree := nFree pg - n, aData := put2byte d (?h + 5) (usable pg - n)\<rparr>)"
    unfolding allocateGap_def Let_def using room fr by (simp add: h3 h5)
  show ?thesis unfolding d_def [symmetric] allocateSpace_def Let_def
    using fr sl [folded Suc_eq_plus1] sl by (simp add: s16 gap)
qed

lemma assemblePage_ok:
  assumes p: "page_ok pg [] {}" and c0: "nCell pg = 0" and t: "page_top pg = usable pg"
    and room: "sum_list (map length cells) + 2 * length cells \<le> nFree pg"
    and sizes: "\<forall>c \<in> set cells. cellSizePtr pg (\<lambda>i. c ! i) = length c"
  shows "\<exists>pg'. assemblePage tmp pg cells = Some pg' \<and> page_ok pg' [] {} \<and> page_cells pg' = cells"
proof -
  let ?h = "hdrOffset pg" and ?n = "length cells" and ?t = "sum_list (map length cells)" and ?co = "cellOffset pg"
  note sd = space_okD [OF page_okD(1) [OF p]]
  have us: "used pg = {}" by (simp add: used_def c0)
  have f: "nFree pg + ?co = usable pg" using sd(11) by (simp add: us c0 ptr_end_def)
  have n16: "?n < 65536" using room f sd(13) by simp
  define d1 where "d1 = put2byte (put2byte (aData pg) (?h + 3) ?n) (?h + 5) (usable pg - ?t)"
  define b where "b = usable pg - ?t"
  define d where "d = assemble_loop cells ?co b d1"
  define pg' where "pg' = pg\<lparr>nFree := nFree pg - ?t - 2 * ?n, aData := d, nCell := ?n\<rparr>"
  have b: "?co + 2 * ?n \<le> b" "b + ?t \<le> 32768" "b + ?t = usable pg" using room f sd(13) by (simp_all add: b_def)
  have lo: "\<And>a. a < ?co \<Longrightarrow> d a = d1 a" and ptr: "\<And>i. i < ?n \<Longrightarrow> get2byte d (?co + 2 * i) = b + before cells i"
    and body: "\<And>i j. i < ?n \<Longrightarrow> j < length (cells ! i) \<Longrightarrow> d (b + before cells i + j) = cells ! i ! j"
    using assemble_loop_ok [OF b(1,2) d_def] by blast+
  have run: "assemblePage tmp pg cells = Some pg'"
  proof (cases "cells = []")
    case True
    have "put2byte (put2byte (aData pg) (?h + 3) 0) (?h + 5) (usable pg) = put2byte (aData pg) (?h + 3) 0"
      using put2_get [of "put2byte (aData pg) (?h + 3) 0" "?h + 5"] by (simp add: t [symmetric] page_top_def get_put2_other)
    then show ?thesis using True by (simp add: assemblePage_def pg'_def d_def d1_def b_def u16n_def Let_def)
  next
    case False
    have s: "sub16 (nFree pg - ?t) (2 * ?n) = nFree pg - ?t - 2 * ?n" "u16n ?n = ?n" using room f sd(13) n16 by (simp_all add: sub16_def u16n_def mod_if)
    have a: "allocateSpace tmp (pg\<lparr>aData := put2byte (aData pg) (?h + 3) ?n\<rparr>) ?t = Some (b, pg\<lparr>nFree := nFree pg - ?t, aData := d1\<rparr>)"
      unfolding b_def d1_def by (rule allocate_fresh [OF p c0 t room])
    show ?thesis unfolding assemblePage_def Let_def a using False by (simp add: s pg'_def d_def)
  qed
  have pf: "hdrOffset pg' = ?h" "aData pg' = d" "usable pg' = usable pg" "limits_ok pg' = limits_ok pg" "cellOffset pg' = ?co" "leaf pg' = leaf pg"
    "nCell pg' = ?n" "ptr_end pg' = ?co + 2 * ?n" "nFree pg' = nFree pg - ?t - 2 * ?n"
    by (simp_all add: pg'_def limits_ok_def ptr_end_def)
  have cs: "cellSizePtr pg' = cellSizePtr pg" "sqlite3BtreeParseCellPtr pg' = sqlite3BtreeParseCellPtr pg" by (rule parse_fields; simp add: pg'_def)+
  have cp: "cell_ptr pg' i = b + before cells i" if "i < ?n" for i using ptr [OF that] by (simp add: cell_ptr_def pf)
  have cl: "cell_len pg' i = length (cells ! i)" if i: "i < ?n" for i
  proof -
    have z: "cellSizePtr pg (\<lambda>j. cells ! i ! j) = length (cells ! i)" using sizes nth_mem [OF i] by blast
    have "sqlite3BtreeParseCellPtr pg (at_offset d (cell_ptr pg' i)) = sqlite3BtreeParseCellPtr pg (\<lambda>j. cells ! i ! j)"
      by (rule parse_cong [OF sd(1)]) (use body [OF i] in \<open>simp add: cp [OF i] z\<close>)
    then show ?thesis unfolding cell_len_def cs pf cellSizePtr_def using z by (simp add: cellSizePtr_def)
  qed
  have cset: "cell_set pg' i = {b + before cells i..<b + before cells (Suc i)}" if "i < ?n" for i
    unfolding cell_set_def cp [OF that] cl [OF that] before_Suc [OF that] by (simp add: add.assoc)
  have "cell_body pg' i = cells ! i" if i: "i < ?n" for i
    by (rule nth_equalityI) (use body [OF i] in \<open>simp_all add: cell_body_def cl [OF i] cp [OF i] pf\<close>)
  then have cells: "page_cells pg' = cells" by (intro nth_equalityI) (simp_all add: page_cells_def pf)
  have h: "d a = aData pg a" if "a < ?co" "a \<noteq> ?h + 3" "a \<noteq> ?h + 4" "a \<noteq> ?h + 5" "a \<noteq> ?h + 6" for a
    using lo [OF that(1)] that by (simp add: d1_def put2byte_def)
  have hc: "?h + 8 \<le> ?co" by (rule sd(2))
  have h3: "get2byte d (?h + 3) = ?n"
  proof -
    have "get2byte d (?h + 3) = get2byte d1 (?h + 3)" by (rule get2_cong; rule lo) (use hc in simp_all)
    also have "\<dots> = get2byte (put2byte (aData pg) (?h + 3) ?n) (?h + 3)" unfolding d1_def by (rule get_put2_other) simp
    finally show ?thesis using get_put2 [OF n16] by simp
  qed
  have h5: "page_top pg' = b"
  proof -
    have "get2byte d (?h + 5) = get2byte d1 (?h + 5)" by (rule get2_cong; rule lo) (use hc in simp_all)
    then show ?thesis unfolding page_top_def pf d1_def b_def [symmetric] using get_put2 [of b] b by simp
  qed
  have h1: "get2byte d (?h + 1) = 0" using sd(6) h [of "?h + 1"] h [of "?h + 2"] hc by (simp add: get2byte_def)
  have h7: "d (?h + 7) = 0"
  proof -
    have "aData pg (?h + 7) = 0" using sd(10) by (simp add: us t unat_eq_0)
    then show ?thesis using h [of "?h + 7"] hc by simp
  qed
  have used': "used pg' = {b..<usable pg}"
  proof -
    have "used pg' = (\<Union>i<?n. {b + before cells i..<b + before cells (Suc i)})" unfolding used_def pf using cset by simp
    then show ?thesis using intervals_up [of "before cells" b ?n] before_mono b(3) by simp
  qed
  have "page_ok pg' [] {}"
  proof (rule packed_ok)
    show "cell_set pg' i \<inter> cell_set pg' j = {}" if "i < nCell pg'" "j < nCell pg'" "i \<noteq> j" for i j
      using that cset intervals_up_apart [of "before cells", OF before_mono that(3)] by (simp add: pf)
  qed (use sd(1) page_okD(3) [OF p] h1 h3 h5 h7 b f room used' in \<open>simp_all add: pf\<close>)
  with run cells show ?thesis by (intro exI conjI)
qed


section \<open>The properties of the page layer\<close>

definition page_inv :: "mempage \<Rightarrow> bool" where
  "page_inv pg \<longleftrightarrow> (\<exists>fs. page_ok pg fs {})"

definition sample_bt :: btshared where
  "sample_bt = local_limits \<lparr>pageSize = 512, usableSize = 512, bt_maxLocal = 0, bt_minLocal = 0, bt_maxLeaf = 0, bt_minLeaf = 0, autoVacuum = False\<rparr> 512"

definition sample_page :: mempage where
  "sample_page = zeroPage \<lparr>isInit = False, intKey = False, leaf = False, hasData = False, hdrOffset = 100, childPtrSize = 0, maxLocal = 0, minLocal = 0,
     cellOffset = 0, nFree = 0, nCell = 0, maskPage = 0, aOvfl = [], pBt = sample_bt, aData = (\<lambda>_. 0), pgno = 1\<rparr> 13"

text \<open>A table leaf cell with one byte \<open>x\<close> of data under the key \<open>k\<close>.\<close>

definition sample_cell :: "u8 \<Rightarrow> u8 \<Rightarrow> u8 list" where
  "sample_cell k x = [1, k, x, 0]"

lemma sample_bt_ok: "bt_ok sample_bt" "usableSize sample_bt = 512" "autoVacuum sample_bt = False"
  unfolding sample_bt_def using local_limits_ok [of "\<lparr>pageSize = 512, usableSize = 512, bt_maxLocal = 0, bt_minLocal = 0, bt_maxLeaf = 0, bt_minLeaf = 0, autoVacuum = False\<rparr>"]
  by (simp_all add: local_limits_def)

lemma sample_fields: "hdrOffset sample_page = 100" "cellOffset sample_page = 108" "nFree sample_page = 404" "intKey sample_page" "hasData sample_page"
  "childPtrSize sample_page = 0" "maxLocal sample_page = 477" "minLocal sample_page = 39" "pBt sample_page = sample_bt" "nCell sample_page = 0" "aOvfl sample_page = []"
  by (simp_all add: sample_page_def zeroPage_def decodeFlags_def PTF_LEAFDATA_def PTF_INTKEY_def PTF_ZERODATA_def PTF_LEAF_def sample_bt_def local_limits_def u16n_def Let_def)

lemma sample_ok: "page_ok sample_page [] {}" "page_cells sample_page = []" "flags_ok sample_page" "page_top sample_page = 512"
  unfolding sample_page_def
  using zeroPage_ok [of "\<lparr>isInit = False, intKey = False, leaf = False, hasData = False, hdrOffset = 100, childPtrSize = 0, maxLocal = 0, minLocal = 0,
     cellOffset = 0, nFree = 0, nCell = 0, maskPage = 0, aOvfl = [], pBt = sample_bt, aData = (\<lambda>_. 0), pgno = 1\<rparr>" 13] sample_bt_ok
  by (simp_all add: page_flags_def PTF_LEAFDATA_def PTF_INTKEY_def PTF_ZERODATA_def PTF_LEAF_def)

lemma sample_cell_size: "\<not> bit k 7 \<Longrightarrow> cellSizePtr sample_page (\<lambda>i. sample_cell k x ! i) = 4"
  by (simp add: cellSizePtr_def sqlite3BtreeParseCellPtr_def parse_header_def sample_fields getVarint32_eq GetVarint_ref varint_ref.simps sample_cell_def Let_def u16n_def)
lemma page_invI: "page_ok pg fs {} \<Longrightarrow> page_inv pg"
  unfolding page_inv_def by blast

lemma sample_pair: "\<exists>pg. page_inv pg \<and> page_cells pg = [sample_cell 1 65, sample_cell 2 66] \<and> nCell pg = 2"
proof -
  have s: "\<forall>c \<in> set [sample_cell 1 65, sample_cell 2 66]. cellSizePtr sample_page (\<lambda>i. c ! i) = length c"
    using sample_cell_size [of 1 65] sample_cell_size [of 2 66] by (simp add: sample_cell_def)
  obtain pg where pg: "page_ok pg [] {}" "page_cells pg = [sample_cell 1 65, sample_cell 2 66]"
    using assemblePage_ok [OF sample_ok(1) sample_fields(10) _ _ s] by (force simp: sample_ok(4) sample_fields sample_bt_ok sample_cell_def)
  have "nCell pg = length (page_cells pg)" by (simp add: page_cells_def)
  then have "nCell pg = 2" using pg(2) by simp
  then show ?thesis using pg(2) page_invI [OF pg(1)] by blast
qed

text \<open>
  C17: \<open>insertCell\<close> on a well-formed page with room for the cell and its pointer succeeds, whatever
  the fragmentation of the free space: the page stays well-formed and its list of cells is the old
  one with the new cell at place \<open>i\<close>; the result code is that of noting the cell's overflow page in
  the pointer map.
\<close>

theorem insertCell_refines:
  assumes "page_inv pg" "i \<le> nCell pg" "aOvfl pg = []" "cellSizePtr pg c + 2 \<le> nFree pg"
  shows "\<exists>pg'. insertCell ptrmap SQLITE_OK tmp pg m i c (cellSizePtr pg c) pT 0 =
      Some (fst (overflow_note ptrmap pg m c), pg', snd (overflow_note ptrmap pg m c)) \<and>
    page_inv pg' \<and> page_cells pg' = take i (page_cells pg) @ map c [0..<cellSizePtr pg c] # drop i (page_cells pg)"
proof -
  obtain fs where "page_ok pg fs {}" using assms(1) unfolding page_inv_def by blast
  from insertCell_page [OF this assms(2-4), of ptrmap tmp m pT] show ?thesis by (metis page_invI)
qed

theorem insertCell_refines_witness:
  "\<exists>pg'. insertCell (\<lambda>k v m. (SQLITE_OK, m)) SQLITE_OK (\<lambda>_. 0) sample_page () 0 (\<lambda>i. sample_cell 1 65 ! i) 4 None 0 = Some (SQLITE_OK, pg', ()) \<and>
    page_inv pg' \<and> page_cells pg' = [sample_cell 1 65]"
proof -
  have e: "map (\<lambda>i. sample_cell 1 65 ! i) [0..<4] = sample_cell 1 65" by (simp add: sample_cell_def upt_rec)
  have "fst (overflow_note (\<lambda>k v m. (SQLITE_OK, m)) sample_page () (\<lambda>i. sample_cell 1 65 ! i)) = SQLITE_OK" by (simp add: overflow_note_def Let_def)
  then show ?thesis
    using insertCell_refines [of sample_page 0 "\<lambda>i. sample_cell 1 65 ! i" "\<lambda>k v m. (SQLITE_OK, m)" "\<lambda>_. 0" "()" None]
      page_invI [OF sample_ok(1)] sample_cell_size [of 1 65] e
    by (simp add: sample_fields sample_ok)
qed

text \<open>
  C18: \<open>dropCell\<close> with the cell's size succeeds on a well-formed page, for every layout of its free
  blocks: the space goes back, the page stays well-formed and exactly this cell leaves the list.
\<close>

theorem dropCell_refines:
  assumes "page_inv pg" "k < nCell pg"
  shows "\<exists>pg'. dropCell pg k (cell_len pg k) = Some (SQLITE_OK, pg') \<and> page_inv pg' \<and>
    page_cells pg' = take k (page_cells pg) @ drop (Suc k) (page_cells pg)"
proof -
  obtain fs where "page_ok pg fs {}" using assms(1) unfolding page_inv_def by blast
  from dropCell_page [OF this assms(2)] show ?thesis by (metis page_invI)
qed

theorem dropCell_refines_witness:
  "\<exists>pg pg'. page_cells pg = [sample_cell 1 65, sample_cell 2 66] \<and> dropCell pg 0 (cell_len pg 0) = Some (SQLITE_OK, pg') \<and>
    page_inv pg' \<and> page_cells pg' = [sample_cell 2 66]"
proof -
  obtain pg where pg: "page_inv pg" "page_cells pg = [sample_cell 1 65, sample_cell 2 66]" "nCell pg = 2" using sample_pair by blast
  have "0 < nCell pg" using pg(3) by simp
  from dropCell_refines [OF pg(1) this] show ?thesis using pg(2) by auto
qed

text \<open>
  C20: \<open>defragmentPage\<close> succeeds on a well-formed page, keeps its cells and their order, and leaves
  all of its free bytes in the gap behind the cell pointers.
\<close>

theorem defragment_keeps_cells:
  assumes "page_inv pg"
  shows "\<exists>pg'. defragmentPage tmp pg = (SQLITE_OK, pg') \<and> page_ok pg' [] {} \<and> page_cells pg' = page_cells pg \<and>
    nFree pg' = nFree pg \<and> page_top pg' = ptr_end pg' + nFree pg'"
proof -
  obtain fs where "page_ok pg fs {}" using assms unfolding page_inv_def by blast
  from defragment_any [OF this, of tmp]
  obtain d where d: "\<forall>x. defragmentPage tmp (pg\<lparr>nFree := x\<rparr>) = (if x = nFree pg then SQLITE_OK else SQLITE_CORRUPT, pg\<lparr>nFree := x, aData := d\<rparr>)"
    "page_ok (pg\<lparr>aData := d\<rparr>) [] {}" "page_cells (pg\<lparr>aData := d\<rparr>) = page_cells pg" "get2byte d (hdrOffset pg + 5) = ptr_end pg + nFree pg" by blast
  have "defragmentPage tmp pg = (SQLITE_OK, pg\<lparr>aData := d\<rparr>)" using d(1) [rule_format, of "nFree pg"] by simp
  then show ?thesis using d(2-4) by (intro exI [of _ "pg\<lparr>aData := d\<rparr>"]) (simp add: page_top_def ptr_end_def)
qed

theorem defragment_keeps_cells_witness:
  "\<exists>pg pg'. page_cells pg = [sample_cell 1 65, sample_cell 2 66] \<and> defragmentPage (\<lambda>_. 0) pg = (SQLITE_OK, pg') \<and> page_cells pg' = page_cells pg"
proof -
  obtain pg where pg: "page_inv pg" "page_cells pg = [sample_cell 1 65, sample_cell 2 66]" using sample_pair by blast
  from defragment_keeps_cells [OF pg(1), of "\<lambda>_. 0"] show ?thesis using pg(2) by blast
qed

text \<open>
  C19: reading the header of a well-formed page again (\<open>sqlite3BtreeInitPage\<close> on its bytes, with
  every other field unset) gives back exactly the page: the free-space count, the cell count, the
  flags and the limits are all determined by the bytes.
\<close>

theorem initPage_roundtrip:
  assumes "page_inv pg" "flags_ok pg" "aOvfl pg = []" "isInit pg0 = False"
    "hdrOffset pg0 = hdrOffset pg" "pBt pg0 = pBt pg" "aData pg0 = aData pg" "pgno pg0 = pgno pg"
  shows "sqlite3BtreeInitPage pg0 = (SQLITE_OK, pg)"
proof -
  obtain fs where "page_ok pg fs {}" using assms(1) unfolding page_inv_def by blast
  from initPage_reads [OF this assms(2-8)] show ?thesis .
qed

theorem initPage_roundtrip_witness:
  "sqlite3BtreeInitPage (sample_page\<lparr>isInit := False, nFree := 0, cellOffset := 7, leaf := False, maxLocal := 3\<rparr>) = (SQLITE_OK, sample_page)"
  by (rule initPage_roundtrip) (simp_all add: page_invI [OF sample_ok(1)] sample_ok sample_fields)

text \<open>
  C21: \<open>assemblePage\<close> on a page fresh from \<open>zeroPage\<close> makes a well-formed page whose cells are the
  given ones, in their order.
\<close>

theorem assemble_zeroPage:
  assumes "bt_ok (pBt pg)" "hdrOffset pg \<le> 100" "fl \<in> page_flags"
    "sum_list (map length cells) + 2 * length cells \<le> nFree (zeroPage pg fl)"
    "\<forall>c \<in> set cells. cellSizePtr (zeroPage pg fl) (\<lambda>i. c ! i) = length c"
  shows "\<exists>pg'. assemblePage tmp (zeroPage pg fl) cells = Some pg' \<and> page_inv pg' \<and> page_cells pg' = cells"
proof -
  note z = zeroPage_ok [OF assms(1-3)]
  have "pBt (zeroPage pg fl) = pBt pg" by (simp add: zeroPage_def decodeFlags_def Let_def)
  then have "page_top (zeroPage pg fl) = usable (zeroPage pg fl)" by (simp only: z(4))
  from assemblePage_ok [OF z(1,6) this assms(4,5), of tmp] show ?thesis by (metis page_invI)
qed

theorem assemble_zeroPage_witness:
  "\<exists>pg'. assemblePage (\<lambda>_. 0) sample_page [sample_cell 3 67, sample_cell 4 68] = Some pg' \<and> page_inv pg' \<and> page_cells pg' = [sample_cell 3 67, sample_cell 4 68]"
  unfolding sample_page_def
  by (rule assemble_zeroPage)
    (use sample_cell_size [of 3 67] sample_cell_size [of 4 68] sample_fields(3) sample_bt_ok in
      \<open>simp_all add: sample_page_def [symmetric] page_flags_def PTF_LEAFDATA_def PTF_INTKEY_def PTF_ZERODATA_def PTF_LEAF_def sample_cell_def\<close>)

end
