(* ===== verification/SqText.thy ===== *)
theory SqText
  imports Prelude
begin

text \<open>
  The text utilities of \<^verbatim>\<open>util.c\<close>: case-insensitive comparison, the recognisers and
  converters of numbers, quotes and hexadecimal literals, and the misuse checks.
\<close>

section \<open>Comparison\<close>

fun sqlite3StrICmp :: "string \<Rightarrow> string \<Rightarrow> int" where
  "sqlite3StrICmp [] b = 0 - int (sqlite3UpperToLower (hd0 b))"
| "sqlite3StrICmp (x # a) b =
    (if x \<noteq> NUL \<and> sqlite3UpperToLower x = sqlite3UpperToLower (hd0 b)
     then sqlite3StrICmp a (tl b)
     else int (sqlite3UpperToLower x) - int (sqlite3UpperToLower (hd0 b)))"

text \<open>The loop \<^verbatim>\<open>while( N-- > 0 && ...)\<close>: a count that runs out gives 0.\<close>

fun sqlite3StrNICmp :: "string \<Rightarrow> string \<Rightarrow> nat \<Rightarrow> int" where
  "sqlite3StrNICmp a b 0 = 0"
| "sqlite3StrNICmp a b (Suc n) =
    (if hd0 a \<noteq> NUL \<and> sqlite3UpperToLower (hd0 a) = sqlite3UpperToLower (hd0 b)
     then sqlite3StrNICmp (tl a) (tl b) n
     else int (sqlite3UpperToLower (hd0 a)) - int (sqlite3UpperToLower (hd0 b)))"

text \<open>\<^verbatim>\<open>memcmp\<close> of the C library on the first \<open>n\<close> characters: the first difference decides.\<close>

fun memcmp :: "string \<Rightarrow> string \<Rightarrow> nat \<Rightarrow> int" where
  "memcmp a b 0 = 0"
| "memcmp a b (Suc n) =
    (if hd0 a = hd0 b then memcmp (tl a) (tl b) n else int (ordc (hd0 a)) - int (ordc (hd0 b)))"

section \<open>Quotes\<close>

text \<open>
  The loop of \<^verbatim>\<open>sqlite3Dequote\<close> reads at \<open>i\<close> and writes at \<open>j < i\<close> in one buffer. \<open>z\<close> is the
  text from \<open>i\<close> on and \<open>out\<close> the text written so far, last character first. The result is
  what is written, up to a terminator that is written, if any.
\<close>

fun dequote_loop :: "char \<Rightarrow> string \<Rightarrow> string \<Rightarrow> string \<times> bool" where
  "dequote_loop q [] out = (rev out, False)"
| "dequote_loop q (c # z) out =
    (if c = q then
       (if hd0 z = q then dequote_loop q (tl z) (q # out) else (rev out, True))
     else dequote_loop q z (c # out))"

text \<open>Without a closing quote no terminator is written: the tail of the buffer stays.\<close>

definition sqlite3Dequote :: "string \<Rightarrow> string" where
  "sqlite3Dequote z =
    (let quote = hd0 z in
     if quote = CHR 0x27 \<or> quote = CHR 0x22 \<or> quote = CHR 0x60 \<or> quote = CHR ''['' then
       (case dequote_loop (if quote = CHR ''['' then CHR '']'' else quote) (tl z) [] of
          (out, terminated) \<Rightarrow> if terminated then out else out @ drop (length out) z)
     else z)"

section \<open>Numbers\<close>

text \<open>
  \<^verbatim>\<open>sqlite3IsNumber\<close> on the bytes of the text, with the step \<open>incr\<close> of the encoding; the
  second result is what it stores in \<^verbatim>\<open>*realnum\<close>, if it stores anything.
\<close>

datatype encoding = UTF8 | UTF16LE | UTF16BE

fun incr :: "encoding \<Rightarrow> nat" where
  "incr UTF8 = 1"
| "incr UTF16LE = 2"
| "incr UTF16BE = 2"

lemma incr_pos [simp]: "0 < incr e"
  by (cases e) auto

function skip_digits :: "encoding \<Rightarrow> string \<Rightarrow> string" where
  "skip_digits e z = (if sqlite3Isdigit (hd0 z) then skip_digits e (drop (incr e) z) else z)"
  by pat_completeness auto
termination
  by (relation "measure (\<lambda>(e, z). length z)") (auto simp: hd0_def split: list.splits)
declare skip_digits.simps [simp del]

definition isnumber_exp :: "encoding \<Rightarrow> string \<Rightarrow> bool \<Rightarrow> bool \<times> bool option" where
  "isnumber_exp e z real =
    (if hd0 z = CHR ''e'' \<or> hd0 z = CHR ''E'' then
       let z = drop (incr e) z;
           z = (if hd0 z = CHR ''+'' \<or> hd0 z = CHR ''-'' then drop (incr e) z else z)
       in if \<not> sqlite3Isdigit (hd0 z) then (False, Some real)
          else (hd0 (skip_digits e z) = NUL, Some True)
     else (hd0 z = NUL, Some real))"

definition sqlite3IsNumber :: "string \<Rightarrow> encoding \<Rightarrow> bool \<times> bool option" where
  "sqlite3IsNumber z e =
    (let z = (if e = UTF16BE then tl z else z);
         z = (if hd0 z = CHR ''-'' \<or> hd0 z = CHR ''+'' then drop (incr e) z else z)
     in if \<not> sqlite3Isdigit (hd0 z) then (False, None)
        else let z = skip_digits e (drop (incr e) z) in
          if hd0 z = CHR ''.'' then
            let z = drop (incr e) z in
            if \<not> sqlite3Isdigit (hd0 z) then (False, Some False)
            else isnumber_exp e (skip_digits e z) True
          else isnumber_exp e z False)"

definition compare2pow63 :: "string \<Rightarrow> int" where
  "compare2pow63 zNum =
    (let c = memcmp zNum ''922337203685477580'' 18
     in if c = 0 then int (ordc (hd0 (drop 18 zNum))) - 56 else c)"

text \<open>The loop \<^verbatim>\<open>for(i=0; (c=zNum[i])>='0' && c<='9'; i++)\<close> with its 64-bit accumulator.\<close>

fun atoi_loop :: "int \<Rightarrow> nat \<Rightarrow> string \<Rightarrow> int \<times> nat \<times> char" where
  "atoi_loop v i [] = (v, i, NUL)"
| "atoi_loop v i (c # z) =
    (if 48 \<le> ordc c \<and> ordc c \<le> 57
     then atoi_loop (i64 (v * 10 + int (ordc c) - 48)) (Suc i) z
     else (v, i, c))"

text \<open>The result is the flag returned and the number stored in \<^verbatim>\<open>*pNum\<close>.\<close>

definition sqlite3Atoi64 :: "string \<Rightarrow> bool \<times> int" where
  "sqlite3Atoi64 zNum =
    (let zNum = dropWhile sqlite3Isspace zNum;
         neg = (hd0 zNum = CHR ''-'');
         zNum = (if hd0 zNum = CHR ''-'' \<or> hd0 zNum = CHR ''+'' then tl zNum else zNum);
         zStart = zNum;
         zNum = dropWhile (\<lambda>c. c = CHR ''0'') zNum
     in case atoi_loop 0 0 zNum of (v, i, c) \<Rightarrow>
       (if c \<noteq> NUL \<or> (i = 0 \<and> length zStart = length zNum) \<or> 19 < i then False
        else if i < 19 then True
        else compare2pow63 zNum < (if neg then 1 else 0),
        if neg then i64 (- v) else v))"

definition sqlite3FitsIn64Bits :: "string \<Rightarrow> bool \<Rightarrow> bool" where
  "sqlite3FitsIn64Bits zNum negFlag =
    (let neg = (hd0 zNum = CHR ''-'');
         zNum = (if hd0 zNum = CHR ''-'' \<or> hd0 zNum = CHR ''+'' then tl zNum else zNum);
         neg = (if negFlag then \<not> neg else neg);
         zNum = dropWhile (\<lambda>c. c = CHR ''0'') zNum;
         i = length (takeWhile (\<lambda>c. 48 \<le> ordc c \<and> ordc c \<le> 57) zNum)
     in if i < 19 then True
        else if 19 < i then False
        else compare2pow63 zNum < (if neg then 1 else 0))"

text \<open>
  The loop of \<^verbatim>\<open>sqlite3GetInt32\<close> stops after eleven digits, so \<^verbatim>\<open>v\<close> cannot overflow.
\<close>

fun getint_loop :: "int \<Rightarrow> nat \<Rightarrow> string \<Rightarrow> int \<times> nat" where
  "getint_loop v i [] = (v, i)"
| "getint_loop v i (c # z) =
    (if i < 11 \<and> 0 \<le> int (ordc c) - 48 \<and> int (ordc c) - 48 \<le> 9
     then getint_loop (i64 (v * 10 + (int (ordc c) - 48))) (Suc i) z
     else (v, i))"

definition sqlite3GetInt32 :: "string \<Rightarrow> int option" where
  "sqlite3GetInt32 zNum =
    (let neg = (hd0 zNum = CHR ''-'');
         zNum = (if hd0 zNum = CHR ''-'' \<or> hd0 zNum = CHR ''+'' then tl zNum else zNum);
         zNum = dropWhile (\<lambda>c. c = CHR ''0'') zNum
     in case getint_loop 0 0 zNum of (v, i) \<Rightarrow>
       if 10 < i then None
       else if 2147483647 < v - (if neg then 1 else 0) then None
       else Some (i32 (if neg then - v else v)))"

section \<open>Hexadecimal\<close>

definition hexToInt :: "char \<Rightarrow> u8" where
  "hexToInt c =
    (let h = of_nat (ordc c) :: 32 word;
         h = h + 9 * (1 AND drop_bit 6 h)
     in ucast (h AND 0xf))"

text \<open>
  The digits of \<^verbatim>\<open>x'hhhhhh'\<close> after the first quote, \<open>n\<close> counting the last quote too; the blob is
  followed by a zero byte. \<open>None\<close> when the allocation fails.
\<close>

fun hex_loop :: "int \<Rightarrow> string \<Rightarrow> u8 list" where
  "hex_loop n (h # l # z) =
    (if 0 < n then (push_bit 4 (hexToInt h) OR hexToInt l) # hex_loop (n - 2) z else [0])"
| "hex_loop n z = (if 0 < n then [push_bit 4 (hexToInt (hd0 z)) OR hexToInt NUL, 0] else [0])"

definition sqlite3HexToBlob :: "outcomes \<Rightarrow> string \<Rightarrow> int \<Rightarrow> u8 list option \<times> outcomes" where
  "sqlite3HexToBlob os z n =
    (case alloc_next os of (ok, os) \<Rightarrow> (if ok then Some (hex_loop (n - 1) z) else None, os))"

section \<open>Misuse detection\<close>

datatype magic = MAGIC_OPEN | MAGIC_CLOSED | MAGIC_SICK | MAGIC_BUSY | MAGIC_ERROR | MAGIC_OTHER u32

record connection =
  db_magic :: magic
  isInterrupted :: bool

definition sqlite3SafetyOn :: "connection \<Rightarrow> bool \<times> connection" where
  "sqlite3SafetyOn db =
    (if db_magic db = MAGIC_OPEN then (False, db\<lparr>db_magic := MAGIC_BUSY\<rparr>)
     else if db_magic db = MAGIC_BUSY then (True, db\<lparr>db_magic := MAGIC_ERROR, isInterrupted := True\<rparr>)
     else (True, db))"

definition sqlite3SafetyOff :: "connection \<Rightarrow> bool \<times> connection" where
  "sqlite3SafetyOff db =
    (if db_magic db = MAGIC_BUSY then (False, db\<lparr>db_magic := MAGIC_OPEN\<rparr>)
     else (True, db\<lparr>db_magic := MAGIC_ERROR, isInterrupted := True\<rparr>))"

definition sqlite3SafetyCheckOk :: "connection option \<Rightarrow> bool" where
  "sqlite3SafetyCheckOk db =
    (case db of None \<Rightarrow> False
     | Some db \<Rightarrow> \<not> (db_magic db \<noteq> MAGIC_OPEN \<and> db_magic db \<noteq> MAGIC_BUSY))"

definition sqlite3SafetyCheckSickOrOk :: "connection option \<Rightarrow> bool" where
  "sqlite3SafetyCheckSickOrOk db =
    (case db of None \<Rightarrow> False
     | Some db \<Rightarrow> \<not> (db_magic db \<noteq> MAGIC_SICK \<and> db_magic db \<noteq> MAGIC_OPEN \<and> db_magic db \<noteq> MAGIC_BUSY))"

section \<open>Lemmas: comparison\<close>

abbreviation fold_case :: "string \<Rightarrow> nat list" where
  "fold_case \<equiv> map sqlite3UpperToLower"

lemma UpperToLower_0 [simp]: "sqlite3UpperToLower c = 0 \<longleftrightarrow> c = NUL"
  using ord_eq_0 [of c] by (auto simp: sqlite3UpperToLower_def simp del: ord_eq_0)

lemma UpperToLower_pos [simp]: "0 < sqlite3UpperToLower c \<longleftrightarrow> c \<noteq> NUL"
  using UpperToLower_0 [of c] by linarith

lemma StrICmp_zero: "cstr a \<Longrightarrow> cstr b \<Longrightarrow> sqlite3StrICmp a b = 0 \<longleftrightarrow> fold_case a = fold_case b"
proof (induction a arbitrary: b)
  case Nil
  then show ?case by (cases b) auto
next
  case (Cons x a)
  then show ?case by (cases b) auto
qed

lemma StrICmp_swap: "cstr a \<Longrightarrow> cstr b \<Longrightarrow> sqlite3StrICmp b a = - sqlite3StrICmp a b"
proof (induction a arbitrary: b)
  case Nil
  then show ?case by (cases b) auto
next
  case (Cons x a)
  then show ?case by (cases b) auto
qed

lemma StrICmp_neg: "cstr a \<Longrightarrow> cstr b \<Longrightarrow> sqlite3StrICmp a b < 0 \<longleftrightarrow> ord_class.lexordp (fold_case a) (fold_case b)"
proof (induction a arbitrary: b)
  case Nil
  then show ?case by (cases b) auto
next
  case (Cons x a)
  then show ?case by (cases b) auto
qed

lemma StrNICmp_take:
  "cstr a \<Longrightarrow> cstr b \<Longrightarrow> sqlite3StrNICmp a b n = 0 \<longleftrightarrow> fold_case (take n a) = fold_case (take n b)"
proof (induction n arbitrary: a b)
  case 0
  then show ?case by simp
next
  case (Suc n)
  then show ?case by (cases a; cases b) auto
qed

section \<open>Lemmas: numbers\<close>

abbreviation digit :: "char \<Rightarrow> nat" where "digit c \<equiv> ordc c - 48"

definition digits_val :: "string \<Rightarrow> nat" where
  "digits_val ds = foldl (\<lambda>v c. 10 * v + digit c) 0 ds"

lemma digits_val_foldl: "foldl (\<lambda>v c. 10 * v + digit c) a ds = a * 10 ^ length ds + digits_val ds"
proof (induction ds arbitrary: a)
  case Nil
  then show ?case by (simp add: digits_val_def)
next
  case (Cons c ds)
  show ?case
    using Cons [of "10 * a + digit c"] Cons [of "digit c"]
    by (simp add: digits_val_def algebra_simps)
qed

lemma digits_val_simps [simp]:
  "digits_val [] = 0"
  "digits_val (c # ds) = digit c * 10 ^ length ds + digits_val ds"
  "digits_val (ds @ [c]) = 10 * digits_val ds + digit c"
  using digits_val_foldl [of "digit c" ds] by (simp_all add: digits_val_def)

lemma digits_val_less: "\<forall>c \<in> set ds. sqlite3Isdigit c \<Longrightarrow> digits_val ds < 10 ^ length ds"
proof (induction ds)
  case (Cons c ds)
  then have "digit c \<le> 9" by (auto simp: sqlite3Isdigit_def)
  then have "digit c * 10 ^ length ds \<le> 9 * 10 ^ length ds" by (rule mult_le_mono1)
  moreover have "digits_val ds < 10 ^ length ds" using Cons by simp
  ultimately show ?case by (simp only: digits_val_simps length_Cons power_Suc)
qed simp

lemma digits_val_zeros: "digits_val (dropWhile (\<lambda>c. c = CHR ''0'') ds) = digits_val ds"
  by (induction ds) auto

lemma digits_val_ge: "ds \<noteq> [] \<Longrightarrow> hd ds \<noteq> CHR ''0'' \<Longrightarrow> \<forall>c \<in> set ds. sqlite3Isdigit c \<Longrightarrow>
  10 ^ (length ds - 1) \<le> digits_val ds"
proof (cases ds)
  case (Cons c cs)
  assume *: "hd ds \<noteq> CHR ''0''" "\<forall>c \<in> set ds. sqlite3Isdigit c"
  have "ordc c \<noteq> 48" using *(1) Cons of_char_eq_iff [where 'a = nat, of c "CHR ''0''"]
    by (simp del: of_char_eq_iff)
  then have "1 \<le> digit c" using *(2) Cons by (auto simp: sqlite3Isdigit_def)
  then have "1 * 10 ^ length cs \<le> digit c * 10 ^ length cs" by (rule mult_le_mono1)
  then show ?thesis unfolding Cons by (simp only: digits_val_simps length_Cons diff_Suc_1)
qed simp

text \<open>On digit strings of one length, \<^verbatim>\<open>memcmp\<close> compares the values.\<close>

lemma memcmp_digits:
  "length a = n \<Longrightarrow> length b = n \<Longrightarrow> \<forall>c \<in> set a \<union> set b. sqlite3Isdigit c \<Longrightarrow>
   (memcmp (a @ x) (b @ y) n < 0 \<longleftrightarrow> digits_val a < digits_val b) \<and>
   (memcmp (a @ x) (b @ y) n = 0 \<longleftrightarrow> digits_val a = digits_val b)"
proof (induction n arbitrary: a b)
  case 0
  then show ?case by simp
next
  case (Suc n)
  then obtain c a' d b' where ab: "a = c # a'" "b = d # b'" and len: "length a' = n" "length b' = n"
    by (auto simp: length_Suc_conv)
  have cd: "48 \<le> ordc c" "48 \<le> ordc d" using Suc.prems(3) ab by (auto simp: sqlite3Isdigit_def)
  have less: "digits_val a' < 10 ^ n" "digits_val b' < 10 ^ n"
    using Suc.prems(3) ab len digits_val_less [of a'] digits_val_less [of b'] by auto
  show ?case
  proof (cases "c = d")
    case True
    with Suc ab len show ?thesis by auto
  next
    case False
    have ne: "ordc c \<noteq> ordc d" using False of_char_eq_iff [where 'a = nat, of c d] by simp
    have lt: "digits_val (u # us) < digits_val (w # ws)"
      if "ordc u < ordc w" "48 \<le> ordc u" "digits_val us < 10 ^ n" "length us = n" "length ws = n" for u us w ws
    proof -
      have "Suc (digit u) \<le> digit w" using that by linarith
      then have "Suc (digit u) * 10 ^ n \<le> digit w * 10 ^ n" by (rule mult_le_mono1)
      with that show ?thesis by simp
    qed
    from ne consider "ordc c < ordc d" | "ordc d < ordc c" by linarith
    then show ?thesis
    proof cases
      case 1
      with lt [of c d a' b'] cd less len ab False show ?thesis by simp
    next
      case 2
      with lt [of d c b' a'] cd less len ab False show ?thesis by simp
    qed
  qed
qed

lemma compare2pow63_digits:
  assumes len: "length ds = 19" and ds: "\<forall>c \<in> set ds. sqlite3Isdigit c"
  shows "(compare2pow63 ds < 0 \<longleftrightarrow> digits_val ds < 2 ^ 63) \<and> (compare2pow63 ds \<le> 0 \<longleftrightarrow> digits_val ds \<le> 2 ^ 63)"
proof -
  define a where "a = take 18 ds"
  define c where "c = ds ! 18"
  have ds_ac: "ds = a @ [c]"
    using len by (simp add: a_def c_def) (metis append_eq_conv_conj Cons_nth_drop_Suc append_take_drop_id drop_all le_refl lessI numeral_eq_Suc pred_numeral_simps)
  let ?k = "''922337203685477580''"
  have a: "length a = 18" "\<forall>c \<in> set a. sqlite3Isdigit c" and c: "sqlite3Isdigit c"
    using len ds ds_ac by auto
  have k: "length ?k = 18" "\<forall>c \<in> set ?k. sqlite3Isdigit c" "digits_val ?k = 922337203685477580"
    by (simp_all add: sqlite3Isdigit_def)
  have m: "(memcmp ds ?k 18 < 0 \<longleftrightarrow> digits_val a < 922337203685477580) \<and>
      (memcmp ds ?k 18 = 0 \<longleftrightarrow> digits_val a = 922337203685477580)"
    using memcmp_digits [OF a(1) k(1), of "[c]" "[]"] a k ds_ac by auto
  have dig: "ordc c = 48 + digit c" "digit c \<le> 9" using c by (auto simp: sqlite3Isdigit_def)
  have v: "digits_val ds = 10 * digits_val a + digit c" by (simp add: ds_ac)
  have h: "hd0 (drop 18 ds) = c" using ds_ac a by simp
  show ?thesis
    using m dig unfolding compare2pow63_def Let_def h v by auto
qed

lemma dropWhile_zeros_hd: "dropWhile (\<lambda>c. c = CHR ''0'') z = c # r \<Longrightarrow> c \<noteq> CHR ''0''"
  using hd_dropWhile [of "\<lambda>c. c = CHR ''0''" z] by auto

abbreviation isdig :: "char \<Rightarrow> bool" where "isdig c \<equiv> 48 \<le> ordc c \<and> ordc c \<le> 57"

lemma isdig_Isdigit: "isdig c \<longleftrightarrow> sqlite3Isdigit c"
  by (simp add: sqlite3Isdigit_def)

lemma i64_linear: "i64 (i64 w * p + q) = i64 (w * p + q)"
proof (rule i64_cong)
  obtain k where k: "i64 w = w + 2 ^ 64 * k"
    using i64_mod [of w] by (metis mod_eqE)
  have "i64 w * p + q = w * p + q + 2 ^ 64 * (k * p)"
    unfolding k by (simp add: algebra_simps)
  then show "(i64 w * p + q) mod 2 ^ 64 = (w * p + q) mod 2 ^ 64"
    by (simp only: mod_mult_self2)
qed

lemma isdig_digit: "isdig c \<Longrightarrow> \<exists>d. ordc c = 48 + d"
  by (metis le_Suc_ex)

lemma atoi_loop_run:
  "atoi_loop v i z =
    (let ds = takeWhile sqlite3Isdigit z in
     (if ds = [] then v else i64 (v * 10 ^ length ds + int (digits_val ds)), i + length ds,
      hd0 (dropWhile sqlite3Isdigit z)))"
proof (induction v i z rule: atoi_loop.induct)
  case (1 v i)
  then show ?case by simp
next
  case (2 v i c z)
  show ?case
  proof (cases "isdig c")
    case True
    let ?ds = "takeWhile sqlite3Isdigit z"
    have c: "sqlite3Isdigit c" using True by (simp add: sqlite3Isdigit_def)
    obtain d where d: "ordc c = 48 + d" using True isdig_digit by blast
    let ?w = "v * 10 + int d"
    have dw: "v * 10 + int (ordc c) - 48 = ?w" by (simp add: d)
    have step: "atoi_loop v i (c # z) = atoi_loop (i64 ?w) (Suc i) z"
      by (simp only: atoi_loop.simps if_P [OF True] dw)
    have IH: "atoi_loop v i (c # z) =
        (if ?ds = [] then i64 ?w else i64 (i64 ?w * 10 ^ length ?ds + int (digits_val ?ds)), Suc i + length ?ds,
         hd0 (dropWhile sqlite3Isdigit z))"
      using 2 [OF True] unfolding step dw by (simp add: Let_def)
    have "v * 10 ^ length (c # ?ds) + int (digits_val (c # ?ds)) = ?w * 10 ^ length ?ds + int (digits_val ?ds)"
      by (simp add: d algebra_simps)
    show ?thesis unfolding IH using c i64_linear [of ?w "10 ^ length ?ds" "int (digits_val ?ds)"]
      by (simp add: d algebra_simps)
  next
    case False
    then have "\<not> sqlite3Isdigit c" by (simp add: sqlite3Isdigit_def)
    then show ?thesis unfolding atoi_loop.simps if_not_P [OF False] by simp
  qed
qed

lemma getint_loop_run:
  "i \<le> 11 \<Longrightarrow> 0 \<le> v \<Longrightarrow> v < 10 ^ i \<Longrightarrow> getint_loop v i z =
    (let ds = take (11 - i) (takeWhile sqlite3Isdigit z) in
     (v * 10 ^ length ds + int (digits_val ds), i + length ds))"
proof (induction v i z rule: getint_loop.induct)
  case (1 v i)
  then show ?case by simp
next
  case (2 v i c z)
  show ?case
  proof (cases "i < 11 \<and> isdig c")
    case True
    obtain d where d: "ordc c = 48 + d" using True isdig_digit by blast
    let ?w = "v * 10 + int d"
    have dw: "v * 10 + (int (ordc c) - 48) = ?w" by (simp add: d)
    have c: "sqlite3Isdigit c" using True by (simp add: sqlite3Isdigit_def)
    have w: "0 \<le> ?w" "?w < 10 ^ Suc i" using 2 True d by auto
    have "(10::int) ^ Suc i \<le> 10 ^ 11" using True by (intro power_increasing) auto
    then have id: "i64 ?w = ?w" using w by (intro i64_id) simp_all
    obtain k where k: "11 - i = Suc k" "11 - Suc i = k" using True by (cases "11 - i") auto
    let ?ds = "take k (takeWhile sqlite3Isdigit z)"
    have cond: "i < 11 \<and> 0 \<le> int (ordc c) - 48 \<and> int (ordc c) - 48 \<le> 9" using True by auto
    have step: "getint_loop v i (c # z) = getint_loop ?w (Suc i) z"
      by (simp only: getint_loop.simps if_P [OF cond] dw id)
    have "getint_loop v i (c # z) = (?w * 10 ^ length ?ds + int (digits_val ?ds), Suc i + length ?ds)"
      using 2(1) [OF cond] w True unfolding step dw id k by (simp add: Let_def)
    moreover have "v * 10 ^ length (c # ?ds) + int (digits_val (c # ?ds)) = ?w * 10 ^ length ?ds + int (digits_val ?ds)"
      by (simp add: d algebra_simps)
    ultimately show ?thesis using c by (simp only: k takeWhile.simps if_True take_Suc_Cons Let_def length_Cons) simp
  next
    case False
    then show ?thesis using 2 by (auto simp: sqlite3Isdigit_def Let_def)
  qed
qed

definition int64_literal :: "string \<Rightarrow> int option" where
  "int64_literal z =
    (let z = dropWhile sqlite3Isspace z;
         neg = (z \<noteq> [] \<and> hd z = CHR ''-'');
         ds = (if z \<noteq> [] \<and> (hd z = CHR ''-'' \<or> hd z = CHR ''+'') then tl z else z);
         n = (if neg then - int (digits_val ds) else int (digits_val ds))
     in if ds \<noteq> [] \<and> list_all sqlite3Isdigit ds \<and> - (2 ^ 63) \<le> n \<and> n < 2 ^ 63 then Some n else None)"

lemma hd0_eq: "c \<noteq> NUL \<Longrightarrow> hd0 z = c \<longleftrightarrow> z \<noteq> [] \<and> hd z = c"
  by (cases z) auto

lemma dropWhile_zeros_digits:
  "list_all sqlite3Isdigit (dropWhile (\<lambda>c. c = CHR ''0'') z) \<longleftrightarrow> list_all sqlite3Isdigit z"
  by (induction z) (auto simp: sqlite3Isdigit_def)

text \<open>The length test and the comparison with $2^{63}$ decide the range, without leading zeros.\<close>

definition in_range64 :: "string \<Rightarrow> bool \<Rightarrow> bool" where
  "in_range64 ds neg \<longleftrightarrow> (if neg then digits_val ds \<le> 2 ^ 63 else digits_val ds < 2 ^ 63)"

lemma range_check:
  assumes all: "list_all sqlite3Isdigit r" and nz: "r \<noteq> [] \<Longrightarrow> hd r \<noteq> CHR ''0''"
  shows "(if length r < 19 then True else if 19 < length r then False
      else compare2pow63 r < (if neg then 1 else 0)) \<longleftrightarrow> in_range64 r neg"
proof -
  have small: "digits_val r < 10 ^ length r"
    using all by (intro digits_val_less) (simp add: list_all_iff)
  consider (lt) "length r < 19" | (eq) "length r = 19" | (gt) "19 < length r" by linarith
  then show ?thesis
  proof cases
    case lt
    then have "(10::nat) ^ length r \<le> 10 ^ 18" by (intro power_increasing) auto
    with small have "digits_val r < 2 ^ 63" by simp
    with lt show ?thesis by (simp add: in_range64_def)
  next
    case eq
    then show ?thesis
      using compare2pow63_digits [of r] all by (auto simp: list_all_iff in_range64_def)
  next
    case gt
    then have "r \<noteq> []" by auto
    with nz all have "10 ^ (length r - 1) \<le> digits_val r"
      by (intro digits_val_ge) (auto simp: list_all_iff)
    moreover have "(10::nat) ^ 19 \<le> 10 ^ (length r - 1)" using gt by (intro power_increasing) auto
    ultimately have "10 ^ 19 \<le> digits_val r" by (rule order_trans [rotated])
    with gt show ?thesis by (simp add: in_range64_def)
  qed
qed

text \<open>What the code does after the sign: \<open>r\<close> is the text without leading zeros.\<close>

lemma atoi_tail:
  assumes r: "r = dropWhile (\<lambda>c. c = CHR ''0'') zs" and zs: "cstr zs"
    and run: "atoi_loop 0 0 r = (v, i, c)"
    and ok: "ok = (if c \<noteq> NUL \<or> (i = 0 \<and> length zs = length r) \<or> 19 < i then False
        else if i < 19 then True else compare2pow63 r < (if neg then 1 else 0))"
  shows "ok \<longleftrightarrow> zs \<noteq> [] \<and> list_all sqlite3Isdigit zs \<and> in_range64 zs neg"
    and "ok \<Longrightarrow> v = i64 (int (digits_val zs))"
proof -
  let ?ds = "takeWhile sqlite3Isdigit r"
  have r0: "cstr r" using zs unfolding r cstr_def by (meson set_dropWhileD)
  have v: "v = i64 (int (digits_val ?ds))" and i: "i = length ?ds" and c: "c = hd0 (dropWhile sqlite3Isdigit r)"
    using run unfolding atoi_loop_run Let_def by (auto simp: i64_def split: if_splits)
  have "c = NUL \<longleftrightarrow> dropWhile sqlite3Isdigit r = []"
    using r0 unfolding c by (intro hd0_NUL) (auto simp: cstr_def dest: set_dropWhileD)
  then have cN: "c = NUL \<longleftrightarrow> list_all sqlite3Isdigit r"
    by (simp add: list_all_iff)
  have valr: "digits_val r = digits_val zs" unfolding r by (rule digits_val_zeros)
  have allr: "list_all sqlite3Isdigit r \<longleftrightarrow> list_all sqlite3Isdigit zs"
    unfolding r by (rule dropWhile_zeros_digits)
  have nz: "r \<noteq> [] \<Longrightarrow> hd r \<noteq> CHR ''0''" unfolding r by (rule hd_dropWhile)
  have nil: "zs = [] \<Longrightarrow> r = []" using r by simp
  have main: "ok \<longleftrightarrow> zs \<noteq> [] \<and> in_range64 r neg" if all: "list_all sqlite3Isdigit r"
  proof -
    have "?ds = r" using all by (simp add: list_all_iff)
    then have len: "i = length r" using i by argo
    have "ok \<longleftrightarrow> zs \<noteq> [] \<and> (if length r < 19 then True else if 19 < length r then False
        else compare2pow63 r < (if neg then 1 else 0))"
      using ok cN all nil unfolding len by auto
    then show ?thesis using range_check [OF all nz, of neg] by argo
  qed
  show okiff: "ok \<longleftrightarrow> zs \<noteq> [] \<and> list_all sqlite3Isdigit zs \<and> in_range64 zs neg"
  proof (cases "list_all sqlite3Isdigit r")
    case True
    then show ?thesis using main allr valr by (simp add: in_range64_def)
  next
    case False
    then show ?thesis using ok cN allr by auto
  qed
  show "v = i64 (int (digits_val zs))" if ok
  proof -
    have "?ds = r" using okiff that allr by (simp add: list_all_iff)
    then show ?thesis using v valr by argo
  qed
qed

lemma FitsIn64_digits:
  assumes "list_all sqlite3Isdigit ds" "ds \<noteq> []" "s = [] \<or> s = ''+'' \<or> s = ''-''"
  shows "sqlite3FitsIn64Bits (s @ ds) negFlag \<longleftrightarrow> in_range64 ds ((s = ''-'') \<noteq> negFlag)"
proof -
  let ?r = "dropWhile (\<lambda>c. c = CHR ''0'') ds"
  have isdig: "isdig = sqlite3Isdigit" by (auto simp: sqlite3Isdigit_def)
  have all: "list_all sqlite3Isdigit ?r" using assms(1) by (simp only: dropWhile_zeros_digits)
  then have run: "takeWhile isdig ?r = ?r" unfolding isdig by (simp add: list_all_iff)
  have nz: "?r \<noteq> [] \<Longrightarrow> hd ?r \<noteq> CHR ''0''" by (rule hd_dropWhile)
  have sgn: "hd0 (s @ ds) = CHR ''-'' \<longleftrightarrow> s = ''-''"
      "(if hd0 (s @ ds) = CHR ''-'' \<or> hd0 (s @ ds) = CHR ''+'' then tl (s @ ds) else s @ ds) = ds"
    using assms by (auto simp: neq_Nil_conv sqlite3Isdigit_def)
  have "sqlite3FitsIn64Bits (s @ ds) negFlag \<longleftrightarrow>
      (if length ?r < 19 then True else if 19 < length ?r then False
       else compare2pow63 ?r < (if (s = ''-'') \<noteq> negFlag then 1 else 0))"
    unfolding sqlite3FitsIn64Bits_def Let_def sgn(2) unfolding sgn(1) run by auto
  also have "\<dots> \<longleftrightarrow> in_range64 ?r ((s = ''-'') \<noteq> negFlag)" by (rule range_check [OF all nz])
  finally show ?thesis by (simp add: in_range64_def digits_val_zeros)
qed

lemma i64_neg: "i64 (- i64 x) = i64 (- x)"
  using i64_linear [of x "-1" 0] by simp

lemma Atoi64_correct:
  assumes z: "cstr z" and run: "sqlite3Atoi64 z = (ok, n)"
  shows "(ok \<longleftrightarrow> int64_literal z \<noteq> None) \<and> (\<forall>m. int64_literal z = Some m \<longrightarrow> n = m)"
proof -
  define y where "y = dropWhile sqlite3Isspace z"
  define neg where "neg = (hd0 y = CHR ''-'')"
  define zs where "zs = (if hd0 y = CHR ''-'' \<or> hd0 y = CHR ''+'' then tl y else y)"
  define r where "r = dropWhile (\<lambda>c. c = CHR ''0'') zs"
  obtain v i c where loop: "atoi_loop 0 0 r = (v, i, c)" by (cases "atoi_loop 0 0 r") auto
  have "cstr y" using z unfolding y_def cstr_def by (meson set_dropWhileD)
  then have zs: "cstr zs" unfolding zs_def cstr_def by (cases y) auto
  have ok: "ok = (if c \<noteq> NUL \<or> (i = 0 \<and> length zs = length r) \<or> 19 < i then False
        else if i < 19 then True else compare2pow63 r < (if neg then 1 else 0))"
    and n: "n = (if neg then i64 (- v) else v)"
    using run loop unfolding sqlite3Atoi64_def Let_def r_def zs_def neg_def y_def by auto
  note tail = atoi_tail [OF r_def zs loop ok]
  have lit: "int64_literal z = (if zs \<noteq> [] \<and> list_all sqlite3Isdigit zs \<and> in_range64 zs neg
      then Some (if neg then - int (digits_val zs) else int (digits_val zs)) else None)"
    unfolding int64_literal_def Let_def zs_def neg_def y_def [symmetric] in_range64_def
    by (cases y) auto
  show ?thesis
  proof (cases ok)
    case True
    then have "v = i64 (int (digits_val zs))" using tail by blast
    moreover have "in_range64 zs neg" using True tail(1) by blast
    ultimately have "n = (if neg then - int (digits_val zs) else int (digits_val zs))"
      unfolding n in_range64_def by (auto simp: i64_neg intro!: i64_id)
    with True tail(1) show ?thesis unfolding lit by auto
  next
    case False
    then show ?thesis using tail(1) unfolding lit by auto
  qed
qed

definition int32_prefix :: "string \<Rightarrow> int option" where
  "int32_prefix z =
    (let neg = (z \<noteq> [] \<and> hd z = CHR ''-'');
         ds = takeWhile sqlite3Isdigit (if z \<noteq> [] \<and> (hd z = CHR ''-'' \<or> hd z = CHR ''+'') then tl z else z);
         n = (if neg then - int (digits_val ds) else int (digits_val ds))
     in if - (2 ^ 31) \<le> n \<and> n < 2 ^ 31 then Some n else None)"

lemma takeWhile_dropWhile_zeros:
  "takeWhile sqlite3Isdigit (dropWhile (\<lambda>c. c = CHR ''0'') z) = dropWhile (\<lambda>c. c = CHR ''0'') (takeWhile sqlite3Isdigit z)"
  by (induction z) (auto simp: sqlite3Isdigit_def)

lemma GetInt32_correct: "sqlite3GetInt32 z = int32_prefix z"
proof -
  define neg where "neg = (hd0 z = CHR ''-'')"
  define zs where "zs = (if hd0 z = CHR ''-'' \<or> hd0 z = CHR ''+'' then tl z else z)"
  define ds where "ds = takeWhile sqlite3Isdigit (dropWhile (\<lambda>c. c = CHR ''0'') zs)"
  have dig: "\<forall>c \<in> set ds. sqlite3Isdigit c" unfolding ds_def by (meson set_takeWhileD)
  have val: "digits_val ds = digits_val (takeWhile sqlite3Isdigit zs)"
    unfolding ds_def takeWhile_dropWhile_zeros by (rule digits_val_zeros)
  have loop: "getint_loop 0 0 (dropWhile (\<lambda>c. c = CHR ''0'') zs) = (int (digits_val (take 11 ds)), length (take 11 ds))"
    using getint_loop_run [of 0 0] by (simp add: Let_def ds_def)
  have code: "sqlite3GetInt32 z = (if 10 < length (take 11 ds) then None
       else if 2147483647 < int (digits_val (take 11 ds)) - (if neg then 1 else 0) then None
       else Some (i32 (if neg then - int (digits_val (take 11 ds)) else int (digits_val (take 11 ds)))))"
    using loop unfolding sqlite3GetInt32_def Let_def zs_def neg_def by simp
  have spec: "int32_prefix z = (let n = (if neg then - int (digits_val ds) else int (digits_val ds))
     in if - (2 ^ 31) \<le> n \<and> n < 2 ^ 31 then Some n else None)"
    unfolding int32_prefix_def Let_def val neg_def zs_def by (cases z) auto
  show ?thesis
  proof (cases "length ds \<le> 10")
    case True
    then have "take 11 ds = ds" by simp
    with True show ?thesis unfolding code spec Let_def by (auto intro!: i32_id)
  next
    case False
    then have ne: "ds \<noteq> []" by auto
    have "hd ds \<noteq> CHR ''0''"
      using ne unfolding ds_def takeWhile_dropWhile_zeros by (rule hd_dropWhile)
    then have "10 ^ (length ds - 1) \<le> digits_val ds" using ne dig by (intro digits_val_ge)
    moreover have "(10::nat) ^ 10 \<le> 10 ^ (length ds - 1)" using False by (intro power_increasing) auto
    ultimately have "10 ^ 10 \<le> digits_val ds" by linarith
    then have "(10000000000::int) \<le> int (digits_val ds)" by simp
    with False show ?thesis unfolding code spec Let_def by auto
  qed
qed

text \<open>Hexadecimal: the digits of a byte, in either case.\<close>

definition hexval :: "char \<Rightarrow> nat" where
  "hexval c = (if ordc c \<le> 57 then ordc c - 48 else if ordc c \<le> 70 then ordc c - 55 else ordc c - 87)"

lemma hexToInt_val: "sqlite3Isxdigit c \<Longrightarrow> hexToInt c = of_nat (hexval c)"
proof -
  assume "sqlite3Isxdigit c"
  then have "ordc c \<in> {48..57} \<union> {65..70} \<union> {97..102}" by (auto simp: sqlite3Isxdigit_def)
  moreover have "\<forall>n \<in> {48..57} \<union> {65..70} \<union> {97..102}.
     (let h = of_nat n :: 32 word; h = h + 9 * (1 AND drop_bit 6 h) in ucast (h AND 0xf) :: u8) =
     of_nat (if n \<le> 57 then n - 48 else if n \<le> 70 then n - 55 else n - 87)"
    by (simp add: atLeastAtMost_insertL [symmetric] atLeastAtMost_upt upt_conv_Cons) 
  ultimately show ?thesis unfolding hexToInt_def hexval_def by blast
qed

lemma hexval_less: "sqlite3Isxdigit c \<Longrightarrow> hexval c < 16"
  by (auto simp: sqlite3Isxdigit_def hexval_def)

lemma nibbles: "a < 16 \<Longrightarrow> b < 16 \<Longrightarrow> push_bit 4 (of_nat a) OR of_nat b = (of_nat (16 * a + b) :: u8)"
proof -
  assume "a < 16" "b < 16"
  moreover have "\<forall>a < 16. \<forall>b < 16. push_bit 4 (of_nat a) OR of_nat b = (of_nat (16 * a + b) :: u8)"
    by (simp add: all_less_numeral)
  ultimately show ?thesis by blast
qed

lemma hex_loop_bytes:
  "hex_loop (2 * int (length (cs::(char\<times>char) list))) (concat (map (\<lambda>(h, l). [h, l]) cs) @ q) =
   map (\<lambda>(h, l). push_bit 4 (hexToInt h) OR hexToInt l) cs @ [0]"
proof (induction cs)
  case Nil
  then show ?case by (cases q rule: remdups_adj.cases) auto
next
  case (Cons c cs)
  then show ?case by (cases c) (simp add: algebra_simps)
qed


lemma HexToBlob_bytes:
  assumes "\<forall>(h, l) \<in> set cs. sqlite3Isxdigit h \<and> sqlite3Isxdigit l"
  shows "hex_loop (2 * int (length cs)) (concat (map (\<lambda>(h, l). [h, l]) cs) @ q) =
    map (\<lambda>(h, l). of_nat (16 * hexval h + hexval l)) cs @ [0]"
  unfolding hex_loop_bytes using assms
  by (auto simp: hexToInt_val nibbles hexval_less)

text \<open>Quoting doubles the closing quote inside the text.\<close>

fun quote_body :: "char \<Rightarrow> string \<Rightarrow> string" where
  "quote_body q [] = []"
| "quote_body q (c # z) = (if c = q then [q, q] else [c]) @ quote_body q z"

lemma dequote_quote_body:
  "hd0 rest \<noteq> q \<Longrightarrow> dequote_loop q (quote_body q z @ q # rest) out = (rev out @ z, True)"
  by (induction z arbitrary: out) auto

lemma Dequote_quoted:
  assumes "(open_q, q) \<in> {(CHR 0x27, CHR 0x27), (CHR 0x22, CHR 0x22), (CHR 0x60, CHR 0x60), (CHR ''['', CHR '']'')}"
    and "hd0 rest \<noteq> q"
  shows "sqlite3Dequote (open_q # quote_body q z @ q # rest) = z"
  using assms dequote_quote_body [of rest q z "[]"]
  by (auto simp: sqlite3Dequote_def Let_def)

section \<open>IsNumber\<close>

definition opt_sign :: "string \<Rightarrow> bool" where
  "opt_sign s \<longleftrightarrow> s = [] \<or> s = ''+'' \<or> s = ''-''"

definition digits1 :: "string \<Rightarrow> bool" where
  "digits1 ds \<longleftrightarrow> ds \<noteq> [] \<and> list_all sqlite3Isdigit ds"

lemma skip_digits_utf8: "skip_digits UTF8 z = dropWhile sqlite3Isdigit z"
proof (induction z)
  case Nil
  then show ?case by (subst skip_digits.simps) simp
next
  case (Cons c z)
  then show ?case by (subst skip_digits.simps) simp
qed

lemma digits_run:
  "digits1 ds \<Longrightarrow> \<not> sqlite3Isdigit (hd0 r) \<Longrightarrow>
    sqlite3Isdigit (hd0 (ds @ r)) \<and> skip_digits UTF8 (drop 1 (ds @ r)) = r \<and> skip_digits UTF8 (ds @ r) = r"
proof -
  assume *: "digits1 ds" "\<not> sqlite3Isdigit (hd0 r)"
  have "dropWhile sqlite3Isdigit r = r" using *(2) by (cases r) auto
  moreover obtain d ds' where "ds = d # ds'" "sqlite3Isdigit d" "list_all sqlite3Isdigit ds'"
    using *(1) by (cases ds) (auto simp: digits1_def)
  ultimately show ?thesis by (simp add: skip_digits_utf8 dropWhile_append list_all_iff)
qed

lemma hd0_digit_split:
  assumes "sqlite3Isdigit (hd0 z)"
  obtains ds r where "z = ds @ r" "digits1 ds" "\<not> sqlite3Isdigit (hd0 r)"
proof
  show "z = takeWhile sqlite3Isdigit z @ dropWhile sqlite3Isdigit z" by simp
  show "digits1 (takeWhile sqlite3Isdigit z)"
    using assms by (cases z) (auto simp: digits1_def list_all_iff dest: set_takeWhileD)
  show "\<not> sqlite3Isdigit (hd0 (dropWhile sqlite3Isdigit z))"
    by (metis class_NUL(2) hd0_simps hd_dropWhile list.collapse)
qed

definition exponent :: "string \<Rightarrow> bool" where
  "exponent x \<longleftrightarrow> (\<exists>c s ds. x = c # s @ ds \<and> (c = CHR ''e'' \<or> c = CHR ''E'') \<and> opt_sign s \<and> digits1 ds)"

definition number_text :: "string \<Rightarrow> bool \<Rightarrow> bool" where
  "number_text z real \<longleftrightarrow> (\<exists>s ds f x. z = s @ ds @ f @ x \<and> opt_sign s \<and> digits1 ds \<and>
     (f = [] \<or> (\<exists>fd. f = CHR ''.'' # fd \<and> digits1 fd)) \<and> (x = [] \<or> exponent x) \<and>
     real = (f \<noteq> [] \<or> x \<noteq> []))"

lemma digit_not_sign: "sqlite3Isdigit c \<Longrightarrow> c \<notin> {CHR ''+'', CHR ''-'', CHR ''.'', CHR ''e'', CHR ''E'', NUL}"
  by (auto simp: sqlite3Isdigit_def)

abbreviation after_sign :: "string \<Rightarrow> string" where
  "after_sign z \<equiv> (if hd0 z = CHR ''-'' \<or> hd0 z = CHR ''+'' then drop (incr UTF8) z else z)"

lemma after_sign_digits: "opt_sign s \<Longrightarrow> digits1 ds \<Longrightarrow> after_sign (s @ ds @ r) = ds @ r"
  using digit_not_sign [of "hd ds"] by (cases ds) (auto simp: opt_sign_def digits1_def)

lemma after_sign_split: obtains s y where "after_sign z = y" "z = s @ y" "opt_sign s"
proof (cases "hd0 z = CHR ''-'' \<or> hd0 z = CHR ''+''")
  case True
  then obtain c y where "z = c # y" "c = CHR ''-'' \<or> c = CHR ''+''" by (cases z) auto
  with that [of y "[c]"] show ?thesis by (auto simp: opt_sign_def)
next
  case False
  with that [of z "[]"] show ?thesis by (simp add: opt_sign_def)
qed

lemma isnumber_exp_iff:
  assumes "cstr z"
  shows "isnumber_exp UTF8 z real = (True, Some b) \<longleftrightarrow> (z = [] \<and> b = real) \<or> (exponent z \<and> b)"
proof
  assume *: "isnumber_exp UTF8 z real = (True, Some b)"
  show "(z = [] \<and> b = real) \<or> (exponent z \<and> b)"
  proof (cases "hd0 z = CHR ''e'' \<or> hd0 z = CHR ''E''")
    case True
    then obtain c y where z: "z = c # y" "c = CHR ''e'' \<or> c = CHR ''E''" by (cases z) auto
    have d: "sqlite3Isdigit (hd0 (after_sign y))" and n: "hd0 (skip_digits UTF8 (after_sign y)) = NUL" and b
      using * z by (auto simp: isnumber_exp_def Let_def split: if_splits)
    obtain s w where s: "after_sign y = w" "y = s @ w" "opt_sign s" by (rule after_sign_split)
    obtain ds r where r: "w = ds @ r" "digits1 ds" "\<not> sqlite3Isdigit (hd0 r)"
      using d unfolding s(1) by (rule hd0_digit_split)
    have "cstr r" using assms z s(2) r(1) by (simp add: cstr_def)
    moreover have "hd0 r = NUL" using n digits_run [OF r(2,3)] unfolding s(1) r(1) by simp
    ultimately have "y = s @ ds" using s(2) r(1) by (simp add: hd0_NUL)
    then have "exponent z" using z s r unfolding exponent_def by blast
    then show ?thesis using \<open>b\<close> by simp
  next
    case False
    then show ?thesis using * assms by (simp add: isnumber_exp_def hd0_NUL)
  qed
next
  assume *: "(z = [] \<and> b = real) \<or> (exponent z \<and> b)"
  show "isnumber_exp UTF8 z real = (True, Some b)"
  proof (cases "z = []")
    case True
    then show ?thesis using * by (simp add: isnumber_exp_def exponent_def)
  next
    case False
    then obtain c s ds where z: "z = c # s @ ds" "c = CHR ''e'' \<or> c = CHR ''E''" "opt_sign s" "digits1 ds" and b
      using * by (auto simp: exponent_def)
    have a: "after_sign (s @ ds) = ds" using after_sign_digits [OF z(3,4), of "[]"] unfolding append_Nil2 .
    have r: "sqlite3Isdigit (hd0 ds)" "skip_digits UTF8 ds = []"
      using digits_run [OF z(4), of "[]"] by simp_all
    have "isnumber_exp UTF8 (c # s @ ds) real =
        (if \<not> sqlite3Isdigit (hd0 (after_sign (s @ ds))) then (False, Some real)
         else (hd0 (skip_digits UTF8 (after_sign (s @ ds))) = NUL, Some True))"
      using z(2) by (simp add: isnumber_exp_def Let_def disj_commute)
    then show ?thesis using \<open>b\<close> unfolding a z(1) by (simp add: r)
  qed
qed

lemma IsNumber_iff:
  assumes "cstr z"
  shows "sqlite3IsNumber z UTF8 = (True, Some b) \<longleftrightarrow> number_text z b"
proof -
  obtain s w where s: "after_sign z = w" "z = s @ w" "opt_sign s" by (rule after_sign_split)
  have code: "sqlite3IsNumber z UTF8 =
     (if \<not> sqlite3Isdigit (hd0 w) then (False, None)
        else let z = skip_digits UTF8 (drop 1 w) in
          if hd0 z = CHR ''.'' then
            let z = drop 1 z in
            if \<not> sqlite3Isdigit (hd0 z) then (False, Some False)
            else isnumber_exp UTF8 (skip_digits UTF8 z) True
          else isnumber_exp UTF8 z False)"
    using s(1) by (simp add: sqlite3IsNumber_def Let_def)
  show ?thesis
  proof
    assume *: "sqlite3IsNumber z UTF8 = (True, Some b)"
    then have "sqlite3Isdigit (hd0 w)" by (auto simp: code split: if_splits)
    then obtain ds r where r: "w = ds @ r" "digits1 ds" "\<not> sqlite3Isdigit (hd0 r)"
      by (rule hd0_digit_split)
    have "cstr r" using assms s(2) r(1) by (simp add: cstr_def)
    show "number_text z b"
    proof (cases "hd0 r = CHR ''.''")
      case True
      then obtain y where y: "r = CHR ''.'' # y" by (cases r) auto
      have e: "sqlite3Isdigit (hd0 y)" "isnumber_exp UTF8 (skip_digits UTF8 y) True = (True, Some b)"
        using * digits_run [OF r(2,3)] \<open>sqlite3Isdigit (hd0 w)\<close>
        by (auto simp: code r(1) y Let_def split: if_splits)
      obtain fd x where f: "y = fd @ x" "digits1 fd" "\<not> sqlite3Isdigit (hd0 x)"
        using e(1) by (rule hd0_digit_split)
      have "cstr x" using \<open>cstr r\<close> y f by (simp add: cstr_def)
      then have "(x = [] \<or> exponent x) \<and> b"
        using e(2) digits_run [OF f(2,3)] isnumber_exp_iff [of x True b] by (auto simp: f(1))
      then show ?thesis using s r y f unfolding number_text_def
        by (intro exI [of _ s] exI [of _ ds] exI [of _ "CHR ''.'' # fd"] exI [of _ x]) auto
    next
      case False
      have "isnumber_exp UTF8 r False = (True, Some b)"
        using * digits_run [OF r(2,3)] False by (auto simp: code r(1) Let_def split: if_splits)
      then have "(r = [] \<and> \<not> b) \<or> (exponent r \<and> b)"
        using isnumber_exp_iff [OF \<open>cstr r\<close>, of False b] by auto
      then show ?thesis using s r unfolding number_text_def
        by (intro exI [of _ s] exI [of _ ds] exI [of _ "[]"] exI [of _ r]) (auto simp: exponent_def)
    qed
  next
    assume "number_text z b"
    then obtain s' ds f x where n: "z = s' @ ds @ f @ x" "opt_sign s'" "digits1 ds"
       "f = [] \<or> (\<exists>fd. f = CHR ''.'' # fd \<and> digits1 fd)" "x = [] \<or> exponent x" "b = (f \<noteq> [] \<or> x \<noteq> [])"
      unfolding number_text_def by blast
    have w: "w = ds @ f @ x" using after_sign_digits [OF n(2,3)] s(1) n(1) by metis
    have x: "\<not> sqlite3Isdigit (hd0 x)" "hd0 x \<noteq> CHR ''.''" "cstr x"
      using n(5) assms n(1) by (auto simp: exponent_def cstr_def sqlite3Isdigit_def)
    show "sqlite3IsNumber z UTF8 = (True, Some b)"
    proof (cases "f = []")
      case True
      then have "isnumber_exp UTF8 x False = (True, Some b)"
        using isnumber_exp_iff [OF x(3), of False b] n by (auto simp: exponent_def)
      then show ?thesis using digits_run [OF n(3) x(1)] x True by (simp add: code w Let_def)
    next
      case False
      then obtain fd where f: "f = CHR ''.'' # fd" "digits1 fd" using n(4) by blast
      have "isnumber_exp UTF8 x True = (True, Some b)"
        using isnumber_exp_iff [OF x(3), of True b] n False by auto
      moreover have "\<not> sqlite3Isdigit (hd0 (f @ x))" by (simp add: f sqlite3Isdigit_def)
      ultimately show ?thesis using digits_run [OF n(3), of "f @ x"] digits_run [OF f(2) x(1)]
        by (simp add: code w Let_def f(1))
    qed
  qed
qed

lemma Atoi64_digits:
  assumes "list_all sqlite3Isdigit ds" "ds \<noteq> []" "s = [] \<or> s = ''+'' \<or> s = ''-''"
  shows "fst (sqlite3Atoi64 (s @ ds)) \<longleftrightarrow> in_range64 ds (s = ''-'')"
proof -
  have nosp: "\<not> sqlite3Isspace c" if "sqlite3Isdigit c" for c
    using that by (auto simp: sqlite3Isdigit_def sqlite3Isspace_def)
  obtain d ds' where d: "ds = d # ds'" "sqlite3Isdigit d" using assms by (cases ds) auto
  have drop: "dropWhile sqlite3Isspace (s @ ds) = s @ ds"
    using assms(3) d nosp by (auto simp: sqlite3Isspace_def)
  have sgn: "d \<noteq> CHR ''-''" "d \<noteq> CHR ''+''" using d(2) by (auto simp: sqlite3Isdigit_def)
  have "NUL \<notin> set ds" using assms(1) class_NUL(2) unfolding list_all_iff by blast
  then have z: "cstr (s @ ds)" using assms(3) by (auto simp: cstr_def)
  obtain ok n where run: "sqlite3Atoi64 (s @ ds) = (ok, n)" by (cases "sqlite3Atoi64 (s @ ds)")
  have "int64_literal (s @ ds) \<noteq> None \<longleftrightarrow> in_range64 ds (s = ''-'')"
    using assms sgn d(1) unfolding int64_literal_def Let_def drop in_range64_def
    by (auto simp: hd_append simp del: digits_val_simps)
  then show ?thesis using Atoi64_correct [OF z run] run by auto
qed

section \<open>Properties\<close>

text \<open>
  \<^verbatim>\<open>sqlite3StrICmp\<close> is the comparison of the case-folded texts: 0 exactly for texts equal up to
  ASCII case, negative exactly when the left text comes first in the lexicographic order, and
  antisymmetric; the bounded \<^verbatim>\<open>sqlite3StrNICmp\<close> gives 0 exactly when the first \<open>n\<close> characters agree.
\<close>

theorem StrICmp_order:
  assumes "cstr a" and "cstr b"
  shows "(sqlite3StrICmp a b = 0 \<longleftrightarrow> fold_case a = fold_case b) \<and>
    (sqlite3StrICmp a b < 0 \<longleftrightarrow> ord_class.lexordp (fold_case a) (fold_case b)) \<and>
    sqlite3StrICmp b a = - sqlite3StrICmp a b \<and>
    (sqlite3StrNICmp a b n = 0 \<longleftrightarrow> fold_case (take n a) = fold_case (take n b))"
  using assms by (simp add: StrICmp_zero StrICmp_neg StrNICmp_take StrICmp_swap [of a b])

theorem StrICmp_order_witness:
  "sqlite3StrICmp ''SELECT'' ''select'' = 0 \<and> sqlite3StrICmp ''Abc'' ''abd'' < 0"
proof -
  have "cstr ''SELECT''" "cstr ''select''" "cstr ''Abc''" "cstr ''abd''" by simp_all
  then show ?thesis
    using StrICmp_order [of "''SELECT''" "''select''" 0] StrICmp_order [of "''Abc''" "''abd''" 0]
    by (simp add: sqlite3UpperToLower_def)
qed

text \<open>
  C39: \<^verbatim>\<open>sqlite3Atoi64\<close> accepts exactly the texts that, after leading spaces, are an optionally
  signed run of digits whose value fits in 64 bits, and then stores that value; the intermediate
  wrap-around of the accumulator never shows in an accepted result.
\<close>

theorem Atoi64_spec:
  assumes "cstr z" and "sqlite3Atoi64 z = (ok, n)"
  shows "(ok \<longleftrightarrow> int64_literal z \<noteq> None) \<and> (\<forall>m. int64_literal z = Some m \<longrightarrow> n = m)"
  using assms by (rule Atoi64_correct)

theorem Atoi64_spec_witness:
  "sqlite3Atoi64 '' -9223372036854775808'' = (True, - 9223372036854775808)"
proof -
  let ?z = "'' -9223372036854775808''"
  have z: "cstr ?z" by simp
  obtain ok n where run: "sqlite3Atoi64 ?z = (ok, n)" by (cases "sqlite3Atoi64 ?z")
  have "int64_literal ?z = Some (- 9223372036854775808)"
    by (simp add: int64_literal_def sqlite3Isspace_def sqlite3Isdigit_def)
  with Atoi64_spec [OF z run] run show ?thesis by simp
qed

text \<open>
  \<^verbatim>\<open>sqlite3FitsIn64Bits\<close> decides the range of a signed digit string, the sign flipped by
  \<^verbatim>\<open>negFlag\<close>, and without the flag it agrees with the verdict of \<^verbatim>\<open>sqlite3Atoi64\<close>.
\<close>

theorem FitsIn64Bits_range:
  assumes "list_all sqlite3Isdigit ds" and "ds \<noteq> []" and "s = [] \<or> s = ''+'' \<or> s = ''-''"
  shows "(sqlite3FitsIn64Bits (s @ ds) negFlag \<longleftrightarrow>
      (if (s = ''-'') \<noteq> negFlag then digits_val ds \<le> 2 ^ 63 else digits_val ds < 2 ^ 63)) \<and>
    fst (sqlite3Atoi64 (s @ ds)) = sqlite3FitsIn64Bits (s @ ds) False"
  using assms by (simp add: FitsIn64_digits Atoi64_digits in_range64_def)

theorem FitsIn64Bits_range_witness:
  "sqlite3FitsIn64Bits ''9223372036854775808'' True \<and> \<not> sqlite3FitsIn64Bits ''9223372036854775808'' False"
  using FitsIn64Bits_range [of "''9223372036854775808''" "[]" True]
    FitsIn64Bits_range [of "''9223372036854775808''" "[]" False]
  by (simp add: sqlite3Isdigit_def)

text \<open>
  \<^verbatim>\<open>sqlite3GetInt32\<close> returns the value of the signed digit run at the front of the text
  exactly when it fits in 32 bits, for every text; what follows the digits is ignored.
\<close>

theorem GetInt32_spec: "sqlite3GetInt32 z = int32_prefix z"
  by (rule GetInt32_correct)

text \<open>
  on UTF-8 text, \<^verbatim>\<open>sqlite3IsNumber\<close> recognises exactly the numbers
  \<open>[sign] digits [. digits] [e [sign] digits]\<close>, and reports a real number exactly when a fraction
  or an exponent is present.
\<close>

theorem IsNumber_grammar:
  assumes "cstr z"
  shows "sqlite3IsNumber z UTF8 = (True, Some real) \<longleftrightarrow> number_text z real"
  using assms by (rule IsNumber_iff)

theorem IsNumber_grammar_witness: "number_text ''-12.5e+3'' True \<and> \<not> number_text ''12.'' False"
proof -
  have "cstr ''-12.5e+3''" "cstr ''12.''" by simp_all
  moreover have "sqlite3IsNumber ''-12.5e+3'' UTF8 = (True, Some True)"
      "sqlite3IsNumber ''12.'' UTF8 = (False, Some False)"
    by (simp_all add: sqlite3IsNumber_def isnumber_exp_def skip_digits_utf8 sqlite3Isdigit_def Let_def)
  ultimately show ?thesis
    using IsNumber_grammar [of "''-12.5e+3''" True] IsNumber_grammar [of "''12.''" False] by simp
qed

text \<open>
  decoding undoes quoting. A text quoted with any of the four quote styles, its closing
  quotes doubled, is restored by \<^verbatim>\<open>sqlite3Dequote\<close>; and the pairs of hexadecimal digits of a
  blob literal give their bytes followed by a zero, in upper or lower case.
\<close>

theorem dequote_and_blob:
  assumes "(open_q, q) \<in> {(CHR 0x27, CHR 0x27), (CHR 0x22, CHR 0x22), (CHR 0x60, CHR 0x60), (CHR ''['', CHR '']'')}"
    and "hd0 rest \<noteq> q"
    and "\<forall>(h, l) \<in> set cs. sqlite3Isxdigit h \<and> sqlite3Isxdigit l"
  shows "sqlite3Dequote (open_q # quote_body q z @ q # rest) = z \<and>
    fst (sqlite3HexToBlob [] (concat (map (\<lambda>(h, l). [h, l]) cs) @ CHR 0x27 # trail) (2 * int (length cs) + 1)) =
      Some (map (\<lambda>(h, l). of_nat (16 * hexval h + hexval l)) cs @ [0])"
  using Dequote_quoted [OF assms(1,2)] HexToBlob_bytes [OF assms(3)]
  by (simp add: sqlite3HexToBlob_def)

theorem dequote_and_blob_witness:
  "sqlite3Dequote ''[a]]b] x'' = ''a]b'' \<and> fst (sqlite3HexToBlob [] (''fF0a'' @ [CHR 0x27]) 5) = Some [255, 10, 0]"
  using dequote_and_blob [of "CHR ''[''" "CHR '']''" "'' x''" "[(CHR ''f'', CHR ''F''), (CHR ''0'', CHR ''a'')]" "''a]b''" "[]"]
  by (simp add: sqlite3Isxdigit_def hexval_def)

end
