(* ===== verification/Keywords.thy ===== *)
theory Keywords
  imports SqText
begin

text \<open>
  The keyword table of \<^verbatim>\<open>keywordhash.h\<close>: a text in which the keywords overlap, a hash of the
  first and last letters and the length, and chains through \<^verbatim>\<open>aNext\<close>. The token codes are
  those of \<^verbatim>\<open>parse.h\<close>.
\<close>

section \<open>Token codes\<close>

abbreviation (input) TK_SEMI :: nat where "TK_SEMI \<equiv> 1"
abbreviation (input) TK_EXPLAIN :: nat where "TK_EXPLAIN \<equiv> 2"
abbreviation (input) TK_QUERY :: nat where "TK_QUERY \<equiv> 3"
abbreviation (input) TK_PLAN :: nat where "TK_PLAN \<equiv> 4"
abbreviation (input) TK_BEGIN :: nat where "TK_BEGIN \<equiv> 5"
abbreviation (input) TK_TRANSACTION :: nat where "TK_TRANSACTION \<equiv> 6"
abbreviation (input) TK_DEFERRED :: nat where "TK_DEFERRED \<equiv> 7"
abbreviation (input) TK_IMMEDIATE :: nat where "TK_IMMEDIATE \<equiv> 8"
abbreviation (input) TK_EXCLUSIVE :: nat where "TK_EXCLUSIVE \<equiv> 9"
abbreviation (input) TK_COMMIT :: nat where "TK_COMMIT \<equiv> 10"
abbreviation (input) TK_END :: nat where "TK_END \<equiv> 11"
abbreviation (input) TK_ROLLBACK :: nat where "TK_ROLLBACK \<equiv> 12"
abbreviation (input) TK_SAVEPOINT :: nat where "TK_SAVEPOINT \<equiv> 13"
abbreviation (input) TK_RELEASE :: nat where "TK_RELEASE \<equiv> 14"
abbreviation (input) TK_TO :: nat where "TK_TO \<equiv> 15"
abbreviation (input) TK_CREATE :: nat where "TK_CREATE \<equiv> 16"
abbreviation (input) TK_TABLE :: nat where "TK_TABLE \<equiv> 17"
abbreviation (input) TK_IF :: nat where "TK_IF \<equiv> 18"
abbreviation (input) TK_NOT :: nat where "TK_NOT \<equiv> 19"
abbreviation (input) TK_EXISTS :: nat where "TK_EXISTS \<equiv> 20"
abbreviation (input) TK_TEMP :: nat where "TK_TEMP \<equiv> 21"
abbreviation (input) TK_LP :: nat where "TK_LP \<equiv> 22"
abbreviation (input) TK_RP :: nat where "TK_RP \<equiv> 23"
abbreviation (input) TK_AS :: nat where "TK_AS \<equiv> 24"
abbreviation (input) TK_COMMA :: nat where "TK_COMMA \<equiv> 25"
abbreviation (input) TK_ID :: nat where "TK_ID \<equiv> 26"
abbreviation (input) TK_ABORT :: nat where "TK_ABORT \<equiv> 27"
abbreviation (input) TK_AFTER :: nat where "TK_AFTER \<equiv> 28"
abbreviation (input) TK_ANALYZE :: nat where "TK_ANALYZE \<equiv> 29"
abbreviation (input) TK_ASC :: nat where "TK_ASC \<equiv> 30"
abbreviation (input) TK_ATTACH :: nat where "TK_ATTACH \<equiv> 31"
abbreviation (input) TK_BEFORE :: nat where "TK_BEFORE \<equiv> 32"
abbreviation (input) TK_BY :: nat where "TK_BY \<equiv> 33"
abbreviation (input) TK_CASCADE :: nat where "TK_CASCADE \<equiv> 34"
abbreviation (input) TK_CAST :: nat where "TK_CAST \<equiv> 35"
abbreviation (input) TK_COLUMNKW :: nat where "TK_COLUMNKW \<equiv> 36"
abbreviation (input) TK_CONFLICT :: nat where "TK_CONFLICT \<equiv> 37"
abbreviation (input) TK_DATABASE :: nat where "TK_DATABASE \<equiv> 38"
abbreviation (input) TK_DESC :: nat where "TK_DESC \<equiv> 39"
abbreviation (input) TK_DETACH :: nat where "TK_DETACH \<equiv> 40"
abbreviation (input) TK_EACH :: nat where "TK_EACH \<equiv> 41"
abbreviation (input) TK_FAIL :: nat where "TK_FAIL \<equiv> 42"
abbreviation (input) TK_FOR :: nat where "TK_FOR \<equiv> 43"
abbreviation (input) TK_IGNORE :: nat where "TK_IGNORE \<equiv> 44"
abbreviation (input) TK_INITIALLY :: nat where "TK_INITIALLY \<equiv> 45"
abbreviation (input) TK_INSTEAD :: nat where "TK_INSTEAD \<equiv> 46"
abbreviation (input) TK_LIKE_KW :: nat where "TK_LIKE_KW \<equiv> 47"
abbreviation (input) TK_MATCH :: nat where "TK_MATCH \<equiv> 48"
abbreviation (input) TK_KEY :: nat where "TK_KEY \<equiv> 49"
abbreviation (input) TK_OF :: nat where "TK_OF \<equiv> 50"
abbreviation (input) TK_OFFSET :: nat where "TK_OFFSET \<equiv> 51"
abbreviation (input) TK_PRAGMA :: nat where "TK_PRAGMA \<equiv> 52"
abbreviation (input) TK_RAISE :: nat where "TK_RAISE \<equiv> 53"
abbreviation (input) TK_REPLACE :: nat where "TK_REPLACE \<equiv> 54"
abbreviation (input) TK_RESTRICT :: nat where "TK_RESTRICT \<equiv> 55"
abbreviation (input) TK_ROW :: nat where "TK_ROW \<equiv> 56"
abbreviation (input) TK_TRIGGER :: nat where "TK_TRIGGER \<equiv> 57"
abbreviation (input) TK_VACUUM :: nat where "TK_VACUUM \<equiv> 58"
abbreviation (input) TK_VIEW :: nat where "TK_VIEW \<equiv> 59"
abbreviation (input) TK_VIRTUAL :: nat where "TK_VIRTUAL \<equiv> 60"
abbreviation (input) TK_REINDEX :: nat where "TK_REINDEX \<equiv> 61"
abbreviation (input) TK_RENAME :: nat where "TK_RENAME \<equiv> 62"
abbreviation (input) TK_CTIME_KW :: nat where "TK_CTIME_KW \<equiv> 63"
abbreviation (input) TK_OR :: nat where "TK_OR \<equiv> 65"
abbreviation (input) TK_AND :: nat where "TK_AND \<equiv> 66"
abbreviation (input) TK_IS :: nat where "TK_IS \<equiv> 67"
abbreviation (input) TK_BETWEEN :: nat where "TK_BETWEEN \<equiv> 68"
abbreviation (input) TK_IN :: nat where "TK_IN \<equiv> 69"
abbreviation (input) TK_ISNULL :: nat where "TK_ISNULL \<equiv> 70"
abbreviation (input) TK_NOTNULL :: nat where "TK_NOTNULL \<equiv> 71"
abbreviation (input) TK_NE :: nat where "TK_NE \<equiv> 72"
abbreviation (input) TK_EQ :: nat where "TK_EQ \<equiv> 73"
abbreviation (input) TK_GT :: nat where "TK_GT \<equiv> 74"
abbreviation (input) TK_LE :: nat where "TK_LE \<equiv> 75"
abbreviation (input) TK_LT :: nat where "TK_LT \<equiv> 76"
abbreviation (input) TK_GE :: nat where "TK_GE \<equiv> 77"
abbreviation (input) TK_ESCAPE :: nat where "TK_ESCAPE \<equiv> 78"
abbreviation (input) TK_BITAND :: nat where "TK_BITAND \<equiv> 79"
abbreviation (input) TK_BITOR :: nat where "TK_BITOR \<equiv> 80"
abbreviation (input) TK_LSHIFT :: nat where "TK_LSHIFT \<equiv> 81"
abbreviation (input) TK_RSHIFT :: nat where "TK_RSHIFT \<equiv> 82"
abbreviation (input) TK_PLUS :: nat where "TK_PLUS \<equiv> 83"
abbreviation (input) TK_MINUS :: nat where "TK_MINUS \<equiv> 84"
abbreviation (input) TK_STAR :: nat where "TK_STAR \<equiv> 85"
abbreviation (input) TK_SLASH :: nat where "TK_SLASH \<equiv> 86"
abbreviation (input) TK_REM :: nat where "TK_REM \<equiv> 87"
abbreviation (input) TK_CONCAT :: nat where "TK_CONCAT \<equiv> 88"
abbreviation (input) TK_COLLATE :: nat where "TK_COLLATE \<equiv> 89"
abbreviation (input) TK_BITNOT :: nat where "TK_BITNOT \<equiv> 92"
abbreviation (input) TK_STRING :: nat where "TK_STRING \<equiv> 93"
abbreviation (input) TK_JOIN_KW :: nat where "TK_JOIN_KW \<equiv> 94"
abbreviation (input) TK_CONSTRAINT :: nat where "TK_CONSTRAINT \<equiv> 95"
abbreviation (input) TK_DEFAULT :: nat where "TK_DEFAULT \<equiv> 96"
abbreviation (input) TK_NULL :: nat where "TK_NULL \<equiv> 97"
abbreviation (input) TK_PRIMARY :: nat where "TK_PRIMARY \<equiv> 98"
abbreviation (input) TK_UNIQUE :: nat where "TK_UNIQUE \<equiv> 99"
abbreviation (input) TK_CHECK :: nat where "TK_CHECK \<equiv> 100"
abbreviation (input) TK_REFERENCES :: nat where "TK_REFERENCES \<equiv> 101"
abbreviation (input) TK_AUTOINCR :: nat where "TK_AUTOINCR \<equiv> 102"
abbreviation (input) TK_ON :: nat where "TK_ON \<equiv> 103"
abbreviation (input) TK_DELETE :: nat where "TK_DELETE \<equiv> 104"
abbreviation (input) TK_UPDATE :: nat where "TK_UPDATE \<equiv> 105"
abbreviation (input) TK_INSERT :: nat where "TK_INSERT \<equiv> 106"
abbreviation (input) TK_SET :: nat where "TK_SET \<equiv> 107"
abbreviation (input) TK_DEFERRABLE :: nat where "TK_DEFERRABLE \<equiv> 108"
abbreviation (input) TK_FOREIGN :: nat where "TK_FOREIGN \<equiv> 109"
abbreviation (input) TK_DROP :: nat where "TK_DROP \<equiv> 110"
abbreviation (input) TK_UNION :: nat where "TK_UNION \<equiv> 111"
abbreviation (input) TK_ALL :: nat where "TK_ALL \<equiv> 112"
abbreviation (input) TK_EXCEPT :: nat where "TK_EXCEPT \<equiv> 113"
abbreviation (input) TK_INTERSECT :: nat where "TK_INTERSECT \<equiv> 114"
abbreviation (input) TK_SELECT :: nat where "TK_SELECT \<equiv> 115"
abbreviation (input) TK_DISTINCT :: nat where "TK_DISTINCT \<equiv> 116"
abbreviation (input) TK_DOT :: nat where "TK_DOT \<equiv> 117"
abbreviation (input) TK_FROM :: nat where "TK_FROM \<equiv> 118"
abbreviation (input) TK_JOIN :: nat where "TK_JOIN \<equiv> 119"
abbreviation (input) TK_INDEXED :: nat where "TK_INDEXED \<equiv> 120"
abbreviation (input) TK_USING :: nat where "TK_USING \<equiv> 121"
abbreviation (input) TK_ORDER :: nat where "TK_ORDER \<equiv> 122"
abbreviation (input) TK_GROUP :: nat where "TK_GROUP \<equiv> 123"
abbreviation (input) TK_HAVING :: nat where "TK_HAVING \<equiv> 124"
abbreviation (input) TK_LIMIT :: nat where "TK_LIMIT \<equiv> 125"
abbreviation (input) TK_WHERE :: nat where "TK_WHERE \<equiv> 126"
abbreviation (input) TK_INTO :: nat where "TK_INTO \<equiv> 127"
abbreviation (input) TK_VALUES :: nat where "TK_VALUES \<equiv> 128"
abbreviation (input) TK_INTEGER :: nat where "TK_INTEGER \<equiv> 129"
abbreviation (input) TK_FLOAT :: nat where "TK_FLOAT \<equiv> 130"
abbreviation (input) TK_BLOB :: nat where "TK_BLOB \<equiv> 131"
abbreviation (input) TK_REGISTER :: nat where "TK_REGISTER \<equiv> 132"
abbreviation (input) TK_VARIABLE :: nat where "TK_VARIABLE \<equiv> 133"
abbreviation (input) TK_CASE :: nat where "TK_CASE \<equiv> 134"
abbreviation (input) TK_WHEN :: nat where "TK_WHEN \<equiv> 135"
abbreviation (input) TK_THEN :: nat where "TK_THEN \<equiv> 136"
abbreviation (input) TK_ELSE :: nat where "TK_ELSE \<equiv> 137"
abbreviation (input) TK_INDEX :: nat where "TK_INDEX \<equiv> 138"
abbreviation (input) TK_ALTER :: nat where "TK_ALTER \<equiv> 139"
abbreviation (input) TK_ADD :: nat where "TK_ADD \<equiv> 140"
abbreviation (input) TK_ILLEGAL :: nat where "TK_ILLEGAL \<equiv> 147"
abbreviation (input) TK_SPACE :: nat where "TK_SPACE \<equiv> 148"

section \<open>The tables\<close>

definition zText :: string where
  "zText =
    ''REINDEXEDESCAPEACHECKEYBEFOREIGNOREGEXPLAINSTEADDATABASELECTABLEFTHENDEFERR'' @
    ''ABLELSEXCEPTRANSACTIONATURALTERAISEXCLUSIVEXISTSAVEPOINTERSECTRIGGEREFERENC'' @
    ''ESCONSTRAINTOFFSETEMPORARYUNIQUERYATTACHAVINGROUPDATEBEGINNERELEASEBETWEENO'' @
    ''TNULLIKECASCADELETECASECOLLATECREATECURRENT_DATEDETACHIMMEDIATEJOINSERTMATC'' @
    ''HPLANALYZEPRAGMABORTVALUESVIRTUALIMITWHENWHERENAMEAFTEREPLACEANDEFAULTAUTOI'' @
    ''NCREMENTCASTCOLUMNCOMMITCONFLICTCROSSCURRENT_TIMESTAMPRIMARYDEFERREDISTINCT'' @
    ''DROPFAILFROMFULLGLOBYIFISNULLORDERESTRICTOUTERIGHTROLLBACKROWUNIONUSINGVACU'' @
    ''UMVIEWINITIALLY''"

definition aHash :: "nat list" where
  "aHash = [
    70, 99, 112, 68, 0, 43, 0, 0, 76, 0, 71, 0, 0, 41, 12, 72, 15, 0, 111, 79, 49, 106, 0,
    19, 0, 0, 116, 0, 114, 109, 0, 22, 87, 0, 9, 0, 0, 64, 65, 0, 63, 6, 0, 47, 84, 96, 0,
    113, 95, 0, 0, 44, 0, 97, 24, 0, 17, 0, 117, 48, 23, 0, 5, 104, 25, 90, 0, 0, 119, 100,
    55, 118, 52, 7, 50, 0, 85, 0, 94, 26, 0, 93, 0, 0, 0, 89, 86, 91, 82, 103, 14, 38, 102,
    0, 75, 0, 18, 83, 105, 31, 0, 115, 74, 107, 57, 45, 78, 0, 0, 88, 39, 0, 110, 0, 35, 0,
    0, 28, 0, 80, 53, 58, 0, 20, 56, 0, 51]"

definition aNext :: "nat list" where
  "aNext = [
    0, 0, 0, 0, 4, 0, 0, 0, 0, 0, 0, 0, 0, 0, 2, 0, 0, 0, 0, 0, 0, 13, 0, 0, 0, 0, 0, 0, 0,
    0, 0, 0, 0, 0, 0, 0, 0, 0, 0, 0, 0, 0, 0, 32, 21, 0, 0, 0, 42, 3, 46, 0, 0, 0, 0, 29,
    0, 0, 37, 0, 0, 0, 1, 60, 0, 0, 61, 0, 40, 0, 0, 0, 0, 0, 0, 0, 59, 0, 0, 0, 0, 30, 54,
    16, 33, 10, 0, 0, 0, 0, 0, 0, 0, 11, 66, 73, 0, 8, 0, 98, 92, 0, 101, 0, 81, 0, 69, 0,
    0, 108, 27, 36, 67, 77, 0, 34, 62, 0, 0]"

definition aLen :: "nat list" where
  "aLen = [
    7, 7, 5, 4, 6, 4, 5, 3, 6, 7, 3, 6, 6, 7, 7, 3, 8, 2, 6, 5, 4, 4, 3, 10, 4, 6, 11, 2,
    7, 5, 5, 9, 6, 9, 9, 7, 10, 10, 4, 6, 2, 3, 4, 9, 2, 6, 5, 6, 6, 5, 6, 5, 5, 7, 7, 7,
    3, 4, 4, 7, 3, 6, 4, 7, 6, 12, 6, 9, 4, 6, 5, 4, 7, 6, 5, 6, 7, 5, 4, 5, 6, 5, 7, 3, 7,
    13, 2, 2, 4, 6, 6, 8, 5, 17, 12, 7, 8, 8, 2, 4, 4, 4, 4, 4, 2, 2, 6, 5, 8, 5, 5, 8, 3,
    5, 5, 6, 4, 9, 3]"

definition aOffset :: "nat list" where
  "aOffset = [
    0, 2, 2, 8, 9, 14, 16, 20, 23, 25, 25, 29, 33, 36, 41, 46, 48, 53, 54, 59, 62, 65, 67,
    69, 78, 81, 86, 95, 96, 101, 105, 109, 117, 122, 128, 136, 142, 152, 159, 162, 162,
    165, 167, 167, 171, 176, 179, 184, 189, 194, 197, 203, 206, 210, 217, 223, 223, 226,
    229, 233, 234, 238, 244, 248, 255, 261, 273, 279, 288, 290, 296, 301, 303, 310, 315,
    320, 326, 332, 337, 341, 344, 350, 354, 361, 363, 370, 372, 374, 383, 387, 393, 399,
    407, 412, 412, 428, 435, 442, 443, 450, 454, 458, 462, 466, 469, 471, 473, 479, 483,
    491, 495, 500, 508, 511, 516, 521, 527, 531, 536]"

definition aCode :: "nat list" where
  "aCode = [
    TK_REINDEX, TK_INDEXED, TK_INDEX, TK_DESC, TK_ESCAPE, TK_EACH, TK_CHECK, TK_KEY,
    TK_BEFORE, TK_FOREIGN, TK_FOR, TK_IGNORE, TK_LIKE_KW, TK_EXPLAIN, TK_INSTEAD, TK_ADD,
    TK_DATABASE, TK_AS, TK_SELECT, TK_TABLE, TK_JOIN_KW, TK_THEN, TK_END, TK_DEFERRABLE,
    TK_ELSE, TK_EXCEPT, TK_TRANSACTION, TK_ON, TK_JOIN_KW, TK_ALTER, TK_RAISE,
    TK_EXCLUSIVE, TK_EXISTS, TK_SAVEPOINT, TK_INTERSECT, TK_TRIGGER, TK_REFERENCES,
    TK_CONSTRAINT, TK_INTO, TK_OFFSET, TK_OF, TK_SET, TK_TEMP, TK_TEMP, TK_OR, TK_UNIQUE,
    TK_QUERY, TK_ATTACH, TK_HAVING, TK_GROUP, TK_UPDATE, TK_BEGIN, TK_JOIN_KW, TK_RELEASE,
    TK_BETWEEN, TK_NOTNULL, TK_NOT, TK_NULL, TK_LIKE_KW, TK_CASCADE, TK_ASC, TK_DELETE,
    TK_CASE, TK_COLLATE, TK_CREATE, TK_CTIME_KW, TK_DETACH, TK_IMMEDIATE, TK_JOIN,
    TK_INSERT, TK_MATCH, TK_PLAN, TK_ANALYZE, TK_PRAGMA, TK_ABORT, TK_VALUES, TK_VIRTUAL,
    TK_LIMIT, TK_WHEN, TK_WHERE, TK_RENAME, TK_AFTER, TK_REPLACE, TK_AND, TK_DEFAULT,
    TK_AUTOINCR, TK_TO, TK_IN, TK_CAST, TK_COLUMNKW, TK_COMMIT, TK_CONFLICT, TK_JOIN_KW,
    TK_CTIME_KW, TK_CTIME_KW, TK_PRIMARY, TK_DEFERRED, TK_DISTINCT, TK_IS, TK_DROP,
    TK_FAIL, TK_FROM, TK_JOIN_KW, TK_LIKE_KW, TK_BY, TK_IF, TK_ISNULL, TK_ORDER,
    TK_RESTRICT, TK_JOIN_KW, TK_JOIN_KW, TK_ROLLBACK, TK_ROW, TK_UNION, TK_USING,
    TK_VACUUM, TK_VIEW, TK_INITIALLY, TK_ALL]"

text \<open>The loop along a chain; the links are numbered from 1, and 0 ends the chain.\<close>

fun keyword_loop :: "nat \<Rightarrow> nat \<Rightarrow> string \<Rightarrow> nat \<Rightarrow> nat option" where
  "keyword_loop 0 k z n = None"
| "keyword_loop (Suc f) k z n =
    (if k = 0 then Some TK_ID
     else let i = k - 1 in
       if aLen ! i = n \<and> sqlite3StrNICmp (drop (aOffset ! i) zText) z n = 0 then Some (aCode ! i)
       else keyword_loop f (aNext ! i) z n)"

definition keyword_hash :: "string \<Rightarrow> nat \<Rightarrow> nat" where
  "keyword_hash z n =
    ((sqlite3UpperToLower (z ! 0) * 4) XOR (sqlite3UpperToLower (z ! (n - 1)) * 3) XOR n) mod 127"

abbreviation (input) KEYWORD_FUEL :: nat where "KEYWORD_FUEL \<equiv> 8"

definition keywordCode :: "string \<Rightarrow> nat \<Rightarrow> nat option" where
  "keywordCode z n =
    (if n < 2 then Some TK_ID else keyword_loop KEYWORD_FUEL (aHash ! keyword_hash z n) z n)"

section \<open>The keywords\<close>

definition keyword_table :: "(string \<times> nat) list" where
  "keyword_table = [
    (''REINDEX'', TK_REINDEX), (''INDEXED'', TK_INDEXED), (''INDEX'', TK_INDEX),
    (''DESC'', TK_DESC), (''ESCAPE'', TK_ESCAPE), (''EACH'', TK_EACH),
    (''CHECK'', TK_CHECK), (''KEY'', TK_KEY), (''BEFORE'', TK_BEFORE),
    (''FOREIGN'', TK_FOREIGN), (''FOR'', TK_FOR), (''IGNORE'', TK_IGNORE),
    (''REGEXP'', TK_LIKE_KW), (''EXPLAIN'', TK_EXPLAIN), (''INSTEAD'', TK_INSTEAD),
    (''ADD'', TK_ADD), (''DATABASE'', TK_DATABASE), (''AS'', TK_AS),
    (''SELECT'', TK_SELECT), (''TABLE'', TK_TABLE), (''LEFT'', TK_JOIN_KW),
    (''THEN'', TK_THEN), (''END'', TK_END), (''DEFERRABLE'', TK_DEFERRABLE),
    (''ELSE'', TK_ELSE), (''EXCEPT'', TK_EXCEPT), (''TRANSACTION'', TK_TRANSACTION),
    (''ON'', TK_ON), (''NATURAL'', TK_JOIN_KW), (''ALTER'', TK_ALTER),
    (''RAISE'', TK_RAISE), (''EXCLUSIVE'', TK_EXCLUSIVE), (''EXISTS'', TK_EXISTS),
    (''SAVEPOINT'', TK_SAVEPOINT), (''INTERSECT'', TK_INTERSECT),
    (''TRIGGER'', TK_TRIGGER), (''REFERENCES'', TK_REFERENCES),
    (''CONSTRAINT'', TK_CONSTRAINT), (''INTO'', TK_INTO), (''OFFSET'', TK_OFFSET),
    (''OF'', TK_OF), (''SET'', TK_SET), (''TEMP'', TK_TEMP), (''TEMPORARY'', TK_TEMP),
    (''OR'', TK_OR), (''UNIQUE'', TK_UNIQUE), (''QUERY'', TK_QUERY),
    (''ATTACH'', TK_ATTACH), (''HAVING'', TK_HAVING), (''GROUP'', TK_GROUP),
    (''UPDATE'', TK_UPDATE), (''BEGIN'', TK_BEGIN), (''INNER'', TK_JOIN_KW),
    (''RELEASE'', TK_RELEASE), (''BETWEEN'', TK_BETWEEN), (''NOTNULL'', TK_NOTNULL),
    (''NOT'', TK_NOT), (''NULL'', TK_NULL), (''LIKE'', TK_LIKE_KW),
    (''CASCADE'', TK_CASCADE), (''ASC'', TK_ASC), (''DELETE'', TK_DELETE),
    (''CASE'', TK_CASE), (''COLLATE'', TK_COLLATE), (''CREATE'', TK_CREATE),
    (''CURRENT_DATE'', TK_CTIME_KW), (''DETACH'', TK_DETACH),
    (''IMMEDIATE'', TK_IMMEDIATE), (''JOIN'', TK_JOIN), (''INSERT'', TK_INSERT),
    (''MATCH'', TK_MATCH), (''PLAN'', TK_PLAN), (''ANALYZE'', TK_ANALYZE),
    (''PRAGMA'', TK_PRAGMA), (''ABORT'', TK_ABORT), (''VALUES'', TK_VALUES),
    (''VIRTUAL'', TK_VIRTUAL), (''LIMIT'', TK_LIMIT), (''WHEN'', TK_WHEN),
    (''WHERE'', TK_WHERE), (''RENAME'', TK_RENAME), (''AFTER'', TK_AFTER),
    (''REPLACE'', TK_REPLACE), (''AND'', TK_AND), (''DEFAULT'', TK_DEFAULT),
    (''AUTOINCREMENT'', TK_AUTOINCR), (''TO'', TK_TO), (''IN'', TK_IN),
    (''CAST'', TK_CAST), (''COLUMN'', TK_COLUMNKW), (''COMMIT'', TK_COMMIT),
    (''CONFLICT'', TK_CONFLICT), (''CROSS'', TK_JOIN_KW),
    (''CURRENT_TIMESTAMP'', TK_CTIME_KW), (''CURRENT_TIME'', TK_CTIME_KW),
    (''PRIMARY'', TK_PRIMARY), (''DEFERRED'', TK_DEFERRED), (''DISTINCT'', TK_DISTINCT),
    (''IS'', TK_IS), (''DROP'', TK_DROP), (''FAIL'', TK_FAIL), (''FROM'', TK_FROM),
    (''FULL'', TK_JOIN_KW), (''GLOB'', TK_LIKE_KW), (''BY'', TK_BY), (''IF'', TK_IF),
    (''ISNULL'', TK_ISNULL), (''ORDER'', TK_ORDER), (''RESTRICT'', TK_RESTRICT),
    (''OUTER'', TK_JOIN_KW), (''RIGHT'', TK_JOIN_KW), (''ROLLBACK'', TK_ROLLBACK),
    (''ROW'', TK_ROW), (''UNION'', TK_UNION), (''USING'', TK_USING),
    (''VACUUM'', TK_VACUUM), (''VIEW'', TK_VIEW), (''INITIALLY'', TK_INITIALLY),
    (''ALL'', TK_ALL)]"

section \<open>The table is the one the code reads\<close>

text \<open>The entries of \<^verbatim>\<open>aOffset\<close> ascend, so that one walk over the text reads all keywords.\<close>

fun keyword_walk :: "nat \<Rightarrow> string \<Rightarrow> (nat \<times> nat \<times> nat) list \<Rightarrow> (string \<times> nat) list" where
  "keyword_walk p t [] = []"
| "keyword_walk p t ((ofs, l, c) # r) =
    (take l (drop (ofs - p) t), c) # keyword_walk ofs (drop (ofs - p) t) r"

lemma keyword_walk_map:
  "sorted (p # map fst r) \<Longrightarrow> keyword_walk p (drop p t) r = map (\<lambda>(ofs, l, c). (take l (drop ofs t), c)) r"
  by (induction p "drop p t" r rule: keyword_walk.induct) auto

lemma table_lengths: "length aHash = 127" "length aNext = 119" "length aLen = 119" "length aOffset = 119" "length aCode = 119"
  by (simp_all add: aHash_def aNext_def aLen_def aOffset_def aCode_def)

lemma walk_table: "keyword_walk 0 zText (zip aOffset (zip aLen aCode)) = keyword_table"
  by (simp add: zText_def aOffset_def aLen_def aCode_def keyword_table_def)

fun keyword_chain :: "nat \<Rightarrow> nat \<Rightarrow> nat list option" where
  "keyword_chain 0 k = None"
| "keyword_chain (Suc f) k =
    (if k = 0 then Some []
     else case keyword_chain f (aNext ! (k - 1)) of None \<Rightarrow> None | Some is \<Rightarrow> Some ((k - 1) # is))"

lemma chain_step: "keyword_chain (numeral f) k =
    (if k = 0 then Some []
     else case keyword_chain (pred_numeral f) (aNext ! (k - 1)) of None \<Rightarrow> None | Some is \<Rightarrow> Some ((k - 1) # is))"
  by (simp add: numeral_eq_Suc)

lemma table_chains: "map (keyword_chain KEYWORD_FUEL) aHash = [
    Some [69], Some [98], Some [111, 35], Some [67], Some [], Some [42], Some [], Some [],
    Some [75], Some [], Some [70], Some [], Some [], Some [40], Some [11], Some [71],
    Some [14, 1], Some [], Some [110, 26], Some [78], Some [48, 41], Some [105], Some [],
    Some [18], Some [], Some [], Some [115, 33], Some [], Some [113, 76, 58, 36],
    Some [108], Some [], Some [21, 12], Some [86], Some [], Some [8], Some [], Some [],
    Some [63, 59], Some [64], Some [], Some [62, 0], Some [5], Some [], Some [46],
    Some [83, 15], Some [95, 72], Some [], Some [112, 66, 60], Some [94, 65], Some [],
    Some [], Some [43, 31], Some [], Some [96], Some [23], Some [], Some [16], Some [],
    Some [116, 61], Some [47], Some [22], Some [], Some [4, 3], Some [103], Some [24],
    Some [89], Some [], Some [], Some [118], Some [99, 97, 7], Some [54], Some [117],
    Some [51], Some [6], Some [49, 2], Some [], Some [84, 32], Some [], Some [93, 10],
    Some [25], Some [], Some [92], Some [], Some [], Some [], Some [88], Some [85, 9],
    Some [90], Some [81, 29], Some [102, 100, 91], Some [13], Some [37], Some [101],
    Some [], Some [74], Some [], Some [17], Some [82, 53], Some [104, 80], Some [30],
    Some [], Some [114], Some [73], Some [106, 68, 39], Some [56], Some [44, 20],
    Some [77], Some [], Some [], Some [87], Some [38], Some [], Some [109, 107], Some [],
    Some [34], Some [], Some [], Some [27], Some [], Some [79], Some [52], Some [57],
    Some [], Some [19], Some [55, 28], Some [], Some [50, 45]]"
  by (simp add: aHash_def aNext_def chain_step)

lemma table_hashes: "map (\<lambda>w. keyword_hash (fst w) (length (fst w))) keyword_table = [
    40, 16, 74, 62, 62, 41, 73, 69, 34, 86, 78, 14, 31, 90, 16, 44, 56, 96, 23, 123, 105,
    31, 60, 54, 64, 79, 18, 117, 124, 88, 99, 51, 76, 26, 114, 2, 28, 91, 110, 103, 13, 20,
    5, 51, 105, 126, 43, 59, 20, 74, 126, 72, 120, 97, 70, 124, 104, 121, 28, 37, 47, 58,
    40, 37, 38, 48, 47, 3, 103, 0, 10, 15, 45, 102, 94, 8, 28, 106, 19, 119, 98, 88, 97,
    44, 76, 86, 32, 109, 85, 65, 87, 89, 81, 78, 48, 45, 53, 69, 1, 69, 89, 92, 89, 63, 98,
    21, 103, 112, 29, 112, 18, 2, 47, 28, 101, 26, 58, 71, 68]"
  by (simp add: keyword_table_def keyword_hash_def sqlite3UpperToLower_def Suc_numeral flip: numeral_2_eq_2)

text \<open>Distinct words, by a checksum of their letters.\<close>

fun letter_sum :: "nat \<Rightarrow> nat list \<Rightarrow> nat" where
  "letter_sum a [] = a"
| "letter_sum a (c # w) = letter_sum ((a * 31 + c) mod 1241) w"

lemma table_sums: "map (letter_sum 0 \<circ> (fold_case \<circ> fst)) keyword_table = [
    28, 1240, 47, 904, 179, 299, 830, 594, 425, 238, 1056, 846, 612, 599, 1109, 860, 753,
    640, 522, 619, 574, 994, 50, 1193, 194, 159, 165, 1069, 1088, 16, 924, 60, 127, 1041,
    283, 1053, 300, 990, 944, 956, 1061, 831, 843, 871, 1073, 681, 715, 509, 636, 772, 565,
    221, 964, 630, 163, 402, 59, 9, 835, 88, 83, 650, 778, 231, 297, 169, 61, 668, 329,
    251, 1230, 963, 618, 190, 510, 524, 652, 745, 1015, 665, 188, 1215, 1051, 1170, 258,
    872, 1225, 883, 793, 92, 980, 186, 1086, 500, 306, 507, 595, 674, 888, 876, 496, 887,
    1194, 81, 677, 875, 350, 130, 869, 635, 1214, 570, 183, 310, 307, 951, 737, 96, 1116]"
  by (simp add: keyword_table_def sqlite3UpperToLower_def)

lemma table_distinct: "distinct (map (fold_case \<circ> fst) keyword_table)"
proof -
  have "distinct (map (letter_sum 0 \<circ> (fold_case \<circ> fst)) keyword_table)"
    unfolding table_sums by simp
  then show ?thesis by (metis distinct_map map_map)
qed

lemma table_sorted: "sorted (0 # aOffset)"
proof -
  have "successively (\<le>) (0 # aOffset)" by (simp add: aOffset_def)
  then show ?thesis by (simp only: successively_conv_sorted_wrt transp_on_le)
qed

lemma table_long: "list_all (\<lambda>w. 2 \<le> length (fst w)) keyword_table"
  by (simp add: keyword_table_def)

lemma table_len: "map (\<lambda>w. length (fst w)) keyword_table = aLen"
  by (simp add: aLen_def keyword_table_def)

section \<open>The hash is perfect\<close>

definition keyword_match :: "string \<Rightarrow> nat \<Rightarrow> nat \<Rightarrow> bool" where
  "keyword_match z n i \<longleftrightarrow> fold_case (fst (keyword_table ! i)) = fold_case (take n z)"

lemma table_length: "length keyword_table = 119"
  using table_len table_lengths(3) by (metis length_map)

lemma table_nth:
  assumes "i < 119"
  shows "keyword_table ! i = (take (aLen ! i) (drop (aOffset ! i) zText), aCode ! i)" and "length (fst (keyword_table ! i)) = aLen ! i"
proof -
  have t: "keyword_table = map (\<lambda>(ofs, l, c). (take l (drop ofs zText), c)) (zip aOffset (zip aLen aCode))"
    using keyword_walk_map [of 0 "zip aOffset (zip aLen aCode)" zText] table_sorted table_lengths
    by (simp flip: walk_table)
  show "keyword_table ! i = (take (aLen ! i) (drop (aOffset ! i) zText), aCode ! i)"
    by (subst t) (use assms table_lengths in simp)
  show "length (fst (keyword_table ! i)) = aLen ! i"
    using assms table_len table_length by (metis nth_map)
qed

lemma text_cstr: "cstr zText"
  by (simp add: zText_def)

lemma cstr_drop: "cstr z \<Longrightarrow> cstr (drop k z)"
  using set_drop_subset by (fastforce simp: cstr_def)

lemma match_iff:
  assumes "i < 119" "cstr z" "n \<le> length z"
  shows "aLen ! i = n \<and> sqlite3StrNICmp (drop (aOffset ! i) zText) z n = 0 \<longleftrightarrow> keyword_match z n i"
proof -
  have w: "fst (keyword_table ! i) = take (aLen ! i) (drop (aOffset ! i) zText)" "length (fst (keyword_table ! i)) = aLen ! i"
    using table_nth [OF assms(1)] by simp_all
  have "keyword_match z n i \<Longrightarrow> aLen ! i = n"
    using w(2) assms(3) unfolding keyword_match_def by (metis length_map length_take min.absorb2)
  moreover have "sqlite3StrNICmp (drop (aOffset ! i) zText) z n = 0 \<longleftrightarrow>
      fold_case (take n (drop (aOffset ! i) zText)) = fold_case (take n z)"
    by (rule StrNICmp_take) (simp_all add: cstr_drop text_cstr assms)
  ultimately show ?thesis using w(1) unfolding keyword_match_def by metis
qed

lemma loop_chain:
  assumes "cstr z" "n \<le> length z"
  shows "keyword_chain f k = Some is \<Longrightarrow> \<forall>i \<in> set is. i < 119 \<Longrightarrow>
    keyword_loop f k z n = Some (case find (keyword_match z n) is of None \<Rightarrow> TK_ID | Some i \<Rightarrow> aCode ! i)"
proof (induction f arbitrary: k "is")
  case (Suc f)
  show ?case
  proof (cases "k = 0")
    case False
    then obtain js where js: "keyword_chain f (aNext ! (k - 1)) = Some js" "is = (k - 1) # js"
      using Suc.prems(1) by (auto split: option.splits)
    have k: "k - 1 < 119" using Suc.prems(2) js(2) by simp
    have "keyword_loop f (aNext ! (k - 1)) z n = Some (case find (keyword_match z n) js of None \<Rightarrow> TK_ID | Some i \<Rightarrow> aCode ! i)"
      by (rule Suc.IH [OF js(1)]) (use Suc.prems(2) js(2) in simp)
    then show ?thesis
      using False js(2) match_iff [OF k assms] by (simp add: Let_def)
  qed (use Suc.prems in simp)
qed simp

lemma chains_nth: "h < 127 \<Longrightarrow> \<exists>is. keyword_chain KEYWORD_FUEL (aHash ! h) = Some is \<and> (\<forall>i \<in> set is. i < 119)"
proof -
  assume h: "h < 127"
  have "list_all (\<lambda>c. \<exists>is. c = Some is \<and> (\<forall>i \<in> set is. i < 119)) (map (keyword_chain KEYWORD_FUEL) aHash)"
    unfolding table_chains by simp
  then show ?thesis using h table_lengths(1) by (auto simp: list_all_length)
qed

lemma hash_chain: "i < 119 \<Longrightarrow> \<exists>is. keyword_chain KEYWORD_FUEL (aHash ! keyword_hash (fst (keyword_table ! i)) (aLen ! i)) = Some is \<and> i \<in> set is"
proof -
  assume i: "i < 119"
  let ?hs = "map (\<lambda>w. keyword_hash (fst w) (length (fst w))) keyword_table"
  let ?cs = "map (keyword_chain KEYWORD_FUEL) aHash"
  have "list_all (\<lambda>(i, h). case ?cs ! h of None \<Rightarrow> False | Some is \<Rightarrow> i \<in> set is) (enumerate 0 ?hs)"
    unfolding table_hashes table_chains by (simp add: Suc_numeral flip: numeral_2_eq_2)
  then have "case ?cs ! (?hs ! i) of None \<Rightarrow> False | Some is \<Rightarrow> i \<in> set is"
    using i table_length by (auto simp: list_all_length nth_enumerate_eq)
  moreover have "?hs ! i = keyword_hash (fst (keyword_table ! i)) (aLen ! i)"
    using i table_length table_nth(2) by simp
  moreover have "keyword_hash z m < 127" for z m by (simp add: keyword_hash_def)
  ultimately show ?thesis using table_lengths(1) by (auto split: option.splits)
qed

lemma hash_fold:
  assumes "fold_case w = fold_case (take n z)" "n = length w" "2 \<le> n"
  shows "keyword_hash w n = keyword_hash z n"
proof -
  have nth: "j < n \<Longrightarrow> sqlite3UpperToLower (w ! j) = sqlite3UpperToLower (z ! j)" for j
    using assms by (metis length_map length_take min_less_iff_conj nth_map nth_take)
  have l: "0 < n" "n - 1 < n" using assms(3) by simp_all
  show ?thesis unfolding keyword_hash_def nth [OF l(1)] nth [OF l(2)] by (rule refl)
qed

lemma match_unique: "i < 119 \<Longrightarrow> j < 119 \<Longrightarrow> keyword_match z n i \<Longrightarrow> keyword_match z n j \<Longrightarrow> i = j"
  using nth_eq_iff_index_eq [OF table_distinct, of i j] table_length by (simp add: keyword_match_def)

lemma find_unique: "x \<in> set xs \<Longrightarrow> P x \<Longrightarrow> (\<And>y. y \<in> set xs \<Longrightarrow> P y \<Longrightarrow> y = x) \<Longrightarrow> find P xs = Some x"
proof (induction xs)
  case (Cons a xs)
  show ?case
  proof (cases "P a")
    case True
    then have "a = x" using Cons.prems(3) [of a] by simp
    then show ?thesis using True by simp
  next
    case False
    then have "x \<in> set xs" using Cons.prems(1,2) by auto
    then have "find P xs = Some x" by (rule Cons.IH [OF _ Cons.prems(2)]) (rule Cons.prems(3), simp_all)
    then show ?thesis using False by simp
  qed
qed simp

lemma find_nothing: "(\<And>y. y \<in> set xs \<Longrightarrow> \<not> P y) \<Longrightarrow> find P xs = None"
  by (auto simp: find_None_iff)

text \<open>A case-insensitive look-up of the first \<open>n\<close> characters in the table.\<close>

definition keyword_of :: "string \<Rightarrow> nat" where
  "keyword_of w =
    (case find (\<lambda>k. fold_case (fst k) = fold_case w) keyword_table of None \<Rightarrow> TK_ID | Some k \<Rightarrow> snd k)"

lemma table_entry: "k \<in> set keyword_table \<Longrightarrow> fold_case (fst k) = fold_case (take n z) \<Longrightarrow>
    \<exists>i < 119. k = keyword_table ! i \<and> keyword_match z n i"
  using table_length by (auto simp: in_set_conv_nth keyword_match_def)

lemma keywordCode_find:
  assumes "cstr z" "n \<le> length z"
  shows "keywordCode z n = Some (keyword_of (take n z))"
proof (cases "\<exists>i < 119. keyword_match z n i")
  case True
  then obtain i where i: "i < 119" "keyword_match z n i" by blast
  then have w: "fold_case (fst (keyword_table ! i)) = fold_case (take n z)" by (simp add: keyword_match_def)
  have n: "n = length (fst (keyword_table ! i))"
    using w assms(2) by (metis length_map length_take min.absorb2)
  have n2: "2 \<le> n" using table_long i(1) table_length unfolding n by (simp add: list_all_length)
  have h: "keyword_hash (fst (keyword_table ! i)) (aLen ! i) = keyword_hash z n"
    using hash_fold [OF w n n2] n table_nth(2) [OF i(1)] by simp
  obtain "is" where c: "keyword_chain KEYWORD_FUEL (aHash ! keyword_hash z n) = Some is" "i \<in> set is"
    using hash_chain [OF i(1)] unfolding h by blast
  have b: "\<forall>j \<in> set is. j < 119" using chains_nth [of "keyword_hash z n"] c(1) by (auto simp: keyword_hash_def)
  have "find (keyword_match z n) is = Some i"
    by (rule find_unique) (use c(2) i b match_unique in auto)
  then have "keywordCode z n = Some (aCode ! i)"
    using loop_chain [OF assms c(1) b] n2 by (simp add: keywordCode_def)
  moreover have "find (\<lambda>k. fold_case (fst k) = fold_case (take n z)) keyword_table = Some (keyword_table ! i)"
  proof (rule find_unique)
    show "keyword_table ! i \<in> set keyword_table" using i(1) table_length by simp
    show "fold_case (fst (keyword_table ! i)) = fold_case (take n z)" by (rule w)
    fix k assume "k \<in> set keyword_table" "fold_case (fst k) = fold_case (take n z)"
    then show "k = keyword_table ! i" using table_entry match_unique i by blast
  qed
  ultimately show ?thesis using table_nth(1) [OF i(1)] by (simp add: keyword_of_def)
next
  case False
  have "find (\<lambda>k. fold_case (fst k) = fold_case (take n z)) keyword_table = None"
    by (rule find_nothing) (use table_entry False in blast)
  then have k: "keyword_of (take n z) = TK_ID" by (simp add: keyword_of_def)
  obtain "is" where c: "keyword_chain KEYWORD_FUEL (aHash ! keyword_hash z n) = Some is" "\<forall>i \<in> set is. i < 119"
    using chains_nth [of "keyword_hash z n"] by (auto simp: keyword_hash_def)
  have "find (keyword_match z n) is = None"
    by (rule find_nothing) (use c(2) False in auto)
  then show ?thesis using loop_chain [OF assms c] k by (simp add: keywordCode_def)
qed

section \<open>Properties\<close>

text \<open>
  C13: The generated hash is perfect: for every identifier the loop along the chain ends, and it
  returns the code of the keyword that equals the identifier up to case, or \<^verbatim>\<open>TK_ID\<close> if
  there is none. The 119 keywords and their codes are those of the table.
\<close>

theorem keywordCode_perfect:
  assumes "cstr z" "n \<le> length z"
  shows "keywordCode z n = Some c \<longleftrightarrow>
    (if \<exists>k \<in> set keyword_table. fold_case (fst k) = fold_case (take n z)
     then \<exists>w. (w, c) \<in> set keyword_table \<and> fold_case w = fold_case (take n z)
     else c = TK_ID)"
proof (cases "\<exists>k \<in> set keyword_table. fold_case (fst k) = fold_case (take n z)")
  case True
  then obtain k where k: "k \<in> set keyword_table" "fold_case (fst k) = fold_case (take n z)" by blast
  have u: "k' = k" if "k' \<in> set keyword_table" "fold_case (fst k') = fold_case (take n z)" for k'
    using table_entry [OF k] table_entry [OF that] match_unique by blast
  have "find (\<lambda>k. fold_case (fst k) = fold_case (take n z)) keyword_table = Some k"
    by (rule find_unique [OF k(1)]) (rule k(2), rule u)
  then have "keywordCode z n = Some (snd k)" using keywordCode_find [OF assms] by (simp add: keyword_of_def)
  moreover have "(\<exists>w. (w, c) \<in> set keyword_table \<and> fold_case w = fold_case (take n z)) \<longleftrightarrow> c = snd k"
  proof
    assume "\<exists>w. (w, c) \<in> set keyword_table \<and> fold_case w = fold_case (take n z)"
    then obtain w where "(w, c) \<in> set keyword_table" "fold_case (fst (w, c)) = fold_case (take n z)" by auto
    from u [OF this] show "c = snd k" by auto
  next
    assume "c = snd k"
    then have "(fst k, c) \<in> set keyword_table" using k(1) by simp
    then show "\<exists>w. (w, c) \<in> set keyword_table \<and> fold_case w = fold_case (take n z)" using k(2) by blast
  qed
  ultimately show ?thesis using True by auto
next
  case False
  then have "find (\<lambda>k. fold_case (fst k) = fold_case (take n z)) keyword_table = None"
    by (intro find_nothing) blast
  then have "keywordCode z n = Some TK_ID" using keywordCode_find [OF assms] by (simp add: keyword_of_def)
  then show ?thesis using False by auto
qed

lemma keywordCode_perfect_witness:
  "keywordCode ''Select*'' 6 = Some TK_SELECT"
proof -
  have k: "(''SELECT'', TK_SELECT) \<in> set keyword_table" by (simp add: keyword_table_def)
  have f: "fold_case ''SELECT'' = fold_case (take 6 ''Select*'')" by (simp add: sqlite3UpperToLower_def)
  have z: "cstr ''Select*''" "6 \<le> length ''Select*''" by simp_all
  have "\<exists>k \<in> set keyword_table. fold_case (fst k) = fold_case (take 6 ''Select*'')"
    by (rule bexI [OF _ k]) (simp only: fst_conv f)
  moreover have "\<exists>w. (w, TK_SELECT) \<in> set keyword_table \<and> fold_case w = fold_case (take 6 ''Select*'')"
    using k f by blast
  ultimately show ?thesis using keywordCode_perfect [OF z] by meson
qed

end
