(* ===== verification/Tokenize.thy ===== *)
theory Tokenize
  imports Keywords
begin

text \<open>
  The SQL tokenizer of \<^verbatim>\<open>tokenize.c\<close>, for ASCII and the default options, and the loop of
  \<^verbatim>\<open>sqlite3RunParser\<close> that feeds its tokens to the generated parser.
\<close>

section \<open>The tokenizer\<close>

text \<open>The character of a NUL-terminated string at an index.\<close>

definition at :: "string \<Rightarrow> nat \<Rightarrow> char" where
  "at z i = (if i < length z then z ! i else NUL)"

definition IdChar :: "char \<Rightarrow> bool" where
  "IdChar c \<longleftrightarrow> 128 \<le> ordc c \<or> ordc c = 36 \<or> (48 \<le> ordc c \<and> ordc c \<le> 57) \<or> (65 \<le> ordc c \<and> ordc c \<le> 90) \<or>
     ordc c = 95 \<or> (97 \<le> ordc c \<and> ordc c \<le> 122)"

text \<open>\<^verbatim>\<open>for(; P(z[i]); i++){}\<close> for a class that does not contain the terminator.\<close>

definition scan :: "(char \<Rightarrow> bool) \<Rightarrow> string \<Rightarrow> nat \<Rightarrow> nat" where
  "scan P z i = i + length (takeWhile P (drop i z))"

lemma at_less: "at z i \<noteq> NUL \<Longrightarrow> i < length z"
  by (simp add: at_def split: if_splits)

lemma at_step: "at z i = c \<Longrightarrow> c \<noteq> NUL \<Longrightarrow> length z - Suc (Suc i) < length z - i"
  by (auto simp: at_def split: if_splits)

text \<open>The body of a C comment: index and last character read.\<close>

function comment_loop :: "string \<Rightarrow> nat \<Rightarrow> char \<Rightarrow> nat \<times> char" where
  "comment_loop z i c =
    (if c \<noteq> CHR ''*'' \<or> at z i \<noteq> CHR ''/'' then
       (let c = at z i in if c \<noteq> NUL then comment_loop z (i + 1) c else (i, c))
     else (i, c))"
  by pat_completeness auto
termination
  by (relation "measure (\<lambda>(z, i, c). length z - i)") (auto dest: at_less)

function quote_loop :: "string \<Rightarrow> char \<Rightarrow> nat \<Rightarrow> nat \<times> char" where
  "quote_loop z delim i =
    (if at z i = NUL then (i, NUL)
     else if at z i = delim then
       (if at z (i + 1) = delim then quote_loop z delim (i + 2) else (i, at z i))
     else quote_loop z delim (i + 1))"
  by pat_completeness auto
termination
  by (relation "measure (\<lambda>(z, d, i). length z - i)") (auto dest: at_less)

function bracket_loop :: "string \<Rightarrow> nat \<Rightarrow> char \<Rightarrow> nat \<times> char" where
  "bracket_loop z i c =
    (if c \<noteq> CHR '']'' then
       (let c = at z i in if c \<noteq> NUL then bracket_loop z (i + 1) c else (i, c))
     else (i, c))"
  by pat_completeness auto
termination
  by (relation "measure (\<lambda>(z, i, c). length z - i)") (auto dest: at_less)

text \<open>The loop over a variable name: index, number of name characters, token type.\<close>

function variable_loop :: "string \<Rightarrow> nat \<Rightarrow> nat \<Rightarrow> nat \<times> nat \<times> nat" where
  "variable_loop z i n =
    (if at z i = NUL then (i, n, TK_VARIABLE)
     else if IdChar (at z i) then variable_loop z (i + 1) (n + 1)
     else if at z i = CHR ''('' \<and> 0 < n then
       (let i = scan (\<lambda>c. c \<noteq> NUL \<and> \<not> sqlite3Isspace c \<and> c \<noteq> CHR '')'') z (i + 1) in
        if at z i = CHR '')'' then (i + 1, n, TK_VARIABLE) else (i, n, TK_ILLEGAL))
     else if at z i = CHR '':'' \<and> at z (i + 1) = CHR '':'' then variable_loop z (i + 2) n
     else (i, n, TK_VARIABLE))"
  by pat_completeness auto
termination
  by (relation "measure (\<lambda>(z, i, n). length z - i)") (auto dest: at_less intro: at_step)

declare comment_loop.simps [simp del] quote_loop.simps [simp del] bracket_loop.simps [simp del] variable_loop.simps [simp del]

text \<open>The cases of the switch with a loop of their own, each with length and type.\<close>

definition token_slash :: "string \<Rightarrow> nat \<times> nat" where
  "token_slash z =
    (if at z 1 \<noteq> CHR ''*'' \<or> at z 2 = NUL then (1, TK_SLASH)
     else case comment_loop z 3 (at z 2) of (i, c) \<Rightarrow> (if c \<noteq> NUL then i + 1 else i, TK_SPACE))"

definition token_quoted :: "string \<Rightarrow> nat \<times> nat" where
  "token_quoted z =
    (case quote_loop z (at z 0) 1 of (i, c) \<Rightarrow>
       if c = CHR 0x27 then (i + 1, TK_STRING)
       else if c \<noteq> NUL then (i + 1, TK_ID)
       else (i, TK_ILLEGAL))"

definition number_fraction :: "string \<Rightarrow> nat \<times> nat" where
  "number_fraction z =
    (let i = scan sqlite3Isdigit z 0 in
     if at z i = CHR ''.'' then (scan sqlite3Isdigit z (i + 1), TK_FLOAT) else (i, TK_INTEGER))"

definition number_exponent :: "string \<Rightarrow> nat \<times> nat \<Rightarrow> nat \<times> nat" where
  "number_exponent z r =
    (let i = fst r in
     if (at z i = CHR ''e'' \<or> at z i = CHR ''E'') \<and>
        (sqlite3Isdigit (at z (i + 1)) \<or>
         (at z (i + 1) = CHR ''+'' \<or> at z (i + 1) = CHR ''-'') \<and> sqlite3Isdigit (at z (i + 2)))
     then (scan sqlite3Isdigit z (i + 2), TK_FLOAT) else r)"

definition token_number :: "string \<Rightarrow> nat \<times> nat" where
  "token_number z =
    (case number_exponent z (number_fraction z) of (i, t) \<Rightarrow>
       (scan IdChar z i, if IdChar (at z i) then TK_ILLEGAL else t))"

definition token_bracket :: "string \<Rightarrow> nat \<times> nat" where
  "token_bracket z =
    (case bracket_loop z 1 (at z 0) of (i, c) \<Rightarrow> (i, if c = CHR '']'' then TK_ID else TK_ILLEGAL))"

definition token_variable :: "string \<Rightarrow> nat \<times> nat" where
  "token_variable z = (case variable_loop z 1 0 of (i, n, t) \<Rightarrow> (i, if n = 0 then TK_ILLEGAL else t))"

definition token_blob :: "string \<Rightarrow> nat \<times> nat" where
  "token_blob z =
    (let i = scan (\<lambda>c. c \<noteq> CHR 0x27) z 2; c = at z i;
         t = (if list_all sqlite3Isxdigit (drop 2 (take i z)) then TK_BLOB else TK_ILLEGAL);
         t = (if i mod 2 \<noteq> 0 \<or> c = NUL then TK_ILLEGAL else t)
     in (if c \<noteq> NUL then i + 1 else i, t))"

text \<open>Identifiers and keywords; the look-up that does not end would be the code 0.\<close>

definition token_word :: "string \<Rightarrow> nat \<times> nat" where
  "token_word z =
    (if \<not> IdChar (at z 0) then (1, TK_ILLEGAL)
     else let i = scan IdChar z 1 in (i, case keywordCode z i of Some t \<Rightarrow> t | None \<Rightarrow> 0))"

text \<open>Operators: the cases of the switch up to \<^verbatim>\<open>'~'\<close> that look at most one character ahead.\<close>

definition token_operator :: "string \<Rightarrow> (nat \<times> nat) option" where
  "token_operator z =
    (let c = at z 0; d = at z 1 in
     if c = CHR ''('' then Some (1, TK_LP)
     else if c = CHR '')'' then Some (1, TK_RP)
     else if c = CHR '';'' then Some (1, TK_SEMI)
     else if c = CHR ''+'' then Some (1, TK_PLUS)
     else if c = CHR ''*'' then Some (1, TK_STAR)
     else if c = CHR ''%'' then Some (1, TK_REM)
     else if c = CHR ''='' then Some (if d = CHR ''='' then 2 else 1, TK_EQ)
     else if c = CHR ''<'' then
       Some (if d = CHR ''='' then (2, TK_LE) else if d = CHR ''>'' then (2, TK_NE)
             else if d = CHR ''<'' then (2, TK_LSHIFT) else (1, TK_LT))
     else if c = CHR ''>'' then
       Some (if d = CHR ''='' then (2, TK_GE) else if d = CHR ''>'' then (2, TK_RSHIFT) else (1, TK_GT))
     else if c = CHR ''!'' then Some (if d \<noteq> CHR ''='' then (2, TK_ILLEGAL) else (2, TK_NE))
     else if c = CHR ''|'' then Some (if d \<noteq> CHR ''|'' then (1, TK_BITOR) else (2, TK_CONCAT))
     else if c = CHR '','' then Some (1, TK_COMMA)
     else if c = CHR ''&'' then Some (1, TK_BITAND)
     else if c = CHR ''~'' then Some (1, TK_BITNOT)
     else None)"

definition sqlite3GetToken :: "string \<Rightarrow> nat \<times> nat" where
  "sqlite3GetToken z =
    (let c = at z 0 in
     if c \<in> {CHR '' '', CHR 0x09, CHR 0x0A, CHR 0x0C, CHR 0x0D} then (scan sqlite3Isspace z 1, TK_SPACE)
     else if c = CHR ''-'' then
       (if at z 1 = CHR ''-'' then (scan (\<lambda>c. c \<noteq> CHR 0x0A) z 2, TK_SPACE) else (1, TK_MINUS))
     else if c = CHR ''/'' then token_slash z
     else case token_operator z of Some r \<Rightarrow> r | None \<Rightarrow>
       if c \<in> {CHR 0x60, CHR 0x27, CHR 0x22} then token_quoted z
       else if c = CHR ''.'' \<and> \<not> sqlite3Isdigit (at z 1) then (1, TK_DOT)
       else if c = CHR ''.'' \<or> sqlite3Isdigit c then token_number z
       else if c = CHR ''['' then token_bracket z
       else if c = CHR ''?'' then (scan sqlite3Isdigit z 1, TK_VARIABLE)
       else if c = CHR ''#'' \<and> 1 < scan sqlite3Isdigit z 1 then (scan sqlite3Isdigit z 1, TK_REGISTER)
       else if c \<in> {CHR ''#'', CHR ''$'', CHR ''@'', CHR '':''} then token_variable z
       else if (c = CHR ''x'' \<or> c = CHR ''X'') \<and> at z 1 = CHR 0x27 then token_blob z
       else token_word z)"

section \<open>The loop of the parser\<close>

datatype parse_rc = PARSE_OK | SQLITE_TOOBIG | SQLITE_INTERRUPT | PARSE_ERROR







section \<open>Token lengths\<close>

lemma scan_bounds: "i \<le> length z \<Longrightarrow> i \<le> scan P z i \<and> scan P z i \<le> length z"
proof -
  assume "i \<le> length z"
  moreover have "length (takeWhile P (drop i z)) \<le> length (drop i z)" by (rule length_takeWhile_le)
  ultimately show ?thesis by (simp add: scan_def)
qed

lemma at_scan: "\<not> P NUL \<Longrightarrow> \<not> P (at z (scan P z i))"
proof (cases "i \<le> length z")
  case True
  assume "\<not> P NUL"
  moreover have "scan P z i < length z \<Longrightarrow> \<not> P (z ! scan P z i)"
    using nth_length_takeWhile [of P "drop i z"] True by (simp add: scan_def less_diff_conv add.commute)
  ultimately show ?thesis by (simp add: at_def)
qed (simp add: scan_def at_def)

lemma comment_bounds: "comment_loop z i c = (j, d) \<Longrightarrow> i \<le> length z \<Longrightarrow> c \<noteq> NUL \<Longrightarrow>
    i \<le> j \<and> j \<le> length z \<and> (d \<noteq> NUL \<longrightarrow> j < length z)"
proof (induction z i c rule: comment_loop.induct)
  case (1 z i c)
  show ?case
  proof (cases "c \<noteq> CHR ''*'' \<or> at z i \<noteq> CHR ''/''")
    case True
    show ?thesis
    proof (cases "at z i = NUL")
      case False
      then have "i + 1 \<le> length z" using at_less by (metis Suc_eq_plus1 Suc_leI)
      then show ?thesis using 1 True False by (simp add: comment_loop.simps [of z i])
    qed (use 1 True in \<open>simp add: comment_loop.simps [of z i]\<close>)
  next
    case False
    then have "i < length z" using at_less [of z i] by simp
    then show ?thesis using 1 False by (simp add: comment_loop.simps [of z i])
  qed
qed

lemma bracket_bounds: "bracket_loop z i c = (j, d) \<Longrightarrow> i \<le> length z \<Longrightarrow> i \<le> j \<and> j \<le> length z"
proof (induction z i c rule: bracket_loop.induct)
  case (1 z i c)
  show ?case
  proof (cases "c \<noteq> CHR '']'' \<and> at z i \<noteq> NUL")
    case True
    then have "i + 1 \<le> length z" using at_less by (metis Suc_eq_plus1 Suc_leI)
    then show ?thesis using 1 True by (simp add: bracket_loop.simps [of z i])
  qed (use 1 in \<open>auto simp: bracket_loop.simps [of z i] split: if_splits\<close>)
qed

lemma quote_bounds: "quote_loop z q i = (j, d) \<Longrightarrow> i \<le> length z \<Longrightarrow> q \<noteq> NUL \<Longrightarrow>
    i \<le> j \<and> j \<le> length z \<and> (d \<noteq> NUL \<longrightarrow> j < length z)"
proof (induction z q i rule: quote_loop.induct)
  case (1 z q i)
  show ?case
  proof (cases "at z i = NUL")
    case False
    then have i: "i < length z" by (rule at_less)
    have i2: "at z (i + 1) = q \<Longrightarrow> i + 2 \<le> length z" using at_less [of z "i + 1"] 1(5) by simp
    consider "at z i = q" "at z (i + 1) = q" | "at z i = q" "at z (i + 1) \<noteq> q" | "at z i \<noteq> q" by blast
    then show ?thesis
    proof cases
      case 1
      then show ?thesis using "1.IH" "1.prems" i2 False by (simp add: quote_loop.simps [of z q i])
    next
      case 2
      then show ?thesis using "1.prems" i False by (simp add: quote_loop.simps [of z q i])
    next
      case 3
      then show ?thesis using "1.IH"(2) "1.prems" i False by (simp add: quote_loop.simps [of z q i])
    qed
  qed (use 1 in \<open>simp add: quote_loop.simps [of z q i]\<close>)
qed

lemma variable_bounds: "variable_loop z i n = (j, m, t) \<Longrightarrow> i \<le> length z \<Longrightarrow> i \<le> j \<and> j \<le> length z"
proof (induction z i n rule: variable_loop.induct)
  case (1 z i n)
  show ?case
  proof (cases "at z i = NUL")
    case False
    then have i: "i + 1 \<le> length z" using at_less by (metis Suc_eq_plus1 Suc_leI)
    have i2: "at z (i + 1) = CHR '':'' \<Longrightarrow> i + 2 \<le> length z" using at_less [of z "i + 1"] by simp
    let ?s = "scan (\<lambda>c. c \<noteq> NUL \<and> \<not> sqlite3Isspace c \<and> c \<noteq> CHR '')'') z (i + 1)"
    have s: "i + 1 \<le> ?s \<and> ?s \<le> length z" "at z ?s = CHR '')'' \<Longrightarrow> ?s + 1 \<le> length z"
      using scan_bounds [OF i] at_less [of z ?s] by auto
    show ?thesis
      using 1 False i i2 s by (subst (asm) variable_loop.simps [of z i]) (auto simp: Let_def split: if_splits)
  qed (use 1 in \<open>simp add: variable_loop.simps [of z i]\<close>)
qed


lemma at_0: "z \<noteq> [] \<Longrightarrow> at z 0 = hd z"
  by (simp add: at_def hd_conv_nth)

lemma at_1: "at z 1 \<noteq> NUL \<Longrightarrow> 2 \<le> length z"
  using at_less [of z 1] by simp

text \<open>A token is not empty and inside the text, or it is the illegal token of a final \<open>!\<close>.\<close>

definition token_fits :: "string \<Rightarrow> nat \<times> nat \<Rightarrow> bool" where
  "token_fits z r \<longleftrightarrow> 1 \<le> fst r \<and> (fst r \<le> length z \<or> z = ''!'' \<and> r = (2, TK_ILLEGAL))"

lemma scan_fits: "i \<le> length z \<Longrightarrow> 1 \<le> i \<Longrightarrow> token_fits z (scan P z i, t)"
  using scan_bounds [of i z P] by (simp add: token_fits_def)

lemma slash_fits:
  assumes "z \<noteq> []"
  shows "token_fits z (token_slash z)"
proof (cases "at z 1 \<noteq> CHR ''*'' \<or> at z 2 = NUL")
  case False
  then have "3 \<le> length z" using at_less [of z 2] by simp
  obtain j d where j: "comment_loop z 3 (at z 2) = (j, d)" by fastforce
  from comment_bounds [OF j \<open>3 \<le> length z\<close>] False show ?thesis
    using j by (auto simp: token_slash_def token_fits_def)
qed (use assms in \<open>auto simp: token_slash_def token_fits_def Suc_le_eq\<close>)

lemma quoted_fits:
  assumes "z \<noteq> []" "at z 0 \<noteq> NUL"
  shows "token_fits z (token_quoted z)"
proof -
  obtain j d where j: "quote_loop z (at z 0) 1 = (j, d)" by fastforce
  have "1 \<le> length z" using assms(1) by (cases z) auto
  from quote_bounds [OF j this assms(2)] show ?thesis
    using j by (auto simp: token_quoted_def token_fits_def)
qed

lemma number_fits:
  assumes "z \<noteq> []" "at z 0 = CHR ''.'' \<or> sqlite3Isdigit (at z 0)"
  shows "token_fits z (token_number z)"
proof -
  let ?i0 = "scan sqlite3Isdigit z 0"
  let ?i1 = "fst (number_fraction z)"
  let ?i2 = "fst (number_exponent z (number_fraction z))"
  have i0: "?i0 \<le> length z" using scan_bounds [of 0 z] by simp
  have dot: "at z ?i0 = CHR ''.'' \<Longrightarrow> ?i0 + 1 \<le> length z" using at_less [of z ?i0] by simp
  have i1: "1 \<le> ?i1 \<and> ?i1 \<le> length z"
  proof (cases "at z ?i0 = CHR ''.''")
    case True
    then show ?thesis using scan_bounds [OF dot, of sqlite3Isdigit] by (simp add: number_fraction_def Let_def)
  next
    case False
    then have "sqlite3Isdigit (hd z)" using assms by (cases z) (auto simp: scan_def at_def split: if_splits)
    then have "1 \<le> ?i0" using assms(1) by (cases z) (simp_all add: scan_def)
    then show ?thesis using i0 False by (simp add: number_fraction_def Let_def)
  qed
  have e: "?i1 + 2 \<le> length z" if "sqlite3Isdigit (at z (?i1 + 1)) \<or> sqlite3Isdigit (at z (?i1 + 2))"
  proof -
    have "at z (?i1 + 1) \<noteq> NUL \<or> at z (?i1 + 2) \<noteq> NUL" using that class_NUL(2) by metis
    then show ?thesis using at_less [of z "?i1 + 1"] at_less [of z "?i1 + 2"] by linarith
  qed
  have "?i2 = scan sqlite3Isdigit z (?i1 + 2) \<and> ?i1 + 2 \<le> length z \<or> ?i2 = ?i1"
    using e by (auto simp: number_exponent_def Let_def)
  then have i2: "1 \<le> ?i2 \<and> ?i2 \<le> length z"
    using scan_bounds [of "?i1 + 2" z sqlite3Isdigit] i1 by linarith
  have "fst (token_number z) = scan IdChar z ?i2" by (simp add: token_number_def split: prod.splits)
  then show ?thesis using scan_bounds [of ?i2 z IdChar] i2 by (simp add: token_fits_def)
qed

lemma bracket_fits: "z \<noteq> [] \<Longrightarrow> token_fits z (token_bracket z)"
proof -
  assume "z \<noteq> []"
  then have l: "1 \<le> length z" by (cases z) auto
  obtain j d where j: "bracket_loop z 1 (at z 0) = (j, d)" by fastforce
  from bracket_bounds [OF j l] show ?thesis using j by (simp add: token_bracket_def token_fits_def)
qed

lemma variable_fits: "z \<noteq> [] \<Longrightarrow> token_fits z (token_variable z)"
proof -
  assume "z \<noteq> []"
  then have l: "1 \<le> length z" by (cases z) auto
  obtain j m t where j: "variable_loop z 1 0 = (j, m, t)" by (metis prod_cases3)
  from variable_bounds [OF j l] show ?thesis using j by (simp add: token_variable_def token_fits_def)
qed

lemma blob_fits: "at z 1 \<noteq> NUL \<Longrightarrow> token_fits z (token_blob z)"
proof -
  assume "at z 1 \<noteq> NUL"
  then have l: "2 \<le> length z" by (rule at_1)
  let ?i = "scan (\<lambda>c. c \<noteq> CHR 0x27) z 2"
  have "at z ?i \<noteq> NUL \<Longrightarrow> ?i + 1 \<le> length z" using at_less [of z ?i] by simp
  then show ?thesis using scan_bounds [OF l, of "\<lambda>c. c \<noteq> CHR 0x27"] by (simp add: token_blob_def Let_def token_fits_def)
qed

lemma word_fits: "z \<noteq> [] \<Longrightarrow> token_fits z (token_word z)"
  using scan_bounds [of 1 z IdChar] by (cases z) (auto simp: token_word_def Let_def token_fits_def)

lemma operator_fits: "z \<noteq> [] \<Longrightarrow> token_operator z = Some r \<Longrightarrow> token_fits z r"
proof -
  assume z: "z \<noteq> []" and r: "token_operator z = Some r"
  from z obtain c y where y: "z = c # y" by (cases z) auto
  show ?thesis
  proof (cases y)
    case Nil
    then show ?thesis using r y
      by (auto simp: token_operator_def Let_def at_def token_fits_def split: if_splits)
  next
    case (Cons d x)
    then have "fst r = 1 \<or> fst r = 2"
      using r by (auto simp: token_operator_def Let_def split: if_splits)
    then show ?thesis using y Cons by (auto simp: token_fits_def)
  qed
qed

lemma fits_if: "(c \<Longrightarrow> token_fits z a) \<Longrightarrow> (\<not> c \<Longrightarrow> token_fits z b) \<Longrightarrow> token_fits z (if c then a else b)"
  by simp

lemma fits_case: "(\<And>r. a = Some r \<Longrightarrow> token_fits z r) \<Longrightarrow> token_fits z b \<Longrightarrow>
    token_fits z (case a of Some r \<Rightarrow> r | None \<Rightarrow> b)"
  by (cases a) auto

lemma GetToken_fits:
  assumes "cstr z" "z \<noteq> []"
  shows "token_fits z (sqlite3GetToken z)"
proof -
  have l: "1 \<le> length z" using assms(2) by (cases z) auto
  have c: "at z 0 \<noteq> NUL" using assms by (cases z) (auto simp: at_def)
  have d: "at z 1 = CHR ''-'' \<Longrightarrow> 2 \<le> length z" "at z 1 = CHR 0x27 \<Longrightarrow> at z 1 \<noteq> NUL" using at_1 [of z] by auto
  have one: "token_fits z (1, t)" for t using l by (simp add: token_fits_def)
  have scan1: "token_fits z (scan P z 1, t)" for P t using l by (simp add: scan_fits)
  show ?thesis
    unfolding sqlite3GetToken_def Let_def
    apply (rule fits_if, rule scan1)
    apply (rule fits_if, rule fits_if, rule scan_fits, erule d(1), simp, rule one)
    apply (rule fits_if, rule slash_fits [OF assms(2)])
    apply (rule fits_case, erule operator_fits [OF assms(2)])
    apply (rule fits_if, rule quoted_fits [OF assms(2) c])
    apply (rule fits_if, rule one)
    apply (rule fits_if, erule number_fits [OF assms(2)])
    apply (rule fits_if, rule bracket_fits [OF assms(2)])
    apply (rule fits_if, rule scan1)
    apply (rule fits_if, rule scan1)
    apply (rule fits_if, rule variable_fits [OF assms(2)])
    apply (rule fits_if, rule blob_fits, rule d(2), erule conjunct2)
    by (rule word_fits [OF assms(2)])
qed

section \<open>The parser loop\<close>



















section \<open>Literals and words\<close>

lemma at_append: "at (pre @ c # y) (length pre) = c" "at (pre @ y) (length pre) = hd0 y"
  by (auto simp: at_def hd0_def nth_append split: list.split)

lemma quote_loop_body:
  assumes "q \<noteq> NUL" "hd0 rest \<noteq> q"
  shows "cstr s \<Longrightarrow> quote_loop (pre @ quote_body q s @ q # rest) q (length pre) = (length pre + length (quote_body q s), q)"
proof (induction s arbitrary: pre)
  case Nil
  have "at (pre @ q # rest) (length pre + 1) = hd0 rest" using at_append(2) [of "pre @ [q]" rest] by simp
  then show ?case using assms by (subst quote_loop.simps) (simp add: at_append)
next
  case (Cons c s)
  show ?case
  proof (cases "c = q")
    case True
    have "at (pre @ q # q # quote_body q s @ q # rest) (length pre + 1) = q"
      using at_append(1) [of "pre @ [q]" q] by simp
    then have "quote_loop (pre @ quote_body q (c # s) @ q # rest) q (length pre) =
        quote_loop (pre @ quote_body q (c # s) @ q # rest) q (length pre + 2)"
      using assms True by (subst quote_loop.simps) (simp add: at_append)
    then show ?thesis using Cons.IH [of "pre @ [q, q]"] Cons.prems True by simp
  next
    case False
    have "c \<noteq> NUL" using Cons.prems by simp
    then have "quote_loop (pre @ quote_body q (c # s) @ q # rest) q (length pre) =
        quote_loop (pre @ quote_body q (c # s) @ q # rest) q (length pre + 1)"
      using False by (subst quote_loop.simps) (simp add: at_append)
    then show ?thesis using Cons.IH [of "pre @ [c]"] Cons.prems False by simp
  qed
qed

lemma scan_word: "\<forall>c \<in> set w. P c \<Longrightarrow> \<not> P NUL \<Longrightarrow> \<not> P (hd0 rest) \<Longrightarrow> i \<le> length w \<Longrightarrow> scan P (w @ rest) i = length w"
proof -
  assume w: "\<forall>c \<in> set w. P c" "\<not> P NUL" "\<not> P (hd0 rest)" "i \<le> length w"
  have "takeWhile P rest = []" using w(2,3) by (cases rest) auto
  moreover have "\<forall>c \<in> set (drop i w). P c" using w(1) by (meson in_set_dropD)
  ultimately show ?thesis using w(4) by (simp add: scan_def)
qed

lemma IdChar_NUL [simp]: "\<not> IdChar NUL"
  by (simp add: IdChar_def)

lemma GetToken_word:
  assumes w: "w \<noteq> []" "\<forall>c \<in> set w. IdChar c" and rest: "\<not> IdChar (hd0 rest)"
    and first: "\<not> sqlite3Isdigit (hd w)" "hd w \<noteq> CHR ''$''"
    and blob: "hd0 rest = CHR 0x27 \<Longrightarrow> w \<noteq> ''x'' \<and> w \<noteq> ''X''"
  shows "sqlite3GetToken (w @ rest) = token_word (w @ rest)"
proof -
  obtain c y where y: "w = c # y" using w(1) by (cases w) auto
  have c: "at (w @ rest) 0 = c" "IdChar c" using y w(2) by (simp_all add: at_def)
  then have no: "c \<noteq> CHR ''#''" "c \<noteq> CHR ''@''" "c \<noteq> CHR '':''" "c \<noteq> CHR ''?''" "c \<noteq> CHR ''[''" "c \<noteq> CHR ''.''"
    "c \<noteq> CHR 0x60" "c \<noteq> CHR 0x27" "c \<noteq> CHR 0x22" "c \<noteq> CHR ''/''" "c \<noteq> CHR ''-''" "c \<noteq> CHR '' ''" "c \<noteq> CHR 0x09"
    "c \<noteq> CHR 0x0A" "c \<noteq> CHR 0x0C" "c \<noteq> CHR 0x0D" by (auto simp: IdChar_def)
  have op: "token_operator (w @ rest) = None"
    using c by (auto simp: token_operator_def Let_def IdChar_def split: if_splits)
  have quote: "\<not> IdChar CHR 0x27" by (simp add: IdChar_def)
  have nx: "\<not> (c = CHR ''x'' \<or> c = CHR ''X'')" if "at (w @ rest) 1 = CHR 0x27"
  proof (cases y)
    case Nil
    then show ?thesis using that blob y at_append(2) [of "[c]" rest] by auto
  next
    case (Cons d x)
    then have "at (w @ rest) 1 = d" "IdChar d" using y w(2) by (simp_all add: at_def)
    then show ?thesis using that quote by metis
  qed
  have dig: "\<not> sqlite3Isdigit c" "c \<noteq> CHR ''$''" using first y by simp_all
  have nb: "((c = CHR ''x'' \<or> c = CHR ''X'') \<and> at (w @ rest) 1 = CHR 0x27) = False" using nx by blast
  show ?thesis
    unfolding sqlite3GetToken_def Let_def c(1) op nb by (simp add: no dig)
qed

section \<open>Properties\<close>

text \<open>
  C6: Every token of a NUL-terminated text is non-empty and lies inside the text, with one
  exception: for a final exclamation mark the tokenizer reports two characters where one is
  left.
\<close>

theorem token_in_bounds:
  assumes "cstr z" "z \<noteq> []"
  shows "1 \<le> fst (sqlite3GetToken z) \<and>
    (fst (sqlite3GetToken z) \<le> length z \<or> z = ''!'' \<and> sqlite3GetToken z = (2, TK_ILLEGAL))"
  using GetToken_fits [OF assms] by (simp add: token_fits_def)

lemma token_in_bounds_witness:
  "1 \<le> fst (sqlite3GetToken ''[tab le] x'') \<and> fst (sqlite3GetToken ''[tab le] x'') \<le> length ''[tab le] x''"
  using token_in_bounds [of "''[tab le] x''"] by simp




text \<open>
  A quoted text is one token, whatever follows it: its type is \<^verbatim>\<open>TK_STRING\<close> for single quotes
  and \<^verbatim>\<open>TK_ID\<close> for double quotes and grave accents, and \<^verbatim>\<open>sqlite3Dequote\<close> of exactly the
  characters of the token gives back the text.
\<close>

theorem quoted_token:
  assumes "q \<in> {CHR 0x27, CHR 0x22, CHR 0x60}" "cstr s" "hd0 rest \<noteq> q"
  shows "\<exists>n. sqlite3GetToken (q # quote_body q s @ q # rest) = (n, if q = CHR 0x27 then TK_STRING else TK_ID) \<and>
    take n (q # quote_body q s @ q # rest) = q # quote_body q s @ [q] \<and> sqlite3Dequote (q # quote_body q s @ [q]) = s"
proof -
  let ?z = "q # quote_body q s @ q # rest"
  have q: "q \<noteq> NUL" using assms(1) by auto
  have l: "quote_loop ?z q 1 = (1 + length (quote_body q s), q)"
    using quote_loop_body [OF q assms(3,2), of "[q]"] by simp
  have a: "at ?z 0 = q" by (simp add: at_def)
  have q3: "q = CHR 0x27 \<or> q = CHR 0x22 \<or> q = CHR 0x60" using assms(1) by simp
  then have op: "token_operator ?z = None"
    unfolding token_operator_def Let_def a by (elim disjE) simp_all
  from q3 have "sqlite3GetToken ?z = token_quoted ?z"
    unfolding sqlite3GetToken_def Let_def a op by (elim disjE) simp_all
  also have "\<dots> = (length (quote_body q s) + 2, if q = CHR 0x27 then TK_STRING else TK_ID)"
    using l q by (simp add: token_quoted_def a)
  finally have "sqlite3GetToken ?z = (length (quote_body q s) + 2, if q = CHR 0x27 then TK_STRING else TK_ID)" .
  moreover have "sqlite3Dequote (q # quote_body q s @ [q]) = s"
    using Dequote_quoted [of q q "[]" s] assms(1) q by auto
  ultimately show ?thesis by simp
qed

lemma quoted_token_witness:
  "sqlite3Dequote (CHR 0x27 # quote_body CHR 0x27 ''it is'' @ [CHR 0x27]) = ''it is''"
  using quoted_token [of "CHR 0x27" "''it is''" "'', x''"] by auto

text \<open>
  A maximal run of identifier characters that does not start with a digit or a dollar sign,
  and is not the prefix of a blob literal, is one token; its type is the keyword it spells in
  any mixture of cases, or \<^verbatim>\<open>TK_ID\<close>.
\<close>

theorem word_token:
  assumes "w \<noteq> []" "\<forall>c \<in> set w. IdChar c" "cstr rest" "\<not> IdChar (hd0 rest)" "\<not> sqlite3Isdigit (hd w)" "hd w \<noteq> CHR ''$''"
    and "hd0 rest = CHR 0x27 \<Longrightarrow> w \<noteq> ''x'' \<and> w \<noteq> ''X''"
  shows "sqlite3GetToken (w @ rest) = (length w, keyword_of w)"
proof -
  have "\<forall>c \<in> set w. c \<noteq> NUL" using assms(2) by (metis IdChar_NUL)
  then have z: "cstr (w @ rest)" using assms(3) by (auto simp: cstr_def)
  have s: "scan IdChar (w @ rest) 1 = length w"
    by (rule scan_word) (use assms in \<open>auto simp: Suc_le_eq\<close>)
  have "IdChar (at (w @ rest) 0)" using assms(1,2) by (cases w) (auto simp: at_def)
  then have "token_word (w @ rest) = (length w, keyword_of w)"
    using keywordCode_find [OF z, of "length w"] unfolding token_word_def Let_def s by simp
  then show ?thesis using GetToken_word [OF assms(1,2,4,5,6,7)] by simp
qed

lemma word_token_witness:
  "sqlite3GetToken (''Xerox'' @ ''=1'') = (5, keyword_of ''Xerox'')"
  using word_token [of "''Xerox''" "''=1''"] by (simp add: IdChar_def sqlite3Isdigit_def)

end
