(* ===== verification/Complete.thy ===== *)
theory Complete
  imports Tokenize
begin

text \<open>
  \<^verbatim>\<open>sqlite3_complete\<close> of \<^verbatim>\<open>complete.c\<close>: whether a text ends in a complete SQL statement, decided by
  a state machine over a coarse tokenization. The specification is the set of sequences of
  statements, where a trigger definition extends to the first \<^verbatim>\<open>; END ;\<close>.
\<close>

section \<open>The code\<close>


definition trans :: "nat list list" where
  "trans = [
    [0, 0, 1, 2, 3, 1, 1, 1],
    [0, 1, 1, 1, 1, 1, 1, 1],
    [0, 2, 1, 1, 3, 1, 1, 1],
    [0, 3, 1, 1, 1, 3, 4, 1],
    [5, 4, 4, 4, 4, 4, 4, 4],
    [5, 5, 4, 4, 4, 4, 4, 6],
    [0, 6, 4, 4, 4, 4, 4, 4]]"














section \<open>The token sequence\<close>








section \<open>Statements\<close>





lemma less_8: "(t::nat) < 8 \<longleftrightarrow> t \<in> {0, 1, 2, 3, 4, 5, 6, 7}"
  by auto

lemma trans_simps [simp]:
  "trans ! 0 = [0, 0, 1, 2, 3, 1, 1, 1]" "trans ! Suc 0 = [0, 1, 1, 1, 1, 1, 1, 1]"
  "trans ! 2 = [0, 2, 1, 1, 3, 1, 1, 1]" "trans ! 3 = [0, 3, 1, 1, 1, 3, 4, 1]"
  "trans ! 4 = [5, 4, 4, 4, 4, 4, 4, 4]" "trans ! 5 = [5, 5, 4, 4, 4, 4, 4, 6]" "trans ! 6 = [0, 6, 4, 4, 4, 4, 4, 4]"
  by (simp_all add: trans_def)
























section \<open>Properties\<close>



end
