(* ===== verification/Dictionary.thy ===== *)
theory Dictionary
  imports Prelude
begin

text \<open>
  The contract the hash tables of both programs share: a state stands for a map, finding a key gives
  what the map has, storing and removing update it, and storing may fail for want of memory and then
  changes nothing. A client that sends requests to such a table cannot tell it from a map.
\<close>

section \<open>Requests and answers\<close>

datatype ('k, 'v) request = Find 'k | Store 'k 'v | Remove 'k
datatype 'v answer = Found "'v option" | Stored bool | Removed

text \<open>One request, and a sequence of them, to a table given by its three operations.\<close>

fun serve :: "('s \<Rightarrow> 'k \<Rightarrow> 'v option \<times> 's) \<Rightarrow> ('s \<Rightarrow> 'k \<Rightarrow> 'v \<Rightarrow> bool \<times> 's) \<Rightarrow> ('s \<Rightarrow> 'k \<Rightarrow> 's) \<Rightarrow> 's \<Rightarrow> ('k, 'v) request \<Rightarrow> 'v answer \<times> 's" where
  "serve get put del s (Find k) = (case get s k of (r, s) \<Rightarrow> (Found r, s))"
| "serve get put del s (Store k v) = (case put s k v of (ok, s) \<Rightarrow> (Stored ok, s))"
| "serve get put del s (Remove k) = (Removed, del s k)"

fun serve_all :: "('s \<Rightarrow> 'k \<Rightarrow> 'v option \<times> 's) \<Rightarrow> ('s \<Rightarrow> 'k \<Rightarrow> 'v \<Rightarrow> bool \<times> 's) \<Rightarrow> ('s \<Rightarrow> 'k \<Rightarrow> 's) \<Rightarrow> 's \<Rightarrow> ('k, 'v) request list \<Rightarrow> 'v answer list" where
  "serve_all get put del s [] = []"
| "serve_all get put del s (r # rs) = (case serve get put del s r of (a, s) \<Rightarrow> a # serve_all get put del s rs)"

text \<open>The answers a map gives. \<open>norm\<close> is what two keys that are the same for the table share.\<close>

fun answers :: "('k \<Rightarrow> 'n) \<Rightarrow> ('n \<Rightarrow> 'v option) \<Rightarrow> ('k, 'v) request list \<Rightarrow> 'v answer list \<Rightarrow> bool" where
  "answers norm m (Find k # rs) (Found r # as) \<longleftrightarrow> r = m (norm k) \<and> answers norm m rs as"
| "answers norm m (Store k v # rs) (Stored ok # as) \<longleftrightarrow> answers norm (if ok then m(norm k \<mapsto> v) else m) rs as"
| "answers norm m (Remove k # rs) (Removed # as) \<longleftrightarrow> answers norm (m(norm k := None)) rs as"
| "answers norm m [] [] \<longleftrightarrow> True"
| "answers norm m _ _ \<longleftrightarrow> False"

fun request_key :: "('k, 'v) request \<Rightarrow> 'k" where
  "request_key (Find k) = k"
| "request_key (Store k v) = k"
| "request_key (Remove k) = k"

text \<open>Which requests to store succeeded determines all answers.\<close>

lemma answers_Cons: "answers norm m (r # rs) as \<Longrightarrow> \<exists>a bs. as = a # bs"
  by (cases as; cases r) simp_all

lemma answers_determined:
  "answers norm m rs as \<Longrightarrow> answers norm m rs as' \<Longrightarrow> filter (\<lambda>a. \<exists>ok. a = Stored ok) as = filter (\<lambda>a. \<exists>ok. a = Stored ok) as' \<Longrightarrow> as = as'"
proof (induction rs arbitrary: m as as')
  case Nil
  then show ?case by (cases as; cases as') simp_all
next
  case (Cons r rs)
  obtain a bs a' bs' where c: "as = a # bs" "as' = a' # bs'" using answers_Cons Cons.prems(1,2) by metis
  show ?case
  proof (cases r)
    case (Find k)
    then show ?thesis using Cons.prems Cons.IH [of m bs bs'] c by (cases a; cases a') simp_all
  next
    case (Store k v)
    show ?thesis
    proof (cases a; cases a')
      fix ok ok' assume "a = Stored ok" "a' = Stored ok'"
      then show ?thesis using Cons.prems Cons.IH [of "if ok then m(norm k \<mapsto> v) else m" bs bs'] c Store by simp
    qed (use Cons.prems c Store in simp_all)
  next
    case (Remove k)
    then show ?thesis using Cons.prems Cons.IH [of "m(norm k := None)" bs bs'] c by (cases a; cases a') (simp_all del: fun_upd_apply)
  qed
qed

section \<open>The contract\<close>

text \<open>\<open>rep n s m\<close>: the state \<open>s\<close> stands for the map \<open>m\<close> and has counters for \<open>n\<close> more requests.\<close>

locale dictionary =
  fixes rep :: "nat \<Rightarrow> 's \<Rightarrow> ('n \<Rightarrow> 'v option) \<Rightarrow> bool"
    and valid_key :: "'k \<Rightarrow> bool"
    and norm :: "'k \<Rightarrow> 'n"
    and get :: "'s \<Rightarrow> 'k \<Rightarrow> 'v option \<times> 's"
    and put :: "'s \<Rightarrow> 'k \<Rightarrow> 'v \<Rightarrow> bool \<times> 's"
    and del :: "'s \<Rightarrow> 'k \<Rightarrow> 's"
  assumes get_law: "rep (Suc n) s m \<Longrightarrow> valid_key k \<Longrightarrow> get s k = (r, s') \<Longrightarrow> r = m (norm k) \<and> rep n s' m"
    and put_law: "rep (Suc n) s m \<Longrightarrow> valid_key k \<Longrightarrow> put s k v = (ok, s') \<Longrightarrow> rep n s' (if ok then m(norm k \<mapsto> v) else m)"
    and del_law: "rep (Suc n) s m \<Longrightarrow> valid_key k \<Longrightarrow> rep n (del s k) (m(norm k := None))"
begin

lemma serve_all_answers:
  assumes "rep (length rs) s m" "\<forall>r \<in> set rs. valid_key (request_key r)"
  shows "answers norm m rs (serve_all get put del s rs)"
  using assms
proof (induction rs arbitrary: s m)
  case (Cons r rs)
  show ?case
  proof (cases r)
    case (Find k)
    obtain v s' where f: "get s k = (v, s')" by fastforce
    then have "v = m (norm k)" "rep (length rs) s' m" using get_law [OF _ _ f] Cons.prems Find by simp_all
    then show ?thesis using Cons.IH Cons.prems(2) Find f by simp
  next
    case (Store k v)
    obtain ok s' where f: "put s k v = (ok, s')" by fastforce
    then have "rep (length rs) s' (if ok then m(norm k \<mapsto> v) else m)" using put_law [OF _ _ f] Cons.prems Store by simp
    from Cons.IH [OF this] show ?thesis using Cons.prems(2) Store f by simp
  next
    case (Remove k)
    then have "rep (length rs) (del s k) (m(norm k := None))" using del_law Cons.prems by simp
    from Cons.IH [OF this] show ?thesis using Cons.prems(2) Remove by (simp del: fun_upd_apply)
  qed
qed simp

end

end
