(* ===== verification/HashTable.thy ===== *)
theory HashTable
  imports SqText Dictionary "HOL-Library.AList"
begin

text \<open>
  SQLite's hash table (\<^verbatim>\<open>hash.c\<close>, \<^verbatim>\<open>hash.h\<close>), which keeps the schema objects, functions,
  collations and modules of a connection: all elements lie on one doubly linked list, the elements
  of a bucket next to each other, and a bucket is a count and a pointer to its first element.

  The elements are a store \<open>elems\<close> from addresses to elements; a new element gets the address
  \<open>nextp\<close>. The build is the default one for a 32-bit target, without a soft limit on
  allocations: a bucket has eight bytes and the first table has 16 of them. Counters are natural
  numbers. A key is a C string and the number \<open>nKey\<close> of its bytes that count.
\<close>

section \<open>The state\<close>

record 'd elem =
  el_next :: "nat option"
  el_prev :: "nat option"
  el_data :: 'd
  el_key :: string
  el_nKey :: int

record 'd hash =
  copyKey :: bool
  htsize :: nat
  hcount :: nat
  first :: "nat option"
  ht :: "(nat \<times> nat option) list"
  elems :: "nat \<Rightarrow> 'd elem option"
  nextp :: nat

abbreviation el :: "'d hash \<Rightarrow> nat \<Rightarrow> 'd elem" where "el h p \<equiv> the (elems h p)"

definition set_next :: "'d hash \<Rightarrow> nat \<Rightarrow> nat option \<Rightarrow> 'd hash" where
  "set_next h p v = h\<lparr>elems := (elems h)(p := map_option (el_next_update (\<lambda>_. v)) (elems h p))\<rparr>"

definition set_prev :: "'d hash \<Rightarrow> nat \<Rightarrow> nat option \<Rightarrow> 'd hash" where
  "set_prev h p v = h\<lparr>elems := (elems h)(p := map_option (el_prev_update (\<lambda>_. v)) (elems h p))\<rparr>"

definition sqlite3HashInit :: "bool \<Rightarrow> 'd hash" where
  "sqlite3HashInit ck = \<lparr>copyKey = ck, htsize = 0, hcount = 0, first = None, ht = [], elems = (\<lambda>_. None), nextp = 0\<rparr>"

text \<open>The loop that frees the elements from \<open>p\<close> on.\<close>

partial_function (option) clear_loop :: "(nat \<Rightarrow> 'd elem option) \<Rightarrow> nat option \<Rightarrow> (nat \<Rightarrow> 'd elem option) option" where
  "clear_loop es p =
    (case p of None \<Rightarrow> Some es
     | Some x \<Rightarrow> (case es x of None \<Rightarrow> None | Some e \<Rightarrow> clear_loop (es(x := None)) (el_next e)))"

definition sqlite3HashClear :: "'d hash \<Rightarrow> 'd hash option" where
  "sqlite3HashClear h =
    (case clear_loop (elems h) (first h) of None \<Rightarrow> None
     | Some es \<Rightarrow> Some (h\<lparr>first := None, ht := [], htsize := 0, elems := es, hcount := 0\<rparr>))"

section \<open>Keys\<close>

fun hash_loop :: "u32 \<Rightarrow> nat \<Rightarrow> string \<Rightarrow> u32" where
  "hash_loop h 0 z = h"
| "hash_loop h (Suc n) z = hash_loop (push_bit 3 h XOR h XOR word_of_nat (sqlite3UpperToLower (hd0 z))) n (tl z)"

definition strHash :: "string \<Rightarrow> int \<Rightarrow> nat" where
  "strHash z nKey =
    (let n = (if nKey \<le> 0 then length z else nat nKey) in unat (hash_loop 0 n z AND 0x7fffffff))"

text \<open>\<open>True\<close> is the result 0.\<close>

definition strCompare :: "string \<Rightarrow> int \<Rightarrow> string \<Rightarrow> int \<Rightarrow> bool" where
  "strCompare z1 n1 z2 n2 \<longleftrightarrow> n1 = n2 \<and> sqlite3StrNICmp z1 z2 (nat n1) = 0"

section \<open>The list and the buckets\<close>

definition insertElement :: "'d hash \<Rightarrow> nat \<Rightarrow> nat \<Rightarrow> 'd hash" where
  "insertElement h i x =
    (let (cnt, chain) = ht h ! i;
         h = (case chain of
               Some p \<Rightarrow>
                 let h = set_prev (set_next h x (Some p)) x (el_prev (el h p));
                     h = (case el_prev (el h p) of Some q \<Rightarrow> set_next h q (Some x) | None \<Rightarrow> h\<lparr>first := Some x\<rparr>)
                 in set_prev h p (Some x)
             | None \<Rightarrow>
                 let h = set_next h x (first h);
                     h = (case first h of Some q \<Rightarrow> set_prev h q (Some x) | None \<Rightarrow> h)
                 in (set_prev h x None)\<lparr>first := Some x\<rparr>)
     in h\<lparr>ht := (ht h)[i := (cnt + 1, Some x)]\<rparr>)"

partial_function (option) rehash_loop :: "'d hash \<Rightarrow> nat option \<Rightarrow> nat \<Rightarrow> 'd hash option" where
  "rehash_loop h p n =
    (case p of None \<Rightarrow> Some h
     | Some x \<Rightarrow>
         let i = unat (word_of_nat (strHash (el_key (el h x)) (el_nKey (el h x))) AND word_of_nat (n - 1) :: u32)
         in rehash_loop (insertElement h i x) (el_next (el h x)) n)"

definition rehash :: "outcomes \<Rightarrow> 'd hash \<Rightarrow> nat \<Rightarrow> ('d hash \<times> outcomes) option" where
  "rehash os h new_size =
    (case alloc_next os of (ok, os) \<Rightarrow>
       if \<not> ok then Some (h, os)
       else case rehash_loop (h\<lparr>ht := replicate new_size (0, None), htsize := new_size, first := None\<rparr>) (first h) new_size of
         None \<Rightarrow> None
       | Some h \<Rightarrow> Some (h, os))"

text \<open>The loop of \<^verbatim>\<open>findElementGivenHash\<close>, at most \<open>n\<close> elements from \<open>p\<close> on.\<close>

fun find_loop :: "'d hash \<Rightarrow> string \<Rightarrow> int \<Rightarrow> nat \<Rightarrow> nat option \<Rightarrow> nat option" where
  "find_loop h z nKey 0 p = None"
| "find_loop h z nKey (Suc n) p =
    (case p of None \<Rightarrow> None
     | Some x \<Rightarrow> if strCompare (el_key (el h x)) (el_nKey (el h x)) z nKey then Some x
                 else find_loop h z nKey n (el_next (el h x)))"

definition findElementGivenHash :: "'d hash \<Rightarrow> string \<Rightarrow> int \<Rightarrow> nat \<Rightarrow> nat option" where
  "findElementGivenHash h z nKey i =
    (if ht h = [] then None else case ht h ! i of (cnt, chain) \<Rightarrow> find_loop h z nKey cnt chain)"

definition removeElementGivenHash :: "'d hash \<Rightarrow> nat \<Rightarrow> nat \<Rightarrow> 'd hash option" where
  "removeElementGivenHash h x i =
    (let e = el h x;
         h = (case el_prev e of Some q \<Rightarrow> set_next h q (el_next e) | None \<Rightarrow> h\<lparr>first := el_next e\<rparr>);
         h = (case el_next e of Some q \<Rightarrow> set_prev h q (el_prev e) | None \<Rightarrow> h);
         (cnt, chain) = ht h ! i;
         chain = (if chain = Some x then el_next e else chain);
         cnt = cnt - 1;
         chain = (if cnt = 0 then None else chain);
         h = h\<lparr>ht := (ht h)[i := (cnt, chain)], elems := (elems h)(x := None), hcount := hcount h - 1\<rparr>
     in if hcount h = 0 then sqlite3HashClear h else Some h)"

definition sqlite3HashFindElem :: "'d hash \<Rightarrow> string \<Rightarrow> int \<Rightarrow> nat option" where
  "sqlite3HashFindElem h z nKey =
    (if ht h = [] then None else findElementGivenHash h z nKey (strHash z nKey mod htsize h))"

definition sqlite3HashFind :: "'d hash \<Rightarrow> string \<Rightarrow> int \<Rightarrow> 'd option" where
  "sqlite3HashFind h z nKey =
    (case sqlite3HashFindElem h z nKey of None \<Rightarrow> None | Some x \<Rightarrow> Some (el_data (el h x)))"

text \<open>The element and the copy of its key are allocated; the copy has the first \<open>nKey\<close> bytes.\<close>

definition new_element :: "outcomes \<Rightarrow> bool \<Rightarrow> string \<Rightarrow> int \<Rightarrow> 'd \<Rightarrow> 'd elem option \<times> outcomes" where
  "new_element os ck z nKey d =
    (case alloc_next os of (ok, os) \<Rightarrow>
       if \<not> ok then (None, os)
       else if ck then
         (case (if nKey \<le> 0 then (False, os) else alloc_next os) of (ok, os) \<Rightarrow>
            if ok then (Some \<lparr>el_next = None, el_prev = None, el_data = d, el_key = take (nat nKey) z, el_nKey = nKey\<rparr>, os)
            else (None, os))
       else (Some \<lparr>el_next = None, el_prev = None, el_data = d, el_key = z, el_nKey = nKey\<rparr>, os))"

text \<open>
  \<open>data\<close> is \<open>None\<close> to remove an element. The C code fills in the new element's data at the end;
  nothing reads it before.
\<close>

definition insert_new :: "outcomes \<Rightarrow> 'd hash \<Rightarrow> string \<Rightarrow> int \<Rightarrow> 'd \<Rightarrow> ('d option \<times> 'd hash \<times> outcomes) option" where
  "insert_new os h z nKey d =
    (case new_element os (copyKey h) z nKey d of
       (None, os) \<Rightarrow> Some (Some d, h, os)
     | (Some e, os) \<Rightarrow>
         let x = nextp h;
             h = h\<lparr>elems := (elems h)(x \<mapsto> e), nextp := nextp h + 1, hcount := hcount h + 1\<rparr>
         in case (if htsize h = 0 then rehash os h 16 else Some (h, os)) of
              None \<Rightarrow> None
            | Some (h, os) \<Rightarrow>
                if htsize h = 0 then Some (Some d, h\<lparr>hcount := 0, elems := (elems h)(x := None)\<rparr>, os)
                else case (if htsize h < hcount h then rehash os h (htsize h * 2) else Some (h, os)) of
                  None \<Rightarrow> None
                | Some (h, os) \<Rightarrow> Some (None, insertElement h (strHash z nKey mod htsize h) x, os))"

definition sqlite3HashInsert :: "outcomes \<Rightarrow> 'd hash \<Rightarrow> string \<Rightarrow> int \<Rightarrow> 'd option \<Rightarrow> ('d option \<times> 'd hash \<times> outcomes) option" where
  "sqlite3HashInsert os h z nKey data =
    (let i = strHash z nKey mod htsize h
     in case (if htsize h \<noteq> 0 then findElementGivenHash h z nKey i else None) of
          Some x \<Rightarrow>
            let old = el_data (el h x)
            in (case data of
                  None \<Rightarrow> (case removeElementGivenHash h x i of None \<Rightarrow> None | Some h \<Rightarrow> Some (Some old, h, os))
                | Some d \<Rightarrow> Some (Some old, h\<lparr>elems := (elems h)(x := map_option (\<lambda>e. e\<lparr>el_data := d, el_key := if copyKey h then el_key e else z\<rparr>) (elems h x))\<rparr>, os))
        | None \<Rightarrow>
            (case data of None \<Rightarrow> Some (None, h, os)
             | Some d \<Rightarrow> insert_new os h z nKey d))"


section \<open>Keys compare and hash alike\<close>

type_synonym akey = "int \<times> nat list"

definition akey :: "string \<Rightarrow> int \<Rightarrow> akey" where
  "akey z n = (n, fold_case (take (nat n) z))"

definition elkey :: "'d elem \<Rightarrow> akey" where
  "elkey e = akey (el_key e) (el_nKey e)"

definition key_ok :: "string \<Rightarrow> int \<Rightarrow> bool" where
  "key_ok z n \<longleftrightarrow> cstr z \<and> 0 < n"

lemma strCompare_iff: "key_ok z n \<Longrightarrow> key_ok z' n' \<Longrightarrow> strCompare z n z' n' \<longleftrightarrow> akey z n = akey z' n'"
  by (auto simp: strCompare_def akey_def key_ok_def StrNICmp_take)

lemma hash_loop_cong: "cstr z \<Longrightarrow> cstr z' \<Longrightarrow> fold_case (take n z) = fold_case (take n z') \<Longrightarrow> hash_loop h n z = hash_loop h n z'"
proof (induction n arbitrary: h z z')
  case (Suc n)
  show ?case
  proof (cases z)
    case Nil
    then have "z' = []" using Suc.prems(3) by (cases z') auto
    then show ?thesis using Nil by simp
  next
    case (Cons c cs)
    then obtain c' cs' where z': "z' = c' # cs'" using Suc.prems(3) by (cases z') auto
    then have "hash_loop h' n cs = hash_loop h' n cs'" for h' using Suc Cons by auto
    then show ?thesis using Suc.prems(3) Cons z' by simp
  qed
qed simp

lemma strHash_cong: "key_ok z n \<Longrightarrow> key_ok z' n' \<Longrightarrow> akey z n = akey z' n' \<Longrightarrow> strHash z n = strHash z' n'"
  using hash_loop_cong [of z z' "nat n" 0] by (auto simp: strHash_def akey_def key_ok_def Let_def)

lemma akey_take: "akey (take (nat n) z) n = akey z n"
  by (simp add: akey_def)

lemma key_ok_take: "key_ok z n \<Longrightarrow> key_ok (take (nat n) z) n"
  unfolding key_ok_def cstr_def by (meson in_set_takeD)

lemma mask_mod:
  assumes "k \<le> 31" shows "unat (word_of_nat x AND word_of_nat (2 ^ k - 1) :: u32) = x mod 2 ^ k"
proof -
  have "(word_of_nat (2 ^ k - 1) :: u32) = mask k" by (simp add: mask_eq_exp_minus_1 of_nat_diff)
  then have "word_of_nat x AND word_of_nat (2 ^ k - 1) = take_bit k (word_of_nat x :: u32)" by (simp add: take_bit_eq_mask)
  then have "unat (word_of_nat x AND word_of_nat (2 ^ k - 1) :: u32) = take_bit k (unat (word_of_nat x :: u32))" by (simp only: unsigned_take_bit_eq)
  also have "\<dots> = x mod 2 ^ 32 mod 2 ^ k" by (simp add: take_bit_eq_mod unsigned_of_nat)
  also have "\<dots> = x mod 2 ^ k" by (rule mod_mod_cancel) (use assms in \<open>simp add: le_imp_power_dvd del: power_numeral\<close>)
  finally show ?thesis .
qed

section \<open>Segments of the list\<close>

fun lseg :: "(nat \<Rightarrow> 'd elem option) \<Rightarrow> nat option \<Rightarrow> nat option \<Rightarrow> nat list \<Rightarrow> nat option \<Rightarrow> bool" where
  "lseg es pv p [] q \<longleftrightarrow> p = q"
| "lseg es pv p (x # xs) q \<longleftrightarrow> p = Some x \<and> (\<exists>e. es x = Some e \<and> el_prev e = pv \<and> lseg es (Some x) (el_next e) xs q)"

definition end_of :: "nat option \<Rightarrow> nat list \<Rightarrow> nat option" where
  "end_of pv xs = (if xs = [] then pv else Some (last xs))"

definition start_of :: "nat list \<Rightarrow> nat option \<Rightarrow> nat option" where
  "start_of xs q = (if xs = [] then q else Some (hd xs))"

lemma end_of_simps [simp]: "end_of pv [] = pv" "end_of pv (x # xs) = end_of (Some x) xs" "end_of pv (xs @ [y]) = Some y"
  by (simp_all add: end_of_def)

lemma start_of_simps [simp]: "start_of [] q = q" "start_of (x # xs) q = Some x"
  by (simp_all add: start_of_def)

lemma lseg_start: "lseg es pv p xs q \<Longrightarrow> p = start_of xs q"
  by (cases xs) auto

lemma lseg_append: "lseg es pv p (xs @ ys) q \<longleftrightarrow> lseg es pv p xs (start_of ys q) \<and> lseg es (end_of pv xs) (start_of ys q) ys q"
proof (induction xs arbitrary: pv p)
  case Nil
  then show ?case using lseg_start [of es pv p ys q] by auto
qed auto

lemma lseg_cong: "(\<And>x. x \<in> set xs \<Longrightarrow> es' x = es x) \<Longrightarrow> lseg es' pv p xs q \<longleftrightarrow> lseg es pv p xs q"
  by (induction xs arbitrary: pv p) auto

lemma lseg_dom: "lseg es pv p xs q \<Longrightarrow> x \<in> set xs \<Longrightarrow> x \<in> dom es"
  by (induction xs arbitrary: pv p) auto

definition up_next :: "nat \<Rightarrow> nat option \<Rightarrow> (nat \<Rightarrow> 'd elem option) \<Rightarrow> nat \<Rightarrow> 'd elem option" where
  "up_next x v es = es(x := map_option (el_next_update (\<lambda>_. v)) (es x))"

definition up_prev :: "nat \<Rightarrow> nat option \<Rightarrow> (nat \<Rightarrow> 'd elem option) \<Rightarrow> nat \<Rightarrow> 'd elem option" where
  "up_prev x v es = es(x := map_option (el_prev_update (\<lambda>_. v)) (es x))"

lemma set_elems [simp]: "elems (set_next h x v) = up_next x v (elems h)" "elems (set_prev h x v) = up_prev x v (elems h)"
  by (simp_all add: set_next_def set_prev_def up_next_def up_prev_def)

lemma set_fields [simp]:
  "first (set_next h x v) = first h" "first (set_prev h x v) = first h" "ht (set_next h x v) = ht h" "ht (set_prev h x v) = ht h"
  "htsize (set_next h x v) = htsize h" "htsize (set_prev h x v) = htsize h" "hcount (set_next h x v) = hcount h" "hcount (set_prev h x v) = hcount h"
  "copyKey (set_next h x v) = copyKey h" "copyKey (set_prev h x v) = copyKey h" "nextp (set_next h x v) = nextp h" "nextp (set_prev h x v) = nextp h"
  by (simp_all add: set_next_def set_prev_def)

lemma lseg_tail:
  assumes "lseg es pv p xs q" "distinct xs" "xs \<noteq> []"
  shows "lseg (up_next (last xs) q' es) pv p xs q'"
proof -
  obtain ys y where xs: "xs = ys @ [y]" using assms(3) by (metis append_butlast_last_id)
  have "lseg es pv p ys (Some y)" "\<exists>e. es y = Some e \<and> el_prev e = end_of pv ys" using assms(1) unfolding xs lseg_append by auto
  moreover have "lseg (up_next y q' es) pv p ys (Some y) = lseg es pv p ys (Some y)"
    by (rule lseg_cong) (use assms(2) xs in \<open>auto simp: up_next_def\<close>)
  ultimately show ?thesis unfolding xs lseg_append by (auto simp: up_next_def)
qed

lemma lseg_head:
  assumes "lseg es pv p xs q" "distinct xs" "xs \<noteq> []"
  shows "lseg (up_prev (hd xs) pv' es) pv' p xs q"
proof -
  obtain y ys where xs: "xs = y # ys" using assms(3) by (cases xs) auto
  obtain e where e: "p = Some y" "es y = Some e" "lseg es (Some y) (el_next e) ys q" using assms(1) xs by auto
  have "lseg (up_prev y pv' es) (Some y) (el_next e) ys q = lseg es (Some y) (el_next e) ys q"
    by (rule lseg_cong) (use assms(2) xs in \<open>auto simp: up_prev_def\<close>)
  then show ?thesis using e xs by (simp add: up_prev_def)
qed

text \<open>Two segments joined at a new element, and two joined to each other.\<close>

lemma lseg_join:
  assumes a: "lseg es None f xs (start_of ys None)" and b: "lseg es (end_of None xs) (start_of ys None) ys None"
    and d: "distinct (xs @ x # ys)" and e: "es x = Some e"
    and es': "es' = (case ys of [] \<Rightarrow> id | y # _ \<Rightarrow> up_prev y (Some x))
        ((if xs = [] then id else up_next (last xs) (Some x)) (up_prev x (end_of None xs) (up_next x (start_of ys None) es)))"
  shows "lseg es' None (start_of xs (Some x)) (xs @ x # ys) None"
proof -
  define es1 where "es1 = up_prev x (end_of None xs) (up_next x (start_of ys None) es)"
  define es2 where "es2 = (if xs = [] then id else up_next (last xs) (Some x)) es1"
  have e2: "es' = (case ys of [] \<Rightarrow> id | y # _ \<Rightarrow> up_prev y (Some x)) es2" by (simp add: es' es1_def es2_def)
  have "lseg es1 None f xs (start_of ys None)" "lseg es1 (end_of None xs) (start_of ys None) ys None"
    using a b d by (subst lseg_cong [where es = es]; auto simp: es1_def up_prev_def up_next_def)+
  then have "lseg es2 None (start_of xs (Some x)) xs (Some x)" "lseg es2 (end_of None xs) (start_of ys None) ys None"
  proof -
    assume 1: "lseg es1 None f xs (start_of ys None)" "lseg es1 (end_of None xs) (start_of ys None) ys None"
    show "lseg es2 None (start_of xs (Some x)) xs (Some x)"
      using lseg_tail [OF 1(1)] lseg_start [OF 1(1)] d by (cases "xs = []") (auto simp: es2_def start_of_def)
    show "lseg es2 (end_of None xs) (start_of ys None) ys None"
    proof -
      have l: "xs = [] \<or> last xs \<notin> set ys" using d by (cases "xs = []") (auto dest: last_in_set)
      show ?thesis by (subst lseg_cong [where es = es1]) (use 1(2) l in \<open>auto simp: es2_def up_next_def\<close>)
    qed
  qed
  then have s: "lseg es' None (start_of xs (Some x)) xs (Some x) \<and> lseg es' (Some x) (start_of ys None) ys None"
  proof (cases ys)
    case (Cons y zs)
    assume 2: "lseg es2 None (start_of xs (Some x)) xs (Some x)" "lseg es2 (end_of None xs) (start_of ys None) ys None"
    have c: "es' = up_prev y (Some x) es2" using Cons by (simp add: e2)
    have "lseg es' None (start_of xs (Some x)) xs (Some x) = lseg es2 None (start_of xs (Some x)) xs (Some x)"
      by (rule lseg_cong) (use d Cons in \<open>auto simp: c up_prev_def\<close>)
    moreover have "lseg es' (Some x) (start_of ys None) ys None"
      unfolding c using lseg_head [OF 2(2), of "Some x"] d Cons by simp
    ultimately show ?thesis using 2(1) by blast
  qed (simp add: e2)
  have "\<exists>e'. es' x = Some e' \<and> el_prev e' = end_of None xs \<and> el_next e' = start_of ys None"
    using e d by (auto simp: e2 es2_def es1_def up_prev_def up_next_def split: list.splits)
  then show ?thesis using s by (auto simp: lseg_append)
qed

section \<open>The list of elements falls into the buckets\<close>

type_synonym groups = "(nat \<times> nat list) list"

abbreviation flat :: "groups \<Rightarrow> nat list" where "flat G \<equiv> concat (map snd G)"

definition bucket_of :: "'d hash \<Rightarrow> nat \<Rightarrow> nat" where
  "bucket_of h x = strHash (el_key (el h x)) (el_nKey (el h x)) mod htsize h"

definition groups_ok :: "'d hash \<Rightarrow> groups \<Rightarrow> bool" where
  "groups_ok h G \<longleftrightarrow> distinct (flat G) \<and> distinct (map fst G) \<and>
     (\<forall>(i, zs) \<in> set G. zs \<noteq> [] \<and> i < htsize h \<and> (\<forall>x \<in> set zs. bucket_of h x = i))"

definition chain_of :: "groups \<Rightarrow> nat \<Rightarrow> nat \<times> nat option" where
  "chain_of G i = (case map_of G i of None \<Rightarrow> (0, None) | Some zs \<Rightarrow> (length zs, Some (hd zs)))"

definition shape :: "'d hash \<Rightarrow> groups \<Rightarrow> bool" where
  "shape h G \<longleftrightarrow> (\<exists>k \<le> 31. htsize h = 2 ^ k) \<and> length (ht h) = htsize h \<and> groups_ok h G \<and>
     lseg (elems h) None (first h) (flat G) None \<and> (\<forall>i < htsize h. ht h ! i = chain_of G i)"

text \<open>What linking does not change.\<close>

definition same_el :: "'d hash \<Rightarrow> 'd hash \<Rightarrow> bool" where
  "same_el h h' \<longleftrightarrow> copyKey h' = copyKey h \<and> nextp h' = nextp h \<and>
     (\<forall>p. map_option (\<lambda>e. (el_key e, el_nKey e, el_data e)) (elems h' p) = map_option (\<lambda>e. (el_key e, el_nKey e, el_data e)) (elems h p))"

lemma same_el_refl: "same_el h h"
  by (simp add: same_el_def)

lemma same_el_trans: "same_el h h' \<Longrightarrow> same_el h' h'' \<Longrightarrow> same_el h h''"
  by (simp add: same_el_def)

lemma same_elD:
  assumes "same_el h h'"
  shows "dom (elems h') = dom (elems h)"
    "x \<in> dom (elems h) \<Longrightarrow> el_key (el h' x) = el_key (el h x) \<and> el_nKey (el h' x) = el_nKey (el h x) \<and> el_data (el h' x) = el_data (el h x)"
    "copyKey h' = copyKey h" "nextp h' = nextp h"
proof -
  have a: "map_option (\<lambda>e. (el_key e, el_nKey e, el_data e)) (elems h' p) = map_option (\<lambda>e. (el_key e, el_nKey e, el_data e)) (elems h p)" for p
    using assms by (simp add: same_el_def)
  have "(elems h' p = None) = (elems h p = None)" for p using a [of p] by (cases "elems h' p"; cases "elems h p") auto
  then show "dom (elems h') = dom (elems h)" by (auto simp: dom_def)
  show "x \<in> dom (elems h) \<Longrightarrow> el_key (el h' x) = el_key (el h x) \<and> el_nKey (el h' x) = el_nKey (el h x) \<and> el_data (el h' x) = el_data (el h x)"
    using a [of x] by (cases "elems h' x") auto
qed (use assms in \<open>simp_all add: same_el_def\<close>)

fun ginsert :: "nat \<Rightarrow> nat \<Rightarrow> groups \<Rightarrow> groups" where
  "ginsert i x G = (case map_of G i of None \<Rightarrow> (i, [x]) # G | Some zs \<Rightarrow> AList.update i (x # zs) G)"

lemma group_split: "map_of G i = Some zs \<Longrightarrow> \<exists>G1 G2. G = G1 @ (i, zs) # G2 \<and> i \<notin> fst ` set G1"
proof (induction G)
  case (Cons g G)
  obtain j ws where g: "g = (j, ws)" by (rule prod.exhaust)
  show ?case
  proof (cases "j = i")
    case True
    then show ?thesis using Cons.prems g by (intro exI [of _ "[]"] exI [of _ G]) simp
  next
    case False
    then obtain G1 G2 where "G = G1 @ (i, zs) # G2" "i \<notin> fst ` set G1" using Cons g by auto
    then show ?thesis using False g by (intro exI [of _ "g # G1"] exI [of _ G2]) auto
  qed
qed simp

lemma update_split: "i \<notin> fst ` set G1 \<Longrightarrow> AList.update i ws (G1 @ (i, zs) # G2) = G1 @ (i, ws) # G2"
  by (induction G1) auto

lemma bucket_same: "same_el h h' \<Longrightarrow> htsize h' = htsize h \<Longrightarrow> x \<in> dom (elems h) \<Longrightarrow> bucket_of h' x = bucket_of h x"
  using same_elD(2) [of h h' x] by (simp add: bucket_of_def)

lemma insertElement_fields [simp]:
  "htsize (insertElement h i x) = htsize h" "hcount (insertElement h i x) = hcount h"
  by (simp_all add: insertElement_def Let_def split: prod.split option.split)

lemma insertElement_same: "same_el h (insertElement h i x)"
proof -
  have a: "same_el h (set_next g p v)" "same_el h (set_prev g p v)" "same_el h (g\<lparr>first := w\<rparr>)" "same_el h (g\<lparr>ht := t\<rparr>)" if "same_el h g" for g p v w t
    using that by (auto simp: same_el_def up_next_def up_prev_def option.map_comp comp_def)
  show ?thesis
    unfolding insertElement_def Let_def
    by (auto split: prod.split option.split intro!: a same_el_refl)
qed

lemma insert_links:
  assumes s: "shape h G" and i: "i < htsize h" and x: "x \<notin> set (flat G)" "elems h x = Some e"
  shows "lseg (elems (insertElement h i x)) None (first (insertElement h i x)) (flat (ginsert i x G)) None"
proof (cases "map_of G i")
  case None
  have c: "ht h ! i = (0, None)" using s i None by (simp add: shape_def chain_of_def)
  have l: "lseg (elems h) None (first h) (flat G) None" "distinct (flat G)" using s by (simp_all add: shape_def groups_ok_def)
  have f: "first h = start_of (flat G) None" by (rule lseg_start [OF l(1)])
  have "elems (insertElement h i x) = (case flat G of [] \<Rightarrow> id | y # _ \<Rightarrow> up_prev y (Some x)) (up_prev x None (up_next x (start_of (flat G) None) (elems h)))"
  proof (cases "flat G")
    case Nil
    then have "first h = None" using f by (simp del: concat_eq_Nil_conv)
    then show ?thesis unfolding insertElement_def c Let_def Nil by (simp add: up_prev_def up_next_def)
  next
    case (Cons y ys)
    then have "first h = Some y" "y \<noteq> x" using f x(1) by (auto simp del: concat_eq_Nil_conv)
    then show ?thesis unfolding insertElement_def c Let_def Cons by (simp add: up_prev_def up_next_def fun_upd_twist)
  qed
  then have "lseg (elems (insertElement h i x)) None (start_of [] (Some x)) ([] @ x # flat G) None"
    by (intro lseg_join [where f = "first h" and es = "elems h"]) (use l f x in auto)
  moreover have "first (insertElement h i x) = Some x" by (simp add: insertElement_def c Let_def split: option.split)
  ultimately show ?thesis using None by simp
next
  case (Some zs)
  obtain G1 G2 where G: "G = G1 @ (i, zs) # G2" "i \<notin> fst ` set G1" using group_split [OF Some] by blast
  have l: "lseg (elems h) None (first h) (flat G) None" "distinct (flat G)" "zs \<noteq> []" using s G(1) by (auto simp: shape_def groups_ok_def)
  obtain p zs' where zs: "zs = p # zs'" using l(3) by (cases zs) auto
  define ys where "ys = flat G1"
  define ws where "ws = zs' @ flat G2"
  have fl: "flat G = ys @ p # ws" by (simp add: G zs ys_def ws_def)
  have c: "ht h ! i = (length zs, Some p)" using s i Some zs by (simp add: shape_def chain_of_def)
  have sp: "lseg (elems h) None (first h) ys (start_of (p # ws) None)" "lseg (elems h) (end_of None ys) (start_of (p # ws) None) (p # ws) None"
    using l(1) unfolding fl lseg_append by blast+
  obtain ep where ep: "elems h p = Some ep" "el_prev ep = end_of None ys" using sp(2) by auto
  have px: "p \<noteq> x" using x(1) fl by auto
  have es: "elems (insertElement h i x) = (case p # ws of [] \<Rightarrow> id | y # _ \<Rightarrow> up_prev y (Some x))
      ((if ys = [] then id else up_next (last ys) (Some x)) (up_prev x (end_of None ys) (up_next x (start_of (p # ws) None) (elems h))))"
    unfolding insertElement_def c Let_def using ep px
    by (auto simp: up_prev_def up_next_def end_of_def)
  have "lseg (elems (insertElement h i x)) None (start_of ys (Some x)) (ys @ x # p # ws) None"
    by (rule lseg_join [OF sp _ x(2) es]) (use l(2) fl x(1) in auto)
  moreover have "first (insertElement h i x) = start_of ys (Some x)"
    using lseg_start [OF sp(1)] ep px by (auto simp: insertElement_def c Let_def up_prev_def up_next_def end_of_def start_of_def)
  moreover have "flat (ginsert i x G) = ys @ x # p # ws" using Some update_split [OF G(2)] G(1) zs by (simp add: ys_def ws_def)
  ultimately show ?thesis by simp
qed

lemma ginsert_set: "set (flat (ginsert i x G)) = insert x (set (flat G))"
proof (cases "map_of G i")
  case (Some zs)
  obtain G1 G2 where "G = G1 @ (i, zs) # G2" "i \<notin> fst ` set G1" using group_split [OF Some] by blast
  then show ?thesis using Some update_split [of i G1 "x # zs" zs G2] by auto
qed simp

lemma ginsert_ok:
  assumes g: "groups_ok h G" and i: "i < htsize h" "bucket_of h x = i" and x: "x \<notin> set (flat G)"
  shows "groups_ok h (ginsert i x G)" "chain_of (ginsert i x G) = (chain_of G)(i := (fst (chain_of G i) + 1, Some x))"
proof -
  have "groups_ok h (ginsert i x G) \<and> chain_of (ginsert i x G) = (chain_of G)(i := (fst (chain_of G i) + 1, Some x))"
  proof (cases "map_of G i")
    case None
    then have "i \<notin> fst ` set G" by (simp add: map_of_eq_None_iff)
    then show ?thesis using g i x None by (auto simp: groups_ok_def chain_of_def fun_eq_iff)
  next
    case (Some zs)
    obtain G1 G2 where G: "G = G1 @ (i, zs) # G2" "i \<notin> fst ` set G1" using group_split [OF Some] by blast
    have u: "ginsert i x G = G1 @ (i, x # zs) # G2" using Some update_split [OF G(2)] G(1) by simp
    have g': "groups_ok h (G1 @ (i, x # zs) # G2)" using g i x unfolding G by (auto simp: groups_ok_def)
    have "chain_of (G1 @ (i, x # zs) # G2) j = ((chain_of G)(i := (fst (chain_of G i) + 1, Some x))) j" for j
    proof (cases "j = i")
      case True
      have "map_of G1 i = None" using G(2) by (simp add: map_of_eq_None_iff)
      then show ?thesis using True G by (simp add: chain_of_def map_add_def)
    next
      case False
      then have "map_of (G1 @ (i, x # zs) # G2) j = map_of G j" using G by (simp add: map_add_def split: option.split)
      then show ?thesis using False by (simp only: chain_of_def fun_upd_other not_False_eq_True)
    qed
    then show ?thesis using g' u by auto
  qed
  then show "groups_ok h (ginsert i x G)" "chain_of (ginsert i x G) = (chain_of G)(i := (fst (chain_of G i) + 1, Some x))" by blast+
qed

lemma groups_same: "groups_ok h G \<Longrightarrow> same_el h h' \<Longrightarrow> htsize h' = htsize h \<Longrightarrow> set (flat G) \<subseteq> dom (elems h) \<Longrightarrow> groups_ok h' G"
proof -
  assume a: "groups_ok h G" "same_el h h'" "htsize h' = htsize h" "set (flat G) \<subseteq> dom (elems h)"
  have "bucket_of h' x = bucket_of h x" if "(i, zs) \<in> set G" "x \<in> set zs" for i zs x
    by (rule bucket_same [OF a(2,3)]) (use a(4) that in force)
  then show ?thesis using a(1,3) unfolding groups_ok_def by fastforce
qed

lemma shape_dom: "shape h G \<Longrightarrow> set (flat G) \<subseteq> dom (elems h)"
  unfolding shape_def using lseg_dom by blast

lemma insert_shape:
  assumes s: "shape h G" and x: "x \<notin> set (flat G)" "x \<in> dom (elems h)" and i: "bucket_of h x = i"
  shows "shape (insertElement h i x) (ginsert i x G)" "set (flat (ginsert i x G)) = insert x (set (flat G))"
proof -
  have h0: "0 < htsize h" using s by (auto simp: shape_def)
  then have il: "i < htsize h" using i by (auto simp: bucket_of_def)
  obtain e where e: "elems h x = Some e" using x(2) by blast
  have g: "groups_ok h G" using s by (simp add: shape_def)
  have "ht (insertElement h i x) = (ht h)[i := (fst (chain_of G i) + 1, Some x)]"
  proof -
    have "ht h ! i = chain_of G i" using s il by (simp add: shape_def)
    then show ?thesis by (cases "chain_of G i") (simp add: insertElement_def Let_def split: option.split)
  qed
  moreover have "groups_ok (insertElement h i x) (ginsert i x G)"
    by (rule groups_same [OF ginsert_ok(1) [OF g il i x(1)] insertElement_same]) (use shape_dom [OF s] x(2) ginsert_set [of i x G] in auto)
  ultimately show "shape (insertElement h i x) (ginsert i x G)"
    using s insert_links [OF s il x(1) e] ginsert_ok(2) [OF g il i x(1)] by (auto simp: shape_def nth_list_update)
  show "set (flat (ginsert i x G)) = insert x (set (flat G))" by (rule ginsert_set)
qed

lemma insertElement_frame: "shape h G \<Longrightarrow> i < htsize h \<Longrightarrow> y \<notin> insert x (set (flat G)) \<Longrightarrow> elems (insertElement h i x) y = elems h y"
proof -
  assume s: "shape h G" "i < htsize h" and y: "y \<notin> insert x (set (flat G))"
  have l: "lseg (elems h) None (first h) (flat G) None" using s by (simp add: shape_def)
  show ?thesis
  proof (cases "map_of G i")
    case None
    have c: "ht h ! i = (0, None)" using s None by (simp add: shape_def chain_of_def)
    show ?thesis unfolding insertElement_def c Let_def using lseg_start [OF l] y
      by (cases "flat G") (auto simp: up_prev_def up_next_def)
  next
    case (Some zs)
    obtain G1 G2 where G: "G = G1 @ (i, zs) # G2" "i \<notin> fst ` set G1" using group_split [OF Some] by blast
    have "zs \<noteq> []" using s G(1) by (auto simp: shape_def groups_ok_def)
    then obtain p zs' where zs: "zs = p # zs'" by (cases zs) auto
    have c: "ht h ! i = (length zs, Some p)" using s Some zs by (simp add: shape_def chain_of_def)
    have "lseg (elems h) (end_of None (flat G1)) (Some p) (p # zs' @ flat G2) None" using l by (simp add: G zs lseg_append)
    then obtain ep where ep: "elems h p = Some ep" "el_prev ep = end_of None (flat G1)" by auto
    have "end_of None (flat G1) \<noteq> Some y"
      using y last_in_set [of "flat G1"] G(1) by (auto simp: end_of_def split: if_splits)
    moreover have "y \<noteq> p" "y \<noteq> x" using y G zs by auto
    ultimately show ?thesis unfolding insertElement_def c Let_def using ep
      by (auto simp: up_prev_def up_next_def split: option.split)
  qed
qed

section \<open>Rehashing, searching, clearing\<close>

fun nseg :: "(nat \<Rightarrow> 'd elem option) \<Rightarrow> nat option \<Rightarrow> nat list \<Rightarrow> bool" where
  "nseg es p [] \<longleftrightarrow> p = None"
| "nseg es p (x # xs) \<longleftrightarrow> p = Some x \<and> (\<exists>e. es x = Some e \<and> nseg es (el_next e) xs)"

lemma lseg_nseg: "lseg es pv p xs None \<Longrightarrow> nseg es p xs"
  by (induction xs arbitrary: pv p) auto

lemma nseg_cong: "(\<And>x. x \<in> set xs \<Longrightarrow> es' x = es x) \<Longrightarrow> nseg es' p xs \<longleftrightarrow> nseg es p xs"
  by (induction xs arbitrary: p) auto

lemma nseg_dom: "nseg es p xs \<Longrightarrow> x \<in> set xs \<Longrightarrow> x \<in> dom es"
  by (induction xs arbitrary: p) auto

lemma rehash_loop_ok:
  assumes "shape h G" "nseg (elems h) p rs" "distinct rs" "set rs \<inter> set (flat G) = {}"
  shows "\<exists>h' G'. rehash_loop h p (htsize h) = Some h' \<and> shape h' G' \<and> set (flat G') = set (flat G) \<union> set rs \<and> same_el h h' \<and>
    htsize h' = htsize h \<and> hcount h' = hcount h"
  using assms
proof (induction rs arbitrary: h G p)
  case Nil
  then show ?case by (subst rehash_loop.simps) (auto simp: same_el_refl)
next
  case (Cons x rs)
  obtain e where e: "p = Some x" "elems h x = Some e" "nseg (elems h) (el_next e) rs" using Cons.prems(2) by auto
  obtain k where k: "k \<le> 31" "htsize h = 2 ^ k" using Cons.prems(1) by (auto simp: shape_def)
  define i where "i = bucket_of h x"
  have i: "unat (word_of_nat (strHash (el_key (el h x)) (el_nKey (el h x))) AND word_of_nat (htsize h - 1) :: u32) = i"
    unfolding i_def bucket_of_def k(2) by (rule mask_mod [OF k(1)])
  have il: "i < htsize h" by (simp add: i_def bucket_of_def k)
  have x: "x \<notin> set (flat G)" "x \<in> dom (elems h)" using Cons.prems(4) e(2) by auto
  note s = insert_shape [OF Cons.prems(1) x i_def [symmetric]]
  define h1 where "h1 = insertElement h i x"
  have run: "rehash_loop h p (htsize h) = rehash_loop h1 (el_next e) (htsize h1)"
    by (subst rehash_loop.simps) (simp only: e option.case option.sel Let_def i [unfolded e option.sel] h1_def insertElement_fields)
  have "elems h1 y = elems h y" if "y \<in> set rs" for y
    unfolding h1_def by (rule insertElement_frame [OF Cons.prems(1) il]) (use that Cons.prems(3,4) in auto)
  then have n: "nseg (elems h1) (el_next e) rs" using e(3) nseg_cong [of rs "elems h1" "elems h"] by blast
  have "set rs \<inter> set (flat (ginsert i x G)) = {}" unfolding s(2) using Cons.prems(3,4) by auto
  from Cons.IH [OF s(1) [folded h1_def] n _ this]
  obtain h' G' where r: "rehash_loop h1 (el_next e) (htsize h1) = Some h'" "shape h' G'" "set (flat G') = set (flat (ginsert i x G)) \<union> set rs"
    "same_el h1 h'" "htsize h' = htsize h1" "hcount h' = hcount h1" using Cons.prems(3) by auto
  have "same_el h h'" using same_el_trans [OF insertElement_same r(4) [unfolded h1_def]] .
  then show ?case using run r s(2) by (intro exI [of _ h'] exI [of _ G']) (simp add: h1_def)
qed

definition lshape :: "'d hash \<Rightarrow> groups \<Rightarrow> bool" where
  "lshape h G \<longleftrightarrow> htsize h = 0 \<and> ht h = [] \<and> first h = None \<and> G = [] \<or> shape h G"

lemma lshapeD: "lshape h G \<Longrightarrow> distinct (flat G)" "lshape h G \<Longrightarrow> lseg (elems h) None (first h) (flat G) None"
  "lshape h G \<Longrightarrow> set (flat G) \<subseteq> dom (elems h)" "lshape h G \<Longrightarrow> htsize h = 0 \<longleftrightarrow> ht h = []" "lshape h G \<Longrightarrow> htsize h \<noteq> 0 \<Longrightarrow> shape h G"
  using shape_dom [of h G] by (auto simp: lshape_def shape_def groups_ok_def)

lemma rehash_ok:
  assumes l: "lshape h G" and k: "k \<le> 31"
  shows "\<exists>h' os'. rehash os h (2 ^ k) = Some (h', os') \<and> (h' = h \<and> \<not> (\<forall>b \<in> set os. b) \<or>
    (\<exists>G'. shape h' G' \<and> htsize h' = 2 ^ k \<and> set (flat G') = set (flat G) \<and> same_el h h' \<and> hcount h' = hcount h \<and> set os' \<subseteq> set os))"
proof -
  obtain ok os1 where a: "alloc_next os = (ok, os1)" by (rule prod.exhaust)
  show ?thesis
  proof (cases ok)
    case False
    then have "\<not> (\<forall>b \<in> set os. b)" using a by (cases os) auto
    then show ?thesis using False a by (simp add: rehash_def)
  next
    case True
    define h0 where "h0 = h\<lparr>ht := replicate (2 ^ k) (0, None), htsize := 2 ^ k, first := None\<rparr>"
    have s: "shape h0 []" using k by (auto simp: shape_def h0_def groups_ok_def chain_of_def)
    have n: "nseg (elems h0) (first h) (flat G)" using lseg_nseg [OF lshapeD(2) [OF l]] by (simp add: h0_def)
    obtain h' G' where r: "rehash_loop h0 (first h) (htsize h0) = Some h'" "shape h' G'" "set (flat G') = set (flat G)" "same_el h0 h'" "htsize h' = htsize h0"
      "hcount h' = hcount h0"
      using rehash_loop_ok [OF s n lshapeD(1) [OF l]] by auto
    have "same_el h h'" using r(4) by (simp add: same_el_def h0_def)
    moreover have "rehash os h (2 ^ k) = Some (h', os1)" using a True r(1) by (simp add: rehash_def h0_def)
    moreover have "set os1 \<subseteq> set os" using a by (cases os) auto
    ultimately show ?thesis using r by (intro exI [of _ h'] exI [of _ os1]) (auto simp: h0_def)
  qed
qed

lemma find_loop_ok: "lseg (elems h) pv p (zs @ ws) q \<Longrightarrow>
    find_loop h z n (length zs) p = List.find (\<lambda>x. strCompare (el_key (el h x)) (el_nKey (el h x)) z n) zs"
  by (induction zs arbitrary: pv p) auto

definition keys_ok :: "'d hash \<Rightarrow> nat set \<Rightarrow> bool" where
  "keys_ok h X \<longleftrightarrow> (\<forall>x \<in> X. key_ok (el_key (el h x)) (el_nKey (el h x))) \<and> inj_on (\<lambda>x. elkey (el h x)) X"

lemma find_ok:
  assumes s: "shape h G" and k: "keys_ok h (set (flat G))" "key_ok z n"
  shows "findElementGivenHash h z n (strHash z n mod htsize h) = None \<and> (\<forall>x \<in> set (flat G). elkey (el h x) \<noteq> akey z n) \<or>
    (\<exists>x \<in> set (flat G). findElementGivenHash h z n (strHash z n mod htsize h) = Some x \<and> elkey (el h x) = akey z n \<and> bucket_of h x = strHash z n mod htsize h)"
proof -
  let ?i = "strHash z n mod htsize h"
  have il: "?i < htsize h" and ne: "ht h \<noteq> []" using s by (auto simp: shape_def)
  have g: "groups_ok h G" using s by (simp add: shape_def)
  have kk: "key_ok (el_key (el h x)) (el_nKey (el h x))" if "x \<in> set (flat G)" for x using k(1) that unfolding keys_ok_def by blast
  have cmp: "strCompare (el_key (el h x)) (el_nKey (el h x)) z n \<longleftrightarrow> elkey (el h x) = akey z n" if "x \<in> set (flat G)" for x
    using strCompare_iff [OF kk [OF that] k(2)] by (simp add: elkey_def)
  have bk: "bucket_of h x = ?i" if "x \<in> set (flat G)" "elkey (el h x) = akey z n" for x
    using strHash_cong [OF kk [OF that(1)] k(2)] that(2) by (simp add: elkey_def bucket_of_def)
  have c: "ht h ! ?i = chain_of G ?i" using s il by (simp add: shape_def)
  show ?thesis
  proof (cases "map_of G ?i")
    case None
    have "findElementGivenHash h z n ?i = None" using ne c None by (simp add: findElementGivenHash_def chain_of_def)
    moreover have "elkey (el h x) \<noteq> akey z n" if x: "x \<in> set (flat G)" for x
    proof
      assume "elkey (el h x) = akey z n"
      then have "bucket_of h x = ?i" by (rule bk [OF x])
      moreover obtain j zs where "(j, zs) \<in> set G" "x \<in> set zs" using x by force
      ultimately have "(?i, zs) \<in> set G" using g by (fastforce simp: groups_ok_def)
      then show False using None by (force simp: map_of_eq_None_iff)
    qed
    ultimately show ?thesis by blast
  next
    case (Some zs)
    obtain G1 G2 where G: "G = G1 @ (?i, zs) # G2" "?i \<notin> fst ` set G1" using group_split [OF Some] by blast
    have "zs \<noteq> []" using g G(1) by (auto simp: groups_ok_def)
    have "lseg (elems h) None (first h) (flat G) None" using s by (simp add: shape_def)
    then have "lseg (elems h) (end_of None (flat G1)) (start_of (zs @ flat G2) None) (zs @ flat G2) None"
      by (simp add: G(1) lseg_append [of _ _ _ "flat G1"])
    then have "lseg (elems h) (end_of None (flat G1)) (Some (hd zs)) (zs @ flat G2) None" using \<open>zs \<noteq> []\<close> by (cases zs) auto
    from find_loop_ok [OF this, of z n]
    have f: "findElementGivenHash h z n ?i = List.find (\<lambda>x. elkey (el h x) = akey z n) zs"
      using ne c Some G(1) cmp by (simp add: findElementGivenHash_def chain_of_def cong: find_cong)
    show ?thesis
    proof (cases "List.find (\<lambda>x. elkey (el h x) = akey z n) zs")
      case None
      then have nz: "\<forall>x \<in> set zs. elkey (el h x) \<noteq> akey z n" by (simp add: find_None_iff)
      have "elkey (el h x) \<noteq> akey z n" if x: "x \<in> set (flat G)" for x
      proof
        assume a: "elkey (el h x) = akey z n"
        then have b: "bucket_of h x = ?i" by (rule bk [OF x])
        obtain j ws where j: "(j, ws) \<in> set G" "x \<in> set ws" using x by force
        then have "(?i, ws) \<in> set G" using g b by (fastforce simp: groups_ok_def)
        then have "ws = zs" using Some g by (simp add: groups_ok_def)
        then show False using nz a j(2) by blast
      qed
      then show ?thesis using f None by simp
    next
      case S: (Some x)
      then have "x \<in> set zs" "elkey (el h x) = akey z n" by (auto simp: find_Some_iff)
      moreover from this have "x \<in> set (flat G)" using G(1) by simp
      ultimately show ?thesis using f S bk by auto
    qed
  qed
qed

lemma clear_loop_ok: "nseg es p xs \<Longrightarrow> distinct xs \<Longrightarrow> clear_loop es p = Some (\<lambda>x. if x \<in> set xs then None else es x)"
proof (induction xs arbitrary: es p)
  case Nil
  then show ?case by (subst clear_loop.simps) simp
next
  case (Cons x xs)
  obtain e where e: "p = Some x" "es x = Some e" "nseg es (el_next e) xs" using Cons.prems by auto
  have "nseg (es(x := None)) (el_next e) xs" using e(3) Cons.prems(2) by (subst nseg_cong [where es = es]) auto
  then have "clear_loop (es(x := None)) (el_next e) = Some (\<lambda>y. if y \<in> set xs then None else (es(x := None)) y)" using Cons by simp
  then show ?case using e by (subst clear_loop.simps) (auto simp: fun_eq_iff)
qed

section \<open>Removing an element\<close>

lemma lseg_remove:
  assumes l: "lseg es None f (xs @ x # ys) None" and d: "distinct (xs @ x # ys)"
    and es': "es' = (case ys of [] \<Rightarrow> id | y # _ \<Rightarrow> up_prev y (end_of None xs)) ((if xs = [] then id else up_next (last xs) (start_of ys None)) es)"
  shows "lseg (es'(x := None)) None (start_of (xs @ ys) None) (xs @ ys) None"
proof -
  define es1 where "es1 = (if xs = [] then id else up_next (last xs) (start_of ys None)) es"
  have e': "es' = (case ys of [] \<Rightarrow> id | y # _ \<Rightarrow> up_prev y (end_of None xs)) es1" by (simp add: es' es1_def)
  have a: "lseg es None f xs (Some x)" "lseg es (Some x) (start_of ys None) ys None"
    using l lseg_start [of es "Some x" _ ys None] unfolding lseg_append by auto
  have la: "xs = [] \<or> last xs \<notin> set ys" using d by (cases "xs = []") (auto dest: last_in_set)
  have 1: "lseg es1 None (start_of xs (start_of ys None)) xs (start_of ys None)"
    using lseg_tail [OF a(1)] lseg_start [OF a(1)] d by (cases "xs = []") (auto simp: es1_def start_of_def)
  have 2: "lseg es1 (Some x) (start_of ys None) ys None"
    by (subst lseg_cong [where es = es]) (use a(2) la in \<open>auto simp: es1_def up_next_def\<close>)
  have "lseg es' None (start_of xs (start_of ys None)) xs (start_of ys None) \<and> lseg es' (end_of None xs) (start_of ys None) ys None"
  proof (cases ys)
    case (Cons y zs)
    have c: "es' = up_prev y (end_of None xs) es1" using Cons by (simp add: e')
    have "lseg es' None (start_of xs (start_of ys None)) xs (start_of ys None) = lseg es1 None (start_of xs (start_of ys None)) xs (start_of ys None)"
      by (rule lseg_cong) (use d Cons in \<open>auto simp: c up_prev_def\<close>)
    moreover have "lseg es' (end_of None xs) (start_of ys None) ys None" unfolding c using lseg_head [OF 2, of "end_of None xs"] d Cons by simp
    ultimately show ?thesis using 1 by blast
  qed (use 1 in \<open>simp add: e'\<close>)
  moreover have "start_of xs (start_of ys None) = start_of (xs @ ys) None" by (cases xs) simp_all
  ultimately have "lseg es' None (start_of (xs @ ys) None) (xs @ ys) None" by (simp add: lseg_append)
  then show ?thesis by (subst lseg_cong [where es = es']) (use d in auto)
qed

definition gremove :: "nat \<Rightarrow> groups \<Rightarrow> groups" where
  "gremove x G = filter (\<lambda>g. snd g \<noteq> []) (map (\<lambda>(i, zs). (i, removeAll x zs)) G)"

lemma gremove_flat: "flat (gremove x G) = removeAll x (flat G)"
  by (induction G) (auto simp: gremove_def split: prod.splits)

lemma gremove_map_of: "map_of (gremove x G) j = (case map_of G j of None \<Rightarrow> None | Some zs \<Rightarrow> if removeAll x zs = [] then None else Some (removeAll x zs))"
  if "distinct (map fst G)"
  using that
proof (induction G)
  case (Cons g G)
  have n: "map_of (gremove x G) j = None" if "j \<notin> fst ` set G"
    using that by (force simp: map_of_eq_None_iff gremove_def)
  obtain i zs where g: "g = (i, zs)" by (rule prod.exhaust)
  have c: "gremove x (g # G) = (if removeAll x zs = [] then [] else [(i, removeAll x zs)]) @ gremove x G" by (simp add: gremove_def g)
  show ?case using Cons n g unfolding c by auto
qed (simp add: gremove_def)

lemma gremove_Cons: "gremove x ((i, zs) # G) = (if removeAll x zs = [] then [] else [(i, removeAll x zs)]) @ gremove x G"
  by (simp add: gremove_def)

lemma gremove_fst: "distinct (map fst G) \<Longrightarrow> distinct (map fst (gremove x G))"
proof (induction G)
  case (Cons g G)
  obtain i zs where g: "g = (i, zs)" by (rule prod.exhaust)
  have "fst ` set (gremove x G) \<subseteq> fst ` set G" by (force simp: gremove_def)
  then have "i \<notin> fst ` set (gremove x G)" using Cons.prems g by auto
  then show ?case using Cons g by (simp add: gremove_Cons)
qed (simp add: gremove_def)

lemma gremove_ok: "groups_ok h G \<Longrightarrow> groups_ok h (gremove x G)"
proof -
  assume g: "groups_ok h G"
  have "distinct (map fst (gremove x G))" using g by (simp add: groups_ok_def gremove_fst)
  moreover have "distinct (flat (gremove x G))" unfolding gremove_flat using g by (simp add: groups_ok_def distinct_removeAll)
  moreover have "zs \<noteq> [] \<and> i < htsize h \<and> (\<forall>y \<in> set zs. bucket_of h y = i)" if m: "(i, zs) \<in> set (gremove x G)" for i zs
  proof -
    obtain ws where "(i, ws) \<in> set G" "zs = removeAll x ws" "zs \<noteq> []" using m by (auto simp: gremove_def)
    then show ?thesis using g by (fastforce simp: groups_ok_def)
  qed
  ultimately show ?thesis by (auto simp: groups_ok_def)
qed

lemma remove_shape:
  assumes s: "shape h G" and x: "x \<in> set (flat G)" and i: "bucket_of h x = i"
  shows "\<exists>h1. removeElementGivenHash h x i = (if hcount h - 1 = 0 then sqlite3HashClear h1 else Some h1) \<and>
    shape h1 (gremove x G) \<and> htsize h1 = htsize h \<and> hcount h1 = hcount h - 1 \<and> copyKey h1 = copyKey h \<and> nextp h1 = nextp h \<and>
    (\<forall>p. map_option (\<lambda>e. (el_key e, el_nKey e, el_data e)) (elems h1 p) =
      (if p = x then None else map_option (\<lambda>e. (el_key e, el_nKey e, el_data e)) (elems h p)))"
proof -
  have g: "groups_ok h G" and l: "lseg (elems h) None (first h) (flat G) None" using s by (simp_all add: shape_def)
  obtain j zs where jz: "(j, zs) \<in> set G" "x \<in> set zs" using x by force
  then have "j = i" using g i by (auto simp: groups_ok_def)
  then have m: "map_of G i = Some zs" using jz(1) g by (simp add: groups_ok_def)
  obtain G1 G2 where G: "G = G1 @ (i, zs) # G2" "i \<notin> fst ` set G1" using group_split [OF m] by blast
  obtain us vs where zs: "zs = us @ x # vs" using jz(2) by (meson split_list)
  define as where "as = flat G1 @ us"
  define bs where "bs = vs @ flat G2"
  have fl: "flat G = as @ x # bs" by (simp add: G(1) zs as_def bs_def)
  have d: "distinct (as @ x # bs)" using g by (simp add: groups_ok_def fl [symmetric])
  have il: "i < htsize h" using g jz \<open>j = i\<close> by (auto simp: groups_ok_def)
  have c: "ht h ! i = (length zs, Some (hd zs))" using s il m by (simp add: shape_def chain_of_def)
  obtain e where e: "elems h x = Some e" "el_prev e = end_of None as" "el_next e = start_of bs None"
    using l unfolding fl lseg_append using lseg_start by fastforce
  define h1 where "h1 = (let h' = (case el_prev e of Some q \<Rightarrow> set_next h q (el_next e) | None \<Rightarrow> h\<lparr>first := el_next e\<rparr>);
         h' = (case el_next e of Some q \<Rightarrow> set_prev h' q (el_prev e) | None \<Rightarrow> h');
         chain = (if Some (hd zs) = Some x then el_next e else Some (hd zs));
         cnt = length zs - 1; chain = (if cnt = 0 then None else chain)
     in h'\<lparr>ht := (ht h)[i := (cnt, chain)], elems := (elems h')(x := None), hcount := hcount h - 1\<rparr>)"
  have f1: "htsize h1 = htsize h" "hcount h1 = hcount h - 1" "copyKey h1 = copyKey h" "nextp h1 = nextp h"
    by (simp_all add: h1_def Let_def split: option.split)
  have run: "removeElementGivenHash h x i = (if hcount h - 1 = 0 then sqlite3HashClear h1 else Some h1)"
    unfolding removeElementGivenHash_def h1_def e(1) option.sel Let_def
    by (cases "el_prev e"; cases "el_next e") (simp_all add: c)
  have rm: "removeAll x (flat G) = as @ bs" using d by (simp add: fl)
  define es' where "es' = (case bs of [] \<Rightarrow> id | y # _ \<Rightarrow> up_prev y (end_of None as)) ((if as = [] then id else up_next (last as) (start_of bs None)) (elems h))"
  have es: "elems h1 = es'(x := None)"
    by (cases bs; cases "as = []") (simp_all add: h1_def Let_def e es'_def end_of_def)
  have fst1: "first h1 = start_of (as @ bs) None"
  proof (cases "as = []")
    case True
    then show ?thesis by (simp add: h1_def Let_def e(2,3) split: option.split)
  next
    case False
    have "first h = Some (hd as)" using lseg_start [OF l] False by (simp add: fl start_of_def)
    then show ?thesis using False by (simp add: h1_def Let_def e(2,3) end_of_def start_of_def split: option.split)
  qed
  have ls: "lseg (elems h1) None (first h1) (flat (gremove x G)) None"
    unfolding gremove_flat rm es fst1 by (rule lseg_remove [OF l [unfolded fl] d es'_def])
  have cont: "map_option (\<lambda>e. (el_key e, el_nKey e, el_data e)) (elems h1 p) =
      (if p = x then None else map_option (\<lambda>e. (el_key e, el_nKey e, el_data e)) (elems h p))" for p
    unfolding es by (cases bs) (auto simp: es'_def up_prev_def up_next_def option.map_comp comp_def)
  have bkt: "bucket_of h1 p = bucket_of h p" if p: "p \<in> set (flat G)" "p \<noteq> x" for p
  proof -
    obtain ep where "elems h p = Some ep" using lseg_dom [OF l p(1)] by blast
    then show ?thesis using cont [of p] p(2) by (auto simp: bucket_of_def f1)
  qed
  have g1: "groups_ok h1 (gremove x G)"
  proof -
    have "groups_ok h (gremove x G)" by (rule gremove_ok [OF g])
    moreover have "bucket_of h1 p = bucket_of h p" if "(k, ws) \<in> set (gremove x G)" "p \<in> set ws" for k ws p
    proof -
      have "p \<in> set (flat (gremove x G))" using that by force
      then have "p \<in> set (flat G)" "p \<noteq> x" unfolding gremove_flat by auto
      then show ?thesis by (rule bkt)
    qed
    ultimately show ?thesis unfolding groups_ok_def f1 by fastforce
  qed
  have buckets: "ht h1 ! k = chain_of (gremove x G) k" if k: "k < htsize h" for k
  proof -
    have mo: "map_of (gremove x G) k = (case map_of G k of None \<Rightarrow> None | Some ws \<Rightarrow> if removeAll x ws = [] then None else Some (removeAll x ws))"
      by (rule gremove_map_of) (use g in \<open>simp add: groups_ok_def\<close>)
    have hk: "ht h ! k = chain_of G k" using s k by (simp add: shape_def)
    show ?thesis
    proof (cases "k = i")
      case False
      have nx: "x \<notin> set ws" "ws \<noteq> []" if "map_of G k = Some ws" for ws
      proof -
        have "(k, ws) \<in> set G" using that by (rule map_of_SomeD)
        then show "x \<notin> set ws" "ws \<noteq> []" using g False i by (auto simp: groups_ok_def)
      qed
      have "ht h1 ! k = ht h ! k" using False by (simp add: h1_def Let_def)
      then show ?thesis unfolding hk chain_of_def mo by (cases "map_of G k") (auto simp: nx)
    next
      case True
      have r: "removeAll x zs = us @ vs" using d by (simp add: zs as_def bs_def)
      have ln: "i < length (ht h)" using il s by (simp add: shape_def)
      have hx: "hd zs = x \<longleftrightarrow> us = []" using d by (cases us) (auto simp: zs as_def)
      have "ht h1 ! i = (length zs - 1, if length zs - 1 = 0 then None else if hd zs = x then el_next e else Some (hd zs))"
        using ln by (simp add: h1_def Let_def)
      then show ?thesis unfolding True chain_of_def mo [unfolded True] m option.case r hx e(3)
        by (cases us; cases vs) (simp_all add: zs bs_def)
    qed
  qed
  have "length (ht h1) = htsize h" using s by (simp add: h1_def Let_def shape_def)
  then have "shape h1 (gremove x G)" using s g1 ls buckets by (simp add: shape_def f1)
  then show ?thesis using run f1 cont by blast
qed

section \<open>The table is a map\<close>

definition hash_inv :: "'d hash \<Rightarrow> groups \<Rightarrow> bool" where
  "hash_inv h G \<longleftrightarrow> lshape h G \<and> hcount h = length (flat G) \<and> dom (elems h) = set (flat G) \<and> (\<forall>x \<in> dom (elems h). x < nextp h) \<and>
     keys_ok h (set (flat G))"

text \<open>The table \<open>h\<close> is well-formed and stands for the map \<open>m\<close> from folded keys to data.\<close>

definition hash_maps :: "'d hash \<Rightarrow> (akey \<Rightarrow> 'd option) \<Rightarrow> bool" where
  "hash_maps h m \<longleftrightarrow> (\<exists>G. hash_inv h G) \<and> (\<forall>k d. m k = Some d \<longleftrightarrow> (\<exists>x e. elems h x = Some e \<and> elkey e = k \<and> el_data e = d))"

lemma hash_invD:
  assumes "hash_inv h G"
  shows "lshape h G" "hcount h = length (flat G)" "dom (elems h) = set (flat G)" "x \<in> dom (elems h) \<Longrightarrow> x < nextp h" "keys_ok h (set (flat G))"
  using assms unfolding hash_inv_def by blast+

lemma init_maps: "hash_maps (sqlite3HashInit ck) Map.empty"
  unfolding hash_maps_def
  by (intro conjI exI [of _ "[]"]) (simp_all add: hash_inv_def sqlite3HashInit_def lshape_def keys_ok_def)

text \<open>Same elements, same keys.\<close>

lemma keys_same:
  assumes "keys_ok h X" "\<And>x. x \<in> X \<Longrightarrow> el_key (el h' x) = el_key (el h x) \<and> el_nKey (el h' x) = el_nKey (el h x)"
  shows "keys_ok h' X"
proof -
  have "elkey (el h' x) = elkey (el h x)" if "x \<in> X" for x using assms(2) [OF that] by (simp add: elkey_def)
  then have "inj_on (\<lambda>x. elkey (el h' x)) X" using assms(1) by (simp add: keys_ok_def inj_on_def)
  then show ?thesis using assms by (simp add: keys_ok_def)
qed

lemma clear_maps:
  assumes i: "hash_inv h G"
  shows "\<exists>h'. sqlite3HashClear h = Some h' \<and> hash_maps h' Map.empty"
proof -
  note d = hash_invD [OF i]
  have "nseg (elems h) (first h) (flat G)" by (rule lseg_nseg [OF lshapeD(2) [OF d(1)]])
  from clear_loop_ok [OF this lshapeD(1) [OF d(1)]]
  have "sqlite3HashClear h = Some (h\<lparr>first := None, ht := [], htsize := 0, elems := (\<lambda>x. if x \<in> set (flat G) then None else elems h x), hcount := 0\<rparr>)"
    by (simp add: sqlite3HashClear_def)
  moreover have "(\<lambda>x. if x \<in> set (flat G) then None else elems h x) = (\<lambda>_. None)" using d(3) by (auto simp: fun_eq_iff)
  moreover have "hash_maps (h\<lparr>first := None, ht := [], htsize := 0, elems := (\<lambda>_. None), hcount := 0\<rparr>) Map.empty"
    unfolding hash_maps_def by (intro conjI exI [of _ "[]"]) (simp_all add: hash_inv_def lshape_def keys_ok_def)
  ultimately show ?thesis by simp
qed

lemma elkey_el: "elems h x = Some e \<Longrightarrow> el_key (el h x) = el_key e \<and> el_nKey (el h x) = el_nKey e \<and> elkey (el h x) = elkey e"
  by simp

text \<open>Searching: the element of a key, if it has one.\<close>

lemma find_elem:
  assumes i: "hash_inv h G" and k: "key_ok z n"
  shows "(if htsize h \<noteq> 0 then findElementGivenHash h z n (strHash z n mod htsize h) else None) = None \<and>
      (\<forall>x e. elems h x = Some e \<longrightarrow> elkey e \<noteq> akey z n) \<or>
    (\<exists>x e. htsize h \<noteq> 0 \<and> findElementGivenHash h z n (strHash z n mod htsize h) = Some x \<and> elems h x = Some e \<and> elkey e = akey z n \<and>
      x \<in> set (flat G) \<and> bucket_of h x = strHash z n mod htsize h)"
proof (cases "htsize h = 0")
  case True
  then have "G = []" using hash_invD(1) [OF i] by (auto simp: lshape_def shape_def)
  then have "dom (elems h) = {}" using hash_invD(3) [OF i] by simp
  then show ?thesis using True by auto
next
  case False
  note d = hash_invD [OF i]
  from find_ok [OF lshapeD(5) [OF d(1) False] d(5) k] show ?thesis
  proof
    assume a: "findElementGivenHash h z n (strHash z n mod htsize h) = None \<and> (\<forall>x \<in> set (flat G). elkey (el h x) \<noteq> akey z n)"
    have "elkey e \<noteq> akey z n" if e: "elems h x = Some e" for x e
    proof -
      have "x \<in> set (flat G)" using e d(3) by blast
      then show ?thesis using a e by (metis option.sel)
    qed
    then show ?thesis using a by simp
  next
    assume "\<exists>x \<in> set (flat G). findElementGivenHash h z n (strHash z n mod htsize h) = Some x \<and> elkey (el h x) = akey z n \<and> bucket_of h x = strHash z n mod htsize h"
    then obtain x where x: "x \<in> set (flat G)" "findElementGivenHash h z n (strHash z n mod htsize h) = Some x" "elkey (el h x) = akey z n"
      "bucket_of h x = strHash z n mod htsize h" by blast
    obtain e where "elems h x = Some e" using x(1) d(3) by blast
    then show ?thesis using x False by auto
  qed
qed

lemma maps_unique:
  assumes "hash_inv h G" "elems h x = Some e" "elems h y = Some e'" "elkey e = elkey e'" shows "x = y"
proof -
  have "x \<in> set (flat G)" "y \<in> set (flat G)" using assms hash_invD(3) by blast+
  moreover have "inj_on (\<lambda>x. elkey (el h x)) (set (flat G))" using hash_invD(5) [OF assms(1)] unfolding keys_ok_def by blast
  ultimately show ?thesis using assms(2-4) by (metis inj_onD option.sel)
qed

lemma find_maps:
  assumes m: "hash_maps h m" and k: "key_ok z n"
  shows "sqlite3HashFind h z n = m (akey z n)"
proof -
  obtain G where i: "hash_inv h G" and rep: "\<And>k d. m k = Some d \<longleftrightarrow> (\<exists>x e. elems h x = Some e \<and> elkey e = k \<and> el_data e = d)"
    using m unfolding hash_maps_def by blast
  have ht: "htsize h = 0 \<longleftrightarrow> ht h = []" by (rule lshapeD(4) [OF hash_invD(1) [OF i]])
  from find_elem [OF i k] show ?thesis
  proof (elim disjE conjE exE)
    assume a: "(if htsize h \<noteq> 0 then findElementGivenHash h z n (strHash z n mod htsize h) else None) = None" "\<forall>x e. elems h x = Some e \<longrightarrow> elkey e \<noteq> akey z n"
    have "sqlite3HashFind h z n = None" using a(1) ht by (auto simp: sqlite3HashFind_def sqlite3HashFindElem_def split: if_splits)
    moreover have "m (akey z n) = None"
    proof (rule ccontr)
      assume "m (akey z n) \<noteq> None"
      then obtain dd where "m (akey z n) = Some dd" by blast
      then show False using rep a(2) by blast
    qed
    ultimately show ?thesis by simp
  next
    fix x e assume a: "htsize h \<noteq> 0" "findElementGivenHash h z n (strHash z n mod htsize h) = Some x" "elems h x = Some e" "elkey e = akey z n"
    then have "sqlite3HashFind h z n = Some (el_data e)" using ht by (simp add: sqlite3HashFind_def sqlite3HashFindElem_def)
    moreover have "m (akey z n) = Some (el_data e)" using rep a(3,4) by blast
    ultimately show ?thesis by simp
  qed
qed

definition content :: "'d elem \<Rightarrow> string \<times> int \<times> 'd" where
  "content e = (el_key e, el_nKey e, el_data e)"

text \<open>A table whose elements have the contents \<open>c\<close> stands for the map that \<open>c\<close> describes.\<close>

lemma maps_content:
  assumes "\<And>p. map_option content (elems h' p) = c p"
  shows "(\<exists>x e. elems h' x = Some e \<and> elkey e = k \<and> el_data e = d) \<longleftrightarrow> (\<exists>x z n. c x = Some (z, n, d) \<and> akey z n = k)"
proof
  assume "\<exists>x e. elems h' x = Some e \<and> elkey e = k \<and> el_data e = d"
  then obtain x e where "elems h' x = Some e" "elkey e = k" "el_data e = d" by blast
  then show "\<exists>x z n. c x = Some (z, n, d) \<and> akey z n = k"
    using assms [of x] by (intro exI [of _ x] exI [of _ "el_key e"] exI [of _ "el_nKey e"]) (simp add: content_def elkey_def)
next
  assume "\<exists>x z n. c x = Some (z, n, d) \<and> akey z n = k"
  then obtain x z n where c: "c x = Some (z, n, d)" "akey z n = k" by blast
  then obtain e where "elems h' x = Some e" "content e = (z, n, d)" using assms [of x] by (cases "elems h' x") auto
  then show "\<exists>x e. elems h' x = Some e \<and> elkey e = k \<and> el_data e = d" using c(2) by (auto simp: content_def elkey_def)
qed

lemma lseg_links:
  "(\<And>p. map_option (\<lambda>e. (el_prev e, el_next e)) (es' p) = map_option (\<lambda>e. (el_prev e, el_next e)) (es p)) \<Longrightarrow> lseg es' pv p xs q \<longleftrightarrow> lseg es pv p xs q"
proof (induction xs arbitrary: pv p)
  case (Cons x xs)
  have "map_option (\<lambda>e. (el_prev e, el_next e)) (es' x) = map_option (\<lambda>e. (el_prev e, el_next e)) (es x)" by (rule Cons.prems)
  then show ?case using Cons.IH [OF Cons.prems] by (cases "es' x"; cases "es x") auto
qed simp

lemma content_dom: "(\<And>p. map_option content (es' p) = (if p = x then None else map_option content (es p))) \<Longrightarrow> dom es' = dom es - {x}"
proof -
  assume a: "\<And>p. map_option content (es' p) = (if p = x then None else map_option content (es p))"
  have "(es' p = None) = (p = x \<or> es p = None)" for p using a [of p] by (cases "es' p"; cases "es p") (auto split: if_splits)
  then show ?thesis by (auto simp: dom_def)
qed

lemma remove_maps:
  assumes i: "hash_inv h G" and m: "\<And>k d. m k = Some d \<longleftrightarrow> (\<exists>x e. elems h x = Some e \<and> elkey e = k \<and> el_data e = d)"
    and n: "htsize h \<noteq> 0" and x: "x \<in> set (flat G)" "elems h x = Some e" "elkey e = k" "bucket_of h x = j"
  shows "\<exists>h'. removeElementGivenHash h x j = Some h' \<and> hash_maps h' (m(k := None))"
proof -
  note d = hash_invD [OF i]
  obtain h1 where h1: "removeElementGivenHash h x j = (if hcount h - 1 = 0 then sqlite3HashClear h1 else Some h1)"
    "shape h1 (gremove x G)" "hcount h1 = hcount h - 1" "nextp h1 = nextp h"
    and c: "\<And>p. map_option content (elems h1 p) = (if p = x then None else map_option content (elems h p))"
    using remove_shape [OF lshapeD(5) [OF d(1) n] x(1,4)] unfolding content_def by blast
  have rd: "set (flat (gremove x G)) = set (flat G) - {x}" "length (flat (gremove x G)) = length (flat G) - 1"
    using x(1) lshapeD(1) [OF d(1)] by (auto simp: gremove_flat distinct_remove1_removeAll [symmetric] length_remove1 simp del: set_concat)
  have dm: "dom (elems h1) = set (flat (gremove x G))" using content_dom [OF c] d(3) rd by simp
  have "keys_ok h1 (set (flat (gremove x G)))"
  proof (rule keys_same)
    show "keys_ok h (set (flat (gremove x G)))" using d(5) unfolding rd keys_ok_def by (auto intro: inj_on_subset simp del: set_concat)
    fix p assume "p \<in> set (flat (gremove x G))"
    then have "p \<noteq> x" "p \<in> dom (elems h1)" using rd dm by auto
    then show "el_key (el h1 p) = el_key (el h p) \<and> el_nKey (el h1 p) = el_nKey (el h p)" using c [of p] by (cases "elems h p"; cases "elems h1 p") (auto simp: content_def)
  qed
  then have inv1: "hash_inv h1 (gremove x G)"
    using h1 dm rd d(2,3,4) unfolding hash_inv_def lshape_def by auto
  have r1: "(m(k := None)) k' = Some dd \<longleftrightarrow> (\<exists>x e. elems h1 x = Some e \<and> elkey e = k' \<and> el_data e = dd)" for k' dd
  proof
    assume "(m(k := None)) k' = Some dd"
    then have "k' \<noteq> k" "m k' = Some dd" by (auto split: if_splits)
    then obtain y e' where y: "elems h y = Some e'" "elkey e' = k'" "el_data e' = dd" using m by blast
    then have "y \<noteq> x" using x(2,3) \<open>k' \<noteq> k\<close> by auto
    then obtain e1 where "elems h1 y = Some e1" "content e1 = content e'" using c [of y] y(1) by (cases "elems h1 y") auto
    then show "\<exists>x e. elems h1 x = Some e \<and> elkey e = k' \<and> el_data e = dd"
      using y by (intro exI [of _ y] exI [of _ e1]) (simp add: content_def elkey_def)
  next
    assume "\<exists>x e. elems h1 x = Some e \<and> elkey e = k' \<and> el_data e = dd"
    then obtain y e1 where y: "elems h1 y = Some e1" "elkey e1 = k'" "el_data e1 = dd" by blast
    then have yx: "y \<noteq> x" using c [of x] by auto
    then obtain e' where e': "elems h y = Some e'" "content e' = content e1" using c [of y] y(1) by (cases "elems h y") auto
    then have "elkey e' = k'" "el_data e' = dd" using y by (auto simp: content_def elkey_def)
    then show "(m(k := None)) k' = Some dd" using m e'(1) maps_unique [OF i e'(1) x(2)] x(3) yx by auto
  qed
  show ?thesis
  proof (cases "hcount h - 1 = 0")
    case False
    then show ?thesis using h1(1) inv1 r1 unfolding hash_maps_def by auto
  next
    case True
    have "flat (gremove x G) = []" using True rd(2) d(2) by (simp del: concat_eq_Nil_conv)
    then have "elems h1 p = None" for p using dm by (metis domIff empty_iff empty_set)
    then have "(m(k := None)) k' = None" for k' using r1 [of k'] by (cases "(m(k := None)) k'") auto
    then have "m(k := None) = Map.empty" by (rule ext)
    then show ?thesis using clear_maps [OF inv1] h1(1) True by auto
  qed
qed

lemma update_maps:
  assumes i: "hash_inv h G" and m: "\<And>k d. m k = Some d \<longleftrightarrow> (\<exists>x e. elems h x = Some e \<and> elkey e = k \<and> el_data e = d)"
    and k: "key_ok z n" and x: "elems h x = Some e" "elkey e = akey z n"
    and h': "h' = h\<lparr>elems := (elems h)(x := map_option (\<lambda>e. e\<lparr>el_data := d, el_key := if copyKey h then el_key e else z\<rparr>) (elems h x))\<rparr>"
  shows "hash_maps h' (m(akey z n := Some d))"
proof -
  note dd = hash_invD [OF i]
  have xk: "key_ok (el_key e) (el_nKey e)"
  proof -
    have "x \<in> set (flat G)" using x(1) dd(3) by blast
    then show ?thesis using dd(5) x(1) unfolding keys_ok_def by (metis option.sel)
  qed
  have en: "el_nKey e = n" using x(2) by (simp add: elkey_def akey_def)
  define e' where "e' = e\<lparr>el_data := d, el_key := if copyKey h then el_key e else z\<rparr>"
  have es: "elems h' = (elems h)(x \<mapsto> e')" by (simp add: h' x(1) e'_def)
  have e': "elkey e' = akey z n" "key_ok (el_key e') (el_nKey e')" "strHash (el_key e') (el_nKey e') = strHash (el_key e) (el_nKey e)" "el_data e' = d"
    "el_prev e' = el_prev e" "el_next e' = el_next e"
  proof -
    show "elkey e' = akey z n" "key_ok (el_key e') (el_nKey e')" "el_data e' = d" "el_prev e' = el_prev e" "el_next e' = el_next e"
      using x(2) xk k en by (auto simp: e'_def elkey_def)
    then show "strHash (el_key e') (el_nKey e') = strHash (el_key e) (el_nKey e)"
      using strHash_cong [of "el_key e'" "el_nKey e'" "el_key e" "el_nKey e"] xk x(2) by (simp add: elkey_def)
  qed
  have f: "htsize h' = htsize h" "ht h' = ht h" "first h' = first h" "hcount h' = hcount h" "nextp h' = nextp h" by (simp_all add: h')
  have bk: "bucket_of h' y = bucket_of h y" for y
    unfolding bucket_of_def f es using e'(3) x(1) by (cases "y = x") auto
  have ls: "lseg (elems h') pv p xs q = lseg (elems h) pv p xs q" for pv p xs q
    unfolding es by (rule lseg_links) (simp add: x(1) e')
  have lsh: "lshape h' G" using dd(1) unfolding lshape_def shape_def groups_ok_def f bk ls by blast
  have ko: "keys_ok h' (set (flat G))"
  proof -
    have ek: "elkey (el h' y) = elkey (el h y)" for y unfolding es using e'(1) x by (cases "y = x") auto
    have "key_ok (el_key (el h' y)) (el_nKey (el h' y))" if "y \<in> set (flat G)" for y
      unfolding es using e'(2) dd(5) that unfolding keys_ok_def by (cases "y = x") auto
    moreover have "inj_on (\<lambda>x. elkey (el h' x)) (set (flat G))" unfolding ek using dd(5) unfolding keys_ok_def by blast
    ultimately show ?thesis unfolding keys_ok_def by blast
  qed
  have "dom (elems h') = dom (elems h)" unfolding es using x(1) by auto
  then have "hash_inv h' G" using lsh ko dd(2-4) unfolding hash_inv_def f by simp
  moreover have "(m(akey z n := Some d)) k' = Some c \<longleftrightarrow> (\<exists>y e. elems h' y = Some e \<and> elkey e = k' \<and> el_data e = c)" for k' c
  proof (cases "k' = akey z n")
    case True
    have "y = x" if "elems h' y = Some e1" "elkey e1 = akey z n" for y e1
    proof (rule ccontr)
      assume "y \<noteq> x"
      then have "elems h y = Some e1" using that(1) es by simp
      from maps_unique [OF i this x(1)] that(2) x(2) \<open>y \<noteq> x\<close> show False by simp
    qed
    then have "(\<exists>y e. elems h' y = Some e \<and> elkey e = k' \<and> el_data e = c) \<longleftrightarrow> c = d"
      unfolding True using e'(1,4) es by (metis fun_upd_same option.sel)
    then show ?thesis using True by auto
  next
    case False
    have "(\<exists>y e. elems h' y = Some e \<and> elkey e = k' \<and> el_data e = c) \<longleftrightarrow> (\<exists>y e. elems h y = Some e \<and> elkey e = k' \<and> el_data e = c)"
    proof -
      have "elems h' y = Some e1 \<and> elkey e1 = k' \<longleftrightarrow> elems h y = Some e1 \<and> elkey e1 = k'" for y e1
        unfolding es using False e'(1) x by (cases "y = x") auto
      then show ?thesis by blast
    qed
    then show ?thesis using m [of k' c] False by simp
  qed
  ultimately show ?thesis unfolding hash_maps_def by blast
qed

section \<open>Inserting an element\<close>

lemma alloc_next_some: "alloc_next os = (ok, os') \<Longrightarrow> set os' \<subseteq> set os \<and> (ok \<or> False \<in> set os)"
  by (cases os) auto

lemma new_element_ok:
  assumes k: "key_ok z n" and r: "new_element os ck z n d = (r, os')"
  shows "set os' \<subseteq> set os \<and> (r = None \<and> False \<in> set os \<or> (\<exists>e. r = Some e \<and> elkey e = akey z n \<and> key_ok (el_key e) (el_nKey e) \<and> el_data e = d))"
proof -
  obtain ok os1 where a: "alloc_next os = (ok, os1)" by (rule prod.exhaust)
  obtain ok2 os2 where b: "alloc_next os1 = (ok2, os2)" by (rule prod.exhaust)
  have n: "\<not> n \<le> 0" using k by (simp add: key_ok_def)
  show ?thesis
    using r alloc_next_some [OF a] alloc_next_some [OF b] k key_ok_take [OF k] akey_take [of n z]
    unfolding new_element_def a prod.case if_not_P [OF n] b by (auto simp: elkey_def split: if_splits)
qed

lemma same_content: "same_el h h' \<Longrightarrow> map_option content (elems h' p) = map_option content (elems h p)"
  by (simp add: same_el_def content_def [abs_def])

text \<open>Resizing on the way: either nothing happens, or the elements are spread over the buckets anew.\<close>

lemma resize_ok:
  assumes l: "lshape h G" and c: "c \<longrightarrow> n = 2 ^ k \<and> k \<le> 31"
  shows "\<exists>h' os' G'. (if c then rehash os h n else Some (h, os)) = Some (h', os') \<and> lshape h' G' \<and> set (flat G') = set (flat G) \<and> same_el h h' \<and>
    hcount h' = hcount h \<and> (h' = h \<and> (c \<longrightarrow> False \<in> set os) \<or> htsize h' = n \<and> set os' \<subseteq> set os) \<and> (\<not> c \<longrightarrow> os' = os)"
proof (cases c)
  case True
  with c have k: "n = 2 ^ k" "k \<le> 31" by simp_all
  from rehash_ok [OF l k(2), of os] obtain h' os' where r: "rehash os h n = Some (h', os')"
    "h' = h \<and> \<not> (\<forall>b \<in> set os. b) \<or> (\<exists>G'. shape h' G' \<and> htsize h' = n \<and> set (flat G') = set (flat G) \<and> same_el h h' \<and> hcount h' = hcount h \<and> set os' \<subseteq> set os)"
    unfolding k(1) by blast
  from r(2) show ?thesis
  proof
    assume "h' = h \<and> \<not> (\<forall>b \<in> set os. b)"
    then have "h' = h" "False \<in> set os" by auto
    then show ?thesis using True r(1) l by (intro exI [of _ h'] exI [of _ os'] exI [of _ G]) (simp add: same_el_refl)
  next
    assume "\<exists>G'. shape h' G' \<and> htsize h' = n \<and> set (flat G') = set (flat G) \<and> same_el h h' \<and> hcount h' = hcount h \<and> set os' \<subseteq> set os"
    then obtain G' where "shape h' G'" "htsize h' = n" "set (flat G') = set (flat G)" "same_el h h'" "hcount h' = hcount h" "set os' \<subseteq> set os" by blast
    then show ?thesis using True r(1) by (intro exI [of _ h'] exI [of _ os'] exI [of _ G']) (simp add: lshape_def del: set_concat)
  qed
next
  case False
  then show ?thesis using l by (intro exI [of _ h] exI [of _ os] exI [of _ G]) (simp add: same_el_refl)
qed

lemma insert_link:
  assumes i: "hash_inv h G" and m: "\<And>k d. m k = Some d \<longleftrightarrow> (\<exists>x e. elems h x = Some e \<and> elkey e = k \<and> el_data e = d)"
    and k: "key_ok z n" and new': "\<forall>x e. elems h x = Some e \<longrightarrow> elkey e \<noteq> akey z n"
    and e: "elkey e = akey z n" "key_ok (el_key e) (el_nKey e)" "el_data e = d" and x: "x = nextp h"
    and h1: "h1 = h\<lparr>elems := (elems h)(x \<mapsto> e), nextp := nextp h + 1, hcount := hcount h + 1\<rparr>"
    and s3: "shape h3 G3" "set (flat G3) = set (flat G)" "same_el h1 h3" "hcount h3 = hcount h1"
  shows "hash_maps (insertElement h3 (strHash z n mod htsize h3) x) (m(akey z n := Some d))"
proof -
  have new: "elkey e \<noteq> akey z n" if "elems h x = Some e" for x e using new' that by blast
  note dd = hash_invD [OF i] and sd = same_elD [OF s3(3)]
  have xn: "x \<notin> dom (elems h)" using dd(4) [of x] x by auto
  have d1: "dom (elems h1) = insert x (dom (elems h))" "elems h1 x = Some e" by (auto simp: h1)
  have x3: "x \<notin> set (flat G3)" "x \<in> dom (elems h3)" using xn dd(3) s3(2) sd(1) d1 by auto
  have ex: "el_key (el h3 x) = el_key e" "el_nKey (el h3 x) = el_nKey e" using sd(2) [of x] d1 by auto
  have b: "bucket_of h3 x = strHash z n mod htsize h3"
    unfolding bucket_of_def ex using strHash_cong [OF e(2) k] e(1) by (simp add: elkey_def)
  define h4 where "h4 = insertElement h3 (strHash z n mod htsize h3) x"
  define G4 where "G4 = ginsert (strHash z n mod htsize h3) x G3"
  have s4: "shape h4 G4" "set (flat G4) = insert x (set (flat G))"
    using insert_shape [OF s3(1) x3 b] s3(2) by (simp_all add: h4_def G4_def del: set_concat)
  have se: "same_el h1 h4" using same_el_trans [OF s3(3) insertElement_same] by (simp add: h4_def)
  note sd4 = same_elD [OF se]
  have ct: "map_option content (elems h4 p) = (if p = x then Some (content e) else map_option content (elems h p))" for p
    using same_content [OF se, of p] by (simp add: h1)
  have len: "length (flat G4) = length (flat G) + 1"
  proof -
    have "length (flat G4) = card (set (flat G4))" "length (flat G) = card (set (flat G))"
      using distinct_card [of "flat G4"] distinct_card [of "flat G"] s4(1) lshapeD(1) [OF dd(1)] by (simp_all add: shape_def groups_ok_def del: set_concat)
    then show ?thesis using s4(2) xn dd(3) by (simp del: set_concat)
  qed
  have key4: "elkey (el h4 y) = (if y = x then akey z n else elkey (el h y)) \<and> (key_ok (el_key (el h4 y)) (el_nKey (el h4 y)))"
    if "y \<in> set (flat G4)" for y
  proof (cases "y = x")
    case True
    then show ?thesis using sd4(2) [of x] d1 e by (auto simp: elkey_def)
  next
    case False
    then have "y \<in> set (flat G)" "y \<in> dom (elems h)" using that s4(2) dd(3) by auto
    then show ?thesis using False sd4(2) [of y] d1(1) dd(5) unfolding keys_ok_def by (auto simp: elkey_def h1)
  qed
  have "keys_ok h4 (set (flat G4))"
    unfolding keys_ok_def
  proof (intro conjI ballI)
    show "inj_on (\<lambda>x. elkey (el h4 x)) (set (flat G4))"
    proof (rule inj_onI)
      fix y y' assume y: "y \<in> set (flat G4)" "y' \<in> set (flat G4)" "elkey (el h4 y) = elkey (el h4 y')"
      have nk: "elkey (el h w) \<noteq> akey z n" if "w \<in> set (flat G4)" "w \<noteq> x" for w
        using new that s4(2) dd(3) by (metis domD insertE option.sel)
      have ij: "inj_on (\<lambda>x. elkey (el h x)) (set (flat G))" using dd(5) unfolding keys_ok_def by blast
      show "y = y'"
      proof (cases "y = x \<or> y' = x")
        case True
        then show ?thesis using key4 [OF y(1)] key4 [OF y(2)] y nk by (metis (full_types))
      next
        case False
        then have "y \<in> set (flat G)" "y' \<in> set (flat G)" "elkey (el h y) = elkey (el h y')" using key4 [OF y(1)] key4 [OF y(2)] y s4(2) by auto
        then show ?thesis using inj_onD [OF ij] by blast
      qed
    qed
  qed (use key4 in blast)
  moreover have "dom (elems h4) = set (flat G4)" using sd4(1) d1(1) s4(2) dd(3) by simp
  moreover have "y < nextp h4" if "y \<in> dom (elems h4)" for y
  proof -
    have "y = x \<or> y \<in> dom (elems h)" using that sd4(1) d1(1) by simp
    then show ?thesis using dd(4) [of y] sd4(4) x by (auto simp: h1 simp del: domIff intro: less_SucI)
  qed
  moreover have "hcount h4 = length (flat G4)" using len s3(4) dd(2) by (simp add: h4_def h1)
  ultimately have "hash_inv h4 G4" using s4(1) unfolding hash_inv_def lshape_def by blast
  moreover have "(m(akey z n := Some d)) k' = Some c \<longleftrightarrow> (\<exists>y e. elems h4 y = Some e \<and> elkey e = k' \<and> el_data e = c)" for k' c
  proof -
    have "(\<exists>y e. elems h4 y = Some e \<and> elkey e = k' \<and> el_data e = c) \<longleftrightarrow> (k' = akey z n \<and> c = d) \<or> (\<exists>y e. elems h y = Some e \<and> elkey e = k' \<and> el_data e = c)"
      (is "?l \<longleftrightarrow> ?r1 \<or> ?r2")
    proof
      assume ?l
      then obtain y e1 where y: "elems h4 y = Some e1" "elkey e1 = k'" "el_data e1 = c" by blast
      show "?r1 \<or> ?r2"
      proof (cases "y = x")
        case True
        then have "content e1 = content e" using ct [of y] y(1) by simp
        then show ?thesis using y e by (auto simp: content_def elkey_def)
      next
        case False
        then obtain e2 where "elems h y = Some e2" "content e2 = content e1" using ct [of y] y(1) by (cases "elems h y") auto
        then have "elems h y = Some e2 \<and> elkey e2 = k' \<and> el_data e2 = c" using y by (auto simp: content_def elkey_def)
        then show ?thesis by blast
      qed
    next
      assume "?r1 \<or> ?r2"
      then show ?l
      proof
        assume r: ?r1
        obtain e1 where "elems h4 x = Some e1" "content e1 = content e" using ct [of x] by (cases "elems h4 x") auto
        then have "elems h4 x = Some e1 \<and> elkey e1 = k' \<and> el_data e1 = c" using r e by (auto simp: content_def elkey_def)
        then show ?l by blast
      next
        assume ?r2
        then obtain y e2 where y: "elems h y = Some e2" "elkey e2 = k'" "el_data e2 = c" by blast
        then have "y \<noteq> x" using xn by auto
        then obtain e1 where "elems h4 y = Some e1" "content e1 = content e2" using ct [of y] y(1) by (cases "elems h4 y") auto
        then have "elems h4 y = Some e1 \<and> elkey e1 = k' \<and> el_data e1 = c" using y by (auto simp: content_def elkey_def)
        then show ?l by blast
      qed
    qed
    moreover have "\<not> ?r2" if "k' = akey z n" using new that by blast
    ultimately show ?thesis using m [of k' c] by auto
  qed
  ultimately show ?thesis unfolding hash_maps_def h4_def [symmetric] by blast
qed

lemma insert_new_maps:
  assumes i: "hash_inv h G" and m: "\<And>k d. m k = Some d \<longleftrightarrow> (\<exists>x e. elems h x = Some e \<and> elkey e = k \<and> el_data e = d)"
    and k: "key_ok z n" and new': "\<forall>x e. elems h x = Some e \<longrightarrow> elkey e \<noteq> akey z n" and small: "hcount h < 2 ^ 31 - 1"
  shows "\<exists>r h' os'. insert_new os h z n d = Some (r, h', os') \<and>
    (r = None \<and> hash_maps h' (m(akey z n := Some d)) \<or> r = Some d \<and> False \<in> set os \<and> hash_maps h' m)"
proof -
  note dd = hash_invD [OF i]
  obtain eo os1 where ne: "new_element os (copyKey h) z n d = (eo, os1)" by (rule prod.exhaust)
  note no = new_element_ok [OF k ne]
  show ?thesis
  proof (cases eo)
    case None
    have "hash_maps h m" unfolding hash_maps_def using i m by blast
    then show ?thesis using None ne no by (simp add: insert_new_def)
  next
    case (Some e)
    then have e: "elkey e = akey z n" "key_ok (el_key e) (el_nKey e)" "el_data e = d" and os1: "set os1 \<subseteq> set os" using no by auto
    define x where "x = nextp h"
    define h1 where "h1 = h\<lparr>elems := (elems h)(nextp h \<mapsto> e), nextp := nextp h + 1, hcount := hcount h + 1\<rparr>"
    have h1x: "h1 = h\<lparr>elems := (elems h)(x \<mapsto> e), nextp := nextp h + 1, hcount := hcount h + 1\<rparr>" by (simp add: h1_def x_def)
    have xn: "x \<notin> set (flat G)" using dd(3,4) x_def by (metis less_irrefl)
    have ls: "lseg (elems h1) None (first h1) (flat G) None"
      by (subst lseg_cong [where es = "elems h"]) (use lshapeD(2) [OF dd(1)] xn in \<open>auto simp: h1x simp del: set_concat\<close>)
    have bk: "bucket_of h1 y = bucket_of h y" if "y \<noteq> x" for y using that by (simp add: bucket_of_def h1x)
    have l1: "lshape h1 G"
    proof (cases "htsize h = 0")
      case True
      then show ?thesis using dd(1) by (auto simp: lshape_def shape_def h1_def)
    next
      case False
      then have s: "shape h G" by (rule lshapeD(5) [OF dd(1)])
      have "groups_ok h1 G"
      proof -
        have "bucket_of h1 y = bucket_of h y" if "(j, zs) \<in> set G" "y \<in> set zs" for j zs y by (rule bk) (use that xn in force)
        moreover have "groups_ok h G" "htsize h1 = htsize h" using s by (simp_all add: shape_def h1_def)
        ultimately show ?thesis unfolding groups_ok_def by fastforce
      qed
      then have "shape h1 G" using s ls by (simp add: shape_def h1_def)
      then show ?thesis by (simp add: lshape_def)
    qed
    have "htsize h1 = 0 \<longrightarrow> (16 :: nat) = 2 ^ 4 \<and> 4 \<le> (31 :: nat)" by simp
    from resize_ok [OF l1 this, of os1]
    obtain h2 os2 G2 where r2: "(if htsize h1 = 0 then rehash os1 h1 16 else Some (h1, os1)) = Some (h2, os2)" "lshape h2 G2" "set (flat G2) = set (flat G)"
      "same_el h1 h2" "hcount h2 = hcount h1" "h2 = h1 \<and> (htsize h1 = 0 \<longrightarrow> False \<in> set os1) \<or> htsize h2 = 16 \<and> set os2 \<subseteq> set os1"
      by (elim exE conjE) (rule that; assumption)
    show ?thesis
    proof (cases "htsize h2 = 0")
      case True
      then have h2: "h2 = h1" "False \<in> set os1" "htsize h = 0" using r2(6) by (auto simp: h1_def)
      then have G: "G = []" "ht h = []" "first h = None" using dd(1) by (auto simp: lshape_def shape_def)
      then have em: "elems h = (\<lambda>_. None)" using dd(3) by simp
      define h3 where "h3 = h2\<lparr>hcount := 0, elems := (elems h2)(x := None)\<rparr>"
      have e3: "elems h3 = (\<lambda>_. None)" by (simp add: h3_def h2 h1x em fun_eq_iff)
      have inv3: "hash_inv h3 []" unfolding hash_inv_def e3 by (simp add: h3_def h2 h1_def lshape_def G keys_ok_def)
      have "m k' \<noteq> Some c" for k' c using m [of k' c] em by simp
      then have "hash_maps h3 m" unfolding hash_maps_def e3 using inv3 by auto
      moreover have "insert_new os h z n d = Some (Some d, h3, os2)"
        unfolding insert_new_def ne Some option.case prod.case Let_def
        unfolding h1_def [symmetric] r2(1) unfolding x_def [symmetric] option.case prod.case if_P [OF True] h3_def by (rule refl)
      ultimately show ?thesis using h2(2) os1 by blast
    next
      case False
      note s2 = lshapeD(5) [OF r2(2) False]
      obtain j where j: "htsize h2 = 2 ^ j" using s2 by (auto simp: shape_def)
      have "htsize h2 < hcount h2 \<longrightarrow> htsize h2 * 2 = 2 ^ Suc j \<and> Suc j \<le> 31"
      proof
        assume "htsize h2 < hcount h2"
        then have "(2 :: nat) ^ j < 2 ^ 31" using small r2(5) j by (simp add: h1_def)
        then have "j < 31" by (rule power_less_imp_less_exp [rotated]) simp
        then show "htsize h2 * 2 = 2 ^ Suc j \<and> Suc j \<le> 31" using j by simp
      qed
      from resize_ok [OF r2(2) this, of os2]
      obtain h3 os3 G3 where r3: "(if htsize h2 < hcount h2 then rehash os2 h2 (htsize h2 * 2) else Some (h2, os2)) = Some (h3, os3)" "lshape h3 G3"
        "set (flat G3) = set (flat G2)" "same_el h2 h3" "hcount h3 = hcount h2" "h3 = h2 \<and> (htsize h2 < hcount h2 \<longrightarrow> False \<in> set os2) \<or> htsize h3 = htsize h2 * 2 \<and> set os3 \<subseteq> set os2"
        by (elim exE conjE) (rule that; assumption)
      have "htsize h3 \<noteq> 0" using r3(6) False by auto
      then have s3: "shape h3 G3" by (rule lshapeD(5) [OF r3(2)])
      have c3: "set (flat G3) = set (flat G)" "same_el h1 h3" "hcount h3 = hcount h1" using r3 r2 same_el_trans by metis+
      have "insert_new os h z n d = Some (None, insertElement h3 (strHash z n mod htsize h3) x, os3)"
        unfolding insert_new_def ne Some option.case prod.case Let_def
        unfolding h1_def [symmetric] r2(1) unfolding x_def [symmetric] option.case prod.case if_not_P [OF False] r3(1) by (rule refl)
      then show ?thesis using insert_link [OF i m k new' e x_def h1x s3 c3] by blast
    qed
  qed
qed

lemma Insert_maps:
  assumes h: "hash_maps h m" and k: "key_ok z n" and small: "hcount h < 2 ^ 31 - 1"
  shows "\<exists>r h' os'. sqlite3HashInsert os h z n data = Some (r, h', os') \<and>
    (r = m (akey z n) \<and> hash_maps h' (m(akey z n := data)) \<or>
     m (akey z n) = None \<and> data \<noteq> None \<and> False \<in> set os \<and> r = data \<and> hash_maps h' m)"
proof -
  obtain G where i: "hash_inv h G" and m: "\<And>k d. m k = Some d \<longleftrightarrow> (\<exists>x e. elems h x = Some e \<and> elkey e = k \<and> el_data e = d)"
    using h unfolding hash_maps_def by blast
  from find_elem [OF i k] show ?thesis
  proof (elim disjE conjE exE)
    assume a: "(if htsize h \<noteq> 0 then findElementGivenHash h z n (strHash z n mod htsize h) else None) = None" "\<forall>x e. elems h x = Some e \<longrightarrow> elkey e \<noteq> akey z n"
    have none: "m (akey z n) = None"
    proof (rule ccontr)
      assume "m (akey z n) \<noteq> None"
      then obtain c where "m (akey z n) = Some c" by blast
      then show False using m a(2) by blast
    qed
    show ?thesis
    proof (cases data)
      case None
      have "m(akey z n := None) = m" using none by auto
      then show ?thesis using a(1) none None h unfolding sqlite3HashInsert_def Let_def by simp
    next
      case (Some d)
      from insert_new_maps [OF i m k a(2) small, where os = os and d = d] show ?thesis
        using a(1) none Some unfolding sqlite3HashInsert_def Let_def by auto
    qed
  next
    fix x e assume a: "htsize h \<noteq> 0" "findElementGivenHash h z n (strHash z n mod htsize h) = Some x" "elems h x = Some e" "elkey e = akey z n"
      "x \<in> set (flat G)" "bucket_of h x = strHash z n mod htsize h"
    have old: "m (akey z n) = Some (el_data e)" using m a(3,4) by blast
    show ?thesis
    proof (cases data)
      case None
      from remove_maps [OF i m a(1,5,3,4,6)] show ?thesis
        using a(1-3) old None unfolding sqlite3HashInsert_def Let_def by auto
    next
      case (Some d)
      from update_maps [OF i m k a(3,4) refl, where d = d] show ?thesis
        using a(1-3) old Some unfolding sqlite3HashInsert_def Let_def by simp
    qed
  qed
qed

section \<open>Walking over the table\<close>

text \<open>The loop \<^verbatim>\<open>for(p=sqliteHashFirst(&h); p; p=sqliteHashNext(p))\<close>: the elements from \<open>p\<close> on.\<close>

partial_function (option) hash_walk :: "'d hash \<Rightarrow> nat option \<Rightarrow> nat list option" where
  "hash_walk h p = (case p of None \<Rightarrow> Some []
     | Some x \<Rightarrow> Option.bind (hash_walk h (el_next (el h x))) (\<lambda>xs. Some (x # xs)))"

lemma hash_walk_ok: "nseg (elems h) p xs \<Longrightarrow> hash_walk h p = Some xs"
  by (induction xs arbitrary: p) (subst hash_walk.simps, auto)+

lemma walk_maps:
  assumes h: "hash_maps h m"
  shows "\<exists>xs. hash_walk h (first h) = Some xs \<and> hcount h = length xs \<and> distinct (map (\<lambda>x. elkey (el h x)) xs) \<and>
    m = map_of (map (\<lambda>x. (elkey (el h x), el_data (el h x))) xs)"
proof -
  obtain G where i: "hash_inv h G" and m: "\<And>k d. m k = Some d \<longleftrightarrow> (\<exists>x e. elems h x = Some e \<and> elkey e = k \<and> el_data e = d)"
    using h unfolding hash_maps_def by blast
  note dd = hash_invD [OF i]
  have w: "hash_walk h (first h) = Some (flat G)" by (rule hash_walk_ok [OF lseg_nseg [OF lshapeD(2) [OF dd(1)]]])
  have ds: "distinct (map (\<lambda>x. elkey (el h x)) (flat G))"
    using dd(5) lshapeD(1) [OF dd(1)] unfolding keys_ok_def distinct_map by blast
  have "m k = map_of (map (\<lambda>x. (elkey (el h x), el_data (el h x))) (flat G)) k" for k
  proof (rule option.exhaust [of "m k"])
    assume n: "m k = None"
    have "k \<notin> (\<lambda>x. elkey (el h x)) ` set (flat G)"
    proof
      assume "k \<in> (\<lambda>x. elkey (el h x)) ` set (flat G)"
      then obtain x where x: "x \<in> set (flat G)" "k = elkey (el h x)" by blast
      then obtain e where e: "elems h x = Some e" using dd(3) by blast
      then have "m k = Some (el_data e)" using m x(2) by auto
      then show False using n by simp
    qed
    then have "map_of (map (\<lambda>x. (elkey (el h x), el_data (el h x))) (flat G)) k = None"
      by (simp add: map_of_eq_None_iff image_image del: set_concat)
    then show ?thesis using n by simp
  next
    fix d assume s: "m k = Some d"
    then obtain x e where x: "elems h x = Some e" "elkey e = k" "el_data e = d" using m by blast
    then have "x \<in> set (flat G)" using dd(3) by blast
    then have "(k, d) \<in> set (map (\<lambda>x. (elkey (el h x), el_data (el h x))) (flat G))" using x by (force simp del: set_concat)
    then have "map_of (map (\<lambda>x. (elkey (el h x), el_data (el h x))) (flat G)) k = Some d"
      by (intro map_of_is_SomeI) (use ds in \<open>simp_all add: comp_def\<close>)
    then show ?thesis using s by simp
  qed
  then have "m = map_of (map (\<lambda>x. (elkey (el h x), el_data (el h x))) (flat G))" by (rule ext)
  then show ?thesis using w ds dd(2) by blast
qed

section \<open>A dictionary\<close>

text \<open>
  Keys are strings with their length. A caller takes the insertion for failed when it gets back the
  data it passed; if that was the old data too, then nothing has changed either way.
\<close>

definition sq_get :: "'d hash \<times> outcomes \<Rightarrow> string \<Rightarrow> 'd option \<times> 'd hash \<times> outcomes" where
  "sq_get = (\<lambda>(h, os) z. (sqlite3HashFind h z (int (length z)), h, os))"

definition sq_put :: "'d hash \<times> outcomes \<Rightarrow> string \<Rightarrow> 'd \<Rightarrow> bool \<times> 'd hash \<times> outcomes" where
  "sq_put = (\<lambda>(h, os) z d. case sqlite3HashInsert os h z (int (length z)) (Some d) of
     None \<Rightarrow> (False, h, os) | Some (r, h, os) \<Rightarrow> (r \<noteq> Some d, h, os))"

definition sq_del :: "'d hash \<times> outcomes \<Rightarrow> string \<Rightarrow> 'd hash \<times> outcomes" where
  "sq_del = (\<lambda>(h, os) z. case sqlite3HashInsert os h z (int (length z)) None of None \<Rightarrow> (h, os) | Some (r, h, os) \<Rightarrow> (h, os))"

definition sq_key :: "string \<Rightarrow> bool" where
  "sq_key z \<longleftrightarrow> cstr z \<and> z \<noteq> []"

definition sq_norm :: "string \<Rightarrow> akey" where
  "sq_norm z = akey z (int (length z))"

definition sq_rep :: "nat \<Rightarrow> 'd hash \<times> outcomes \<Rightarrow> (akey \<Rightarrow> 'd option) \<Rightarrow> bool" where
  "sq_rep n s m \<longleftrightarrow> hash_maps (fst s) m \<and> card (dom m) + n < 2 ^ 31"

lemma count_dom:
  assumes "hash_maps h m"
  shows "finite (dom m)" "hcount h = card (dom m)"
proof -
  obtain xs where xs: "hcount h = length xs" "distinct (map (\<lambda>x. elkey (el h x)) xs)"
    "m = map_of (map (\<lambda>x. (elkey (el h x), el_data (el h x))) xs)" using walk_maps [OF assms] by blast
  have d: "dom m = set (map (\<lambda>x. elkey (el h x)) xs)" unfolding xs(3) by (simp add: dom_map_of_conv_image_fst image_image)
  show "finite (dom m)" unfolding d by (rule finite_set)
  show "hcount h = card (dom m)" unfolding d distinct_card [OF xs(2)] using xs(1) by simp
qed

lemma card_dom_upd: "finite (dom m) \<Longrightarrow> card (dom (m(k := v))) \<le> Suc (card (dom m))"
  by (cases v) (auto simp: card_insert_if intro: card_mono le_SucI card_Diff1_le)

lemma sq_insert:
  assumes "sq_rep (Suc n) (h, os) m" "sq_key z"
  shows "\<exists>r h' os'. sqlite3HashInsert os h z (int (length z)) data = Some (r, h', os') \<and>
    (r = m (sq_norm z) \<and> sq_rep n (h', os') (m(sq_norm z := data)) \<or>
     m (sq_norm z) = None \<and> data \<noteq> None \<and> r = data \<and> sq_rep n (h', os') m)"
proof -
  have m: "hash_maps h m" "card (dom m) + Suc n < 2 ^ 31" using assms(1) by (simp_all add: sq_rep_def)
  have k: "key_ok z (int (length z))" using assms(2) by (simp add: sq_key_def key_ok_def)
  have c: "hcount h < 2 ^ 31 - 1" using m(2) count_dom(2) [OF m(1)] by simp
  have u: "card (dom (m(sq_norm z := data))) + n < 2 ^ 31" using card_dom_upd [OF count_dom(1) [OF m(1)], of "sq_norm z" data] m(2) by linarith
  show ?thesis using Insert_maps [OF m(1) k c, of os data] u m(2) unfolding sq_norm_def [symmetric] by (auto simp: sq_rep_def)
qed

interpretation sq: dictionary sq_rep sq_key sq_norm sq_get sq_put sq_del
proof
  fix n s m k r s' assume a: "sq_rep (Suc n) s m" "sq_key k" "sq_get s k = (r, s')"
  obtain h os where s: "s = (h, os)" by fastforce
  have k: "key_ok k (int (length k))" using a(2) by (simp add: sq_key_def key_ok_def)
  have m: "hash_maps h m" using a(1) by (simp add: s sq_rep_def)
  show "r = m (sq_norm k) \<and> sq_rep n s' m" using a find_maps [OF m k] by (auto simp: s sq_get_def sq_rep_def sq_norm_def)
next
  fix n s m k v ok s' assume a: "sq_rep (Suc n) s m" "sq_key k" "sq_put s k v = (ok, s')"
  obtain h os where s: "s = (h, os)" by fastforce
  obtain r h' os' where i: "sqlite3HashInsert os h k (int (length k)) (Some v) = Some (r, h', os')"
    "r = m (sq_norm k) \<and> sq_rep n (h', os') (m(sq_norm k := Some v)) \<or> m (sq_norm k) = None \<and> r = Some v \<and> sq_rep n (h', os') m"
    using sq_insert [OF a(1) [unfolded s] a(2), of "Some v"] by blast
  have "ok = (r \<noteq> Some v)" "s' = (h', os')" using a(3) i(1) by (simp_all add: s sq_put_def)
  then show "sq_rep n s' (if ok then m(sq_norm k \<mapsto> v) else m)" using i(2) by (auto simp: fun_upd_idem)
next
  fix n s m k assume a: "sq_rep (Suc n) s m" "sq_key k"
  obtain h os where s: "s = (h, os)" by fastforce
  obtain r h' os' where i: "sqlite3HashInsert os h k (int (length k)) None = Some (r, h', os')" "sq_rep n (h', os') (m(sq_norm k := None))"
    using sq_insert [OF a(1) [unfolded s] a(2), of None] by blast
  then show "sq_rep n (sq_del s k) (m(sq_norm k := None))" by (simp add: s sq_del_def)
qed

section \<open>Properties\<close>

text \<open>
  C25: \<open>sqlite3HashInsert\<close> refines updating a map from case-folded keys to data. On a well-formed
  table it returns the old data and inserts, replaces or (for no data) deletes exactly this key;
  or, only when an allocation fails for a new key, it returns the new data and the table stands
  for the same map as before. The table stays well-formed: the one list through all elements, the
  buckets next to each other on it, every count.
\<close>

theorem HashInsert_refines:
  assumes "hash_maps h m" "key_ok z n" "hcount h < 2 ^ 31 - 1"
  shows "\<exists>r h' os'. sqlite3HashInsert os h z n data = Some (r, h', os') \<and>
    (r = m (akey z n) \<and> hash_maps h' (m(akey z n := data)) \<or>
     m (akey z n) = None \<and> data \<noteq> None \<and> False \<in> set os \<and> r = data \<and> hash_maps h' m)"
  by (rule Insert_maps [OF assms])

theorem HashInsert_refines_witness:
  "\<exists>h os'. sqlite3HashInsert [] (sqlite3HashInit True) ''Users'' 6 (Some (42 :: nat)) = Some (None, h, os') \<and>
    hash_maps h [akey ''USERS'' 6 \<mapsto> 42]"
proof -
  have k: "key_ok ''Users'' 6" "akey ''USERS'' 6 = akey ''Users'' 6" "hcount (sqlite3HashInit True :: nat hash) < 2 ^ 31 - 1"
    by (simp_all add: key_ok_def akey_def sqlite3UpperToLower_def sqlite3HashInit_def)
  from HashInsert_refines [OF init_maps k(1,3), of "[]" "Some 42"] show ?thesis unfolding k(2) by auto
qed

text \<open>
  searching a well-formed table finds the data the map has for the case-folded key, and a walk
  from the first element meets every element once: the map is the list of their keys and data.
\<close>

theorem Hash_find_and_walk:
  assumes "hash_maps h m" "key_ok z n"
  shows "sqlite3HashFind h z n = m (akey z n) \<and>
    (\<exists>xs. hash_walk h (first h) = Some xs \<and> hcount h = length xs \<and> distinct (map (\<lambda>x. elkey (el h x)) xs) \<and>
      m = map_of (map (\<lambda>x. (elkey (el h x), el_data (el h x))) xs))"
  using find_maps [OF assms] walk_maps [OF assms(1)] by blast

theorem Hash_find_and_walk_witness:
  "\<exists>h os'. sqlite3HashInsert [] (sqlite3HashInit False) ''Users'' 6 (Some (42 :: nat)) = Some (None, h, os') \<and>
    sqlite3HashFind h ''uSERS'' 6 = Some 42 \<and> sqlite3HashFind h ''uSERS'' 5 = None"
proof -
  have k: "key_ok ''Users'' 6" "key_ok ''uSERS'' 6" "key_ok ''uSERS'' 5" "akey ''uSERS'' 6 = akey ''Users'' 6" "akey ''uSERS'' 5 \<noteq> akey ''Users'' 6"
    "hcount (sqlite3HashInit False :: nat hash) < 2 ^ 31 - 1"
    by (simp_all add: key_ok_def akey_def sqlite3UpperToLower_def sqlite3HashInit_def)
  obtain r h os' where h: "sqlite3HashInsert [] (sqlite3HashInit False) ''Users'' 6 (Some (42 :: nat)) = Some (r, h, os')"
    "r = None" "hash_maps h (Map.empty(akey ''Users'' 6 := Some 42))"
    using Insert_maps [OF init_maps k(1,6), of "[]" "Some 42"] by auto
  show ?thesis using h Hash_find_and_walk [OF h(3) k(2)] Hash_find_and_walk [OF h(3) k(3)] k(4,5) by auto
qed

end
