(* ===== verification/JsBit.thy ===== *)
theory JsBit
  imports Prelude
begin

text \<open>
  Binary logarithms of \<^verbatim>\<open>jsbit.h\<close> and \<^verbatim>\<open>jslog2.c\<close>: the macros over \<^verbatim>\<open>__builtin_clz\<close>, the portable
  ones that halve the word, and the 64-bit function. Both hash tables take their sizes from them.
\<close>

section \<open>The macros\<close>

fun binary_digits :: "nat \<Rightarrow> nat" where
  "binary_digits n = (if n = 0 then 0 else Suc (binary_digits (n div 2)))"

declare binary_digits.simps [simp del]

text \<open>The builtin counts the leading zeros of a 32-bit word; it has no value at 0.\<close>

definition builtin_clz :: "nat \<Rightarrow> nat" where
  "builtin_clz n = 32 - binary_digits n"

definition JS_CEILING_LOG2 :: "nat \<Rightarrow> nat" where
  "JS_CEILING_LOG2 n = (if n \<le> 1 then 0 else 32 - builtin_clz (n - 1))"

definition JS_FLOOR_LOG2_clz :: "u32 \<Rightarrow> nat" where
  "JS_FLOOR_LOG2_clz n = 31 - builtin_clz (unat (n OR 1))"

definition halve :: "nat \<Rightarrow> nat \<times> u32 \<Rightarrow> nat \<times> u32" where
  "halve k = (\<lambda>(log2, j). if drop_bit k j \<noteq> 0 then (log2 + k, drop_bit k j) else (log2, j))"

definition JS_CEILING_LOG2_portable :: "u32 \<Rightarrow> nat" where
  "JS_CEILING_LOG2_portable n =
    (let log2 = (if n AND (n - 1) \<noteq> 0 then 1 else 0)
     in fst (halve 1 (halve 2 (halve 4 (halve 8 (halve 16 (log2, n)))))))"

definition JS_FLOOR_LOG2 :: "u32 \<Rightarrow> nat" where
  "JS_FLOOR_LOG2 n = fst (halve 1 (halve 2 (halve 4 (halve 8 (halve 16 (0, n))))))"

definition halve_or :: "nat \<Rightarrow> u64 \<Rightarrow> u64 \<times> u64 \<Rightarrow> u64 \<times> u64" where
  "halve_or k b = (\<lambda>(log2, n). let m = drop_bit k n in if m \<noteq> 0 then (log2 OR b, m) else (log2, n))"

definition js_FloorLog2wImpl :: "u64 \<Rightarrow> u64" where
  "js_FloorLog2wImpl n =
    (let m = drop_bit 32 n; (log2, n) = (if m \<noteq> 0 then (32, m) else (0, n));
         (log2, n) = halve_or 2 2 (halve_or 4 4 (halve_or 8 8 (halve_or 16 16 (log2, n))))
     in log2 OR drop_bit 1 n)"

section \<open>What they compute\<close>

lemma binary_digits_less: "n < 2 ^ binary_digits n"
proof (induction n rule: binary_digits.induct)
  case (1 n)
  show ?case
  proof (cases "n = 0")
    case False
    have "n < 2 * 2 ^ binary_digits (n div 2)" using 1 [OF False] by linarith
    then show ?thesis using False by (simp add: binary_digits.simps [of n])
  qed simp
qed

lemma binary_digits_le: "n \<noteq> 0 \<Longrightarrow> 2 ^ (binary_digits n - 1) \<le> n"
proof (induction n rule: binary_digits.induct)
  case (1 n)
  show ?case
  proof (cases "n div 2 = 0")
    case True
    then show ?thesis using 1(2) by (simp add: binary_digits.simps [of n] binary_digits.simps [of 0])
  next
    case False
    obtain d where d: "binary_digits (n div 2) = Suc d" using False binary_digits.simps [of "n div 2"] by simp
    have "2 * 2 ^ d \<le> n" using 1(1) [OF 1(2) False] unfolding d by simp
    then show ?thesis using 1(2) by (simp add: binary_digits.simps [of n] d)
  qed
qed

lemma binary_digits_unique:
  assumes "2 ^ d \<le> n" "n < 2 ^ Suc d"
  shows "binary_digits n = Suc d"
proof -
  have n: "n \<noteq> 0"
  proof
    assume "n = 0"
    then show False using assms(1) by simp
  qed
  have "2 ^ d < (2 :: nat) ^ binary_digits n" using assms(1) binary_digits_less [of n] by linarith
  then have "d < binary_digits n" by (rule power_less_imp_less_exp [rotated]) simp
  moreover have "2 ^ (binary_digits n - 1) < (2 :: nat) ^ Suc d" using assms(2) binary_digits_le [OF n] by linarith
  then have "binary_digits n - 1 < Suc d" by (rule power_less_imp_less_exp [rotated]) simp
  ultimately show ?thesis by linarith
qed

lemma binary_digits_width: "n < 2 ^ w \<Longrightarrow> binary_digits n \<le> w"
proof (cases "n = 0")
  case False
  assume "n < 2 ^ w"
  then have "(2 :: nat) ^ (binary_digits n - 1) < 2 ^ w" using binary_digits_le [OF False] by linarith
  then have "binary_digits n - 1 < w" by (rule power_less_imp_less_exp [rotated]) simp
  then show ?thesis by linarith
qed (simp add: binary_digits.simps)

lemma binary_digits_shift: "n div 2 ^ k \<noteq> 0 \<Longrightarrow> binary_digits n = binary_digits (n div 2 ^ k) + k"
proof (induction k arbitrary: n)
  case (Suc k)
  have "n div 2 div 2 ^ k \<noteq> 0" using Suc.prems by (simp add: div_mult2_eq)
  moreover have "n \<noteq> 0"
  proof
    assume "n = 0"
    then show False using calculation by simp
  qed
  ultimately show ?case using Suc.IH [of "n div 2"] by (simp add: binary_digits.simps [of n] div_mult2_eq)
qed simp

lemma CEILING_digits: "n < 2 ^ 32 \<Longrightarrow> JS_CEILING_LOG2 n = (if n \<le> 1 then 0 else binary_digits (n - 1))"
  using binary_digits_width [of "n - 1" 32] by (simp add: JS_CEILING_LOG2_def builtin_clz_def)

lemma CEILING_LOG2:
  assumes "n < 2 ^ 32"
  shows "n \<le> 2 ^ JS_CEILING_LOG2 n" "1 < n \<Longrightarrow> 2 ^ (JS_CEILING_LOG2 n - 1) < n"
  using binary_digits_less [of "n - 1"] binary_digits_le [of "n - 1"] by (auto simp: CEILING_digits [OF assms])

section \<open>The portable macros\<close>

lemma unat_drop_bit: "unat (drop_bit k (w :: 'a :: len word)) = unat w div 2 ^ k"
  by (rule trans [OF unat_drop_bit_eq drop_bit_eq_div])

lemma u32_bound: "unat (n :: u32) < 2 ^ 32"
  using unsigned_less [of n] by simp

lemma digits_pos: "n \<noteq> 0 \<Longrightarrow> 1 \<le> binary_digits n"
  by (simp add: binary_digits.simps [of n])

text \<open>Halving keeps the sum of the digits counted and those left.\<close>

lemma halve_step:
  assumes "unat j < 2 ^ (2 * k)" "j \<noteq> 0" "halve k (l, j) = (l', j')"
  shows "unat j' < 2 ^ k" "j' \<noteq> 0" "l' + binary_digits (unat j') = l + binary_digits (unat j)"
proof -
  have d: "drop_bit k j = 0 \<longleftrightarrow> unat j < 2 ^ k"
    using unat_drop_bit [of k j] by (metis div_eq_0_iff power_not_zero unat_eq_zero zero_neq_numeral)
  have lt: "unat (drop_bit k j) < 2 ^ k"
    using assms(1) unfolding unat_drop_bit by (simp add: less_mult_imp_div_less mult_2 power_add)
  have "drop_bit k j \<noteq> 0 \<Longrightarrow> binary_digits (unat j) = binary_digits (unat (drop_bit k j)) + k"
    using binary_digits_shift [of "unat j" k] unat_drop_bit [of k j] by (metis unat_eq_zero)
  then show "unat j' < 2 ^ k" "j' \<noteq> 0" "l' + binary_digits (unat j') = l + binary_digits (unat j)"
    using assms(2,3) d lt by (auto simp: halve_def split: if_splits)
qed

lemma halve_all:
  assumes "n \<noteq> 0"
  shows "fst (halve 1 (halve 2 (halve 4 (halve 8 (halve 16 (l, n)))))) = l + (binary_digits (unat n) - 1)"
proof -
  obtain a j where 1: "halve 16 (l, n) = (a, j)" by fastforce
  obtain b j2 where 2: "halve 8 (a, j) = (b, j2)" by fastforce
  obtain c j3 where 3: "halve 4 (b, j2) = (c, j3)" by fastforce
  obtain d j4 where 4: "halve 2 (c, j3) = (d, j4)" by fastforce
  obtain e j5 where 5: "halve 1 (d, j4) = (e, j5)" by fastforce
  have "unat n < 2 ^ (2 * 16)" using u32_bound [of n] by simp
  note h1 = halve_step [OF this assms 1]
  note h2 = halve_step [OF _ h1(2) 2, simplified, OF h1(1) [simplified]]
  note h3 = halve_step [OF _ h2(2) 3, simplified, OF h2(1)]
  note h4 = halve_step [OF _ h3(2) 4, simplified, OF h3(1)]
  note h5 = halve_step [OF _ h4(2) 5, simplified, OF h4(1)]
  have "unat j5 = 1" using h5(1,2) by (simp add: unat_eq_zero [symmetric] del: unat_eq_zero)
  then have "binary_digits (unat j5) = 1" using binary_digits_unique [of 0 1] by simp
  moreover have "1 \<le> binary_digits (unat n)" using assms by (intro digits_pos) (metis unat_eq_zero)
  ultimately show ?thesis unfolding 1 2 3 4 5 using h1(3) h2(3) h3(3) h4(3) h5(3) by simp
qed

lemma power_of_two_test:
  assumes "n \<noteq> (0 :: u32)"
  shows "n AND (n - 1) = 0 \<longleftrightarrow> unat n = 2 ^ (binary_digits (unat n) - 1)"
proof -
  define d where "d = binary_digits (unat n) - 1"
  have nz: "unat n \<noteq> 0" using assms by (metis unat_eq_zero)
  have b: "2 ^ d \<le> unat n" "unat n < 2 ^ Suc d"
    using binary_digits_le [OF nz] binary_digits_less [of "unat n"] binary_digits.simps [of "unat n"] nz by (simp_all add: d_def)
  have m: "unat (n - 1) = unat n - 1" using assms by (simp add: unat_minus_one)
  have u: "n AND (n - 1) = 0 \<longleftrightarrow> unat n AND (unat n - 1) = 0"
    unfolding m [symmetric] unsigned_and_eq [symmetric] by (metis unat_0 unat_eq_zero)
  show ?thesis
    unfolding d_def [symmetric] u
  proof
    assume e: "unat n = 2 ^ d"
    have "unat n AND (unat n - 1) = take_bit d (2 ^ d)" unfolding e by (simp add: take_bit_eq_mask mask_eq_exp_minus_1)
    then show "unat n AND (unat n - 1) = 0" by (simp add: take_bit_eq_mod)
  next
    assume z: "unat n AND (unat n - 1) = 0"
    show "unat n = 2 ^ d"
    proof (rule ccontr)
      assume "unat n \<noteq> 2 ^ d"
      then have "2 ^ d \<le> unat n - 1" "unat n - 1 < 2 ^ Suc d" using b by linarith+
      then have "unat n div 2 ^ d = 1" "(unat n - 1) div 2 ^ d = 1" using b by (simp_all add: div_nat_eqI)
      then have "bit (unat n) d" "bit (unat n - 1) d" by (simp_all add: bit_iff_odd)
      then have "bit (unat n AND (unat n - 1)) d" by (simp add: bit_and_iff)
      then show False using z by simp
    qed
  qed
qed

lemma or_one_digits: "n \<noteq> 0 \<Longrightarrow> binary_digits (unat (n OR 1 :: u32)) = binary_digits (unat n)"
proof -
  assume n: "n \<noteq> 0"
  have u: "unat (n OR 1) = unat n + (if even (unat n) then 1 else 0)" unfolding unsigned_or_eq by (simp add: or_Suc_0_eq)
  have "unat (n OR 1) div 2 = unat n div 2" unfolding u by (cases "even (unat n)") (auto elim: evenE)
  moreover have "unat n \<noteq> 0" "unat (n OR 1) \<noteq> 0" using n u by (metis unat_eq_zero, metis add_is_0 unat_eq_zero)
  ultimately show ?thesis using binary_digits.simps [of "unat (n OR 1)"] binary_digits.simps [of "unat n"] by simp
qed

lemma CEILING_portable: "JS_CEILING_LOG2_portable n = JS_CEILING_LOG2 (unat n)"
proof (cases "n = 0")
  case True
  then show ?thesis by (simp add: JS_CEILING_LOG2_portable_def JS_CEILING_LOG2_def halve_def)
next
  case False
  define d where "d = binary_digits (unat n) - 1"
  have nz: "unat n \<noteq> 0" using False by (metis unat_eq_zero)
  have b: "2 ^ d \<le> unat n" "unat n < 2 ^ Suc d"
    using binary_digits_le [OF nz] binary_digits_less [of "unat n"] binary_digits.simps [of "unat n"] nz by (simp_all add: d_def)
  have u: "unat n < 2 ^ 32" by (rule u32_bound)
  have p: "JS_CEILING_LOG2_portable n = (if unat n = 2 ^ d then 0 else 1) + d"
    using halve_all [OF False] power_of_two_test [OF False] by (simp add: JS_CEILING_LOG2_portable_def Let_def d_def)
  show ?thesis
  proof (cases "unat n = 2 ^ d")
    case True
    have "binary_digits (2 ^ d - 1) = d"
    proof (cases d)
      case (Suc d')
      have "(2 :: nat) ^ d' \<le> 2 ^ Suc d' - 1" by (simp add: mult_2 Suc_le_eq flip: One_nat_def)
      then show ?thesis using binary_digits_unique [of d' "2 ^ Suc d' - 1"] Suc by simp
    qed (simp add: binary_digits.simps)
    moreover have "2 ^ d \<le> (1 :: nat) \<longleftrightarrow> d = 0" using power_le_imp_le_exp [of "2 :: nat" d 0] by (cases "d = 0") auto
    ultimately show ?thesis using p True u CEILING_digits [OF u] by auto
  next
    case neq: False
    then have "2 ^ d \<le> unat n - 1" "unat n - 1 < 2 ^ Suc d" using b by linarith+
    then have "binary_digits (unat n - 1) = Suc d" by (rule binary_digits_unique)
    moreover have "1 < unat n" using neq b(1) by (metis One_nat_def le_neq_implies_less nz less_one not_less power_0 le_SucE le_zero_eq one_le_numeral one_le_power)
    ultimately show ?thesis using p neq CEILING_digits [OF u] by simp
  qed
qed

lemma FLOOR_portable: "n \<noteq> 0 \<Longrightarrow> JS_FLOOR_LOG2 n = JS_FLOOR_LOG2_clz n"
  using halve_all [of n 0] or_one_digits [of n] binary_digits_width [OF u32_bound, of n] digits_pos [of "unat n"] unat_eq_zero [of n]
  by (simp add: JS_FLOOR_LOG2_def JS_FLOOR_LOG2_clz_def builtin_clz_def)

section \<open>The 64-bit function\<close>

lemma halve_or_step:
  assumes "unat n < 2 ^ (2 * k)" "n \<noteq> 0"
  obtains c n' where "halve_or k b (l, n) = (if c then l OR b else l, n')" "unat n' < 2 ^ k" "n' \<noteq> 0"
    "binary_digits (unat n) = binary_digits (unat n') + (if c then k else 0)"
proof -
  have d: "drop_bit k n = 0 \<longleftrightarrow> unat n < 2 ^ k"
    using unat_drop_bit [of k n] by (metis div_eq_0_iff power_not_zero unat_eq_zero zero_neq_numeral)
  have lt: "unat (drop_bit k n) < 2 ^ k"
    using assms(1) unfolding unat_drop_bit by (simp add: less_mult_imp_div_less mult_2 power_add)
  show ?thesis
  proof (cases "drop_bit k n = 0")
    case True
    then have "halve_or k b (l, n) = (l, n)" unfolding halve_or_def Let_def prod.case by (simp only: if_False simp_thms if_cancel not_True_eq_False)
    then show ?thesis using that [of False n] True assms(2) d by simp
  next
    case False
    then have "halve_or k b (l, n) = (l OR b, drop_bit k n)" unfolding halve_or_def Let_def prod.case by (simp only: if_True simp_thms)
    moreover have "binary_digits (unat n) = binary_digits (unat (drop_bit k n)) + k"
      using False binary_digits_shift [of "unat n" k] unat_drop_bit [of k n] by (metis unat_eq_zero)
    ultimately show ?thesis using that [of True "drop_bit k n"] lt False by simp
  qed
qed

lemma FloorLog2w_ok:
  assumes "n \<noteq> 0"
  shows "unat (js_FloorLog2wImpl n) = binary_digits (unat n) - 1"
proof -
  have u: "unat n < 2 ^ (2 * 32)" using unsigned_less [of n] by simp
  have "(if drop_bit 32 n \<noteq> 0 then (32, drop_bit 32 n) else (0, n)) = halve_or 32 32 (0, n)" unfolding halve_or_def Let_def prod.case by simp
  moreover obtain c0 n0 where 0: "halve_or 32 32 (0, n) = (if c0 then 0 OR 32 else 0, n0)" "unat n0 < 2 ^ 32" "n0 \<noteq> 0"
    "binary_digits (unat n) = binary_digits (unat n0) + (if c0 then 32 else 0)" by (rule halve_or_step [OF u assms])
  moreover define l0 where "l0 = (if c0 then 0 OR 32 else 0 :: u64)"
  moreover obtain c1 n1 where 1: "halve_or 16 16 (l0, n0) = (if c1 then l0 OR 16 else l0, n1)" "unat n1 < 2 ^ 16" "n1 \<noteq> 0"
    "binary_digits (unat n0) = binary_digits (unat n1) + (if c1 then 16 else 0)" by (rule halve_or_step [of n0 16 16 l0]) (use 0(2,3) in simp_all)
  moreover define l1 where "l1 = (if c1 then l0 OR 16 else l0 :: u64)"
  moreover obtain c2 n2 where 2: "halve_or 8 8 (l1, n1) = (if c2 then l1 OR 8 else l1, n2)" "unat n2 < 2 ^ 8" "n2 \<noteq> 0"
    "binary_digits (unat n1) = binary_digits (unat n2) + (if c2 then 8 else 0)" by (rule halve_or_step [of n1 8 8 l1]) (use 1(2,3) in simp_all)
  moreover define l2 where "l2 = (if c2 then l1 OR 8 else l1 :: u64)"
  moreover obtain c3 n3 where 3: "halve_or 4 4 (l2, n2) = (if c3 then l2 OR 4 else l2, n3)" "unat n3 < 2 ^ 4" "n3 \<noteq> 0"
    "binary_digits (unat n2) = binary_digits (unat n3) + (if c3 then 4 else 0)" by (rule halve_or_step [of n2 4 4 l2]) (use 2(2,3) in simp_all)
  moreover define l3 where "l3 = (if c3 then l2 OR 4 else l2 :: u64)"
  moreover obtain c4 n4 where 4: "halve_or 2 2 (l3, n3) = (if c4 then l3 OR 2 else l3, n4)" "unat n4 < 2 ^ 2" "n4 \<noteq> 0"
    "binary_digits (unat n3) = binary_digits (unat n4) + (if c4 then 2 else 0)" by (rule halve_or_step [of n3 2 2 l3]) (use 3(2,3) in simp_all)
  moreover define l4 where "l4 = (if c4 then l3 OR 2 else l3 :: u64)"
  ultimately have run: "js_FloorLog2wImpl n = l4 OR drop_bit 1 n4" unfolding js_FloorLog2wImpl_def by (simp add: Let_def)
  have nz: "unat n4 \<noteq> 0" using 4(3) by (metis unat_eq_zero)
  obtain c5 :: bool where 5: "drop_bit 1 n4 = (if c5 then 1 else 0)" "binary_digits (unat n4) = (if c5 then 2 else 1)"
  proof (cases "unat n4 < 2")
    case True
    have "unat (drop_bit 1 n4) = 0" unfolding unat_drop_bit using True by simp
    then have "drop_bit 1 n4 = 0" by (metis unat_eq_zero)
    moreover have "binary_digits (unat n4) = 1" using binary_digits_unique [of 0 "unat n4"] nz True by simp
    ultimately show ?thesis using that [of False] by simp
  next
    case False
    have "unat (drop_bit 1 n4) = unat (1 :: u64)" unfolding unat_drop_bit using False 4(2) by simp
    then have "drop_bit 1 n4 = 1" by (simp only: word_unat_eq_iff)
    moreover have "binary_digits (unat n4) = 2" using binary_digits_unique [of 1 "unat n4"] False 4(2) by simp
    ultimately show ?thesis using that [of True] by simp
  qed
  show ?thesis
    unfolding run 0(4) 1(4) 2(4) 3(4) 4(4) 5 l4_def l3_def l2_def l1_def l0_def
    by (cases c0; cases c1; cases c2; cases c3; cases c4; cases c5; simp only: if_True if_False; simp)
qed

text \<open>
  The portable macros, which halve the word five times, agree with those that count leading
  zeros, on every word but 0 for the floor; the ceiling is the least logarithm of a power not below
  the word, the floor the greatest of one not above it, and the 64-bit function gives the same.
\<close>

theorem log2_variants:
  assumes "(n :: u32) \<noteq> 0"
  shows "JS_CEILING_LOG2_portable n = JS_CEILING_LOG2 (unat n) \<and> JS_FLOOR_LOG2 n = JS_FLOOR_LOG2_clz n \<and>
    unat n \<le> 2 ^ JS_CEILING_LOG2_portable n \<and> (1 < unat n \<longrightarrow> 2 ^ (JS_CEILING_LOG2_portable n - 1) < unat n) \<and>
    2 ^ JS_FLOOR_LOG2 n \<le> unat n \<and> unat n < 2 ^ (JS_FLOOR_LOG2 n + 1) \<and>
    unat (js_FloorLog2wImpl (ucast n)) = JS_FLOOR_LOG2 n"
proof (intro conjI)
  have nz: "unat n \<noteq> 0" using assms by (metis unat_eq_zero)
  have f: "JS_FLOOR_LOG2 n = binary_digits (unat n) - 1" using halve_all [OF assms, of 0] by (simp add: JS_FLOOR_LOG2_def)
  show "JS_CEILING_LOG2_portable n = JS_CEILING_LOG2 (unat n)" by (rule CEILING_portable)
  show "unat n \<le> 2 ^ JS_CEILING_LOG2_portable n" "1 < unat n \<longrightarrow> 2 ^ (JS_CEILING_LOG2_portable n - 1) < unat n"
    using CEILING_LOG2 [OF u32_bound] unfolding CEILING_portable by blast+
  show "JS_FLOOR_LOG2 n = JS_FLOOR_LOG2_clz n" by (rule FLOOR_portable [OF assms])
  show "2 ^ JS_FLOOR_LOG2 n \<le> unat n" using binary_digits_le [OF nz] f by simp
  show "unat n < 2 ^ (JS_FLOOR_LOG2 n + 1)" using binary_digits_less [of "unat n"] digits_pos [OF nz] f by simp
  have u: "unat (ucast n :: u64) = unat n" 
    unfolding unsigned_ucast_eq using order_less_le_trans [OF u32_bound [of n], of "2 ^ 64"] by (simp add: take_bit_nat_eq_self)
  then have "(ucast n :: u64) \<noteq> 0" using nz by (metis unat_0)
  then show "unat (js_FloorLog2wImpl (ucast n)) = JS_FLOOR_LOG2 n" using FloorLog2w_ok u f by simp
qed

theorem log2_variants_witness:
  "JS_CEILING_LOG2_portable 1000 = JS_CEILING_LOG2 (unat (1000 :: u32)) \<and> JS_FLOOR_LOG2 1000 = JS_FLOOR_LOG2_clz 1000"
  using log2_variants [of 1000] by simp

end
