(* ===== verification/JsDHash.thy ===== *)
theory JsDHash
  imports JsBit Dictionary
begin

text \<open>
  SpiderMonkey's double hash table (\<^verbatim>\<open>jsdhash.c\<close>, \<^verbatim>\<open>jsdhash.h\<close>): open addressing in a power of
  two of entries, a probe sequence with an odd step, and a collision flag in the stored hash of
  every entry that a later insertion has passed, so that removing an entry leaves a sentinel only
  where a sequence goes on.

  The entry store is a list and a pointer to an entry is its index. The bytes of an entry behind
  its \<^verbatim>\<open>keyHash\<close> are its \<open>body\<close>; the operations of a table (\<^verbatim>\<open>JSDHashTableOps\<close>) are a record of
  functions on keys and bodies. Counters are natural numbers, and so are the sizes, which are
  below 2^24, and the bytes of a store, which stay below 2^32 for entries of less than 256 bytes
  (all tables of the repository); an operation is \<open>None\<close> where a search does not end. \<^verbatim>\<open>JS_DHashTableSetAlphaBounds\<close>
  computes with floating-point numbers and is not modelled; its results, the two load fractions,
  are arbitrary here, but for the bound it keeps.
\<close>

section \<open>The state\<close>

record 'e dent =
  keyHash :: u32
  body :: 'e

record 'e dtable =
  hashShift :: nat
  maxAlphaFrac :: nat
  minAlphaFrac :: nat
  entryCount :: nat
  removedCount :: nat
  generation :: u32
  entryStore :: "'e dent list"

text \<open>\<open>initEntry\<close> may fail; \<open>zeroBody\<close> is what \<^verbatim>\<open>memset\<close> with 0 makes of a body.\<close>

record ('k, 'e) dops =
  hashKey :: "'k \<Rightarrow> u32"
  getKey :: "'e \<Rightarrow> 'k"
  matchEntry :: "'e \<Rightarrow> 'k \<Rightarrow> bool"
  moveEntry :: "'e \<Rightarrow> 'e \<Rightarrow> 'e"
  clearEntry :: "'e \<Rightarrow> 'e"
  initEntry :: "('e \<Rightarrow> 'k \<Rightarrow> bool \<times> 'e) option"
  zeroBody :: 'e

datatype dop = JS_DHASH_LOOKUP | JS_DHASH_ADD | JS_DHASH_REMOVE

definition JS_DHASH_MIN_SIZE :: nat where "JS_DHASH_MIN_SIZE = 16"
definition JS_DHASH_SIZE_LIMIT :: nat where "JS_DHASH_SIZE_LIMIT = 2 ^ 24"

abbreviation JS_DHASH_TABLE_SIZE :: "'e dtable \<Rightarrow> nat" where
  "JS_DHASH_TABLE_SIZE t \<equiv> 2 ^ (32 - hashShift t)"

abbreviation is_free :: "'e dent \<Rightarrow> bool" where "is_free x \<equiv> keyHash x = 0"
abbreviation is_removed :: "'e dent \<Rightarrow> bool" where "is_removed x \<equiv> keyHash x = 1"
abbreviation is_live :: "'e dent \<Rightarrow> bool" where "is_live x \<equiv> 2 \<le> keyHash x"

definition MATCH_ENTRY_KEYHASH :: "'e dent \<Rightarrow> u32 \<Rightarrow> bool" where
  "MATCH_ENTRY_KEYHASH x h \<longleftrightarrow> keyHash x AND NOT 1 = h"

definition MAX_LOAD :: "'e dtable \<Rightarrow> nat \<Rightarrow> nat" where
  "MAX_LOAD t n = maxAlphaFrac t * n div 256"

definition MIN_LOAD :: "'e dtable \<Rightarrow> nat \<Rightarrow> nat" where
  "MIN_LOAD t n = minAlphaFrac t * n div 256"

definition HASH1 :: "u32 \<Rightarrow> nat \<Rightarrow> u32" where
  "HASH1 h s = drop_bit s h"

definition HASH2 :: "u32 \<Rightarrow> nat \<Rightarrow> nat \<Rightarrow> u32" where
  "HASH2 h l s = drop_bit s (push_bit l h) OR 1"

text \<open>The stored hash of a key: never 0 or 1, the collision flag clear.\<close>

definition live_hash :: "('k, 'e) dops \<Rightarrow> 'k \<Rightarrow> u32" where
  "live_hash ops k =
    (let h = hashKey ops k * 0x9E3779B9; h = (if h < 2 then h - 2 else h) in h AND NOT 1)"

definition fresh_store :: "('k, 'e) dops \<Rightarrow> nat \<Rightarrow> 'e dent list" where
  "fresh_store ops n = replicate n \<lparr>keyHash = 0, body = zeroBody ops\<rparr>"

definition JS_DHashTableInit :: "outcomes \<Rightarrow> ('k, 'e) dops \<Rightarrow> nat \<Rightarrow> 'e dtable option \<times> outcomes" where
  "JS_DHashTableInit os ops capacity =
    (let capacity = (if capacity < JS_DHASH_MIN_SIZE then JS_DHASH_MIN_SIZE else capacity);
         log2 = JS_CEILING_LOG2 capacity;
         capacity = 2 ^ log2
     in if JS_DHASH_SIZE_LIMIT \<le> capacity then (None, os)
        else case alloc_next os of (ok, os) \<Rightarrow>
          if \<not> ok then (None, os)
          else (Some \<lparr>hashShift = 32 - log2, maxAlphaFrac = 0xC0, minAlphaFrac = 0x40, entryCount = 0, removedCount = 0,
                 generation = 0, entryStore = fresh_store ops capacity\<rparr>, os))"

definition JS_NewDHashTable :: "outcomes \<Rightarrow> ('k, 'e) dops \<Rightarrow> nat \<Rightarrow> 'e dtable option \<times> outcomes" where
  "JS_NewDHashTable os ops capacity =
    (case alloc_next os of (ok, os) \<Rightarrow> if \<not> ok then (None, os) else JS_DHashTableInit os ops capacity)"

section \<open>Searching\<close>

definition set_flag :: "'e dent list \<Rightarrow> nat \<Rightarrow> 'e dent list" where
  "set_flag st i = st[i := (st ! i)\<lparr>keyHash := keyHash (st ! i) OR 1\<rparr>]"

partial_function (option) search_loop ::
  "('k, 'e) dops \<Rightarrow> 'k \<Rightarrow> u32 \<Rightarrow> dop \<Rightarrow> u32 \<Rightarrow> u32 \<Rightarrow> 'e dent list \<Rightarrow> u32 \<Rightarrow> nat option \<Rightarrow> (nat \<times> 'e dent list) option" where
  "search_loop ops k kh op hash2 sizeMask st hash1 firstRemoved =
    (let hash1 = (hash1 - hash2) AND sizeMask; i = unat hash1; x = st ! i
     in if is_free x then Some (case firstRemoved of Some r \<Rightarrow> if op = JS_DHASH_ADD then r else i | None \<Rightarrow> i, st)
        else if MATCH_ENTRY_KEYHASH x kh \<and> matchEntry ops (body x) k then Some (i, st)
        else if is_removed x then
          search_loop ops k kh op hash2 sizeMask st hash1 (case firstRemoved of None \<Rightarrow> Some i | Some r \<Rightarrow> Some r)
        else search_loop ops k kh op hash2 sizeMask (if op = JS_DHASH_ADD then set_flag st i else st) hash1 firstRemoved)"

definition SearchTable :: "('k, 'e) dops \<Rightarrow> 'e dent list \<Rightarrow> nat \<Rightarrow> 'k \<Rightarrow> u32 \<Rightarrow> dop \<Rightarrow> (nat \<times> 'e dent list) option" where
  "SearchTable ops st shift k kh op =
    (let hash1 = HASH1 kh shift; i = unat hash1; x = st ! i
     in if is_free x then Some (i, st)
        else if MATCH_ENTRY_KEYHASH x kh \<and> matchEntry ops (body x) k then Some (i, st)
        else
          let sizeLog2 = 32 - shift; hash2 = HASH2 kh sizeLog2 shift; sizeMask = mask sizeLog2
          in if is_removed x then search_loop ops k kh op hash2 sizeMask st hash1 (Some i)
             else search_loop ops k kh op hash2 sizeMask (if op = JS_DHASH_ADD then set_flag st i else st) hash1 None)"

section \<open>Resizing\<close>

text \<open>The live entries of the old store go to the new one.\<close>

fun move_loop :: "('k, 'e) dops \<Rightarrow> nat \<Rightarrow> 'e dent list \<Rightarrow> 'e dent list \<Rightarrow> 'e dent list option" where
  "move_loop ops shift [] st = Some st"
| "move_loop ops shift (x # old) st =
    (if is_live x then
       let kh = keyHash x AND NOT 1
       in case SearchTable ops st shift (getKey ops (body x)) kh JS_DHASH_ADD of
            None \<Rightarrow> None
          | Some (i, st) \<Rightarrow> move_loop ops shift old (st[i := \<lparr>keyHash = kh, body = moveEntry ops (body x) (body (st ! i))\<rparr>])
     else move_loop ops shift old st)"

definition ChangeTable :: "outcomes \<Rightarrow> ('k, 'e) dops \<Rightarrow> 'e dtable \<Rightarrow> int \<Rightarrow> (bool \<times> 'e dtable \<times> outcomes) option" where
  "ChangeTable os ops t deltaLog2 =
    (let newLog2 = nat (int (32 - hashShift t) + deltaLog2); newCapacity = 2 ^ newLog2
     in if JS_DHASH_SIZE_LIMIT \<le> newCapacity then Some (False, t, os)
        else case alloc_next os of (ok, os) \<Rightarrow>
          if \<not> ok then Some (False, t, os)
          else case move_loop ops (32 - newLog2) (entryStore t) (fresh_store ops newCapacity) of
            None \<Rightarrow> None
          | Some st \<Rightarrow> Some (True, t\<lparr>hashShift := 32 - newLog2, removedCount := 0, generation := generation t + 1, entryStore := st\<rparr>, os))"

section \<open>Operations\<close>

definition JS_DHashTableRawRemove :: "('k, 'e) dops \<Rightarrow> 'e dtable \<Rightarrow> nat \<Rightarrow> 'e dtable" where
  "JS_DHashTableRawRemove ops t i =
    (let x = entryStore t ! i; b = clearEntry ops (body x)
     in if odd (keyHash x)
        then t\<lparr>entryStore := (entryStore t)[i := \<lparr>keyHash = 1, body = b\<rparr>], removedCount := removedCount t + 1, entryCount := entryCount t - 1\<rparr>
        else t\<lparr>entryStore := (entryStore t)[i := \<lparr>keyHash = 0, body = b\<rparr>], entryCount := entryCount t - 1\<rparr>)"

text \<open>The entry is claimed after its initialisation, which may fail.\<close>

definition claim_entry :: "('k, 'e) dops \<Rightarrow> 'e dtable \<Rightarrow> nat \<Rightarrow> 'k \<Rightarrow> u32 \<Rightarrow> nat option \<times> 'e dtable" where
  "claim_entry ops t i k kh =
    (let x = entryStore t ! i;
         (t, kh) = (if is_removed x then (t\<lparr>removedCount := removedCount t - 1\<rparr>, kh OR 1) else (t, kh))
     in case (case initEntry ops of None \<Rightarrow> (True, body x) | Some ini \<Rightarrow> ini (body x) k) of
          (False, b) \<Rightarrow> (None, t\<lparr>entryStore := (entryStore t)[i := x\<lparr>body := zeroBody ops\<rparr>]\<rparr>)
        | (True, b) \<Rightarrow> (Some i, t\<lparr>entryStore := (entryStore t)[i := \<lparr>keyHash = kh, body = b\<rparr>], entryCount := entryCount t + 1\<rparr>))"

definition add_entry :: "outcomes \<Rightarrow> ('k, 'e) dops \<Rightarrow> 'e dtable \<Rightarrow> 'k \<Rightarrow> u32 \<Rightarrow> (nat option \<times> 'e dtable \<times> outcomes) option" where
  "add_entry os ops t k kh =
    (let n = JS_DHASH_TABLE_SIZE t
     in case (if MAX_LOAD t n \<le> entryCount t + removedCount t
              then ChangeTable os ops t (if n div 4 \<le> removedCount t then 0 else 1)
              else Some (True, t, os)) of
          None \<Rightarrow> None
        | Some (ok, t, os) \<Rightarrow>
            if \<not> ok \<and> entryCount t + removedCount t = n - 1 then Some (None, t, os)
            else case SearchTable ops (entryStore t) (hashShift t) k kh JS_DHASH_ADD of
              None \<Rightarrow> None
            | Some (i, st) \<Rightarrow>
                let t = t\<lparr>entryStore := st\<rparr>
                in if is_live (st ! i) then Some (Some i, t, os)
                   else let (r, t) = claim_entry ops t i k kh in Some (r, t, os))"

definition remove_entry :: "outcomes \<Rightarrow> ('k, 'e) dops \<Rightarrow> 'e dtable \<Rightarrow> 'k \<Rightarrow> u32 \<Rightarrow> (nat option \<times> 'e dtable \<times> outcomes) option" where
  "remove_entry os ops t k kh =
    (case SearchTable ops (entryStore t) (hashShift t) k kh JS_DHASH_REMOVE of
       None \<Rightarrow> None
     | Some (i, _) \<Rightarrow>
         if is_live (entryStore t ! i) then
           let t = JS_DHashTableRawRemove ops t i; n = JS_DHASH_TABLE_SIZE t
           in if JS_DHASH_MIN_SIZE < n \<and> entryCount t \<le> MIN_LOAD t n
              then (case ChangeTable os ops t (- 1) of None \<Rightarrow> None | Some (_, t, os) \<Rightarrow> Some (None, t, os))
              else Some (None, t, os)
         else Some (None, t, os))"

definition JS_DHashTableOperate :: "outcomes \<Rightarrow> ('k, 'e) dops \<Rightarrow> 'e dtable \<Rightarrow> 'k \<Rightarrow> dop \<Rightarrow> (nat option \<times> 'e dtable \<times> outcomes) option" where
  "JS_DHashTableOperate os ops t k op =
    (let kh = live_hash ops k
     in case op of
          JS_DHASH_LOOKUP \<Rightarrow>
            (case SearchTable ops (entryStore t) (hashShift t) k kh op of None \<Rightarrow> None | Some (i, _) \<Rightarrow> Some (Some i, t, os))
        | JS_DHASH_ADD \<Rightarrow> add_entry os ops t k kh
        | JS_DHASH_REMOVE \<Rightarrow> remove_entry os ops t k kh)"

text \<open>
  \<^verbatim>\<open>JS_DHashTableEnumerate\<close>: the enumerator says of every live entry whether to remove it and
  whether to stop, and keeps a state of its own.
\<close>

fun enum_loop :: "('k, 'e) dops \<Rightarrow> (nat \<Rightarrow> 'e \<Rightarrow> 'a \<Rightarrow> bool \<times> bool \<times> 'a) \<Rightarrow> nat list \<Rightarrow> 'e dtable \<Rightarrow> nat \<Rightarrow> bool \<Rightarrow> 'a \<Rightarrow> 'e dtable \<times> nat \<times> bool \<times> 'a" where
  "enum_loop ops etor [] t i didRemove arg = (t, i, didRemove, arg)"
| "enum_loop ops etor (j # js) t i didRemove arg =
    (let x = entryStore t ! j
     in if is_live x then
          let (rm, stop, arg) = etor i (body x) arg;
              (t, didRemove) = (if rm then (JS_DHashTableRawRemove ops t j, True) else (t, didRemove))
          in if stop then (t, i + 1, didRemove, arg) else enum_loop ops etor js t (i + 1) didRemove arg
        else enum_loop ops etor js t i didRemove arg)"

definition JS_DHashTableEnumerate :: "outcomes \<Rightarrow> ('k, 'e) dops \<Rightarrow> 'e dtable \<Rightarrow> (nat \<Rightarrow> 'e \<Rightarrow> 'a \<Rightarrow> bool \<times> bool \<times> 'a) \<Rightarrow> 'a \<Rightarrow>
    (nat \<times> 'e dtable \<times> 'a \<times> outcomes) option" where
  "JS_DHashTableEnumerate os ops t etor arg =
    (let capacity = JS_DHASH_TABLE_SIZE t;
         (t, i, didRemove, arg) = enum_loop ops etor [0..<capacity] t 0 False arg
     in if didRemove \<and> (capacity div 4 \<le> removedCount t \<or> (JS_DHASH_MIN_SIZE < capacity \<and> entryCount t \<le> MIN_LOAD t capacity)) then
          let n = entryCount t + entryCount t div 2;
              n = (if n < JS_DHASH_MIN_SIZE then JS_DHASH_MIN_SIZE else n);
              delta = int (JS_CEILING_LOG2 n) - int (32 - hashShift t)
          in case ChangeTable os ops t delta of None \<Rightarrow> None | Some (_, t, os) \<Rightarrow> Some (i, t, arg, os)
        else Some (i, t, arg, os))"

section \<open>The stub operations\<close>

text \<open>
  \<^verbatim>\<open>JS_DHashGetStubOps\<close>: keys are pointers, the body of an entry is its key, 0 when cleared. The
  key is stored by the caller.
\<close>

definition JS_DHashVoidPtrKeyStub :: "u32 \<Rightarrow> u32" where
  "JS_DHashVoidPtrKeyStub k = drop_bit 2 k"

definition JS_DHashMatchEntryStub :: "u32 \<Rightarrow> u32 \<Rightarrow> bool" where
  "JS_DHashMatchEntryStub b k \<longleftrightarrow> b = k"

definition stub_ops :: "(u32, u32) dops" where
  "stub_ops = \<lparr>hashKey = JS_DHashVoidPtrKeyStub, getKey = (\<lambda>b. b), matchEntry = JS_DHashMatchEntryStub, moveEntry = (\<lambda>from to. from),
     clearEntry = (\<lambda>_. 0), initEntry = None, zeroBody = 0\<rparr>"

fun JS_DHashStringKey :: "u32 \<Rightarrow> string \<Rightarrow> u32" where
  "JS_DHashStringKey h [] = h"
| "JS_DHashStringKey h (c # s) = JS_DHashStringKey (drop_bit 28 h XOR push_bit 4 h XOR word_of_nat (ordc c)) s"

section \<open>Probe sequences\<close>

definition probe :: "nat \<Rightarrow> u32 \<Rightarrow> nat \<Rightarrow> nat" where
  "probe s kh e = unat ((HASH1 kh s - word_of_nat e * HASH2 kh (32 - s) s) AND mask (32 - s))"

lemma uint_and_mask: "l \<le> 32 \<Longrightarrow> uint (w AND mask l :: u32) = uint w mod 2 ^ l"
  unfolding take_bit_eq_mask [symmetric] by (rule trans [OF unsigned_take_bit_eq take_bit_eq_mod])

lemma mod_32: "l \<le> 32 \<Longrightarrow> (x :: int) mod 2 ^ 32 mod 2 ^ l = x mod 2 ^ l"
  by (rule mod_mod_cancel) (simp add: le_imp_power_dvd del: power_numeral)

lemma uint_minus_mask: "l \<le> 32 \<Longrightarrow> uint ((a - b :: u32) AND mask l) = (uint a - uint b) mod 2 ^ l"
proof -
  assume l: "l \<le> 32"
  have "uint (a - b) = (uint a - uint b) mod 2 ^ 32" by (simp add: uint_word_ariths)
  then show ?thesis unfolding uint_and_mask [OF l] by (simp only: mod_32 [OF l])
qed

lemma probe_int: "int (probe s kh e) = (uint (HASH1 kh s) - int e * uint (HASH2 kh (32 - s) s)) mod 2 ^ (32 - s)"
proof -
  have "int (probe s kh e) = (uint (HASH1 kh s) - uint (word_of_nat e * HASH2 kh (32 - s) s)) mod 2 ^ (32 - s)"
    unfolding probe_def using uint_minus_mask [of "32 - s" "HASH1 kh s" "word_of_nat e * HASH2 kh (32 - s) s"] by simp
  moreover have m: "uint (word_of_nat e * HASH2 kh (32 - s) s :: u32) mod 2 ^ (32 - s) = (int e * uint (HASH2 kh (32 - s) s)) mod 2 ^ (32 - s)"
  proof -
    have eq: "uint (word_of_nat e * HASH2 kh (32 - s) s :: u32) = (int e * uint (HASH2 kh (32 - s) s)) mod 2 ^ 32"
    proof -
      have "word_of_nat e = (word_of_int (int e) :: u32)" by simp
      then have "uint (word_of_nat e :: u32) = int e mod 2 ^ 32" by (simp only: uint_word_of_int) simp
      then have "uint (word_of_nat e * w :: u32) = (int e mod 2 ^ 32 * uint w) mod 2 ^ 32" for w
        using uint_word_ariths(3) [of "word_of_nat e" w] by (simp only: len_num1 len_bit0) simp
      then show ?thesis by (simp only: mod_mult_left_eq)
    qed
    show ?thesis unfolding eq by (rule mod_32 [OF diff_le_self])
  qed
  ultimately show ?thesis using mod_diff_cong [OF refl m, of "uint (HASH1 kh s)"] by (simp only:)
qed

lemma probe_less: "probe s kh e < 2 ^ (32 - s)"
proof -
  have "int (probe s kh e) < 2 ^ (32 - s)" unfolding probe_int by (rule pos_mod_bound) simp
  then show ?thesis by (metis of_nat_less_iff of_nat_numeral of_nat_power)
qed

lemma HASH2_odd: "odd (uint (HASH2 kh l s))"
proof -
  have "odd (HASH2 kh l s)" by (simp add: HASH2_def even_or_iff)
  then show ?thesis by (simp only: bit_0 [symmetric] bit_uint_iff) simp
qed

lemma probe_inj: "inj_on (probe s kh) {..<2 ^ (32 - s)}"
proof (rule inj_onI)
  let ?n = "2 ^ (32 - s) :: int" and ?h = "uint (HASH2 kh (32 - s) s)" and ?a = "uint (HASH1 kh s)"
  fix x y assume xy: "x \<in> {..<2 ^ (32 - s)}" "y \<in> {..<2 ^ (32 - s)}" "probe s kh x = probe s kh y"
  then have "(?a - int x * ?h) mod ?n = (?a - int y * ?h) mod ?n" using probe_int by metis
  then have "?n dvd (?a - int x * ?h) - (?a - int y * ?h)" by (simp add: mod_eq_dvd_iff)
  then have "?n dvd (int y - int x) * ?h" by (simp add: algebra_simps)
  moreover have "coprime ?n ?h" using HASH2_odd by simp
  ultimately have "?n dvd int y - int x" by (simp add: coprime_dvd_mult_left_iff)
  then have "int y mod ?n = int x mod ?n" by (simp add: mod_eq_dvd_iff)
  moreover have "int x < ?n" "int y < ?n" using xy(1,2) by (metis lessThan_iff of_nat_less_iff of_nat_numeral of_nat_power)+
  ultimately show "x = y" by simp
qed

lemma probe_surj: "i < 2 ^ (32 - s) \<Longrightarrow> \<exists>e < 2 ^ (32 - s). probe s kh e = i"
proof -
  assume i: "i < 2 ^ (32 - s)"
  have "probe s kh ` {..<2 ^ (32 - s)} = {..<2 ^ (32 - s)}"
    by (rule endo_inj_surj [OF _ _ probe_inj]) (use probe_less in auto)
  then show ?thesis using i by (metis imageE lessThan_iff)
qed

lemma probe_0: "s \<le> 32 \<Longrightarrow> unat (HASH1 kh s) = probe s kh 0"
proof -
  assume s: "s \<le> 32"
  have "HASH1 kh s AND mask (32 - s) = HASH1 kh s"
  proof (rule bit_word_eqI)
    fix n assume "n < LENGTH(32)"
    show "bit (HASH1 kh s AND mask (32 - s)) n = bit (HASH1 kh s) n"
      using s bit_imp_le_length [of kh "s + n"] by (auto simp: HASH1_def bit_and_iff bit_mask_iff bit_drop_bit_eq)
  qed
  then show ?thesis by (simp add: probe_def)
qed

definition hword :: "nat \<Rightarrow> u32 \<Rightarrow> nat \<Rightarrow> u32" where
  "hword s kh e = word_of_nat (probe s kh e)"

lemma hword_0: "s \<le> 32 \<Longrightarrow> HASH1 kh s = hword s kh 0"
  using probe_0 [of s kh] by (simp add: hword_def flip: probe_0)

lemma unat_hword: "unat (hword s kh e) = probe s kh e"
proof -
  have "probe s kh e < 2 ^ LENGTH(32)" using unsigned_less [of "(HASH1 kh s - word_of_nat e * HASH2 kh (32 - s) s) AND mask (32 - s)"]
    by (simp add: probe_def)
  then show ?thesis by (simp add: hword_def unsigned_of_nat take_bit_nat_eq_self)
qed

lemma hword_Suc: "(hword s kh e - HASH2 kh (32 - s) s) AND mask (32 - s) = hword s kh (Suc e)"
proof -
  let ?h = "uint (HASH2 kh (32 - s) s)" and ?a = "uint (HASH1 kh s)"
  have "uint (hword s kh e) = int (probe s kh e)" by (metis unat_hword uint_nat)
  then have "uint ((hword s kh e - HASH2 kh (32 - s) s) AND mask (32 - s)) = ((?a - int e * ?h) mod 2 ^ (32 - s) - ?h) mod 2 ^ (32 - s)"
    using uint_minus_mask [of "32 - s" "hword s kh e" "HASH2 kh (32 - s) s"] by (simp add: probe_int)
  also have "\<dots> = (?a - int (Suc e) * ?h) mod 2 ^ (32 - s)" by (simp add: mod_simps algebra_simps)
  also have "\<dots> = uint (hword s kh (Suc e))" by (metis probe_int unat_hword uint_nat)
  finally show ?thesis by (simp only: word_uint_eq_iff)
qed

section \<open>Collision flags\<close>

lemma and_not_one: "(w OR 1) AND NOT 1 = w AND NOT (1 :: u32)"
  by (rule bit_word_eqI) (auto simp: bit_and_iff bit_or_iff bit_not_iff bit_1_iff)

lemma live_iff: "2 \<le> w \<longleftrightarrow> w AND NOT 1 \<noteq> (0 :: u32)"
proof -
  have "w = (w AND NOT 1) OR (w AND 1)" by (rule bit_word_eqI) (auto simp: bit_and_iff bit_or_iff bit_not_iff bit_1_iff)
  moreover have "(w AND 1) AND NOT 1 = 0" by (rule bit_word_eqI) (auto simp: bit_and_iff bit_not_iff bit_1_iff)
  ultimately have "w AND NOT 1 = 0 \<longleftrightarrow> w = w AND 1" by (metis or.left_neutral)
  also have "w AND 1 = (if odd w then 1 else 0)" by (simp add: and_one_eq mod_2_eq_odd)
  also have "w = (if odd w then 1 else 0) \<longleftrightarrow> w = 0 \<or> w = 1" by auto
  also have "\<dots> \<longleftrightarrow> \<not> 2 \<le> w"
  proof -
    have "w < 2 \<longleftrightarrow> unat w < 2" by (simp add: word_less_nat_alt)
    then show ?thesis by (auto simp: not_le word_unat_eq_iff less_2_cases_iff)
  qed
  finally show ?thesis by blast
qed

lemma flagged_live: "2 \<le> w OR (1 :: u32) \<longleftrightarrow> 2 \<le> w"
  by (simp only: live_iff and_not_one)

lemma key_cases: "w = 0 \<or> w = 1 \<or> 2 \<le> (w :: u32)"
  using less_2_cases_iff [of "unat w"] by (auto simp: word_le_nat_alt word_unat_eq_iff not_le)

section \<open>What a search finds\<close>

definition stop_at :: "('k, 'e) dops \<Rightarrow> 'e dent list \<Rightarrow> nat \<Rightarrow> 'k \<Rightarrow> u32 \<Rightarrow> nat \<Rightarrow> bool" where
  "stop_at ops st s k kh e \<longleftrightarrow> is_free (st ! probe s kh e) \<or>
     (MATCH_ENTRY_KEYHASH (st ! probe s kh e) kh \<and> matchEntry ops (body (st ! probe s kh e)) k)"

definition with_flags :: "nat set \<Rightarrow> 'e dent list \<Rightarrow> 'e dent list" where
  "with_flags S st = map (\<lambda>i. if i \<in> S then (st ! i)\<lparr>keyHash := keyHash (st ! i) OR 1\<rparr> else st ! i) [0..<length st]"

lemma with_flags_simps [simp]:
  "length (with_flags S st) = length st"
  "i < length st \<Longrightarrow> with_flags S st ! i = (if i \<in> S then (st ! i)\<lparr>keyHash := keyHash (st ! i) OR 1\<rparr> else st ! i)"
  by (simp_all add: with_flags_def)

lemma with_flags_empty [simp]: "with_flags {} st = st"
  by (simp add: with_flags_def map_nth)

lemma with_flags_twice: "with_flags S (with_flags T st) = with_flags (S \<union> T) st"
  by (rule nth_equalityI) (auto simp: or.assoc)

lemma set_flag_flags: "i < length st \<Longrightarrow> set_flag st i = with_flags {i} st"
  by (rule nth_equalityI) (auto simp: set_flag_def nth_list_update)

lemma flag_removed: "is_removed (st ! i) \<Longrightarrow> with_flags (insert i S) st = with_flags S st"
  by (rule nth_equalityI) auto

text \<open>Flags on entries that are not free change no kind of entry and no match.\<close>

definition busy :: "nat set \<Rightarrow> 'e dent list \<Rightarrow> bool" where
  "busy S st \<longleftrightarrow> (\<forall>i \<in> S. i < length st \<longrightarrow> \<not> is_free (st ! i))"

lemma flags_kind:
  assumes "busy S st" "i < length st"
  shows "is_free (with_flags S st ! i) \<longleftrightarrow> is_free (st ! i)" "is_removed (with_flags S st ! i) \<longleftrightarrow> is_removed (st ! i)"
    "is_live (with_flags S st ! i) \<longleftrightarrow> is_live (st ! i)" "body (with_flags S st ! i) = body (st ! i)"
    "keyHash (with_flags S st ! i) AND NOT 1 = keyHash (st ! i) AND NOT 1"
proof -
  have l: "is_live (with_flags S st ! i) \<longleftrightarrow> is_live (st ! i)" using assms(2) flagged_live by simp
  have o: "1 \<le> keyHash (st ! i) OR 1" "keyHash (st ! i) OR 1 \<noteq> 0"
  proof -
    have "bit (keyHash (st ! i) OR 1) 0" by (simp add: bit_or_iff)
    then show "keyHash (st ! i) OR 1 \<noteq> 0" by auto
    then show "1 \<le> keyHash (st ! i) OR 1" by (simp add: word_le_nat_alt unat_gt_0 Suc_le_eq)
  qed
  show "is_live (with_flags S st ! i) \<longleftrightarrow> is_live (st ! i)" by (rule l)
  show f: "is_free (with_flags S st ! i) \<longleftrightarrow> is_free (st ! i)" using assms o(2) by (auto simp: busy_def)
  show "is_removed (with_flags S st ! i) \<longleftrightarrow> is_removed (st ! i)"
  proof -
    have "\<not> (2 :: u32) \<le> 1" "\<not> (2 :: u32) \<le> 0" by (simp_all add: word_le_nat_alt)
    then show ?thesis using key_cases [of "keyHash (st ! i)"] key_cases [of "keyHash (with_flags S st ! i)"] f l by metis
  qed
  show "body (with_flags S st ! i) = body (st ! i)" "keyHash (with_flags S st ! i) AND NOT 1 = keyHash (st ! i) AND NOT 1"
    using assms(2) and_not_one by simp_all
qed

lemma stop_flags: "busy S st \<Longrightarrow> length st = 2 ^ (32 - s) \<Longrightarrow> stop_at ops (with_flags S st) s k kh e = stop_at ops st s k kh e"
  using flags_kind [of S st "probe s kh e"] probe_less [of s kh e] by (simp only: stop_at_def MATCH_ENTRY_KEYHASH_def)

definition first_removed :: "'e dent list \<Rightarrow> nat \<Rightarrow> u32 \<Rightarrow> nat list \<Rightarrow> nat option" where
  "first_removed st s kh es = map_option (probe s kh) (List.find (\<lambda>e. is_removed (st ! probe s kh e)) es)"

lemma search_loop_ok:
  assumes "length st = 2 ^ (32 - s)" "e < E" "stop_at ops st s k kh E" "\<forall>e'. e < e' \<and> e' < E \<longrightarrow> \<not> stop_at ops st s k kh e'"
  shows "search_loop ops k kh op (HASH2 kh (32 - s) s) (mask (32 - s)) st (hword s kh e) fr =
    Some (if is_free (st ! probe s kh E) \<and> op = JS_DHASH_ADD
          then (case fr of Some r \<Rightarrow> r | None \<Rightarrow> (case first_removed st s kh [Suc e..<E] of Some r \<Rightarrow> r | None \<Rightarrow> probe s kh E))
          else probe s kh E,
      with_flags (if op = JS_DHASH_ADD then probe s kh ` {e<..<E} else {}) st)"
  using assms
proof (induction "E - e" arbitrary: e st fr rule: less_induct)
  case less
  let ?h2 = "HASH2 kh (32 - s) s" and ?m = "mask (32 - s) :: u32" and ?p = "probe s kh"
  let ?i = "?p (Suc e)"
  have hs: "(hword s kh e - ?h2) AND ?m = hword s kh (Suc e)" "unat (hword s kh (Suc e)) = ?i" by (rule hword_Suc, rule unat_hword)
  have il: "?i < length st" using probe_less less.prems(1) by simp
  show ?case
  proof (cases "Suc e = E")
    case True
    have em: "{e<..<Suc e} = {}" "[Suc e..<Suc e] = []" by auto
    have st: "stop_at ops st s k kh (Suc e)" using less.prems(3) True by simp
    show ?thesis
    proof (cases "is_free (st ! ?i)")
      case f: True
      show ?thesis unfolding True [symmetric] em
        by (subst search_loop.simps) (simp add: hs Let_def f first_removed_def split: option.split)
    next
      case f: False
      then have "MATCH_ENTRY_KEYHASH (st ! ?i) kh \<and> matchEntry ops (body (st ! ?i)) k" using st unfolding stop_at_def by blast
      then show ?thesis unfolding True [symmetric] em using f
        by (subst search_loop.simps) (simp add: hs Let_def)
    qed
  next
    case False
    then have E: "Suc e < E" using less.prems(2) by simp
    have ns: "\<not> stop_at ops st s k kh (Suc e)" using less.prems(4) E by simp
    then have nf: "\<not> is_free (st ! ?i)" and nm: "\<not> (MATCH_ENTRY_KEYHASH (st ! ?i) kh \<and> matchEntry ops (body (st ! ?i)) k)"
      unfolding stop_at_def by blast+
    define st' where "st' = (if op = JS_DHASH_ADD then with_flags {?i} st else st)"
    define fr' where "fr' = (if is_removed (st ! ?i) then (case fr of None \<Rightarrow> Some ?i | Some r \<Rightarrow> Some r) else fr)"
    have b: "busy {?i} st" using nf by (simp add: busy_def)
    have run: "search_loop ops k kh op ?h2 ?m st (hword s kh e) fr = search_loop ops k kh op ?h2 ?m st' (hword s kh (Suc e)) fr'"
    proof (cases "is_removed (st ! ?i)")
      case True
      then have "st' = st" using flag_removed [of st ?i "{}"] by (simp add: st'_def)
      then show ?thesis
        by (subst search_loop.simps) (simp only: Let_def hs if_not_P [OF nf] if_not_P [OF nm] if_P [OF True] fr'_def)
    next
      case False
      have "(if op = JS_DHASH_ADD then set_flag st ?i else st) = st'" using set_flag_flags [OF il] by (simp add: st'_def)
      then show ?thesis
        by (subst search_loop.simps) (simp only: Let_def hs if_not_P [OF nf] if_not_P [OF nm] if_not_P [OF False] fr'_def)
    qed
    have kind: "is_free (st' ! ?p x) = is_free (st ! ?p x)" "is_removed (st' ! ?p x) = is_removed (st ! ?p x)" for x
      using flags_kind [OF b, of "?p x"] probe_less less.prems(1) by (simp_all add: st'_def)
    have stop: "stop_at ops st' s k kh x = stop_at ops st s k kh x" for x
      by (simp add: st'_def stop_flags [OF b less.prems(1)])
    have len: "length st' = 2 ^ (32 - s)" using less.prems(1) by (simp add: st'_def)
    have fr1: "first_removed st' s kh xs = first_removed st s kh xs" for xs by (simp add: first_removed_def kind)
    have up: "[Suc e..<E] = Suc e # [Suc (Suc e)..<E]" using E by (simp add: upt_conv_Cons)
    have fl: "with_flags (if op = JS_DHASH_ADD then ?p ` {Suc e<..<E} else {}) st' = with_flags (if op = JS_DHASH_ADD then ?p ` {e<..<E} else {}) st"
    proof (cases "op = JS_DHASH_ADD")
      case True
      have "{e<..<E} = insert (Suc e) {Suc e<..<E}" using E by auto
      then have "?p ` {e<..<E} = ?p ` {Suc e<..<E} \<union> {?i}" by simp
      then show ?thesis using True by (simp add: st'_def with_flags_twice)
    qed (simp add: st'_def)
    have "E - Suc e < E - e" using E by simp
    from less.hyps [OF this len E] less.prems(3,4) stop
    have "search_loop ops k kh op ?h2 ?m st' (hword s kh (Suc e)) fr' =
      Some (if is_free (st' ! ?p E) \<and> op = JS_DHASH_ADD
          then (case fr' of Some r \<Rightarrow> r | None \<Rightarrow> (case first_removed st' s kh [Suc (Suc e)..<E] of Some r \<Rightarrow> r | None \<Rightarrow> ?p E))
          else ?p E, with_flags (if op = JS_DHASH_ADD then ?p ` {Suc e<..<E} else {}) st')" by simp
    then show ?thesis unfolding run fl kind fr1 up
      by (auto simp: fr'_def first_removed_def split: option.splits)
  qed
qed

lemma Search_ok:
  assumes "length st = 2 ^ (32 - s)" "s \<le> 32" "stop_at ops st s k kh E" "\<forall>e' < E. \<not> stop_at ops st s k kh e'"
  shows "SearchTable ops st s k kh op =
    Some (if is_free (st ! probe s kh E) \<and> op = JS_DHASH_ADD
          then (case first_removed st s kh [0..<E] of Some r \<Rightarrow> r | None \<Rightarrow> probe s kh E)
          else probe s kh E,
      with_flags (if op = JS_DHASH_ADD then probe s kh ` {..<E} else {}) st)"
proof -
  let ?p = "probe s kh"
  have p0: "unat (HASH1 kh s) = ?p 0" "HASH1 kh s = hword s kh 0" using assms(2) by (rule probe_0, rule hword_0)
  have il: "?p 0 < length st" using probe_less assms(1) by simp
  show ?thesis
  proof (cases "E = 0")
    case True
    then show ?thesis using assms(3) p0 by (auto simp: SearchTable_def Let_def stop_at_def first_removed_def)
  next
    case False
    then have E: "0 < E" by simp
    have ns: "\<not> stop_at ops st s k kh 0" using assms(4) E by blast
    then have nf: "\<not> is_free (st ! ?p 0)" and nm: "\<not> (MATCH_ENTRY_KEYHASH (st ! ?p 0) kh \<and> matchEntry ops (body (st ! ?p 0)) k)"
      unfolding stop_at_def by blast+
    then have b: "busy {?p 0} st" by (simp add: busy_def)
    define st' where "st' = (if op = JS_DHASH_ADD then with_flags {?p 0} st else st)"
    define fr where "fr = (if is_removed (st ! ?p 0) then Some (?p 0) else None)"
    have run: "SearchTable ops st s k kh op = search_loop ops k kh op (HASH2 kh (32 - s) s) (mask (32 - s)) st' (hword s kh 0) fr"
    proof (cases "is_removed (st ! ?p 0)")
      case True
      then have "st' = st" using flag_removed [of st "?p 0" "{}"] by (simp add: st'_def)
      then show ?thesis
        unfolding SearchTable_def Let_def p0(1) p0(2) [symmetric] by (simp only: if_not_P [OF nf] if_not_P [OF nm] if_P [OF True] fr_def)
    next
      case False
      have "(if op = JS_DHASH_ADD then set_flag st (?p 0) else st) = st'" using set_flag_flags [OF il] by (simp add: st'_def)
      then show ?thesis
        unfolding SearchTable_def Let_def p0(1) p0(2) [symmetric] by (simp only: if_not_P [OF nf] if_not_P [OF nm] if_not_P [OF False] fr_def)
    qed
    have kind: "is_free (st' ! ?p x) = is_free (st ! ?p x)" "is_removed (st' ! ?p x) = is_removed (st ! ?p x)" for x
      using flags_kind [OF b, of "?p x"] probe_less assms(1) by (simp_all add: st'_def)
    have stop: "stop_at ops st' s k kh x = stop_at ops st s k kh x" for x
      by (simp add: st'_def stop_flags [OF b assms(1)])
    have len: "length st' = 2 ^ (32 - s)" using assms(1) by (simp add: st'_def)
    have fr1: "first_removed st' s kh xs = first_removed st s kh xs" for xs by (simp add: first_removed_def kind)
    have up: "[0..<E] = 0 # [Suc 0..<E]" using E by (simp add: upt_conv_Cons)
    have fl: "with_flags (if op = JS_DHASH_ADD then ?p ` {0<..<E} else {}) st' = with_flags (if op = JS_DHASH_ADD then ?p ` {..<E} else {}) st"
    proof (cases "op = JS_DHASH_ADD")
      case True
      have "{..<E} = insert 0 {0<..<E}" using E by auto
      then have "?p ` {..<E} = ?p ` {0<..<E} \<union> {?p 0}" by simp
      then show ?thesis using True by (simp add: st'_def with_flags_twice)
    qed (simp add: st'_def)
    have "stop_at ops st' s k kh E" "\<forall>e'. 0 < e' \<and> e' < E \<longrightarrow> \<not> stop_at ops st' s k kh e'" using assms(3,4) stop by auto
    from search_loop_ok [OF len E this, of op fr] show ?thesis unfolding run fl kind fr1 up
      by (auto simp: fr_def first_removed_def split: option.splits)
  qed
qed

section \<open>A well-formed entry store\<close>

text \<open>What the table relies on of its operations.\<close>

definition ops_ok :: "('k, 'e) dops \<Rightarrow> bool" where
  "ops_ok ops \<longleftrightarrow> (\<forall>b k. matchEntry ops b k \<longleftrightarrow> getKey ops b = k) \<and> (\<forall>from to. moveEntry ops from to = from) \<and>
     (\<forall>ini b k. initEntry ops = Some ini \<longrightarrow> fst (ini b k) \<and> getKey ops (snd (ini b k)) = k)"

text \<open>
  Every live entry has the hash of its key, and all entries before it on its probe sequence have
  the collision flag; no key is there twice.
\<close>

definition store_ok :: "('k, 'e) dops \<Rightarrow> nat \<Rightarrow> 'e dent list \<Rightarrow> bool" where
  "store_ok ops s st \<longleftrightarrow> s \<le> 32 \<and> length st = 2 ^ (32 - s) \<and>
     (\<forall>i < length st. is_live (st ! i) \<longrightarrow> keyHash (st ! i) AND NOT 1 = live_hash ops (getKey ops (body (st ! i))) \<and>
        (\<exists>e. probe s (live_hash ops (getKey ops (body (st ! i)))) e = i \<and>
          (\<forall>e' < e. odd (keyHash (st ! probe s (live_hash ops (getKey ops (body (st ! i)))) e'))))) \<and>
     (\<forall>i < length st. \<forall>j < length st. is_live (st ! i) \<and> is_live (st ! j) \<and> getKey ops (body (st ! i)) = getKey ops (body (st ! j)) \<longrightarrow> i = j)"

lemma store_okD:
  assumes "store_ok ops s st"
  shows "s \<le> 32" "length st = 2 ^ (32 - s)"
    "i < length st \<Longrightarrow> is_live (st ! i) \<Longrightarrow> keyHash (st ! i) AND NOT 1 = live_hash ops (getKey ops (body (st ! i)))"
    "i < length st \<Longrightarrow> is_live (st ! i) \<Longrightarrow> \<exists>e. probe s (live_hash ops (getKey ops (body (st ! i)))) e = i \<and>
      (\<forall>e' < e. odd (keyHash (st ! probe s (live_hash ops (getKey ops (body (st ! i)))) e')))"
    "i < length st \<Longrightarrow> j < length st \<Longrightarrow> is_live (st ! i) \<Longrightarrow> is_live (st ! j) \<Longrightarrow> getKey ops (body (st ! i)) = getKey ops (body (st ! j)) \<Longrightarrow> i = j"
  using assms unfolding store_ok_def by blast+

definition st_maps :: "('k, 'e) dops \<Rightarrow> 'e dent list \<Rightarrow> ('k \<Rightarrow> 'e option) \<Rightarrow> bool" where
  "st_maps ops st m \<longleftrightarrow> (\<forall>k b. m k = Some b \<longleftrightarrow> (\<exists>i < length st. is_live (st ! i) \<and> getKey ops (body (st ! i)) = k \<and> body (st ! i) = b))"

lemma live_hash_live: "live_hash ops k AND NOT 1 = live_hash ops k" "live_hash ops k \<noteq> 0"
proof -
  define h where "h = hashKey ops k * 0x9E3779B9"
  define h' where "h' = (if h < 2 then h - 2 else h)"
  have e: "live_hash ops k = h' AND NOT 1" by (simp add: live_hash_def h_def h'_def Let_def)
  show "live_hash ops k AND NOT 1 = live_hash ops k" unfolding e by (simp add: and.assoc)
  have "2 \<le> h'"
  proof (cases "h < 2")
    case True
    then have "h = 0 \<or> h = 1" using key_cases [of h] by auto
    then show ?thesis by (auto simp: h'_def live_iff)
  qed (simp add: h'_def)
  then show "live_hash ops k \<noteq> 0" unfolding e by (simp only: live_iff) simp
qed

lemma odd_not_free: "odd (keyHash x) \<Longrightarrow> \<not> is_free x"
  by auto

lemma live_not_free: "is_live x \<Longrightarrow> \<not> is_free x \<and> \<not> is_removed x"
  by (auto simp: word_le_nat_alt)

text \<open>The search stops at the entry of the key, or, if there is none, at a free one.\<close>

lemma search_stop:
  assumes o: "ops_ok ops" and s: "store_ok ops s st" and f: "\<exists>i < length st. is_free (st ! i)"
  shows "\<exists>E. stop_at ops st s k (live_hash ops k) E \<and> (\<forall>e' < E. \<not> stop_at ops st s k (live_hash ops k) e') \<and>
    ((is_live (st ! probe s (live_hash ops k) E) \<and> getKey ops (body (st ! probe s (live_hash ops k) E)) = k) \<or>
     (is_free (st ! probe s (live_hash ops k) E) \<and> \<not> (\<exists>i < length st. is_live (st ! i) \<and> getKey ops (body (st ! i)) = k)))"
proof -
  let ?kh = "live_hash ops k"
  let ?S = "stop_at ops st s k ?kh"
  note d = store_okD [OF s]
  have pl: "probe s ?kh e < length st" for e using probe_less d(2) by simp
  obtain i where i: "i < length st" "is_free (st ! i)" using f by blast
  obtain e0 where e0: "probe s ?kh e0 = i" using probe_surj [of i s ?kh] i(1) d(2) by auto
  have "?S e0" using i(2) e0 by (simp add: stop_at_def)
  define E where "E = (LEAST e. ?S e)"
  have E: "?S E" "\<forall>e' < E. \<not> ?S e'" using \<open>?S e0\<close> unfolding E_def by (auto intro: LeastI dest: not_less_Least)
  have mt: "is_live (st ! probe s ?kh e) \<and> getKey ops (body (st ! probe s ?kh e)) = k" if "?S e" "\<not> is_free (st ! probe s ?kh e)" for e
    using that o live_hash_live(2) [of ops k] by (auto simp: stop_at_def MATCH_ENTRY_KEYHASH_def ops_ok_def live_iff)
  show ?thesis
  proof (cases "\<exists>i < length st. is_live (st ! i) \<and> getKey ops (body (st ! i)) = k")
    case False
    then have "is_free (st ! probe s ?kh E)" using mt [OF E(1)] pl by blast
    then show ?thesis using E False by blast
  next
    case True
    then obtain j where j: "j < length st" "is_live (st ! j)" "getKey ops (body (st ! j)) = k" by blast
    obtain e where e: "probe s ?kh e = j" "\<forall>e' < e. odd (keyHash (st ! probe s ?kh e'))" using d(4) [OF j(1,2)] j(3) by auto
    have "?S e" using e(1) j d(3) [OF j(1,2)] o by (simp add: stop_at_def MATCH_ENTRY_KEYHASH_def ops_ok_def)
    then have "E \<le> e" using E(2) not_le_imp_less by blast
    then have "\<not> is_free (st ! probe s ?kh E)" using e j(2) odd_not_free live_not_free by (metis le_neq_implies_less)
    then show ?thesis using E mt [OF E(1)] by blast
  qed
qed

lemma search_lookup:
  assumes "ops_ok ops" "store_ok ops s st" "\<exists>i < length st. is_free (st ! i)" "op \<noteq> JS_DHASH_ADD"
  shows "\<exists>i < length st. SearchTable ops st s k (live_hash ops k) op = Some (i, st) \<and>
    ((is_live (st ! i) \<and> getKey ops (body (st ! i)) = k) \<or>
     (is_free (st ! i) \<and> \<not> (\<exists>i < length st. is_live (st ! i) \<and> getKey ops (body (st ! i)) = k)))"
proof -
  let ?p = "probe s (live_hash ops k)"
  obtain E where E: "stop_at ops st s k (live_hash ops k) E" "\<forall>e' < E. \<not> stop_at ops st s k (live_hash ops k) e'"
    "(is_live (st ! ?p E) \<and> getKey ops (body (st ! ?p E)) = k) \<or>
     (is_free (st ! ?p E) \<and> \<not> (\<exists>i < length st. is_live (st ! i) \<and> getKey ops (body (st ! i)) = k))"
    using search_stop [OF assms(1-3)] by blast
  have "?p E < length st" using probe_less store_okD(2) [OF assms(2)] by simp
  moreover have "SearchTable ops st s k (live_hash ops k) op = Some (?p E, st)"
    using Search_ok [OF store_okD(2,1) [OF assms(2)] E(1,2)] assms(4) by simp
  ultimately show ?thesis using E(3) by blast
qed

text \<open>Searching to add flags the entries it passes, and returns a place the key can take.\<close>

definition place_for :: "('k, 'e) dops \<Rightarrow> nat \<Rightarrow> 'e dent list \<Rightarrow> 'k \<Rightarrow> nat set \<Rightarrow> nat \<Rightarrow> bool" where
  "place_for ops s st k S i \<longleftrightarrow> i < length st \<and> \<not> is_live (st ! i) \<and>
     \<not> (\<exists>i < length st. is_live (st ! i) \<and> getKey ops (body (st ! i)) = k) \<and>
     (\<exists>e. probe s (live_hash ops k) e = i \<and> (\<forall>e' < e. probe s (live_hash ops k) e' \<in> S))"

lemma search_add:
  assumes "ops_ok ops" "store_ok ops s st" "\<exists>i < length st. is_free (st ! i)"
  shows "\<exists>i S. SearchTable ops st s k (live_hash ops k) JS_DHASH_ADD = Some (i, with_flags S st) \<and> busy S st \<and> i < length st \<and>
    ((is_live (st ! i) \<and> getKey ops (body (st ! i)) = k) \<or> place_for ops s st k S i)"
proof -
  let ?p = "probe s (live_hash ops k)"
  obtain E where E: "stop_at ops st s k (live_hash ops k) E" "\<forall>e' < E. \<not> stop_at ops st s k (live_hash ops k) e'"
    "(is_live (st ! ?p E) \<and> getKey ops (body (st ! ?p E)) = k) \<or>
     (is_free (st ! ?p E) \<and> \<not> (\<exists>i < length st. is_live (st ! i) \<and> getKey ops (body (st ! i)) = k))"
    using search_stop [OF assms] by blast
  have pl: "?p e < length st" for e using probe_less store_okD(2) [OF assms(2)] by simp
  define i where "i = (if is_free (st ! ?p E) then (case first_removed st s (live_hash ops k) [0..<E] of Some r \<Rightarrow> r | None \<Rightarrow> ?p E) else ?p E)"
  have run: "SearchTable ops st s k (live_hash ops k) JS_DHASH_ADD = Some (i, with_flags (?p ` {..<E}) st)"
    using Search_ok [OF store_okD(2,1) [OF assms(2)] E(1,2), of JS_DHASH_ADD] by (simp add: i_def)
  have b: "busy (?p ` {..<E}) st" using E(2) by (auto simp: busy_def stop_at_def)
  show ?thesis
  proof (cases "is_free (st ! ?p E)")
    case False
    then have "i = ?p E" "is_live (st ! ?p E) \<and> getKey ops (body (st ! ?p E)) = k" using E(3) by (auto simp: i_def)
    then show ?thesis using run b pl by blast
  next
    case True
    then have nk: "\<not> (\<exists>i < length st. is_live (st ! i) \<and> getKey ops (body (st ! i)) = k)" using E(3) live_not_free by blast
    have "\<exists>e \<le> E. i = ?p e \<and> \<not> is_live (st ! ?p e)"
    proof (cases "List.find (\<lambda>e. is_removed (st ! ?p e)) [0..<E]")
      case None
      then have "i = ?p E" using True by (simp add: i_def first_removed_def)
      then show ?thesis using True live_not_free by blast
    next
      case (Some e)
      have "i = ?p e" using True Some by (simp add: i_def first_removed_def)
      moreover have "is_removed (st ! ?p e)" "e < E" using Some by (auto simp: find_Some_iff)
      ultimately have "i = ?p e" "is_removed (st ! ?p e)" "e < E" by blast+
      then show ?thesis using live_not_free by (metis less_imp_le)
    qed
    then obtain e where "e \<le> E" "i = ?p e" "\<not> is_live (st ! i)" by blast
    then have "place_for ops s st k (?p ` {..<E}) i" using nk pl unfolding place_for_def by (auto intro!: exI [of _ e])
    then show ?thesis using run b pl \<open>i = ?p e\<close> by blast
  qed
qed

section \<open>Inserting and removing entries\<close>

lemma flags_store:
  assumes s: "store_ok ops s st" and b: "busy S st"
  shows "store_ok ops s (with_flags S st)" "st_maps ops (with_flags S st) m \<longleftrightarrow> st_maps ops st m"
proof -
  note d = store_okD [OF s]
  have k: "is_live (with_flags S st ! i) = is_live (st ! i)" "body (with_flags S st ! i) = body (st ! i)"
    "keyHash (with_flags S st ! i) AND NOT 1 = keyHash (st ! i) AND NOT 1" if "i < length st" for i
    using flags_kind [OF b that] by blast+
  have o: "odd (keyHash (with_flags S st ! i))" if "odd (keyHash (st ! i))" "i < length st" for i
    using that by (simp add: even_or_iff)
  show "st_maps ops (with_flags S st) m \<longleftrightarrow> st_maps ops st m"
    unfolding st_maps_def by (simp add: k cong: conj_cong del: with_flags_simps(2))
  have pl: "probe s kh e < length st" for kh e using probe_less d(2) by simp
  show "store_ok ops s (with_flags S st)"
    unfolding store_ok_def
  proof (intro conjI allI impI)
    fix i assume i: "i < length (with_flags S st)" "is_live (with_flags S st ! i)"
    then have i': "i < length st" "is_live (st ! i)" using k by simp_all
    show "keyHash (with_flags S st ! i) AND NOT 1 = live_hash ops (getKey ops (body (with_flags S st ! i)))"
      using d(3) [OF i'] k [OF i'(1)] by simp
    show "\<exists>e. probe s (live_hash ops (getKey ops (body (with_flags S st ! i)))) e = i \<and>
        (\<forall>e' < e. odd (keyHash (with_flags S st ! probe s (live_hash ops (getKey ops (body (with_flags S st ! i)))) e')))"
      unfolding k(2) [OF i'(1)] using d(4) [OF i'] o pl by blast
  next
    fix i j assume "i < length (with_flags S st)" "j < length (with_flags S st)"
      "is_live (with_flags S st ! i) \<and> is_live (with_flags S st ! j) \<and> getKey ops (body (with_flags S st ! i)) = getKey ops (body (with_flags S st ! j))"
    then show "i = j" using d(5) k by (metis with_flags_simps(1))
  qed (use d(1,2) in simp_all)
qed

text \<open>A new entry in its place.\<close>

lemma insert_store:
  assumes s: "store_ok ops s st" and b: "busy S st" and p: "place_for ops s st k S i"
    and x: "keyHash x AND NOT 1 = live_hash ops k" "getKey ops (body x) = k" "is_removed (st ! i) \<longrightarrow> odd (keyHash x)"
  shows "store_ok ops s ((with_flags S st)[i := x])" "st_maps ops st m \<Longrightarrow> st_maps ops ((with_flags S st)[i := x]) (m(k := Some (body x)))"
proof -
  let ?st = "(with_flags S st)[i := x]"
  note d = store_okD [OF s]
  have il: "i < length st" "\<not> is_live (st ! i)" and nk: "\<not> (\<exists>i < length st. is_live (st ! i) \<and> getKey ops (body (st ! i)) = k)"
    using p by (simp_all add: place_for_def)
  obtain e where e: "probe s (live_hash ops k) e = i" "\<forall>e' < e. probe s (live_hash ops k) e' \<in> S" using p by (auto simp: place_for_def)
  have lx: "is_live x" using x(1) live_hash_live(2) [of ops k] by (simp only: live_iff) simp
  have kj: "is_live (?st ! j) = is_live (st ! j)" "body (?st ! j) = body (st ! j)" "keyHash (?st ! j) AND NOT 1 = keyHash (st ! j) AND NOT 1"
    if "j < length st" "j \<noteq> i" for j
    using flags_kind [OF b that(1)] that(2) by simp_all
  have at: "?st ! i = x" using il by simp
  have pl: "probe s kh e < length st" for kh e using probe_less d(2) by simp
  have ofl: "odd (keyHash (?st ! j))" if j: "j < length st" "odd (keyHash (st ! j)) \<or> j \<in> S" for j
  proof (cases "j = i")
    case True
    have "\<not> is_free (st ! i)" using j True b odd_not_free by (auto simp: busy_def)
    then have "is_removed (st ! i)" using il(2) key_cases by blast
    then show ?thesis using True at x(3) by simp
  next
    case False
    then show ?thesis using j by (auto simp: even_or_iff)
  qed
  show "store_ok ops s ?st"
    unfolding store_ok_def
  proof (intro conjI allI impI)
    fix j assume j: "j < length ?st" "is_live (?st ! j)"
    show "keyHash (?st ! j) AND NOT 1 = live_hash ops (getKey ops (body (?st ! j)))"
      using j d(3) [of j] kj [of j] at x by (cases "j = i") auto
    show "\<exists>e. probe s (live_hash ops (getKey ops (body (?st ! j)))) e = j \<and> (\<forall>e' < e. odd (keyHash (?st ! probe s (live_hash ops (getKey ops (body (?st ! j)))) e')))"
    proof (cases "j = i")
      case True
      then show ?thesis unfolding True at x(2) using e ofl pl by blast
    next
      case False
      then have "is_live (st ! j)" "j < length st" using j kj [of j] by simp_all
      then show ?thesis unfolding kj(2) [OF \<open>j < length st\<close> False] using d(4) [of j] ofl pl by blast
    qed
  next
    fix a c assume ac: "a < length ?st" "c < length ?st" "is_live (?st ! a) \<and> is_live (?st ! c) \<and> getKey ops (body (?st ! a)) = getKey ops (body (?st ! c))"
    have n: "getKey ops (body (?st ! j)) \<noteq> k" if "j < length st" "j \<noteq> i" "is_live (?st ! j)" for j
      using nk that kj [OF that(1,2)] by auto
    show "a = c"
    proof (cases "a = i \<or> c = i")
      case True
      then show ?thesis using ac n [of a] n [of c] at x(2) by (metis length_list_update with_flags_simps(1))
    next
      case False
      then have h: "a < length st" "c < length st" "a \<noteq> i" "c \<noteq> i" using ac by simp_all
      show ?thesis using ac(3) d(5) [OF h(1,2)] unfolding kj [OF h(1,3)] kj [OF h(2,4)] by blast
    qed
  qed (use d(1,2) in simp_all)
  assume m: "st_maps ops st m"
  show "st_maps ops ?st (m(k := Some (body x)))"
    unfolding st_maps_def
  proof (intro allI)
    fix k' b
    have "(\<exists>j < length ?st. is_live (?st ! j) \<and> getKey ops (body (?st ! j)) = k' \<and> body (?st ! j) = b) \<longleftrightarrow>
      (k' = k \<and> b = body x) \<or> (\<exists>j < length st. j \<noteq> i \<and> is_live (st ! j) \<and> getKey ops (body (st ! j)) = k' \<and> body (st ! j) = b)" (is "?l \<longleftrightarrow> ?r")
    proof
      assume ?l
      then obtain j where "j < length st" "is_live (?st ! j)" "getKey ops (body (?st ! j)) = k'" "body (?st ! j) = b" by auto
      then show ?r using kj [of j] at x(2) by (cases "j = i") auto
    next
      assume ?r
      then show ?l
      proof
        assume "k' = k \<and> b = body x"
        then show ?l using at x(2) lx il(1) by (intro exI [of _ i]) simp
      next
        assume "\<exists>j < length st. j \<noteq> i \<and> is_live (st ! j) \<and> getKey ops (body (st ! j)) = k' \<and> body (st ! j) = b"
        then obtain j where "j < length st" "j \<noteq> i" "is_live (st ! j)" "getKey ops (body (st ! j)) = k'" "body (st ! j) = b" by blast
        then show ?l using kj [of j] by (intro exI [of _ j]) simp
      qed
    qed
    then show "(m(k := Some (body x))) k' = Some b \<longleftrightarrow> ?l"
      using m nk il(2) unfolding st_maps_def by auto
  qed
qed

text \<open>An entry goes: free where nothing has passed it, a sentinel otherwise.\<close>

lemma remove_store:
  assumes s: "store_ok ops s st" and i: "i < length st" "is_live (st ! i)" "getKey ops (body (st ! i)) = k"
    and x: "keyHash x = (if odd (keyHash (st ! i)) then 1 else 0)"
  shows "store_ok ops s (st[i := x])" "st_maps ops st m \<Longrightarrow> st_maps ops (st[i := x]) (m(k := None))"
proof -
  let ?st = "st[i := x]"
  note d = store_okD [OF s]
  have nl: "\<not> is_live x" using x by (auto simp: word_le_nat_alt)
  have pl: "probe s kh e < length st" for kh e using probe_less d(2) by simp
  have od: "odd (keyHash (?st ! j))" if "j < length st" "odd (keyHash (st ! j))" for j
    using that x by (cases "j = i") auto
  have lv: "is_live (?st ! j) \<longleftrightarrow> j \<noteq> i \<and> is_live (st ! j)" if "j < length st" for j using nl that by (cases "j = i") auto
  show "store_ok ops s ?st"
    unfolding store_ok_def
  proof (intro conjI allI impI)
    fix j assume j: "j < length ?st" "is_live (?st ! j)"
    then have j': "j < length st" "j \<noteq> i" "is_live (st ! j)" using lv by auto
    then have e: "?st ! j = st ! j" by simp
    show "keyHash (?st ! j) AND NOT 1 = live_hash ops (getKey ops (body (?st ! j)))" unfolding e by (rule d(3) [OF j'(1,3)])
    show "\<exists>e. probe s (live_hash ops (getKey ops (body (?st ! j)))) e = j \<and> (\<forall>e' < e. odd (keyHash (?st ! probe s (live_hash ops (getKey ops (body (?st ! j)))) e')))"
      unfolding e using d(4) [OF j'(1,3)] od pl by blast
  next
    fix a c assume ac: "a < length ?st" "c < length ?st" "is_live (?st ! a) \<and> is_live (?st ! c) \<and> getKey ops (body (?st ! a)) = getKey ops (body (?st ! c))"
    then show "a = c" using lv d(5) [of a c] by auto
  qed (use d(1,2) in simp_all)
  assume m: "st_maps ops st m"
  show "st_maps ops ?st (m(k := None))"
    unfolding st_maps_def
  proof (intro allI)
    fix k' b
    have "(\<exists>j < length ?st. is_live (?st ! j) \<and> getKey ops (body (?st ! j)) = k' \<and> body (?st ! j) = b) \<longleftrightarrow>
      k' \<noteq> k \<and> (\<exists>j < length st. is_live (st ! j) \<and> getKey ops (body (st ! j)) = k' \<and> body (st ! j) = b)" (is "?l \<longleftrightarrow> ?r")
    proof
      assume ?l
      then obtain j where "j < length st" "is_live (?st ! j)" "getKey ops (body (?st ! j)) = k'" "body (?st ! j) = b" by auto
      then have "j \<noteq> i" "is_live (st ! j)" "getKey ops (body (st ! j)) = k'" "body (st ! j) = b" using lv by auto
      moreover have "k' \<noteq> k" using d(5) [of j i] calculation i \<open>j < length st\<close> by metis
      ultimately show ?r using \<open>j < length st\<close> by blast
    next
      assume ?r
      then obtain j where j: "k' \<noteq> k" "j < length st" "is_live (st ! j)" "getKey ops (body (st ! j)) = k'" "body (st ! j) = b" by blast
      then have "j \<noteq> i" using i(3) by auto
      then show ?l using j by (intro exI [of _ j]) simp
    qed
    then show "(m(k := None)) k' = Some b \<longleftrightarrow> ?l" using m unfolding st_maps_def by auto
  qed
qed

section \<open>Counting\<close>

abbreviation live_count :: "'e dent list \<Rightarrow> nat" where "live_count st \<equiv> length (filter is_live st)"
abbreviation removed_count :: "'e dent list \<Rightarrow> nat" where "removed_count st \<equiv> length (filter is_removed st)"

lemma filter_update: "i < length st \<Longrightarrow> length (filter P (st[i := x])) + (if P (st ! i) then 1 else 0) = length (filter P st) + (if P x then 1 else 0)"
proof (induction st arbitrary: i)
  case (Cons y st)
  then show ?case by (cases i) auto
qed simp

lemma count_flags:
  assumes "busy S st"
  shows "live_count (with_flags S st) = live_count st" "removed_count (with_flags S st) = removed_count st"
proof -
  have "{i. i < length st \<and> is_live (with_flags S st ! i)} = {i. i < length st \<and> is_live (st ! i)}"
    "{i. i < length st \<and> is_removed (with_flags S st ! i)} = {i. i < length st \<and> is_removed (st ! i)}"
    using flags_kind [OF assms] by blast+
  then show "live_count (with_flags S st) = live_count st" "removed_count (with_flags S st) = removed_count st"
    by (simp_all add: length_filter_conv_card del: with_flags_simps(2))
qed

lemma has_free: "live_count st + removed_count st < length st \<Longrightarrow> \<exists>i < length st. is_free (st ! i)"
proof (rule ccontr)
  assume l: "live_count st + removed_count st < length st" and "\<not> (\<exists>i < length st. is_free (st ! i))"
  then have "\<not> is_free x" if "x \<in> set st" for x using that by (auto simp: in_set_conv_nth)
  then have "filter (\<lambda>x. \<not> is_live x) st = filter is_removed st" using key_cases live_not_free by (intro filter_cong) blast+
  then show False using l sum_length_filter_compl [of is_live st] by simp
qed

lemma fresh_store: "length (fresh_store ops n) = n" "i < n \<Longrightarrow> is_free (fresh_store ops n ! i)" "live_count (fresh_store ops n) = 0" "removed_count (fresh_store ops n) = 0"
  by (simp_all add: fresh_store_def word_le_nat_alt filter_replicate)

lemma fresh_ok: "s \<le> 32 \<Longrightarrow> store_ok ops s (fresh_store ops (2 ^ (32 - s)))" "st_maps ops (fresh_store ops n) Map.empty"
  using fresh_store(2) live_not_free by (auto simp: store_ok_def st_maps_def fresh_store(1))

section \<open>Moving all entries to a new store\<close>

lemma move_loop_ok:
  assumes o: "ops_ok ops" and "store_ok ops s st" "st_maps ops st m" "removed_count st = 0" "live_count st + live_count old < length st"
    "\<forall>x \<in> set old. is_live x \<longrightarrow> keyHash x AND NOT 1 = live_hash ops (getKey ops (body x))"
    "distinct (map (\<lambda>x. getKey ops (body x)) (filter is_live old))"
    "\<forall>x \<in> set old. is_live x \<longrightarrow> m (getKey ops (body x)) = None"
  shows "\<exists>st'. move_loop ops s old st = Some st' \<and> store_ok ops s st' \<and> removed_count st' = 0 \<and> live_count st' = live_count st + live_count old \<and>
    st_maps ops st' (m ++ map_of (map (\<lambda>x. (getKey ops (body x), body x)) (filter is_live old)))"
  using assms(2-)
proof (induction old arbitrary: st m)
  case Nil
  then show ?case by simp
next
  case (Cons x old)
  show ?case
  proof (cases "is_live x")
    case False
    have c: "live_count (x # old) = live_count old" "filter is_live (x # old) = filter is_live old" using False by simp_all
    have "\<exists>st'. move_loop ops s old st = Some st' \<and> store_ok ops s st' \<and> removed_count st' = 0 \<and> live_count st' = live_count st + live_count old \<and>
      st_maps ops st' (m ++ map_of (map (\<lambda>x. (getKey ops (body x), body x)) (filter is_live old)))"
      by (rule Cons.IH) (use Cons.prems False in simp_all)
    then show ?thesis unfolding c using False by simp
  next
    case True
    let ?k = "getKey ops (body x)" and ?kh = "live_hash ops (getKey ops (body x))"
    have kh: "keyHash x AND NOT 1 = ?kh" using Cons.prems(5) True by simp
    have c: "live_count (x # old) = Suc (live_count old)" "filter is_live (x # old) = x # filter is_live old" using True by simp_all
    have fr: "\<exists>i < length st. is_free (st ! i)" by (rule has_free) (use Cons.prems(3,4) c in simp)
    obtain i S where se: "SearchTable ops st s ?k ?kh JS_DHASH_ADD = Some (i, with_flags S st)" "busy S st" "i < length st"
      "(is_live (st ! i) \<and> getKey ops (body (st ! i)) = ?k) \<or> place_for ops s st ?k S i"
      using search_add [OF o Cons.prems(1) fr] by blast
    have "m ?k = None" using Cons.prems(7) True by simp
    then have p: "place_for ops s st ?k S i" using se(3,4) Cons.prems(2) unfolding st_maps_def by (metis option.distinct(1))
    have nrm: "\<not> is_removed (st ! i)" using Cons.prems(3) nth_mem [OF se(3)] by (auto simp: filter_empty_conv)
    define y where "y = \<lparr>keyHash = ?kh, body = body x\<rparr>"
    define st1 where "st1 = (with_flags S st)[i := y]"
    have y: "keyHash y AND NOT 1 = ?kh" "getKey ops (body y) = ?k" "is_removed (st ! i) \<longrightarrow> odd (keyHash y)" "body y = body x"
      using live_hash_live(1) nrm by (simp_all add: y_def)
    note ins = insert_store [OF Cons.prems(1) se(2) p y(1-3), folded st1_def]
    have ly: "is_live y" using live_hash_live(2) [of ops ?k] y(1) by (simp only: live_iff) simp
    have nl: "\<not> is_live (st ! i)" using p by (simp add: place_for_def)
    have k: "is_live (with_flags S st ! i) = is_live (st ! i)" "is_removed (with_flags S st ! i) = is_removed (st ! i)"
      using flags_kind [OF se(2,3)] by blast+
    have cl: "live_count st1 = Suc (live_count st)"
      using filter_update [of i "with_flags S st" is_live y] se(3) nl ly k(1) count_flags(1) [OF se(2)] by (simp add: st1_def del: with_flags_simps(2))
    have cr: "removed_count st1 = 0"
      using filter_update [of i "with_flags S st" is_removed y] se(3) nrm live_not_free [OF ly] k(2) count_flags(2) [OF se(2)] Cons.prems(3)
      by (simp add: st1_def del: with_flags_simps(2))
    have m1: "st_maps ops st1 (m(?k := Some (body x)))" using ins(2) [OF Cons.prems(2)] by (simp add: y(4))
    have d: "?k \<notin> (\<lambda>x. getKey ops (body x)) ` set (filter is_live old)" using Cons.prems(6) c(2) by simp
    have ih: "\<exists>st'. move_loop ops s old st1 = Some st' \<and> store_ok ops s st' \<and> removed_count st' = 0 \<and> live_count st' = live_count st1 + live_count old \<and>
      st_maps ops st' (m(?k := Some (body x)) ++ map_of (map (\<lambda>x. (getKey ops (body x), body x)) (filter is_live old)))"
    proof (rule Cons.IH [OF ins(1) m1 cr])
      show "live_count st1 + live_count old < length st1" using Cons.prems(4) cl c(1) by (simp add: st1_def)
      show "\<forall>z \<in> set old. is_live z \<longrightarrow> (m(?k := Some (body x))) (getKey ops (body z)) = None"
      proof (intro ballI impI)
        fix z assume z: "z \<in> set old" "is_live z"
        have "getKey ops (body z) \<in> (\<lambda>x. getKey ops (body x)) ` set (filter is_live old)" using z by (intro imageI) simp
        then have "getKey ops (body z) \<noteq> ?k" using d by metis
        then show "(m(?k := Some (body x))) (getKey ops (body z)) = None" using Cons.prems(7) z by simp
      qed
    qed (use Cons.prems(5,6) c(2) in simp_all)
    have "move_loop ops s (x # old) st = move_loop ops s old st1"
      unfolding move_loop.simps(2) Let_def kh se(1) using True o by (simp add: ops_ok_def st1_def y_def)
    moreover have "m(?k := Some (body x)) ++ map_of (map (\<lambda>x. (getKey ops (body x), body x)) (filter is_live old)) =
      m ++ map_of (map (\<lambda>x. (getKey ops (body x), body x)) (filter is_live (x # old)))"
    proof
      fix k'
      have "map_of (map (\<lambda>x. (getKey ops (body x), body x)) (filter is_live old)) ?k = None" using d by (auto simp: map_of_eq_None_iff image_image)
      then show "(m(?k := Some (body x)) ++ map_of (map (\<lambda>x. (getKey ops (body x), body x)) (filter is_live old))) k' =
        (m ++ map_of (map (\<lambda>x. (getKey ops (body x), body x)) (filter is_live (x # old)))) k'"
        unfolding c(2) by (cases "k' = ?k") (simp_all add: map_add_def split: option.splits)
    qed
    ultimately show ?thesis using ih cl c(1) by auto
  qed
qed

text \<open>A well-formed table that stands for the map \<open>m\<close> from keys to bodies.\<close>

definition dh_maps :: "('k, 'e) dops \<Rightarrow> 'e dtable \<Rightarrow> ('k \<Rightarrow> 'e option) \<Rightarrow> bool" where
  "dh_maps ops t m \<longleftrightarrow> store_ok ops (hashShift t) (entryStore t) \<and> st_maps ops (entryStore t) m \<and> 8 < hashShift t \<and> hashShift t \<le> 28 \<and>
     entryCount t = live_count (entryStore t) \<and> removedCount t = removed_count (entryStore t) \<and>
     entryCount t + removedCount t < JS_DHASH_TABLE_SIZE t \<and> minAlphaFrac t < 128 \<and> maxAlphaFrac t < 256"

lemma dh_mapsD:
  assumes "dh_maps ops t m"
  shows "store_ok ops (hashShift t) (entryStore t)" "st_maps ops (entryStore t) m" "8 < hashShift t" "hashShift t \<le> 28"
    "entryCount t = live_count (entryStore t)" "removedCount t = removed_count (entryStore t)"
    "entryCount t + removedCount t < JS_DHASH_TABLE_SIZE t" "minAlphaFrac t < 128" "length (entryStore t) = JS_DHASH_TABLE_SIZE t"
    "\<exists>i < length (entryStore t). is_free (entryStore t ! i)" "maxAlphaFrac t < 256"
  using assms has_free [of "entryStore t"] store_okD(2) [of ops "hashShift t" "entryStore t"] unfolding dh_maps_def by auto

lemma store_map_of:
  assumes s: "store_ok ops s st" and m: "st_maps ops st m"
  shows "distinct (map (\<lambda>x. getKey ops (body x)) (filter is_live st))" "map_of (map (\<lambda>x. (getKey ops (body x), body x)) (filter is_live st)) = m"
proof -
  note d = store_okD [OF s]
  have "distinct (map (\<lambda>i. getKey ops (body (st ! i))) (filter (\<lambda>i. is_live (st ! i)) [0..<length st]))"
    unfolding distinct_map by (auto simp: inj_on_def intro: d(5))
  moreover have "filter is_live st = map ((!) st) (filter (\<lambda>i. is_live (st ! i)) [0..<length st])"
    using filter_map [of is_live "(!) st" "[0..<length st]"] by (simp add: map_nth comp_def)
  ultimately show ds: "distinct (map (\<lambda>x. getKey ops (body x)) (filter is_live st))" by (simp add: comp_def)
  show "map_of (map (\<lambda>x. (getKey ops (body x), body x)) (filter is_live st)) = m"
  proof
    fix k
    show "map_of (map (\<lambda>x. (getKey ops (body x), body x)) (filter is_live st)) k = m k"
    proof (cases "m k")
      case None
      then have "\<not> (\<exists>i < length st. is_live (st ! i) \<and> getKey ops (body (st ! i)) = k)" using m unfolding st_maps_def by (metis option.distinct(1))
      then have "k \<notin> (\<lambda>x. getKey ops (body x)) ` set (filter is_live st)" by (auto simp: in_set_conv_nth)
      then show ?thesis using None by (auto simp: map_of_eq_None_iff image_image)
    next
      case (Some b)
      then obtain i where "i < length st" "is_live (st ! i)" "getKey ops (body (st ! i)) = k" "body (st ! i) = b" using m unfolding st_maps_def by blast
      then have "(k, b) \<in> set (map (\<lambda>x. (getKey ops (body x), body x)) (filter is_live st))" by (force simp: in_set_conv_nth)
      then have "map_of (map (\<lambda>x. (getKey ops (body x), body x)) (filter is_live st)) k = Some b"
        by (intro map_of_is_SomeI) (use ds in \<open>simp_all add: comp_def\<close>)
      then show ?thesis using Some by simp
    qed
  qed
qed

lemma ChangeTable_ok:
  assumes o: "ops_ok ops" and t: "dh_maps ops t m" and l: "newLog2 = nat (int (32 - hashShift t) + delta)" "4 \<le> newLog2" "entryCount t < 2 ^ newLog2"
  shows "\<exists>ok t' os'. ChangeTable os ops t delta = Some (ok, t', os') \<and> (ok \<longrightarrow> dh_maps ops t' m \<and> hashShift t' = 32 - newLog2 \<and> removedCount t' = 0 \<and>
      entryCount t' = entryCount t \<and> minAlphaFrac t' = minAlphaFrac t \<and> maxAlphaFrac t' = maxAlphaFrac t) \<and>
    (\<not> ok \<longrightarrow> t' = t \<and> (False \<in> set os \<or> 24 \<le> newLog2))"
proof -
  note d = dh_mapsD [OF t] and sd = store_okD [OF dh_mapsD(1) [OF t]]
  show ?thesis
  proof (cases "JS_DHASH_SIZE_LIMIT \<le> 2 ^ newLog2")
    case True
    then have "24 \<le> newLog2" unfolding JS_DHASH_SIZE_LIMIT_def by (rule power_le_imp_le_exp [rotated]) simp
    then show ?thesis using True by (intro exI [of _ False] exI [of _ t] exI [of _ os]) (simp add: ChangeTable_def Let_def l(1) [symmetric])
  next
    case False
    then have l24: "newLog2 < 24" unfolding JS_DHASH_SIZE_LIMIT_def by (metis not_le power_increasing one_le_numeral)
    obtain ok os1 where a: "alloc_next os = (ok, os1)" by (rule prod.exhaust)
    show ?thesis
    proof (cases ok)
      case nok: False
      then have "False \<in> set os" using a by (cases os) auto
      then show ?thesis using False a nok by (intro exI [of _ False] exI [of _ t] exI [of _ os1]) (simp add: ChangeTable_def Let_def l(1) [symmetric])
    next
      case True
      let ?s = "32 - newLog2" and ?f = "fresh_store ops (2 ^ newLog2)"
      have e: "(2 :: nat) ^ (32 - ?s) = 2 ^ newLog2" using l24 by simp
      have f: "store_ok ops ?s ?f" using fresh_ok(1) [of ?s ops] e by simp
      have "\<exists>st'. move_loop ops ?s (entryStore t) ?f = Some st' \<and> store_ok ops ?s st' \<and> removed_count st' = 0 \<and>
        live_count st' = live_count ?f + live_count (entryStore t) \<and>
        st_maps ops st' (Map.empty ++ map_of (map (\<lambda>x. (getKey ops (body x), body x)) (filter is_live (entryStore t))))"
      proof (rule move_loop_ok [OF o f fresh_ok(2)])
        show "live_count ?f + live_count (entryStore t) < length ?f" using l(3) d(5) by (simp add: fresh_store)
        show "\<forall>x \<in> set (entryStore t). is_live x \<longrightarrow> keyHash x AND NOT 1 = live_hash ops (getKey ops (body x))" using sd(3) by (auto simp: in_set_conv_nth)
      qed (use store_map_of [OF d(1,2)] in \<open>simp_all add: fresh_store\<close>)
      then obtain st' where st': "move_loop ops ?s (entryStore t) ?f = Some st'" "store_ok ops ?s st'" "removed_count st' = 0"
        "live_count st' = live_count (entryStore t)" "st_maps ops st' m"
        using store_map_of(2) [OF d(1,2)] by (auto simp: fresh_store)
      define t' where "t' = t\<lparr>hashShift := ?s, removedCount := 0, generation := generation t + 1, entryStore := st'\<rparr>"
      have "8 < ?s" "?s \<le> 28" using l24 l(2) by arith+
      then have "dh_maps ops t' m" using st' d(5,8,11) l(3) by (simp add: dh_maps_def t'_def e)
      moreover have "ChangeTable os ops t delta = Some (True, t', os1)"
        using False a True st'(1) by (simp add: ChangeTable_def Let_def l(1) [symmetric] t'_def)
      ultimately show ?thesis by (intro exI [of _ True] exI [of _ t'] exI [of _ os1]) (simp add: t'_def)
    qed
  qed
qed

section \<open>Adding\<close>

lemma st_maps_Some: "st_maps ops st m \<Longrightarrow> i < length st \<Longrightarrow> is_live (st ! i) \<Longrightarrow> getKey ops (body (st ! i)) = k \<Longrightarrow> m k = Some (body (st ! i))"
  unfolding st_maps_def by blast

lemma st_maps_None: "st_maps ops st m \<Longrightarrow> m k = None \<longleftrightarrow> \<not> (\<exists>i < length st. is_live (st ! i) \<and> getKey ops (body (st ! i)) = k)"
  unfolding st_maps_def by (metis not_None_eq)

text \<open>The caller of an addition stores the body of a new entry.\<close>

definition put_body :: "'e dtable \<Rightarrow> nat \<Rightarrow> 'e \<Rightarrow> 'e dtable" where
  "put_body t i b = t\<lparr>entryStore := (entryStore t)[i := (entryStore t ! i)\<lparr>body := b\<rparr>]\<rparr>"

lemma or_one_key: "(w OR 1) AND NOT 1 = w AND NOT (1 :: u32)" "odd (w OR (1 :: u32))"
  by (rule and_not_one) (simp add: even_or_iff)

lemma claim_ok:
  assumes o: "ops_ok ops" and t: "dh_maps ops t m" and b: "busy S (entryStore t)" and p: "place_for ops (hashShift t) (entryStore t) k S i"
    and sp: "entryCount t + removedCount t + 1 < JS_DHASH_TABLE_SIZE t"
  shows "\<exists>t'. claim_entry ops (t\<lparr>entryStore := with_flags S (entryStore t)\<rparr>) i k (live_hash ops k) = (Some i, t') \<and>
    (\<forall>b. getKey ops b = k \<longrightarrow> dh_maps ops (put_body t' i b) (m(k := Some b))) \<and>
    (initEntry ops \<noteq> None \<longrightarrow> getKey ops (body (entryStore t' ! i)) = k)"
proof -
  note d = dh_mapsD [OF t]
  let ?st = "entryStore t"
  let ?f = "with_flags S ?st"
  have i: "i < length ?st" "\<not> is_live (?st ! i)" using p by (simp_all add: place_for_def)
  have k: "is_live (?f ! i) = is_live (?st ! i)" "is_removed (?f ! i) = is_removed (?st ! i)" using flags_kind [OF b i(1)] by blast+
  define kh where "kh = (if is_removed (?st ! i) then live_hash ops k OR 1 else live_hash ops k)"
  define b0 where "b0 = (case initEntry ops of None \<Rightarrow> body (?f ! i) | Some ini \<Rightarrow> snd (ini (body (?f ! i)) k))"
  define rc where "rc = (if is_removed (?st ! i) then removedCount t - 1 else removedCount t)"
  define t' where "t' = t\<lparr>removedCount := rc, entryCount := entryCount t + 1, entryStore := ?f[i := \<lparr>keyHash = kh, body = b0\<rparr>]\<rparr>"
  have ini: "(case initEntry ops of None \<Rightarrow> (True, body (?f ! i)) | Some ini \<Rightarrow> ini (body (?f ! i)) k) = (True, b0)"
    using o by (auto simp: b0_def ops_ok_def prod_eq_iff split: option.splits)
  have c: "claim_entry ops (t\<lparr>entryStore := ?f\<rparr>) i k (live_hash ops k) = (Some i, t')"
    using ini k(2) by (simp add: claim_entry_def Let_def t'_def kh_def rc_def del: with_flags_simps(2))
  have put: "dh_maps ops (put_body t' i b') (m(k := Some b'))" if b': "getKey ops b' = k" for b'
  proof -
    define x where "x = \<lparr>keyHash = kh, body = b'\<rparr>"
    have x: "keyHash x AND NOT 1 = live_hash ops k" "getKey ops (body x) = k" "is_removed (?st ! i) \<longrightarrow> odd (keyHash x)" "body x = b'"
      using live_hash_live(1) [of ops k] or_one_key b' by (simp_all add: x_def kh_def)
    note ins = insert_store [OF d(1) b p x(1-3)]
    have lx: "is_live x" using live_hash_live(2) [of ops k] x(1) by (simp only: live_iff) simp
    have pb: "put_body t' i b' = t\<lparr>removedCount := rc, entryCount := entryCount t + 1, entryStore := ?f[i := x]\<rparr>"
      using i(1) by (simp add: put_body_def t'_def x_def)
    have cl: "live_count (?f[i := x]) = Suc (live_count ?st)"
      using filter_update [of i ?f is_live x] i lx k(1) count_flags(1) [OF b] by (simp del: with_flags_simps(2))
    have "removed_count (?f[i := x]) + (if is_removed (?st ! i) then 1 else 0) = removed_count ?st"
      using filter_update [of i ?f is_removed x] i live_not_free [OF lx] k(2) count_flags(2) [OF b] by (simp del: with_flags_simps(2))
    then have cr: "removed_count (?f[i := x]) = rc" using d(6) by (auto simp: rc_def split: if_splits)
    have "rc \<le> removedCount t" by (simp add: rc_def)
    then show ?thesis
      unfolding pb dh_maps_def using ins(1) ins(2) [OF d(2)] d(3,4,5,8,11) cl cr sp x(4) by (simp del: with_flags_simps(2))
  qed
  have "getKey ops (body (entryStore t' ! i)) = k" if "initEntry ops \<noteq> None"
    using that o i(1) by (auto simp: t'_def b0_def ops_ok_def)
  then show ?thesis using c put by blast
qed

lemma grow_bounds:
  assumes t: "dh_maps ops t m" and ov: "MAX_LOAD t (JS_DHASH_TABLE_SIZE t) \<le> entryCount t + removedCount t"
    and delta: "delta = (if JS_DHASH_TABLE_SIZE t div 4 \<le> removedCount t then 0 else 1)"
    and l: "newLog2 = nat (int (32 - hashShift t) + delta)"
  shows "4 \<le> newLog2" "newLog2 \<le> 32 - hashShift t + 1" "entryCount t + 1 < 2 ^ newLog2"
proof -
  note d = dh_mapsD [OF t]
  have n: "(16 :: nat) \<le> JS_DHASH_TABLE_SIZE t" using power_increasing [of 4 "32 - hashShift t" "2 :: nat"] d(4) by simp
  show "4 \<le> newLog2" "newLog2 \<le> 32 - hashShift t + 1" using d(4) delta l by (auto split: if_splits)
  show "entryCount t + 1 < 2 ^ newLog2"
  proof (cases "JS_DHASH_TABLE_SIZE t div 4 \<le> removedCount t")
    case True
    then have "newLog2 = 32 - hashShift t" using delta l by simp
    then show ?thesis using True n d(7) by simp
  next
    case False
    then have "newLog2 = Suc (32 - hashShift t)" using delta l by simp
    then show ?thesis using n d(7) by simp
  qed
qed

lemma add_entry_ok:
  assumes o: "ops_ok ops" and t: "dh_maps ops t m"
  shows "\<exists>r t' os'. add_entry os ops t k (live_hash ops k) = Some (r, t', os') \<and>
    (case r of None \<Rightarrow> t' = t \<and> (False \<in> set os \<or> 2 ^ 23 \<le> JS_DHASH_TABLE_SIZE t)
     | Some i \<Rightarrow> i < length (entryStore t') \<and>
         (case m k of Some b \<Rightarrow> dh_maps ops t' m \<and> is_live (entryStore t' ! i) \<and> body (entryStore t' ! i) = b
          | None \<Rightarrow> (\<forall>b. getKey ops b = k \<longrightarrow> dh_maps ops (put_body t' i b) (m(k := Some b))) \<and>
              (initEntry ops \<noteq> None \<longrightarrow> getKey ops (body (entryStore t' ! i)) = k)))"
proof -
  note d = dh_mapsD [OF t]
  let ?n = "JS_DHASH_TABLE_SIZE t"
  have search: "\<exists>i S. SearchTable ops (entryStore u) (hashShift u) k (live_hash ops k) JS_DHASH_ADD = Some (i, with_flags S (entryStore u)) \<and>
      busy S (entryStore u) \<and> i < length (entryStore u) \<and>
      ((is_live (entryStore u ! i) \<and> getKey ops (body (entryStore u ! i)) = k) \<or> place_for ops (hashShift u) (entryStore u) k S i)"
    if "dh_maps ops u m" for u using search_add [OF o dh_mapsD(1,10) [OF that]] .
  have n: "(16 :: nat) \<le> ?n" using power_increasing [of 4 "32 - hashShift t" "2 :: nat"] d(4) by simp
  define full where "full = (\<lambda>ok (u :: 'b dtable). \<not> ok \<and> entryCount u + removedCount u = ?n - 1)"
  define grow where "grow = (if MAX_LOAD t ?n \<le> entryCount t + removedCount t
              then ChangeTable os ops t (if ?n div 4 \<le> removedCount t then 0 else 1) else Some (True, t, os))"
  have "\<exists>ok u os1. grow = Some (ok, u, os1) \<and> dh_maps ops u m \<and> (full ok u \<longrightarrow> u = t \<and> (False \<in> set os \<or> 2 ^ 23 \<le> ?n)) \<and>
    (\<not> full ok u \<longrightarrow> entryCount u + removedCount u + 1 < JS_DHASH_TABLE_SIZE u)"
  proof (cases "MAX_LOAD t ?n \<le> entryCount t + removedCount t")
    case False
    have "maxAlphaFrac t * ?n div 256 < ?n"
    proof -
      have "maxAlphaFrac t * ?n \<le> 255 * ?n" using d(11) by (intro mult_right_mono) simp_all
      also have "\<dots> < ?n * 256" using n by simp
      finally show ?thesis by (simp add: less_mult_imp_div_less)
    qed
    then have "entryCount t + removedCount t + 1 < ?n" using False by (simp add: MAX_LOAD_def)
    moreover have "grow = Some (True, t, os)" using False by (simp add: grow_def)
    ultimately show ?thesis using t by (intro exI [of _ True] exI [of _ t] exI [of _ os]) (simp add: full_def)
  next
    case True
    define delta where "delta = (if ?n div 4 \<le> removedCount t then 0 else 1 :: int)"
    define newLog2 where "newLog2 = nat (int (32 - hashShift t) + delta)"
    note gb = grow_bounds [OF t True delta_def newLog2_def]
    obtain ok u os1 where u: "ChangeTable os ops t delta = Some (ok, u, os1)"
      "ok \<longrightarrow> dh_maps ops u m \<and> hashShift u = 32 - newLog2 \<and> removedCount u = 0 \<and> entryCount u = entryCount t \<and> minAlphaFrac u = minAlphaFrac t \<and> maxAlphaFrac u = maxAlphaFrac t"
      "\<not> ok \<longrightarrow> u = t \<and> (False \<in> set os \<or> 24 \<le> newLog2)"
      using ChangeTable_ok [OF o t newLog2_def gb(1), of os] gb(3) by auto
    have g: "grow = Some (ok, u, os1)" using True u(1) by (simp add: grow_def delta_def)
    show ?thesis
    proof (cases ok)
      case True
      have "(32 - (32 - newLog2)) = newLog2" using gb(2) d(3) by arith
      then show ?thesis using g u(2) gb(3) True by (intro exI [of _ True] exI [of _ u] exI [of _ os1]) (simp add: full_def)
    next
      case False
      have "2 ^ 23 \<le> ?n" if "24 \<le> newLog2" using that gb(2) by (intro power_increasing) simp_all
      then have "False \<in> set os \<or> 2 ^ 23 \<le> ?n" using u(3) False by blast
      moreover have "u = t" using u(3) False by blast
      moreover have "\<not> full ok t \<longrightarrow> entryCount t + removedCount t + 1 < ?n" using d(7) False by (simp add: full_def, arith)
      ultimately show ?thesis using g t by blast
    qed
  qed
  then obtain ok u os1 where u: "grow = Some (ok, u, os1)" "dh_maps ops u m" "full ok u \<longrightarrow> u = t \<and> (False \<in> set os \<or> 2 ^ 23 \<le> ?n)"
    "\<not> full ok u \<longrightarrow> entryCount u + removedCount u + 1 < JS_DHASH_TABLE_SIZE u" by blast
  have run: "add_entry os ops t k (live_hash ops k) =
    (if full ok u then Some (None, u, os1)
     else case SearchTable ops (entryStore u) (hashShift u) k (live_hash ops k) JS_DHASH_ADD of None \<Rightarrow> None
       | Some (i, st) \<Rightarrow> if is_live (st ! i) then Some (Some i, u\<lparr>entryStore := st\<rparr>, os1)
           else let (r, t) = claim_entry ops (u\<lparr>entryStore := st\<rparr>) i k (live_hash ops k) in Some (r, t, os1))"
    unfolding add_entry_def Let_def grow_def [symmetric] u(1) option.case prod.case full_def by (simp only: option.case prod.case cong: if_cong)
  show ?thesis
  proof (cases "full ok u")
    case True
    then show ?thesis unfolding run using u(3) by simp
  next
    case False
    obtain i S where se: "SearchTable ops (entryStore u) (hashShift u) k (live_hash ops k) JS_DHASH_ADD = Some (i, with_flags S (entryStore u))"
      "busy S (entryStore u)" "i < length (entryStore u)"
      "(is_live (entryStore u ! i) \<and> getKey ops (body (entryStore u ! i)) = k) \<or> place_for ops (hashShift u) (entryStore u) k S i"
      using search [OF u(2)] by blast
    note fk = flags_kind(3,4) [OF se(2,3)]
    note du = dh_mapsD [OF u(2)]
    show ?thesis
    proof (cases "is_live (entryStore u ! i)")
      case True
      have k: "getKey ops (body (entryStore u ! i)) = k" using se(4) True by (auto simp: place_for_def)
      have mk: "m k = Some (body (entryStore u ! i))" by (rule st_maps_Some [OF du(2) se(3) True k])
      have "dh_maps ops (u\<lparr>entryStore := with_flags S (entryStore u)\<rparr>) m"
        using flags_store [OF du(1) se(2)] count_flags [OF se(2)] u(2) by (simp add: dh_maps_def)
      then show ?thesis unfolding run using False se(1,3) True fk mk by (simp del: with_flags_simps(2))
    next
      case nl: False
      then have p: "place_for ops (hashShift u) (entryStore u) k S i" using se(4) by blast
      obtain t' where t': "claim_entry ops (u\<lparr>entryStore := with_flags S (entryStore u)\<rparr>) i k (live_hash ops k) = (Some i, t')"
        "\<forall>b. getKey ops b = k \<longrightarrow> dh_maps ops (put_body t' i b) (m(k := Some b))" "initEntry ops \<noteq> None \<longrightarrow> getKey ops (body (entryStore t' ! i)) = k"
        using claim_ok [OF o u(2) se(2) p] u(4) False by blast
      have mk: "m k = None" using p st_maps_None [OF du(2), of k] by (simp add: place_for_def)
      have len: "length (entryStore t') = length (entryStore u)"
        using t'(1) by (auto simp: claim_entry_def Let_def split: if_splits prod.splits bool.splits)
      show ?thesis unfolding run using False se(1,3) nl fk mk t' len by (simp del: with_flags_simps(2))
    qed
  qed
qed

section \<open>Removing\<close>

lemma RawRemove_ok:
  assumes t: "dh_maps ops t m" and i: "i < length (entryStore t)" "is_live (entryStore t ! i)" "getKey ops (body (entryStore t ! i)) = k"
  shows "dh_maps ops (JS_DHashTableRawRemove ops t i) (m(k := None))" "hashShift (JS_DHashTableRawRemove ops t i) = hashShift t"
    "entryCount (JS_DHashTableRawRemove ops t i) = entryCount t - 1" "maxAlphaFrac (JS_DHashTableRawRemove ops t i) = maxAlphaFrac t"
    "minAlphaFrac (JS_DHashTableRawRemove ops t i) = minAlphaFrac t"
proof -
  note d = dh_mapsD [OF t]
  let ?od = "odd (keyHash (entryStore t ! i))" and ?n = "JS_DHASH_TABLE_SIZE t"
  define x where "x = \<lparr>keyHash = if ?od then 1 else 0, body = clearEntry ops (body (entryStore t ! i))\<rparr>"
  have r: "JS_DHashTableRawRemove ops t i = t\<lparr>entryStore := (entryStore t)[i := x], removedCount := removedCount t + (if ?od then 1 else 0), entryCount := entryCount t - 1\<rparr>"
    by (simp add: JS_DHashTableRawRemove_def Let_def x_def)
  have x: "keyHash x = (if ?od then 1 else 0)" by (simp add: x_def)
  note rs = remove_store [OF d(1) i x]
  have nl: "\<not> is_live x" using x by (auto simp: word_le_nat_alt)
  have cl: "Suc (live_count ((entryStore t)[i := x])) = live_count (entryStore t)" using filter_update [OF i(1), of is_live x] i(2) nl by simp
  have "is_removed x \<longleftrightarrow> ?od" using x by simp
  then have cr: "removed_count ((entryStore t)[i := x]) = removedCount t + (if ?od then 1 else 0)"
    using filter_update [OF i(1), of is_removed x] live_not_free [OF i(2)] d(6) by simp
  show "dh_maps ops (JS_DHashTableRawRemove ops t i) (m(k := None))"
    unfolding r dh_maps_def
  proof (simp add: rs(1) rs(2) [OF d(2)] d(3,4,8,11) cr, intro conjI impI)
    have "entryCount t = Suc (live_count ((entryStore t)[i := x]))" using d(5) cl by simp
    then show "entryCount t - Suc 0 = live_count ((entryStore t)[i := x])" "entryCount t - Suc 0 = live_count ((entryStore t)[i := x])"
      "entryCount t - Suc 0 + removedCount t < ?n" "Suc (entryCount t - Suc 0 + removedCount t) < ?n"
      using d(7) by simp_all
  qed
qed (simp_all add: JS_DHashTableRawRemove_def Let_def)

lemma st_maps_none: "st_maps ops st m \<Longrightarrow> \<not> (\<exists>i < length st. is_live (st ! i) \<and> getKey ops (body (st ! i)) = k) \<Longrightarrow> m(k := None) = m"
  using st_maps_None [of ops st m k] by auto

lemma remove_entry_ok:
  assumes o: "ops_ok ops" and t: "dh_maps ops t m"
  shows "\<exists>t' os'. remove_entry os ops t k (live_hash ops k) = Some (None, t', os') \<and> dh_maps ops t' (m(k := None))"
proof -
  note d = dh_mapsD [OF t]
  obtain i where se: "i < length (entryStore t)" "SearchTable ops (entryStore t) (hashShift t) k (live_hash ops k) JS_DHASH_REMOVE = Some (i, entryStore t)"
    "(is_live (entryStore t ! i) \<and> getKey ops (body (entryStore t ! i)) = k) \<or>
     (is_free (entryStore t ! i) \<and> \<not> (\<exists>i < length (entryStore t). is_live (entryStore t ! i) \<and> getKey ops (body (entryStore t ! i)) = k))"
    using search_lookup [OF o d(1,10), of JS_DHASH_REMOVE k] by blast
  show ?thesis
  proof (cases "is_live (entryStore t ! i)")
    case False
    then have "m(k := None) = m" using st_maps_none [OF d(2)] se(3) by blast
    then show ?thesis using False se(2) t by (simp add: remove_entry_def)
  next
    case True
    then have k: "getKey ops (body (entryStore t ! i)) = k" using se(3) live_not_free by blast
    define u where "u = JS_DHashTableRawRemove ops t i"
    note u = RawRemove_ok [OF t se(1) True k, folded u_def]
    note du = dh_mapsD [OF u(1)]
    let ?n = "JS_DHASH_TABLE_SIZE u"
    have run: "remove_entry os ops t k (live_hash ops k) =
      (if JS_DHASH_MIN_SIZE < ?n \<and> entryCount u \<le> MIN_LOAD u ?n
       then (case ChangeTable os ops u (- 1) of None \<Rightarrow> None | Some (_, t, os) \<Rightarrow> Some (None, t, os)) else Some (None, u, os))"
      using se(2) True by (simp add: remove_entry_def Let_def u_def)
    show ?thesis
    proof (cases "JS_DHASH_MIN_SIZE < ?n \<and> entryCount u \<le> MIN_LOAD u ?n")
      case False
      then show ?thesis unfolding run if_not_P [OF False] using u(1) by simp
    next
      case True
      define newLog2 where "newLog2 = nat (int (32 - hashShift u) + (- 1))"
      have "(2 :: nat) ^ 4 < 2 ^ (32 - hashShift u)" using True by (simp add: JS_DHASH_MIN_SIZE_def)
      then have "4 < 32 - hashShift u" by (rule power_less_imp_less_exp [rotated]) simp
      then have l: "4 \<le> newLog2" "32 - hashShift u = Suc newLog2" unfolding newLog2_def by arith+
      have "minAlphaFrac u * ?n \<le> 127 * ?n" using du(8) by (intro mult_right_mono) simp_all
      moreover have "127 * ?n < 2 ^ newLog2 * 256" by (simp add: l(2))
      ultimately have "MIN_LOAD u ?n < 2 ^ newLog2" unfolding MIN_LOAD_def by (intro less_mult_imp_div_less) (rule le_less_trans)
      then have "entryCount u < 2 ^ newLog2" using True by simp
      from ChangeTable_ok [OF o u(1) newLog2_def l(1) this, of os]
      obtain ok t' os' where "ChangeTable os ops u (- 1) = Some (ok, t', os')" "dh_maps ops t' (m(k := None))" using u(1) by metis
      then show ?thesis unfolding run using True by simp
    qed
  qed
qed

section \<open>Initialisation\<close>

lemma DHash_Init_ok:
  assumes "capacity \<le> 2 ^ 23" "alloc_next os = (True, os')"
  shows "\<exists>t. JS_DHashTableInit os ops capacity = (Some t, os') \<and> dh_maps ops t Map.empty \<and> capacity \<le> JS_DHASH_TABLE_SIZE t"
proof -
  define c where "c = (if capacity < JS_DHASH_MIN_SIZE then JS_DHASH_MIN_SIZE else capacity)"
  define l where "l = JS_CEILING_LOG2 c"
  define t where "t = \<lparr>hashShift = 32 - l, maxAlphaFrac = 0xC0, minAlphaFrac = 0x40, entryCount = 0, removedCount = 0,
                 generation = 0, entryStore = fresh_store ops (2 ^ l)\<rparr>"
  have c: "16 \<le> c" "c \<le> 2 ^ 23" "capacity \<le> c" using assms(1) by (simp_all add: c_def JS_DHASH_MIN_SIZE_def)
  note cl = CEILING_LOG2 [of c]
  have c32: "c < 2 ^ 32" using c(2) by (rule le_less_trans) simp
  have "(2 :: nat) ^ 3 < 2 ^ l" using cl(1) [OF c32] c(1) unfolding l_def [symmetric] by simp
  then have l1: "3 < l" by (rule power_less_imp_less_exp [rotated]) simp
  have "(2 :: nat) ^ (l - 1) < 2 ^ 23" using cl(2) [OF c32] c(1,2) unfolding l_def [symmetric] by linarith
  then have "l - 1 < 23" by (rule power_less_imp_less_exp [rotated]) simp
  then have l2: "l < 24" by simp
  have e: "32 - (32 - l) = l" using l2 by simp
  have "(2 :: nat) ^ l < 2 ^ 24" using l2 by (intro power_strict_increasing) simp_all
  then have "JS_DHashTableInit os ops capacity = (Some t, os')"
    unfolding JS_DHashTableInit_def Let_def c_def [symmetric] l_def [symmetric] t_def [symmetric] using assms(2)
    by (simp add: JS_DHASH_SIZE_LIMIT_def del: power_strict_increasing_iff)
  moreover have "store_ok ops (32 - l) (fresh_store ops (2 ^ l))" using fresh_ok(1) [of "32 - l" ops] e by simp
  moreover have "8 < 32 - l" "32 - l \<le> 28" using l1 l2 by arith+
  ultimately show ?thesis using c(3) cl(1) [OF c32] by (intro exI [of _ t])
    (simp add: dh_maps_def t_def e fresh_ok(2) fresh_store(3,4) l_def [symmetric])
qed

section \<open>The table as a map\<close>

text \<open>
  A table for which \<open>capacity\<close> entries are asked, at most 2^23, is empty, well-formed and has
  room for them. One of 2^23 + 1 to 2^31 entries is refused.
\<close>

theorem JS_DHashTableInit_empty:
  assumes "alloc_next os = (True, os')" "capacity \<le> 2 ^ 31"
  shows "case JS_DHashTableInit os ops capacity of
      (Some t, _) \<Rightarrow> capacity \<le> 2 ^ 23 \<and> dh_maps ops t Map.empty \<and> capacity \<le> JS_DHASH_TABLE_SIZE t
    | (None, os'') \<Rightarrow> 2 ^ 23 < capacity \<and> os'' = os"
proof (cases "capacity \<le> 2 ^ 23")
  case True
  then show ?thesis using DHash_Init_ok [OF True assms(1), of ops] by auto
next
  case False
  then have "\<not> capacity < JS_DHASH_MIN_SIZE" by (simp add: JS_DHASH_MIN_SIZE_def)
  moreover have "JS_DHASH_SIZE_LIMIT \<le> 2 ^ JS_CEILING_LOG2 capacity"
  proof -
    have "capacity < 2 ^ 32" using assms(2) by (rule le_less_trans) simp
    then have "(2 :: nat) ^ 23 < 2 ^ JS_CEILING_LOG2 capacity" using CEILING_LOG2(1) [of capacity] False by linarith
    then have "23 < JS_CEILING_LOG2 capacity" by (rule power_less_imp_less_exp [rotated]) simp
    then show ?thesis unfolding JS_DHASH_SIZE_LIMIT_def by (intro power_increasing) simp_all
  qed
  ultimately have "JS_DHashTableInit os ops capacity = (None, os)" by (simp add: JS_DHashTableInit_def Let_def)
  then show ?thesis using False by simp
qed

lemma lookup_ok:
  assumes "ops_ok ops" "dh_maps ops t m"
  shows "\<exists>i < length (entryStore t). JS_DHashTableOperate os ops t k JS_DHASH_LOOKUP = Some (Some i, t, os) \<and>
    (case m k of Some b \<Rightarrow> is_live (entryStore t ! i) \<and> body (entryStore t ! i) = b | None \<Rightarrow> is_free (entryStore t ! i))"
proof -
  note d = dh_mapsD [OF assms(2)]
  obtain i where se: "i < length (entryStore t)" "SearchTable ops (entryStore t) (hashShift t) k (live_hash ops k) JS_DHASH_LOOKUP = Some (i, entryStore t)"
    "(is_live (entryStore t ! i) \<and> getKey ops (body (entryStore t ! i)) = k) \<or>
     (is_free (entryStore t ! i) \<and> \<not> (\<exists>i < length (entryStore t). is_live (entryStore t ! i) \<and> getKey ops (body (entryStore t ! i)) = k))"
    using search_lookup [OF assms(1) d(1,10), of JS_DHASH_LOOKUP k] by blast
  have "case m k of Some b \<Rightarrow> is_live (entryStore t ! i) \<and> body (entryStore t ! i) = b | None \<Rightarrow> is_free (entryStore t ! i)"
    using se(3)
  proof
    assume l: "is_live (entryStore t ! i) \<and> getKey ops (body (entryStore t ! i)) = k"
    then show ?thesis using st_maps_Some [OF d(2) se(1)] by simp
  next
    assume "is_free (entryStore t ! i) \<and> \<not> (\<exists>i < length (entryStore t). is_live (entryStore t ! i) \<and> getKey ops (body (entryStore t ! i)) = k)"
    then show ?thesis using st_maps_None [OF d(2), of k] by (metis option.simps(4))
  qed
  then show ?thesis using se(1,2) by (auto simp: JS_DHashTableOperate_def Let_def)
qed

text \<open>
  C28: In a well-formed table \<^verbatim>\<open>JS_DHASH_LOOKUP\<close> ends and changes nothing; it returns the live entry
  of the key if the table has one, and a free entry otherwise.
\<close>

theorem Operate_lookup:
  assumes "ops_ok ops" "dh_maps ops t m"
  shows "\<exists>i < length (entryStore t). JS_DHashTableOperate os ops t k JS_DHASH_LOOKUP = Some (Some i, t, os) \<and>
    (case m k of Some b \<Rightarrow> is_live (entryStore t ! i) \<and> body (entryStore t ! i) = b | None \<Rightarrow> is_free (entryStore t ! i))"
  by (rule lookup_ok [OF assms])

text \<open>
  C26: \<^verbatim>\<open>JS_DHASH_ADD\<close> in a well-formed table, whether it grows, is rehashed in place or not: it
  returns the entry of a key that the table has, and otherwise an entry such that the table maps
  the key to whatever body of that key the caller stores there. It returns no entry, and leaves the
  table as it was, only if memory ran out or the table is at its size limit.
\<close>

theorem Operate_add:
  assumes "ops_ok ops" "dh_maps ops t m"
  shows "\<exists>r t' os'. JS_DHashTableOperate os ops t k JS_DHASH_ADD = Some (r, t', os') \<and>
    (case r of None \<Rightarrow> t' = t \<and> (False \<in> set os \<or> 2 ^ 23 \<le> JS_DHASH_TABLE_SIZE t)
     | Some i \<Rightarrow> i < length (entryStore t') \<and>
         (case m k of Some b \<Rightarrow> dh_maps ops t' m \<and> is_live (entryStore t' ! i) \<and> body (entryStore t' ! i) = b
          | None \<Rightarrow> (\<forall>b. getKey ops b = k \<longrightarrow> dh_maps ops (put_body t' i b) (m(k := Some b))) \<and>
              (initEntry ops \<noteq> None \<longrightarrow> getKey ops (body (entryStore t' ! i)) = k)))"
  using add_entry_ok [OF assms, of os k] by (simp add: JS_DHashTableOperate_def Let_def)

text \<open>
  C27: \<^verbatim>\<open>JS_DHASH_REMOVE\<close> takes the key out of a well-formed table and leaves it well-formed, also
  where the removed entry becomes a sentinel, the table shrinks or memory runs out shrinking it.
\<close>

theorem Operate_remove:
  assumes "ops_ok ops" "dh_maps ops t m"
  shows "\<exists>t' os'. JS_DHashTableOperate os ops t k JS_DHASH_REMOVE = Some (None, t', os') \<and> dh_maps ops t' (m(k := None))"
  using remove_entry_ok [OF assms, of os k] by (simp add: JS_DHashTableOperate_def Let_def)

section \<open>Enumerating\<close>

lemma RawRemove_other:
  "j \<noteq> i \<Longrightarrow> entryStore (JS_DHashTableRawRemove ops t i) ! j = entryStore t ! j"
  by (simp add: JS_DHashTableRawRemove_def Let_def)

text \<open>An enumerator that removes the bodies with a property and does not stop.\<close>

lemma enum_ok:
  assumes "dh_maps ops t m" "distinct js" "\<forall>j \<in> set js. j < JS_DHASH_TABLE_SIZE t"
  shows "\<exists>t' d'. enum_loop ops (\<lambda>i b a. (P b, False, a)) js t i d a = (t', i + length (filter (\<lambda>j. is_live (entryStore t ! j)) js), d', a) \<and>
    dh_maps ops t' (m |` (- {k. \<exists>j \<in> set js. is_live (entryStore t ! j) \<and> P (body (entryStore t ! j)) \<and> getKey ops (body (entryStore t ! j)) = k})) \<and>
    hashShift t' = hashShift t"
  using assms
proof (induction js arbitrary: t m i d)
  case Nil
  have "m |` UNIV = m" by (rule ext) (simp add: restrict_map_def)
  then show ?case using Nil by simp
next
  case (Cons j js)
  let ?x = "entryStore t ! j" and ?R = "\<lambda>js. {k. \<exists>j \<in> set js. is_live (entryStore t ! j) \<and> P (body (entryStore t ! j)) \<and> getKey ops (body (entryStore t ! j)) = k}"
  have j: "j < length (entryStore t)" using Cons.prems(3) dh_mapsD(9) [OF Cons.prems(1)] by simp
  define u where "u = (if is_live ?x \<and> P (body ?x) then JS_DHashTableRawRemove ops t j else t)"
  define mu where "mu = (if is_live ?x \<and> P (body ?x) then m(getKey ops (body ?x) := None) else m)"
  have u: "dh_maps ops u mu" "hashShift u = hashShift t"
    using RawRemove_ok(1,2) [OF Cons.prems(1) j, of "getKey ops (body ?x)"] Cons.prems(1) by (simp_all add: u_def mu_def)
  have same: "entryStore u ! j' = entryStore t ! j'" if "j' \<in> set js" for j'
  proof -
    have "j' \<noteq> j" using that Cons.prems(2) by auto
    then show ?thesis by (simp add: u_def RawRemove_other)
  qed
  have Ru: "{k. \<exists>j \<in> set js. is_live (entryStore u ! j) \<and> P (body (entryStore u ! j)) \<and> getKey ops (body (entryStore u ! j)) = k} = ?R js"
    using same by auto
  have cu: "length (filter (\<lambda>j. is_live (entryStore u ! j)) js) = length (filter (\<lambda>j. is_live (entryStore t ! j)) js)"
    by (rule arg_cong [where f = length], rule filter_cong) (simp_all add: same)
  have R: "mu |` (- ?R js) = m |` (- ?R (j # js))" by (rule ext) (auto simp: mu_def restrict_map_def)
  have d2: "distinct js" "\<forall>j \<in> set js. j < JS_DHASH_TABLE_SIZE u" using Cons.prems(2,3) u(2) by simp_all
  have "enum_loop ops (\<lambda>i b a. (P b, False, a)) (j # js) t i d a =
    enum_loop ops (\<lambda>i b a. (P b, False, a)) js u (if is_live ?x then i + 1 else i) (d \<or> (is_live ?x \<and> P (body ?x))) a"
    by (auto simp: Let_def u_def)
  moreover obtain t' d' where "enum_loop ops (\<lambda>i b a. (P b, False, a)) js u (if is_live ?x then i + 1 else i) (d \<or> (is_live ?x \<and> P (body ?x))) a =
      (t', (if is_live ?x then i + 1 else i) + length (filter (\<lambda>j. is_live (entryStore t ! j)) js), d', a)"
      "dh_maps ops t' (m |` (- ?R (j # js)))" "hashShift t' = hashShift t"
    using Cons.IH [OF u(1) d2, of "if is_live ?x then i + 1 else i" "d \<or> (is_live ?x \<and> P (body ?x))"] unfolding Ru cu R u(2) by blast
  ultimately show ?case by (intro exI [of _ t'] exI [of _ d']) simp
qed

lemma live_by_index: "length (filter (\<lambda>j. P (xs ! j)) [0..<length xs]) = length (filter P xs)"
  using filter_map [of P "(!) xs" "[0..<length xs]"] by (simp add: map_nth comp_def)

text \<open>
  Enumerating with an enumerator that removes the entries with a property and does not stop
  visits every entry once, removes exactly those, and leaves a well-formed table, resized or not.
\<close>

theorem Enumerate_filters:
  assumes o: "ops_ok ops" and t: "dh_maps ops t m"
  shows "\<exists>t' os'. JS_DHashTableEnumerate os ops t (\<lambda>i b a. (P b, False, a)) arg = Some (entryCount t, t', arg, os') \<and>
    dh_maps ops t' (\<lambda>k. case m k of None \<Rightarrow> None | Some b \<Rightarrow> if P b then None else Some b)"
proof -
  note d = dh_mapsD [OF t]
  let ?n = "JS_DHASH_TABLE_SIZE t" and ?e = "\<lambda>i b a. (P b, False, a)"
  define m' where "m' = (\<lambda>k. case m k of None \<Rightarrow> None | Some b \<Rightarrow> if P b then None else Some b)"
  let ?R = "{k. \<exists>j \<in> set [0..<?n]. is_live (entryStore t ! j) \<and> P (body (entryStore t ! j)) \<and> getKey ops (body (entryStore t ! j)) = k}"
  have "(m |` (- ?R)) k = m' k" for k
  proof (cases "m k")
    case None
    then show ?thesis by (simp add: restrict_map_def m'_def)
  next
    case (Some b)
    then obtain i where i: "i < ?n" "is_live (entryStore t ! i)" "getKey ops (body (entryStore t ! i)) = k" "body (entryStore t ! i) = b"
      using d(2,9) unfolding st_maps_def by metis
    have "k \<in> ?R \<longleftrightarrow> P b"
    proof
      assume "k \<in> ?R"
      then obtain j where j: "j < ?n" "is_live (entryStore t ! j)" "P (body (entryStore t ! j))" "getKey ops (body (entryStore t ! j)) = k" by auto
      then have "m k = Some (body (entryStore t ! j))" by (intro st_maps_Some [OF d(2)]) (simp_all add: d(9))
      then show "P b" using Some j(3) by simp
    qed (use i in auto)
    then show ?thesis using Some unfolding restrict_map_def Compl_iff by (cases "P b") (simp_all add: m'_def)
  qed
  then have m': "m |` (- ?R) = m'" by (rule ext)
  have "length (filter (\<lambda>j. is_live (entryStore t ! j)) [0..<?n]) = entryCount t" using live_by_index [of is_live "entryStore t"] d(5,9) by simp
  then obtain u dr where u: "enum_loop ops ?e [0..<?n] t 0 False arg = (u, entryCount t, dr, arg)" "dh_maps ops u m'" "hashShift u = hashShift t"
    using enum_ok [OF t, of "[0..<?n]" P 0 False arg] unfolding m' by auto
  note du = dh_mapsD [OF u(2)]
  define n where "n = (let n = entryCount u + entryCount u div 2 in if n < JS_DHASH_MIN_SIZE then JS_DHASH_MIN_SIZE else n)"
  define delta where "delta = int (JS_CEILING_LOG2 n) - int (32 - hashShift u)"
  define newLog2 where "newLog2 = nat (int (32 - hashShift u) + delta)"
  have nl: "newLog2 = JS_CEILING_LOG2 n" by (simp add: newLog2_def delta_def)
  have n: "16 \<le> n" "entryCount u < n" by (auto simp: n_def Let_def JS_DHASH_MIN_SIZE_def)
  have "entryCount u < JS_DHASH_TABLE_SIZE u" using du(7) by simp
  also have "JS_DHASH_TABLE_SIZE u \<le> 2 ^ 23" using du(3) by (intro power_increasing) simp_all
  finally have "entryCount u < 2 ^ 23" .
  moreover have "entryCount u div 2 \<le> entryCount u" by simp
  ultimately have n32: "n < 2 ^ 32" by (simp add: n_def Let_def JS_DHASH_MIN_SIZE_def del: div_le_dividend)
  have "(2 :: nat) ^ 4 \<le> 2 ^ newLog2" using CEILING_LOG2(1) [OF n32] n(1) nl by simp
  then have l4: "4 \<le> newLog2" by (rule power_le_imp_le_exp [rotated]) simp
  have "entryCount u < 2 ^ newLog2" using CEILING_LOG2(1) [OF n32] n(2) nl by simp
  from ChangeTable_ok [OF o u(2) newLog2_def l4 this, of os]
  obtain ok t' os' where c: "ChangeTable os ops u delta = Some (ok, t', os')" "dh_maps ops t' m'" using u(2) by metis
  have "JS_DHashTableEnumerate os ops t ?e arg =
    (if dr \<and> (?n div 4 \<le> removedCount u \<or> (JS_DHASH_MIN_SIZE < ?n \<and> entryCount u \<le> MIN_LOAD u ?n))
     then (case ChangeTable os ops u delta of None \<Rightarrow> None | Some (_, t', os) \<Rightarrow> Some (entryCount t, t', arg, os)) else Some (entryCount t, u, arg, os))"
    unfolding JS_DHashTableEnumerate_def Let_def u(1) prod.case delta_def n_def by (rule refl)
  then show ?thesis unfolding m'_def [symmetric] using c u(2) by auto
qed

section \<open>A dictionary\<close>

text \<open>
  Entries with a string and a value behind their header, hashed by \<^verbatim>\<open>JS_DHashStringKey\<close>. The client
  stores key and value in the entry an addition returns, and tests whether the entry a lookup
  returns is live, as the interface asks.
\<close>

definition string_dops :: "(string, string \<times> u32) dops" where
  "string_dops = \<lparr>hashKey = JS_DHashStringKey 0, getKey = fst, matchEntry = (\<lambda>b k. fst b = k), moveEntry = (\<lambda>from to. from),
     clearEntry = (\<lambda>_. ([], 0)), initEntry = None, zeroBody = ([], 0)\<rparr>"

definition dh_get :: "(string \<times> u32) dtable \<times> outcomes \<Rightarrow> string \<Rightarrow> u32 option \<times> (string \<times> u32) dtable \<times> outcomes" where
  "dh_get = (\<lambda>(t, os) k. case JS_DHashTableOperate os string_dops t k JS_DHASH_LOOKUP of
     Some (Some i, t, os) \<Rightarrow> (if is_live (entryStore t ! i) then Some (snd (body (entryStore t ! i))) else None, t, os)
   | _ \<Rightarrow> (None, t, os))"

definition dh_put :: "(string \<times> u32) dtable \<times> outcomes \<Rightarrow> string \<Rightarrow> u32 \<Rightarrow> bool \<times> (string \<times> u32) dtable \<times> outcomes" where
  "dh_put = (\<lambda>(t, os) k v. case JS_DHashTableOperate os string_dops t k JS_DHASH_ADD of
     Some (Some i, t, os) \<Rightarrow> (True, put_body t i (k, v), os)
   | Some (None, t, os) \<Rightarrow> (False, t, os)
   | None \<Rightarrow> (False, t, os))"

definition dh_del :: "(string \<times> u32) dtable \<times> outcomes \<Rightarrow> string \<Rightarrow> (string \<times> u32) dtable \<times> outcomes" where
  "dh_del = (\<lambda>(t, os) k. case JS_DHashTableOperate os string_dops t k JS_DHASH_REMOVE of
     Some (_, t, os) \<Rightarrow> (t, os) | None \<Rightarrow> (t, os))"

definition dh_rep :: "nat \<Rightarrow> (string \<times> u32) dtable \<times> outcomes \<Rightarrow> (string \<Rightarrow> u32 option) \<Rightarrow> bool" where
  "dh_rep n s m \<longleftrightarrow> dh_maps string_dops (fst s) (\<lambda>k. map_option (Pair k) (m k))"

lemma string_dops_ok: "ops_ok string_dops"
  by (auto simp: ops_ok_def string_dops_def)

text \<open>A new body for the key of an entry.\<close>

lemma put_body_live:
  assumes t: "dh_maps ops t m" and i: "i < length (entryStore t)" "is_live (entryStore t ! i)" "getKey ops (body (entryStore t ! i)) = k" "getKey ops b = k"
  shows "dh_maps ops (put_body t i b) (m(k := Some b))"
proof -
  note d = dh_mapsD [OF t] and sd = store_okD [OF dh_mapsD(1) [OF t]]
  define x where "x = (entryStore t ! i)\<lparr>body := b\<rparr>"
  let ?st = "(entryStore t)[i := x]"
  have x: "keyHash x = keyHash (entryStore t ! i)" "body x = b" by (simp_all add: x_def)
  have kh: "keyHash (?st ! j) = keyHash (entryStore t ! j)" if "j < length (entryStore t)" for j using that x by (cases "j = i") auto
  have ky: "getKey ops (body (?st ! j)) = getKey ops (body (entryStore t ! j))" if "j < length (entryStore t)" for j using that x i(3,4) by (cases "j = i") auto
  have pl: "probe (hashShift t) h e < length (entryStore t)" for h e using probe_less d(9) by simp
  have st: "store_ok ops (hashShift t) ?st"
    unfolding store_ok_def
  proof (intro conjI allI impI)
    fix j assume j: "j < length ?st" "is_live (?st ! j)"
    then have j': "j < length (entryStore t)" "is_live (entryStore t ! j)" using kh by simp_all
    show "keyHash (?st ! j) AND NOT 1 = live_hash ops (getKey ops (body (?st ! j)))" unfolding kh [OF j'(1)] ky [OF j'(1)] by (rule sd(3) [OF j'])
    show "\<exists>e. probe (hashShift t) (live_hash ops (getKey ops (body (?st ! j)))) e = j \<and>
        (\<forall>e' < e. odd (keyHash (?st ! probe (hashShift t) (live_hash ops (getKey ops (body (?st ! j)))) e')))"
      unfolding ky [OF j'(1)] kh [OF pl] by (rule sd(4) [OF j'])
  next
    fix a c assume "a < length ?st" "c < length ?st" "is_live (?st ! a) \<and> is_live (?st ! c) \<and> getKey ops (body (?st ! a)) = getKey ops (body (?st ! c))"
    then show "a = c" using sd(5) [of a c] kh ky by simp
  qed (use sd(1,2) in simp_all)
  have other: "j \<noteq> i \<Longrightarrow> j < length (entryStore t) \<Longrightarrow> is_live (entryStore t ! j) \<Longrightarrow> getKey ops (body (entryStore t ! j)) \<noteq> k" for j
    using sd(5) [of j i] i by metis
  have mp: "st_maps ops ?st (m(k := Some b))"
    unfolding st_maps_def
  proof (intro allI)
    fix k' b'
    show "(m(k := Some b)) k' = Some b' \<longleftrightarrow> (\<exists>j < length ?st. is_live (?st ! j) \<and> getKey ops (body (?st ! j)) = k' \<and> body (?st ! j) = b')"
    proof (cases "k' = k")
      case True
      have "(\<exists>j < length ?st. is_live (?st ! j) \<and> getKey ops (body (?st ! j)) = k \<and> body (?st ! j) = b') \<longleftrightarrow> b' = b"
      proof
        assume "\<exists>j < length ?st. is_live (?st ! j) \<and> getKey ops (body (?st ! j)) = k \<and> body (?st ! j) = b'"
        then obtain j where j: "j < length (entryStore t)" "is_live (?st ! j)" "getKey ops (body (?st ! j)) = k" "body (?st ! j) = b'" by auto
        then have "j = i" using other [of j] kh [OF j(1)] ky [OF j(1)] by auto
        then show "b' = b" using j(4) i(1) x(2) by simp
      next
        assume "b' = b"
        then show "\<exists>j < length ?st. is_live (?st ! j) \<and> getKey ops (body (?st ! j)) = k \<and> body (?st ! j) = b'"
          using i x by (intro exI [of _ i]) simp
      qed
      then show ?thesis using True by auto
    next
      case False
      have "(\<exists>j < length ?st. is_live (?st ! j) \<and> getKey ops (body (?st ! j)) = k' \<and> body (?st ! j) = b') \<longleftrightarrow>
        (\<exists>j < length (entryStore t). is_live (entryStore t ! j) \<and> getKey ops (body (entryStore t ! j)) = k' \<and> body (entryStore t ! j) = b')"
      proof (rule ex_cong1)
        fix j
        show "(j < length ?st \<and> is_live (?st ! j) \<and> getKey ops (body (?st ! j)) = k' \<and> body (?st ! j) = b') \<longleftrightarrow>
          (j < length (entryStore t) \<and> is_live (entryStore t ! j) \<and> getKey ops (body (entryStore t ! j)) = k' \<and> body (entryStore t ! j) = b')"
          using False i x by (cases "j = i") auto
      qed
      then show ?thesis using False d(2) unfolding st_maps_def by simp
    qed
  qed
  have c: "live_count ?st = live_count (entryStore t)" "removed_count ?st = removed_count (entryStore t)"
    using filter_update [OF i(1), of is_live x] filter_update [OF i(1), of is_removed x] x(1) by simp_all
  show ?thesis using st mp c t by (simp add: dh_maps_def put_body_def x_def)
qed

lemma dh_add:
  assumes t: "dh_maps string_dops t (\<lambda>k. map_option (Pair k) (m k))"
  shows "\<exists>ok s'. dh_put (t, os) k v = (ok, s') \<and> dh_maps string_dops (fst s') (\<lambda>k'. map_option (Pair k') ((if ok then m(k \<mapsto> v) else m) k'))"
proof -
  let ?m = "\<lambda>k. map_option (Pair k) (m k)"
  have up: "?m(k := Some (k, v)) = (\<lambda>k'. map_option (Pair k') ((m(k \<mapsto> v)) k'))" by (rule ext) simp
  have gk: "getKey string_dops b = fst b" for b by (simp add: string_dops_def)
  obtain r t' os' where a: "JS_DHashTableOperate os string_dops t k JS_DHASH_ADD = Some (r, t', os')"
    "case r of None \<Rightarrow> t' = t \<and> (False \<in> set os \<or> 2 ^ 23 \<le> JS_DHASH_TABLE_SIZE t)
     | Some i \<Rightarrow> i < length (entryStore t') \<and>
         (case ?m k of Some b \<Rightarrow> dh_maps string_dops t' ?m \<and> is_live (entryStore t' ! i) \<and> body (entryStore t' ! i) = b
          | None \<Rightarrow> (\<forall>b. getKey string_dops b = k \<longrightarrow> dh_maps string_dops (put_body t' i b) (?m(k := Some b))) \<and>
              (initEntry string_dops \<noteq> None \<longrightarrow> getKey string_dops (body (entryStore t' ! i)) = k))"
    using add_entry_ok [OF string_dops_ok t, of os k] unfolding JS_DHashTableOperate_def Let_def dop.case by blast
  show ?thesis
  proof (cases r)
    case None
    then show ?thesis using a t by (intro exI [of _ False] exI [of _ "(t, os')"]) (simp add: dh_put_def)
  next
    case (Some i)
    have "dh_maps string_dops (put_body t' i (k, v)) (?m(k := Some (k, v)))"
    proof (cases "m k")
      case None
      then show ?thesis using a(2) Some gk by simp
    next
      case (Some w)
      then have "dh_maps string_dops t' ?m" "is_live (entryStore t' ! i)" "body (entryStore t' ! i) = (k, w)" "i < length (entryStore t')"
        using a(2) \<open>r = Some i\<close> by simp_all
      then show ?thesis using gk by (intro put_body_live) simp_all
    qed
    then show ?thesis using a(1) Some unfolding up by (intro exI [of _ True] exI [of _ "(put_body t' i (k, v), os')"]) (simp add: dh_put_def)
  qed
qed

interpretation dh: dictionary dh_rep "\<lambda>_. True" "\<lambda>k. k" dh_get dh_put dh_del
proof
  fix n s m k r s' assume a: "dh_rep (Suc n) s m" "dh_get s k = (r, s')"
  obtain t os where s: "s = (t, os)" by fastforce
  have t: "dh_maps string_dops t (\<lambda>k. map_option (Pair k) (m k))" using a(1) by (simp add: s dh_rep_def)
  obtain i where i: "i < length (entryStore t)" "JS_DHashTableOperate os string_dops t k JS_DHASH_LOOKUP = Some (Some i, t, os)"
    "case map_option (Pair k) (m k) of Some b \<Rightarrow> is_live (entryStore t ! i) \<and> body (entryStore t ! i) = b | None \<Rightarrow> is_free (entryStore t ! i)"
    using lookup_ok [OF string_dops_ok t, of os k] by blast
  have "r = m k" "s' = s" using a(2) i(2,3) live_not_free [of "entryStore t ! i"] by (cases "m k"; simp add: s dh_get_def split: if_splits)+
  then show "r = m k \<and> dh_rep n s' m" using t by (simp add: s dh_rep_def)
next
  fix n s m k v ok s' assume a: "dh_rep (Suc n) s m" "dh_put s k v = (ok, s')"
  obtain t os where s: "s = (t, os)" by fastforce
  have "dh_maps string_dops t (\<lambda>k. map_option (Pair k) (m k))" using a(1) by (simp add: s dh_rep_def)
  from dh_add [OF this, of os k v] show "dh_rep n s' (if ok then m(k \<mapsto> v) else m)" using a(2) by (auto simp: s dh_rep_def)
next
  fix n s m k assume a: "dh_rep (Suc n) s m"
  obtain t os where s: "s = (t, os)" by fastforce
  have t: "dh_maps string_dops t (\<lambda>k. map_option (Pair k) (m k))" using a(1) by (simp add: s dh_rep_def)
  obtain t' os' where "JS_DHashTableOperate os string_dops t k JS_DHASH_REMOVE = Some (None, t', os')" "dh_maps string_dops t' ((\<lambda>k. map_option (Pair k) (m k))(k := None))"
    using remove_entry_ok [OF string_dops_ok t, of os k] unfolding JS_DHashTableOperate_def Let_def dop.case by blast
  moreover have "(\<lambda>k. map_option (Pair k) (m k))(k := None) = (\<lambda>k'. map_option (Pair k') ((m(k := None)) k'))" by (rule ext) simp
  ultimately show "dh_rep n (dh_del s k) (m(k := None))" by (simp add: s dh_del_def dh_rep_def)
qed

section \<open>The properties on concrete tables\<close>

definition wit_table :: "u32 dtable" where
  "wit_table = \<lparr>hashShift = 28, maxAlphaFrac = 0xC0, minAlphaFrac = 0x40, entryCount = 0, removedCount = 0, generation = 0, entryStore = fresh_store stub_ops 16\<rparr>"

lemma stub_ops_ok: "ops_ok stub_ops"
  by (auto simp: ops_ok_def stub_ops_def JS_DHashMatchEntryStub_def)

lemma wit_table_ok: "dh_maps stub_ops wit_table Map.empty"
  using fresh_ok(1) [of 28 stub_ops] by (simp add: dh_maps_def wit_table_def fresh_ok(2) fresh_store(3,4))

theorem JS_DHashTableInit_empty_witness:
  "fst (alloc_next []) \<and> (case JS_DHashTableInit [] stub_ops 100 of
      (Some t, _) \<Rightarrow> (100 :: nat) \<le> 2 ^ 23 \<and> dh_maps stub_ops t Map.empty \<and> 100 \<le> JS_DHASH_TABLE_SIZE t
    | (None, os'') \<Rightarrow> 2 ^ 23 < (100 :: nat) \<and> os'' = [])"
  using JS_DHashTableInit_empty [of "[]" "[]" 100 stub_ops] by simp

theorem Operate_lookup_witness:
  "\<exists>i < length (entryStore wit_table). JS_DHashTableOperate [] stub_ops wit_table 5 JS_DHASH_LOOKUP = Some (Some i, wit_table, []) \<and> is_free (entryStore wit_table ! i)"
  using Operate_lookup [OF stub_ops_ok wit_table_ok, of "[]" 5] by simp

theorem Operate_add_witness:
  "\<exists>i t' os'. JS_DHashTableOperate [] stub_ops wit_table 5 JS_DHASH_ADD = Some (Some i, t', os') \<and> dh_maps stub_ops (put_body t' i 5) [5 \<mapsto> 5]"
proof -
  obtain r t' os' where a: "JS_DHashTableOperate [] stub_ops wit_table 5 JS_DHASH_ADD = Some (r, t', os')"
    "case r of None \<Rightarrow> t' = wit_table \<and> (False \<in> set [] \<or> 2 ^ 23 \<le> JS_DHASH_TABLE_SIZE wit_table)
     | Some i \<Rightarrow> (\<forall>b. getKey stub_ops b = 5 \<longrightarrow> dh_maps stub_ops (put_body t' i b) [5 \<mapsto> b])"
    using Operate_add [OF stub_ops_ok wit_table_ok, of "[]" 5] by (auto split: option.splits)
  have "r \<noteq> None" using a(2) by (cases r) (simp_all add: wit_table_def)
  then show ?thesis using a by (auto simp: stub_ops_def)
qed

theorem Operate_remove_witness:
  "\<exists>t' os'. JS_DHashTableOperate [] stub_ops wit_table 5 JS_DHASH_REMOVE = Some (None, t', os') \<and> dh_maps stub_ops t' Map.empty"
  using Operate_remove [OF stub_ops_ok wit_table_ok, of "[]" 5] by simp

theorem Enumerate_filters_witness:
  "\<exists>t' os'. JS_DHashTableEnumerate [] stub_ops wit_table (\<lambda>i b a. (odd b, False, a)) () = Some (0, t', (), os') \<and> dh_maps stub_ops t' Map.empty"
  using Enumerate_filters [OF stub_ops_ok wit_table_ok, of "[]" odd "()"] by (simp add: wit_table_def)

end
