(* ===== verification/JsHash.thy ===== *)
theory JsHash
  imports JsBit Dictionary "HOL-Library.Multiset"
begin

text \<open>
  SpiderMonkey's hash table (\<^verbatim>\<open>jshash.c\<close>): a power of two of buckets with chained entries, a lookup
  that moves the entry it finds to the front of its chain, and a size that follows the number of
  entries.

  A chain is the list of its entries. A \<^verbatim>\<open>JSHashEntry **\<close>, the address of the link to an entry, is
  the bucket and the number of entries before the link; the entry it leads to is the one at that
  position, none at the end of the chain. Keys and values are opaque, \<open>None\<close> is the null value. The
  calls of \<^verbatim>\<open>freeEntry\<close> are recorded in \<open>freed\<close>; \<^verbatim>\<open>allocTable\<close> and \<^verbatim>\<open>allocEntry\<close> take their outcomes
  from the list of outcomes. Pointers and \<^verbatim>\<open>size_t\<close> have 32 bits, as on the target of the port.
\<close>

section \<open>The state\<close>

record ('k, 'v) hentry =
  he_hash :: u32
  he_key :: 'k
  he_value :: "'v option"

datatype ('k, 'v) freeing = HT_FREE_VALUE "('k, 'v) hentry" | HT_FREE_ENTRY "('k, 'v) hentry"

record ('k, 'v) htable =
  buckets :: "('k, 'v) hentry list list"
  nentries :: nat
  shift :: nat
  freed :: "('k, 'v) freeing list"

record ('k, 'v) hops =
  key_hash :: "'k \<Rightarrow> u32"
  keyCompare :: "'k \<Rightarrow> 'k \<Rightarrow> bool"
  valueCompare :: "'v option \<Rightarrow> 'v option \<Rightarrow> bool"

type_synonym link = "nat \<times> nat"

definition NBUCKETS :: "('k, 'v) htable \<Rightarrow> nat" where "NBUCKETS ht = 2 ^ (32 - shift ht)"
definition MINBUCKETSLOG2 :: nat where "MINBUCKETSLOG2 = 4"
definition MINBUCKETS :: nat where "MINBUCKETS = 2 ^ MINBUCKETSLOG2"
definition OVERLOADED :: "nat \<Rightarrow> nat" where "OVERLOADED n = n - n div 8"
definition UNDERLOADED :: "nat \<Rightarrow> nat" where "UNDERLOADED n = (if MINBUCKETS < n then n div 4 else 0)"

definition BUCKET_HEAD :: "nat \<Rightarrow> u32 \<Rightarrow> nat" where
  "BUCKET_HEAD s kh = unat (drop_bit s (kh * 0x9E3779B9))"

definition JS_NewHashTable :: "outcomes \<Rightarrow> nat \<Rightarrow> ('k, 'v) htable option \<times> outcomes" where
  "JS_NewHashTable os n =
    (let n = (if n \<le> MINBUCKETS then MINBUCKETSLOG2 else JS_CEILING_LOG2 n)
     in case alloc_next os of (ok, os) \<Rightarrow>
        if \<not> ok then (None, os)
        else case alloc_next os of (ok, os) \<Rightarrow>
          if \<not> ok then (None, os)
          else (Some \<lparr>buckets = replicate (2 ^ n) [], nentries = 0, shift = 32 - n, freed = []\<rparr>, os))"

text \<open>The freeings that destroying a table adds.\<close>

definition JS_HashTableDestroy :: "('k, 'v) htable \<Rightarrow> ('k, 'v) freeing list" where
  "JS_HashTableDestroy ht = freed ht @ map HT_FREE_ENTRY (concat (buckets ht))"

section \<open>Operations\<close>

fun chain_loop :: "('k, 'v) hops \<Rightarrow> u32 \<Rightarrow> 'k \<Rightarrow> ('k, 'v) hentry list \<Rightarrow> nat \<Rightarrow> nat \<times> bool" where
  "chain_loop ops kh k [] p = (p, False)"
| "chain_loop ops kh k (he # c) p =
    (if he_hash he = kh \<and> keyCompare ops k (he_key he) then (p, True) else chain_loop ops kh k c (p + 1))"

definition JS_HashTableRawLookup :: "('k, 'v) hops \<Rightarrow> ('k, 'v) htable \<Rightarrow> u32 \<Rightarrow> 'k \<Rightarrow> link \<times> ('k, 'v) htable" where
  "JS_HashTableRawLookup ops ht kh k =
    (let b = BUCKET_HEAD (shift ht) kh; c = buckets ht ! b
     in case chain_loop ops kh k c 0 of
          (p, True) \<Rightarrow> ((b, 0), if p \<noteq> 0 then ht\<lparr>buckets := (buckets ht)[b := c ! p # take p c @ drop (p + 1) c]\<rparr> else ht)
        | (p, False) \<Rightarrow> ((b, p), ht))"

text \<open>The entry a link leads to.\<close>

definition at_link :: "('k, 'v) htable \<Rightarrow> link \<Rightarrow> ('k, 'v) hentry option" where
  "at_link ht hep = (if snd hep < length (buckets ht ! fst hep) then Some (buckets ht ! fst hep ! snd hep) else None)"

fun rehash_chain :: "nat \<Rightarrow> ('k, 'v) hentry list \<Rightarrow> ('k, 'v) hentry list list \<Rightarrow> ('k, 'v) hentry list list" where
  "rehash_chain s [] bs = bs"
| "rehash_chain s (he # c) bs = (let b = BUCKET_HEAD s (he_hash he) in rehash_chain s c (bs[b := he # bs ! b]))"

fun rehash_buckets :: "nat \<Rightarrow> nat \<Rightarrow> ('k, 'v) hentry list list \<Rightarrow> ('k, 'v) hentry list list \<Rightarrow> ('k, 'v) hentry list list" where
  "rehash_buckets s n [] bs = bs"
| "rehash_buckets s n (c # cs) bs = (if n = 0 then bs else rehash_buckets s (n - length c) cs (rehash_chain s c bs))"

definition Resize :: "outcomes \<Rightarrow> ('k, 'v) htable \<Rightarrow> nat \<Rightarrow> bool \<times> ('k, 'v) htable \<times> outcomes" where
  "Resize os ht newshift =
    (let nb = 2 ^ (32 - newshift)
     in if (2 ^ 32 - 1) div 4 < nb then (False, ht, os)
        else case alloc_next os of (ok, os) \<Rightarrow>
          if \<not> ok then (False, ht, os)
          else (True, ht\<lparr>shift := newshift, buckets := rehash_buckets newshift (nentries ht) (buckets ht) (replicate nb [])\<rparr>, os))"

definition JS_HashTableRawAdd :: "outcomes \<Rightarrow> ('k, 'v) hops \<Rightarrow> ('k, 'v) htable \<Rightarrow> link \<Rightarrow> u32 \<Rightarrow> 'k \<Rightarrow> 'v option \<Rightarrow>
    link option \<times> ('k, 'v) htable \<times> outcomes" where
  "JS_HashTableRawAdd os ops ht hep kh k v =
    (let (ok, hep, ht, os) =
       (if OVERLOADED (NBUCKETS ht) \<le> nentries ht
        then case Resize os ht (shift ht - 1) of (ok, ht, os) \<Rightarrow>
          if \<not> ok then (False, hep, ht, os)
          else let (hep, ht) = JS_HashTableRawLookup ops ht kh k in (True, hep, ht, os)
        else (True, hep, ht, os))
     in if \<not> ok then (None, ht, os)
        else case alloc_next os of (ok, os) \<Rightarrow>
          if \<not> ok then (None, ht, os)
          else let c = buckets ht ! fst hep;
                   c = take (snd hep) c @ \<lparr>he_hash = kh, he_key = k, he_value = v\<rparr> # drop (snd hep) c
               in (Some hep, ht\<lparr>buckets := (buckets ht)[fst hep := c], nentries := nentries ht + 1\<rparr>, os))"

definition JS_HashTableAdd :: "outcomes \<Rightarrow> ('k, 'v) hops \<Rightarrow> ('k, 'v) htable \<Rightarrow> 'k \<Rightarrow> 'v option \<Rightarrow>
    link option \<times> ('k, 'v) htable \<times> outcomes" where
  "JS_HashTableAdd os ops ht k v =
    (let kh = key_hash ops k; (hep, ht) = JS_HashTableRawLookup ops ht kh k
     in case at_link ht hep of
          None \<Rightarrow> JS_HashTableRawAdd os ops ht hep kh k v
        | Some he \<Rightarrow>
            if valueCompare ops (he_value he) v then (Some hep, ht, os)
            else let ht = (if he_value he \<noteq> None then ht\<lparr>freed := freed ht @ [HT_FREE_VALUE he]\<rparr> else ht);
                     c = (buckets ht ! fst hep)[snd hep := he\<lparr>he_value := v\<rparr>]
                 in (Some hep, ht\<lparr>buckets := (buckets ht)[fst hep := c]\<rparr>, os))"

definition JS_HashTableRawRemove :: "outcomes \<Rightarrow> ('k, 'v) htable \<Rightarrow> link \<Rightarrow> ('k, 'v) hentry \<Rightarrow> ('k, 'v) htable \<times> outcomes" where
  "JS_HashTableRawRemove os ht hep he =
    (let c = buckets ht ! fst hep;
         ht = ht\<lparr>buckets := (buckets ht)[fst hep := take (snd hep) c @ drop (snd hep + 1) c], freed := freed ht @ [HT_FREE_ENTRY he]\<rparr>;
         n = NBUCKETS ht; ht = ht\<lparr>nentries := nentries ht - 1\<rparr>
     in if nentries ht < UNDERLOADED n then snd (Resize os ht (shift ht + 1)) else (ht, os))"

definition JS_HashTableRemove :: "outcomes \<Rightarrow> ('k, 'v) hops \<Rightarrow> ('k, 'v) htable \<Rightarrow> 'k \<Rightarrow> bool \<times> ('k, 'v) htable \<times> outcomes" where
  "JS_HashTableRemove os ops ht k =
    (let (hep, ht) = JS_HashTableRawLookup ops ht (key_hash ops k) k
     in case at_link ht hep of
          None \<Rightarrow> (False, ht, os)
        | Some he \<Rightarrow> (True, JS_HashTableRawRemove os ht hep he))"

definition JS_HashTableLookup :: "('k, 'v) hops \<Rightarrow> ('k, 'v) htable \<Rightarrow> 'k \<Rightarrow> 'v option \<times> ('k, 'v) htable" where
  "JS_HashTableLookup ops ht k =
    (let (hep, ht) = JS_HashTableRawLookup ops ht (key_hash ops k) k
     in (case at_link ht hep of None \<Rightarrow> None | Some he \<Rightarrow> he_value he, ht))"

text \<open>
  The enumerator says of every entry whether to remove it and whether to stop, and keeps a state of
  its own. One chain: what is left of it, the entries seen, whether to stop.
\<close>

fun enum_chain :: "(('k, 'v) hentry \<Rightarrow> nat \<Rightarrow> 'a \<Rightarrow> bool \<times> bool \<times> 'a) \<Rightarrow> ('k, 'v) hentry list \<Rightarrow> nat \<Rightarrow> 'a \<Rightarrow>
    ('k, 'v) hentry list \<times> ('k, 'v) hentry list \<times> nat \<times> bool \<times> 'a" where
  "enum_chain f [] n arg = ([], [], n, False, arg)"
| "enum_chain f (he # c) n arg =
    (let (rm, stop, arg) = f he n arg
     in if stop then (if rm then c else he # c, if rm then [he] else [], n + 1, True, arg)
        else let (c, gone, n, stop, arg) = enum_chain f c (n + 1) arg
             in (if rm then c else he # c, if rm then he # gone else gone, n, stop, arg))"

fun enum_buckets :: "(('k, 'v) hentry \<Rightarrow> nat \<Rightarrow> 'a \<Rightarrow> bool \<times> bool \<times> 'a) \<Rightarrow> nat \<Rightarrow> ('k, 'v) hentry list list \<Rightarrow> nat \<Rightarrow> 'a \<Rightarrow>
    ('k, 'v) hentry list list \<times> ('k, 'v) hentry list \<times> nat \<times> 'a" where
  "enum_buckets f nlimit [] n arg = ([], [], n, arg)"
| "enum_buckets f nlimit (c # cs) n arg =
    (if n = nlimit then (c # cs, [], n, arg)
     else let (c, gone, n, stop, arg) = enum_chain f c n arg
          in if stop then (c # cs, gone, n, arg)
             else let (cs, gone', n, arg) = enum_buckets f nlimit cs n arg in (c # cs, gone @ gone', n, arg))"

definition JS_HashTableEnumerateEntries :: "outcomes \<Rightarrow> ('k, 'v) htable \<Rightarrow> (('k, 'v) hentry \<Rightarrow> nat \<Rightarrow> 'a \<Rightarrow> bool \<times> bool \<times> 'a) \<Rightarrow> 'a \<Rightarrow>
    nat \<times> ('k, 'v) htable \<times> 'a \<times> outcomes" where
  "JS_HashTableEnumerateEntries os ht f arg =
    (let nlimit = nentries ht;
         (bs, gone, n, arg) = enum_buckets f nlimit (buckets ht) 0 arg;
         ht = ht\<lparr>buckets := bs, nentries := nentries ht - length gone, freed := freed ht @ map HT_FREE_ENTRY gone\<rparr>
     in if nentries ht \<noteq> nlimit \<and> MINBUCKETS < NBUCKETS ht \<and> nentries ht < UNDERLOADED (NBUCKETS ht) then
          let newlog2 = JS_CEILING_LOG2 (nentries ht);
              newlog2 = (if newlog2 < MINBUCKETSLOG2 then MINBUCKETSLOG2 else newlog2);
              (_, ht, os) = Resize os ht (32 - newlog2)
          in (n, ht, arg, os)
        else (n, ht, arg, os))"

fun hash_string_loop :: "u32 \<Rightarrow> string \<Rightarrow> u32" where
  "hash_string_loop h [] = h"
| "hash_string_loop h (c # s) = hash_string_loop (drop_bit 28 h XOR push_bit 4 h XOR word_of_nat (ordc c)) s"

definition JS_HashString :: "string \<Rightarrow> u32" where
  "JS_HashString s = hash_string_loop 0 s"

definition JS_CompareValues :: "'a \<Rightarrow> 'a \<Rightarrow> bool" where
  "JS_CompareValues v1 v2 \<longleftrightarrow> v1 = v2"

section \<open>Well-formed tables\<close>

text \<open>The comparison of keys is their equality; that of values, equality or finer.\<close>

definition hops_ok :: "('k, 'v) hops \<Rightarrow> bool" where
  "hops_ok ops \<longleftrightarrow> (\<forall>a b. keyCompare ops a b \<longleftrightarrow> a = b) \<and> (\<forall>v w. valueCompare ops v w \<longrightarrow> v = w)"

definition buckets_ok :: "('k, 'v) hops \<Rightarrow> nat \<Rightarrow> ('k, 'v) hentry list list \<Rightarrow> bool" where
  "buckets_ok ops s bs \<longleftrightarrow> s \<le> 32 \<and> length bs = 2 ^ (32 - s) \<and> distinct (map he_key (concat bs)) \<and>
     (\<forall>b < length bs. \<forall>he \<in> set (bs ! b). he_hash he = key_hash ops (he_key he) \<and> BUCKET_HEAD s (he_hash he) = b)"

definition hash_ok :: "('k, 'v) hops \<Rightarrow> ('k, 'v) htable \<Rightarrow> bool" where
  "hash_ok ops ht \<longleftrightarrow> buckets_ok ops (shift ht) (buckets ht) \<and> 2 < shift ht \<and> shift ht \<le> 28 \<and> nentries ht = length (concat (buckets ht))"

text \<open>The entries of a table, and the map from keys to values it stands for.\<close>

abbreviation entries :: "('k, 'v) htable \<Rightarrow> ('k, 'v) hentry multiset" where
  "entries ht \<equiv> mset (concat (buckets ht))"

definition entry_map :: "('k, 'v) hentry list \<Rightarrow> 'k \<Rightarrow> 'v option option" where
  "entry_map c = map_of (map (\<lambda>he. (he_key he, he_value he)) c)"

definition hash_map :: "('k, 'v) htable \<Rightarrow> 'k \<Rightarrow> 'v option option" where
  "hash_map ht = entry_map (concat (buckets ht))"

lemma bucket_less: "s \<le> 32 \<Longrightarrow> BUCKET_HEAD s kh < 2 ^ (32 - s)"
proof -
  assume "s \<le> 32"
  then have "(2 :: nat) ^ 32 = 2 ^ (32 - s) * 2 ^ s" by (simp flip: power_add)
  then show ?thesis
    unfolding BUCKET_HEAD_def unat_drop_bit using u32_bound [of "kh * 0x9E3779B9"] by (intro less_mult_imp_div_less) simp
qed

lemma entry_map_iff: "distinct (map he_key c) \<Longrightarrow> entry_map c k = Some v \<longleftrightarrow> (\<exists>he \<in> set c. he_key he = k \<and> he_value he = v)"
  unfolding entry_map_def by (subst map_of_eq_Some_iff) (auto simp: comp_def)

lemma entry_map_None: "entry_map c k = None \<longleftrightarrow> k \<notin> he_key ` set c"
  by (simp add: entry_map_def map_of_eq_None_iff image_image)

lemma keys_mset: "mset c = mset d \<Longrightarrow> distinct (map he_key c) \<longleftrightarrow> distinct (map he_key d)"
  by (metis mset_eq_imp_distinct_iff mset_map)

lemma entry_map_mset:
  assumes "mset c = mset d" "distinct (map he_key c)"
  shows "entry_map c = entry_map d"
proof
  fix k
  have d: "distinct (map he_key d)" using assms keys_mset by blast
  have s: "set c = set d" using assms(1) by (rule mset_eq_setD)
  show "entry_map c k = entry_map d k"
    using entry_map_iff [OF assms(2), of k] entry_map_iff [OF d, of k] s by (cases "entry_map c k"; cases "entry_map d k") (auto, metis+)
qed

lemma entry_map_add:
  assumes "mset c = add_mset he (mset d)" "distinct (map he_key c)"
  shows "entry_map c = (entry_map d)(he_key he \<mapsto> he_value he)" "he_key he \<notin> he_key ` set d" "distinct (map he_key d)"
proof -
  have m: "mset c = mset (he # d)" using assms(1) by simp
  then have "distinct (map he_key (he # d))" using assms(2) keys_mset by blast
  then show "he_key he \<notin> he_key ` set d" "distinct (map he_key d)" by simp_all
  show "entry_map c = (entry_map d)(he_key he \<mapsto> he_value he)"
    unfolding entry_map_mset [OF m assms(2)] by (simp add: entry_map_def)
qed

text \<open>Replacing one chain.\<close>

lemma concat_update:
  assumes "b < length bs"
  shows "mset (concat (bs[b := c])) + mset (bs ! b) = mset (concat bs) + mset c"
  using assms
proof (induction bs arbitrary: b)
  case (Cons x bs)
  then show ?case by (cases b) (auto simp: ac_simps)
qed simp

lemma buckets_okD:
  assumes "buckets_ok ops s bs"
  shows "s \<le> 32" "length bs = 2 ^ (32 - s)" "distinct (map he_key (concat bs))"
    "b < length bs \<Longrightarrow> he \<in> set (bs ! b) \<Longrightarrow> he_hash he = key_hash ops (he_key he)"
    "b < length bs \<Longrightarrow> he \<in> set (bs ! b) \<Longrightarrow> BUCKET_HEAD s (he_hash he) = b"
  using assms unfolding buckets_ok_def by blast+

lemma buckets_update:
  assumes ok: "buckets_ok ops s bs" and b: "b < length bs" and d: "distinct (map he_key (concat (bs[b := c])))"
    and c: "\<forall>he \<in> set c. he_hash he = key_hash ops (he_key he) \<and> BUCKET_HEAD s (he_hash he) = b"
  shows "buckets_ok ops s (bs[b := c])"
  unfolding buckets_ok_def
proof (intro conjI allI impI ballI)
  fix b' he assume "b' < length (bs[b := c])" "he \<in> set (bs[b := c] ! b')"
  then show "he_hash he = key_hash ops (he_key he)" "BUCKET_HEAD s (he_hash he) = b'"
    using buckets_okD(4,5) [OF ok] c b by (cases "b' = b"; simp)+
qed (use buckets_okD [OF ok] d in simp_all)

text \<open>The entry of a key is in its bucket.\<close>

lemma in_bucket:
  assumes ok: "buckets_ok ops s bs"
  shows "entry_map (concat bs) k = Some v \<longleftrightarrow> (\<exists>he \<in> set (bs ! BUCKET_HEAD s (key_hash ops k)). he_key he = k \<and> he_value he = v)"
proof -
  note d = buckets_okD [OF ok]
  have b: "BUCKET_HEAD s (key_hash ops k) < length bs" using bucket_less d(1,2) by simp
  show ?thesis
    unfolding entry_map_iff [OF d(3)]
  proof
    assume "\<exists>he \<in> set (concat bs). he_key he = k \<and> he_value he = v"
    then obtain c he where "c \<in> set bs" "he \<in> set c" "he_key he = k" "he_value he = v" by auto
    then obtain b' where h: "b' < length bs" "he \<in> set (bs ! b')" "he_key he = k" "he_value he = v" by (metis in_set_conv_nth)
    then have "b' = BUCKET_HEAD s (key_hash ops k)" using d(4,5) [OF h(1,2)] by simp
    then show "\<exists>he \<in> set (bs ! BUCKET_HEAD s (key_hash ops k)). he_key he = k \<and> he_value he = v" using h by blast
  qed (use b in auto)
qed

lemma in_bucket_None:
  assumes "buckets_ok ops s bs"
  shows "entry_map (concat bs) k = None \<longleftrightarrow> k \<notin> he_key ` set (bs ! BUCKET_HEAD s (key_hash ops k))"
  using in_bucket [OF assms, of k] by (cases "entry_map (concat bs) k") auto

lemma hash_okD:
  assumes "hash_ok ops ht"
  shows "buckets_ok ops (shift ht) (buckets ht)" "2 < shift ht" "shift ht \<le> 28" "nentries ht = size (entries ht)"
    "length (buckets ht) = NBUCKETS ht" "distinct (map he_key (concat (buckets ht)))"
  using assms buckets_okD(2,3) [of ops "shift ht" "buckets ht"] unfolding hash_ok_def NBUCKETS_def size_mset by blast+

lemma chain_loop_ok:
  assumes "hops_ok ops" "\<forall>he \<in> set c. he_hash he = key_hash ops (he_key he)"
  shows "case chain_loop ops (key_hash ops k) k c n of
      (p, True) \<Rightarrow> n \<le> p \<and> p - n < length c \<and> he_key (c ! (p - n)) = k
    | (p, False) \<Rightarrow> p = n + length c \<and> k \<notin> he_key ` set c"
  using assms(2)
proof (induction c arbitrary: n)
  case (Cons he c)
  have m: "keyCompare ops k (he_key he) \<longleftrightarrow> k = he_key he" using assms(1) by (simp add: hops_ok_def)
  show ?case
  proof (cases "k = he_key he")
    case True
    then show ?thesis using Cons.prems m by simp
  next
    case False
    have ih: "case chain_loop ops (key_hash ops k) k c (n + 1) of
      (p, True) \<Rightarrow> n + 1 \<le> p \<and> p - (n + 1) < length c \<and> he_key (c ! (p - (n + 1))) = k
    | (p, False) \<Rightarrow> p = n + 1 + length c \<and> k \<notin> he_key ` set c" by (rule Cons.IH) (use Cons.prems in simp)
    obtain p f where r: "chain_loop ops (key_hash ops k) k c (n + 1) = (p, f)" by fastforce
    show ?thesis
    proof (cases f)
      case True
      then have "n + 1 \<le> p" "p - (n + 1) < length c" "he_key (c ! (p - (n + 1))) = k" using ih r by simp_all
      moreover from this have "p - n = Suc (p - (n + 1))" by linarith
      ultimately show ?thesis using False m r True by simp
    next
      case nf: False
      then show ?thesis using False m r ih by simp
    qed
  qed
qed simp

lemma entry_cut: "p < length c \<Longrightarrow> mset c = add_mset (c ! p) (mset (take p c @ drop (p + 1) c))"
  using arg_cong [OF id_take_nth_drop [of p c], of mset] by simp

text \<open>What a lookup says of a table.\<close>

definition looked_up :: "('k, 'v) hops \<Rightarrow> ('k, 'v) htable \<Rightarrow> 'k \<Rightarrow> link \<Rightarrow> ('k, 'v) htable \<Rightarrow> bool" where
  "looked_up ops ht k hep ht' \<longleftrightarrow> hash_ok ops ht' \<and> hash_map ht' = hash_map ht \<and> entries ht' = entries ht \<and> nentries ht' = nentries ht \<and>
     shift ht' = shift ht \<and> freed ht' = freed ht \<and> fst hep = BUCKET_HEAD (shift ht) (key_hash ops k) \<and> fst hep < length (buckets ht') \<and>
     snd hep \<le> length (buckets ht' ! fst hep) \<and>
     (case hash_map ht k of None \<Rightarrow> at_link ht' hep = None
      | Some v \<Rightarrow> snd hep = 0 \<and> (\<exists>he. at_link ht' hep = Some he \<and> he_key he = k \<and> he_value he = v \<and> he_hash he = key_hash ops k))"

lemma looked_upD:
  assumes "looked_up ops ht k hep ht'"
  shows "hash_ok ops ht'" "hash_map ht' = hash_map ht" "entries ht' = entries ht" "freed ht' = freed ht" "shift ht' = shift ht"
    "fst hep = BUCKET_HEAD (shift ht') (key_hash ops k)" "fst hep < length (buckets ht')" "snd hep \<le> length (buckets ht' ! fst hep)"
proof -
  show s: "shift ht' = shift ht" using assms unfolding looked_up_def by blast
  show "fst hep = BUCKET_HEAD (shift ht') (key_hash ops k)" using assms unfolding looked_up_def s by blast
qed (use assms in \<open>unfold looked_up_def, blast+\<close>)

lemma RawLookup_ok:
  assumes o: "hops_ok ops" and ok: "hash_ok ops ht"
  shows "\<exists>hep ht'. JS_HashTableRawLookup ops ht (key_hash ops k) k = (hep, ht') \<and> looked_up ops ht k hep ht'"
proof -
  note d = hash_okD [OF ok] and bd = buckets_okD [OF hash_okD(1) [OF ok]]
  define b where "b = BUCKET_HEAD (shift ht) (key_hash ops k)"
  define c where "c = buckets ht ! b"
  have b: "b < length (buckets ht)" using bucket_less [OF bd(1)] bd(2) by (simp add: b_def)
  obtain p f where r: "chain_loop ops (key_hash ops k) k c 0 = (p, f)" by fastforce
  have cl: "case chain_loop ops (key_hash ops k) k c 0 of
      (p, True) \<Rightarrow> 0 \<le> p \<and> p - 0 < length c \<and> he_key (c ! (p - 0)) = k | (p, False) \<Rightarrow> p = 0 + length c \<and> k \<notin> he_key ` set c"
    by (rule chain_loop_ok [OF o]) (use bd(4) [OF b] in \<open>simp add: c_def\<close>)
  show ?thesis
  proof (cases f)
    case False
    then have f: "p = length c" "k \<notin> he_key ` set c" using cl r by simp_all
    have "hash_map ht k = None" using f(2) in_bucket_None [OF d(1), of k] by (simp add: hash_map_def b_def [symmetric] c_def)
    then have "looked_up ops ht k (b, p) ht" using f ok b by (simp add: looked_up_def at_link_def c_def b_def)
    moreover have "JS_HashTableRawLookup ops ht (key_hash ops k) k = ((b, p), ht)"
      unfolding JS_HashTableRawLookup_def Let_def b_def [symmetric] c_def [symmetric] r using False by simp
    ultimately show ?thesis by blast
  next
    case True
    then have p: "p < length c" "he_key (c ! p) = k" using cl r by simp_all
    define c' where "c' = c ! p # take p c @ drop (p + 1) c"
    define ht' where "ht' = (if p \<noteq> 0 then ht\<lparr>buckets := (buckets ht)[b := c']\<rparr> else ht)"
    have run: "JS_HashTableRawLookup ops ht (key_hash ops k) k = ((b, 0), ht')"
      unfolding JS_HashTableRawLookup_def Let_def b_def [symmetric] c_def [symmetric] r ht'_def c'_def using True by simp
    have "c' = c" if "p = 0" using that p(1) by (cases c) (simp_all add: c'_def)
    then have bs: "buckets ht' = (buckets ht)[b := c']" by (auto simp: ht'_def c_def)
    have mc: "mset c' = mset c" using entry_cut [OF p(1)] by (simp add: c'_def)
    have ms: "entries ht' = entries ht" using concat_update [OF b, of c'] mc unfolding bs by (simp add: c_def)
    have dk: "distinct (map he_key (concat (buckets ht')))" using ms bd(3) keys_mset by metis
    have "buckets_ok ops (shift ht) (buckets ht')"
      unfolding bs
    proof (rule buckets_update [OF d(1) b])
      show "\<forall>he \<in> set c'. he_hash he = key_hash ops (he_key he) \<and> BUCKET_HEAD (shift ht) (he_hash he) = b"
        using bd(4,5) [OF b] mset_eq_setD [OF mc] by (simp add: c_def)
    qed (use dk bs in simp)
    moreover have o': "shift ht' = shift ht" "nentries ht' = nentries ht" "freed ht' = freed ht" by (simp_all add: ht'_def)
    ultimately have ok': "hash_ok ops ht'" using d(2-4) ms by (simp add: hash_ok_def flip: size_mset)
    have m: "hash_map ht' = hash_map ht" unfolding hash_map_def by (rule entry_map_mset [OF ms dk])
    have at: "at_link ht' (b, 0) = Some (c ! p)" using b by (simp add: at_link_def bs c'_def)
    have cp: "c ! p \<in> set c" using p(1) by simp
    have "hash_map ht k = Some (he_value (c ! p))"
      using in_bucket [OF d(1), of k] cp p(2) unfolding hash_map_def b_def [symmetric] c_def [symmetric] by blast
    moreover have "he_hash (c ! p) = key_hash ops k" using bd(4) [OF b] cp p(2) by (simp add: c_def)
    ultimately have "looked_up ops ht k (b, 0) ht'"
      using ok' m ms o' at b p(2) by (simp add: looked_up_def b_def bs)
    then show ?thesis using run by blast
  qed
qed

section \<open>Resizing\<close>

lemma rehash_chain_ok:
  assumes "buckets_ok ops s bs" "distinct (map he_key (c @ concat bs))" "\<forall>he \<in> set c. he_hash he = key_hash ops (he_key he)"
  shows "buckets_ok ops s (rehash_chain s c bs) \<and> mset (concat (rehash_chain s c bs)) = mset c + mset (concat bs)"
  using assms
proof (induction c arbitrary: bs)
  case (Cons he c)
  note bd = buckets_okD [OF Cons.prems(1)]
  define b where "b = BUCKET_HEAD s (he_hash he)"
  have b: "b < length bs" using bucket_less [OF bd(1)] bd(2) by (simp add: b_def)
  let ?bs = "bs[b := he # bs ! b]"
  have ms: "mset (concat ?bs) = add_mset he (mset (concat bs))" using concat_update [OF b, of "he # bs ! b"] by simp
  have "mset (c @ concat ?bs) = mset ((he # c) @ concat bs)" using ms by simp
  then have dk: "distinct (map he_key (c @ concat ?bs))" using Cons.prems(2) keys_mset by blast
  have "buckets_ok ops s ?bs"
  proof (rule buckets_update [OF Cons.prems(1) b])
    show "\<forall>x \<in> set (he # bs ! b). he_hash x = key_hash ops (he_key x) \<and> BUCKET_HEAD s (he_hash x) = b"
      using Cons.prems(3) bd(4,5) [OF b] b_def [symmetric] by auto
  qed (use dk in \<open>simp only: map_append distinct_append\<close>)
  from Cons.IH [OF this dk] show ?case unfolding rehash_chain.simps(2) Let_def b_def [symmetric] using Cons.prems(3) ms by simp
qed simp

lemma rehash_buckets_ok:
  assumes "buckets_ok ops s bs" "distinct (map he_key (concat cs @ concat bs))" "\<forall>he \<in> set (concat cs). he_hash he = key_hash ops (he_key he)"
    "n = length (concat cs)"
  shows "buckets_ok ops s (rehash_buckets s n cs bs) \<and> mset (concat (rehash_buckets s n cs bs)) = mset (concat cs) + mset (concat bs)"
  using assms
proof (induction cs arbitrary: n bs)
  case (Cons c cs)
  show ?case
  proof (cases "n = 0")
    case True
    then show ?thesis using Cons.prems by simp
  next
    case False
    have dc: "distinct (map he_key (c @ concat bs))" using Cons.prems(2)
      by (simp only: concat.simps map_append distinct_append set_append) blast
    have rc: "buckets_ok ops s (rehash_chain s c bs)" "mset (concat (rehash_chain s c bs)) = mset c + mset (concat bs)"
      using rehash_chain_ok [OF Cons.prems(1) dc] Cons.prems(3) by auto
    have "mset (concat cs @ concat (rehash_chain s c bs)) = mset (concat (c # cs) @ concat bs)" using rc(2) by simp
    then have "distinct (map he_key (concat cs @ concat (rehash_chain s c bs)))" using Cons.prems(2) keys_mset by blast
    from Cons.IH [OF rc(1) this, of "n - length c"] show ?thesis
      unfolding rehash_buckets.simps(2) if_not_P [OF False] using Cons.prems(3,4) rc(2) by simp
  qed
qed simp

lemma empty_buckets: "s \<le> 32 \<Longrightarrow> buckets_ok ops s (replicate (2 ^ (32 - s)) [])"
  by (simp add: buckets_ok_def)

lemma Resize_ok:
  assumes ok: "hash_ok ops ht" and s: "newshift \<le> 28"
  shows "\<exists>r ht' os'. Resize os ht newshift = (r, ht', os') \<and> hash_ok ops ht' \<and> entries ht' = entries ht \<and> hash_map ht' = hash_map ht \<and>
    nentries ht' = nentries ht \<and> freed ht' = freed ht \<and> (r \<longrightarrow> shift ht' = newshift) \<and> (\<not> r \<longrightarrow> ht' = ht \<and> (False \<in> set os \<or> newshift \<le> 2))"
proof -
  note d = hash_okD [OF ok] and bd = buckets_okD [OF hash_okD(1) [OF ok]]
  show ?thesis
  proof (cases "(2 ^ 32 - 1) div 4 < (2 :: nat) ^ (32 - newshift)")
    case True
    have "newshift \<le> 2"
    proof (rule ccontr)
      assume "\<not> newshift \<le> 2"
      then have "(2 :: nat) ^ (32 - newshift) \<le> 2 ^ 29" by (intro power_increasing) simp_all
      then show False using True by simp
    qed
    moreover have "Resize os ht newshift = (False, ht, os)" unfolding Resize_def Let_def if_P [OF True] by (rule refl)
    ultimately show ?thesis using ok by (intro exI [of _ False] exI [of _ ht] exI [of _ os]) simp
  next
    case False
    have s2: "2 < newshift"
    proof (rule ccontr)
      assume "\<not> 2 < newshift"
      then have "(2 :: nat) ^ 30 \<le> 2 ^ (32 - newshift)" by (intro power_increasing) simp_all
      then show False using False by simp
    qed
    obtain r os1 where a: "alloc_next os = (r, os1)" by (rule prod.exhaust)
    show ?thesis
    proof (cases r)
      case nr: False
      have "Resize os ht newshift = (False, ht, os1)" unfolding Resize_def Let_def if_not_P [OF False] using a nr by simp
      moreover have "False \<in> set os" using a nr by (cases os) auto
      ultimately show ?thesis using ok by (intro exI [of _ False] exI [of _ ht] exI [of _ os1]) simp
    next
      case True
      define bs where "bs = rehash_buckets newshift (nentries ht) (buckets ht) (replicate (2 ^ (32 - newshift)) [])"
      have hs: "\<forall>he \<in> set (concat (buckets ht)). he_hash he = key_hash ops (he_key he)"
      proof
        fix he assume "he \<in> set (concat (buckets ht))"
        then obtain b where "b < length (buckets ht)" "he \<in> set (buckets ht ! b)" by (metis in_set_conv_nth set_concat UN_E)
        then show "he_hash he = key_hash ops (he_key he)" by (rule bd(4))
      qed
      have n: "nentries ht = length (concat (buckets ht))" using d(4) unfolding size_mset .
      have "buckets_ok ops newshift bs \<and> mset (concat bs) = mset (concat (buckets ht)) + mset (concat (replicate (2 ^ (32 - newshift)) ([] :: ('a, 'b) hentry list)))"
        unfolding bs_def by (rule rehash_buckets_ok [OF empty_buckets _ hs n]) (use s bd(3) in \<open>simp_all del: map_concat\<close>)
      then have bs: "buckets_ok ops newshift bs" "mset (concat bs) = entries ht" by simp_all
      define ht' where "ht' = ht\<lparr>shift := newshift, buckets := bs\<rparr>"
      have "Resize os ht newshift = (True, ht', os1)" unfolding Resize_def Let_def if_not_P [OF False] ht'_def bs_def using a True by simp
      moreover have "hash_ok ops ht'" using bs s s2 d(4) by (simp add: hash_ok_def ht'_def flip: size_mset)
      moreover have "hash_map ht' = hash_map ht" unfolding hash_map_def ht'_def using entry_map_mset [OF bs(2) buckets_okD(3) [OF bs(1)]] by simp
      ultimately show ?thesis using bs(2) by (intro exI [of _ True] exI [of _ ht'] exI [of _ os1]) (simp add: ht'_def)
    qed
  qed
qed

section \<open>Adding and removing\<close>

text \<open>A table whose entries changed in one chain.\<close>

lemma chain_changed:
  assumes ok: "hash_ok ops ht" and b: "b < length (buckets ht)" and d: "distinct (map he_key (concat ((buckets ht)[b := c])))"
    and c: "\<forall>he \<in> set c. he_hash he = key_hash ops (he_key he) \<and> BUCKET_HEAD (shift ht) (he_hash he) = b"
    and t: "buckets ht' = (buckets ht)[b := c]" "shift ht' = shift ht" "nentries ht' = size (entries ht')"
  shows "hash_ok ops ht'"
  using buckets_update [OF hash_okD(1) [OF ok] b d c] hash_okD(2,3) [OF ok] t(3) by (simp add: hash_ok_def t(1,2) flip: size_mset)

lemma insert_ok:
  assumes ok: "hash_ok ops ht" and k: "hash_map ht (he_key he) = None" and h: "he_hash he = key_hash ops (he_key he)"
    and hep: "fst hep = BUCKET_HEAD (shift ht) (he_hash he)" "fst hep < length (buckets ht)"
    and t: "buckets ht' = (buckets ht)[fst hep := take (snd hep) (buckets ht ! fst hep) @ he # drop (snd hep) (buckets ht ! fst hep)]"
      "shift ht' = shift ht" "nentries ht' = nentries ht + 1"
  shows "hash_ok ops ht' \<and> entries ht' = add_mset he (entries ht) \<and> hash_map ht' = (hash_map ht)(he_key he \<mapsto> he_value he)"
proof -
  note d = hash_okD [OF ok] and bd = buckets_okD [OF hash_okD(1) [OF ok]]
  let ?c = "buckets ht ! fst hep"
  define c where "c = take (snd hep) ?c @ he # drop (snd hep) ?c"
  have mc: "mset c = add_mset he (mset ?c)" unfolding c_def by (metis append_take_drop_id mset_append mset.simps(2) union_mset_add_mset_right)
  have bs: "buckets ht' = (buckets ht)[fst hep := c]" using t(1) by (simp add: c_def)
  have ms: "entries ht' = add_mset he (entries ht)" unfolding bs using concat_update [OF hep(2), of c] mc by simp
  have "mset (concat (buckets ht')) = mset (he # concat (buckets ht))" using ms by simp
  moreover have "distinct (map he_key (he # concat (buckets ht)))" using bd(3) k by (simp add: hash_map_def entry_map_None del: map_concat set_concat)
  ultimately have dk: "distinct (map he_key (concat (buckets ht')))" using keys_mset by blast
  have m: "hash_map ht' = (hash_map ht)(he_key he \<mapsto> he_value he)" unfolding hash_map_def by (rule entry_map_add(1) [OF ms dk])
  have "set c = insert he (set ?c)" using mset_eq_setD [of c "he # ?c"] mc by simp
  then have c: "\<forall>x \<in> set c. he_hash x = key_hash ops (he_key x) \<and> BUCKET_HEAD (shift ht) (he_hash x) = fst hep"
    using h hep(1) bd(4,5) [OF hep(2)] by (metis insertE)
  have n: "nentries ht' = size (entries ht')" unfolding ms t(3) d(4) by simp
  have "hash_ok ops ht'" by (rule chain_changed [OF ok hep(2) dk [unfolded bs] c bs t(2) n])
  then show ?thesis using ms m by blast
qed

lemma RawAdd_ok:
  assumes o: "hops_ok ops" and ok: "hash_ok ops ht" and k: "hash_map ht k = None"
    and hep: "fst hep = BUCKET_HEAD (shift ht) (key_hash ops k)" "fst hep < length (buckets ht)" "snd hep \<le> length (buckets ht ! fst hep)"
  shows "\<exists>r ht' os'. JS_HashTableRawAdd os ops ht hep (key_hash ops k) k v = (r, ht', os') \<and> hash_ok ops ht' \<and> freed ht' = freed ht \<and>
    (case r of None \<Rightarrow> entries ht' = entries ht \<and> hash_map ht' = hash_map ht \<and> (False \<in> set os \<or> shift ht \<le> 3)
     | Some l \<Rightarrow> (\<exists>he. at_link ht' l = Some he \<and> he_key he = k \<and> he_value he = v \<and> entries ht' = add_mset he (entries ht)) \<and>
         hash_map ht' = (hash_map ht)(k \<mapsto> v))"
proof -
  define he where "he = \<lparr>he_hash = key_hash ops k, he_key = k, he_value = v\<rparr>"
  define put where "put = (\<lambda>(hep :: link) (ht :: ('a, 'b) htable). ht\<lparr>buckets := (buckets ht)[fst hep := take (snd hep) (buckets ht ! fst hep) @ he # drop (snd hep) (buckets ht ! fst hep)], nentries := nentries ht + 1\<rparr>)"
  define grow where "grow = (if OVERLOADED (NBUCKETS ht) \<le> nentries ht
        then case Resize os ht (shift ht - 1) of (ok, ht, os) \<Rightarrow>
          if \<not> ok then (False, hep, ht, os)
          else let (hep, ht) = JS_HashTableRawLookup ops ht (key_hash ops k) k in (True, hep, ht, os)
        else (True, hep, ht, os))"
  have "\<exists>g hep1 u os1. grow = (g, hep1, u, os1) \<and> hash_ok ops u \<and> freed u = freed ht \<and> entries u = entries ht \<and> hash_map u = hash_map ht \<and>
    (\<not> g \<longrightarrow> False \<in> set os \<or> shift ht \<le> 3) \<and> (False \<in> set os1 \<longrightarrow> False \<in> set os) \<and>
    (g \<longrightarrow> fst hep1 = BUCKET_HEAD (shift u) (key_hash ops k) \<and> fst hep1 < length (buckets u) \<and> snd hep1 \<le> length (buckets u ! fst hep1))"
  proof (cases "OVERLOADED (NBUCKETS ht) \<le> nentries ht")
    case False
    then have "grow = (True, hep, ht, os)" by (simp add: grow_def)
    then show ?thesis using ok hep by (intro exI [of _ True] exI [of _ hep] exI [of _ ht] exI [of _ os]) simp
  next
    case True
    have s: "shift ht - 1 \<le> 28" using hash_okD(3) [OF ok] by simp
    obtain r u os1 where r: "Resize os ht (shift ht - 1) = (r, u, os1)" "hash_ok ops u" "entries u = entries ht" "hash_map u = hash_map ht"
      "freed u = freed ht" "\<not> r \<longrightarrow> False \<in> set os \<or> shift ht - 1 \<le> 2"
      using Resize_ok [OF ok s, of os] by blast
    have os1: "False \<in> set os1 \<longrightarrow> False \<in> set os" using r(1) by (cases os) (auto simp: Resize_def Let_def split: if_splits)
    show ?thesis
    proof (cases r)
      case False
      then have "grow = (False, hep, u, os1)" using True r(1) by (simp add: grow_def)
      moreover have "False \<in> set os \<or> shift ht \<le> 3" using r(6) False by (cases "False \<in> set os") simp_all
      ultimately show ?thesis using r(2-5) os1 by (intro exI [of _ False] exI [of _ hep] exI [of _ u] exI [of _ os1]) simp
    next
      case rt: True
      obtain hep1 u1 where l: "JS_HashTableRawLookup ops u (key_hash ops k) k = (hep1, u1)" "looked_up ops u k hep1 u1" using RawLookup_ok [OF o r(2)] by blast
      have "grow = (True, hep1, u1, os1)" using True r(1) rt l(1) by (simp add: grow_def)
      moreover have "hash_ok ops u1" "freed u1 = freed ht" "entries u1 = entries ht" "hash_map u1 = hash_map ht" "fst hep1 = BUCKET_HEAD (shift u1) (key_hash ops k)"
          "fst hep1 < length (buckets u1)" "snd hep1 \<le> length (buckets u1 ! fst hep1)"
        using looked_upD [OF l(2)] r(3-5) by metis+
      ultimately show ?thesis using os1 by (intro exI [of _ True] exI [of _ hep1] exI [of _ u1] exI [of _ os1]) simp
    qed
  qed
  then obtain g hep1 u os1 where g: "grow = (g, hep1, u, os1)" "hash_ok ops u" "freed u = freed ht" "entries u = entries ht" "hash_map u = hash_map ht"
    "\<not> g \<longrightarrow> False \<in> set os \<or> shift ht \<le> 3" "False \<in> set os1 \<longrightarrow> False \<in> set os"
    "g \<longrightarrow> fst hep1 = BUCKET_HEAD (shift u) (key_hash ops k) \<and> fst hep1 < length (buckets u) \<and> snd hep1 \<le> length (buckets u ! fst hep1)" by blast
  obtain a os2 where a: "alloc_next os1 = (a, os2)" by (rule prod.exhaust)
  have run: "JS_HashTableRawAdd os ops ht hep (key_hash ops k) k v =
    (if \<not> g then (None, u, os1) else if \<not> a then (None, u, os2) else (Some hep1, put hep1 u, os2))"
    unfolding JS_HashTableRawAdd_def grow_def [symmetric] g(1) by (simp add: Let_def a put_def he_def)
  show ?thesis
  proof (cases "g \<and> a")
    case False
    have "\<not> a \<longrightarrow> False \<in> set os1" using a by (cases os1) auto
    then show ?thesis unfolding run using False g by auto
  next
    case True
    have "hash_ok ops (put hep1 u) \<and> entries (put hep1 u) = add_mset he (entries u) \<and> hash_map (put hep1 u) = (hash_map u)(he_key he \<mapsto> he_value he)"
      by (rule insert_ok [OF g(2), where hep = hep1]) (use g(5,8) k True in \<open>simp_all add: he_def put_def\<close>)
    moreover have q: "fst hep1 < length (buckets u)" "snd hep1 \<le> length (buckets u ! fst hep1)" using g(8) True by blast+
    moreover have "at_link (put hep1 u) hep1 = Some he" using q by (simp add: at_link_def put_def nth_append min_absorb2)
    ultimately show ?thesis unfolding run using True g(3,4,5) by (simp add: put_def he_def)
  qed
qed


lemma RawRemove_entry:
  assumes ok: "hash_ok ops ht" and hep: "fst hep < length (buckets ht)" and he: "at_link ht hep = Some he"
  shows "\<exists>ht' os'. JS_HashTableRawRemove os ht hep he = (ht', os') \<and> hash_ok ops ht' \<and> entries ht = add_mset he (entries ht') \<and>
    hash_map ht' = (hash_map ht)(he_key he := None) \<and> freed ht' = freed ht @ [HT_FREE_ENTRY he]"
proof -
  note d = hash_okD [OF ok] and bd = buckets_okD [OF hash_okD(1) [OF ok]]
  define c where "c = buckets ht ! fst hep"
  define c' where "c' = take (snd hep) c @ drop (snd hep + 1) c"
  define u where "u = ht\<lparr>buckets := (buckets ht)[fst hep := c'], freed := freed ht @ [HT_FREE_ENTRY he], nentries := nentries ht - 1\<rparr>"
  have p: "snd hep < length c" "c ! snd hep = he" using he by (simp_all add: at_link_def c_def split: if_splits)
  have mc: "mset c = add_mset he (mset c')" using entry_cut [OF p(1)] p(2) by (simp add: c'_def)
  have ub: "buckets u = (buckets ht)[fst hep := c']" by (simp add: u_def)
  have "entries u + mset c = entries ht + mset c'" using concat_update [OF hep, of c'] by (simp add: ub c_def)
  then have ms: "entries ht = add_mset he (entries u)" unfolding mc by simp
  note ea = entry_map_add [OF ms bd(3)]
  have m: "hash_map u = (hash_map ht)(he_key he := None)"
    using ea(1) entry_map_None [of "concat (buckets u)" "he_key he"] ea(2) unfolding hash_map_def by (simp add: fun_upd_idem)
  have "set c' \<subseteq> set c" using mset_eq_setD [of c "he # c'"] mc by auto
  then have ca: "\<forall>x \<in> set c'. he_hash x = key_hash ops (he_key x) \<and> BUCKET_HEAD (shift ht) (he_hash x) = fst hep"
    using bd(4,5) [OF hep] unfolding c_def by blast
  have nu: "nentries u = size (entries u)" using d(4) unfolding ms by (simp add: u_def)
  have oku: "hash_ok ops u" by (rule chain_changed [OF ok hep ea(3) [unfolded ub] ca ub _ nu]) (simp add: u_def)
  have fu: "freed u = freed ht @ [HT_FREE_ENTRY he]" by (simp add: u_def)
  have run: "JS_HashTableRawRemove os ht hep he = (if nentries u < UNDERLOADED (NBUCKETS ht) then snd (Resize os u (shift u + 1)) else (u, os))"
    by (simp add: JS_HashTableRawRemove_def Let_def u_def c'_def c_def NBUCKETS_def)
  show ?thesis
  proof (cases "nentries u < UNDERLOADED (NBUCKETS ht)")
    case False
    then show ?thesis unfolding run using oku ms m fu by simp
  next
    case True
    then have "MINBUCKETS < NBUCKETS ht" by (simp add: UNDERLOADED_def split: if_splits)
    then have "(2 :: nat) ^ 4 < 2 ^ (32 - shift ht)" by (simp only: NBUCKETS_def MINBUCKETS_def MINBUCKETSLOG2_def)
    then have "4 < 32 - shift ht" by (rule power_less_imp_less_exp [rotated]) simp
    then have "shift u + 1 \<le> 28" by (simp add: u_def)
    from Resize_ok [OF oku this, of os]
    obtain r ht' os' where "Resize os u (shift u + 1) = (r, ht', os')" "hash_ok ops ht'" "entries ht' = entries u" "hash_map ht' = hash_map u" "freed ht' = freed u" by blast
    then show ?thesis unfolding run using True ms m fu by simp
  qed
qed

lemma at_link_bounds: "at_link ht hep = Some he \<longleftrightarrow> snd hep < length (buckets ht ! fst hep) \<and> buckets ht ! fst hep ! snd hep = he"
  by (auto simp: at_link_def)

lemma set_value_ok:
  assumes ok: "hash_ok ops ht" and hep: "fst hep < length (buckets ht)" and he: "at_link ht hep = Some he"
    and t: "buckets ht' = (buckets ht)[fst hep := (buckets ht ! fst hep)[snd hep := he\<lparr>he_value := v\<rparr>]]" "shift ht' = shift ht" "nentries ht' = nentries ht"
  shows "hash_ok ops ht'" "entries ht' = add_mset (he\<lparr>he_value := v\<rparr>) (entries ht - {#he#})" "hash_map ht' = (hash_map ht)(he_key he \<mapsto> v)"
    "at_link ht' hep = Some (he\<lparr>he_value := v\<rparr>)" "he \<in># entries ht"
proof -
  note d = hash_okD [OF ok] and bd = buckets_okD [OF hash_okD(1) [OF ok]]
  let ?y = "he\<lparr>he_value := v\<rparr>"
  define c where "c = buckets ht ! fst hep"
  define c' where "c' = c[snd hep := ?y]"
  have p: "snd hep < length c" "c ! snd hep = he" using he by (simp_all add: at_link_bounds c_def)
  have mc: "mset c' = add_mset ?y (mset c - {#he#})" using mset_update [OF p(1), of ?y] p(2) by (simp add: c'_def)
  have hc: "he \<in># mset c" using p by auto
  then have "mset c' + {#he#} = mset c + {#?y#}" unfolding mc by simp
  moreover have e: "entries ht' + mset c = entries ht + mset c'" using concat_update [OF hep, of c'] t(1) by (simp add: c'_def c_def)
  ultimately have "entries ht' + {#he#} + mset c = entries ht + {#?y#} + mset c" by (simp add: ac_simps)
  then have e2: "entries ht' + {#he#} = entries ht + {#?y#}" by simp
  show hin: "he \<in># entries ht" using hep hc unfolding c_def by auto
  obtain r where r: "entries ht = add_mset he (mset r)" using hin by (metis ex_mset multi_member_split)
  show ms: "entries ht' = add_mset ?y (entries ht - {#he#})" using e2 unfolding r by simp
  note ea = entry_map_add [OF r bd(3)]
  have ms': "entries ht' = mset (?y # r)" unfolding ms r by simp
  have dk: "distinct (map he_key (?y # r))" using ea(2,3) by simp
  then have dk': "distinct (map he_key (concat (buckets ht')))" using keys_mset [OF ms'] by blast
  have mr: "entries ht' = add_mset ?y (mset r)" using ms' by simp
  show "hash_map ht' = (hash_map ht)(he_key he \<mapsto> v)"
    using entry_map_add(1) [OF mr dk'] ea(1) by (simp add: hash_map_def)
  have bs: "buckets ht' = (buckets ht)[fst hep := c']" using t(1) by (simp add: c_def c'_def)
  have cy: "he_hash ?y = key_hash ops (he_key ?y) \<and> BUCKET_HEAD (shift ht) (he_hash ?y) = fst hep"
    using bd(4,5) [OF hep, of he] hc by (simp add: c_def)
  have ca: "\<forall>x \<in> set c'. he_hash x = key_hash ops (he_key x) \<and> BUCKET_HEAD (shift ht) (he_hash x) = fst hep"
  proof
    fix x assume "x \<in> set c'"
    then have "x = ?y \<or> x \<in> set c" unfolding c'_def using set_update_subset_insert [of c "snd hep" ?y] by blast
    then show "he_hash x = key_hash ops (he_key x) \<and> BUCKET_HEAD (shift ht) (he_hash x) = fst hep"
      using cy bd(4,5) [OF hep, of x] by (auto simp: c_def)
  qed
  have n: "nentries ht' = size (entries ht')" using t(3) d(4) mr r by simp
  show "hash_ok ops ht'" by (rule chain_changed [OF ok hep dk' [unfolded bs] ca bs t(2) n])
  show "at_link ht' hep = Some ?y" using p(1) hep by (simp add: at_link_bounds bs c'_def)
qed

section \<open>The table as a map\<close>

lemma Lookup_ok:
  assumes "hops_ok ops" "hash_ok ops ht"
  shows "\<exists>ht'. JS_HashTableLookup ops ht k = (case hash_map ht k of None \<Rightarrow> None | Some v \<Rightarrow> v, ht') \<and>
    hash_ok ops ht' \<and> hash_map ht' = hash_map ht \<and> entries ht' = entries ht \<and> freed ht' = freed ht"
proof -
  obtain hep ht' where l: "JS_HashTableRawLookup ops ht (key_hash ops k) k = (hep, ht')" "looked_up ops ht k hep ht'"
    using RawLookup_ok [OF assms] by blast
  then show ?thesis by (auto simp: JS_HashTableLookup_def looked_up_def split: option.splits)
qed

text \<open>
  Looking a key up returns its value, null if the table does not have it, and keeps the table
  well-formed with the same entries, whatever it moves to the front.
\<close>

theorem HashTableLookup_correct:
  assumes "hops_ok ops" "hash_ok ops ht"
  shows "\<exists>ht'. JS_HashTableLookup ops ht k = (case hash_map ht k of None \<Rightarrow> None | Some v \<Rightarrow> v, ht') \<and>
    hash_ok ops ht' \<and> hash_map ht' = hash_map ht \<and> entries ht' = entries ht \<and> freed ht' = freed ht"
  by (rule Lookup_ok [OF assms])

lemma Add_ok:
  assumes "hops_ok ops" "hash_ok ops ht"
  shows "\<exists>r ht' os'. JS_HashTableAdd os ops ht k v = (r, ht', os') \<and> hash_ok ops ht' \<and>
    (case r of None \<Rightarrow> hash_map ht k = None \<and> hash_map ht' = hash_map ht \<and> entries ht' = entries ht \<and> freed ht' = freed ht \<and> (False \<in> set os \<or> shift ht \<le> 3)
     | Some l \<Rightarrow> (\<exists>he. at_link ht' l = Some he \<and> he_key he = k \<and> he_value he = v) \<and> hash_map ht' = (hash_map ht)(k \<mapsto> v) \<and>
         (case hash_map ht k of
            Some (Some w) \<Rightarrow> (if valueCompare ops (Some w) v then freed ht' = freed ht
              else \<exists>he. he \<in># entries ht \<and> he_key he = k \<and> he_value he = Some w \<and> freed ht' = freed ht @ [HT_FREE_VALUE he])
          | _ \<Rightarrow> freed ht' = freed ht))"
proof -
  obtain hep u where l: "JS_HashTableRawLookup ops ht (key_hash ops k) k = (hep, u)" "looked_up ops ht k hep u" using RawLookup_ok [OF assms] by blast
  have u: "hash_ok ops u" "hash_map u = hash_map ht" "entries u = entries ht" "freed u = freed ht" "shift u = shift ht"
    "fst hep = BUCKET_HEAD (shift u) (key_hash ops k)" "fst hep < length (buckets u)" "snd hep \<le> length (buckets u ! fst hep)"
    using looked_upD [OF l(2)] by blast+
  show ?thesis
  proof (cases "hash_map ht k")
    case None
    then have "at_link u hep = None" using l(2) by (simp add: looked_up_def)
    then have run: "JS_HashTableAdd os ops ht k v = JS_HashTableRawAdd os ops u hep (key_hash ops k) k v"
      using l(1) by (simp add: JS_HashTableAdd_def Let_def)
    have "hash_map u k = None" using None u(2) by simp
    from RawAdd_ok [OF assms(1) u(1) this u(6-8), of os v]
    obtain r ht' os' where r: "JS_HashTableRawAdd os ops u hep (key_hash ops k) k v = (r, ht', os')" "hash_ok ops ht'" "freed ht' = freed u"
      "case r of None \<Rightarrow> entries ht' = entries u \<and> hash_map ht' = hash_map u \<and> (False \<in> set os \<or> shift u \<le> 3)
       | Some l \<Rightarrow> (\<exists>he. at_link ht' l = Some he \<and> he_key he = k \<and> he_value he = v \<and> entries ht' = add_mset he (entries u)) \<and> hash_map ht' = (hash_map u)(k \<mapsto> v)"
      by blast
    show ?thesis unfolding run r(1) using r(2-4) None u(2-5) by (cases r) auto
  next
    case (Some w)
    then obtain he where he: "at_link u hep = Some he" "he_key he = k" "he_value he = w" using l(2) by (auto simp: looked_up_def)
    show ?thesis
    proof (cases "valueCompare ops w v")
      case True
      then have "w = v" using assms(1) by (simp add: hops_ok_def)
      moreover have "JS_HashTableAdd os ops ht k v = (Some hep, u, os)" using l(1) he True by (simp add: JS_HashTableAdd_def Let_def)
      ultimately show ?thesis using u he Some True by (auto split: option.splits)
    next
      case False
      define f where "f = (if w \<noteq> None then u\<lparr>freed := freed u @ [HT_FREE_VALUE he]\<rparr> else u)"
      define ht' where "ht' = f\<lparr>buckets := (buckets f)[fst hep := (buckets f ! fst hep)[snd hep := he\<lparr>he_value := v\<rparr>]]\<rparr>"
      have run: "JS_HashTableAdd os ops ht k v = (Some hep, ht', os)" using l(1) he False by (simp add: JS_HashTableAdd_def Let_def ht'_def f_def)
      have f: "buckets f = buckets u" "shift f = shift u" "nentries f = nentries u" by (simp_all add: f_def)
      have "buckets ht' = (buckets u)[fst hep := (buckets u ! fst hep)[snd hep := he\<lparr>he_value := v\<rparr>]]" "shift ht' = shift u" "nentries ht' = nentries u"
        by (simp_all add: ht'_def f)
      note sv = set_value_ok [OF u(1,7) he(1) this]
      have fr: "freed ht' = (if w \<noteq> None then freed ht @ [HT_FREE_VALUE he] else freed ht)" using u(4) by (simp add: ht'_def f_def)
      show ?thesis unfolding run using sv u he Some False fr by (auto split: option.splits)
    qed
  qed
qed

text \<open>
  C29: Adding a key and a value maps the key to the value, in the entry returned, and leaves the
  other keys alone; a value that differs from the one the key had is freed before it is replaced.
  If no entry is returned, memory ran out or the table has 2^29 buckets, and nothing has changed.
\<close>

theorem HashTableAdd_correct:
  assumes "hops_ok ops" "hash_ok ops ht"
  shows "\<exists>r ht' os'. JS_HashTableAdd os ops ht k v = (r, ht', os') \<and> hash_ok ops ht' \<and>
    (case r of None \<Rightarrow> hash_map ht k = None \<and> hash_map ht' = hash_map ht \<and> entries ht' = entries ht \<and> freed ht' = freed ht \<and> (False \<in> set os \<or> shift ht \<le> 3)
     | Some l \<Rightarrow> (\<exists>he. at_link ht' l = Some he \<and> he_key he = k \<and> he_value he = v) \<and> hash_map ht' = (hash_map ht)(k \<mapsto> v) \<and>
         (case hash_map ht k of
            Some (Some w) \<Rightarrow> (if valueCompare ops (Some w) v then freed ht' = freed ht
              else \<exists>he. he \<in># entries ht \<and> he_key he = k \<and> he_value he = Some w \<and> freed ht' = freed ht @ [HT_FREE_VALUE he])
          | _ \<Rightarrow> freed ht' = freed ht))"
  by (rule Add_ok [OF assms])

lemma Remove_ok:
  assumes "hops_ok ops" "hash_ok ops ht"
  shows "\<exists>ht' os'. JS_HashTableRemove os ops ht k = (hash_map ht k \<noteq> None, ht', os') \<and> hash_ok ops ht' \<and> hash_map ht' = (hash_map ht)(k := None) \<and>
    (if hash_map ht k = None then entries ht' = entries ht \<and> freed ht' = freed ht
     else \<exists>he. he_key he = k \<and> entries ht = add_mset he (entries ht') \<and> freed ht' = freed ht @ [HT_FREE_ENTRY he])"
proof -
  obtain hep u where l: "JS_HashTableRawLookup ops ht (key_hash ops k) k = (hep, u)" "looked_up ops ht k hep u" using RawLookup_ok [OF assms] by blast
  have u: "hash_ok ops u" "hash_map u = hash_map ht" "entries u = entries ht" "freed u = freed ht" "fst hep < length (buckets u)"
    using looked_upD [OF l(2)] by blast+
  show ?thesis
  proof (cases "hash_map ht k")
    case None
    then have "at_link u hep = None" using l(2) by (simp add: looked_up_def)
    then have "JS_HashTableRemove os ops ht k = (False, u, os)" using l(1) by (simp add: JS_HashTableRemove_def)
    then show ?thesis using None u by (simp add: fun_upd_idem)
  next
    case (Some v)
    then obtain he where he: "at_link u hep = Some he" "he_key he = k" using l(2) by (auto simp: looked_up_def)
    obtain ht' os' where r: "JS_HashTableRawRemove os u hep he = (ht', os')" "hash_ok ops ht'" "entries u = add_mset he (entries ht')"
      "hash_map ht' = (hash_map u)(he_key he := None)" "freed ht' = freed u @ [HT_FREE_ENTRY he]" using RawRemove_entry [OF u(1,5) he(1), of os] by blast
    have "JS_HashTableRemove os ops ht k = (True, ht', os')" using l(1) he r(1) by (simp add: JS_HashTableRemove_def)
    then show ?thesis using Some r u he(2) by auto
  qed
qed

text \<open>
  Removing a key says whether the table had it, takes it out and frees its entry, and no other;
  it does so also where the table shrinks, or memory runs out shrinking it.
\<close>

theorem HashTableRemove_correct:
  assumes "hops_ok ops" "hash_ok ops ht"
  shows "\<exists>ht' os'. JS_HashTableRemove os ops ht k = (hash_map ht k \<noteq> None, ht', os') \<and> hash_ok ops ht' \<and> hash_map ht' = (hash_map ht)(k := None) \<and>
    (if hash_map ht k = None then entries ht' = entries ht \<and> freed ht' = freed ht
     else \<exists>he. he_key he = k \<and> entries ht = add_mset he (entries ht') \<and> freed ht' = freed ht @ [HT_FREE_ENTRY he])"
  by (rule Remove_ok [OF assms])


section \<open>New tables and enumeration\<close>

text \<open>
  A new table is well-formed and empty; it has at least as many buckets as entries are asked
  for, and at least 16.
\<close>

theorem NewHashTable_empty:
  assumes "JS_NewHashTable os n = (Some ht, os')" "n \<le> 2 ^ 29"
  shows "hash_ok ops ht \<and> hash_map ht = Map.empty \<and> n \<le> NBUCKETS ht \<and> MINBUCKETS \<le> NBUCKETS ht \<and> freed ht = []"
proof -
  define l where "l = (if n \<le> MINBUCKETS then MINBUCKETSLOG2 else JS_CEILING_LOG2 n)"
  have n32: "n < 2 ^ 32" using assms(2) by (rule le_less_trans) simp
  have ht: "ht = \<lparr>buckets = replicate (2 ^ l) [], nentries = 0, shift = 32 - l, freed = []\<rparr>"
    using assms(1) unfolding JS_NewHashTable_def l_def [symmetric] by (auto simp: Let_def split: prod.splits if_splits)
  have mb: "MINBUCKETS = 16" by (simp add: MINBUCKETS_def MINBUCKETSLOG2_def)
  have l: "n \<le> 2 ^ l" "4 \<le> l" "l \<le> 29"
  proof -
    show nl: "n \<le> 2 ^ l" using CEILING_LOG2(1) [OF n32] by (simp add: l_def MINBUCKETS_def)
    show "4 \<le> l"
    proof (cases "n \<le> MINBUCKETS")
      case False
      then have "(2 :: nat) ^ 4 < 2 ^ l" using nl mb by simp
      then have "4 < l" by (rule power_less_imp_less_exp [rotated]) simp
      then show ?thesis by simp
    qed (simp add: l_def MINBUCKETSLOG2_def)
    show "l \<le> 29"
    proof (cases "n \<le> MINBUCKETS")
      case False
      then have "(2 :: nat) ^ (l - 1) < n" using CEILING_LOG2(2) [OF n32] mb by (simp add: l_def)
      then have "(2 :: nat) ^ (l - 1) < 2 ^ 29" using assms(2) by (rule less_le_trans)
      then have "l - 1 < 29" by (rule power_less_imp_less_exp [rotated]) simp
      then show ?thesis by simp
    qed (simp add: l_def MINBUCKETSLOG2_def)
  qed
  have e: "32 - (32 - l) = l" using l(3) by simp
  have "buckets_ok ops (32 - l) (replicate (2 ^ l) [])" using empty_buckets [of "32 - l" ops] e by simp
  moreover have "2 < 32 - l" "32 - l \<le> 28" using l(2,3) by arith+
  moreover have "(2 :: nat) ^ 4 \<le> 2 ^ l" using l(2) by (intro power_increasing) simp_all
  ultimately show ?thesis using l(1) by (simp add: ht hash_ok_def hash_map_def entry_map_def NBUCKETS_def e mb)
qed

text \<open>An enumerator that looks at the entry alone and does not stop.\<close>

abbreviation rm_if :: "(('k, 'v) hentry \<Rightarrow> bool) \<Rightarrow> ('k, 'v) hentry \<Rightarrow> nat \<Rightarrow> 'a \<Rightarrow> bool \<times> bool \<times> 'a" where
  "rm_if P \<equiv> \<lambda>he n a. (P he, False, a)"

lemma enum_chain_ok: "enum_chain (rm_if P) c n a = (filter (\<lambda>x. \<not> P x) c, filter P c, n + length c, False, a)"
  by (induction c arbitrary: n) simp_all

lemma enum_buckets_ok:
  assumes "nlimit = n + length (concat cs)"
  shows "enum_buckets (rm_if P) nlimit cs n a = (map (filter (\<lambda>x. \<not> P x)) cs, filter P (concat cs), nlimit, a)"
  using assms
proof (induction cs arbitrary: n)
  case (Cons c cs)
  show ?case
  proof (cases "n = nlimit")
    case True
    then have "concat (c # cs) = []" using Cons.prems by simp
    then have e: "\<forall>x \<in> set (c # cs). x = []" by (simp only: concat_eq_Nil_conv)
    have "map (filter (\<lambda>x. \<not> P x)) (c # cs) = c # cs" by (rule map_idI) (use e in auto)
    moreover have "filter P (concat (c # cs)) = []" using \<open>concat (c # cs) = []\<close> by (simp only: filter.simps)
    ultimately show ?thesis using True by simp
  next
    case False
    have "enum_buckets (rm_if P) nlimit cs (n + length c) a = (map (filter (\<lambda>x. \<not> P x)) cs, filter P (concat cs), nlimit, a)"
      by (rule Cons.IH) (use Cons.prems in simp)
    then show ?thesis using False by (simp add: enum_chain_ok)
  qed
qed simp

lemma filter_concat_chains: "filter P (concat cs) = concat (map (filter P) cs)"
  by (induction cs) simp_all

text \<open>
  Enumerating with an enumerator that removes the entries with a property and does not stop
  counts every entry, removes and frees exactly those, and leaves a well-formed table with the map
  of the others. If the table shrinks then it really gets smaller, as the code asserts.
\<close>

theorem HashTableEnumerate_filters:
  assumes ok: "hash_ok ops ht"
  shows "\<exists>ht' os'. JS_HashTableEnumerateEntries os ht (rm_if P) a = (nentries ht, ht', a, os') \<and> hash_ok ops ht' \<and>
    (\<forall>k v. hash_map ht' k = Some v \<longleftrightarrow> (\<exists>he \<in># entries ht. he_key he = k \<and> he_value he = v \<and> \<not> P he)) \<and>
    freed ht' = freed ht @ map HT_FREE_ENTRY (filter P (concat (buckets ht))) \<and> NBUCKETS ht' \<le> NBUCKETS ht"
proof -
  note d = hash_okD [OF ok] and bd = buckets_okD [OF hash_okD(1) [OF ok]]
  define bs where "bs = map (filter (\<lambda>x. \<not> P x)) (buckets ht)"
  define gone where "gone = filter P (concat (buckets ht))"
  have n: "nentries ht = 0 + length (concat (buckets ht))" using d(4) by (simp flip: size_mset)
  note en = enum_buckets_ok [OF n, of P a, folded bs_def gone_def]
  define u where "u = ht\<lparr>buckets := bs, nentries := nentries ht - length gone, freed := freed ht @ map HT_FREE_ENTRY gone\<rparr>"
  have cb: "concat bs = filter (\<lambda>x. \<not> P x) (concat (buckets ht))" unfolding bs_def filter_concat_chains [symmetric] by (rule refl)
  have dk: "distinct (map he_key (concat bs))" unfolding cb by (rule distinct_map_filter) (rule bd(3))
  have "buckets_ok ops (shift ht) bs"
    unfolding buckets_ok_def
  proof (intro conjI allI impI ballI)
    fix b he assume "b < length bs" "he \<in> set (bs ! b)"
    then have "b < length (buckets ht)" "he \<in> set (buckets ht ! b)" by (simp_all add: bs_def)
    then show "he_hash he = key_hash ops (he_key he)" "BUCKET_HEAD (shift ht) (he_hash he) = b" using bd(4,5) by blast+
  qed (use bd(1,2) dk in \<open>simp_all add: bs_def\<close>)
  moreover have "nentries u = length (concat bs)"
    using n sum_length_filter_compl [of P "concat (buckets ht)"] unfolding cb by (simp add: u_def gone_def)
  ultimately have oku: "hash_ok ops u" using d(2,3) by (simp add: hash_ok_def u_def)
  have mu: "hash_map u k = Some v \<longleftrightarrow> (\<exists>he \<in># entries ht. he_key he = k \<and> he_value he = v \<and> \<not> P he)" for k v
  proof -
    have "hash_map u k = Some v \<longleftrightarrow> (\<exists>he \<in> set (concat bs). he_key he = k \<and> he_value he = v)"
      unfolding hash_map_def u_def using entry_map_iff [OF dk] by simp
    also have "set (concat bs) = {he. he \<in># entries ht \<and> \<not> P he}" unfolding cb by auto
    finally show ?thesis by blast
  qed
  define newlog2 where "newlog2 = (let l = JS_CEILING_LOG2 (nentries u) in if l < MINBUCKETSLOG2 then MINBUCKETSLOG2 else l)"
  have run: "JS_HashTableEnumerateEntries os ht (rm_if P) a =
    (if nentries u \<noteq> nentries ht \<and> MINBUCKETS < NBUCKETS u \<and> nentries u < UNDERLOADED (NBUCKETS u)
     then let (_, ht', os) = Resize os u (32 - newlog2) in (nentries ht, ht', a, os) else (nentries ht, u, a, os))"
    unfolding JS_HashTableEnumerateEntries_def en Let_def newlog2_def prod.case u_def [symmetric] by (rule refl)
  have nb: "NBUCKETS u = NBUCKETS ht" by (simp add: NBUCKETS_def u_def)
  show ?thesis
  proof (cases "nentries u \<noteq> nentries ht \<and> MINBUCKETS < NBUCKETS u \<and> nentries u < UNDERLOADED (NBUCKETS u)")
    case False
    then show ?thesis unfolding run if_not_P [OF False] using oku mu nb by (simp add: u_def gone_def)
  next
    case True
    have l4: "4 \<le> newlog2" by (auto simp: newlog2_def Let_def MINBUCKETSLOG2_def)
    have "newlog2 < 32 - shift u"
    proof (cases "JS_CEILING_LOG2 (nentries u) < MINBUCKETSLOG2")
      case c: True
      have "(2 :: nat) ^ 4 < 2 ^ (32 - shift u)" using True by (simp only: NBUCKETS_def MINBUCKETS_def MINBUCKETSLOG2_def)
      then have "4 < 32 - shift u" by (rule power_less_imp_less_exp [rotated]) simp
      then show ?thesis using c by (simp add: newlog2_def MINBUCKETSLOG2_def)
    next
      case False
      have "UNDERLOADED (NBUCKETS u) \<le> NBUCKETS u" by (simp add: UNDERLOADED_def)
      then have "nentries u < NBUCKETS u" using True by linarith
      also have "NBUCKETS u \<le> 2 ^ 30" unfolding NBUCKETS_def by (intro power_increasing) (use d(2) in \<open>simp_all add: u_def\<close>)
      finally have u32: "nentries u < 2 ^ 32" by simp
      have "1 < nentries u"
      proof (rule ccontr)
        assume "\<not> 1 < nentries u"
        then have "JS_CEILING_LOG2 (nentries u) = 0" by (simp add: JS_CEILING_LOG2_def)
        then show False using False by (simp add: MINBUCKETSLOG2_def)
      qed
      then have "(2 :: nat) ^ (newlog2 - 1) < nentries u" using CEILING_LOG2(2) [OF u32] False by (simp add: newlog2_def Let_def)
      also have "nentries u < UNDERLOADED (NBUCKETS u)" using True by blast
      also have "UNDERLOADED (NBUCKETS u) \<le> NBUCKETS u div 4" by (simp add: UNDERLOADED_def)
      finally have "(2 :: nat) ^ (newlog2 - 1) * 2 < NBUCKETS u" by linarith
      then have "(2 :: nat) ^ (newlog2 - 1 + 1) < 2 ^ (32 - shift u)" by (simp add: NBUCKETS_def)
      then have "newlog2 - 1 + 1 < 32 - shift u" by (rule power_less_imp_less_exp [rotated]) simp
      then show ?thesis by simp
    qed
    then have s: "32 - newlog2 \<le> 28" "32 - (32 - newlog2) \<le> 32 - shift u" using l4 by arith+
    from Resize_ok [OF oku s(1), of os]
    obtain r ht' os' where r: "Resize os u (32 - newlog2) = (r, ht', os')" "hash_ok ops ht'" "hash_map ht' = hash_map u" "freed ht' = freed u"
      "r \<longrightarrow> shift ht' = 32 - newlog2" "\<not> r \<longrightarrow> ht' = u" by blast
    have "NBUCKETS ht' \<le> NBUCKETS u"
    proof (cases r)
      case True
      then show ?thesis using r(5) s(2) by (auto simp: NBUCKETS_def intro: power_increasing)
    qed (use r(6) in simp)
    then show ?thesis unfolding run if_P [OF True] using r(1-4) mu nb by (simp add: u_def gone_def)
  qed
qed

section \<open>A dictionary\<close>

text \<open>
  Tables keyed by strings, with \<^verbatim>\<open>JS_HashString\<close>; a table and the outcomes of later allocations
  serve requests through the operations of the interface.
\<close>

definition string_hops :: "(string, 'v) hops" where
  "string_hops = \<lparr>key_hash = JS_HashString, keyCompare = (\<lambda>a b. a = b), valueCompare = JS_CompareValues\<rparr>"

definition jh_get :: "(string, 'v) htable \<times> outcomes \<Rightarrow> string \<Rightarrow> 'v option \<times> (string, 'v) htable \<times> outcomes" where
  "jh_get = (\<lambda>(t, os) k. case JS_HashTableLookup string_hops t k of (v, t) \<Rightarrow> (v, t, os))"

definition jh_put :: "(string, 'v) htable \<times> outcomes \<Rightarrow> string \<Rightarrow> 'v \<Rightarrow> bool \<times> (string, 'v) htable \<times> outcomes" where
  "jh_put = (\<lambda>(t, os) k v. case JS_HashTableAdd os string_hops t k (Some v) of (r, t, os) \<Rightarrow> (r \<noteq> None, t, os))"

definition jh_del :: "(string, 'v) htable \<times> outcomes \<Rightarrow> string \<Rightarrow> (string, 'v) htable \<times> outcomes" where
  "jh_del = (\<lambda>(t, os) k. snd (JS_HashTableRemove os string_hops t k))"

definition jh_rep :: "nat \<Rightarrow> (string, 'v) htable \<times> outcomes \<Rightarrow> (string \<Rightarrow> 'v option) \<Rightarrow> bool" where
  "jh_rep n s m \<longleftrightarrow> hash_ok string_hops (fst s) \<and> m = (\<lambda>k. case hash_map (fst s) k of None \<Rightarrow> None | Some v \<Rightarrow> v)"

lemma string_hops_ok: "hops_ok string_hops"
  by (simp add: hops_ok_def string_hops_def JS_CompareValues_def)

lemma lookup_law:
  assumes ok: "hash_ok string_hops t" and g: "jh_get (t, os) k = (r, s')"
  shows "r = (case hash_map t k of None \<Rightarrow> None | Some v \<Rightarrow> v)" "hash_ok string_hops (fst s')" "hash_map (fst s') = hash_map t"
proof -
  obtain v t' where l: "JS_HashTableLookup string_hops t k = (v, t')" by (rule prod.exhaust)
  obtain t'' where t'': "JS_HashTableLookup string_hops t k = (case hash_map t k of None \<Rightarrow> None | Some v \<Rightarrow> v, t'')" "hash_ok string_hops t''" "hash_map t'' = hash_map t"
    using Lookup_ok [OF string_hops_ok ok, of k] by blast
  have "r = v" "s' = (t', os)" using g l by (simp_all add: jh_get_def)
  then show "r = (case hash_map t k of None \<Rightarrow> None | Some v \<Rightarrow> v)" "hash_ok string_hops (fst s')" "hash_map (fst s') = hash_map t"
    using l t'' by simp_all
qed

lemma add_law:
  assumes ok: "hash_ok string_hops t" and p: "jh_put (t, os) k v = (done, s')"
  shows "hash_ok string_hops (fst s') \<and> hash_map (fst s') = (if done then (hash_map t)(k \<mapsto> Some v) else hash_map t)"
proof -
  obtain r t' os' where a: "JS_HashTableAdd os string_hops t k (Some v) = (r, t', os')" by (rule prod_cases3)
  have "done = (r \<noteq> None)" "s' = (t', os')" using p a by (simp_all add: jh_put_def)
  then show ?thesis using Add_ok [OF string_hops_ok ok, of os k "Some v"] a by (cases r) auto
qed

lemma remove_law:
  assumes ok: "hash_ok string_hops t"
  shows "hash_ok string_hops (fst (jh_del (t, os) k)) \<and> hash_map (fst (jh_del (t, os) k)) = (hash_map t)(k := None)"
  using Remove_ok [OF string_hops_ok ok, of os k] by (auto simp: jh_del_def)

interpretation jh: dictionary jh_rep "\<lambda>_. True" "\<lambda>k. k" jh_get jh_put jh_del
proof
  fix n s m k r s' assume "jh_rep (Suc n) s m" "jh_get s k = (r, s')"
  then show "r = m k \<and> jh_rep n s' m" using lookup_law [of "fst s" "snd s" k r s'] by (simp add: jh_rep_def)
next
  fix n s m k v ok s' assume "jh_rep (Suc n) s m" "jh_put s k v = (ok, s')"
  then show "jh_rep n s' (if ok then m(k \<mapsto> v) else m)" using add_law [of "fst s" "snd s" k v ok s'] by (auto simp: jh_rep_def)
next
  fix n s m k assume "jh_rep (Suc n) s m"
  then show "jh_rep n (jh_del s k) (m(k := None))" using remove_law [of "fst s" "snd s" k] by (auto simp: jh_rep_def)
qed

section \<open>The properties on concrete tables\<close>

definition wit_hops :: "(nat, nat) hops" where
  "wit_hops = \<lparr>key_hash = of_nat, keyCompare = (\<lambda>a b. a = b), valueCompare = JS_CompareValues\<rparr>"

definition wit_ht :: "('k, 'v) htable" where
  "wit_ht = \<lparr>buckets = replicate (2 ^ 4) [], nentries = 0, shift = 28, freed = []\<rparr>"

lemma wit_hops_ok: "hops_ok wit_hops"
  by (simp add: hops_ok_def wit_hops_def JS_CompareValues_def)

lemma wit_ht_new: "JS_NewHashTable [] 10 = (Some wit_ht, [])"
  by (simp add: JS_NewHashTable_def wit_ht_def MINBUCKETS_def MINBUCKETSLOG2_def)

lemma wit_ht_ok: "hash_ok wit_hops wit_ht"
  using empty_buckets [of 28 wit_hops] by (simp add: hash_ok_def wit_ht_def)

lemma wit_ht_map: "hash_map wit_ht = Map.empty"
  by (simp add: hash_map_def entry_map_def wit_ht_def)

theorem NewHashTable_empty_witness: "hash_ok wit_hops wit_ht \<and> hash_map (wit_ht :: (nat, nat) htable) = Map.empty \<and> 10 \<le> NBUCKETS (wit_ht :: (nat, nat) htable)"
  using NewHashTable_empty [OF wit_ht_new, of wit_hops] by simp

theorem HashTableLookup_correct_witness: "\<exists>ht'. JS_HashTableLookup wit_hops wit_ht 3 = (None, ht') \<and> hash_map ht' = Map.empty"
  using HashTableLookup_correct [OF wit_hops_ok wit_ht_ok, of 3] by (auto simp: wit_ht_map)

theorem HashTableAdd_correct_witness:
  "\<exists>r ht' os'. JS_HashTableAdd [] wit_hops wit_ht 3 (Some 4) = (r, ht', os') \<and> hash_ok wit_hops ht' \<and> hash_map ht' = [3 \<mapsto> Some 4]"
proof -
  have "\<not> (False \<in> set [] \<or> shift wit_ht \<le> 3)" by (simp add: wit_ht_def)
  then show ?thesis using HashTableAdd_correct [OF wit_hops_ok wit_ht_ok, of "[]" 3 "Some 4"] unfolding wit_ht_map by (auto split: option.splits)
qed

theorem HashTableRemove_correct_witness: "\<exists>ht' os'. JS_HashTableRemove [] wit_hops wit_ht 3 = (False, ht', os') \<and> hash_map ht' = Map.empty"
  using HashTableRemove_correct [OF wit_hops_ok wit_ht_ok, of "[]" 3] by (auto simp: wit_ht_map)

theorem HashTableEnumerate_filters_witness:
  "\<exists>ht' os'. JS_HashTableEnumerateEntries [] (wit_ht :: (nat, nat) htable) (rm_if (\<lambda>he. he_key he < 3)) () = (0, ht', (), os') \<and> freed ht' = []"
  using HashTableEnumerate_filters [OF wit_ht_ok, of "[]" "\<lambda>he. he_key he < 3" "()"] by (auto simp: wit_ht_def)

end
