(* ===== verification/Mem5.thy ===== *)
theory Mem5
  imports Prelude
begin

text \<open>
  SQLite's buddy allocator (\<^verbatim>\<open>mem5.c\<close>). The pool is an array of bytes; its atoms of
  \<open>nAtom\<close> bytes are grouped in blocks of a power of two. A free block holds the links of
  its free list in its own first eight bytes, little-endian as on the i386 port, so a write
  outside an allocated block can destroy a list. \<open>aCtrl\<close> holds size and state of the block
  that starts at each atom.

  Pointers are offsets into the pool and a null pointer is \<open>None\<close>. An operation is \<open>None\<close>
  as a whole where the C code has no defined result: a signed overflow, or a walk along
  free lists that does not end.
\<close>

section \<open>The state\<close>

definition LOGMAX :: nat where "LOGMAX = 30"
definition CTRL_LOGSIZE :: u8 where "CTRL_LOGSIZE = 0x1f"
definition CTRL_FREE :: u8 where "CTRL_FREE = 0x20"

record mem5 =
  nAtom :: nat
  nBlock :: nat
  zPool :: bytes
  nAlloc :: u64
  totalAlloc :: u64
  totalExcess :: u64
  currentOut :: u32
  currentCount :: u32
  maxOut :: u32
  maxCount :: u32
  maxRequest :: u32
  aiFreelist :: "int list"
  aCtrl :: "u8 list"

text \<open>A C \<^verbatim>\<open>int\<close> at the address \<open>a\<close>.\<close>

definition get_int :: "bytes \<Rightarrow> nat \<Rightarrow> int" where
  "get_int p a = sint (ucast (p a) OR push_bit 8 (ucast (p (a + 1))) OR
     push_bit 16 (ucast (p (a + 2))) OR push_bit 24 (ucast (p (a + 3))) :: u32)"

definition put_int :: "bytes \<Rightarrow> nat \<Rightarrow> int \<Rightarrow> bytes" where
  "put_int p a x = (let w = word_of_int x :: u32 in
     p(a := ucast w, a + 1 := ucast (drop_bit 8 w), a + 2 := ucast (drop_bit 16 w), a + 3 := ucast (drop_bit 24 w)))"

text \<open>\<^verbatim>\<open>MEM5LINK(i)->next\<close> and \<^verbatim>\<open>MEM5LINK(i)->prev\<close>\<close>

definition link_next :: "mem5 \<Rightarrow> nat \<Rightarrow> int" where
  "link_next m i = get_int (zPool m) (i * nAtom m)"

definition link_prev :: "mem5 \<Rightarrow> nat \<Rightarrow> int" where
  "link_prev m i = get_int (zPool m) (i * nAtom m + 4)"

definition set_next :: "mem5 \<Rightarrow> nat \<Rightarrow> int \<Rightarrow> mem5" where
  "set_next m i x = m\<lparr>zPool := put_int (zPool m) (i * nAtom m) x\<rparr>"

definition set_prev :: "mem5 \<Rightarrow> nat \<Rightarrow> int \<Rightarrow> mem5" where
  "set_prev m i x = m\<lparr>zPool := put_int (zPool m) (i * nAtom m + 4) x\<rparr>"

section \<open>The operations\<close>

definition memsys5Unlink :: "mem5 \<Rightarrow> nat \<Rightarrow> nat \<Rightarrow> mem5" where
  "memsys5Unlink m i iLogsize =
    (let nxt = link_next m i; prv = link_prev m i;
         m = (if prv < 0 then m\<lparr>aiFreelist := (aiFreelist m)[iLogsize := nxt]\<rparr> else set_next m (nat prv) nxt)
     in if 0 \<le> nxt then set_prev m (nat nxt) prv else m)"

definition memsys5Link :: "mem5 \<Rightarrow> nat \<Rightarrow> nat \<Rightarrow> mem5" where
  "memsys5Link m i iLogsize =
    (let x = aiFreelist m ! iLogsize;
         m = set_prev (set_next m i x) i (- 1);
         m = (if 0 \<le> x then set_prev m (nat x) (int i) else m)
     in m\<lparr>aiFreelist := (aiFreelist m)[iLogsize := int i]\<rparr>)"

definition memsys5Size :: "mem5 \<Rightarrow> nat option \<Rightarrow> nat" where
  "memsys5Size m p = (case p of None \<Rightarrow> 0
     | Some p \<Rightarrow> nAtom m * 2 ^ unat (aCtrl m ! (p div nAtom m) AND CTRL_LOGSIZE))"

text \<open>\<^verbatim>\<open>while (i>0) { if (i<iFirst) iFirst = i; i = MEM5LINK(i)->next; }\<close>\<close>

partial_function (option) first_loop :: "mem5 \<Rightarrow> int \<Rightarrow> int \<Rightarrow> int option" where
  "first_loop m i iFirst =
    (if 0 < i then first_loop m (link_next m (nat i)) (if i < iFirst then i else iFirst) else Some iFirst)"

definition memsys5UnlinkFirst :: "mem5 \<Rightarrow> nat \<Rightarrow> (nat \<times> mem5) option" where
  "memsys5UnlinkFirst m iLogsize =
    (case first_loop m (aiFreelist m ! iLogsize) (aiFreelist m ! iLogsize) of
       None \<Rightarrow> None
     | Some iFirst \<Rightarrow> Some (nat iFirst, memsys5Unlink m (nat iFirst) iLogsize))"

text \<open>
  \<^verbatim>\<open>for (iFullSz=mem5.nAtom, iLogsize=0; iFullSz<nByte; iFullSz *= 2, iLogsize++)\<close>: the
  doubling of a C \<^verbatim>\<open>int\<close> overflows from \<open>2 ^ 30\<close> on.
\<close>

function round_loop :: "nat \<Rightarrow> nat \<Rightarrow> nat \<Rightarrow> (nat \<times> nat) option" where
  "round_loop iFullSz iLogsize nByte =
    (if 0 < iFullSz \<and> iFullSz < nByte then
       if 2 ^ 31 \<le> iFullSz * 2 then None else round_loop (iFullSz * 2) (iLogsize + 1) nByte
     else Some (iFullSz, iLogsize))"
  by auto

termination round_loop
  by (relation "measure (\<lambda>(f, l, n). n - f)") auto

declare round_loop.simps [simp del]

text \<open>
  \<^verbatim>\<open>for (iBin=iLogsize; mem5.aiFreelist[iBin]<0 && iBin<=LOGMAX; iBin++)\<close>: the first bin that
  is not empty, or \<open>LOGMAX + 1\<close> whatever the code reads behind the end of the array.
\<close>

function bin_loop :: "int list \<Rightarrow> nat \<Rightarrow> nat" where
  "bin_loop fl iBin = (if iBin \<le> LOGMAX \<and> fl ! iBin < 0 then bin_loop fl (iBin + 1) else iBin)"
  by auto

termination bin_loop
  by (relation "measure (\<lambda>(fl, b). LOGMAX + 1 - b)") auto

declare bin_loop.simps [simp del]

fun split_loop :: "mem5 \<Rightarrow> nat \<Rightarrow> nat \<Rightarrow> nat \<Rightarrow> mem5" where
  "split_loop m i 0 iLogsize = m"
| "split_loop m i (Suc iBin) iLogsize =
    (if iLogsize < Suc iBin then
       let newSize = 2 ^ iBin;
           m = m\<lparr>aCtrl := (aCtrl m)[i + newSize := CTRL_FREE OR word_of_nat iBin]\<rparr>
       in split_loop (memsys5Link m (i + newSize) iBin) i iBin iLogsize
     else m)"

definition malloc_stats :: "mem5 \<Rightarrow> nat \<Rightarrow> nat \<Rightarrow> mem5" where
  "malloc_stats m nByte iFullSz =
    (let m = m\<lparr>nAlloc := nAlloc m + 1, totalAlloc := totalAlloc m + word_of_nat iFullSz,
                totalExcess := totalExcess m + word_of_nat (iFullSz - nByte),
                currentCount := currentCount m + 1, currentOut := currentOut m + word_of_nat iFullSz\<rparr>;
         m = (if maxCount m < currentCount m then m\<lparr>maxCount := currentCount m\<rparr> else m)
     in if maxOut m < currentOut m then m\<lparr>maxOut := currentOut m\<rparr> else m)"

definition memsys5MallocUnsafe :: "mem5 \<Rightarrow> nat \<Rightarrow> (nat option \<times> mem5) option" where
  "memsys5MallocUnsafe m nByte =
    (let m = (if maxRequest m < word_of_nat nByte then m\<lparr>maxRequest := word_of_nat nByte\<rparr> else m)
     in case round_loop (nAtom m) 0 nByte of
       None \<Rightarrow> None
     | Some (iFullSz, iLogsize) \<Rightarrow>
         let iBin = bin_loop (aiFreelist m) iLogsize
         in if LOGMAX < iBin then Some (None, m)
            else case memsys5UnlinkFirst m iBin of
              None \<Rightarrow> None
            | Some (i, m) \<Rightarrow>
                let m = split_loop m i iBin iLogsize;
                    m = m\<lparr>aCtrl := (aCtrl m)[i := word_of_nat iLogsize]\<rparr>
                in Some (Some (i * nAtom m), malloc_stats m nByte iFullSz))"

function merge_loop :: "mem5 \<Rightarrow> nat \<Rightarrow> nat \<Rightarrow> mem5 \<times> nat \<times> nat" where
  "merge_loop m iBlock iLogsize =
    (if iLogsize < LOGMAX then
       let size = 2 ^ iLogsize;
           iBuddy = (if odd (iBlock div size) then iBlock - size else iBlock + size)
       in if nBlock m < iBuddy + size then (m, iBlock, iLogsize)
          else if aCtrl m ! iBuddy \<noteq> CTRL_FREE OR word_of_nat iLogsize then (m, iBlock, iLogsize)
          else
            let m = memsys5Unlink m iBuddy iLogsize; l = iLogsize + 1
            in if iBuddy < iBlock
               then merge_loop (m\<lparr>aCtrl := (aCtrl m)[iBuddy := CTRL_FREE OR word_of_nat l, iBlock := 0]\<rparr>) iBuddy l
               else merge_loop (m\<lparr>aCtrl := (aCtrl m)[iBlock := CTRL_FREE OR word_of_nat l, iBuddy := 0]\<rparr>) iBlock l
     else (m, iBlock, iLogsize))"
  by auto

termination merge_loop
  by (relation "measure (\<lambda>(m, b, l). LOGMAX - l)") auto

declare merge_loop.simps [simp del]

definition memsys5FreeUnsafe :: "mem5 \<Rightarrow> nat \<Rightarrow> mem5" where
  "memsys5FreeUnsafe m pOld =
    (let iBlock = pOld div nAtom m;
         iLogsize = unat (aCtrl m ! iBlock AND CTRL_LOGSIZE);
         size = 2 ^ iLogsize;
         m = m\<lparr>aCtrl := (aCtrl m)[iBlock := aCtrl m ! iBlock OR CTRL_FREE]\<rparr>;
         m = m\<lparr>aCtrl := (aCtrl m)[iBlock + size - 1 := aCtrl m ! (iBlock + size - 1) OR CTRL_FREE]\<rparr>;
         m = m\<lparr>currentCount := currentCount m - 1, currentOut := currentOut m - word_of_nat (size * nAtom m)\<rparr>;
         m = m\<lparr>aCtrl := (aCtrl m)[iBlock := CTRL_FREE OR word_of_nat iLogsize]\<rparr>;
         (m, iBlock, iLogsize) = merge_loop m iBlock iLogsize
     in memsys5Link m iBlock iLogsize)"

definition memsys5Malloc :: "mem5 \<Rightarrow> int \<Rightarrow> (nat option \<times> mem5) option" where
  "memsys5Malloc m nBytes = (if 0 < nBytes then memsys5MallocUnsafe m (nat nBytes) else Some (None, m))"

definition memsys5Free :: "mem5 \<Rightarrow> nat option \<Rightarrow> mem5" where
  "memsys5Free m pPrior = (case pPrior of None \<Rightarrow> m | Some p \<Rightarrow> memsys5FreeUnsafe m p)"

text \<open>\<^verbatim>\<open>memcpy\<close> within the pool\<close>

definition pool_copy :: "bytes \<Rightarrow> nat \<Rightarrow> nat \<Rightarrow> nat \<Rightarrow> bytes" where
  "pool_copy z dst src n = (\<lambda>a. if dst \<le> a \<and> a < dst + n then z (a - dst + src) else z a)"

definition memsys5Realloc :: "mem5 \<Rightarrow> nat option \<Rightarrow> int \<Rightarrow> (nat option \<times> mem5) option" where
  "memsys5Realloc m pPrior nBytes =
    (case pPrior of
       None \<Rightarrow> memsys5Malloc m nBytes
     | Some q \<Rightarrow>
         if nBytes \<le> 0 then Some (None, memsys5Free m pPrior)
         else let nOld = memsys5Size m pPrior
              in if nBytes \<le> int nOld then Some (pPrior, m)
                 else case memsys5MallocUnsafe m (nat nBytes) of
                   None \<Rightarrow> None
                 | Some (None, m) \<Rightarrow> Some (None, m)
                 | Some (Some p, m) \<Rightarrow>
                     let m = m\<lparr>zPool := pool_copy (zPool m) p q nOld\<rparr>
                     in Some (Some p, memsys5FreeUnsafe m q))"

definition memsys5Roundup :: "mem5 \<Rightarrow> int \<Rightarrow> nat option" where
  "memsys5Roundup m n = map_option fst (round_loop (nAtom m) 0 (nat n))"

text \<open>\<^verbatim>\<open>for (iLog=0; (1<<iLog)<iValue; iLog++)\<close>\<close>

function log_loop :: "nat \<Rightarrow> nat \<Rightarrow> nat" where
  "log_loop iLog iValue = (if 2 ^ iLog < iValue then log_loop (iLog + 1) iValue else iLog)"
  by auto

termination log_loop
  by (relation "measure (\<lambda>(l, v). v - 2 ^ l)") (auto intro: diff_less_mono2)

declare log_loop.simps [simp del]

definition memsys5Log :: "nat \<Rightarrow> nat" where
  "memsys5Log iValue = log_loop 0 iValue"

text \<open>\<^verbatim>\<open>while (sizeof(Mem5Link) > mem5.nAtom) mem5.nAtom = mem5.nAtom << 1;\<close>\<close>

function atom_loop :: "nat \<Rightarrow> nat" where
  "atom_loop n = (if 0 < n \<and> n < 8 then atom_loop (2 * n) else n)"
  by auto

termination atom_loop
  by (relation "measure (\<lambda>n. 8 - n)") auto

declare atom_loop.simps [simp del]

text \<open>The last loop of \<^verbatim>\<open>memsys5Init\<close>, for the sizes below \<open>2 ^ ii\<close>.\<close>

fun init_loop :: "mem5 \<Rightarrow> nat \<Rightarrow> nat \<Rightarrow> mem5" where
  "init_loop m iOffset 0 = m"
| "init_loop m iOffset (Suc ii) =
    (let size = 2 ^ ii
     in if iOffset + size \<le> nBlock m
        then init_loop (memsys5Link (m\<lparr>aCtrl := (aCtrl m)[iOffset := word_of_nat ii OR CTRL_FREE]\<rparr>) iOffset ii)
               (iOffset + size) ii
        else init_loop m iOffset ii)"

text \<open>The arguments are \<^verbatim>\<open>nHeap\<close>, \<^verbatim>\<open>mnReq\<close> and the bytes at \<^verbatim>\<open>pHeap\<close>; \<open>None\<close> is \<^verbatim>\<open>SQLITE_ERROR\<close>.\<close>

definition memsys5Init :: "mem5 \<Rightarrow> nat \<Rightarrow> nat \<Rightarrow> bytes option \<Rightarrow> mem5 option" where
  "memsys5Init m nByte mnReq zByte =
    (case zByte of None \<Rightarrow> None
     | Some z \<Rightarrow>
         let nAtom = atom_loop (2 ^ memsys5Log mnReq);
             nBlock = nByte div (nAtom + 1);
             m = m\<lparr>nAtom := nAtom, nBlock := nBlock, zPool := z,
                   aCtrl := map (\<lambda>i. z (nBlock * nAtom + i)) [0..<nBlock],
                   aiFreelist := replicate (LOGMAX + 1) (- 1)\<rparr>
         in Some (init_loop m 0 (LOGMAX + 1)))"

section \<open>Links in the pool\<close>

lemma le_bytes: "ucast (ucast w :: u8) OR push_bit 8 (ucast (ucast (drop_bit 8 w) :: u8)) OR
    push_bit 16 (ucast (ucast (drop_bit 16 w) :: u8)) OR push_bit 24 (ucast (ucast (drop_bit 24 w) :: u8)) = (w :: u32)"
  by (rule u32_eqI) (simp add: each_bit bit_rules)

lemma get_put_int: "- (2 ^ 31) \<le> x \<Longrightarrow> x < 2 ^ 31 \<Longrightarrow> get_int (put_int p a x) a = x"
proof -
  assume x: "- (2 ^ 31) \<le> x" "x < 2 ^ 31"
  have "get_int (put_int p a x) a = sint (word_of_int x :: u32)"
    unfolding get_int_def put_int_def Let_def by (simp add: le_bytes)
  also have "\<dots> = x" using x by (simp add: signed_of_int signed_take_bit_int_eq_self)
  finally show ?thesis .
qed

lemma put_int_other: "a' < a \<or> a + 4 \<le> a' \<Longrightarrow> put_int p a x a' = p a'"
  by (auto simp: put_int_def Let_def)

lemma get_put_other: "b + 4 \<le> a \<or> a + 4 \<le> b \<Longrightarrow> get_int (put_int p a x) b = get_int p b"
  by (auto simp: get_int_def put_int_def Let_def)

definition int32 :: "int \<Rightarrow> bool" where
  "int32 x \<longleftrightarrow> - (2 ^ 31) \<le> x \<and> x < 2 ^ 31"

lemma atoms_apart: "8 \<le> n \<Longrightarrow> i \<noteq> j \<Longrightarrow> i * n + 8 \<le> j * n \<or> j * n + 8 \<le> i * (n :: nat)"
proof -
  assume n: "8 \<le> n" "i \<noteq> j"
  have "a * n + 8 \<le> b * n" if "a < b" for a b
  proof -
    have "a * n + n \<le> b * n" using mult_le_mono1 [of "Suc a" b n] that by simp
    then show ?thesis using n(1) by linarith
  qed
  then show ?thesis using n(2) by (cases "i < j") (auto simp: not_less)
qed

lemma set_link_fields [simp]:
  "nAtom (set_next m i x) = nAtom m" "nAtom (set_prev m i x) = nAtom m"
  "nBlock (set_next m i x) = nBlock m" "nBlock (set_prev m i x) = nBlock m"
  "aiFreelist (set_next m i x) = aiFreelist m" "aiFreelist (set_prev m i x) = aiFreelist m"
  "aCtrl (set_next m i x) = aCtrl m" "aCtrl (set_prev m i x) = aCtrl m"
  by (simp_all add: set_next_def set_prev_def)

lemma link_fields_free [simp]:
  "link_next (m\<lparr>aiFreelist := fl\<rparr>) i = link_next m i" "link_prev (m\<lparr>aiFreelist := fl\<rparr>) i = link_prev m i"
  "link_next (m\<lparr>aCtrl := c\<rparr>) i = link_next m i" "link_prev (m\<lparr>aCtrl := c\<rparr>) i = link_prev m i"
  by (simp_all add: link_next_def link_prev_def)

lemma link_set:
  assumes "8 \<le> nAtom m" "int32 x"
  shows "link_next (set_next m i x) j = (if j = i then x else link_next m j)"
    "link_prev (set_next m i x) j = link_prev m j"
    "link_next (set_prev m i x) j = link_next m j"
    "link_prev (set_prev m i x) j = (if j = i then x else link_prev m j)"
proof -
  have x: "- (2 ^ 31) \<le> x" "x < 2 ^ 31" using assms(2) by (simp_all add: int32_def)
  note apart = atoms_apart [OF assms(1), of i j]
  have d: "i \<noteq> j \<Longrightarrow> get_int (put_int (zPool m) (i * nAtom m + e) x) (j * nAtom m + f) = get_int (zPool m) (j * nAtom m + f)"
    if "e \<le> 4" "f \<le> 4" for e f using apart that by (intro get_put_other) linarith
  have s: "get_int (put_int (zPool m) (i * nAtom m + 4) x) (i * nAtom m) = get_int (zPool m) (i * nAtom m)"
    "get_int (put_int (zPool m) (i * nAtom m) x) (i * nAtom m + 4) = get_int (zPool m) (i * nAtom m + 4)"
    by (rule get_put_other; simp)+
  show "link_next (set_next m i x) j = (if j = i then x else link_next m j)"
    using d [of 0 0] get_put_int [OF x] by (simp add: link_next_def set_next_def)
  show "link_prev (set_next m i x) j = link_prev m j"
    using d [of 0 4] s(2) by (cases "i = j") (simp_all add: link_prev_def set_next_def)
  show "link_next (set_prev m i x) j = link_next m j"
    using d [of 4 0] s(1) by (cases "i = j") (simp_all add: link_next_def set_prev_def)
  show "link_prev (set_prev m i x) j = (if j = i then x else link_prev m j)"
    using d [of 4 4] get_put_int [OF x] by (simp add: link_prev_def set_prev_def)
qed

text \<open>A change of the pool that is confined to the atoms \<open>A\<close>.\<close>

definition confined :: "mem5 \<Rightarrow> mem5 \<Rightarrow> nat set \<Rightarrow> bool" where
  "confined m m' A \<longleftrightarrow> nAtom m' = nAtom m \<and> nBlock m' = nBlock m \<and> (\<forall>a. a div nAtom m \<notin> A \<longrightarrow> zPool m' a = zPool m a)"

lemma confined_refl: "confined m m A"
  by (simp add: confined_def)

lemma confined_trans: "confined m m' A \<Longrightarrow> confined m' m'' A \<Longrightarrow> confined m m'' A"
  by (simp add: confined_def)

lemma confined_mono: "confined m m' A \<Longrightarrow> A \<subseteq> B \<Longrightarrow> confined m m' B"
  by (auto simp: confined_def)

lemma atom_of: "8 \<le> n \<Longrightarrow> i * n \<le> a \<Longrightarrow> a < i * n + 8 \<Longrightarrow> a div n = (i :: nat)"
  by (rule div_nat_eqI) (simp_all add: mult.commute)

lemma confined_set: "8 \<le> nAtom m \<Longrightarrow> i \<in> A \<Longrightarrow> confined m (set_next m i x) A"
  "8 \<le> nAtom m \<Longrightarrow> i \<in> A \<Longrightarrow> confined m (set_prev m i x) A"
proof -
  assume n: "8 \<le> nAtom m" "i \<in> A"
  have "put_int (zPool m) (i * nAtom m + e) x a = zPool m a" if "a div nAtom m \<notin> A" "e \<le> 4" for a e
  proof (rule put_int_other)
    show "a < i * nAtom m + e \<or> i * nAtom m + e + 4 \<le> a"
    proof (rule ccontr)
      assume "\<not> (a < i * nAtom m + e \<or> i * nAtom m + e + 4 \<le> a)"
      then have "i * nAtom m \<le> a" "a < i * nAtom m + 8" using that(2) by linarith+
      then have "a div nAtom m = i" by (rule atom_of [OF n(1)])
      then show False using that(1) n(2) by simp
    qed
  qed
  from this [of _ 0] this [of _ 4] show "confined m (set_next m i x) A" "confined m (set_prev m i x) A"
    by (simp_all add: confined_def) (simp_all add: set_next_def set_prev_def)
qed

section \<open>Doubly linked lists\<close>

fun links :: "mem5 \<Rightarrow> int \<Rightarrow> int \<Rightarrow> nat list \<Rightarrow> bool" where
  "links m pv p [] \<longleftrightarrow> p = - 1"
| "links m pv p (x # xs) \<longleftrightarrow> p = int x \<and> link_prev m x = pv \<and> links m (int x) (link_next m x) xs"

lemma links_cong:
  "(\<And>x. x \<in> set xs \<Longrightarrow> link_next m' x = link_next m x \<and> link_prev m' x = link_prev m x) \<Longrightarrow>
    links m pv p xs \<Longrightarrow> links m' pv p xs"
  by (induction xs arbitrary: pv p) auto

definition end_of :: "int \<Rightarrow> nat list \<Rightarrow> int" where
  "end_of pv ys = (if ys = [] then pv else int (last ys))"

definition head_of :: "nat list \<Rightarrow> int" where
  "head_of zs = (if zs = [] then - 1 else int (hd zs))"

lemma links_head: "links m pv p xs \<Longrightarrow> p = head_of xs"
  by (cases xs) (simp_all add: head_of_def)

lemma links_at: "links m pv p (ys @ i # zs) \<Longrightarrow> link_prev m i = end_of pv ys \<and> link_next m i = head_of zs"
proof (induction ys arbitrary: pv p)
  case Nil
  then show ?case using links_head [of m "int i" "link_next m i" zs] by (simp add: end_of_def)
next
  case (Cons y ys)
  have "links m (int y) (link_next m y) (ys @ i # zs)" using Cons.prems by simp
  from Cons.IH [OF this] show ?case by (simp add: end_of_def)
qed

lemma links_remove:
  assumes "links m pv p (ys @ i # zs)" "distinct (ys @ i # zs)"
    "\<And>x. x \<in> set (ys @ zs) \<Longrightarrow> link_next m' x = (if ys \<noteq> [] \<and> x = last ys then head_of zs else link_next m x)"
    "\<And>x. x \<in> set (ys @ zs) \<Longrightarrow> link_prev m' x = (if zs \<noteq> [] \<and> x = hd zs then end_of pv ys else link_prev m x)"
  shows "links m' pv (if ys = [] then head_of zs else p) (ys @ zs)"
  using assms
proof (induction ys arbitrary: pv p)
  case Nil
  show ?case
  proof (cases zs)
    case (Cons z zs')
    have l: "links m (int z) (link_next m z) zs'" using Nil(1) Cons by simp
    have "links m' (int z) (link_next m z) zs'"
      by (rule links_cong [OF _ l]) (use Nil(2-4) Cons in auto)
    then show ?thesis using Nil Cons by (simp add: head_of_def end_of_def)
  qed (simp add: head_of_def)
next
  case (Cons y ys)
  have l: "p = int y" "link_prev m y = pv" "links m (int y) (link_next m y) (ys @ i # zs)" using Cons.prems(1) by simp_all
  have e: "end_of pv (y # ys) = end_of (int y) ys" by (simp add: end_of_def)
  have y: "y \<notin> set ys" "y \<notin> set zs" using Cons.prems(2) by simp_all
  have n: "link_next m' x = (if ys \<noteq> [] \<and> x = last ys then head_of zs else link_next m x)" if "x \<in> set (ys @ zs)" for x
  proof (cases "ys = []")
    case True
    then show ?thesis using Cons.prems(3) [of x] that y by auto
  qed (use Cons.prems(3) [of x] that in auto)
  have v: "link_prev m' x = (if zs \<noteq> [] \<and> x = hd zs then end_of (int y) ys else link_prev m x)" if "x \<in> set (ys @ zs)" for x
    using Cons.prems(4) [of x] that e by auto
  have "links m' (int y) (if ys = [] then head_of zs else link_next m y) (ys @ zs)"
    by (rule Cons.IH [OF l(3) _ n v]) (use Cons.prems(2) in auto)
  moreover have "link_next m' y = (if ys = [] then head_of zs else link_next m y)"
  proof (cases "ys = []")
    case False
    then have "y \<noteq> last ys" using y by auto
    then show ?thesis using Cons.prems(3) [of y] False by auto
  qed (use Cons.prems(3) [of y] in auto)
  moreover have "link_prev m' y = pv"
  proof -
    have "zs \<noteq> [] \<Longrightarrow> y \<noteq> hd zs" using y(2) by auto
    then show ?thesis using Cons.prems(4) [of y] l(2) by auto
  qed
  ultimately show ?case using l(1) by simp
qed


definition chain :: "mem5 \<Rightarrow> nat \<Rightarrow> nat list \<Rightarrow> bool" where
  "chain m k xs \<longleftrightarrow> links m (- 1) (aiFreelist m ! k) xs"

lemma chain_cong:
  "(\<And>x. x \<in> set xs \<Longrightarrow> link_next m' x = link_next m x \<and> link_prev m' x = link_prev m x) \<Longrightarrow>
    aiFreelist m' ! k = aiFreelist m ! k \<Longrightarrow> chain m k xs \<Longrightarrow> chain m' k xs"
  unfolding chain_def by (simp add: links_cong)

text \<open>What linking and unlinking in the list \<open>k\<close> leave alone.\<close>

definition touches :: "mem5 \<Rightarrow> mem5 \<Rightarrow> nat \<Rightarrow> nat set \<Rightarrow> bool" where
  "touches m m' k A \<longleftrightarrow> confined m m' A \<and> aCtrl m' = aCtrl m \<and> length (aiFreelist m') = length (aiFreelist m) \<and>
     (\<forall>j. j \<noteq> k \<longrightarrow> aiFreelist m' ! j = aiFreelist m ! j) \<and>
     (\<forall>x. x \<notin> A \<longrightarrow> link_next m' x = link_next m x \<and> link_prev m' x = link_prev m x)"

lemma unlink_ok:
  assumes "8 \<le> nAtom m" "chain m k (ys @ i # zs)" "distinct (ys @ i # zs)" "\<forall>x \<in> set (ys @ i # zs). int32 (int x)"
    "k < length (aiFreelist m)"
  shows "chain (memsys5Unlink m i k) k (ys @ zs)" "touches m (memsys5Unlink m i k) k (set (ys @ zs))"
proof -
  have at: "link_prev m i = end_of (- 1) ys" "link_next m i = head_of zs"
    using links_at [of m "- 1" _ ys i zs] assms(2) by (auto simp: chain_def)
  define m1 where "m1 = (if ys = [] then m\<lparr>aiFreelist := (aiFreelist m)[k := head_of zs]\<rparr> else set_next m (last ys) (head_of zs))"
  define e where "e = end_of (- 1) ys"
  have U: "memsys5Unlink m i k = (if zs = [] then m1 else set_prev m1 (hd zs) e)"
    unfolding memsys5Unlink_def at m1_def e_def by (simp add: end_of_def head_of_def)
  have i32: "int32 (head_of zs)" "int32 e" unfolding e_def
  proof -
    have "zs \<noteq> [] \<Longrightarrow> hd zs \<in> set zs" "ys \<noteq> [] \<Longrightarrow> last ys \<in> set ys" by simp_all
    then show "int32 (head_of zs)" "int32 (end_of (- 1) ys)" using assms(4) by (auto simp: head_of_def end_of_def) (simp_all add: int32_def)
  qed
  have n1: "8 \<le> nAtom m1" using assms(1) by (simp add: m1_def)
  have f1: "link_next m1 x = (if ys \<noteq> [] \<and> x = last ys then head_of zs else link_next m x)"
    "link_prev m1 x = link_prev m x" for x
    by (simp_all add: m1_def link_set [OF assms(1) i32(1)])
  have f: "link_next (memsys5Unlink m i k) x = (if ys \<noteq> [] \<and> x = last ys then head_of zs else link_next m x)"
    "link_prev (memsys5Unlink m i k) x = (if zs \<noteq> [] \<and> x = hd zs then e else link_prev m x)" for x
    unfolding U by (simp_all add: link_set [OF n1 i32(2)] f1)
  have fl: "aiFreelist (memsys5Unlink m i k) = (if ys = [] then (aiFreelist m)[k := head_of zs] else aiFreelist m)"
    unfolding U m1_def by simp
  have hd: "aiFreelist (memsys5Unlink m i k) ! k = (if ys = [] then head_of zs else aiFreelist m ! k)"
    using assms(5) by (simp add: fl)
  show "chain (memsys5Unlink m i k) k (ys @ zs)" unfolding chain_def hd
    by (rule links_remove [OF assms(2)[unfolded chain_def] assms(3)]) (simp_all add: f flip: e_def)
  have c1: "confined m m1 (set (ys @ zs))"
    using confined_set(1) [OF assms(1), of "last ys" "set (ys @ zs)"] confined_refl by (simp add: m1_def confined_def)
  have c2: "confined m1 (memsys5Unlink m i k) (set (ys @ zs))"
    unfolding U using confined_set(2) [OF n1, of "hd zs" "set (ys @ zs)"] confined_refl by simp
  have c: "confined m (memsys5Unlink m i k) (set (ys @ zs))" by (rule confined_trans [OF c1 c2])
  have ac: "aCtrl (memsys5Unlink m i k) = aCtrl m" unfolding U m1_def by simp
  show "touches m (memsys5Unlink m i k) k (set (ys @ zs))"
    unfolding touches_def using c ac f by (auto simp: fl)
qed

lemma link_ok:
  assumes "8 \<le> nAtom m" "chain m k xs" "i \<notin> set xs" "int32 (int i)" "\<forall>x \<in> set xs. int32 (int x)" "k < length (aiFreelist m)"
  shows "chain (memsys5Link m i k) k (i # xs)" "touches m (memsys5Link m i k) k (insert i (set xs))"
proof -
  have h: "aiFreelist m ! k = head_of xs" using assms(2) links_head by (simp add: chain_def)
  define m1 where "m1 = set_prev (set_next m i (head_of xs)) i (- 1)"
  define m2 where "m2 = (if xs = [] then m1 else set_prev m1 (hd xs) (int i))"
  have L: "memsys5Link m i k = m2\<lparr>aiFreelist := (aiFreelist m2)[k := int i]\<rparr>"
    unfolding memsys5Link_def h m2_def m1_def Let_def by (simp add: head_of_def)
  have i32: "int32 (head_of xs)" "int32 (- 1)" using assms(5) by (cases xs, simp_all add: head_of_def int32_def)+
  have n1: "8 \<le> nAtom (set_next m i (head_of xs))" "8 \<le> nAtom m1" using assms(1) by (simp_all add: m1_def)
  have f1: "link_next m1 x = (if x = i then head_of xs else link_next m x)" "link_prev m1 x = (if x = i then - 1 else link_prev m x)" for x
    by (simp_all add: m1_def link_set [OF n1(1) i32(2)] link_set [OF assms(1) i32(1)])
  have f: "link_next (memsys5Link m i k) x = (if x = i then head_of xs else link_next m x)"
    "link_prev (memsys5Link m i k) x = (if xs \<noteq> [] \<and> x = hd xs then int i else if x = i then - 1 else link_prev m x)" for x
    unfolding L m2_def by (simp_all add: link_set [OF n1(2) assms(4)] f1)
  have fl: "aiFreelist (memsys5Link m i k) = (aiFreelist m)[k := int i]" unfolding L m2_def m1_def by simp
  have "links (memsys5Link m i k) (int i) (head_of xs) xs"
  proof (cases xs)
    case (Cons y ys)
    have "links m (int y) (link_next m y) ys" using assms(2) Cons by (simp add: chain_def)
    moreover have "y \<notin> set ys \<Longrightarrow> links (memsys5Link m i k) (int y) (link_next m y) ys"
      by (rule links_cong [OF _ \<open>links m (int y) (link_next m y) ys\<close>]) (use Cons assms(3) f in auto)
    moreover have "y \<notin> set ys"
    proof
      assume y: "y \<in> set ys"
      then obtain us vs where u: "ys = us @ y # vs" by (auto simp: in_set_conv_decomp)
      have "links m (- 1) (aiFreelist m ! k) ((y # us) @ y # vs)" using assms(2) Cons u by (simp add: chain_def)
      from links_at [OF this] have "link_prev m y = end_of (- 1) (y # us)" by simp
      moreover have "link_prev m y = - 1" using assms(2) Cons by (simp add: chain_def)
      ultimately show False by (simp add: end_of_def)
    qed
    ultimately show ?thesis using Cons f assms(3) by (simp add: head_of_def)
  qed (simp add: head_of_def)
  then show "chain (memsys5Link m i k) k (i # xs)"
    using f assms(3,6) by (auto simp: chain_def fl dest: hd_in_set)
  have c1: "confined m m1 (insert i (set xs))" unfolding m1_def
    using confined_trans [OF confined_set(1) confined_set(2)] assms(1) by simp
  have c2: "confined m1 m2 (insert i (set xs))" unfolding m2_def
    using confined_set(2) [OF n1(2), of "hd xs"] confined_refl by simp
  have c: "confined m (memsys5Link m i k) (insert i (set xs))" using confined_trans [OF c1 c2] unfolding L by (simp add: confined_def)
  have ac: "aCtrl (memsys5Link m i k) = aCtrl m" unfolding L m2_def m1_def by simp
  show "touches m (memsys5Link m i k) k (insert i (set xs))"
    unfolding touches_def using c ac f by (auto simp: fl dest: hd_in_set)
qed

section \<open>The blocks of the pool\<close>

text \<open>
  The blocks: size and state of the block that starts at an atom, if one does. \<open>tiled n H\<close>:
  the blocks are aligned and cover the first \<open>n\<close> atoms without overlap.
\<close>

type_synonym blocks = "nat \<Rightarrow> (nat \<times> bool) option"

definition tiled :: "nat \<Rightarrow> blocks \<Rightarrow> bool" where
  "tiled n H \<longleftrightarrow> (\<forall>i k f. H i = Some (k, f) \<longrightarrow> k \<le> LOGMAX \<and> 2 ^ k dvd i \<and> i + 2 ^ k \<le> n) \<and>
     (\<forall>i k f j. H i = Some (k, f) \<longrightarrow> i < j \<longrightarrow> j < i + 2 ^ k \<longrightarrow> H j = None) \<and>
     (\<forall>a < n. \<exists>i k f. H i = Some (k, f) \<and> i \<le> a \<and> a < i + 2 ^ k)"

lemma tiledD:
  assumes "tiled n H" "H i = Some (k, f)"
  shows "k \<le> LOGMAX" "2 ^ k dvd i" "i + 2 ^ k \<le> n" "i < j \<Longrightarrow> j < i + 2 ^ k \<Longrightarrow> H j = None"
  using assms unfolding tiled_def by blast+

lemma tiledI:
  assumes "\<And>i k f. H i = Some (k, f) \<Longrightarrow> k \<le> LOGMAX \<and> 2 ^ k dvd i \<and> i + 2 ^ k \<le> n"
    "\<And>i k f j. H i = Some (k, f) \<Longrightarrow> i < j \<Longrightarrow> j < i + 2 ^ k \<Longrightarrow> H j = None"
    "\<And>a. a < n \<Longrightarrow> \<exists>i k f. H i = Some (k, f) \<and> i \<le> a \<and> a < i + 2 ^ k"
  shows "tiled n H"
  using assms unfolding tiled_def by blast

lemma tiled_apart:
  assumes "tiled n H" "H i = Some (k, f)" "H j = Some (l, g)" "i \<noteq> j"
  shows "i + 2 ^ k \<le> j \<or> j + 2 ^ l \<le> i"
  using tiledD(4) [OF assms(1,2), of j] tiledD(4) [OF assms(1,3), of i] assms(2-4) by (metis linorder_neqE_nat not_less option.distinct(1))

lemma tiled_split:
  assumes "tiled n H" "H i = Some (Suc k, f)"
  shows "tiled n (H(i := Some (k, g), i + 2 ^ k := Some (k, h)))"
proof -
  let ?H = "H(i := Some (k, g), i + 2 ^ k := Some (k, h))"
  note d = tiledD [OF assms]
  have al: "2 ^ k dvd i" using d(2) by (rule power_le_dvd) simp
  then have al2: "2 ^ k dvd i + 2 ^ k" by simp
  have dbl: "(2::nat) ^ Suc k = 2 ^ k + 2 ^ k" by simp
  have pos: "0 < (2::nat) ^ k" by simp
  have other: "i + 2 ^ Suc k \<le> j \<or> j + 2 ^ l \<le> i" if "H j = Some (l, e)" "j \<noteq> i" for j l e
    using tiled_apart [OF assms that(1)] that(2) by blast
  show ?thesis
  proof (rule tiledI)
    fix j l e assume "?H j = Some (l, e)"
    then consider "j = i" "l = k" | "j = i + 2 ^ k" "l = k" | "H j = Some (l, e)" by (auto split: if_splits)
    then show "l \<le> LOGMAX \<and> 2 ^ l dvd j \<and> j + 2 ^ l \<le> n"
      using d(1,3) al al2 dbl tiledD(1-3) [OF assms(1)] by cases auto
  next
    fix j l e u assume j: "?H j = Some (l, e)" and u: "j < u" "u < j + 2 ^ l"
    consider "j = i" "l = k" | "j = i + 2 ^ k" "l = k" | "H j = Some (l, e)" "j \<noteq> i" using j by (auto split: if_splits)
    then show "?H u = None"
    proof cases
      case 1
      then show ?thesis using u d(4) [of u] dbl by simp
    next
      case 2
      then show ?thesis using u d(4) [of u] dbl by simp
    next
      case 3
      have "H u = None" using tiledD(4) [OF assms(1) 3(1) u] .
      moreover have "u \<noteq> i" "u \<noteq> i + 2 ^ k" using other [OF 3] u dbl pos assms(2) calculation by auto
      ultimately show ?thesis by simp
    qed
  next
    fix a assume "a < n"
    then obtain j l e where j: "H j = Some (l, e)" "j \<le> a" "a < j + 2 ^ l" using assms(1) by (auto simp: tiled_def)
    show "\<exists>j l e. ?H j = Some (l, e) \<and> j \<le> a \<and> a < j + 2 ^ l"
    proof (cases "j = i")
      case True
      then have "l = Suc k" using j(1) assms(2) by simp
      then show ?thesis using j True dbl by (cases "a < i + 2 ^ k") (intro exI [of _ i] exI [of _ k] exI [of _ g], simp,
        intro exI [of _ "i + 2 ^ k"] exI [of _ k] exI [of _ h], simp)
    next
      case False
      then have "j \<noteq> i + 2 ^ k" using d(4) [of "i + 2 ^ k"] j(1) dbl pos by auto
      then show ?thesis using j False by (intro exI [of _ j] exI [of _ l] exI [of _ e]) simp
    qed
  qed
qed


lemma multiple_le: "(d :: nat) dvd h \<Longrightarrow> h < d * r + d \<Longrightarrow> h \<le> d * r"
proof -
  assume "d dvd h" "h < d * r + d"
  then obtain s where s: "h = d * s" by (auto elim: dvdE)
  then have "d * s < d * Suc r" using \<open>h < d * r + d\<close> by simp
  then have "s \<le> r" by (simp only: mult_less_cancel1 less_Suc_eq_le)
  then show ?thesis using s by simp
qed

definition buddy :: "nat \<Rightarrow> nat \<Rightarrow> nat" where
  "buddy i k = (if odd (i div 2 ^ k) then i - 2 ^ k else i + 2 ^ k)"

lemma buddy_cases:
  assumes "2 ^ k dvd i"
  obtains r where "i = 2 ^ Suc k * r" "buddy i k = i + 2 ^ k"
  | r where "buddy i k = 2 ^ Suc k * r" "i = buddy i k + 2 ^ k"
proof (cases "odd (i div 2 ^ k)")
  case True
  then obtain r where r: "i div 2 ^ k = 2 * r + 1" by (auto elim: oddE)
  then have i: "i = 2 ^ k * (2 * r + 1)" using assms by (metis dvd_mult_div_cancel)
  then have "buddy i k = 2 ^ Suc k * r" using True by (simp add: buddy_def)
  then show ?thesis using i that(2) by (simp add: algebra_simps)
next
  case False
  then obtain r where r: "i div 2 ^ k = 2 * r" by (auto elim: evenE)
  then have i: "i = 2 ^ k * (2 * r)" using assms by (metis dvd_mult_div_cancel)
  then show ?thesis using False that(1) by (simp add: buddy_def)
qed

text \<open>Where a block ends, or its buddy fits, a block of at most its size starts.\<close>

lemma tiled_buddy:
  assumes "tiled n H" "H i = Some (k, f)" "buddy i k + 2 ^ k \<le> n"
  shows "\<exists>l g. H (buddy i k) = Some (l, g) \<and> l \<le> k"
proof -
  let ?b = "buddy i k"
  have i: "2 ^ k dvd i" by (rule tiledD(2) [OF assms(1,2)])
  obtain r where r: "2 ^ Suc k * r \<le> ?b" "?b < 2 ^ Suc k * r + 2 ^ Suc k" "2 ^ Suc k * r \<le> i" "i < 2 ^ Suc k * r + 2 ^ Suc k"
  proof (rule buddy_cases [OF i])
    fix r assume "i = 2 ^ Suc k * r" "buddy i k = i + 2 ^ k"
    then show thesis by (intro that [of r]) simp_all
  next
    fix r assume "buddy i k = 2 ^ Suc k * r" "i = buddy i k + 2 ^ k"
    then show thesis by (intro that [of r]) simp_all
  qed
  have bk: "2 ^ k dvd ?b" using i by (rule buddy_cases) auto
  have "?b < n" using assms(3) by (rule less_le_trans [rotated]) simp
  then obtain h l g where h: "H h = Some (l, g)" "h \<le> ?b" "?b < h + 2 ^ l" using assms(1) unfolding tiled_def by blast
  have hl: "2 ^ l dvd h" by (rule tiledD(2) [OF assms(1) h(1)])
  show ?thesis
  proof (cases "l \<le> k")
    case True
    then have "2 ^ l dvd ?b" using bk by (rule power_le_dvd [rotated])
    then obtain s where s: "?b = 2 ^ l * s" by (rule dvdE)
    obtain t where t: "h = 2 ^ l * t" using hl by (rule dvdE)
    have "2 ^ l * t \<le> 2 ^ l * s" "2 ^ l * s < 2 ^ l * Suc t" using h(2,3) s t by simp_all
    then have "t \<le> s" "s < Suc t" by (simp, simp only: mult_less_cancel1)
    then have "t = s" by simp
    then show ?thesis using h(1) s t True by auto
  next
    case False
    then have kl: "2 ^ Suc k dvd (2::nat) ^ l" by (intro le_imp_power_dvd) simp
    then have hk: "2 ^ Suc k dvd h" using hl by (rule dvd_trans)
    then have lo: "h \<le> 2 ^ Suc k * r" by (rule multiple_le) (use h(2) r(2) in linarith)
    have "2 ^ Suc k dvd h + 2 ^ l" using hk kl by simp
    then have hi: "2 ^ Suc k * r + 2 ^ Suc k \<le> h + 2 ^ l"
      using multiple_le [of "2 ^ Suc k" "h + 2 ^ l" r] h(3) r(1) by linarith
    have "h = i \<or> H i = None" using tiledD(4) [OF assms(1) h(1), of i] lo hi r(3,4) by linarith
    then show ?thesis using assms(2) h(1) False by auto
  qed
qed

lemma tiled_flag:
  assumes "tiled n H" "H i = Some (k, f)"
  shows "tiled n (H(i := Some (k, g)))"
proof (rule tiledI)
  fix j l e assume "(H(i := Some (k, g))) j = Some (l, e)"
  then show "l \<le> LOGMAX \<and> 2 ^ l dvd j \<and> j + 2 ^ l \<le> n"
    using tiledD(1-3) [OF assms(1)] assms(2) by (auto split: if_splits)
next
  fix j l e u assume j: "(H(i := Some (k, g))) j = Some (l, e)" "j < u" "u < j + 2 ^ l"
  obtain e' where e': "H j = Some (l, e')" using j(1) assms(2) by (cases "j = i") auto
  have "H u = None" by (rule tiledD(4) [OF assms(1) e' j(2,3)])
  then show "(H(i := Some (k, g))) u = None" using assms(2) by auto
next
  fix a assume "a < n"
  then obtain j l e where "H j = Some (l, e)" "j \<le> a" "a < j + 2 ^ l" using assms(1) unfolding tiled_def by blast
  then show "\<exists>j l e. (H(i := Some (k, g))) j = Some (l, e) \<and> j \<le> a \<and> a < j + 2 ^ l"
    using assms(2) by (cases "j = i") auto
qed

lemma tiled_merge:
  assumes "tiled n H" "H i = Some (k, f)" "H (i + 2 ^ k) = Some (k, g)" "2 ^ Suc k dvd i" "k < LOGMAX"
  shows "tiled n (H(i + 2 ^ k := None, i := Some (Suc k, h)))"
proof (rule tiledI)
  let ?j = "i + 2 ^ k"
  let ?H = "H(?j := None, i := Some (Suc k, h))"
  have ij: "i < ?j" by simp
  {
    fix u l e assume "?H u = Some (l, e)"
    then consider "u = i" "l = Suc k" | "H u = Some (l, e)" "u \<noteq> i" "u \<noteq> ?j" by (auto split: if_splits)
    then show "l \<le> LOGMAX \<and> 2 ^ l dvd u \<and> u + 2 ^ l \<le> n"
      using tiledD(1-3) [OF assms(1)] tiledD(3) [OF assms(1,3)] assms(4,5) by cases auto
  next
    fix u l e v assume u: "?H u = Some (l, e)" "u < v" "v < u + 2 ^ l"
    then consider "u = i" "l = Suc k" | "H u = Some (l, e)" "u \<noteq> i" "u \<noteq> ?j" by (auto split: if_splits)
    then show "?H v = None"
    proof cases
      case 1
      then show ?thesis using u(2,3) tiledD(4) [OF assms(1,2), of v] tiledD(4) [OF assms(1,3), of v]
        by (cases "v < ?j"; cases "v = ?j") auto
    next
      case 2
      have "H v = None" by (rule tiledD(4) [OF assms(1) 2(1) u(2,3)])
      then show ?thesis using assms(2) by auto
    qed
  next
    fix a assume "a < n"
    then obtain u l e where u: "H u = Some (l, e)" "u \<le> a" "a < u + 2 ^ l" using assms(1) unfolding tiled_def by blast
    consider "u = i" "l = k" | "u = ?j" "l = k" | "u \<noteq> i" "u \<noteq> ?j"
      using u(1) assms(2,3) by (cases "u = i"; cases "u = ?j") simp_all
    then show "\<exists>u l e. ?H u = Some (l, e) \<and> u \<le> a \<and> a < u + 2 ^ l"
    proof cases
      case 3
      then show ?thesis using u by (intro exI [of _ u] exI [of _ l] exI [of _ e]) simp
    qed (use u in \<open>intro exI [of _ i] exI [of _ "Suc k"] exI [of _ h], simp\<close>)+
  }
qed

lemma tiled_extend:
  assumes "tiled n H" "2 ^ k dvd n" "k \<le> LOGMAX"
  shows "tiled (n + 2 ^ k) (H(n := Some (k, f)))"
proof (rule tiledI)
  have new: "H j = None" if "n \<le> j" for j
  proof (cases "H j")
    case (Some p)
    then obtain l e where "H j = Some (l, e)" by (cases p) auto
    from tiledD(3) [OF assms(1) this] have "j < n" by (metis add_leD1 add_lessD1 le_neq_implies_less le_add1 less_add_same_cancel1 not_less order_less_le_trans zero_less_numeral zero_less_power)
    then show ?thesis using that by simp
  qed
  {
    fix u l e assume "(H(n := Some (k, f))) u = Some (l, e)"
    then consider "u = n" "l = k" | "H u = Some (l, e)" by (auto split: if_splits)
    then show "l \<le> LOGMAX \<and> 2 ^ l dvd u \<and> u + 2 ^ l \<le> n + 2 ^ k"
      using tiledD(1-3) [OF assms(1)] assms(2,3) by cases (auto intro: trans_le_add1)
  next
    fix u l e v assume u: "(H(n := Some (k, f))) u = Some (l, e)" "u < v" "v < u + 2 ^ l"
    show "(H(n := Some (k, f))) v = None"
    proof (cases "u = n")
      case False
      then have h: "H u = Some (l, e)" using u(1) by simp
      have "H v = None" "v < n" using tiledD(4) [OF assms(1) h u(2,3)] tiledD(3) [OF assms(1) h] u(3) by simp_all
      then show ?thesis by simp
    qed (use new u in simp)
  next
    fix a assume a: "a < n + 2 ^ k"
    show "\<exists>u l e. (H(n := Some (k, f))) u = Some (l, e) \<and> u \<le> a \<and> a < u + 2 ^ l"
    proof (cases "a < n")
      case True
      then obtain u l e where u: "H u = Some (l, e)" "u \<le> a" "a < u + 2 ^ l" using assms(1) unfolding tiled_def by blast
      then show ?thesis using True by (intro exI [of _ u] exI [of _ l] exI [of _ e]) simp
    qed (use a in \<open>intro exI [of _ n] exI [of _ k] exI [of _ f], simp\<close>)
  }
qed

section \<open>The invariant\<close>

text \<open>No two free buddies: what merging keeps up.\<close>

definition coalesced :: "blocks \<Rightarrow> bool" where
  "coalesced H \<longleftrightarrow> (\<forall>i k. H i = Some (k, True) \<longrightarrow> k < LOGMAX \<longrightarrow> H (buddy i k) \<noteq> Some (k, True))"

lemma buddy_low: "2 ^ Suc k dvd i \<Longrightarrow> buddy (i + 2 ^ k) k = i"
proof -
  assume "2 ^ Suc k dvd i"
  then obtain r where "i = 2 ^ k * (2 * r)" by (auto elim: dvdE)
  moreover have "2 ^ k * (2 * r) + 2 ^ k = 2 ^ k * (2 * r + 1)" by (simp add: algebra_simps)
  ultimately show ?thesis by (simp add: buddy_def)
qed

lemma buddy_high: "2 ^ Suc k dvd i \<Longrightarrow> buddy i k = i + 2 ^ k"
  by (auto simp: buddy_def elim: dvdE)

lemma buddy_buddy: "2 ^ k dvd i \<Longrightarrow> buddy (buddy i k) k = i"
proof -
  assume a: "2 ^ k dvd i"
  show ?thesis using a
  proof (rule buddy_cases)
    fix r assume "i = 2 ^ Suc k * r" "buddy i k = i + 2 ^ k"
    then show ?thesis using buddy_low [of k i] by simp
  next
    fix r assume r: "buddy i k = 2 ^ Suc k * r" "i = buddy i k + 2 ^ k"
    have "2 ^ Suc k dvd buddy i k" unfolding r(1) by simp
    then show ?thesis using buddy_high [of k "buddy i k"] r(2) by simp
  qed
qed

lemma coalesced_mono: "coalesced H \<Longrightarrow> (\<And>i k. H' i = Some (k, True) \<Longrightarrow> H i = Some (k, True)) \<Longrightarrow> coalesced H'"
  unfolding coalesced_def by blast

lemma coalesced_add:
  assumes "coalesced H" "\<And>u. H u = Some (k, True) \<Longrightarrow> 2 ^ k dvd u" "2 ^ k dvd j" "k < LOGMAX \<Longrightarrow> H (buddy j k) \<noteq> Some (k, True)"
  shows "coalesced (H(j := Some (k, True)))"
  unfolding coalesced_def
proof (intro allI impI)
  fix i l assume a: "(H(j := Some (k, True))) i = Some (l, True)" "l < LOGMAX"
  have bj: "buddy j k \<noteq> j" using assms(3) by (rule buddy_cases) auto
  show "(H(j := Some (k, True))) (buddy i l) \<noteq> Some (l, True)"
  proof (cases "i = j")
    case True
    then have "l = k" using a(1) by simp
    then show ?thesis using True bj assms(4) a(2) by simp
  next
    case False
    then have h: "H i = Some (l, True)" using a(1) by simp
    have "\<not> (buddy i l = j \<and> l = k)" using buddy_buddy [of k i] assms(2) [of i] assms(4) a(2) h by auto
    then show ?thesis using h a(2) assms(1) by (auto simp: coalesced_def)
  qed
qed

definition all_free :: "blocks \<Rightarrow> nat \<Rightarrow> nat \<Rightarrow> bool" where
  "all_free H a l \<longleftrightarrow> (\<forall>b. a \<le> b \<and> b < a + 2 ^ l \<longrightarrow> (\<exists>i k. H i = Some (k, True) \<and> i \<le> b \<and> b < i + 2 ^ k))"

lemma dvd_below: "(d :: nat) dvd a \<Longrightarrow> d dvd i \<Longrightarrow> i < a + d \<Longrightarrow> i \<le> a"
proof (rule ccontr)
  assume d: "d dvd a" "d dvd i" "i < a + d" and "\<not> i \<le> a"
  then have "d dvd i - a" "0 < i - a" "i - a < d" by (simp_all add: dvd_diff_nat)
  then show False using dvd_imp_le by fastforce
qed

lemma tiled_atom: "tiled n H \<Longrightarrow> H i = Some (k, f) \<Longrightarrow> H j = Some (l, g) \<Longrightarrow>
    i \<le> a \<Longrightarrow> a < i + 2 ^ k \<Longrightarrow> j \<le> a \<Longrightarrow> a < j + 2 ^ l \<Longrightarrow> i = j"
  using tiled_apart by fastforce

text \<open>In a coalesced pool, a free aligned run of atoms lies in a free block.\<close>

lemma all_free_block:
  assumes "tiled n H" "coalesced H" "all_free H a l" "2 ^ l dvd a" "l \<le> LOGMAX"
  shows "\<exists>i k. H i = Some (k, True) \<and> l \<le> k \<and> i \<le> a \<and> a + 2 ^ l \<le> i + 2 ^ k"
  using assms(3-5)
proof (induction l arbitrary: a)
  case 0
  then obtain i k where "H i = Some (k, True)" "i \<le> a" "a < i + 2 ^ k" unfolding all_free_def by (metis le_refl less_add_one power_0)
  then show ?case by (intro exI [of _ i] exI [of _ k]) simp
next
  case (Suc l)
  have half: "all_free H a l" "all_free H (a + 2 ^ l) l" using Suc.prems(1) unfolding all_free_def by auto
  have d: "2 ^ l dvd a" using Suc.prems(2) by (rule dvd_trans [rotated]) (simp add: le_imp_power_dvd)
  obtain i k where i: "H i = Some (k, True)" "l \<le> k" "i \<le> a" "a + 2 ^ l \<le> i + 2 ^ k"
    using Suc.IH [OF half(1) d] Suc.prems(3) by auto
  obtain j m where j: "H j = Some (m, True)" "l \<le> m" "j \<le> a + 2 ^ l" "a + 2 ^ l + 2 ^ l \<le> j + 2 ^ m"
    using Suc.IH [OF half(2)] d Suc.prems(3) by auto
  note ti = tiledD(2,3) [OF assms(1) i(1)] and tj = tiledD(2,3) [OF assms(1) j(1)]
  have big: ?case if h: "H u = Some (q, True)" "Suc l \<le> q" "u \<le> a + 2 ^ l" "a + 2 ^ l \<le> u + 2 ^ q" "2 ^ q dvd u" "u \<le> a \<or> a + 2 ^ Suc l \<le> u + 2 ^ q" for u q
  proof -
    have p: "(2::nat) ^ Suc l dvd 2 ^ q" by (rule le_imp_power_dvd [OF h(2)])
    then have du: "2 ^ Suc l dvd u" using h(5) dvd_trans by blast
    have "0 < (2::nat) ^ l" "(2::nat) ^ Suc l = 2 ^ l + 2 ^ l" by simp_all
    then have "u < a + 2 ^ Suc l" using h(3) by linarith
    then have ua: "u \<le> a" by (rule dvd_below [OF Suc.prems(2) du])
    have "a + 2 ^ Suc l \<le> u + 2 ^ q"
    proof -
      have "2 ^ Suc l dvd u + 2 ^ q" using du p by simp
      moreover have "0 < (2::nat) ^ l" by simp
      then have "a < u + 2 ^ q" using h(4) by linarith
      ultimately show ?thesis using dvd_below [of "2 ^ Suc l" "u + 2 ^ q" "a"] dvd_below [of "2 ^ Suc l" a "u + 2 ^ q"] Suc.prems(2)
        by (meson leD not_le)
    qed
    then show ?thesis using h(1,2) ua by blast
  qed
  show ?case
  proof (cases "k = l \<and> m = l")
    case False
    then show ?thesis using big [OF i(1)] big [OF j(1)] i j ti tj by fastforce
  next
    case True
    have "i = a" using dvd_below [of "2 ^ l" i a] i True d ti by auto
    moreover have "j = a + 2 ^ l" using dvd_below [of "2 ^ l" j "a + 2 ^ l"] j True d tj by auto
    ultimately have "H a = Some (l, True)" "H (buddy a l) = Some (l, True)" "l < LOGMAX"
      using i(1) j(1) True buddy_high [OF Suc.prems(2)] Suc.prems(3) by simp_all
    then show ?thesis using assms(2) unfolding coalesced_def by blast
  qed
qed

definition ctrl :: "nat \<Rightarrow> bool \<Rightarrow> u8" where
  "ctrl k f = (if f then CTRL_FREE OR word_of_nat k else word_of_nat k)"

text \<open>
  \<open>minv m n H F X\<close>: the first \<open>n\<close> atoms are tiled by the blocks \<open>H\<close>, the control bytes tell
  them except for those in \<open>X\<close>, and the list of each size holds its free blocks, \<open>F\<close>.
\<close>

definition minv :: "mem5 \<Rightarrow> nat \<Rightarrow> blocks \<Rightarrow> (nat \<Rightarrow> nat list) \<Rightarrow> nat set \<Rightarrow> bool" where
  "minv m n H F X \<longleftrightarrow> 8 \<le> nAtom m \<and> nBlock m < 2 ^ 31 \<and> n \<le> nBlock m \<and>
     length (aiFreelist m) = LOGMAX + 1 \<and> length (aCtrl m) = nBlock m \<and> tiled n H \<and>
     (\<forall>i k f. H i = Some (k, f) \<longrightarrow> i \<notin> X \<longrightarrow> aCtrl m ! i = ctrl k f) \<and>
     (\<forall>k \<le> LOGMAX. distinct (F k) \<and> set (F k) = {i. H i = Some (k, True)} \<and> chain m k (F k))"

definition free_atoms :: "blocks \<Rightarrow> nat set" where
  "free_atoms H = {a. \<exists>i k. H i = Some (k, True) \<and> i \<le> a \<and> a < i + 2 ^ k}"

definition alloc :: "blocks \<Rightarrow> (nat \<times> nat) set" where
  "alloc H = {(i, k). H i = Some (k, False)}"

lemma ctrl_fields: "k \<le> LOGMAX \<Longrightarrow> unat (ctrl k f AND CTRL_LOGSIZE) = k"
  "k \<le> LOGMAX \<Longrightarrow> l \<le> LOGMAX \<Longrightarrow> ctrl k f = ctrl l g \<longleftrightarrow> k = l \<and> f = g"
proof -
  have small: "(word_of_nat k :: u8) AND CTRL_LOGSIZE = word_of_nat k \<and> (CTRL_FREE OR word_of_nat k) AND CTRL_LOGSIZE = word_of_nat k \<and>
      unat (word_of_nat k :: u8) = k \<and> unat (CTRL_FREE OR word_of_nat k :: u8) = 32 + k" if "k \<le> LOGMAX" for k
  proof -
    have "\<forall>k \<in> set [0..<31]. (word_of_nat k :: u8) AND CTRL_LOGSIZE = word_of_nat k \<and> (CTRL_FREE OR word_of_nat k) AND CTRL_LOGSIZE = word_of_nat k \<and>
      unat (word_of_nat k :: u8) = k \<and> unat (CTRL_FREE OR word_of_nat k :: u8) = 32 + k" by code_simp
    then show ?thesis using that by (simp add: LOGMAX_def)
  qed
  show "unat (ctrl k f AND CTRL_LOGSIZE) = k" if "k \<le> LOGMAX" using small [OF that] by (simp add: ctrl_def)
  have u: "unat (ctrl k f) = (if f then 32 + k else k)" if "k \<le> LOGMAX" for k f using small [OF that] by (simp add: ctrl_def)
  show "ctrl k f = ctrl l g \<longleftrightarrow> k = l \<and> f = g" if "k \<le> LOGMAX" "l \<le> LOGMAX"
  proof
    assume "ctrl k f = ctrl l g"
    then have "(if f then 32 + k else k) = (if g then 32 + l else l)" using u that by metis
    then show "k = l \<and> f = g" using that by (auto simp: LOGMAX_def split: if_splits)
  qed simp
qed


lemma minvD:
  assumes "minv m n H F X"
  shows "8 \<le> nAtom m" "nBlock m < 2 ^ 31" "n \<le> nBlock m" "length (aiFreelist m) = LOGMAX + 1" "length (aCtrl m) = nBlock m"
    "tiled n H" "H i = Some (k, f) \<Longrightarrow> i \<notin> X \<Longrightarrow> aCtrl m ! i = ctrl k f"
    "k \<le> LOGMAX \<Longrightarrow> distinct (F k) \<and> set (F k) = {i. H i = Some (k, True)} \<and> chain m k (F k)"
  using assms unfolding minv_def by blast+

lemma minvI:
  assumes "8 \<le> nAtom m" "nBlock m < 2 ^ 31" "n \<le> nBlock m" "length (aiFreelist m) = LOGMAX + 1" "length (aCtrl m) = nBlock m"
    "tiled n H" "\<And>i k f. H i = Some (k, f) \<Longrightarrow> i \<notin> X \<Longrightarrow> aCtrl m ! i = ctrl k f"
    "\<And>k. k \<le> LOGMAX \<Longrightarrow> distinct (F k) \<and> set (F k) = {i. H i = Some (k, True)} \<and> chain m k (F k)"
  shows "minv m n H F X"
  using assms unfolding minv_def by blast

lemma confined_ctrl [simp]: "confined (m\<lparr>aCtrl := c\<rparr>) m' A = confined m m' A" "confined m (m'\<lparr>aCtrl := c\<rparr>) A = confined m m' A"
  by (simp_all add: confined_def)

lemma int32_nat: "j < n \<Longrightarrow> n < 2 ^ 31 \<Longrightarrow> int32 (int j)"
  by (simp add: int32_def)

lemma block_small: "minv m n H F X \<Longrightarrow> H i = Some (k, f) \<Longrightarrow> i < nBlock m \<and> int32 (int i)"
proof -
  assume a: "minv m n H F X" "H i = Some (k, f)"
  have "i + 2 ^ k \<le> n" by (rule tiledD(3) [OF minvD(6) [OF a(1)] a(2)])
  moreover have "0 < (2::nat) ^ k" by simp
  ultimately have "i < nBlock m" using minvD(3) [OF a(1)] by linarith
  then show ?thesis using minvD(2) [OF a(1)] by (simp add: int32_def)
qed

lemma list_small: "minv m n H F X \<Longrightarrow> k \<le> LOGMAX \<Longrightarrow> \<forall>x \<in> set (F k). int32 (int x)"
  using minvD(8) block_small by blast

lemma minv_touched:
  assumes "minv m n H F X" "touches m m' k A" "k \<le> LOGMAX" "tiled n' H'" "n' \<le> nBlock m"
    "distinct xs" "set xs = {i. H' i = Some (k, True)}" "chain m' k xs"
    "\<And>i l. l \<noteq> k \<Longrightarrow> H' i = Some (l, True) \<longleftrightarrow> H i = Some (l, True)"
    "\<And>i l. l \<noteq> k \<Longrightarrow> H i = Some (l, True) \<Longrightarrow> i \<notin> A"
    "\<And>i l f. H' i = Some (l, f) \<Longrightarrow> i \<notin> Y \<Longrightarrow> aCtrl m ! i = ctrl l f"
  shows "minv m' n' H' (F(k := xs)) Y"
proof (rule minvI)
  show "8 \<le> nAtom m'" "nBlock m' < 2 ^ 31" "n' \<le> nBlock m'" "length (aiFreelist m') = LOGMAX + 1" "length (aCtrl m') = nBlock m'" "tiled n' H'"
    using minvD(1,2,4,5) [OF assms(1)] assms(2,4,5) by (simp_all add: touches_def confined_def)
  show "aCtrl m' ! i = ctrl l f" if "H' i = Some (l, f)" "i \<notin> Y" for i l f
    using assms(11) that assms(2) by (simp add: touches_def)
  fix l assume l: "l \<le> LOGMAX"
  show "distinct ((F(k := xs)) l) \<and> set ((F(k := xs)) l) = {i. H' i = Some (l, True)} \<and> chain m' l ((F(k := xs)) l)"
  proof (cases "l = k")
    case False
    note f = minvD(8) [OF assms(1) l]
    have "chain m' l (F l)"
      by (rule chain_cong [of _ _ m]) (use f assms(2) assms(10) False in \<open>auto simp: touches_def\<close>)
    then show ?thesis using f False assms(9) by simp
  qed (use assms(6-8) in simp)
qed

lemma minv_unlink:
  assumes "minv m n H F X" "H i = Some (k, True)" "i \<in> X \<or> Y = insert i X" "X \<subseteq> Y"
  shows "\<exists>xs. minv (memsys5Unlink m i k) n (H(i := Some (k, False))) (F(k := xs)) Y"
    "touches m (memsys5Unlink m i k) k (set (F k))"
proof -
  have k: "k \<le> LOGMAX" by (rule tiledD(1) [OF minvD(6) [OF assms(1)] assms(2)])
  note f = minvD(8) [OF assms(1) k]
  then obtain ys zs where yz: "F k = ys @ i # zs" using assms(2) by (metis (mono_tags) mem_Collect_eq split_list)
  have d: "distinct (ys @ i # zs)" "chain m k (ys @ i # zs)" "set (ys @ i # zs) = {i. H i = Some (k, True)}" using f yz by simp_all
  have len: "k < length (aiFreelist m)" using k minvD(4) [OF assms(1)] by simp
  have small: "\<forall>x \<in> set (ys @ i # zs). int32 (int x)" using list_small [OF assms(1) k] yz by simp
  note u = unlink_ok [OF minvD(1) [OF assms(1)] d(2,1) small len]
  have "minv (memsys5Unlink m i k) n (H(i := Some (k, False))) (F(k := ys @ zs)) Y"
  proof (rule minv_touched [OF assms(1) u(2) k tiled_flag [OF minvD(6) [OF assms(1)] assms(2)] minvD(3) [OF assms(1)] _ _ u(1)])
    show "distinct (ys @ zs)" using d(1) by simp
    show "set (ys @ zs) = {j. (H(i := Some (k, False))) j = Some (k, True)}" using d(1,3) by auto
    fix j l assume l: "l \<noteq> k"
    show "(H(i := Some (k, False))) j = Some (l, True) \<longleftrightarrow> H j = Some (l, True)" using assms(2) l by auto
    show "j \<notin> set (ys @ zs)" if "H j = Some (l, True)"
    proof
      assume "j \<in> set (ys @ zs)"
      then have "j \<in> {i. H i = Some (k, True)}" unfolding d(3) [symmetric] by auto
      then show False using that l by simp
    qed
  next
    fix j l f assume "(H(i := Some (k, False))) j = Some (l, f)" "j \<notin> Y"
    then show "aCtrl m ! j = ctrl l f" using minvD(7) [OF assms(1), of j l f] assms(3,4) by (cases "j = i") auto
  qed
  then show "\<exists>xs. minv (memsys5Unlink m i k) n (H(i := Some (k, False))) (F(k := xs)) Y" by blast
  have "set (ys @ zs) \<subseteq> set (F k)" using yz by auto
  then show "touches m (memsys5Unlink m i k) k (set (F k))" using u(2) unfolding touches_def using confined_mono by blast
qed

lemma minv_link:
  assumes "minv m n H F X" "H i = None \<or> H i = Some (k, False)" "tiled n' (H(i := Some (k, True)))" "n' \<le> nBlock m" "k \<le> LOGMAX"
    "aCtrl m ! i = ctrl k True" "X \<subseteq> insert i Y"
  shows "minv (memsys5Link m i k) n' (H(i := Some (k, True))) (F(k := i # F k)) Y"
    "touches m (memsys5Link m i k) k (insert i (set (F k)))"
proof -
  note f = minvD(8) [OF assms(1,5)]
  have i: "i \<notin> set (F k)" using f assms(2) by auto
  have len: "k < length (aiFreelist m)" using assms(5) minvD(4) [OF assms(1)] by simp
  have "i + 2 ^ k \<le> n'" by (rule tiledD(3) [OF assms(3)]) simp
  moreover have "0 < (2::nat) ^ k" by simp
  ultimately have "i < nBlock m" using assms(4) by linarith
  then have i32: "int32 (int i)" using minvD(2) [OF assms(1)] by (simp add: int32_def)
  note u = link_ok [OF minvD(1) [OF assms(1)] _ i i32 list_small [OF assms(1,5)] len]
  have ch: "chain m k (F k)" using f by simp
  show t: "touches m (memsys5Link m i k) k (insert i (set (F k)))" by (rule u(2) [OF ch])
  show "minv (memsys5Link m i k) n' (H(i := Some (k, True))) (F(k := i # F k)) Y"
  proof (rule minv_touched [OF assms(1) t assms(5,3,4) _ _ u(1) [OF ch]])
    show "distinct (i # F k)" using f i by simp
    show "set (i # F k) = {j. (H(i := Some (k, True))) j = Some (k, True)}" using f by auto
    fix j l assume l: "l \<noteq> k"
    show "(H(i := Some (k, True))) j = Some (l, True) \<longleftrightarrow> H j = Some (l, True)" using assms(2) l by auto
    show "j \<notin> insert i (set (F k))" if "H j = Some (l, True)" using that l f assms(2) by auto
  next
    fix j l g assume "(H(i := Some (k, True))) j = Some (l, g)" "j \<notin> Y"
    then show "aCtrl m ! j = ctrl l g" using minvD(7) [OF assms(1), of j l g] assms(6,7) by (cases "j = i") auto
  qed
qed

lemma list_in_free: "minv m n H F X \<Longrightarrow> k \<le> LOGMAX \<Longrightarrow> set (F k) \<subseteq> free_atoms H"
  using minvD(8) by (fastforce simp: free_atoms_def)

text \<open>Setting a control byte of an atom that is exempt, or where no block starts.\<close>

lemma minv_ctrl:
  assumes "minv m n H F X" "H i = None \<or> i \<in> X"
  shows "minv (m\<lparr>aCtrl := (aCtrl m)[i := c]\<rparr>) n H F X"
proof (rule minvI)
  show "aCtrl (m\<lparr>aCtrl := (aCtrl m)[i := c]\<rparr>) ! j = ctrl k f" if "H j = Some (k, f)" "j \<notin> X" for j k f
    using minvD(7) [OF assms(1) that] that assms(2) by (cases "i = j") auto
  show "distinct (F k) \<and> set (F k) = {i. H i = Some (k, True)} \<and> chain (m\<lparr>aCtrl := (aCtrl m)[i := c]\<rparr>) k (F k)" if "k \<le> LOGMAX" for k
    using minvD(8) [OF assms(1) that] chain_cong [of "F k" "m\<lparr>aCtrl := (aCtrl m)[i := c]\<rparr>" m k] by simp
qed (use minvD(1-6) [OF assms(1)] in simp_all)

lemma block_in: "H i = Some (k, True) \<Longrightarrow> {i..<i + 2 ^ k} \<subseteq> free_atoms H"
  unfolding free_atoms_def by (rule subsetI) (simp, blast)

lemma split_loop_ok:
  assumes "minv m n H F {i}" "H i = Some (b, False)" "l \<le> b" "free_atoms H \<subseteq> A" "{i..<i + 2 ^ b} \<subseteq> A"
  shows "\<exists>H' F'. minv (split_loop m i b l) n H' F' {i} \<and> H' i = Some (l, False) \<and>
    alloc H' - {(i, l)} = alloc H - {(i, b)} \<and> confined m (split_loop m i b l) A \<and> (coalesced H \<longrightarrow> coalesced H')"
  using assms
proof (induction m i b l arbitrary: H F rule: split_loop.induct)
  case (1 m i l)
  then show ?case using confined_refl by auto
next
  case (2 m i b l)
  show ?case
  proof (cases "l < Suc b")
    case False
    then have "l = Suc b" using "2.prems"(3) by simp
    then show ?thesis using "2.prems" confined_refl by auto
  next
    case True
    let ?j = "i + 2 ^ b"
    let ?c = "CTRL_FREE OR word_of_nat b"
    have cc: "ctrl b True = ?c" by (simp add: ctrl_def)
    let ?m = "m\<lparr>aCtrl := (aCtrl m)[?j := ?c]\<rparr>"
    let ?H1 = "H(i := Some (b, False))"
    let ?H = "?H1(?j := Some (b, True))"
    have t: "tiled n H" by (rule minvD(6) [OF "2.prems"(1)])
    have bk: "b \<le> LOGMAX" using tiledD(1) [OF t "2.prems"(2)] by simp
    have jN: "H ?j = None" by (rule tiledD(4) [OF t "2.prems"(2)]) simp_all
    have "(2::nat) ^ Suc b = 2 ^ b + 2 ^ b" "0 < (2::nat) ^ b" by simp_all
    then have jn: "?j < nBlock m" using tiledD(3) [OF t "2.prems"(2)] minvD(3) [OF "2.prems"(1)] by linarith
    have m1: "minv ?m n H F {i}" by (rule minv_ctrl [OF "2.prems"(1)]) (simp add: jN)
    have tH: "tiled n (H(i := Some (b, False), ?j := Some (b, True)))" by (rule tiled_split [OF t "2.prems"(2)])
    have c: "aCtrl ?m ! ?j = ?c" using jn minvD(5) [OF "2.prems"(1)] by simp
    \<comment> \<open>the list of the new half, and then the smaller size of the block\<close>
    note ll = minvD(8) [OF m1 bk]
    have jF: "?j \<notin> set (F b)" using ll jN by simp
    have i32: "int32 (int ?j)" by (rule int32_nat [OF jn minvD(2) [OF "2.prems"(1)]])
    have len: "b < length (aiFreelist ?m)" using bk minvD(4) [OF m1] by simp
    note lk = link_ok [OF minvD(1) [OF m1] conjunct2 [OF conjunct2 [OF ll]] jF i32 list_small [OF m1 bk] len]
    have m2: "minv (memsys5Link ?m ?j b) n ?H (F(b := ?j # F b)) {i}"
    proof (rule minv_touched [OF m1 lk(2) bk tH _ _ _ lk(1)])
      show "n \<le> nBlock ?m" using minvD(3) [OF m1] .
      show "distinct (?j # F b)" using ll jF by simp
      show "set (?j # F b) = {u. ?H u = Some (b, True)}" using ll "2.prems"(2) by auto
      fix u k assume k: "k \<noteq> b"
      show "?H u = Some (k, True) \<longleftrightarrow> H u = Some (k, True)" using "2.prems"(2) jN k by auto
      show "u \<notin> insert ?j (set (F b))" if "H u = Some (k, True)" using that k ll jN by auto
    next
      fix u k f assume "?H u = Some (k, f)" "u \<notin> {i}"
      then show "aCtrl ?m ! u = ctrl k f" using minvD(7) [OF m1, of u k f] c cc by (cases "u = ?j") auto
    qed
    have blk: "{i..<i + 2 ^ b} \<subseteq> A" "{?j..<?j + 2 ^ b} \<subseteq> A" using "2.prems"(5) by auto
    have fr: "free_atoms ?H \<subseteq> A"
    proof
      fix a assume "a \<in> free_atoms ?H"
      then obtain u k where u: "?H u = Some (k, True)" "u \<le> a" "a < u + 2 ^ k" by (auto simp: free_atoms_def)
      show "a \<in> A"
      proof (cases "u = ?j")
        case True
        then show ?thesis using u blk(2) by auto
      next
        case False
        then have "H u = Some (k, True)" using u(1) "2.prems"(2) by (cases "u = i") auto
        then show ?thesis using u(2,3) "2.prems"(4) by (auto simp: free_atoms_def)
      qed
    qed
    have cf: "confined m (memsys5Link ?m ?j b) A"
    proof -
      have "?j \<in> A" using blk(2) by auto
      then have "insert ?j (set (F b)) \<subseteq> A" using list_in_free [OF m1 bk] "2.prems"(4) by blast
      moreover have "confined ?m (memsys5Link ?m ?j b) (insert ?j (set (F b)))" using lk(2) by (simp add: touches_def)
      ultimately show ?thesis using confined_mono [of ?m _ _ A] by simp
    qed
    have Hi: "?H i = Some (b, False)" by simp
    obtain H' F' where r: "minv (split_loop (memsys5Link ?m ?j b) i b l) n H' F' {i}" "H' i = Some (l, False)"
      "alloc H' - {(i, l)} = alloc ?H - {(i, b)}" "confined (memsys5Link ?m ?j b) (split_loop (memsys5Link ?m ?j b) i b l) A"
      "coalesced ?H \<longrightarrow> coalesced H'"
      using "2.IH" [OF True refl refl m2 Hi _ fr blk(1)] True by (auto simp only: less_Suc_eq_le)
    have "alloc ?H - {(i, b)} = alloc H - {(i, Suc b)}" using "2.prems"(2) jN by (auto simp: alloc_def split: if_splits)
    then have "alloc H' - {(i, l)} = alloc H - {(i, Suc b)}" using r(3) by simp
    moreover have "split_loop m i (Suc b) l = split_loop (memsys5Link ?m ?j b) i b l"
      using True by (simp add: Let_def)
    moreover have "coalesced ?H" if "coalesced H"
    proof (rule coalesced_add)
      show "coalesced ?H1" by (rule coalesced_mono [OF that]) (auto split: if_splits)
      show "2 ^ b dvd u" if "?H1 u = Some (b, True)" for u using that tiledD(2) [OF t] by (auto split: if_splits)
      have d: "2 ^ Suc b dvd i" by (rule tiledD(2) [OF t "2.prems"(2)])
      then have "2 ^ b dvd i" by (rule dvd_trans [rotated]) (simp add: le_imp_power_dvd)
      then show "2 ^ b dvd ?j" by simp
      show "?H1 (buddy ?j b) \<noteq> Some (b, True)" using buddy_low [OF d] by simp
    qed
    ultimately show ?thesis using r(1,2,5) confined_trans [OF cf r(4)] by auto
  qed
qed


definition same :: "mem5 \<Rightarrow> mem5 \<Rightarrow> bool" where
  "same m m' \<longleftrightarrow> nAtom m' = nAtom m \<and> nBlock m' = nBlock m \<and> zPool m' = zPool m \<and> aiFreelist m' = aiFreelist m \<and> aCtrl m' = aCtrl m"

lemma malloc_stats_same: "same m (malloc_stats m n f)"
  by (simp add: same_def malloc_stats_def Let_def)

lemma minv_same: "same m m' \<Longrightarrow> minv m n H F X \<Longrightarrow> minv m' n H F X"
proof -
  assume s: "same m m'" and i: "minv m n H F X"
  have l: "link_next m' x = link_next m x" "link_prev m' x = link_prev m x" for x
    using s by (simp_all add: same_def link_next_def link_prev_def)
  have "chain m' k xs = chain m k xs" for k xs
    using s chain_cong [of xs m m' k] chain_cong [of xs m' m k] l by (auto simp: same_def)
  then show ?thesis using i s by (simp add: minv_def same_def)
qed

lemma first_loop_ok: "links m pv p xs \<Longrightarrow> \<exists>r. first_loop m p f = Some r \<and> (r = f \<or> r \<in> int ` set xs)"
proof (induction xs arbitrary: pv p f)
  case Nil
  then show ?case by (subst first_loop.simps) simp
next
  case (Cons x xs)
  then have p: "p = int x" "links m (int x) (link_next m x) xs" by simp_all
  show ?case
  proof (cases "0 < x")
    case True
    obtain r where r: "first_loop m (link_next m x) (if p < f then p else f) = Some r"
      "r = (if p < f then p else f) \<or> r \<in> int ` set xs" using Cons.IH [OF p(2)] by blast
    have "first_loop m p f = Some r" using r(1) True p(1) by (subst first_loop.simps) simp
    then show ?thesis using r(2) p(1) by (auto split: if_splits)
  next
    case False
    then show ?thesis using p(1) by (subst first_loop.simps) simp
  qed
qed

lemma unlink_first_ok:
  assumes "minv m n H F X" "k \<le> LOGMAX" "F k \<noteq> []"
  shows "\<exists>i. memsys5UnlinkFirst m k = Some (i, memsys5Unlink m i k) \<and> H i = Some (k, True)"
proof -
  note f = minvD(8) [OF assms(1,2)]
  let ?p = "aiFreelist m ! k"
  obtain r where r: "first_loop m ?p ?p = Some r" "r = ?p \<or> r \<in> int ` set (F k)"
    using first_loop_ok f unfolding chain_def by blast
  have "?p = int (hd (F k))" using f assms(3) links_head [of m "- 1" ?p "F k"] by (simp add: chain_def head_of_def)
  then have "r \<in> int ` set (F k)" using r(2) assms(3) by auto
  then obtain x where x: "r = int x" "x \<in> set (F k)" by blast
  have "set (F k) = {i. H i = Some (k, True)}" using f by blast
  then have "H (nat r) = Some (k, True)" using x by simp
  then show ?thesis using r(1) by (simp add: memsys5UnlinkFirst_def)
qed

lemma bin_loop_ok:
  "b \<le> bin_loop fl b" "bin_loop fl b \<le> LOGMAX \<Longrightarrow> 0 \<le> fl ! bin_loop fl b" "b \<le> j \<Longrightarrow> j < bin_loop fl b \<Longrightarrow> fl ! j < 0"
proof (induction fl b rule: bin_loop.induct)
  case (1 fl b)
  {
    case 1
    then show ?case using "1.IH"(1) by (subst bin_loop.simps) auto
  next
    case 2
    show ?case
    proof (cases "b \<le> LOGMAX \<and> fl ! b < 0")
      case True
      then have "bin_loop fl b = bin_loop fl (b + 1)" by (subst bin_loop.simps) simp
      then show ?thesis using "1.IH"(2) True 2 by simp
    next
      case False
      then have "bin_loop fl b = b" by (subst bin_loop.simps) auto
      then show ?thesis using False 2 by auto
    qed
  next
    case 3
    show ?case
    proof (cases "b \<le> LOGMAX \<and> fl ! b < 0")
      case True
      then have "bin_loop fl b = bin_loop fl (b + 1)" by (subst bin_loop.simps) simp
      then show ?thesis using "1.IH"(3) True 3 by (cases "j = b") auto
    next
      case False
      then have "bin_loop fl b = b" by (subst bin_loop.simps) auto
      then show ?thesis using 3 by simp
    qed
  }
qed

lemma round_loop_ok:
  assumes "n \<le> 2 ^ 30" "e \<le> 30"
  shows "\<exists>j. round_loop (2 ^ e) l n = Some (2 ^ (e + j), l + j) \<and> n \<le> 2 ^ (e + j) \<and> e + j \<le> 30 \<and> (j = 0 \<or> 2 ^ (e + j - 1) < n)"
  using assms(2)
proof (induction "30 - e" arbitrary: e l)
  case 0
  then have "e = 30" by simp
  then show ?case using assms(1) by (intro exI [of _ 0], subst round_loop.simps) simp
next
  case (Suc d)
  show ?case
  proof (cases "2 ^ e < n")
    case False
    then show ?thesis using Suc by (intro exI [of _ 0], subst round_loop.simps) simp
  next
    case True
    have e: "d = 30 - Suc e" "Suc e \<le> 30" using Suc.hyps(2) by simp_all
    have "(2::nat) ^ Suc e \<le> 2 ^ 30" using e(2) by (intro power_increasing) simp_all
    then have no: "\<not> 2 ^ 31 \<le> 2 ^ e * (2::nat)" by simp
    obtain j where j: "round_loop (2 ^ Suc e) (Suc l) n = Some (2 ^ (Suc e + j), Suc l + j)" "n \<le> 2 ^ (Suc e + j)" "Suc e + j \<le> 30"
      "j = 0 \<or> 2 ^ (Suc e + j - 1) < n" using Suc.hyps(1) [OF e, of "Suc l"] by blast
    have "round_loop (2 ^ e) l n = round_loop (2 ^ Suc e) (Suc l) n" using True no by (subst round_loop.simps) (simp add: mult.commute)
    then show ?thesis using j True by (intro exI [of _ "Suc j"]) auto
  qed
qed

lemma round_loop_overflow:
  assumes "2 ^ 30 < n" "e \<le> 30"
  shows "round_loop (2 ^ e) l n = None"
  using assms(2)
proof (induction "30 - e" arbitrary: e l)
  case 0
  then have "e = 30" by simp
  then show ?case using assms(1) by (subst round_loop.simps) simp
next
  case (Suc d)
  have e: "d = 30 - Suc e" "Suc e \<le> 30" using Suc.hyps(2) by simp_all
  have "(2::nat) ^ e \<le> 2 ^ 30" "(2::nat) ^ Suc e \<le> 2 ^ 30" using Suc.prems e(2) by (intro power_increasing; simp)+
  then have "2 ^ e < n" "\<not> 2 ^ 31 \<le> 2 ^ e * (2::nat)" using assms(1) by simp_all
  then show ?case using Suc.hyps(1) [OF e, of "Suc l"] by (subst round_loop.simps) (simp add: mult.commute)
qed

text \<open>Atoms are a power of two of bytes, between the size of a link and the largest request.\<close>

definition pow_atom :: "mem5 \<Rightarrow> bool" where
  "pow_atom m \<longleftrightarrow> (\<exists>e. 3 \<le> e \<and> e \<le> 30 \<and> nAtom m = 2 ^ e)"

text \<open>A new allocation of \<open>nByte\<close> bytes at the block \<open>i\<close>, and what it leaves alone.\<close>

definition malloc_result :: "mem5 \<Rightarrow> blocks \<Rightarrow> (nat \<Rightarrow> nat list) \<Rightarrow> nat \<Rightarrow> nat option \<times> mem5 \<Rightarrow> bool" where
  "malloc_result m H F nByte r = (case r of
     (None, m') \<Rightarrow> minv m' (nBlock m) H F {} \<and> confined m m' {} \<and> (\<forall>i k. H i = Some (k, True) \<longrightarrow> nAtom m * 2 ^ k < nByte)
   | (Some p, m') \<Rightarrow> \<exists>H' F' i l. p = i * nAtom m \<and> minv m' (nBlock m) H' F' {} \<and> H' i = Some (l, False) \<and>
       (\<forall>k. (i, k) \<notin> alloc H) \<and> alloc H' = insert (i, l) (alloc H) \<and> nByte \<le> nAtom m * 2 ^ l \<and>
       {i..<i + 2 ^ l} \<subseteq> free_atoms H \<and> confined m m' (free_atoms H) \<and> (coalesced H \<longrightarrow> coalesced H'))"

lemma MallocUnsafe_ok:
  assumes "minv m (nBlock m) H F {}" "pow_atom m" "0 < nByte" "nByte \<le> 2 ^ 30"
  shows "\<exists>r. memsys5MallocUnsafe m nByte = Some r \<and> malloc_result m H F nByte r"
proof -
  obtain e where e: "3 \<le> e" "e \<le> 30" "nAtom m = 2 ^ e" using assms(2) by (auto simp: pow_atom_def)
  obtain l where l: "round_loop (2 ^ e) 0 nByte = Some (2 ^ (e + l), l)" "nByte \<le> 2 ^ (e + l)" "e + l \<le> 30"
    "l = 0 \<or> 2 ^ (e + l - 1) < nByte" using round_loop_ok [OF assms(4) e(2), of 0] by auto
  define m0 where "m0 = (if maxRequest m < word_of_nat nByte then m\<lparr>maxRequest := word_of_nat nByte\<rparr> else m)"
  have s0: "same m m0" by (simp add: m0_def same_def)
  have i0: "minv m0 (nBlock m) H F {}" by (rule minv_same [OF s0 assms(1)])
  have f0: "nAtom m0 = nAtom m" "nBlock m0 = nBlock m" "confined m m0 {}" using s0 by (simp_all add: same_def confined_def)
  define b where "b = bin_loop (aiFreelist m0) l"
  note bin = bin_loop_ok [where b = l and fl = "aiFreelist m0", folded b_def]
  have empty: "F k = [] \<longleftrightarrow> aiFreelist m0 ! k < 0" if "k \<le> LOGMAX" for k
    using minvD(8) [OF i0 that] links_head [of m0 "- 1" "aiFreelist m0 ! k" "F k"] by (auto simp: chain_def head_of_def)
  have ll: "l \<le> LOGMAX" using e(1) l(3) by (simp add: LOGMAX_def)
  show ?thesis
  proof (cases "LOGMAX < b")
    case True
    have "nAtom m * 2 ^ k < nByte" if h: "H i = Some (k, True)" for i k
    proof -
      have k: "k \<le> LOGMAX" by (rule tiledD(1) [OF minvD(6) [OF i0] h])
      have "F k \<noteq> []" using minvD(8) [OF i0 k] h by auto
      then have "\<not> (l \<le> k \<and> k < b)" using bin(3) [of k] empty [OF k] by auto
      then have "k < l" using True k by simp
      then have "(2::nat) ^ (e + k) \<le> 2 ^ (e + l - 1)" by (intro power_increasing) simp_all
      then show ?thesis using l(4) \<open>k < l\<close> e(3) by (simp add: power_add)
    qed
    moreover have "memsys5MallocUnsafe m nByte = Some (None, m0)"
      using True l(1) unfolding memsys5MallocUnsafe_def Let_def m0_def [symmetric] f0(1) e(3) b_def by simp
    ultimately show ?thesis using i0 f0(3) by (auto simp: malloc_result_def)
  next
    case False
    then have bk: "b \<le> LOGMAX" by simp
    then have "F b \<noteq> []" using empty bin(2) by simp
    then obtain i where i: "memsys5UnlinkFirst m0 b = Some (i, memsys5Unlink m0 i b)" "H i = Some (b, True)"
      using unlink_first_ok [OF i0 bk] by blast
    define m1 where "m1 = memsys5Unlink m0 i b"
    obtain xs where u: "minv m1 (nBlock m) (H(i := Some (b, False))) (F(b := xs)) {i}"
      and t: "touches m0 m1 b (set (F b))"
      using minv_unlink [OF i0 i(2), of "{i}"] by (auto simp: m1_def)
    let ?A = "free_atoms H"
    have c1: "confined m0 m1 ?A" using t list_in_free [OF i0 bk] confined_mono by (auto simp: touches_def)
    have blk: "{i..<i + 2 ^ b} \<subseteq> ?A" using i(2) by (rule block_in [of H i b])
    have fr: "free_atoms (H(i := Some (b, False))) \<subseteq> ?A" by (auto simp: free_atoms_def split: if_splits)
    have "(H(i := Some (b, False))) i = Some (b, False)" by simp
    from split_loop_ok [OF u this bin(1) fr blk] obtain H' F' where s: "minv (split_loop m1 i b l) (nBlock m) H' F' {i}" "H' i = Some (l, False)"
      "alloc H' - {(i, l)} = alloc (H(i := Some (b, False))) - {(i, b)}" "confined m1 (split_loop m1 i b l) ?A"
      "coalesced (H(i := Some (b, False))) \<longrightarrow> coalesced H'" by blast
    have "coalesced (H(i := Some (b, False)))" if "coalesced H"
      by (rule coalesced_mono [OF that]) (auto split: if_splits)
    then have co: "coalesced H \<longrightarrow> coalesced H'" using s(5) by blast
    define m2 where "m2 = split_loop m1 i b l"
    define m3 where "m3 = m2\<lparr>aCtrl := (aCtrl m2)[i := word_of_nat l]\<rparr>"
    have i3: "minv m3 (nBlock m) H' F' {}"
    proof (rule minvI)
      have "minv m3 (nBlock m) H' F' {i}" unfolding m3_def by (rule minv_ctrl) (use s in \<open>simp_all add: m2_def\<close>)
      note d = minvD [OF this]
      show "8 \<le> nAtom m3" "nBlock m3 < 2 ^ 31" "nBlock m \<le> nBlock m3" "length (aiFreelist m3) = LOGMAX + 1" "length (aCtrl m3) = nBlock m3" "tiled (nBlock m) H'"
        "\<And>k. k \<le> LOGMAX \<Longrightarrow> distinct (F' k) \<and> set (F' k) = {i. H' i = Some (k, True)} \<and> chain m3 k (F' k)"
        using d(1-6,8) by blast+
      have "i < nBlock m" using block_small [OF i0 i(2)] f0(2) by simp
      then have ci: "aCtrl m3 ! i = ctrl l False" using d(3,5) by (simp add: m3_def ctrl_def)
      show "aCtrl m3 ! j = ctrl k f" if "H' j = Some (k, f)" "j \<notin> {}" for j k f
        using d(7) [OF that(1)] ci s(2) that(1) by (cases "j = i") auto
    qed
    have c3: "confined m m3 ?A"
      using confined_trans [OF confined_mono [OF f0(3)] confined_trans [OF c1 s(4)]] by (simp add: m3_def m2_def)
    have na: "\<forall>k. (i, k) \<notin> alloc H" using i(2) by (simp add: alloc_def)
    have "alloc (H(i := Some (b, False))) - {(i, b)} = alloc H" using i(2) by (auto simp: alloc_def split: if_splits)
    then have al: "alloc H' = insert (i, l) (alloc H)" using s(2,3) by (auto simp: alloc_def)
    have sz: "nByte \<le> nAtom m * 2 ^ l" using l(2) by (simp add: e(3) power_add)
    have sub: "{i..<i + 2 ^ l} \<subseteq> ?A"
    proof -
      have "(2::nat) ^ l \<le> 2 ^ b" using bin(1) by (intro power_increasing) simp_all
      then have "{i..<i + 2 ^ l} \<subseteq> {i..<i + 2 ^ b}" by (intro ivl_subset [THEN iffD2]) simp
      then show ?thesis using blk by (rule subset_trans)
    qed
    have nA: "nAtom m3 = nAtom m" using c3 by (simp add: confined_def)
    define m4 where "m4 = malloc_stats m3 nByte (2 ^ (e + l))"
    have nA2: "nAtom m2 = 2 ^ e" using nA e(3) by (simp add: m3_def)
    have m4: "memsys5MallocUnsafe m nByte = Some (Some (i * nAtom m), m4)" "same m3 m4"
      using False l(1) i(1) nA2 unfolding m4_def
      by (simp_all add: malloc_stats_same memsys5MallocUnsafe_def Let_def f0(1) e(3) b_def [symmetric] m0_def [symmetric]
              m1_def [symmetric] m2_def [symmetric] m3_def [symmetric])
    have "minv m4 (nBlock m) H' F' {}" "confined m m4 ?A" using minv_same [OF m4(2) i3] c3 m4(2) by (simp_all add: same_def confined_def)
    then show ?thesis using m4(1) s(2) na al sz sub co unfolding malloc_result_def by auto
  qed
qed

lemma minv_merge:
  assumes "minv m n H F X" "H i = Some (k, False)" "H (i + 2 ^ k) = Some (k, False)" "2 ^ Suc k dvd i" "k < LOGMAX"
    "X \<subseteq> {i, i + 2 ^ k}"
  shows "minv m n (H(i + 2 ^ k := None, i := Some (Suc k, False))) F {i}"
proof (rule minvI)
  show "8 \<le> nAtom m" "nBlock m < 2 ^ 31" "n \<le> nBlock m" "length (aiFreelist m) = LOGMAX + 1" "length (aCtrl m) = nBlock m"
    using minvD(1-5) [OF assms(1)] .
  let ?H = "H(i + 2 ^ k := None, i := Some (Suc k, False))"
  show "tiled n ?H" by (rule tiled_merge [OF minvD(6) [OF assms(1)] assms(2-5)])
  show "aCtrl m ! j = ctrl l f" if "?H j = Some (l, f)" "j \<notin> {i}" for j l f
  proof -
    have j: "j \<noteq> i" "j \<noteq> i + 2 ^ k" "H j = Some (l, f)" using that by (auto split: if_splits)
    then have "j \<notin> X" using assms(6) by auto
    then show ?thesis using minvD(7) [OF assms(1) j(3)] by simp
  qed
  show "distinct (F l) \<and> set (F l) = {j. ?H j = Some (l, True)} \<and> chain m l (F l)" if "l \<le> LOGMAX" for l
    using minvD(8) [OF assms(1) that] assms(2,3) by auto
qed

lemma merge_loop_ok:
  assumes "minv m (nBlock m) H F {i}" "H i = Some (k, False)" "aCtrl m ! i = ctrl k True"
    "free_atoms H \<subseteq> A" "{i..<i + 2 ^ k} \<subseteq> A"
  shows "case merge_loop m i k of (m', i', k') \<Rightarrow> \<exists>H' F'. minv m' (nBlock m) H' F' {i'} \<and> H' i' = Some (k', False) \<and>
    aCtrl m' ! i' = ctrl k' True \<and> alloc H' - {(i', k')} = alloc H - {(i, k)} \<and> confined m m' A \<and> i' \<in> A \<and> free_atoms H' \<subseteq> A \<and>
    (\<forall>j l. H' j = Some (l, True) \<longrightarrow> H j = Some (l, True)) \<and> (k' < LOGMAX \<longrightarrow> H' (buddy i' k') \<noteq> Some (k', True))"
  using assms
proof (induction m i k arbitrary: H F rule: merge_loop.induct)
  case (1 m i k)
  let ?size = "2 ^ k :: nat"
  let ?b = "buddy i k"
  have b_def: "(if odd (i div ?size) then i - ?size else i + ?size) = ?b" by (simp add: buddy_def)
  have iA: "i \<in> A" using "1.prems"(5) by auto
  have stop: ?case if "merge_loop m i k = (m, i, k)" "k < LOGMAX \<longrightarrow> H (buddy i k) \<noteq> Some (k, True)"
    using that "1.prems" confined_refl iA by auto
  have t: "tiled (nBlock m) H" by (rule minvD(6) [OF "1.prems"(1)])
  have al: "2 ^ k dvd i" by (rule tiledD(2) [OF t "1.prems"(2)])
  have bi: "?b \<noteq> i" using al by (rule buddy_cases) auto
  show ?case
  proof (cases "k < LOGMAX \<and> \<not> nBlock m < ?b + ?size \<and> aCtrl m ! ?b = CTRL_FREE OR word_of_nat k")
    case False
    then have "merge_loop m i k = (m, i, k)" by (subst merge_loop.simps) (auto simp: Let_def b_def)
    moreover have "H ?b \<noteq> Some (k, True)" if "k < LOGMAX"
      using False that tiledD(3) [OF t, of ?b k True] minvD(7) [OF "1.prems"(1), of ?b k True] bi by (auto simp: ctrl_def)
    ultimately show ?thesis by (intro stop) blast+
  next
    case True
    then have kl: "k < LOGMAX" and fits: "?b + ?size \<le> nBlock m" and cb: "aCtrl m ! ?b = ctrl k True" by (simp_all add: ctrl_def)
    obtain l g where lg: "H ?b = Some (l, g)" "l \<le> k" using tiled_buddy [OF t "1.prems"(2) fits] by blast
    have "aCtrl m ! ?b = ctrl l g" using minvD(7) [OF "1.prems"(1) lg(1)] bi by simp
    then have hb: "H ?b = Some (k, True)" using cb lg ctrl_fields(2) [of k l True g] kl tiledD(1) [OF t lg(1)] by auto
    define m1 where "m1 = memsys5Unlink m ?b k"
    let ?H1 = "H(?b := Some (k, False))"
    obtain xs where u: "minv m1 (nBlock m) ?H1 (F(k := xs)) {?b, i}" and tc: "touches m m1 k (set (F k))"
      using minv_unlink [OF "1.prems"(1) hb, of "{?b, i}"] by (auto simp: m1_def)
    have c1: "confined m m1 A"
      using tc list_in_free [OF "1.prems"(1), of k] "1.prems"(4) kl confined_mono [of m m1 "set (F k)" A] by (auto simp: touches_def)
    have n1: "nBlock m1 = nBlock m" using c1 by (simp add: confined_def)
    have bA: "{?b..<?b + ?size} \<subseteq> A" using block_in [of H ?b k] hb "1.prems"(4) by blast
    define lo where "lo = min i ?b"
    have lo: "(lo = i \<and> ?b = i + ?size \<or> lo = ?b \<and> i = ?b + ?size) \<and> 2 ^ Suc k dvd lo"
      using al by (rule buddy_cases) (auto simp: lo_def)
    define m2 where "m2 = m1\<lparr>aCtrl := (aCtrl m1)[lo := ctrl (Suc k) True, lo + ?size := 0]\<rparr>"
    let ?H2 = "?H1(lo + ?size := None, lo := Some (Suc k, False))"
    have H1: "?H1 lo = Some (k, False)" "?H1 (lo + ?size) = Some (k, False)" using lo "1.prems"(2) by auto
    have X: "{?b, i} = {lo, lo + ?size}" using lo by auto
    have i1: "minv m1 (nBlock m) ?H2 (F(k := xs)) {lo}"
      by (rule minv_merge [OF u H1]) (use lo kl X in auto)
    have lon: "lo < nBlock m" "lo + ?size < nBlock m"
      using lo fits block_small [OF "1.prems"(1,2)] block_small [OF "1.prems"(1) hb] by auto
    have i2: "minv m2 (nBlock m2) ?H2 (F(k := xs)) {lo}"
    proof -
      have "minv (m1\<lparr>aCtrl := (aCtrl m1)[lo := ctrl (Suc k) True]\<rparr>) (nBlock m) ?H2 (F(k := xs)) {lo}"
        by (rule minv_ctrl [OF i1]) simp
      from minv_ctrl [OF this, of "lo + ?size" 0] show ?thesis by (simp add: m2_def n1)
    qed
    have c2: "aCtrl m2 ! lo = ctrl (Suc k) True" using lon minvD(5) [OF i1] n1 by (simp add: m2_def)
    have blk: "{lo..<lo + 2 ^ Suc k} \<subseteq> A"
    proof
      fix a assume "a \<in> {lo..<lo + 2 ^ Suc k}"
      then have "a \<in> {lo..<lo + ?size} \<or> a \<in> {lo + ?size..<lo + ?size + ?size}" by auto
      moreover have "{lo..<lo + ?size} \<subseteq> A" "{lo + ?size..<lo + ?size + ?size} \<subseteq> A" using lo bA "1.prems"(5) by auto
      ultimately show "a \<in> A" by blast
    qed
    have fr: "free_atoms ?H2 \<subseteq> A"
    proof -
      have "free_atoms ?H2 \<subseteq> free_atoms H" by (auto simp: free_atoms_def split: if_splits)
      then show ?thesis using "1.prems"(4) by blast
    qed
    have M: "merge_loop m i k = merge_loop m2 lo (Suc k)"
    proof (cases "?b < i")
      case T: True
      then have "lo = ?b" "lo + ?size = i" using lo by (auto simp: lo_def)
      then show ?thesis using True T unfolding m2_def m1_def
        by (subst merge_loop.simps) (simp add: Let_def b_def ctrl_def)
    next
      case F: False
      then have "lo = i" "?b = i + ?size" using lo by (auto simp: lo_def)
      then show ?thesis using True F unfolding m2_def m1_def
        by (subst merge_loop.simps) (simp add: Let_def b_def ctrl_def)
    qed
    define G F2 where "G = ?H2" and "F2 = F(k := xs)"
    have g2: "minv m2 (nBlock m2) G F2 {lo}" "G lo = Some (Suc k, False)" "free_atoms G \<subseteq> A" using i2 fr by (simp_all add: G_def F2_def)
    have ih: "case merge_loop m2 lo (Suc k) of (m', i', k') \<Rightarrow> \<exists>H' F'. minv m' (nBlock m2) H' F' {i'} \<and> H' i' = Some (k', False) \<and>
      aCtrl m' ! i' = ctrl k' True \<and> alloc H' - {(i', k')} = alloc G - {(lo, Suc k)} \<and> confined m2 m' A \<and> i' \<in> A \<and> free_atoms H' \<subseteq> A \<and>
      (\<forall>j l. H' j = Some (l, True) \<longrightarrow> G j = Some (l, True)) \<and> (k' < LOGMAX \<longrightarrow> H' (buddy i' k') \<noteq> Some (k', True))"
    proof (cases "?b < i")
      case T: True
      then have l: "lo = ?b" "lo + ?size = i" using lo by (auto simp: lo_def)
      have m2': "m2 = m1\<lparr>aCtrl := (aCtrl m1)[?b := CTRL_FREE OR word_of_nat (k + 1), i := 0]\<rparr>"
        unfolding m2_def l by (simp add: l(2) [unfolded l(1)] ctrl_def)
      have g: "k < LOGMAX" "\<not> nBlock m < ?b + ?size" "\<not> aCtrl m ! ?b \<noteq> CTRL_FREE OR word_of_nat k" using True by simp_all
      show ?thesis using "1.IH"(1) [OF g(1) refl refl, unfolded b_def, OF g(2,3) m1_def refl T, of G F2] g2 c2 blk
        unfolding m2' [symmetric] by (simp add: l(1) [symmetric])
    next
      case Fa: False
      then have l: "lo = i" "?b = i + ?size" using lo by (auto simp: lo_def)
      have m2': "m2 = m1\<lparr>aCtrl := (aCtrl m1)[i := CTRL_FREE OR word_of_nat (k + 1), ?b := 0]\<rparr>"
        unfolding m2_def l(1) by (simp add: l(2) ctrl_def)
      have g: "k < LOGMAX" "\<not> nBlock m < ?b + ?size" "\<not> aCtrl m ! ?b \<noteq> CTRL_FREE OR word_of_nat k" using True by simp_all
      show ?thesis using "1.IH"(2) [OF g(1) refl refl, unfolded b_def, OF g(2,3) m1_def refl Fa, of G F2] g2 c2 blk
        unfolding m2' [symmetric] by (simp add: l(1) [symmetric])
    qed
    have ac: "alloc G - {(lo, Suc k)} = alloc H - {(i, k)}" using hb "1.prems"(2) lo by (auto simp: G_def alloc_def split: if_splits)
    have cm: "confined m m2 A" using c1 by (simp add: m2_def)
    have n2: "nBlock m2 = nBlock m" using n1 by (simp add: m2_def)
    have mo: "H j = Some (l, True)" if "G j = Some (l, True)" for j l using that by (auto simp: G_def split: if_splits)
    obtain m' i' k' where r: "merge_loop m2 lo (Suc k) = (m', i', k')" by (metis prod.exhaust)
    show ?thesis using ih confined_trans [OF cm] mo unfolding M r ac n2 prod.case by meson
  qed
qed


lemma minv_stats: "minv (m\<lparr>currentCount := c, currentOut := d\<rparr>) n H F X = minv m n H F X"
  using minv_same [of m "m\<lparr>currentCount := c, currentOut := d\<rparr>"] minv_same [of "m\<lparr>currentCount := c, currentOut := d\<rparr>" m]
  by (auto simp: same_def)

lemma FreeUnsafe_ok:
  assumes i: "minv m (nBlock m) H F {}" and h: "H i = Some (k, False)"
  shows "\<exists>H' F'. minv (memsys5FreeUnsafe m (i * nAtom m)) (nBlock m) H' F' {} \<and> alloc H' = alloc H - {(i, k)} \<and>
    confined m (memsys5FreeUnsafe m (i * nAtom m)) (free_atoms H \<union> {i..<i + 2 ^ k}) \<and> (coalesced H \<longrightarrow> coalesced H')"
proof -
  let ?A = "free_atoms H \<union> {i..<i + 2 ^ k}"
  note d = minvD [OF i]
  have k: "k \<le> LOGMAX" by (rule tiledD(1) [OF d(6) h])
  have blk: "i * nAtom m div nAtom m = i" using d(1) by simp
  have lg: "unat (aCtrl m ! i AND CTRL_LOGSIZE) = k" using d(7) [OF h] ctrl_fields(1) [OF k] by simp
  define m1 where "m1 = m\<lparr>aCtrl := (aCtrl m)[i := aCtrl m ! i OR CTRL_FREE]\<rparr>"
  define m2 where "m2 = m1\<lparr>aCtrl := (aCtrl m1)[i + 2 ^ k - 1 := aCtrl m1 ! (i + 2 ^ k - 1) OR CTRL_FREE]\<rparr>"
  define m3 where "m3 = m2\<lparr>currentCount := currentCount m2 - 1, currentOut := currentOut m2 - word_of_nat (2 ^ k * nAtom m2)\<rparr>"
  define m4 where "m4 = m3\<lparr>aCtrl := (aCtrl m3)[i := ctrl k True]\<rparr>"
  have i0: "minv m (nBlock m) H F {i}" by (rule minvI) (use d in simp_all)
  have i1: "minv m1 (nBlock m) H F {i}" unfolding m1_def by (rule minv_ctrl [OF i0]) simp
  have i2: "minv m2 (nBlock m) H F {i}"
  proof -
    have "H (i + 2 ^ k - 1) = None \<or> i + 2 ^ k - 1 \<in> {i}"
    proof (cases "k = 0")
      case False
      then have "(2::nat) ^ 1 \<le> 2 ^ k" by (intro power_increasing) simp_all
      then show ?thesis using tiledD(4) [OF d(6) h, of "i + 2 ^ k - 1"] by simp
    qed simp
    then show ?thesis unfolding m2_def by (rule minv_ctrl [OF i1])
  qed
  have i4: "minv m4 (nBlock m) H F {i}" unfolding m4_def m3_def by (rule minv_ctrl) (simp_all add: minv_stats i2)
  have f: "nBlock m4 = nBlock m" "nAtom m2 = nAtom m" "confined m m4 X" for X by (simp_all add: m4_def m3_def m2_def m1_def confined_def)
  have ilen: "i < nBlock m" using block_small [OF i h] by simp
  then have c4: "aCtrl m4 ! i = ctrl k True" using d(5) by (simp add: m4_def m3_def m2_def m1_def)
  obtain m5 i' k' where ml: "merge_loop m4 i k = (m5, i', k')" by (metis prod.exhaust)
  obtain H' F' where r: "minv m5 (nBlock m) H' F' {i'}" "H' i' = Some (k', False)" "aCtrl m5 ! i' = ctrl k' True"
    "alloc H' - {(i', k')} = alloc H - {(i, k)}" "confined m4 m5 ?A" "i' \<in> ?A" "free_atoms H' \<subseteq> ?A"
    "\<And>j l. H' j = Some (l, True) \<Longrightarrow> H j = Some (l, True)" "k' < LOGMAX \<Longrightarrow> H' (buddy i' k') \<noteq> Some (k', True)"
    using merge_loop_ok [of m4 H F i k ?A] i4 c4 h unfolding f(1) ml by auto
  have co: "coalesced (H'(i' := Some (k', True)))" if "coalesced H"
  proof (rule coalesced_add)
    show "coalesced H'" by (rule coalesced_mono [OF that r(8)])
    show "2 ^ k' dvd u" if "H' u = Some (k', True)" for u by (rule tiledD(2) [OF minvD(6) [OF r(1)] that])
    show "2 ^ k' dvd i'" by (rule tiledD(2) [OF minvD(6) [OF r(1)] r(2)])
    show "H' (buddy i' k') \<noteq> Some (k', True)" if "k' < LOGMAX" by (rule r(9) [OF that])
  qed
  have eq: "memsys5FreeUnsafe m (i * nAtom m) = memsys5Link m5 i' k'"
  proof -
    have c: "ctrl k True = CTRL_FREE OR word_of_nat k" by (simp add: ctrl_def)
    show ?thesis unfolding memsys5FreeUnsafe_def Let_def blk lg m1_def [symmetric] m2_def [symmetric] m3_def [symmetric]
        c [symmetric] m4_def [symmetric] ml by simp
  qed
  have t: "tiled (nBlock m) (H'(i' := Some (k', True)))" by (rule tiled_flag [OF minvD(6) [OF r(1)] r(2)])
  have k': "k' \<le> LOGMAX" by (rule tiledD(1) [OF minvD(6) [OF r(1)] r(2)])
  have n5: "nBlock m \<le> nBlock m5" using r(5) f(1) by (simp add: confined_def)
  note L = minv_link [OF r(1) disjI2 [OF r(2)] t n5 k' r(3), of "{}"]
  have "insert i' (set (F' k')) \<subseteq> ?A" using list_in_free [OF r(1) k'] r(6,7) by blast
  then have "confined m5 (memsys5Link m5 i' k') ?A" by (rule confined_mono [rotated]) (use L(2) in \<open>simp add: touches_def\<close>)
  then have "confined m (memsys5Link m5 i' k') ?A" by (rule confined_trans [OF f(3) confined_trans [OF r(5)]])
  moreover have "alloc (H'(i' := Some (k', True))) = alloc H' - {(i', k')}"
    using r(2) by (auto simp: alloc_def split: if_splits)
  ultimately show ?thesis using L(1) co unfolding eq r(4) [symmetric] by blast
qed

lemma log_loop_ok: "v \<le> 2 ^ 30 \<Longrightarrow> l \<le> 30 \<Longrightarrow> log_loop l v \<le> 30 \<and> v \<le> 2 ^ log_loop l v"
proof (induction l v rule: log_loop.induct)
  case (1 l v)
  show ?case
  proof (cases "2 ^ l < v")
    case True
    then have "(2::nat) ^ l < 2 ^ 30" using "1.prems" by linarith
    then have "Suc l \<le> 30" using power_less_imp_less_exp [of "2 :: nat" l 30] by simp
    then show ?thesis using "1.IH" [OF True] "1.prems" True by (subst (1 2) log_loop.simps) simp
  next
    case False
    then show ?thesis using "1.prems" by (subst (1 2) log_loop.simps) simp
  qed
qed

lemma atom_loop_ok: "e \<le> 30 \<Longrightarrow> \<exists>e'. 3 \<le> e' \<and> e' \<le> 30 \<and> e \<le> e' \<and> atom_loop (2 ^ e) = 2 ^ e'"
proof (cases "e < 3")
  case True
  then have "e = 0 \<or> e = 1 \<or> e = 2" by auto
  then have "atom_loop (2 ^ e) = 2 ^ 3" by (elim disjE; simp add: atom_loop.simps)
  then show ?thesis using True by (intro exI [of _ 3]) simp
next
  case False
  then have "(2::nat) ^ 3 \<le> 2 ^ e" by (intro power_increasing) simp_all
  then have "atom_loop (2 ^ e) = 2 ^ e" by (subst atom_loop.simps) simp
  moreover assume "e \<le> 30"
  ultimately show ?thesis using False by (intro exI [of _ e]) simp
qed

lemma init_loop_ok:
  assumes "minv m off H F {}" "alloc H = {}" "2 ^ ii dvd off" "nBlock m < off + 2 ^ ii" "off \<le> nBlock m" "ii \<le> LOGMAX + 1"
    "coalesced H" "\<And>i k f. H i = Some (k, f) \<Longrightarrow> ii \<le> k"
  shows "\<exists>H F. minv (init_loop m off ii) (nBlock m) H F {} \<and> alloc H = {} \<and> coalesced H \<and>
    nAtom (init_loop m off ii) = nAtom m \<and> nBlock (init_loop m off ii) = nBlock m"
  using assms
proof (induction m off ii arbitrary: H F rule: init_loop.induct)
  case (1 m off)
  then have "off = nBlock m" by simp
  then show ?case using "1.prems"(1,2,7) by auto
next
  case (2 m off ii)
  have dv: "2 ^ ii dvd off" using "2.prems"(3) by (rule dvd_trans [rotated]) (simp add: le_imp_power_dvd)
  have ii: "ii \<le> LOGMAX" using "2.prems"(6) by simp
  show ?case
  proof (cases "off + 2 ^ ii \<le> nBlock m")
    case False
    have "\<exists>H F. minv (init_loop m off ii) (nBlock m) H F {} \<and> alloc H = {} \<and> coalesced H \<and>
      nAtom (init_loop m off ii) = nAtom m \<and> nBlock (init_loop m off ii) = nBlock m"
      by (rule "2.IH"(2) [OF refl False "2.prems"(1,2) dv]) (use False ii "2.prems"(5,7) "2.prems"(8) [THEN Suc_leD] in simp_all)
    then show ?thesis using False by simp
  next
    case True
    define m1 where "m1 = m\<lparr>aCtrl := (aCtrl m)[off := ctrl ii True]\<rparr>"
    define m2 where "m2 = memsys5Link m1 off ii"
    have t: "tiled off H" by (rule minvD(6) [OF "2.prems"(1)])
    have N: "H off = None"
    proof (cases "H off")
      case (Some y)
      obtain k f where "y = (k, f)" by (rule prod.exhaust)
      then have "off + 2 ^ k \<le> off" using tiledD(3) [OF t] Some by blast
      then show ?thesis by simp
    qed
    have i1: "minv m1 off H F {}" unfolding m1_def by (rule minv_ctrl [OF "2.prems"(1)]) (simp add: N)
    have "0 < (2::nat) ^ ii" by simp
    then have "off < length (aCtrl m)" using True minvD(5) [OF "2.prems"(1)] by linarith
    then have c1: "aCtrl m1 ! off = ctrl ii True" by (simp add: m1_def)
    have fit: "off + 2 ^ ii \<le> nBlock m1" using True by (simp add: m1_def)
    note L = minv_link [OF i1 disjI1 [OF N] tiled_extend [OF t dv ii] fit ii c1, of "{}", folded m2_def]
    let ?H = "H(off := Some (ii, True))"
    have al: "alloc ?H = {}" using "2.prems"(2) by (auto simp: alloc_def split: if_splits)
    have no: "H u \<noteq> Some (ii, f)" for u f using "2.prems"(8) [of u ii f] by auto
    have co: "coalesced ?H" by (rule coalesced_add [OF "2.prems"(7)]) (use dv no in simp_all)
    have big: "ii \<le> k" if "?H u = Some (k, f)" for u k f using that "2.prems"(8) [of u k f] by (auto split: if_splits)
    have f: "nAtom m2 = nAtom m" "nBlock m2 = nBlock m" using L(2) by (simp_all add: touches_def confined_def m1_def)
    have e: "init_loop m off (Suc ii) = init_loop m2 (off + 2 ^ ii) ii"
      using True by (simp add: m2_def m1_def ctrl_def or.commute Let_def)
    have m2: "m2 = memsys5Link (m\<lparr>aCtrl := (aCtrl m)[off := word_of_nat ii OR CTRL_FREE]\<rparr>) off ii"
      by (simp add: m2_def m1_def ctrl_def or.commute)
    have "\<exists>H F. minv (init_loop m2 (off + 2 ^ ii) ii) (nBlock m2) H F {} \<and> alloc H = {} \<and> coalesced H \<and>
      nAtom (init_loop m2 (off + 2 ^ ii) ii) = nAtom m2 \<and> nBlock (init_loop m2 (off + 2 ^ ii) ii) = nBlock m2"
      by (rule "2.IH"(1) [OF refl True, folded m2, OF L(1) al _ _ _ _ co big]) (use dv True "2.prems"(4) ii f(2) in simp_all)
    then show ?thesis unfolding e f .
  qed
qed

lemma Init_ok:
  assumes "nByte < 2 ^ 31" "mnReq \<le> 2 ^ 30"
  shows "\<exists>m' H F. memsys5Init m nByte mnReq (Some z) = Some m' \<and> minv m' (nBlock m') H F {} \<and> alloc H = {} \<and> coalesced H \<and> pow_atom m'"
proof -
  obtain e where e: "3 \<le> e" "e \<le> 30" "atom_loop (2 ^ memsys5Log mnReq) = 2 ^ e"
    using atom_loop_ok log_loop_ok [OF assms(2), of 0] unfolding memsys5Log_def by blast
  let ?n = "nByte div (2 ^ e + 1)"
  define m0 where "m0 = m\<lparr>nAtom := 2 ^ e, nBlock := ?n, zPool := z, aCtrl := map (\<lambda>i. z (?n * 2 ^ e + i)) [0..<?n],
      aiFreelist := replicate (LOGMAX + 1) (- 1)\<rparr>"
  have n: "?n < 2 ^ 31" using assms(1) div_le_dividend [of nByte "2 ^ e + 1"] by linarith
  have a8: "(2::nat) ^ 3 \<le> 2 ^ e" using e(1) by (intro power_increasing) simp_all
  have "minv m0 0 (\<lambda>_. None) (\<lambda>_. []) {}"
    by (rule minvI) (use n a8 in \<open>simp_all add: m0_def tiled_def chain_def del: replicate_Suc replicate.simps\<close>)
  then have "\<exists>H F. minv (init_loop m0 0 (LOGMAX + 1)) (nBlock m0) H F {} \<and> alloc H = {} \<and> coalesced H \<and>
    nAtom (init_loop m0 0 (LOGMAX + 1)) = nAtom m0 \<and> nBlock (init_loop m0 0 (LOGMAX + 1)) = nBlock m0"
    by (rule init_loop_ok) (use n in \<open>simp_all add: alloc_def m0_def LOGMAX_def coalesced_def\<close>)
  moreover have "memsys5Init m nByte mnReq (Some z) = Some (init_loop m0 0 (LOGMAX + 1))"
    by (simp add: memsys5Init_def Let_def e(3) m0_def)
  moreover have "nAtom m0 = 2 ^ e" by (simp add: m0_def)
  ultimately show ?thesis using e(1,2) unfolding pow_atom_def by metis
qed

section \<open>The allocator and its client\<close>

text \<open>
  What the client holds: the outstanding allocations by address, with the bytes the client
  expects in them.
\<close>

type_synonym held = "nat \<Rightarrow> u8 list option"

definition contents :: "mem5 \<Rightarrow> nat \<Rightarrow> nat \<Rightarrow> u8 list" where
  "contents m p n = map (\<lambda>a. zPool m (p + a)) [0..<n]"

definition resized :: "mem5 \<Rightarrow> u8 list \<Rightarrow> nat \<Rightarrow> nat \<Rightarrow> u8 list" where
  "resized m bs q n = take n bs @ drop (length bs) (contents m q n)"

text \<open>
  The steps of a client: it asks for memory, gives it back, changes its size, and stores a
  byte in an allocation it holds.
\<close>

inductive mem5_step :: "mem5 \<times> held \<Rightarrow> mem5 \<times> held \<Rightarrow> bool" where
  Malloc: "memsys5Malloc m n = Some (Some p, m') \<Longrightarrow> mem5_step (m, L) (m', L(p := Some (contents m' p (nat n))))"
| Malloc_fail: "memsys5Malloc m n = Some (None, m') \<Longrightarrow> mem5_step (m, L) (m', L)"
| Free: "L p = Some bs \<Longrightarrow> mem5_step (m, L) (memsys5Free m (Some p), L(p := None))"
| Realloc: "L p = Some bs \<Longrightarrow> 0 < n \<Longrightarrow> memsys5Realloc m (Some p) n = Some (Some q, m') \<Longrightarrow>
    mem5_step (m, L) (m', L(p := None, q := Some (resized m' bs q (nat n))))"
| Realloc_fail: "L p = Some bs \<Longrightarrow> 0 < n \<Longrightarrow> memsys5Realloc m (Some p) n = Some (None, m') \<Longrightarrow> mem5_step (m, L) (m', L)"
| Realloc_free: "L p = Some bs \<Longrightarrow> n \<le> 0 \<Longrightarrow> memsys5Realloc m (Some p) n = Some (r, m') \<Longrightarrow> mem5_step (m, L) (m', L(p := None))"
| Store: "L p = Some bs \<Longrightarrow> a < length bs \<Longrightarrow>
    mem5_step (m, L) (m\<lparr>zPool := (zPool m)(p + a := b)\<rparr>, L(p := Some (bs[a := b])))"

inductive mem5_run :: "mem5 \<times> held \<Rightarrow> bool" where
  Start: "nHeap < 2 ^ 31 \<Longrightarrow> mnReq \<le> 2 ^ 30 \<Longrightarrow> memsys5Init m nHeap mnReq (Some z) = Some m' \<Longrightarrow> mem5_run (m', \<lambda>_. None)"
| Step: "mem5_run s \<Longrightarrow> mem5_step s s' \<Longrightarrow> mem5_run s'"

inductive_cases mem5_stepE [elim!]: "mem5_step (m, L) s'"

definition live :: "mem5 \<Rightarrow> blocks \<Rightarrow> nat \<Rightarrow> u8 list \<Rightarrow> bool" where
  "live m H p bs \<longleftrightarrow> (\<exists>i k. p = i * nAtom m \<and> H i = Some (k, False) \<and> length bs \<le> nAtom m * 2 ^ k \<and>
     (\<forall>a < length bs. zPool m (p + a) = bs ! a))"

definition mem_inv :: "mem5 \<Rightarrow> blocks \<Rightarrow> (nat \<Rightarrow> nat list) \<Rightarrow> held \<Rightarrow> bool" where
  "mem_inv m H F L \<longleftrightarrow> minv m (nBlock m) H F {} \<and> coalesced H \<and> pow_atom m \<and>
     (\<forall>p bs. L p = Some bs \<longrightarrow> live m H p bs) \<and> (\<forall>i k. H i = Some (k, False) \<longrightarrow> L (i * nAtom m) \<noteq> None)"

lemma mem_invD:
  assumes "mem_inv m H F L"
  shows "minv m (nBlock m) H F {}" "coalesced H" "pow_atom m" "L p = Some bs \<Longrightarrow> live m H p bs"
    "H i = Some (k, False) \<Longrightarrow> \<exists>bs. L (i * nAtom m) = Some bs"
  using assms unfolding mem_inv_def by blast+

lemma not_free: "tiled n H \<Longrightarrow> H i = Some (k, False) \<Longrightarrow> a \<in> {i..<i + 2 ^ k} \<Longrightarrow> a \<notin> free_atoms H"
proof
  assume t: "tiled n H" "H i = Some (k, False)" "a \<in> {i..<i + 2 ^ k}" and "a \<in> free_atoms H"
  then obtain j l where "H j = Some (l, True)" "j \<le> a" "a < j + 2 ^ l" by (auto simp: free_atoms_def)
  then show False using tiled_atom [OF t(1,2), of j l True a] t by auto
qed

lemma byte_atom:
  assumes "0 < n" "a < n * 2 ^ k"
  shows "(i * n + a) div n \<in> {i..<i + 2 ^ k :: nat}"
proof -
  have "a div n < 2 ^ k" using assms by (simp add: less_mult_imp_div_less mult.commute)
  then show ?thesis using assms(1) by simp
qed

text \<open>An allocation survives a change of other atoms.\<close>

lemma live_frame:
  assumes "live m H p bs" "confined m m' B" "\<And>i k. p = i * nAtom m \<Longrightarrow> H i = Some (k, False) \<Longrightarrow> {i..<i + 2 ^ k} \<inter> B = {} \<and> H' i = Some (k, False)"
    "0 < nAtom m"
  shows "live m' H' p bs"
proof -
  obtain i k where l: "p = i * nAtom m" "H i = Some (k, False)" "length bs \<le> nAtom m * 2 ^ k"
    "\<And>a. a < length bs \<Longrightarrow> zPool m (p + a) = bs ! a" using assms(1) by (auto simp: live_def)
  note b = assms(3) [OF l(1,2)]
  have c: "nAtom m' = nAtom m" using assms(2) by (simp add: confined_def)
  have "zPool m' (p + a) = bs ! a" if a: "a < length bs" for a
  proof -
    have "(p + a) div nAtom m \<in> {i..<i + 2 ^ k}" unfolding l(1) by (rule byte_atom [OF assms(4)]) (use a l(3) in linarith)
    then have "(p + a) div nAtom m \<notin> B" using b by blast
    then show ?thesis using assms(2) l(4) [OF a] by (simp add: confined_def)
  qed
  then show ?thesis unfolding live_def c using l b by blast
qed

lemma alloc_eq: "alloc H = S \<Longrightarrow> H i = Some (k, False) \<longleftrightarrow> (i, k) \<in> S"
  by (auto simp: alloc_def)

lemma mem_inv_malloc:
  assumes "mem_inv m H F L" "0 < n" "n \<le> 2 ^ 30"
  shows "\<exists>r m'. memsys5MallocUnsafe m n = Some (r, m') \<and> nAtom m' = nAtom m \<and> (case r of
      None \<Rightarrow> mem_inv m' H F L \<and> (\<forall>i k. H i = Some (k, True) \<longrightarrow> nAtom m * 2 ^ k < n)
    | Some p \<Rightarrow> \<exists>H' F' i l. L p = None \<and> mem_inv m' H' F' (L(p := Some (contents m' p n))) \<and> p = i * nAtom m \<and> H' i = Some (l, False) \<and>
        n \<le> nAtom m * 2 ^ l \<and> alloc H \<subseteq> alloc H' \<and> confined m m' (free_atoms H))"
proof -
  note d = mem_invD [OF assms(1)]
  obtain r m' where r: "memsys5MallocUnsafe m n = Some (r, m')" "malloc_result m H F n (r, m')"
    using MallocUnsafe_ok [OF d(1,3) assms(2,3)] by fastforce
  have pos: "0 < nAtom m" using minvD(1) [OF d(1)] by simp
  have t: "tiled (nBlock m) H" by (rule minvD(6) [OF d(1)])
  show ?thesis
  proof (cases r)
    case None
    have c: "minv m' (nBlock m) H F {}" "confined m m' {}" "\<forall>i k. H i = Some (k, True) \<longrightarrow> nAtom m * 2 ^ k < n"
      using r(2) None by (simp_all add: malloc_result_def)
    have f: "nAtom m' = nAtom m" "nBlock m' = nBlock m" using c(2) by (simp_all add: confined_def)
    have "live m' H p bs" if "L p = Some bs" for p bs
      by (rule live_frame [OF d(4) [OF that] c(2) _ pos]) simp
    then have "mem_inv m' H F L" using c(1) d f by (auto simp: mem_inv_def pow_atom_def)
    then show ?thesis using r(1) None c(3) f by auto
  next
    case (Some p)
    then obtain H' F' i l where c: "p = i * nAtom m" "minv m' (nBlock m) H' F' {}" "H' i = Some (l, False)" "\<forall>k. (i, k) \<notin> alloc H"
      "alloc H' = insert (i, l) (alloc H)" "n \<le> nAtom m * 2 ^ l" "confined m m' (free_atoms H)" "coalesced H'"
      using r(2) d(2) by (auto simp: malloc_result_def)
    have f: "nAtom m' = nAtom m" "nBlock m' = nBlock m" using c(7) by (simp_all add: confined_def)
    have new: "L p = None"
    proof (cases "L p")
      case (Some bs)
      then obtain j k where "p = j * nAtom m" "H j = Some (k, False)" using d(4) [OF Some] by (auto simp: live_def)
      then show ?thesis using c(1,4) pos by (auto simp: alloc_def)
    qed
    have old: "live m' H' q bs" if "L q = Some bs" for q bs
      by (rule live_frame [OF d(4) [OF that] c(7) _ pos]) (use not_free [OF t] alloc_eq [OF c(5)] in \<open>auto simp: alloc_def\<close>)
    have self: "live m' H' p (contents m' p n)"
      unfolding live_def f using c(1,3,6) by (auto simp: contents_def)
    have all: "\<exists>y. L (j * nAtom m) = Some y" if "H' j = Some (k, False)" "j \<noteq> i" for j k
      using that d(5) alloc_eq [OF c(5)] by (auto simp: alloc_def)
    have "mem_inv m' H' F' (L(p := Some (contents m' p n)))"
      using c(1,2,8) d(3) f old self all by (auto simp: mem_inv_def pow_atom_def)
    moreover have "alloc H \<subseteq> alloc H'" using c(5) by blast
    ultimately show ?thesis using r(1) f(1) new c(1,3,6,7) unfolding Some by auto
  qed
qed
lemma mem_inv_apart:
  assumes "mem_inv m H F L" "L p = Some bs" "L q = Some cs" "p \<noteq> q"
  shows "p + length bs \<le> q \<or> q + length cs \<le> p"
proof -
  note d = mem_invD [OF assms(1)]
  obtain i k where i: "p = i * nAtom m" "H i = Some (k, False)" "length bs \<le> nAtom m * 2 ^ k" using d(4) [OF assms(2)] by (auto simp: live_def)
  obtain j l where j: "q = j * nAtom m" "H j = Some (l, False)" "length cs \<le> nAtom m * 2 ^ l" using d(4) [OF assms(3)] by (auto simp: live_def)
  have "i \<noteq> j" using assms(4) i(1) j(1) by auto
  then have "i + 2 ^ k \<le> j \<or> j + 2 ^ l \<le> i" by (rule tiled_apart [OF minvD(6) [OF d(1)] i(2) j(2)])
  then have "(i + 2 ^ k) * nAtom m \<le> j * nAtom m \<or> (j + 2 ^ l) * nAtom m \<le> i * nAtom m" using mult_le_mono1 by blast
  then show ?thesis using i(1,3) j(1,3) by (auto simp: algebra_simps)
qed

lemma minv_pool:
  assumes "minv m n H F X" "\<And>a. a div nAtom m \<in> free_atoms H \<Longrightarrow> z a = zPool m a"
  shows "minv (m\<lparr>zPool := z\<rparr>) n H F X"
proof (rule minvI)
  note d = minvD [OF assms(1)]
  show "distinct (F k) \<and> set (F k) = {i. H i = Some (k, True)} \<and> chain (m\<lparr>zPool := z\<rparr>) k (F k)" if k: "k \<le> LOGMAX" for k
  proof -
    have "get_int z (i * nAtom m + e) = get_int (zPool m) (i * nAtom m + e)" if "i \<in> set (F k)" "e \<le> 4" for i e
    proof -
      have "i \<in> free_atoms H" using list_in_free [OF assms(1) k] that(1) by blast
      moreover have "(i * nAtom m + c) div nAtom m = i" if "c < 8" for c
        by (rule atom_of [OF d(1)]) (use that in simp_all)
      ultimately have "z (i * nAtom m + c) = zPool m (i * nAtom m + c)" if "c < 8" for c using assms(2) that by simp
      from this [of e] this [of "e + 1"] this [of "e + 2"] this [of "e + 3"] show ?thesis using that(2) by (simp add: get_int_def add.assoc)
    qed
    from this [of _ 0] this [of _ 4] have "chain (m\<lparr>zPool := z\<rparr>) k (F k)"
      by (intro chain_cong [of "F k" "m\<lparr>zPool := z\<rparr>" m]) (use d(8) [OF k] in \<open>simp_all add: link_next_def link_prev_def\<close>)
    then show ?thesis using d(8) [OF k] by blast
  qed
qed (use minvD [OF assms(1)] in simp_all)

lemma mem_inv_store:
  assumes "mem_inv m H F L" "L p = Some bs" "\<And>a. a < p \<or> p + length bs \<le> a \<Longrightarrow> z a = zPool m a"
  shows "mem_inv (m\<lparr>zPool := z\<rparr>) H F (L(p := Some (map (\<lambda>a. z (p + a)) [0..<length bs])))"
proof -
  note d = mem_invD [OF assms(1)]
  obtain i k where i: "p = i * nAtom m" "H i = Some (k, False)" "length bs \<le> nAtom m * 2 ^ k" using d(4) [OF assms(2)] by (auto simp: live_def)
  have pos: "0 < nAtom m" using minvD(1) [OF d(1)] by simp
  have t: "tiled (nBlock m) H" by (rule minvD(6) [OF d(1)])
  have fr: "z a = zPool m a" if "a div nAtom m \<in> free_atoms H" for a
  proof (rule assms(3), rule ccontr)
    assume "\<not> (a < p \<or> p + length bs \<le> a)"
    then have "a = i * nAtom m + (a - p)" "a - p < nAtom m * 2 ^ k" using i(1,3) by linarith+
    then have "a div nAtom m \<in> {i..<i + 2 ^ k}" using byte_atom [OF pos] by metis
    then show False using not_free [OF t i(2)] that by blast
  qed
  have "live (m\<lparr>zPool := z\<rparr>) H q cs" if q: "L q = Some cs" "q \<noteq> p" for q cs
  proof -
    have "z (q + a) = zPool m (q + a)" if "a < length cs" for a
      by (rule assms(3)) (use mem_inv_apart [OF assms(1,2) q(1)] q(2) that in auto)
    then show ?thesis using d(4) [OF q(1)] by (auto simp: live_def)
  qed
  moreover have "live (m\<lparr>zPool := z\<rparr>) H p (map (\<lambda>a. z (p + a)) [0..<length bs])" using i by (auto simp: live_def)
  ultimately show ?thesis using minv_pool [OF d(1) fr] d by (auto simp: mem_inv_def pow_atom_def)
qed

lemma mem_inv_free:
  assumes "mem_inv m H F L" "L p = Some bs"
  shows "\<exists>H' F'. mem_inv (memsys5FreeUnsafe m p) H' F' (L(p := None))"
proof -
  note d = mem_invD [OF assms(1)]
  obtain i k where i: "p = i * nAtom m" "H i = Some (k, False)" using d(4) [OF assms(2)] by (auto simp: live_def)
  have pos: "0 < nAtom m" using minvD(1) [OF d(1)] by simp
  have t: "tiled (nBlock m) H" by (rule minvD(6) [OF d(1)])
  let ?m = "memsys5FreeUnsafe m p"
  obtain H' F' where r: "minv ?m (nBlock m) H' F' {}" "alloc H' = alloc H - {(i, k)}"
    "confined m ?m (free_atoms H \<union> {i..<i + 2 ^ k})" "coalesced H'"
    using FreeUnsafe_ok [OF d(1) i(2)] d(2) i(1) by auto
  have f: "nAtom ?m = nAtom m" "nBlock ?m = nBlock m" using r(3) by (simp_all add: confined_def)
  have "live ?m H' q cs" if q: "L q = Some cs" "q \<noteq> p" for q cs
  proof (rule live_frame [OF d(4) [OF q(1)] r(3) _ pos])
    fix j l assume j: "q = j * nAtom m" "H j = Some (l, False)"
    then have ij: "i \<noteq> j" using q(2) i(1) by auto
    then have "{j..<j + 2 ^ l} \<inter> {i..<i + 2 ^ k} = {}" using tiled_apart [OF t i(2) j(2)] by auto
    then show "{j..<j + 2 ^ l} \<inter> (free_atoms H \<union> {i..<i + 2 ^ k}) = {} \<and> H' j = Some (l, False)"
      using not_free [OF t j(2)] alloc_eq [OF r(2)] j(2) ij by (auto simp: alloc_def)
  qed
  moreover have "(L(p := None)) (j * nAtom m) \<noteq> None" if "H' j = Some (l, False)" for j l
  proof -
    have "H j = Some (l, False)" "j \<noteq> i" using that alloc_eq [OF r(2)] i(2) by (auto simp: alloc_def)
    then show ?thesis using d(5) i(1) pos by auto
  qed
  ultimately show ?thesis using r(1,4) d(3) f by (intro exI [of _ H'] exI [of _ F']) (auto simp: mem_inv_def pow_atom_def)
qed

lemma mem5_size: "mem_inv m H F L \<Longrightarrow> H i = Some (k, False) \<Longrightarrow> memsys5Size m (Some (i * nAtom m)) = nAtom m * 2 ^ k"
proof -
  assume a: "mem_inv m H F L" "H i = Some (k, False)"
  note d = minvD [OF mem_invD(1) [OF a(1)]]
  have "i * nAtom m div nAtom m = i" using d(1) by simp
  then show ?thesis using d(7) [OF a(2)] ctrl_fields(1) tiledD(1) [OF d(6) a(2)] by (simp add: memsys5Size_def)
qed

lemma mem_inv_shrink:
  assumes "mem_inv m H F L" "L p = Some bs" "0 < n" "n \<le> int (memsys5Size m (Some p))"
  shows "mem_inv m H F (L(p := Some (resized m bs p (nat n))))"
proof -
  note d = mem_invD [OF assms(1)]
  obtain i k where i: "p = i * nAtom m" "H i = Some (k, False)" "length bs \<le> nAtom m * 2 ^ k" "\<And>a. a < length bs \<Longrightarrow> zPool m (p + a) = bs ! a"
    using d(4) [OF assms(2)] by (auto simp: live_def)
  have "resized m bs p (nat n) ! a = zPool m (p + a)" if "a < nat n" for a
    using that i(4) by (simp add: resized_def contents_def nth_append)
  moreover have "length (resized m bs p (nat n)) = nat n" by (simp add: resized_def contents_def)
  moreover have "nat n \<le> nAtom m * 2 ^ k" using assms(4) unfolding i(1) mem5_size [OF assms(1) i(2)] by linarith
  ultimately have "live m H p (resized m bs p (nat n))" using i(1,2) unfolding live_def by auto
  then show ?thesis using d by (auto simp: mem_inv_def)
qed

lemma mem_inv_realloc:
  assumes "mem_inv m H F L" "L p = Some bs" "0 < n" "n \<le> 2 ^ 30"
  shows "\<exists>r m' H' F'. memsys5Realloc m (Some p) n = Some (r, m') \<and> (case r of None \<Rightarrow> mem_inv m' H' F' L
     | Some q \<Rightarrow> mem_inv m' H' F' (L(p := None, q := Some (resized m' bs q (nat n)))))"
proof -
  note d = mem_invD [OF assms(1)]
  obtain i k where i: "p = i * nAtom m" "H i = Some (k, False)" "length bs \<le> nAtom m * 2 ^ k" "\<And>a. a < length bs \<Longrightarrow> zPool m (p + a) = bs ! a"
    using d(4) [OF assms(2)] by (auto simp: live_def)
  let ?old = "nAtom m * 2 ^ k"
  note sz = mem5_size [OF assms(1) i(2), folded i(1)]
  show ?thesis
  proof (cases "n \<le> int ?old")
    case True
    have "mem_inv m H F (L(p := Some (resized m bs p (nat n))))"
      by (rule mem_inv_shrink [OF assms(1-3)]) (use True sz in simp)
    then show ?thesis using True assms(3) sz by (intro exI [of _ "Some p"] exI [of _ m] exI [of _ H] exI [of _ F]) (simp add: memsys5Realloc_def)
  next
    case False
    then have big: "?old < nat n" by linarith
    have n: "0 < nat n" "nat n \<le> 2 ^ 30" using assms(3,4) by simp_all
    obtain r m1 where r: "memsys5MallocUnsafe m (nat n) = Some (r, m1)" "nAtom m1 = nAtom m" "case r of
        None \<Rightarrow> mem_inv m1 H F L \<and> (\<forall>i k. H i = Some (k, True) \<longrightarrow> nAtom m * 2 ^ k < nat n)
      | Some p \<Rightarrow> \<exists>H' F' i l. L p = None \<and> mem_inv m1 H' F' (L(p := Some (contents m1 p (nat n)))) \<and> p = i * nAtom m \<and> H' i = Some (l, False) \<and>
          nat n \<le> nAtom m * 2 ^ l \<and> alloc H \<subseteq> alloc H' \<and> confined m m1 (free_atoms H)"
      using mem_inv_malloc [OF assms(1) n] by blast
    show ?thesis
    proof (cases r)
      case None
      then show ?thesis using r False assms(3) sz
        by (intro exI [of _ None] exI [of _ m1] exI [of _ H] exI [of _ F]) (simp add: memsys5Realloc_def)
    next
      case (Some q)
      then obtain H1 F1 where q: "L q = None" "mem_inv m1 H1 F1 (L(q := Some (contents m1 q (nat n))))" using r(3) by auto
      have qp: "q \<noteq> p" using q(1) assms(2) by auto
      define z where "z = pool_copy (zPool m1) q p ?old"
      have out: "z a = zPool m1 a" if "a < q \<or> q + length (contents m1 q (nat n)) \<le> a" for a
        using that big by (auto simp: z_def pool_copy_def contents_def)
      define m2 where "m2 = m1\<lparr>zPool := z\<rparr>"
      have i2: "mem_inv m2 H1 F1 (L(q := Some (map (\<lambda>a. z (q + a)) [0..<nat n])))"
        using mem_inv_store [OF q(2), of q "contents m1 q (nat n)" z] out by (simp add: m2_def contents_def)
      have old: "zPool m1 (p + a) = bs ! a" if "a < length bs" for a
        using mem_invD(4) [OF q(2), of p bs] qp assms(2) that by (auto simp: live_def)
      define m3 where "m3 = memsys5FreeUnsafe m2 p"
      have L2: "(L(q := Some (map (\<lambda>a. z (q + a)) [0..<nat n]))) p = Some bs" using qp assms(2) by simp
      obtain H3 F3 where i3: "mem_inv m3 H3 F3 ((L(q := Some (map (\<lambda>a. z (q + a)) [0..<nat n])))(p := None))"
        using mem_inv_free [OF i2 L2] unfolding m3_def by blast
      have m3: "zPool m3 (q + a) = z (q + a)" if "a < nat n" for a
        using mem_invD(4) [OF i3, of q] qp that by (auto simp: live_def)
      have "resized m3 bs q (nat n) = map (\<lambda>a. z (q + a)) [0..<nat n]"
      proof (rule nth_equalityI)
        fix a assume a: "a < length (resized m3 bs q (nat n))"
        then have an: "a < nat n" by (simp add: resized_def contents_def)
        have "z (q + a) = bs ! a" if "a < length bs"
          using that i(3) old by (simp add: z_def pool_copy_def add.commute)
        then show "resized m3 bs q (nat n) ! a = map (\<lambda>a. z (q + a)) [0..<nat n] ! a"
          using an m3 [OF an] big i(3) by (simp add: resized_def contents_def nth_append)
      qed (simp add: resized_def contents_def)
      then have "mem_inv m3 H3 F3 (L(p := None, q := Some (resized m3 bs q (nat n))))"
        using i3 qp by (simp add: fun_upd_twist)
      then show ?thesis using r(1) Some False assms(3) sz
        by (intro exI [of _ "Some q"] exI [of _ m3] exI [of _ H3] exI [of _ F3]) (simp add: memsys5Realloc_def m3_def m2_def z_def)
    qed
  qed
qed
lemma malloc_domain: "memsys5MallocUnsafe m n = Some r \<Longrightarrow> pow_atom m \<Longrightarrow> n \<le> 2 ^ 30"
proof (rule ccontr)
  assume a: "memsys5MallocUnsafe m n = Some r" "pow_atom m" "\<not> n \<le> 2 ^ 30"
  then obtain e where "e \<le> 30" "nAtom m = 2 ^ e" by (auto simp: pow_atom_def)
  then have "round_loop (nAtom m) 0 n = None" using round_loop_overflow [of n e 0] a(3) by simp
  then show False using a(1) by (cases "maxRequest m < word_of_nat n") (simp_all add: memsys5MallocUnsafe_def Let_def)
qed

lemma realloc_domain: "memsys5Realloc m (Some p) n = Some r \<Longrightarrow> mem_inv m H F L \<Longrightarrow> L p = Some bs \<Longrightarrow> 0 < n \<Longrightarrow> n \<le> 2 ^ 30 \<or> r = (Some p, m) \<and> n \<le> int (memsys5Size m (Some p))"
  using malloc_domain [of m "nat n"] by (auto simp: memsys5Realloc_def mem_inv_def Let_def split: if_splits option.splits)

lemma mem_inv_step:
  assumes "mem_inv m H F L" "mem5_step (m, L) (m', L')"
  shows "\<exists>H' F'. mem_inv m' H' F' L'"
  using assms(2)
proof cases
  case (Malloc n p)
  then have u: "memsys5MallocUnsafe m (nat n) = Some (Some p, m')" "0 < n" by (auto simp: memsys5Malloc_def split: if_splits)
  show ?thesis using mem_inv_malloc [OF assms(1) _ malloc_domain [OF u(1) mem_invD(3) [OF assms(1)]]] u Malloc(1) by auto
next
  case (Malloc_fail n)
  then have "0 < n \<and> memsys5MallocUnsafe m (nat n) = Some (None, m') \<or> m' = m" by (auto simp: memsys5Malloc_def split: if_splits)
  then show ?thesis
  proof
    assume u: "0 < n \<and> memsys5MallocUnsafe m (nat n) = Some (None, m')"
    show ?thesis using mem_inv_malloc [OF assms(1) _ malloc_domain [OF conjunct2 [OF u] mem_invD(3) [OF assms(1)]]] u Malloc_fail by auto
  next
    assume "m' = m"
    then show ?thesis using assms(1) Malloc_fail by blast
  qed
next
  case (Free p bs)
  then show ?thesis using mem_inv_free [OF assms(1), of p bs] by (simp add: memsys5Free_def)
next
  case (Realloc p bs n q)
  from realloc_domain [OF Realloc(4) assms(1) Realloc(2,3)] show ?thesis
  proof
    assume "n \<le> 2 ^ 30"
    then show ?thesis using mem_inv_realloc [OF assms(1) Realloc(2,3)] Realloc(1,4) by auto
  next
    assume "(Some q, m') = (Some p, m) \<and> n \<le> int (memsys5Size m (Some p))"
    then show ?thesis using mem_inv_shrink [OF assms(1) Realloc(2,3)] Realloc(1) by auto
  qed
next
  case (Realloc_fail p bs n)
  from realloc_domain [OF Realloc_fail(4) assms(1) Realloc_fail(2,3)] have "n \<le> 2 ^ 30" by simp
  then show ?thesis using mem_inv_realloc [OF assms(1) Realloc_fail(2,3)] Realloc_fail(1,4) by auto
next
  case (Realloc_free p bs n r)
  then show ?thesis using mem_inv_free [OF assms(1), of p bs] by (auto simp: memsys5Free_def memsys5Realloc_def)
next
  case (Store p bs a b)
  let ?z = "(zPool m)(p + a := b)"
  have "map (\<lambda>c. ?z (p + c)) [0..<length bs] = bs[a := b]"
  proof (rule nth_equalityI)
    fix c assume "c < length (map (\<lambda>c. ?z (p + c)) [0..<length bs])"
    then show "map (\<lambda>c. ?z (p + c)) [0..<length bs] ! c = bs[a := b] ! c"
      using mem_invD(4) [OF assms(1) Store(3)] by (auto simp: live_def nth_list_update)
  qed simp
  moreover have "?z c = zPool m c" if "c < p \<or> p + length bs \<le> c" for c using that Store(4) by auto
  ultimately have "mem_inv (m\<lparr>zPool := ?z\<rparr>) H F (L(p := Some (bs[a := b])))"
    using mem_inv_store [OF assms(1) Store(3), of ?z] by metis
  then show ?thesis unfolding Store(1,2) by blast
qed

lemma mem5_run_inv: "mem5_run s \<Longrightarrow> \<exists>H F. mem_inv (fst s) H F (snd s)"
proof (induction rule: mem5_run.induct)
  case (Start nHeap mnReq m z m')
  then show ?case using Init_ok [of nHeap mnReq m z] by (auto simp: mem_inv_def alloc_def)
next
  case (Step s s')
  then show ?case using mem_inv_step [of "fst s" _ _ "snd s" "fst s'" "snd s'"] by auto
qed

section \<open>The properties\<close>

text \<open>
  C22: memory safety of the buddy allocator. In every state that a client reaches from a
  successful initialisation by asking for memory, freeing, changing sizes and storing into
  the allocations it holds, each outstanding allocation still has the bytes the client stored
  there, starts at a multiple of the atom size, lies inside the pool, and shares no byte with
  another outstanding allocation.
\<close>

theorem mem5_safe:
  assumes "mem5_run (m, L)" "L p = Some bs"
  shows "contents m p (length bs) = bs \<and> nAtom m dvd p \<and> p + length bs \<le> nBlock m * nAtom m \<and>
    (\<forall>q cs. L q = Some cs \<and> q \<noteq> p \<longrightarrow> p + length bs \<le> q \<or> q + length cs \<le> p)"
proof -
  obtain H F where i: "mem_inv m H F L" using mem5_run_inv [OF assms(1)] by auto
  obtain j k where l: "p = j * nAtom m" "H j = Some (k, False)" "length bs \<le> nAtom m * 2 ^ k" "\<And>a. a < length bs \<Longrightarrow> zPool m (p + a) = bs ! a"
    using mem_invD(4) [OF i assms(2)] by (auto simp: live_def)
  have "contents m p (length bs) = bs" by (rule nth_equalityI) (simp_all add: contents_def l(4))
  moreover have "(j + 2 ^ k) * nAtom m \<le> nBlock m * nAtom m"
    by (rule mult_le_mono1) (rule tiledD(3) [OF minvD(6) [OF mem_invD(1) [OF i]] l(2)])
  then have "p + length bs \<le> nBlock m * nAtom m" using l(1,3) by (simp add: algebra_simps)
  ultimately show ?thesis using l(1) mem_inv_apart [OF i assms(2)] by auto
qed

text \<open>
  C23: every request of at most \<open>2 ^ 30\<close> bytes is answered, and it is refused only if there is no
  room: then every aligned run of \<open>2 ^ l\<close> atoms of the pool that is large enough for the request
  meets the block of an outstanding allocation. Coalescing of free buddies never leaves two
  free halves apart.
\<close>

theorem mem5_serves:
  assumes "mem5_run (m, L)" "0 < n" "n \<le> 2 ^ 30"
  shows "\<exists>r m'. memsys5Malloc m n = Some (r, m') \<and> (case r of
      Some p \<Rightarrow> L p = None \<and> n \<le> int (memsys5Size m' (Some p))
    | None \<Rightarrow> \<forall>l a. l \<le> LOGMAX \<and> n \<le> int (nAtom m * 2 ^ l) \<and> 2 ^ l dvd a \<and> a + 2 ^ l \<le> nBlock m \<longrightarrow>
        (\<exists>q cs. L q = Some cs \<and> q < (a + 2 ^ l) * nAtom m \<and> a * nAtom m < q + memsys5Size m (Some q)))"
proof -
  obtain H F where i: "mem_inv m H F L" using mem5_run_inv [OF assms(1)] by auto
  note d = mem_invD [OF i]
  have t: "tiled (nBlock m) H" by (rule minvD(6) [OF d(1)])
  have pos: "0 < nAtom m" using minvD(1) [OF d(1)] by simp
  have n: "0 < nat n" "nat n \<le> 2 ^ 30" using assms(2,3) by simp_all
  from mem_inv_malloc [OF i n] obtain r m' where r: "memsys5MallocUnsafe m (nat n) = Some (r, m')" "nAtom m' = nAtom m" "case r of
      None \<Rightarrow> mem_inv m' H F L \<and> (\<forall>i k. H i = Some (k, True) \<longrightarrow> nAtom m * 2 ^ k < nat n)
    | Some p \<Rightarrow> \<exists>H' F' i l. L p = None \<and> mem_inv m' H' F' (L(p := Some (contents m' p (nat n)))) \<and> p = i * nAtom m \<and> H' i = Some (l, False) \<and>
        nat n \<le> nAtom m * 2 ^ l \<and> alloc H \<subseteq> alloc H' \<and> confined m m' (free_atoms H)" by blast
  have M: "memsys5Malloc m n = Some (r, m')" using r(1) assms(2) by (simp add: memsys5Malloc_def)
  show ?thesis
  proof (cases r)
    case (Some p)
    then obtain H' F' j l where p: "L p = None" "mem_inv m' H' F' (L(p := Some (contents m' p (nat n))))" "p = j * nAtom m" "H' j = Some (l, False)"
      "nat n \<le> nAtom m * 2 ^ l" using r(3) by auto
    have "memsys5Size m' (Some p) = nAtom m * 2 ^ l" using mem5_size [OF p(2,4)] r(2) p(3) by simp
    then have "n \<le> int (memsys5Size m' (Some p))" using p(5) by linarith
    then show ?thesis using M Some p(1) by auto
  next
    case None
    have small: "\<And>i k. H i = Some (k, True) \<Longrightarrow> nAtom m * 2 ^ k < nat n" using r(3) None by simp
    have "\<exists>q cs. L q = Some cs \<and> q < (a + 2 ^ l) * nAtom m \<and> a * nAtom m < q + memsys5Size m (Some q)"
      if al: "l \<le> LOGMAX" "n \<le> int (nAtom m * 2 ^ l)" "2 ^ l dvd a" "a + 2 ^ l \<le> nBlock m" for l a
    proof -
      have "\<not> all_free H a l"
      proof
        assume "all_free H a l"
        then obtain j k where j: "H j = Some (k, True)" "l \<le> k" using all_free_block [OF t d(2) _ al(3,1)] by blast
        have "nAtom m * 2 ^ l \<le> nAtom m * (2 :: nat) ^ k" using j(2) by (intro mult_le_mono2 power_increasing) simp_all
        then show False using small [OF j(1)] al(2) by linarith
      qed
      then obtain b where b: "a \<le> b" "b < a + 2 ^ l" "\<And>i k. H i = Some (k, True) \<Longrightarrow> i \<le> b \<Longrightarrow> \<not> b < i + 2 ^ k" unfolding all_free_def by blast
      have "b < nBlock m" using b(2) al(4) by linarith
      then obtain j k f where j: "H j = Some (k, f)" "j \<le> b" "b < j + 2 ^ k" using t unfolding tiled_def by blast
      then have h: "H j = Some (k, False)" using b(3) by (cases f) auto
      obtain cs where cs: "L (j * nAtom m) = Some cs" using d(5) [OF h] by blast
      have "j < a + 2 ^ l" using j(2) b(2) by linarith
      then have 1: "j * nAtom m < (a + 2 ^ l) * nAtom m" using pos by simp
      have "a < j + 2 ^ k" using j(3) b(1) by linarith
      then have "a * nAtom m < (j + 2 ^ k) * nAtom m" using pos by simp
      then have "a * nAtom m < j * nAtom m + memsys5Size m (Some (j * nAtom m))"
        unfolding mem5_size [OF i h] by (simp add: algebra_simps)
      then show ?thesis using cs 1 by blast
    qed
    then show ?thesis using M None by (intro exI [of _ r] exI [of _ m']) simp
  qed
qed

section \<open>A pool of two atoms\<close>

lemma init_skip: "nBlock m < off + 2 ^ j \<Longrightarrow> init_loop m off (j + d) = init_loop m off j"
proof (induction d)
  case (Suc d)
  have "(2::nat) ^ j \<le> 2 ^ (j + d)" by (intro power_increasing) simp_all
  then have "\<not> off + 2 ^ (j + d) \<le> nBlock m" using Suc.prems by linarith
  then show ?case using Suc by (simp add: Let_def)
qed simp

definition mem5_demo :: mem5 where
  "mem5_demo = \<lparr>nAtom = 8, nBlock = 2, zPool = (\<lambda>_. 0), nAlloc = 0, totalAlloc = 0, totalExcess = 0, currentOut = 0,
     currentCount = 0, maxOut = 0, maxCount = 0, maxRequest = 0, aiFreelist = replicate 31 (- 1), aCtrl = [0, 0]\<rparr>"

definition demo_pool :: mem5 where
  "demo_pool = memsys5Link (mem5_demo\<lparr>aCtrl := [0x21, 0]\<rparr>) 0 1"

lemma demo_init: "memsys5Init mem5_demo 20 8 (Some (\<lambda>_. 0)) = Some demo_pool"
proof -
  have l: "memsys5Log 8 = 3" by (simp add: memsys5Log_def log_loop.simps)
  have d: "mem5_demo\<lparr>nAtom := 8, nBlock := 2, zPool := \<lambda>_. 0, aCtrl := map (\<lambda>i. 0) [0..<2], aiFreelist := replicate 31 (- 1)\<rparr> = mem5_demo"
    by (simp add: mem5_demo_def upt_conv_Cons)
  have s: "init_loop mem5_demo 0 31 = init_loop mem5_demo 0 (Suc (Suc 0))"
    using init_skip [of mem5_demo 0 2 29] by (simp add: mem5_demo_def numeral_2_eq_2)
  have n: "nBlock (memsys5Link (mem5_demo\<lparr>aCtrl := [0x21, 0]\<rparr>) 0 1) = 2"
    by (simp add: memsys5Link_def Let_def mem5_demo_def)
  have "init_loop mem5_demo 0 31 = demo_pool"
    unfolding s using n by (simp add: demo_pool_def Let_def CTRL_FREE_def) (simp add: mem5_demo_def)
  then show ?thesis by (simp add: memsys5Init_def l atom_loop.simps Let_def d LOGMAX_def)
qed

lemma demo_links: "link_next demo_pool 0 = - 1" "link_prev demo_pool 0 = - 1" "nAtom demo_pool = 8" "nBlock demo_pool = 2"
  "aiFreelist demo_pool = (replicate 31 (- 1))[1 := 0]" "aCtrl demo_pool = [0x21, 0]"
  by (simp_all add: demo_pool_def memsys5Link_def Let_def link_set mem5_demo_def int32_def)

definition demo_first :: mem5 where
  "demo_first = snd (the (memsys5Malloc demo_pool 5))"

lemma link_other [simp]: "link_next (m\<lparr>maxRequest := r\<rparr>) i = link_next m i" "link_prev (m\<lparr>maxRequest := r\<rparr>) i = link_prev m i"
  by (simp_all add: link_next_def link_prev_def)

lemma memsys5Link_ctrl: "aCtrl (memsys5Link m i k) = aCtrl m"
  by (simp add: memsys5Link_def Let_def)

definition demo_second :: mem5 where
  "demo_second = memsys5Link (demo_pool\<lparr>maxRequest := 5, aiFreelist := replicate 31 (- 1), aCtrl := [0x21, 0x20]\<rparr>) 1 0"

lemma demo_second: "memsys5Malloc demo_pool 5 = Some (Some 0, malloc_stats (demo_second\<lparr>aCtrl := [0, 0x20]\<rparr>) 5 8)"
proof -
  let ?m = "demo_pool\<lparr>maxRequest := 5\<rparr>"
  have fl: "(replicate 31 (- 1))[Suc 0 := 0 :: int] ! 0 = - 1" "(replicate 31 (- 1))[Suc 0 := 0 :: int] ! Suc 0 = 0" by simp_all
  have b: "bin_loop ((replicate 31 (- 1))[Suc 0 := 0]) 0 = 1"
    by (subst bin_loop.simps, subst bin_loop.simps) (simp add: LOGMAX_def fl)
  have u: "memsys5Unlink ?m 0 1 = demo_pool\<lparr>maxRequest := 5, aiFreelist := replicate 31 (- 1)\<rparr>"
    unfolding memsys5Unlink_def Let_def by (simp add: demo_links list_eq_iff_nth_eq nth_list_update)
  have f: "memsys5UnlinkFirst ?m 1 = Some (0, demo_pool\<lparr>maxRequest := 5, aiFreelist := replicate 31 (- 1)\<rparr>)"
    unfolding memsys5UnlinkFirst_def using u by (simp add: demo_links fl first_loop.simps)
  have "maxRequest demo_pool = 0"
    by (simp add: demo_pool_def memsys5Link_def Let_def mem5_demo_def set_next_def set_prev_def)
  then show ?thesis
    by (simp add: memsys5Malloc_def memsys5MallocUnsafe_def Let_def demo_links round_loop.simps b [unfolded One_nat_def] f [unfolded One_nat_def] demo_links memsys5Link_ctrl CTRL_FREE_def demo_second_def LOGMAX_def)
qed

definition demo_third :: mem5 where
  "demo_third = malloc_stats (demo_second\<lparr>aCtrl := [0, 0x20]\<rparr>) 5 8"

definition demo_stored :: mem5 where
  "demo_stored = demo_third\<lparr>zPool := (zPool demo_third)(3 := 7)\<rparr>"

lemma demo_stored_fields: "nAtom demo_stored = 8" "nBlock demo_stored = 2" "aiFreelist demo_stored = (replicate 31 (- 1))[0 := 1]"
  "link_next demo_stored 1 = - 1" "link_prev demo_stored 1 = - 1"
proof -
  have g: "get_int (p(3 := x)) 8 = get_int p 8" "get_int (p(3 := x)) 12 = get_int p 12" for p x by (simp_all add: get_int_def)
  have s: "same (demo_second\<lparr>aCtrl := [0, 0x20]\<rparr>) demo_third" unfolding demo_third_def by (rule malloc_stats_same)
  have d: "nAtom demo_second = 8" "nBlock demo_second = 2" "aiFreelist demo_second = (replicate 31 (- 1))[0 := 1]"
    by (simp_all add: demo_second_def memsys5Link_def Let_def demo_links)
  show "nAtom demo_stored = 8" "nBlock demo_stored = 2" "aiFreelist demo_stored = (replicate 31 (- 1))[0 := 1]"
    using s d by (simp_all add: demo_stored_def same_def)
  have "link_next demo_second 1 = - 1" "link_prev demo_second 1 = - 1"
    by (simp_all add: demo_second_def memsys5Link_def Let_def link_set int32_def demo_links)
  then show "link_next demo_stored 1 = - 1" "link_prev demo_stored 1 = - 1"
    using s d by (simp_all add: demo_stored_def same_def link_next_def link_prev_def g)
qed

lemma demo_again: "\<exists>m. memsys5Malloc demo_stored 3 = Some (Some 8, m)"
proof -
  define u where "u = (if maxRequest demo_stored < 3 then demo_stored\<lparr>maxRequest := 3\<rparr> else demo_stored)"
  have f: "nAtom u = 8" "aiFreelist u = (replicate 31 (- 1))[0 := 1]" "link_next u (Suc 0) = - 1" "link_prev u (Suc 0) = - 1"
    by (simp_all add: u_def demo_stored_fields demo_stored_fields [unfolded One_nat_def])
  have w: "(word_of_nat 3 :: u32) = 3" by simp
  have b: "bin_loop ((replicate 31 (- 1))[0 := 1]) 0 = 0" by (subst bin_loop.simps) (simp add: LOGMAX_def)
  have n: "nAtom (memsys5Unlink u 1 0) = 8" unfolding memsys5Unlink_def Let_def by (simp add: f)
  have "memsys5UnlinkFirst u 0 = Some (1, memsys5Unlink u 1 0)"
    unfolding memsys5UnlinkFirst_def by (simp add: first_loop.simps f)
  then have "\<exists>m. memsys5MallocUnsafe demo_stored 3 = Some (Some (1 * 8), m)"
    unfolding memsys5MallocUnsafe_def Let_def w u_def [symmetric]
    using n by (simp add: f b round_loop.simps LOGMAX_def)
  then show ?thesis by (simp add: memsys5Malloc_def)
qed

lemma demo_run: "mem5_run (demo_pool, \<lambda>_. None)"
  "mem5_run (demo_stored, [0 \<mapsto> (contents demo_third 0 5)[3 := 7]])"
proof -
  show 1: "mem5_run (demo_pool, \<lambda>_. None)" by (rule mem5_run.Start [OF _ _ demo_init]) simp_all
  have "mem5_step (demo_pool, \<lambda>_. None) (demo_third, [0 \<mapsto> contents demo_third 0 5])"
    using mem5_step.Malloc [OF demo_second, of "\<lambda>_. None"] by (simp add: demo_third_def)
  then have 2: "mem5_run (demo_third, [0 \<mapsto> contents demo_third 0 5])" by (rule mem5_run.Step [OF 1])
  have "mem5_step (demo_third, [0 \<mapsto> contents demo_third 0 5]) (demo_stored, [0 \<mapsto> (contents demo_third 0 5)[3 := 7]])"
    using mem5_step.Store [of "[0 \<mapsto> contents demo_third 0 5]" 0 _ 3 demo_third 7] by (simp add: contents_def demo_stored_def)
  then show "mem5_run (demo_stored, [0 \<mapsto> (contents demo_third 0 5)[3 := 7]])" by (rule mem5_run.Step [OF 2])
qed

theorem mem5_safe_witness:
  "\<exists>m. memsys5Malloc demo_stored 3 = Some (Some 8, m) \<and> contents m 0 5 = (contents demo_third 0 5)[3 := 7]"
proof -
  obtain m where m: "memsys5Malloc demo_stored 3 = Some (Some 8, m)" using demo_again by blast
  let ?L = "[0 \<mapsto> (contents demo_third 0 5)[3 := 7], 8 \<mapsto> contents m 8 3]"
  have "mem5_run (m, ?L)" using mem5_run.Step [OF demo_run(2) mem5_step.Malloc [OF m]] by simp
  from mem5_safe [OF this, of 0 "(contents demo_third 0 5)[3 := 7]"] show ?thesis using m by (simp add: contents_def)
qed

theorem mem5_serves_witness:
  "\<exists>r m. memsys5Malloc demo_stored 9 = Some (r, m) \<and> (r = None \<longrightarrow> memsys5Size demo_stored (Some 0) \<noteq> 0)"
proof -
  have "(9::int) \<le> 2 ^ 30" by simp
  from mem5_serves [OF demo_run(2) _ this] obtain r m where r: "memsys5Malloc demo_stored 9 = Some (r, m)"
    "case r of Some p \<Rightarrow> [0 \<mapsto> (contents demo_third 0 5)[3 := 7]] p = None \<and> 9 \<le> int (memsys5Size m (Some p))
    | None \<Rightarrow> \<forall>l a. l \<le> LOGMAX \<and> 9 \<le> int (nAtom demo_stored * 2 ^ l) \<and> 2 ^ l dvd a \<and> a + 2 ^ l \<le> nBlock demo_stored \<longrightarrow>
        (\<exists>q cs. [0 \<mapsto> (contents demo_third 0 5)[3 := 7]] q = Some cs \<and> q < (a + 2 ^ l) * nAtom demo_stored \<and> a * nAtom demo_stored < q + memsys5Size demo_stored (Some q))"
    by auto
  have "memsys5Size demo_stored (Some 0) \<noteq> 0" if "r = None"
  proof -
    have "\<forall>l a. l \<le> LOGMAX \<and> 9 \<le> int (nAtom demo_stored * 2 ^ l) \<and> 2 ^ l dvd a \<and> a + 2 ^ l \<le> nBlock demo_stored \<longrightarrow>
        (\<exists>q cs. [0 \<mapsto> (contents demo_third 0 5)[3 := 7]] q = Some cs \<and> q < (a + 2 ^ l) * nAtom demo_stored \<and> a * nAtom demo_stored < q + memsys5Size demo_stored (Some q))"
      using r(2) that by simp
    from spec [OF spec [OF this], of 1 0] show ?thesis by (simp add: LOGMAX_def demo_stored_fields split: if_splits)
  qed
  then show ?thesis using r(1) by blast
qed

end
