(* ===== verification/JournalFile.thy ===== *)
theory JournalFile
  imports Varint
begin

text \<open>
  The contract of a journal opened for writing at its end and reading anywhere, and the part
  of the pager that rests on it: 32-bit fields and sub-journal records (\<^verbatim>\<open>write32bits\<close>,
  \<^verbatim>\<open>read32bits\<close>, \<^verbatim>\<open>subjournalPage\<close> and the reads of \<^verbatim>\<open>pager_playback_one_page\<close> in \<^verbatim>\<open>pager.c\<close>).
  The in-memory journal and the buffered journal file provide the contract.
\<close>

text \<open>The methods \<^verbatim>\<open>xWrite\<close> and \<^verbatim>\<open>xRead\<close> of \<^verbatim>\<open>sqlite3_io_methods\<close>; an access to invalid memory is \<open>None\<close>.\<close>

type_synonym 'f xwrite = "'f \<Rightarrow> u8 list \<Rightarrow> nat \<Rightarrow> outcomes \<Rightarrow> (rc \<times> 'f \<times> outcomes) option"
type_synonym 'f xread = "'f \<Rightarrow> nat \<Rightarrow> nat \<Rightarrow> (rc \<times> u8 list \<times> 'f) option"

section \<open>The code of the pager\<close>

definition bytes_of :: "u8 list \<Rightarrow> bytes" where
  "bytes_of bs i = bs ! i"

definition read32bits :: "'f xread \<Rightarrow> 'f \<Rightarrow> nat \<Rightarrow> (rc \<times> u32 \<times> 'f) option" where
  "read32bits xRead fd offset =
    (case xRead fd 4 offset of None \<Rightarrow> None
     | Some (rc, ac, fd) \<Rightarrow> Some (rc, if rc = SQLITE_OK then sqlite3Get4byte (bytes_of ac) else 0, fd))"

definition write32bits :: "'f xwrite \<Rightarrow> 'f \<Rightarrow> nat \<Rightarrow> u32 \<Rightarrow> outcomes \<Rightarrow> (rc \<times> 'f \<times> outcomes) option" where
  "write32bits xWrite fd offset val os = xWrite fd (sqlite3Put4byte val) offset os"

text \<open>The offset is a product of 32-bit integers, extended afterwards.\<close>

definition subjournal_offset :: "nat \<Rightarrow> nat \<Rightarrow> nat" where
  "subjournal_offset nSubRec pageSize = nSubRec * (4 + pageSize) mod 2 ^ 32"

text \<open>\<^verbatim>\<open>subjournalPage\<close> up to the counter: the record is appended and \<^verbatim>\<open>nSubRec\<close> incremented.\<close>

definition subjournalPage :: "'f xwrite \<Rightarrow> nat \<Rightarrow> 'f \<Rightarrow> nat \<Rightarrow> u32 \<Rightarrow> u8 list \<Rightarrow> outcomes \<Rightarrow>
    (rc \<times> 'f \<times> nat \<times> outcomes) option" where
  "subjournalPage xWrite pageSize sjfd nSubRec pgno pData os =
    (case write32bits xWrite sjfd (subjournal_offset nSubRec pageSize) pgno os of None \<Rightarrow> None
     | Some (rc, sjfd, os) \<Rightarrow>
        if rc = SQLITE_OK then
          (case xWrite sjfd (take pageSize pData) (subjournal_offset nSubRec pageSize + 4) os of None \<Rightarrow> None
           | Some (rc, sjfd, os) \<Rightarrow>
              Some (rc, sjfd, if rc = SQLITE_OK then nSubRec + 1 else nSubRec, os))
        else Some (rc, sjfd, nSubRec, os))"

text \<open>The reads of \<^verbatim>\<open>pager_playback_one_page\<close> on a sub-journal: page number, page, next offset.\<close>

definition playback_read :: "'f xread \<Rightarrow> nat \<Rightarrow> 'f \<Rightarrow> nat \<Rightarrow> (rc \<times> u32 \<times> u8 list \<times> nat \<times> 'f) option" where
  "playback_read xRead pageSize jfd offset =
    (case read32bits xRead jfd offset of None \<Rightarrow> None
     | Some (rc, pgno, jfd) \<Rightarrow>
        if rc \<noteq> SQLITE_OK then Some (rc, pgno, [], offset, jfd) else
        (case xRead jfd pageSize (offset + 4) of None \<Rightarrow> None
         | Some (rc, aData, jfd) \<Rightarrow>
            Some (rc, pgno, aData, if rc = SQLITE_OK then offset + pageSize + 4 else offset, jfd)))"

text \<open>The loops of the callers: appending records, and playing back \<open>k\<close> records from an offset.\<close>

fun subjournal_pages :: "'f xwrite \<Rightarrow> nat \<Rightarrow> 'f \<Rightarrow> nat \<Rightarrow> (u32 \<times> u8 list) list \<Rightarrow> outcomes \<Rightarrow>
    (rc \<times> 'f \<times> nat \<times> outcomes) option" where
  "subjournal_pages xWrite pageSize sjfd nSubRec [] os = Some (SQLITE_OK, sjfd, nSubRec, os)"
| "subjournal_pages xWrite pageSize sjfd nSubRec ((pgno, pData) # rs) os =
    (case subjournalPage xWrite pageSize sjfd nSubRec pgno pData os of None \<Rightarrow> None
     | Some (rc, sjfd, nSubRec, os) \<Rightarrow>
        if rc = SQLITE_OK then subjournal_pages xWrite pageSize sjfd nSubRec rs os
        else Some (rc, sjfd, nSubRec, os))"

fun playback_reads :: "'f xread \<Rightarrow> nat \<Rightarrow> 'f \<Rightarrow> nat \<Rightarrow> nat \<Rightarrow> (rc \<times> (u32 \<times> u8 list) list \<times> 'f) option" where
  "playback_reads xRead pageSize jfd offset 0 = Some (SQLITE_OK, [], jfd)"
| "playback_reads xRead pageSize jfd offset (Suc k) =
    (case playback_read xRead pageSize jfd offset of None \<Rightarrow> None
     | Some (rc, pgno, aData, offset, jfd) \<Rightarrow>
        if rc \<noteq> SQLITE_OK then Some (rc, [], jfd) else
        (case playback_reads xRead pageSize jfd offset k of None \<Rightarrow> None
         | Some (rc, rs, jfd) \<Rightarrow> Some (rc, (pgno, aData) # rs, jfd)))"

section \<open>The contract\<close>

text \<open>
  \<open>content\<close> is the file as a list of bytes. A write at the end appends on success. A read
  inside the file returns the bytes there, if the file allows a read at that offset; after
  a read, every offset that is inside the file is allowed.
\<close>

locale journal_file =
  fixes content :: "'f \<Rightarrow> u8 list"
    and valid :: "'f \<Rightarrow> bool"
    and readable :: "'f \<Rightarrow> nat \<Rightarrow> bool"
    and xWrite :: "'f xwrite"
    and xRead :: "'f xread"
  assumes write_end: "valid f \<Longrightarrow> off = length (content f) \<Longrightarrow> \<exists>rc f' os'. xWrite f data off os = Some (rc, f', os') \<and>
      valid f' \<and> (rc = SQLITE_OK \<longrightarrow> content f' = content f @ data \<and> (\<forall>o'. readable f o' \<longrightarrow> readable f' o')) \<and>
      (os = [] \<longrightarrow> rc = SQLITE_OK \<and> os' = [])"
    and read_inside: "valid f \<Longrightarrow> 0 < n \<Longrightarrow> off + n \<le> length (content f) \<Longrightarrow> readable f off \<Longrightarrow>
      \<exists>f'. xRead f n off = Some (SQLITE_OK, take n (drop off (content f)), f') \<and> valid f' \<and> content f' = content f \<and>
        (\<forall>o' < length (content f). readable f' o')"
begin

text \<open>The bytes of a sub-journal record.\<close>

definition record_bytes :: "nat \<Rightarrow> u32 \<times> u8 list \<Rightarrow> u8 list" where
  "record_bytes pageSize r = sqlite3Put4byte (fst r) @ take pageSize (snd r)"

lemma length_Put4byte [simp]: "length (sqlite3Put4byte v) = 4"
  by (simp add: sqlite3Put4byte_def)

lemma Get4byte_bytes: "take 4 bs = sqlite3Put4byte v \<Longrightarrow> sqlite3Get4byte (bytes_of (take 4 bs)) = v"
  by (rule Put4byte_Get4byte) (simp add: starts_with_def bytes_of_def)

lemma subjournalPage_appends:
  assumes f: "valid f" and n: "length (content f) = nSubRec * (4 + pageSize)" "length (content f) < 2 ^ 32"
    and d: "length pData = pageSize"
  shows "\<exists>rc f' n' os'. subjournalPage xWrite pageSize f nSubRec pgno pData os = Some (rc, f', n', os') \<and>
    valid f' \<and> (os = [] \<longrightarrow> rc = SQLITE_OK \<and> os' = []) \<and>
    (rc = SQLITE_OK \<longrightarrow> n' = nSubRec + 1 \<and> content f' = content f @ record_bytes pageSize (pgno, pData) \<and>
       (\<forall>o'. readable f o' \<longrightarrow> readable f' o'))"
proof -
  have o: "subjournal_offset nSubRec pageSize = length (content f)" using n by (simp add: subjournal_offset_def)
  from write_end [OF f refl, of "sqlite3Put4byte pgno" os] obtain rc1 f1 os1 where
    w1: "xWrite f (sqlite3Put4byte pgno) (length (content f)) os = Some (rc1, f1, os1)" "valid f1"
      "rc1 = SQLITE_OK \<longrightarrow> content f1 = content f @ sqlite3Put4byte pgno \<and> (\<forall>o'. readable f o' \<longrightarrow> readable f1 o')"
      "os = [] \<longrightarrow> rc1 = SQLITE_OK \<and> os1 = []" by blast
  show ?thesis
  proof (cases "rc1 = SQLITE_OK")
    case True
    with w1(3) have c: "length (content f) + 4 = length (content f1)" by simp
    from write_end [OF w1(2) c, of "take pageSize pData" os1] obtain rc2 f2 os2 where
      "xWrite f1 (take pageSize pData) (length (content f) + 4) os1 = Some (rc2, f2, os2)" "valid f2"
        "rc2 = SQLITE_OK \<longrightarrow> content f2 = content f1 @ take pageSize pData \<and> (\<forall>o'. readable f1 o' \<longrightarrow> readable f2 o')"
        "os1 = [] \<longrightarrow> rc2 = SQLITE_OK \<and> os2 = []" by blast
    then show ?thesis
      using w1 True o d by (auto simp: subjournalPage_def write32bits_def record_bytes_def)
  next
    case False
    then show ?thesis using w1 o by (auto simp: subjournalPage_def write32bits_def)
  qed
qed

lemma subjournal_pages_append:
  assumes "\<forall>r \<in> set rs. length (snd r) = pageSize"
  shows "valid f \<Longrightarrow> length (content f) = nSubRec * (4 + pageSize) \<Longrightarrow> (nSubRec + length rs) * (4 + pageSize) < 2 ^ 32 \<Longrightarrow>
    \<exists>rc f' n' os'. subjournal_pages xWrite pageSize f nSubRec rs os = Some (rc, f', n', os') \<and> valid f' \<and>
      (os = [] \<longrightarrow> rc = SQLITE_OK \<and> os' = []) \<and>
      (rc = SQLITE_OK \<longrightarrow> n' = nSubRec + length rs \<and> content f' = content f @ concat (map (record_bytes pageSize) rs) \<and>
         (\<forall>o'. readable f o' \<longrightarrow> readable f' o'))"
  using assms
proof (induction rs arbitrary: f nSubRec os)
  case (Cons r rs)
  obtain pgno pData where r: "r = (pgno, pData)" by (cases r)
  have d: "length pData = pageSize" using Cons.prems(4) r by simp
  have "nSubRec * (4 + pageSize) \<le> (nSubRec + length (r # rs)) * (4 + pageSize)" by (simp add: add_mult_distrib)
  then have l: "length (content f) < 2 ^ 32" using Cons.prems(2,3) by linarith
  from subjournalPage_appends [OF Cons.prems(1,2) l d, of pgno os] obtain rc1 f1 n1 os1 where
    s: "subjournalPage xWrite pageSize f nSubRec pgno pData os = Some (rc1, f1, n1, os1)" "valid f1"
      "os = [] \<longrightarrow> rc1 = SQLITE_OK \<and> os1 = []"
      "rc1 = SQLITE_OK \<longrightarrow> n1 = nSubRec + 1 \<and> content f1 = content f @ record_bytes pageSize (pgno, pData) \<and>
         (\<forall>o'. readable f o' \<longrightarrow> readable f1 o')" by blast
  show ?case
  proof (cases "rc1 = SQLITE_OK")
    case True
    with s(4) have c: "length (content f1) = (nSubRec + 1) * (4 + pageSize)" "n1 = nSubRec + 1"
      using Cons.prems(2) d by (simp_all add: record_bytes_def)
    have "(nSubRec + 1 + length rs) * (4 + pageSize) < 2 ^ 32" using Cons.prems(3) by simp
    from Cons.IH [OF s(2) c(1) this _, of os1] Cons.prems(4) obtain rc f' n' os' where
      "subjournal_pages xWrite pageSize f1 (nSubRec + 1) rs os1 = Some (rc, f', n', os')" "valid f'"
        "os1 = [] \<longrightarrow> rc = SQLITE_OK \<and> os' = []"
        "rc = SQLITE_OK \<longrightarrow> n' = nSubRec + 1 + length rs \<and> content f' = content f1 @ concat (map (record_bytes pageSize) rs) \<and>
          (\<forall>o'. readable f1 o' \<longrightarrow> readable f' o')" by auto
    then show ?thesis using s True c(2) r by auto
  next
    case False
    then show ?thesis using s r by auto
  qed
qed simp

lemma playback_read_record:
  assumes f: "valid f" and c: "content f = pre @ record_bytes pageSize r @ post" and d: "length (snd r) = pageSize" "0 < pageSize"
    and rd: "readable f (length pre)"
  shows "\<exists>f'. playback_read xRead pageSize f (length pre) =
      Some (SQLITE_OK, fst r, snd r, length pre + pageSize + 4, f') \<and> valid f' \<and> content f' = content f \<and>
      (\<forall>o' < length (content f). readable f' o')"
proof -
  have l: "length (content f) = length pre + 4 + pageSize + length post" using c d by (simp add: record_bytes_def)
  then have i1: "length pre + 4 \<le> length (content f)" by simp
  from read_inside [OF f _ i1 rd] obtain f1 where
    r1: "xRead f 4 (length pre) = Some (SQLITE_OK, take 4 (drop (length pre) (content f)), f1)" "valid f1"
      "content f1 = content f" "\<forall>o' < length (content f). readable f1 o'" by auto
  have t: "take 4 (drop (length pre) (content f)) = sqlite3Put4byte (fst r)" using c by (simp add: record_bytes_def)
  have i2: "length pre + 4 + pageSize \<le> length (content f1)" and rd2: "readable f1 (length pre + 4)"
    using r1(3,4) l d(2) by simp_all
  from read_inside [OF r1(2) d(2) i2 rd2] r1(3) obtain f2 where
    r2: "xRead f1 pageSize (length pre + 4) = Some (SQLITE_OK, take pageSize (drop (length pre + 4) (content f)), f2)"
      "valid f2" "content f2 = content f" "\<forall>o' < length (content f). readable f2 o'" by auto
  have "take pageSize (drop (length pre + 4) (content f)) = snd r" using c d by (simp add: record_bytes_def)
  then show ?thesis
    using r1 r2 t Get4byte_bytes [of "drop (length pre) (content f)" "fst r"]
    by (simp add: playback_read_def read32bits_def)
qed

lemma playback_reads_records:
  assumes "\<forall>r \<in> set rs. length (snd r) = pageSize" "0 < pageSize"
  shows "valid f \<Longrightarrow> content f = pre @ concat (map (record_bytes pageSize) rs) @ post \<Longrightarrow>
    (rs \<noteq> [] \<Longrightarrow> readable f (length pre)) \<Longrightarrow>
    \<exists>f'. playback_reads xRead pageSize f (length pre) (length rs) = Some (SQLITE_OK, rs, f') \<and> valid f' \<and> content f' = content f"
  using assms
proof (induction rs arbitrary: f pre)
  case (Cons r rs)
  have d: "length (snd r) = pageSize" using Cons.prems by simp
  have c: "content f = pre @ record_bytes pageSize r @ (concat (map (record_bytes pageSize) rs) @ post)" using Cons.prems(2) by simp
  from playback_read_record [OF Cons.prems(1) c d Cons.prems(5) Cons.prems(3)] obtain f1 where
    f1: "playback_read xRead pageSize f (length pre) = Some (SQLITE_OK, fst r, snd r, length pre + pageSize + 4, f1)"
      "valid f1" "content f1 = content f" "\<forall>o' < length (content f). readable f1 o'" by auto
  let ?pre = "pre @ record_bytes pageSize r"
  have l: "length ?pre = length pre + pageSize + 4" using d by (simp add: record_bytes_def)
  have c1: "content f1 = ?pre @ concat (map (record_bytes pageSize) rs) @ post" using c f1(3) by simp
  have "rs \<noteq> [] \<Longrightarrow> length ?pre < length (content f)"
    using c by (cases rs) (simp_all add: record_bytes_def)
  then have rd: "rs \<noteq> [] \<Longrightarrow> readable f1 (length ?pre)" using f1(4) by blast
  from Cons.IH [OF f1(2) c1 rd] Cons.prems(4,5) obtain f2 where
    "playback_reads xRead pageSize f1 (length ?pre) (length rs) = Some (SQLITE_OK, rs, f2)" "valid f2" "content f2 = content f1" by auto
  then show ?case using f1 l by (simp add: add.assoc)
qed simp

lemma subjournal_roundtrip:
  assumes f: "valid f" "content f = []" "readable f 0" and ps: "0 < pageSize"
    and rs: "\<forall>r \<in> set rs. length (snd r) = pageSize" "length rs * (4 + pageSize) < 2 ^ 32"
    and w: "subjournal_pages xWrite pageSize f 0 rs os = Some (SQLITE_OK, f', n, os')"
  shows "n = length rs \<and> (\<exists>f''. playback_reads xRead pageSize f' 0 n = Some (SQLITE_OK, rs, f''))"
proof -
  from subjournal_pages_append [OF rs(1) f(1), of 0 os] f rs(2) w have
    n: "n = length rs" and v: "valid f'" "content f' = concat (map (record_bytes pageSize) rs)" "readable f' 0" by auto
  have "content f' = [] @ concat (map (record_bytes pageSize) rs) @ []" using v(2) by simp
  from playback_reads_records [OF rs(1) ps v(1) this] v(3) n show ?thesis by auto
qed

end

end
