(* ===== verification/MemJournal.thy ===== *)
theory MemJournal
  imports JournalFile
begin

text \<open>
  The in-memory rollback journal of \<^verbatim>\<open>memjournal.c\<close>: a list of 1024-byte chunks with a cursor
  at the end of the file and one at the end of the last read.
\<close>

section \<open>The code\<close>

abbreviation (input) JOURNAL_CHUNKSIZE :: nat where "JOURNAL_CHUNKSIZE \<equiv> 1024"

text \<open>
  The chunk list from \<^verbatim>\<open>pFirst\<close> on; a chunk is the part of its buffer that has been written. A
  \<^verbatim>\<open>FileChunk *\<close> is the index of the chunk in the list, or \<open>None\<close> for the null pointer.
\<close>

record memjrnl =
  chunks :: "u8 list list"
  endOffset :: nat
  endChunk :: "nat option"
  readOffset :: nat
  readChunk :: "nat option"

definition sqlite3MemJournalOpen :: memjrnl where
  "sqlite3MemJournalOpen = \<lparr>chunks = [], endOffset = 0, endChunk = None, readOffset = 0, readChunk = None\<rparr>"

text \<open>The search for the chunk of an offset: \<open>k\<close> counts the chunks passed, \<open>off\<close> their bytes.\<close>

fun memjrnl_seek :: "nat \<Rightarrow> 'c list \<Rightarrow> nat \<Rightarrow> nat \<Rightarrow> nat option" where
  "memjrnl_seek k [] off ofst = None"
| "memjrnl_seek k (c # cs) off ofst =
    (if off + JOURNAL_CHUNKSIZE \<le> ofst then memjrnl_seek (k + 1) cs (off + JOURNAL_CHUNKSIZE) ofst else Some k)"

text \<open>
  The copying loop over the chunks from the \<open>k\<close>-th on: the bytes copied and the chunk the
  cursor stops at. The result \<open>None\<close> is an access through the null pointer or to bytes that
  were never written.
\<close>

fun memjrnl_copy :: "nat \<Rightarrow> u8 list list \<Rightarrow> nat \<Rightarrow> nat \<Rightarrow> (u8 list \<times> nat option) option" where
  "memjrnl_copy k [] nRead ofs = None"
| "memjrnl_copy k (c # cs) nRead ofs =
    (let iSpace = JOURNAL_CHUNKSIZE - ofs; nCopy = min nRead iSpace in
     if length c < ofs + nCopy then None
     else if nRead < iSpace then Some (take nCopy (drop ofs c), Some k)
     else if cs = [] then Some (take nCopy (drop ofs c), None)
     else if nRead = iSpace then Some (take nCopy (drop ofs c), Some (k + 1))
     else (case memjrnl_copy (k + 1) cs (nRead - iSpace) 0 of None \<Rightarrow> None
           | Some (zOut, pChunk) \<Rightarrow> Some (take nCopy (drop ofs c) @ zOut, pChunk)))"

definition memjrnlRead :: "memjrnl \<Rightarrow> nat \<Rightarrow> nat \<Rightarrow> (rc \<times> u8 list \<times> memjrnl) option" where
  "memjrnlRead p iAmt iOfst =
    (case (if readOffset p \<noteq> iOfst \<or> iOfst = 0 then memjrnl_seek 0 (chunks p) 0 iOfst else readChunk p) of
       None \<Rightarrow> None
     | Some k \<Rightarrow>
        (case memjrnl_copy k (drop k (chunks p)) iAmt (iOfst mod JOURNAL_CHUNKSIZE) of None \<Rightarrow> None
         | Some (zOut, pChunk) \<Rightarrow>
            Some (SQLITE_OK, zOut, p\<lparr>readOffset := iOfst + iAmt, readChunk := pChunk\<rparr>)))"

text \<open>One new chunk, linked behind the end chunk.\<close>

definition memjrnl_grow :: "memjrnl \<Rightarrow> memjrnl" where
  "memjrnl_grow p =
    (case endChunk p of
       None \<Rightarrow> p\<lparr>chunks := [[]], endChunk := Some 0\<rparr>
     | Some k \<Rightarrow> p\<lparr>chunks := take (k + 1) (chunks p) @ [[]], endChunk := Some (k + 1)\<rparr>)"

text \<open>The copy of a piece into the chunk \<open>k\<close>, which moves the end of the file.\<close>

definition memjrnl_store :: "memjrnl \<Rightarrow> nat \<Rightarrow> nat \<Rightarrow> u8 list \<Rightarrow> memjrnl" where
  "memjrnl_store p k iChunkOffset piece =
    p\<lparr>chunks := (chunks p)[k := take iChunkOffset (chunks p ! k) @ piece], endOffset := endOffset p + length piece\<rparr>"

text \<open>The writing loop; the offset argument of \<^verbatim>\<open>memjrnlWrite\<close> is only asserted.\<close>

function memjrnl_write :: "memjrnl \<Rightarrow> u8 list \<Rightarrow> outcomes \<Rightarrow> (rc \<times> memjrnl \<times> outcomes) option" where
  "memjrnl_write p zWrite os =
    (if zWrite = [] then Some (SQLITE_OK, p, os) else
     let iChunkOffset = endOffset p mod JOURNAL_CHUNKSIZE;
         iSpace = min (length zWrite) (JOURNAL_CHUNKSIZE - iChunkOffset) in
     (case (if iChunkOffset = 0 then
              (case alloc_next os of (ok, os) \<Rightarrow> (if ok then Some (memjrnl_grow p) else None, os))
            else (Some p, os)) of
        (None, os) \<Rightarrow> Some (SQLITE_IOERR_NOMEM, p, os)
      | (Some p, os) \<Rightarrow>
          (case endChunk p of None \<Rightarrow> None
           | Some k \<Rightarrow>
              memjrnl_write (memjrnl_store p k iChunkOffset (take iSpace zWrite)) (drop iSpace zWrite) os)))"
  by pat_completeness auto
termination
  by (relation "measure (\<lambda>(p, z, os). length z)") (auto simp: Let_def)

declare memjrnl_write.simps [simp del]

definition memjrnlWrite :: "memjrnl \<Rightarrow> u8 list \<Rightarrow> nat \<Rightarrow> outcomes \<Rightarrow> (rc \<times> memjrnl \<times> outcomes) option" where
  "memjrnlWrite p zBuf iOfst os = memjrnl_write p zBuf os"

definition memjrnlTruncate :: "memjrnl \<Rightarrow> nat \<Rightarrow> rc \<times> memjrnl" where
  "memjrnlTruncate p sz = (SQLITE_OK, sqlite3MemJournalOpen)"

definition memjrnlClose :: "memjrnl \<Rightarrow> rc \<times> memjrnl" where
  "memjrnlClose p = (SQLITE_OK, snd (memjrnlTruncate p 0))"

definition memjrnlSync :: "memjrnl \<Rightarrow> rc" where
  "memjrnlSync p = SQLITE_OK"

definition memjrnlFileSize :: "memjrnl \<Rightarrow> rc \<times> nat" where
  "memjrnlFileSize p = (SQLITE_OK, endOffset p)"

section \<open>Well-formed journals\<close>

text \<open>Every chunk is full but the last, which is not empty.\<close>

fun chunked :: "u8 list list \<Rightarrow> bool" where
  "chunked [] \<longleftrightarrow> True"
| "chunked (c # cs) \<longleftrightarrow> (if cs = [] then 0 < length c \<and> length c \<le> JOURNAL_CHUNKSIZE
     else length c = JOURNAL_CHUNKSIZE \<and> chunked cs)"

definition mj_content :: "memjrnl \<Rightarrow> u8 list" where
  "mj_content p = concat (chunks p)"

definition mj_valid :: "memjrnl \<Rightarrow> bool" where
  "mj_valid p \<longleftrightarrow> chunked (chunks p) \<and> endOffset p = length (mj_content p) \<and>
     endChunk p = (if chunks p = [] then None else Some (length (chunks p) - 1)) \<and>
     (case readChunk p of Some k \<Rightarrow> k < length (chunks p) \<and> k = readOffset p div JOURNAL_CHUNKSIZE
      | None \<Rightarrow> readOffset p mod JOURNAL_CHUNKSIZE = 0 \<and> readOffset p \<le> endOffset p)"

text \<open>The null read cursor of a read that ended at the end of the file, on a chunk boundary.\<close>

definition mj_readable :: "memjrnl \<Rightarrow> nat \<Rightarrow> bool" where
  "mj_readable p off \<longleftrightarrow> \<not> (readChunk p = None \<and> readOffset p = off \<and> off \<noteq> 0)"

lemma chunked_length: "chunked cs \<Longrightarrow> cs \<noteq> [] \<Longrightarrow>
    JOURNAL_CHUNKSIZE * (length cs - 1) < length (concat cs) \<and> length (concat cs) \<le> JOURNAL_CHUNKSIZE * length cs"
proof (induction cs)
  case (Cons c cs)
  then show ?case by (cases "cs = []") (auto simp: algebra_simps less_Suc_eq_0_disj neq_Nil_conv split: if_splits)
qed simp

lemma chunked_drop: "chunked cs \<Longrightarrow> k < length cs \<Longrightarrow>
    chunked (drop k cs) \<and> concat (drop k cs) = drop (JOURNAL_CHUNKSIZE * k) (concat cs)"
proof (induction cs arbitrary: k)
  case (Cons c cs)
  show ?case
  proof (cases k)
    case (Suc j)
    with Cons.prems have j: "j < length cs" "cs \<noteq> []" by auto
    then have c: "length c = JOURNAL_CHUNKSIZE" "chunked cs" using Cons.prems(1) by auto
    from Cons.IH [OF c(2) j(1)] show ?thesis using Suc c(1) by simp
  qed (use Cons.prems in simp)
qed simp

lemma seek_chunk: "off \<le> ofst \<Longrightarrow> ofst < off + JOURNAL_CHUNKSIZE * length cs \<Longrightarrow>
    memjrnl_seek k cs off ofst = Some (k + (ofst - off) div JOURNAL_CHUNKSIZE)"
proof (induction cs arbitrary: k off)
  case (Cons c cs)
  show ?case
  proof (cases "off + JOURNAL_CHUNKSIZE \<le> ofst")
    case True
    then obtain m where m: "ofst = off + JOURNAL_CHUNKSIZE + m" by (metis le_iff_add)
    have "(JOURNAL_CHUNKSIZE + m) div JOURNAL_CHUNKSIZE = Suc (m div JOURNAL_CHUNKSIZE)" by simp
    then show ?thesis using Cons.IH [of "off + JOURNAL_CHUNKSIZE" "k + 1"] Cons.prems m by (simp add: add.assoc)
  qed (use Cons.prems in simp)
qed simp

lemma copy_chunks: "chunked cs \<Longrightarrow> ofs < JOURNAL_CHUNKSIZE \<Longrightarrow> 0 < n \<Longrightarrow> ofs + n \<le> length (concat cs) \<Longrightarrow>
    memjrnl_copy k cs n ofs = Some (take n (drop ofs (concat cs)),
      if (ofs + n) div JOURNAL_CHUNKSIZE < length cs then Some (k + (ofs + n) div JOURNAL_CHUNKSIZE) else None)"
proof (induction cs arbitrary: k n ofs)
  case (Cons c cs)
  show ?case
  proof (cases "cs = []")
    case True
    then show ?thesis using Cons.prems by (auto simp: Let_def min_def)
  next
    case False
    then have c: "length c = JOURNAL_CHUNKSIZE" "chunked cs" using Cons.prems(1) by auto
    consider "n < JOURNAL_CHUNKSIZE - ofs" | "n = JOURNAL_CHUNKSIZE - ofs" | "JOURNAL_CHUNKSIZE - ofs < n" by linarith
    then show ?thesis
    proof cases
      case 1
      then show ?thesis using c Cons.prems False by (simp add: Let_def)
    next
      case 2
      then show ?thesis using c Cons.prems False by (cases cs) (simp_all add: Let_def)
    next
      case 3
      let ?m = "n - (JOURNAL_CHUNKSIZE - ofs)"
      have m: "0 < ?m" "0 + ?m \<le> length (concat cs)" using 3 Cons.prems c by simp_all
      have e: "ofs + n = JOURNAL_CHUNKSIZE + ?m" using 3 Cons.prems(2) by simp
      then have "(ofs + n) div JOURNAL_CHUNKSIZE = Suc (?m div JOURNAL_CHUNKSIZE)" by simp
      moreover have "take n (drop ofs (c @ concat cs)) = drop ofs c @ take ?m (concat cs)"
        using c 3 Cons.prems(2) by simp
      ultimately show ?thesis
        using 3 c False Cons.IH [OF c(2) _ m, of "k + 1"] Cons.prems(2) by (auto simp: Let_def)
    qed
  qed
qed simp

lemma memjrnlRead_inside:
  assumes p: "mj_valid p" and n: "0 < n" "off + n \<le> length (mj_content p)" and rd: "mj_readable p off"
  shows "\<exists>p'. memjrnlRead p n off = Some (SQLITE_OK, take n (drop off (mj_content p)), p') \<and> mj_valid p' \<and>
    mj_content p' = mj_content p \<and> (\<forall>o' < length (mj_content p). mj_readable p' o')"
proof -
  let ?cs = "chunks p" let ?k = "off div JOURNAL_CHUNKSIZE" let ?ofs = "off mod JOURNAL_CHUNKSIZE"
  have ch: "chunked ?cs" and ne: "?cs \<noteq> []" using p n by (auto simp: mj_valid_def mj_content_def)
  have len: "length (concat ?cs) \<le> JOURNAL_CHUNKSIZE * length ?cs" using chunked_length [OF ch ne] by simp
  have lt: "off < JOURNAL_CHUNKSIZE * length ?cs" using n len by (simp add: mj_content_def)
  then have k: "?k < length ?cs" by (simp add: less_mult_imp_div_less mult.commute)
  have at: "(if readOffset p \<noteq> off \<or> off = 0 then memjrnl_seek 0 ?cs 0 off else readChunk p) = Some ?k"
  proof (cases "readOffset p \<noteq> off \<or> off = 0")
    case False
    then have "readChunk p \<noteq> None" using rd by (auto simp: mj_readable_def)
    then show ?thesis using False p by (auto simp: mj_valid_def)
  qed (use seek_chunk [of 0 off ?cs 0] lt in simp)
  note cd = chunked_drop [OF ch k]
  have eq: "JOURNAL_CHUNKSIZE * ?k + ?ofs = off" by simp
  have l: "length (drop (JOURNAL_CHUNKSIZE * ?k) (concat ?cs)) = length (concat ?cs) - JOURNAL_CHUNKSIZE * ?k" by simp
  have o: "?ofs + n \<le> length (concat (drop ?k ?cs))"
    unfolding conjunct2 [OF cd] l using n(2) eq unfolding mj_content_def by linarith
  have "off + n = JOURNAL_CHUNKSIZE * ?k + (?ofs + n)" using eq by linarith
  then have q: "(off + n) div JOURNAL_CHUNKSIZE = ?k + (?ofs + n) div JOURNAL_CHUNKSIZE"
    by (metis div_mult_self2 zero_neq_numeral add.commute)
  have d: "drop ?ofs (concat (drop ?k ?cs)) = drop off (concat ?cs)"
    unfolding conjunct2 [OF cd] drop_drop using eq by (simp add: add.commute)
  have "(?ofs + n) div JOURNAL_CHUNKSIZE < length (drop ?k ?cs) \<longleftrightarrow> (off + n) div JOURNAL_CHUNKSIZE < length ?cs"
    using k q by (simp add: less_diff_conv add.commute)
  then have r: "memjrnl_copy ?k (drop ?k ?cs) n ?ofs = Some (take n (drop off (concat ?cs)),
      if (off + n) div JOURNAL_CHUNKSIZE < length ?cs then Some ((off + n) div JOURNAL_CHUNKSIZE) else None)"
    using copy_chunks [OF conjunct1 [OF cd] _ n(1) o, of ?k] q d by simp
  have stop: "(off + n) mod JOURNAL_CHUNKSIZE = 0 \<and> off + n = length (mj_content p)"
    if "\<not> (off + n) div JOURNAL_CHUNKSIZE < length ?cs"
  proof -
    have "length ?cs \<le> (off + n) div JOURNAL_CHUNKSIZE" using that by simp
    then have "JOURNAL_CHUNKSIZE * length ?cs \<le> off + n" using div_times_less_eq_dividend [of "off + n" JOURNAL_CHUNKSIZE]
      by linarith
    then have "off + n = JOURNAL_CHUNKSIZE * length ?cs" "off + n = length (mj_content p)"
      using n(2) len unfolding mj_content_def by linarith+
    then show ?thesis by simp
  qed
  show ?thesis
    using p at r stop n unfolding memjrnlRead_def
    by (auto simp: mj_valid_def mj_content_def mj_readable_def)
qed

text \<open>Appending, chunk by chunk; a failed allocation leaves a prefix of the data in the file.\<close>

lemma chunked_snoc: "chunked (cs @ [c]) \<longleftrightarrow> (\<forall>b \<in> set cs. length b = JOURNAL_CHUNKSIZE) \<and> 0 < length c \<and> length c \<le> JOURNAL_CHUNKSIZE"
  by (induction cs) auto

lemma chunked_last: "chunked cs \<Longrightarrow> cs \<noteq> [] \<Longrightarrow> \<exists>bs c. cs = bs @ [c] \<and> (\<forall>b \<in> set bs. length b = JOURNAL_CHUNKSIZE) \<and>
    0 < length c \<and> length c \<le> JOURNAL_CHUNKSIZE"
  by (metis append_butlast_last_id chunked_snoc)

lemma concat_full: "\<forall>b \<in> set bs. length b = JOURNAL_CHUNKSIZE \<Longrightarrow> length (concat bs) = JOURNAL_CHUNKSIZE * length bs"
  by (induction bs) auto

text \<open>One turn of the writing loop appends a non-empty piece of at most one chunk.\<close>

lemma write_turn:
  assumes p: "mj_valid p" and z: "z \<noteq> []" and ofs: "ofs = endOffset p mod JOURNAL_CHUNKSIZE"
    and iSpace: "m = min (length z) (JOURNAL_CHUNKSIZE - ofs)"
    and q: "q = (if ofs = 0 then memjrnl_grow p else p)"
  obtains k where "endChunk q = Some k" "mj_valid (memjrnl_store q k ofs (take m z))"
    "mj_content (memjrnl_store q k ofs (take m z)) = mj_content p @ take m z"
proof -
  have m: "0 < m" "m \<le> length z" "ofs + m \<le> JOURNAL_CHUNKSIZE" using z ofs iSpace by auto
  from p have ch: "chunked (chunks p)" and e: "endOffset p = length (mj_content p)"
    and ec: "endChunk p = (if chunks p = [] then None else Some (length (chunks p) - 1))"
    and rd: "case readChunk p of Some k \<Rightarrow> k < length (chunks p) \<and> k = readOffset p div JOURNAL_CHUNKSIZE
      | None \<Rightarrow> readOffset p mod JOURNAL_CHUNKSIZE = 0 \<and> readOffset p \<le> endOffset p" by (auto simp: mj_valid_def)
  have "\<exists>bs c. chunks q = bs @ [c] \<and> endChunk q = Some (length bs) \<and> length c = ofs \<and> (\<forall>b \<in> set bs. length b = JOURNAL_CHUNKSIZE) \<and>
      concat bs @ c = mj_content p \<and> length (chunks p) \<le> length bs + 1 \<and> endOffset q = endOffset p \<and>
      readChunk q = readChunk p \<and> readOffset q = readOffset p"
  proof (cases "chunks p = []")
    case True
    then show ?thesis using q ofs e ec by (simp add: memjrnl_grow_def mj_content_def)
  next
    case False
    then obtain bs c where c: "chunks p = bs @ [c]" "\<forall>b \<in> set bs. length b = JOURNAL_CHUNKSIZE" "0 < length c" "length c \<le> JOURNAL_CHUNKSIZE"
      using chunked_last [OF ch] by blast
    have l: "endOffset p = JOURNAL_CHUNKSIZE * length bs + length c" using e c concat_full [OF c(2)] by (simp add: mj_content_def)
    show ?thesis
    proof (cases "ofs = 0")
      case True
      then have "length c = JOURNAL_CHUNKSIZE" using l ofs c(3,4) by (cases "length c = JOURNAL_CHUNKSIZE") auto
      then show ?thesis using True q c ec
        by (intro exI [of _ "bs @ [c]"] exI [of _ "[]"]) (auto simp: memjrnl_grow_def mj_content_def)
    next
      case False
      then have "length c = ofs" using l ofs c(3,4) by (cases "length c = JOURNAL_CHUNKSIZE") auto
      then show ?thesis using False q c ec by (auto simp: mj_content_def)
    qed
  qed
  then obtain bs c where c: "chunks q = bs @ [c]" "endChunk q = Some (length bs)" "length c = ofs" "\<forall>b \<in> set bs. length b = JOURNAL_CHUNKSIZE"
      "concat bs @ c = mj_content p" "length (chunks p) \<le> length bs + 1" "endOffset q = endOffset p"
      "readChunk q = readChunk p" "readOffset q = readOffset p" by blast
  define r where "r = memjrnl_store q (length bs) ofs (take m z)"
  have cr: "chunks r = bs @ [c @ take m z]" and er: "endOffset r = endOffset p + m" "endChunk r = Some (length bs)"
    and rr: "readChunk r = readChunk p" "readOffset r = readOffset p"
    using c m(2) by (simp_all add: r_def memjrnl_store_def)
  have content: "mj_content r = mj_content p @ take m z" using cr c(5) by (simp add: mj_content_def)
  have "chunked (chunks r)" unfolding cr chunked_snoc using c(3,4) m z by simp
  moreover have "case readChunk r of Some k \<Rightarrow> k < length (chunks r) \<and> k = readOffset r div JOURNAL_CHUNKSIZE
      | None \<Rightarrow> readOffset r mod JOURNAL_CHUNKSIZE = 0 \<and> readOffset r \<le> endOffset r"
    unfolding rr er cr using rd c(6) by (auto split: option.splits)
  ultimately have "mj_valid r" using content cr er e m(2) by (simp add: mj_valid_def)
  then show thesis using that [OF c(2)] content by (simp add: r_def)
qed

lemma memjrnl_write_ok:
  "mj_valid p \<Longrightarrow> \<exists>rc p' os' m. memjrnl_write p z os = Some (rc, p', os') \<and> mj_valid p' \<and> m \<le> length z \<and>
     mj_content p' = mj_content p @ take m z \<and> (rc = SQLITE_OK \<longrightarrow> m = length z) \<and> (rc = SQLITE_OK \<or> rc = SQLITE_IOERR_NOMEM) \<and>
     (os = [] \<longrightarrow> rc = SQLITE_OK \<and> os' = []) \<and> readChunk p' = readChunk p \<and> readOffset p' = readOffset p"
proof (induction "length z" arbitrary: p z os rule: less_induct)
  case less
  show ?case
  proof (cases "z = []")
    case False
    define ofs where "ofs = endOffset p mod JOURNAL_CHUNKSIZE"
    define m where "m = min (length z) (JOURNAL_CHUNKSIZE - ofs)"
    define q where "q = (if ofs = 0 then memjrnl_grow p else p)"
    obtain b os1 where a: "(if ofs = 0 then alloc_next os else (True, os)) = (b, os1)" by fastforce
    have n: "os = [] \<Longrightarrow> b \<and> os1 = []" using a by (auto split: if_splits)
    have g: "readChunk q = readChunk p" "readOffset q = readOffset p"
      by (auto simp: q_def memjrnl_grow_def split: option.splits)
    have alloc: "(if ofs = 0 then (case alloc_next os of (ok, os) \<Rightarrow> (if ok then Some (memjrnl_grow p) else None, os))
        else (Some p, os)) = (if b then Some q else None, os1)"
      using a by (auto simp: q_def split: if_splits)
    have unfolded: "memjrnl_write p z os = (case (if b then Some q else None, os1) of
        (None, os) \<Rightarrow> Some (SQLITE_IOERR_NOMEM, p, os)
      | (Some p, os) \<Rightarrow> (case endChunk p of None \<Rightarrow> None
           | Some k \<Rightarrow> memjrnl_write (memjrnl_store p k ofs (take m z)) (drop m z) os))"
      by (subst memjrnl_write.simps)
        (use False in \<open>simp only: Let_def if_False flip: alloc ofs_def m_def\<close>)
    show ?thesis
    proof (cases b)
      case True
      obtain k where k: "endChunk q = Some k" "mj_valid (memjrnl_store q k ofs (take m z))"
        "mj_content (memjrnl_store q k ofs (take m z)) = mj_content p @ take m z"
        by (rule write_turn [OF less(2) False ofs_def m_def q_def])
      let ?r = "memjrnl_store q k ofs (take m z)"
      have step: "memjrnl_write p z os = memjrnl_write ?r (drop m z) os1"
        using unfolded True k(1) by simp
      have "0 < m" using False by (simp add: m_def ofs_def)
      then have "length (drop m z) < length z" using False by simp
      from less(1) [OF this k(2), of os1] obtain rc p' os' m' where
        r: "memjrnl_write ?r (drop m z) os1 = Some (rc, p', os')" "mj_valid p'" "m' \<le> length (drop m z)"
          "mj_content p' = mj_content ?r @ take m' (drop m z)" "rc = SQLITE_OK \<longrightarrow> m' = length (drop m z)"
          "rc = SQLITE_OK \<or> rc = SQLITE_IOERR_NOMEM" "os1 = [] \<longrightarrow> rc = SQLITE_OK \<and> os' = []"
          "readChunk p' = readChunk ?r" "readOffset p' = readOffset ?r" by blast
      have le: "m \<le> length z" by (simp add: m_def)
      have "mj_content p' = mj_content p @ take (m + m') z" using r(4) k(3) by (simp add: take_add)
      moreover have "readChunk p' = readChunk p" "readOffset p' = readOffset p"
        using r(8,9) g by (simp_all add: memjrnl_store_def)
      ultimately show ?thesis
        using step r n True le by (intro exI [of _ rc] exI [of _ p'] exI [of _ os'] exI [of _ "m + m'"]) auto
    next
      case f: False
      then have "memjrnl_write p z os = Some (SQLITE_IOERR_NOMEM, p, os1)" using unfolded by simp
      then show ?thesis using n f less(2) by (intro exI [of _ SQLITE_IOERR_NOMEM] exI [of _ p] exI [of _ os1] exI [of _ 0]) auto
    qed
  qed (use less(2) in \<open>auto simp: memjrnl_write.simps\<close>)
qed

section \<open>The in-memory journal is a journal file\<close>

interpretation mj: journal_file mj_content mj_valid mj_readable memjrnlWrite memjrnlRead
proof
  fix f :: memjrnl and data off os assume f: "mj_valid f" "off = length (mj_content f)"
  from memjrnl_write_ok [OF f(1), of data os] obtain rc f' os' m where
    "memjrnl_write f data os = Some (rc, f', os')" "mj_valid f'" "mj_content f' = mj_content f @ take m data"
      "rc = SQLITE_OK \<longrightarrow> m = length data" "os = [] \<longrightarrow> rc = SQLITE_OK \<and> os' = []"
      "readChunk f' = readChunk f" "readOffset f' = readOffset f" by blast
  then show "\<exists>rc f' os'. memjrnlWrite f data off os = Some (rc, f', os') \<and> mj_valid f' \<and>
      (rc = SQLITE_OK \<longrightarrow> mj_content f' = mj_content f @ data \<and> (\<forall>o'. mj_readable f o' \<longrightarrow> mj_readable f' o')) \<and>
      (os = [] \<longrightarrow> rc = SQLITE_OK \<and> os' = [])"
    by (auto simp: memjrnlWrite_def mj_readable_def)
qed (rule memjrnlRead_inside)

lemma open_valid: "mj_valid sqlite3MemJournalOpen" "mj_content sqlite3MemJournalOpen = []" "mj_readable sqlite3MemJournalOpen off"
  by (auto simp: sqlite3MemJournalOpen_def mj_valid_def mj_content_def mj_readable_def)

section \<open>Properties\<close>

text \<open>
  A write to a valid in-memory journal returns and appends: all of the data if the result is
  \<^verbatim>\<open>SQLITE_OK\<close>, a prefix of it if a chunk could not be allocated. The size the file reports is
  the number of bytes in it.
\<close>

theorem memjrnlWrite_appends:
  assumes "mj_valid p"
  shows "\<exists>rc p' os' m. memjrnlWrite p zBuf (snd (memjrnlFileSize p)) os = Some (rc, p', os') \<and> mj_valid p' \<and>
    mj_content p' = mj_content p @ take m zBuf \<and> snd (memjrnlFileSize p') = length (mj_content p') \<and>
    (rc = SQLITE_OK \<longrightarrow> m = length zBuf) \<and> (rc = SQLITE_OK \<or> rc = SQLITE_IOERR_NOMEM) \<and> (os = [] \<longrightarrow> rc = SQLITE_OK)"
proof -
  from memjrnl_write_ok [OF assms, of zBuf os] obtain rc p' os' m where
    "memjrnl_write p zBuf os = Some (rc, p', os')" "mj_valid p'" "mj_content p' = mj_content p @ take m zBuf"
      "rc = SQLITE_OK \<longrightarrow> m = length zBuf" "rc = SQLITE_OK \<or> rc = SQLITE_IOERR_NOMEM" "os = [] \<longrightarrow> rc = SQLITE_OK" by blast
  then show ?thesis by (auto simp: memjrnlWrite_def memjrnlFileSize_def mj_valid_def)
qed

lemma memjrnlWrite_appends_witness:
  "\<exists>rc p' os' m. memjrnlWrite sqlite3MemJournalOpen [1, 2, 3] (snd (memjrnlFileSize sqlite3MemJournalOpen)) [False] =
     Some (rc, p', os') \<and> mj_content p' = take m [1, 2, 3]"
  using memjrnlWrite_appends [OF open_valid(1), of "[1, 2, 3]" "[False]"] by (auto simp: open_valid)

text \<open>
  C4: Pages written to an in-memory sub-journal are played back as they were: whatever records
  \<^verbatim>\<open>subjournalPage\<close> appended successfully to a newly opened journal (of less than 4 GB), reading
  them in order returns the same page numbers and page images.
\<close>

theorem subjournal_playback:
  assumes "0 < pageSize" "\<forall>r \<in> set rs. length (snd r) = pageSize" "length rs * (4 + pageSize) < 2 ^ 32"
    and "subjournal_pages memjrnlWrite pageSize sqlite3MemJournalOpen 0 rs os = Some (SQLITE_OK, jfd, nSubRec, os')"
  shows "nSubRec = length rs \<and>
    (\<exists>jfd'. playback_reads memjrnlRead pageSize jfd (subjournal_offset 0 pageSize) nSubRec = Some (SQLITE_OK, rs, jfd'))"
  using mj.subjournal_roundtrip [OF open_valid assms] by (auto simp: subjournal_offset_def)

lemma subjournal_playback_witness:
  "\<exists>jfd os' jfd'. subjournal_pages memjrnlWrite 2 sqlite3MemJournalOpen 0 [(7, [1, 2])] [] = Some (SQLITE_OK, jfd, 1, os') \<and>
     playback_reads memjrnlRead 2 jfd (subjournal_offset 0 2) 1 = Some (SQLITE_OK, [(7, [1, 2])], jfd')"
proof -
  have "\<forall>r \<in> set [(7 :: u32, [1, 2 :: u8])]. length (snd r) = 2" by simp
  from mj.subjournal_pages_append [OF this open_valid(1), of 0 "[]"] obtain jfd n os' where
    w: "subjournal_pages memjrnlWrite 2 sqlite3MemJournalOpen 0 [(7, [1, 2])] [] = Some (SQLITE_OK, jfd, n, os')"
    by (auto simp: open_valid)
  from subjournal_playback [OF _ _ _ w] show ?thesis using w by auto
qed

text \<open>
  C40: A read that ends at the end of the file on a chunk boundary leaves a null read cursor; a
  read that continues there after the journal has grown goes through the null pointer.
\<close>

theorem memjrnl_stale_cursor:
  assumes "length a = JOURNAL_CHUNKSIZE" "b \<noteq> []"
  shows "\<exists>p1 p2 p3. memjrnlWrite sqlite3MemJournalOpen a 0 [] = Some (SQLITE_OK, p1, []) \<and>
    memjrnlRead p1 JOURNAL_CHUNKSIZE 0 = Some (SQLITE_OK, a, p2) \<and>
    memjrnlWrite p2 b JOURNAL_CHUNKSIZE [] = Some (SQLITE_OK, p3, []) \<and>
    JOURNAL_CHUNKSIZE + length b \<le> snd (memjrnlFileSize p3) \<and> memjrnlRead p3 (length b) JOURNAL_CHUNKSIZE = None"
proof -
  have o: "readChunk sqlite3MemJournalOpen = None" "readOffset sqlite3MemJournalOpen = 0"
    by (simp_all add: sqlite3MemJournalOpen_def)
  from memjrnl_write_ok [OF open_valid(1), of a "[]"] obtain p1 where
    p1: "memjrnl_write sqlite3MemJournalOpen a [] = Some (SQLITE_OK, p1, [])" "mj_valid p1" "mj_content p1 = a"
      "readChunk p1 = None" "readOffset p1 = 0" by (auto simp: open_valid o)
  have "chunks p1 \<noteq> []" "chunked (chunks p1)" using p1 assms(1) by (auto simp: mj_valid_def mj_content_def)
  then have "length (chunks p1) = 1"
    using chunked_length [of "chunks p1"] p1(3) assms(1) by (cases "length (chunks p1)") (auto simp: mj_content_def)
  then have c: "chunks p1 = [a]" using p1(3) by (auto simp: mj_content_def length_Suc_conv)
  have r: "memjrnlRead p1 JOURNAL_CHUNKSIZE 0 = Some (SQLITE_OK, a, p1\<lparr>readOffset := JOURNAL_CHUNKSIZE, readChunk := None\<rparr>)"
    using assms(1) by (simp add: memjrnlRead_def c)
  let ?p2 = "p1\<lparr>readOffset := JOURNAL_CHUNKSIZE, readChunk := None\<rparr>"
  have "mj_valid ?p2" using p1 assms(1) by (simp add: mj_valid_def mj_content_def)
  from memjrnl_write_ok [OF this, of b "[]"] obtain p3 where
    p3: "memjrnl_write ?p2 b [] = Some (SQLITE_OK, p3, [])" "mj_valid p3" "mj_content p3 = a @ b"
      "readChunk p3 = None" "readOffset p3 = JOURNAL_CHUNKSIZE" using p1(3) by (auto simp: mj_content_def)
  then have "memjrnlRead p3 (length b) JOURNAL_CHUNKSIZE = None" "endOffset p3 = JOURNAL_CHUNKSIZE + length b"
    using assms(1) by (simp_all add: memjrnlRead_def mj_valid_def)
  then show ?thesis using p1(1) r p3(1) by (auto simp: memjrnlWrite_def memjrnlFileSize_def)
qed

lemma memjrnl_stale_cursor_witness:
  "\<exists>p1 p2 p3. memjrnlWrite sqlite3MemJournalOpen (replicate 1024 7) 0 [] = Some (SQLITE_OK, p1, []) \<and>
    memjrnlRead p1 1024 0 = Some (SQLITE_OK, replicate 1024 7, p2) \<and>
    memjrnlWrite p2 [1] 1024 [] = Some (SQLITE_OK, p3, []) \<and> memjrnlRead p3 (length [1 :: u8]) 1024 = None"
  using memjrnl_stale_cursor [of "replicate 1024 7" "[1]", OF length_replicate] by blast

end
