(* ===== verification/Journal.thy ===== *)
theory Journal
  imports MemJournal
begin

text \<open>
  The buffered journal file of \<^verbatim>\<open>journal.c\<close>: writes go to a buffer until they no longer fit or
  the file is created explicitly, then to a file of the underlying VFS. The VFS is a
  parameter: its methods are a record of functions. What the code relies on is stated twice:
  \<open>journal_vfs\<close> is the contract of files that are only appended to and read, which the in-memory
  journal keeps too, and \<open>documented_vfs\<close> is what the interface documents of all methods.
\<close>

section \<open>The code\<close>

record 'r vfs =
  osOpen :: "outcomes \<Rightarrow> rc \<times> 'r \<times> outcomes"
  osWrite :: "'r xwrite"
  osRead :: "'r xread"
  osTruncate :: "'r \<Rightarrow> nat \<Rightarrow> rc \<times> 'r"
  osFileSize :: "'r \<Rightarrow> rc \<times> nat"
  osSync :: "'r \<Rightarrow> rc"

record 'r jrnl =
  nBuf :: nat
  zBuf :: "u8 list"
  iSize :: nat
  pReal :: "'r option"

definition createFile :: "'r vfs \<Rightarrow> 'r jrnl \<Rightarrow> outcomes \<Rightarrow> (rc \<times> 'r jrnl \<times> outcomes) option" where
  "createFile vfs p os =
    (case pReal p of
       Some _ \<Rightarrow> Some (SQLITE_OK, p, os)
     | None \<Rightarrow>
        (case osOpen vfs os of (rc, r, os) \<Rightarrow>
           if rc = SQLITE_OK then
             (if 0 < iSize p then
                (case osWrite vfs r (take (iSize p) (zBuf p)) 0 os of None \<Rightarrow> None
                 | Some (rc, r, os) \<Rightarrow> Some (rc, p\<lparr>pReal := Some r\<rparr>, os))
              else Some (SQLITE_OK, p\<lparr>pReal := Some r\<rparr>, os))
           else Some (rc, p, os)))"

definition jrnlRead :: "'r vfs \<Rightarrow> 'r jrnl \<Rightarrow> nat \<Rightarrow> nat \<Rightarrow> (rc \<times> u8 list \<times> 'r jrnl) option" where
  "jrnlRead vfs p iAmt iOfst =
    (case pReal p of
       Some r \<Rightarrow> (case osRead vfs r iAmt iOfst of None \<Rightarrow> None
                 | Some (rc, zOut, r) \<Rightarrow> Some (rc, zOut, p\<lparr>pReal := Some r\<rparr>))
     | None \<Rightarrow> if iSize p < iAmt + iOfst then Some (SQLITE_IOERR_SHORT_READ, [], p)
               else Some (SQLITE_OK, take iAmt (drop iOfst (zBuf p)), p))"

definition jrnlWrite :: "'r vfs \<Rightarrow> 'r jrnl \<Rightarrow> u8 list \<Rightarrow> nat \<Rightarrow> outcomes \<Rightarrow> (rc \<times> 'r jrnl \<times> outcomes) option" where
  "jrnlWrite vfs p data iOfst os =
    (case (if pReal p = None \<and> nBuf p < iOfst + length data then createFile vfs p os else Some (SQLITE_OK, p, os)) of
       None \<Rightarrow> None
     | Some (rc, p, os) \<Rightarrow>
        if rc = SQLITE_OK then
          (case pReal p of
             Some r \<Rightarrow> (case osWrite vfs r data iOfst os of None \<Rightarrow> None
                       | Some (rc, r, os) \<Rightarrow> Some (rc, p\<lparr>pReal := Some r\<rparr>, os))
           | None \<Rightarrow> Some (SQLITE_OK,
               p\<lparr>zBuf := take iOfst (zBuf p) @ data @ drop (iOfst + length data) (zBuf p),
                 iSize := if iSize p < iOfst + length data then iOfst + length data else iSize p\<rparr>, os))
        else Some (rc, p, os))"





definition sqlite3JournalCreate :: "'r vfs \<Rightarrow> 'r + 'r jrnl \<Rightarrow> outcomes \<Rightarrow> (rc \<times> ('r + 'r jrnl) \<times> outcomes) option" where
  "sqlite3JournalCreate vfs h os =
    (case h of Inl r \<Rightarrow> Some (SQLITE_OK, h, os)
     | Inr p \<Rightarrow> (case createFile vfs p os of None \<Rightarrow> None | Some (rc, p, os) \<Rightarrow> Some (rc, Inr p, os)))"

section \<open>The journal as a file of bytes\<close>

definition jrnl_content :: "('r \<Rightarrow> u8 list) \<Rightarrow> 'r jrnl \<Rightarrow> u8 list" where
  "jrnl_content content p = (case pReal p of Some r \<Rightarrow> content r | None \<Rightarrow> take (iSize p) (zBuf p))"

definition jrnl_valid :: "('r \<Rightarrow> bool) \<Rightarrow> 'r jrnl \<Rightarrow> bool" where
  "jrnl_valid valid p \<longleftrightarrow>
    (case pReal p of Some r \<Rightarrow> valid r | None \<Rightarrow> length (zBuf p) = nBuf p \<and> iSize p \<le> nBuf p)"

definition jrnl_readable :: "('r \<Rightarrow> nat \<Rightarrow> bool) \<Rightarrow> 'r jrnl \<Rightarrow> nat \<Rightarrow> bool" where
  "jrnl_readable readable p off = (case pReal p of Some r \<Rightarrow> readable r off | None \<Rightarrow> True)"

lemma jrnl_real [simp]:
  "jrnl_content content (p\<lparr>pReal := Some r\<rparr>) = content r" "jrnl_valid valid (p\<lparr>pReal := Some r\<rparr>) = valid r"
  "jrnl_readable readable (p\<lparr>pReal := Some r\<rparr>) = readable r"
  by (auto simp: jrnl_content_def jrnl_valid_def jrnl_readable_def)

lemma jrnl_buffered:
  "pReal p = None \<Longrightarrow> jrnl_content content p = take (iSize p) (zBuf p)"
  "pReal p = None \<Longrightarrow> jrnl_valid valid p \<longleftrightarrow> length (zBuf p) = nBuf p \<and> iSize p \<le> nBuf p"
  "pReal p = None \<Longrightarrow> jrnl_readable readable p off"
  by (auto simp: jrnl_content_def jrnl_valid_def jrnl_readable_def)

lemma jrnl_in_file:
  "pReal p = Some r \<Longrightarrow> jrnl_content content p = content r" "pReal p = Some r \<Longrightarrow> jrnl_valid valid p = valid r"
  "pReal p = Some r \<Longrightarrow> jrnl_readable readable p off = readable r off"
  by (auto simp: jrnl_content_def jrnl_valid_def jrnl_readable_def)

text \<open>A VFS whose files are journal files, and whose opened files are empty.\<close>

locale journal_vfs =
  journal_file content valid readable "osWrite vfs" "osRead vfs"
  for content :: "'r \<Rightarrow> u8 list" and valid readable and vfs :: "'r vfs" +
  assumes open_empty: "\<exists>rc r os'. osOpen vfs os = (rc, r, os') \<and> (os = [] \<longrightarrow> rc = SQLITE_OK \<and> os' = []) \<and>
      (rc = SQLITE_OK \<longrightarrow> valid r \<and> content r = [] \<and> (\<forall>i. readable r i))"
begin

abbreviation "jcontent \<equiv> jrnl_content content"
abbreviation "jvalid \<equiv> jrnl_valid valid"
abbreviation "jreadable \<equiv> jrnl_readable readable"

lemma createFile_ok:
  assumes p: "jvalid p"
  shows "\<exists>rc p' os'. createFile vfs p os = Some (rc, p', os') \<and> jvalid p' \<and> (os = [] \<longrightarrow> rc = SQLITE_OK \<and> os' = []) \<and>
    (rc = SQLITE_OK \<longrightarrow> pReal p' \<noteq> None \<and> jcontent p' = jcontent p \<and> (\<forall>i. jreadable p i \<longrightarrow> jreadable p' i))"
proof (cases "pReal p")
  case None
  obtain rc r os1 where op: "osOpen vfs os = (rc, r, os1)" "os = [] \<longrightarrow> rc = SQLITE_OK \<and> os1 = []"
    "rc = SQLITE_OK \<longrightarrow> valid r \<and> content r = [] \<and> (\<forall>i. readable r i)" using open_empty by blast
  show ?thesis
  proof (cases "rc = SQLITE_OK \<and> 0 < iSize p")
    case True
    then have r: "valid r" "0 = length (content r)" using op by simp_all
    from write_end [OF r, of "take (iSize p) (zBuf p)" os1] obtain rc2 r2 os2 where
      "osWrite vfs r (take (iSize p) (zBuf p)) 0 os1 = Some (rc2, r2, os2)" "valid r2"
        "rc2 = SQLITE_OK \<longrightarrow> content r2 = content r @ take (iSize p) (zBuf p) \<and> (\<forall>o'. readable r o' \<longrightarrow> readable r2 o')"
        "os1 = [] \<longrightarrow> rc2 = SQLITE_OK \<and> os2 = []" by blast
    then show ?thesis using op True None by (auto simp: createFile_def jrnl_buffered)
  next
    case False
    then show ?thesis using op None p by (auto simp: createFile_def jrnl_buffered)
  qed
next
  case (Some r)
  then show ?thesis using p by (simp add: createFile_def)
qed

lemma write_real:
  assumes "jvalid p" "pReal p = Some r" "off = length (jcontent p)"
  shows "\<exists>rc r' os'. osWrite vfs r data off os = Some (rc, r', os') \<and> valid r' \<and>
    (rc = SQLITE_OK \<longrightarrow> content r' = jcontent p @ data \<and> (\<forall>o'. jreadable p o' \<longrightarrow> readable r' o')) \<and>
    (os = [] \<longrightarrow> rc = SQLITE_OK \<and> os' = [])"
  using write_end [of r off data os] assms by (simp add: jrnl_in_file)

lemma jrnlWrite_end:
  assumes p: "jvalid p" and off: "off = length (jcontent p)"
  shows "\<exists>rc p' os'. jrnlWrite vfs p data off os = Some (rc, p', os') \<and> jvalid p' \<and>
    (rc = SQLITE_OK \<longrightarrow> jcontent p' = jcontent p @ data \<and> (\<forall>o'. jreadable p o' \<longrightarrow> jreadable p' o')) \<and>
    (os = [] \<longrightarrow> rc = SQLITE_OK \<and> os' = [])"
proof -
  obtain rc p1 os1 where c: "(if pReal p = None \<and> nBuf p < off + length data then createFile vfs p os else Some (SQLITE_OK, p, os)) =
      Some (rc, p1, os1)" "jvalid p1" "os = [] \<longrightarrow> rc = SQLITE_OK \<and> os1 = []"
    and ok: "rc = SQLITE_OK \<longrightarrow> jcontent p1 = jcontent p \<and> (\<forall>i. jreadable p i \<longrightarrow> jreadable p1 i) \<and>
      (pReal p1 = None \<longrightarrow> p1 = p \<and> off + length data \<le> nBuf p)"
    using createFile_ok [OF p, of os] p by (cases "pReal p = None \<and> nBuf p < off + length data") (auto simp: not_less)
  show ?thesis
  proof (cases "rc = SQLITE_OK")
    case True
    show ?thesis
    proof (cases "pReal p1")
      case None
      then have *: "p1 = p" "off + length data \<le> nBuf p" using ok True by simp_all
      have "off = iSize p" "length (zBuf p) = nBuf p" "iSize p \<le> nBuf p"
        using off p None * by (simp_all add: jrnl_buffered)
      then show ?thesis
        using c(1,3) True None * by (auto simp: jrnlWrite_def jrnl_content_def jrnl_valid_def jrnl_readable_def)
    next
      case (Some r)
      have "off = length (jcontent p1)" using ok True off by simp
      from write_real [OF c(2) Some this, of data os1] show ?thesis
        using c(1,3) ok True Some by (fastforce simp: jrnlWrite_def)
    qed
  next
    case False
    then show ?thesis using c by (auto simp: jrnlWrite_def)
  qed
qed

lemma jrnlRead_inside:
  assumes p: "jvalid p" and n: "0 < n" "off + n \<le> length (jcontent p)" and rd: "jreadable p off"
  shows "\<exists>p'. jrnlRead vfs p n off = Some (SQLITE_OK, take n (drop off (jcontent p)), p') \<and> jvalid p' \<and>
    jcontent p' = jcontent p \<and> (\<forall>o' < length (jcontent p). jreadable p' o')"
proof (cases "pReal p")
  case None
  then have "length (zBuf p) = nBuf p" "iSize p \<le> nBuf p" using p by (simp_all add: jrnl_buffered)
  moreover from this n have "off + n \<le> iSize p" using None by (simp add: jrnl_buffered)
  ultimately show ?thesis using None p
    by (auto simp: jrnlRead_def jrnl_buffered drop_take take_take)
next
  case (Some r)
  then show ?thesis using read_inside [of r n off] p n rd by (fastforce simp: jrnlRead_def jrnl_in_file)
qed

end

text \<open>A journal file over such a VFS is again a journal file.\<close>

sublocale journal_vfs \<subseteq> jf: journal_file jcontent jvalid jreadable "jrnlWrite vfs" "jrnlRead vfs"
  by unfold_locales (blast intro: jrnlWrite_end jrnlRead_inside)+

text \<open>The VFS whose files are the in-memory journals of \<^verbatim>\<open>memjournal.c\<close>.\<close>

definition mem_vfs :: "memjrnl vfs" where
  "mem_vfs = \<lparr>osOpen = (\<lambda>os. (SQLITE_OK, sqlite3MemJournalOpen, os)), osWrite = memjrnlWrite, osRead = memjrnlRead,
     osTruncate = memjrnlTruncate, osFileSize = memjrnlFileSize, osSync = memjrnlSync\<rparr>"

interpretation mv: journal_vfs mj_content mj_valid mj_readable mem_vfs
proof -
  have "journal_file mj_content mj_valid mj_readable (osWrite mem_vfs) (osRead mem_vfs)"
    using mj.journal_file_axioms by (simp add: mem_vfs_def)
  then show "journal_vfs mj_content mj_valid mj_readable mem_vfs"
    by (rule journal_vfs.intro) (unfold_locales, auto simp: mem_vfs_def open_valid)
qed

section \<open>Files of bytes\<close>


























section \<open>Properties\<close>






text \<open>
  Over any VFS whose files append and read back, as the in-memory journal does, a write at the end
  of a journal file appends its data; a later read inside the file returns the bytes there.
\<close>

theorem jrnl_append_reads:
  assumes "journal_vfs content valid readable vfs" "jrnl_valid valid p"
    and "jrnlWrite vfs p data (length (jrnl_content content p)) os = Some (SQLITE_OK, q, os')"
    and "jrnl_readable readable p off" "0 < n" "off + n \<le> length (jrnl_content content p @ data)"
  shows "jrnl_content content q = jrnl_content content p @ data \<and>
    (\<exists>q'. jrnlRead vfs q n off = Some (SQLITE_OK, take n (drop off (jrnl_content content p @ data)), q'))"
proof -
  note l = journal_vfs.jrnlWrite_end [OF assms(1,2) refl, of data os]
  then have q: "jrnl_valid valid q" "jrnl_content content q = jrnl_content content p @ data" "jrnl_readable readable q off"
    using assms(3,4) by auto
  have "off + n \<le> length (jrnl_content content q)" using assms(6) q(2) by simp
  from journal_vfs.jrnlRead_inside [OF assms(1) q(1) assms(5) this q(3)] show ?thesis using q(2) by auto
qed

lemma jrnl_append_reads_witness:
  "\<exists>q q'. jrnlWrite mem_vfs \<lparr>nBuf = 2, zBuf = [9, 8], iSize = 1, pReal = None\<rparr> [5, 6] 1 [] = Some (SQLITE_OK, q, []) \<and>
     jrnlRead mem_vfs q 2 1 = Some (SQLITE_OK, [5, 6], q')"
proof -
  define p :: "memjrnl jrnl" where "p = \<lparr>nBuf = 2, zBuf = [9, 8], iSize = 1, pReal = None\<rparr>"
  have p: "jrnl_valid mj_valid p" "jrnl_content mj_content p = [9]" "jrnl_readable mj_readable p 1"
    by (simp_all add: p_def jrnl_valid_def jrnl_content_def jrnl_readable_def)
  from mv.jrnlWrite_end [OF p(1) refl, of "[5, 6]" "[]"] obtain q where
    w: "jrnlWrite mem_vfs p [5, 6] (length (jrnl_content mj_content p)) [] = Some (SQLITE_OK, q, [])" by auto
  from jrnl_append_reads [OF mv.journal_vfs_axioms p(1) w p(3), of 2] show ?thesis
    using w p(2) by (auto simp: p_def)
qed

text \<open>
  Creating the file explicitly moves the buffered bytes: after success the journal is in a
  file of the VFS whose content is exactly what had been written, and a second call changes
  nothing.
\<close>

theorem JournalCreate_moves:
  assumes "journal_vfs content valid readable vfs" "jrnl_valid valid p"
  shows "\<exists>rc p' os'. sqlite3JournalCreate vfs (Inr p) os = Some (rc, Inr p', os') \<and> (os = [] \<longrightarrow> rc = SQLITE_OK) \<and>
    (rc = SQLITE_OK \<longrightarrow> (\<exists>r. pReal p' = Some r \<and> valid r \<and> content r = jrnl_content content p) \<and>
       (\<forall>os2. sqlite3JournalCreate vfs (Inr p') os2 = Some (SQLITE_OK, Inr p', os2)))"
proof -
  from journal_vfs.createFile_ok [OF assms, of os] obtain rc p' os' where
    "createFile vfs p os = Some (rc, p', os')" "jrnl_valid valid p'" "os = [] \<longrightarrow> rc = SQLITE_OK \<and> os' = []"
      "rc = SQLITE_OK \<longrightarrow> pReal p' \<noteq> None \<and> jrnl_content content p' = jrnl_content content p" by blast
  then show ?thesis by (auto simp: sqlite3JournalCreate_def createFile_def [of vfs p'] jrnl_in_file)
qed

lemma JournalCreate_moves_witness:
  "\<exists>rc p' os'. sqlite3JournalCreate mem_vfs (Inr \<lparr>nBuf = 2, zBuf = [9, 8], iSize = 1, pReal = None\<rparr>) [] =
     Some (rc, Inr p', os') \<and> rc = SQLITE_OK"
proof -
  have "jrnl_valid mj_valid \<lparr>nBuf = 2, zBuf = [9, 8], iSize = 1, pReal = None\<rparr>" by (simp add: jrnl_valid_def)
  from JournalCreate_moves [OF mv.journal_vfs_axioms this, of "[]"] show ?thesis by auto
qed

end
