(* ===== verification/Utf.thy ===== *)
theory Utf
  imports SqText
begin

text \<open>
  The text encodings of \<^verbatim>\<open>utf.c\<close>: reading and writing one character in UTF-8 and in UTF-16 of both
  byte orders, whole texts, and the length functions.

  A pointer that reads forward is the list of the bytes before it. For UTF-8 the list ends at the
  byte \<^verbatim>\<open>zTerm\<close> points to, or at the terminator. UTF-16 is read two bytes at a time without a test, so
  there the list holds the memory behind the text as well, and a result \<open>None\<close> is a read outside
  that memory.
\<close>

section \<open>One character\<close>

definition sqlite3Utf8Trans1 :: "u8 list" where
  "sqlite3Utf8Trans1 =
    [0x00, 0x01, 0x02, 0x03, 0x04, 0x05, 0x06, 0x07,
     0x08, 0x09, 0x0a, 0x0b, 0x0c, 0x0d, 0x0e, 0x0f,
     0x10, 0x11, 0x12, 0x13, 0x14, 0x15, 0x16, 0x17,
     0x18, 0x19, 0x1a, 0x1b, 0x1c, 0x1d, 0x1e, 0x1f,
     0x00, 0x01, 0x02, 0x03, 0x04, 0x05, 0x06, 0x07,
     0x08, 0x09, 0x0a, 0x0b, 0x0c, 0x0d, 0x0e, 0x0f,
     0x00, 0x01, 0x02, 0x03, 0x04, 0x05, 0x06, 0x07,
     0x00, 0x01, 0x02, 0x03, 0x00, 0x01, 0x00, 0x00]"

definition WRITE_UTF8 :: "u32 \<Rightarrow> u8 list" where
  "WRITE_UTF8 c =
    (if c < 0x80 then [ucast (c AND 0xFF)]
     else if c < 0x800 then [0xC0 + ucast (drop_bit 6 c AND 0x1F), 0x80 + ucast (c AND 0x3F)]
     else if c < 0x10000 then
       [0xE0 + ucast (drop_bit 12 c AND 0x0F), 0x80 + ucast (drop_bit 6 c AND 0x3F), 0x80 + ucast (c AND 0x3F)]
     else
       [0xF0 + ucast (drop_bit 18 c AND 0x07), 0x80 + ucast (drop_bit 12 c AND 0x3F),
        0x80 + ucast (drop_bit 6 c AND 0x3F), 0x80 + ucast (c AND 0x3F)])"

definition WRITE_UTF16LE :: "u32 \<Rightarrow> u8 list" where
  "WRITE_UTF16LE c =
    (if c \<le> 0xFFFF then [ucast (c AND 0x00FF), ucast (drop_bit 8 c AND 0x00FF)]
     else
       [ucast ((drop_bit 10 c AND 0x003F) + (drop_bit 10 (c - 0x10000) AND 0x00C0)),
        ucast (0x00D8 + (drop_bit 18 (c - 0x10000) AND 0x03)),
        ucast (c AND 0x00FF),
        ucast (0x00DC + (drop_bit 8 c AND 0x03))])"

definition WRITE_UTF16BE :: "u32 \<Rightarrow> u8 list" where
  "WRITE_UTF16BE c =
    (if c \<le> 0xFFFF then [ucast (drop_bit 8 c AND 0x00FF), ucast (c AND 0x00FF)]
     else
       [ucast (0x00D8 + (drop_bit 18 (c - 0x10000) AND 0x03)),
        ucast ((drop_bit 10 c AND 0x003F) + (drop_bit 10 (c - 0x10000) AND 0x00C0)),
        ucast (0x00DC + (drop_bit 8 c AND 0x03)),
        ucast (c AND 0x00FF)])"

text \<open>The word a surrogate pair stands for.\<close>

definition from_pair :: "u32 \<Rightarrow> u32 \<Rightarrow> u32" where
  "from_pair c c2 =
    (let c = (c2 AND 0x03FF) + push_bit 10 (c AND 0x003F) + push_bit 10 ((c AND 0x03C0) + 0x0040)
     in if c AND 0xFFFF0000 = 0 then 0xFFFD else c)"

text \<open>\<open>ext\<close> is the promotion of a byte to a word, which for a \<^verbatim>\<open>char*\<close> may extend the sign.\<close>

definition READ_UTF16LE_of :: "(u8 \<Rightarrow> u32) \<Rightarrow> u8 list \<Rightarrow> (u32 \<times> u8 list) option" where
  "READ_UTF16LE_of ext z =
    (case z of
       b0 # b1 # z \<Rightarrow>
         let c = ext b0 + push_bit 8 (ext b1)
         in if 0xD800 \<le> c \<and> c < 0xE000 then
              (case z of
                 b2 # b3 # z \<Rightarrow> Some (from_pair c (ext b2 + push_bit 8 (ext b3)), z)
               | _ \<Rightarrow> None)
            else Some (c, z)
     | _ \<Rightarrow> None)"

definition READ_UTF16BE_of :: "(u8 \<Rightarrow> u32) \<Rightarrow> u8 list \<Rightarrow> (u32 \<times> u8 list) option" where
  "READ_UTF16BE_of ext z =
    (case z of
       b0 # b1 # z \<Rightarrow>
         let c = push_bit 8 (ext b0) + ext b1
         in if 0xD800 \<le> c \<and> c < 0xE000 then
              (case z of
                 b2 # b3 # z \<Rightarrow> Some (from_pair c (push_bit 8 (ext b2) + ext b3), z)
               | _ \<Rightarrow> None)
            else Some (c, z)
     | _ \<Rightarrow> None)"

text \<open>The macros on a pointer to unsigned bytes.\<close>

abbreviation READ_UTF16LE :: "u8 list \<Rightarrow> (u32 \<times> u8 list) option" where
  "READ_UTF16LE \<equiv> READ_UTF16LE_of ucast"

abbreviation READ_UTF16BE :: "u8 list \<Rightarrow> (u32 \<times> u8 list) option" where
  "READ_UTF16BE \<equiv> READ_UTF16BE_of ucast"

definition is_cont :: "u8 \<Rightarrow> bool" where
  "is_cont b \<longleftrightarrow> b AND 0xc0 = 0x80"

fun cont_loop :: "u32 \<Rightarrow> u8 list \<Rightarrow> u32 \<times> u8 list" where
  "cont_loop c (b # z) = (if is_cont b then cont_loop (push_bit 6 c + (0x3f AND ucast b)) z else (c, b # z))"
| "cont_loop c [] = (c, [])"

text \<open>
  \<open>lt80\<close> is the comparison \<^verbatim>\<open>c<0x80\<close>: of signed words in \<^verbatim>\<open>sqlite3Utf8Read\<close>, of unsigned ones in the
  translation. At the terminator 0 is read.
\<close>

definition READ_UTF8 :: "(u32 \<Rightarrow> bool) \<Rightarrow> u8 list \<Rightarrow> u32 \<times> u8 list" where
  "READ_UTF8 lt80 z =
    (case z of
       [] \<Rightarrow> (0, [])
     | b # z \<Rightarrow>
         if 0xc0 \<le> b then
           let (c, z) = cont_loop (ucast (sqlite3Utf8Trans1 ! unat (b - 0xc0))) z
           in (if lt80 c \<or> c AND 0xFFFFF800 = 0xD800 \<or> c AND 0xFFFFFFFE = 0xFFFE then 0xFFFD else c, z)
         else (ucast b, z))"

definition sqlite3Utf8Read :: "u8 list \<Rightarrow> u32 \<times> u8 list" where
  "sqlite3Utf8Read z = READ_UTF8 (\<lambda>c. sint c < 0x80) z"

fun skip_cont :: "u8 list \<Rightarrow> u8 list" where
  "skip_cont (b # z) = (if is_cont b then skip_cont z else b # z)"
| "skip_cont [] = []"

definition SQLITE_SKIP_UTF8 :: "u8 list \<Rightarrow> u8 list" where
  "SQLITE_SKIP_UTF8 z = (case z of [] \<Rightarrow> [] | b # z \<Rightarrow> if 0xc0 \<le> b then skip_cont z else z)"

section \<open>Whole texts\<close>

lemma cont_loop_length: "cont_loop c z = (c', z') \<Longrightarrow> length z' \<le> length z"
  by (induction c z rule: cont_loop.induct) (auto split: if_splits)

lemma READ_UTF8_shorter [termination_simp]: "(c, z') = READ_UTF8 f (b # z) \<Longrightarrow> length z' < Suc (length z)"
  by (auto simp: READ_UTF8_def Let_def split: if_splits prod.splits dest!: cont_loop_length)

lemma skip_cont_length: "length (skip_cont z) \<le> length z"
  by (induction z rule: skip_cont.induct) auto

lemma SKIP_UTF8_shorter [termination_simp]: "length (SQLITE_SKIP_UTF8 (b # z)) < Suc (length z)"
  using skip_cont_length [of z] by (simp add: SQLITE_SKIP_UTF8_def)

fun utf8_to_16 :: "(u32 \<Rightarrow> u8 list) \<Rightarrow> u8 list \<Rightarrow> u8 list" where
  "utf8_to_16 write [] = []"
| "utf8_to_16 write (b # z) = (case READ_UTF8 (\<lambda>c. c < 0x80) (b # z) of (c, z) \<Rightarrow> write c @ utf8_to_16 write z)"

text \<open>\<open>k\<close> is the number of bytes before \<^verbatim>\<open>zTerm\<close>, 0 when the last character went beyond it.\<close>

partial_function (option) utf16_to_8 :: "(u8 list \<Rightarrow> (u32 \<times> u8 list) option) \<Rightarrow> nat \<Rightarrow> u8 list \<Rightarrow> u8 list option" where
  "utf16_to_8 read k z =
    (if k = 0 then Some []
     else Option.bind (read z) (\<lambda>(c, z').
       Option.bind (utf16_to_8 read (k - (length z - length z')) z') (\<lambda>out. Some (WRITE_UTF8 c @ out))))"

fun swap_bytes :: "nat \<Rightarrow> u8 list \<Rightarrow> u8 list" where
  "swap_bytes (Suc n) (a # b # z) = b # a # swap_bytes n z"
| "swap_bytes _ z = z"

section \<open>Lengths\<close>

fun charlen_loop :: "u8 list \<Rightarrow> nat option \<Rightarrow> nat" where
  "charlen_loop [] n = 0"
| "charlen_loop (b # z) n =
    (if b = 0 \<or> n = Some 0 then 0
     else let z' = SQLITE_SKIP_UTF8 (b # z)
          in Suc (charlen_loop z' (map_option (\<lambda>n. n - (length (b # z) - length z')) n)))"

definition sqlite3Utf8CharLen :: "u8 list \<Rightarrow> int \<Rightarrow> nat" where
  "sqlite3Utf8CharLen z nByte = charlen_loop z (if 0 \<le> nByte then Some (nat nByte) else None)"

text \<open>
  \<open>rd\<close> reads a character, \<open>c\<close> is the last one read, \<open>n\<close> their number, \<open>i\<close> the bytes read.
\<close>

partial_function (option) bytelen_loop :: "(u8 list \<Rightarrow> (u32 \<times> u8 list) option) \<Rightarrow> int \<Rightarrow> u32 \<Rightarrow> int \<Rightarrow> nat \<Rightarrow> u8 list \<Rightarrow> (nat \<times> u32) option" where
  "bytelen_loop rd nChar c n i z =
    (if c \<noteq> 0 \<and> (nChar < 0 \<or> n < nChar)
     then Option.bind (rd z) (\<lambda>(c, z'). bytelen_loop rd nChar c (n + 1) (i + (length z - length z')) z')
     else Some (i, c))"

text \<open>
  The pointer is a \<^verbatim>\<open>char const*\<close>: \<open>ext\<close> is \<open>ucast\<close> where the compiler's \<^verbatim>\<open>char\<close> is unsigned and \<open>scast\<close>
  where it is signed. \<open>big\<close> is the byte order of the machine.
\<close>

definition sqlite3Utf16ByteLen :: "(u8 \<Rightarrow> u32) \<Rightarrow> bool \<Rightarrow> u8 list \<Rightarrow> int \<Rightarrow> int option" where
  "sqlite3Utf16ByteLen ext big z nChar =
    (case bytelen_loop (if big then READ_UTF16BE_of ext else READ_UTF16LE_of ext) nChar 1 0 0 z of
       None \<Rightarrow> None
     | Some (i, c) \<Rightarrow> Some (int i - (if c = 0 then 2 else 0)))"

section \<open>Bytes and words\<close>

lemma high_bits: "w AND NOT (mask n) = push_bit n (drop_bit n w)" for w :: "'a :: len word"
  by (rule bit_word_eqI) (auto simp: bit_simps)

lemma unat_low: "unat (take_bit n w) = unat w mod 2 ^ n" for w :: "'a :: len word"
  by (rule trans [OF unsigned_take_bit_eq take_bit_eq_mod])

lemma unat_drop: "unat (drop_bit n w) = unat w div 2 ^ n" for w :: "'a :: len word"
  by (rule trans [OF unat_drop_bit_eq drop_bit_eq_div])

lemma unat_high: "unat (push_bit n (drop_bit n w)) = unat w div 2 ^ n * 2 ^ n" for w :: "'a :: len word"
proof -
  have "push_bit n (drop_bit n w) = w - take_bit n w" using bits_ident [of n w] by (simp add: algebra_simps)
  moreover have "take_bit n w \<le> w" unfolding word_le_nat_alt unat_low by simp
  ultimately show ?thesis by (simp only: unat_sub unat_low) (simp add: minus_mod_eq_div_mult)
qed

lemma masks:
  "w AND 0x3F = take_bit 6 w" "w AND 0x1F = take_bit 5 w" "w AND 0x0F = take_bit 4 w" "w AND 0x07 = take_bit 3 w" "w AND 0x03 = take_bit 2 w"
  "w AND 0xFF = take_bit 8 w" "w AND 0x03FF = take_bit 10 w" for w :: u32
  by (simp_all add: take_bit_eq_mask mask_eq_exp_minus_1)

lemma is_cont_iff: "is_cont b \<longleftrightarrow> unat b div 64 = 2"
proof -
  have "(0xc0 :: u8) = NOT (mask 6)" by (simp add: mask_eq_exp_minus_1)
  then have "unat (b AND 0xc0) = unat b div 64 * 64" using high_bits [of b 6] unat_high [of 6 b] by simp
  then show ?thesis unfolding is_cont_def word_unat_eq_iff by simp
qed

definition cont_byte :: "u32 \<Rightarrow> u8" where
  "cont_byte y = 0x80 + ucast (y AND 0x3F)"

lemma unat_ucast_low: "k \<le> 8 \<Longrightarrow> unat (ucast (take_bit k (y :: u32)) :: u8) = unat y mod 2 ^ k"
proof -
  assume k: "k \<le> 8"
  have "unat y mod 2 ^ k < 2 ^ k" by simp
  also have "(2 :: nat) ^ k \<le> 2 ^ 8" using k by (intro power_increasing) simp_all
  finally have "take_bit 8 (unat y mod 2 ^ k) = unat y mod 2 ^ k" by (simp only: take_bit_nat_eq_self)
  then show ?thesis unfolding unsigned_ucast_eq unat_low by simp
qed

lemma unat_plus_small: "unat (a :: u8) + unat b < 256 \<Longrightarrow> unat (a + b) = unat a + unat b"
  by (simp add: unat_word_ariths(1))

lemma unat_cont_byte: "unat (cont_byte y) = 128 + unat y mod 64"
proof -
  have "unat (ucast (take_bit 6 y) :: u8) = unat y mod 64" using unat_ucast_low [of 6 y] by simp
  moreover have "unat y mod 64 < 64" by simp
  ultimately show ?thesis unfolding cont_byte_def masks by (subst unat_plus_small) simp_all
qed

lemma is_cont_byte: "is_cont (cont_byte y)"
proof -
  have "unat y mod 64 < 64" by simp
  then have "(128 + unat y mod 64) div 64 = 2" by (simp add: div_nat_eqI)
  then show ?thesis by (simp only: is_cont_iff unat_cont_byte)
qed

lemma cont_value: "0x3f AND ucast (cont_byte y) = take_bit 6 (y :: u32)"
proof -
  have u: "unat (ucast (cont_byte y) :: u32) = 128 + unat y mod 64"
  proof -
    have "unat y mod 64 < 64" by simp
    then have "128 + unat y mod 64 < 2 ^ 32" by simp
    then show ?thesis unfolding unsigned_ucast_eq unat_cont_byte by (simp add: take_bit_nat_eq_self)
  qed
  have "(128 + unat y mod 64) mod 64 = unat y mod 64" using mod_mult_self2 [of "unat y mod 64" 64 2] by (simp add: add.commute)
  then have "unat (take_bit 6 (ucast (cont_byte y) :: u32)) = unat (take_bit 6 y)" unfolding unat_low u by simp
  then show ?thesis by (simp only: and.commute [of "0x3f"] masks word_unat_eq_iff)
qed

text \<open>The first byte of a sequence.\<close>

lemma Trans1_lead:
  "k < 32 \<Longrightarrow> sqlite3Utf8Trans1 ! k = word_of_nat k" "k < 16 \<Longrightarrow> sqlite3Utf8Trans1 ! (32 + k) = word_of_nat k" "k < 8 \<Longrightarrow> sqlite3Utf8Trans1 ! (48 + k) = word_of_nat k"
proof -
  have "\<forall>k \<in> set [0..<32]. sqlite3Utf8Trans1 ! k = word_of_nat k" "\<forall>k \<in> set [0..<16]. sqlite3Utf8Trans1 ! (32 + k) = word_of_nat k"
    "\<forall>k \<in> set [0..<8]. sqlite3Utf8Trans1 ! (48 + k) = word_of_nat k" by code_simp+
  then show "k < 32 \<Longrightarrow> sqlite3Utf8Trans1 ! k = word_of_nat k" "k < 16 \<Longrightarrow> sqlite3Utf8Trans1 ! (32 + k) = word_of_nat k" "k < 8 \<Longrightarrow> sqlite3Utf8Trans1 ! (48 + k) = word_of_nat k"
    by simp_all
qed

lemma lead_byte:
  assumes "unat (w :: u32) < n" "base + n \<le> 64" "\<And>k. k < n \<Longrightarrow> sqlite3Utf8Trans1 ! (base + k) = word_of_nat k"
    and b: "unat b = 192 + base + unat w"
  shows "0xc0 \<le> (b :: u8)" "ucast (sqlite3Utf8Trans1 ! unat (b - 0xc0)) = w"
proof -
  show "0xc0 \<le> b" using b by (simp add: word_le_nat_alt)
  then have "unat (b - 0xc0) = base + unat w" using b by (simp add: unat_sub)
  then have t: "sqlite3Utf8Trans1 ! unat (b - 0xc0) = ucast w" using assms(1,3) by simp
  have small: "unat w < 2 ^ 8" using assms(1,2) by simp
  have u: "unat (ucast w :: u8) = unat w" unfolding unsigned_ucast_eq using small by (simp add: take_bit_nat_eq_self)
  have "unat w < 2 ^ 32" using small by simp
  then have "unat (ucast (ucast w :: u8) :: u32) = unat w" unfolding unsigned_ucast_eq [of "ucast w :: u8"] u by (simp add: take_bit_nat_eq_self)
  then have "unat (ucast (sqlite3Utf8Trans1 ! unat (b - 0xc0)) :: u32) = unat w" unfolding t .
  then show "ucast (sqlite3Utf8Trans1 ! unat (b - 0xc0)) = w" by (simp only: word_unat_eq_iff)
qed

section \<open>Reading what was written\<close>

definition starts_cont :: "u8 list \<Rightarrow> bool" where
  "starts_cont z \<longleftrightarrow> (case z of [] \<Rightarrow> False | b # z \<Rightarrow> is_cont b)"

lemma cont_loop_stop: "\<not> starts_cont z \<Longrightarrow> cont_loop c z = (c, z)"
  by (cases z) (simp_all add: starts_cont_def)

lemma cont_loop_byte: "cont_loop (drop_bit (k + 6) c) (cont_byte (drop_bit k c) # z) = cont_loop (drop_bit k c) z"
proof -
  have "push_bit 6 (drop_bit (k + 6) c) + take_bit 6 (drop_bit k c) = drop_bit k c" using bits_ident [of 6 "drop_bit k c"] by (simp only: drop_bit_drop_bit add.commute)
  then show ?thesis by (simp only: cont_loop.simps is_cont_byte if_True cont_value)
qed

lemma cont_loop_bytes:
  "cont_loop (drop_bit 6 c) (cont_byte c # z) = cont_loop c z"
  "cont_loop (drop_bit 12 c) (cont_byte (drop_bit 6 c) # z) = cont_loop (drop_bit 6 c) z"
  "cont_loop (drop_bit 18 c) (cont_byte (drop_bit 12 c) # z) = cont_loop (drop_bit 12 c) z"
  using cont_loop_byte [of 0 c z] cont_loop_byte [of 6 c z] cont_loop_byte [of 12 c z] by (simp_all del: cont_loop.simps)

text \<open>What reading makes of a sequence that stands for \<open>c\<close>.\<close>

definition checked :: "(u32 \<Rightarrow> bool) \<Rightarrow> u32 \<Rightarrow> u32" where
  "checked lt80 c = (if lt80 c \<or> c AND 0xFFFFF800 = 0xD800 \<or> c AND 0xFFFFFFFE = 0xFFFE then 0xFFFD else c)"

lemma read_lead:
  assumes "0xc0 \<le> b" "ucast (sqlite3Utf8Trans1 ! unat (b - 0xc0)) = w" "cont_loop w z = (c, z')"
  shows "READ_UTF8 lt80 (b # z) = (checked lt80 c, z')"
  using assms by (simp add: READ_UTF8_def checked_def)

lemma read_utf8_ascii:
  assumes "c < 0x80"
  shows "READ_UTF8 lt80 (WRITE_UTF8 c @ z) = (c, z)"
proof -
  define b :: u8 where "b = ucast (c AND 0xFF)"
  have u: "unat b = unat c" unfolding b_def masks using unat_ucast_low [of 8 c] assms by (simp add: word_less_nat_alt)
  then have "\<not> 0xc0 \<le> b" "ucast b = c"
    using assms by (simp_all add: word_le_nat_alt word_less_nat_alt word_unat_eq_iff unsigned_ucast_eq take_bit_nat_eq_self)
  then show ?thesis using assms by (simp add: WRITE_UTF8_def READ_UTF8_def b_def [symmetric])
qed

lemma read_utf8:
  assumes c: "unat c < 0x200000" and z: "\<not> starts_cont z"
  shows "READ_UTF8 lt80 (WRITE_UTF8 c @ z) = (if c < 0x80 then c else checked lt80 c, z)"
proof -
  consider "c < 0x80" | "\<not> c < 0x80" "c < 0x800" | "\<not> c < 0x800" "c < 0x10000" | "\<not> c < 0x10000" by blast
  then show ?thesis
  proof cases
    case 1
    then show ?thesis using read_utf8_ascii by simp
  next
    case 2
    define b :: u8 where "b = 0xC0 + ucast (drop_bit 6 c AND 0x1F)"
    have d: "unat (drop_bit 6 c) < 32" unfolding unat_drop using 2(2) by (simp add: word_less_nat_alt less_mult_imp_div_less)
    have "unat b = 192 + 0 + unat (drop_bit 6 c)" unfolding b_def masks using unat_ucast_low [of 5 "drop_bit 6 c"] d by (subst unat_plus_small) simp_all
    note lb = lead_byte [OF d _ _ this]
    have "cont_loop (drop_bit 6 c) (cont_byte c # z) = (c, z)" unfolding cont_loop_bytes by (rule cont_loop_stop [OF z])
    from read_lead [OF lb(1) lb(2) this] show ?thesis using 2 Trans1_lead(1) less_trans [of c "0x80" "0x800"]
      by (simp add: WRITE_UTF8_def b_def cont_byte_def [symmetric])
  next
    case 3
    define b :: u8 where "b = 0xE0 + ucast (drop_bit 12 c AND 0x0F)"
    have d: "unat (drop_bit 12 c) < 16" unfolding unat_drop using 3(2) by (simp add: word_less_nat_alt less_mult_imp_div_less)
    have "unat b = 192 + 32 + unat (drop_bit 12 c)" unfolding b_def masks using unat_ucast_low [of 4 "drop_bit 12 c"] d by (subst unat_plus_small) simp_all
    note lb = lead_byte [OF d _ _ this]
    have "cont_loop (drop_bit 12 c) (cont_byte (drop_bit 6 c) # cont_byte c # z) = (c, z)" unfolding cont_loop_bytes by (rule cont_loop_stop [OF z])
    from read_lead [OF lb(1) lb(2) this] show ?thesis using 3 Trans1_lead(2)
      by (auto simp: WRITE_UTF8_def b_def cont_byte_def [symmetric] word_less_nat_alt)
  next
    case 4
    define b :: u8 where "b = 0xF0 + ucast (drop_bit 18 c AND 0x07)"
    have d: "unat (drop_bit 18 c) < 8" unfolding unat_drop using c by (simp add: less_mult_imp_div_less)
    have "unat b = 192 + 48 + unat (drop_bit 18 c)" unfolding b_def masks using unat_ucast_low [of 3 "drop_bit 18 c"] d by (subst unat_plus_small) simp_all
    note lb = lead_byte [OF d _ _ this]
    have "cont_loop (drop_bit 18 c) (cont_byte (drop_bit 12 c) # cont_byte (drop_bit 6 c) # cont_byte c # z) = (c, z)"
      unfolding cont_loop_bytes by (rule cont_loop_stop [OF z])
    from read_lead [OF lb(1) lb(2) this] show ?thesis using 4 Trans1_lead(3)
      by (auto simp: WRITE_UTF8_def b_def cont_byte_def [symmetric] word_less_nat_alt)
  qed
qed

lemma unat_ucast_up: "unat (ucast (b :: u8) :: u32) = unat b"
proof -
  have "unat b < 2 ^ 8" using unsigned_less [of b] by simp
  then have "unat b < 2 ^ 32" by simp
  then show ?thesis unfolding unsigned_ucast_eq by (simp add: take_bit_nat_eq_self)
qed

text \<open>Two bytes of UTF-16.\<close>

definition unit16 :: "u8 \<Rightarrow> u8 \<Rightarrow> u32" where
  "unit16 lo hi = ucast lo + push_bit 8 (ucast hi)"

lemma unat_unit16: "unat (unit16 lo hi) = unat lo + 256 * unat hi"
proof -
  have b: "unat lo < 256" "unat hi < 256" using unsigned_less [of lo] unsigned_less [of hi] by simp_all
  have "unat (push_bit 8 (ucast hi :: u32)) = 256 * unat hi"
    unfolding unsigned_push_bit_eq unat_ucast_up using b(2) by (simp add: push_bit_eq_mult take_bit_nat_eq_self)
  then show ?thesis unfolding unit16_def using b by (simp add: unat_word_ariths(1) unat_ucast_up)
qed

lemma READ_UTF16LE_iff:
  "READ_UTF16LE (b0 # b1 # z) =
    (if 0xD800 \<le> unit16 b0 b1 \<and> unit16 b0 b1 < 0xE000 then (case z of b2 # b3 # z \<Rightarrow> Some (from_pair (unit16 b0 b1) (unit16 b2 b3), z) | _ \<Rightarrow> None)
     else Some (unit16 b0 b1, z))"
  by (simp add: READ_UTF16LE_of_def unit16_def Let_def split: list.splits)

lemma READ_UTF16BE_iff:
  "READ_UTF16BE (b1 # b0 # z) =
    (if 0xD800 \<le> unit16 b0 b1 \<and> unit16 b0 b1 < 0xE000 then (case z of b3 # b2 # z \<Rightarrow> Some (from_pair (unit16 b0 b1) (unit16 b2 b3), z) | _ \<Rightarrow> None)
     else Some (unit16 b0 b1, z))"
  by (simp add: READ_UTF16BE_of_def unit16_def Let_def add.commute split: list.splits)

text \<open>The bytes of a character in UTF-16: one unit or two.\<close>

definition lo8 :: "nat \<Rightarrow> u8" where "lo8 n = word_of_nat (n mod 256)"

lemma unat_lo8: "unat (lo8 n) = n mod 256"
  by (simp add: lo8_def unsigned_of_nat take_bit_nat_eq_self)

lemma unit16_lo8: "n < 65536 \<Longrightarrow> unat (unit16 (lo8 n) (lo8 (n div 256))) = n"
  unfolding unat_unit16 unat_lo8 by (simp add: less_mult_imp_div_less)

lemma lo8_eqI: "unat b = n mod 256 \<Longrightarrow> b = lo8 n"
  by (simp add: word_unat_eq_iff unat_lo8)

lemma write16_small:
  assumes "c \<le> 0xFFFF"
  shows "WRITE_UTF16LE c = [lo8 (unat c), lo8 (unat c div 256)]" "WRITE_UTF16BE c = [lo8 (unat c div 256), lo8 (unat c)]"
proof -
  have "ucast (c AND 0xFF) = lo8 (unat c)" unfolding masks by (rule lo8_eqI) (simp add: unat_ucast_low)
  moreover have "ucast (drop_bit 8 c AND 0xFF) = lo8 (unat c div 256)" unfolding masks
    by (rule lo8_eqI) (simp only: unat_ucast_low unat_drop order_refl, simp)
  ultimately show "WRITE_UTF16LE c = [lo8 (unat c), lo8 (unat c div 256)]" "WRITE_UTF16BE c = [lo8 (unat c div 256), lo8 (unat c)]"
    using assms by (simp_all add: WRITE_UTF16LE_def WRITE_UTF16BE_def)
qed

lemma unat_u8_of: "unat (w :: u32) < 256 \<Longrightarrow> ucast w = lo8 (unat w)"
  by (rule lo8_eqI) (simp add: unsigned_ucast_eq take_bit_nat_eq_self)

text \<open>The two units of a character beyond 16 bits.\<close>

lemma write16_large:
  assumes c: "0x10000 \<le> unat c" "unat c < 0x110000"
  defines "h \<equiv> 0xD800 + (unat c - 0x10000) div 1024" and "l \<equiv> 0xDC00 + unat c mod 1024"
  shows "WRITE_UTF16LE c = [lo8 h, lo8 (h div 256), lo8 l, lo8 (l div 256)]" "WRITE_UTF16BE c = [lo8 (h div 256), lo8 h, lo8 (l div 256), lo8 l]"
proof -
  let ?C = "unat c"
  define D where "D = ?C - 65536"
  have D: "unat (c - 0x10000) = D" "D < 2 ^ 20" "?C = D + 65536" using c by (simp_all add: D_def unat_sub word_le_nat_alt)
  have m: "(0x00C0 :: u32) = push_bit 6 (mask 2)" by (simp add: mask_eq_exp_minus_1)
  have c0: "unat (w AND 0x00C0) = w' mod 256 div 64 * 64" if "unat w = w'" for w :: u32 and w'
  proof -
    have "w AND 0x00C0 = push_bit 6 (drop_bit 6 (take_bit 8 w))"
      unfolding m by (rule bit_word_eqI) (auto simp: bit_simps)
    then show ?thesis by (simp only: unat_high unat_low that) simp
  qed
  have q: "D div 1024 < 1024" using D(2) by (simp add: less_mult_imp_div_less)
  have C10: "?C div 1024 = D div 1024 + 64" using D(3) by simp
  have b0: "ucast ((drop_bit 10 c AND 0x003F) + (drop_bit 10 (c - 0x10000) AND 0x00C0)) = lo8 h"
  proof -
    have 1: "unat (drop_bit 10 c AND 0x003F) = D div 1024 mod 64" unfolding masks unat_low unat_drop using C10 by simp
    have "unat (drop_bit 10 (c - 0x10000)) = D div 1024" unfolding unat_drop D(1) by simp
    note 2 = c0 [OF this]
    have s: "D div 1024 mod 64 + D div 1024 mod 256 div 64 * 64 = D div 1024 mod 256"
    proof -
      have "D div 1024 mod 64 = D div 1024 mod 256 mod 64" by (simp add: mod_mod_cancel)
      then show ?thesis using div_mult_mod_eq [of "D div 1024 mod 256" 64] by simp
    qed
    have "unat ((drop_bit 10 c AND 0x003F) + (drop_bit 10 (c - 0x10000) AND 0x00C0)) = D div 1024 mod 256"
      unfolding unat_word_ariths(1) 1 2 s by simp
    then have "ucast ((drop_bit 10 c AND 0x003F) + (drop_bit 10 (c - 0x10000) AND 0x00C0)) = lo8 (D div 1024 mod 256)" by (subst unat_u8_of) simp_all
    also have "\<dots> = lo8 h" by (rule lo8_eqI) (simp add: unat_lo8 h_def D_def [symmetric], simp add: mod_add_eq [of 55296 256, symmetric])
    finally show ?thesis .
  qed
  have b1: "ucast (0x00D8 + (drop_bit 18 (c - 0x10000) AND 0x03)) = lo8 (h div 256)"
  proof -
    have x: "D div 2 ^ 18 < 4" using D(2) by (simp add: less_mult_imp_div_less)
    have "unat (drop_bit 18 (c - 0x10000) AND 0x03) = D div 2 ^ 18" unfolding masks unat_low unat_drop D(1) using x by simp
    then have "unat (0x00D8 + (drop_bit 18 (c - 0x10000) AND 0x03)) = 216 + D div 2 ^ 18" using x by (simp add: unat_word_ariths(1))
    moreover have "h div 256 = 216 + D div 2 ^ 18" unfolding h_def D_def [symmetric] by (simp add: div_mult2_eq [of D 1024 256, symmetric])
    ultimately show ?thesis using x by (subst unat_u8_of) simp_all
  qed
  have b2: "ucast (c AND 0x00FF) = lo8 l"
    unfolding masks by (rule lo8_eqI) (simp add: unat_ucast_low l_def mod_add_eq [of 56320 256, symmetric] mod_mod_cancel)
  have b3: "ucast (0x00DC + (drop_bit 8 c AND 0x03)) = lo8 (l div 256)"
  proof -
    have "unat (drop_bit 8 c AND 0x03) = ?C div 256 mod 4" unfolding masks unat_low unat_drop by simp
    moreover have "?C div 256 mod 4 < 4" by simp
    ultimately have "unat (0x00DC + (drop_bit 8 c AND 0x03)) = 220 + ?C div 256 mod 4" by (simp add: unat_word_ariths(1))
    moreover have "l = ?C mod 256 + (220 + ?C div 256 mod 4) * 256" unfolding l_def using mod_mult2_eq [of ?C 256 4] by simp
    then have "l div 256 = 220 + ?C div 256 mod 4" by simp
    ultimately show ?thesis by (subst unat_u8_of) simp_all
  qed
  have "\<not> c \<le> 0xFFFF" using c by (simp add: word_le_nat_alt)
  then show "WRITE_UTF16LE c = [lo8 h, lo8 (h div 256), lo8 l, lo8 (l div 256)]" "WRITE_UTF16BE c = [lo8 (h div 256), lo8 h, lo8 (l div 256), lo8 l]"
    by (simp_all only: WRITE_UTF16LE_def WRITE_UTF16BE_def b0 b1 b2 b3 if_False)
qed

text \<open>Reading a pair.\<close>

lemma from_pair_value:
  assumes h: "unat h = 0xD800 + q" "q < 1024" and l: "unat l = 0xDC00 + r" "r < 1024"
  shows "unat (from_pair h l) = 0x10000 + 1024 * q + r"
proof -
  have m: "(0x03C0 :: u32) = push_bit 6 (mask 4)" by (simp add: mask_eq_exp_minus_1)
  have "h AND 0x03C0 = push_bit 6 (drop_bit 6 (take_bit 10 h))" unfolding m by (rule bit_word_eqI) (auto simp: bit_simps)
  moreover have h10: "unat h mod 1024 = q" unfolding h(1) using h(2) by (simp add: mod_add_eq [of 55296 1024, symmetric])
  ultimately have 1: "unat (h AND 0x03C0) = q div 64 * 64" by (simp only: unat_high unat_low) simp
  have 2: "unat (h AND 0x003F) = q mod 64" unfolding masks unat_low using h10 mod_mod_cancel [of 64 1024 "unat h"] by simp
  have 3: "unat (l AND 0x03FF) = r" unfolding masks unat_low l(1) using l(2) by (simp add: mod_add_eq [of 56320 1024, symmetric])
  have q64: "q div 64 < 16" using h(2) by (simp add: less_mult_imp_div_less)
  have a: "unat (push_bit 10 (h AND 0x003F)) = 1024 * (q mod 64)"
    unfolding unsigned_push_bit_eq 2 by (simp add: push_bit_eq_mult take_bit_nat_eq_self)
  have b0: "unat ((h AND 0x03C0) + 0x0040) = q div 64 * 64 + 64" using q64 1 by (simp add: unat_word_ariths(1))
  have b: "unat (push_bit 10 ((h AND 0x03C0) + 0x0040)) = 1024 * (q div 64 * 64 + 64)"
    unfolding unsigned_push_bit_eq b0 using q64 by (simp add: push_bit_eq_mult take_bit_nat_eq_self)
  define c where "c = (l AND 0x03FF) + push_bit 10 (h AND 0x003F) + push_bit 10 ((h AND 0x03C0) + 0x0040)"
  have s: "r + 1024 * (q mod 64) + 1024 * (q div 64 * 64 + 64) = 0x10000 + 1024 * q + r"
  proof -
    obtain a b where "q div 64 = a" "q mod 64 = b" by blast
    moreover from this have "q = a * 64 + b" using div_mult_mod_eq [of q 64] by simp
    ultimately show ?thesis by simp
  qed
  have r1: "r + 1024 * (q mod 64) < 2 ^ 32"
  proof -
    have "q mod 64 < 64" by simp
    then show ?thesis using l(2) by simp
  qed
  have "unat c = r + 1024 * (q mod 64) + 1024 * (q div 64 * 64 + 64)"
  proof -
    have "unat ((l AND 0x03FF) + push_bit 10 (h AND 0x003F)) = r + 1024 * (q mod 64)" using 3 a r1 by (simp add: unat_word_ariths(1))
    moreover have "r + 1024 * (q mod 64) + 1024 * (q div 64 * 64 + 64) < 2 ^ 32" unfolding s using h(2) l(2) by simp
    ultimately show ?thesis unfolding c_def using b by (simp add: unat_word_ariths(1))
  qed
  then have u: "unat c = 0x10000 + 1024 * q + r" using s by simp
  have "c AND 0xFFFF0000 \<noteq> 0"
  proof
    assume z: "c AND 0xFFFF0000 = 0"
    have "(0xFFFF0000 :: u32) = NOT (mask 16)" by (simp add: mask_eq_exp_minus_1)
    then have "unat (c AND 0xFFFF0000) = unat c div 2 ^ 16 * 2 ^ 16" using high_bits [of c 16] unat_high [of 16 c] by simp
    then have "unat c div 65536 = 0" using z by simp
    then show False using u by (simp add: div_eq_0_iff)
  qed
  then have "from_pair h l = c" unfolding from_pair_def Let_def c_def [symmetric] by (simp only: if_False)
  then show ?thesis using u by simp
qed

definition scalar :: "u32 \<Rightarrow> bool" where
  "scalar c \<longleftrightarrow> unat c < 0x110000 \<and> \<not> (0xD800 \<le> c \<and> c < 0xE000)"

lemma read_utf16:
  assumes "scalar c"
  shows "READ_UTF16LE (WRITE_UTF16LE c @ z) = Some (c, z)" "READ_UTF16BE (WRITE_UTF16BE c @ z) = Some (c, z)"
proof -
  have "READ_UTF16LE (WRITE_UTF16LE c @ z) = Some (c, z) \<and> READ_UTF16BE (WRITE_UTF16BE c @ z) = Some (c, z)"
  proof (cases "c \<le> 0xFFFF")
    case True
    then have "unat c < 65536" by (simp add: word_le_nat_alt)
    then have "unit16 (lo8 (unat c)) (lo8 (unat c div 256)) = c" using unit16_lo8 by (simp add: word_unat_eq_iff)
    moreover have "\<not> (0xD800 \<le> c \<and> c < 0xE000)" using assms by (simp only: scalar_def simp_thms)
    ultimately show ?thesis
      unfolding write16_small [OF True] append.simps READ_UTF16LE_iff READ_UTF16BE_iff by (simp only: if_False simp_thms)
  next
    case False
    then have c: "0x10000 \<le> unat c" "unat c < 0x110000" using assms by (simp_all add: word_le_nat_alt scalar_def)
    define q where "q = (unat c - 0x10000) div 1024"
    define r where "r = unat c mod 1024"
    have q: "q < 1024" using c by (simp add: q_def less_mult_imp_div_less)
    have r: "r < 1024" by (simp add: r_def)
    define h where "h = unit16 (lo8 (0xD800 + q)) (lo8 ((0xD800 + q) div 256))"
    define l where "l = unit16 (lo8 (0xDC00 + r)) (lo8 ((0xDC00 + r) div 256))"
    have u: "unat h = 0xD800 + q" "unat l = 0xDC00 + r" unfolding h_def l_def by (rule unit16_lo8, use q r in simp)+
    have "unat (from_pair h l) = 0x10000 + 1024 * q + r" by (rule from_pair_value [OF u(1) q u(2) r])
    also have "\<dots> = unat c"
    proof -
      have "(unat c - 65536) mod 1024 = unat c mod 1024" using c(1) mod_add_eq [of "unat c - 65536" 1024 65536] by simp
      then show ?thesis using div_mult_mod_eq [of "unat c - 65536" 1024] c(1) unfolding q_def r_def by linarith
    qed
    finally have fp: "from_pair h l = c" by (simp add: word_unat_eq_iff)
    have sur: "0xD800 \<le> h" "h < 0xE000" using u(1) q by (simp_all add: word_le_nat_alt word_less_nat_alt)
    show ?thesis
      unfolding write16_large [OF c] append.simps READ_UTF16LE_iff READ_UTF16BE_iff q_def [symmetric] r_def [symmetric] h_def [symmetric]
      using sur fp by (simp add: l_def)
  qed
  then show "READ_UTF16LE (WRITE_UTF16LE c @ z) = Some (c, z)" "READ_UTF16BE (WRITE_UTF16BE c @ z) = Some (c, z)" by blast+
qed

section \<open>Lengths of characters\<close>

lemma WRITE_UTF8_starts: "\<not> starts_cont (WRITE_UTF8 c @ z)" and WRITE_UTF8_length: "0 < length (WRITE_UTF8 c)" "length (WRITE_UTF8 c) \<le> 4" "c \<le> 0xFFFF \<Longrightarrow> length (WRITE_UTF8 c) \<le> 3"
proof -
  show "0 < length (WRITE_UTF8 c)" "length (WRITE_UTF8 c) \<le> 4" "c \<le> 0xFFFF \<Longrightarrow> length (WRITE_UTF8 c) \<le> 3"
    by (auto simp: WRITE_UTF8_def word_le_nat_alt word_less_nat_alt)
  have low: "unat (ucast (take_bit k (x :: u32)) :: u8) = unat x mod 2 ^ k" if "k \<le> 8" for k x using unat_ucast_low [OF that] .
  have nc: "\<not> is_cont b" if "unat b < 128 \<or> 192 \<le> unat b" for b
  proof
    assume "is_cont b"
    then have "unat b div 64 = 2" by (simp only: is_cont_iff)
    then show False using that div_mult_mod_eq [of "unat b" 64] mod_less_divisor [of 64 "unat b"] by linarith
  qed
  have hd: "\<not> is_cont (hd (WRITE_UTF8 c))"
  proof (rule nc)
    have s: "unat (base + ucast (take_bit k x)) = unat base + unat x mod 2 ^ k" if "unat base + 2 ^ k \<le> 256" "k \<le> 8" for base :: u8 and k and x :: u32
    proof -
      have "unat x mod 2 ^ k < 2 ^ k" by simp
      then have "unat base + unat (ucast (take_bit k x) :: u8) < 256" using that unfolding low [OF that(2)] by linarith
      then show ?thesis by (subst unat_plus_small) (simp_all add: low that(2))
    qed
    consider "c < 0x80" | "\<not> c < 0x80" "c < 0x800" | "\<not> c < 0x800" "c < 0x10000" | "\<not> c < 0x10000" by blast
    then show "unat (hd (WRITE_UTF8 c)) < 128 \<or> 192 \<le> unat (hd (WRITE_UTF8 c))"
    proof cases
      case 1
      then show ?thesis unfolding WRITE_UTF8_def masks using low [of 8 c] by (simp add: word_less_nat_alt)
    next
      case 2
      then show ?thesis unfolding WRITE_UTF8_def masks using s [of "0xC0" 5 "drop_bit 6 c"] by simp
    next
      case 3
      then have "\<not> c < 0x80" by (auto simp: word_less_nat_alt)
      then show ?thesis unfolding WRITE_UTF8_def masks using 3 s [of "0xE0" 4 "drop_bit 12 c"] by simp
    next
      case 4
      then have "\<not> c < 0x80" "\<not> c < 0x800" by (auto simp: word_less_nat_alt)
      then show ?thesis unfolding WRITE_UTF8_def masks using 4 s [of "0xF0" 3 "drop_bit 18 c"] by simp
    qed
  qed
  have "WRITE_UTF8 c \<noteq> []" using \<open>0 < length (WRITE_UTF8 c)\<close> by simp
  then show "\<not> starts_cont (WRITE_UTF8 c @ z)" using hd by (cases "WRITE_UTF8 c") (simp_all add: starts_cont_def)
qed

lemma WRITE_UTF16_length: "length (WRITE_UTF16LE c) = (if c \<le> 0xFFFF then 2 else 4)" "length (WRITE_UTF16BE c) = (if c \<le> 0xFFFF then 2 else 4)"
  by (simp_all add: WRITE_UTF16LE_def WRITE_UTF16BE_def)

lemma WRITE_UTF16_nonempty: "WRITE_UTF16LE c \<noteq> []" "WRITE_UTF16BE c \<noteq> []"
  by (simp_all add: WRITE_UTF16LE_def WRITE_UTF16BE_def)

section \<open>Encoded texts\<close>

text \<open>A character that survives every encoding: no surrogate and none of the two that reading replaces.\<close>

definition plain :: "u32 \<Rightarrow> bool" where
  "plain c \<longleftrightarrow> scalar c \<and> c AND 0xFFFFFFFE \<noteq> 0xFFFE"

lemma surrogate_mask: "c AND 0xFFFFF800 = 0xD800 \<longleftrightarrow> 0xD800 \<le> c \<and> c < (0xE000 :: u32)"
proof -
  have "(0xFFFFF800 :: u32) = NOT (mask 11)" by (simp add: mask_eq_exp_minus_1)
  then have u: "unat (c AND 0xFFFFF800) = unat c div 2048 * 2048" using high_bits [of c 11] unat_high [of 11 c] by simp
  have "unat c div 2048 * 2048 = 55296 \<longleftrightarrow> 55296 \<le> unat c \<and> unat c < 57344"
  proof -
    have "unat c div 2048 * 2048 = 55296 \<longleftrightarrow> unat c div 2048 = 27" by simp
    also have "\<dots> \<longleftrightarrow> 55296 \<le> unat c \<and> unat c < 57344" by (auto simp: div_nat_eqI dest: sym)
    finally show ?thesis .
  qed
  then show ?thesis unfolding word_unat_eq_iff u word_le_nat_alt word_less_nat_alt by simp
qed

text \<open>Signed and unsigned comparison agree on characters.\<close>

lemma sint_char: "unat (c :: u32) < 2 ^ 31 \<Longrightarrow> sint c < 0x80 \<longleftrightarrow> c < 0x80"
proof -
  assume c: "unat c < 2 ^ 31"
  then have "int (unat c) < int (2 ^ 31)" by (simp only: of_nat_less_iff)
  then have "uint c < 2 ^ 31" by simp
  then have "sint c = uint c" unfolding sint_uint using order_trans [of "- (2 ^ 31)" 0 "uint c"] by (intro signed_take_bit_int_eq_self) simp_all
  then show ?thesis unfolding word_less_def by simp
qed

definition encode :: "encoding \<Rightarrow> u32 list \<Rightarrow> u8 list" where
  "encode e cs = concat (map (case e of UTF8 \<Rightarrow> WRITE_UTF8 | UTF16LE \<Rightarrow> WRITE_UTF16LE | UTF16BE \<Rightarrow> WRITE_UTF16BE) cs)"

lemma encode_simps:
  "encode e [] = []" "encode UTF8 (c # cs) = WRITE_UTF8 c @ encode UTF8 cs"
  "encode UTF16LE (c # cs) = WRITE_UTF16LE c @ encode UTF16LE cs" "encode UTF16BE (c # cs) = WRITE_UTF16BE c @ encode UTF16BE cs"
  by (simp_all add: encode_def)

lemma encode_starts: "\<not> starts_cont (encode UTF8 cs)"
proof (cases cs)
  case Nil
  then show ?thesis by (simp add: encode_simps starts_cont_def)
qed (simp add: encode_simps WRITE_UTF8_starts)

lemma utf8_to_16_encode:
  assumes "\<forall>c \<in> set cs. plain c"
  shows "utf8_to_16 write (encode UTF8 cs) = concat (map write cs)"
  using assms
proof (induction cs)
  case (Cons c cs)
  have c: "plain c" using Cons.prems by simp
  then have "unat c < 0x200000" "\<not> (0xD800 \<le> c \<and> c < 0xE000)" "c AND 0xFFFFFFFE \<noteq> 0xFFFE" unfolding plain_def scalar_def by auto
  then have r: "READ_UTF8 (\<lambda>c. c < 0x80) (WRITE_UTF8 c @ encode UTF8 cs) = (c, encode UTF8 cs)"
    using read_utf8 [OF _ encode_starts [of cs]] unfolding checked_def surrogate_mask by (simp only: if_False simp_thms if_cancel) simp
  obtain b z where b: "WRITE_UTF8 c @ encode UTF8 cs = b # z" using WRITE_UTF8_length(1) [of c] by (cases "WRITE_UTF8 c") auto
  have "utf8_to_16 write (b # z) = write c @ utf8_to_16 write (encode UTF8 cs)" using r unfolding b by simp
  then show ?case using Cons b by (simp add: encode_simps)
qed (simp add: encode_simps)

lemma utf16_to_8_encode:
  assumes e: "e = UTF16LE \<and> rd = READ_UTF16LE \<or> e = UTF16BE \<and> rd = READ_UTF16BE" and "\<forall>c \<in> set cs. scalar c"
  shows "utf16_to_8 rd (length (encode e cs)) (encode e cs @ z) = Some (encode UTF8 cs)"
  using assms(2)
proof (induction cs)
  case Nil
  then show ?case by (subst utf16_to_8.simps) (simp add: encode_simps)
next
  case (Cons c cs)
  obtain w where w: "rd (w @ encode e cs @ z) = Some (c, encode e cs @ z)" "encode e (c # cs) = w @ encode e cs" "w \<noteq> []"
    using e
  proof
    assume "e = UTF16LE \<and> rd = READ_UTF16LE"
    then show ?thesis using that [of "WRITE_UTF16LE c"] read_utf16(1) [of c] Cons.prems WRITE_UTF16_nonempty by (auto simp: encode_simps)
  next
    assume "e = UTF16BE \<and> rd = READ_UTF16BE"
    then show ?thesis using that [of "WRITE_UTF16BE c"] read_utf16(2) [of c] Cons.prems WRITE_UTF16_nonempty by (auto simp: encode_simps)
  qed
  have "length (w @ encode e cs) - (length ((w @ encode e cs) @ z) - length (encode e cs @ z)) = length (encode e cs)" by simp
  then show ?case
    unfolding w(2) using w(1,3) Cons.IH Cons.prems by (subst utf16_to_8.simps) (simp add: encode_simps)
qed

lemma swap_append: "swap_bytes n (a # b # z) = (case n of 0 \<Rightarrow> a # b # z | Suc n \<Rightarrow> b # a # swap_bytes n z)"
  by (cases n) simp_all

lemma swap_encode:
  "swap_bytes (length (encode UTF16LE cs) div 2) (encode UTF16LE cs @ z) = encode UTF16BE cs @ z \<and>
   swap_bytes (length (encode UTF16BE cs) div 2) (encode UTF16BE cs @ z) = encode UTF16LE cs @ z"
proof (induction cs)
  case (Cons c cs)
  show ?case
  proof (cases "c \<le> 0xFFFF")
    case True
    then show ?thesis using Cons by (simp add: encode_simps WRITE_UTF16LE_def WRITE_UTF16BE_def swap_append)
  next
    case False
    then show ?thesis using Cons by (simp add: encode_simps WRITE_UTF16LE_def WRITE_UTF16BE_def swap_append)
  qed
qed (simp add: encode_simps)

lemma encode16_length: "length (encode UTF16BE cs) = length (encode UTF16LE cs)" "even (length (encode UTF16LE cs))"
  by (induction cs) (simp_all add: encode_simps WRITE_UTF16_length)


section \<open>Bounds\<close>

lemma Trans1_small: "i < 64 \<Longrightarrow> sqlite3Utf8Trans1 ! i < 0x80"
proof -
  have "\<forall>i \<in> set [0..<64]. sqlite3Utf8Trans1 ! i < 0x80" by code_simp
  then show "i < 64 \<Longrightarrow> sqlite3Utf8Trans1 ! i < 0x80" by simp
qed

text \<open>A character that takes two units of UTF-16 was read from two bytes at least.\<close>

lemma READ_UTF8_one:
  assumes "READ_UTF8 (\<lambda>c. c < 0x80) (b # z) = (c, z)"
  shows "c \<le> 0xFFFF"
proof (cases "0xc0 \<le> b")
  case False
  then have "c = ucast b" using assms by (simp add: READ_UTF8_def)
  moreover have "unat b < 256" using unsigned_less [of b] by simp
  ultimately show ?thesis using unat_ucast_up [of b] by (simp add: word_le_nat_alt)
next
  case True
  define t :: u32 where "t = ucast (sqlite3Utf8Trans1 ! unat (b - 0xc0))"
  have "unat b < 256" using unsigned_less [of b] by simp
  then have "unat (b - 0xc0) < 64" using True by (simp add: unat_sub word_le_nat_alt)
  from Trans1_small [OF this] have t: "t < 0x80" unfolding t_def word_less_nat_alt unat_ucast_up by simp
  obtain c' z' where l: "cont_loop t z = (c', z')" by (rule prod.exhaust)
  have z': "z' = z" "c = (if c' < 0x80 \<or> c' AND 0xFFFFF800 = 0xD800 \<or> c' AND 0xFFFFFFFE = 0xFFFE then 0xFFFD else c')"
    using assms True l unfolding t_def READ_UTF8_def by (auto simp: Let_def split: if_splits)
  have "c' = t"
  proof (cases z)
    case Nil
    then show ?thesis using l by simp
  next
    case (Cons a y)
    show ?thesis
    proof (cases "is_cont a")
      case True
      then have "cont_loop (push_bit 6 t + (0x3f AND ucast a)) y = (c', z')" using l Cons by (simp only: cont_loop.simps if_True)
      then have "length z' \<le> length y" by (rule cont_loop_length)
      then show ?thesis using z'(1) Cons by simp
    next
      case False
      then show ?thesis using l Cons by simp
    qed
  qed
  then have "c = 0xFFFD" using z'(2) t by simp
  then show ?thesis by (simp add: word_le_nat_alt)
qed

lemma utf8_to_16_length:
  assumes w: "\<forall>c. length (w c) = (if c \<le> 0xFFFF then 2 else 4)"
  shows "length (utf8_to_16 w z) \<le> 2 * length z"
  using assms
proof (induction w z rule: utf8_to_16.induct)
  case (2 w b z)
  obtain c z' where r: "READ_UTF8 (\<lambda>c. c < 0x80) (b # z) = (c, z')" by (rule prod.exhaust)
  have l: "length z' < Suc (length z)" using READ_UTF8_shorter r by metis
  have suf: "length z' = length z \<Longrightarrow> z' = z"
  proof -
    assume e: "length z' = length z"
    show "z' = z"
    proof (cases "0xc0 \<le> b")
      case False
      then show ?thesis using r by (simp add: READ_UTF8_def)
    next
      case True
      obtain c'' z'' where cl: "cont_loop (ucast (sqlite3Utf8Trans1 ! unat (b - 0xc0))) z = (c'', z'')" by (rule prod.exhaust)
      then have "z' = z''" using r True by (auto simp: READ_UTF8_def Let_def split: if_splits)
      then have cl: "cont_loop (ucast (sqlite3Utf8Trans1 ! unat (b - 0xc0))) z = (c'', z')" using cl by simp
      show ?thesis
      proof (cases z)
        case (Cons a y)
        then show ?thesis using cl e cont_loop_length [of _ y c'' z'] by (cases "is_cont a") (auto simp del: cont_loop.simps simp: cont_loop.simps(1))
      qed (use e in simp)
    qed
  qed
  have wc: "length (w c) \<le> 2 * (Suc (length z) - length z')"
  proof (cases "length z' = length z")
    case True
    then have "c \<le> 0xFFFF" using suf r READ_UTF8_one by blast
    then show ?thesis using 2(2) True by simp
  next
    case False
    then show ?thesis using l 2(2) by (cases "c \<le> 0xFFFF") simp_all
  qed
  then show ?case using 2 r l by simp
qed simp

lemma unit16_small: "unit16 lo hi \<le> 0xFFFF"
proof -
  have "unat lo < 256" "unat hi < 256" using unsigned_less [of lo] unsigned_less [of hi] by simp_all
  then show ?thesis by (simp add: word_le_nat_alt unat_unit16)
qed

text \<open>The two readers.\<close>

definition utf16_reader :: "(u8 list \<Rightarrow> (u32 \<times> u8 list) option) \<Rightarrow> bool" where
  "utf16_reader rd \<longleftrightarrow> (\<forall>z c z'. rd z = Some (c, z') \<longrightarrow> length z' + 2 = length z \<and> c \<le> 0xFFFF \<or> length z' + 4 = length z) \<and>
     (\<forall>z. 4 \<le> length z \<longrightarrow> rd z \<noteq> None)"

lemma utf16_readers: "utf16_reader READ_UTF16LE" "utf16_reader READ_UTF16BE"
proof -
  have l: "\<exists>b0 b1 y. z = b0 # b1 # y" if "2 \<le> length z" for z :: "u8 list" using that by (cases z; cases "tl z") auto
  have le: "length z' + 2 = length z \<and> c \<le> 0xFFFF \<or> length z' + 4 = length z" if "READ_UTF16LE z = Some (c, z')" for z c z'
  proof -
    have "2 \<le> length z" using that by (auto simp: READ_UTF16LE_of_def split: list.splits)
    then obtain b0 b1 y where "z = b0 # b1 # y" using l by blast
    then show ?thesis using that unit16_small [of b0 b1] by (auto simp: READ_UTF16LE_iff split: if_splits list.splits)
  qed
  have be: "length z' + 2 = length z \<and> c \<le> 0xFFFF \<or> length z' + 4 = length z" if "READ_UTF16BE z = Some (c, z')" for z c z'
  proof -
    have "2 \<le> length z" using that by (auto simp: READ_UTF16BE_of_def split: list.splits)
    then obtain b0 b1 y where "z = b0 # b1 # y" using l by blast
    then show ?thesis using that unit16_small [of b1 b0] by (auto simp: READ_UTF16BE_iff split: if_splits list.splits)
  qed
  have "READ_UTF16LE z \<noteq> None \<and> READ_UTF16BE z \<noteq> None" if z: "4 \<le> length z" for z
  proof -
    obtain b0 b1 y where "z = b0 # b1 # y" using l [of z] z by auto
    moreover from this obtain b2 b3 x where "y = b2 # b3 # x" using l [of y] z by auto
    ultimately show ?thesis by (simp add: READ_UTF16LE_iff READ_UTF16BE_iff)
  qed
  then show "utf16_reader READ_UTF16LE" "utf16_reader READ_UTF16BE" using le be unfolding utf16_reader_def by blast+
qed

lemma utf16_to_8_length:
  assumes "utf16_reader rd" "even k" "utf16_to_8 rd k z = Some out"
  shows "length out \<le> 2 * k"
  using assms(2,3)
proof (induction k arbitrary: z out rule: less_induct)
  case (less k)
  show ?case
  proof (cases "k = 0")
    case True
    then show ?thesis using less.prems by (subst (asm) utf16_to_8.simps) simp
  next
    case False
    obtain c z' o' where r: "rd z = Some (c, z')" "utf16_to_8 rd (k - (length z - length z')) z' = Some o'" "out = WRITE_UTF8 c @ o'"
      using less.prems(2) False by (subst (asm) utf16_to_8.simps) (auto simp: bind_eq_Some_conv)
    have k2: "2 \<le> k" using less.prems(1) False by presburger
    from r(1) assms(1) have "length z' + 2 = length z \<and> c \<le> 0xFFFF \<or> length z' + 4 = length z" unfolding utf16_reader_def by blast
    then show ?thesis
    proof
      assume a: "length z' + 2 = length z \<and> c \<le> 0xFFFF"
      then have d: "length z - length z' = 2" by linarith
      have "length o' \<le> 2 * (k - 2)" using less.IH [of "k - 2"] less.prems(1) r(2) k2 unfolding d by simp
      then show ?thesis using r(3) a WRITE_UTF8_length(3) [of c] k2 by simp
    next
      assume a: "length z' + 4 = length z"
      then have d: "length z - length z' = 4" by linarith
      have "length o' \<le> 2 * (k - 4)" using less.IH [of "k - 4"] less.prems(1) r(2) k2 unfolding d by simp
      then show ?thesis using r(3) WRITE_UTF8_length(2) [of c] k2 by simp
    qed
  qed
qed

lemma utf16_to_8_inside:
  assumes "utf16_reader rd" "even k" "k = 0 \<or> k + 2 \<le> length z"
  shows "utf16_to_8 rd k z \<noteq> None"
  using assms(2,3)
proof (induction k arbitrary: z rule: less_induct)
  case (less k)
  show ?case
  proof (cases "k = 0")
    case True
    then show ?thesis by (subst utf16_to_8.simps) simp
  next
    case False
    have k2: "2 \<le> k" using less.prems(1) False by presburger
    then have "4 \<le> length z" using less.prems(2) by simp
    then obtain c z' where r: "rd z = Some (c, z')" using assms(1) unfolding utf16_reader_def by fastforce
    then have l: "length z' + 2 = length z \<or> length z' + 4 = length z" using assms(1) unfolding utf16_reader_def by blast
    define k' where "k' = k - (length z - length z')"
    obtain d where d: "length z - length z' = d" "length z' + d = length z" "d = 2 \<or> d = 4" using l by (metis add_diff_cancel_left')
    have k': "k' = k - d" by (simp add: k'_def d(1))
    have "k' < k" "even k'" using d(3) k2 less.prems(1) unfolding k' by auto
    moreover have "k' = 0 \<or> k' + 2 \<le> length z'" using d(2,3) less.prems(2) False unfolding k' by linarith
    ultimately have "utf16_to_8 rd k' z' \<noteq> None" by (rule less.IH)
    then show ?thesis using False r by (subst utf16_to_8.simps) (auto simp: k'_def)
  qed
qed
text \<open>Counting characters and bytes.\<close>

lemma skip_read: "SQLITE_SKIP_UTF8 y = snd (READ_UTF8 f y)"
proof -
  have sk: "skip_cont z' = snd (cont_loop w z')" for w z' by (induction w z' rule: cont_loop.induct) simp_all
  show ?thesis
  proof (cases y)
    case (Cons b z)
    show ?thesis
    proof (cases "0xc0 \<le> b")
      case True
      then show ?thesis using Cons sk [of z "ucast (sqlite3Utf8Trans1 ! unat (b - 0xc0))"]
        by (simp add: SQLITE_SKIP_UTF8_def READ_UTF8_def Let_def split: prod.split)
    qed (use Cons in \<open>simp add: SQLITE_SKIP_UTF8_def READ_UTF8_def\<close>)
  qed (simp add: SQLITE_SKIP_UTF8_def READ_UTF8_def)
qed

lemma first_byte_nonzero: "c \<noteq> 0 \<Longrightarrow> unat c < 0x200000 \<Longrightarrow> hd (WRITE_UTF8 c) \<noteq> 0"
proof
  assume c: "c \<noteq> 0" "unat c < 0x200000" and h: "hd (WRITE_UTF8 c) = 0"
  obtain z where z: "WRITE_UTF8 c = 0 # z" using h WRITE_UTF8_length(1) [of c] by (cases "WRITE_UTF8 c") auto
  have ns: "\<not> starts_cont []" by (simp add: starts_cont_def)
  have "READ_UTF8 (\<lambda>_. False) (0 # z) = (if c < 0x80 then c else checked (\<lambda>_. False) c, [])"
    using read_utf8 [OF c(2) ns, of "\<lambda>_. False"] z by simp
  then have "(if c < 0x80 then c else checked (\<lambda>_. False) c) = 0" "z = []" by (simp_all add: READ_UTF8_def)
  then show False using c(1) by (auto simp: checked_def split: if_splits)
qed

lemma charlen_encode:
  assumes "\<forall>c \<in> set cs. plain c \<and> c \<noteq> 0"
  shows "charlen_loop (encode UTF8 cs) None = length cs" "charlen_loop (encode UTF8 cs @ 0 # z) None = length cs"
    "charlen_loop (encode UTF8 cs @ encode UTF8 ds) (Some (length (encode UTF8 cs))) = length cs"
proof -
  have gen: "charlen_loop (encode UTF8 cs @ y) n = length cs"
    if "\<not> starts_cont y" "y = [] \<or> hd y = 0 \<or> n = Some (length (encode UTF8 cs))" "n = None \<or> n = Some (length (encode UTF8 cs))" for y n
    using assms that
  proof (induction cs arbitrary: n)
    case Nil
    then show ?case by (cases y) (auto simp: encode_simps)
  next
    case (Cons c cs)
    have c: "unat c < 0x200000" "c \<noteq> 0" using Cons.prems(1) by (auto simp: plain_def scalar_def)
    let ?r = "encode UTF8 cs @ y"
    have ns: "\<not> starts_cont ?r" using encode_starts [of cs] Cons.prems(2) by (cases "encode UTF8 cs") (simp_all add: starts_cont_def)
    obtain b w where w: "WRITE_UTF8 c = b # w" using WRITE_UTF8_length(1) [of c] by (cases "WRITE_UTF8 c") auto
    have b: "b \<noteq> 0" using first_byte_nonzero [OF c(2,1)] w by simp
    have sk: "SQLITE_SKIP_UTF8 (b # w @ ?r) = ?r" using read_utf8 [OF c(1) ns, of "\<lambda>c. c < 0x80"] skip_read [of "WRITE_UTF8 c @ ?r" "\<lambda>c. c < 0x80"] w by simp
    define n' where "n' = map_option (\<lambda>n. n - (length (b # w @ ?r) - length ?r)) n"
    have n': "n' = None \<or> n' = Some (length (encode UTF8 cs))" "y = [] \<or> hd y = 0 \<or> n' = Some (length (encode UTF8 cs))" "n \<noteq> Some 0"
      using Cons.prems(3,4) w by (auto simp: n'_def encode_simps)
    have "charlen_loop (b # w @ ?r) n = Suc (charlen_loop ?r n')" using b n'(3) sk by (simp add: Let_def n'_def)
    also have "charlen_loop ?r n' = length cs" by (rule Cons.IH) (use Cons.prems(1,2) n' in auto)
    finally show ?case using w by (simp add: encode_simps)
  qed
  show "charlen_loop (encode UTF8 cs) None = length cs" using gen [of "[]" None] by (simp add: starts_cont_def)
  have "\<not> starts_cont (0 # z)" by (simp add: starts_cont_def is_cont_def)
  then show "charlen_loop (encode UTF8 cs @ 0 # z) None = length cs" using gen [of "0 # z" None] by simp
  show "charlen_loop (encode UTF8 cs @ encode UTF8 ds) (Some (length (encode UTF8 cs))) = length cs"
    using gen [OF encode_starts [of ds], of "Some (length (encode UTF8 cs))"] by simp
qed


text \<open>A text as the pieces a reader takes one after the other.\<close>

definition pieces :: "(u8 list \<Rightarrow> (u32 \<times> u8 list) option) \<Rightarrow> (u32 \<times> u8 list) list \<Rightarrow> bool" where
  "pieces rd us \<longleftrightarrow> (\<forall>(c, w) \<in> set us. c \<noteq> 0 \<and> (\<forall>z. rd (w @ z) = Some (c, z)))"

lemma bytelen_pieces:
  assumes "pieces rd us" "\<And>z. rd (0 # 0 # z) = Some (0, z)" "c0 \<noteq> 0" "0 \<le> n"
  shows "bytelen_loop rd nChar c0 n i (concat (map snd us) @ [0, 0] @ z) =
    (if nChar < 0 \<or> n + int (length us) < nChar then Some (i + length (concat (map snd us)) + 2, 0)
     else Some (i + length (concat (map snd (take (nat (nChar - n)) us))), if nChar \<le> n then c0 else fst (us ! (nat (nChar - n) - 1))))"
  using assms(1,3,4)
proof (induction us arbitrary: c0 n i)
  case Nil
  show ?case
  proof (cases "nChar < 0 \<or> n < nChar")
    case True
    have "bytelen_loop rd nChar 0 (n + 1) (i + 2) z = Some (i + 2, 0)" by (subst bytelen_loop.simps) simp
    then show ?thesis using True Nil assms(2) [of z] by (subst bytelen_loop.simps) simp
  next
    case False
    then show ?thesis using Nil by (subst bytelen_loop.simps) simp
  qed
next
  case (Cons u us)
  obtain c w where u: "u = (c, w)" by (rule prod.exhaust)
  let ?z = "concat (map snd us) @ [0, 0] @ z"
  have c: "c \<noteq> 0" "rd (w @ ?z) = Some (c, ?z)" and us: "pieces rd us" using Cons.prems(1) u by (auto simp: pieces_def)
  show ?case
  proof (cases "nChar < 0 \<or> n < nChar")
    case False
    then show ?thesis using Cons.prems by (subst bytelen_loop.simps) simp
  next
    case True
    have "bytelen_loop rd nChar c0 n i (concat (map snd (u # us)) @ [0, 0] @ z) = bytelen_loop rd nChar c (n + 1) (i + length w) ?z"
      using True Cons.prems(2) c(2) u by (subst bytelen_loop.simps) simp
    also have "\<dots> = (if nChar < 0 \<or> n + 1 + int (length us) < nChar then Some (i + length w + length (concat (map snd us)) + 2, 0)
      else Some (i + length w + length (concat (map snd (take (nat (nChar - (n + 1))) us))), if nChar \<le> n + 1 then c else fst (us ! (nat (nChar - (n + 1)) - 1))))"
      by (rule Cons.IH) (use Cons.prems c us in simp_all)
    finally have e: "bytelen_loop rd nChar c0 n i (concat (map snd (u # us)) @ [0, 0] @ z) = \<dots>" .
    show ?thesis
    proof (cases "nChar < 0 \<or> n + 1 + int (length us) < nChar")
      case t: True
      then show ?thesis unfolding e using u by (auto simp del: length_concat)
    next
      case f: False
      have "nat (nChar - n) = Suc (nat (nChar - (n + 1)))" using True f Cons.prems(3) by linarith
      then show ?thesis unfolding e if_not_P [OF f] using f True u by (auto simp: nth_Cons' simp del: length_concat)
    qed
  qed
qed

lemma ByteLen_pieces:
  assumes "pieces (if big then READ_UTF16BE_of ext else READ_UTF16LE_of ext) us" "ext 0 = 0"
  shows "sqlite3Utf16ByteLen ext big (concat (map snd us) @ [0, 0] @ z) nChar =
    Some (int (length (concat (map snd (if nChar < 0 then us else take (nat nChar) us)))))"
proof -
  define rd where "rd = (if big then READ_UTF16BE_of ext else READ_UTF16LE_of ext)"
  have p: "pieces rd us" using assms(1) by (simp add: rd_def)
  have r: "rd (0 # 0 # z) = Some (0, z)" for z using assms(2) by (simp add: rd_def READ_UTF16BE_of_def READ_UTF16LE_of_def)
  note loop = bytelen_pieces [OF p r, of 1 0 nChar 0 z]
  show ?thesis
  proof (cases "nChar < 0 \<or> int (length us) < nChar")
    case True
    then show ?thesis unfolding sqlite3Utf16ByteLen_def rd_def [symmetric] using loop by (auto simp del: length_concat)
  next
    case False
    have "(if nChar \<le> 0 then 1 else fst (us ! (nat nChar - 1))) \<noteq> 0"
    proof (cases "nChar \<le> 0")
      case n: False
      then have "us ! (nat nChar - 1) \<in> set us" using False by (intro nth_mem) linarith
      then show ?thesis using p n by (auto simp: pieces_def)
    qed simp
    then show ?thesis unfolding sqlite3Utf16ByteLen_def rd_def [symmetric] using loop False by (auto simp del: length_concat)
  qed
qed

lemma ByteLen_unsigned:
  assumes "\<forall>c \<in> set cs. scalar c \<and> c \<noteq> 0" "e = (if big then UTF16BE else UTF16LE)"
  shows "sqlite3Utf16ByteLen ucast big (encode e cs @ [0, 0] @ z) nChar = Some (int (length (encode e (if nChar < 0 then cs else take (nat nChar) cs))))"
proof -
  define w where "w = (if big then WRITE_UTF16BE else WRITE_UTF16LE)"
  have e: "encode e cs = concat (map snd (map (\<lambda>c. (c, w c)) cs))" for cs
    by (unfold assms(2) w_def, cases big; induction cs) (simp_all add: encode_simps)
  have "pieces (if big then READ_UTF16BE else READ_UTF16LE) (map (\<lambda>c. (c, w c)) cs)"
    using assms(1) read_utf16 by (auto simp: pieces_def w_def)
  from ByteLen_pieces [OF this, of z nChar] show ?thesis unfolding e by (auto simp: take_map simp del: length_concat)
qed

text \<open>A signed byte pair is never in the range of the surrogates.\<close>

lemma signed_unit:
  assumes "(a :: u8) \<noteq> 0 \<or> (b :: u8) \<noteq> 0"
  shows "scast a + push_bit 8 (scast b) \<noteq> (0 :: u32)" "\<not> ((0xD800 :: u32) \<le> scast a + push_bit 8 (scast b) \<and> scast a + push_bit 8 (scast b) < (0xE000 :: u32))"
proof -
  define s where "s = sint a + 256 * sint b"
  have ab: "- 128 \<le> sint a" "sint a < 128" "- 128 \<le> sint b" "sint b < 128"
    using sint_range_size [of a] sint_range_size [of b] by (simp_all add: word_size)
  have v: "scast a + push_bit 8 (scast b) = (word_of_int s :: u32)"
    by (simp add: s_def push_bit_eq_mult mult.commute)
  have nz: "s \<noteq> 0"
  proof
    assume "s = 0"
    moreover have "x = 0 \<and> y = 0" if "x + 256 * y = 0" "- 128 \<le> x" "x < 128" for x y :: int using that by presburger
    ultimately have "sint a = 0" "sint b = 0" using ab(1,2) unfolding s_def by blast+
    then show False using assms by (simp add: signed_eq_0_iff)
  qed
  have sb: "- 32896 \<le> s" "s < 32768" using ab by (simp_all add: s_def)
  have u: "uint (word_of_int s :: u32) = (if 0 \<le> s then s else s + 4294967296)"
  proof (cases "0 \<le> s")
    case False
    have "(s + 4294967296) mod 4294967296 = s + 4294967296" by (rule mod_pos_pos_trivial) (use sb False in simp_all)
    then have "s mod 4294967296 = s + 4294967296" by simp
    then show ?thesis using False by (simp add: uint_word_of_int)
  qed (use sb in \<open>simp add: uint_word_of_int\<close>)
  show "scast a + push_bit 8 (scast b) \<noteq> (0 :: u32)" unfolding v using u nz sb by (auto simp: word_uint_eq_iff split: if_splits)
  show "\<not> ((0xD800 :: u32) \<le> scast a + push_bit 8 (scast b) \<and> scast a + push_bit 8 (scast b) < (0xE000 :: u32))"
    unfolding v word_le_def word_less_def u using sb by auto
qed

lemma ByteLen_signed:
  assumes "(0, 0) \<notin> set ps"
  shows "sqlite3Utf16ByteLen scast big (concat (map (\<lambda>(a, b). [a, b]) ps) @ [0, 0] @ z) nChar =
    Some (2 * (if nChar < 0 then int (length ps) else min nChar (int (length ps))))"
proof -
  define unit :: "u8 \<times> u8 \<Rightarrow> u32" where "unit = (\<lambda>(a, b). if big then push_bit 8 (scast a) + scast b else scast a + push_bit 8 (scast b))"
  define us where "us = map (\<lambda>p. (unit p, [fst p, snd p])) ps"
  have s: "concat (map snd us) = concat (map (\<lambda>(a, b). [a, b]) ps)" unfolding us_def by (rule arg_cong [of _ _ concat]) auto
  have l: "length (concat (map snd us)) = 2 * length us" if "\<forall>u \<in> set us. length (snd u) = 2" for us :: "(u32 \<times> u8 list) list"
    using that by (induction us) auto
  have "pieces (if big then READ_UTF16BE_of scast else READ_UTF16LE_of scast) us"
  proof (unfold pieces_def, clarify, intro conjI allI)
    fix c w z assume "(c, w) \<in> set us"
    then obtain a b where p: "(a, b) \<in> set ps" and cw: "c = unit (a, b)" "w = [a, b]" by (auto simp: us_def)
    then have ab: "a \<noteq> 0 \<or> b \<noteq> 0" "b \<noteq> 0 \<or> a \<noteq> 0" using assms by auto
    note s = signed_unit [OF ab(1)] signed_unit [OF ab(2)]
    show "c \<noteq> 0" using s cw by (simp add: unit_def add.commute)
    show "(if big then READ_UTF16BE_of scast else READ_UTF16LE_of scast) (w @ z) = Some (c, z)"
      using s cw by (auto simp: unit_def READ_UTF16BE_of_def READ_UTF16LE_of_def Let_def add.commute)
  qed
  from ByteLen_pieces [OF this, of z nChar] have r: "sqlite3Utf16ByteLen scast big (concat (map snd us) @ [0, 0] @ z) nChar =
    Some (int (length (concat (map snd (if nChar < 0 then us else take (nat nChar) us)))))" by simp
  have "\<forall>u \<in> set (if nChar < 0 then us else take (nat nChar) us). length (snd u) = 2" by (auto simp: us_def take_map dest: in_set_takeD)
  from l [OF this] show ?thesis using r unfolding s by (auto simp: us_def simp del: length_concat)
qed


section \<open>Properties\<close>

text \<open>
  C10: What \<^verbatim>\<open>sqlite3UtfSelfTest\<close> tests, for every character. A character written in UTF-8 takes
  one to four bytes; an ASCII character is read back whatever follows, any other one when no
  continuation byte (\<open>10xxxxxx\<close>) follows, but for the surrogates, U+FFFE and U+FFFF, which are read as
  U+FFFD. Behind a continuation byte more would be read: the bytes C3 A9 80 are read as one
  character, not as U+00E9 and a rest. A character that is no surrogate is read back from UTF-16
  of both byte orders, whatever follows.
\<close>

theorem utf_characters:
  assumes "unat c < 0x110000"
  shows "(c < 0x80 \<or> \<not> starts_cont z \<longrightarrow>
      sqlite3Utf8Read (WRITE_UTF8 c @ z) = (if 0xD800 \<le> c \<and> c \<le> 0xDFFF \<or> c = 0xFFFE \<or> c = 0xFFFF then 0xFFFD else c, z)) \<and>
    0 < length (WRITE_UTF8 c) \<and> length (WRITE_UTF8 c) \<le> 4 \<and>
    (\<not> (0xD800 \<le> c \<and> c < 0xE000) \<longrightarrow>
      READ_UTF16LE (WRITE_UTF16LE c @ z) = Some (c, z) \<and> READ_UTF16BE (WRITE_UTF16BE c @ z) = Some (c, z) \<and>
      0 < length (WRITE_UTF16LE c) \<and> length (WRITE_UTF16LE c) \<le> 4 \<and> 0 < length (WRITE_UTF16BE c) \<and> length (WRITE_UTF16BE c) \<le> 4) \<and>
    WRITE_UTF8 0xE9 = [0xC3, 0xA9] \<and> sqlite3Utf8Read [0xC3, 0xA9, 0x80] = (0x3A40, [])"
proof -
  have c: "unat c < 0x200000" "unat c < 2 ^ 31" using assms(1) by simp_all
  have s: "sint c < 0x80 \<longleftrightarrow> c < 0x80" by (rule sint_char [OF c(2)])
  have sur: "c AND 0xFFFFF800 = 0xD800 \<longleftrightarrow> 0xD800 \<le> c \<and> c \<le> 0xDFFF"
    unfolding surrogate_mask by (auto simp: word_le_nat_alt word_less_nat_alt)
  have pair: "c AND 0xFFFFFFFE = 0xFFFE \<longleftrightarrow> c = 0xFFFE \<or> c = 0xFFFF"
  proof -
    have "(0xFFFFFFFE :: u32) = NOT (mask 1)" by (simp add: mask_eq_exp_minus_1)
    then have "unat (c AND 0xFFFFFFFE) = unat c div 2 ^ 1 * 2 ^ 1" by (simp only: high_bits unat_high)
    then show ?thesis unfolding word_unat_eq_iff by simp presburger
  qed
  have small: "c < 0x80 \<Longrightarrow> \<not> (0xD800 \<le> c \<and> c \<le> 0xDFFF) \<and> c \<noteq> 0xFFFE \<and> c \<noteq> 0xFFFF"
    by (auto simp: word_le_nat_alt word_less_nat_alt)
  have r: "sqlite3Utf8Read (WRITE_UTF8 c @ z) = (if c < 0x80 then c else checked (\<lambda>c. sint c < 0x80) c, z)"
    if "c < 0x80 \<or> \<not> starts_cont z"
    using that read_utf8 [OF c(1)] read_utf8_ascii unfolding sqlite3Utf8Read_def by (cases "c < 0x80") auto
  have v: "(if c < 0x80 then c else checked (\<lambda>c. sint c < 0x80) c) =
      (if 0xD800 \<le> c \<and> c \<le> 0xDFFF \<or> c = 0xFFFE \<or> c = 0xFFFF then 0xFFFD else c)"
    using small unfolding checked_def s sur pair by (cases "c < 0x80") (simp_all only: if_True if_False simp_thms)
  have u: "scalar c \<longleftrightarrow> \<not> (0xD800 \<le> c \<and> c < 0xE000)" using assms(1) by (simp only: scalar_def simp_thms)
  have l: "0 < length (WRITE_UTF16LE c)" "length (WRITE_UTF16LE c) \<le> 4" "0 < length (WRITE_UTF16BE c)" "length (WRITE_UTF16BE c) \<le> 4"
    unfolding WRITE_UTF16_length by simp_all
  have e: "WRITE_UTF8 0xE9 = [0xC3, 0xA9]" "sqlite3Utf8Read [0xC3, 0xA9, 0x80] = (0x3A40, [])" by code_simp+
  show ?thesis using r v e read_utf16 [of c z] u l WRITE_UTF8_length(1,2) [of c] by presburger
qed

theorem utf_characters_witness:
  "sqlite3Utf8Read (WRITE_UTF8 0x1F600 @ [0x41]) = (0x1F600, [0x41]) \<and> READ_UTF16LE (WRITE_UTF16LE 0x1F600 @ [0x41]) = Some (0x1F600, [0x41])"
  using utf_characters [of "0x1F600" "[0x41]"] by (simp add: starts_cont_def is_cont_def)

text \<open>
  C11: \<^verbatim>\<open>sqlite3Utf8CharLen\<close> counts the characters before the terminator, or those of the first
  bytes it is given. \<^verbatim>\<open>sqlite3Utf16ByteLen\<close> gives the bytes of as many characters as asked, all of
  them for a negative number, where \<^verbatim>\<open>char\<close> is unsigned; where it is signed it counts code units
  instead, two for a character outside the basic plane.
\<close>

theorem utf_lengths:
  assumes "\<forall>c \<in> set cs. plain c \<and> c \<noteq> 0" "(0, 0) \<notin> set units"
  shows "sqlite3Utf8CharLen (encode UTF8 cs) (- 1) = length cs \<and> sqlite3Utf8CharLen (encode UTF8 cs @ 0 # z) (- 1) = length cs \<and>
    sqlite3Utf8CharLen (encode UTF8 cs @ encode UTF8 ds) (int (length (encode UTF8 cs))) = length cs \<and>
    (let e = (if big then UTF16BE else UTF16LE) in
     sqlite3Utf16ByteLen ucast big (encode e cs @ [0, 0] @ z) nChar = Some (int (length (encode e (if nChar < 0 then cs else take (nat nChar) cs))))) \<and>
    sqlite3Utf16ByteLen scast big (concat (map (\<lambda>(a, b). [a, b]) units) @ [0, 0] @ z) nChar =
      Some (2 * (if nChar < 0 then int (length units) else min nChar (int (length units))))"
  unfolding Let_def
proof (intro conjI)
  show "sqlite3Utf8CharLen (encode UTF8 cs) (- 1) = length cs" "sqlite3Utf8CharLen (encode UTF8 cs @ 0 # z) (- 1) = length cs"
    "sqlite3Utf8CharLen (encode UTF8 cs @ encode UTF8 ds) (int (length (encode UTF8 cs))) = length cs"
    using charlen_encode [OF assms(1)] by (simp_all add: sqlite3Utf8CharLen_def)
qed (rule ByteLen_unsigned ByteLen_signed; use assms in \<open>simp add: plain_def\<close>)+

theorem utf_lengths_witness:
  "sqlite3Utf8CharLen (encode UTF8 [0x41, 0x1F600]) (- 1) = 2 \<and> sqlite3Utf16ByteLen ucast False (encode UTF16LE [0x41, 0x1F600] @ [0, 0] @ []) 2 = Some 6 \<and>
    sqlite3Utf16ByteLen scast False (encode UTF16LE [0x41, 0x1F600] @ [0, 0] @ []) 2 = Some 4"
proof -
  have p: "\<forall>c \<in> set [0x41, 0x1F600]. plain c \<and> c \<noteq> 0" by (simp add: plain_def scalar_def)
  have u: "(0, 0) \<notin> set [(0x41 :: u8, 0), (0x3D, 0xD8), (0x00, 0xDE :: u8)]" by simp
  have e: "encode UTF16LE [0x41, 0x1F600] = [0x41, 0, 0x3D, 0xD8, 0x00, 0xDE]" by (simp add: encode_def WRITE_UTF16LE_def)
  show ?thesis using utf_lengths [OF p u, of "[]" "[]" False 2] unfolding e by (simp add: e Let_def del: One_nat_def)
qed

end
