(* ===== verification/LikeGlob.thy ===== *)
theory LikeGlob
  imports Utf
begin

text \<open>
  The operators LIKE and GLOB of \<^verbatim>\<open>func.c\<close>: \<^verbatim>\<open>patternCompare\<close> with its backtracking over the bytes of
  UTF-8 texts, and \<^verbatim>\<open>likeFunc\<close>. A text is the list of its bytes before the terminator, a character
  the \<^verbatim>\<open>int\<close> that \<^verbatim>\<open>sqlite3Utf8Read\<close> returns, 0 at the terminator.

  The reference is a pattern parsed into tokens and a matcher by recursion on them; the theorems
  show that the code decides it.
\<close>

section \<open>The code\<close>

text \<open>The fields are bytes in C, compared as \<^verbatim>\<open>int\<close>; the two wild cards are not 0.\<close>

record compareInfo =
  matchAll :: int
  matchOne :: int
  matchSet :: int
  noCase :: bool

definition globInfo :: compareInfo where
  "globInfo = \<lparr>matchAll = 42, matchOne = 63, matchSet = 91, noCase = False\<rparr>"

definition likeInfoNorm :: compareInfo where
  "likeInfoNorm = \<lparr>matchAll = 37, matchOne = 95, matchSet = 0, noCase = True\<rparr>"

definition likeInfoAlt :: compareInfo where
  "likeInfoAlt = \<lparr>matchAll = 37, matchOne = 95, matchSet = 0, noCase = False\<rparr>"

definition GlogUpperToLower :: "int \<Rightarrow> int" where
  "GlogUpperToLower a = (if a < 0x80 then int (sqlite3UpperToLower (char_of (nat a))) else a)"

lemma Glog_0 [simp]: "GlogUpperToLower 0 = 0"
  by (simp add: GlogUpperToLower_def sqlite3UpperToLower_def)

text \<open>A read into an \<^verbatim>\<open>int\<close>.\<close>

definition getc :: "u8 list \<Rightarrow> int \<times> u8 list" where
  "getc z = (case sqlite3Utf8Read z of (c, z) \<Rightarrow> (sint c, z))"

lemma getc_Nil [simp]: "getc [] = (0, [])"
  by (simp add: getc_def sqlite3Utf8Read_def READ_UTF8_def)

lemma getc_length: "getc (b # z) = (c, z') \<Longrightarrow> length z' \<le> length z"
  by (auto simp: getc_def sqlite3Utf8Read_def READ_UTF8_def Let_def split: if_splits prod.splits dest!: cont_loop_length)

lemma getc_shorter [termination_simp]:
  "(c, z') = getc (b # z) \<Longrightarrow> length z' < Suc (length z)" "(c, z') = getc y \<Longrightarrow> c \<noteq> 0 \<Longrightarrow> length z' < length y"
  "(c, z') = getc y \<Longrightarrow> length z' \<le> length y"
proof -
  show 1: "(c, z') = getc (b # z) \<Longrightarrow> length z' < Suc (length z)" for b z using getc_length [of b z c z'] by simp
  show "(c, z') = getc y \<Longrightarrow> c \<noteq> 0 \<Longrightarrow> length z' < length y" using 1 by (cases y) simp_all
  show "(c, z') = getc y \<Longrightarrow> length z' \<le> length y" using 1 by (cases y) (auto dest: less_imp_le)
qed

text \<open>The loop behind a \<^verbatim>\<open>matchAll\<close>; \<open>None\<close> is the return of 0 when the string is too short.\<close>

fun skip_wild :: "compareInfo \<Rightarrow> u8 list \<Rightarrow> u8 list \<Rightarrow> (int \<times> u8 list \<times> u8 list) option" where
  "skip_wild info [] s = Some (0, [], s)"
| "skip_wild info (b # p) s =
    (case getc (b # p) of (c, p') \<Rightarrow>
       if c = matchAll info then skip_wild info p' s
       else if c = matchOne info then
         (case getc s of (d, s') \<Rightarrow> if d = 0 then None else skip_wild info p' s')
       else Some (c, p', s))"

lemma skip_wild_length: "skip_wild info p s = Some (c, p', s') \<Longrightarrow> c \<noteq> 0 \<Longrightarrow> length p' < length p"
  by (induction info p s arbitrary: c p' s' rule: skip_wild.induct)
    (auto split: if_splits prod.splits dest!: getc_length, fastforce+)

text \<open>The list of a set: \<open>c\<close> is the character of the string, \<open>c2\<close> the one read last from the pattern.\<close>

function set_loop :: "int \<Rightarrow> int \<Rightarrow> int \<Rightarrow> bool \<Rightarrow> u8 list \<Rightarrow> int \<times> bool \<times> u8 list" where
  "set_loop c c2 prior_c seen p =
    (if c2 = 0 \<or> c2 = 93 then (c2, seen, p)
     else if c2 = 45 \<and> p \<noteq> [] \<and> hd p \<noteq> 93 \<and> prior_c > 0 then
       (case getc p of (c2, p) \<Rightarrow>
        case getc p of (c2', p') \<Rightarrow> set_loop c c2' 0 (seen \<or> prior_c \<le> c \<and> c \<le> c2) p')
     else (case getc p of (c2', p') \<Rightarrow> set_loop c c2' c2 (seen \<or> c = c2) p'))"
  by pat_completeness auto

termination
  by (relation "measure (\<lambda>(c, c2, prior_c, seen, p). if c2 = 0 then 0 else Suc (length p))")
    (auto dest: getc_shorter(2) intro: less_le_trans [OF getc_shorter(2) getc_shorter(3)])

text \<open>The set behind its opening bracket: whether it takes the character, and the pattern behind it.\<close>

definition match_set :: "int \<Rightarrow> u8 list \<Rightarrow> bool \<times> u8 list" where
  "match_set c p =
    (let (c2, p) = getc p;
         (invert, c2, p) = (if c2 = 94 then (True, getc p) else (False, c2, p));
         (seen, c2, p) = (if c2 = 93 then (c = 93, getc p) else (False, c2, p));
         (c2, seen, p) = set_loop c c2 0 seen p
     in (\<not> (c2 = 0 \<or> (seen \<noteq> invert) = False), p))"

text \<open>The searches behind a \<^verbatim>\<open>matchAll\<close>; \<open>f\<close> is the comparison with the rest of the pattern.\<close>

fun search_set :: "(u8 list \<Rightarrow> bool) \<Rightarrow> u8 list \<Rightarrow> bool" where
  "search_set f [] = False"
| "search_set f (b # s) = (if f (b # s) then True else search_set f (SQLITE_SKIP_UTF8 (b # s)))"

function find_char :: "bool \<Rightarrow> int \<Rightarrow> int \<Rightarrow> u8 list \<Rightarrow> int \<times> u8 list" where
  "find_char nc c c2 s =
    (if c2 = 0 \<or> c2 = c then (c2, s)
     else case getc s of (c2', s') \<Rightarrow> find_char nc c (if nc then GlogUpperToLower c2' else c2') s')"
  by pat_completeness auto

termination
  by (relation "measure (\<lambda>(nc, c, c2, s). if c2 = 0 then 0 else Suc (length s))") (auto dest: getc_shorter(2))

lemma find_char_length: "find_char nc c c2 s = (d, s') \<Longrightarrow> length s' \<le> length s"
proof (induction nc c c2 s arbitrary: d s' rule: find_char.induct)
  case (1 nc c c2 s)
  show ?case
  proof (cases "c2 = 0 \<or> c2 = c")
    case False
    obtain x y where g: "getc s = (x, y)" by (rule prod.exhaust)
    have "length s' \<le> length y" by (rule "1.IH" [OF False g [symmetric]]) (use "1.prems" False g in simp)
    then show ?thesis using getc_shorter(3) [OF g [symmetric]] by simp
  qed (use "1.prems" in simp)
qed

declare find_char.simps [simp del] set_loop.simps [simp del]

function search_lit :: "bool \<Rightarrow> int \<Rightarrow> (u8 list \<Rightarrow> bool) \<Rightarrow> u8 list \<Rightarrow> bool" where
  "search_lit nc c f s =
    (case getc s of (c2, s) \<Rightarrow>
       if c2 = 0 then False
       else
         let c = (if nc then GlogUpperToLower c else c);
             c2 = (if nc then GlogUpperToLower c2 else c2)
         in case find_char nc c c2 s of (c2, s) \<Rightarrow>
              if c2 = 0 then False else if f s then True else search_lit nc c f s)"
  by pat_completeness auto

termination
  by (relation "measure (\<lambda>(nc, c, f, s). length s)") (auto dest!: getc_shorter(2) dest: find_char_length [OF sym] intro: le_less_trans)

declare search_lit.simps [simp del]


lemma search_set_cong [fundef_cong]:
  assumes "s = s'" "\<And>z. f z = g z"
  shows "search_set f s = search_set g s'"
proof -
  have "f = g" by (rule ext) (rule assms(2))
  then show ?thesis using assms(1) by simp
qed

lemma search_lit_cong [fundef_cong]:
  assumes "nc = nc'" "c = c'" "s = s'" "\<And>z. f z = g z"
  shows "search_lit nc c f s = search_lit nc' c' g s'"
proof -
  have "f = g" by (rule ext) (rule assms(4))
  then show ?thesis using assms(1-3) by simp
qed

lemma set_loop_length: "set_loop c c2 prior seen p = (d, seen', p') \<Longrightarrow> length p' \<le> length p"
proof (induction c c2 prior seen p arbitrary: d seen' p' rule: set_loop.induct)
  case (1 c c2 prior seen p)
  obtain x y where g: "getc p = (x, y)" by (rule prod.exhaust)
  obtain x' y' where g': "getc y = (x', y')" by (rule prod.exhaust)
  have l: "length y \<le> length p" "length y' \<le> length y" using getc_shorter(3) g g' by metis+
  consider "c2 = 0 \<or> c2 = 93" | "\<not> (c2 = 0 \<or> c2 = 93)" "c2 = 45 \<and> p \<noteq> [] \<and> hd p \<noteq> 93 \<and> prior > 0"
    | "\<not> (c2 = 0 \<or> c2 = 93)" "\<not> (c2 = 45 \<and> p \<noteq> [] \<and> hd p \<noteq> 93 \<and> prior > 0)" by blast
  then show ?case
  proof cases
    case 1
    then show ?thesis using "1.prems" by (auto simp: set_loop.simps)
  next
    case 2
    have "set_loop c x' 0 (seen \<or> prior \<le> c \<and> c \<le> x) y' = (d, seen', p')"
      using "1.prems" 2 g g' by (subst (asm) set_loop.simps) simp
    from "1.IH"(1) [OF 2 g [symmetric] g' [symmetric] this] l show ?thesis by linarith
  next
    case 3
    have "set_loop c x c2 (seen \<or> c = c2) y = (d, seen', p')"
      using "1.prems" 3 g by (subst (asm) set_loop.simps) (simp split: if_splits)
    from "1.IH"(2) [OF 3 g [symmetric] this] l show ?thesis by linarith
  qed
qed

lemma match_set_length: "match_set c p = (ok, p') \<Longrightarrow> length p' \<le> length p"
proof -
  assume m: "match_set c p = (ok, p')"
  obtain c2 p1 where g1: "getc p = (c2, p1)" by (rule prod.exhaust)
  obtain c3 p2 where g2: "getc p1 = (c3, p2)" by (rule prod.exhaust)
  obtain c4 p3 where g3: "getc p2 = (c4, p3)" by (rule prod.exhaust)
  have l: "length p1 \<le> length p" "length p2 \<le> length p1" "length p3 \<le> length p2" using getc_shorter(3) g1 g2 g3 by metis+
  show ?thesis using m g1 g2 g3 l by (auto simp: match_set_def Let_def split: if_splits prod.splits dest!: set_loop_length)
qed

lemma pattern_shorter:
  assumes "(c, p) = getc (b # p0)"
  shows "length p < Suc (length p0)" "skip_wild info p s = Some (a, q, s') \<Longrightarrow> a \<noteq> 0 \<Longrightarrow> length q < length p0"
    "skip_wild info p s = Some (a, q, s') \<Longrightarrow> a \<noteq> 0 \<Longrightarrow> (d, r) = getc q \<Longrightarrow> length r < Suc (length p0)"
    "(ok, r) = match_set d p \<Longrightarrow> length r < Suc (length p0)"
proof -
  show p: "length p < Suc (length p0)" by (rule getc_shorter(1) [OF assms])
  show q: "length q < length p0" if "skip_wild info p s = Some (a, q, s')" "a \<noteq> 0" for info s a q s'
    using skip_wild_length [OF that] p by simp
  show "skip_wild info p s = Some (a, q, s') \<Longrightarrow> a \<noteq> 0 \<Longrightarrow> (d, r) = getc q \<Longrightarrow> length r < Suc (length p0)"
    using q getc_shorter(3) [of d r q] by fastforce
  show "(ok, r) = match_set d p \<Longrightarrow> length r < Suc (length p0)" using match_set_length [of d p ok r] p by simp
qed

text \<open>\<^verbatim>\<open>&zPattern[-1]\<close> points to the bracket again, which is one byte.\<close>

function patternCompare :: "compareInfo \<Rightarrow> int \<Rightarrow> bool \<Rightarrow> u8 list \<Rightarrow> u8 list \<Rightarrow> bool" where
  "patternCompare info esc prevEscape [] s = (s = [])"
| "patternCompare info esc prevEscape (b # p0) s =
    (case getc (b # p0) of (c, p) \<Rightarrow>
       if \<not> prevEscape \<and> c = matchAll info then
         (case skip_wild info p s of
            None \<Rightarrow> False
          | Some (c, p, s) \<Rightarrow>
              if c = 0 then True
              else if c = esc then
                (case getc p of (c, p) \<Rightarrow>
                   if c = 0 then False else search_lit (noCase info) c (\<lambda>s. patternCompare info esc False p s) s)
              else if c = matchSet info then
                search_set (\<lambda>s. patternCompare info esc False (word_of_int (matchSet info) # p) s) s
              else search_lit (noCase info) c (\<lambda>s. patternCompare info esc False p s) s)
       else if \<not> prevEscape \<and> c = matchOne info then
         (case getc s of (d, s) \<Rightarrow> if d = 0 then False else patternCompare info esc prevEscape p s)
       else if c = matchSet info then
         (case getc s of (d, s) \<Rightarrow>
            if d = 0 then False
            else case match_set d p of (ok, p) \<Rightarrow>
              if \<not> ok then False else patternCompare info esc prevEscape p s)
       else if esc = c \<and> \<not> prevEscape then patternCompare info esc True p s
       else
         (case getc s of (c2, s) \<Rightarrow>
            if (if noCase info then GlogUpperToLower c \<noteq> GlogUpperToLower c2 else c \<noteq> c2) then False
            else patternCompare info esc False p s))"
  by pat_completeness auto

termination
proof (relation "measure (\<lambda>(info, esc, prev, p, s). length p)", goal_cases)
  case 1
  show ?case by simp
qed (auto intro: pattern_shorter less_SucI [OF pattern_shorter(2)])

declare patternCompare.simps(2) [simp del]

datatype like_result = NoResult | LikeError string | LikeInt bool

text \<open>
  \<open>nB\<close> is \<^verbatim>\<open>sqlite3_value_bytes\<close> of the pattern; a third argument is \<open>Some\<close>, an SQL NULL \<open>None\<close>.
\<close>

definition likeFunc ::
  "nat \<Rightarrow> compareInfo \<Rightarrow> nat \<Rightarrow> u8 list option \<Rightarrow> u8 list option \<Rightarrow> u8 list option option \<Rightarrow> like_result" where
  "likeFunc limit info nB zB zA zEsc =
    (if limit < nB then LikeError ''LIKE or GLOB pattern too complex''
     else
       let run = (\<lambda>escape. case (zA, zB) of
           (Some a, Some b) \<Rightarrow> LikeInt (patternCompare info escape False b a)
         | _ \<Rightarrow> NoResult)
       in case zEsc of
            None \<Rightarrow> run 0
          | Some None \<Rightarrow> NoResult
          | Some (Some e) \<Rightarrow>
              if sqlite3Utf8CharLen e (- 1) \<noteq> 1 then LikeError ''ESCAPE expression must be a single character''
              else run (fst (getc e)))"

section \<open>The reference\<close>

text \<open>The characters of a text.\<close>

fun chars :: "u8 list \<Rightarrow> int list" where
  "chars [] = []"
| "chars (b # z) = (case getc (b # z) of (c, z') \<Rightarrow> c # chars z')"

datatype item = Single int | Range int int
datatype tok = All | One | Lit int | Set bool "item list" | Bad

text \<open>The items of a set up to its closing bracket; without one there is no set.\<close>

fun items :: "int list \<Rightarrow> (item list \<times> int list) option" where
  "items [] = None"
| "items (x # m # y # r) =
    (if x = 93 then Some ([], m # y # r)
     else if m = 45 \<and> y \<noteq> 93 then map_option (\<lambda>(its, r). (Range x y # its, r)) (items r)
     else map_option (\<lambda>(its, r). (Single x # its, r)) (items (m # y # r)))"
| "items (x # r) =
    (if x = 93 then Some ([], r) else map_option (\<lambda>(its, r). (Single x # its, r)) (items r))"

definition set_tok :: "int list \<Rightarrow> (tok \<times> int list) option" where
  "set_tok r =
    (let (neg, r) = (if r \<noteq> [] \<and> hd r = 94 then (True, tl r) else (False, r));
         (first, r) = (if r \<noteq> [] \<and> hd r = 93 then ([Single 93], tl r) else ([], r))
     in map_option (\<lambda>(its, r). (Set neg (first @ its), r)) (items r))"

lemma items_length: "items xs = Some (its, r) \<Longrightarrow> length r < length xs"
  by (induction xs arbitrary: its r rule: items.induct) (auto split: if_splits)

lemma set_tok_length [termination_simp]: "set_tok xs = Some (t, r) \<Longrightarrow> length r < Suc (length xs)"
  by (auto simp: set_tok_def Let_def split: if_splits dest!: items_length)

text \<open>
  The tokens of a pattern. \<open>aw\<close> says that an \<open>All\<close> came last, but for some \<open>One\<close>: there an escape
  character at the end of the pattern matches nothing, while elsewhere it is ignored.
\<close>

function tokens :: "compareInfo \<Rightarrow> int \<Rightarrow> bool \<Rightarrow> int list \<Rightarrow> tok list" where
  "tokens info esc aw [] = []"
| "tokens info esc aw (c # p) =
    (if c = matchAll info then All # tokens info esc True p
     else if c = matchOne info then One # tokens info esc aw p
     else if c = esc then
       (case p of [] \<Rightarrow> if aw then [Bad] else [] | d # p \<Rightarrow> Lit d # tokens info esc False p)
     else if c = matchSet info then
       (case set_tok p of None \<Rightarrow> [Bad] | Some (t, r) \<Rightarrow> t # tokens info esc False r)
     else Lit c # tokens info esc False p)"
  by pat_completeness auto

termination
  by (relation "measure (\<lambda>(info, esc, aw, p). length p)") (auto dest: set_tok_length)

fun some_suffix :: "(int list \<Rightarrow> bool) \<Rightarrow> int list \<Rightarrow> bool" where
  "some_suffix P [] = P []"
| "some_suffix P (x # xs) = (P (x # xs) \<or> some_suffix P xs)"

definition like_case :: "bool \<Rightarrow> int \<Rightarrow> int" where
  "like_case nc c = (if nc then GlogUpperToLower c else c)"

fun in_item :: "int \<Rightarrow> item \<Rightarrow> bool" where
  "in_item c (Single x) = (c = x)"
| "in_item c (Range x y) = (c = x \<or> x \<le> c \<and> c \<le> y)"

fun matches :: "bool \<Rightarrow> tok list \<Rightarrow> int list \<Rightarrow> bool" where
  "matches nc [] s = (s = [])"
| "matches nc (All # ts) s = some_suffix (\<lambda>s. matches nc ts s) s"
| "matches nc (One # ts) s = (s \<noteq> [] \<and> matches nc ts (tl s))"
| "matches nc (Lit c # ts) s = (s \<noteq> [] \<and> like_case nc (hd s) = like_case nc c \<and> matches nc ts (tl s))"
| "matches nc (Set neg its # ts) s = (s \<noteq> [] \<and> (list_ex (in_item (hd s)) its \<noteq> neg) \<and> matches nc ts (tl s))"
| "matches nc (Bad # ts) s = False"


section \<open>Characters\<close>

abbreviation ended :: "u8 list \<Rightarrow> bool" where
  "ended z \<equiv> 0 \<notin> set z"

lemma cont_loop_suffix: "cont_loop c z = (c', z') \<Longrightarrow> set z' \<subseteq> set z"
  by (induction c z rule: cont_loop.induct) (auto split: if_splits)

lemma sint_nonneg: "unat (c :: u32) < 2 ^ 31 \<Longrightarrow> sint c = int (unat c)"
proof -
  assume "unat c < 2 ^ 31"
  then have "int (unat c) < int (2 ^ 31)" by (simp only: of_nat_less_iff)
  then have u: "int (unat c) < 2 ^ 31" by simp
  have "sint c = signed_take_bit 31 (int (unat c))" by (simp add: sint_uint)
  also have "\<dots> = int (unat c)" using u order_trans [of "- (2 ^ 31)" 0 "int (unat c)"] by (intro signed_take_bit_int_eq_self) simp_all
  finally show ?thesis .
qed

lemma sint_byte: "sint (ucast (b :: u8) :: u32) = uint b"
proof -
  have "unat b < 2 ^ 8" using unsigned_less [of b] by simp
  then have "unat (ucast b :: u32) < 2 ^ 31" unfolding unat_ucast_up by simp
  from sint_nonneg [OF this] show ?thesis unfolding unat_ucast_up by simp
qed

lemma getc_cases:
  "getc (b # z) = (if 0xc0 \<le> b then
     (case cont_loop (ucast (sqlite3Utf8Trans1 ! unat (b - 0xc0))) z of (c, z) \<Rightarrow>
        (if sint c < 0x80 \<or> c AND 0xFFFFF800 = 0xD800 \<or> c AND 0xFFFFFFFE = 0xFFFE then 0xFFFD else sint c, z))
     else (uint b, z))"
  by (auto simp: getc_def sqlite3Utf8Read_def READ_UTF8_def Let_def sint_byte split: prod.split)

lemma getc_wide: "0xc0 \<le> b \<Longrightarrow> getc (b # z) = (c, z') \<Longrightarrow> 0x80 \<le> c \<and> set z' \<subseteq> set z"
  unfolding getc_cases by (auto split: prod.splits if_splits dest: cont_loop_suffix)

lemma getc_narrow: "\<not> 0xc0 \<le> b \<Longrightarrow> getc (b # z) = (uint b, z)"
  unfolding getc_cases by simp

lemma getc_ended:
  assumes "ended (b # z)" "getc (b # z) = (c, z')"
  shows "0 < c" "ended z'"
proof -
  have "0 < c \<and> ended z'"
  proof (cases "0xc0 \<le> b")
    case True
    then show ?thesis using getc_wide [OF True assms(2)] assms(1) by auto
  next
    case False
    have "uint b \<noteq> 0" using assms(1) by (auto simp: uint_0_iff)
    then have "0 < uint b" using uint_ge_0 [of b] by linarith
    then show ?thesis using getc_narrow [OF False, of z] assms by simp
  qed
  then show "0 < c" "ended z'" by auto
qed

lemma getc_ascii:
  assumes "getc (b # z) = (c, z')" "k < 0x80"
  shows "c = k \<longleftrightarrow> uint b = k"
proof (cases "0xc0 \<le> b")
  case True
  then have "0xc0 \<le> uint b" by (simp add: word_le_def)
  then show ?thesis using getc_wide [OF True assms(1)] assms(2) by auto
next
  case False
  then show ?thesis using getc_narrow [OF False, of z] assms(1) by auto
qed

lemma chars_step:
  assumes "ended s"
  obtains "s = []" "chars s = []" | c s' where "getc s = (c, s')" "0 < c" "ended s'" "chars s = c # chars s'" "length s' < length s" "s \<noteq> []"
proof (cases s)
  case (Cons b z)
  obtain c s' where g: "getc (b # z) = (c, s')" by (rule prod.exhaust)
  show thesis
  proof (rule that(2))
    show "getc s = (c, s')" "chars s = c # chars s'" using Cons g by simp_all
    show "0 < c" "ended s'" using getc_ended [OF _ g] assms Cons by simp_all
    show "length s' < length s" "s \<noteq> []" using getc_length [OF g] Cons by simp_all
  qed
qed (use that(1) in simp)

lemma skip_getc: "SQLITE_SKIP_UTF8 s = snd (getc s)"
  unfolding getc_def sqlite3Utf8Read_def using skip_read [of s "\<lambda>c. sint c < 0x80"] by (simp split: prod.split)

lemma Glog_pos [simp]: "0 < c \<Longrightarrow> 0 < GlogUpperToLower c"
  by (auto simp: GlogUpperToLower_def sqlite3UpperToLower_def)

lemma Glog_idem [simp]: "GlogUpperToLower (GlogUpperToLower c) = GlogUpperToLower c"
  by (auto simp: GlogUpperToLower_def sqlite3UpperToLower_def)

lemma like_case_pos: "0 < c \<Longrightarrow> 0 < like_case nc c"
  by (simp add: like_case_def)

lemma like_case_idem [simp]: "like_case nc (like_case nc c) = like_case nc c"
  by (simp add: like_case_def)

lemma like_case_0 [simp]: "like_case nc 0 = 0"
  by (simp add: like_case_def)

lemma chars_length: "ended e \<Longrightarrow> sqlite3Utf8CharLen e (- 1) = length (chars e)"
proof (induction "length e" arbitrary: e rule: less_induct)
  case less
  show ?case using less.prems
  proof (cases rule: chars_step)
    case 1
    then show ?thesis by (simp add: sqlite3Utf8CharLen_def)
  next
    case (2 c s')
    obtain b z where e: "e = b # z" using 2(6) by (cases e) auto
    have "b \<noteq> 0" using less.prems e by auto
    then have "sqlite3Utf8CharLen e (- 1) = Suc (sqlite3Utf8CharLen s' (- 1))"
      using e 2(1) skip_getc [of e] by (simp add: sqlite3Utf8CharLen_def Let_def)
    then show ?thesis using less.hyps [OF 2(5,3)] 2(4) by simp
  qed
qed


section \<open>Sets and searches\<close>

abbreviation any_item :: "int \<Rightarrow> item list \<Rightarrow> bool" where
  "any_item c \<equiv> list_ex (in_item c)"

lemma items_end: "items (93 # r) = Some ([], r)"
  by (cases r; cases "tl r") auto

lemma items_single: "x \<noteq> 93 \<Longrightarrow> \<not> (r \<noteq> [] \<and> hd r = 45 \<and> tl r \<noteq> [] \<and> hd (tl r) \<noteq> 93) \<Longrightarrow>
    items (x # r) = map_option (\<lambda>(its, r). (Single x # its, r)) (items r)"
  by (cases r; cases "tl r") auto

lemma items_range: "x \<noteq> 93 \<Longrightarrow> y \<noteq> 93 \<Longrightarrow> items (x # 45 # y # r) = map_option (\<lambda>(its, r). (Range x y # its, r)) (items r)"
  by simp

lemma getc_step:
  assumes "ended p" "getc p = (x, y)"
  shows "0 \<le> x" "ended y" "chars p = (if x = 0 then [] else x # chars y)"
proof -
  have "0 \<le> x \<and> ended y \<and> chars p = (if x = 0 then [] else x # chars y)"
    using assms(1) by (cases rule: chars_step) (use assms(2) in auto)
  then show "0 \<le> x" "ended y" "chars p = (if x = 0 then [] else x # chars y)" by blast+
qed

text \<open>The loop over a set, with a character \<open>prior_c\<close> that may yet begin a range.\<close>

definition set_result :: "int \<Rightarrow> bool \<Rightarrow> (item list \<times> int list) option \<Rightarrow> int \<times> bool \<times> u8 list \<Rightarrow> bool" where
  "set_result c seen spec res \<longleftrightarrow>
    (case res of (d, seen', p') \<Rightarrow>
     case spec of None \<Rightarrow> d = 0 | Some (its, r) \<Rightarrow> d = 93 \<and> seen' = (seen \<or> any_item c its) \<and> chars p' = r \<and> ended p')"

lemma set_result_prepend:
  assumes "set_result c seen' spec res" "seen' = (seen \<or> in_item c i)"
  shows "set_result c seen (map_option (\<lambda>(its, r). (i # its, r)) spec) res"
  using assms by (auto simp: set_result_def split: prod.splits option.splits)

lemma set_loop_items:
  assumes "ended p" "0 \<le> c2" "prior = 0 \<or> 0 < prior \<and> prior \<noteq> 93 \<and> (c = prior \<longrightarrow> seen)"
  shows "set_result c seen (items ((if prior = 0 then [] else [prior]) @ (if c2 = 0 then [] else c2 # chars p))) (set_loop c c2 prior seen p)"
  using assms
proof (induction c c2 prior seen p rule: set_loop.induct)
  case (1 c c2 prior seen p)
  obtain x y where g: "getc p = (x, y)" by (rule prod.exhaust)
  note x = getc_step [OF "1.prems"(1) g]
  show ?case
  proof (cases "c2 = 0 \<or> c2 = 93")
    case True
    then show ?thesis
    proof
      assume c2: "c2 = 0"
      then show ?thesis using "1.prems"(3) by (auto simp: set_result_def set_loop.simps)
    next
      assume c2: "c2 = 93"
      show ?thesis
      proof (cases "prior = 0")
        case True
        then show ?thesis using c2 "1.prems"(1) by (simp add: set_result_def set_loop.simps items_end)
      next
        case False
        have "items (prior # 93 # chars p) = Some ([Single prior], chars p)" using False "1.prems"(3) by (subst items_single) (simp_all add: items_end)
        then show ?thesis using c2 "1.prems"(1,3) False by (auto simp: set_result_def set_loop.simps)
      qed
    qed
  next
    case c2: False
    show ?thesis
    proof (cases "c2 = 45 \<and> p \<noteq> [] \<and> hd p \<noteq> 93 \<and> prior > 0")
      case True
      then obtain b z where b: "p = b # z" "b \<noteq> 93" by (cases p) auto
      have xpos: "0 < x" using getc_ended(1) "1.prems"(1) g b(1) by blast
      have "x \<noteq> 93"
      proof
        assume "x = 93"
        then have "uint b = 93" using getc_ascii [of b z x y 93] g b(1) by simp
        then show False using b(2) by (simp add: word_uint_eq_iff)
      qed
      obtain x' y' where g': "getc y = (x', y')" by (rule prod.exhaust)
      note x' = getc_step [OF x(2) g']
      have "set_result c (seen \<or> prior \<le> c \<and> c \<le> x) (items (chars y)) (set_loop c x' 0 (seen \<or> prior \<le> c \<and> c \<le> x) y')"
        using "1.IH"(1) [OF c2 True g [symmetric] g' [symmetric] x'(2,1)] x'(3) by simp
      then have "set_result c seen (items (prior # 45 # x # chars y)) (set_loop c x' 0 (seen \<or> prior \<le> c \<and> c \<le> x) y')"
        using "1.prems"(3) True \<open>x \<noteq> 93\<close> by (subst items_range) (auto intro!: set_result_prepend)
      moreover have "set_loop c c2 prior seen p = set_loop c x' 0 (seen \<or> prior \<le> c \<and> c \<le> x) y'"
        using c2 True g g' by (subst set_loop.simps) simp
      ultimately show ?thesis using True x(3) xpos by simp
    next
      case False
      have "set_result c (seen \<or> c = c2) (items (c2 # chars p)) (set_loop c x c2 (seen \<or> c = c2) y)"
        using "1.IH"(2) [OF c2 False g [symmetric] x(2,1)] "1.prems"(2) c2 x(3) by simp
      moreover have "set_loop c c2 prior seen p = set_loop c x c2 (seen \<or> c = c2) y"
        using c2 False g by (subst set_loop.simps) (simp only: if_False split: prod.split, simp)
      ultimately have r: "set_result c (seen \<or> c = c2) (items (c2 # chars p)) (set_loop c c2 prior seen p)" by simp
      have weaken: "set_result c seen (items (c2 # chars p)) (set_loop c c2 prior seen p)"
      proof -
        have "in_item c (Single c2) \<or> any_item c its \<longleftrightarrow> any_item c its" if "items (c2 # chars p) = Some (its, r)" for its r
        proof -
          have "\<exists>i its'. its = i # its' \<and> (c = c2 \<longrightarrow> in_item c i)" using that c2 
            by (cases "chars p"; cases "tl (chars p)") (auto split: if_splits)
          then show ?thesis by auto
        qed
        then show ?thesis using r unfolding set_result_def by (auto split: option.splits prod.splits)
      qed
      show ?thesis
      proof (cases "prior = 0")
        case True
        then show ?thesis using weaken c2 by simp
      next
        case pr: False
        have nr: "\<not> (c2 # chars p \<noteq> [] \<and> hd (c2 # chars p) = 45 \<and> tl (c2 # chars p) \<noteq> [] \<and> hd (tl (c2 # chars p)) \<noteq> 93)"
        proof
          assume a: "c2 # chars p \<noteq> [] \<and> hd (c2 # chars p) = 45 \<and> tl (c2 # chars p) \<noteq> [] \<and> hd (tl (c2 # chars p)) \<noteq> 93"
          then obtain b z where b: "p = b # z" by (cases p) auto
          then have "hd p = 93" using a False pr "1.prems"(3) by auto
          then have "x = 93" using getc_ascii [of b z x y 93] g b by simp
          then show False using a x(3) by simp
        qed
        have "items (prior # c2 # chars p) = map_option (\<lambda>(its, r). (Single prior # its, r)) (items (c2 # chars p))"
          by (rule items_single [OF _ nr]) (use pr "1.prems"(3) in simp)
        moreover have "set_result c seen (map_option (\<lambda>(its, r). (Single prior # its, r)) (items (c2 # chars p))) (set_loop c c2 prior seen p)"
          by (rule set_result_prepend [OF weaken]) (use pr "1.prems"(3) in auto)
        ultimately show ?thesis using pr c2 by simp
      qed
    qed
  qed
qed

lemma match_set_tok:
  assumes "ended p"
  shows "case match_set c p of (ok, p') \<Rightarrow>
    case set_tok (chars p) of None \<Rightarrow> \<not> ok
    | Some (t, r) \<Rightarrow> \<exists>neg its. t = Set neg its \<and> ok = (any_item c its \<noteq> neg) \<and> chars p' = r \<and> ended p'"
proof -
  obtain c2 p1 where g1: "getc p = (c2, p1)" by (rule prod.exhaust)
  obtain c3 p2 where g2: "getc p1 = (c3, p2)" by (rule prod.exhaust)
  note s1 = getc_step [OF assms g1]
  define neg where "neg = (c2 = 94)"
  obtain d q where dq: "(if c2 = 94 then getc p1 else (c2, p1)) = (d, q)" by (rule prod.exhaust)
  have q: "0 \<le> d" "ended q" "(if d = 0 then [] else d # chars q) = (if neg then chars p1 else chars p)"
    using dq s1 g2 getc_step [of p1 c3 p2] by (auto simp: neg_def split: if_splits)
  obtain e q' where e: "(if d = 93 then getc q else (d, q)) = (e, q')" by (rule prod.exhaust)
  have q': "0 \<le> e" "ended q'" "(if e = 0 then [] else e # chars q') = (if d = 93 then chars q else if d = 0 then [] else d # chars q)"
    using e q getc_step [of q e q'] by (auto split: if_splits)
  define seen where "seen = (d = 93 \<and> c = 93)"
  obtain f seen' r' where l: "set_loop c e 0 seen q' = (f, seen', r')" by (rule prod_cases3)
  have m: "match_set c p = (\<not> (f = 0 \<or> (seen' \<noteq> neg) = False), r')"
    using g1 g2 dq e l unfolding match_set_def seen_def neg_def by (auto simp: Let_def split: if_splits prod.splits)
  define rest where "rest = (if d = 93 then chars q else if d = 0 then [] else d # chars q)"
  have sr: "set_result c seen (items rest) (f, seen', r')"
    using set_loop_items [OF q'(2,1), of 0 c seen] q'(3) unfolding l rest_def by simp
  have t: "set_tok (chars p) = map_option (\<lambda>(its, r). (Set neg ((if d = 93 then [Single 93] else []) @ its), r)) (items rest)"
  proof -
    have "(if chars p \<noteq> [] \<and> hd (chars p) = 94 then (True, tl (chars p)) else (False, chars p)) = (neg, if d = 0 then [] else d # chars q)"
      using s1 q(3) by (auto simp: neg_def split: if_splits)
    then show ?thesis unfolding set_tok_def rest_def by (auto simp: Let_def)
  qed
  show ?thesis unfolding m t using sr unfolding set_result_def seen_def by (auto split: option.splits)
qed

lemma search_set_suffix:
  assumes "ended s" "\<And>z. ended z \<Longrightarrow> f z = F (chars z)" "\<not> F []"
  shows "search_set f s = some_suffix F (chars s)"
  using assms(1)
proof (induction "length s" arbitrary: s rule: less_induct)
  case less
  show ?case using less.prems
  proof (cases rule: chars_step)
    case 1
    then show ?thesis using assms(3) by simp
  next
    case (2 c s')
    obtain b z where b: "s = b # z" using 2(6) by (cases s) auto
    have "SQLITE_SKIP_UTF8 s = s'" using skip_getc [of s] 2(1) by simp
    then have "search_set f s = (f s \<or> search_set f s')" using b by simp
    then show ?thesis using less.hyps [OF 2(5,3)] assms(2) [OF less.prems] 2(4) by simp
  qed
qed

lemma search_lit_suffix:
  assumes s: "ended s" and f: "\<And>z. ended z \<Longrightarrow> f z = F (chars z)" and c: "0 < c"
  shows "search_lit nc c f s = some_suffix (\<lambda>t. t \<noteq> [] \<and> like_case nc (hd t) = like_case nc c \<and> F (tl t)) (chars s)"
proof -
  define k where "k = like_case nc c"
  have kc: "0 < k" "like_case nc k = k" using like_case_pos [OF c] by (simp_all add: k_def)
  define P where "P = (\<lambda>t. t \<noteq> [] \<and> like_case nc (hd t) = k \<and> F (tl t))"
  have lit: "search_lit nc c0 f s = (case getc s of (c2, s) \<Rightarrow> if c2 = 0 then False else
      case find_char nc k (like_case nc c2) s of (c2, s) \<Rightarrow> if c2 = 0 then False else f s \<or> search_lit nc k f s)" if "like_case nc c0 = k" for c0 s
    using that kc(2) by (subst search_lit.simps) (auto simp: Let_def like_case_def split: prod.splits)
  have main: "ended s \<Longrightarrow> (\<forall>c0. like_case nc c0 = k \<longrightarrow> search_lit nc c0 f s = some_suffix P (chars s)) \<and>
      (\<forall>x > 0. (case find_char nc k (like_case nc x) s of (c2, s) \<Rightarrow> if c2 = 0 then False else f s \<or> search_lit nc k f s) = some_suffix P (x # chars s))" for s
  proof (induction "length s" arbitrary: s rule: less_induct)
    case less
    have 1: "\<forall>c0. like_case nc c0 = k \<longrightarrow> search_lit nc c0 f s = some_suffix P (chars s)"
      using less.prems
    proof (cases rule: chars_step)
      case 1
      then show ?thesis using lit by (simp add: P_def)
    next
      case (2 x s')
      then show ?thesis using lit less.hyps [OF 2(5,3)] by simp
    qed
    have 2: "(case find_char nc k (like_case nc x) s of (c2, s) \<Rightarrow> if c2 = 0 then False else f s \<or> search_lit nc k f s) = some_suffix P (x # chars s)" if x: "0 < x" for x
    proof (cases "like_case nc x = k")
      case True
      then have "find_char nc k (like_case nc x) s = (k, s)" by (subst find_char.simps) simp
      then show ?thesis using 1 kc True f [OF less.prems] by (simp add: P_def)
    next
      case False
      then have np: "\<not> P (x # chars s)" by (simp add: P_def)
      have nz: "like_case nc x \<noteq> 0" using like_case_pos [OF x, of nc] by simp
      have fc: "find_char nc k (like_case nc x) s = (case getc s of (y, s') \<Rightarrow> find_char nc k (like_case nc y) s')"
        using False nz by (subst find_char.simps) (simp add: like_case_def)
      show ?thesis using less.prems
      proof (cases rule: chars_step)
        case 1
        have "find_char nc k 0 [] = (0, [])" by (subst find_char.simps) simp
        then show ?thesis using fc np 1 by (simp add: P_def)
      next
        case (2 y s')
        then show ?thesis using fc np less.hyps [OF 2(5,3)] by simp
      qed
    qed
    show ?case using 1 2 by blast
  qed
  then show ?thesis using s unfolding P_def k_def by simp
qed

lemma some_suffix_False: "\<not> some_suffix (\<lambda>s. False) xs"
  by (induction xs) auto

lemma some_suffix_tl: "some_suffix (\<lambda>t. t \<noteq> [] \<and> Q (tl t)) xs = (xs \<noteq> [] \<and> some_suffix Q (tl xs))"
proof (induction xs)
  case (Cons x xs)
  then show ?case by (cases xs) auto
qed simp

lemma some_suffix_twice: "some_suffix (some_suffix Q) xs = some_suffix Q xs"
  by (induction xs) auto


section \<open>The comparison\<close>

text \<open>What the code relies on: the wild cards differ and are ASCII, and only GLOB has sets, without an escape.\<close>

definition sane :: "compareInfo \<Rightarrow> int \<Rightarrow> bool" where
  "sane info esc \<longleftrightarrow> 0 < matchAll info \<and> 0 < matchOne info \<and> matchAll info \<noteq> matchOne info \<and>
    0 \<le> matchSet info \<and> matchSet info < 0x80 \<and> matchSet info \<noteq> matchAll info \<and> matchSet info \<noteq> matchOne info \<and>
    (esc = 0 \<or> matchSet info = 0)"

lemma matches_tok:
  "matches nc (All # ts) = some_suffix (matches nc ts)" "matches nc (One # ts) = (\<lambda>s. s \<noteq> [] \<and> matches nc ts (tl s))"
  "matches nc (Lit c # ts) = (\<lambda>s. s \<noteq> [] \<and> like_case nc (hd s) = like_case nc c \<and> matches nc ts (tl s))" "matches nc (Bad # ts) = (\<lambda>s. False)"
  by (rule ext, simp)+

lemma skip_wild_tokens:
  assumes "sane info esc" "ended p" "ended s"
  shows "case skip_wild info p s of
      None \<Rightarrow> \<not> some_suffix (matches nc (tokens info esc True (chars p))) (chars s)
    | Some (c, p', s') \<Rightarrow> ended p' \<and> ended s' \<and> 0 \<le> c \<and> c \<noteq> matchAll info \<and> c \<noteq> matchOne info \<and>
        some_suffix (matches nc (tokens info esc True (chars p))) (chars s) =
          some_suffix (matches nc (tokens info esc True (if c = 0 then [] else c # chars p'))) (chars s')"
  using assms
proof (induction info p s rule: skip_wild.induct)
  case (1 info s)
  then show ?case by (auto simp: sane_def)
next
  case (2 info b p s)
  obtain c q where g: "getc (b # p) = (c, q)" by (rule prod.exhaust)
  have q: "0 < c" "ended q" using getc_ended [OF "2.prems"(2) g] by auto
  have ch: "chars (b # p) = c # chars q" using g by simp
  consider "c = matchAll info" | "c = matchOne info" "c \<noteq> matchAll info" | "c \<noteq> matchAll info" "c \<noteq> matchOne info" by blast
  then show ?case
  proof cases
    case 1
    have t: "some_suffix (matches nc (tokens info esc True (chars (b # p)))) (chars s) = some_suffix (matches nc (tokens info esc True (chars q))) (chars s)"
      unfolding ch using 1 some_suffix_twice [of "matches nc (tokens info esc True (chars q))" "chars s"] by (simp add: matches_tok del: matches.simps)
    have sk: "skip_wild info (b # p) s = skip_wild info q s" using 1 g by simp
    show ?thesis unfolding t sk by (rule "2.IH"(1) [OF g [symmetric] 1 "2.prems"(1) q(2) "2.prems"(3)])
  next
    case 2
    have t: "some_suffix (matches nc (tokens info esc True (chars (b # p)))) (chars s) =
      (chars s \<noteq> [] \<and> some_suffix (matches nc (tokens info esc True (chars q))) (tl (chars s)))"
      unfolding ch using 2 some_suffix_tl [of "matches nc (tokens info esc True (chars q))" "chars s"] by (simp add: matches_tok del: matches.simps)
    show ?thesis using "2.prems"(3)
    proof (cases rule: chars_step)
      case s: 1
      then show ?thesis using t 2 g by simp
    next
      case s: (2 d s')
      have "d \<noteq> 0" using s(2) by simp
      note ih = "2.IH"(2) [OF g [symmetric] 2(2,1) s(1) [symmetric] this "2.prems"(1) q(2) s(3)]
      have t': "some_suffix (matches nc (tokens info esc True (chars (b # p)))) (chars s) = some_suffix (matches nc (tokens info esc True (chars q))) (chars s')"
        by (rule trans [OF t]) (simp add: s(4))
      have sk: "skip_wild info (b # p) s = skip_wild info q s'" using 2 g s by simp
      show ?thesis unfolding t' sk by (rule ih)
    qed
  next
    case 3
    have "skip_wild info (b # p) s = Some (c, q, s)" using 3 g by simp
    then show ?thesis unfolding ch using 3 q "2.prems"(3) by simp
  qed
qed

definition tokens_after :: "compareInfo \<Rightarrow> int \<Rightarrow> bool \<Rightarrow> int list \<Rightarrow> tok list" where
  "tokens_after info esc prev xs =
    (if prev then case xs of [] \<Rightarrow> [] | d # xs \<Rightarrow> Lit d # tokens info esc False xs else tokens info esc False xs)"

lemma tokens_set: "sane info esc \<Longrightarrow> matchSet info \<noteq> 0 \<Longrightarrow> tokens info esc aw (matchSet info # p) =
    (case set_tok p of None \<Rightarrow> [Bad] | Some (t, r) \<Rightarrow> t # tokens info esc False r)"
  by (auto simp: sane_def)

lemma set_tok_first: "set_tok p = Some (t, r) \<Longrightarrow> \<exists>neg its. t = Set neg its"
  by (auto simp: set_tok_def Let_def split: if_splits)

lemma patternCompare_matches:
  assumes "sane info esc" "prev \<longrightarrow> matchSet info = 0" "ended p" "ended s"
  shows "patternCompare info esc prev p s = matches (noCase info) (tokens_after info esc prev (chars p)) (chars s)"
  using assms(2-4)
proof (induction "length p" arbitrary: p s prev rule: less_induct)
  case less
  let ?m = "matches (noCase info)" and ?t = "tokens info esc"
  show ?case
  proof (cases p)
    case Nil
    have "s = [] \<longleftrightarrow> chars s = []" by (cases s) (simp_all split: prod.split)
    then show ?thesis using Nil by (simp add: tokens_after_def)
  next
    case (Cons b p0)
    obtain c q where g: "getc (b # p0) = (c, q)" by (rule prod.exhaust)
    have q: "0 < c" "ended q" using getc_ended [OF _ g] less.prems(2) Cons by auto
    have ql: "length q < length p" using getc_length [OF g] Cons by simp
    have ch: "chars p = c # chars q" using g Cons by simp
    have IH: "patternCompare info esc pv r z = ?m (tokens_after info esc pv (chars r)) (chars z)"
      if "length r < length p" "pv \<longrightarrow> matchSet info = 0" "ended r" "ended z" for pv r z
      using less.hyps [OF that(1) that(2-4)] .
    have IH0: "patternCompare info esc False r z = ?m (?t False (chars r)) (chars z)" if "length r < length p" "ended r" "ended z" for r z
      using IH [OF that(1) _ that(2,3), of False] by (simp add: tokens_after_def)
    have ns: "prev \<longrightarrow> c \<noteq> matchSet info" using less.prems(1) q(1) by auto
    consider (all) "\<not> prev" "c = matchAll info" | (one) "\<not> prev" "c \<noteq> matchAll info" "c = matchOne info"
      | (set) "\<not> prev" "c = matchSet info" | (esc) "\<not> prev" "c \<noteq> matchAll info" "c \<noteq> matchOne info" "c \<noteq> matchSet info" "c = esc"
      | (lit) "prev \<or> c \<noteq> matchAll info \<and> c \<noteq> matchOne info \<and> c \<noteq> esc" "c \<noteq> matchSet info"
      using ns by blast
    then show ?thesis
    proof cases
      case all
      have tk: "tokens_after info esc prev (chars p) = All # ?t True (chars q)" using all ch by (simp add: tokens_after_def)
      note sw = skip_wild_tokens [OF assms(1) q(2) less.prems(3), of "noCase info"]
      show ?thesis
      proof (cases "skip_wild info q s")
        case None
        then show ?thesis unfolding tk unfolding Cons using sw all by (subst patternCompare.simps(2)) (simp add: g)
      next
        case (Some r)
        obtain c1 p1 s1 where r: "r = (c1, p1, s1)" by (rule prod_cases3)
        have w: "ended p1" "ended s1" "0 \<le> c1" "c1 \<noteq> matchAll info" "c1 \<noteq> matchOne info"
          and sm: "some_suffix (?m (?t True (chars q))) (chars s) = some_suffix (?m (?t True (if c1 = 0 then [] else c1 # chars p1))) (chars s1)"
          using sw Some r by auto
        have p1: "c1 \<noteq> 0 \<Longrightarrow> length p1 < length q" using skip_wild_length Some r by blast
        have goal: "patternCompare info esc prev p s = (if c1 = 0 then True
            else if c1 = esc then (case getc p1 of (c, p) \<Rightarrow> if c = 0 then False else search_lit (noCase info) c (\<lambda>s. patternCompare info esc False p s) s1)
            else if c1 = matchSet info then search_set (\<lambda>s. patternCompare info esc False (word_of_int (matchSet info) # p1) s) s1
            else search_lit (noCase info) c1 (\<lambda>s. patternCompare info esc False p1 s) s1)"
          unfolding Cons using all Some r by (subst patternCompare.simps(2)) (simp add: g)
        have lit: "search_lit (noCase info) d (\<lambda>s. patternCompare info esc False p2 s) s1 = some_suffix (?m (Lit d # ?t False (chars p2))) (chars s1)"
          if "length p2 < length p" "ended p2" "0 < d" for p2 d
        proof -
          have "search_lit (noCase info) d (\<lambda>s. patternCompare info esc False p2 s) s1 =
            some_suffix (\<lambda>t. t \<noteq> [] \<and> like_case (noCase info) (hd t) = like_case (noCase info) d \<and> ?m (?t False (chars p2)) (tl t)) (chars s1)"
            by (rule search_lit_suffix [OF w(2) _ that(3)]) (rule IH0 [OF that(1,2)])
          then show ?thesis unfolding matches_tok .
        qed
        have tm: "?m (tokens_after info esc prev (chars p)) (chars s) = some_suffix (?m (?t True (if c1 = 0 then [] else c1 # chars p1))) (chars s1)"
          unfolding tk using sm by simp
        consider "c1 = 0" | "c1 \<noteq> 0" "c1 = esc" | "c1 \<noteq> 0" "c1 \<noteq> esc" "c1 = matchSet info" | "c1 \<noteq> 0" "c1 \<noteq> esc" "c1 \<noteq> matchSet info" by blast
        then show ?thesis
        proof cases
          case 1
          have "some_suffix (?m []) xs" for xs by (induction xs) auto
          then show ?thesis unfolding tm goal using 1 by simp
        next
          case 2
          obtain d p2 where d: "getc p1 = (d, p2)" by (rule prod.exhaust)
          note s2 = getc_step [OF w(1) d]
          have l2: "length p2 < length p" using getc_shorter(3) [OF d [symmetric]] p1 2 ql by simp
          have "?t True (c1 # chars p1) = (if d = 0 then [Bad] else Lit d # ?t False (chars p2))" using 2 w(4,5) s2(3) by simp
          then show ?thesis unfolding tm goal using 2 d lit [OF l2 s2(2)] s2(1) some_suffix_False [of "chars s1"] by (simp add: matches_tok(4))
        next
          case 3
          let ?r = "word_of_int (matchSet info) # p1"
          have ms: "0 < matchSet info" "matchSet info < 128" using assms(1) 3 by (auto simp: sane_def)
          then have u: "uint (word_of_int (matchSet info) :: u8) = matchSet info" by (simp add: uint_word_of_int_eq take_bit_int_eq_self)
          then have nb: "\<not> (0xc0 :: u8) \<le> word_of_int (matchSet info)" using ms(2) by (simp add: word_le_def)
          have cr: "chars ?r = matchSet info # chars p1" using getc_narrow [OF nb, of p1] u by simp
          have er: "ended ?r" using w(1) u ms(1) by (auto simp: word_uint_eq_iff)
          have lr: "length ?r < length p" using p1 3 ql by simp
          have ft: "\<not> ?m (?t False (chars ?r)) []"
            unfolding cr using tokens_set [OF assms(1), of False "chars p1"] ms(1) set_tok_first [of "chars p1"] by (auto split: option.split)
          have "search_set (\<lambda>s. patternCompare info esc False ?r s) s1 = some_suffix (?m (?t False (chars ?r))) (chars s1)"
            by (rule search_set_suffix [where F = "?m (?t False (chars ?r))", OF w(2) _ ft]) (rule IH0 [OF lr er])
          moreover have "?t False (chars ?r) = ?t True (c1 # chars p1)"
            unfolding cr 3(3) using tokens_set [OF assms(1)] ms(1) by simp
          ultimately show ?thesis unfolding tm goal using 3 by simp
        next
          case 4
          have "length p1 < length p" using p1 4 ql by simp
          moreover have "?t True (c1 # chars p1) = Lit c1 # ?t False (chars p1)" using 4 w(4,5) by simp
          ultimately show ?thesis unfolding tm goal using 4 lit [OF _ w(1)] w(3) by simp
        qed
      qed
    next
      case one
      have tk: "tokens_after info esc prev (chars p) = One # ?t False (chars q)" using one ch by (simp add: tokens_after_def)
      show ?thesis unfolding tk using less.prems(3)
      proof (cases rule: chars_step)
        case 1
        then show "patternCompare info esc prev p s = ?m (One # ?t False (chars q)) (chars s)"
          unfolding Cons using one by (subst patternCompare.simps(2)) (simp add: g)
      next
        case (2 d s')
        then show "patternCompare info esc prev p s = ?m (One # ?t False (chars q)) (chars s)"
          unfolding Cons using one IH0 [OF ql q(2) 2(3)] by (subst patternCompare.simps(2)) (simp add: g)
      qed
    next
      case set
      have s0: "matchSet info \<noteq> 0" "c \<noteq> matchAll info" "c \<noteq> matchOne info" using set q(1) assms(1) by (auto simp: sane_def)
      have tk: "tokens_after info esc prev (chars p) = (case set_tok (chars q) of None \<Rightarrow> [Bad] | Some (t, r) \<Rightarrow> t # ?t False r)"
        using set ch tokens_set [OF assms(1) s0(1), of False "chars q"] by (simp add: tokens_after_def)
      have run: "patternCompare info esc prev p s = (case getc s of (d, s) \<Rightarrow> if d = 0 then False
          else case match_set d q of (ok, p) \<Rightarrow> if \<not> ok then False else patternCompare info esc prev p s)"
        unfolding Cons using set s0 by (subst patternCompare.simps(2)) (simp add: g)
      show ?thesis using less.prems(3)
      proof (cases rule: chars_step)
        case 1
        then show ?thesis unfolding run tk using set_tok_first [of "chars q"] by (auto split: option.split)
      next
        case (2 d s')
        obtain ok p' where m: "match_set d q = (ok, p')" by (rule prod.exhaust)
        have l: "length p' < length p" using match_set_length [OF m] ql by simp
        note mt = match_set_tok [OF q(2), of d, unfolded m prod.case]
        show ?thesis
        proof (cases "set_tok (chars q)")
          case None
          then show ?thesis unfolding run tk using mt 2(1,2) m by simp
        next
          case (Some tr)
          obtain t r where tr: "tr = (t, r)" by (rule prod.exhaust)
          obtain neg its where t: "t = Set neg its" and ok: "ok = (any_item d its \<noteq> neg)" and p': "chars p' = r" "ended p'" using mt Some tr by auto
          show ?thesis unfolding run tk using Some tr t ok p' 2 m IH0 [OF l p'(2) 2(3)] set(1) by simp
        qed
      qed
    next
      case esc
      have m0: "matchSet info = 0" using esc(5) q(1) assms(1) by (auto simp: sane_def)
      have "patternCompare info esc prev p s = patternCompare info esc True q s"
        unfolding Cons using esc by (subst patternCompare.simps(2)) (simp add: g)
      also have "\<dots> = ?m (tokens_after info esc True (chars q)) (chars s)" by (rule IH [OF ql _ q(2) less.prems(3)]) (rule impI, rule m0)
      also have "tokens_after info esc True (chars q) = tokens_after info esc prev (chars p)"
        unfolding ch using esc by (simp add: tokens_after_def split: list.split)
      finally show ?thesis .
    next
      case lit
      have tk: "tokens_after info esc prev (chars p) = Lit c # ?t False (chars q)" using lit ch by (auto simp: tokens_after_def)
      have run: "patternCompare info esc prev p s = (case getc s of (c2, s) \<Rightarrow>
          like_case (noCase info) c2 = like_case (noCase info) c \<and> patternCompare info esc False q s)"
        unfolding Cons using lit by (subst patternCompare.simps(2)) (auto simp: g like_case_def split: prod.split)
      have cz: "like_case (noCase info) c \<noteq> 0" using like_case_pos [OF q(1)] by (simp add: less_le)
      show ?thesis unfolding tk using less.prems(3)
      proof (cases rule: chars_step)
        case 1
        then show "patternCompare info esc prev p s = ?m (Lit c # ?t False (chars q)) (chars s)" unfolding run using cz by simp
      next
        case (2 d s')
        then show "patternCompare info esc prev p s = ?m (Lit c # ?t False (chars q)) (chars s)"
          unfolding run using IH0 [OF ql q(2) 2(3)] by simp
      qed
    qed
  qed
qed


section \<open>Properties\<close>

lemma tokens_after_False: "tokens_after info esc False xs = tokens info esc False xs"
  by (simp add: tokens_after_def)

text \<open>
  C12: LIKE, with or without an escape character and in both cases of letters, and GLOB decide the
  declarative matching of the characters of the text with the tokens of the pattern: a percent sign
  or star for any sequence, an underscore or question mark for any character, a set of characters
  and ranges, an escaped or plain character for itself. The comparison ends on every input. A
  pattern above the limit and an escape text that is not one character are refused.
\<close>

theorem likeFunc_correct:
  assumes "0 \<notin> set pat" "0 \<notin> set str" "0 \<notin> set e" "nB \<le> limit" "limit < big" "info \<in> {likeInfoNorm, likeInfoAlt}"
  shows "likeFunc limit globInfo nB (Some pat) (Some str) None = LikeInt (matches False (tokens globInfo 0 False (chars pat)) (chars str)) \<and>
    likeFunc limit info nB (Some pat) (Some str) None = LikeInt (matches (noCase info) (tokens info 0 False (chars pat)) (chars str)) \<and>
    likeFunc limit info nB (Some pat) (Some str) (Some (Some e)) =
      (case chars e of
         [c] \<Rightarrow> LikeInt (matches (noCase info) (tokens info c False (chars pat)) (chars str))
       | _ \<Rightarrow> LikeError ''ESCAPE expression must be a single character'') \<and>
    likeFunc limit info big (Some pat) (Some str) esc = LikeError ''LIKE or GLOB pattern too complex''"
proof -
  have "sane globInfo 0" "sane info c" for c
    using assms(6) by (auto simp: sane_def globInfo_def likeInfoNorm_def likeInfoAlt_def)
  note pm = patternCompare_matches [OF this(1) _ assms(1,2), of False] patternCompare_matches [OF this(2) _ assms(1,2), of False]
  have e: "sqlite3Utf8CharLen e (- 1) = length (chars e)" by (rule chars_length [OF assms(3)])
  have one: "fst (getc e) = c" if "chars e = [c]" for c
    using assms(3) by (cases rule: chars_step) (use that in auto)
  show ?thesis using assms(4,5) pm e one
    by (auto simp: likeFunc_def tokens_after_False globInfo_def split: list.splits)
qed

text \<open>The witness escapes the percent sign with a backslash.\<close>

theorem likeFunc_correct_witness:
  "likeFunc 50 likeInfoNorm 5 (Some [97, 92, 37, 95, 99]) (Some [65, 37, 88, 67]) (Some (Some [92])) = LikeInt True \<and>
    likeFunc 50 likeInfoNorm 5 (Some [97, 92, 37, 95, 99]) (Some [65, 88, 67]) (Some (Some [92])) = LikeInt False"
proof -
  have g: "getc (b # z) = (uint b, z)" if "\<not> 0xc0 \<le> b" for b z using getc_narrow [OF that] .
  have k: "0 \<notin> set [97, 92, 37, 95, 99 :: u8]" "0 \<notin> set [65, 37, 88, 67 :: u8]" "0 \<notin> set [65, 88, 67 :: u8]" "0 \<notin> set [92 :: u8]" "(5 :: nat) \<le> 50" "50 < (51 :: nat)"
    "likeInfoNorm \<in> {likeInfoNorm, likeInfoAlt}" by simp_all
  have c: "chars [97, 92, 37, 95, 99] = [97, 92, 37, 95, 99]" "chars [65, 37, 88, 67] = [65, 37, 88, 67]" "chars [65, 88, 67] = [65, 88, 67]" "chars [92] = [92]"
    by (simp_all add: g)
  have t: "tokens likeInfoNorm 92 False [97, 92, 37, 95, 99] = [Lit 97, Lit 37, One, Lit 99]" "noCase likeInfoNorm" by (simp_all add: likeInfoNorm_def)
  have m: "matches True [Lit 97, Lit 37, One, Lit 99] [65, 37, 88, 67]" "\<not> matches True [Lit 97, Lit 37, One, Lit 99] [65, 88, 67]"
    by (simp_all add: like_case_def GlogUpperToLower_def sqlite3UpperToLower_def)
  note l = likeFunc_correct [OF k(1,2,4-7), THEN conjunct2, THEN conjunct2, THEN conjunct1]
    likeFunc_correct [OF k(1,3,4-7), THEN conjunct2, THEN conjunct2, THEN conjunct1]
  show ?thesis unfolding l [unfolded c list.case t] using m t(2) by simp
qed

end
