(* ===== verification/OpenTable.thy ===== *)
theory OpenTable
  imports Prelude
begin

text \<open>
  The contract of an open-addressing hash table: every key has a probe sequence that visits
  all slots, a search walks it to the first free slot or match, and an entry is never
  behind a free slot of its own sequence. The bit vector, with linear probing, is its instance;
  the double hash table of SpiderMonkey marks the entries its sequences pass and has an invariant
  of its own.
\<close>

locale open_table =
  fixes slots :: nat
    and seq :: "'k \<Rightarrow> nat \<Rightarrow> nat"
    and isfree :: "'e \<Rightarrow> bool"
    and live :: "'e \<Rightarrow> bool"
    and key :: "'e \<Rightarrow> 'k"
  assumes seq_less: "seq k e < slots"
    and seq_surj: "j < slots \<Longrightarrow> \<exists>e < slots. seq k e = j"
    and live_not_free: "live x \<Longrightarrow> \<not> isfree x"
begin

text \<open>The first \<open>e\<close> steps of the sequence of \<open>k\<close> meet no free slot.\<close>

definition clear_path :: "'e list \<Rightarrow> 'k \<Rightarrow> nat \<Rightarrow> bool" where
  "clear_path t k e \<longleftrightarrow> (\<forall>e' < e. \<not> isfree (t ! seq k e'))"

definition wf :: "'e list \<Rightarrow> bool" where
  "wf t \<longleftrightarrow> length t = slots \<and>
     (\<forall>j < slots. live (t ! j) \<longrightarrow> (\<exists>e. seq (key (t ! j)) e = j \<and> clear_path t (key (t ! j)) e)) \<and>
     (\<forall>i < slots. \<forall>j < slots. live (t ! i) \<and> live (t ! j) \<and> key (t ! i) = key (t ! j) \<longrightarrow> i = j)"

definition keys :: "'e list \<Rightarrow> 'k set" where
  "keys t = key ` {x \<in> set t. live x}"

definition matches :: "'k \<Rightarrow> 'e \<Rightarrow> bool" where
  "matches k x \<longleftrightarrow> live x \<and> key x = k"

text \<open>The step at which the search for \<open>k\<close> stops.\<close>

definition stops :: "'e list \<Rightarrow> 'k \<Rightarrow> nat \<Rightarrow> bool" where
  "stops t k e \<longleftrightarrow> (isfree (t ! seq k e) \<or> matches k (t ! seq k e)) \<and>
     (\<forall>e' < e. \<not> isfree (t ! seq k e') \<and> \<not> matches k (t ! seq k e'))"

lemma wf_length: "wf t \<Longrightarrow> length t = slots"
  by (simp add: wf_def)

lemma stops_exists:
  assumes "length t = slots" and "\<exists>j < slots. isfree (t ! j)"
  obtains e where "e < slots" "stops t k e"
proof -
  let ?P = "\<lambda>e. isfree (t ! seq k e) \<or> matches k (t ! seq k e)"
  obtain j where j: "j < slots" "isfree (t ! j)" using assms(2) by blast
  then obtain e0 where e0: "e0 < slots" "?P e0" using seq_surj [of j k] by auto
  define e where "e = (LEAST e. ?P e)"
  have "?P e" unfolding e_def by (rule LeastI [of ?P, OF e0(2)])
  moreover have "e \<le> e0" unfolding e_def by (rule Least_le [of ?P, OF e0(2)])
  moreover have "\<forall>e' < e. \<not> ?P e'" unfolding e_def by (auto dest: not_less_Least)
  ultimately have "stops t k e" "e < slots" using e0(1) by (auto simp: stops_def)
  then show thesis by (rule that [rotated])
qed

lemma stops_clear: "stops t k e \<Longrightarrow> clear_path t k e"
  by (simp add: stops_def clear_path_def)

lemma stops_member:
  assumes wf: "wf t" and stop: "stops t k e"
  shows "matches k (t ! seq k e) \<longleftrightarrow> k \<in> keys t"
proof
  assume "matches k (t ! seq k e)"
  then show "k \<in> keys t"
    using seq_less [of k e] wf by (auto simp: keys_def matches_def wf_def intro!: image_eqI nth_mem)
next
  assume "k \<in> keys t"
  then obtain j where j: "j < slots" "live (t ! j)" "key (t ! j) = k"
    using wf by (auto simp: keys_def wf_def in_set_conv_nth)
  with wf obtain e0 where e0: "seq k e0 = j" "clear_path t k e0" unfolding wf_def by blast
  have "\<not> e0 < e" using stop e0(1) j by (auto simp: stops_def matches_def)
  moreover have "e < e0 \<Longrightarrow> \<not> isfree (t ! seq k e)" using e0(2) by (simp add: clear_path_def)
  ultimately show "matches k (t ! seq k e)"
    using stop e0(1) j by (cases "e = e0") (auto simp: stops_def matches_def)
qed

lemma stops_slot:
  assumes wf: "wf t" and j: "j < slots" "live (t ! j)" "key (t ! j) = k" and stop: "stops t k e"
  shows "seq k e = j"
proof -
  have "k \<in> keys t" using wf j by (auto simp: keys_def wf_def)
  then have m: "matches k (t ! seq k e)" using stops_member [OF wf stop] by blast
  moreover have "\<forall>i < slots. \<forall>j < slots. live (t ! i) \<and> live (t ! j) \<and> key (t ! i) = key (t ! j) \<longrightarrow> i = j"
    using wf by (simp add: wf_def)
  ultimately show ?thesis using j seq_less [of k e] unfolding matches_def by blast
qed

text \<open>An entry may be put in any slot that is not live and has no free slot before it.\<close>

lemma clear_path_update: "\<not> isfree x \<Longrightarrow> clear_path t k e \<Longrightarrow> clear_path (t[j := x]) k e"
  by (auto simp: clear_path_def nth_list_update split: if_splits) (metis list_update_beyond not_le nth_list_update)

lemma keys_update:
  "j < length t \<Longrightarrow> keys (t[j := x]) = (if live x then {key x} else {}) \<union> key ` {t ! i | i. i < length t \<and> i \<noteq> j \<and> live (t ! i)}"
  by (auto simp: keys_def set_conv_nth nth_list_update split: if_splits)

lemma insert_wf:
  assumes wf: "wf t" and clear: "clear_path t (key x) e" and slot: "\<not> live (t ! seq (key x) e)"
    and x: "live x" and new: "key x \<notin> keys t"
  shows "wf (t[seq (key x) e := x])" and "keys (t[seq (key x) e := x]) = insert (key x) (keys t)"
proof -
  let ?s = "seq (key x) e"
  let ?t = "t[?s := x]"
  have s: "?s < length t" using wf seq_less [of "key x" e] by (simp add: wf_def)
  have nf: "\<not> isfree x" using x by (rule live_not_free)
  have path: "clear_path t k e' \<Longrightarrow> clear_path ?t k e'" for k e'
    using nf by (rule clear_path_update)
  have other: "?t ! j = t ! j" if "j \<noteq> ?s" for j using that by simp
  have here: "?t ! ?s = x" using s by simp
  have notkey: "key (t ! j) \<noteq> key x" if "j < slots" "live (t ! j)" for j
  proof -
    have "t ! j \<in> set t" using that(1) wf by (simp add: wf_length)
    then have "key (t ! j) \<in> keys t" using that(2) by (simp add: keys_def)
    with new show ?thesis by metis
  qed
  show "wf ?t"
    unfolding wf_def
  proof (intro conjI allI impI)
    show "length ?t = slots" using wf by (simp add: wf_def)
  next
    fix j assume j: "j < slots" "live (?t ! j)"
    show "\<exists>e. seq (key (?t ! j)) e = j \<and> clear_path ?t (key (?t ! j)) e"
    proof (cases "j = ?s")
      case True
      then show ?thesis using clear path here by auto
    next
      case False
      then have tj: "?t ! j = t ! j" "live (t ! j)" using j other by auto
      then obtain e0 where "seq (key (t ! j)) e0 = j" "clear_path t (key (t ! j)) e0"
        using wf j(1) unfolding wf_def by blast
      then show ?thesis unfolding tj(1) using path by blast
    qed
  next
    fix i j assume ij: "i < slots" "j < slots" and "live (?t ! i) \<and> live (?t ! j) \<and> key (?t ! i) = key (?t ! j)"
    then have l: "live (?t ! i)" "live (?t ! j)" "key (?t ! i) = key (?t ! j)" by blast+
    consider "i = ?s" "j = ?s" | "i = ?s" "j \<noteq> ?s" | "i \<noteq> ?s" "j = ?s" | "i \<noteq> ?s" "j \<noteq> ?s" by blast
    then show "i = j"
    proof cases
      case 2
      then show ?thesis using l ij notkey [of j] here by simp
    next
      case 3
      then show ?thesis using l ij notkey [of i] here by simp
    next
      case 4
      then have "live (t ! i)" "live (t ! j)" "key (t ! i) = key (t ! j)" using l by simp_all
      then show ?thesis using ij wf unfolding wf_def by blast
    qed simp
  qed
  show "keys ?t = insert (key x) (keys t)"
    using s slot x by (subst keys_update) (auto simp: keys_def set_conv_nth)
qed

text \<open>An entry may be replaced by one that is neither live nor free.\<close>

lemma bury_wf:
  assumes wf: "wf t" and j: "j < slots" "live (t ! j)" and x: "\<not> live x" "\<not> isfree x"
  shows "wf (t[j := x])" and "keys (t[j := x]) = keys t - {key (t ! j)}"
proof -
  have len: "length t = slots" using wf by (simp add: wf_def)
  have uniq: "\<And>i. i < slots \<Longrightarrow> live (t ! i) \<Longrightarrow> key (t ! i) = key (t ! j) \<Longrightarrow> i = j"
    using wf j unfolding wf_def by blast
  have path: "clear_path t k e \<Longrightarrow> clear_path (t[j := x]) k e" for k e
    using x(2) by (rule clear_path_update)
  show "wf (t[j := x])"
    unfolding wf_def
  proof (intro conjI allI impI)
    show "length (t[j := x]) = slots" using len by simp
  next
    fix i assume i: "i < slots" "live (t[j := x] ! i)"
    then have "i \<noteq> j" using x j len by auto
    then have ti: "t[j := x] ! i = t ! i" "live (t ! i)" using i by auto
    then obtain e0 where "seq (key (t ! i)) e0 = i" "clear_path t (key (t ! i)) e0"
      using wf i(1) unfolding wf_def by blast
    then show "\<exists>e. seq (key (t[j := x] ! i)) e = i \<and> clear_path (t[j := x]) (key (t[j := x] ! i)) e"
      unfolding ti(1) using path by blast
  next
    fix a b assume *: "a < slots" "b < slots" "live (t[j := x] ! a) \<and> live (t[j := x] ! b) \<and> key (t[j := x] ! a) = key (t[j := x] ! b)"
    then have "a \<noteq> j" "b \<noteq> j" using x j len by auto
    then have "live (t ! a)" "live (t ! b)" "key (t ! a) = key (t ! b)" using * by auto
    then show "a = b" using *(1,2) wf unfolding wf_def by blast
  qed
  show "keys (t[j := x]) = keys t - {key (t ! j)}"
    using j x len uniq by (subst keys_update) (auto simp: keys_def set_conv_nth)
qed

end

end
