(* ===== verification/Bitvec.thy ===== *)
theory Bitvec
  imports OpenTable
begin

text \<open>
  The sparse bit vector of \<^verbatim>\<open>bitvec.c\<close>, which the pager uses to record the pages already
  journalled: a bitmap for small vectors, else a hash table, else an array of
  sub-vectors. The sizes are those of a 32-bit target (\<^verbatim>\<open>BITVEC_SZ\<close> 512, four-byte pointers).
  The 32-bit counters are natural numbers; the one sum that can exceed 32 bits is reduced
  explicitly.
\<close>

section \<open>The code\<close>

abbreviation (input) BITVEC_NELEM :: nat where "BITVEC_NELEM \<equiv> 500"
abbreviation (input) BITVEC_NBIT :: nat where "BITVEC_NBIT \<equiv> 4000"
abbreviation (input) BITVEC_NINT :: nat where "BITVEC_NINT \<equiv> 125"
abbreviation (input) BITVEC_MXHASH :: nat where "BITVEC_MXHASH \<equiv> 62"
abbreviation (input) BITVEC_NPTR :: nat where "BITVEC_NPTR \<equiv> 125"

text \<open>The union \<^verbatim>\<open>u\<close> is a tagged value; \<^verbatim>\<open>Bitvec *apSub[]\<close> holds null or owned pointers.\<close>

datatype bitvec = Bitvec (iSize: nat) (nSet: nat) (iDivisor: nat) (u: bvunion)
     and bvunion = ABitmap "u8 list" | AHash "nat list" | ApSub "bitvec option list"

text \<open>\<^verbatim>\<open>rc |= ...\<close>, where the only codes are \<^verbatim>\<open>SQLITE_OK\<close> and \<^verbatim>\<open>SQLITE_NOMEM\<close>.\<close>

definition rc_or :: "rc \<Rightarrow> rc \<Rightarrow> rc" where
  "rc_or a b = (if a = SQLITE_OK then b else a)"

text \<open>All-zero memory, seen through the member that the other fields select.\<close>

definition bv_zeroed :: "nat \<Rightarrow> nat \<Rightarrow> bvunion" where
  "bv_zeroed sz divisor =
    (if sz \<le> BITVEC_NBIT then ABitmap (replicate BITVEC_NELEM 0)
     else if divisor = 0 then AHash (replicate BITVEC_NINT 0)
     else ApSub (replicate BITVEC_NPTR None))"

definition sqlite3BitvecCreate :: "nat \<Rightarrow> outcomes \<Rightarrow> bitvec option \<times> outcomes" where
  "sqlite3BitvecCreate sz os =
    (case alloc_next os of (ok, os) \<Rightarrow>
      (if ok then Some (Bitvec sz 0 0 (bv_zeroed sz 0)) else None, os))"

definition BITVEC_HASH :: "nat \<Rightarrow> nat" where
  "BITVEC_HASH x = x mod BITVEC_NINT"

definition hash_next :: "nat \<Rightarrow> nat" where
  "hash_next h = (if BITVEC_NINT \<le> h + 1 then 0 else h + 1)"

text \<open>
  The three probing loops over \<^verbatim>\<open>aHash\<close>. The fuel counts probes; \<open>None\<close> is a loop that does not
  end within it. In \<open>hash_probe\<close> the result \<open>Some None\<close> says that the value was found.
\<close>

fun hash_test :: "nat \<Rightarrow> nat list \<Rightarrow> nat \<Rightarrow> nat \<Rightarrow> bool option" where
  "hash_test 0 t i h = None"
| "hash_test (Suc f) t i h =
    (if t ! h = 0 then Some False else if t ! h = i then Some True else hash_test f t i (hash_next h))"

fun hash_probe :: "nat \<Rightarrow> nat list \<Rightarrow> nat \<Rightarrow> nat \<Rightarrow> nat option option" where
  "hash_probe 0 t i h = None"
| "hash_probe (Suc f) t i h =
    (if t ! h = i then Some None
     else let h = hash_next h in if t ! h \<noteq> 0 then hash_probe f t i h else Some (Some h))"

fun hash_free :: "nat \<Rightarrow> nat list \<Rightarrow> nat \<Rightarrow> nat option" where
  "hash_free 0 t h = None"
| "hash_free (Suc f) t h = (if t ! h \<noteq> 0 then hash_free f t (hash_next h) else Some h)"

abbreviation test_bit_u8 :: "u8 list \<Rightarrow> nat \<Rightarrow> bool" where
  "test_bit_u8 a i \<equiv> a ! (i div 8) AND push_bit (i mod 8) 1 \<noteq> 0"

text \<open>
  The test for the bit \<open>i\<close>, counted from 0: down the sub-vectors, then the bitmap or the hash.
  Reading the union through a member the fields do not select, or outside it, is \<open>None\<close>.
\<close>

function bv_test :: "bitvec \<Rightarrow> nat \<Rightarrow> bool option" where
  "bv_test (Bitvec sz n divisor un) i =
    (if divisor \<noteq> 0 then
       (case un of ApSub subs \<Rightarrow>
          (if i div divisor < length subs then
             (case subs ! (i div divisor) of None \<Rightarrow> Some False | Some p \<Rightarrow> bv_test p (i mod divisor))
           else None)
        | _ \<Rightarrow> None)
     else if sz \<le> BITVEC_NBIT then
       (case un of ABitmap a \<Rightarrow> Some (test_bit_u8 a i) | _ \<Rightarrow> None)
     else
       (case un of AHash t \<Rightarrow> hash_test BITVEC_NINT t (i + 1) (BITVEC_HASH i) | _ \<Rightarrow> None))"
  by pat_completeness auto

lemma size_sub_bitvec: "k < length subs \<Longrightarrow> subs ! k = Some p \<Longrightarrow> size p < size_list (size_option size) subs"
proof (rule size_list_estimation)
  assume "k < length subs" "subs ! k = Some p"
  then show "Some p \<in> set subs" by (metis nth_mem)
qed simp

termination bv_test
  by (relation "measure (\<lambda>(p, i). size p)") (auto dest: size_sub_bitvec)

definition sqlite3BitvecTest :: "bitvec option \<Rightarrow> nat \<Rightarrow> bool option" where
  "sqlite3BitvecTest p i =
    (case p of None \<Rightarrow> Some False
     | Some p \<Rightarrow> if iSize p < i \<or> i = 0 then Some False else bv_test p (i - 1))"

text \<open>The re-insertion loop \<^verbatim>\<open>for(j=0; j<BITVEC_NINT; j++)\<close> over the values of the old hash.\<close>

type_synonym bv_result = "(rc \<times> bitvec \<times> outcomes) option"

fun bv_set_all :: "(bitvec \<Rightarrow> nat \<Rightarrow> outcomes \<Rightarrow> bv_result) \<Rightarrow> nat list \<Rightarrow> rc \<Rightarrow> bitvec \<Rightarrow> outcomes \<Rightarrow> bv_result" where
  "bv_set_all f [] rc p os = Some (rc, p, os)"
| "bv_set_all f (v # vs) rc p os =
    (if v \<noteq> 0 then
       (case f p (v - 1) os of None \<Rightarrow> None
        | Some (rc', p, os) \<Rightarrow> bv_set_all f vs (rc_or rc rc') p os)
     else bv_set_all f vs rc p os)"

text \<open>
  \<open>bv_set f p i os\<close> sets the bit \<open>i\<close>, counted from 0; the fuel \<open>f\<close> bounds the nesting of
  sub-vectors and of the recursive calls.
\<close>

fun bv_set :: "nat \<Rightarrow> bitvec \<Rightarrow> nat \<Rightarrow> outcomes \<Rightarrow> bv_result" where
  "bv_set 0 p i os = None"
| "bv_set (Suc f) (Bitvec sz n divisor un) i os =
    (if BITVEC_NBIT < sz \<and> divisor \<noteq> 0 then
       (case un of ApSub subs \<Rightarrow>
          let bin = i div divisor; i = i mod divisor in
          if length subs \<le> bin then None else
          (case (if subs ! bin = None then sqlite3BitvecCreate divisor os else (subs ! bin, os)) of
             (None, os) \<Rightarrow> Some (SQLITE_NOMEM, Bitvec sz n divisor un, os)
           | (Some q, os) \<Rightarrow>
               (case bv_set f q i os of None \<Rightarrow> None
                | Some (rc, q, os) \<Rightarrow> Some (rc, Bitvec sz n divisor (ApSub (subs[bin := Some q])), os)))
        | _ \<Rightarrow> None)
     else if sz \<le> BITVEC_NBIT then
       (case un of ABitmap a \<Rightarrow>
          Some (SQLITE_OK, Bitvec sz n divisor (ABitmap (a[i div 8 := a ! (i div 8) OR push_bit (i mod 8) 1])), os)
        | _ \<Rightarrow> None)
     else
       (case un of AHash t \<Rightarrow>
          let h = BITVEC_HASH i; v = i + 1;
              set_end = (\<lambda>h. Some (SQLITE_OK, Bitvec sz (n + 1) divisor (AHash (t[h := v])), os));
              rehash = (\<lambda>h. if BITVEC_MXHASH \<le> n then
                  let divisor = (sz + BITVEC_NPTR - 1) mod 2 ^ 32 div BITVEC_NPTR;
                      p = Bitvec sz n divisor (bv_zeroed sz divisor) in
                  (case bv_set f p (v - 1) os of None \<Rightarrow> None
                   | Some (rc, p, os) \<Rightarrow> bv_set_all (bv_set f) t rc p os)
                else set_end h)
          in if t ! h = 0 then (if n < BITVEC_NINT - 1 then set_end h else rehash h)
             else (case hash_probe BITVEC_NINT t v h of
                     None \<Rightarrow> None
                   | Some None \<Rightarrow> Some (SQLITE_OK, Bitvec sz n divisor un, os)
                   | Some (Some h) \<Rightarrow> rehash h)
        | _ \<Rightarrow> None))"

abbreviation (input) BITVEC_FUEL :: nat where "BITVEC_FUEL \<equiv> 8"

definition sqlite3BitvecSet :: "bitvec \<Rightarrow> nat \<Rightarrow> outcomes \<Rightarrow> bv_result" where
  "sqlite3BitvecSet p i os = bv_set BITVEC_FUEL p (i - 1) os"

text \<open>The rebuilding loop of \<^verbatim>\<open>sqlite3BitvecClear\<close>: all values but the cleared one.\<close>

fun hash_rebuild :: "nat list \<Rightarrow> nat \<Rightarrow> nat \<Rightarrow> nat list \<Rightarrow> (nat \<times> nat list) option" where
  "hash_rebuild [] i n t = Some (n, t)"
| "hash_rebuild (v # vs) i n t =
    (if v \<noteq> 0 \<and> v \<noteq> i + 1 then
       (case hash_free BITVEC_NINT t (BITVEC_HASH (v - 1)) of None \<Rightarrow> None
        | Some h \<Rightarrow> hash_rebuild vs i (n + 1) (t[h := v]))
     else hash_rebuild vs i n t)"

function bv_clear :: "bitvec \<Rightarrow> nat \<Rightarrow> bitvec option" where
  "bv_clear (Bitvec sz n divisor un) i =
    (if divisor \<noteq> 0 then
       (case un of ApSub subs \<Rightarrow>
          (if i div divisor < length subs then
             (case subs ! (i div divisor) of None \<Rightarrow> Some (Bitvec sz n divisor un)
              | Some p \<Rightarrow>
                  (case bv_clear p (i mod divisor) of None \<Rightarrow> None
                   | Some p \<Rightarrow> Some (Bitvec sz n divisor (ApSub (subs[i div divisor := Some p])))))
           else None)
        | _ \<Rightarrow> None)
     else if sz \<le> BITVEC_NBIT then
       (case un of ABitmap a \<Rightarrow>
          Some (Bitvec sz n divisor (ABitmap (a[i div 8 := a ! (i div 8) AND NOT (push_bit (i mod 8) 1)])))
        | _ \<Rightarrow> None)
     else
       (case un of AHash t \<Rightarrow>
          (case hash_rebuild t i 0 (replicate BITVEC_NINT 0) of None \<Rightarrow> None
           | Some (n, t) \<Rightarrow> Some (Bitvec sz n divisor (AHash t)))
        | _ \<Rightarrow> None))"
  by pat_completeness auto
termination bv_clear
  by (relation "measure (\<lambda>(p, i). size p)") (auto dest: size_sub_bitvec)

definition sqlite3BitvecClear :: "bitvec \<Rightarrow> nat \<Rightarrow> bitvec option" where
  "sqlite3BitvecClear p i = bv_clear p (i - 1)"

definition sqlite3BitvecSize :: "bitvec \<Rightarrow> nat" where
  "sqlite3BitvecSize p = iSize p"

section \<open>The hash table\<close>

definition bv_seq :: "nat \<Rightarrow> nat \<Rightarrow> nat" where
  "bv_seq v e = (BITVEC_HASH (v - 1) + e) mod BITVEC_NINT"

text \<open>Slots hold values from 1; the value 0 marks a free slot.\<close>

definition hash_used :: "nat \<Rightarrow> bool" where
  "hash_used v \<longleftrightarrow> v \<noteq> 0"

definition hash_unused :: "nat \<Rightarrow> bool" where
  "hash_unused v \<longleftrightarrow> v = 0"

interpretation lp: open_table BITVEC_NINT bv_seq hash_unused hash_used "\<lambda>v. v"
proof
  fix k e :: nat and j :: nat
  show "bv_seq k e < BITVEC_NINT" by (simp add: bv_seq_def)
  assume j: "j < BITVEC_NINT"
  show "\<exists>e < BITVEC_NINT. bv_seq k e = j"
  proof (intro exI conjI)
    show "(j + BITVEC_NINT - BITVEC_HASH (k - 1)) mod BITVEC_NINT < BITVEC_NINT" by simp
    have "BITVEC_HASH (k - 1) < BITVEC_NINT" by (simp add: BITVEC_HASH_def)
    then have "BITVEC_HASH (k - 1) + (j + BITVEC_NINT - BITVEC_HASH (k - 1)) = j + BITVEC_NINT" by simp
    then show "bv_seq k ((j + BITVEC_NINT - BITVEC_HASH (k - 1)) mod BITVEC_NINT) = j"
      using j by (simp add: bv_seq_def mod_simps)
  qed
qed (simp add: hash_used_def hash_unused_def)

lemma lp_keys: "lp.keys t = set t - {0}"
  unfolding lp.keys_def hash_used_def by auto

lemma lp_stops:
  "lp.stops t v e \<longleftrightarrow> (t ! bv_seq v e = 0 \<or> t ! bv_seq v e = v) \<and>
     (\<forall>e' < e. t ! bv_seq v e' \<noteq> 0 \<and> t ! bv_seq v e' \<noteq> v)"
  unfolding lp.stops_def lp.matches_def hash_used_def hash_unused_def by auto

lemma lp_distinct: "lp.wf t \<Longrightarrow> i < BITVEC_NINT \<Longrightarrow> j < BITVEC_NINT \<Longrightarrow> t ! i \<noteq> 0 \<Longrightarrow> t ! i = t ! j \<Longrightarrow> i = j"
  unfolding lp.wf_def hash_used_def by (metis (no_types, lifting))

lemma bv_seq_0: "BITVEC_HASH i = bv_seq (i + 1) 0"
  by (simp add: bv_seq_def BITVEC_HASH_def)

lemma hash_next_seq: "hash_next (bv_seq v e) = bv_seq v (Suc e)"
proof -
  have "hash_next h = Suc h mod BITVEC_NINT" if "h < BITVEC_NINT" for h
    using that by (cases "h = 124") (auto simp: hash_next_def)
  then show ?thesis using lp.seq_less [of v e] by (simp add: bv_seq_def mod_Suc_eq)
qed

lemma hash_test_stops:
  "lp.stops t v e \<Longrightarrow> v \<noteq> 0 \<Longrightarrow> e' \<le> e \<Longrightarrow> e - e' < f \<Longrightarrow>
     hash_test f t v (bv_seq v e') = Some (t ! bv_seq v e = v)"
proof (induction f arbitrary: e')
  case (Suc f)
  show ?case
  proof (cases "e' = e")
    case True
    with Suc.prems show ?thesis by (auto simp: lp_stops)
  next
    case False
    then have "e' < e" using Suc.prems by simp
    with Suc.prems have "t ! bv_seq v e' \<noteq> 0" "t ! bv_seq v e' \<noteq> v"
      by (auto simp: lp_stops)
    with Suc \<open>e' < e\<close> show ?thesis by (auto simp: hash_next_seq)
  qed
qed simp

lemma hash_probe_stops:
  "lp.stops t v e \<Longrightarrow> v \<noteq> 0 \<Longrightarrow> e' \<le> e \<Longrightarrow> e - e' < f \<Longrightarrow> t ! bv_seq v e' \<noteq> 0 \<Longrightarrow>
     hash_probe f t v (bv_seq v e') = Some (if t ! bv_seq v e = v then None else Some (bv_seq v e))"
proof (induction f arbitrary: e')
  case (Suc f)
  show ?case
  proof (cases "e' = e")
    case True
    with Suc.prems show ?thesis by (auto simp: lp_stops)
  next
    case False
    then have lt: "e' < e" using Suc.prems by simp
    with Suc.prems have ne: "t ! bv_seq v e' \<noteq> v" by (auto simp: lp_stops)
    show ?thesis
    proof (cases "t ! bv_seq v (Suc e') = 0")
      case True
      have "Suc e' = e"
      proof (rule ccontr)
        assume "Suc e' \<noteq> e"
        with lt have "Suc e' < e" by simp
        with Suc.prems(1) True show False by (auto simp: lp_stops)
      qed
      with True ne Suc.prems(2) show ?thesis by (auto simp: hash_next_seq)
    next
      case False
      with Suc lt ne show ?thesis by (auto simp: hash_next_seq)
    qed
  qed
qed simp

lemma hash_free_stops:
  "lp.stops t v e \<Longrightarrow> t ! bv_seq v e = 0 \<Longrightarrow> e' \<le> e \<Longrightarrow> e - e' < f \<Longrightarrow> hash_free f t (bv_seq v e') = Some (bv_seq v e)"
proof (induction f arbitrary: e')
  case (Suc f)
  show ?case
  proof (cases "e' = e")
    case False
    with Suc.prems have "t ! bv_seq v e' \<noteq> 0" by (auto simp: lp_stops)
    with Suc False show ?thesis by (auto simp: hash_next_seq)
  qed (use Suc.prems in simp)
qed simp

text \<open>A hash table that is not full, and what the code counts in it.\<close>

definition hash_ok :: "nat \<Rightarrow> nat list \<Rightarrow> bool" where
  "hash_ok n t \<longleftrightarrow> lp.wf t \<and> n = card (set t - {0}) \<and> n < BITVEC_NINT"

lemma hash_ok_length: "hash_ok n t \<Longrightarrow> length t = BITVEC_NINT"
  by (simp add: hash_ok_def lp.wf_length)

lemma hash_ok_free:
  assumes "hash_ok n t"
  shows "\<exists>j < BITVEC_NINT. hash_unused (t ! j)"
proof (rule ccontr)
  assume "\<not> ?thesis"
  then have no: "\<forall>j < BITVEC_NINT. t ! j \<noteq> 0" by (simp add: hash_unused_def)
  have len: "length t = BITVEC_NINT" using assms by (rule hash_ok_length)
  have "0 \<notin> set t" using no len by (auto simp: in_set_conv_nth)
  moreover have "distinct t"
    unfolding distinct_conv_nth
  proof (intro allI impI)
    fix i j assume ij: "i < length t" "j < length t" "i \<noteq> j"
    then have "t ! i \<noteq> 0" "t ! j \<noteq> 0" using no len by auto
    then show "t ! i \<noteq> t ! j" using assms ij len lp_distinct [of t i j] unfolding hash_ok_def by auto
  qed
  ultimately have "card (set t - {0}) = BITVEC_NINT" using len by (simp add: distinct_card)
  then show False using assms by (auto simp: hash_ok_def)
qed

lemma hash_ok_stops:
  assumes "hash_ok n t"
  obtains e where "e < BITVEC_NINT" "lp.stops t v e"
  using lp.stops_exists [of t v] hash_ok_length [OF assms] hash_ok_free [OF assms] by blast

lemma hash_stops_in: "hash_ok n t \<Longrightarrow> lp.stops t v e \<Longrightarrow> v \<noteq> 0 \<Longrightarrow> t ! bv_seq v e = v \<longleftrightarrow> v \<in> set t"
  using lp.stops_member [of t v e] by (auto simp: hash_ok_def lp_keys lp.matches_def hash_used_def)

lemma hash_stops_out: "hash_ok n t \<Longrightarrow> lp.stops t v e \<Longrightarrow> v \<noteq> 0 \<Longrightarrow> v \<notin> set t \<Longrightarrow> t ! bv_seq v e = 0"
  using hash_stops_in [of n t v e] by (auto simp: lp_stops)

lemma hash_test_ok: "hash_ok n t \<Longrightarrow> hash_test BITVEC_NINT t (i + 1) (BITVEC_HASH i) = Some (i + 1 \<in> set t)"
proof -
  assume ok: "hash_ok n t"
  then obtain e where e: "e < BITVEC_NINT" "lp.stops t (i + 1) e" by (rule hash_ok_stops)
  then show ?thesis
    using hash_test_stops [OF e(2), of 0 BITVEC_NINT] hash_stops_in [OF ok e(2)] by (simp add: bv_seq_0)
qed

lemma hash_insert_ok:
  assumes ok: "hash_ok n t" and n: "n < 124" and v: "v \<noteq> 0" "v \<notin> set t" and e: "lp.stops t v e"
  shows "hash_ok (n + 1) (t[bv_seq v e := v])" and "set (t[bv_seq v e := v]) - {0} = insert v (set t - {0})"
proof -
  have slot: "\<not> hash_used (t ! bv_seq v e)" using hash_stops_out [OF ok e v] by (simp add: hash_used_def)
  have used: "hash_used v" using v(1) by (simp add: hash_used_def)
  have wf: "lp.wf t" using ok by (simp add: hash_ok_def)
  note ins = lp.insert_wf [OF wf lp.stops_clear [OF e] slot used, unfolded lp_keys]
  have new: "v \<notin> set t - {0}" using v by simp
  show *: "set (t[bv_seq v e := v]) - {0} = insert v (set t - {0})" by (rule ins(2) [OF new])
  show "hash_ok (n + 1) (t[bv_seq v e := v])"
    using ins(1) [OF new] ok n v unfolding hash_ok_def * by (simp add: card_insert_if)
qed

lemma hash_empty: "hash_ok 0 (replicate BITVEC_NINT 0)"
  unfolding hash_ok_def lp.wf_def by (simp add: nth_replicate hash_used_def)

lemma hash_rebuild_ok:
  "hash_ok n t \<Longrightarrow> n + length (filter (\<lambda>v. v \<noteq> 0 \<and> v \<noteq> i + 1) vs) < BITVEC_NINT \<Longrightarrow>
   (\<forall>v \<in> set vs. v \<noteq> 0 \<longrightarrow> v \<notin> set t) \<Longrightarrow> distinct (filter (\<lambda>v. v \<noteq> 0) vs) \<Longrightarrow>
   \<exists>n' t'. hash_rebuild vs i n t = Some (n', t') \<and> hash_ok n' t' \<and>
     set t' - {0} = (set t - {0}) \<union> (set vs - {0, i + 1})"
proof (induction vs arbitrary: n t)
  case (Cons v vs)
  show ?case
  proof (cases "v \<noteq> 0 \<and> v \<noteq> i + 1")
    case False
    with Cons show ?thesis by (auto split: if_splits)
  next
    case True
    obtain e where e: "e < BITVEC_NINT" "lp.stops t v e" using Cons.prems(1) by (rule hash_ok_stops)
    have v: "v \<noteq> 0" "v \<notin> set t" using True Cons.prems by auto
    have "hash_free BITVEC_NINT t (BITVEC_HASH (v - 1)) = Some (bv_seq v e)"
      using hash_free_stops [OF e(2) hash_stops_out [OF Cons.prems(1) e(2) v], of 0] e(1) v(1)
      by (simp add: bv_seq_0)
    moreover have n: "n < 124" using Cons.prems(2) True by simp
    note ins = hash_insert_ok [OF Cons.prems(1) n v e(2)]
    have "\<exists>n' t'. hash_rebuild vs i (n + 1) (t[bv_seq v e := v]) = Some (n', t') \<and> hash_ok n' t' \<and>
        set t' - {0} = (set (t[bv_seq v e := v]) - {0}) \<union> (set vs - {0, i + 1})"
    proof (rule Cons.IH [OF ins(1)])
      show "n + 1 + length (filter (\<lambda>v. v \<noteq> 0 \<and> v \<noteq> i + 1) vs) < BITVEC_NINT"
        using Cons.prems(2) True by simp
      show "\<forall>w \<in> set vs. w \<noteq> 0 \<longrightarrow> w \<notin> set (t[bv_seq v e := v])"
      proof (intro ballI impI)
        fix w assume w: "w \<in> set vs" "w \<noteq> 0"
        then have "w \<notin> set t" "w \<noteq> v" using Cons.prems(3,4) v(1) by auto
        then show "w \<notin> set (t[bv_seq v e := v])" using ins(2) w(2) by blast
      qed
      show "distinct (filter (\<lambda>v. v \<noteq> 0) vs)" using Cons.prems(4) v(1) by simp
    qed
    ultimately show ?thesis using True unfolding ins(2) by auto
  qed
qed auto

lemma hash_nonzero_distinct:
  assumes "hash_ok n t"
  shows "distinct (filter (\<lambda>v. v \<noteq> 0) t)" and "length (filter (\<lambda>v. v \<noteq> 0) t) = n"
proof -
  have len: "length t = BITVEC_NINT" using assms by (rule hash_ok_length)
  have "\<lbrakk>i < length t; j < length t; t ! i \<noteq> 0; t ! i = t ! j\<rbrakk> \<Longrightarrow> i = j" for i j
    using assms len lp_distinct [of t i j] unfolding hash_ok_def by auto
  then show d: "distinct (filter (\<lambda>v. v \<noteq> 0) t)"
  proof (induction t)
    case (Cons v t)
    have "distinct (filter (\<lambda>v. v \<noteq> 0) t)"
      by (rule Cons.IH) (use Cons.prems [of "Suc _" "Suc _"] in simp)
    moreover have "v \<noteq> 0 \<Longrightarrow> v \<notin> set t"
      using Cons.prems [of 0 "Suc _"] by (auto simp: in_set_conv_nth)
    ultimately show ?case by simp
  qed simp
  have "n = card (set (filter (\<lambda>v. v \<noteq> 0) t))" using assms by (simp add: hash_ok_def set_diff_eq)
  then show "length (filter (\<lambda>v. v \<noteq> 0) t) = n" using distinct_card [OF d] by simp
qed


section \<open>Valid vectors\<close>

inductive bv_ok :: "bitvec \<Rightarrow> bool" where
  bitmap: "sz \<le> BITVEC_NBIT \<Longrightarrow> length a = BITVEC_NELEM \<Longrightarrow> bv_ok (Bitvec sz n 0 (ABitmap a))"
| hash: "BITVEC_NBIT < sz \<Longrightarrow> sz + 124 < 2 ^ 32 \<Longrightarrow> hash_ok n t \<Longrightarrow> (\<forall>v \<in> set t. v \<le> sz) \<Longrightarrow>
    bv_ok (Bitvec sz n 0 (AHash t))"
| sub: "BITVEC_NBIT < sz \<Longrightarrow> sz + 124 < 2 ^ 32 \<Longrightarrow> length subs = BITVEC_NPTR \<Longrightarrow> d = (sz + 124) div 125 \<Longrightarrow>
    (\<forall>p. Some p \<in> set subs \<longrightarrow> bv_ok p \<and> iSize p = d) \<Longrightarrow> bv_ok (Bitvec sz n d (ApSub subs))"

lemma bit_test_u8: "k < 8 \<Longrightarrow> (a::u8) AND push_bit k 1 \<noteq> 0 \<longleftrightarrow> bit a k"
  by (simp add: push_bit_eq_mult and_exp_eq_0_iff_not_bit)

lemma bit_one_u8: "k < 8 \<Longrightarrow> bit (push_bit k (1::u8)) j \<longleftrightarrow> j = k"
  by (auto simp: push_bit_eq_mult bit_exp_iff)

lemma bv_test_total: "bv_ok p \<Longrightarrow> i < iSize p \<Longrightarrow> \<exists>b. bv_test p i = Some b"
proof (induction arbitrary: i rule: bv_ok.induct)
  case (hash sz n t)
  then show ?case using hash_test_ok [of n t i] by simp
next
  case (sub sz subs d n)
  have d: "0 < d" "sz \<le> 125 * d" using sub.hyps by auto
  have k: "i div d < length subs"
    using sub.prems sub.hyps d by (simp add: less_mult_imp_div_less mult.commute)
  have m: "i mod d < d" using d by simp
  show ?case
  proof (cases "subs ! (i div d)")
    case (Some p)
    then have "Some p \<in> set subs" using k by (metis nth_mem)
    then obtain b where "bv_test p (i mod d) = Some b" using sub.IH m by blast
    then show ?thesis using Some k d by simp
  qed (use k d in auto)
qed auto

definition has :: "bitvec \<Rightarrow> nat \<Rightarrow> bool" where
  "has p i \<longleftrightarrow> bv_test p i = Some True"

lemma bv_test_has: "bv_ok p \<Longrightarrow> i < iSize p \<Longrightarrow> bv_test p i = Some (has p i)"
  using bv_test_total by (fastforce simp: has_def)

lemma has_bitmap: "sz \<le> BITVEC_NBIT \<Longrightarrow> has (Bitvec sz n 0 (ABitmap a)) i \<longleftrightarrow> bit (a ! (i div 8)) (i mod 8)"
  using bit_test_u8 [of "i mod 8"] by (simp add: has_def)

lemma has_hash: "hash_ok n t \<Longrightarrow> BITVEC_NBIT < sz \<Longrightarrow> has (Bitvec sz n 0 (AHash t)) i \<longleftrightarrow> i + 1 \<in> set t"
  using hash_test_ok [of n t i] by (simp add: has_def)

lemma has_sub: "0 < d \<Longrightarrow> i div d < length subs \<Longrightarrow>
    has (Bitvec sz n d (ApSub subs)) i \<longleftrightarrow> (\<exists>p. subs ! (i div d) = Some p \<and> has p (i mod d))"
  by (auto simp: has_def split: option.splits)

lemma sub_index: "sz + 124 < 2 ^ 32 \<Longrightarrow> BITVEC_NBIT < sz \<Longrightarrow> d = (sz + 124) div 125 \<Longrightarrow> i < sz \<Longrightarrow> 0 < d \<and> i div d < 125 \<and> i mod d < d"
proof -
  assume d: "d = (sz + 124) div 125" "i < sz" "BITVEC_NBIT < sz"
  then have "0 < d" "i < 125 * d" by auto
  then show ?thesis by (simp add: less_mult_imp_div_less mult.commute)
qed

lemma create_ok:
  assumes "sz \<le> BITVEC_NBIT \<or> sz + 124 < 2 ^ 32"
  shows "bv_ok (Bitvec sz 0 0 (bv_zeroed sz 0))" and "\<not> has (Bitvec sz 0 0 (bv_zeroed sz 0)) i \<or> sz \<le> i"
proof -
  have z: "hash_ok 0 (replicate BITVEC_NINT 0)" by (rule hash_empty)
  show "bv_ok (Bitvec sz 0 0 (bv_zeroed sz 0))"
    using assms z by (auto simp: bv_zeroed_def intro!: bv_ok.intros)
  show "\<not> has (Bitvec sz 0 0 (bv_zeroed sz 0)) i \<or> sz \<le> i"
    using assms has_hash [OF z, of sz i] has_bitmap [of sz 0 "replicate BITVEC_NELEM 0" i]
    by (cases "i div 8 < 500") (auto simp: bv_zeroed_def)
qed

section \<open>Setting a bit\<close>

text \<open>The levels of sub-vectors below a vector of a size, and the fuel a call needs.\<close>

fun bv_rank :: "nat \<Rightarrow> nat" where
  "bv_rank sz = (if sz \<le> BITVEC_NBIT then 0 else Suc (bv_rank ((sz + 124) div 125)))"

declare bv_rank.simps [simp del]

definition bv_need :: "bitvec \<Rightarrow> nat" where
  "bv_need p = (if iDivisor p = 0 then 2 * bv_rank (iSize p) + 1 else 2 * bv_rank (iSize p))"

lemma bv_rank_small: "sz \<le> BITVEC_NBIT \<Longrightarrow> bv_rank sz = 0"
  by (simp add: bv_rank.simps)

lemma bv_rank_bound: "sz < 2 ^ 32 \<Longrightarrow> bv_rank sz \<le> 3"
  by (simp add: bv_rank.simps)

text \<open>A result of setting the bits \<open>S\<close> of \<open>p\<close>.\<close>

definition adds :: "bitvec \<Rightarrow> nat set \<Rightarrow> outcomes \<Rightarrow> bv_result \<Rightarrow> bool" where
  "adds p S os r \<longleftrightarrow> (\<exists>rc p' os'. r = Some (rc, p', os') \<and> bv_ok p' \<and> iSize p' = iSize p \<and>
     (iDivisor p \<noteq> 0 \<longrightarrow> iDivisor p' \<noteq> 0) \<and> (os = [] \<longrightarrow> rc = SQLITE_OK \<and> os' = []) \<and>
     (\<forall>j < iSize p. has p' j \<longrightarrow> j \<in> S \<or> has p j) \<and>
     (rc = SQLITE_OK \<longrightarrow> (\<forall>j < iSize p. j \<in> S \<or> has p j \<longrightarrow> has p' j)))"

lemma addsI:
  "r = Some (rc, p', os') \<Longrightarrow> bv_ok p' \<Longrightarrow> iSize p' = iSize p \<Longrightarrow> (iDivisor p \<noteq> 0 \<Longrightarrow> iDivisor p' \<noteq> 0) \<Longrightarrow>
   (os = [] \<Longrightarrow> rc = SQLITE_OK \<and> os' = []) \<Longrightarrow> (\<And>j. j < iSize p \<Longrightarrow> has p' j \<Longrightarrow> j \<in> S \<or> has p j) \<Longrightarrow>
   (\<And>j. rc = SQLITE_OK \<Longrightarrow> j < iSize p \<Longrightarrow> j \<in> S \<or> has p j \<Longrightarrow> has p' j) \<Longrightarrow> adds p S os r"
  by (auto simp: adds_def)

lemma addsE:
  assumes "adds p S os r"
  obtains rc p' os' where "r = Some (rc, p', os')" "bv_ok p'" "iSize p' = iSize p"
    "iDivisor p \<noteq> 0 \<Longrightarrow> iDivisor p' \<noteq> 0" "os = [] \<Longrightarrow> rc = SQLITE_OK \<and> os' = []"
    "\<And>j. j < iSize p \<Longrightarrow> has p' j \<Longrightarrow> j \<in> S \<or> has p j"
    "\<And>j. rc = SQLITE_OK \<Longrightarrow> j < iSize p \<Longrightarrow> j \<in> S \<or> has p j \<Longrightarrow> has p' j"
  using assms unfolding adds_def by metis

lemma adds_cong:
  assumes "adds p S os r" "iSize q = iSize p" "iDivisor q = 0"
    and "\<And>j. j < iSize p \<Longrightarrow> (j \<in> S \<or> has p j) = (j \<in> T \<or> has q j)"
  shows "adds q T os r"
  using assms unfolding adds_def by metis

text \<open>What the recursive calls provide, for the vectors that need no more than \<open>f\<close>.\<close>

definition set_upto :: "nat \<Rightarrow> bool" where
  "set_upto f \<longleftrightarrow> (\<forall>p i os. bv_ok p \<longrightarrow> i < iSize p \<longrightarrow> bv_need p \<le> f \<longrightarrow> adds p {i} os (bv_set f p i os))"

lemma bv_set_bitmap:
  assumes "bv_ok (Bitvec sz n d (ABitmap a))" "i < sz"
  shows "adds (Bitvec sz n d (ABitmap a)) {i} os (bv_set (Suc f) (Bitvec sz n d (ABitmap a)) i os)"
proof -
  from assms(1) have *: "sz \<le> BITVEC_NBIT" "length a = BITVEC_NELEM" "d = 0"
    by (auto elim: bv_ok.cases)
  have k: "i div 8 < 500" using * assms(2) by auto
  show ?thesis
  proof (rule addsI)
    show "bv_set (Suc f) (Bitvec sz n d (ABitmap a)) i os = Some (SQLITE_OK,
        Bitvec sz n 0 (ABitmap (a[i div 8 := a ! (i div 8) OR push_bit (i mod 8) 1])), os)"
      using * by simp
    show "bv_ok (Bitvec sz n 0 (ABitmap (a[i div 8 := a ! (i div 8) OR push_bit (i mod 8) 1])))"
      using * by (auto intro: bv_ok.intros)
    fix j
    have "has (Bitvec sz n 0 (ABitmap (a[i div 8 := a ! (i div 8) OR push_bit (i mod 8) 1]))) j \<longleftrightarrow>
        j = i \<or> has (Bitvec sz n d (ABitmap a)) j"
    proof (cases "j div 8 = i div 8")
      case True
      then have "j = i \<longleftrightarrow> j mod 8 = i mod 8" by (metis div_mult_mod_eq)
      moreover have "bit (push_bit (i mod 8) (1::u8)) (j mod 8) \<longleftrightarrow> j mod 8 = i mod 8"
        by (rule bit_one_u8) simp
      ultimately show ?thesis using * k True by (auto simp: has_bitmap bit_or_iff)
    qed (use * k in \<open>auto simp: has_bitmap\<close>)
    then show "has (Bitvec sz n 0 (ABitmap (a[i div 8 := a ! (i div 8) OR push_bit (i mod 8) 1]))) j \<Longrightarrow>
        j \<in> {i} \<or> has (Bitvec sz n d (ABitmap a)) j"
      and "j \<in> {i} \<or> has (Bitvec sz n d (ABitmap a)) j \<Longrightarrow>
        has (Bitvec sz n 0 (ABitmap (a[i div 8 := a ! (i div 8) OR push_bit (i mod 8) 1]))) j" by auto
  qed (use * in auto)
qed

lemma sub_update_ok:
  assumes ok: "bv_ok (Bitvec sz n d (ApSub subs))" and q: "bv_ok q" "iSize q = d"
  shows "bv_ok (Bitvec sz n d (ApSub (subs[k := Some q])))"
proof -
  from ok have *: "BITVEC_NBIT < sz" "sz + 124 < 2 ^ 32" "length subs = BITVEC_NPTR" "d = (sz + 124) div 125"
    "\<forall>p. Some p \<in> set subs \<longrightarrow> bv_ok p \<and> iSize p = d" by (auto elim: bv_ok.cases)
  have "\<forall>p. Some p \<in> set (subs[k := Some q]) \<longrightarrow> bv_ok p \<and> iSize p = d"
    using *(5) q set_update_subset_insert [of subs k "Some q"] by blast
  then show ?thesis using * by (auto intro!: bv_ok.sub)
qed

lemma bv_set_sub:
  assumes IH: "set_upto f" and ok: "bv_ok (Bitvec sz n d (ApSub subs))" and i: "i < sz"
    and need: "2 * bv_rank sz \<le> Suc f"
  shows "adds (Bitvec sz n d (ApSub subs)) {i} os (bv_set (Suc f) (Bitvec sz n d (ApSub subs)) i os)"
proof -
  from ok have *: "BITVEC_NBIT < sz" "sz + 124 < 2 ^ 32" "length subs = BITVEC_NPTR" "d = (sz + 124) div 125"
    "\<And>p. Some p \<in> set subs \<Longrightarrow> bv_ok p \<and> iSize p = d" by (auto elim: bv_ok.cases)
  have d: "0 < d" and bin: "\<And>j. j < sz \<Longrightarrow> j div d < length subs" and m: "\<And>j. j < sz \<Longrightarrow> j mod d < d"
    using sub_index [OF *(2,1,4)] *(1,3) i by auto
  have rank: "bv_rank sz = Suc (bv_rank d)" using * by (subst bv_rank.simps) simp
  have eq: "j = i" if "j div d = i div d" "j mod d = i mod d" for j using that by (metis div_mult_mod_eq)
  have main: "adds (Bitvec sz n d (ApSub subs)) {i} os
      (case bv_set f q (i mod d) os' of None \<Rightarrow> None
       | Some (rc, q, os) \<Rightarrow> Some (rc, Bitvec sz n d (ApSub (subs[i div d := Some q])), os))"
    if q: "bv_ok q" "iSize q = d" and os': "os = [] \<Longrightarrow> os' = []"
      and same: "\<And>j. j < d \<Longrightarrow> has q j \<longleftrightarrow> (\<exists>p. subs ! (i div d) = Some p \<and> has p j)" for q os'
  proof -
    have "bv_need q \<le> f" using need rank q(2) by (simp add: bv_need_def)
    then have "adds q {i mod d} os' (bv_set f q (i mod d) os')"
      using IH q m [OF i] unfolding set_upto_def by simp
    then obtain rc q' os'' where r: "bv_set f q (i mod d) os' = Some (rc, q', os'')" and q': "bv_ok q'" "iSize q' = d"
      and n: "os' = [] \<Longrightarrow> rc = SQLITE_OK \<and> os'' = []"
      and a: "\<And>j. j < d \<Longrightarrow> has q' j \<Longrightarrow> j \<in> {i mod d} \<or> has q j"
      and b: "\<And>j. rc = SQLITE_OK \<Longrightarrow> j < d \<Longrightarrow> j \<in> {i mod d} \<or> has q j \<Longrightarrow> has q' j"
      unfolding adds_def q(2) by blast
    have h: "has (Bitvec sz n d (ApSub (subs[i div d := Some q']))) j \<longleftrightarrow>
        (if j div d = i div d then has q' (j mod d) else has (Bitvec sz n d (ApSub subs)) j)" if "j < sz" for j
      using d bin [OF that] bin [OF i] by (auto simp: has_sub nth_list_update)
    have h0: "has (Bitvec sz n d (ApSub subs)) j \<longleftrightarrow> has q (j mod d)" if "j < sz" "j div d = i div d" for j
      using d bin [OF that(1)] that(2) same [OF m [OF that(1)]] by (simp add: has_sub)
    show ?thesis
    proof (rule addsI)
      show "(case bv_set f q (i mod d) os' of None \<Rightarrow> None
         | Some (rc, q, os) \<Rightarrow> Some (rc, Bitvec sz n d (ApSub (subs[i div d := Some q])), os)) =
         Some (rc, Bitvec sz n d (ApSub (subs[i div d := Some q'])), os'')" using r by simp
      show "bv_ok (Bitvec sz n d (ApSub (subs[i div d := Some q'])))" using ok q' by (rule sub_update_ok)
    next
      fix j assume j: "j < iSize (Bitvec sz n d (ApSub subs))" and *: "has (Bitvec sz n d (ApSub (subs[i div d := Some q']))) j"
      then show "j \<in> {i} \<or> has (Bitvec sz n d (ApSub subs)) j"
        using h [of j] h0 [of j] a [OF m, of j] eq [of j] by (auto split: if_splits)
    next
      fix j assume j: "rc = SQLITE_OK" "j < iSize (Bitvec sz n d (ApSub subs))" and *: "j \<in> {i} \<or> has (Bitvec sz n d (ApSub subs)) j"
      then show "has (Bitvec sz n d (ApSub (subs[i div d := Some q']))) j"
        using h [of j] h0 [of j] b [OF _ m, of j] by (auto split: if_splits)
    qed (use n os' in auto)
  qed
  have step: "bv_set (Suc f) (Bitvec sz n d (ApSub subs)) i os =
      (case (if subs ! (i div d) = None then sqlite3BitvecCreate d os else (subs ! (i div d), os)) of
             (None, os) \<Rightarrow> Some (SQLITE_NOMEM, Bitvec sz n d (ApSub subs), os)
           | (Some q, os) \<Rightarrow>
               (case bv_set f q (i mod d) os of None \<Rightarrow> None
                | Some (rc, q, os) \<Rightarrow> Some (rc, Bitvec sz n d (ApSub (subs[i div d := Some q])), os)))"
    using *(1,3) d bin [OF i] by (simp add: Let_def)
  show ?thesis
  proof (cases "subs ! (i div d)")
    case (Some q)
    then have "Some q \<in> set subs" using bin [OF i] by (metis nth_mem)
    then show ?thesis unfolding step using main [of q os] *(5) Some by simp
  next
    case None
    obtain c os' where c: "alloc_next os = (c, os')" by (cases "alloc_next os") auto
    show ?thesis
    proof (cases c)
      case True
      have dd: "d \<le> BITVEC_NBIT \<or> d + 124 < 2 ^ 32" using * d by auto
      have "os = [] \<Longrightarrow> os' = []" using c by auto
      then show ?thesis
        unfolding step using None c True main [of "Bitvec d 0 0 (bv_zeroed d 0)" os'] create_ok [OF dd]
        by (simp add: sqlite3BitvecCreate_def) (metis leD)
    next
      case False
      then have "os \<noteq> []" using c by auto
      then show ?thesis
        unfolding step using None c False ok by (auto simp: sqlite3BitvecCreate_def intro!: addsI)
    qed
  qed
qed

text \<open>The bits whose values a hash array holds.\<close>

definition bits_of :: "nat list \<Rightarrow> nat set" where
  "bits_of vs = {i. i + 1 \<in> set vs}"

lemma bits_of_Cons: "bits_of (v # vs) = (if v = 0 then bits_of vs else insert (v - 1) (bits_of vs))"
  by (auto simp: bits_of_def)

lemma bv_set_all_adds:
  assumes IH: "set_upto f"
  shows "bv_ok p \<Longrightarrow> iSize p = sz \<Longrightarrow> iDivisor p \<noteq> 0 \<Longrightarrow> 2 * bv_rank sz \<le> f \<Longrightarrow> \<forall>v \<in> set vs. v \<le> sz \<Longrightarrow>
    adds p S os (Some (rc, q, os')) \<Longrightarrow> adds p (S \<union> bits_of vs) os (bv_set_all (bv_set f) vs rc q os')"
proof (induction vs arbitrary: S rc q os')
  case (Cons v vs)
  show ?case
  proof (cases "v = 0")
    case True
    then show ?thesis using Cons.IH [OF Cons.prems(1-4) _ Cons.prems(6)] Cons.prems(5) by (simp add: bits_of_Cons)
  next
    case False
    from Cons.prems(6) have q: "bv_ok q" "iSize q = sz" "iDivisor q \<noteq> 0" and n: "os = [] \<Longrightarrow> rc = SQLITE_OK \<and> os' = []"
      and a: "\<And>j. j < sz \<Longrightarrow> has q j \<Longrightarrow> j \<in> S \<or> has p j"
      and b: "\<And>j. rc = SQLITE_OK \<Longrightarrow> j < sz \<Longrightarrow> j \<in> S \<or> has p j \<Longrightarrow> has q j"
      using Cons.prems(2,3) by (auto simp: adds_def)
    have "bv_need q \<le> f" "v - 1 < sz" using q Cons.prems(4,5) False by (auto simp: bv_need_def)
    then have "adds q {v - 1} os' (bv_set f q (v - 1) os')" using IH q unfolding set_upto_def by simp
    then obtain rc' q' os'' where r: "bv_set f q (v - 1) os' = Some (rc', q', os'')" and q': "bv_ok q'" "iSize q' = sz" "iDivisor q' \<noteq> 0"
      and n': "os' = [] \<Longrightarrow> rc' = SQLITE_OK \<and> os'' = []"
      and a': "\<And>j. j < sz \<Longrightarrow> has q' j \<Longrightarrow> j = v - 1 \<or> has q j"
      and b': "\<And>j. rc' = SQLITE_OK \<Longrightarrow> j < sz \<Longrightarrow> j = v - 1 \<or> has q j \<Longrightarrow> has q' j"
      using q(3) unfolding adds_def q(2) by blast
    have "adds p (insert (v - 1) S) os (Some (rc_or rc rc', q', os''))"
    proof (rule addsI [OF refl])
      fix j assume "j < iSize p" "has q' j"
      then show "j \<in> insert (v - 1) S \<or> has p j" using a [of j] a' [of j] Cons.prems(2) by blast
    next
      fix j assume "rc_or rc rc' = SQLITE_OK" "j < iSize p" "j \<in> insert (v - 1) S \<or> has p j"
      then show "has q' j" using b [of j] b' [of j] Cons.prems(2) by (auto simp: rc_or_def split: if_splits)
    qed (use q' n n' Cons.prems(2) in \<open>auto simp: rc_or_def\<close>)
    moreover have "insert (v - 1) S \<union> bits_of vs = S \<union> bits_of (v # vs)"
      using False by (simp add: bits_of_Cons)
    ultimately have "adds p (S \<union> bits_of (v # vs)) os (bv_set_all (bv_set f) vs (rc_or rc rc') q' os'')"
      using Cons.IH [OF Cons.prems(1-4), of "insert (v - 1) S"] Cons.prems(5) by (metis list.set_intros(2))
    then show ?thesis using r False by simp
  qed
qed (simp add: bits_of_def)

lemma fresh_sub:
  assumes "BITVEC_NBIT < sz" "sz + 124 < 2 ^ 32" "d = (sz + 124) mod 2 ^ 32 div BITVEC_NPTR"
  shows "bv_ok (Bitvec sz n d (bv_zeroed sz d))" and "i < sz \<Longrightarrow> \<not> has (Bitvec sz n d (bv_zeroed sz d)) i" and "d \<noteq> 0"
proof -
  have d: "d = (sz + 124) div 125" using assms by simp
  show "d \<noteq> 0" using d assms by simp
  then show "bv_ok (Bitvec sz n d (bv_zeroed sz d))"
    using assms(1,2) d by (auto simp: bv_zeroed_def intro!: bv_ok.sub)
  assume "i < sz"
  then show "\<not> has (Bitvec sz n d (bv_zeroed sz d)) i"
    using sub_index [OF assms(2,1) d, of i] assms(1) by (auto simp: bv_zeroed_def has_sub)
qed

lemma bv_set_rehash:
  assumes IH: "set_upto f" and h: "BITVEC_NBIT < sz" "sz + 124 < 2 ^ 32" "hash_ok n t" "\<forall>v \<in> set t. v \<le> sz"
    and d: "d = (sz + 124) mod 2 ^ 32 div BITVEC_NPTR" and i: "i < sz" and f: "2 * bv_rank sz \<le> f"
  shows "adds (Bitvec sz n 0 (AHash t)) {i} os
    (case bv_set f (Bitvec sz n d (bv_zeroed sz d)) i os of None \<Rightarrow> None
     | Some (rc, p, os) \<Rightarrow> bv_set_all (bv_set f) t rc p os)"
proof -
  let ?p = "Bitvec sz n d (bv_zeroed sz d)"
  note p = fresh_sub [OF h(1,2) d]
  have "adds ?p {i} os (bv_set f ?p i os)"
    using IH p f i unfolding set_upto_def by (simp add: bv_need_def)
  moreover then obtain rc q os' where r: "bv_set f ?p i os = Some (rc, q, os')" unfolding adds_def by blast
  ultimately have "adds ?p {i} os (Some (rc, q, os'))" by simp
  then have "adds ?p ({i} \<union> bits_of t) os (bv_set_all (bv_set f) t rc q os')"
    by (rule bv_set_all_adds [OF IH p(1) _ _ f h(4), rotated 2]) (use p(3) in simp_all)
  moreover have "(j \<in> {i} \<union> bits_of t \<or> has ?p j) = (j \<in> {i} \<or> has (Bitvec sz n 0 (AHash t)) j)"
    if "j < iSize ?p" for j
    using p(2) [of j] that has_hash [OF h(3,1), of j] by (auto simp: bits_of_def)
  ultimately have "adds (Bitvec sz n 0 (AHash t)) {i} os (bv_set_all (bv_set f) t rc q os')"
    by (elim adds_cong) simp_all
  then show ?thesis using r by simp
qed

lemma bv_set_hash:
  assumes IH: "set_upto f" and ok: "bv_ok (Bitvec sz n d (AHash t))" and i: "i < sz"
    and f: "2 * bv_rank sz \<le> f"
  shows "adds (Bitvec sz n d (AHash t)) {i} os (bv_set (Suc f) (Bitvec sz n d (AHash t)) i os)"
proof -
  from ok have h: "BITVEC_NBIT < sz" "sz + 124 < 2 ^ 32" "hash_ok n t" "\<forall>v \<in> set t. v \<le> sz" and d: "d = 0"
    by (auto elim: bv_ok.cases)
  obtain e where e: "e < BITVEC_NINT" "lp.stops t (i + 1) e" using h(3) by (rule hash_ok_stops)
  define r where "r = (\<lambda>h. if BITVEC_MXHASH \<le> n then
        let divisor = (sz + BITVEC_NPTR - 1) mod 2 ^ 32 div BITVEC_NPTR;
            p = Bitvec sz n divisor (bv_zeroed sz divisor) in
        (case bv_set f p i os of None \<Rightarrow> None
         | Some (rc, p, os) \<Rightarrow> bv_set_all (bv_set f) t rc p os)
      else Some (SQLITE_OK, Bitvec sz (n + 1) 0 (AHash (t[h := i + 1])), os))"
  have put: "adds (Bitvec sz n d (AHash t)) {i} os (Some (SQLITE_OK, Bitvec sz (n + 1) 0 (AHash (t[bv_seq (i + 1) e := i + 1])), os))"
    if n: "n < 124" and new: "i + 1 \<notin> set t"
  proof -
    note ins = hash_insert_ok [OF h(3) n _ new e(2)]
    have mem: "j + 1 \<in> set (t[bv_seq (i + 1) e := i + 1]) \<longleftrightarrow> j = i \<or> j + 1 \<in> set t" for j
      using ins(2) by auto
    have "\<forall>v \<in> set (t[bv_seq (i + 1) e := i + 1]). v \<le> sz"
      using set_update_subset_insert [of t "bv_seq (i + 1) e" "i + 1"] h(4) i by auto
    then have "bv_ok (Bitvec sz (n + 1) 0 (AHash (t[bv_seq (i + 1) e := i + 1])))"
      using h ins(1) by (intro bv_ok.hash) simp_all
    then show ?thesis
      using has_hash [OF h(3,1)] has_hash [OF ins(1) h(1)] mem d by (auto intro!: addsI)
  qed
  have re: "adds (Bitvec sz n d (AHash t)) {i} os (r (bv_seq (i + 1) e))" if "i + 1 \<notin> set t"
    using bv_set_rehash [OF IH h refl i f, of os] put [OF _ that] d unfolding r_def by (simp add: Let_def add.commute)
  show ?thesis
  proof (cases "t ! bv_seq (i + 1) 0 = 0")
    case True
    then have "\<not> 0 < e" using e(2) by (auto simp: lp_stops)
    then have e0: "e = 0" by simp
    then have new: "i + 1 \<notin> set t" using hash_stops_in [OF h(3) e(2)] True by simp
    have "bv_set (Suc f) (Bitvec sz n d (AHash t)) i os =
        (if n < 124 then Some (SQLITE_OK, Bitvec sz (n + 1) 0 (AHash (t[bv_seq (i + 1) 0 := i + 1])), os)
         else r (bv_seq (i + 1) 0))"
      using True h(1) d by (simp add: Let_def r_def bv_seq_0)
    then show ?thesis using put [OF _ new] re [OF new] e0 by simp
  next
    case False
    note probe = hash_probe_stops [OF e(2) _ _ _ False, of BITVEC_NINT]
    show ?thesis
    proof (cases "i + 1 \<in> set t")
      case True
      then have "bv_set (Suc f) (Bitvec sz n d (AHash t)) i os = Some (SQLITE_OK, Bitvec sz n d (AHash t), os)"
        using probe False h(1) d e(1) hash_stops_in [OF h(3) e(2)] by (simp add: Let_def bv_seq_0)
      then show ?thesis using True has_hash [OF h(3,1)] ok d by (auto intro!: addsI)
    next
      case new: False
      then have "bv_set (Suc f) (Bitvec sz n d (AHash t)) i os = r (bv_seq (i + 1) e)"
        using probe False h(1) d e(1) hash_stops_in [OF h(3) e(2)] by (simp add: Let_def r_def bv_seq_0)
      then show ?thesis using re [OF new] by simp
    qed
  qed
qed

lemma bv_set_upto: "set_upto f"
proof (induction f)
  case 0
  have "\<not> bv_need p \<le> 0" if "bv_ok p" for p
    using that by (cases rule: bv_ok.cases) (auto simp: bv_need_def bv_rank.simps [where sz = "iSize p"] bv_rank.simps [where sz = "_"])
  then show ?case unfolding set_upto_def by blast
next
  case (Suc f)
  show ?case
    unfolding set_upto_def
  proof (intro allI impI)
    fix p i os assume *: "bv_ok p" "i < iSize p" "bv_need p \<le> Suc f"
    show "adds p {i} os (bv_set (Suc f) p i os)"
      using *(1)
    proof (cases rule: bv_ok.cases)
      case (bitmap sz a n)
      then show ?thesis using bv_set_bitmap * by (simp del: bv_set.simps)
    next
      case (hash sz n t)
      then show ?thesis using bv_set_hash [OF Suc] * by (simp add: bv_need_def del: bv_set.simps)
    next
      case (sub sz subs d n)
      then have "0 < d" by simp
      then show ?thesis using bv_set_sub [OF Suc] * sub(1) by (simp add: bv_need_def del: bv_set.simps)
    qed
  qed
qed

lemma bv_set_adds: "bv_ok p \<Longrightarrow> 1 \<le> i \<Longrightarrow> i \<le> iSize p \<Longrightarrow> adds p {i - 1} os (sqlite3BitvecSet p i os)"
proof -
  assume *: "bv_ok p" "1 \<le> i" "i \<le> iSize p"
  have "bv_need p \<le> BITVEC_FUEL"
  proof -
    have "iSize p < 2 ^ 32" using *(1) by (cases rule: bv_ok.cases) auto
    then show ?thesis using bv_rank_bound [of "iSize p"] by (simp add: bv_need_def)
  qed
  then show ?thesis using bv_set_upto [of BITVEC_FUEL] * unfolding set_upto_def sqlite3BitvecSet_def by simp
qed
section \<open>Clearing a bit\<close>

lemma bv_clear_ok:
  "bv_ok p \<Longrightarrow> i < iSize p \<Longrightarrow> \<exists>p'. bv_clear p i = Some p' \<and> bv_ok p' \<and> iSize p' = iSize p \<and>
     (\<forall>j < iSize p. has p' j \<longleftrightarrow> j \<noteq> i \<and> has p j)"
proof (induction arbitrary: i rule: bv_ok.induct)
  case (bitmap sz a n)
  let ?b = "a[i div 8 := a ! (i div 8) AND NOT (push_bit (i mod 8) 1)]"
  have "has (Bitvec sz n 0 (ABitmap ?b)) j \<longleftrightarrow> j \<noteq> i \<and> has (Bitvec sz n 0 (ABitmap a)) j" if "j < sz" for j
  proof (cases "j div 8 = i div 8")
    case True
    then have "j = i \<longleftrightarrow> j mod 8 = i mod 8" by (metis div_mult_mod_eq)
    moreover have "bit (push_bit (i mod 8) (1::u8)) (j mod 8) \<longleftrightarrow> j mod 8 = i mod 8"
      by (rule bit_one_u8) simp
    moreover have "bit (NOT (push_bit (i mod 8) (1::u8))) (j mod 8) \<longleftrightarrow> \<not> bit (push_bit (i mod 8) (1::u8)) (j mod 8)"
      by (simp add: bit_not_iff)
    ultimately show ?thesis using bitmap True that by (auto simp: has_bitmap bit_and_iff)
  qed (use bitmap that in \<open>auto simp: has_bitmap\<close>)
  then show ?case using bitmap by (auto intro: bv_ok.intros)
next
  case (hash sz n t)
  let ?fs = "filter (\<lambda>v. v \<noteq> 0 \<and> v \<noteq> i + 1) t"
  have "?fs = filter (\<lambda>v. v \<noteq> i + 1) (filter (\<lambda>v. v \<noteq> 0) t)" by (simp add: conj_commute)
  then have "length ?fs \<le> n"
    using hash_nonzero_distinct(2) [OF hash(3)] by (metis length_filter_le)
  then have "0 + length ?fs < BITVEC_NINT" using hash(3) by (simp add: hash_ok_def)
  then obtain n' t' where r: "hash_rebuild t i 0 (replicate BITVEC_NINT 0) = Some (n', t')" and ok: "hash_ok n' t'"
    and s: "set t' - {0} = (set (replicate BITVEC_NINT 0) - {0}) \<union> (set t - {0, i + 1})"
    using hash_rebuild_ok [OF hash_empty _ _ hash_nonzero_distinct(1) [OF hash(3)], of i] by auto
  have mem: "j + 1 \<in> set t' \<longleftrightarrow> j \<noteq> i \<and> j + 1 \<in> set t" for j using s by auto
  have "\<forall>v \<in> set t'. v \<le> sz" using s hash(4) by (metis Diff_iff UnE empty_iff insertCI insertE le0 set_replicate_Suc numeral_eq_Suc)
  then have "bv_ok (Bitvec sz n' 0 (AHash t'))" using hash ok by (auto intro: bv_ok.hash)
  then show ?case using r hash ok mem by (auto simp: has_hash)
next
  case (sub sz subs d n)
  have d: "0 < d" and bin: "\<And>j. j < sz \<Longrightarrow> j div d < length subs" and m: "\<And>j. j < sz \<Longrightarrow> j mod d < d"
    using sub_index [OF sub(2,1,4)] sub by auto
  have i: "i < sz" using sub.prems by simp
  have eq: "j = i" if "j div d = i div d" "j mod d = i mod d" for j using that by (metis div_mult_mod_eq)
  have ok: "bv_ok (Bitvec sz n d (ApSub subs))" using sub by (auto intro!: bv_ok.sub)
  show ?case
  proof (cases "subs ! (i div d)")
    case None
    then have "\<not> has (Bitvec sz n d (ApSub subs)) i" using d bin [OF i] by (simp add: has_sub)
    then show ?thesis using None ok d bin [OF i] by auto
  next
    case (Some q)
    then have "Some q \<in> set subs" using bin [OF i] by (metis nth_mem)
    with sub.IH m [OF i] obtain q' where q': "bv_clear q (i mod d) = Some q'" "bv_ok q'" "iSize q' = d"
      and h: "\<And>j. j < d \<Longrightarrow> has q' j \<longleftrightarrow> j \<noteq> i mod d \<and> has q j" by (metis (no_types, lifting))
    have "has (Bitvec sz n d (ApSub (subs[i div d := Some q']))) j \<longleftrightarrow> j \<noteq> i \<and> has (Bitvec sz n d (ApSub subs)) j"
      if "j < sz" for j
      using d bin [OF that] bin [OF i] h [OF m [OF that]] Some eq [of j] by (auto simp: has_sub nth_list_update)
    then show ?thesis using q' d bin [OF i] Some sub_update_ok [OF ok q'(2,3)] by auto
  qed
qed

section \<open>The interface\<close>

lemma BitvecTest_ok: "bv_ok p \<Longrightarrow> sqlite3BitvecTest (Some p) i = Some (1 \<le> i \<and> i \<le> iSize p \<and> has p (i - 1))"
  using bv_test_has [of p "i - 1"] by (auto simp: sqlite3BitvecTest_def)

lemma BitvecSet_ok:
  assumes "bv_ok p" "1 \<le> i" "i \<le> iSize p"
  obtains rc p' os' where "sqlite3BitvecSet p i os = Some (rc, p', os')" "bv_ok p'" "iSize p' = iSize p"
    "os = [] \<Longrightarrow> rc = SQLITE_OK \<and> os' = []"
    "\<And>j. sqlite3BitvecTest (Some p') j = Some True \<Longrightarrow> j = i \<or> sqlite3BitvecTest (Some p) j = Some True"
    "\<And>j. rc = SQLITE_OK \<Longrightarrow> sqlite3BitvecTest (Some p') j = Some (j = i \<or> sqlite3BitvecTest (Some p) j = Some True)"
proof -
  from bv_set_adds [OF assms] obtain rc p' os' where r: "sqlite3BitvecSet p i os = Some (rc, p', os')"
    and p': "bv_ok p'" "iSize p' = iSize p" and n: "os = [] \<Longrightarrow> rc = SQLITE_OK \<and> os' = []"
    and a: "\<And>j. j < iSize p \<Longrightarrow> has p' j \<Longrightarrow> j \<in> {i - 1} \<or> has p j"
    and b: "\<And>j. rc = SQLITE_OK \<Longrightarrow> j < iSize p \<Longrightarrow> j \<in> {i - 1} \<or> has p j \<Longrightarrow> has p' j"
    by (rule addsE) blast
  show thesis
  proof (rule that [OF r p' n])
    fix j assume t: "sqlite3BitvecTest (Some p') j = Some True"
    then have "1 \<le> j" "j - 1 < iSize p" "has p' (j - 1)" using p' by (auto simp: BitvecTest_ok)
    then show "j = i \<or> sqlite3BitvecTest (Some p) j = Some True"
      using a [of "j - 1"] assms by (auto simp: BitvecTest_ok)
  next
    fix j assume "rc = SQLITE_OK"
    moreover have "1 \<le> j \<Longrightarrow> j \<le> iSize p \<Longrightarrow> j - 1 < iSize p \<and> (j - 1 = i - 1 \<longleftrightarrow> j = i)" using assms(2) by auto
    ultimately show "sqlite3BitvecTest (Some p') j = Some (j = i \<or> sqlite3BitvecTest (Some p) j = Some True)"
      using a [of "j - 1"] b [of "j - 1"] p' assms by (auto simp: BitvecTest_ok)
  qed
qed

lemma BitvecCreate_ok:
  assumes "sz \<le> BITVEC_NBIT \<or> sz + 124 < 2 ^ 32" and "sqlite3BitvecCreate sz os = (Some p, os')"
  shows "bv_ok p" and "iSize p = sz" and "sqlite3BitvecTest (Some p) i = Some False"
proof -
  have p: "p = Bitvec sz 0 0 (bv_zeroed sz 0)"
    using assms(2) by (auto simp: sqlite3BitvecCreate_def split: prod.splits if_splits)
  then show "bv_ok p" "iSize p = sz" using create_ok(1) [OF assms(1)] by simp_all
  then show "sqlite3BitvecTest (Some p) i = Some False"
    using create_ok(2) [OF assms(1), of "i - 1"] p by (auto simp: BitvecTest_ok)
qed

text \<open>A bounded set of page numbers whose insertion may fail.\<close>

locale page_set =
  fixes test :: "'v \<Rightarrow> nat \<Rightarrow> bool option"
    and add :: "'v \<Rightarrow> nat \<Rightarrow> outcomes \<Rightarrow> (rc \<times> 'v \<times> outcomes) option"
    and valid :: "'v \<Rightarrow> bool"
    and limit :: "'v \<Rightarrow> nat"
  assumes test_total: "valid v \<Longrightarrow> \<exists>b. test v i = Some b"
    and test_range: "valid v \<Longrightarrow> test v i = Some True \<Longrightarrow> i \<le> limit v"
    and add_law: "valid v \<Longrightarrow> 1 \<le> i \<Longrightarrow> i \<le> limit v \<Longrightarrow> \<exists>rc v' os'. add v i os = Some (rc, v', os') \<and>
        valid v' \<and> limit v' = limit v \<and> (os = [] \<longrightarrow> rc = SQLITE_OK \<and> os' = []) \<and>
        (\<forall>j. test v' j = Some True \<longrightarrow> j = i \<or> test v j = Some True) \<and>
        (rc = SQLITE_OK \<longrightarrow> (\<forall>j. test v' j = Some (j = i \<or> test v j = Some True)))"

interpretation bv: page_set "\<lambda>p. sqlite3BitvecTest (Some p)" sqlite3BitvecSet bv_ok iSize
proof
  fix v i os assume v: "bv_ok v" and i: "1 \<le> i" "i \<le> iSize v"
  show "\<exists>rc v' os'. sqlite3BitvecSet v i os = Some (rc, v', os') \<and> bv_ok v' \<and> iSize v' = iSize v \<and>
      (os = [] \<longrightarrow> rc = SQLITE_OK \<and> os' = []) \<and>
      (\<forall>j. sqlite3BitvecTest (Some v') j = Some True \<longrightarrow> j = i \<or> sqlite3BitvecTest (Some v) j = Some True) \<and>
      (rc = SQLITE_OK \<longrightarrow> (\<forall>j. sqlite3BitvecTest (Some v') j = Some (j = i \<or> sqlite3BitvecTest (Some v) j = Some True)))"
    by (rule BitvecSet_ok [OF v i, of os]) blast
qed (auto simp: BitvecTest_ok)

section \<open>Properties\<close>

text \<open>
  C2: Setting a bit of a valid vector (of any size up to \<open>2 ^ 32 - 125\<close>) returns: every
  probing loop ends and the recursion through bitmap, hash and sub-vectors is at most eight
  deep. The vector stays valid; if every allocation succeeds the result is
  \<^verbatim>\<open>SQLITE_OK\<close>; after \<^verbatim>\<open>SQLITE_OK\<close> exactly the bit \<open>i\<close> has been added, and after
  \<^verbatim>\<open>SQLITE_NOMEM\<close> nothing but \<open>i\<close> can have been.
\<close>

theorem BitvecSet_correct:
  assumes "bv_ok p" "1 \<le> i" "i \<le> sqlite3BitvecSize p"
  shows "\<exists>rc p' os'. sqlite3BitvecSet p i os = Some (rc, p', os') \<and> bv_ok p' \<and>
    sqlite3BitvecSize p' = sqlite3BitvecSize p \<and> (os = [] \<longrightarrow> rc = SQLITE_OK) \<and>
    (\<forall>j. sqlite3BitvecTest (Some p') j = Some True \<longrightarrow> j = i \<or> sqlite3BitvecTest (Some p) j = Some True) \<and>
    (rc = SQLITE_OK \<longrightarrow>
      (\<forall>j. sqlite3BitvecTest (Some p') j = Some (j = i \<or> sqlite3BitvecTest (Some p) j = Some True)))"
  using bv.add_law [OF assms [unfolded sqlite3BitvecSize_def], of os] unfolding sqlite3BitvecSize_def by blast

lemma BitvecSet_correct_witness:
  "\<exists>rc p' os'. sqlite3BitvecSet (Bitvec 9 0 0 (ABitmap (replicate 500 0))) 3 [] = Some (rc, p', os') \<and>
     sqlite3BitvecTest (Some p') 3 = Some True"
proof -
  have "bv_ok (Bitvec 9 0 0 (ABitmap (replicate 500 0)))" by (rule bv_ok.bitmap) simp_all
  moreover have "3 \<le> sqlite3BitvecSize (Bitvec 9 0 0 (ABitmap (replicate 500 0)))" by (simp add: sqlite3BitvecSize_def)
  ultimately show ?thesis
    using BitvecSet_correct [of "Bitvec 9 0 0 (ABitmap (replicate 500 0))" 3 "[]"] by auto
qed

text \<open>
  C35: Clearing a bit of a valid vector returns a valid vector of the same size in which
  exactly that bit is gone; in a hash the re-insertion of the other values loses none.
\<close>

theorem BitvecClear_correct:
  assumes "bv_ok p" "1 \<le> i" "i \<le> sqlite3BitvecSize p"
  shows "\<exists>p'. sqlite3BitvecClear p i = Some p' \<and> bv_ok p' \<and> sqlite3BitvecSize p' = sqlite3BitvecSize p \<and>
    (\<forall>j. sqlite3BitvecTest (Some p') j = Some (j \<noteq> i \<and> sqlite3BitvecTest (Some p) j = Some True))"
proof -
  have "i - 1 < iSize p" using assms(2,3) by (simp add: sqlite3BitvecSize_def)
  from bv_clear_ok [OF assms(1) this] obtain p' where "bv_clear p (i - 1) = Some p'" "bv_ok p'" "iSize p' = iSize p"
    and h: "\<And>j. j < iSize p \<Longrightarrow> has p' j \<longleftrightarrow> j \<noteq> i - 1 \<and> has p j" by blast
  moreover have "1 \<le> j \<Longrightarrow> j \<le> iSize p \<Longrightarrow> j - 1 < iSize p \<and> (j - 1 = i - 1 \<longleftrightarrow> j = i)" for j
    using assms(2) by auto
  ultimately show ?thesis
    using assms(1) by (auto simp: sqlite3BitvecClear_def sqlite3BitvecSize_def BitvecTest_ok)
qed

lemma BitvecClear_correct_witness:
  "\<exists>p'. sqlite3BitvecClear (Bitvec 5000 0 0 (AHash (replicate 125 0))) 4711 = Some p' \<and>
     sqlite3BitvecTest (Some p') 4711 = Some False"
proof -
  have "bv_ok (Bitvec 5000 0 0 (AHash (replicate 125 0)))"
    by (rule bv_ok.hash) (use hash_empty in simp_all)
  from BitvecClear_correct [OF this, of 4711] show ?thesis by (auto simp: sqlite3BitvecSize_def)
qed

text \<open>
  A created vector of any size up to \<open>2 ^ 32 - 125\<close> is valid and empty, and creation
  fails exactly when the allocation does.
\<close>

theorem BitvecCreate_correct:
  assumes "sz + 124 < 2 ^ 32"
  shows "case sqlite3BitvecCreate sz os of
      (None, os') \<Rightarrow> \<not> fst (alloc_next os)
    | (Some p, os') \<Rightarrow> fst (alloc_next os) \<and> bv_ok p \<and> sqlite3BitvecSize p = sz \<and>
        (\<forall>i. sqlite3BitvecTest (Some p) i = Some False)"
proof (cases "sqlite3BitvecCreate sz os")
  case (Pair r os')
  then show ?thesis
    using BitvecCreate_ok [of sz os _ os'] assms
    by (cases r) (auto simp: sqlite3BitvecSize_def sqlite3BitvecCreate_def split: prod.splits if_splits)
qed

lemma BitvecCreate_correct_witness:
  "\<exists>p. sqlite3BitvecCreate 7 [] = (Some p, []) \<and> bv_ok p"
  using BitvecCreate_correct [of 7 "[]"] by (simp add: sqlite3BitvecCreate_def)

end
