(* ===== verification/PageMarks.thy ===== *)
theory PageMarks
  imports Bitvec
begin

text \<open>
  The users of the bit vector: which savepoints still need the original content of a page
  (\<^verbatim>\<open>subjRequiresPage\<close> and \<^verbatim>\<open>addToSavepointBitvecs\<close> of \<^verbatim>\<open>pager.c\<close>), and which free-list leaves
  still have content to journal (\<^verbatim>\<open>btreeSetHasContent\<close> and \<^verbatim>\<open>btreeGetHasContent\<close> of \<^verbatim>\<open>btree.c\<close>).
\<close>

section \<open>Savepoints of the pager\<close>

text \<open>The two fields of \<^verbatim>\<open>PagerSavepoint\<close> these functions use; \<open>'v\<close> is the bit vector.\<close>

record 'v savepoint =
  nOrig :: nat
  pInSavepoint :: 'v

fun savepoints_require :: "('v \<Rightarrow> nat \<Rightarrow> bool option) \<Rightarrow> 'v savepoint list \<Rightarrow> nat \<Rightarrow> bool option" where
  "savepoints_require test [] pgno = Some False"
| "savepoints_require test (p # ps) pgno =
    (if pgno \<le> nOrig p then
       (case test (pInSavepoint p) pgno of None \<Rightarrow> None
        | Some b \<Rightarrow> if \<not> b then Some True else savepoints_require test ps pgno)
     else savepoints_require test ps pgno)"

fun savepoints_add :: "('v \<Rightarrow> nat \<Rightarrow> outcomes \<Rightarrow> (rc \<times> 'v \<times> outcomes) option) \<Rightarrow>
    'v savepoint list \<Rightarrow> nat \<Rightarrow> rc \<Rightarrow> outcomes \<Rightarrow> (rc \<times> 'v savepoint list \<times> outcomes) option" where
  "savepoints_add add [] pgno rc os = Some (rc, [], os)"
| "savepoints_add add (p # ps) pgno rc os =
    (if pgno \<le> nOrig p then
       (case add (pInSavepoint p) pgno os of None \<Rightarrow> None
        | Some (rc', v, os) \<Rightarrow>
            (case savepoints_add add ps pgno (rc_or rc rc') os of None \<Rightarrow> None
             | Some (rc, ps, os) \<Rightarrow> Some (rc, p\<lparr>pInSavepoint := v\<rparr> # ps, os)))
     else
       (case savepoints_add add ps pgno rc os of None \<Rightarrow> None
        | Some (rc, ps, os) \<Rightarrow> Some (rc, p # ps, os)))"

definition subjRequiresPage :: "bitvec savepoint list \<Rightarrow> nat \<Rightarrow> bool option" where
  "subjRequiresPage sps pgno = savepoints_require (\<lambda>p. sqlite3BitvecTest (Some p)) sps pgno"

definition addToSavepointBitvecs :: "bitvec savepoint list \<Rightarrow> nat \<Rightarrow> outcomes \<Rightarrow>
    (rc \<times> bitvec savepoint list \<times> outcomes) option" where
  "addToSavepointBitvecs sps pgno os = savepoints_add sqlite3BitvecSet sps pgno SQLITE_OK os"

section \<open>Content of free-list leaves\<close>

text \<open>
  \<^verbatim>\<open>pHasContent\<close> is created on first use with the page count the pager reports: \<open>pagecount\<close> is
  its result, a result code and a number of pages.
\<close>

definition btreeSetHasContent :: "rc \<times> nat \<Rightarrow> bitvec option \<Rightarrow> nat \<Rightarrow> outcomes \<Rightarrow> (rc \<times> bitvec option \<times> outcomes) option" where
  "btreeSetHasContent pagecount p pgno os =
    (case (case p of
             None \<Rightarrow>
               (if fst pagecount = SQLITE_OK then
                  (case sqlite3BitvecCreate (snd pagecount) os of
                     (None, os) \<Rightarrow> (SQLITE_NOMEM, None, os)
                   | (Some p, os) \<Rightarrow> (SQLITE_OK, Some p, os))
                else (fst pagecount, None, os))
           | Some p \<Rightarrow> (SQLITE_OK, Some p, os)) of
       (rc, None, os) \<Rightarrow> Some (rc, None, os)
     | (rc, Some p, os) \<Rightarrow>
         (if rc = SQLITE_OK \<and> pgno \<le> sqlite3BitvecSize p then
            (case sqlite3BitvecSet p pgno os of None \<Rightarrow> None
             | Some (rc, p, os) \<Rightarrow> Some (rc, Some p, os))
          else Some (rc, Some p, os)))"

definition btreeGetHasContent :: "bitvec option \<Rightarrow> nat \<Rightarrow> bool option" where
  "btreeGetHasContent p pgno =
    (case p of None \<Rightarrow> Some False
     | Some p \<Rightarrow> if sqlite3BitvecSize p < pgno then Some True else sqlite3BitvecTest (Some p) pgno)"

definition btreeClearHasContent :: "bitvec option \<Rightarrow> bitvec option" where
  "btreeClearHasContent p = None"

section \<open>The client of a page set\<close>

context page_set
begin

definition sps_valid :: "'v savepoint list \<Rightarrow> bool" where
  "sps_valid sps \<longleftrightarrow> (\<forall>p \<in> set sps. valid (pInSavepoint p) \<and> limit (pInSavepoint p) = nOrig p)"

lemma sps_valid_Cons: "sps_valid (p # ps) \<longleftrightarrow> valid (pInSavepoint p) \<and> limit (pInSavepoint p) = nOrig p \<and> sps_valid ps"
  by (auto simp: sps_valid_def)

lemma require_total:
  "sps_valid sps \<Longrightarrow> savepoints_require test sps pgno =
     Some (\<exists>p \<in> set sps. pgno \<le> nOrig p \<and> test (pInSavepoint p) pgno \<noteq> Some True)"
proof (induction sps)
  case (Cons p ps)
  then obtain b where "test (pInSavepoint p) pgno = Some b" using test_total by (auto simp: sps_valid_Cons)
  with Cons show ?case by (auto simp: sps_valid_Cons)
qed simp

definition marked :: "nat \<Rightarrow> 'v savepoint \<Rightarrow> 'v savepoint \<Rightarrow> bool" where
  "marked pgno p p' \<longleftrightarrow> (if pgno \<le> nOrig p then
     \<forall>j. test (pInSavepoint p') j = Some (j = pgno \<or> test (pInSavepoint p) j = Some True) else p' = p)"

lemma add_all:
  assumes "1 \<le> pgno"
  shows "sps_valid sps \<Longrightarrow> \<exists>rc' sps' os'. savepoints_add add sps pgno rc os = Some (rc', sps', os') \<and> sps_valid sps' \<and>
     map nOrig sps' = map nOrig sps \<and> (os = [] \<and> rc = SQLITE_OK \<longrightarrow> rc' = SQLITE_OK) \<and> (rc' = SQLITE_OK \<longrightarrow> rc = SQLITE_OK \<and>
       list_all2 (marked pgno) sps sps')"
proof (induction sps arbitrary: rc os)
  case (Cons p ps)
  then have v: "valid (pInSavepoint p)" "limit (pInSavepoint p) = nOrig p" "sps_valid ps" by (auto simp: sps_valid_Cons)
  show ?case
  proof (cases "pgno \<le> nOrig p")
    case True
    then obtain rc1 v' os1 where a: "add (pInSavepoint p) pgno os = Some (rc1, v', os1)" "valid v'" "limit v' = nOrig p"
      and n: "os = [] \<Longrightarrow> rc1 = SQLITE_OK \<and> os1 = []"
      and t: "rc1 = SQLITE_OK \<Longrightarrow> \<forall>j. test v' j = Some (j = pgno \<or> test (pInSavepoint p) j = Some True)"
      using add_law [OF v(1) assms, of os] v(2) by auto
    from Cons.IH [OF v(3), of "rc_or rc rc1" os1] obtain rc' sps' os' where
      r: "savepoints_add add ps pgno (rc_or rc rc1) os1 = Some (rc', sps', os')" "sps_valid sps'" "map nOrig sps' = map nOrig ps"
        "os1 = [] \<and> rc_or rc rc1 = SQLITE_OK \<Longrightarrow> rc' = SQLITE_OK"
        "rc' = SQLITE_OK \<Longrightarrow> rc_or rc rc1 = SQLITE_OK \<and> list_all2 (marked pgno) ps sps'" by blast
    then show ?thesis
      using True a n t by (simp add: sps_valid_Cons marked_def [of _ p]) (auto simp: rc_or_def split: if_splits)
  next
    case False
    with Cons.IH [OF v(3), of rc os] v show ?thesis by (auto simp: sps_valid_Cons marked_def [of _ p])
  qed
qed simp

lemma add_then_require:
  assumes "1 \<le> pgno" and sps: "sps_valid sps" and r: "savepoints_add add sps pgno SQLITE_OK os = Some (SQLITE_OK, sps', os')"
  shows "savepoints_require test sps' j = (if j = pgno then Some False else savepoints_require test sps j)"
proof -
  from add_all [OF assms(1) sps, of SQLITE_OK os] r have v: "sps_valid sps'" and m: "map nOrig sps' = map nOrig sps"
    and l: "list_all2 (marked pgno) sps sps'" by auto
  have "list_all2 (\<lambda>p p'. (j \<le> nOrig p' \<and> test (pInSavepoint p') j \<noteq> Some True) \<longleftrightarrow>
      j \<noteq> pgno \<and> j \<le> nOrig p \<and> test (pInSavepoint p) j \<noteq> Some True) sps sps'"
    using l m sps
  proof (induction rule: list_all2_induct)
    case (Cons p ps p' ps')
    then show ?case by (auto simp: sps_valid_Cons marked_def split: if_splits)
  qed simp
  then have "(\<exists>p \<in> set sps'. j \<le> nOrig p \<and> test (pInSavepoint p) j \<noteq> Some True) \<longleftrightarrow>
      j \<noteq> pgno \<and> (\<exists>p \<in> set sps. j \<le> nOrig p \<and> test (pInSavepoint p) j \<noteq> Some True)"
    by (induction rule: list_all2_induct) auto
  then show ?thesis by (simp add: require_total [OF v] require_total [OF sps])
qed

end

section \<open>Properties\<close>

text \<open>
  Marking a page in every savepoint that covers it returns; with memory for all
  insertions it succeeds, and after success no savepoint requires that page any more while
  the answer for every other page is unchanged: a page is written to the sub-journal once.
\<close>

theorem savepoints_marked:
  assumes "\<forall>p \<in> set sps. bv_ok (pInSavepoint p) \<and> sqlite3BitvecSize (pInSavepoint p) = nOrig p" "1 \<le> pgno"
  shows "\<exists>rc sps' os'. addToSavepointBitvecs sps pgno os = Some (rc, sps', os') \<and> (os = [] \<longrightarrow> rc = SQLITE_OK) \<and>
    (rc = SQLITE_OK \<longrightarrow> (\<forall>j. subjRequiresPage sps' j = (if j = pgno then Some False else subjRequiresPage sps j)))"
proof -
  have v: "bv.sps_valid sps" using assms(1) by (simp add: bv.sps_valid_def sqlite3BitvecSize_def)
  from bv.add_all [OF assms(2) v, of SQLITE_OK os] obtain rc sps' os' where
    "savepoints_add sqlite3BitvecSet sps pgno SQLITE_OK os = Some (rc, sps', os')" "os = [] \<longrightarrow> rc = SQLITE_OK" by auto
  then show ?thesis
    using bv.add_then_require [OF assms(2) v, of os]
    unfolding addToSavepointBitvecs_def subjRequiresPage_def by auto
qed

lemma savepoints_marked_witness:
  "\<exists>rc sps' os'. addToSavepointBitvecs [\<lparr>nOrig = 9, pInSavepoint = Bitvec 9 0 0 (ABitmap (replicate 500 0))\<rparr>] 3 [] =
      Some (rc, sps', os') \<and> subjRequiresPage sps' 3 = Some False"
proof -
  define v where "v = Bitvec 9 0 0 (ABitmap (replicate 500 0))"
  have "bv_ok v" unfolding v_def by (rule bv_ok.bitmap) simp_all
  moreover have "sqlite3BitvecSize v = 9" by (simp add: v_def sqlite3BitvecSize_def)
  ultimately have ok: "\<forall>p \<in> set [\<lparr>nOrig = 9, pInSavepoint = v\<rparr>].
      bv_ok (pInSavepoint p) \<and> sqlite3BitvecSize (pInSavepoint p) = nOrig p" by simp
  show ?thesis using savepoints_marked [OF ok, of 3 "[]"] unfolding v_def [symmetric] by auto
qed

lemma has_content_step:
  assumes v: "bv_ok v" and "1 \<le> pgno"
  shows "\<exists>rc v' os'. btreeSetHasContent pc (Some v) pgno os = Some (rc, Some v', os') \<and> bv_ok v' \<and>
    (rc = SQLITE_OK \<longrightarrow> btreeGetHasContent (Some v') pgno = Some True \<and>
      (\<forall>j. btreeGetHasContent (Some v) j = Some True \<longrightarrow> btreeGetHasContent (Some v') j = Some True))"
proof (cases "pgno \<le> iSize v")
  case True
  from bv.add_law [OF v assms(2) True, of os] obtain rc v' os' where
    "sqlite3BitvecSet v pgno os = Some (rc, v', os')" "bv_ok v'" "iSize v' = iSize v"
    and "rc = SQLITE_OK \<longrightarrow> (\<forall>j. sqlite3BitvecTest (Some v') j = Some (j = pgno \<or> sqlite3BitvecTest (Some v) j = Some True))"
    by (elim exE conjE)
  then show ?thesis
    using True by (auto simp: btreeSetHasContent_def btreeGetHasContent_def sqlite3BitvecSize_def)
next
  case False
  then show ?thesis using v by (auto simp: btreeSetHasContent_def btreeGetHasContent_def sqlite3BitvecSize_def)
qed

text \<open>
  \<^verbatim>\<open>btreeSetHasContent\<close> returns. Once it has succeeded for a page, \<^verbatim>\<open>btreeGetHasContent\<close> is
  true for that page and for every page it was true for before, until the end of the
  transaction clears the vector: the unjournalled reuse of a free-list leaf is never applied
  to a page that had content.
\<close>

theorem has_content_sticky:
  assumes "\<forall>v. p = Some v \<longrightarrow> bv_ok v" "n + 124 < 2 ^ 32" "1 \<le> pgno"
  shows "\<exists>rc p' os'. btreeSetHasContent (rc0, n) p pgno os = Some (rc, p', os') \<and> (\<forall>v. p' = Some v \<longrightarrow> bv_ok v) \<and>
    (rc = SQLITE_OK \<longrightarrow> btreeGetHasContent p' pgno = Some True \<and>
      (\<forall>j. btreeGetHasContent p j = Some True \<longrightarrow> btreeGetHasContent p' j = Some True)) \<and>
    (\<forall>j. btreeGetHasContent (btreeClearHasContent p') j = Some False)"
proof (cases p)
  case (Some v)
  then show ?thesis
    using has_content_step [of v pgno "(rc0, n)" os] assms
    by (auto simp: btreeClearHasContent_def btreeGetHasContent_def [of None])
next
  case None
  have g: "btreeGetHasContent None j = Some False" for j by (simp add: btreeGetHasContent_def)
  consider "rc0 \<noteq> SQLITE_OK" | os1 where "rc0 = SQLITE_OK" "sqlite3BitvecCreate n os = (None, os1)"
    | v os1 where "rc0 = SQLITE_OK" "sqlite3BitvecCreate n os = (Some v, os1)"
    by (metis option.exhaust surj_pair)
  then show ?thesis
  proof cases
    case 3
    then have v: "bv_ok v" using BitvecCreate_ok(1) assms(2) by blast
    have "btreeSetHasContent (rc0, n) None pgno os = btreeSetHasContent (rc0, n) (Some v) pgno os1"
      using 3 by (simp add: btreeSetHasContent_def)
    then show ?thesis
      using has_content_step [OF v assms(3), of "(rc0, n)" os1] None g by (auto simp: btreeClearHasContent_def)
  qed (use None g in \<open>auto simp: btreeSetHasContent_def btreeClearHasContent_def\<close>)
qed

lemma has_content_sticky_witness:
  "\<exists>rc p' os'. btreeSetHasContent (SQLITE_OK, 100) None 7 [] = Some (rc, p', os') \<and>
     btreeGetHasContent (btreeClearHasContent p') 7 = Some False"
  using has_content_sticky [of None 100 7 SQLITE_OK "[]"] by auto

end
