(* ===== verification/RecordFormat.thy ===== *)
theory RecordFormat
  imports Varint
begin

text \<open>
  The record format: serial types and values (\<^verbatim>\<open>sqlite3VdbeSerialType\<close>, \<^verbatim>\<open>sqlite3VdbeSerialPut\<close>,
  \<^verbatim>\<open>sqlite3VdbeSerialGet\<close> of \<^verbatim>\<open>vdbeaux.c\<close>), the opcode \<^verbatim>\<open>OP_MakeRecord\<close> of \<^verbatim>\<open>vdbe.c\<close> that packs
  registers into a record, and the functions that unpack a record, compare it with an
  unpacked key and read the rowid at its end.
\<close>

section \<open>Values\<close>

text \<open>
  A memory cell by its flags: \<^verbatim>\<open>MEM_Null\<close>, \<^verbatim>\<open>MEM_Int\<close> (the bits of \<^verbatim>\<open>u.i\<close>, read by \<open>sint\<close>),
  \<^verbatim>\<open>MEM_Real\<close> (the bits of \<^verbatim>\<open>r\<close>), \<^verbatim>\<open>MEM_Str\<close>, and \<^verbatim>\<open>MEM_Blob\<close> with the \<^verbatim>\<open>nZero\<close> of a blob that
  has the flag \<^verbatim>\<open>MEM_Zero\<close>, 0 for one that has not. All texts are in the encoding of the
  database.
\<close>

datatype mem = MNull | MInt u64 | MReal u64 | MStr "u8 list" | MBlob "u8 list" nat

definition sqlite3IsNaN :: "u64 \<Rightarrow> bool" where
  "sqlite3IsNaN x \<longleftrightarrow> 0x7ff0000000000000 < x AND 0x7fffffffffffffff"

section \<open>Serial types\<close>

definition MAX_6BYTE :: u64 where
  "MAX_6BYTE = push_bit 32 0x00008000 - 1"

text \<open>For the smallest integer \<open>-i\<close> wraps to itself, which is \<open>2 ^ 63\<close> as an unsigned number.\<close>

definition sqlite3VdbeSerialType :: "mem \<Rightarrow> nat \<Rightarrow> u32" where
  "sqlite3VdbeSerialType pMem file_format =
    (case pMem of
       MNull \<Rightarrow> 0
     | MInt i \<Rightarrow>
        let u = if sint i < 0 then - i else i in
        if 4 \<le> file_format \<and> i AND 1 = i then 8 + ucast i
        else if u \<le> 127 then 1
        else if u \<le> 32767 then 2
        else if u \<le> 8388607 then 3
        else if u \<le> 2147483647 then 4
        else if u \<le> MAX_6BYTE then 5
        else 6
     | MReal r \<Rightarrow> 7
     | MStr z \<Rightarrow> word_of_nat (length z * 2 + 12 + 1)
     | MBlob z nZero \<Rightarrow> word_of_nat ((length z + nZero) * 2 + 12))"

definition sqlite3VdbeSerialTypeLen :: "u32 \<Rightarrow> nat" where
  "sqlite3VdbeSerialTypeLen serial_type =
    (if 12 \<le> serial_type then unat ((serial_type - 12) div 2)
     else [0, 1, 2, 3, 4, 6, 8, 8, 0, 0, 0, 0] ! unat serial_type)"

section \<open>Serial values\<close>

text \<open>\<^verbatim>\<open>while( i-- )\<close>: the low byte of \<open>v\<close> goes to the last position that is left.\<close>

fun serial_put_bytes :: "nat \<Rightarrow> u64 \<Rightarrow> u8 list" where
  "serial_put_bytes 0 v = []"
| "serial_put_bytes (Suc i) v = serial_put_bytes i (drop_bit 8 v) @ [ucast (v AND 0xff)]"

text \<open>The bytes written into a buffer of \<open>nBuf\<close> bytes; their number is the value returned.\<close>

definition sqlite3VdbeSerialPut :: "nat \<Rightarrow> mem \<Rightarrow> nat \<Rightarrow> u8 list" where
  "sqlite3VdbeSerialPut nBuf pMem file_format =
    (let serial_type = sqlite3VdbeSerialType pMem file_format in
     if serial_type \<le> 7 \<and> 0 < serial_type then
       (case pMem of
          MReal r \<Rightarrow> serial_put_bytes (sqlite3VdbeSerialTypeLen serial_type) r
        | MInt i \<Rightarrow> serial_put_bytes (sqlite3VdbeSerialTypeLen serial_type) i
        | _ \<Rightarrow> [])
     else if 12 \<le> serial_type then
       (case pMem of
          MStr z \<Rightarrow> z
        | MBlob z nZero \<Rightarrow> z @ replicate (min (length z + nZero) nBuf - length z) 0
        | _ \<Rightarrow> [])
     else [])"

text \<open>\<^verbatim>\<open>(signed char)c\<close> and \<^verbatim>\<open>c\<close> promoted to \<^verbatim>\<open>int\<close>, and an \<^verbatim>\<open>int\<close> converted to 64 bits.\<close>

abbreviation schar :: "u8 \<Rightarrow> u32" where "schar c \<equiv> scast c"
abbreviation uchar :: "u8 \<Rightarrow> u32" where "uchar c \<equiv> ucast c"
abbreviation widen :: "u32 \<Rightarrow> u64" where "widen i \<equiv> scast i"

definition sqlite3VdbeSerialGet :: "bytes \<Rightarrow> u32 \<Rightarrow> mem \<times> nat" where
  "sqlite3VdbeSerialGet buf serial_type =
    (if serial_type = 10 \<or> serial_type = 11 \<or> serial_type = 0 then (MNull, 0)
     else if serial_type = 1 then (MInt (scast (buf 0)), 1)
     else if serial_type = 2 then (MInt (widen (push_bit 8 (schar (buf 0)) OR uchar (buf 1))), 2)
     else if serial_type = 3 then
       (MInt (widen (push_bit 16 (schar (buf 0)) OR push_bit 8 (uchar (buf 1)) OR uchar (buf 2))), 3)
     else if serial_type = 4 then
       (MInt (widen (push_bit 24 (uchar (buf 0)) OR push_bit 16 (uchar (buf 1)) OR push_bit 8 (uchar (buf 2))
          OR uchar (buf 3))), 4)
     else if serial_type = 5 then
       let x = widen (push_bit 8 (schar (buf 0)) OR uchar (buf 1));
           y = push_bit 24 (uchar (buf 2)) OR push_bit 16 (uchar (buf 3)) OR push_bit 8 (uchar (buf 4)) OR uchar (buf 5)
       in (MInt (push_bit 32 x OR ucast y), 6)
     else if serial_type = 6 \<or> serial_type = 7 then
       let x = widen (push_bit 24 (uchar (buf 0)) OR push_bit 16 (uchar (buf 1)) OR push_bit 8 (uchar (buf 2))
             OR uchar (buf 3));
           y = push_bit 24 (uchar (buf 4)) OR push_bit 16 (uchar (buf 5)) OR push_bit 8 (uchar (buf 6)) OR uchar (buf 7);
           x = push_bit 32 x OR ucast y
       in (if serial_type = 6 then MInt x else if sqlite3IsNaN x then MNull else MReal x, 8)
     else if serial_type = 8 \<or> serial_type = 9 then (MInt (ucast (serial_type - 8)), 0)
     else
       let len = unat ((serial_type - 12) div 2); z = map buf [0..<len]
       in (if serial_type AND 1 \<noteq> 0 then MStr z else MBlob z 0, len))"

section \<open>Packing a record\<close>

text \<open>
  Every \<^verbatim>\<open>sqlite3VdbeMemGrow\<close> takes an outcome: \<^verbatim>\<open>True\<close> when the buffer of the cell is large enough
  or its allocation succeeds. When it fails the cell becomes NULL.
\<close>

fun mem_bytes :: "mem \<Rightarrow> u8 list" where
  "mem_bytes (MStr z) = z"
| "mem_bytes (MBlob z nZero) = z"
| "mem_bytes m = []"

fun mem_nZero :: "mem \<Rightarrow> nat" where
  "mem_nZero (MBlob z nZero) = nZero"
| "mem_nZero m = 0"

definition sqlite3VdbeMemExpandBlob :: "mem \<Rightarrow> outcomes \<Rightarrow> rc \<times> mem \<times> outcomes" where
  "sqlite3VdbeMemExpandBlob pMem os =
    (if 0 < mem_nZero pMem then
       let (ok, os) = alloc_next os in
       if \<not> ok then (SQLITE_NOMEM, MNull, os)
       else (SQLITE_OK, MBlob (mem_bytes pMem @ replicate (mem_nZero pMem) 0) 0, os)
     else (SQLITE_OK, pMem, os))"

text \<open>
  The first loop of \<^verbatim>\<open>OP_MakeRecord\<close>, for registers without an affinity string, in two parts. A blob
  with a prefix and a zero-filled tail is expanded first; the code does not look at the result,
  so a register whose buffer cannot grow is packed as the NULL it has become. Then the sizes of
  data and header, and the zero bytes at the end that need not be stored.
\<close>

fun record_expand :: "mem list \<Rightarrow> outcomes \<Rightarrow> mem list \<times> outcomes" where
  "record_expand [] os = ([], os)"
| "record_expand (pRec # recs) os =
    (let (pRec, os) =
           if 0 < mem_nZero pRec \<and> 0 < length (mem_bytes pRec)
           then (case sqlite3VdbeMemExpandBlob pRec os of (rc, pRec, os) \<Rightarrow> (pRec, os))
           else (pRec, os);
         (recs, os) = record_expand recs os
     in (pRec # recs, os))"

fun record_sizes :: "nat \<Rightarrow> mem list \<Rightarrow> nat \<times> nat \<times> nat \<Rightarrow> nat \<times> nat \<times> nat" where
  "record_sizes file_format [] (nData, nHdr, nZero) = (nData, nHdr, nZero)"
| "record_sizes file_format (pRec # recs) (nData, nHdr, nZero) =
    (let serial_type = sqlite3VdbeSerialType pRec file_format;
         len = sqlite3VdbeSerialTypeLen serial_type
     in record_sizes file_format recs
          (nData + len, nHdr + sqlite3VarintLen (ucast serial_type),
           if 0 < mem_nZero pRec then nZero + mem_nZero pRec else if len \<noteq> 0 then 0 else nZero))"

text \<open>The header size includes the varint that stores it.\<close>

definition record_header :: "nat \<Rightarrow> nat" where
  "record_header nHdr =
    (let nVarint = sqlite3VarintLen (word_of_nat nHdr); nHdr = nHdr + nVarint
     in if nVarint < sqlite3VarintLen (word_of_nat nHdr) then nHdr + 1 else nHdr)"

text \<open>The last loop: each value goes to the \<open>nByte - i\<close> bytes that are left.\<close>

fun record_data :: "nat \<Rightarrow> nat \<Rightarrow> mem list \<Rightarrow> u8 list \<Rightarrow> u8 list" where
  "record_data file_format nByte [] out = out"
| "record_data file_format nByte (pRec # recs) out =
    record_data file_format nByte recs (out @ sqlite3VdbeSerialPut (nByte - length out) pRec file_format)"

text \<open>
  The record, with the number of zero bytes not stored, or the error code: \<^verbatim>\<open>SQLITE_TOOBIG\<close>
  above the limit, \<^verbatim>\<open>SQLITE_NOMEM\<close> if the output register cannot grow.
\<close>

definition OP_MakeRecord :: "nat \<Rightarrow> nat \<Rightarrow> mem list \<Rightarrow> outcomes \<Rightarrow> rc + mem" where
  "OP_MakeRecord file_format limit regs os =
    (let (regs, os) = record_expand regs os;
         (nData, nHdr, nZero) = record_sizes file_format regs (0, 0, 0);
         nHdr = record_header nHdr;
         nByte = nHdr + nData - nZero
     in if limit < nByte then Inl SQLITE_TOOBIG
        else if \<not> fst (alloc_next os) then Inl SQLITE_NOMEM
        else
          let zNewRecord = putVarint32 (word_of_nat nHdr) @
                concat (map (\<lambda>pRec. putVarint32 (sqlite3VdbeSerialType pRec file_format)) regs)
          in Inr (MBlob (record_data file_format nByte regs zNewRecord) nZero))"

section \<open>Unpacking a record\<close>

text \<open>
  The loop of \<^verbatim>\<open>sqlite3VdbeRecordUnpack\<close> over at most \<open>nField\<close> fields. \<^verbatim>\<open>d\<close> is an \<^verbatim>\<open>int\<close>; a read at
  a negative offset is \<open>None\<close>.
\<close>

fun unpack_loop :: "nat \<Rightarrow> bytes \<Rightarrow> int \<Rightarrow> nat \<Rightarrow> nat \<Rightarrow> int \<Rightarrow> mem list option" where
  "unpack_loop 0 aKey nKey szHdr idx d = Some []"
| "unpack_loop (Suc nField) aKey nKey szHdr idx d =
    (if idx < szHdr then
       let (serial_type, n) = getVarint32 (\<lambda>i. aKey (idx + i)) in
       if nKey \<le> d \<and> 0 < sqlite3VdbeSerialTypeLen serial_type then Some []
       else if d < 0 \<and> 0 < sqlite3VdbeSerialTypeLen serial_type then None
       else
         let (pMem, len) = sqlite3VdbeSerialGet (\<lambda>i. aKey (nat d + i)) serial_type in
         map_option ((#) pMem) (unpack_loop nField aKey nKey szHdr (idx + n) (d + int len))
     else Some [])"

text \<open>\<open>None\<close> inside if the record structure cannot be allocated; \<open>szSpace\<close> tells whether it needs to be.\<close>

definition sqlite3VdbeRecordUnpack :: "nat \<Rightarrow> int \<Rightarrow> bytes \<Rightarrow> bool \<Rightarrow> outcomes \<Rightarrow> (mem list option \<times> outcomes) option" where
  "sqlite3VdbeRecordUnpack nField nKey aKey space_small os =
    (let (ok, os) = if space_small then alloc_next os else (True, os) in
     if \<not> ok then Some (None, os)
     else
       let (szHdr, idx) = getVarint32 aKey in
       map_option (\<lambda>ms. (Some ms, os)) (unpack_loop (nField + 1) aKey nKey (unat szHdr) idx (sint szHdr)))"

section \<open>Comparing values and records\<close>

text \<open>
  The C conversion of an integer to \<^verbatim>\<open>double\<close> (round to nearest, ties to even) and the comparison
  of doubles, on their bits.
\<close>

fun bit_length :: "nat \<Rightarrow> nat" where
  "bit_length n = (if n = 0 then 0 else Suc (bit_length (n div 2)))"

declare bit_length.simps [simp del]

definition round_half_even :: "nat \<Rightarrow> nat \<Rightarrow> nat" where
  "round_half_even m k =
    (let q = m div 2 ^ k; r = m mod 2 ^ k in
     if 2 * r > 2 ^ k \<or> (2 * r = 2 ^ k \<and> odd q) then q + 1 else q)"

definition double_of_i64 :: "u64 \<Rightarrow> u64" where
  "double_of_i64 i =
    (let m = nat \<bar>sint i\<bar>; n = bit_length m;
         f = if n \<le> 53 then m * 2 ^ (53 - n) else round_half_even m (n - 53)
     in if m = 0 then 0
        else (if sint i < 0 then push_bit 63 1 else 0) OR word_of_nat ((n + 1021) * 2 ^ 52 + f))"

definition double_key :: "u64 \<Rightarrow> int" where
  "double_key x = (if bit x 63 then - uint (x AND 0x7fffffffffffffff) else uint x)"

definition double_less :: "u64 \<Rightarrow> u64 \<Rightarrow> bool" where
  "double_less x y \<longleftrightarrow> \<not> sqlite3IsNaN x \<and> \<not> sqlite3IsNaN y \<and> double_key x < double_key y"

fun is_number :: "mem \<Rightarrow> bool" where
  "is_number (MInt i) = True"
| "is_number (MReal r) = True"
| "is_number m = False"

fun mem_real :: "mem \<Rightarrow> u64" where
  "mem_real (MInt i) = double_of_i64 i"
| "mem_real (MReal r) = r"
| "mem_real m = 0"

text \<open>\<^verbatim>\<open>memcmp\<close> over the shorter length, then the difference of the lengths.\<close>

fun memcmp_bytes :: "u8 list \<Rightarrow> u8 list \<Rightarrow> int" where
  "memcmp_bytes (x # xs) (y # ys) = (if x \<noteq> y then int (unat x) - int (unat y) else memcmp_bytes xs ys)"
| "memcmp_bytes xs ys = int (length xs) - int (length ys)"

text \<open>
  \<open>pColl\<close> is the comparison function of the collating sequence, or \<open>None\<close> for a null pointer. Where
  the sequence has another encoding, it is the function after a conversion of both texts for
  which there was memory.
\<close>

type_synonym collseq = "(u8 list \<Rightarrow> u8 list \<Rightarrow> int) option"

definition sqlite3MemCompare :: "mem \<Rightarrow> mem \<Rightarrow> collseq \<Rightarrow> int" where
  "sqlite3MemCompare pMem1 pMem2 pColl =
    (if pMem1 = MNull \<or> pMem2 = MNull then of_bool (pMem2 = MNull) - of_bool (pMem1 = MNull)
     else if is_number pMem1 \<or> is_number pMem2 then
       if \<not> is_number pMem1 then 1
       else if \<not> is_number pMem2 then - 1
       else
         (case (pMem1, pMem2) of
            (MInt i1, MInt i2) \<Rightarrow> if sint i1 < sint i2 then - 1 else if sint i2 < sint i1 then 1 else 0
          | _ \<Rightarrow> if double_less (mem_real pMem1) (mem_real pMem2) then - 1
                 else if double_less (mem_real pMem2) (mem_real pMem1) then 1 else 0)
     else
       (case (pMem1, pMem2) of
          (MStr z1, MStr z2) \<Rightarrow> (case pColl of Some xCmp \<Rightarrow> xCmp z1 z2 | None \<Rightarrow> memcmp_bytes z1 z2)
        | (MBlob _ _, MStr _) \<Rightarrow> 1
        | (MStr _, MBlob _ _) \<Rightarrow> - 1
        | _ \<Rightarrow> memcmp_bytes (mem_bytes pMem1) (mem_bytes pMem2)))"

text \<open>\<^verbatim>\<open>f2&MEM_Null\<close> is 1 if the flag is set. The fields of \<^verbatim>\<open>KeyInfo\<close> and \<^verbatim>\<open>UnpackedRecord\<close> the comparison uses:\<close>

record keyinfo =
  aColl :: "collseq list"
  aSortOrder :: "bool list"

record unpacked =
  pKeyInfo :: keyinfo
  aMem :: "mem list"
  INCRKEY :: bool
  IGNORE_ROWID :: bool
  PREFIX_MATCH :: bool

text \<open>The loop; the result is the comparison, \<open>i\<close>, and whether fields of the left key are left.\<close>

fun compare_loop :: "keyinfo \<Rightarrow> bytes \<Rightarrow> int \<Rightarrow> nat \<Rightarrow> nat \<Rightarrow> int \<Rightarrow> nat \<Rightarrow> mem list \<Rightarrow> (int \<times> nat \<times> bool) option" where
  "compare_loop info aKey1 nKey1 szHdr1 idx1 d1 i [] = Some (0, i, idx1 < szHdr1)"
| "compare_loop info aKey1 nKey1 szHdr1 idx1 d1 i (m # ms) =
    (if idx1 < szHdr1 then
       let (serial_type1, n) = getVarint32 (\<lambda>j. aKey1 (idx1 + j)) in
       if nKey1 \<le> d1 \<and> 0 < sqlite3VdbeSerialTypeLen serial_type1 then Some (0, i, idx1 + n < szHdr1)
       else if d1 < 0 \<and> 0 < sqlite3VdbeSerialTypeLen serial_type1 then None
       else
         let (mem1, len) = sqlite3VdbeSerialGet (\<lambda>j. aKey1 (nat d1 + j)) serial_type1;
             rc = sqlite3MemCompare mem1 m (if i < length (aColl info) then aColl info ! i else None)
         in if rc \<noteq> 0 then Some (rc, i, idx1 + n < szHdr1)
            else compare_loop info aKey1 nKey1 szHdr1 (idx1 + n) (d1 + int len) (i + 1) ms
     else Some (0, i, False))"

text \<open>\<^verbatim>\<open>aSortOrder\<close> is as long as \<^verbatim>\<open>aColl\<close>, or empty for the null pointer.\<close>

definition sqlite3VdbeRecordCompare :: "int \<Rightarrow> bytes \<Rightarrow> unpacked \<Rightarrow> int option" where
  "sqlite3VdbeRecordCompare nKey1 aKey1 pPKey2 =
    (let (szHdr1, idx1) = getVarint32 aKey1;
         info = pKeyInfo pPKey2;
         szHdr = if IGNORE_ROWID pPKey2 then szHdr1 - 1 else szHdr1
     in case compare_loop info aKey1 nKey1 (unat szHdr) idx1 (sint szHdr1) 0 (aMem pPKey2) of
          None \<Rightarrow> None
        | Some (rc, i, left) \<Rightarrow>
            Some (if rc = 0 then (if INCRKEY pPKey2 then - 1 else if PREFIX_MATCH pPKey2 then 0 else if left then 1 else 0)
                  else if aSortOrder info \<noteq> [] \<and> i < length (aColl info) \<and> aSortOrder info ! i then - rc
                  else rc))"

text \<open>
  \<^verbatim>\<open>sqlite3VdbeIdxRowid\<close> on the content \<open>z\<close> of the index entry, after it has been read from the
  b-tree: the rowid, an error code, or \<open>None\<close> for a read outside the entry. The varints are read
  with the zero bytes that \<^verbatim>\<open>sqlite3VdbeMemFromBtree\<close> puts behind the content.
\<close>

definition idx_rowid :: "nat \<Rightarrow> bytes \<Rightarrow> (rc + u64) option" where
  "idx_rowid n p =
    (let szHdr = fst (getVarint32 p)
     in if szHdr < 2 \<or> int n < sint szHdr then Some (Inl SQLITE_CORRUPT)
        else if n \<le> unat (szHdr - 1) then None
        else
          let typeRowid = fst (getVarint32 (\<lambda>i. p (unat (szHdr - 1) + i))) in
          if typeRowid < 1 \<or> 9 < typeRowid \<or> typeRowid = 7 then Some (Inl SQLITE_CORRUPT)
          else
            let lenRowid = sqlite3VdbeSerialTypeLen typeRowid in
            if word_of_nat n - word_of_nat lenRowid < szHdr then Some (Inl SQLITE_CORRUPT)
            else if n < lenRowid then None
            else
              (case fst (sqlite3VdbeSerialGet (\<lambda>i. p (n - lenRowid + i)) typeRowid) of
                 MInt i \<Rightarrow> Some (Inr i)
               | _ \<Rightarrow> Some (Inr 0)))"

definition sqlite3VdbeIdxRowid :: "u8 list \<Rightarrow> (rc + u64) option" where
  "sqlite3VdbeIdxRowid z =
    (if length z = 0 \<or> 0x7fffffff < length z then Some (Inl SQLITE_CORRUPT)
     else idx_rowid (length z) (\<lambda>i. if i < length z then z ! i else 0))"


section \<open>Lengths\<close>

lemma SerialTypeLen_simps [simp]:
  "sqlite3VdbeSerialTypeLen 0 = 0" "sqlite3VdbeSerialTypeLen 1 = 1" "sqlite3VdbeSerialTypeLen 2 = 2"
  "sqlite3VdbeSerialTypeLen 3 = 3" "sqlite3VdbeSerialTypeLen 4 = 4" "sqlite3VdbeSerialTypeLen 5 = 6"
  "sqlite3VdbeSerialTypeLen 6 = 8" "sqlite3VdbeSerialTypeLen 7 = 8" "sqlite3VdbeSerialTypeLen 8 = 0"
  "sqlite3VdbeSerialTypeLen 9 = 0"
  by (simp_all add: sqlite3VdbeSerialTypeLen_def word_le_nat_alt)

section \<open>Serial values read back\<close>

lemma scast_ucast_small:
  fixes v :: u64
  assumes "LENGTH('k) \<le> 64" "- (2 ^ (LENGTH('k) - 1)) \<le> sint v" "sint v < 2 ^ (LENGTH('k) - 1)"
  shows "scast (ucast v :: 'k::len word) = v"
proof -
  have "sint (ucast v :: 'k word) = signed_take_bit (LENGTH('k) - 1) (uint v)"
    by (simp add: unsigned_ucast_eq sint_uint signed_take_bit_take_bit unsigned_take_bit_eq)
  also have "\<dots> = signed_take_bit (LENGTH('k) - 1) (sint v)"
    using assms(1) by (simp add: sint_uint signed_take_bit_signed_take_bit min_absorb1 diff_le_mono)
  also have "\<dots> = sint v"
    using assms(2,3) by (simp add: signed_take_bit_int_eq_self)
  finally have "(word_of_int (sint (ucast v :: 'k word)) :: u64) = word_of_int (sint v)" by (rule arg_cong)
  then show ?thesis by (simp only: scast_eq [symmetric] scast_id)
qed

lemmas sign_rules = bit_rules bit_word_scast_iff

lemma get_word16: "scast (push_bit 8 (scast (ucast (drop_bit 8 v) :: u8) :: u32) OR ucast (ucast v :: u8)) = (scast (ucast (v::u64) :: 16 word) :: u64)"
  by (rule u64_eqI, simp only: each_bit, simp add: sign_rules)

lemma get_word24: "scast (push_bit 16 (scast (ucast (drop_bit 16 v) :: u8) :: u32) OR push_bit 8 (ucast (ucast (drop_bit 8 v) :: u8)) OR ucast (ucast v :: u8)) = (scast (ucast (v::u64) :: 24 word) :: u64)"
  by (rule u64_eqI, simp only: each_bit, simp add: sign_rules)

lemma get_word32: "scast (push_bit 24 (ucast (ucast (drop_bit 24 v) :: u8) :: u32) OR push_bit 16 (ucast (ucast (drop_bit 16 v) :: u8)) OR push_bit 8 (ucast (ucast (drop_bit 8 v) :: u8)) OR ucast (ucast v :: u8)) = (scast (ucast (v::u64) :: 32 word) :: u64)"
  by (rule u64_eqI, simp only: each_bit, simp add: sign_rules)

lemma get_low32: "(push_bit 24 (ucast (ucast (drop_bit 24 v) :: u8) :: u32) OR push_bit 16 (ucast (ucast (drop_bit 16 v) :: u8)) OR push_bit 8 (ucast (ucast (drop_bit 8 v) :: u8)) OR ucast (ucast v :: u8)) = ucast (v::u64)"
  by (rule u32_eqI, simp only: each_bit, simp add: sign_rules)

lemma get_word48: "push_bit 32 (scast (ucast (drop_bit 32 v) :: 16 word) :: u64) OR ucast (ucast v :: u32) = (scast (ucast (v::u64) :: 48 word) :: u64)"
  by (rule u64_eqI, simp only: each_bit, simp add: sign_rules)

lemma get_word64: "push_bit 32 (scast (ucast (drop_bit 32 v) :: u32) :: u64) OR ucast (ucast v :: u32) = (v::u64)"
  by (rule u64_eqI, simp only: each_bit, simp add: sign_rules)

lemma serial_put_length [simp]: "length (serial_put_bytes k v) = k"
  by (induction k arbitrary: v) auto

lemma serial_put_nth: "i < k \<Longrightarrow> serial_put_bytes k v ! i = ucast (drop_bit (8 * (k - Suc i)) v)"
proof (induction k arbitrary: v)
  case (Suc k)
  have "ucast (v AND 0xff) = (ucast v :: u8)"
    by (rule u8_eqI, simp only: each_bit, simp add: bit_rules)
  moreover have "8 * (k - i) = 8 + 8 * (k - Suc i)" if "i < k" using that by simp
  ultimately show ?case using Suc by (auto simp: nth_append less_Suc_eq add.commute)
qed simp

lemma put_get_byte: "starts_with buf (serial_put_bytes k v) \<Longrightarrow> i < k \<Longrightarrow> buf i = ucast (drop_bit (8 * (k - Suc i)) v)"
  by (simp add: starts_withD serial_put_nth)

lemma serial_small:
  assumes "(if sint v < 0 then - v else v) \<le> (word_of_nat c :: u64)" "c < 2 ^ 64"
  shows "\<bar>sint v\<bar> \<le> int c"
proof -
  have "uint (word_of_nat c :: u64) = int c" using assms(2) by (simp add: unsigned_of_nat take_bit_nat_eq_self)
  then show ?thesis using assms(1) abs_word [of v] by (simp only: word_le_def)
qed

lemma MAX_6BYTE_nat: "MAX_6BYTE = word_of_nat 140737488355327"
  by (simp add: MAX_6BYTE_def push_bit_eq_mult)

definition fits :: "nat \<Rightarrow> u64 \<Rightarrow> bool" where
  "fits k v \<longleftrightarrow> - (2 ^ k) \<le> sint v \<and> sint v < 2 ^ k"

lemma fitsI: "(if sint v < 0 then - v else v) \<le> word_of_nat c \<Longrightarrow> c < 2 ^ k \<Longrightarrow> k < 64 \<Longrightarrow> fits k v"
proof -
  assume c: "(if sint v < 0 then - v else v) \<le> word_of_nat c" "c < 2 ^ k" "k < 64"
  have "(2::nat) ^ k < 2 ^ 64" using c(3) by (intro power_strict_increasing) simp_all
  then have "\<bar>sint v\<bar> \<le> int c" using c by (intro serial_small) linarith+
  moreover have "int c < 2 ^ k" using c(2) by (metis of_nat_less_iff of_nat_numeral of_nat_power)
  ultimately show ?thesis unfolding fits_def by linarith
qed

lemma serial_int_cases:
  obtains "sqlite3VdbeSerialType (MInt v) file_format = 8 + ucast v" "v = 0 \<or> v = 1"
  | "sqlite3VdbeSerialType (MInt v) file_format = 1" "fits 7 v"
  | "sqlite3VdbeSerialType (MInt v) file_format = 2" "fits 15 v"
  | "sqlite3VdbeSerialType (MInt v) file_format = 3" "fits 23 v"
  | "sqlite3VdbeSerialType (MInt v) file_format = 4" "fits 31 v"
  | "sqlite3VdbeSerialType (MInt v) file_format = 5" "fits 47 v"
  | "sqlite3VdbeSerialType (MInt v) file_format = 6"
proof -
  let ?u = "if sint v < 0 then - v else v" and ?t = "sqlite3VdbeSerialType (MInt v) file_format"
  have "v AND 1 = (if bit v 0 then 1 else 0)" by (rule bit_word_eqI) (auto simp: bit_simps, metis gr0I)
  then have c: "v AND 1 = v \<Longrightarrow> v = 0 \<or> v = 1" by (metis (full_types))
  have f: "?u \<le> 127 \<Longrightarrow> fits 7 v" "?u \<le> 32767 \<Longrightarrow> fits 15 v" "?u \<le> 8388607 \<Longrightarrow> fits 23 v"
    "?u \<le> 2147483647 \<Longrightarrow> fits 31 v" "?u \<le> MAX_6BYTE \<Longrightarrow> fits 47 v"
    using fitsI [of v 127 7] fitsI [of v 32767 15] fitsI [of v 8388607 23] fitsI [of v 2147483647 31]
      fitsI [of v 140737488355327 47] by (simp_all add: MAX_6BYTE_nat)
  define Q where "Q t \<longleftrightarrow> t = 8 + ucast v \<and> (v = 0 \<or> v = 1) \<or> t = 1 \<and> fits 7 v \<or> t = 2 \<and> fits 15 v
      \<or> t = 3 \<and> fits 23 v \<or> t = 4 \<and> fits 31 v \<or> t = 5 \<and> fits 47 v \<or> t = (6::u32)" for t
  have q: "Q x \<Longrightarrow> Q y \<Longrightarrow> Q (if b then x else y)" "(b \<Longrightarrow> Q x) \<Longrightarrow> Q y \<Longrightarrow> Q (if b then x else y)" for b x y by simp_all
  have "Q ?t"
    unfolding sqlite3VdbeSerialType_def Let_def mem.case by (intro q(2)) (use c f in \<open>simp_all only: Q_def, blast+\<close>)
  then show ?thesis using that unfolding Q_def by blast
qed

lemma fits_scast: "LENGTH('k) \<le> 64 \<Longrightarrow> fits (LENGTH('k) - 1) v \<Longrightarrow> scast (ucast v :: 'k::len word) = v"
  by (simp add: fits_def scast_ucast_small)

lemma serial_get_8:
  assumes "starts_with buf (serial_put_bytes 8 v)"
  shows "push_bit 32 (widen (push_bit 24 (uchar (buf 0)) OR push_bit 16 (uchar (buf 1)) OR push_bit 8 (uchar (buf 2)) OR uchar (buf 3))) OR
    ucast (push_bit 24 (uchar (buf 4)) OR push_bit 16 (uchar (buf 5)) OR push_bit 8 (uchar (buf 6)) OR uchar (buf 7)) = v"
proof -
  have b: "buf 0 = ucast (drop_bit 56 v)" "buf 1 = ucast (drop_bit 48 v)" "buf 2 = ucast (drop_bit 40 v)" "buf 3 = ucast (drop_bit 32 v)"
    "buf 4 = ucast (drop_bit 24 v)" "buf 5 = ucast (drop_bit 16 v)" "buf 6 = ucast (drop_bit 8 v)" "buf 7 = ucast v"
    by (simp_all add: put_get_byte [OF assms])
  show ?thesis unfolding b using get_low32 [of "drop_bit 32 v"] get_low32 [of v] get_word64 [of v] by simp
qed

lemma serial_get_int:
  assumes "starts_with buf (sqlite3VdbeSerialPut nBuf (MInt v) file_format)"
  shows "sqlite3VdbeSerialGet buf (sqlite3VdbeSerialType (MInt v) file_format) =
    (MInt v, sqlite3VdbeSerialTypeLen (sqlite3VdbeSerialType (MInt v) file_format))"
proof -
  have get: "starts_with buf (serial_put_bytes (sqlite3VdbeSerialTypeLen t) v)"
    if "sqlite3VdbeSerialType (MInt v) file_format = t" "t \<le> 7" "0 < t" for t
    using assms that by (simp add: sqlite3VdbeSerialPut_def Let_def)
  note byte = put_get_byte [OF get]
  show ?thesis
  proof (rule serial_int_cases [of v file_format])
    assume t: "sqlite3VdbeSerialType (MInt v) file_format = 8 + ucast v" "v = 0 \<or> v = 1"
    from t(2) show ?thesis unfolding t(1) by (elim disjE) (simp_all add: sqlite3VdbeSerialGet_def)
  next
    assume t: "sqlite3VdbeSerialType (MInt v) file_format = 1" "fits 7 v"
    then show ?thesis using byte [OF t(1), of 0] fits_scast [where 'k = 8, of v]
      by (simp add: sqlite3VdbeSerialGet_def)
  next
    assume t: "sqlite3VdbeSerialType (MInt v) file_format = 2" "fits 15 v"
    then show ?thesis using byte [OF t(1), of 0] byte [OF t(1), of 1] fits_scast [where 'k = 16, of v] get_word16 [of v]
      by (simp add: sqlite3VdbeSerialGet_def)
  next
    assume t: "sqlite3VdbeSerialType (MInt v) file_format = 3" "fits 23 v"
    then show ?thesis using byte [OF t(1), of 0] byte [OF t(1), of 1] byte [OF t(1), of 2]
        fits_scast [where 'k = 24, of v] get_word24 [of v]
      by (simp add: sqlite3VdbeSerialGet_def)
  next
    assume t: "sqlite3VdbeSerialType (MInt v) file_format = 4" "fits 31 v"
    then show ?thesis using byte [OF t(1), of 0] byte [OF t(1), of 1] byte [OF t(1), of 2] byte [OF t(1), of 3]
        fits_scast [where 'k = 32, of v] get_word32 [of v]
      by (simp add: sqlite3VdbeSerialGet_def)
  next
    assume t: "sqlite3VdbeSerialType (MInt v) file_format = 5" "fits 47 v"
    have b: "buf 0 = ucast (drop_bit 40 v)" "buf 1 = ucast (drop_bit 32 v)" "buf 2 = ucast (drop_bit 24 v)"
      "buf 3 = ucast (drop_bit 16 v)" "buf 4 = ucast (drop_bit 8 v)" "buf 5 = ucast v"
      using byte [OF t(1), of 0] byte [OF t(1), of 1] byte [OF t(1), of 2] byte [OF t(1), of 3] byte [OF t(1), of 4] byte [OF t(1), of 5]
      by (simp_all add:)
    have "push_bit 32 (widen (push_bit 8 (schar (buf 0)) OR uchar (buf 1))) OR
        ucast (push_bit 24 (uchar (buf 2)) OR push_bit 16 (uchar (buf 3)) OR push_bit 8 (uchar (buf 4)) OR uchar (buf 5)) = v"
      unfolding b using get_word16 [of "drop_bit 32 v"] get_low32 [of v] get_word48 [of v] fits_scast [where 'k = 48, of v] t(2) by simp
    then show ?thesis using t by (simp add: sqlite3VdbeSerialGet_def Let_def)
  next
    assume t: "sqlite3VdbeSerialType (MInt v) file_format = 6"
    then show ?thesis using get [OF t] serial_get_8 [of buf v]
      by (simp add: sqlite3VdbeSerialGet_def)
  qed
qed

text \<open>The types of texts and blobs, whose length is below the limit the code asserts.\<close>

lemma serial_bytes_type:
  assumes "k < 2 ^ 31" "12 \<le> k"
  shows "12 \<le> (word_of_nat k :: u32)" "unat ((word_of_nat k - 12 :: u32) div 2) = (k - 12) div 2"
    "(word_of_nat k :: u32) AND 1 \<noteq> 0 \<longleftrightarrow> odd k"
proof -
  have u: "unat (word_of_nat k :: u32) = k" using assms(1) by (simp add: unat_of_nat take_bit_nat_eq_self)
  show le: "12 \<le> (word_of_nat k :: u32)" using assms(2) by (simp add: word_le_nat_alt u)
  show "unat ((word_of_nat k - 12 :: u32) div 2) = (k - 12) div 2"
    using le by (simp add: unat_div_distrib unat_sub u)
  show "(word_of_nat k :: u32) AND 1 \<noteq> 0 \<longleftrightarrow> odd k"
    by (simp add: and_one_eq even_word_iff bit_simps flip: even_iff_mod_2_eq_zero bit_0)
qed

lemma serial_bytes_get:
  assumes "k < 2 ^ 31" "12 \<le> k"
  shows "sqlite3VdbeSerialTypeLen (word_of_nat k) = (k - 12) div 2"
    "sqlite3VdbeSerialGet buf (word_of_nat k) =
      (if odd k then MStr (map buf [0..<(k - 12) div 2]) else MBlob (map buf [0..<(k - 12) div 2]) 0, (k - 12) div 2)"
proof -
  note t = serial_bytes_type [OF assms]
  have n: "(word_of_nat k :: u32) \<noteq> word_of_nat j" if "j < 12" for j
  proof
    assume "(word_of_nat k :: u32) = word_of_nat j"
    then have "unat (word_of_nat k :: u32) = unat (word_of_nat j :: u32)" by simp
    then show False using that assms by (simp add: unat_of_nat take_bit_nat_eq_self)
  qed
  show "sqlite3VdbeSerialTypeLen (word_of_nat k) = (k - 12) div 2"
    using t(1,2) by (simp add: sqlite3VdbeSerialTypeLen_def)
  have "(word_of_nat k :: u32) \<notin> {0, 1, 2, 3, 4, 5, 6, 7, 8, 9, 10, 11}"
    using n [of 0] n [of 1] n [of 2] n [of 3] n [of 4] n [of 5] n [of 6] n [of 7] n [of 8] n [of 9] n [of 10] n [of 11] by simp
  then show "sqlite3VdbeSerialGet buf (word_of_nat k) =
      (if odd k then MStr (map buf [0..<(k - 12) div 2]) else MBlob (map buf [0..<(k - 12) div 2]) 0, (k - 12) div 2)"
    using t(2,3) by (simp add: sqlite3VdbeSerialGet_def Let_def)
qed

text \<open>
  What reading a stored value returns: a real that is not a number is read as NULL, and a
  zero-filled tail is part of the content.
\<close>

fun stored :: "mem \<Rightarrow> mem" where
  "stored (MReal r) = (if sqlite3IsNaN r then MNull else MReal r)"
| "stored (MBlob z nZero) = MBlob (z @ replicate nZero 0) 0"
| "stored m = m"

text \<open>Lengths whose serial type fits in an \<^verbatim>\<open>int\<close>; SQLite never allows more than \<open>10 ^ 9\<close> bytes.\<close>

definition mem_ok :: "mem \<Rightarrow> bool" where
  "mem_ok m \<longleftrightarrow> length (mem_bytes m) + mem_nZero m < 2 ^ 30 - 6"

definition value_bytes :: "nat \<Rightarrow> mem \<Rightarrow> u8 list" where
  "value_bytes file_format m = sqlite3VdbeSerialPut (length (mem_bytes m) + mem_nZero m) m file_format"

lemma serial_int_type: "sqlite3VdbeSerialType (MInt v) file_format \<in> {1, 2, 3, 4, 5, 6, 8, 9}"
  by (rule serial_int_cases [of v file_format]) auto

lemma put_get_value:
  assumes "mem_ok m" "starts_with buf (value_bytes file_format m)"
  shows "sqlite3VdbeSerialGet buf (sqlite3VdbeSerialType m file_format) = (stored m, length (value_bytes file_format m))"
proof (cases m)
  case MNull
  then show ?thesis
    by (simp add: sqlite3VdbeSerialType_def sqlite3VdbeSerialGet_def value_bytes_def sqlite3VdbeSerialPut_def)
next
  case (MInt v)
  have "length (value_bytes file_format m) = sqlite3VdbeSerialTypeLen (sqlite3VdbeSerialType m file_format)"
    using serial_int_type [of v file_format] by (auto simp: MInt value_bytes_def sqlite3VdbeSerialPut_def Let_def word_le_nat_alt)
  then show ?thesis using serial_get_int assms(2) by (simp add: MInt value_bytes_def)
next
  case (MReal r)
  have "value_bytes file_format m = serial_put_bytes 8 r" "sqlite3VdbeSerialType m file_format = 7"
    by (simp_all add: MReal value_bytes_def sqlite3VdbeSerialPut_def sqlite3VdbeSerialType_def)
  then show ?thesis using serial_get_8 [of buf r] assms(2) by (simp add: MReal sqlite3VdbeSerialGet_def)
next
  case (MStr z)
  let ?k = "length z * 2 + 13"
  have k: "?k < 2 ^ 31" "12 \<le> ?k" using assms(1) by (simp_all add: mem_ok_def MStr)
  have t: "sqlite3VdbeSerialType m file_format = word_of_nat ?k" by (simp only: MStr sqlite3VdbeSerialType_def mem.case) simp
  then have "value_bytes file_format m = z"
    using serial_bytes_type(1) [OF k] by (simp add: value_bytes_def sqlite3VdbeSerialPut_def Let_def MStr word_le_nat_alt)
  then show ?thesis using assms(2) unfolding t serial_bytes_get(2) [OF k] by (auto simp: MStr starts_with_def intro!: nth_equalityI)
next
  case (MBlob z nZero)
  let ?k = "(length z + nZero) * 2 + 12"
  have k: "?k < 2 ^ 31" "12 \<le> ?k" using assms(1) by (simp_all add: mem_ok_def MBlob)
  have t: "sqlite3VdbeSerialType m file_format = word_of_nat ?k" by (simp only: MBlob sqlite3VdbeSerialType_def mem.case)
  then have "value_bytes file_format m = z @ replicate nZero 0"
    using serial_bytes_type(1) [OF k] by (simp add: value_bytes_def sqlite3VdbeSerialPut_def Let_def MBlob word_le_nat_alt)
  then show ?thesis using assms(2) unfolding t serial_bytes_get(2) [OF k] by (auto simp: MBlob starts_with_def intro!: nth_equalityI)
qed


lemma word12_cases: "12 \<le> (t::u32) \<or> t \<in> {0, 1, 2, 3, 4, 5, 6, 7, 8, 9, 10, 11}"
proof -
  have "unat t < 12 \<Longrightarrow> unat t \<in> {0, 1, 2, 3, 4, 5, 6, 7, 8, 9, 10, 11}"
    by (simp only: insert_iff empty_iff) presburger
  then have "unat t < 12 \<Longrightarrow> word_of_nat (unat t) \<in> (word_of_nat ` {0, 1, 2, 3, 4, 5, 6, 7, 8, 9, 10, 11} :: u32 set)" by (rule imageI)
  then show ?thesis by (auto simp: word_le_nat_alt not_le)
qed

lemma SerialGet_length: "snd (sqlite3VdbeSerialGet buf t) = sqlite3VdbeSerialTypeLen t"
  using word12_cases [of t]
  by (elim disjE) (auto simp: sqlite3VdbeSerialGet_def sqlite3VdbeSerialTypeLen_def Let_def word_le_nat_alt)

lemma value_length:
  "mem_ok m \<Longrightarrow> length (value_bytes file_format m) = sqlite3VdbeSerialTypeLen (sqlite3VdbeSerialType m file_format)"
  using put_get_value [of m "\<lambda>i. value_bytes file_format m ! i" file_format]
  by (metis SerialGet_length snd_conv starts_with_def)

section \<open>The size of the header\<close>

lemma VarintLen_le: "n < 2 ^ 63 \<Longrightarrow> k \<le> 8 \<Longrightarrow> sqlite3VarintLen (word_of_nat n) \<le> k \<longleftrightarrow> 0 < k \<and> n < 2 ^ (7 * k)"
proof -
  assume n: "n < 2 ^ 63" and k: "k \<le> 8"
  have u: "unat (word_of_nat n :: u64) = n" using n by (simp add: unat_of_nat take_bit_nat_eq_self)
  have "0 < length (varint_buf (word_of_nat n))" by (simp add: varint_buf.simps [of "word_of_nat n"])
  then have "length (varint_buf (word_of_nat n)) \<le> k \<longleftrightarrow> 0 < k \<and> n < 2 ^ (7 * k)"
    using varint_buf_length_ge [of k "word_of_nat n"] varint_buf_length [of "word_of_nat n" k]
    by (cases "n < 2 ^ (7 * k)"; cases "k = 0") (simp_all add: u)
  then show ?thesis using k by (simp add: VarintLen_put PutVarint_length_buf min_le_iff_disj)
qed

lemma record_header_size:
  assumes "n < 2 ^ 31"
  shows "record_header n = n + length (putVarint32 (word_of_nat (record_header n)))" "record_header n \<le> n + 6"
proof -
  define L where "L n = sqlite3VarintLen (word_of_nat n)" for n
  have le: "L m \<le> k \<longleftrightarrow> 0 < k \<and> m < 2 ^ (7 * k)" if "m < 2 ^ 63" "k \<le> 8" for m k
    unfolding L_def by (rule VarintLen_le [OF that])
  have put: "length (putVarint32 (word_of_nat m)) = L m" if "m < 2 ^ 32" for m
  proof -
    have "ucast (word_of_nat m :: u32) = (word_of_nat m :: u64)" using that by (simp add: unsigned_of_nat take_bit_nat_eq_self)
    then show ?thesis by (simp add: L_def putVarint32_eq VarintLen_put)
  qed
  define k where "k = L n"
  have k5: "k \<le> 5" using le [of n 5] assms unfolding k_def by simp
  have k: "0 < k" "n < 2 ^ (7 * k)" using le [of n k] assms k5 unfolding k_def by auto
  have low: "k \<le> L m" if "n \<le> m" "m < 2 ^ 63" for m
  proof (rule ccontr)
    assume "\<not> k \<le> L m"
    then have "L m \<le> k - 1" "k - 1 \<le> 8" using k5 by simp_all
    then have "0 < k - 1 \<and> m < 2 ^ (7 * (k - 1))" using le that(2) by blast
    then have "L n \<le> k - 1" using le [of n "k - 1"] that assms k5 by simp
    then show False using k(1) unfolding k_def by simp
  qed
  have up: "L m \<le> k + 1" if "m \<le> n + k + 1" for m
  proof -
    have "k < 2 ^ (7 * k)" by (rule less_le_trans [OF less_exp]) simp
    then have "n + k + 1 < 2 ^ (7 * k) + 2 ^ (7 * k) + 1" using k by simp
    also have "\<dots> \<le> 2 ^ (7 * (k + 1))" by (simp add: power_add)
    finally show ?thesis using that le [of m "k + 1"] assms k5 by simp
  qed
  have r: "record_header n = (if k < L (n + k) then n + k + 1 else n + k)"
    by (simp add: record_header_def Let_def k_def L_def)
  show "record_header n = n + length (putVarint32 (word_of_nat (record_header n)))"
  proof (cases "k < L (n + k)")
    case True
    have "\<not> L (n + k + 1) \<le> k"
      using True le [of "n + k" k] le [of "n + k + 1" k] assms k5 k(1) by simp
    then have "L (n + k + 1) = k + 1" using up [of "n + k + 1"] by simp
    then show ?thesis using r True put [of "n + k + 1"] assms k5 by simp
  next
    case False
    then have "L (n + k) = k" using low [of "n + k"] assms k5 by simp
    then show ?thesis using r False put [of "n + k"] assms k5 by simp
  qed
  show "record_header n \<le> n + 6" using r k5 by simp
qed

section \<open>Packing and unpacking\<close>

definition type_bytes :: "nat \<Rightarrow> mem list \<Rightarrow> u8 list" where
  "type_bytes file_format ms = concat (map (\<lambda>m. putVarint32 (sqlite3VdbeSerialType m file_format)) ms)"

definition data_bytes :: "nat \<Rightarrow> mem list \<Rightarrow> u8 list" where
  "data_bytes file_format ms = concat (map (value_bytes file_format) ms)"

lemma type_data_simps [simp]:
  "type_bytes file_format [] = []"
  "type_bytes file_format (m # ms) = putVarint32 (sqlite3VdbeSerialType m file_format) @ type_bytes file_format ms"
  "data_bytes file_format [] = []"
  "data_bytes file_format (m # ms) = value_bytes file_format m @ data_bytes file_format ms"
  by (simp_all add: type_bytes_def data_bytes_def)

text \<open>The record of the file format: header size, types, data.\<close>

definition record_bytes :: "nat \<Rightarrow> mem list \<Rightarrow> u8 list" where
  "record_bytes file_format ms =
    putVarint32 (word_of_nat (record_header (length (type_bytes file_format ms)))) @
    type_bytes file_format ms @ data_bytes file_format ms"

text \<open>The zero bytes at the end that \<^verbatim>\<open>OP_MakeRecord\<close> counts in \<^verbatim>\<open>nZero\<close>.\<close>

fun zero_tail :: "nat \<Rightarrow> mem list \<Rightarrow> nat \<Rightarrow> nat" where
  "zero_tail file_format [] c = c"
| "zero_tail file_format (m # ms) c =
    zero_tail file_format ms
      (if 0 < mem_nZero m then c + mem_nZero m else if value_bytes file_format m \<noteq> [] then 0 else c)"

definition expanded :: "mem \<Rightarrow> bool" where
  "expanded m \<longleftrightarrow> mem_ok m \<and> (0 < mem_nZero m \<longrightarrow> m = MBlob [] (mem_nZero m))"

lemma expanded_ok: "expanded m \<Longrightarrow> mem_ok m"
  by (simp add: expanded_def)

text \<open>
  What is packed of a register: what reading it returns, or, for a blob with a prefix and a
  zero-filled tail whose buffer could not grow, NULL.
\<close>

definition survives :: "outcomes \<Rightarrow> mem \<Rightarrow> mem \<Rightarrow> bool" where
  "survives os m v \<longleftrightarrow>
    v = stored m \<or> v = MNull \<and> False \<in> set os \<and> (\<exists>z nZero. m = MBlob z nZero \<and> z \<noteq> [] \<and> 0 < nZero)"

lemma survives_mono: "survives os m v \<Longrightarrow> set os \<subseteq> set os' \<Longrightarrow> survives os' m v"
  by (auto simp: survives_def)

lemma alloc_next_set: "set (snd (alloc_next os)) \<subseteq> set os" "\<not> fst (alloc_next os) \<Longrightarrow> False \<in> set os"
  by (cases os; simp; blast)+

lemma expand_step:
  assumes "mem_ok m"
    and "(if 0 < mem_nZero m \<and> 0 < length (mem_bytes m)
          then (case sqlite3VdbeMemExpandBlob m os of (rc, m, os) \<Rightarrow> (m, os)) else (m, os)) = (m', os')"
  shows "expanded m' \<and> survives os m (stored m') \<and> set os' \<subseteq> set os"
proof (cases m)
  case (MBlob z nZero)
  then show ?thesis using assms alloc_next_set [of os]
    by (auto simp: sqlite3VdbeMemExpandBlob_def expanded_def survives_def mem_ok_def split: if_splits prod.splits)
qed (use assms in \<open>auto simp: expanded_def survives_def mem_ok_def\<close>)

lemma expand_all:
  "\<forall>m \<in> set regs. mem_ok m \<Longrightarrow> record_expand regs os = (ms, os') \<Longrightarrow>
    (\<forall>m \<in> set ms. expanded m) \<and> list_all2 (survives os) regs (map stored ms) \<and> set os' \<subseteq> set os"
proof (induction regs arbitrary: os ms os')
  case (Cons m regs)
  obtain m1 os1 where m1: "(if 0 < mem_nZero m \<and> 0 < length (mem_bytes m)
      then (case sqlite3VdbeMemExpandBlob m os of (rc, m, os) \<Rightarrow> (m, os)) else (m, os)) = (m1, os1)"
    by (metis surj_pair)
  obtain ms2 os2 where ms2: "record_expand regs os1 = (ms2, os2)" by (metis surj_pair)
  have ms: "ms = m1 # ms2" "os' = os2" using Cons.prems(2) by (simp_all only: record_expand.simps m1 ms2 Let_def prod.case prod.inject)
  have ok: "mem_ok m" "\<forall>m \<in> set regs. mem_ok m" using Cons.prems(1) by simp_all
  have "list_all2 (survives os) regs (map stored ms2)"
    using Cons.IH [OF ok(2) ms2] expand_step [OF ok(1) m1] by (auto elim: list_all2_mono survives_mono)
  then show ?case using Cons.IH [OF ok(2) ms2] expand_step [OF ok(1) m1] by (auto simp: ms)
qed simp

lemma survives_all: "False \<notin> set os \<Longrightarrow> list_all2 (survives os) regs vs \<longleftrightarrow> vs = map stored regs"
  by (auto simp: survives_def list_all2_conv_all_nth intro: nth_equalityI)

lemma record_expand_length: "length (fst (record_expand regs os)) = length regs"
  by (induction regs arbitrary: os) (simp_all add: Let_def case_prod_unfold)

lemma record_expand_snoc:
  "mem_nZero m = 0 \<Longrightarrow> record_expand (regs @ [m]) os =
    (case record_expand regs os of (ms, os) \<Rightarrow> (ms @ [m], os))"
  by (induction regs os rule: record_expand.induct) (auto split: prod.splits)

lemma value_bytes_zero: "expanded m \<Longrightarrow> 0 < mem_nZero m \<Longrightarrow> value_bytes file_format m = replicate (mem_nZero m) 0"
proof -
  assume "expanded m" "0 < mem_nZero m"
  then obtain n where m: "m = MBlob [] n" "n < 2 ^ 30 - 6" by (auto simp: expanded_def mem_ok_def)
  have "12 \<le> (word_of_nat (n * 2 + 12) :: u32)" using m(2) by (intro serial_bytes_type) simp_all
  then show ?thesis
    by (simp add: m value_bytes_def sqlite3VdbeSerialPut_def sqlite3VdbeSerialType_def Let_def word_le_nat_alt)
qed

lemma put_expanded:
  assumes "expanded m"
  shows "sqlite3VdbeSerialPut nBuf m file_format =
    (if 0 < mem_nZero m then replicate (min (mem_nZero m) nBuf) 0 else value_bytes file_format m)"
proof (cases "0 < mem_nZero m")
  case True
  then obtain n where m: "m = MBlob [] n" "n < 2 ^ 30 - 6" using assms by (auto simp: expanded_def mem_ok_def)
  have "12 \<le> (word_of_nat (n * 2 + 12) :: u32)" using m(2) by (intro serial_bytes_type) simp_all
  then show ?thesis using True
    by (simp add: m value_bytes_def sqlite3VdbeSerialPut_def sqlite3VdbeSerialType_def Let_def word_le_nat_alt)
next
  case False
  then show ?thesis by (cases m) (simp_all add: value_bytes_def sqlite3VdbeSerialPut_def Let_def)
qed

lemma sizes_ok:
  "\<forall>m \<in> set ms. mem_ok m \<Longrightarrow> record_sizes file_format ms (a, b, c) =
    (a + length (data_bytes file_format ms), b + length (type_bytes file_format ms), zero_tail file_format ms c)"
  by (induction ms arbitrary: a b c)
    (simp_all add: Let_def value_length [symmetric] VarintLen_put putVarint32_eq [symmetric])

lemma zero_tail_cases:
  "\<forall>m \<in> set ms. expanded m \<Longrightarrow>
    (\<forall>c. zero_tail f ms c = zero_tail f ms 0) \<or> (\<forall>c. zero_tail f ms c = c + length (data_bytes f ms))"
proof (induction ms)
  case (Cons m ms)
  then have e: "expanded m" by simp
  consider "0 < mem_nZero m" | "mem_nZero m = 0" "value_bytes f m \<noteq> []" | "mem_nZero m = 0" "value_bytes f m = []" by auto
  then show ?case
  proof cases
    case 1
    have "(\<forall>c. zero_tail f ms c = zero_tail f ms 0) \<or> (\<forall>c. zero_tail f ms c = c + length (data_bytes f ms))"
      using Cons by simp
    then show ?thesis
    proof
      assume "\<forall>c. zero_tail f ms c = zero_tail f ms 0"
      then have "\<forall>c. zero_tail f ms (c + mem_nZero m) = zero_tail f ms (mem_nZero m)" by metis
      then show ?thesis using 1 by simp
    qed (use 1 in \<open>simp add: value_bytes_zero [OF e]\<close>)
  next
    case 3
    then show ?thesis using Cons by simp
  qed simp
qed simp

lemma zero_tail_step:
  "\<forall>m \<in> set ms. expanded m \<Longrightarrow> zero_tail f ms c = zero_tail f ms 0 \<or>
    zero_tail f ms c = c + length (data_bytes f ms) \<and> zero_tail f ms 0 = length (data_bytes f ms)"
  by (drule zero_tail_cases [of ms f]) (metis add_0)

lemma zero_tail_le: "\<forall>m \<in> set ms. expanded m \<Longrightarrow> zero_tail f ms 0 \<le> length (data_bytes f ms)"
proof (induction ms)
  case (Cons m ms)
  then show ?case using zero_tail_step [of ms f "mem_nZero m"] by (auto simp: value_bytes_zero)
qed simp

lemma zero_tail_zeros: "\<forall>m \<in> set ms. expanded m \<Longrightarrow>
  \<exists>pre. data_bytes f ms = pre @ replicate (zero_tail f ms 0) 0"
proof (induction ms)
  case (Cons m ms)
  then obtain pre where pre: "data_bytes f ms = pre @ replicate (zero_tail f ms 0) 0" by auto
  have e: "expanded m" using Cons.prems by simp
  show ?case
  proof (cases "0 < mem_nZero m")
    case True
    note v = value_bytes_zero [OF e True, of f]
    have "zero_tail f ms (mem_nZero m) = zero_tail f ms 0 \<or>
        zero_tail f ms (mem_nZero m) = mem_nZero m + length (data_bytes f ms) \<and> zero_tail f ms 0 = length (data_bytes f ms)"
      using zero_tail_step Cons.prems by simp
    then show ?thesis
    proof
      assume "zero_tail f ms (mem_nZero m) = zero_tail f ms 0"
      then show ?thesis using True pre v by (intro exI [of _ "value_bytes f m @ pre"]) simp
    next
      assume a: "zero_tail f ms (mem_nZero m) = mem_nZero m + length (data_bytes f ms) \<and> zero_tail f ms 0 = length (data_bytes f ms)"
      then have "data_bytes f ms = replicate (length (data_bytes f ms)) 0" using pre by (metis append_Nil length_0_conv length_append length_replicate add_cancel_right_left)
      then show ?thesis using True a v by (intro exI [of _ "[]"]) (simp add: replicate_add)
    qed
  next
    case False
    then show ?thesis using pre by (intro exI [of _ "value_bytes f m @ pre"]) simp
  qed
qed simp

lemma record_data_take:
  "\<forall>m \<in> set ms. expanded m \<Longrightarrow> length (data_bytes f ms) \<le> nByte - length out + zero_tail f ms 0 \<Longrightarrow>
    record_data f nByte ms out = out @ take (nByte - length out) (data_bytes f ms)"
proof (induction ms arbitrary: out)
  case (Cons m ms)
  let ?r = "nByte - length out" and ?v = "sqlite3VdbeSerialPut (nByte - length out) m f"
  have e: "expanded m" "\<forall>m \<in> set ms. expanded m" using Cons.prems(1) by simp_all
  have v: "?v = take ?r (value_bytes f m) \<and>
      length (data_bytes f ms) \<le> nByte - length (out @ ?v) + zero_tail f ms 0"
  proof (cases "0 < mem_nZero m")
    case True
    then show ?thesis
      using Cons.prems(2) zero_tail_step [OF e(2), of f "mem_nZero m"] zero_tail_le [OF e(2), of f] value_bytes_zero [OF e(1) True, of f]
      by (auto simp: put_expanded [OF e(1)] min_def)
  next
    case False
    then show ?thesis using Cons.prems(2) zero_tail_le [OF e(2), of f]
      by (cases "value_bytes f m = []") (simp_all add: put_expanded [OF e(1)])
  qed
  have "record_data f nByte (m # ms) out = (out @ ?v) @ take (nByte - length (out @ ?v)) (data_bytes f ms)"
    using Cons.IH [OF e(2) conjunct2 [OF v]] by simp
  also have "nByte - length (out @ ?v) = ?r - length (value_bytes f m)" unfolding conjunct1 [OF v] by (simp add: min_def)
  also have "?v = take ?r (value_bytes f m)" by (rule conjunct1 [OF v])
  finally show ?case by simp
qed simp

lemma get_put32: "starts_with p (putVarint32 t) \<Longrightarrow> getVarint32 p = (t, length (putVarint32 t))"
  using PutVarint_roundtrip [of p "ucast t"]
  by (simp add: getVarint32_eq putVarint32_eq ucast_down_ucast_id is_down)

lemma put32_length: "0 < length (putVarint32 t)"
  using PutVarint_length [of "ucast t"] unfolding putVarint32_eq by linarith

lemma starts_with_append:
  "starts_with p (xs @ ys) \<longleftrightarrow> starts_with p xs \<and> starts_with (\<lambda>i. p (length xs + i)) ys"
proof -
  have "(\<forall>i < length xs + length ys. p i = (xs @ ys) ! i) \<longleftrightarrow>
      (\<forall>i < length xs. p i = xs ! i) \<and> (\<forall>i < length ys. p (length xs + i) = ys ! i)"
  proof (intro iffI conjI allI impI)
    fix i assume a: "\<forall>i < length xs + length ys. p i = (xs @ ys) ! i"
    show "i < length xs \<Longrightarrow> p i = xs ! i" using a [rule_format, of i] by (simp add: nth_append)
    show "i < length ys \<Longrightarrow> p (length xs + i) = ys ! i" using a [rule_format, of "length xs + i"] by simp
  next
    fix i assume "(\<forall>i < length xs. p i = xs ! i) \<and> (\<forall>i < length ys. p (length xs + i) = ys ! i)" "i < length xs + length ys"
    then show "p i = (xs @ ys) ! i" by (cases "i < length xs") (auto simp: nth_append dest: spec [of _ "i - length xs"])
  qed
  then show ?thesis by (simp add: starts_with_def)
qed

text \<open>The bytes at \<open>p\<close> from an offset on.\<close>

abbreviation from_at :: "bytes \<Rightarrow> nat \<Rightarrow> bytes" where "from_at p k \<equiv> \<lambda>i. p (k + i)"

lemma field_step:
  assumes "starts_with (from_at aKey idx) (type_bytes f (m # ms))" "starts_with (from_at aKey (nat d)) (data_bytes f (m # ms))"
    and "mem_ok m" "0 \<le> d"
  defines "n \<equiv> length (putVarint32 (sqlite3VdbeSerialType m f))" and "l \<equiv> length (value_bytes f m)"
  shows "getVarint32 (from_at aKey idx) = (sqlite3VdbeSerialType m f, n)"
    and "sqlite3VdbeSerialGet (from_at aKey (nat d)) (sqlite3VdbeSerialType m f) = (stored m, l)"
    and "sqlite3VdbeSerialTypeLen (sqlite3VdbeSerialType m f) = l"
    and "starts_with (from_at aKey (idx + n)) (type_bytes f ms)"
    and "starts_with (from_at aKey (nat (d + int l))) (data_bytes f ms)"
  using assms(1-4) get_put32 [of "from_at aKey idx"] put_get_value [of m "from_at aKey (nat d)" f] value_length [of m f]
  by (simp_all add: starts_with_append n_def l_def nat_add_distrib add.assoc)

lemma unpack_loop_ok:
  assumes "\<forall>m \<in> set ms. mem_ok m"
    and "starts_with (from_at aKey idx) (type_bytes f ms)" "starts_with (from_at aKey (nat d)) (data_bytes f ms)"
    and "idx + length (type_bytes f ms) = szHdr" "0 \<le> d" "d + int (length (data_bytes f ms)) = nKey"
  shows "unpack_loop n aKey nKey szHdr idx d = Some (map stored (take n ms))"
  using assms
proof (induction ms arbitrary: n idx d)
  case Nil
  then show ?case by (cases n) simp_all
next
  case (Cons m ms)
  show ?case
  proof (cases n)
    case (Suc k)
    let ?n = "length (putVarint32 (sqlite3VdbeSerialType m f))" and ?l = "length (value_bytes f m)"
    note s = field_step [OF Cons.prems(2,3) _ Cons.prems(5)]
    have m: "mem_ok m" using Cons.prems(1) by simp
    have "unpack_loop k aKey nKey szHdr (idx + ?n) (d + int ?l) = Some (map stored (take k ms))"
      using Cons.prems(1,4-6) by (intro Cons.IH s(4,5) m) (simp_all add: Suc)
    moreover have "idx < szHdr" using Cons.prems(4) put32_length [of "sqlite3VdbeSerialType m f"]
      unfolding type_data_simps length_append by linarith
    moreover have "\<not> (nKey \<le> d \<and> 0 < ?l)"
      using Cons.prems(6) unfolding type_data_simps length_append of_nat_add by linarith
    ultimately show ?thesis using Cons.prems(5) by (simp add: Suc s(1-3) [OF m] del: take_Suc_Cons) simp
  qed simp
qed

lemma record_parts:
  assumes "starts_with aKey (record_bytes f ms)" "length (record_bytes f ms) < 2 ^ 31"
  defines "h \<equiv> record_header (length (type_bytes f ms))"
  shows "getVarint32 aKey = (word_of_nat h, h - length (type_bytes f ms))"
    and "starts_with (from_at aKey (h - length (type_bytes f ms))) (type_bytes f ms)"
    and "starts_with (from_at aKey h) (data_bytes f ms)"
    and "h - length (type_bytes f ms) + length (type_bytes f ms) = h" "h + length (data_bytes f ms) = length (record_bytes f ms)"
    and "h < 2 ^ 31"
proof -
  have t: "length (type_bytes f ms) < 2 ^ 31" using assms(2) by (simp add: record_bytes_def)
  note hs = record_header_size(1) [OF t, folded h_def]
  have l: "length (putVarint32 (word_of_nat h)) = h - length (type_bytes f ms)" using hs by simp
  have a: "starts_with aKey (putVarint32 (word_of_nat h) @ type_bytes f ms @ data_bytes f ms)"
    using assms(1) by (simp add: record_bytes_def h_def)
  then show "getVarint32 aKey = (word_of_nat h, h - length (type_bytes f ms))"
    using get_put32 [of aKey "word_of_nat h"] l by (simp add: starts_with_append)
  show "starts_with (from_at aKey (h - length (type_bytes f ms))) (type_bytes f ms)"
    using a by (simp add: starts_with_append l)
  show s: "h - length (type_bytes f ms) + length (type_bytes f ms) = h" using hs by simp
  show "starts_with (from_at aKey h) (data_bytes f ms)"
    using a unfolding starts_with_append l by (simp add: add.assoc [symmetric] s)
  show e: "h + length (data_bytes f ms) = length (record_bytes f ms)"
    using l s by (simp add: record_bytes_def flip: h_def)
  show "h < 2 ^ 31" using e assms(2) by simp
qed

lemma sint_small: "n < 2 ^ 31 \<Longrightarrow> sint (word_of_nat n :: u32) = int n \<and> unat (word_of_nat n :: u32) = n"
  by (simp add: signed_of_nat unsigned_of_nat take_bit_nat_eq_self signed_take_bit_int_eq_self)

lemma RecordUnpack_ok:
  assumes "\<forall>m \<in> set ms. mem_ok m" "starts_with aKey (record_bytes f ms)" "length (record_bytes f ms) < 2 ^ 31"
  shows "sqlite3VdbeRecordUnpack nField (int (length (record_bytes f ms))) aKey small os =
    (if small \<and> \<not> fst (alloc_next os) then Some (None, snd (alloc_next os))
     else Some (Some (map stored (take (nField + 1) ms)), if small then snd (alloc_next os) else os))"
proof -
  note p = record_parts [OF assms(2,3)]
  have "unpack_loop (nField + 1) aKey (int (length (record_bytes f ms))) (record_header (length (type_bytes f ms)))
      (record_header (length (type_bytes f ms)) - length (type_bytes f ms)) (int (record_header (length (type_bytes f ms)))) =
    Some (map stored (take (nField + 1) ms))"
    using p(3) by (intro unpack_loop_ok [OF assms(1) p(2)] p(4)) (simp_all only: nat_int of_nat_add [symmetric] p(5) of_nat_0_le_iff)
  then show ?thesis by (simp add: sqlite3VdbeRecordUnpack_def p(1) sint_small [OF p(6)] del: unpack_loop.simps split: prod.split)
qed

lemma type_bytes_length: "length (type_bytes f ms) \<le> 9 * length ms"
proof (induction ms)
  case (Cons m ms)
  then show ?case using PutVarint_length [of "ucast (sqlite3VdbeSerialType m f)"] by (simp add: putVarint32_eq)
qed simp

lemma MakeRecord_bytes:
  assumes "OP_MakeRecord f limit regs os = Inr (MBlob b nZero)" "\<forall>m \<in> set regs. mem_ok m" "length regs < 2 ^ 27"
  shows "length b \<le> limit" "b @ replicate nZero 0 = record_bytes f (fst (record_expand regs os))"
proof -
  obtain ms os' where ms_def: "record_expand regs os = (ms, os')" by (metis surj_pair)
  have e: "\<forall>m \<in> set ms. expanded m" using expand_all [OF assms(2) ms_def] by simp
  then have o: "\<forall>m \<in> set ms. mem_ok m" by (auto dest: expanded_ok)
  let ?h = "record_header (length (type_bytes f ms))" and ?T = "zero_tail f ms 0" and ?D = "data_bytes f ms"
  let ?N = "?h + length ?D - ?T" and ?H = "putVarint32 (word_of_nat (record_header (length (type_bytes f ms)))) @ type_bytes f ms"
  have t: "length (type_bytes f ms) < 2 ^ 31" using type_bytes_length [of f ms] assms(3) record_expand_length [of regs os] by (simp add: ms_def)
  have H: "length ?H = ?h" using record_header_size(1) [OF t] by simp
  have T: "?T \<le> length ?D" by (rule zero_tail_le [OF e])
  have N: "?N - length ?H = length ?D - ?T" unfolding H using T by simp
  have r1: "record_data f ?N ms ?H = ?H @ take (length ?D - ?T) ?D"
    using record_data_take [OF e, of f ?N ?H] T unfolding N by simp
  have r2: "record_data f ?N ms ?H = b \<and> ?T = nZero \<and> ?N \<le> limit"
    using assms(1) by (auto simp: OP_MakeRecord_def Let_def sizes_ok [OF o] type_bytes_def ms_def split: if_splits)
  have b: "b = ?H @ take (length ?D - ?T) ?D" "nZero = ?T" "?N \<le> limit"
    using trans [OF sym [OF conjunct1 [OF r2]] r1] r2 by blast+
  obtain pre where "?D = pre @ replicate ?T 0" using zero_tail_zeros [OF e] by blast
  then have "take (length ?D - ?T) ?D @ replicate ?T 0 = ?D" by (metis append_eq_conv_conj diff_add_inverse2 length_append length_replicate)
  then show "b @ replicate nZero 0 = record_bytes f (fst (record_expand regs os))"
    unfolding b by (simp add: record_bytes_def ms_def)
  show "length b \<le> limit" using b H T by simp
qed

lemma expand_stored: "\<forall>m \<in> set regs. mem_ok m \<Longrightarrow>
  (\<forall>m \<in> set (fst (record_expand regs os)). mem_ok m) \<and>
  list_all2 (survives os) regs (map stored (fst (record_expand regs os)))"
  using expand_all [of regs os "fst (record_expand regs os)" "snd (record_expand regs os)"] expanded_ok by auto

section \<open>Comparing a record with a key\<close>

text \<open>The comparison of the code on the values themselves, field by field, then by the flags of the key.\<close>

definition field_coll :: "keyinfo \<Rightarrow> nat \<Rightarrow> collseq" where
  "field_coll info i = (if i < length (aColl info) then aColl info ! i else None)"

definition field_cmp :: "keyinfo \<Rightarrow> nat \<Rightarrow> mem \<Rightarrow> mem \<Rightarrow> int" where
  "field_cmp info i v k =
    (let c = sqlite3MemCompare v k (field_coll info i) in
     if aSortOrder info \<noteq> [] \<and> i < length (aColl info) \<and> aSortOrder info ! i then - c else c)"

fun fields_cmp :: "keyinfo \<Rightarrow> nat \<Rightarrow> mem list \<Rightarrow> mem list \<Rightarrow> int" where
  "fields_cmp info i (v # vs) (k # ks) =
    (if field_cmp info i v k \<noteq> 0 then field_cmp info i v k else fields_cmp info (i + 1) vs ks)"
| "fields_cmp info i vs ks = 0"

definition record_cmp :: "unpacked \<Rightarrow> mem list \<Rightarrow> int" where
  "record_cmp p vs =
    (let c = fields_cmp (pKeyInfo p) 0 vs (aMem p) in
     if c \<noteq> 0 then c else if INCRKEY p then - 1 else if PREFIX_MATCH p then 0
     else if length (aMem p) < length vs then 1 else 0)"

text \<open>The loop of the code on the values themselves.\<close>

fun field_walk :: "keyinfo \<Rightarrow> nat \<Rightarrow> mem list \<Rightarrow> mem list \<Rightarrow> int \<times> nat \<times> bool" where
  "field_walk info i vs [] = (0, i, vs \<noteq> [])"
| "field_walk info i [] (k # ks) = (0, i, False)"
| "field_walk info i (v # vs) (k # ks) =
    (if sqlite3MemCompare v k (field_coll info i) \<noteq> 0
     then (sqlite3MemCompare v k (field_coll info i), i, vs \<noteq> [])
     else field_walk info (i + 1) vs ks)"

lemma types_empty: "type_bytes f ms = [] \<longleftrightarrow> ms = []"
  using put32_length by (cases ms) auto

lemma compare_loop_walk:
  assumes "\<forall>m \<in> set ms. mem_ok m"
    and "starts_with (from_at aKey idx) (type_bytes f ms)" "starts_with (from_at aKey (nat d)) (data_bytes f ms)"
    and "idx + length (type_bytes f ms) = szHdr" "0 \<le> d" "d + int (length (data_bytes f ms)) \<le> nKey"
  shows "compare_loop info aKey nKey szHdr idx d i ks = Some (field_walk info i (map stored ms) ks)"
  using assms
proof (induction ms arbitrary: ks i idx d)
  case Nil
  then show ?case by (cases ks) simp_all
next
  case (Cons m ms)
  let ?n = "length (putVarint32 (sqlite3VdbeSerialType m f))" and ?l = "length (value_bytes f m)"
  have lt: "idx < szHdr" using Cons.prems(4) put32_length [of "sqlite3VdbeSerialType m f"]
    unfolding type_data_simps length_append by linarith
  show ?case
  proof (cases ks)
    case (Cons k ks')
    note s = field_step [OF Cons.prems(2,3) _ Cons.prems(5)]
    have m: "mem_ok m" using Cons.prems(1) by simp
    have IH: "compare_loop info aKey nKey szHdr (idx + ?n) (d + int ?l) (i + 1) ks' = Some (field_walk info (i + 1) (map stored ms) ks')"
      using Cons.prems(1,4-6) by (intro Cons.IH s(4,5) m) simp_all
    have "idx + ?n < szHdr \<longleftrightarrow> ms \<noteq> []" using Cons.prems(4) types_empty [of f ms] by auto
    moreover have "\<not> (nKey \<le> d \<and> 0 < ?l)"
      using Cons.prems(6) unfolding type_data_simps length_append of_nat_add by linarith
    ultimately show ?thesis
      using lt IH Cons.prems(5) by (auto simp: Cons s(1-3) [OF m] field_coll_def Let_def)
  qed (use lt in simp)
qed

lemma walk_order:
  assumes "field_walk info i vs ks = (rc, j, left)"
  shows "fields_cmp info i vs ks =
      (if rc \<noteq> 0 \<and> aSortOrder info \<noteq> [] \<and> j < length (aColl info) \<and> aSortOrder info ! j then - rc else rc)"
    and "rc = 0 \<Longrightarrow> left \<longleftrightarrow> length ks < length vs"
  using assms
  by (induction info i vs ks rule: field_walk.induct) (auto simp: field_cmp_def Let_def split: if_splits)

lemma RecordCompare_ok:
  assumes "\<forall>m \<in> set ms. mem_ok m" "starts_with aKey (record_bytes f ms)" "length (record_bytes f ms) < 2 ^ 31"
    and "IGNORE_ROWID p \<Longrightarrow> ms \<noteq> [] \<and> length (putVarint32 (sqlite3VdbeSerialType (last ms) f)) = 1"
  shows "sqlite3VdbeRecordCompare (int (length (record_bytes f ms))) aKey p =
    Some (record_cmp p (map stored (if IGNORE_ROWID p then butlast ms else ms)))"
proof -
  note r = record_parts [OF assms(2,3)]
  let ?h = "record_header (length (type_bytes f ms))"
  define us where "us = (if IGNORE_ROWID p then butlast ms else ms)"
  define sz where "sz = (if IGNORE_ROWID p then ?h - 1 else ?h)"
  have app: "type_bytes f (xs @ ys) = type_bytes f xs @ type_bytes f ys" "data_bytes f (xs @ ys) = data_bytes f xs @ data_bytes f ys" for xs ys
    by (simp_all add: type_bytes_def data_bytes_def)
  have ms: "ms = us @ (if IGNORE_ROWID p then [last ms] else [])" using assms(4) by (simp add: us_def)
  have t: "type_bytes f ms = type_bytes f us @ (if IGNORE_ROWID p then type_bytes f [last ms] else [])"
    "data_bytes f ms = data_bytes f us @ (if IGNORE_ROWID p then data_bytes f [last ms] else [])"
    by (subst ms, simp add: app)+
  have h1: "1 \<le> ?h" if "IGNORE_ROWID p" using r(4) assms(4) [OF that] types_empty [of f ms] by (cases ?h) auto
  have sz: "sz = ?h - length (type_bytes f ms) + length (type_bytes f us)"
  proof -
    have one: "IGNORE_ROWID p \<Longrightarrow> length (type_bytes f [last ms]) = 1" using assms(4) by simp
    consider (yes) "IGNORE_ROWID p" "sz = ?h - 1" "length (type_bytes f ms) = length (type_bytes f us) + 1"
      | (no) "sz = ?h" "length (type_bytes f ms) = length (type_bytes f us)"
      using t(1) one by (cases "IGNORE_ROWID p") (simp_all add: sz_def)
    then show ?thesis
    proof cases
      case yes
      then show ?thesis using r(4) h1 by linarith
    qed (use r(4) in linarith)
  qed
  have word: "(if IGNORE_ROWID p then word_of_nat ?h - 1 else word_of_nat ?h) = (word_of_nat sz :: u32)"
    using h1 by (simp add: sz_def)
  have usz: "unat (word_of_nat sz :: u32) = sz" proof -
    have "sz \<le> ?h" by (simp add: sz_def)
    from sint_small [OF le_less_trans [OF this r(6)]] show ?thesis by (rule conjunct2)
  qed
  have "compare_loop (pKeyInfo p) aKey (int (length (record_bytes f ms))) sz (?h - length (type_bytes f ms)) (int ?h) 0 (aMem p) =
      Some (field_walk (pKeyInfo p) 0 (map stored us) (aMem p))"
  proof (rule compare_loop_walk)
    show "\<forall>m \<in> set us. mem_ok m" using assms(1) by (auto simp: us_def dest: in_set_butlastD)
    show "starts_with (from_at aKey (?h - length (type_bytes f ms))) (type_bytes f us)"
      using r(2) t(1) by (simp add: starts_with_append)
    show "starts_with (from_at aKey (nat (int ?h))) (data_bytes f us)"
      using r(3) t(2) by (simp add: starts_with_append)
    show "int ?h + int (length (data_bytes f us)) \<le> int (length (record_bytes f ms))"
      unfolding r(5) [symmetric] t(2) by simp
  qed (simp_all add: sz)
  moreover obtain rc j left where w: "field_walk (pKeyInfo p) 0 (map stored us) (aMem p) = (rc, j, left)" by (metis prod_cases3)
  moreover note walk_order [OF w]
  ultimately show ?thesis
    by (simp add: sqlite3VdbeRecordCompare_def r(1) word usz sint_small [OF r(6)] record_cmp_def Let_def us_def [symmetric])
qed

section \<open>The order of values and records\<close>

text \<open>
  The order of the file format, stated without the code: NULL before numbers before texts before
  blobs; integers by their value; other numbers by the value of the doubles, an integer being
  converted first and a NaN equal to everything; texts by their collating sequence; texts without
  one, and blobs, lexicographically by unsigned bytes. The value of a double is given in units of
  \<open>2 ^ -1074\<close>, the smallest one, infinity being \<open>2 ^ 1024\<close>.
\<close>

definition double_magnitude :: "nat \<Rightarrow> nat" where
  "double_magnitude k =
    (let e = k div 2 ^ 52; m = k mod 2 ^ 52 in if e = 0 then m else (2 ^ 52 + m) * 2 ^ (e - 1))"

definition double_value :: "u64 \<Rightarrow> int" where
  "double_value x =
    (let v = int (double_magnitude (unat (x AND 0x7fffffffffffffff))) in if bit x 63 then - v else v)"

definition doubles_order :: "u64 \<Rightarrow> u64 \<Rightarrow> int" where
  "doubles_order x y =
    (if sqlite3IsNaN x \<or> sqlite3IsNaN y then 0 else sgn (double_value x - double_value y))"

definition bytes_order :: "u8 list \<Rightarrow> u8 list \<Rightarrow> int" where
  "bytes_order x y = (if x = y then 0 else if ord_class.lexordp x y then - 1 else 1)"

fun value_class :: "mem \<Rightarrow> int" where
  "value_class MNull = 0"
| "value_class (MInt i) = 1"
| "value_class (MReal r) = 1"
| "value_class (MStr z) = 2"
| "value_class (MBlob z nZero) = 3"

fun class_order :: "collseq \<Rightarrow> mem \<Rightarrow> mem \<Rightarrow> int" where
  "class_order coll (MInt i) (MInt j) = sgn (sint i - sint j)"
| "class_order coll (MInt i) (MReal r) = doubles_order (double_of_i64 i) r"
| "class_order coll (MReal r) (MInt i) = doubles_order r (double_of_i64 i)"
| "class_order coll (MReal r) (MReal r') = doubles_order r r'"
| "class_order coll (MStr z) (MStr z') = (case coll of Some xCmp \<Rightarrow> sgn (xCmp z z') | None \<Rightarrow> bytes_order z z')"
| "class_order coll (MBlob z nZero) (MBlob z' nZero') = bytes_order z z'"
| "class_order coll v k = 0"

definition value_order :: "collseq \<Rightarrow> mem \<Rightarrow> mem \<Rightarrow> int" where
  "value_order coll v k =
    (if value_class v = value_class k then class_order coll v k else sgn (value_class v - value_class k))"

text \<open>
  Records: field by field in the sort direction of the field; when one of them ends, the flags of
  the key decide, and without flags the record is larger if it is longer. A key that is longer
  than an equal record is equal to it.
\<close>

fun fields_order :: "(collseq \<times> bool) list \<Rightarrow> mem list \<Rightarrow> mem list \<Rightarrow> int" where
  "fields_order dirs (v # vs) (k # ks) =
    (let (coll, desc) = (case dirs of [] \<Rightarrow> (None, False) | d # ds \<Rightarrow> d);
         c = value_order coll v k
     in if c = 0 then fields_order (tl dirs) vs ks else if desc then - c else c)"
| "fields_order dirs vs ks = 0"

definition key_dirs :: "keyinfo \<Rightarrow> (collseq \<times> bool) list" where
  "key_dirs info = zip (aColl info) (aSortOrder info @ replicate (length (aColl info)) False)"

definition record_order :: "unpacked \<Rightarrow> mem list \<Rightarrow> int" where
  "record_order p vs =
    (let c = fields_order (key_dirs (pKeyInfo p)) vs (aMem p) in
     if c \<noteq> 0 then c
     else if INCRKEY p then - 1
     else if PREFIX_MATCH p then 0
     else if length (aMem p) < length vs then 1 else 0)"

lemma double_magnitude_mono: "strict_mono double_magnitude"
  unfolding strict_mono_Suc_iff
proof
  fix k :: nat
  define e m where "e = k div 2 ^ 52" and "m = k mod 2 ^ 52"
  have k: "k = e * 2 ^ 52 + m" "m < 2 ^ 52" by (simp_all add: e_def m_def)
  have dk: "double_magnitude k = (if e = 0 then m else (2 ^ 52 + m) * 2 ^ (e - 1))"
    by (simp only: double_magnitude_def Let_def e_def m_def)
  show "double_magnitude k < double_magnitude (Suc k)"
  proof (cases "Suc m < 2 ^ 52")
    case True
    then have "Suc k div 2 ^ 52 = e" "Suc k mod 2 ^ 52 = Suc m" unfolding k(1) add_Suc_right [symmetric]
      by (simp_all only: div_mult_self3 mod_mult_self3 div_less mod_less)
    then have "double_magnitude (Suc k) = (if e = 0 then Suc m else (2 ^ 52 + Suc m) * 2 ^ (e - 1))"
      by (simp only: double_magnitude_def Let_def)
    then show ?thesis unfolding dk by simp
  next
    case False
    then have "Suc k = Suc e * 2 ^ 52" using k by simp
    then have "Suc k div 2 ^ 52 = Suc e" "Suc k mod 2 ^ 52 = 0" by (simp_all only: nonzero_mult_div_cancel_right mod_mult_self2_is_0) simp_all
    then have "double_magnitude (Suc k) = 2 ^ 52 * 2 ^ e"
      by (simp only: double_magnitude_def Let_def) simp
    then show ?thesis unfolding dk using k(2) by (cases e) simp_all
  qed
qed

lemma double_magnitude_0: "double_magnitude 0 = 0"
  by (simp add: double_magnitude_def)

lemma signed_less:
  fixes a b c d :: nat
  assumes "a < b \<longleftrightarrow> c < d" "b < a \<longleftrightarrow> d < c" "a = 0 \<longleftrightarrow> c = 0" "b = 0 \<longleftrightarrow> d = 0"
  shows "(if s then - int a else int a) < (if t then - int b else int b) \<longleftrightarrow>
    (if s then - int c else int c) < (if t then - int d else int d)"
  using assms by (cases s; cases t) (simp_all, linarith+)

lemma double_key_value: "double_key x < double_key y \<longleftrightarrow> double_value x < double_value y"
proof -
  define a where "a x = unat (x AND 0x7fffffffffffffff)" for x :: u64
  have low: "x AND 0x7fffffffffffffff = x" if "\<not> bit x 63" for x :: u64
  proof -
    have "x AND mask 63 = x"
      using that by (intro bit_word_eqI) (auto simp: bit_simps less_Suc_eq_le order_le_less dest!: Suc_leI)
    then show ?thesis by (simp add: mask_eq_exp_minus_1)
  qed
  have k: "double_key x = (if bit x 63 then - int (a x) else int (a x))" for x
    by (cases "bit x 63") (simp_all add: double_key_def a_def low)
  have v: "double_value x = (if bit x 63 then - int (double_magnitude (a x)) else int (double_magnitude (a x)))" for x
    by (simp add: double_value_def a_def Let_def)
  have z: "double_magnitude m = 0 \<longleftrightarrow> m = 0" for m
    using strict_mono_eq [OF double_magnitude_mono, of m 0] by (simp add: double_magnitude_0)
  have less: "double_magnitude i < double_magnitude j \<longleftrightarrow> i < j" for i j
    by (rule strict_mono_less [OF double_magnitude_mono])
  show ?thesis unfolding k v by (rule signed_less [OF less less z z, symmetric])
qed

lemma double_less_order:
  "doubles_order x y = (if double_less x y then - 1 else if double_less y x then 1 else 0)"
  by (simp add: doubles_order_def double_less_def double_key_value)

lemma bytes_order_memcmp: "sgn (memcmp_bytes x y) = bytes_order x y"
proof -
  have "ord_class.lexordp x y \<longleftrightarrow> memcmp_bytes x y < 0" "memcmp_bytes x y = 0 \<longleftrightarrow> x = y"
    by (induction x y rule: memcmp_bytes.induct) (auto simp: word_less_def word_eq_iff_unsigned [where 'a = int])
  then show ?thesis by (auto simp: bytes_order_def sgn_if)
qed

lemma value_order_compare: "sgn (sqlite3MemCompare v k coll) = value_order coll v k"
  by (cases v; cases k)
    (auto simp: sqlite3MemCompare_def value_order_def double_less_order bytes_order_memcmp [symmetric] sgn_if split: option.splits)

lemma value_order_zero: "value_order coll v k = 0 \<longleftrightarrow> sqlite3MemCompare v k coll = 0"
  by (simp add: value_order_compare [symmetric] sgn_eq_0_iff)

lemma key_dirs_nth:
  "i < length (aColl info) \<Longrightarrow> drop i (key_dirs info) =
    (aColl info ! i, i < length (aSortOrder info) \<and> aSortOrder info ! i) # drop (i + 1) (key_dirs info)"
  by (subst Cons_nth_drop_Suc [symmetric]) (auto simp: key_dirs_def nth_append)

lemma key_dirs_end: "length (aColl info) \<le> i \<Longrightarrow> drop i (key_dirs info) = []"
  by (simp add: key_dirs_def)

definition keyinfo_ok :: "keyinfo \<Rightarrow> bool" where
  "keyinfo_ok info \<longleftrightarrow> aSortOrder info = [] \<or> length (aSortOrder info) = length (aColl info)"

lemma fields_order_cmp:
  "keyinfo_ok info \<Longrightarrow> sgn (fields_cmp info i vs ks) = fields_order (drop i (key_dirs info)) vs ks"
proof (induction info i vs ks rule: fields_cmp.induct)
  case (1 info i v vs k ks)
  note f = value_order_compare [of v k "field_coll info i"]
  note IH = "1.IH" [OF _ "1.prems"]
  have z: "field_cmp info i v k = 0 \<longleftrightarrow> value_order (field_coll info i) v k = 0"
    by (simp add: field_cmp_def value_order_zero Let_def)
  show ?case
  proof (cases "i < length (aColl info)")
    case True
    have d: "aSortOrder info \<noteq> [] \<and> aSortOrder info ! i \<longleftrightarrow> i < length (aSortOrder info) \<and> aSortOrder info ! i"
      using "1.prems" True by (auto simp: keyinfo_ok_def)
    show ?thesis
    proof (cases "value_order (field_coll info i) v k = 0")
      case False
      then show ?thesis using z f True d
        by (auto simp: field_cmp_def field_coll_def key_dirs_nth [OF True] Let_def sgn_minus)
    qed (use IH z True in \<open>simp add: field_coll_def key_dirs_nth [OF True]\<close>)
  next
    case False
    then show ?thesis using IH z f key_dirs_end [of info i] key_dirs_end [of info "i + 1"]
      by (auto simp: field_cmp_def field_coll_def Let_def)
  qed
qed (simp_all split: list.splits)

lemma record_order_cmp: "keyinfo_ok (pKeyInfo p) \<Longrightarrow> sgn (record_cmp p vs) = record_order p vs"
  using fields_order_cmp [of "pKeyInfo p" 0 vs "aMem p"]
  by (auto simp: record_cmp_def record_order_def Let_def sgn_eq_0_iff)

section \<open>The rowid at the end of an index entry\<close>

lemma int_type_put: "putVarint32 (sqlite3VdbeSerialType (MInt v) f) = [ucast (sqlite3VdbeSerialType (MInt v) f)]"
proof -
  have "sqlite3VdbeSerialType (MInt v) f < 0x80" using serial_int_type [of v f] by (auto simp: word_less_nat_alt)
  then show ?thesis by (simp add: putVarint32_def)
qed

lemma type_data_append:
  "type_bytes f (xs @ ys) = type_bytes f xs @ type_bytes f ys" "data_bytes f (xs @ ys) = data_bytes f xs @ data_bytes f ys"
  by (simp_all add: type_bytes_def data_bytes_def)

lemma IdxRowid_ok:
  assumes "\<forall>m \<in> set ms. mem_ok m" "length (record_bytes f (ms @ [MInt v])) < 2 ^ 31"
  shows "sqlite3VdbeIdxRowid (record_bytes f (ms @ [MInt v])) = Some (Inr v)"
proof -
  define z where "z = record_bytes f (ms @ [MInt v])"
  define p where "p = (\<lambda>i. if i < length z then z ! i else 0)"
  let ?t = "sqlite3VdbeSerialType (MInt v) f" and ?T = "type_bytes f (ms @ [MInt v])" and ?D = "data_bytes f (ms @ [MInt v])"
  let ?h = "record_header (length (type_bytes f (ms @ [MInt v])))" and ?l = "length (value_bytes f (MInt v))"
  have z: "starts_with p (record_bytes f (ms @ [MInt v]))" by (simp add: starts_with_def p_def z_def)
  note r = record_parts [OF z assms(2)]
  have T: "?T = type_bytes f ms @ [ucast ?t]" "?D = data_bytes f ms @ value_bytes f (MInt v)"
    by (simp_all add: type_data_append int_type_put)
  have ok: "mem_ok (MInt v)" by (simp add: mem_ok_def)
  have l: "sqlite3VdbeSerialTypeLen ?t = ?l" using value_length [OF ok] by simp
  have lz: "length z = ?h + length (data_bytes f ms) + ?l" using r(5) T(2) by (simp add: z_def)
  have n: "length z < 2 ^ 31" using assms(2) by (simp add: z_def)
  have "length (putVarint32 (word_of_nat ?h)) = ?h - length ?T"
    using record_header_size(1) [of "length ?T"] assms(2) by (simp add: record_bytes_def)
  then have h2: "2 \<le> ?h" using r(4) T(1) put32_length [of "word_of_nat ?h"] by simp
  have hw: "unat (word_of_nat ?h :: u32) = ?h" "sint (word_of_nat ?h :: u32) = int ?h"
    using sint_small [OF r(6)] by simp_all
  have h1: "unat (word_of_nat ?h - 1 :: u32) = ?h - 1" using h2 sint_small [of "?h - 1"] r(6) by (simp add: of_nat_diff [symmetric])
  have ty: "getVarint32 (from_at p (?h - 1)) = (?t, 1)"
  proof -
    have "starts_with (from_at p (?h - 1)) (putVarint32 ?t)"
      using r(2,4) T(1) by (simp add: starts_with_append int_type_put add.commute)
    from get_put32 [OF this] show ?thesis by (simp add: int_type_put)
  qed
  have val: "sqlite3VdbeSerialGet (from_at p (length z - ?l)) ?t = (MInt v, ?l)"
  proof -
    have "starts_with (from_at p (?h + length (data_bytes f ms))) (value_bytes f (MInt v))"
      using r(3) T(2) by (simp add: starts_with_append add.assoc)
    then show ?thesis using put_get_value [OF ok, of _ f] lz by simp
  qed
  have t: "\<not> (?t < 1 \<or> 9 < ?t \<or> ?t = 7)" using serial_int_type [of v f] by (auto simp: word_less_nat_alt)
  have "word_of_nat (length z) - word_of_nat ?l = (word_of_nat (?h + length (data_bytes f ms)) :: u32)"
    by (simp add: lz)
  moreover have "unat (word_of_nat (?h + length (data_bytes f ms)) :: u32) = ?h + length (data_bytes f ms)"
    using sint_small [of "?h + length (data_bytes f ms)"] n lz by simp
  ultimately have fit: "\<not> word_of_nat (length z) - word_of_nat ?l < (word_of_nat ?h :: u32)"
    by (simp add: word_less_nat_alt hw(1))
  have "\<not> (word_of_nat ?h :: u32) < 2" using h2 by (simp add: word_less_nat_alt hw(1))
  then have "idx_rowid (length z) p = Some (Inr v)"
    using n h2 lz t fit ty val by (simp add: idx_rowid_def r(1) Let_def h1 hw(2) l)
  then show ?thesis using n lz h2 by (simp add: sqlite3VdbeIdxRowid_def p_def flip: z_def)
qed


section \<open>Properties\<close>

text \<open>
  C3: A record unpacks to the registers it was packed from. Whatever \<^verbatim>\<open>OP_MakeRecord\<close> returned,
  reading its bytes, with the zero bytes it left implicit, gives back every field (up to the
  number of fields the key can hold), in any integer width and with the header size stored in
  the header itself; a real that is not a number becomes NULL. When every allocation succeeds
  nothing else changes. When one fails, which \<^verbatim>\<open>OP_MakeRecord\<close> does not notice in
  \<^verbatim>\<open>sqlite3VdbeMemExpandBlob\<close>, a blob with a prefix and a zero-filled tail may be read back as NULL,
  as the last part shows, and no other register is lost (the program ends at its next opcode with
  \<^verbatim>\<open>SQLITE_NOMEM\<close>, as \<^verbatim>\<open>db->mallocFailed\<close> is set). The bytes stored respect the length limit.
\<close>

theorem record_roundtrip:
  assumes "OP_MakeRecord f limit regs os = Inr (MBlob b nZero)" "\<forall>m \<in> set regs. mem_ok m" "length regs < 2 ^ 27"
    and "length b + nZero < 2 ^ 31" "starts_with aKey (b @ replicate nZero 0)"
  shows "length b \<le> limit \<and>
    (\<exists>vs. list_all2 (survives os) regs vs \<and>
      sqlite3VdbeRecordUnpack nField (int (length b + nZero)) aKey False os' = Some (Some (take (nField + 1) vs), os')) \<and>
    (False \<notin> set os \<longrightarrow> sqlite3VdbeRecordUnpack nField (int (length b + nZero)) aKey False os' =
      Some (Some (map stored (take (nField + 1) regs)), os')) \<and>
    OP_MakeRecord 4 100 [MInt 300, MBlob [7] 3] [False] = Inr (MBlob [3, 2, 0, 1, 44] 0)"
proof -
  define ms where "ms = fst (record_expand regs os)"
  note r = MakeRecord_bytes [OF assms(1-3), folded ms_def] and e = expand_stored [OF assms(2), of os, folded ms_def]
  have "length (record_bytes f ms) = length b + nZero" by (simp flip: r(2))
  then have u: "sqlite3VdbeRecordUnpack nField (int (length b + nZero)) aKey False os' =
      Some (Some (take (nField + 1) (map stored ms)), os')"
    using RecordUnpack_ok [OF conjunct1 [OF e], of aKey f nField False os'] r assms(4,5) by (simp add: take_map)
  moreover have "False \<notin> set os \<Longrightarrow> map stored ms = map stored regs" using e survives_all by blast
  moreover have "OP_MakeRecord 4 100 [MInt 300, MBlob [7] 3] [False] = Inr (MBlob [3, 2, 0, 1, 44] 0)" by code_simp
  ultimately show ?thesis using e r(1) by (auto simp flip: take_map)
qed

lemma record_example:
  "OP_MakeRecord 4 100 [MNull, MInt 300, MStr [0x61], MBlob [] 3] [] = Inr (MBlob [5, 0, 2, 15, 18, 1, 44, 0x61] 3)"
  by code_simp

lemma record_example_bytes:
  "starts_with ((!) ([5, 0, 2, 15, 18, 1, 44, 0x61, 0, 0, 0] @ [7, 7])) ([5, 0, 2, 15, 18, 1, 44, 0x61] @ replicate 3 0)"
  by (simp add: starts_with_def nth_append eval_nat_numeral All_less_Suc)

lemma record_roundtrip_witness:
  "sqlite3VdbeRecordUnpack 3 11 ((!) ([5, 0, 2, 15, 18, 1, 44, 0x61, 0, 0, 0] @ [7, 7])) False [] =
    Some (Some [MNull, MInt 300, MStr [0x61], MBlob [0, 0, 0] 0], [])"
  using record_roundtrip [OF record_example, of "(!) ([5, 0, 2, 15, 18, 1, 44, 0x61, 0, 0, 0] @ [7, 7])" 3 "[]"]
    record_example_bytes by (simp add: mem_ok_def numeral_3_eq_3)

text \<open>
  C14: Comparing a packed record with an unpacked key is the order of their values: NULL, numbers,
  texts, blobs, and inside a class by value, by collating sequence or by bytes; field by field,
  each in its sort direction, then by the flags and by the number of fields. With
  \<^verbatim>\<open>UNPACKED_IGNORE_ROWID\<close> the last field of the record does not count. The values are those of
  the registers packed, where every allocation succeeded. Without flags a record that is longer
  than an equal key is larger, but a key that is longer than an equal record is equal to it, as
  the last part shows.
\<close>

theorem record_compare:
  assumes "OP_MakeRecord f limit regs os = Inr (MBlob b nZero)" "\<forall>m \<in> set regs. mem_ok m" "length regs < 2 ^ 27"
    and "length b + nZero < 2 ^ 31" "starts_with aKey (b @ replicate nZero 0)"
    and "IGNORE_ROWID p \<Longrightarrow> \<exists>ws v. regs = ws @ [MInt v]" "keyinfo_ok (pKeyInfo p)"
  shows "(\<exists>vs c. list_all2 (survives os) regs vs \<and>
      sqlite3VdbeRecordCompare (int (length b + nZero)) aKey p = Some c \<and>
      sgn c = record_order p (if IGNORE_ROWID p then butlast vs else vs)) \<and>
    (False \<notin> set os \<longrightarrow> (\<exists>c. sqlite3VdbeRecordCompare (int (length b + nZero)) aKey p = Some c \<and>
      sgn c = record_order p (map stored (if IGNORE_ROWID p then butlast regs else regs)))) \<and>
    sqlite3VdbeRecordCompare 2 ((!) [2, 0]) \<lparr>pKeyInfo = \<lparr>aColl = [None, None], aSortOrder = []\<rparr>,
      aMem = [MNull, MNull], INCRKEY = False, IGNORE_ROWID = False, PREFIX_MATCH = False\<rparr> = Some 0"
proof -
  define ms where "ms = fst (record_expand regs os)"
  note r = MakeRecord_bytes [OF assms(1-3), folded ms_def] and e = expand_stored [OF assms(2), of os, folded ms_def]
  have n: "length (record_bytes f ms) = length b + nZero" by (simp flip: r(2))
  have last: "ms \<noteq> [] \<and> length (putVarint32 (sqlite3VdbeSerialType (last ms) f)) = 1"
    if "IGNORE_ROWID p" using assms(6) [OF that]
    by (auto simp: int_type_put ms_def record_expand_snoc split: prod.splits)
  have c: "sqlite3VdbeRecordCompare (int (length b + nZero)) aKey p =
      Some (record_cmp p (map stored (if IGNORE_ROWID p then butlast ms else ms)))"
    unfolding n [symmetric] using assms(4,5) last r(2) n by (intro RecordCompare_ok conjunct1 [OF e]) simp_all
  have o: "sgn (record_cmp p vs) = record_order p vs" for vs by (rule record_order_cmp [OF assms(7)])
  have "False \<notin> set os \<Longrightarrow> map stored ms = map stored regs" using e survives_all by blast
  moreover have "sqlite3VdbeRecordCompare 2 ((!) [2, 0]) \<lparr>pKeyInfo = \<lparr>aColl = [None, None], aSortOrder = []\<rparr>,
      aMem = [MNull, MNull], INCRKEY = False, IGNORE_ROWID = False, PREFIX_MATCH = False\<rparr> = Some 0" by code_simp
  ultimately show ?thesis using c o e by (cases "IGNORE_ROWID p") (auto simp: map_butlast)
qed

lemma record_compare_witness:
  "\<exists>c. sqlite3VdbeRecordCompare 11 ((!) ([5, 0, 2, 15, 18, 1, 44, 0x61, 0, 0, 0] @ [7, 7]))
    \<lparr>pKeyInfo = \<lparr>aColl = [None, None], aSortOrder = [False, True]\<rparr>, aMem = [MNull, MInt 301],
      INCRKEY = False, IGNORE_ROWID = False, PREFIX_MATCH = False\<rparr> = Some c \<and> sgn c = 1"
proof -
  let ?p = "\<lparr>pKeyInfo = \<lparr>aColl = [None, None], aSortOrder = [False, True]\<rparr>, aMem = [MNull, MInt 301],
      INCRKEY = False, IGNORE_ROWID = False, PREFIX_MATCH = False\<rparr>"
  have "record_order ?p [MNull, MInt 300, MStr [0x61], MBlob [0, 0, 0] 0] = 1" by code_simp
  then show ?thesis
    using record_compare [OF record_example, of "(!) ([5, 0, 2, 15, 18, 1, 44, 0x61, 0, 0, 0] @ [7, 7])" ?p]
      record_example_bytes by (simp add: mem_ok_def keyinfo_ok_def numeral_3_eq_3)
qed

text \<open>
  C15: The rowid at the end of an index record is read back. The check against corrupt entries
  is not complete: its difference is unsigned, so for an entry shorter than the rowid it
  announces the read starts outside the entry.
\<close>

theorem IdxRowid_reads:
  assumes "OP_MakeRecord f limit (regs @ [MInt v]) os = Inr (MBlob b nZero)" "\<forall>m \<in> set regs. mem_ok m"
    and "length regs + 1 < 2 ^ 27" "length b + nZero < 2 ^ 31"
  shows "sqlite3VdbeIdxRowid (b @ replicate nZero 0) = Some (Inr v) \<and>
    sqlite3VdbeIdxRowid [2, 1] = Some (Inl SQLITE_CORRUPT) \<and> sqlite3VdbeIdxRowid [2, 6] = None"
proof -
  have ok: "\<forall>m \<in> set (regs @ [MInt v]). mem_ok m" using assms(2) by (simp add: mem_ok_def)
  define ms where "ms = fst (record_expand regs os)"
  have "fst (record_expand (regs @ [MInt v]) os) = ms @ [MInt v]"
    by (simp add: record_expand_snoc ms_def case_prod_unfold)
  then have "b @ replicate nZero 0 = record_bytes f (ms @ [MInt v])"
    using MakeRecord_bytes(2) [OF assms(1) ok] assms(3) by simp
  moreover from this have "length (record_bytes f (ms @ [MInt v])) < 2 ^ 31"
    using assms(4) by (metis length_append length_replicate)
  moreover have "\<forall>m \<in> set ms. mem_ok m" using expand_stored [OF assms(2), of os] by (simp add: ms_def)
  moreover have "idx_rowid 2 (\<lambda>i. if i < 2 then [2, 1] ! i else 0) = Some (Inl SQLITE_CORRUPT)"
    "idx_rowid 2 (\<lambda>i. if i < 2 then [2, 6] ! i else 0) = None" by code_simp+
  then have "sqlite3VdbeIdxRowid [2, 1] = Some (Inl SQLITE_CORRUPT)" "sqlite3VdbeIdxRowid [2, 6] = None"
    by (simp_all add: sqlite3VdbeIdxRowid_def numeral_2_eq_2)
  ultimately show ?thesis using IdxRowid_ok by (simp only:)
qed

lemma IdxRowid_reads_witness: "sqlite3VdbeIdxRowid [3, 15, 1, 0x61, 44] = Some (Inr 44)"
proof -
  have "OP_MakeRecord 4 100 ([MStr [0x61]] @ [MInt 44]) [] = Inr (MBlob [3, 15, 1, 0x61, 44] 0)" by code_simp
  from IdxRowid_reads [OF this] show ?thesis by (simp add: mem_ok_def)
qed

end
