(* ===== verification/RowSet.thy ===== *)
theory RowSet
  imports Prelude
begin

text \<open>
  The set of row ids of \<^verbatim>\<open>rowset.c\<close>: values are inserted first, then drained in ascending order
  without duplicates. The linked list of entries is the list of their values; the C merge
  sort keeps its runs in an array of 40 buckets.
\<close>

section \<open>The code\<close>

text \<open>The entries of one allocation.\<close>

abbreviation (input) ROWSET_ENTRY_PER_CHUNK :: nat where "ROWSET_ENTRY_PER_CHUNK \<equiv> 63"

text \<open>
  \<^verbatim>\<open>pChunk\<close> is the number of chunks held, \<^verbatim>\<open>pLast\<close> the value of the entry it points at. Fresh
  entries are only counted.
\<close>

record rowset =
  pChunk :: nat
  pEntry :: "int list"
  pLast :: "int option"
  nFresh :: nat
  isSorted :: bool

definition sqlite3RowSetInit :: "nat \<Rightarrow> rowset" where
  "sqlite3RowSetInit surplus =
    \<lparr>pChunk = 0, pEntry = [], pLast = None, nFresh = surplus mod 2 ^ 16, isSorted = True\<rparr>"

definition sqlite3RowSetClear :: "rowset \<Rightarrow> rowset" where
  "sqlite3RowSetClear p = p\<lparr>pChunk := 0, nFresh := 0, pEntry := [], pLast := None, isSorted := True\<rparr>"

text \<open>
  \<^verbatim>\<open>sqlite3RowSetInsert\<close>; \<open>None\<close> as the set is the null pointer. With assertions off, an insertion
  without a last entry replaces the list.
\<close>

definition sqlite3RowSetInsert :: "rowset option \<Rightarrow> int \<Rightarrow> outcomes \<Rightarrow> rowset option \<times> outcomes" where
  "sqlite3RowSetInsert p rowid os =
    (case p of None \<Rightarrow> (None, os)
     | Some p \<Rightarrow>
        let (fresh, os) =
          (if nFresh p = 0 then
             (case alloc_next os of (ok, os) \<Rightarrow>
                (if ok then Some (p\<lparr>pChunk := pChunk p + 1, nFresh := ROWSET_ENTRY_PER_CHUNK\<rparr>) else None, os))
           else (Some p, os)) in
        (case fresh of None \<Rightarrow> (Some p, os)
         | Some p \<Rightarrow>
            let p = p\<lparr>nFresh := nFresh p - 1\<rparr> in
            (Some (case pLast p of
               Some l \<Rightarrow> p\<lparr>isSorted := isSorted p \<and> \<not> rowid \<le> l, pEntry := pEntry p @ [rowid], pLast := Some rowid\<rparr>
             | None \<Rightarrow> p\<lparr>pEntry := [rowid], pLast := Some rowid\<rparr>), os)))"

text \<open>The merge of two sorted lists: equal heads drop the one of the first list.\<close>

fun boolidxMerge :: "int list \<Rightarrow> int list \<Rightarrow> int list" where
  "boolidxMerge (a # as) (b # bs) =
    (if a < b then a # boolidxMerge as (b # bs)
     else if b < a then b # boolidxMerge (a # as) bs
     else boolidxMerge as (b # bs))"
| "boolidxMerge as [] = as"
| "boolidxMerge [] bs = bs"

text \<open>
  The inner loop of the sort: merge the run into the occupied buckets from the front and put
  it in the first empty one. \<open>None\<close> is a run that leaves the array.
\<close>

fun bucket_put :: "int list list \<Rightarrow> int list \<Rightarrow> int list list option" where
  "bucket_put [] e = None"
| "bucket_put (b # bs) e =
    (if b \<noteq> [] then
       (case bucket_put bs (boolidxMerge b e) of None \<Rightarrow> None | Some bs \<Rightarrow> Some ([] # bs))
     else Some (e # bs))"

fun bucket_all :: "int list list \<Rightarrow> int list \<Rightarrow> int list list option" where
  "bucket_all bs [] = Some bs"
| "bucket_all bs (v # vs) = (case bucket_put bs [v] of None \<Rightarrow> None | Some bs \<Rightarrow> bucket_all bs vs)"

definition sqlite3RowSetSort :: "rowset \<Rightarrow> rowset option" where
  "sqlite3RowSetSort p =
    (case bucket_all (replicate 40 []) (pEntry p) of None \<Rightarrow> None
     | Some bs \<Rightarrow> Some (p\<lparr>pEntry := foldl boolidxMerge [] bs, pLast := None, isSorted := True\<rparr>))"

text \<open>The extracted value, or \<open>None\<close> for the result 0.\<close>

definition sqlite3RowSetNext :: "rowset \<Rightarrow> (int option \<times> rowset) option" where
  "sqlite3RowSetNext p =
    (case (if isSorted p then Some p else sqlite3RowSetSort p) of None \<Rightarrow> None
     | Some p \<Rightarrow>
        (case pEntry p of
           v # vs \<Rightarrow> Some (Some v, if vs = [] then sqlite3RowSetClear p else p\<lparr>pEntry := vs\<rparr>)
         | [] \<Rightarrow> Some (None, p)))"

section \<open>The merge sort\<close>

text \<open>Strictly ascending lists: what \<^verbatim>\<open>isSorted\<close> promises.\<close>

abbreviation ascending :: "int list \<Rightarrow> bool" where "ascending \<equiv> sorted_wrt (<)"

lemma merge_Nil [simp]: "boolidxMerge [] bs = bs" "boolidxMerge as [] = as"
  by (cases bs; simp) (cases as; simp)

lemma merge_set: "set (boolidxMerge as bs) = set as \<union> set bs"
  by (induction as bs rule: boolidxMerge.induct) auto

lemma merge_ascending: "ascending as \<Longrightarrow> ascending bs \<Longrightarrow> ascending (boolidxMerge as bs)"
  by (induction as bs rule: boolidxMerge.induct) (auto simp: merge_set)

lemma merge_not_Nil: "bs \<noteq> [] \<Longrightarrow> boolidxMerge as bs \<noteq> []"
  by (metis merge_set set_empty sup_eq_bot_iff)

lemma fold_merge: "ascending as \<Longrightarrow> \<forall>b \<in> set bs. ascending b \<Longrightarrow>
    ascending (foldl boolidxMerge as bs) \<and> set (foldl boolidxMerge as bs) = set as \<union> \<Union> (set ` set bs)"
  by (induction bs arbitrary: as) (auto simp: merge_ascending merge_set)

text \<open>The occupied buckets are the binary digits of the number of entries put so far.\<close>

fun bucket_count :: "int list list \<Rightarrow> nat" where
  "bucket_count [] = 0"
| "bucket_count (b # bs) = (if b = [] then 0 else 1) + 2 * bucket_count bs"

lemma bucket_count_less: "bucket_count bs < 2 ^ length bs"
  by (induction bs) auto

lemma bucket_put_total: "bucket_count bs + 1 < 2 ^ length bs \<Longrightarrow> e \<noteq> [] \<Longrightarrow> \<exists>bs'. bucket_put bs e = Some bs' \<and>
    length bs' = length bs \<and> bucket_count bs' = bucket_count bs + 1"
proof (induction bs arbitrary: e)
  case (Cons b bs)
  show ?case
  proof (cases "b = []")
    case False
    have "bucket_count bs + 1 < 2 ^ length bs" using Cons.prems False by auto
    from Cons.IH [OF this merge_not_Nil [OF Cons.prems(2)]] obtain bs' where
      "bucket_put bs (boolidxMerge b e) = Some bs'" "length bs' = length bs" "bucket_count bs' = bucket_count bs + 1" by blast
    then show ?thesis using False by simp
  qed (use Cons.prems in simp)
qed simp

lemma bucket_put_set: "bucket_put bs e = Some bs' \<Longrightarrow> \<forall>b \<in> set bs. ascending b \<Longrightarrow> ascending e \<Longrightarrow>
    (\<forall>b \<in> set bs'. ascending b) \<and> \<Union> (set ` set bs') = \<Union> (set ` set bs) \<union> set e"
proof (induction bs arbitrary: e bs')
  case (Cons b bs)
  show ?case
  proof (cases "b = []")
    case False
    then obtain cs where cs: "bucket_put bs (boolidxMerge b e) = Some cs" "bs' = [] # cs"
      using Cons.prems(1) by (auto split: option.splits)
    have "ascending (boolidxMerge b e)" using Cons.prems by (simp add: merge_ascending)
    from Cons.IH [OF cs(1) _ this] Cons.prems(2) cs(2) show ?thesis by (auto simp: merge_set)
  qed (use Cons.prems in auto)
qed simp

lemma bucket_all_ok: "bucket_count bs + length vs < 2 ^ length bs \<Longrightarrow> \<forall>b \<in> set bs. ascending b \<Longrightarrow>
    \<exists>bs'. bucket_all bs vs = Some bs' \<and> (\<forall>b \<in> set bs'. ascending b) \<and> \<Union> (set ` set bs') = \<Union> (set ` set bs) \<union> set vs"
proof (induction vs arbitrary: bs)
  case (Cons v vs)
  from Cons.prems(1) obtain cs where cs: "bucket_put bs [v] = Some cs" "length cs = length bs" "bucket_count cs = bucket_count bs + 1"
    using bucket_put_total [of bs "[v]"] by auto
  have s: "(\<forall>b \<in> set cs. ascending b) \<and> \<Union> (set ` set cs) = \<Union> (set ` set bs) \<union> {v}"
    using bucket_put_set [OF cs(1) Cons.prems(2)] by simp
  have "bucket_count cs + length vs < 2 ^ length cs" using Cons.prems(1) cs by simp
  from Cons.IH [OF this] s obtain bs' where
    "bucket_all cs vs = Some bs'" "\<forall>b \<in> set bs'. ascending b" "\<Union> (set ` set bs') = \<Union> (set ` set cs) \<union> set vs" by blast
  then show ?case using cs(1) s by auto
qed auto

lemma ascending_unique: "ascending xs \<Longrightarrow> xs = sorted_list_of_set (set xs)"
  by (metis sorted_list_of_set.idem_if_sorted_distinct strict_sorted_iff)

lemma sort_entries:
  assumes "length (pEntry p) < 2 ^ 40"
  shows "sqlite3RowSetSort p = Some (p\<lparr>pEntry := sorted_list_of_set (set (pEntry p)), pLast := None, isSorted := True\<rparr>)"
proof -
  have "bucket_count (replicate n []) = 0" for n by (induction n) simp_all
  then obtain bs where bs: "bucket_all (replicate 40 []) (pEntry p) = Some bs" "\<forall>b \<in> set bs. ascending b"
      "\<Union> (set ` set bs) = set (pEntry p)"
    using bucket_all_ok [of "replicate 40 []" "pEntry p"] assms by auto
  have "ascending (foldl boolidxMerge [] bs) \<and> set (foldl boolidxMerge [] bs) = set (pEntry p)"
    using fold_merge [of "[]" bs] bs by simp
  then have "foldl boolidxMerge [] bs = sorted_list_of_set (set (pEntry p))" by (metis ascending_unique)
  then show ?thesis using bs(1) by (simp add: sqlite3RowSetSort_def)
qed

section \<open>Filling and draining\<close>

text \<open>The state in which values may be inserted.\<close>

definition filling :: "rowset \<Rightarrow> bool" where
  "filling p \<longleftrightarrow> pLast p = (if pEntry p = [] then None else Some (last (pEntry p))) \<and>
     (isSorted p \<longrightarrow> ascending (pEntry p))"

lemma ascending_snoc: "ascending xs \<Longrightarrow> xs \<noteq> [] \<Longrightarrow> last xs < v \<Longrightarrow> ascending (xs @ [v])"
proof -
  assume *: "ascending xs" "xs \<noteq> []" "last xs < v"
  have "x \<le> last xs" if "x \<in> set xs" for x
    using *(1,2) that by (induction xs) (auto dest: less_imp_le)
  then show ?thesis using * by (force simp: sorted_wrt_append)
qed

text \<open>Whether the next insertion has an entry to use.\<close>

definition has_room :: "rowset \<Rightarrow> outcomes \<Rightarrow> bool" where
  "has_room p os \<longleftrightarrow> nFresh p \<noteq> 0 \<or> fst (alloc_next os)"

lemma insert_filling:
  assumes "filling p"
  shows "\<exists>q os'. sqlite3RowSetInsert (Some p) v os = (Some q, os') \<and> filling q \<and>
    pEntry q = (if has_room p os then pEntry p @ [v] else pEntry p) \<and> (os = [] \<longrightarrow> os' = [] \<and> has_room p os)"
proof -
  obtain b os1 where a: "alloc_next os = (b, os1)" by (cases "alloc_next os") auto
  have n: "os = [] \<Longrightarrow> b \<and> os1 = []" using a by auto
  have asc: "pEntry p \<noteq> [] \<Longrightarrow> isSorted p \<Longrightarrow> last (pEntry p) < v \<Longrightarrow> ascending (pEntry p @ [v])"
    using assms by (simp add: filling_def ascending_snoc)
  show ?thesis
  proof (cases "pEntry p = []")
    case True
    then have "pLast p = None" using assms by (simp add: filling_def)
    then show ?thesis using assms a n True
      by (cases b; cases "nFresh p = 0") (auto simp: sqlite3RowSetInsert_def has_room_def filling_def)
  next
    case False
    then have "pLast p = Some (last (pEntry p))" using assms by (simp add: filling_def)
    then show ?thesis using assms a n asc False
      by (cases b; cases "nFresh p = 0") (auto simp: sqlite3RowSetInsert_def has_room_def filling_def not_le)
  qed
qed

text \<open>A caller that inserts a list of values, and one that drains the set with at most \<open>f\<close> calls.\<close>

fun rowset_fill :: "rowset option \<Rightarrow> int list \<Rightarrow> outcomes \<Rightarrow> rowset option \<times> outcomes" where
  "rowset_fill p [] os = (p, os)"
| "rowset_fill p (v # vs) os = (case sqlite3RowSetInsert p v os of (p, os) \<Rightarrow> rowset_fill p vs os)"

fun rowset_drain :: "nat \<Rightarrow> rowset \<Rightarrow> (int list \<times> rowset) option" where
  "rowset_drain 0 p = None"
| "rowset_drain (Suc f) p =
    (case sqlite3RowSetNext p of None \<Rightarrow> None
     | Some (None, p) \<Rightarrow> Some ([], p)
     | Some (Some v, p) \<Rightarrow> (case rowset_drain f p of None \<Rightarrow> None | Some (vs, p) \<Rightarrow> Some (v # vs, p)))"

lemma fill_filling: "filling p \<Longrightarrow> \<exists>q os'. rowset_fill (Some p) vs os = (Some q, os') \<and> filling q \<and>
    set (pEntry q) \<subseteq> set (pEntry p) \<union> set vs \<and> length (pEntry q) \<le> length (pEntry p) + length vs \<and>
    (os = [] \<longrightarrow> os' = [] \<and> pEntry q = pEntry p @ vs)"
proof (induction vs arbitrary: p os)
  case (Cons v vs)
  from insert_filling [OF Cons.prems, of v os] obtain q1 os1 where
    q1: "sqlite3RowSetInsert (Some p) v os = (Some q1, os1)" "filling q1"
      "pEntry q1 = (if has_room p os then pEntry p @ [v] else pEntry p)" "os = [] \<longrightarrow> os1 = [] \<and> has_room p os" by blast
  from Cons.IH [OF q1(2), of os1] obtain q os' where
    "rowset_fill (Some q1) vs os1 = (Some q, os')" "filling q" "set (pEntry q) \<subseteq> set (pEntry q1) \<union> set vs"
      "length (pEntry q) \<le> length (pEntry q1) + length vs" "os1 = [] \<longrightarrow> os' = [] \<and> pEntry q = pEntry q1 @ vs" by blast
  then show ?case using q1 by (intro exI [of _ q] exI [of _ os']) (auto split: if_splits)
qed simp

lemma drain_sorted: "isSorted p \<Longrightarrow> length (pEntry p) < f \<Longrightarrow>
    \<exists>q. rowset_drain f p = Some (pEntry p, q) \<and> pEntry q = [] \<and> (pEntry p \<noteq> [] \<longrightarrow> filling q)"
proof (induction f arbitrary: p)
  case (Suc f)
  show ?case
  proof (cases "pEntry p")
    case (Cons v vs)
    let ?q = "if vs = [] then sqlite3RowSetClear p else p\<lparr>pEntry := vs\<rparr>"
    have n: "sqlite3RowSetNext p = Some (Some v, ?q)" using Cons Suc.prems by (simp add: sqlite3RowSetNext_def)
    have e: "pEntry ?q = vs" "isSorted ?q" using Suc.prems by (simp_all add: sqlite3RowSetClear_def)
    have c: "vs = [] \<Longrightarrow> filling ?q" by (simp add: sqlite3RowSetClear_def filling_def)
    from Suc.IH [OF e(2)] e(1) Cons Suc.prems obtain q where
      q: "rowset_drain f ?q = Some (vs, q)" "pEntry q = []" "vs \<noteq> [] \<longrightarrow> filling q" by auto
    have "filling q"
    proof (cases "vs = []")
      case True
      with Suc.prems Cons obtain g where "f = Suc g" by (cases f) auto
      then show ?thesis using q c True e by (simp add: sqlite3RowSetNext_def)
    qed (use q in simp)
    then show ?thesis using n q Cons by simp
  qed (use Suc.prems in \<open>simp add: sqlite3RowSetNext_def\<close>)
qed simp

lemma drain_filling:
  assumes "filling p" "length (pEntry p) < 2 ^ 40" "length (pEntry p) < f"
  shows "\<exists>q. rowset_drain f p = Some (sorted_list_of_set (set (pEntry p)), q) \<and> filling q \<and> pEntry q = []"
proof (cases "isSorted p")
  case True
  then have "pEntry p = sorted_list_of_set (set (pEntry p))"
    using assms(1) by (simp add: filling_def ascending_unique [symmetric])
  moreover have "pEntry p = [] \<Longrightarrow> rowset_drain f p = Some ([], p)"
    using True assms(3) by (cases f) (simp_all add: sqlite3RowSetNext_def)
  ultimately show ?thesis using drain_sorted [OF True assms(3)] assms(1) by (cases "pEntry p = []") auto
next
  case False
  let ?xs = "sorted_list_of_set (set (pEntry p))"
  let ?p = "p\<lparr>pEntry := ?xs, pLast := None, isSorted := True\<rparr>"
  have "sqlite3RowSetNext p = sqlite3RowSetNext ?p"
    using False sort_entries [OF assms(2)] by (simp add: sqlite3RowSetNext_def)
  then have d: "rowset_drain f p = rowset_drain f ?p" by (cases f) simp_all
  have "length ?xs \<le> length (pEntry p)" by (simp add: card_length)
  then obtain q where q: "rowset_drain f ?p = Some (?xs, q)" "pEntry q = []" "?xs \<noteq> [] \<longrightarrow> filling q"
    using drain_sorted [of ?p f] assms(3) by auto
  moreover have "?xs = [] \<Longrightarrow> filling q"
    using q assms(3) by (cases f) (auto simp: sqlite3RowSetNext_def filling_def)
  ultimately show ?thesis using d by auto
qed

section \<open>Properties\<close>

text \<open>
  The sort of fewer than \<open>2 ^ 40\<close> entries stays inside its 40 buckets and leaves exactly the
  values of the list, in strictly ascending order.
\<close>

theorem RowSetSort_correct:
  assumes "length (pEntry p) < 2 ^ 40"
  shows "\<exists>q. sqlite3RowSetSort p = Some q \<and> ascending (pEntry q) \<and> set (pEntry q) = set (pEntry p) \<and> isSorted q"
  using sort_entries [OF assms] by simp

lemma RowSetSort_correct_witness:
  "\<exists>q. sqlite3RowSetSort \<lparr>pChunk = 0, pEntry = [5, 3, 5, - 1], pLast = Some (- 1), nFresh = 4, isSorted = False\<rparr> = Some q \<and>
    ascending (pEntry q)"
  using RowSetSort_correct [of "\<lparr>pChunk = 0, pEntry = [5, 3, 5, - 1], pLast = Some (- 1), nFresh = 4, isSorted = False\<rparr>"]
  by auto

text \<open>
  C36: Whatever allocations fail, a set that was initialised, filled with fewer than \<open>2 ^ 40\<close>
  values and then drained returns each value once, in ascending order, and nothing that was
  not inserted; if no allocation fails it returns all of them. Draining ends after one call
  more than there are values, in a state in which the set can be filled again.
\<close>

theorem rowset_drains_sorted:
  assumes "length vs < 2 ^ 40"
  shows "\<exists>p os' S q. rowset_fill (Some (sqlite3RowSetInit n)) vs os = (Some p, os') \<and>
    rowset_drain (length vs + 1) p = Some (sorted_list_of_set S, q) \<and> S \<subseteq> set vs \<and> (os = [] \<longrightarrow> S = set vs) \<and>
    filling q \<and> pEntry q = []"
proof -
  have i: "filling (sqlite3RowSetInit n)" "pEntry (sqlite3RowSetInit n) = []"
    by (simp_all add: filling_def sqlite3RowSetInit_def)
  from fill_filling [OF i(1), of vs os] i(2) obtain p os' where
    p: "rowset_fill (Some (sqlite3RowSetInit n)) vs os = (Some p, os')" "filling p" "set (pEntry p) \<subseteq> set vs"
      "length (pEntry p) \<le> length vs" "os = [] \<longrightarrow> pEntry p = vs" by auto
  then show ?thesis using drain_filling [OF p(2), of "length vs + 1"] assms by fastforce
qed

lemma rowset_drains_sorted_witness:
  "\<exists>p os' S q. rowset_fill (Some (sqlite3RowSetInit 1)) [7, 3, 7] [] = (Some p, os') \<and>
    rowset_drain (length [7 :: int, 3, 7] + 1) p = Some (sorted_list_of_set S, q) \<and> S = {7, 3, 7}"
proof -
  have "length [7 :: int, 3, 7] < 2 ^ 40" "set [7 :: int, 3, 7] = {7, 3, 7}" by simp_all
  then show ?thesis using rowset_drains_sorted [of "[7, 3, 7]" 1 "[]"] by metis
qed

end
