(* ===== verification/TextValue.thy ===== *)
theory TextValue
  imports Utf
begin

text \<open>
  The text of a value, as \<^verbatim>\<open>vdbemem.c\<close> and \<^verbatim>\<open>utf.c\<close> keep it: growing its memory, making it writable
  and terminated, setting it, removing a byte-order mark and translating it from one encoding to
  another, up to \<^verbatim>\<open>sqlite3Utf16to8\<close>.

  A \<^verbatim>\<open>Mem\<close> is a record: the bytes known at \<^verbatim>\<open>z\<close>, its length \<^verbatim>\<open>n\<close>, its encoding, the type flag, the
  flag \<^verbatim>\<open>MEM_Term\<close>, whether \<^verbatim>\<open>z\<close> is \<^verbatim>\<open>zMalloc\<close>, and the size of \<^verbatim>\<open>zMalloc\<close>, 0 without one. A null
  pointer \<^verbatim>\<open>z\<close> has no bytes. An allocation is as large as it was asked for. A result \<open>None\<close> is an
  access outside the memory of the text. Numbers, zero tails, row sets and aggregates are other
  kinds of value.
\<close>

section \<open>Memory\<close>

datatype memflag = MEM_Null | MEM_Str | MEM_Blob

record memtext =
  mz :: "u8 list"
  mn :: nat
  menc :: encoding
  mflag :: memflag
  mterm :: bool
  mown :: bool
  mspare :: nat

definition sqlite3VdbeMemGrow :: "outcomes \<Rightarrow> memtext \<Rightarrow> nat \<Rightarrow> bool \<Rightarrow> bool \<times> memtext \<times> outcomes" where
  "sqlite3VdbeMemGrow os m n preserve =
    (let n = max n 32;
         copied = (if preserve then take (mn m) (mz m) else [])
     in if n \<le> mspare m then (True, m\<lparr>mz := if mown m then mz m else copied, mown := True\<rparr>, os)
        else case alloc_next os of (ok, os) \<Rightarrow>
          if ok then
            (True, m\<lparr>mz := if preserve \<and> mown m then mz m else copied, mown := True, mspare := n\<rparr>, os)
          else (False, m\<lparr>mz := [], mflag := MEM_Null, mterm := False, mown := False, mspare := 0\<rparr>, os))"

text \<open>The two zero bytes behind the text.\<close>

definition terminate :: "memtext \<Rightarrow> memtext" where
  "terminate m = m\<lparr>mz := take (mn m) (mz m) @ [0, 0] @ drop (mn m + 2) (mz m), mterm := True\<rparr>"

definition sqlite3VdbeMemMakeWriteable :: "outcomes \<Rightarrow> memtext \<Rightarrow> bool \<times> memtext \<times> outcomes" where
  "sqlite3VdbeMemMakeWriteable os m =
    (if mflag m \<noteq> MEM_Null \<and> \<not> mown m then
       case sqlite3VdbeMemGrow os m (mn m + 2) True of (ok, m, os) \<Rightarrow>
         if \<not> ok then (False, m, os) else (True, terminate m, os)
     else (True, m, os))"

definition sqlite3VdbeMemNulTerminate :: "outcomes \<Rightarrow> memtext \<Rightarrow> bool \<times> memtext \<times> outcomes" where
  "sqlite3VdbeMemNulTerminate os m =
    (if mterm m \<or> mflag m \<noteq> MEM_Str then (True, m, os)
     else case sqlite3VdbeMemGrow os m (mn m + 2) True of (ok, m, os) \<Rightarrow>
       if \<not> ok then (False, m, os) else (True, terminate m, os))"

definition sqlite3VdbeMemRelease :: "memtext \<Rightarrow> memtext" where
  "sqlite3VdbeMemRelease m = m\<lparr>mz := [], mown := False, mspare := 0\<rparr>"

section \<open>Encodings\<close>

definition sqlite3VdbeMemTranslate :: "outcomes \<Rightarrow> memtext \<Rightarrow> encoding \<Rightarrow> (bool \<times> memtext \<times> outcomes) option" where
  "sqlite3VdbeMemTranslate os m desiredEnc =
    (if menc m \<noteq> UTF8 \<and> desiredEnc \<noteq> UTF8 then
       case sqlite3VdbeMemMakeWriteable os m of (ok, m, os) \<Rightarrow>
         if \<not> ok then Some (False, m, os)
         else Some (True, m\<lparr>mz := swap_bytes (mn m div 2) (mz m), menc := desiredEnc\<rparr>, os)
     else
       let m = (if desiredEnc = UTF8 then m\<lparr>mn := mn m - mn m mod 2\<rparr> else m);
           len = (if desiredEnc = UTF8 then mn m * 2 + 1 else mn m * 2 + 2)
       in case alloc_next os of (ok, os) \<Rightarrow>
         if \<not> ok then Some (False, m, os)
         else
           let written = (\<lambda>out end. Some (True, (sqlite3VdbeMemRelease m)\<lparr>mz := out @ end, mn := length out,
             menc := desiredEnc, mterm := True, mown := True, mspare := len\<rparr>, os))
           in if menc m = UTF8 then
                written (utf8_to_16 (if desiredEnc = UTF16LE then WRITE_UTF16LE else WRITE_UTF16BE) (take (mn m) (mz m))) [0, 0]
              else
                case utf16_to_8 (if menc m = UTF16LE then READ_UTF16LE else READ_UTF16BE) (mn m) (mz m) of
                  None \<Rightarrow> None
                | Some out \<Rightarrow> written out [0])"

definition sqlite3VdbeMemHandleBom :: "outcomes \<Rightarrow> memtext \<Rightarrow> bool \<times> memtext \<times> outcomes" where
  "sqlite3VdbeMemHandleBom os m =
    (let b1 = mz m ! 0; b2 = mz m ! 1;
         bom = (if mn m \<le> 1 then None
                else if b1 = 0xFE \<and> b2 = 0xFF then Some UTF16BE
                else if b1 = 0xFF \<and> b2 = 0xFE then Some UTF16LE else None)
     in case bom of
          None \<Rightarrow> (True, m, os)
        | Some e \<Rightarrow>
            (case sqlite3VdbeMemMakeWriteable os m of (ok, m, os) \<Rightarrow>
               if \<not> ok then (False, m, os)
               else let n = mn m - 2
                    in (True, (terminate (m\<lparr>mz := take n (drop 2 (mz m)) @ drop n (mz m), mn := n\<rparr>))\<lparr>menc := e\<rparr>, os)))"

definition sqlite3VdbeChangeEncoding :: "outcomes \<Rightarrow> memtext \<Rightarrow> encoding \<Rightarrow> (bool \<times> memtext \<times> outcomes) option" where
  "sqlite3VdbeChangeEncoding os m desiredEnc =
    (if mflag m \<noteq> MEM_Str \<or> menc m = desiredEnc then Some (True, m, os) else sqlite3VdbeMemTranslate os m desiredEnc)"

section \<open>Setting a text\<close>

datatype destructor = SQLITE_STATIC | SQLITE_DYNAMIC | SQLITE_TRANSIENT | Destructor
datatype set_rc = SET_OK | SET_NOMEM | SET_TOOBIG

text \<open>The length up to the terminator, read no further than one step beyond the limit.\<close>

fun scan8 :: "nat \<Rightarrow> u8 list \<Rightarrow> nat option" where
  "scan8 lim [] = None"
| "scan8 lim (b # z) =
    (if b = 0 then Some 0 else case lim of 0 \<Rightarrow> Some 1 | Suc lim \<Rightarrow> map_option Suc (scan8 lim z))"

fun scan16 :: "nat \<Rightarrow> u8 list \<Rightarrow> nat option" where
  "scan16 lim (a # b # z) =
    (if a = 0 \<and> b = 0 then Some 0 else if lim < 2 then Some 2 else map_option (\<lambda>n. n + 2) (scan16 (lim - 2) z))"
| "scan16 lim _ = None"

text \<open>\<open>enc\<close> is \<open>None\<close> for a blob.\<close>

definition text_length :: "nat \<Rightarrow> u8 list \<Rightarrow> int \<Rightarrow> encoding option \<Rightarrow> nat option" where
  "text_length iLimit z nByte enc =
    (if nByte < 0 then (if enc = Some UTF8 then scan8 iLimit z else scan16 iLimit z) else Some (nat nByte))"

definition encoding_of :: "encoding option \<Rightarrow> encoding" where
  "encoding_of enc = (case enc of None \<Rightarrow> UTF8 | Some e \<Rightarrow> e)"

text \<open>The last step of setting a text: its fields, and the mark.\<close>

definition finish :: "nat \<Rightarrow> nat \<Rightarrow> int \<Rightarrow> encoding option \<Rightarrow> memtext \<Rightarrow> outcomes \<Rightarrow> (set_rc \<times> memtext \<times> outcomes) option" where
  "finish iLimit n nByte enc m os =
    (if iLimit < n then Some (SET_TOOBIG, m, os)
     else let m = m\<lparr>mn := n, mflag := if enc = None then MEM_Blob else MEM_Str, mterm := nByte < 0, menc := encoding_of enc\<rparr>
          in if encoding_of enc = UTF8 then Some (SET_OK, m, os)
             else case sqlite3VdbeMemHandleBom os m of (ok, m, os) \<Rightarrow> Some (if ok then SET_OK else SET_NOMEM, m, os))"

text \<open>\<open>z\<close> is \<open>None\<close> for a null pointer; \<open>iLimit\<close> is the limit of the connection.\<close>

definition sqlite3VdbeMemSetStr ::
  "nat \<Rightarrow> outcomes \<Rightarrow> memtext \<Rightarrow> u8 list option \<Rightarrow> int \<Rightarrow> encoding option \<Rightarrow> destructor \<Rightarrow> (set_rc \<times> memtext \<times> outcomes) option" where
  "sqlite3VdbeMemSetStr iLimit os m z nByte enc xDel =
    (case z of
       None \<Rightarrow> Some (SET_OK, m\<lparr>mflag := MEM_Null\<rparr>, os)
     | Some z \<Rightarrow>
      (case text_length iLimit z nByte enc of None \<Rightarrow> None
       | Some n \<Rightarrow> (case xDel of
           SQLITE_TRANSIENT \<Rightarrow>
             (let nAlloc = n + (if nByte < 0 then if enc = Some UTF8 then 1 else 2 else 0)
              in if iLimit < n then Some (SET_TOOBIG, m, os)
                 else (case sqlite3VdbeMemGrow os m nAlloc False of (ok, m, os) \<Rightarrow>
                   if \<not> ok then Some (SET_NOMEM, m, os)
                   else if length z < nAlloc then None
                   else finish iLimit n nByte enc (m\<lparr>mz := take nAlloc z @ drop nAlloc (mz m)\<rparr>) os))
         | SQLITE_DYNAMIC \<Rightarrow> finish iLimit n nByte enc ((sqlite3VdbeMemRelease m)\<lparr>mz := z, mown := True, mspare := length z\<rparr>) os
         | _ \<Rightarrow> finish iLimit n nByte enc ((sqlite3VdbeMemRelease m)\<lparr>mz := z\<rparr>) os)))"

lemmas SetStr_unfold = sqlite3VdbeMemSetStr_def [where z = "Some z" for z, unfolded option.case]

section \<open>UTF-16 to UTF-8\<close>

text \<open>\<^verbatim>\<open>sqlite3Strlen\<close> on a terminated string.\<close>

definition sqlite3Strlen :: "nat \<Rightarrow> u8 list \<Rightarrow> nat option" where
  "sqlite3Strlen iLimit z =
    (if 0 \<notin> set z then None
     else let x = length (takeWhile (\<lambda>b. b \<noteq> 0) z); len = x mod 2 ^ 31
          in Some (if len \<noteq> x \<or> iLimit < len then iLimit else len))"

definition sqlite3DbStrDup :: "nat \<Rightarrow> outcomes \<Rightarrow> u8 list \<Rightarrow> (u8 list option \<times> outcomes) option" where
  "sqlite3DbStrDup iLimit os z =
    (case sqlite3Strlen iLimit z of
       None \<Rightarrow> None
     | Some n \<Rightarrow> (case alloc_next os of (ok, os) \<Rightarrow> Some (if ok then Some (take (n + 1) z) else None, os)))"

text \<open>
  The connection has had no failed allocation before; \<^verbatim>\<open>mallocFailed\<close> is then whether one of the
  two steps ran out of memory. Only a translation sets the flag \<^verbatim>\<open>MEM_Dyn\<close> here.
\<close>

definition sqlite3Utf16to8 :: "nat \<Rightarrow> encoding \<Rightarrow> outcomes \<Rightarrow> u8 list option \<Rightarrow> int \<Rightarrow> (u8 list option \<times> outcomes) option" where
  "sqlite3Utf16to8 iLimit native os z nByte =
    (let m = \<lparr>mz = [], mn = 0, menc = UTF8, mflag = MEM_Null, mterm = False, mown = False, mspare = 0\<rparr>
     in case sqlite3VdbeMemSetStr iLimit os m z nByte (Some native) SQLITE_STATIC of
          None \<Rightarrow> None
        | Some (rc, m, os) \<Rightarrow>
          (case sqlite3VdbeChangeEncoding os m UTF8 of
             None \<Rightarrow> None
           | Some (ok, m', os') \<Rightarrow>
               if rc = SET_NOMEM \<or> \<not> ok then Some (None, os')
               else if mflag m = MEM_Str \<and> menc m \<noteq> UTF8 then Some (Some (mz m'), os')
               else if z = None then Some (None, os')
               else sqlite3DbStrDup iLimit os' (mz m')))"


section \<open>The characters of a value\<close>

text \<open>The value \<open>m\<close> is a text of the characters \<open>cs\<close> in its encoding.\<close>

definition holds :: "memtext \<Rightarrow> u32 list \<Rightarrow> bool" where
  "holds m cs \<longleftrightarrow> mflag m = MEM_Str \<and> mn m = length (encode (menc m) cs) \<and> take (mn m) (mz m) = encode (menc m) cs"

lemma Grow_text:
  assumes "sqlite3VdbeMemGrow os m n True = (ok, m', os')" "mn m \<le> length (mz m)"
  shows "ok \<Longrightarrow> take (mn m) (mz m') = take (mn m) (mz m) \<and> mn m \<le> length (mz m') \<and> mn m' = mn m \<and> menc m' = menc m \<and> mflag m' = mflag m"
    "\<not> ok \<Longrightarrow> mflag m' = MEM_Null \<and> False \<in> set os"
  using assms by (cases os; auto simp: sqlite3VdbeMemGrow_def Let_def split: if_splits prod.splits)+

lemma MakeWriteable_text:
  assumes "sqlite3VdbeMemMakeWriteable os m = (ok, m', os')" "mn m \<le> length (mz m)"
  shows "ok \<Longrightarrow> take (mn m) (mz m') = take (mn m) (mz m) \<and> mn m \<le> length (mz m') \<and> mn m' = mn m \<and> menc m' = menc m \<and> mflag m' = mflag m"
    "\<not> ok \<Longrightarrow> mflag m' = MEM_Null \<and> False \<in> set os"
proof -
  obtain ok1 m1 os1 where g: "sqlite3VdbeMemGrow os m (mn m + 2) True = (ok1, m1, os1)" by (rule prod_cases3)
  note gt = Grow_text [OF g assms(2)]
  show "ok \<Longrightarrow> take (mn m) (mz m') = take (mn m) (mz m) \<and> mn m \<le> length (mz m') \<and> mn m' = mn m \<and> menc m' = menc m \<and> mflag m' = mflag m"
    using assms gt(1) unfolding sqlite3VdbeMemMakeWriteable_def g by (auto simp: terminate_def split: if_splits)
  show "\<not> ok \<Longrightarrow> mflag m' = MEM_Null \<and> False \<in> set os"
    using assms gt(2) unfolding sqlite3VdbeMemMakeWriteable_def g by (auto split: if_splits)
qed

lemma holds_length: "holds m cs \<Longrightarrow> mn m \<le> length (mz m)"
  unfolding holds_def by (metis length_take min.cobounded1)

lemma MakeWriteable_holds:
  assumes "holds m cs" "sqlite3VdbeMemMakeWriteable os m = (ok, m', os')"
  shows "ok \<Longrightarrow> holds m' cs \<and> menc m' = menc m" "\<not> ok \<Longrightarrow> mflag m' = MEM_Null \<and> False \<in> set os"
  using MakeWriteable_text [OF assms(2) holds_length [OF assms(1)]] assms(1) by (auto simp: holds_def)

text \<open>What a translation leaves when it has succeeded, and when memory ran out.\<close>

definition translated :: "outcomes \<Rightarrow> memtext \<Rightarrow> encoding \<Rightarrow> u32 list \<Rightarrow> (bool \<times> memtext \<times> outcomes) option \<Rightarrow> bool" where
  "translated os m desired cs r \<longleftrightarrow>
    (case r of None \<Rightarrow> False
     | Some (ok, m', os') \<Rightarrow>
         if ok then holds m' cs \<and> menc m' = desired
         else False \<in> set os \<and> (if menc m \<noteq> UTF8 \<and> desired \<noteq> UTF8 then mflag m' = MEM_Null else m' = m))"

lemma Translate_holds:
  assumes h: "holds m cs" and cs: "\<forall>c \<in> set cs. plain c" and e: "menc m \<noteq> desired"
  shows "translated os m desired cs (sqlite3VdbeMemTranslate os m desired)"
proof -
  have n: "mn m = length (encode (menc m) cs)" and t: "take (mn m) (mz m) = encode (menc m) cs" and str: "mflag m = MEM_Str" using h by (auto simp: holds_def)
  have z: "mz m = encode (menc m) cs @ drop (mn m) (mz m)" using t by (metis append_take_drop_id)
  have sc: "\<forall>c \<in> set cs. scalar c" using cs by (simp add: plain_def)
  obtain ok1 os1 where a: "alloc_next os = (ok1, os1)" by (rule prod.exhaust)
  have f: "\<not> ok1 \<Longrightarrow> False \<in> set os" using a by (cases os) auto
  show ?thesis
  proof (cases "menc m \<noteq> UTF8 \<and> desired \<noteq> UTF8")
    case True
    obtain ok m1 os2 where w: "sqlite3VdbeMemMakeWriteable os m = (ok, m1, os2)" by (rule prod_cases3)
    note mw = MakeWriteable_holds [OF h w]
    have run: "sqlite3VdbeMemTranslate os m desired =
      (if \<not> ok then Some (False, m1, os2) else Some (True, m1\<lparr>mz := swap_bytes (mn m1 div 2) (mz m1), menc := desired\<rparr>, os2))"
      using True w by (auto simp: sqlite3VdbeMemTranslate_def)
    show ?thesis
    proof (cases ok)
      case False
      then show ?thesis unfolding run using mw(2) True by (simp add: translated_def)
    next
      case ok: True
      then have h1: "holds m1 cs" "menc m1 = menc m" using mw(1) by auto
      have z1: "mz m1 = encode (menc m) cs @ drop (mn m1) (mz m1)" "mn m1 = length (encode (menc m) cs)"
        using h1 by (auto simp: holds_def) (metis append_take_drop_id)
      have "holds (m1\<lparr>mz := swap_bytes (mn m1 div 2) (mz m1), menc := desired\<rparr>) cs"
        using True e swap_encode [of cs "drop (mn m1) (mz m1)"] encode16_length(1) [of cs] z1 h1(1)
        by (cases "menc m"; cases desired) (auto simp: holds_def)
      then show ?thesis unfolding run using ok by (simp add: translated_def)
    qed
  next
    case False
    show ?thesis
    proof (cases "desired = UTF8")
      case True
      then have e16: "menc m = UTF16LE \<or> menc m = UTF16BE" using e by (cases "menc m") auto
      then have "even (mn m)" using n encode16_length by auto
      then have m0: "m\<lparr>mn := mn m - mn m mod 2\<rparr> = m" by (simp add: even_iff_mod_2_eq_zero)
      have "utf16_to_8 (if menc m = UTF16LE then READ_UTF16LE else READ_UTF16BE) (length (encode (menc m) cs)) (encode (menc m) cs @ drop (mn m) (mz m)) = Some (encode UTF8 cs)"
        by (rule utf16_to_8_encode [OF _ sc]) (use e16 in auto)
      then have out: "utf16_to_8 (if menc m = UTF16LE then READ_UTF16LE else READ_UTF16BE) (mn m) (mz m) = Some (encode UTF8 cs)"
        unfolding n [symmetric] z [symmetric] .
      show ?thesis using True e16 m0 out a f str by (cases ok1) (auto simp: sqlite3VdbeMemTranslate_def Let_def translated_def holds_def sqlite3VdbeMemRelease_def)
    next
      case d: False
      then have e8: "menc m = UTF8" using False by simp
      define w where "w = (if desired = UTF16LE then WRITE_UTF16LE else WRITE_UTF16BE)"
      have "utf8_to_16 w (take (mn m) (mz m)) = concat (map w cs)" using t e8 utf8_to_16_encode [OF cs] by simp
      also have "\<dots> = encode desired cs" using d by (cases desired) (simp_all add: encode_def w_def)
      finally have out: "utf8_to_16 w (take (mn m) (mz m)) = encode desired cs" .
      show ?thesis using d e8 a f str out unfolding sqlite3VdbeMemTranslate_def w_def
        by (cases ok1) (simp_all add: Let_def translated_def holds_def sqlite3VdbeMemRelease_def)
    qed
  qed
qed


section \<open>Setting a text\<close>

text \<open>The terminator is found behind the units of a text.\<close>

lemma scan16_units:
  assumes "\<forall>(a, b) \<in> set ps. a \<noteq> 0 \<or> b \<noteq> 0" "2 * length ps \<le> lim"
  shows "scan16 lim (concat (map (\<lambda>(a, b). [a, b]) ps) @ 0 # 0 # z) = Some (2 * length ps)"
  using assms
proof (induction ps arbitrary: lim)
  case (Cons p ps)
  obtain a b where p: "p = (a, b)" by (rule prod.exhaust)
  have "scan16 (lim - 2) (concat (map (\<lambda>(a, b). [a, b]) ps) @ 0 # 0 # z) = Some (2 * length ps)" by (rule Cons.IH) (use Cons.prems in auto)
  then show ?case using Cons.prems p by auto
qed simp

lemma write16_units:
  assumes "unat c < 0x110000" "c \<noteq> 0"
  shows "\<exists>ps. (\<forall>(a, b) \<in> set ps. a \<noteq> 0 \<or> b \<noteq> 0) \<and> WRITE_UTF16LE c = concat (map (\<lambda>(a, b). [a, b]) ps) \<and>
    WRITE_UTF16BE c = concat (map (\<lambda>(a, b). [b, a]) ps)"
proof -
  have nz: "lo8 n \<noteq> 0 \<or> lo8 (n div 256) \<noteq> 0" if "0 < n" "n < 65536" for n
    using unit16_lo8 [OF that(2)] that(1) by (auto simp: unit16_def)
  show ?thesis
  proof (cases "c \<le> 0xFFFF")
    case True
    then have "0 < unat c" "unat c < 65536" using assms(2) by (simp_all add: word_le_nat_alt unat_gt_0)
    then show ?thesis unfolding write16_small [OF True] using nz by (intro exI [of _ "[(lo8 (unat c), lo8 (unat c div 256))]"]) auto
  next
    case False
    then have c: "0x10000 \<le> unat c" using word_le_nat_alt [of c "0xFFFF"] by simp
    let ?h = "0xD800 + (unat c - 0x10000) div 1024" and ?l = "0xDC00 + unat c mod 1024"
    have "(unat c - 0x10000) div 1024 < 1024" using assms(1) c by (simp add: less_mult_imp_div_less)
    moreover have "unat c mod 1024 < 1024" by simp
    ultimately have "?h < 65536" "?l < 65536" by linarith+
    then show ?thesis unfolding write16_large [OF c assms(1)] using nz [of ?h] nz [of ?l]
      by (intro exI [of _ "[(lo8 ?h, lo8 (?h div 256)), (lo8 ?l, lo8 (?l div 256))]"]) auto
  qed
qed

lemma encode_units:
  assumes "\<forall>c \<in> set cs. plain c \<and> c \<noteq> 0" "e \<noteq> UTF8"
  shows "\<exists>ps. (\<forall>(a, b) \<in> set ps. a \<noteq> 0 \<or> b \<noteq> 0) \<and> encode e cs = concat (map (\<lambda>(a, b). [a, b]) ps)"
  using assms(1)
proof (induction cs)
  case Nil
  show ?case by (intro exI [of _ "[]"]) (simp add: encode_simps)
next
  case (Cons c cs)
  obtain qs where qs: "\<forall>(a, b) \<in> set qs. a \<noteq> 0 \<or> b \<noteq> 0" "encode e cs = concat (map (\<lambda>(a, b). [a, b]) qs)" using Cons by auto
  have c: "unat c < 0x110000" "c \<noteq> 0" using Cons.prems by (simp_all add: plain_def scalar_def)
  obtain ps where ps: "\<forall>(a, b) \<in> set ps. a \<noteq> 0 \<or> b \<noteq> 0" "WRITE_UTF16LE c = concat (map (\<lambda>(a, b). [a, b]) ps)" "WRITE_UTF16BE c = concat (map (\<lambda>(a, b). [b, a]) ps)"
    using write16_units [OF c] by blast
  have sw: "concat (map (\<lambda>(a, b). [b, a]) ps) = concat (map (\<lambda>(a, b). [a, b]) (map prod.swap ps))" by (rule arg_cong [of _ _ concat]) auto
  show ?case
  proof (cases e)
    case UTF16LE
    then show ?thesis using qs ps by (intro exI [of _ "ps @ qs"]) (auto simp: encode_simps)
  next
    case UTF16BE
    have "\<forall>(a, b) \<in> set (map prod.swap ps @ qs). a \<noteq> 0 \<or> b \<noteq> 0" using ps(1) qs(1) by auto
    moreover have "encode e (c # cs) = concat (map (\<lambda>(a, b). [a, b]) (map prod.swap ps @ qs))" using UTF16BE qs(2) ps(3) sw by (simp add: encode_simps)
    ultimately show ?thesis by blast
  qed (use assms(2) in simp)
qed

definition bom :: "encoding \<Rightarrow> u8 list" where
  "bom e = (if e = UTF16BE then [0xFE, 0xFF] else [0xFF, 0xFE])"

lemma bom_length [simp]: "length (bom e) = 2"
  by (simp add: bom_def)

lemma scan16_text:
  assumes "\<forall>c \<in> set cs. plain c \<and> c \<noteq> 0" "e \<noteq> UTF8" "b = [] \<or> b = bom e'" "length b + length (encode e cs) \<le> lim"
  shows "scan16 lim (b @ encode e cs @ 0 # 0 # z) = Some (length b + length (encode e cs))"
proof -
  obtain ps where ps: "\<forall>(x, y) \<in> set ps. x \<noteq> 0 \<or> y \<noteq> 0" "encode e cs = concat (map (\<lambda>(a, b). [a, b]) ps)"
    using encode_units [OF assms(1,2)] by blast
  have l: "length (concat (map (\<lambda>(a, b). [a, b]) ps)) = 2 * length ps" for ps :: "(u8 \<times> u8) list" by (induction ps) auto
  define qs where "qs = (if b = [] then ps else (hd b, b ! 1) # ps)"
  have b: "b @ encode e cs = concat (map (\<lambda>(a, b). [a, b]) qs)" using assms(3) ps(2) by (auto simp: qs_def bom_def)
  have "\<forall>(x, y) \<in> set qs. x \<noteq> 0 \<or> y \<noteq> 0" using ps(1) assms(3) by (auto simp: qs_def bom_def split: if_splits)
  moreover have "2 * length qs = length b + length (encode e cs)" using arg_cong [OF b, of length] unfolding l by simp
  ultimately show ?thesis using scan16_units [of qs lim z] assms(4) unfolding b [symmetric] by simp
qed

lemma HandleBom_outcomes: "sqlite3VdbeMemHandleBom os m = (ok, m', os') \<Longrightarrow> set os' \<subseteq> set os"
  by (cases os; auto simp: sqlite3VdbeMemHandleBom_def sqlite3VdbeMemMakeWriteable_def sqlite3VdbeMemGrow_def Let_def split: if_splits prod.splits)

lemma HandleBom_none:
  assumes "holds m cs" "menc m \<noteq> UTF8" "\<forall>c \<in> set cs. plain c" "cs = [] \<or> hd cs \<noteq> 0xFEFF"
  shows "sqlite3VdbeMemHandleBom os m = (True, m, os)"
proof (cases cs)
  case Nil
  then show ?thesis using assms(1) by (simp add: holds_def encode_simps sqlite3VdbeMemHandleBom_def)
next
  case (Cons c cs')
  have n: "mn m = length (encode (menc m) cs)" and t: "take (mn m) (mz m) = encode (menc m) cs" using assms(1) by (auto simp: holds_def)
  have c: "scalar c" "c \<noteq> 0xFEFF" "c \<noteq> 0xFFFE" using assms(3,4) Cons by (auto simp: plain_def)
  have "\<exists>y. mz m = encode (menc m) cs @ y" using t by (metis append_take_drop_id)
  then obtain y where y: "mz m = encode (menc m) (c # cs') @ y" using Cons by blast
  have rd: "menc m = UTF16LE \<Longrightarrow> \<exists>y. READ_UTF16LE (mz m) = Some (c, y)" "menc m = UTF16BE \<Longrightarrow> \<exists>y. READ_UTF16BE (mz m) = Some (c, y)"
    unfolding y using read_utf16 [OF c(1)] by (auto simp: encode_simps)
  have not_bom: "\<not> (mz m ! 0 = x \<and> mz m ! 1 = x')" if "(x, x') = (0xFE, 0xFF) \<or> (x, x') = (0xFF, 0xFE)" for x x'
  proof
    assume a: "mz m ! 0 = x \<and> mz m ! 1 = x'"
    have "2 \<le> length (mz m)" using y assms(2) by (cases "menc m") (auto simp: encode_simps WRITE_UTF16_length)
    then obtain w where "mz m = x # x' # w" using a by (cases "mz m"; cases "tl (mz m)") auto
    then show False using rd that c assms(2) by (cases "menc m") (auto simp: READ_UTF16LE_of_def READ_UTF16BE_of_def Let_def)
  qed
  show ?thesis unfolding sqlite3VdbeMemHandleBom_def Let_def using not_bom by auto
qed

lemma HandleBom_strips:
  assumes "take (mn m) (mz m) = bom e @ encode e cs" "mn m \<le> length (mz m)" "e \<noteq> UTF8" "mflag m = MEM_Str" "sqlite3VdbeMemHandleBom os m = (ok, m', os')"
  shows "ok \<Longrightarrow> holds m' cs \<and> menc m' = e" "\<not> ok \<Longrightarrow> mflag m' = MEM_Null \<and> False \<in> set os"
proof -
  have n: "mn m = 2 + length (encode e cs)" using arg_cong [OF assms(1), of length] assms(2) by simp
  obtain b1 b2 where b: "bom e = [b1, b2]" by (cases "e = UTF16BE") (auto simp: bom_def)
  have "mz m = [b1, b2] @ encode e cs @ drop (mn m) (mz m)" using assms(1) b append_take_drop_id [of "mn m" "mz m"] by simp
  then have at: "mz m ! 0 = b1" "mz m ! 1 = b2" by (metis append.simps(2) nth_Cons_0, metis append.simps(2) nth_Cons_0 nth_Cons_Suc One_nat_def)
  have found: "(if mn m \<le> 1 then None else if b1 = 0xFE \<and> b2 = 0xFF then Some UTF16BE else if b1 = 0xFF \<and> b2 = 0xFE then Some UTF16LE else None) = Some e"
    using n b assms(3) by (cases e) (auto simp: bom_def)
  obtain ok1 m1 os1 where w: "sqlite3VdbeMemMakeWriteable os m = (ok1, m1, os1)" by (rule prod_cases3)
  have run: "sqlite3VdbeMemHandleBom os m = (if \<not> ok1 then (False, m1, os1)
      else (True, (terminate (m1\<lparr>mz := take (mn m1 - 2) (drop 2 (mz m1)) @ drop (mn m1 - 2) (mz m1), mn := mn m1 - 2\<rparr>))\<lparr>menc := e\<rparr>, os1))"
    unfolding sqlite3VdbeMemHandleBom_def Let_def at found by (simp add: w)
  note mw = MakeWriteable_text [OF w assms(2)]
  show "ok \<Longrightarrow> holds m' cs \<and> menc m' = e"
  proof -
    assume "ok"
    then have ok: "ok1" and m': "m' = (terminate (m1\<lparr>mz := take (mn m1 - 2) (drop 2 (mz m1)) @ drop (mn m1 - 2) (mz m1), mn := mn m1 - 2\<rparr>))\<lparr>menc := e\<rparr>"
      using run assms(5) by (auto split: if_splits)
    have "take (length (encode e cs)) (drop 2 (mz m1)) = drop 2 (take (mn m) (mz m1))" unfolding n by (simp add: drop_take)
    then have "take (length (encode e cs)) (drop 2 (mz m1)) = encode e cs" using mw(1) [OF ok] assms(1) by simp
    then show ?thesis unfolding m' using mw(1) [OF ok] n assms(4) by (simp add: holds_def terminate_def)
  qed
  show "\<not> ok \<Longrightarrow> mflag m' = MEM_Null \<and> False \<in> set os" using run assms(5) mw(2) by (auto split: if_splits)
qed


text \<open>A text set from UTF-16 memory, with or without a mark.\<close>

lemma SetStr_utf16:
  assumes "\<forall>c \<in> set cs. plain c \<and> c \<noteq> 0" "native \<noteq> UTF8" "e \<noteq> UTF8"
    and b: "b = [] \<and> e = native \<and> (cs = [] \<or> hd cs \<noteq> 0xFEFF) \<or> b = bom e"
    and n: "n = length b + length (encode e cs)" "n \<le> iLimit" "nByte < 0 \<or> nByte = int n"
    and x: "xDel \<noteq> SQLITE_TRANSIENT"
    and set: "sqlite3VdbeMemSetStr iLimit os m (Some (b @ encode e cs @ 0 # 0 # rest)) nByte (Some native) xDel = r"
  shows "\<exists>rc m' os'. r = Some (rc, m', os') \<and>
    (if rc = SET_OK then holds m' cs \<and> menc m' = e else rc = SET_NOMEM \<and> mflag m' = MEM_Null \<and> False \<in> set os) \<and> set os' \<subseteq> set os"
proof -
  let ?z = "b @ encode e cs @ 0 # 0 # rest"
  have sc: "scan16 iLimit ?z = Some n" using scan16_text [OF assms(1,3), of b e iLimit rest] b n by auto
  define m1 where "m1 = (if xDel = SQLITE_DYNAMIC then (sqlite3VdbeMemRelease m)\<lparr>mz := ?z, mown := True, mspare := length ?z\<rparr>
    else (sqlite3VdbeMemRelease m)\<lparr>mz := ?z\<rparr>)\<lparr>mn := n, mflag := MEM_Str, mterm := nByte < 0, menc := native\<rparr>"
  obtain ok m' os' where hb: "sqlite3VdbeMemHandleBom os m1 = (ok, m', os')" by (rule prod_cases3)
  have nn: "text_length iLimit ?z nByte (Some native) = Some n" using n(3) sc assms(2) by (auto simp: text_length_def)
  have e: "encoding_of (Some native) = native" by (simp add: encoding_of_def)
  have run: "r = Some (if ok then SET_OK else SET_NOMEM, m', os')"
    using set hb x n(2) assms(2) unfolding SetStr_unfold option.case nn finish_def Let_def m1_def e by (cases xDel) simp_all
  have m1: "mz m1 = ?z" "mn m1 = n" "mflag m1 = MEM_Str" "menc m1 = native" by (auto simp: m1_def)
  have t: "take (mn m1) (mz m1) = b @ encode e cs" "mn m1 \<le> length (mz m1)" unfolding m1 n(1) by simp_all
  note sub = HandleBom_outcomes [OF hb]
  show ?thesis
  proof (cases "b = bom e")
    case True
    from HandleBom_strips [OF _ t(2) assms(3) m1(3) hb, of cs] t(1) True sub show ?thesis unfolding run by auto
  next
    case False
    then have h: "b = []" "e = native" "cs = [] \<or> hd cs \<noteq> 0xFEFF" using b by auto
    then have "holds m1 cs" using t(1) m1 n(1) by (simp add: holds_def)
    from HandleBom_none [OF this _ _ h(3), of os] show ?thesis unfolding run using hb \<open>holds m1 cs\<close> h(2) m1(4) assms(1,2) sub by auto
  qed
qed

lemma Translate_terminated:
  "sqlite3VdbeMemTranslate os m UTF8 = Some (True, m', os') \<Longrightarrow> menc m \<noteq> UTF8 \<Longrightarrow> mz m' = take (mn m') (mz m') @ [0]"
  by (auto simp: sqlite3VdbeMemTranslate_def Let_def split: if_splits prod.splits option.splits)

lemma Utf16to8_text:
  assumes "\<forall>c \<in> set cs. plain c \<and> c \<noteq> 0" "native \<noteq> UTF8" "e \<noteq> UTF8"
    "b = [] \<and> e = native \<and> (cs = [] \<or> hd cs \<noteq> 0xFEFF) \<or> b = bom e"
    "length b + length (encode e cs) \<le> iLimit" "nByte < 0 \<or> nByte = int (length b + length (encode e cs))"
  shows "\<exists>out os'. sqlite3Utf16to8 iLimit native os (Some (b @ encode e cs @ 0 # 0 # rest)) nByte = Some (out, os') \<and>
    (case out of Some w \<Rightarrow> w = encode UTF8 cs @ [0] | None \<Rightarrow> False \<in> set os)"
proof -
  let ?z = "b @ encode e cs @ 0 # 0 # rest" and ?m = "\<lparr>mz = [], mn = 0, menc = UTF8, mflag = MEM_Null, mterm = False, mown = False, mspare = 0\<rparr>"
  obtain rc m1 os1 where s: "sqlite3VdbeMemSetStr iLimit os ?m (Some ?z) nByte (Some native) SQLITE_STATIC = Some (rc, m1, os1)"
    and r: "if rc = SET_OK then holds m1 cs \<and> menc m1 = e else rc = SET_NOMEM \<and> mflag m1 = MEM_Null \<and> False \<in> set os" and sub: "set os1 \<subseteq> set os"
    using SetStr_utf16 [OF assms(1-4) refl assms(5,6) _ refl, of SQLITE_STATIC os ?m rest] by auto
  show ?thesis
  proof (cases "rc = SET_OK")
    case False
    then show ?thesis using r s by (simp add: sqlite3Utf16to8_def sqlite3VdbeChangeEncoding_def)
  next
    case True
    then have h: "holds m1 cs" "menc m1 \<noteq> UTF8" "mflag m1 = MEM_Str" using r assms(3) by (auto simp: holds_def)
    have "translated os1 m1 UTF8 cs (sqlite3VdbeMemTranslate os1 m1 UTF8)" by (rule Translate_holds [OF h(1) _ h(2)]) (use assms(1) in simp)
    then obtain ok m2 os2 where t: "sqlite3VdbeMemTranslate os1 m1 UTF8 = Some (ok, m2, os2)"
      and ok: "if ok then holds m2 cs \<and> menc m2 = UTF8 else False \<in> set os1"
      by (auto simp: translated_def split: option.splits if_splits)
    show ?thesis
    proof (cases ok)
      case k: True
      then show ?thesis using ok s t h True Translate_terminated [of os1 m1 m2 os2] by (auto simp: sqlite3Utf16to8_def sqlite3VdbeChangeEncoding_def holds_def)
    next
      case k: False
      then show ?thesis using ok s t h True sub by (auto simp: sqlite3Utf16to8_def sqlite3VdbeChangeEncoding_def)
    qed
  qed
qed

section \<open>The memory of a value\<close>

text \<open>The bytes lie inside the allocation, the text inside the bytes; \<^verbatim>\<open>MEM_Term\<close> means what it says.\<close>

definition fits :: "memtext \<Rightarrow> bool" where
  "fits m \<longleftrightarrow> (mown m \<longrightarrow> length (mz m) \<le> mspare m) \<and> (mflag m \<noteq> MEM_Null \<longrightarrow> mn m \<le> length (mz m))"

definition zeros :: "encoding \<Rightarrow> u8 list" where
  "zeros e = (if e = UTF8 then [0] else [0, 0])"

definition terminated :: "memtext \<Rightarrow> bool" where
  "terminated m \<longleftrightarrow> (mterm m \<and> mflag m = MEM_Str \<longrightarrow> (\<exists>y. drop (mn m) (mz m) = zeros (menc m) @ y))"

lemma terminate_length: "mn m \<le> length (mz m) \<Longrightarrow> length (mz (terminate m)) = max (length (mz m)) (mn m + 2)"
  by (simp add: terminate_def)

lemma terminated_terminate: "mn m \<le> length (mz m) \<Longrightarrow> terminated ((terminate m)\<lparr>menc := e\<rparr>)"
  by (simp add: terminated_def terminate_def zeros_def)

lemma terminated_terminate': "mn m \<le> length (mz m) \<Longrightarrow> terminated (terminate m)"
  by (simp add: terminated_def terminate_def zeros_def)

lemma Grow_fits:
  assumes "fits m" "mn m \<le> n" "sqlite3VdbeMemGrow os m n True = (ok, m', os')"
  shows "fits m'" "ok \<Longrightarrow> mown m' \<and> n \<le> mspare m' \<and> mn m' = mn m \<and> mflag m' = mflag m"
proof -
  define N where "N = max n 32"
  have N: "n \<le> N" by (simp add: N_def)
  obtain ok1 os1 where a: "alloc_next os = (ok1, os1)" by (rule prod.exhaust)
  let ?c = "take (mn m) (mz m)"
  have run: "sqlite3VdbeMemGrow os m n True = (if N \<le> mspare m then (True, m\<lparr>mz := if mown m then mz m else ?c, mown := True\<rparr>, os)
    else if ok1 then (True, m\<lparr>mz := if mown m then mz m else ?c, mown := True, mspare := N\<rparr>, os1)
    else (False, m\<lparr>mz := [], mflag := MEM_Null, mterm := False, mown := False, mspare := 0\<rparr>, os1))"
    unfolding sqlite3VdbeMemGrow_def Let_def N_def [symmetric] a by simp
  have f: "mown m \<Longrightarrow> length (mz m) \<le> mspare m" "mflag m = MEM_Null \<or> mn m \<le> length (mz m)" using assms(1) by (auto simp: fits_def)
  have c: "length ?c \<le> N" "mn m \<le> length (mz m) \<longrightarrow> length ?c = mn m" using assms(2) N by simp_all
  consider "N \<le> mspare m" | "\<not> N \<le> mspare m" "ok1" | "\<not> N \<le> mspare m" "\<not> ok1" by blast
  then have "fits m' \<and> (ok \<longrightarrow> mown m' \<and> n \<le> mspare m' \<and> mn m' = mn m \<and> mflag m' = mflag m)"
  proof cases
    case 1
    then show ?thesis using run f c N assms(3) by (cases "mown m") (auto simp: fits_def simp del: length_take)
  next
    case 2
    then show ?thesis using run f c N assms(3) by (cases "mown m") (auto simp: fits_def simp del: length_take)
  next
    case 3
    then show ?thesis using run assms(3) by (auto simp: fits_def)
  qed
  then show "fits m'" "ok \<Longrightarrow> mown m' \<and> n \<le> mspare m' \<and> mn m' = mn m \<and> mflag m' = mflag m" by blast+
qed

lemma terminate_fits:
  assumes "fits m" "mn m + 2 \<le> mspare m" "mflag m \<noteq> MEM_Null"
  shows "fits (terminate m)" "terminated (terminate m)"
proof -
  have n: "mn m \<le> length (mz m)" using assms by (simp add: fits_def)
  show "fits (terminate m)" using assms terminate_length [OF n] by (auto simp: fits_def terminate_def)
  show "terminated (terminate m)" by (rule terminated_terminate' [OF n])
qed

lemma grow_and_terminate:
  assumes "fits m" "mflag m \<noteq> MEM_Null" "sqlite3VdbeMemGrow os m (mn m + 2) True = (ok, m', os')"
  shows "fits m'" "ok \<Longrightarrow> fits (terminate m') \<and> terminated (terminate m') \<and> mterm (terminate m')"
proof -
  note g = Grow_fits [OF assms(1) _ assms(3)]
  show "fits m'" by (rule g) simp
  show "ok \<Longrightarrow> fits (terminate m') \<and> terminated (terminate m') \<and> mterm (terminate m')"
    using g terminate_fits [of m'] assms(2) by (simp add: terminate_def)
qed

lemma MakeWriteable_fits:
  assumes "fits m" "sqlite3VdbeMemMakeWriteable os m = (ok, m', os')"
  shows "fits m'" "ok \<Longrightarrow> mflag m' \<noteq> MEM_Null \<Longrightarrow> mown m'" "ok \<Longrightarrow> terminated m \<Longrightarrow> terminated m'"
proof -
  obtain ok1 m1 os1 where g: "sqlite3VdbeMemGrow os m (mn m + 2) True = (ok1, m1, os1)" by (rule prod_cases3)
  have o: "mflag m \<noteq> MEM_Null \<Longrightarrow> ok1 \<Longrightarrow> mown m1" using Grow_fits [OF assms(1) _ g] by simp
  note gt = grow_and_terminate [OF assms(1) _ g]
  show "fits m'" "ok \<Longrightarrow> mflag m' \<noteq> MEM_Null \<Longrightarrow> mown m'" "ok \<Longrightarrow> terminated m \<Longrightarrow> terminated m'"
    using assms gt o unfolding sqlite3VdbeMemMakeWriteable_def g by (auto simp: terminate_def split: if_splits)
qed

lemma NulTerminate_fits:
  assumes "fits m" "terminated m" "sqlite3VdbeMemNulTerminate os m = (ok, m', os')"
  shows "fits m'" "ok \<Longrightarrow> terminated m' \<and> (mflag m = MEM_Str \<longrightarrow> mterm m')"
proof -
  obtain ok1 m1 os1 where g: "sqlite3VdbeMemGrow os m (mn m + 2) True = (ok1, m1, os1)" by (rule prod_cases3)
  note gt = grow_and_terminate [OF assms(1) _ g]
  show "fits m'" "ok \<Longrightarrow> terminated m' \<and> (mflag m = MEM_Str \<longrightarrow> mterm m')"
    using assms gt unfolding sqlite3VdbeMemNulTerminate_def g by (auto split: if_splits)
qed

lemma HandleBom_fits:
  assumes "fits m" "terminated m" "mflag m \<noteq> MEM_Null" "sqlite3VdbeMemHandleBom os m = (ok, m', os')"
  shows "fits m'" "ok \<Longrightarrow> terminated m'"
proof -
  obtain ok1 m1 os1 where w: "sqlite3VdbeMemMakeWriteable os m = (ok1, m1, os1)" by (rule prod_cases3)
  note mw = MakeWriteable_fits [OF assms(1) w]
  have n: "mn m \<le> length (mz m)" using assms by (simp add: fits_def)
  note mt = MakeWriteable_text [OF w n]
  define m2 where "m2 = m1\<lparr>mz := take (mn m1 - 2) (drop 2 (mz m1)) @ drop (mn m1 - 2) (mz m1), mn := mn m1 - 2\<rparr>"
  have r: "ok = True \<and> m' = m \<or> \<not> ok \<and> \<not> ok1 \<and> m' = m1 \<or> ok \<and> ok1 \<and> 1 < mn m \<and> (\<exists>e. m' = (terminate m2)\<lparr>menc := e\<rparr>)"
    using assms(4) w unfolding sqlite3VdbeMemHandleBom_def Let_def m2_def by (auto split: if_splits)
  have big: "fits ((terminate m2)\<lparr>menc := e\<rparr>) \<and> terminated ((terminate m2)\<lparr>menc := e\<rparr>)" if "ok1" "1 < mn m" for e
  proof -
    have 1: "mn m1 = mn m" "mn m \<le> length (mz m1)" "mflag m1 = mflag m" using mt(1) [OF that(1)] by auto
    have l: "length (mz m2) = length (mz m1)" "mn m2 + 2 \<le> length (mz m2)" using 1 that(2) by (auto simp: m2_def)
    then have "length (mz (terminate m2)) = length (mz m1)" by (subst terminate_length) simp_all
    then have "fits ((terminate m2)\<lparr>menc := e\<rparr>)" using mw(1) 1 l by (auto simp: fits_def terminate_def m2_def)
    moreover have "terminated ((terminate m2)\<lparr>menc := e\<rparr>)" by (rule terminated_terminate) (use l in simp)
    ultimately show ?thesis by blast
  qed
  show "fits m'" "ok \<Longrightarrow> terminated m'" using r big mw(1) assms(1,2) by auto
qed

lemma swap_bytes_shape: "2 * n \<le> length z \<Longrightarrow> length (swap_bytes n z) = length z \<and> (2 * n \<le> k \<longrightarrow> drop k (swap_bytes n z) = drop k z)"
proof (induction n z arbitrary: k rule: swap_bytes.induct)
  case (1 n a b z)
  show ?case
  proof (cases "2 * Suc n \<le> k")
    case True
    then obtain j where "k = Suc (Suc j)" "2 * n \<le> j" by (cases k; cases "k - 1") auto
    then show ?thesis using 1 by simp
  next
    case False
    then show ?thesis using 1 by simp
  qed
qed auto

lemma Translate_fits:
  assumes f: "fits m" and t: "terminated m" and s: "mflag m = MEM_Str" and e: "menc m \<noteq> desired"
  shows "case sqlite3VdbeMemTranslate os m desired of
      None \<Rightarrow> \<not> mterm m \<and> menc m \<noteq> UTF8 \<and> length (mz m) < mn m + 2
    | Some (ok, m', os') \<Rightarrow> fits m' \<and> (ok \<longrightarrow> terminated m')"
proof (cases "menc m \<noteq> UTF8 \<and> desired \<noteq> UTF8")
  case True
  obtain ok m1 os1 where w: "sqlite3VdbeMemMakeWriteable os m = (ok, m1, os1)" by (rule prod_cases3)
  have n: "mn m \<le> length (mz m)" using f s by (simp add: fits_def)
  note mw = MakeWriteable_fits [OF f w] and mt = MakeWriteable_text [OF w n]
  show ?thesis
  proof (cases ok)
    case False
    then show ?thesis using True w mw(1) by (simp add: sqlite3VdbeMemTranslate_def)
  next
    case ok: True
    have 1: "mn m1 = mn m" "mn m \<le> length (mz m1)" "menc m1 = menc m" "mflag m1 = mflag m" "terminated m1" using mt(1) [OF ok] mw(3) [OF ok t] by auto
    have "2 * (mn m1 div 2) \<le> length (mz m1)" "2 * (mn m1 div 2) \<le> mn m1" using 1(1,2) by auto
    from swap_bytes_shape [OF this(1), of "mn m1"] this(2)
    have sw: "length (swap_bytes (mn m1 div 2) (mz m1)) = length (mz m1)" "drop (mn m1) (swap_bytes (mn m1 div 2) (mz m1)) = drop (mn m1) (mz m1)" by auto
    have "fits (m1\<lparr>mz := swap_bytes (mn m1 div 2) (mz m1), menc := desired\<rparr>)" using mw(1) sw(1) by (simp add: fits_def)
    moreover have "terminated (m1\<lparr>mz := swap_bytes (mn m1 div 2) (mz m1), menc := desired\<rparr>)" using 1(3,5) sw(2) True by (auto simp: terminated_def zeros_def)
    ultimately show ?thesis using True w ok by (simp add: sqlite3VdbeMemTranslate_def)
  qed
next
  case False
  obtain ok1 os1 where a: "alloc_next os = (ok1, os1)" by (rule prod.exhaust)
  show ?thesis
  proof (cases "desired = UTF8")
    case True
    define k where "k = mn m - mn m mod 2"
    define rd where "rd = (if menc m = UTF16LE then READ_UTF16LE else READ_UTF16BE)"
    have e16: "menc m \<noteq> UTF8" using True e by simp
    have rd: "utf16_reader rd" using utf16_readers by (simp add: rd_def)
    have k: "even k" "k \<le> mn m" by (simp_all add: k_def even_diff_nat)
    have fk: "fits (m\<lparr>mn := k\<rparr>)" using f k(2) by (auto simp: fits_def)
    show ?thesis
    proof (cases ok1)
      case nok: False
      then show ?thesis using True e16 a fk by (simp add: sqlite3VdbeMemTranslate_def Let_def k_def)
    next
      case ok: True
      show ?thesis
      proof (cases "utf16_to_8 rd k (mz m)")
        case None
        then have "\<not> k + 2 \<le> length (mz m)" using utf16_to_8_inside [OF rd k(1), of "mz m"] by blast
        then have l: "length (mz m) < mn m + 2" using k(2) by simp
        have "\<not> mterm m"
        proof
          assume "mterm m"
          then obtain y where "drop (mn m) (mz m) = [0, 0] @ y" using t s e16 by (auto simp: terminated_def zeros_def)
          then have "length (mz m) - mn m = length ([0, 0] @ y)" by (metis length_drop)
          then show False using l by simp
        qed
        then show ?thesis using True e16 a ok None l by (simp add: sqlite3VdbeMemTranslate_def Let_def k_def rd_def)
      next
        case (Some out)
        then have "length out \<le> 2 * k" by (rule utf16_to_8_length [OF rd k(1)])
        then show ?thesis using True e16 a ok Some
          by (simp add: sqlite3VdbeMemTranslate_def Let_def k_def rd_def fits_def terminated_def zeros_def)
      qed
    qed
  next
    case d: False
    then have e8: "menc m = UTF8" using False by simp
    define w where "w = (if desired = UTF16LE then WRITE_UTF16LE else WRITE_UTF16BE)"
    have "\<forall>c. length (w c) = (if c \<le> 0xFFFF then 2 else 4)" by (simp add: w_def WRITE_UTF16_length)
    from utf8_to_16_length [OF this, of "take (mn m) (mz m)"] have l: "length (utf8_to_16 w (take (mn m) (mz m))) \<le> 2 * mn m" by simp
    show ?thesis using d e8 a f l
      by (cases ok1) (simp_all add: sqlite3VdbeMemTranslate_def Let_def w_def fits_def terminated_def zeros_def)
  qed
qed


lemma scan8_found: "scan8 lim z = Some n \<Longrightarrow> n \<le> length z \<and> (n \<le> lim \<longrightarrow> (\<exists>y. drop n z = [0] @ y))"
  by (induction lim z arbitrary: n rule: scan8.induct) (auto split: if_splits nat.splits)

lemma scan16_found: "scan16 lim z = Some n \<Longrightarrow> n \<le> length z \<and> (n \<le> lim \<longrightarrow> (\<exists>y. drop n z = [0, 0] @ y))"
  by (induction lim z arbitrary: n rule: scan16.induct) (auto split: if_splits)

lemma text_length_found:
  assumes "text_length iLimit z nByte enc = Some n" "nByte < 0 \<or> nat nByte \<le> length z" "enc = None \<longrightarrow> 0 \<le> nByte"
  shows "n \<le> length z" "nByte < 0 \<Longrightarrow> n \<le> iLimit \<Longrightarrow> \<exists>y. drop n z = zeros (encoding_of enc) @ y"
  using assms scan8_found [of iLimit z n] scan16_found [of iLimit z n]
  by (auto simp: text_length_def zeros_def encoding_of_def split: if_splits option.splits)

definition set_ok :: "(set_rc \<times> memtext \<times> outcomes) option \<Rightarrow> bool" where
  "set_ok r \<longleftrightarrow> (case r of None \<Rightarrow> False | Some (rc, m', os') \<Rightarrow> fits m' \<and> (rc = SET_OK \<longrightarrow> terminated m'))"

lemma finish_fits:
  assumes "mown m \<longrightarrow> length (mz m) \<le> mspare m" "n \<le> length (mz m)"
    "mflag m \<noteq> MEM_Null \<longrightarrow> mn m \<le> iLimit" "enc = None \<longrightarrow> 0 \<le> nByte"
    "nByte < 0 \<Longrightarrow> n \<le> iLimit \<Longrightarrow> \<exists>y. drop n (mz m) = zeros (encoding_of enc) @ y"
  shows "set_ok (finish iLimit n nByte enc m os)"
proof (cases "iLimit < n")
  case True
  then show ?thesis using assms by (auto simp: finish_def set_ok_def fits_def)
next
  case False
  define m1 where "m1 = m\<lparr>mn := n, mflag := if enc = None then MEM_Blob else MEM_Str, mterm := nByte < 0, menc := encoding_of enc\<rparr>"
  have m1: "fits m1" "terminated m1" "mflag m1 \<noteq> MEM_Null"
    using assms False by (auto simp: m1_def fits_def terminated_def)
  obtain ok m' os' where hb: "sqlite3VdbeMemHandleBom os m1 = (ok, m', os')" by (rule prod_cases3)
  show ?thesis using False m1(1,2) HandleBom_fits [OF m1 hb] hb unfolding finish_def Let_def m1_def [symmetric] by (simp add: set_ok_def)
qed

lemma SetStr_fits:
  assumes f: "fits m" and n: "nByte < 0 \<or> nat nByte \<le> length z" and b: "enc = None \<longrightarrow> 0 \<le> nByte" and old: "mflag m \<noteq> MEM_Null \<longrightarrow> mn m \<le> iLimit"
  shows "case text_length iLimit z nByte enc of None \<Rightarrow> sqlite3VdbeMemSetStr iLimit os m (Some z) nByte enc xDel = None
    | Some _ \<Rightarrow> sqlite3VdbeMemSetStr iLimit os m (Some z) nByte enc xDel = Some (SET_TOOBIG, m, os) \<or> set_ok (sqlite3VdbeMemSetStr iLimit os m (Some z) nByte enc xDel)"
proof (cases "text_length iLimit z nByte enc")
  case None
  then show ?thesis by (simp add: SetStr_unfold)
next
  case (Some k)
  note found = text_length_found [OF Some n b]
  have plain: "set_ok (finish iLimit k nByte enc m1 os)" if "mz m1 = z" "mown m1 \<longrightarrow> mspare m1 = length z" "mflag m1 = mflag m" "mn m1 = mn m" for m1
    by (rule finish_fits) (use that found old b in auto)
  show ?thesis
  proof (cases "xDel = SQLITE_TRANSIENT")
    case False
    then have "set_ok (sqlite3VdbeMemSetStr iLimit os m (Some z) nByte enc xDel)"
      unfolding SetStr_unfold Some option.case by (cases xDel) (auto intro!: plain simp: sqlite3VdbeMemRelease_def)
    then show ?thesis using Some by simp
  next
    case True
    define w where "w = (if nByte < 0 then if enc = Some UTF8 then 1 else 2 else 0 :: nat)"
    obtain ok m1 os1 where g: "sqlite3VdbeMemGrow os m (k + w) False = (ok, m1, os1)" by (rule prod_cases3)
    show ?thesis
    proof (cases "iLimit < k")
      case big: True
      then show ?thesis unfolding SetStr_unfold Some using True by simp
    next
      case small: False
      have w0: "zeros (encoding_of enc) = replicate w 0" if "nByte < 0"
        using that b by (cases enc) (auto simp: w_def zeros_def encoding_of_def numeral_2_eq_2)
      have room: "k + w \<le> length z"
      proof (cases "nByte < 0")
        case neg: True
        then obtain y where "drop k z = replicate w 0 @ y" using found(2) small w0 by auto
        then have "length z - k = w + length y" by (metis length_append length_drop length_replicate)
        then show ?thesis using found(1) by simp
      qed (use found(1) in \<open>simp add: w_def\<close>)
      define m2 where "m2 = m1\<lparr>mz := take (k + w) z @ drop (k + w) (mz m1)\<rparr>"
      define N where "N = max (k + w) 32"
      have N: "k + w \<le> N" by (simp add: N_def)
      obtain ok0 os0 where a: "alloc_next os = (ok0, os0)" by (rule prod.exhaust)
      have run: "sqlite3VdbeMemGrow os m (k + w) False = (if N \<le> mspare m then (True, m\<lparr>mz := if mown m then mz m else [], mown := True\<rparr>, os)
        else if ok0 then (True, m\<lparr>mz := [], mown := True, mspare := N\<rparr>, os0)
        else (False, m\<lparr>mz := [], mflag := MEM_Null, mterm := False, mown := False, mspare := 0\<rparr>, os0))"
        unfolding sqlite3VdbeMemGrow_def Let_def N_def [symmetric] a by simp
      have g1: "ok \<Longrightarrow> k + w \<le> mspare m1 \<and> length (mz m1) \<le> mspare m1 \<and> mflag m1 = mflag m \<and> mn m1 = mn m" "\<not> ok \<Longrightarrow> fits m1"
        using run g N f by (auto simp: fits_def split: if_splits)
      have fin: "set_ok (finish iLimit k nByte enc m2 os1)" if ok
      proof (rule finish_fits)
        show "mown m2 \<longrightarrow> length (mz m2) \<le> mspare m2" "k \<le> length (mz m2)" using g1(1) [OF that] room by (auto simp: m2_def)
        show "mflag m2 \<noteq> MEM_Null \<longrightarrow> mn m2 \<le> iLimit" using g1(1) [OF that] old by (simp add: m2_def)
        show "\<exists>y. drop k (mz m2) = zeros (encoding_of enc) @ y" if neg: "nByte < 0" "k \<le> iLimit"
        proof -
          obtain y where "drop k z = replicate w 0 @ y" using found(2) [OF neg] w0 [OF neg(1)] by auto
          then have "drop k (take (k + w) z) = replicate w 0" by (simp add: drop_take)
          then show ?thesis using room w0 [OF neg(1)] by (simp add: m2_def)
        qed
      qed (rule b)
      have "sqlite3VdbeMemSetStr iLimit os m (Some z) nByte enc xDel =
        (if \<not> ok then Some (SET_NOMEM, m1, os1) else finish iLimit k nByte enc m2 os1)"
        unfolding SetStr_unfold Some option.case True Let_def w_def [symmetric] g destructor.case using small room by (simp add: m2_def)
      then show ?thesis using Some fin g1(2) by (auto simp: set_ok_def)
    qed
  qed
qed

lemma finish_toobig: "finish iLimit n nByte enc m os = Some (rc, m', os') \<Longrightarrow> rc = SET_TOOBIG \<longleftrightarrow> iLimit < n"
  by (auto simp: finish_def Let_def split: if_splits prod.splits)

lemma SetStr_toobig:
  assumes "text_length iLimit z nByte enc = Some n" "sqlite3VdbeMemSetStr iLimit os m (Some z) nByte enc xDel = Some (rc, m', os')"
  shows "rc = SET_TOOBIG \<longleftrightarrow> iLimit < n"
  using assms(2) finish_toobig [of iLimit n nByte enc] unfolding SetStr_unfold assms(1) option.case
  by (cases xDel) (auto simp: Let_def split: if_splits prod.splits)

lemma Grow_kept:
  assumes "fits m" "mflag m \<noteq> MEM_Null"
  shows "case sqlite3VdbeMemGrow os m (mn m + k) True of (ok, m', os') \<Rightarrow>
    fits m' \<and> (ok \<longrightarrow> mn m + k \<le> mspare m' \<and> mn m' = mn m \<and> take (mn m) (mz m') = take (mn m) (mz m))"
proof -
  obtain ok m' os' where g: "sqlite3VdbeMemGrow os m (mn m + k) True = (ok, m', os')" by (rule prod_cases3)
  have "mn m \<le> length (mz m)" using assms by (simp add: fits_def)
  from Grow_text(1) [OF g this] Grow_fits [OF assms(1) _ g] show ?thesis by (simp add: g)
qed

section \<open>Properties\<close>

text \<open>
  C8: \<^verbatim>\<open>sqlite3VdbeMemMakeWriteable\<close>, \<^verbatim>\<open>sqlite3VdbeMemNulTerminate\<close>, \<^verbatim>\<open>sqlite3VdbeMemHandleBom\<close>,
  \<^verbatim>\<open>sqlite3VdbeChangeEncoding\<close> and \<^verbatim>\<open>sqlite3VdbeMemSetStr\<close>, applied to a text, keep its bytes inside
  its allocation and its length inside its bytes, and when they succeed there is a terminator where
  \<^verbatim>\<open>MEM_Term\<close> says so. A translation from UTF-16 stays inside the memory of a terminated text whatever
  its bytes are; the one access outside is that of a UTF-16 text without a terminator, which may be
  read up to two bytes behind its end. Setting a text reports one that is too long.
  \<^verbatim>\<open>sqlite3VdbeMemGrow\<close>, asked to preserve a text and for at least its length, keeps the text inside
  the memory it has got; it is not among the five, as it copies \<^verbatim>\<open>n\<close> bytes only and leaves \<^verbatim>\<open>MEM_Term\<close>
  set, so that it may lose the terminator, as the last part shows.
\<close>

theorem value_memory:
  assumes "fits m" "terminated m" "mflag m = MEM_Str" "mn m \<le> iLimit" "text_length iLimit z nByte enc = Some n" "nByte < 0 \<or> nat nByte \<le> length z" "enc = None \<longrightarrow> 0 \<le> nByte"
  shows "(case sqlite3VdbeMemMakeWriteable os m of (ok, m', os') \<Rightarrow> fits m' \<and> (ok \<longrightarrow> terminated m')) \<and>
    (case sqlite3VdbeMemNulTerminate os m of (ok, m', os') \<Rightarrow> fits m' \<and> (ok \<longrightarrow> terminated m' \<and> mterm m')) \<and>
    (case sqlite3VdbeMemHandleBom os m of (ok, m', os') \<Rightarrow> fits m' \<and> (ok \<longrightarrow> terminated m')) \<and>
    (case sqlite3VdbeChangeEncoding os m desired of
       None \<Rightarrow> \<not> mterm m \<and> menc m \<noteq> UTF8 \<and> length (mz m) < mn m + 2
     | Some (ok, m', os') \<Rightarrow> fits m' \<and> (ok \<longrightarrow> terminated m')) \<and>
    (case sqlite3VdbeMemSetStr iLimit os m (Some z) nByte enc xDel of
       None \<Rightarrow> False
     | Some (rc, m', os') \<Rightarrow> fits m' \<and> (rc = SET_OK \<longrightarrow> terminated m') \<and> (rc = SET_TOOBIG \<longleftrightarrow> iLimit < n)) \<and>
    (case sqlite3VdbeMemGrow os m (mn m + k) True of (ok, m', os') \<Rightarrow>
       fits m' \<and> (ok \<longrightarrow> mn m + k \<le> mspare m' \<and> mn m' = mn m \<and> take (mn m) (mz m') = take (mn m) (mz m))) \<and>
    (let t = \<lparr>mz = [0x61, 0], mn = 1, menc = UTF8, mflag = MEM_Str, mterm = True, mown = False, mspare = 0\<rparr>
     in fits t \<and> terminated t \<and> \<not> terminated (fst (snd (sqlite3VdbeMemGrow [] t 2 True))))"
proof (intro conjI)
  show "case sqlite3VdbeMemGrow os m (mn m + k) True of (ok, m', os') \<Rightarrow>
      fits m' \<and> (ok \<longrightarrow> mn m + k \<le> mspare m' \<and> mn m' = mn m \<and> take (mn m) (mz m') = take (mn m) (mz m))"
    using Grow_kept [OF assms(1), where os = os and k = k] assms(3) by simp
  show "let t = \<lparr>mz = [0x61, 0], mn = 1, menc = UTF8, mflag = MEM_Str, mterm = True, mown = False, mspare = 0\<rparr>
     in fits t \<and> terminated t \<and> \<not> terminated (fst (snd (sqlite3VdbeMemGrow [] t 2 True)))"
    by (simp add: fits_def terminated_def zeros_def sqlite3VdbeMemGrow_def)
  show "case sqlite3VdbeMemMakeWriteable os m of (ok, m', os') \<Rightarrow> fits m' \<and> (ok \<longrightarrow> terminated m')"
    using MakeWriteable_fits [OF assms(1)] assms(2) by (auto split: prod.split)
  show "case sqlite3VdbeMemNulTerminate os m of (ok, m', os') \<Rightarrow> fits m' \<and> (ok \<longrightarrow> terminated m' \<and> mterm m')"
    using NulTerminate_fits [OF assms(1,2)] assms(3) by (auto split: prod.split)
  show "case sqlite3VdbeMemHandleBom os m of (ok, m', os') \<Rightarrow> fits m' \<and> (ok \<longrightarrow> terminated m')"
    using HandleBom_fits [OF assms(1,2)] assms(3) by (auto split: prod.split)
  show "case sqlite3VdbeChangeEncoding os m desired of
      None \<Rightarrow> \<not> mterm m \<and> menc m \<noteq> UTF8 \<and> length (mz m) < mn m + 2
    | Some (ok, m', os') \<Rightarrow> fits m' \<and> (ok \<longrightarrow> terminated m')"
    using Translate_fits [OF assms(1-3), of desired os] assms(1-3) by (auto simp: sqlite3VdbeChangeEncoding_def)
  show "case sqlite3VdbeMemSetStr iLimit os m (Some z) nByte enc xDel of None \<Rightarrow> False
    | Some (rc, m', os') \<Rightarrow> fits m' \<and> (rc = SET_OK \<longrightarrow> terminated m') \<and> (rc = SET_TOOBIG \<longleftrightarrow> iLimit < n)"
    using SetStr_fits [OF assms(1,6,7), of iLimit os xDel] SetStr_toobig [OF assms(5), of os m xDel] assms(1,4,5) by (auto simp: set_ok_def split: option.splits)
qed

text \<open>The witness is one high surrogate, terminated.\<close>

theorem value_memory_witness:
  "\<exists>m' os'. sqlite3VdbeMemSetStr 10 [] \<lparr>mz = [0x00, 0xD8, 0, 0], mn = 2, menc = UTF16LE, mflag = MEM_Str, mterm = True, mown = False, mspare = 0\<rparr>
    (Some [0x61, 0x62]) 2 (Some UTF8) SQLITE_TRANSIENT = Some (SET_OK, m', os') \<and> fits m'"
proof -
  let ?m = "\<lparr>mz = [0x00, 0xD8, 0, 0], mn = 2, menc = UTF16LE, mflag = MEM_Str, mterm = True, mown = False, mspare = 0\<rparr>"
  have "fits ?m" "terminated ?m" "mflag ?m = MEM_Str" "mn ?m \<le> 10" "text_length 10 [0x61, 0x62] 2 (Some UTF8) = Some 2"
    "2 < (0 :: int) \<or> nat 2 \<le> length [0x61, 0x62 :: u8]" "Some UTF8 = None \<longrightarrow> 0 \<le> (2 :: int)"
    by (simp_all add: fits_def terminated_def zeros_def text_length_def)
  note v = value_memory [OF this, where os = "[]" and desired = UTF8 and xDel = SQLITE_TRANSIENT]
  obtain rc m' os' where r: "sqlite3VdbeMemSetStr 10 [] ?m (Some [0x61, 0x62]) 2 (Some UTF8) SQLITE_TRANSIENT = Some (rc, m', os')"
    and f: "fits m'" using v [THEN conjunct2, THEN conjunct2, THEN conjunct2, THEN conjunct2, THEN conjunct1]
    by (auto split: option.splits)
  have "rc = SET_OK" using r unfolding SetStr_unfold by (simp add: text_length_def sqlite3VdbeMemGrow_def finish_def encoding_of_def Let_def)
  then show ?thesis using r f by blast
qed

text \<open>
  C9: A change of encoding between UTF-8 and UTF-16 of either byte order keeps the characters of a
  text. When memory runs out the text stays as it was, but for a change of byte order, which leaves
  NULL.
\<close>

theorem text_translated:
  assumes "holds m cs" "\<forall>c \<in> set cs. plain c"
  shows "case sqlite3VdbeChangeEncoding os m desired of
      None \<Rightarrow> False
    | Some (ok, m', os') \<Rightarrow>
        if ok then holds m' cs \<and> menc m' = desired
        else False \<in> set os \<and> (if menc m \<noteq> UTF8 \<and> desired \<noteq> UTF8 then mflag m' = MEM_Null else m' = m)"
proof (cases "menc m = desired")
  case True
  then show ?thesis using assms(1) by (simp add: sqlite3VdbeChangeEncoding_def)
next
  case False
  have "mflag m = MEM_Str" using assms(1) by (simp add: holds_def)
  then have "sqlite3VdbeChangeEncoding os m desired = sqlite3VdbeMemTranslate os m desired" using False by (simp add: sqlite3VdbeChangeEncoding_def)
  then show ?thesis using Translate_holds [OF assms False, of os] unfolding translated_def by (simp only:)
qed

theorem text_translated_witness:
  "\<exists>m' os'. sqlite3VdbeChangeEncoding [] \<lparr>mz = WRITE_UTF8 0x20AC @ [0], mn = 3, menc = UTF8, mflag = MEM_Str, mterm = True, mown = False, mspare = 0\<rparr> UTF16BE =
    Some (True, m', os') \<and> holds m' [0x20AC] \<and> menc m' = UTF16BE"
proof -
  let ?m = "\<lparr>mz = WRITE_UTF8 0x20AC @ [0], mn = 3, menc = UTF8, mflag = MEM_Str, mterm = True, mown = False, mspare = 0\<rparr>"
  have "holds ?m [0x20AC]" "\<forall>c \<in> set [0x20AC]. plain c"
    by (simp_all add: holds_def encode_def WRITE_UTF8_def plain_def scalar_def)
  from text_translated [OF this, where os = "[]" and desired = UTF16BE] show ?thesis by (auto split: option.splits if_splits)
qed

text \<open>
  C7: \<^verbatim>\<open>sqlite3Utf16to8\<close> gives the terminated UTF-8 of a UTF-16 text, with a byte-order mark of
  either order or in the machine's order without one, for a negative length and for the exact one,
  unless memory runs out. A text above the length limit is not refused: its bytes are copied as
  they are, up to the first zero.
\<close>

theorem Utf16to8_correct:
  assumes "\<forall>c \<in> set cs. plain c \<and> c \<noteq> 0" "native \<noteq> UTF8" "e \<noteq> UTF8"
    "b = [] \<and> e = native \<and> (cs = [] \<or> hd cs \<noteq> 0xFEFF) \<or> b = bom e"
    "length b + length (encode e cs) \<le> iLimit" "nByte < 0 \<or> nByte = int (length b + length (encode e cs))"
    "x \<noteq> 0" "0 < iLimit" "int iLimit < k"
  shows "(\<exists>out os'. sqlite3Utf16to8 iLimit native os (Some (b @ encode e cs @ 0 # 0 # rest)) nByte = Some (out, os') \<and>
      (case out of Some w \<Rightarrow> w = encode UTF8 cs @ [0] | None \<Rightarrow> False \<in> set os)) \<and>
    sqlite3Utf16to8 iLimit native [] (Some (x # 0 # rest)) k = Some (Some [x, 0], [])"
proof (rule conjI)
  show "\<exists>out os'. sqlite3Utf16to8 iLimit native os (Some (b @ encode e cs @ 0 # 0 # rest)) nByte = Some (out, os') \<and>
      (case out of Some w \<Rightarrow> w = encode UTF8 cs @ [0] | None \<Rightarrow> False \<in> set os)"
    by (rule Utf16to8_text [OF assms(1-6)])
  have "\<not> k < 0" "iLimit < nat k" using assms(9) by linarith+
  then show "sqlite3Utf16to8 iLimit native [] (Some (x # 0 # rest)) k = Some (Some [x, 0], [])"
    using assms(7,8) unfolding sqlite3Utf16to8_def SetStr_unfold
    by (simp add: text_length_def finish_def Let_def sqlite3VdbeMemRelease_def sqlite3VdbeChangeEncoding_def sqlite3DbStrDup_def sqlite3Strlen_def)
qed

theorem Utf16to8_correct_witness:
  "(\<exists>os'. sqlite3Utf16to8 100 UTF16LE [] (Some ([0xFE, 0xFF, 0x20, 0xAC] @ 0 # 0 # [])) (- 1) = Some (Some (encode UTF8 [0x20AC] @ [0]), os')) \<and>
    sqlite3Utf16to8 100 UTF16LE [] (Some (0x53 # 0 # [])) 1000 = Some (Some [0x53, 0], [])"
proof -
  have c: "\<forall>c \<in> set [0x20AC]. plain c \<and> c \<noteq> 0" by (simp add: plain_def scalar_def)
  have e: "encode UTF16BE [0x20AC] = [0x20, 0xAC]" "bom UTF16BE = [0xFE, 0xFF]" by (simp_all add: encode_def WRITE_UTF16BE_def bom_def)
  have l: "length (bom UTF16BE) + length (encode UTF16BE [0x20AC]) \<le> 100" by (simp add: e)
  have b: "bom UTF16BE = [] \<and> UTF16BE = UTF16LE \<and> ([0x20AC] = [] \<or> hd [0x20AC] \<noteq> 0xFEFF) \<or> bom UTF16BE = bom UTF16BE" by simp
  note w1 = Utf16to8_correct [OF c _ _ b l, where nByte = "- 1" and x = "0x53" and k = 1000 and os = "[]" and rest = "[]", unfolded e]
  show ?thesis using w1 by (auto split: option.splits)
qed

end
