(* ===== verification/Spec2Isabelle.thy ===== *)
theory Spec2Isabelle
  imports Bigint BtreeCells Complete HashTable JsDHash JsHash Mem5 Journal LikeGlob PageMarks RecordFormat RowSet TextValue
begin

text \<open>
  A model of the parts of this repository that carry their own logic: the SQLite database engine
  and the SpiderMonkey JavaScript engine as ported to eCos. The rest of the repository adapts the
  eCos kernel to them (drivers, file system, thread wrappers).

  \<^bold>\<open>The program.\<close> SQLite turns SQL text into tokens (\<^verbatim>\<open>tokenize.c\<close>, \<^verbatim>\<open>keywordhash.h\<close>,
  \<^verbatim>\<open>complete.c\<close>), stores rows as records of typed values (\<^verbatim>\<open>vdbeaux.c\<close>, \<^verbatim>\<open>vdbe.c\<close>) built from
  variable-length integers (\<^verbatim>\<open>util.c\<close>) and of text in three encodings (\<^verbatim>\<open>utf.c\<close>),
  puts the records as cells on the pages of b-trees (\<^verbatim>\<open>btree.c\<close>) and protects the pages by journals (\<^verbatim>\<open>pager.c\<close>, \<^verbatim>\<open>journal.c\<close>, \<^verbatim>\<open>memjournal.c\<close>),
  remembering pages and rows in bit vectors and row sets (\<^verbatim>\<open>bitvec.c\<close>, \<^verbatim>\<open>rowset.c\<close>), schema objects
  in hash tables (\<^verbatim>\<open>hash.c\<close>) and all of it in memory from a buddy allocator (\<^verbatim>\<open>mem5.c\<close>).
  SpiderMonkey keeps its atoms, properties and scripts in hash tables (\<^verbatim>\<open>jshash.c\<close>, \<^verbatim>\<open>jsdhash.c\<close>) and
  converts numbers exactly with multiple-precision integers (\<^verbatim>\<open>jsdtoa.c\<close>) over 64-bit arithmetic on
  two words (\<^verbatim>\<open>jslong.c\<close>).

  \<^bold>\<open>Conventions.\<close> Words have the width of their C type where overflow is part of the behaviour
  (\<open>u8\<close>, \<open>u16\<close>, \<open>u32\<close>, \<open>u64\<close>); sizes and indices that the code keeps small are natural numbers, with
  the bound a hypothesis of the theorems. A pointer is an index or an address into an explicit
  store, a C string the list of its characters before the terminator. Every call of an allocator
  takes its outcome from a list (\<open>outcomes\<close>, an empty list being success), so that each theorem
  covers every combination of failures. A loop that could run forever is a partial function into
  options, and the theorems state that it returns. Code outside the sources, such as the virtual
  file system under a journal file, is an argument, with what is relied on as a locale or as a
  named hypothesis (\<open>documented_vfs\<close> of \<open>Journal\<close>).

  \<^bold>\<open>Theories.\<close>
    \<^item> \<open>Prelude\<close>: C integer types, result codes, allocation outcomes, generic lemmas.
    \<^item> \<open>Dictionary\<close>, \<open>OpenTable\<close>, and the locales \<open>page_set\<close> of \<open>Bitvec\<close>, \<open>journal_file\<close> of \<open>JournalFile\<close>
      and \<open>journal_vfs\<close> of \<open>Journal\<close>: the contracts between components, with what clients may conclude
      from them, each interpreted on the model of the code.
    \<^item> \<open>Varint\<close> (\<^verbatim>\<open>util.c\<close>: \<^verbatim>\<open>sqlite3PutVarint\<close>, \<^verbatim>\<open>sqlite3GetVarint\<close>, the 32-bit variants, four-byte
      fields): round trips, and the unrolled decoder against a byte-at-a-time one.
    \<^item> \<open>RecordFormat\<close> (\<^verbatim>\<open>vdbeaux.c\<close>, \<^verbatim>\<open>vdbe.c\<close>, \<^verbatim>\<open>vdbemem.c\<close>): serial types, packing and unpacking of
      records, their comparison against an order of values stated without the code, the rowid of an
      index entry; a register whose buffer cannot grow is packed as the NULL it becomes.
    \<^item> \<open>BtreePage\<close>, \<open>BtreeCells\<close> (\<^verbatim>\<open>btree.c\<close>): the bytes of one b-tree page and the functions on it. The
      first has the code and the lemmas on cells and free blocks, the second an abstract page (a list
      of cells, free bytes, fragments) and the refinement of inserting, dropping, defragmenting,
      assembling and reading a page to it.
    \<^item> \<open>Bitvec\<close>, \<open>PageMarks\<close> (\<^verbatim>\<open>bitvec.c\<close>, parts of \<^verbatim>\<open>pager.c\<close> and \<^verbatim>\<open>btree.c\<close>): the bit vector as a set in
      its three representations, and its use for savepoints and freed pages.
    \<^item> \<open>RowSet\<close> (\<^verbatim>\<open>rowset.c\<close>): insertion, the bucket merge sort, draining in order.
    \<^item> \<open>JournalFile\<close>, \<open>MemJournal\<close>, \<open>Journal\<close> (\<^verbatim>\<open>pager.c\<close>, \<^verbatim>\<open>memjournal.c\<close>, \<^verbatim>\<open>journal.c\<close>): sub-journal records
      over any journal file, the chunked in-memory journal, the buffered one over any file system;
      both journals meet the contract, so that a sub-journal is played back from either, and the
      buffered one serves all requests of a file like a list of bytes (\<open>file_run\<close>).
    \<^item> \<open>HashTable\<close> (\<^verbatim>\<open>hash.c\<close>), \<open>JsHash\<close> (\<^verbatim>\<open>jshash.c\<close>), \<open>JsDHash\<close> (\<^verbatim>\<open>jsdhash.c\<close>), \<open>JsBit\<close> (\<^verbatim>\<open>jsbit.h\<close>, \<^verbatim>\<open>jslog2.c\<close>):
      the hash tables, each with its invariant (one doubly linked list threaded through all buckets;
      chains moved to front; probe sequences with collision flags) and the map it stands for, under
      growth, shrinking and failing allocations. All three meet \<open>Dictionary\<close>; the theorem of this
      theory follows.
    \<^item> \<open>SqText\<close> (\<^verbatim>\<open>util.c\<close>), \<open>Keywords\<close>, \<open>Tokenize\<close>, \<open>Complete\<close>: text comparison and number recognition, the
      generated keyword tables, the tokenizer and the loop that feeds any parser, and the automaton
      of statement completeness with the grammar it decides.
    \<^item> \<open>Utf\<close> (\<^verbatim>\<open>utf.c\<close>), \<open>TextValue\<close> (\<^verbatim>\<open>utf.c\<close>, \<^verbatim>\<open>vdbemem.c\<close>): the three encodings of text, character by
      character and for whole texts, and the text of a value: its memory and terminator, setting it,
      byte-order marks, translation, up to \<^verbatim>\<open>sqlite3Utf16to8\<close>. The operations that set, terminate
      and translate a text keep the invariant \<open>fits\<close>, and a translation keeps the characters a value \<open>holds\<close>.
    \<^item> \<open>LikeGlob\<close> (\<^verbatim>\<open>func.c\<close>): the comparison behind LIKE and GLOB over the bytes of UTF-8, against a
      matcher on the tokens of the pattern.
    \<^item> \<open>Mem5\<close> (\<^verbatim>\<open>mem5.c\<close>): the buddy allocator as a state machine with its client; allocations stay
      apart and keep their bytes, and every request that fits an aligned free run is served.
    \<^item> \<open>JsLong\<close>, \<open>Bigint\<close> (\<^verbatim>\<open>jslong.c\<close>, \<^verbatim>\<open>jslong.h\<close>, \<^verbatim>\<open>jsdtoa.c\<close>): arithmetic on 64 bits in two words and on
      arrays of words in the 16-bit variant, against the integers.

  \<^bold>\<open>Bounds and termination.\<close> Most recursions are structural or have a measure. A few loops count their
  turns, \<open>None\<close> being a loop that has not ended: the probing loops of \<open>Bitvec\<close> (as many turns as the
  hash has entries; one is always free when they run), its \<open>bv_set\<close> (8 levels of nested
  calls, enough for every well-formed vector), \<open>keyword_loop\<close> of \<open>Keywords\<close> (8 links, more than the longest
  chain has), and \<open>parser_loop\<close> of \<open>Tokenize\<close> (the length of the text and one, as
  every turn reads a character); the theorems about them state a result and not \<open>None\<close>. The loops over
  linked memory (\<open>clear_loop\<close>, \<open>rehash_loop\<close>, \<open>hash_walk\<close> of \<open>HashTable\<close>,
  \<open>search_loop\<close> of \<open>JsDHash\<close>, the walks of \<open>Mem5\<close> and of the page's free list) are partial functions that
  the theorems show to return on well-formed states. The bounds assumed are those of the code's
  types or sizes: fewer than 2^31 elements for \<^verbatim>\<open>hash.c\<close>, pages of at most 32768 bytes, requests of at
  most 2^30 bytes for \<^verbatim>\<open>mem5.c\<close>, words of at most 2^15 digits for \<^verbatim>\<open>jsdtoa.c\<close>.

  \<^bold>\<open>Not modelled.\<close>
    \<^item> SQLite's b-tree above one page (cursors, balancing, transactions), pager and page cache beyond
      the parts named: they work on pages shared through the cache, on file locks and on the order in
      which the operating system writes.
    \<^item> The virtual machine, the code generator and the parser generated by lemon: a translation from
      parse trees to a byte code over b-tree cursors; \<^verbatim>\<open>sqlite3RunParser\<close> is modelled over any parser.
    \<^item> SQL functions other than LIKE and GLOB, and values that are numbers, as far as they are not part
      of the record format.
    \<^item> Everything over floating-point numbers: \<^verbatim>\<open>sqlite3AtoF\<close>, dates, \<^verbatim>\<open>printf\<close> of reals, the last digits
      of \<^verbatim>\<open>JS_strtod\<close> and \<^verbatim>\<open>JS_dtostr\<close>, \<^verbatim>\<open>JS_DHashTableSetAlphaBounds\<close>.
    \<^item> SpiderMonkey's objects, garbage collector, interpreter, compiler and native classes: one mutable
      graph of objects that all of them share.
    \<^item> The operating system layers, mutexes and allocation wrappers, and the eCos parts (drivers, FAT
      file system, semaphores): calls into code that is not in the repository.
    \<^item> Statistics, debug dumps and assertions. Releasing whole structures is modelled where it is
      observable.
\<close>

section \<open>Three tables, one contract\<close>

text \<open>
  C24: Whatever requests a client sends to new tables of the three kinds, SQLite's and both of
  SpiderMonkey's, and whichever allocations fail, every table answers like a map: SpiderMonkey's
  over the strings, SQLite's over the strings without their case. Where the same requests to store
  are granted, SpiderMonkey's two tables give the same answers.
\<close>

theorem tables_serve_alike:
  assumes "JS_NewHashTable os1 n1 = (Some jt, os1')" "n1 \<le> 2 ^ 29"
    and "JS_DHashTableInit os2 string_dops n2 = (Some dt, os2')" "n2 \<le> 2 ^ 31"
    and "\<forall>r \<in> set rs. sq_key (request_key r)" "length rs < 2 ^ 31"
  shows "answers (\<lambda>k. k) Map.empty rs (serve_all jh_get jh_put jh_del (jt, os1') rs) \<and>
    answers (\<lambda>k. k) Map.empty rs (serve_all dh_get dh_put dh_del (dt, os2') rs) \<and>
    answers sq_norm Map.empty rs (serve_all sq_get sq_put sq_del (sqlite3HashInit ck, os3) rs) \<and>
    (filter (\<lambda>a. \<exists>ok. a = Stored ok) (serve_all jh_get jh_put jh_del (jt, os1') rs) =
       filter (\<lambda>a. \<exists>ok. a = Stored ok) (serve_all dh_get dh_put dh_del (dt, os2') rs) \<longrightarrow>
     serve_all jh_get jh_put jh_del (jt, os1') rs = serve_all dh_get dh_put dh_del (dt, os2') rs)"
proof -
  have "jh_rep (length rs) (jt, os1') Map.empty"
    using NewHashTable_empty [OF assms(1,2), of string_hops] by (simp add: jh_rep_def)
  then have j: "answers (\<lambda>k. k) Map.empty rs (serve_all jh_get jh_put jh_del (jt, os1') rs)" by (rule jh.serve_all_answers) simp
  obtain ok os where a: "alloc_next os2 = (ok, os)" by (rule prod.exhaust)
  have ok
  proof (rule ccontr)
    assume "\<not> ok"
    then have "fst (JS_DHashTableInit os2 string_dops n2) = None" by (simp add: JS_DHashTableInit_def Let_def a)
    then show False using assms(3) by simp
  qed
  then have "alloc_next os2 = (True, os)" using a by simp
  from JS_DHashTableInit_empty [OF this assms(4), of string_dops]
  have "dh_rep (length rs) (dt, os2') Map.empty" unfolding assms(3) by (simp add: dh_rep_def)
  then have d: "answers (\<lambda>k. k) Map.empty rs (serve_all dh_get dh_put dh_del (dt, os2') rs)" by (rule dh.serve_all_answers) simp
  have "sq_rep (length rs) (sqlite3HashInit ck, os3) Map.empty" using init_maps assms(6) by (simp add: sq_rep_def)
  then have s: "answers sq_norm Map.empty rs (serve_all sq_get sq_put sq_del (sqlite3HashInit ck, os3) rs)" by (rule sq.serve_all_answers) (rule assms(5))
  show ?thesis using j d s answers_determined [OF j d] by blast
qed

definition wit_requests :: "(string, u32) request list" where
  "wit_requests = [Store ''ab'' 1, Find ''ab'', Remove ''ab'', Find ''ab'']"

theorem tables_serve_alike_witness:
  "\<exists>dt. JS_DHashTableInit [] string_dops 0 = (Some dt, []) \<and>
    answers (\<lambda>k. k) Map.empty wit_requests (serve_all jh_get jh_put jh_del (wit_ht, []) wit_requests) \<and>
    answers (\<lambda>k. k) Map.empty wit_requests (serve_all dh_get dh_put dh_del (dt, []) wit_requests) \<and>
    answers sq_norm Map.empty wit_requests (serve_all sq_get sq_put sq_del (sqlite3HashInit True, []) wit_requests)"
proof -
  obtain dt where dt: "JS_DHashTableInit [] string_dops 0 = (Some dt, [])" using DHash_Init_ok [of 0 "[]" "[]" string_dops] by auto
  have k: "\<forall>r \<in> set wit_requests. sq_key (request_key r)" "length wit_requests < 2 ^ 31"
    by (simp_all add: wit_requests_def sq_key_def cstr_def)
  show ?thesis using tables_serve_alike [OF wit_ht_new _ dt _ k, of True "[]"] dt by simp
qed

end
